(* ===== verification/NF_Prelude.thy ===== *)
theory NF_Prelude
  imports Main "HOL-Library.Word" "HOL-Library.State_Monad"
begin

text \<open>
  Shared vocabulary of the development: the machine types of the C sources, a
  small total-correctness calculus for the state monad in which the effectful
  code is written, and the word and list lemmas that every component uses.

  \<^item> \<open>u64\<close> is \<^verbatim>\<open>uint64_t\<close>; \<open>size_t\<close> values are
    naturals, with the platform bound \<open>SIZE_MAX\<close> (64-bit targets) tested wherever
    the code tests it.
  \<^item> \<open>triple ok m Q\<close>: from every state that satisfies \<open>ok\<close>, running \<open>m\<close>
    ends in a state that satisfies \<open>ok\<close> and returns a value that satisfies
    \<open>Q\<close>. Its rules are collected in \<open>wp\<close> and used backwards.
\<close>

section \<open>Collections of facts\<close>

named_theorems wp \<open>backward rules of the total-correctness calculus\<close>
named_theorems limb_arith \<open>arithmetic of single limbs\<close>

section \<open>Machine types\<close>

type_synonym u64 = "64 word"

abbreviation UINT64_MAX :: u64 where
  "UINT64_MAX \<equiv> - 1"

definition SIZE_MAX :: nat where
  "SIZE_MAX = 2 ^ 64 - 1"

text \<open>The radix of the limb representation, kept opaque so that arithmetic on it
  stays symbolic.\<close>

definition LB :: nat where
  "LB = 2 ^ 64"

lemma LB_pos [simp]: "0 < LB"
  by (simp add: LB_def)

lemma LB_gt_1 [simp]: "Suc 0 < LB"
  by (simp add: LB_def)

lemma LB_neq_0 [simp]: "LB \<noteq> 0"
  by (simp add: LB_def)

lemma LB_ge_2: "2 \<le> LB"
  by (simp add: LB_def)

lemma unat_lt_LB [simp]: "unat (x :: u64) < LB"
  using unsigned_less [of x, where ?'a = nat] by (simp add: LB_def)

lemma unat_le_LB: "unat (x :: u64) \<le> LB - 1"
  using unat_lt_LB [of x] by linarith

lemma unat_add_mod: "unat (x + y :: u64) = (unat x + unat y) mod LB"
  by (simp add: unat_word_ariths LB_def)

lemma unat_mult_mod: "unat (x * y :: u64) = (unat x * unat y) mod LB"
  by (simp add: unat_word_ariths LB_def)

lemma unat_eq_0_iff: "unat (x :: u64) = 0 \<longleftrightarrow> x = 0"
  by (simp add: unat_eq_zero)

lemma unat_UINT64_MAX [simp]: "unat UINT64_MAX = LB - 1"
  by (simp add: LB_def unsigned_minus_1_eq_mask mask_eq_exp_minus_1)

text \<open>Wrap-around detection as the code writes it: \<^verbatim>\<open>sum = x + y; carry = sum < x\<close>.\<close>

lemma add_carry [limb_arith]:
  "unat (x + y :: u64) + LB * of_bool (x + y < x) = unat x + unat y"
proof (cases "unat x + unat y < LB")
  case True
  then show ?thesis by (simp add: unat_add_mod word_less_nat_alt)
next
  case False
  have small: "unat x + unat y - LB < LB"
    using unat_lt_LB [of x] unat_lt_LB [of y] by linarith
  then have eq: "(unat x + unat y) mod LB = unat x + unat y - LB"
    using False by (simp add: le_mod_geq)
  have "unat x + unat y - LB < unat x"
    using False unat_lt_LB [of y] by linarith
  then have "x + y < x" by (simp add: word_less_nat_alt unat_add_mod eq)
  then show ?thesis
    using False by (simp add: unat_add_mod eq)
qed

lemma add_carry_right [limb_arith]:
  "unat (x + y :: u64) + LB * of_bool (x + y < y) = unat x + unat y"
  using add_carry [of y x] by (simp add: add.commute)

text \<open>Borrow detection: \<^verbatim>\<open>d = x - y; borrow = x < y\<close>.\<close>

lemma sub_borrow [limb_arith]:
  "unat (x - y :: u64) + unat y = unat x + LB * of_bool (x < y)"
proof -
  have "unat (x - y + y) + LB * of_bool (x - y + y < y) = unat (x - y) + unat y"
    by (rule add_carry_right)
  then show ?thesis by simp
qed

lemma unat_of_bool [simp]: "unat (of_bool b :: u64) = of_bool b"
  by (cases b) auto

section \<open>A total-correctness calculus for the state monad\<close>

definition triple :: "('s \<Rightarrow> bool) \<Rightarrow> ('s, 'a) state \<Rightarrow> ('a \<Rightarrow> bool) \<Rightarrow> bool" where
  "triple ok m Q \<longleftrightarrow> (\<forall>s. ok s \<longrightarrow> (case run_state m s of (v, s') \<Rightarrow> ok s' \<and> Q v))"

lemma tripleI:
  "(\<And>s v s'. ok s \<Longrightarrow> run_state m s = (v, s') \<Longrightarrow> ok s' \<and> Q v) \<Longrightarrow> triple ok m Q"
  by (auto simp: triple_def)

lemma tripleD:
  "triple ok m Q \<Longrightarrow> ok s \<Longrightarrow> run_state m s = (v, s') \<Longrightarrow> ok s' \<and> Q v"
  unfolding triple_def by fastforce

lemma triple_run:
  "triple ok m Q \<Longrightarrow> ok s \<Longrightarrow> ok (snd (run_state m s)) \<and> Q (fst (run_state m s))"
  by (cases "run_state m s") (auto dest: tripleD)

lemma triple_conseq: "triple ok m P \<Longrightarrow> (\<And>v. P v \<Longrightarrow> Q v) \<Longrightarrow> triple ok m Q"
  by (auto simp: triple_def split: prod.splits)

lemma triple_return [wp]: "Q x \<Longrightarrow> triple ok (State_Monad.return x) Q"
  by (simp add: triple_def)

lemma triple_bind [wp]:
  assumes "triple ok m (\<lambda>x. triple ok (f x) Q)"
  shows "triple ok (State_Monad.bind m f) Q"
proof (rule tripleI)
  fix s v s'
  assume ok: "ok s" and run: "run_state (State_Monad.bind m f) s = (v, s')"
  obtain x t where m: "run_state m s = (x, t)" by fastforce
  with assms ok have "ok t" "triple ok (f x) Q" by (auto dest: tripleD)
  with run m show "ok s' \<and> Q v" by (auto dest: tripleD)
qed

lemma triple_if [wp]:
  "(P \<Longrightarrow> triple ok a Q) \<Longrightarrow> (\<not> P \<Longrightarrow> triple ok b Q) \<Longrightarrow> triple ok (if P then a else b) Q"
  by simp

lemma triple_let: "triple ok (f x) Q \<Longrightarrow> triple ok (Let x f) Q"
  by (simp add: Let_def)

lemma triple_case_prod [wp]:
  "(\<And>a b. p = (a, b) \<Longrightarrow> triple ok (f a b) Q) \<Longrightarrow> triple ok (case p of (a, b) \<Rightarrow> f a b) Q"
  by (cases p) simp

lemma triple_case_pair: "triple ok (f a b) Q \<Longrightarrow> triple ok (case (a, b) of (a, b) \<Rightarrow> f a b) Q"
  by simp

lemma triple_case_option [wp]:
  "(x = None \<Longrightarrow> triple ok m Q) \<Longrightarrow> (\<And>y. x = Some y \<Longrightarrow> triple ok (f y) Q) \<Longrightarrow>
   triple ok (case x of None \<Rightarrow> m | Some y \<Rightarrow> f y) Q"
  by (cases x) auto

lemma triple_case_bool [wp]:
  "(b \<Longrightarrow> triple ok m Q) \<Longrightarrow> (\<not> b \<Longrightarrow> triple ok m' Q) \<Longrightarrow>
   triple ok (case b of True \<Rightarrow> m | False \<Rightarrow> m') Q"
  by (cases b) auto

section \<open>Lists\<close>

lemma take_Suc_snoc: "i < length xs \<Longrightarrow> take (Suc i) xs = take i xs @ [xs ! i]"
  by (rule take_Suc_conv_app_nth)

lemma take_update_ge [simp]: "i \<le> j \<Longrightarrow> take i (xs[j := v]) = take i xs"
  by simp

lemma drop_update_lt [simp]: "j < i \<Longrightarrow> drop i (xs[j := v]) = drop i xs"
  by simp

end
