(* ===== verification/Calculator_Tokenizer.thy ===== *)
theory Calculator_Tokenizer
  imports NF_Prelude "HOL-Library.Char_ord"
begin

text \<open>
  The lexical layer of the calculator: statuses and errors of
  \<^verbatim>\<open>calculator_internal.h\<close>, and the tokenizer of
  \<^verbatim>\<open>src/engine/parser\<close>.

  The input is the list of bytes of the C string without its \<^verbatim>\<open>NUL\<close>; \<open>input_at\<close>
  reads a byte, the \<^verbatim>\<open>NUL\<close> at the end included. Pointers into the input are
  positions. A token is a bytes_between of the input, \<open>token_slice\<close>.
\<close>

section \<open>Statuses, errors and tokens\<close>

datatype CalculatorStatus =
    CALCULATOR_OK
  | CALCULATOR_NULL_ARGUMENT
  | CALCULATOR_OUT_OF_MEMORY
  | CALCULATOR_INVALID_ARGUMENT
  | CALCULATOR_INVALID_TOKEN
  | CALCULATOR_SYNTAX_ERROR
  | CALCULATOR_DIVISION_BY_ZERO
  | CALCULATOR_VALUE_TOO_LARGE
  | CALCULATOR_SCALE_OVERFLOW
  | CALCULATOR_TIME_LIMIT
  | CALCULATOR_NOT_IMPLEMENTED
  | CALCULATOR_ARGUMENT_COUNT
  | CALCULATOR_UNDEFINED_ANSWER
  | CALCULATOR_STALE_REQUEST
  | CALCULATOR_SESSION_EXPIRED
  | CALCULATOR_UNDEFINED_VARIABLE
  | CALCULATOR_UNKNOWN_UNIT
  | CALCULATOR_INCOMPATIBLE_UNITS
  | CALCULATOR_DIMENSION_ERROR
  | CALCULATOR_SESSION_BUSY
  | CALCULATOR_SESSION_MEMORY_LIMIT

record CalculatorError =
  error_status :: CalculatorStatus
  error_offset :: nat

definition calculator_error_set :: "CalculatorError \<Rightarrow> CalculatorStatus \<Rightarrow> nat \<Rightarrow> CalculatorError" where
  "calculator_error_set err status position = err\<lparr>error_status := status, error_offset := position\<rparr>"

definition calculator_error_clear :: "CalculatorError \<Rightarrow> CalculatorError" where
  "calculator_error_clear err = calculator_error_set err CALCULATOR_OK 0"

datatype CalculatorTokenType =
    CALCULATOR_TOKEN_NUMBER
  | CALCULATOR_TOKEN_UNIT
  | CALCULATOR_TOKEN_IDENTIFIER
  | CALCULATOR_TOKEN_PLUS
  | CALCULATOR_TOKEN_MINUS
  | CALCULATOR_TOKEN_STAR
  | CALCULATOR_TOKEN_SLASH
  | CALCULATOR_TOKEN_CARET
  | CALCULATOR_TOKEN_SQUARE
  | CALCULATOR_TOKEN_CUBE
  | CALCULATOR_TOKEN_FACTORIAL
  | CALCULATOR_TOKEN_SQRT
  | CALCULATOR_TOKEN_SEMICOLON
  | CALCULATOR_TOKEN_LEFT_PAREN
  | CALCULATOR_TOKEN_RIGHT_PAREN
  | CALCULATOR_TOKEN_END

text \<open>\<open>token_text\<close> is the pointer to the first byte.\<close>

record CalculatorToken =
  token_type :: CalculatorTokenType
  token_text :: nat
  token_length :: nat
  token_offset :: nat

record CalculatorTokenizer =
  tokenizer_input :: string
  tokenizer_length :: nat
  tokenizer_offset :: nat

definition input_at :: "string \<Rightarrow> nat \<Rightarrow> char" where
  "input_at cs i = (if i < length cs then cs ! i else CHR 0x00)"

definition token_slice :: "string \<Rightarrow> CalculatorToken \<Rightarrow> string" where
  "token_slice cs t = take (token_length t) (drop (token_text t) cs)"

section \<open>Character classes\<close>

definition calculator_is_whitespace :: "char \<Rightarrow> bool" where
  "calculator_is_whitespace c \<longleftrightarrow> c = CHR '' '' \<or> c = CHR 0x09 \<or> c = CHR 0x0A \<or> c = CHR 0x0D \<or> c = CHR 0x0C \<or> c = CHR 0x0B"

definition calculator_is_digit :: "char \<Rightarrow> bool" where
  "calculator_is_digit c \<longleftrightarrow> c \<ge> CHR ''0'' \<and> c \<le> CHR ''9''"

definition calculator_is_identifier_start :: "char \<Rightarrow> bool" where
  "calculator_is_identifier_start c \<longleftrightarrow> c \<ge> CHR ''A'' \<and> c \<le> CHR ''Z'' \<or> c \<ge> CHR ''a'' \<and> c \<le> CHR ''z''"

definition calculator_is_greek_constant_start :: "string \<Rightarrow> nat \<Rightarrow> bool" where
  "calculator_is_greek_constant_start cs i \<longleftrightarrow>
     input_at cs i = CHR 0xCF \<and> (input_at cs (i + 1) = CHR 0x80 \<or> input_at cs (i + 1) = CHR 0x86)"

definition calculator_superscript_token_type :: "string \<Rightarrow> nat \<Rightarrow> CalculatorTokenType" where
  "calculator_superscript_token_type cs i =
    (if input_at cs i = CHR 0xC2 \<and> input_at cs (i + 1) = CHR 0xB2 then CALCULATOR_TOKEN_SQUARE
     else if input_at cs i = CHR 0xC2 \<and> input_at cs (i + 1) = CHR 0xB3 then CALCULATOR_TOKEN_CUBE
     else CALCULATOR_TOKEN_END)"

definition calculator_is_decimal_separator :: "char \<Rightarrow> bool" where
  "calculator_is_decimal_separator c \<longleftrightarrow> c = CHR ''.'' \<or> c = CHR '',''"

section \<open>Reading tokens\<close>

text \<open>\<^verbatim>\<open>while (P(input[cursor])) cursor++;\<close> for a class \<open>P\<close> the \<^verbatim>\<open>NUL\<close> is not in\<close>

function scan_while :: "(char \<Rightarrow> bool) \<Rightarrow> string \<Rightarrow> nat \<Rightarrow> nat" where
  "scan_while P cs cursor = (if cursor < length cs \<and> P (cs ! cursor) then scan_while P cs (cursor + 1) else cursor)"
  by pat_completeness auto
termination by (relation "measure (\<lambda>(P, cs, cursor). length cs - cursor)") auto

declare scan_while.simps [simp del]

definition calculator_set_token ::
  "CalculatorToken \<Rightarrow> CalculatorTokenType \<Rightarrow> nat \<Rightarrow> nat \<Rightarrow> nat \<Rightarrow> CalculatorToken" where
  "calculator_set_token t type start len position =
     t\<lparr>token_type := type, token_text := start, token_length := len, token_offset := position\<rparr>"

type_synonym token_result = "CalculatorStatus \<times> CalculatorTokenizer \<times> CalculatorToken \<times> CalculatorError"

text \<open>The part of a number after a decimal separator, and whether it has digits; the exponent, which is
  taken only with digits.\<close>

definition number_fraction :: "string \<Rightarrow> nat \<Rightarrow> nat \<times> bool" where
  "number_fraction cs cursor =
    (if calculator_is_decimal_separator (input_at cs cursor)
     then (let after = scan_while calculator_is_digit cs (cursor + 1) in (after, cursor + 1 < after))
     else (cursor, False))"

definition number_exponent :: "string \<Rightarrow> nat \<Rightarrow> nat" where
  "number_exponent cs cursor =
    (if input_at cs cursor = CHR ''E''
     then (let exponent_cursor = cursor + 1;
               exponent_cursor =
                 (if input_at cs exponent_cursor = CHR ''+'' \<or> input_at cs exponent_cursor = CHR ''-''
                  then exponent_cursor + 1 else exponent_cursor)
           in if calculator_is_digit (input_at cs exponent_cursor)
              then scan_while calculator_is_digit cs (exponent_cursor + 1) else cursor)
     else cursor)"

definition calculator_read_number ::
  "CalculatorTokenizer \<Rightarrow> CalculatorToken \<Rightarrow> CalculatorError \<Rightarrow> token_result" where
  "calculator_read_number tokenizer t err =
    (let cs = tokenizer_input tokenizer;
         start = tokenizer_offset tokenizer;
         cursor = scan_while calculator_is_digit cs start;
         digits_before_point = start < cursor;
         (cursor, digits_after_point) = number_fraction cs cursor
     in if \<not> digits_before_point \<and> \<not> digits_after_point
        then (CALCULATOR_INVALID_TOKEN, tokenizer, t, calculator_error_set err CALCULATOR_INVALID_TOKEN start)
        else
          (let cursor = number_exponent cs cursor
           in if calculator_is_decimal_separator (input_at cs cursor)
              then (CALCULATOR_INVALID_TOKEN, tokenizer, t, calculator_error_set err CALCULATOR_INVALID_TOKEN cursor)
              else (CALCULATOR_OK, tokenizer\<lparr>tokenizer_offset := cursor\<rparr>,
                calculator_set_token t CALCULATOR_TOKEN_NUMBER start (cursor - start) start, calculator_error_clear err)))"

definition calculator_read_identifier ::
  "CalculatorTokenizer \<Rightarrow> CalculatorToken \<Rightarrow> CalculatorError \<Rightarrow> token_result" where
  "calculator_read_identifier tokenizer t err =
    (let cs = tokenizer_input tokenizer;
         start = tokenizer_offset tokenizer
     in if calculator_is_greek_constant_start cs start
        then (CALCULATOR_OK, tokenizer\<lparr>tokenizer_offset := start + 2\<rparr>,
          calculator_set_token t CALCULATOR_TOKEN_IDENTIFIER start 2 start, calculator_error_clear err)
        else
          (let cursor = scan_while calculator_is_identifier_start cs (start + 1)
           in (CALCULATOR_OK, tokenizer\<lparr>tokenizer_offset := cursor\<rparr>,
             calculator_set_token t CALCULATOR_TOKEN_IDENTIFIER start (cursor - start) start, calculator_error_clear err)))"

text \<open>The bytes a quoted unit may have, the loop over them, which tells whether it reached the
  closing quote, and the token types of single bytes.\<close>

definition unit_character :: "char \<Rightarrow> bool" where
  "unit_character c \<longleftrightarrow> calculator_is_identifier_start c \<or> calculator_is_digit c \<or> c = CHR ''/'' \<or> c = CHR ''_''"

definition read_unit :: "string \<Rightarrow> nat \<Rightarrow> bool \<times> nat" where
  "read_unit cs cursor = (let stop = scan_while unit_character cs cursor in (input_at cs stop = CHR 0x22, stop))"

definition operator_token :: "char \<Rightarrow> CalculatorTokenType option" where
  "operator_token c =
    (if c = CHR '';'' then Some CALCULATOR_TOKEN_SEMICOLON
     else if c = CHR ''+'' then Some CALCULATOR_TOKEN_PLUS
     else if c = CHR ''-'' then Some CALCULATOR_TOKEN_MINUS
     else if c = CHR ''*'' then Some CALCULATOR_TOKEN_STAR
     else if c = CHR ''/'' then Some CALCULATOR_TOKEN_SLASH
     else if c = CHR ''^'' then Some CALCULATOR_TOKEN_CARET
     else if c = CHR ''!'' then Some CALCULATOR_TOKEN_FACTORIAL
     else if c = CHR ''('' then Some CALCULATOR_TOKEN_LEFT_PAREN
     else if c = CHR '')'' then Some CALCULATOR_TOKEN_RIGHT_PAREN
     else None)"

definition calculator_tokenizer_init :: "string \<Rightarrow> CalculatorTokenizer" where
  "calculator_tokenizer_init cs = \<lparr>tokenizer_input = cs, tokenizer_length = length cs, tokenizer_offset = 0\<rparr>"

definition calculator_tokenizer_next ::
  "CalculatorTokenizer \<Rightarrow> CalculatorToken \<Rightarrow> CalculatorError \<Rightarrow> token_result" where
  "calculator_tokenizer_next tokenizer t err =
    (let cs = tokenizer_input tokenizer;
         tokenizer = tokenizer\<lparr>tokenizer_offset := scan_while calculator_is_whitespace cs (tokenizer_offset tokenizer)\<rparr>;
         position = tokenizer_offset tokenizer;
         character = input_at cs position;
         superscript_type = calculator_superscript_token_type cs position
     in if tokenizer_length tokenizer - position \<ge> 3 \<and> take 3 (drop position cs) = [CHR 0xE2, CHR 0x88, CHR 0x9A]
        then (CALCULATOR_OK, tokenizer\<lparr>tokenizer_offset := position + 3\<rparr>,
          calculator_set_token t CALCULATOR_TOKEN_SQRT position 3 position, calculator_error_clear err)
        else if calculator_is_digit character \<or>
          calculator_is_decimal_separator character \<and> calculator_is_digit (input_at cs (position + 1))
        then calculator_read_number tokenizer t err
        else if superscript_type \<noteq> CALCULATOR_TOKEN_END
        then (CALCULATOR_OK, tokenizer\<lparr>tokenizer_offset := position + 2\<rparr>,
          calculator_set_token t superscript_type position 2 position, calculator_error_clear err)
        else if calculator_is_greek_constant_start cs position \<or> calculator_is_identifier_start character
        then calculator_read_identifier tokenizer t err
        else if character = CHR 0x22
        then (case read_unit cs (position + 1) of (closed, cursor) \<Rightarrow>
          if \<not> closed then (CALCULATOR_INVALID_TOKEN, tokenizer, t, calculator_error_set err CALCULATOR_INVALID_TOKEN cursor)
          else (CALCULATOR_OK, tokenizer\<lparr>tokenizer_offset := cursor + 1\<rparr>,
            calculator_set_token t CALCULATOR_TOKEN_UNIT (position + 1) (cursor - position - 1) position,
            calculator_error_clear err))
        else (case operator_token character of
            Some type \<Rightarrow> (CALCULATOR_OK, tokenizer\<lparr>tokenizer_offset := position + 1\<rparr>,
              calculator_set_token t type position 1 position, calculator_error_clear err)
          | None \<Rightarrow>
              if character = CHR 0x00
              then (CALCULATOR_OK, tokenizer, calculator_set_token t CALCULATOR_TOKEN_END position 0 position, calculator_error_clear err)
              else (CALCULATOR_INVALID_TOKEN, tokenizer, t, calculator_error_set err CALCULATOR_INVALID_TOKEN position)))"

section \<open>The lexical grammar\<close>

text \<open>The bytes from position \<open>i\<close> up to \<open>j\<close>.\<close>

definition bytes_between :: "string \<Rightarrow> nat \<Rightarrow> nat \<Rightarrow> string" where
  "bytes_between cs i j = take (j - i) (drop i cs)"

text \<open>The sets of bytes the lexical classes are made of, spelled out: what the tests of the code decide.\<close>

definition digit_bytes :: "char set" where
  "digit_bytes = set ''0123456789''"

definition letter_bytes :: "char set" where
  "letter_bytes = set ''ABCDEFGHIJKLMNOPQRSTUVWXYZ'' \<union> set ''abcdefghijklmnopqrstuvwxyz''"

definition separator_bytes :: "char set" where
  "separator_bytes = set ''.,''"

definition white_space :: "char set" where
  "white_space = {CHR '' '', CHR 0x09, CHR 0x0A, CHR 0x0B, CHR 0x0C, CHR 0x0D}"

definition unit_bytes :: "char set" where
  "unit_bytes = letter_bytes \<union> digit_bytes \<union> set ''/_''"

lemma char_range: "c \<in> A \<longleftrightarrow> (of_char c :: nat) \<in> of_char ` A"
  by (simp add: inj_image_mem_iff [OF inj_of_char])

lemma char_codes:
  "of_char ` digit_bytes = {48..57 :: nat}" "of_char ` letter_bytes = {65..90 :: nat} \<union> {97..122}"
proof -
  have lists: "{48..57} = set [48..<58 :: nat]" "{65..90} = set [65..<91 :: nat]" "{97..122} = set [97..<123 :: nat]"
    unfolding set_upt by auto
  show "of_char ` digit_bytes = {48..57 :: nat}" "of_char ` letter_bytes = {65..90 :: nat} \<union> {97..122}"
    unfolding lists digit_bytes_def letter_bytes_def image_Un by (simp_all add: upt_rec_numeral del: set_upt)
qed

lemma is_digit_iff: "calculator_is_digit c \<longleftrightarrow> c \<in> digit_bytes"
  unfolding calculator_is_digit_def char_range [of c digit_bytes] char_codes by (simp add: less_eq_char_def)

lemma is_letter_iff: "calculator_is_identifier_start c \<longleftrightarrow> c \<in> letter_bytes"
  unfolding calculator_is_identifier_start_def char_range [of c letter_bytes] char_codes by (simp add: less_eq_char_def)

lemma class_iff:
  "calculator_is_decimal_separator c \<longleftrightarrow> c \<in> separator_bytes" "calculator_is_whitespace c \<longleftrightarrow> c \<in> white_space"
  "unit_character c \<longleftrightarrow> c \<in> unit_bytes"
  by (auto simp: calculator_is_decimal_separator_def separator_bytes_def calculator_is_whitespace_def white_space_def
    unit_character_def unit_bytes_def is_digit_iff is_letter_iff)

lemmas classes_iff = is_digit_iff is_letter_iff class_iff

lemma all_iff:
  "list_all calculator_is_digit s \<longleftrightarrow> set s \<subseteq> digit_bytes" "list_all calculator_is_identifier_start s \<longleftrightarrow> set s \<subseteq> letter_bytes"
  "list_all calculator_is_whitespace s \<longleftrightarrow> set s \<subseteq> white_space" "list_all unit_character s \<longleftrightarrow> set s \<subseteq> unit_bytes"
  by (auto simp: list_all_iff classes_iff)

definition fraction_part :: "string \<Rightarrow> bool" where
  "fraction_part s \<longleftrightarrow> s = [] \<or> (\<exists>c ds. s = c # ds \<and> c \<in> separator_bytes \<and> set ds \<subseteq> digit_bytes)"

definition exponent_part :: "string \<Rightarrow> bool" where
  "exponent_part s \<longleftrightarrow> s = [] \<or> (\<exists>sign ds. s = ''E'' @ sign @ ds \<and> (sign = [] \<or> sign = ''+'' \<or> sign = ''-'') \<and>
     ds \<noteq> [] \<and> set ds \<subseteq> digit_bytes)"

definition number_literal :: "string \<Rightarrow> bool" where
  "number_literal s \<longleftrightarrow> (\<exists>whole fraction exponent. s = whole @ fraction @ exponent \<and> set whole \<subseteq> digit_bytes \<and>
     fraction_part fraction \<and> (whole \<noteq> [] \<or> 1 < length fraction) \<and> exponent_part exponent)"

fun lexeme_class :: "CalculatorTokenType \<Rightarrow> string \<Rightarrow> bool" where
  "lexeme_class CALCULATOR_TOKEN_NUMBER s = number_literal s"
| "lexeme_class CALCULATOR_TOKEN_UNIT s = (set s \<subseteq> unit_bytes)"
| "lexeme_class CALCULATOR_TOKEN_IDENTIFIER s =
    (s = [CHR 0xCF, CHR 0x80] \<or> s = [CHR 0xCF, CHR 0x86] \<or> s \<noteq> [] \<and> set s \<subseteq> letter_bytes)"
| "lexeme_class CALCULATOR_TOKEN_PLUS s = (s = ''+'')"
| "lexeme_class CALCULATOR_TOKEN_MINUS s = (s = ''-'')"
| "lexeme_class CALCULATOR_TOKEN_STAR s = (s = ''*'')"
| "lexeme_class CALCULATOR_TOKEN_SLASH s = (s = ''/'')"
| "lexeme_class CALCULATOR_TOKEN_CARET s = (s = ''^'')"
| "lexeme_class CALCULATOR_TOKEN_SQUARE s = (s = [CHR 0xC2, CHR 0xB2])"
| "lexeme_class CALCULATOR_TOKEN_CUBE s = (s = [CHR 0xC2, CHR 0xB3])"
| "lexeme_class CALCULATOR_TOKEN_FACTORIAL s = (s = ''!'')"
| "lexeme_class CALCULATOR_TOKEN_SQRT s = (s = [CHR 0xE2, CHR 0x88, CHR 0x9A])"
| "lexeme_class CALCULATOR_TOKEN_SEMICOLON s = (s = '';'')"
| "lexeme_class CALCULATOR_TOKEN_LEFT_PAREN s = (s = ''('')"
| "lexeme_class CALCULATOR_TOKEN_RIGHT_PAREN s = (s = '')'')"
| "lexeme_class CALCULATOR_TOKEN_END s = (s = [])"

text \<open>What a token takes from the input: a unit takes its quotes as well.\<close>

definition token_lexeme :: "CalculatorTokenType \<Rightarrow> string \<Rightarrow> string" where
  "token_lexeme type s = (if type = CALCULATOR_TOKEN_UNIT then [CHR 0x22] @ s @ [CHR 0x22] else s)"

definition tokenizer_wf :: "CalculatorTokenizer \<Rightarrow> bool" where
  "tokenizer_wf a \<longleftrightarrow> tokenizer_length a = length (tokenizer_input a) \<and> tokenizer_offset a \<le> tokenizer_length a \<and>
     CHR 0x00 \<notin> set (tokenizer_input a)"

text \<open>One step: white space, then the lexeme of the token.\<close>

definition token_step :: "CalculatorTokenizer \<Rightarrow> CalculatorTokenizer \<Rightarrow> CalculatorToken \<Rightarrow> bool" where
  "token_step a b t \<longleftrightarrow>
    (let cs = tokenizer_input a
     in b = a\<lparr>tokenizer_offset := tokenizer_offset b\<rparr> \<and>
        tokenizer_offset a \<le> token_offset t \<and> token_offset t \<le> tokenizer_offset b \<and> tokenizer_offset b \<le> length cs \<and>
        list_all calculator_is_whitespace (bytes_between cs (tokenizer_offset a) (token_offset t)) \<and>
        bytes_between cs (token_offset t) (tokenizer_offset b) = token_lexeme (token_type t) (token_slice cs t) \<and>
        lexeme_class (token_type t) (token_slice cs t) \<and>
        (if token_type t = CALCULATOR_TOKEN_END then tokenizer_offset b = length cs
         else token_offset t < tokenizer_offset b))"

section \<open>The tokenizer follows the grammar\<close>

lemma slice_Nil [simp]: "bytes_between cs i i = []"
  by (simp add: bytes_between_def)

lemma slice_append: "i \<le> j \<Longrightarrow> j \<le> k \<Longrightarrow> bytes_between cs i k = bytes_between cs i j @ bytes_between cs j k"
proof -
  assume "i \<le> j" "j \<le> k"
  then have "k - i = (j - i) + (k - j)" "j - i + i = j" by simp_all
  then show ?thesis unfolding bytes_between_def by (simp only: take_add drop_drop)
qed

lemma slice_one: "i < length cs \<Longrightarrow> bytes_between cs i (Suc i) = [cs ! i]"
  by (simp add: bytes_between_def take_Suc_conv_app_nth hd_drop_conv_nth take_Suc)

lemma slice_Cons: "i < j \<Longrightarrow> j \<le> length cs \<Longrightarrow> bytes_between cs i j = cs ! i # bytes_between cs (Suc i) j"
  using slice_append [of i "Suc i" j cs] slice_one [of i cs] by simp

lemma slice_empty_iff: "i \<le> j \<Longrightarrow> j \<le> length cs \<Longrightarrow> bytes_between cs i j = [] \<longleftrightarrow> i = j"
  by (auto simp: bytes_between_def)

lemma length_slice: "j \<le> length cs \<Longrightarrow> length (bytes_between cs i j) = j - i"
  by (simp add: bytes_between_def)

lemma token_slice_eq: "token_length t = j - token_text t \<Longrightarrow> token_slice cs t = bytes_between cs (token_text t) j"
  by (simp add: token_slice_def bytes_between_def)

lemma scan_while_bounds:
  "i \<le> length cs \<Longrightarrow> i \<le> scan_while P cs i \<and> scan_while P cs i \<le> length cs \<and> list_all P (bytes_between cs i (scan_while P cs i)) \<and>
    (scan_while P cs i < length cs \<longrightarrow> \<not> P (cs ! scan_while P cs i))"
proof (induction P cs i rule: scan_while.induct)
  case (1 P cs i)
  show ?case
  proof (cases "i < length cs \<and> P (cs ! i)")
    case True
    then have eq: "scan_while P cs i = scan_while P cs (Suc i)" by (subst scan_while.simps) simp
    have IH: "Suc i \<le> scan_while P cs (Suc i)" "scan_while P cs (Suc i) \<le> length cs"
      "list_all P (bytes_between cs (Suc i) (scan_while P cs (Suc i)))"
      "scan_while P cs (Suc i) < length cs \<longrightarrow> \<not> P (cs ! scan_while P cs (Suc i))"
      using 1 True by simp_all
    then have "bytes_between cs i (scan_while P cs (Suc i)) = cs ! i # bytes_between cs (Suc i) (scan_while P cs (Suc i))"
      by (intro slice_Cons) simp_all
    then show ?thesis unfolding eq using IH True by simp
  next
    case False
    then have "scan_while P cs i = i" by (subst scan_while.simps) (simp only: if_False)
    then show ?thesis using 1(2) False by auto
  qed
qed

lemma input_at_nul: "CHR 0x00 \<notin> set cs \<Longrightarrow> i \<le> length cs \<Longrightarrow> input_at cs i = c \<Longrightarrow> c \<noteq> CHR 0x00 \<Longrightarrow> i < length cs \<and> cs ! i = c"
  by (auto simp: input_at_def split: if_splits)

lemma classes_nul [simp]:
  "\<not> calculator_is_digit CHR 0x00" "\<not> calculator_is_decimal_separator CHR 0x00" "\<not> calculator_is_identifier_start CHR 0x00"
  by (simp_all add: calculator_is_digit_def calculator_is_decimal_separator_def calculator_is_identifier_start_def)

lemma input_at_class: "P (input_at cs i) \<Longrightarrow> \<not> P CHR 0x00 \<Longrightarrow> i < length cs \<and> P (cs ! i)"
  by (auto simp: input_at_def split: if_splits)

lemma simple_token:
  assumes "p < j" "j \<le> length (tokenizer_input a)" "type \<noteq> CALCULATOR_TOKEN_UNIT" "type \<noteq> CALCULATOR_TOKEN_END"
    "lexeme_class type (bytes_between (tokenizer_input a) p j)" "tokenizer_offset a \<le> p"
    "list_all calculator_is_whitespace (bytes_between (tokenizer_input a) (tokenizer_offset a) p)" "n = j - p"
  shows "token_step a (a\<lparr>tokenizer_offset := j\<rparr>) (calculator_set_token t type p n p)"
  using assms token_slice_eq [of "calculator_set_token t type p n p" j "tokenizer_input a"]
  by (simp add: token_step_def calculator_set_token_def token_lexeme_def)

text \<open>What every outcome of a step satisfies.\<close>

definition step_outcome :: "CalculatorTokenizer \<Rightarrow> CalculatorToken \<Rightarrow> token_result \<Rightarrow> bool" where
  "step_outcome a t r = (case r of (status, b, t', err) \<Rightarrow>
     if status = CALCULATOR_OK then token_step a b t' \<and> error_status err = CALCULATOR_OK \<and> error_offset err = 0
     else status = CALCULATOR_INVALID_TOKEN \<and> error_status err = status \<and> t' = t \<and> tokenizer_offset a \<le> error_offset err \<and>
       error_offset err \<le> length (tokenizer_input a) \<and> tokenizer_input b = tokenizer_input a \<and>
       tokenizer_length b = tokenizer_length a \<and> tokenizer_offset a \<le> tokenizer_offset b \<and> tokenizer_offset b \<le> length (tokenizer_input a))"

lemma token_outcome_OK:
  "token_step a b t' \<Longrightarrow> step_outcome a t (CALCULATOR_OK, b, t', calculator_error_clear err)"
  by (simp add: step_outcome_def calculator_error_clear_def calculator_error_set_def)

lemma token_outcome_error:
  "tokenizer_offset a \<le> p \<Longrightarrow> p \<le> j \<Longrightarrow> j \<le> length (tokenizer_input a) \<Longrightarrow>
   step_outcome a t (CALCULATOR_INVALID_TOKEN, a\<lparr>tokenizer_offset := p\<rparr>, t, calculator_error_set err CALCULATOR_INVALID_TOKEN j)"
  by (simp add: step_outcome_def calculator_error_set_def)

text \<open>What the reading of a number finds: the whole part ends at \<open>i\<close>, the number at \<open>k\<close>.\<close>

lemma number_scanned:
  assumes p: "p \<le> length cs"
  defines "i \<equiv> scan_while calculator_is_digit cs p"
  defines "k \<equiv> number_exponent cs (fst (number_fraction cs i))"
  shows "p \<le> i" "i \<le> k" "k \<le> length cs" "p < i \<or> snd (number_fraction cs i) \<Longrightarrow> p < k \<and> number_literal (bytes_between cs p k)"
proof -
  let ?cs = cs and ?digit = calculator_is_digit
  have i: "p \<le> i" "i \<le> length ?cs" "list_all ?digit (bytes_between ?cs p i)" using scan_while_bounds [OF p, of ?digit] by (simp_all add: i_def)
  define m where "m = scan_while ?digit ?cs (i + 1)"
  define sep where "sep = calculator_is_decimal_separator (input_at ?cs i)"
  define j where "j = (if sep then m else i)"
  have m: "i + 1 \<le> m" "m \<le> length ?cs" "list_all ?digit (bytes_between ?cs (i + 1) m)" "i < length ?cs" "calculator_is_decimal_separator (?cs ! i)" if sep
  proof -
    have "i < length ?cs \<and> calculator_is_decimal_separator (?cs ! i)" using that unfolding sep_def by (rule input_at_class) simp
    then show "i < length ?cs" "calculator_is_decimal_separator (?cs ! i)" by simp_all
    then show "i + 1 \<le> m" "m \<le> length ?cs" "list_all ?digit (bytes_between ?cs (i + 1) m)"
      using scan_while_bounds [of "i + 1" ?cs ?digit] by (simp_all add: m_def)
  qed
  have j: "i \<le> j" "j \<le> length ?cs" using i m by (auto simp: j_def)
  define after where "after \<longleftrightarrow> sep \<and> i + 1 < m"
  have head: "number_fraction ?cs i = (j, after)"
    unfolding number_fraction_def Let_def by (simp add: j_def after_def sep_def m_def)
  define e where "e = (if input_at ?cs (j + 1) = CHR ''+'' \<or> input_at ?cs (j + 1) = CHR ''-'' then j + 1 + 1 else j + 1)"
  have k_eq: "k = (if input_at ?cs j = CHR ''E'' then if ?digit (input_at ?cs e) then scan_while ?digit ?cs (e + 1) else j else j)"
    unfolding k_def head fst_conv number_exponent_def Let_def e_def ..
  have k: "j \<le> k \<and> k \<le> length ?cs \<and> (bytes_between ?cs j k = [] \<or> (\<exists>sign ds. bytes_between ?cs j k = ''E'' @ sign @ ds \<and>
      (sign = [] \<or> sign = ''+'' \<or> sign = ''-'') \<and> ds \<noteq> [] \<and> list_all ?digit ds))"
  proof (cases "input_at ?cs j = CHR ''E'' \<and> ?digit (input_at ?cs e)")
    case True
    have jE: "j < length ?cs" "?cs ! j = CHR ''E''" using True by (auto simp: input_at_def split: if_splits)
    have e: "e < length ?cs" "?digit (?cs ! e)" using True input_at_class [of ?digit ?cs e] by auto
    have je: "j + 1 \<le> e" by (simp add: e_def)
    have sign: "bytes_between ?cs (j + 1) e = [] \<or> bytes_between ?cs (j + 1) e = ''+'' \<or> bytes_between ?cs (j + 1) e = ''-''"
      using e(1) slice_one [of "j + 1" ?cs] by (auto simp: e_def input_at_def split: if_splits)
    have keq: "k = scan_while ?digit ?cs (e + 1)" using True by (simp add: k_eq)
    have k: "e + 1 \<le> k" "k \<le> length ?cs" "list_all ?digit (bytes_between ?cs (e + 1) k)"
      using scan_while_bounds [of "e + 1" ?cs ?digit] e by (simp_all add: keq)
    have "bytes_between ?cs j k = bytes_between ?cs j (j + 1) @ bytes_between ?cs (j + 1) e @ bytes_between ?cs e k"
      using slice_append [of j "j + 1" k ?cs] slice_append [of "j + 1" e k ?cs] je k by simp
    moreover have "bytes_between ?cs e k = ?cs ! e # bytes_between ?cs (e + 1) k" using slice_Cons [of e k ?cs] k by simp
    moreover have "bytes_between ?cs j (j + 1) = ''E''" using slice_one [OF jE(1)] jE(2) by simp
    ultimately have "bytes_between ?cs j k = ''E'' @ bytes_between ?cs (j + 1) e @ bytes_between ?cs e k"
      "bytes_between ?cs e k \<noteq> []" "list_all ?digit (bytes_between ?cs e k)"
      using e(2) k(3) by simp_all
    moreover have "j \<le> k" using je k(1) by simp
    ultimately show ?thesis using sign k(2) by blast
  next
    case False
    then show ?thesis using j by (auto simp: k_eq)
  qed
  show "p \<le> i" "i \<le> k" "k \<le> length ?cs" using i j k by auto
  show "p < k \<and> number_literal (bytes_between ?cs p k)" if "p < i \<or> snd (number_fraction ?cs i)"
  proof -
    have True: "p < i \<or> after" using that by (simp add: head)
    have frac: "bytes_between ?cs i j = [] \<or> (\<exists>c ds. bytes_between ?cs i j = c # ds \<and> calculator_is_decimal_separator c \<and> list_all ?digit ds)"
    proof (cases sep)
      case True
      have "bytes_between ?cs i m = ?cs ! i # bytes_between ?cs (i + 1) m" using slice_Cons [of i m ?cs] m(1,2) [OF True] by simp
      then show ?thesis using True m(3,5) [OF True] by (simp add: j_def)
    qed (simp add: j_def)
    have size: "bytes_between ?cs p i \<noteq> [] \<or> 1 < length (bytes_between ?cs i j)"
      using True slice_empty_iff [OF i(1,2)] j length_slice [OF j(2), of i] by (auto simp: after_def j_def)
    have "bytes_between ?cs p k = bytes_between ?cs p i @ bytes_between ?cs i j @ bytes_between ?cs j k"
      using i j k by (simp add: slice_append [of p i k] slice_append [of i j k])
    then have "number_literal (bytes_between ?cs p k)"
      unfolding number_literal_def fraction_part_def exponent_part_def using i(3) frac size k unfolding all_iff classes_iff
      by (intro exI [of _ "bytes_between ?cs p i"] exI [of _ "bytes_between ?cs i j"] exI [of _ "bytes_between ?cs j k"]) auto
    moreover have "p < k" using True i j k m by (auto simp: after_def j_def)
    ultimately show ?thesis by blast
  qed
qed

lemma read_number_eq:
  "calculator_read_number (a\<lparr>tokenizer_offset := p\<rparr>) t err =
    (let cs = tokenizer_input a; i = scan_while calculator_is_digit cs p; k = number_exponent cs (fst (number_fraction cs i))
     in if \<not> (p < i \<or> snd (number_fraction cs i))
     then (CALCULATOR_INVALID_TOKEN, a\<lparr>tokenizer_offset := p\<rparr>, t, calculator_error_set err CALCULATOR_INVALID_TOKEN p)
     else if calculator_is_decimal_separator (input_at cs k)
     then (CALCULATOR_INVALID_TOKEN, a\<lparr>tokenizer_offset := p\<rparr>, t, calculator_error_set err CALCULATOR_INVALID_TOKEN k)
     else (CALCULATOR_OK, a\<lparr>tokenizer_offset := k\<rparr>,
       calculator_set_token t CALCULATOR_TOKEN_NUMBER p (k - p) p, calculator_error_clear err))"
  by (simp add: calculator_read_number_def Let_def case_prod_beta)

lemma read_number_step:
  assumes p: "tokenizer_offset a \<le> p" "p \<le> length (tokenizer_input a)"
    and ws: "list_all calculator_is_whitespace (bytes_between (tokenizer_input a) (tokenizer_offset a) p)"
  shows "step_outcome a t (calculator_read_number (a\<lparr>tokenizer_offset := p\<rparr>) t err)"
proof (cases "p < scan_while calculator_is_digit (tokenizer_input a) p \<or>
    snd (number_fraction (tokenizer_input a) (scan_while calculator_is_digit (tokenizer_input a) p))")
  case True
  note scanned = number_scanned [OF p(2)]
  from scanned(4) [OF True] scanned(3) True p ws show ?thesis
    unfolding read_number_eq Let_def
    by (auto intro!: token_outcome_error token_outcome_OK simple_token)
next
  case False
  then show ?thesis unfolding read_number_eq Let_def using p by (simp add: token_outcome_error)
qed

lemma read_identifier_step:
  assumes p: "tokenizer_offset a \<le> p" "p \<le> length (tokenizer_input a)"
    and ws: "list_all calculator_is_whitespace (bytes_between (tokenizer_input a) (tokenizer_offset a) p)"
    and start: "calculator_is_greek_constant_start (tokenizer_input a) p \<or> calculator_is_identifier_start (input_at (tokenizer_input a) p)"
    and nul: "CHR 0x00 \<notin> set (tokenizer_input a)"
  shows "step_outcome a t (calculator_read_identifier (a\<lparr>tokenizer_offset := p\<rparr>) t err)"
proof (cases "calculator_is_greek_constant_start (tokenizer_input a) p")
  case True
  let ?cs = "tokenizer_input a"
  from True have lt: "p + 1 < length ?cs" and at: "?cs ! p = CHR 0xCF" "?cs ! (p + 1) = CHR 0x80 \<or> ?cs ! (p + 1) = CHR 0x86"
    by (auto simp: calculator_is_greek_constant_start_def input_at_def split: if_splits)
  have "bytes_between ?cs p (p + 2) = [?cs ! p, ?cs ! (p + 1)]"
    using slice_append [of p "p + 1" "p + 2" ?cs] slice_one [of p ?cs] slice_one [of "p + 1" ?cs] lt by simp
  then have "lexeme_class CALCULATOR_TOKEN_IDENTIFIER (bytes_between ?cs p (p + 2))" using at by auto
  then show ?thesis
    unfolding calculator_read_identifier_def Let_def using True p ws lt by (auto intro!: token_outcome_OK simple_token)
next
  case False
  let ?cs = "tokenizer_input a"
  have lt: "p < length ?cs" and first: "calculator_is_identifier_start (?cs ! p)"
    using start False input_at_class [of calculator_is_identifier_start ?cs p] by auto
  define j where "j = scan_while calculator_is_identifier_start ?cs (p + 1)"
  have j: "p + 1 \<le> j" "j \<le> length ?cs" "list_all calculator_is_identifier_start (bytes_between ?cs (p + 1) j)"
    using scan_while_bounds [of "p + 1" ?cs calculator_is_identifier_start] lt by (simp_all add: j_def)
  have "bytes_between ?cs p j = ?cs ! p # bytes_between ?cs (p + 1) j" using slice_Cons [of p j ?cs] j by simp
  then have "lexeme_class CALCULATOR_TOKEN_IDENTIFIER (bytes_between ?cs p j)" using first j(3) by (simp add: all_iff is_letter_iff)
  then show ?thesis
    unfolding calculator_read_identifier_def Let_def using False p ws j
    by (auto intro!: token_outcome_OK simple_token simp: j_def)
qed

lemma take_drop_nth:
  assumes "take 3 (drop p cs) = [x, y, z]"
  shows "p + 3 \<le> length cs"
proof -
  have "length (take 3 (drop p cs)) = 3" by (simp add: assms)
  then show ?thesis by simp
qed

lemma operator_lexeme: "operator_token c = Some type \<Longrightarrow> lexeme_class type [c] \<and> type \<noteq> CALCULATOR_TOKEN_UNIT \<and> type \<noteq> CALCULATOR_TOKEN_END \<and> c \<noteq> CHR 0x00"
  by (auto simp: operator_token_def split: if_splits)

lemma tokenizer_step:
  assumes wf: "tokenizer_wf a"
  shows "step_outcome a t (calculator_tokenizer_next a t err)"
proof -
  let ?cs = "tokenizer_input a"
  define p where "p = scan_while calculator_is_whitespace ?cs (tokenizer_offset a)"
  have a: "tokenizer_offset a \<le> length ?cs" "tokenizer_length a = length ?cs" "CHR 0x00 \<notin> set ?cs" using wf by (simp_all add: tokenizer_wf_def)
  have p: "tokenizer_offset a \<le> p" "p \<le> length ?cs" and ws: "list_all calculator_is_whitespace (bytes_between ?cs (tokenizer_offset a) p)"
    using scan_while_bounds [OF a(1), of calculator_is_whitespace] by (simp_all add: p_def)
  let ?a = "a\<lparr>tokenizer_offset := p\<rparr>" and ?c = "input_at ?cs p" and ?sup = "calculator_superscript_token_type ?cs p"
  have simple: "step_outcome a t (CALCULATOR_OK, a\<lparr>tokenizer_offset := p + n\<rparr>, calculator_set_token t type p n p, calculator_error_clear err)"
    if "0 < n" "p + n \<le> length ?cs" "type \<noteq> CALCULATOR_TOKEN_UNIT" "type \<noteq> CALCULATOR_TOKEN_END" "lexeme_class type (bytes_between ?cs p (p + n))" for n type
    using that p ws by (intro token_outcome_OK simple_token) simp_all
  have sup: "p + 2 \<le> length ?cs \<and> lexeme_class ?sup (bytes_between ?cs p (p + 2)) \<and> ?sup \<noteq> CALCULATOR_TOKEN_UNIT"
    if "?sup \<noteq> CALCULATOR_TOKEN_END"
  proof -
    have lt: "p + 1 < length ?cs" "bytes_between ?cs p (p + 2) = [?cs ! p, ?cs ! (p + 1)]"
    proof -
      show lt: "p + 1 < length ?cs"
        using that by (auto simp: calculator_superscript_token_type_def input_at_def split: if_splits)
      show "bytes_between ?cs p (p + 2) = [?cs ! p, ?cs ! (p + 1)]"
        using slice_append [of p "p + 1" "p + 2" ?cs] slice_one [of p ?cs] slice_one [of "p + 1" ?cs] lt by simp
    qed
    then show ?thesis using that by (auto simp: calculator_superscript_token_type_def input_at_def split: if_splits)
  qed
  have unit: "step_outcome a t (case read_unit ?cs (p + 1) of (closed, cursor) \<Rightarrow>
          if \<not> closed then (CALCULATOR_INVALID_TOKEN, ?a, t, calculator_error_set err CALCULATOR_INVALID_TOKEN cursor)
          else (CALCULATOR_OK, ?a\<lparr>tokenizer_offset := cursor + 1\<rparr>,
            calculator_set_token t CALCULATOR_TOKEN_UNIT (p + 1) (cursor - p - 1) p, calculator_error_clear err))"
    if c: "?c = CHR 0x22"
  proof -
    have lt: "p < length ?cs" "?cs ! p = CHR 0x22" using c by (auto simp: input_at_def split: if_splits)
    define j where "j = scan_while unit_character ?cs (p + 1)"
    have j: "p + 1 \<le> j" "j \<le> length ?cs" "list_all unit_character (bytes_between ?cs (p + 1) j)"
      using scan_while_bounds [of "p + 1" ?cs unit_character] lt by (simp_all add: j_def)
    have ru: "read_unit ?cs (Suc p) = (input_at ?cs j = CHR 0x22, j)" by (simp add: read_unit_def Let_def j_def)
    show ?thesis
    proof (cases "input_at ?cs j = CHR 0x22")
      case False
      then show ?thesis using p j by (simp add: ru token_outcome_error)
    next
      case True
      then have jl: "j < length ?cs" "?cs ! j = CHR 0x22" by (auto simp: input_at_def split: if_splits)
      let ?t = "calculator_set_token t CALCULATOR_TOKEN_UNIT (p + 1) (j - p - 1) p"
      have ts: "token_slice ?cs ?t = bytes_between ?cs (p + 1) j"
        using token_slice_eq [of ?t j ?cs] by (simp add: calculator_set_token_def)
      have "bytes_between ?cs p (j + 1) = [CHR 0x22] @ bytes_between ?cs (p + 1) j @ [CHR 0x22]"
        using slice_append [of p "p + 1" "j + 1" ?cs] slice_append [of "p + 1" j "j + 1" ?cs] slice_one [of p ?cs] slice_one [of j ?cs] lt jl j
        by simp
      then have "token_step a (a\<lparr>tokenizer_offset := j + 1\<rparr>) ?t"
        using p ws j jl ts by (simp add: token_step_def token_lexeme_def calculator_set_token_def all_iff)
      then show ?thesis using True by (simp add: ru token_outcome_OK)
    qed
  qed
  have op: "step_outcome a t (case operator_token ?c of
            Some type \<Rightarrow> (CALCULATOR_OK, ?a\<lparr>tokenizer_offset := p + 1\<rparr>,
              calculator_set_token t type p 1 p, calculator_error_clear err)
          | None \<Rightarrow>
              if ?c = CHR 0x00
              then (CALCULATOR_OK, ?a, calculator_set_token t CALCULATOR_TOKEN_END p 0 p, calculator_error_clear err)
              else (CALCULATOR_INVALID_TOKEN, ?a, t, calculator_error_set err CALCULATOR_INVALID_TOKEN p))"
  proof (cases "operator_token ?c")
    case (Some type)
    note o = operator_lexeme [OF Some]
    then have lt: "p < length ?cs" "?cs ! p = ?c" by (auto simp: input_at_def split: if_splits)
    then have "bytes_between ?cs p (p + 1) = [?c]" using slice_one [of p ?cs] by simp
    then show ?thesis using simple [of 1 type] Some o lt by simp
  next
    case None
    show ?thesis
    proof (cases "?c = CHR 0x00")
      case True
      have "p = length ?cs"
      proof (rule ccontr)
        assume "p \<noteq> length ?cs"
        then have "p < length ?cs" using p(2) by simp
        then have "CHR 0x00 \<in> set ?cs" using True nth_mem [of p ?cs] by (simp add: input_at_def)
        then show False using a(3) by simp
      qed
      then have "token_step a ?a (calculator_set_token t CALCULATOR_TOKEN_END p 0 p)"
        using p ws by (simp add: token_step_def calculator_set_token_def token_slice_def token_lexeme_def)
      then show ?thesis using None True by (simp add: token_outcome_OK)
    next
      case False
      then show ?thesis using None p by (simp add: token_outcome_error)
    qed
  qed
  let ?root = "length ?cs - p \<ge> 3 \<and> take 3 (drop p ?cs) = [CHR 0xE2, CHR 0x88, CHR 0x9A]"
  let ?number = "calculator_is_digit ?c \<or> calculator_is_decimal_separator ?c \<and> calculator_is_digit (input_at ?cs (p + 1))"
  let ?name = "calculator_is_greek_constant_start ?cs p \<or> calculator_is_identifier_start ?c"
  have root: "step_outcome a t (CALCULATOR_OK, a\<lparr>tokenizer_offset := p + 3\<rparr>, calculator_set_token t CALCULATOR_TOKEN_SQRT p 3 p, calculator_error_clear err)" if ?root
    using that by (intro simple) (auto simp: bytes_between_def)
  note next_def = calculator_tokenizer_next_def [of a t err, unfolded Let_def, folded p_def]
  show ?thesis
  proof (cases ?root)
    case True
    with root show ?thesis by (auto simp: next_def p_def [symmetric] a(2))
  next
    case nroot: False
    show ?thesis
    proof (cases ?number)
      case True
      with read_number_step [OF p ws, of t err] nroot show ?thesis by (auto simp: next_def p_def [symmetric] a(2))
    next
      case nnumber: False
      show ?thesis
      proof (cases "?sup = CALCULATOR_TOKEN_END")
        case False
        with simple [of 2 ?sup] sup nroot nnumber show ?thesis by (auto simp: next_def p_def [symmetric] a(2))
      next
        case nsup: True
        show ?thesis
        proof (cases ?name)
          case True
          with read_identifier_step [OF p ws _ a(3), of t err] nroot nnumber nsup show ?thesis by (auto simp: next_def p_def [symmetric] a(2))
        next
          case nname: False
          show ?thesis
          proof (cases "?c = CHR 0x22")
            case True
            with unit nroot nnumber nsup nname show ?thesis by (auto simp: next_def p_def [symmetric] a(2) case_prod_beta)
          next
            case False
            with op nroot nnumber nsup nname show ?thesis by (auto simp: next_def p_def [symmetric] a(2) split: option.splits)
          qed
        qed
      qed
    qed
  qed
qed

section \<open>The whole input\<close>

text \<open>All tokens up to the end of the input, or up to the first error: how the parser drives the tokenizer,
  without the parser. \<open>None\<close> is a run that does not end.\<close>

fun tokenize :: "nat \<Rightarrow> CalculatorTokenizer \<Rightarrow> CalculatorToken \<Rightarrow> CalculatorError \<Rightarrow>
    (CalculatorStatus \<times> CalculatorToken list \<times> CalculatorError) option" where
  "tokenize 0 a t err = None"
| "tokenize (Suc fuel) a t err =
    (case calculator_tokenizer_next a t err of (status, b, t', err') \<Rightarrow>
       if status \<noteq> CALCULATOR_OK then Some (status, [], err')
       else if token_type t' = CALCULATOR_TOKEN_END then Some (CALCULATOR_OK, [t'], err')
       else (case tokenize fuel b t' err' of None \<Rightarrow> None | Some (status, ts, err') \<Rightarrow> Some (status, t' # ts, err')))"

inductive reads :: "CalculatorTokenizer \<Rightarrow> CalculatorToken list \<Rightarrow> CalculatorTokenizer \<Rightarrow> bool" where
  reads_Nil: "reads a [] a"
| reads_Cons: "token_step a b t \<Longrightarrow> reads b ts c \<Longrightarrow> reads a (t # ts) c"

inductive_cases reads_NilE: "reads a [] c"
inductive_cases reads_ConsE: "reads a (t # ts) c"

text \<open>The text of a list of tokens, each with the white space before it.\<close>

definition tokens_text :: "string \<Rightarrow> string list \<Rightarrow> CalculatorToken list \<Rightarrow> string" where
  "tokens_text cs ws ts = concat (map (\<lambda>(w, t). w @ token_lexeme (token_type t) (token_slice cs t)) (zip ws ts))"

lemma token_stepD:
  assumes "token_step a b t" "tokenizer_wf a"
  shows "tokenizer_wf b" "tokenizer_input b = tokenizer_input a" "tokenizer_offset a \<le> tokenizer_offset b"
    "tokenizer_offset b \<le> length (tokenizer_input a)"
    "token_type t \<noteq> CALCULATOR_TOKEN_END \<Longrightarrow> tokenizer_offset a < tokenizer_offset b"
    "token_offset t \<le> length (tokenizer_input a)"
proof -
  have b: "b = a\<lparr>tokenizer_offset := tokenizer_offset b\<rparr>" and le: "tokenizer_offset b \<le> length (tokenizer_input a)"
    using assms(1) by (simp_all add: token_step_def Let_def)
  show "tokenizer_wf b" "tokenizer_input b = tokenizer_input a"
    using assms(2) le by (subst b, simp add: tokenizer_wf_def)+
  show "tokenizer_offset a \<le> tokenizer_offset b" "tokenizer_offset b \<le> length (tokenizer_input a)"
    "token_type t \<noteq> CALCULATOR_TOKEN_END \<Longrightarrow> tokenizer_offset a < tokenizer_offset b"
    "token_offset t \<le> length (tokenizer_input a)"
    using assms(1) by (auto simp: token_step_def Let_def)
qed

lemma reads_text:
  assumes "reads a ts c" "tokenizer_wf a"
  shows "\<exists>ws. length ws = length ts \<and> (\<forall>w \<in> set ws. list_all calculator_is_whitespace w) \<and>
    bytes_between (tokenizer_input a) (tokenizer_offset a) (tokenizer_offset c) = tokens_text (tokenizer_input a) ws ts \<and>
    tokenizer_offset a \<le> tokenizer_offset c \<and> list_all (\<lambda>t. lexeme_class (token_type t) (token_slice (tokenizer_input a) t)) ts"
  using assms
proof induction
  case (reads_Nil a)
  then show ?case by (simp add: tokens_text_def)
next
  case (reads_Cons a b t ts c)
  note d = token_stepD [OF reads_Cons.hyps(1) reads_Cons.prems]
  from reads_Cons.IH [OF d(1)] obtain ws where ws: "length ws = length ts" "\<forall>w \<in> set ws. list_all calculator_is_whitespace w"
    "bytes_between (tokenizer_input a) (tokenizer_offset b) (tokenizer_offset c) = tokens_text (tokenizer_input a) ws ts"
    "tokenizer_offset b \<le> tokenizer_offset c" "list_all (\<lambda>t. lexeme_class (token_type t) (token_slice (tokenizer_input a) t)) ts"
    unfolding d(2) by blast
  let ?cs = "tokenizer_input a"
  let ?w = "bytes_between ?cs (tokenizer_offset a) (token_offset t)"
  have s: "tokenizer_offset a \<le> token_offset t" "token_offset t \<le> tokenizer_offset b" "list_all calculator_is_whitespace ?w"
    "bytes_between ?cs (token_offset t) (tokenizer_offset b) = token_lexeme (token_type t) (token_slice ?cs t)"
    "lexeme_class (token_type t) (token_slice ?cs t)"
    using reads_Cons.hyps(1) by (simp_all add: token_step_def Let_def)
  have "bytes_between ?cs (tokenizer_offset a) (tokenizer_offset c) =
      ?w @ bytes_between ?cs (token_offset t) (tokenizer_offset b) @ bytes_between ?cs (tokenizer_offset b) (tokenizer_offset c)"
    using slice_append [of "tokenizer_offset a" "token_offset t" "tokenizer_offset c" ?cs]
      slice_append [of "token_offset t" "tokenizer_offset b" "tokenizer_offset c" ?cs] s ws(4) by simp
  then have "bytes_between ?cs (tokenizer_offset a) (tokenizer_offset c) = tokens_text ?cs (?w # ws) (t # ts)"
    unfolding s(4) ws(3) by (simp add: tokens_text_def)
  then show ?case using ws s d(3) by (intro exI [of _ "?w # ws"]) auto
qed

lemma tokenize_run:
  "tokenizer_wf a \<Longrightarrow> length (tokenizer_input a) - tokenizer_offset a < fuel \<Longrightarrow>
   \<exists>status ts err'. tokenize fuel a t err = Some (status, ts, err') \<and>
     (\<exists>c. reads a ts c \<and> (if status = CALCULATOR_OK
       then ts \<noteq> [] \<and> token_type (last ts) = CALCULATOR_TOKEN_END \<and> list_all (\<lambda>t. token_type t \<noteq> CALCULATOR_TOKEN_END) (butlast ts) \<and>
         tokenizer_offset c = length (tokenizer_input a)
       else status = CALCULATOR_INVALID_TOKEN \<and> error_status err' = status \<and> tokenizer_offset c \<le> error_offset err' \<and>
         error_offset err' \<le> length (tokenizer_input a)))"
proof (induction fuel arbitrary: a t err)
  case (Suc fuel)
  obtain status b t' err' where n: "calculator_tokenizer_next a t err = (status, b, t', err')" by (metis prod_cases4)
  note step = tokenizer_step [OF Suc.prems(1), of t err, unfolded n step_outcome_def prod.case]
  show ?case
  proof (cases "status = CALCULATOR_OK")
    case False
    then show ?thesis using step by (auto simp: n intro!: exI [of _ a] reads_Nil)
  next
    case True
    with step have st: "token_step a b t'" by simp
    note d = token_stepD [OF st Suc.prems(1)]
    show ?thesis
    proof (cases "token_type t' = CALCULATOR_TOKEN_END")
      case stop: True
      have "tokenizer_offset b = length (tokenizer_input a)" using st stop by (simp add: token_step_def Let_def)
      then show ?thesis using True stop st by (auto simp: n intro!: exI [of _ b] reads_Cons reads_Nil)
    next
      case more: False
      have "length (tokenizer_input b) - tokenizer_offset b < fuel" using Suc.prems(2) d(4,5) more unfolding d(2) by simp
      from Suc.IH [OF d(1) this, of t' err'] obtain status' ts err'' c where r: "tokenize fuel b t' err' = Some (status', ts, err'')"
        "reads b ts c" "if status' = CALCULATOR_OK
       then ts \<noteq> [] \<and> token_type (last ts) = CALCULATOR_TOKEN_END \<and> list_all (\<lambda>t. token_type t \<noteq> CALCULATOR_TOKEN_END) (butlast ts) \<and>
         tokenizer_offset c = length (tokenizer_input a)
       else status' = CALCULATOR_INVALID_TOKEN \<and> error_status err'' = status' \<and> tokenizer_offset c \<le> error_offset err'' \<and>
         error_offset err'' \<le> length (tokenizer_input a)" unfolding d(2) by blast
      have "reads a (t' # ts) c" by (rule reads_Cons [OF st r(2)])
      then show ?thesis using True more r by (auto simp: n intro!: exI [of _ c])
    qed
  qed
qed simp

text \<open>On success the tokens, each after some white space, spell the input byte by byte; otherwise they spell what
  is before the error.\<close>

lemma tokenizer_covers_input:
  assumes "CHR 0x00 \<notin> set cs"
  shows "case tokenize (Suc (length cs)) (calculator_tokenizer_init cs) t err of
      None \<Rightarrow> False
    | Some (status, ts, err') \<Rightarrow>
        (\<exists>ws. length ws = length ts \<and> (\<forall>w \<in> set ws. list_all calculator_is_whitespace w) \<and>
          list_all (\<lambda>t. lexeme_class (token_type t) (token_slice cs t)) ts \<and>
          (if status = CALCULATOR_OK
           then tokens_text cs ws ts = cs \<and> ts \<noteq> [] \<and> token_type (last ts) = CALCULATOR_TOKEN_END \<and>
             list_all (\<lambda>t. token_type t \<noteq> CALCULATOR_TOKEN_END) (butlast ts)
           else status = CALCULATOR_INVALID_TOKEN \<and> error_status err' = CALCULATOR_INVALID_TOKEN \<and> error_offset err' \<le> length cs \<and>
             (\<exists>n \<le> error_offset err'. tokens_text cs ws ts = take n cs)))"
proof -
  let ?a = "calculator_tokenizer_init cs"
  have wf: "tokenizer_wf ?a" and a: "tokenizer_input ?a = cs" "tokenizer_offset ?a = 0"
    using assms by (simp_all add: calculator_tokenizer_init_def tokenizer_wf_def)
  have "length (tokenizer_input ?a) - tokenizer_offset ?a < Suc (length cs)" by (simp add: a)
  from tokenize_run [OF wf this, of t err] obtain status ts err' c where r: "tokenize (Suc (length cs)) ?a t err = Some (status, ts, err')"
    "reads ?a ts c" "if status = CALCULATOR_OK
       then ts \<noteq> [] \<and> token_type (last ts) = CALCULATOR_TOKEN_END \<and> list_all (\<lambda>t. token_type t \<noteq> CALCULATOR_TOKEN_END) (butlast ts) \<and>
         tokenizer_offset c = length cs
       else status = CALCULATOR_INVALID_TOKEN \<and> error_status err' = status \<and> tokenizer_offset c \<le> error_offset err' \<and>
         error_offset err' \<le> length cs" unfolding a by blast
  from reads_text [OF r(2) wf] obtain ws where ws: "length ws = length ts" "\<forall>w \<in> set ws. list_all calculator_is_whitespace w"
    "tokens_text cs ws ts = bytes_between cs 0 (tokenizer_offset c)" "list_all (\<lambda>t. lexeme_class (token_type t) (token_slice cs t)) ts"
    unfolding a by auto
  show ?thesis
    unfolding r(1) option.case prod.case
    using r(3) ws by (intro exI [of _ ws]) (auto simp: bytes_between_def split: if_splits)
qed

definition no_token :: CalculatorToken where
  "no_token = \<lparr>token_type = CALCULATOR_TOKEN_END, token_text = 0, token_length = 0, token_offset = 0\<rparr>"

definition no_error :: CalculatorError where
  "no_error = \<lparr>error_status = CALCULATOR_OK, error_offset = 0\<rparr>"

end
