(* ===== verification/Calculator_Expressions.thy ===== *)
theory Calculator_Expressions
  imports Calculator_Tokenizer
begin

text \<open>
  The registry of functions and the constants of \<^verbatim>\<open>src/engine/evaluator\<close> as far as the parser
  uses them, and the syntax trees of \<^verbatim>\<open>expression_internal.h\<close>. A text given by a pointer and a
  length is the list of its bytes.
\<close>

section \<open>Functions\<close>

datatype CalculatorFunctionImplementation =
    CALCULATOR_FUNCTION_PENDING
  | CALCULATOR_FUNCTION_POWER
  | CALCULATOR_FUNCTION_FACTORIAL
  | CALCULATOR_FUNCTION_ABS
  | CALCULATOR_FUNCTION_SIGN
  | CALCULATOR_FUNCTION_MIN
  | CALCULATOR_FUNCTION_MAX
  | CALCULATOR_FUNCTION_SUM
  | CALCULATOR_FUNCTION_PRODUCT
  | CALCULATOR_FUNCTION_MEAN
  | CALCULATOR_FUNCTION_MEDIAN
  | CALCULATOR_FUNCTION_GEOMETRIC_MEAN
  | CALCULATOR_FUNCTION_HARMONIC_MEAN
  | CALCULATOR_FUNCTION_VARIANCE
  | CALCULATOR_FUNCTION_STANDARD_DEVIATION_POPULATION
  | CALCULATOR_FUNCTION_STANDARD_DEVIATION_SAMPLE
  | CALCULATOR_FUNCTION_FLOOR
  | CALCULATOR_FUNCTION_CEIL
  | CALCULATOR_FUNCTION_TRUNC
  | CALCULATOR_FUNCTION_ROUND
  | CALCULATOR_FUNCTION_GCD
  | CALCULATOR_FUNCTION_LCM
  | CALCULATOR_FUNCTION_MOD
  | CALCULATOR_FUNCTION_NPR
  | CALCULATOR_FUNCTION_NCR
  | CALCULATOR_FUNCTION_ISQRT
  | CALCULATOR_FUNCTION_SQRT
  | CALCULATOR_FUNCTION_CBRT
  | CALCULATOR_FUNCTION_ROOT
  | CALCULATOR_FUNCTION_EXP
  | CALCULATOR_FUNCTION_LN
  | CALCULATOR_FUNCTION_LOG
  | CALCULATOR_FUNCTION_SIN
  | CALCULATOR_FUNCTION_COS
  | CALCULATOR_FUNCTION_TAN
  | CALCULATOR_FUNCTION_ASIN
  | CALCULATOR_FUNCTION_ACOS
  | CALCULATOR_FUNCTION_ATAN
  | CALCULATOR_FUNCTION_SINH
  | CALCULATOR_FUNCTION_COSH
  | CALCULATOR_FUNCTION_TANH
  | CALCULATOR_FUNCTION_ASINH
  | CALCULATOR_FUNCTION_ACOSH
  | CALCULATOR_FUNCTION_ATANH
  | CALCULATOR_FUNCTION_RADIANS
  | CALCULATOR_FUNCTION_DEGREES
  | CALCULATOR_FUNCTION_QUANTITY
  | CALCULATOR_FUNCTION_CONVERT
  | CALCULATOR_FUNCTION_RANDOM
  | CALCULATOR_FUNCTION_COMPLEX
  | CALCULATOR_FUNCTION_REAL_PART
  | CALCULATOR_FUNCTION_IMAGINARY_PART
  | CALCULATOR_FUNCTION_CONJUGATE
  | CALCULATOR_FUNCTION_ARGUMENT

record CalculatorFunction =
  function_name :: string
  minimum_arguments :: nat
  maximum_arguments :: nat
  implementation :: CalculatorFunctionImplementation

definition function_entry :: "string \<Rightarrow> nat \<Rightarrow> nat \<Rightarrow> CalculatorFunctionImplementation \<Rightarrow> CalculatorFunction" where
  "function_entry name least most impl =
     \<lparr>function_name = name, minimum_arguments = least, maximum_arguments = most, implementation = impl\<rparr>"

definition calculator_functions :: "CalculatorFunction list" where
  "calculator_functions =
    [function_entry ''re'' 1 1 CALCULATOR_FUNCTION_REAL_PART,
     function_entry ''im'' 1 1 CALCULATOR_FUNCTION_IMAGINARY_PART,
     function_entry ''conj'' 1 1 CALCULATOR_FUNCTION_CONJUGATE,
     function_entry ''arg'' 1 1 CALCULATOR_FUNCTION_ARGUMENT,
     function_entry ''complex'' 2 2 CALCULATOR_FUNCTION_COMPLEX,
     function_entry ''qty'' 2 2 CALCULATOR_FUNCTION_QUANTITY,
     function_entry ''convert'' 3 3 CALCULATOR_FUNCTION_CONVERT,
     function_entry ''abs'' 1 1 CALCULATOR_FUNCTION_ABS,
     function_entry ''rand'' 0 2 CALCULATOR_FUNCTION_RANDOM,
     function_entry ''sign'' 1 1 CALCULATOR_FUNCTION_SIGN,
     function_entry ''min'' 2 0 CALCULATOR_FUNCTION_MIN,
     function_entry ''max'' 2 0 CALCULATOR_FUNCTION_MAX,
     function_entry ''sum'' 1 0 CALCULATOR_FUNCTION_SUM,
     function_entry ''product'' 1 0 CALCULATOR_FUNCTION_PRODUCT,
     function_entry ''mean'' 1 0 CALCULATOR_FUNCTION_MEAN,
     function_entry ''median'' 1 0 CALCULATOR_FUNCTION_MEDIAN,
     function_entry ''geomean'' 1 0 CALCULATOR_FUNCTION_GEOMETRIC_MEAN,
     function_entry ''harmean'' 1 0 CALCULATOR_FUNCTION_HARMONIC_MEAN,
     function_entry ''variance'' 1 0 CALCULATOR_FUNCTION_VARIANCE,
     function_entry ''stdevp'' 1 0 CALCULATOR_FUNCTION_STANDARD_DEVIATION_POPULATION,
     function_entry ''stdev'' 2 0 CALCULATOR_FUNCTION_STANDARD_DEVIATION_SAMPLE,
     function_entry ''floor'' 1 1 CALCULATOR_FUNCTION_FLOOR,
     function_entry ''ceil'' 1 1 CALCULATOR_FUNCTION_CEIL,
     function_entry ''trunc'' 1 1 CALCULATOR_FUNCTION_TRUNC,
     function_entry ''round'' 1 2 CALCULATOR_FUNCTION_ROUND,
     function_entry ''gcd'' 2 2 CALCULATOR_FUNCTION_GCD,
     function_entry ''lcm'' 2 2 CALCULATOR_FUNCTION_LCM,
     function_entry ''mod'' 2 2 CALCULATOR_FUNCTION_MOD,
     function_entry ''npr'' 2 2 CALCULATOR_FUNCTION_NPR,
     function_entry ''ncr'' 2 2 CALCULATOR_FUNCTION_NCR,
     function_entry ''factorial'' 1 1 CALCULATOR_FUNCTION_FACTORIAL,
     function_entry ''isqrt'' 1 1 CALCULATOR_FUNCTION_ISQRT,
     function_entry ''pow'' 2 2 CALCULATOR_FUNCTION_POWER,
     function_entry ''sqrt'' 1 1 CALCULATOR_FUNCTION_SQRT,
     function_entry ''cbrt'' 1 1 CALCULATOR_FUNCTION_CBRT,
     function_entry ''root'' 2 2 CALCULATOR_FUNCTION_ROOT,
     function_entry ''exp'' 1 1 CALCULATOR_FUNCTION_EXP,
     function_entry ''ln'' 1 1 CALCULATOR_FUNCTION_LN,
     function_entry ''log'' 1 2 CALCULATOR_FUNCTION_LOG,
     function_entry ''sin'' 1 1 CALCULATOR_FUNCTION_SIN,
     function_entry ''cos'' 1 1 CALCULATOR_FUNCTION_COS,
     function_entry ''tan'' 1 1 CALCULATOR_FUNCTION_TAN,
     function_entry ''asin'' 1 1 CALCULATOR_FUNCTION_ASIN,
     function_entry ''arcsin'' 1 1 CALCULATOR_FUNCTION_ASIN,
     function_entry ''arcussin'' 1 1 CALCULATOR_FUNCTION_ASIN,
     function_entry ''acos'' 1 1 CALCULATOR_FUNCTION_ACOS,
     function_entry ''arccos'' 1 1 CALCULATOR_FUNCTION_ACOS,
     function_entry ''arcuscos'' 1 1 CALCULATOR_FUNCTION_ACOS,
     function_entry ''atan'' 1 1 CALCULATOR_FUNCTION_ATAN,
     function_entry ''arctan'' 1 1 CALCULATOR_FUNCTION_ATAN,
     function_entry ''arcustan'' 1 1 CALCULATOR_FUNCTION_ATAN,
     function_entry ''sinh'' 1 1 CALCULATOR_FUNCTION_SINH,
     function_entry ''cosh'' 1 1 CALCULATOR_FUNCTION_COSH,
     function_entry ''tanh'' 1 1 CALCULATOR_FUNCTION_TANH,
     function_entry ''asinh'' 1 1 CALCULATOR_FUNCTION_ASINH,
     function_entry ''arcsinh'' 1 1 CALCULATOR_FUNCTION_ASINH,
     function_entry ''arcussinh'' 1 1 CALCULATOR_FUNCTION_ASINH,
     function_entry ''acosh'' 1 1 CALCULATOR_FUNCTION_ACOSH,
     function_entry ''arccosh'' 1 1 CALCULATOR_FUNCTION_ACOSH,
     function_entry ''arcuscosh'' 1 1 CALCULATOR_FUNCTION_ACOSH,
     function_entry ''atanh'' 1 1 CALCULATOR_FUNCTION_ATANH,
     function_entry ''arctanh'' 1 1 CALCULATOR_FUNCTION_ATANH,
     function_entry ''arcustanh'' 1 1 CALCULATOR_FUNCTION_ATANH,
     function_entry ''radians'' 1 1 CALCULATOR_FUNCTION_RADIANS,
     function_entry ''degrees'' 1 1 CALCULATOR_FUNCTION_DEGREES]"

primrec function_find_loop :: "CalculatorFunction list \<Rightarrow> string \<Rightarrow> CalculatorFunction option" where
  "function_find_loop [] name = None"
| "function_find_loop (f # fs) name = (if function_name f = name then Some f else function_find_loop fs name)"

definition calculator_function_find :: "string \<Rightarrow> CalculatorFunction option" where
  "calculator_function_find name = function_find_loop calculator_functions name"

definition calculator_function_count :: nat where
  "calculator_function_count = length calculator_functions"

definition calculator_function_at :: "nat \<Rightarrow> CalculatorFunction option" where
  "calculator_function_at index = (if index < calculator_function_count then Some (calculator_functions ! index) else None)"

section \<open>Constants\<close>

datatype CalculatorConstant = CALCULATOR_CONSTANT_PI | CALCULATOR_CONSTANT_E | CALCULATOR_CONSTANT_PHI

definition calculator_constant_from_text :: "string \<Rightarrow> CalculatorConstant option" where
  "calculator_constant_from_text name =
    (if name = [CHR 0xCF, CHR 0x80] then Some CALCULATOR_CONSTANT_PI
     else if name = ''e'' then Some CALCULATOR_CONSTANT_E
     else if name = [CHR 0xCF, CHR 0x86] then Some CALCULATOR_CONSTANT_PHI
     else None)"

section \<open>Syntax trees\<close>

datatype CalculatorUnaryOperator = CALCULATOR_UNARY_PLUS | CALCULATOR_UNARY_MINUS

datatype CalculatorPostfixOperator =
  CALCULATOR_POSTFIX_SQUARE | CALCULATOR_POSTFIX_CUBE | CALCULATOR_POSTFIX_FACTORIAL

datatype CalculatorBinaryOperator =
    CALCULATOR_BINARY_ADD
  | CALCULATOR_BINARY_SUBTRACT
  | CALCULATOR_BINARY_MULTIPLY
  | CALCULATOR_BINARY_DIVIDE
  | CALCULATOR_BINARY_POWER

text \<open>A node has its offset in the input, the depth of its subtree and the data of its type. The value of
  a variable is a pointer into the session that the parser leaves empty; it is not part of the tree here.\<close>

datatype CalculatorExpression =
    CALCULATOR_EXPRESSION_NUMBER (expression_offset: nat) (expression_depth: nat) string
  | CALCULATOR_EXPRESSION_CONSTANT (expression_offset: nat) (expression_depth: nat) CalculatorConstant
  | CALCULATOR_EXPRESSION_ANSWER (expression_offset: nat) (expression_depth: nat)
  | CALCULATOR_EXPRESSION_VARIABLE (expression_offset: nat) (expression_depth: nat) string
  | CALCULATOR_EXPRESSION_UNARY (expression_offset: nat) (expression_depth: nat) CalculatorUnaryOperator CalculatorExpression
  | CALCULATOR_EXPRESSION_POSTFIX (expression_offset: nat) (expression_depth: nat) CalculatorPostfixOperator CalculatorExpression
  | CALCULATOR_EXPRESSION_BINARY (expression_offset: nat) (expression_depth: nat) CalculatorBinaryOperator CalculatorExpression
      CalculatorExpression
  | CALCULATOR_EXPRESSION_CALL (expression_offset: nat) (expression_depth: nat) CalculatorFunction "CalculatorExpression list"
      string string
  | CALCULATOR_EXPRESSION_IMAGINARY (expression_offset: nat) (expression_depth: nat)

end
