(* ===== verification/Runtime_Budget.thy ===== *)
theory Runtime_Budget
  imports NF_Prelude
begin

text \<open>
  The thread-local resource scope and the allocation wrappers of
  \<^verbatim>\<open>src/runtime/numforge_alloc.c\<close>.

  The record \<open>runtime\<close> holds the thread-local variables of that file and the two
  things it asks the platform for: \<open>clock\<close>, what the k-th call of
  \<^verbatim>\<open>clock_gettime\<close> answers (\<open>None\<close> for an error, else seconds and
  nanoseconds), and \<open>heap\<close>, whether the k-th request to the C allocator is
  granted. Both are arbitrary. \<open>stuck\<close> is not a variable of the program: the model
  raises it where a C run would not go on normally (a failed \<^verbatim>\<open>assert\<close>, or a
  loop whose fuel in the model is spent), and the theorems show that it stays down.

  The test-only instrumentation of the file (\<^verbatim>\<open>NUMFORGE_ENABLE_ALLOC_STATS\<close>,
  \<^verbatim>\<open>NUMFORGE_ENABLE_ALLOC_FAILURE_TESTING\<close>) is compiled out of the library
  and is not modelled.
\<close>

section \<open>State\<close>

datatype NumForgeBudgetFailure =
    NUMFORGE_BUDGET_OK
  | NUMFORGE_BUDGET_TIME
  | NUMFORGE_BUDGET_MEMORY

record runtime =
  budget_active :: bool
  budget_started :: u64
  budget_duration :: u64
  budget_remaining :: nat
  budget_single :: nat
  budget_failure :: NumForgeBudgetFailure
  clock :: "nat \<Rightarrow> (u64 \<times> u64) option"
  clock_reads :: nat
  heap :: "nat \<Rightarrow> nat \<Rightarrow> bool"
  heap_calls :: nat
  stuck :: bool

type_synonym 'a rt = "(runtime, 'a) state"

definition c_assert :: "bool \<Rightarrow> unit rt" where
  "c_assert P = State_Monad.update (\<lambda>s. if P then s else s\<lparr>stuck := True\<rparr>)"

definition out_of_fuel :: "'a \<Rightarrow> 'a rt" where
  "out_of_fuel x = do { c_assert False; State_Monad.return x }"

section \<open>Clock and budget\<close>

definition numforge_monotonic_ms :: "u64 rt" where
  "numforge_monotonic_ms = do {
     s \<leftarrow> State_Monad.get;
     State_Monad.set (s\<lparr>clock_reads := Suc (clock_reads s)\<rparr>);
     State_Monad.return (case clock s (clock_reads s) of
         None \<Rightarrow> UINT64_MAX
       | Some (sec, nsec) \<Rightarrow> sec * 1000 + nsec div 1000000)
   }"

definition numforge_budget_begin :: "u64 \<Rightarrow> nat \<Rightarrow> nat \<Rightarrow> bool rt" where
  "numforge_budget_begin milliseconds allocation_bytes single_allocation = do {
     s \<leftarrow> State_Monad.get;
     if budget_active s then State_Monad.return False
     else do {
       State_Monad.update (\<lambda>s. s\<lparr>budget_active := True\<rparr>);
       started \<leftarrow> numforge_monotonic_ms;
       State_Monad.update (\<lambda>s. s\<lparr>budget_started := started, budget_duration := milliseconds,
         budget_remaining := allocation_bytes, budget_single := single_allocation,
         budget_failure := NUMFORGE_BUDGET_OK\<rparr>);
       State_Monad.return True
     }
   }"

definition numforge_budget_check :: "bool rt" where
  "numforge_budget_check = do {
     s \<leftarrow> State_Monad.get;
     if \<not> budget_active s then State_Monad.return True
     else if budget_failure s \<noteq> NUMFORGE_BUDGET_OK then State_Monad.return False
     else do {
       now \<leftarrow> numforge_monotonic_ms;
       if now = UINT64_MAX \<or> budget_started s = UINT64_MAX \<or>
          now - budget_started s \<ge> budget_duration s
       then do {
         State_Monad.update (\<lambda>s. s\<lparr>budget_failure := NUMFORGE_BUDGET_TIME\<rparr>);
         State_Monad.return False
       }
       else State_Monad.return True
     }
   }"

definition numforge_budget_failure :: "NumForgeBudgetFailure rt" where
  "numforge_budget_failure = do { s \<leftarrow> State_Monad.get; State_Monad.return (budget_failure s) }"

definition numforge_budget_end :: "unit rt" where
  "numforge_budget_end =
     State_Monad.update (\<lambda>s. s\<lparr>budget_active := False, budget_failure := NUMFORGE_BUDGET_OK\<rparr>)"

definition numforge_budget_available_bytes :: "nat rt" where
  "numforge_budget_available_bytes = do {
     s \<leftarrow> State_Monad.get;
     State_Monad.return (if \<not> budget_active s then SIZE_MAX
       else if budget_failure s = NUMFORGE_BUDGET_OK then budget_remaining s else 0)
   }"

definition numforge_budget_available_ms :: "u64 rt" where
  "numforge_budget_available_ms = do {
     s \<leftarrow> State_Monad.get;
     if \<not> budget_active s then State_Monad.return UINT64_MAX
     else if budget_failure s \<noteq> NUMFORGE_BUDGET_OK then State_Monad.return 0
     else do {
       now \<leftarrow> numforge_monotonic_ms;
       State_Monad.return
         (if now = UINT64_MAX \<or> budget_started s = UINT64_MAX \<or> now < budget_started s then 0
          else let elapsed = now - budget_started s
               in if elapsed < budget_duration s then budget_duration s - elapsed else 0)
     }
   }"

definition numforge_budget_can_allocate_pair :: "nat \<Rightarrow> nat \<Rightarrow> bool rt" where
  "numforge_budget_can_allocate_pair a b = do {
     s \<leftarrow> State_Monad.get;
     State_Monad.return (if \<not> budget_active s then True
       else budget_failure s = NUMFORGE_BUDGET_OK \<and>
            a \<le> budget_single s \<and> b \<le> budget_single s \<and>
            a \<le> budget_remaining s \<and> b \<le> budget_remaining s - a)
   }"

definition numforge_budget_can_allocate_plan :: "nat \<Rightarrow> nat \<Rightarrow> bool rt" where
  "numforge_budget_can_allocate_plan planned largest = do {
     s \<leftarrow> State_Monad.get;
     State_Monad.return (\<not> budget_active s \<or>
       (budget_failure s = NUMFORGE_BUDGET_OK \<and>
        largest \<le> budget_single s \<and> planned \<le> budget_remaining s))
   }"

definition numforge_budget_allocate :: "nat \<Rightarrow> bool rt" where
  "numforge_budget_allocate n = do {
     go \<leftarrow> numforge_budget_check;
     if \<not> go then State_Monad.return False
     else do {
       s \<leftarrow> State_Monad.get;
       if \<not> budget_active s then State_Monad.return True
       else if n > budget_single s \<or> n > budget_remaining s
       then do {
         State_Monad.update (\<lambda>s. s\<lparr>budget_failure := NUMFORGE_BUDGET_MEMORY\<rparr>);
         State_Monad.return False
       }
       else do {
         State_Monad.update (\<lambda>s. s\<lparr>budget_remaining := budget_remaining s - n\<rparr>);
         State_Monad.return True
       }
     }
   }"

section \<open>Allocation wrappers\<close>

text \<open>The C allocator answers a request with memory (\<open>True\<close>) or with
  \<^verbatim>\<open>NULL\<close>.\<close>

definition libc_request :: "nat \<Rightarrow> bool rt" where
  "libc_request n = do {
     s \<leftarrow> State_Monad.get;
     State_Monad.set (s\<lparr>heap_calls := Suc (heap_calls s)\<rparr>);
     State_Monad.return (heap s (heap_calls s) n)
   }"

definition numforge_allocation_allowed :: "nat \<Rightarrow> bool rt" where
  "numforge_allocation_allowed n = do {
     allowed \<leftarrow> numforge_budget_allocate n;
     if \<not> allowed then State_Monad.return False else State_Monad.return True
   }"

definition numforge_malloc :: "nat \<Rightarrow> bool rt" where
  "numforge_malloc n = do {
     allowed \<leftarrow> numforge_allocation_allowed n;
     if allowed then libc_request n else State_Monad.return False
   }"

definition numforge_calloc :: "nat \<Rightarrow> nat \<Rightarrow> bool rt" where
  "numforge_calloc count n =
     (if n \<noteq> 0 \<and> count > SIZE_MAX div n then State_Monad.return False
      else do {
        allowed \<leftarrow> numforge_allocation_allowed (count * n);
        if allowed then libc_request (count * n) else State_Monad.return False
      })"

definition numforge_realloc :: "nat \<Rightarrow> bool rt" where
  "numforge_realloc n = do {
     allowed \<leftarrow> numforge_allocation_allowed n;
     if allowed then libc_request n else State_Monad.return False
   }"

section \<open>The total-correctness calculus over the runtime\<close>

text \<open>
  \<open>rspec u m Q\<close>: \<open>m\<close> returns with \<open>Q\<close>, and the model never gets stuck. With
  \<open>u\<close> true this is claimed for runs with unlimited resources only (no active scope
  and an allocator that never refuses), with \<open>u\<close> false for every run; a
  specification that holds for all \<open>u\<close> states in \<open>Q\<close> what unlimited resources
  add, as \<open>u \<longrightarrow> status = OK\<close>.
\<close>

definition unlimited :: "runtime \<Rightarrow> bool" where
  "unlimited s \<longleftrightarrow> \<not> budget_active s \<and> (\<forall>k n. heap s k n)"

definition rt_ok :: "bool \<Rightarrow> runtime \<Rightarrow> bool" where
  "rt_ok u s \<longleftrightarrow> \<not> stuck s \<and> (u \<longrightarrow> unlimited s)"

abbreviation rspec :: "bool \<Rightarrow> 'a rt \<Rightarrow> ('a \<Rightarrow> bool) \<Rightarrow> bool" where
  "rspec u \<equiv> triple (rt_ok u)"

lemma c_assert_wp [wp]: "P \<Longrightarrow> Q () \<Longrightarrow> rspec u (c_assert P) Q"
  by (simp add: c_assert_def triple_return)

lemma monotonic_ms_wp [wp]: "(\<And>t. Q t) \<Longrightarrow> rspec u numforge_monotonic_ms Q"
  by (auto simp: triple_def numforge_monotonic_ms_def rt_ok_def unlimited_def)

lemma budget_check_wp [wp]:
  "(\<And>b. (u \<longrightarrow> b) \<Longrightarrow> Q b) \<Longrightarrow> rspec u numforge_budget_check Q"
  by (auto simp: triple_def numforge_budget_check_def numforge_monotonic_ms_def rt_ok_def
      unlimited_def State_Monad.update_def split: option.splits)

lemma budget_allocate_wp [wp]:
  "(\<And>b. (u \<longrightarrow> b) \<Longrightarrow> Q b) \<Longrightarrow> rspec u (numforge_budget_allocate n) Q"
  unfolding numforge_budget_allocate_def
  by (auto simp: triple_def numforge_budget_check_def numforge_monotonic_ms_def rt_ok_def
      unlimited_def State_Monad.update_def split: option.splits)

lemma allocation_allowed_wp [wp]:
  "(\<And>b. (u \<longrightarrow> b) \<Longrightarrow> Q b) \<Longrightarrow> rspec u (numforge_allocation_allowed n) Q"
  unfolding numforge_allocation_allowed_def by (auto intro!: wp)

lemma libc_request_wp [wp]:
  "(\<And>b. (u \<longrightarrow> b) \<Longrightarrow> Q b) \<Longrightarrow> rspec u (libc_request n) Q"
  by (auto simp: triple_def libc_request_def rt_ok_def unlimited_def)

lemma malloc_wp [wp]:
  "(\<And>b. (u \<longrightarrow> b) \<Longrightarrow> Q b) \<Longrightarrow> rspec u (numforge_malloc n) Q"
  unfolding numforge_malloc_def by (auto intro!: wp)

lemma realloc_wp [wp]:
  "(\<And>b. (u \<longrightarrow> b) \<Longrightarrow> Q b) \<Longrightarrow> rspec u (numforge_realloc n) Q"
  unfolding numforge_realloc_def by (auto intro!: wp)

lemma calloc_wp [wp]:
  assumes Q: "\<And>b. (u \<and> count * n \<le> SIZE_MAX \<longrightarrow> b) \<Longrightarrow> Q b"
  shows "rspec u (numforge_calloc count n) Q"
proof (cases "n \<noteq> 0 \<and> count > SIZE_MAX div n")
  case True
  then have "\<not> count * n \<le> SIZE_MAX" using div_less_iff_less_mult [of n SIZE_MAX count] by simp
  then have "Q False" using Q by blast
  with True show ?thesis by (simp add: numforge_calloc_def triple_return)
next
  case False
  have "rspec u (do { allowed \<leftarrow> numforge_allocation_allowed (count * n);
      if allowed then libc_request (count * n) else State_Monad.return False }) Q"
    by (intro wp; rule Q; simp)
  with False show ?thesis by (auto simp: numforge_calloc_def)
qed

lemma can_allocate_pair_wp [wp]:
  "(\<And>b. (u \<longrightarrow> b) \<Longrightarrow> Q b) \<Longrightarrow> rspec u (numforge_budget_can_allocate_pair x y) Q"
  by (auto simp: triple_def numforge_budget_can_allocate_pair_def rt_ok_def unlimited_def)

lemma can_allocate_plan_wp [wp]:
  "(\<And>b. (u \<longrightarrow> b) \<Longrightarrow> Q b) \<Longrightarrow> rspec u (numforge_budget_can_allocate_plan x y) Q"
  by (auto simp: triple_def numforge_budget_can_allocate_plan_def rt_ok_def unlimited_def)

text \<open>From a rule of the calculus to a statement about runs: a run that starts with no
  failed assertion ends so, and its result satisfies the postcondition for the resources
  the run has.\<close>

lemma rspec_run1:
  assumes "rspec (unlimited s) m Q" "\<not> stuck s"
  shows "case run_state m s of (v, s') \<Rightarrow> \<not> stuck s' \<and> Q v"
  using triple_run [OF assms(1), of s] assms(2) by (simp add: rt_ok_def case_prod_beta)

lemma rspec_run2:
  assumes "rspec (unlimited s) m (\<lambda>(x, y). Q x y)" "\<not> stuck s"
  shows "case run_state m s of ((x, y), s') \<Rightarrow> \<not> stuck s' \<and> Q x y"
  using rspec_run1 [OF assms] by (simp add: case_prod_beta)

lemma rspec_run3:
  assumes "rspec (unlimited s) m (\<lambda>(x, y, z). Q x y z)" "\<not> stuck s"
  shows "case run_state m s of ((x, y, z), s') \<Rightarrow> \<not> stuck s' \<and> Q x y z"
  using rspec_run1 [OF assms] by (simp add: case_prod_beta)

lemma rspec_run_unlimited:
  assumes "rspec True m Q" "\<not> stuck s" "unlimited s" "run_state m s = (v, s')"
  shows "\<not> stuck s'" "unlimited s'" "Q v"
  using triple_run [OF assms(1), of s] assms(2-4) by (auto simp: rt_ok_def)

text \<open>A state to start from: no scope, an allocator that grants everything.\<close>

definition idle_runtime :: runtime where
  "idle_runtime = \<lparr>budget_active = False, budget_started = 0, budget_duration = 0,
     budget_remaining = 0, budget_single = 0, budget_failure = NUMFORGE_BUDGET_OK,
     clock = (\<lambda>k. Some (0, 0)), clock_reads = 0, heap = (\<lambda>k n. True), heap_calls = 0,
     stuck = False\<rparr>"

lemma idle_runtime_simps [simp]: "\<not> stuck idle_runtime" "unlimited idle_runtime"
  by (simp_all add: idle_runtime_def unlimited_def)

end
