(* ===== verification/Limb_Kernels.thy ===== *)
theory Limb_Kernels
  imports Runtime_Budget
begin

text \<open>
  Single-limb kernels of \<^verbatim>\<open>src/core/bigint/bigint.c\<close> (the 64 by 64 to 128 bit
  product and the 128 by 64 bit division, in its two implementations), and the value
  of a little-endian list of limbs with the facts the loops over limbs need.
\<close>

unbundle bit_operations_syntax

section \<open>The value of a limb list\<close>

primrec mag :: "u64 list \<Rightarrow> nat" where
  "mag [] = 0"
| "mag (x # xs) = unat x + LB * mag xs"

lemma mag_append [simp]: "mag (xs @ ys) = mag xs + LB ^ length xs * mag ys"
  by (induction xs) (simp_all add: algebra_simps)

lemma mag_less: "mag xs < LB ^ length xs"
proof (induction xs)
  case (Cons x xs)
  have "unat x + LB * mag xs < LB + LB * mag xs" by simp
  also have "\<dots> = LB * Suc (mag xs)" by simp
  also have "\<dots> \<le> LB * LB ^ length xs" using Cons by (intro mult_le_mono2) simp
  finally show ?case by simp
qed simp

lemma mag_replicate_0 [simp]: "mag (replicate n 0) = 0"
  by (induction n) simp_all

lemma mag_split: "i \<le> length xs \<Longrightarrow> mag xs = mag (take i xs) + LB ^ i * mag (drop i xs)"
  using mag_append [of "take i xs" "drop i xs"] by simp

lemma mag_take_Suc:
  "i < length xs \<Longrightarrow> mag (take (Suc i) xs) = mag (take i xs) + LB ^ i * unat (xs ! i)"
  by (simp add: take_Suc_conv_app_nth)

lemma mag_inj: "length xs = length ys \<Longrightarrow> mag xs = mag ys \<Longrightarrow> xs = ys"
proof (induction xs ys rule: list_induct2)
  case (Cons x xs y ys)
  have "(unat x + LB * mag xs) mod LB = (unat y + LB * mag ys) mod LB"
    using Cons.prems by simp
  then have xy: "x = y" by (simp add: unsigned_word_eqI)
  with Cons.prems have "mag xs = mag ys" by simp
  with xy Cons.IH show ?case by simp
qed simp

text \<open>Canonical limb lists have no zero limb on top.\<close>

definition canonical :: "u64 list \<Rightarrow> bool" where
  "canonical xs \<longleftrightarrow> xs = [] \<or> last xs \<noteq> 0"

lemma canonical_Nil [simp]: "canonical []"
  by (simp add: canonical_def)

lemma canonical_snoc [simp]: "canonical (xs @ [x]) \<longleftrightarrow> x \<noteq> 0"
  by (simp add: canonical_def)

lemma mag_lower: "canonical xs \<Longrightarrow> xs \<noteq> [] \<Longrightarrow> LB ^ (length xs - 1) \<le> mag xs"
proof (cases xs rule: rev_cases)
  case (snoc ys y)
  assume "canonical xs"
  with snoc have "1 \<le> unat y" using unat_eq_0_iff [of y] by (cases "unat y") auto
  then have "LB ^ length ys * 1 \<le> LB ^ length ys * unat y" by (rule mult_le_mono2)
  with snoc show ?thesis by (simp add: trans_le_add2)
qed simp

lemma mag_eq_0_iff: "canonical xs \<Longrightarrow> mag xs = 0 \<longleftrightarrow> xs = []"
  using mag_lower [of xs] less_le_trans [of 0 "LB ^ (length xs - 1)" "mag xs"]
  by (cases "xs = []") auto

lemma mag_length_less:
  assumes "canonical ys" and "length xs < length ys"
  shows "mag xs < mag ys"
proof -
  from assms(2) have ne: "ys \<noteq> []" by auto
  have "mag xs < LB ^ length xs" by (rule mag_less)
  also have "\<dots> \<le> LB ^ (length ys - 1)"
    using assms(2) by (intro power_increasing) (auto simp: LB_ge_2 less_imp_le)
  also have "\<dots> \<le> mag ys" by (rule mag_lower [OF assms(1) ne])
  finally show ?thesis .
qed

lemma canonical_mag_inj:
  assumes "canonical xs" "canonical ys" "mag xs = mag ys"
  shows "xs = ys"
proof -
  have "length xs = length ys"
    using mag_length_less [of ys xs] mag_length_less [of xs ys] assms
    by (metis less_irrefl nat_neq_iff)
  then show ?thesis by (rule mag_inj) fact
qed

section \<open>The 64 by 64 bit product\<close>

definition HB :: nat where
  "HB = 2 ^ 32"

lemma LB_HB: "LB = HB * HB"
  by (simp add: LB_def HB_def)

lemma HB_pos [simp]: "0 < HB"
  by (simp add: HB_def)

definition bigint_multiply_u64_u64 :: "u64 \<Rightarrow> u64 \<Rightarrow> u64 \<times> u64" where
  "bigint_multiply_u64_u64 a b =
    (let a0 = ucast (ucast a :: 32 word) :: u64;
         a1 = drop_bit 32 a;
         b0 = ucast (ucast b :: 32 word) :: u64;
         b1 = drop_bit 32 b;
         p00 = a0 * b0;
         p01 = a0 * b1;
         p10 = a1 * b0;
         p11 = a1 * b1;
         middle = drop_bit 32 p00 + ucast (ucast p01 :: 32 word) + ucast (ucast p10 :: 32 word);
         low = (p00 AND 0xFFFFFFFF) OR push_bit 32 middle;
         high = p11 + drop_bit 32 p01 + drop_bit 32 p10 + drop_bit 32 middle
     in (high, low))"

lemma unat_low_half: "unat (ucast (ucast (a :: u64) :: 32 word) :: u64) = unat a mod HB"
  proof -
  have "unat (ucast (ucast a :: 32 word) :: u64) = take_bit 32 (unat a)"
    by (simp add: unsigned_ucast_eq take_bit_take_bit unsigned_take_bit_eq)
  then show ?thesis by (simp only: take_bit_eq_mod HB_def)
qed

lemma unat_high_half: "unat (drop_bit 32 (a :: u64)) = unat a div HB"
  by (rule trans [OF unat_drop_bit_eq]) (simp add: HB_def drop_bit_eq_div)

lemma unat_mult_exact: "unat a * unat b < LB \<Longrightarrow> unat (a * b :: u64) = unat a * unat b"
  by (simp add: unat_mult_mod)

lemma unat_add_exact: "unat a + unat b < LB \<Longrightarrow> unat (a + b :: u64) = unat a + unat b"
  by (simp add: unat_add_mod)

lemma unat_push_half: "unat (push_bit 32 (m :: u64)) = HB * (unat m mod HB)"
proof -
  have "unat (push_bit 32 m) = (HB * unat m) mod LB"
    by (simp only: push_bit_eq_mult unat_mult_mod) (simp add: HB_def mult.commute)
  also have "\<dots> = HB * (unat m mod HB)"
    by (simp only: LB_HB mod_mult_mult1)
  finally show ?thesis .
qed

lemma low_word_sum:
  "unat ((p AND 0xFFFFFFFF) OR push_bit 32 (m :: u64)) = unat p mod HB + HB * (unat m mod HB)"
proof -
  have mask: "(0xFFFFFFFF :: u64) = mask 32" by (simp add: mask_eq_exp_minus_1)
  have "(p AND mask 32) OR push_bit 32 m = (p AND mask 32) + push_bit 32 m"
    by (rule disjunctive_add [symmetric]) (auto simp: bit_simps)
  moreover have p: "unat (p AND mask 32) = unat p mod HB"
    unfolding take_bit_eq_mask [symmetric]
    by (rule trans [OF unsigned_take_bit_eq]) (simp add: HB_def take_bit_eq_mod)
  moreover have "unat p mod HB + HB * (unat m mod HB) < LB"
  proof -
    have "unat p mod HB + HB * (unat m mod HB) < HB + HB * (unat m mod HB)" by simp
    also have "\<dots> = HB * Suc (unat m mod HB)" by simp
    also have "\<dots> \<le> HB * HB" by (intro mult_le_mono2) (simp add: Suc_le_eq)
    finally show ?thesis by (simp add: LB_HB)
  qed
  ultimately show ?thesis by (simp add: mask unat_add_exact unat_push_half)
qed

lemma half_product_less: "x < HB \<Longrightarrow> y < HB \<Longrightarrow> x * y < LB"
  unfolding LB_HB by (rule mult_strict_mono) auto

lemma half_product_le: "x < HB \<Longrightarrow> y < HB \<Longrightarrow> x * y \<le> (HB - 1) * (HB - 1)"
  by (rule mult_le_mono) auto

text \<open>The schoolbook identity behind the code: with halves \<open>a0, a1, b0, b1\<close> the
  three column sums carry into each other exactly.\<close>

lemma half_columns:
  fixes p00 p01 p10 p11 :: nat
  defines "mid \<equiv> p00 div HB + p01 mod HB + p10 mod HB"
  shows "(p11 + p01 div HB + p10 div HB + mid div HB) * LB + (p00 mod HB + HB * (mid mod HB))
         = p00 + HB * (p01 + p10) + LB * p11"
proof -
  have e: "HB * p = HB * (p mod HB) + HB * (HB * (p div HB))" for p
    by (simp flip: distrib_left)
  have "p00 + HB * (p01 + p10)
      = p00 mod HB + HB * mid + HB * (HB * (p01 div HB + p10 div HB))"
    using e [of p01] e [of p10] by (simp add: mid_def distrib_left)
  then have *: "p00 + HB * (p01 + p10)
      = p00 mod HB + (HB * (mid mod HB) + HB * (HB * (mid div HB))) + HB * (HB * (p01 div HB + p10 div HB))"
    using e [of mid] by simp
  then show ?thesis unfolding * LB_HB by (simp only: algebra_simps)
qed

theorem multiply_u64_u64_exact:
  assumes "bigint_multiply_u64_u64 a b = (high, low)"
  shows "unat high * LB + unat low = unat a * unat b"
proof -
  define A0 A1 B0 B1 where "A0 = unat a mod HB" and "A1 = unat a div HB"
    and "B0 = unat b mod HB" and "B1 = unat b div HB"
  have bnd: "A0 < HB" "A1 < HB" "B0 < HB" "B1 < HB"
    using unat_lt_LB [of a] unat_lt_LB [of b]
    by (auto simp: A0_def A1_def B0_def B1_def LB_HB less_mult_imp_div_less)
  define mid where "mid = A0 * B0 div HB + A0 * B1 mod HB + A1 * B0 mod HB"
  define hi where "hi = A1 * B1 + A0 * B1 div HB + A1 * B0 div HB + mid div HB"
  define lo where "lo = A0 * B0 mod HB + HB * (mid mod HB)"
  have ab: "unat a * unat b = (A0 + HB * A1) * (B0 + HB * B1)"
    by (simp add: A0_def A1_def B0_def B1_def)
  have exact: "hi * LB + lo = unat a * unat b"
    unfolding hi_def lo_def mid_def half_columns ab by (simp add: LB_HB algebra_simps)
  have "unat a * unat b < LB * LB" by (intro mult_strict_mono) auto
  then have hiLB: "hi < LB"
    using exact mult_less_cancel2 [of hi LB LB] by linarith
  let ?p00 = "(ucast (ucast a :: 32 word) :: u64) * ucast (ucast b :: 32 word)"
  let ?p01 = "(ucast (ucast a :: 32 word) :: u64) * drop_bit 32 b"
  let ?p10 = "drop_bit 32 a * (ucast (ucast b :: 32 word) :: u64)"
  let ?p11 = "drop_bit 32 a * drop_bit 32 b"
  have p: "unat ?p00 = A0 * B0" "unat ?p01 = A0 * B1" "unat ?p10 = A1 * B0" "unat ?p11 = A1 * B1"
    using half_product_less [OF bnd(1,3)] half_product_less [OF bnd(1,4)]
      half_product_less [OF bnd(2,3)] half_product_less [OF bnd(2,4)]
    by (simp_all add: unat_mult_exact unat_low_half unat_high_half A0_def A1_def B0_def B1_def)
  let ?mid = "drop_bit 32 ?p00 + ucast (ucast ?p01 :: 32 word) + ucast (ucast ?p10 :: 32 word)"
  have d: "A0 * B0 div HB < HB"
    using half_product_less [OF bnd(1,3)] by (simp add: LB_HB less_mult_imp_div_less)
  have "3 * HB \<le> LB" by (simp add: HB_def LB_def)
  then have midLB: "mid < LB" "A0 * B0 div HB + A0 * B1 mod HB < LB"
    using d mod_less_divisor [OF HB_pos, of "A0 * B1"] mod_less_divisor [OF HB_pos, of "A1 * B0"]
    unfolding mid_def by linarith+
  have mid: "unat ?mid = mid"
    using midLB by (simp add: unat_add_exact unat_low_half unat_high_half p mid_def)
  have "unat low = lo"
    using assms by (auto simp: bigint_multiply_u64_u64_def Let_def low_word_sum mid p lo_def)
  moreover have "unat high = hi"
  proof -
    have h: "high = ?p11 + drop_bit 32 ?p01 + drop_bit 32 ?p10 + drop_bit 32 ?mid"
      using assms by (simp add: bigint_multiply_u64_u64_def Let_def)
    have "A1 * B1 + A0 * B1 div HB < LB" "A1 * B1 + A0 * B1 div HB + A1 * B0 div HB < LB"
      using hiLB unfolding hi_def by linarith+
    then show ?thesis
      using hiLB unfolding h by (simp add: unat_add_exact unat_high_half p mid hi_def)
  qed
  ultimately show ?thesis using exact by simp
qed

section \<open>The 128 by 64 bit division\<close>

text \<open>The variant for compilers with a 128-bit integer type, preceded by the two
  assertions of the C function.\<close>

definition bigint_divide_128_by_u64 :: "u64 \<Rightarrow> u64 \<Rightarrow> u64 \<Rightarrow> (u64 \<times> u64) rt" where
  "bigint_divide_128_by_u64 high low divisor = do {
     c_assert (divisor \<noteq> 0);
     c_assert (high < divisor);
     let dividend = (push_bit 64 (ucast high) OR ucast low :: 128 word);
     State_Monad.return (ucast (dividend div ucast divisor), ucast (dividend mod ucast divisor))
   }"

text \<open>The portable variant: 64 steps of binary long division. \<open>divide_128_bits n\<close>
  runs the loop for \<^verbatim>\<open>bit = n - 1, ..., 0\<close>.\<close>

primrec divide_128_bits :: "nat \<Rightarrow> u64 \<Rightarrow> u64 \<Rightarrow> u64 \<Rightarrow> u64 \<Rightarrow> u64 \<times> u64" where
  "divide_128_bits 0 low divisor quot current_remainder = (quot, current_remainder)"
| "divide_128_bits (Suc b) low divisor quot current_remainder =
    (let input_bit = drop_bit b low AND 1;
         divisor_minus_remainder = divisor - current_remainder
     in if current_remainder \<ge> divisor_minus_remainder \<or>
           (input_bit \<noteq> 0 \<and> current_remainder = divisor_minus_remainder - 1)
        then divide_128_bits b low divisor (push_bit 1 quot OR 1)
               (current_remainder - divisor_minus_remainder + input_bit)
        else divide_128_bits b low divisor (push_bit 1 quot)
               (push_bit 1 current_remainder OR input_bit))"

definition bigint_divide_128_by_u64_portable :: "u64 \<Rightarrow> u64 \<Rightarrow> u64 \<Rightarrow> (u64 \<times> u64) rt" where
  "bigint_divide_128_by_u64_portable high low divisor = do {
     c_assert (divisor \<noteq> 0);
     c_assert (high < divisor);
     State_Monad.return (divide_128_bits 64 low divisor 0 high)
   }"

subsection \<open>The 128-bit variant\<close>

lemma unat_ucast_up [simp]: "unat (ucast (x :: u64) :: 128 word) = unat x"
  using unat_lt_LB [of x] by (simp add: unsigned_ucast_eq take_bit_nat_eq_self_iff LB_def)

lemma unat_ucast_down: "unat (ucast (x :: 128 word) :: u64) = unat x mod LB"
  by (simp add: unsigned_ucast_eq take_bit_eq_mod LB_def)

lemma unat_dividend:
  "unat (push_bit 64 (ucast (h :: u64)) OR ucast (l :: u64) :: 128 word) = unat h * LB + unat l"
proof -
  have "push_bit 64 (ucast h) OR ucast l = push_bit 64 (ucast h :: 128 word) + ucast l"
    by (rule disjunctive_add [symmetric]) (auto simp: bit_simps dest: bit_imp_le_length)
  moreover have hl: "unat h * LB + unat l < LB * LB"
  proof -
    have "unat h * LB + unat l < unat h * LB + LB" by simp
    also have "\<dots> = Suc (unat h) * LB" by simp
    also have "\<dots> \<le> LB * LB" by (intro mult_le_mono1) (simp add: Suc_le_eq)
    finally show ?thesis .
  qed
  moreover have LB2: "2 ^ 128 = LB * LB" by (simp add: LB_def)
  moreover have "unat (push_bit 64 (ucast h :: 128 word)) = unat h * LB"
  proof -
    have "unat (push_bit 64 (ucast h :: 128 word)) = (2 ^ 64 * unat h) mod 2 ^ 128"
      by (simp only: push_bit_eq_mult unat_word_ariths) (simp add: mult.commute)
    then show ?thesis using hl by (simp add: LB2) (simp add: LB_def mult.commute)
  qed
  ultimately show ?thesis by (simp add: unat_word_ariths)
qed

lemma div_less_LB:
  assumes "h < d" "l < LB"
  shows "(h * LB + l) div d < (LB :: nat)"
proof -
  have "h * LB + l < h * LB + LB" using assms by simp
  also have "\<dots> = Suc h * LB" by simp
  also have "\<dots> \<le> d * LB" using assms by (intro mult_le_mono1) simp
  finally show ?thesis by (simp add: less_mult_imp_div_less mult.commute)
qed

lemma divide_128_wp [wp]:
  assumes "high < divisor"
    and Q: "\<And>q r. unat q * unat divisor + unat r = unat high * LB + unat low \<Longrightarrow> r < divisor \<Longrightarrow> Q (q, r)"
  shows "rspec u (bigint_divide_128_by_u64 high low divisor) Q"
proof -
  have d: "divisor \<noteq> 0" "unat high < unat divisor"
    using assms(1) by (auto simp: word_less_nat_alt)
  let ?n = "push_bit 64 (ucast high) OR ucast low :: 128 word"
  let ?q = "ucast (?n div ucast divisor) :: u64" and ?r = "ucast (?n mod ucast divisor) :: u64"
  have q: "unat ?q = (unat high * LB + unat low) div unat divisor"
    using div_less_LB [OF d(2) unat_lt_LB [of low]]
    by (simp add: unat_ucast_down unat_div_distrib unat_dividend)
  have "(unat high * LB + unat low) mod unat divisor < unat divisor"
    using d by (intro mod_less_divisor) linarith
  moreover from this have "(unat high * LB + unat low) mod unat divisor < LB"
    using unat_lt_LB [of divisor] by (rule less_trans)
  ultimately have r: "unat ?r = (unat high * LB + unat low) mod unat divisor" "?r < divisor"
    by (simp_all add: unat_ucast_down unat_mod_distrib unat_dividend word_less_nat_alt)
  show ?thesis
    unfolding bigint_divide_128_by_u64_def Let_def
    by (intro wp d(1) assms(1) Q) (simp_all only: q r div_mult_mod_eq)
qed

subsection \<open>The portable variant\<close>

lemma unat_shift_in:
  assumes "2 * unat x + 1 < LB" and "b = 0 \<or> b = (1 :: u64)"
  shows "unat (push_bit 1 x OR b) = 2 * unat x + unat b"
proof -
  have "push_bit 1 x OR b = push_bit 1 x + b"
  proof (cases "b = 0")
    case False
    with assms(2) have "b = 1" by simp
    then show ?thesis
      by (intro disjunctive_add [symmetric]) (auto simp only: bit_push_bit_iff bit_1_iff)
  qed simp
  moreover have "unat (push_bit 1 x) = 2 * unat x"
    using assms(1) by (simp add: push_bit_eq_mult unat_mult_mod mult.commute)
  ultimately show ?thesis using assms by (auto simp: unat_add_exact)
qed

lemma input_bit: "drop_bit n (x :: u64) AND 1 = of_bool (bit x n)"
  by (simp add: and_one_eq bit_iff_odd_drop_bit mod_2_eq_odd)

lemma mod_Suc_bit: "unat (x :: u64) mod 2 ^ Suc n = 2 ^ n * of_bool (bit x n) + unat x mod 2 ^ n"
proof -
  have "unat x mod (2 ^ n * 2) = 2 ^ n * (unat x div 2 ^ n mod 2) + unat x mod 2 ^ n"
    by (rule mod_mult2_eq)
  moreover have "unat x div 2 ^ n mod 2 = of_bool (bit x n)"
  proof -
    have "bit (unat x) n = bit x n"
      using bit_imp_le_length [of x n] by (auto simp: bit_unsigned_iff)
    then show ?thesis by (simp add: bit_iff_odd [of "unat x"] mod_2_eq_odd)
  qed
  ultimately show ?thesis by (simp add: mult.commute)
qed

lemma divide_128_step:
  assumes "r < d" and "2 * unat q + 1 < LB" and "b = 0 \<or> b = (1 :: u64)"
  defines "t \<equiv> 2 * unat r + unat b"
  shows "r \<ge> d - r \<or> (b \<noteq> 0 \<and> r = d - r - 1) \<longleftrightarrow> unat d \<le> t"
    and "unat d \<le> t \<Longrightarrow> unat (r - (d - r) + b) = t - unat d"
    and "t < unat d \<Longrightarrow> unat (push_bit 1 r OR b) = t"
proof -
  have lt: "unat r < unat d" using assms(1) by (simp add: word_less_nat_alt)
  have dr: "unat (d - r) = unat d - unat r"
    using lt by (simp add: unat_sub word_le_nat_alt)
  have dr1: "unat (d - r - 1) = unat d - unat r - 1"
    using lt dr by (subst unat_sub) (auto simp: word_le_nat_alt)
  show c: "r \<ge> d - r \<or> (b \<noteq> 0 \<and> r = d - r - 1) \<longleftrightarrow> unat d \<le> t"
    using assms(3) lt
    by (auto simp: word_le_nat_alt dr dr1 t_def word_unat_eq_iff [of r "d - r - 1"])
  show "unat (r - (d - r) + b) = t - unat d" if "unat d \<le> t"
  proof (cases "r \<ge> d - r")
    case True
    then have "unat (r - (d - r)) = unat r - unat (d - r)" by (rule unat_sub)
    then have "unat (r - (d - r)) = 2 * unat r - unat d" using lt dr by linarith
    moreover have "2 * unat r - unat d + unat b < LB"
    proof -
      have "unat b \<le> 1" using assms(3) by auto
      then show ?thesis using lt unat_lt_LB [of d] by linarith
    qed
    ultimately show ?thesis
      using True assms(3) dr by (auto simp: unat_add_exact t_def word_le_nat_alt)
  next
    case False
    with c that have "b \<noteq> 0" "r = d - r - 1" by auto
    then have "b = 1" and "r - (d - r) = - 1" using assms(3) by (auto simp: algebra_simps)
    moreover have "unat r = unat d - unat r - 1" 
      by (rule trans [OF arg_cong [OF \<open>r = d - r - 1\<close>, of unat] dr1])
    ultimately show ?thesis using lt by (simp add: t_def)
  qed
  show "unat (push_bit 1 r OR b) = t" if "t < unat d"
  proof -
    have "2 * unat r + 1 < LB"
      using that assms(3) unat_lt_LB [of d] less_imp_Suc_add [OF unat_lt_LB [of d]]
      by (auto simp: t_def)
    then show ?thesis using assms(3) unfolding t_def by (rule unat_shift_in)
  qed
qed

lemma divide_128_bits_correct:
  "divide_128_bits n low d q r = (q', r') \<Longrightarrow> r < d \<Longrightarrow> n \<le> 64 \<Longrightarrow> unat q < 2 ^ (64 - n) \<Longrightarrow>
   r' < d \<and> unat q' * unat d + unat r' = (unat q * unat d + unat r) * 2 ^ n + unat low mod 2 ^ n"
proof (induction n arbitrary: q r)
  case 0
  then show ?case by simp
next
  case (Suc n)
  let ?b = "drop_bit n low AND 1 :: u64"
  have b: "?b = 0 \<or> ?b = 1" by (simp add: input_bit)
  have q: "2 * unat q + 1 < 2 ^ (64 - n)"
  proof -
    have "64 - n = Suc (64 - Suc n)" using Suc.prems(3) by simp
    then show ?thesis using Suc.prems(4) by simp
  qed
  have "(2 :: nat) ^ (64 - n) \<le> LB" unfolding LB_def by (intro power_increasing) auto
  with q have qLB: "2 * unat q + 1 < LB" by linarith
  note step = divide_128_step [OF Suc.prems(2) qLB b]
  have split: "(2 * unat q * unat d + 2 * unat r + unat ?b) * 2 ^ n + unat low mod 2 ^ n
      = (unat q * unat d + unat r) * 2 ^ Suc n + unat low mod 2 ^ Suc n"
    by (simp only: mod_Suc_bit input_bit unat_of_bool) (simp add: algebra_simps)
  show ?case
  proof (cases "unat d \<le> 2 * unat r + unat ?b")
    case True
    let ?r = "r - (d - r) + ?b" and ?q = "push_bit 1 q OR 1 :: u64"
    have r: "unat ?r = 2 * unat r + unat ?b - unat d" by (rule step(2) [OF True])
    have q2: "unat ?q = 2 * unat q + 1" using unat_shift_in [OF qLB, of 1] by simp
    have "?r < d" using r Suc.prems(2) b True by (auto simp: word_less_nat_alt)
    moreover have "divide_128_bits n low d ?q ?r = (q', r')"
      using Suc.prems(1) True unfolding divide_128_bits.simps Let_def step(1) by (simp only: if_True)
    ultimately have "r' < d \<and> unat q' * unat d + unat r' = (unat ?q * unat d + unat ?r) * 2 ^ n + unat low mod 2 ^ n"
      using Suc.IH [of ?q ?r] q q2 Suc.prems(3) by simp
    moreover have "unat ?q * unat d + unat ?r = 2 * unat q * unat d + 2 * unat r + unat ?b"
      unfolding q2 r using True by (simp add: algebra_simps)
    ultimately show ?thesis using split by simp
  next
    case False
    let ?r = "push_bit 1 r OR ?b" and ?q = "push_bit 1 q :: u64"
    have r: "unat ?r = 2 * unat r + unat ?b" using step(3) False by simp
    have q2: "unat ?q = 2 * unat q" using unat_shift_in [OF qLB, of 0] by simp
    have "?r < d" using r False by (simp add: word_less_nat_alt)
    moreover have "divide_128_bits n low d ?q ?r = (q', r')"
      using Suc.prems(1) False unfolding divide_128_bits.simps Let_def step(1) by (simp only: if_False)
    ultimately have "r' < d \<and> unat q' * unat d + unat r' = (unat ?q * unat d + unat ?r) * 2 ^ n + unat low mod 2 ^ n"
      using Suc.IH [of ?q ?r] q q2 Suc.prems(3) by simp
    moreover have "unat ?q * unat d + unat ?r = 2 * unat q * unat d + 2 * unat r + unat ?b"
      unfolding q2 r by (simp add: algebra_simps)
    ultimately show ?thesis using split by simp
  qed
qed

lemma divmod_unique:
  assumes "q * d + r = q' * d + r'" "r < d" "r' < (d :: nat)"
  shows "q = q' \<and> r = r'"
proof -
  have "(q * d + r) div d = (q' * d + r') div d" using assms(1) by simp
  then have "q = q'" using assms(2,3) by simp
  with assms(1) show ?thesis by simp
qed

lemma portable_128_wp:
  assumes "high < divisor"
    and Q: "\<And>q r. unat q * unat divisor + unat r = unat high * LB + unat low \<Longrightarrow> r < divisor \<Longrightarrow> Q (q, r)"
  shows "rspec u (bigint_divide_128_by_u64_portable high low divisor) Q"
proof -
  obtain q r where qr: "divide_128_bits 64 low divisor 0 high = (q, r)" by fastforce
  have "r < divisor \<and> unat q * unat divisor + unat r = unat high * LB + unat low"
    using divide_128_bits_correct [OF qr assms(1)] mod_less [OF unat_lt_LB [of low]]
    by (simp add: LB_def)
  moreover have "divisor \<noteq> 0" using assms(1) by auto
  ultimately show ?thesis
    unfolding bigint_divide_128_by_u64_portable_def using assms(1) qr Q
    by (auto intro!: wp)
qed

section \<open>Multiply and accumulate\<close>

text \<open>The carry of \<^verbatim>\<open>a * b + c\<close> and of \<^verbatim>\<open>p + a * b + c\<close> fits one limb.\<close>

lemma limb_mac_less:
  "unat (p :: u64) + unat (a :: u64) * unat (b :: u64) + unat (c :: u64) < LB * LB"
proof -
  obtain k where k: "LB = Suc k" using LB_pos by (cases LB) auto
  have "unat p \<le> k" "unat a \<le> k" "unat b \<le> k" "unat c \<le> k"
    using unat_lt_LB [of p] unat_lt_LB [of a] unat_lt_LB [of b] unat_lt_LB [of c] k by linarith+
  moreover from this have "unat a * unat b \<le> k * k" by (intro mult_le_mono)
  ultimately have "unat p + unat a * unat b + unat c \<le> k + k * k + k" by linarith
  also have "\<dots> < Suc k * Suc k" by simp
  finally show ?thesis unfolding k .
qed

lemma mul_add_limb:
  assumes "bigint_multiply_u64_u64 a b = (high, low)"
  shows "unat (if low + c < low then high + 1 else high) * LB + unat (low + c) = unat a * unat b + unat c"
proof -
  note m = multiply_u64_u64_exact [OF assms]
  note carry = add_carry [of low c]
  have "unat a * unat b + unat c < LB * LB"
    using limb_mac_less [of 0 a b c] by simp
  then have "(unat high + of_bool (low + c < low)) * LB < LB * LB"
    using m carry by (simp add: algebra_simps)
  then have "unat high + of_bool (low + c < low) < LB" by simp
  then have "unat (if low + c < low then high + 1 else high) = unat high + of_bool (low + c < low)"
    using unat_add_exact [of high 1] by (cases "low + c < low") simp_all
  then show ?thesis using m carry by (simp add: algebra_simps)
qed

lemma mac_limb:
  fixes p a b c :: u64
  assumes "bigint_multiply_u64_u64 a b = (high, low)"
  defines "s1 \<equiv> p + low"
  defines "s2 \<equiv> s1 + c"
  shows "unat (high + of_bool (s1 < low) + of_bool (s2 < s1)) * LB + unat s2
         = unat p + unat a * unat b + unat c"
proof -
  note m = multiply_u64_u64_exact [OF assms(1)]
  have c1: "unat s1 + LB * of_bool (s1 < low) = unat p + unat low"
    unfolding s1_def by (rule add_carry_right)
  have c2: "unat s2 + LB * of_bool (s2 < s1) = unat s1 + unat c"
    unfolding s2_def by (rule add_carry)
  let ?h = "unat high + of_bool (s1 < low) + of_bool (s2 < s1)"
  have eq: "?h * LB + unat s2 = unat p + unat a * unat b + unat c"
    using m c1 c2 by (simp add: algebra_simps)
  then have "?h * LB < LB * LB" using limb_mac_less [of p a b c] by linarith
  then have "?h < LB" by simp
  then have "unat (high + of_bool (s1 < low) + of_bool (s2 < s1)) = ?h"
    by (simp add: unat_add_exact)
  then show ?thesis using eq by simp
qed

section \<open>Properties\<close>

text \<open>The portable 64 by 64 bit product loses nothing: its two result words are the
  128-bit product, for all operands.\<close>

theorem multiply_u64_u64_full:
  "(case bigint_multiply_u64_u64 a b of (high, low) \<Rightarrow> unat high * 2 ^ 64 + unat low) = unat a * unat b"
  using multiply_u64_u64_exact [of a b] by (simp add: LB_def split: prod.split)

text \<open>C38: The two implementations of the 128 by 64 bit division agree. Whenever the quotient
  fits a limb, the 64-step binary loop for compilers without a 128-bit type returns the same
  quotient and remainder as the 128-bit division, and no assertion of either fails.\<close>

theorem divide_128_variants_agree:
  assumes "\<not> stuck s" "high < divisor"
  shows "fst (run_state (bigint_divide_128_by_u64_portable high low divisor) s) =
      fst (run_state (bigint_divide_128_by_u64 high low divisor) s) \<and>
    \<not> stuck (snd (run_state (bigint_divide_128_by_u64_portable high low divisor) s)) \<and>
    \<not> stuck (snd (run_state (bigint_divide_128_by_u64 high low divisor) s))"
proof -
  let ?P = "\<lambda>(q, r). unat q * unat divisor + unat r = unat high * LB + unat low \<and> r < divisor"
  have p: "rspec False (bigint_divide_128_by_u64_portable high low divisor) ?P"
    by (rule portable_128_wp [OF assms(2)]) simp
  have d: "rspec False (bigint_divide_128_by_u64 high low divisor) ?P"
    by (rule divide_128_wp [OF assms(2)]) simp
  have unique: "x = y" if "?P x" "?P y" for x y
  proof (cases x; cases y)
    fix q1 r1 q2 r2
    assume xy: "x = (q1, r1)" "y = (q2, r2)"
    have "unat q1 = unat q2 \<and> unat r1 = unat r2"
      by (rule divmod_unique [of _ "unat divisor"]) (use that in \<open>simp_all add: xy word_less_nat_alt\<close>)
    then show "x = y" by (simp add: xy word_unat_eq_iff)
  qed
  show ?thesis
    using triple_run [OF p, of s] triple_run [OF d, of s] assms(1) by (auto simp: rt_ok_def intro: unique)
qed

theorem divide_128_variants_agree_witness:
  "fst (run_state (bigint_divide_128_by_u64_portable 3 9 5) idle_runtime) =
   fst (run_state (bigint_divide_128_by_u64 3 9 5) idle_runtime)"
  using divide_128_variants_agree [of idle_runtime 3 5 9] by simp

end
