(* ===== verification/BigInt_Base.thy ===== *)
theory BigInt_Base
  imports Limb_Kernels
begin

text \<open>
  The \<^verbatim>\<open>BigInt\<close> object and the magnitude helpers of
  \<^verbatim>\<open>src/core/bigint/bigint.c\<close> and \<^verbatim>\<open>comparison.c\<close>.

  A \<^verbatim>\<open>struct BigInt\<close> is the record \<open>BigInt\<close>: \<open>limbs\<close> holds the
  \<^verbatim>\<open>size\<close> significant limbs of the buffer (so \<^verbatim>\<open>size\<close> is
  \<open>bsize\<close>, its length), \<open>capacity\<close> the allocated limbs and \<open>is_negative\<close> the sign.
  What lies in the buffer beyond \<^verbatim>\<open>size\<close> is indeterminate in C and is never
  read. An operation takes the objects by value, the old value of the object it writes
  included, and returns the status and the new value of that object; an operand that
  aliases the output is the same value passed twice.

  \<open>bigint_wf\<close> is the representation invariant of \<^verbatim>\<open>bigint_internal.h\<close>,
  \<open>bigint_val\<close> the integer an object denotes.
\<close>

unbundle bit_operations_syntax

section \<open>Objects, statuses and sizes\<close>

datatype BigIntStatus =
    BIGINT_OK
  | BIGINT_NULL_ARGUMENT
  | BIGINT_OUT_OF_MEMORY
  | BIGINT_DIVISION_BY_ZERO
  | BIGINT_INVALID_ARGUMENT
  | BIGINT_NEGATIVE_ARGUMENT
  | BIGINT_VALUE_TOO_LARGE

record BigInt =
  limbs :: "u64 list"
  capacity :: nat
  is_negative :: bool

abbreviation bsize :: "BigInt \<Rightarrow> nat" where
  "bsize b \<equiv> length (limbs b)"

definition BIGINT_MAX_LIMBS :: nat where
  "BIGINT_MAX_LIMBS = SIZE_MAX div 64"

text \<open>\<^verbatim>\<open>BigInt x = {0};\<close>\<close>

definition bigint_init :: BigInt where
  "bigint_init = \<lparr>limbs = [], capacity = 0, is_negative = False\<rparr>"

definition bigint_status_to_string :: "BigIntStatus \<Rightarrow> string" where
  "bigint_status_to_string status = (case status of
      BIGINT_OK \<Rightarrow> ''success''
    | BIGINT_NULL_ARGUMENT \<Rightarrow> ''a required argument was NULL''
    | BIGINT_OUT_OF_MEMORY \<Rightarrow> ''out of memory''
    | BIGINT_DIVISION_BY_ZERO \<Rightarrow> ''division by zero''
    | BIGINT_INVALID_ARGUMENT \<Rightarrow> ''invalid argument''
    | BIGINT_NEGATIVE_ARGUMENT \<Rightarrow> ''this operation requires a non-negative argument''
    | BIGINT_VALUE_TOO_LARGE \<Rightarrow> ''value is too large for this operation'')"

text \<open>Overflow-checked \<^verbatim>\<open>size_t\<close> arithmetic; \<open>None\<close> is
  \<^verbatim>\<open>BIGINT_OUT_OF_MEMORY\<close>.\<close>

definition bigint_size_add :: "nat \<Rightarrow> nat \<Rightarrow> nat option" where
  "bigint_size_add a b = (if a > SIZE_MAX - b then None else Some (a + b))"

definition bigint_size_mul :: "nat \<Rightarrow> nat \<Rightarrow> nat option" where
  "bigint_size_mul a b = (if a \<noteq> 0 \<and> b > SIZE_MAX div a then None else Some (a * b))"

definition bigint_storage_bytes :: "BigInt option \<Rightarrow> nat" where
  "bigint_storage_bytes p = (case p of None \<Rightarrow> 0
     | Some value \<Rightarrow> if capacity value > (SIZE_MAX - 32) div 8 then SIZE_MAX
                     else 32 + capacity value * 8)"

lemma bigint_size_add_Some [simp]: "a + b \<le> SIZE_MAX \<Longrightarrow> bigint_size_add a b = Some (a + b)"
  by (auto simp: bigint_size_add_def)

lemma bigint_size_addD: "bigint_size_add a b = Some c \<Longrightarrow> c = a + b"
  by (auto simp: bigint_size_add_def split: if_splits)

lemma bigint_size_add_NoneD: "bigint_size_add a b = None \<Longrightarrow> \<not> a + b \<le> SIZE_MAX"
  by (auto simp: bigint_size_add_def split: if_splits)

lemma bigint_size_mul_iff: "bigint_size_mul a b = Some c \<longleftrightarrow> a * b \<le> SIZE_MAX \<and> c = a * b"
  using less_eq_div_iff_mult_less_eq [of a b SIZE_MAX]
  by (cases "a = 0") (auto simp: bigint_size_mul_def not_less mult.commute)

lemma bigint_size_mul_None_iff: "bigint_size_mul a b = None \<longleftrightarrow> \<not> a * b \<le> SIZE_MAX"
  using bigint_size_mul_iff [of a b "a * b"] by (cases "bigint_size_mul a b") (auto simp: bigint_size_mul_iff)

lemma bigint_size_mul_Some [simp]: "a * b \<le> SIZE_MAX \<Longrightarrow> bigint_size_mul a b = Some (a * b)"
  by (simp add: bigint_size_mul_iff)

lemma max_limbs_bytes: "n \<le> BIGINT_MAX_LIMBS \<Longrightarrow> n * 8 \<le> SIZE_MAX"
  by (simp add: BIGINT_MAX_LIMBS_def SIZE_MAX_def)

lemma max_limbs_Suc: "n \<le> BIGINT_MAX_LIMBS \<Longrightarrow> Suc n \<le> SIZE_MAX"
  by (simp add: BIGINT_MAX_LIMBS_def SIZE_MAX_def)

lemma max_limbs_add: "m \<le> BIGINT_MAX_LIMBS \<Longrightarrow> n \<le> BIGINT_MAX_LIMBS \<Longrightarrow> m + n + 2 \<le> SIZE_MAX"
  by (simp add: BIGINT_MAX_LIMBS_def SIZE_MAX_def)

section \<open>Invariant and value\<close>

definition bigint_wf :: "BigInt \<Rightarrow> bool" where
  "bigint_wf b \<longleftrightarrow> canonical (limbs b) \<and> (is_negative b \<longrightarrow> limbs b \<noteq> []) \<and>
     bsize b \<le> capacity b \<and> capacity b \<le> BIGINT_MAX_LIMBS"

abbreviation bigint_mag :: "BigInt \<Rightarrow> nat" where
  "bigint_mag b \<equiv> mag (limbs b)"

definition bigint_val :: "BigInt \<Rightarrow> int" where
  "bigint_val b = (if is_negative b then - int (bigint_mag b) else int (bigint_mag b))"

lemma bigint_wfD:
  assumes "bigint_wf b"
  shows "canonical (limbs b)" "is_negative b \<Longrightarrow> limbs b \<noteq> []"
    "bsize b \<le> capacity b" "capacity b \<le> BIGINT_MAX_LIMBS" "bsize b \<le> BIGINT_MAX_LIMBS"
  using assms by (auto simp: bigint_wf_def)

lemma bigint_wf_init [simp]: "bigint_wf bigint_init"
  by (simp add: bigint_wf_def bigint_init_def)

lemma bigint_val_init [simp]: "bigint_val bigint_init = 0"
  by (simp add: bigint_val_def bigint_init_def)

lemma abs_bigint_val [simp]: "\<bar>bigint_val b\<bar> = int (bigint_mag b)"
  by (simp add: bigint_val_def)

lemma bigint_val_neg_iff: "bigint_wf b \<Longrightarrow> bigint_val b < 0 \<longleftrightarrow> is_negative b"
  using mag_eq_0_iff [of "limbs b"] by (auto simp: bigint_val_def bigint_wf_def)

lemma bigint_val_0_iff: "bigint_wf b \<Longrightarrow> bigint_val b = 0 \<longleftrightarrow> limbs b = []"
  using mag_eq_0_iff [of "limbs b"] by (auto simp: bigint_val_def bigint_wf_def)

text \<open>The representation of an integer is unique up to the spare capacity.\<close>

lemma bigint_val_inj:
  assumes "bigint_wf a" "bigint_wf b" "bigint_val a = bigint_val b"
  shows "limbs a = limbs b \<and> is_negative a = is_negative b"
proof -
  have "is_negative a = is_negative b"
    using assms bigint_val_neg_iff by metis
  moreover from this have "bigint_mag a = bigint_mag b"
    using assms(3) by (auto simp: bigint_val_def split: if_splits)
  ultimately show ?thesis
    using assms(1,2) canonical_mag_inj by (auto simp: bigint_wf_def)
qed

text \<open>How an operation may fail for want of resources: with unlimited resources
  (\<open>u\<close>) and a result that \<open>fits\<close> it does not.\<close>

definition resource_failure :: "bool \<Rightarrow> bool \<Rightarrow> BigIntStatus \<Rightarrow> bool" where
  "resource_failure u fits st \<longleftrightarrow>
     (st = BIGINT_OUT_OF_MEMORY \<or> st = BIGINT_VALUE_TOO_LARGE) \<and> \<not> (u \<and> fits)"

lemma resource_failure_not_OK [simp]: "\<not> resource_failure u fits BIGINT_OK"
  by (simp add: resource_failure_def)

lemma resource_failure_neq_OK [dest]: "resource_failure u fits st \<Longrightarrow> st \<noteq> BIGINT_OK"
  by (auto simp: resource_failure_def)

lemma resource_failure_weaken:
  "resource_failure u fits st \<Longrightarrow> (u \<Longrightarrow> fits' \<Longrightarrow> fits) \<Longrightarrow> resource_failure u fits' st"
  by (auto simp: resource_failure_def)

lemma resource_failure_oom [simp]:
  "resource_failure u fits BIGINT_OUT_OF_MEMORY \<longleftrightarrow> \<not> (u \<and> fits)"
  by (simp add: resource_failure_def)

lemma resource_failure_large [simp]:
  "resource_failure u fits BIGINT_VALUE_TOO_LARGE \<longleftrightarrow> \<not> (u \<and> fits)"
  by (simp add: resource_failure_def)

text \<open>The two ways an operation may return: \<open>outcome u fits st good bad\<close> says that
  \<open>good\<close> holds when the status is \<^verbatim>\<open>BIGINT_OK\<close>, and that otherwise the status is a
  resource failure and \<open>bad\<close> holds.\<close>

definition outcome :: "bool \<Rightarrow> bool \<Rightarrow> BigIntStatus \<Rightarrow> bool \<Rightarrow> bool \<Rightarrow> bool" where
  "outcome u fits st good bad \<longleftrightarrow>
     (if st = BIGINT_OK then good else resource_failure u fits st \<and> bad)"

lemma outcome_OK [simp]: "outcome u fits BIGINT_OK good bad = good"
  by (simp add: outcome_def)

lemma outcome_OOM [simp]: "outcome u fits BIGINT_OUT_OF_MEMORY good bad \<longleftrightarrow> \<not> (u \<and> fits) \<and> bad"
  by (simp add: outcome_def)

lemma outcome_LARGE [simp]: "outcome u fits BIGINT_VALUE_TOO_LARGE good bad \<longleftrightarrow> \<not> (u \<and> fits) \<and> bad"
  by (simp add: outcome_def)

lemma outcome_fail [simp]:
  "st \<noteq> BIGINT_OK \<Longrightarrow> outcome u fits st good bad \<longleftrightarrow> resource_failure u fits st \<and> bad"
  by (simp add: outcome_def)

lemma outcome_mono:
  "outcome u fits st good bad \<Longrightarrow> (u \<Longrightarrow> fits' \<Longrightarrow> fits) \<Longrightarrow> (good \<Longrightarrow> good') \<Longrightarrow>
   (bad \<Longrightarrow> bad') \<Longrightarrow> outcome u fits' st good' bad'"
  by (auto simp: outcome_def resource_failure_def split: if_splits)

text \<open>The idiom \<^verbatim>\<open>if (status == BIGINT_OK) status = f(...);\<close>: after a
  failure the rest of the chain only passes the status on.\<close>

lemma seq_ok:
  assumes "\<And>st x. st \<noteq> BIGINT_OK \<Longrightarrow> f (st, x) = State_Monad.return (st, e)"
    and "rspec u m (\<lambda>(st, x). if st = BIGINT_OK then rspec u (f (BIGINT_OK, x)) Q else Q (st, e))"
  shows "rspec u (State_Monad.bind m f) Q"
proof (rule triple_bind, rule triple_conseq [OF assms(2)])
  fix v
  assume v: "case v of (st, x) \<Rightarrow> if st = BIGINT_OK then rspec u (f (BIGINT_OK, x)) Q else Q (st, e)"
  obtain st x where "v = (st, x)" by fastforce
  with v show "rspec u (f v) Q" by (cases "st = BIGINT_OK") (simp_all add: assms(1) triple_return)
qed

lemma ok_or_fail:
  assumes "st = BIGINT_OK \<Longrightarrow> A x" "st \<noteq> BIGINT_OK \<Longrightarrow> B st"
  shows "case (st, x) of (st, x) \<Rightarrow> if st = BIGINT_OK then A x else B st"
  using assms by simp

lemma if_ok:
  "rspec u (State_Monad.bind m f) Q \<Longrightarrow>
   rspec u (State_Monad.bind (if BIGINT_OK = BIGINT_OK then m else m') f) Q"
  by simp

section \<open>Canonical form\<close>

text \<open>\<open>trimmed n xs\<close>: the loop \<^verbatim>\<open>while (n && !xs[n - 1]) --n;\<close>\<close>

primrec trimmed :: "nat \<Rightarrow> u64 list \<Rightarrow> nat" where
  "trimmed 0 xs = 0"
| "trimmed (Suc n) xs = (if xs ! n = 0 then trimmed n xs else Suc n)"

definition bigint_normalize :: "BigInt \<Rightarrow> BigInt" where
  "bigint_normalize value =
    (let value = value\<lparr>limbs := take (trimmed (bsize value) (limbs value)) (limbs value)\<rparr>
     in if limbs value = [] then value\<lparr>is_negative := False\<rparr> else value)"

lemma trimmed_le: "trimmed n xs \<le> n"
  by (induction n) auto

lemma mag_take_trimmed: "n \<le> length xs \<Longrightarrow> mag (take (trimmed n xs) xs) = mag (take n xs)"
  by (induction n) (simp_all add: mag_take_Suc)

lemma canonical_take_trimmed: "n \<le> length xs \<Longrightarrow> canonical (take (trimmed n xs) xs)"
  by (induction n) (simp_all add: take_Suc_conv_app_nth)

lemma trimmed_canonical: "canonical xs \<Longrightarrow> trimmed (length xs) xs = length xs"
  by (cases xs rule: rev_cases) auto

lemma normalize_mag [simp]: "bigint_mag (bigint_normalize v) = bigint_mag v"
  using mag_take_trimmed [of "bsize v" "limbs v"] by (simp add: bigint_normalize_def Let_def)

lemma normalize_canonical [simp]: "canonical (limbs (bigint_normalize v))"
  using canonical_take_trimmed [of "bsize v" "limbs v"] by (simp add: bigint_normalize_def Let_def)

lemma normalize_length: "bsize (bigint_normalize v) \<le> bsize v"
  by (simp add: bigint_normalize_def Let_def)

lemma normalize_capacity [simp]: "capacity (bigint_normalize v) = capacity v"
  by (simp add: bigint_normalize_def Let_def)

lemma normalize_wf:
  "bsize v \<le> capacity v \<Longrightarrow> capacity v \<le> BIGINT_MAX_LIMBS \<Longrightarrow> bigint_wf (bigint_normalize v)"
  using normalize_length [of v] normalize_canonical [of v]
  by (auto simp: bigint_wf_def) (auto simp: bigint_normalize_def Let_def split: if_splits)

lemma normalize_val [simp]: "bigint_val (bigint_normalize v) = bigint_val v"
proof (cases "limbs (bigint_normalize v) = []")
  case True
  then have "bigint_mag v = 0" using normalize_mag [of v] by simp
  with True show ?thesis by (simp add: bigint_val_def)
next
  case False
  then have "is_negative (bigint_normalize v) = is_negative v"
    by (auto simp: bigint_normalize_def Let_def split: if_splits)
  then show ?thesis by (simp add: bigint_val_def)
qed

lemma normalize_canonical_id: "canonical (limbs v) \<Longrightarrow> limbs v \<noteq> [] \<Longrightarrow> bigint_normalize v = v"
  by (simp add: bigint_normalize_def Let_def trimmed_canonical)

text \<open>\<^verbatim>\<open>bigint_commit\<close> moves the temporary into the destination and leaves the
  temporary empty.\<close>

definition bigint_commit :: "BigInt \<Rightarrow> BigInt \<Rightarrow> BigInt \<times> BigInt" where
  "bigint_commit destination temporary =
    (destination\<lparr>limbs := limbs temporary, capacity := capacity temporary,
       is_negative := is_negative temporary\<rparr>,
     temporary\<lparr>limbs := [], capacity := 0, is_negative := False\<rparr>)"

lemma fst_bigint_commit [simp]: "fst (bigint_commit d t) = t"
  by (simp add: bigint_commit_def)

definition bigint_wrap_uint64 :: "u64 \<Rightarrow> BigInt" where
  "bigint_wrap_uint64 number =
     \<lparr>limbs = (if number \<noteq> 0 then [number] else []), capacity = 1, is_negative = False\<rparr>"

lemma wrap_uint64_wf [simp]: "bigint_wf (bigint_wrap_uint64 n)"
  by (simp add: bigint_wf_def bigint_wrap_uint64_def canonical_def BIGINT_MAX_LIMBS_def SIZE_MAX_def)

lemma wrap_uint64_val [simp]: "bigint_val (bigint_wrap_uint64 n) = int (unat n)"
  by (simp add: bigint_val_def bigint_wrap_uint64_def)

end
