(* ===== verification/BigInt_Core.thy ===== *)
theory BigInt_Core
  imports BigInt_Base
begin

text \<open>
  The magnitude operations of \<^verbatim>\<open>src/core/bigint/bigint.c\<close> on which all
  arithmetic rests (growing a buffer, one-limb operations, addition and subtraction of
  magnitudes, bits), and the comparisons of \<^verbatim>\<open>comparison.c\<close>.

  Every operation has a rule of the calculus, named \<open><operation>_wp\<close>: what it returns
  when it succeeds, when it may fail, and what it leaves in the object when it does.
\<close>

unbundle bit_operations_syntax

section \<open>Growing the limb buffer\<close>

definition storage_ok :: "BigInt \<Rightarrow> bool" where
  "storage_ok b \<longleftrightarrow> bsize b \<le> capacity b \<and> capacity b \<le> BIGINT_MAX_LIMBS"

lemma bigint_wf_storage_ok: "bigint_wf b \<Longrightarrow> storage_ok b"
  by (simp add: bigint_wf_def storage_ok_def)

lemma bigint_wf_iff:
  "bigint_wf b \<longleftrightarrow> storage_ok b \<and> canonical (limbs b) \<and> (is_negative b \<longrightarrow> limbs b \<noteq> [])"
  by (auto simp: bigint_wf_def storage_ok_def)

lemma normalize_storage_ok: "storage_ok v \<Longrightarrow> storage_ok (bigint_normalize v)"
  using normalize_length [of v] by (simp add: storage_ok_def)

lemma normalize_negative:
  "is_negative (bigint_normalize v) \<longleftrightarrow> is_negative v \<and> limbs (bigint_normalize v) \<noteq> []"
  by (auto simp: bigint_normalize_def Let_def)

text \<open>The doubling loop. The fuel is the number of doublings, at most 64 for a
  \<^verbatim>\<open>size_t\<close>.\<close>

primrec grow_capacity :: "nat \<Rightarrow> nat \<Rightarrow> nat \<Rightarrow> nat rt" where
  "grow_capacity 0 new_capacity needed = out_of_fuel new_capacity"
| "grow_capacity (Suc fuel) new_capacity needed =
    (if new_capacity < needed then
       (case bigint_size_mul new_capacity 2 of
          None \<Rightarrow> State_Monad.return needed
        | Some doubled \<Rightarrow>
            if doubled > BIGINT_MAX_LIMBS then State_Monad.return needed
            else grow_capacity fuel doubled needed)
     else State_Monad.return new_capacity)"

definition bigint_ensure_capacity :: "BigInt \<Rightarrow> nat \<Rightarrow> (BigIntStatus \<times> BigInt) rt" where
  "bigint_ensure_capacity value needed =
    (if needed > BIGINT_MAX_LIMBS then State_Monad.return (BIGINT_VALUE_TOO_LARGE, value)
     else if capacity value \<ge> needed then State_Monad.return (BIGINT_OK, value)
     else do {
       new_capacity \<leftarrow> grow_capacity 64 (if capacity value = 0 then 1 else capacity value) needed;
       case bigint_size_mul new_capacity 8 of
         None \<Rightarrow> State_Monad.return (BIGINT_OUT_OF_MEMORY, value)
       | Some new_capacity_bytes \<Rightarrow> do {
           granted \<leftarrow> numforge_realloc new_capacity_bytes;
           if \<not> granted then State_Monad.return (BIGINT_OUT_OF_MEMORY, value)
           else State_Monad.return (BIGINT_OK, value\<lparr>capacity := new_capacity\<rparr>)
         }
     })"

lemma grow_capacity_wp:
  "BIGINT_MAX_LIMBS < new_capacity * 2 ^ fuel \<Longrightarrow> needed \<le> BIGINT_MAX_LIMBS \<Longrightarrow>
   new_capacity \<le> BIGINT_MAX_LIMBS \<Longrightarrow>
   (\<And>c. needed \<le> c \<Longrightarrow> new_capacity \<le> c \<Longrightarrow> c \<le> BIGINT_MAX_LIMBS \<Longrightarrow> Q c) \<Longrightarrow>
   rspec u (grow_capacity fuel new_capacity needed) Q"
proof (induction fuel arbitrary: new_capacity)
  case 0
  then show ?case by simp
next
  case (Suc fuel)
  show ?case
    using Suc.prems
    by (auto intro!: wp Suc.IH simp: bigint_size_mul_iff mult.commute mult.left_commute)
qed

lemma max_limbs_2_64: "BIGINT_MAX_LIMBS < 2 ^ 64"
  by (simp add: BIGINT_MAX_LIMBS_def SIZE_MAX_def)

lemma ensure_capacity_wp [wp]:
  assumes cap: "capacity v \<le> BIGINT_MAX_LIMBS"
    and Q: "\<And>st c. outcome u (needed \<le> BIGINT_MAX_LIMBS) st
               (needed \<le> c \<and> capacity v \<le> c \<and> c \<le> BIGINT_MAX_LIMBS) (c = capacity v) \<Longrightarrow>
             Q (st, v\<lparr>capacity := c\<rparr>)"
  shows "rspec u (bigint_ensure_capacity v needed) Q"
proof -
  have same: "Q (st, v)" if "outcome u (needed \<le> BIGINT_MAX_LIMBS) st (needed \<le> capacity v) True" for st
    using Q [of st "capacity v"] that cap by (cases v) (simp add: outcome_def split: if_splits)
  have one: "1 \<le> BIGINT_MAX_LIMBS" by (simp add: BIGINT_MAX_LIMBS_def SIZE_MAX_def)
  have fuel: "BIGINT_MAX_LIMBS < n * 2 ^ 64" if "n \<noteq> 0" for n
    using max_limbs_2_64 that by (cases n) auto
  show ?thesis
    unfolding bigint_ensure_capacity_def
    by (auto intro!: wp grow_capacity_wp same Q fuel
        simp: cap one not_less max_limbs_bytes bigint_size_mul_iff)
qed

definition bigint_set_uint64 :: "BigInt \<Rightarrow> u64 \<Rightarrow> (BigIntStatus \<times> BigInt) rt" where
  "bigint_set_uint64 value amount =
    (if amount = 0 then State_Monad.return (BIGINT_OK, value\<lparr>limbs := [], is_negative := False\<rparr>)
     else do {
       (status, value) \<leftarrow> bigint_ensure_capacity value 1;
       if status \<noteq> BIGINT_OK then State_Monad.return (status, value)
       else State_Monad.return (BIGINT_OK, value\<lparr>limbs := [amount], is_negative := False\<rparr>)
     })"

definition bigint_copy :: "BigInt \<Rightarrow> BigInt \<Rightarrow> (BigIntStatus \<times> BigInt) rt" where
  "bigint_copy destination source =
    (if limbs source = []
     then State_Monad.return (BIGINT_OK, destination\<lparr>limbs := [], is_negative := False\<rparr>)
     else do {
       (status, destination) \<leftarrow> bigint_ensure_capacity destination (bsize source);
       if status \<noteq> BIGINT_OK then State_Monad.return (status, destination)
       else State_Monad.return
         (BIGINT_OK, destination\<lparr>limbs := limbs source, is_negative := is_negative source\<rparr>)
     })"

text \<open>A copy onto itself returns early in the code; here it takes the way of any other, with the same result.\<close>

lemma bigint_copy_self: "bigint_wf a \<Longrightarrow> bigint_copy a a = State_Monad.return (BIGINT_OK, a)"
  by (cases a) (auto simp: bigint_copy_def bigint_ensure_capacity_def bigint_wf_def storage_ok_def)

definition bigint_create :: "BigInt option rt" where
  "bigint_create = do {
     granted \<leftarrow> numforge_malloc 32;
     State_Monad.return (if \<not> granted then None else Some bigint_init)
   }"

lemma set_uint64_wp [wp]:
  assumes "storage_ok v"
    and Q: "\<And>st v'. outcome u True st (bigint_wf v' \<and> bigint_val v' = int (unat n)) (v' = v) \<Longrightarrow> Q (st, v')"
  shows "rspec u (bigint_set_uint64 v n) Q"
proof -
  have one: "1 \<le> BIGINT_MAX_LIMBS" by (simp add: BIGINT_MAX_LIMBS_def SIZE_MAX_def)
  show ?thesis
    using assms(1) one unfolding bigint_set_uint64_def storage_ok_def
    by (auto intro!: wp Q simp: bigint_wf_def bigint_val_def canonical_def unat_eq_0_iff)
qed

lemma copy_wp [wp]:
  assumes "storage_ok d" "bigint_wf s"
    and Q: "\<And>st d'. outcome u True st (bigint_wf d' \<and> bigint_val d' = bigint_val s \<and>
              limbs d' = limbs s \<and> is_negative d' = is_negative s \<and> capacity d \<le> capacity d')
              (d' = d) \<Longrightarrow> Q (st, d')"
  shows "rspec u (bigint_copy d s) Q"
  using assms(1,2) unfolding bigint_copy_def storage_ok_def
  by (auto intro!: wp Q simp: bigint_wf_def bigint_val_def split: if_splits)

lemma create_wp [wp]:
  assumes "\<And>p. p = Some bigint_init \<or> \<not> u \<and> p = None \<Longrightarrow> Q p"
  shows "rspec u bigint_create Q"
  unfolding bigint_create_def by (intro wp assms) auto

section \<open>Loops over limbs\<close>

text \<open>\<^verbatim>\<open>(i < a->size) ? a->limbs[i] : 0\<close>\<close>

definition limb_at :: "u64 list \<Rightarrow> nat \<Rightarrow> u64" where
  "limb_at xs i = (if i < length xs then xs ! i else 0)"

text \<open>The cancellation point \<^verbatim>\<open>if (!(i & 255U) && !numforge_budget_check())\<close>.\<close>

definition budget_every_256 :: "nat \<Rightarrow> bool rt" where
  "budget_every_256 i = (if i mod 256 = 0 then numforge_budget_check else State_Monad.return True)"

lemma budget_every_256_wp [wp]:
  "(\<And>b. (u \<longrightarrow> b) \<Longrightarrow> Q b) \<Longrightarrow> rspec u (budget_every_256 i) Q"
  unfolding budget_every_256_def by (auto intro!: wp)

lemma mag_take_limb:
  "mag (take (Suc i) xs) = mag (take i xs) + LB ^ i * unat (limb_at xs i)"
  by (cases "i < length xs") (simp_all add: mag_take_Suc limb_at_def)

lemma mag_drop_nth: "i < length xs \<Longrightarrow> mag (drop i xs) = unat (xs ! i) + LB * mag (drop (Suc i) xs)"
  by (simp flip: Cons_nth_drop_Suc)

lemma mag_drop_limb: "mag (drop i xs) = unat (limb_at xs i) + LB * mag (drop (Suc i) xs)"
  by (cases "i < length xs") (simp_all add: mag_drop_nth limb_at_def)

lemma mag_update:
  assumes "i < length xs"
  shows "mag (xs[i := v]) + LB ^ i * unat (xs ! i) = mag xs + LB ^ i * unat v"
  using mag_split [of i xs] mag_split [of i "xs[i := v]"] assms
  by (simp add: mag_drop_nth algebra_simps)

lemma canonicalI_lower: "xs \<noteq> [] \<Longrightarrow> LB ^ (length xs - 1) \<le> mag xs \<Longrightarrow> canonical xs"
proof (cases xs rule: rev_cases)
  case (snoc ys y)
  assume "LB ^ (length xs - 1) \<le> mag xs"
  with snoc mag_less [of ys] show ?thesis by auto
qed simp

lemma canonical_mono:
  "canonical xs \<Longrightarrow> length ys = length xs \<Longrightarrow> mag xs \<le> mag ys \<Longrightarrow> canonical ys"
  using mag_lower [of xs] canonicalI_lower [of ys] by (cases "xs = []"; cases "ys = []") auto

section \<open>One-limb operations\<close>

text \<open>The carry loop of \<^verbatim>\<open>bigint_add_uint64\<close>; the flag is true when the carry
  leaves the top limb.\<close>

primrec propagate_carry :: "nat \<Rightarrow> nat \<Rightarrow> u64 list \<Rightarrow> bool \<times> u64 list" where
  "propagate_carry 0 index xs = (True, xs)"
| "propagate_carry (Suc n) index xs =
    (let old = xs ! index;
         xs = xs[index := xs ! index + 1]
     in if xs ! index \<ge> old then (False, xs) else propagate_carry n (Suc index) xs)"

definition bigint_add_uint64 :: "BigInt \<Rightarrow> u64 \<Rightarrow> (BigIntStatus \<times> BigInt) rt" where
  "bigint_add_uint64 value amount =
    (if amount = 0 then State_Monad.return (BIGINT_OK, value)
     else if limbs value = [] then do {
       (status, value) \<leftarrow> bigint_ensure_capacity value 1;
       if status \<noteq> BIGINT_OK then State_Monad.return (status, value)
       else State_Monad.return (BIGINT_OK, value\<lparr>limbs := [amount]\<rparr>)
     }
     else let old = limbs value ! 0;
              value = value\<lparr>limbs := (limbs value)[0 := limbs value ! 0 + amount]\<rparr>
          in if limbs value ! 0 \<ge> old then State_Monad.return (BIGINT_OK, value)
             else (case propagate_carry (bsize value - 1) 1 (limbs value) of
                 (False, xs) \<Rightarrow> State_Monad.return (BIGINT_OK, value\<lparr>limbs := xs\<rparr>)
               | (True, xs) \<Rightarrow>
                   (let value = value\<lparr>limbs := xs\<rparr>
                    in case bigint_size_add (bsize value) 1 of
                         None \<Rightarrow> State_Monad.return (BIGINT_OUT_OF_MEMORY, value)
                       | Some needed \<Rightarrow> do {
                           (status, value) \<leftarrow> bigint_ensure_capacity value needed;
                           if status \<noteq> BIGINT_OK then State_Monad.return (status, value)
                           else State_Monad.return (BIGINT_OK, value\<lparr>limbs := limbs value @ [1]\<rparr>)
                         })))"

lemma propagate_carry_correct:
  "propagate_carry n i xs = (c, ys) \<Longrightarrow> i + n = length xs \<Longrightarrow>
   length ys = length xs \<and> mag ys + LB ^ length xs * of_bool c = mag xs + LB ^ i"
proof (induction n arbitrary: i xs)
  case 0
  then show ?case by auto
next
  case (Suc n)
  let ?zs = "xs[i := xs ! i + 1]"
  have i: "i < length xs" using Suc.prems by simp
  have upd: "mag ?zs + LB ^ i * unat (xs ! i) = mag xs + LB ^ i * unat (xs ! i + 1)"
    using i by (rule mag_update)
  have carry: "unat (xs ! i + 1) + LB * of_bool (xs ! i + 1 < xs ! i) = unat (xs ! i) + 1"
    using add_carry [of "xs ! i" 1] by simp
  show ?case
  proof (cases "xs ! i \<le> xs ! i + 1")
    case True
    with carry have "unat (xs ! i + 1) = unat (xs ! i) + 1" by (simp add: leD)
    with upd have "mag ?zs = mag xs + LB ^ i" by (simp add: algebra_simps)
    with True Suc.prems i show ?thesis by (auto simp: Let_def)
  next
    case False
    with carry have "LB + unat (xs ! i + 1) = unat (xs ! i) + 1" by (simp add: not_le)
    then have "LB ^ i * (LB + unat (xs ! i + 1)) = LB ^ i * (unat (xs ! i) + 1)" by simp
    with upd have "mag ?zs + LB ^ Suc i = mag xs + LB ^ i" by (simp add: algebra_simps)
    moreover have "propagate_carry n (Suc i) ?zs = (c, ys)"
      using False Suc.prems(1) i by (simp add: Let_def)
    ultimately show ?thesis using Suc.IH [of "Suc i" ?zs] Suc.prems(2) by simp
  qed
qed

lemma nth_0_mag: "xs \<noteq> [] \<Longrightarrow> mag (xs[0 := v]) + unat (xs ! 0) = mag xs + unat v"
  using mag_update [of 0 xs v] by simp

lemma add_uint64_wp [wp]:
  assumes wf: "storage_ok v" "canonical (limbs v)"
    and Q: "\<And>st v'. outcome u (Suc (bsize v) \<le> BIGINT_MAX_LIMBS) st
              (storage_ok v' \<and> canonical (limbs v') \<and> bigint_mag v' = bigint_mag v + unat n \<and>
               is_negative v' = is_negative v \<and> bsize v \<le> bsize v')
              (bsize v' = bsize v \<and> capacity v' = capacity v \<and> is_negative v' = is_negative v) \<Longrightarrow>
             Q (st, v')"
  shows "rspec u (bigint_add_uint64 v n) Q"
proof -
  have one: "1 \<le> BIGINT_MAX_LIMBS" by (simp add: BIGINT_MAX_LIMBS_def SIZE_MAX_def)
  let ?xs = "(limbs v)[0 := limbs v ! 0 + n]"
  have upd: "mag ?xs + unat (limbs v ! 0) = bigint_mag v + unat (limbs v ! 0 + n)"
    if "limbs v \<noteq> []" using that by (rule nth_0_mag)
  have c: "unat (limbs v ! 0 + n) + LB * of_bool (limbs v ! 0 + n < limbs v ! 0)
           = unat (limbs v ! 0) + unat n" by (rule add_carry)
  have no_carry: "mag ?xs = bigint_mag v + unat n"
    if "limbs v \<noteq> []" "limbs v ! 0 \<le> limbs v ! 0 + n"
    using upd c that by (simp add: leD)
  have carried: "mag ?xs + LB = bigint_mag v + unat n"
    if "limbs v \<noteq> []" "\<not> limbs v ! 0 \<le> limbs v ! 0 + n"
    using upd c that by (simp add: not_le)
  obtain b ys where pc: "propagate_carry (bsize v - Suc 0) (Suc 0) ?xs = (b, ys)" by fastforce
  have inner: "length ys = bsize v" "mag ys + LB ^ bsize v * of_bool b = bigint_mag v + unat n"
    if "limbs v \<noteq> []" "\<not> limbs v ! 0 \<le> limbs v ! 0 + n"
    using propagate_carry_correct [OF pc] carried that by (cases "limbs v"; auto)+
  have canon: "canonical ys" if "length ys = bsize v" "bigint_mag v \<le> mag ys" for ys
    using canonical_mono [of "limbs v" ys] wf(2) that by simp
  show ?thesis
    unfolding bigint_add_uint64_def Let_def
    using wf one inner
    by (cases b)
      (auto intro!: wp Q canon simp: storage_ok_def no_carry max_limbs_Suc canonical_def [of "[n]"] pc)
qed

primrec multiply_u64_loop :: "nat \<Rightarrow> nat \<Rightarrow> u64 \<Rightarrow> u64 \<Rightarrow> u64 list \<Rightarrow> (bool \<times> u64 \<times> u64 list) rt" where
  "multiply_u64_loop 0 i multiplier carry xs = State_Monad.return (True, carry, xs)"
| "multiply_u64_loop (Suc n) i multiplier carry xs = do {
     go \<leftarrow> budget_every_256 i;
     if \<not> go then State_Monad.return (False, carry, xs)
     else let (high, low) = bigint_multiply_u64_u64 (xs ! i) multiplier;
              old_low = low;
              low = low + carry;
              high = (if low < old_low then high + 1 else high)
          in multiply_u64_loop n (Suc i) multiplier high (xs[i := low])
   }"

definition bigint_multiply_by_uint64 :: "BigInt \<Rightarrow> u64 \<Rightarrow> (BigIntStatus \<times> BigInt) rt" where
  "bigint_multiply_by_uint64 value multiplier =
    (if limbs value = [] then State_Monad.return (BIGINT_OK, value)
     else if multiplier = 0
     then State_Monad.return (BIGINT_OK, bigint_normalize (value\<lparr>limbs := []\<rparr>))
     else do {
       (finished, carry, xs) \<leftarrow> multiply_u64_loop (bsize value) 0 multiplier 0 (limbs value);
       let value = value\<lparr>limbs := xs\<rparr>;
       if \<not> finished then State_Monad.return (BIGINT_OUT_OF_MEMORY, value)
       else if carry \<noteq> 0 then
         (case bigint_size_add (bsize value) 1 of
            None \<Rightarrow> State_Monad.return (BIGINT_OUT_OF_MEMORY, value)
          | Some needed \<Rightarrow> do {
              (status, value) \<leftarrow> bigint_ensure_capacity value needed;
              if status \<noteq> BIGINT_OK then State_Monad.return (status, value)
              else State_Monad.return (BIGINT_OK, value\<lparr>limbs := limbs value @ [carry]\<rparr>)
            })
       else State_Monad.return (BIGINT_OK, value)
     })"

lemma multiply_u64_loop_wp:
  "i + n = length xs \<Longrightarrow>
   (\<And>b c ys. (u \<longrightarrow> b) \<Longrightarrow> length ys = length xs \<Longrightarrow>
      (b \<Longrightarrow> mag ys + LB ^ length xs * unat c
         = mag (take i xs) + LB ^ i * (unat carry + unat m * mag (drop i xs))) \<Longrightarrow> Q (b, c, ys)) \<Longrightarrow>
   rspec u (multiply_u64_loop n i m carry xs) Q"
proof (induction n arbitrary: i carry xs)
  case 0
  then show ?case by (auto intro!: triple_return)
next
  case (Suc n)
  have i: "i < length xs" using Suc.prems(1) by simp
  obtain high low where hl: "bigint_multiply_u64_u64 (xs ! i) m = (high, low)" by fastforce
  define low' where "low' = low + carry"
  define high' where "high' = (if low' < low then high + 1 else high)"
  have limb: "unat high' * LB + unat low' = unat (xs ! i) * unat m + unat carry"
    unfolding low'_def high'_def by (rule mul_add_limb [OF hl])
  have "unat low' + LB * (unat high' + unat m * mag (drop (Suc i) xs))
        = unat carry + unat m * mag (drop i xs)"
    using limb by (simp add: mag_drop_nth [OF i] algebra_simps)
  then have "LB ^ i * (unat low' + LB * (unat high' + unat m * mag (drop (Suc i) xs)))
        = LB ^ i * (unat carry + unat m * mag (drop i xs))" by simp
  then have step: "mag (take (Suc i) (xs[i := low'])) + LB ^ Suc i * (unat high' + unat m * mag (drop (Suc i) (xs[i := low'])))
     = mag (take i xs) + LB ^ i * (unat carry + unat m * mag (drop i xs))"
    using i by (simp add: mag_take_Suc algebra_simps)
  have "rspec u (multiply_u64_loop n (Suc i) m high' (xs[i := low'])) Q"
    using Suc.prems unfolding step [symmetric] by (intro Suc.IH) auto
  then show ?case
    by (auto intro!: wp Suc.prems(2) simp: hl Let_def low'_def high'_def)
qed

lemma multiply_by_uint64_wp [wp]:
  assumes wf: "storage_ok v"
    and Q: "\<And>st v'. outcome u (Suc (bsize v) \<le> BIGINT_MAX_LIMBS) st
              (storage_ok v' \<and> (canonical (limbs v) \<longrightarrow> canonical (limbs v')) \<and>
               bigint_mag v' = bigint_mag v * unat m \<and> (m \<noteq> 0 \<longrightarrow> is_negative v' = is_negative v) \<and>
               (limbs v' = [] \<longrightarrow> is_negative v' \<longrightarrow> is_negative v \<and> limbs v = []))
              (storage_ok v') \<Longrightarrow>
             Q (st, v')"
  shows "rspec u (bigint_multiply_by_uint64 v m) Q"
proof -
  have canon: "canonical ys" if "length ys = bsize v" "mag ys = unat m * bigint_mag v" "m \<noteq> 0"
    "canonical (limbs v)" for ys
  proof -
    have "bigint_mag v \<le> unat m * bigint_mag v" using that(3) by (simp add: unat_eq_0_iff Suc_le_eq unat_gt_0)
    then show ?thesis using canonical_mono [of "limbs v" ys] that by simp
  qed
  show ?thesis
    using wf unfolding bigint_multiply_by_uint64_def Let_def
    by (auto intro!: wp multiply_u64_loop_wp Q canon
        simp: storage_ok_def max_limbs_Suc bigint_normalize_def mult.commute split: if_splits)
qed

section \<open>Comparison\<close>

text \<open>\<open>compare_limbs i\<close> compares limbs \<open>i - 1, ..., 0\<close>.\<close>

primrec compare_limbs :: "nat \<Rightarrow> u64 list \<Rightarrow> u64 list \<Rightarrow> int" where
  "compare_limbs 0 xs ys = 0"
| "compare_limbs (Suc i) xs ys =
    (if xs ! i < ys ! i then - 1 else if xs ! i > ys ! i then 1 else compare_limbs i xs ys)"

definition bigint_compare_abs :: "BigInt \<Rightarrow> BigInt \<Rightarrow> int" where
  "bigint_compare_abs a b =
    (if bsize a < bsize b then - 1
     else if bsize a > bsize b then 1
     else compare_limbs (bsize a) (limbs a) (limbs b))"

definition bigint_compare :: "BigInt \<Rightarrow> BigInt \<Rightarrow> int" where
  "bigint_compare a b =
    (if is_negative a \<and> \<not> is_negative b then - 1
     else if \<not> is_negative a \<and> is_negative b then 1
     else let comparison = bigint_compare_abs a b
          in if is_negative a then - comparison else comparison)"

definition bigint_is_zero :: "BigInt \<Rightarrow> bool" where
  "bigint_is_zero value \<longleftrightarrow> bsize value = 0"

definition bigint_is_one :: "BigInt \<Rightarrow> bool" where
  "bigint_is_one value \<longleftrightarrow> bsize value = 1 \<and> limbs value ! 0 = 1 \<and> \<not> is_negative value"

definition bigint_is_negative :: "BigInt \<Rightarrow> bool" where
  "bigint_is_negative value \<longleftrightarrow> is_negative value"

lemma compare_limbs_correct:
  "i \<le> length xs \<Longrightarrow> i \<le> length ys \<Longrightarrow>
   compare_limbs i xs ys = sgn (int (mag (take i xs)) - int (mag (take i ys)))"
proof (induction i)
  case (Suc i)
  have less: "mag (take i zs) < LB ^ i" if "i \<le> length zs" for zs
    using mag_less [of "take i zs"] that by simp
  have gap: "mag (take (Suc i) us) < mag (take (Suc i) vs)"
    if "us ! i < vs ! i" "Suc i \<le> length us" "Suc i \<le> length vs" for us vs
  proof -
    have "LB ^ i * Suc (unat (us ! i)) \<le> LB ^ i * unat (vs ! i)"
      using that(1) by (intro mult_le_mono2) (simp add: word_less_nat_alt)
    then show ?thesis using less [of us] that by (simp add: mag_take_Suc)
  qed
  consider "xs ! i < ys ! i" | "ys ! i < xs ! i" | "xs ! i = ys ! i" by fastforce
  then show ?case
  proof cases
    case 1
    then show ?thesis using gap [of xs ys] Suc.prems by simp
  next
    case 2
    then show ?thesis using gap [of ys xs] Suc.prems by simp
  next
    case 3
    then show ?thesis using Suc by (simp add: mag_take_Suc)
  qed
qed simp

lemma compare_abs_sgn:
  assumes "canonical (limbs a)" "canonical (limbs b)"
  shows "bigint_compare_abs a b = sgn (int (bigint_mag a) - int (bigint_mag b))"
  using mag_length_less [OF assms(1), of "limbs b"] mag_length_less [OF assms(2), of "limbs a"]
  by (auto simp: bigint_compare_abs_def compare_limbs_correct)

lemma compare_sgn:
  assumes "bigint_wf a" "bigint_wf b"
  shows "bigint_compare a b = sgn (bigint_val a - bigint_val b)"
proof -
  have c: "bigint_compare_abs a b = sgn (int (bigint_mag a) - int (bigint_mag b))"
    using assms by (intro compare_abs_sgn) (auto dest: bigint_wfD)
  show ?thesis
  proof (cases "is_negative a \<longleftrightarrow> is_negative b")
    case True
    then show ?thesis using c by (auto simp: bigint_compare_def Let_def bigint_val_def sgn_if)
  next
    case False
    have neg: "bigint_val x < 0 \<longleftrightarrow> is_negative x" if "bigint_wf x" for x
      using that by (rule bigint_val_neg_iff)
    show ?thesis
      using False neg [OF assms(1)] neg [OF assms(2)] by (auto simp: bigint_compare_def sgn_if)
  qed
qed

lemma is_zero_iff: "bigint_wf a \<Longrightarrow> bigint_is_zero a \<longleftrightarrow> bigint_val a = 0"
  by (simp add: bigint_is_zero_def bigint_val_0_iff)

lemma is_negative_iff: "bigint_wf a \<Longrightarrow> bigint_is_negative a \<longleftrightarrow> bigint_val a < 0"
  by (simp add: bigint_is_negative_def bigint_val_neg_iff)

lemma is_one_iff:
  assumes "bigint_wf a"
  shows "bigint_is_one a \<longleftrightarrow> bigint_val a = 1"
proof -
  let ?one = "\<lparr>limbs = [1], capacity = 1, is_negative = False\<rparr> :: BigInt"
  have "bigint_wf ?one" "bigint_val ?one = 1"
    by (simp_all add: bigint_wf_def bigint_val_def canonical_def BIGINT_MAX_LIMBS_def SIZE_MAX_def)
  then have "bigint_val a = 1 \<Longrightarrow> limbs a = [1] \<and> \<not> is_negative a"
    using bigint_val_inj [OF assms, of ?one] by simp
  moreover have "bigint_val a = 1" if "limbs a = [1]" "\<not> is_negative a"
    using that by (simp add: bigint_val_def)
  ultimately have "bigint_val a = 1 \<longleftrightarrow> limbs a = [1] \<and> \<not> is_negative a"
    by blast
  then show ?thesis by (cases "limbs a") (auto simp: bigint_is_one_def)
qed

section \<open>Addition and subtraction of magnitudes\<close>

definition add_abs_step :: "u64 list \<Rightarrow> u64 list \<Rightarrow> nat \<Rightarrow> u64 list \<times> u64 \<Rightarrow> u64 list \<times> u64" where
  "add_abs_step as bs i acc =
    (let (out, carry) = acc;
         limb_a = limb_at as i;
         limb_b = limb_at bs i;
         s = limb_a + limb_b;
         new_carry = (if s < limb_a then 1 else 0);
         final_sum = s + carry;
         new_carry = (if final_sum < s then 1 else new_carry)
     in (out @ [final_sum], new_carry))"

definition bigint_add_abs :: "BigInt \<Rightarrow> BigInt \<Rightarrow> BigInt \<Rightarrow> (BigIntStatus \<times> BigInt) rt" where
  "bigint_add_abs result a b =
    (let max_size = (if bsize a > bsize b then bsize a else bsize b)
     in case bigint_size_add max_size 1 of
          None \<Rightarrow> State_Monad.return (BIGINT_OUT_OF_MEMORY, result)
        | Some needed \<Rightarrow> do {
            (status, result) \<leftarrow> bigint_ensure_capacity result needed;
            if status \<noteq> BIGINT_OK then State_Monad.return (status, result)
            else let (out, carry) = fold (add_abs_step (limbs a) (limbs b)) [0..<max_size] ([], 0)
                 in State_Monad.return
                      (BIGINT_OK, result\<lparr>limbs := (if carry \<noteq> 0 then out @ [carry] else out)\<rparr>)
          })"

definition subtract_abs_step :: "u64 list \<Rightarrow> u64 list \<Rightarrow> nat \<Rightarrow> u64 list \<times> u64 \<Rightarrow> u64 list \<times> u64" where
  "subtract_abs_step as bs i acc =
    (let (out, borrow) = acc;
         limb_a = as ! i;
         limb_b = limb_at bs i;
         temp = limb_a - limb_b - borrow;
         borrow = (if limb_a < limb_b \<or> (borrow \<noteq> 0 \<and> limb_a = limb_b) then 1 else 0)
     in (out @ [temp], borrow))"

lemma compare_abs_swap: "bigint_compare_abs a b < 0 \<Longrightarrow> 0 < bigint_compare_abs b a"
proof -
  have "compare_limbs i xs ys < 0 \<Longrightarrow> 0 < compare_limbs i ys xs" for i xs ys
    by (induction i) (auto split: if_splits)
  then show "bigint_compare_abs a b < 0 \<Longrightarrow> 0 < bigint_compare_abs b a"
    by (auto simp: bigint_compare_abs_def split: if_splits)
qed

function bigint_subtract_abs :: "BigInt \<Rightarrow> BigInt \<Rightarrow> BigInt \<Rightarrow> (BigIntStatus \<times> BigInt) rt" where
  "bigint_subtract_abs result a b =
    (if bigint_compare_abs a b < 0 then bigint_subtract_abs result b a
     else do {
       (status, result) \<leftarrow> bigint_ensure_capacity result (bsize a);
       if status \<noteq> BIGINT_OK then State_Monad.return (status, result)
       else let (out, borrow) = fold (subtract_abs_step (limbs a) (limbs b)) [0..<bsize a] ([], 0)
            in State_Monad.return (BIGINT_OK, bigint_normalize (result\<lparr>limbs := out\<rparr>))
     })"
  by pat_completeness auto

termination bigint_subtract_abs
  by (relation "measure (\<lambda>(r, a, b). if bigint_compare_abs a b < 0 then 1 else 0)")
    (auto dest: compare_abs_swap)

declare bigint_subtract_abs.simps [simp del]

lemma add_with_carry:
  fixes a b c :: u64
  assumes "unat c \<le> 1"
  defines "s \<equiv> a + b"
  defines "c' \<equiv> (if s + c < s then 1 else if s < a then 1 else 0) :: u64"
  shows "unat c' \<le> 1" and "unat (s + c) + LB * unat c' = unat a + unat b + unat c"
proof -
  have c1: "unat s + LB * of_bool (s < a) = unat a + unat b" unfolding s_def by (rule add_carry)
  have c2: "unat (s + c) + LB * of_bool (s + c < s) = unat s + unat c" by (rule add_carry)
  have "\<not> (s < a \<and> s + c < s)"
  proof
    assume both: "s < a \<and> s + c < s"
    with c1 c2 have "unat (s + c) + LB + LB = unat a + unat b + unat c" by simp
    then show False
      using assms(1) unat_lt_LB [of a] unat_lt_LB [of b] by linarith
  qed
  with c1 c2 show "unat (s + c) + LB * unat c' = unat a + unat b + unat c"
    by (auto simp: c'_def)
qed (simp add: c'_def)

lemma add_abs_loop_correct:
  "fold (add_abs_step as bs) [0..<n] ([], 0) = (out, carry) \<Longrightarrow>
   length out = n \<and> unat carry \<le> 1 \<and>
   mag out + LB ^ n * unat carry = mag (take n as) + mag (take n bs)"
proof (induction n arbitrary: out carry)
  case (Suc n)
  obtain o1 c1 where o1: "fold (add_abs_step as bs) [0..<n] ([], 0) = (o1, c1)" by fastforce
  note IH = Suc.IH [OF o1]
  let ?a = "limb_at as n" and ?b = "limb_at bs n"
  note step = add_with_carry [of c1 ?a ?b]
  have out: "out = o1 @ [?a + ?b + c1]"
    "carry = (if ?a + ?b + c1 < ?a + ?b then 1 else if ?a + ?b < ?a then 1 else 0)"
  proof -
    have "(out, carry) = add_abs_step as bs n (o1, c1)" using Suc.prems by (simp add: o1)
    then show "out = o1 @ [?a + ?b + c1]"
      "carry = (if ?a + ?b + c1 < ?a + ?b then 1 else if ?a + ?b < ?a then 1 else 0)"
      by (simp_all only: add_abs_step_def Let_def prod.case prod.inject)
  qed
  have "unat (?a + ?b + c1) + LB * unat carry = unat ?a + unat ?b + unat c1"
    using step(2) IH out(2) by simp
  then have "LB ^ n * (unat (?a + ?b + c1) + LB * unat carry) = LB ^ n * (unat ?a + unat ?b + unat c1)"
    by simp
  moreover have "unat carry \<le> 1" using step(1) IH out(2) by simp
  ultimately show ?case
    using IH by (simp add: out(1) mag_take_limb algebra_simps)
qed simp

lemma add_abs_wp [wp]:
  assumes r: "capacity r \<le> BIGINT_MAX_LIMBS"
    and a: "storage_ok a" "canonical (limbs a)" and b: "storage_ok b" "canonical (limbs b)"
    and Q: "\<And>st r'. outcome u (Suc (max (bsize a) (bsize b)) \<le> BIGINT_MAX_LIMBS) st
              (storage_ok r' \<and> canonical (limbs r') \<and> bigint_mag r' = bigint_mag a + bigint_mag b \<and>
               is_negative r' = is_negative r)
              (r' = r) \<Longrightarrow> Q (st, r')"
  shows "rspec u (bigint_add_abs r a b) Q"
proof -
  let ?n = "if bsize b < bsize a then bsize a else bsize b"
  have n: "?n = max (bsize a) (bsize b)" by simp
  have max: "max (bsize a) (bsize b) \<le> BIGINT_MAX_LIMBS" using a b by (simp add: storage_ok_def)
  obtain out carry where oc:
    "fold (add_abs_step (limbs a) (limbs b)) [0..<max (bsize a) (bsize b)] ([], 0) = (out, carry)"
    by fastforce
  note loop = add_abs_loop_correct [OF oc]
  have canon: "canonical out" if "mag out = bigint_mag a + bigint_mag b"
  proof (cases "bsize a \<le> bsize b")
    case True
    then show ?thesis using canonical_mono [of "limbs b" out] loop b that by simp
  next
    case False
    then show ?thesis using canonical_mono [of "limbs a" out] loop a that by simp
  qed
  have res: "storage_ok (r\<lparr>capacity := c, limbs := (if carry \<noteq> 0 then out @ [carry] else out)\<rparr>) \<and>
      canonical (if carry \<noteq> 0 then out @ [carry] else out) \<and>
      mag (if carry \<noteq> 0 then out @ [carry] else out) = bigint_mag a + bigint_mag b"
    if "Suc (max (bsize a) (bsize b)) \<le> c" "c \<le> BIGINT_MAX_LIMBS" for c
    using loop that canon by (auto simp: storage_ok_def)
  show ?thesis
    unfolding bigint_add_abs_def Let_def n
    using r max_limbs_Suc [OF max] res
    by (auto intro!: wp Q simp: oc)
qed

lemma subtract_with_borrow:
  fixes a b c :: u64
  assumes "unat c \<le> 1"
  defines "c' \<equiv> (if a < b \<or> (c \<noteq> 0 \<and> a = b) then 1 else 0) :: u64"
  shows "unat c' \<le> 1" and "unat (a - b - c) + unat b + unat c = unat a + LB * unat c'"
proof -
  have b1: "unat (a - b) + unat b = unat a + LB * of_bool (a < b)" by (rule sub_borrow)
  have b2: "unat (a - b - c) + unat c = unat (a - b) + LB * of_bool (a - b < c)" by (rule sub_borrow)
  have c01: "c = 0 \<or> c = 1"
    using assms(1) unfolding word_unat_eq_iff unsigned_0 unsigned_1 by linarith
  have "a - b < c \<longleftrightarrow> c \<noteq> 0 \<and> a = b" using c01 by (auto simp: word_less_1)
  with b1 b2 show "unat (a - b - c) + unat b + unat c = unat a + LB * unat c'"
    by (auto simp: c'_def)
qed (simp add: c'_def)

lemma subtract_abs_loop_correct:
  "fold (subtract_abs_step as bs) [0..<n] ([], 0) = (out, borrow) \<Longrightarrow> n \<le> length as \<Longrightarrow>
   length out = n \<and> unat borrow \<le> 1 \<and>
   mag out + mag (take n bs) = mag (take n as) + LB ^ n * unat borrow"
proof (induction n arbitrary: out borrow)
  case (Suc n)
  obtain o1 c1 where o1: "fold (subtract_abs_step as bs) [0..<n] ([], 0) = (o1, c1)" by fastforce
  have IH: "length o1 = n" "unat c1 \<le> 1" "mag o1 + mag (take n bs) = mag (take n as) + LB ^ n * unat c1"
    using Suc.IH [OF o1] Suc.prems(2) by auto
  let ?a = "as ! n" and ?b = "limb_at bs n"
  note step = subtract_with_borrow [of c1 ?a ?b, OF IH(2)]
  have out: "out = o1 @ [?a - ?b - c1]"
    "borrow = (if ?a < ?b \<or> (c1 \<noteq> 0 \<and> ?a = ?b) then 1 else 0)"
  proof -
    have "(out, borrow) = subtract_abs_step as bs n (o1, c1)" using Suc.prems by (simp add: o1)
    then show "out = o1 @ [?a - ?b - c1]"
      "borrow = (if ?a < ?b \<or> (c1 \<noteq> 0 \<and> ?a = ?b) then 1 else 0)"
      by (simp_all only: subtract_abs_step_def Let_def prod.case prod.inject)
  qed
  define w where "w = ?a - ?b - c1"
  have w: "unat w + unat ?b + unat c1 = unat ?a + LB * unat borrow" and c: "unat borrow \<le> 1"
    using step out(2) unfolding w_def by simp_all
  have "LB ^ n * (unat w + unat ?b + unat c1) = LB ^ n * (unat ?a + LB * unat borrow)"
    using w by simp
  then show ?case
    using IH c Suc.prems(2) unfolding out(1) w_def [symmetric] 
    by (simp add: mag_take_limb [of n bs] mag_take_Suc algebra_simps)
qed simp

lemma subtract_abs_wp [wp]:
  assumes r: "capacity r \<le> BIGINT_MAX_LIMBS"
    and ab: "bigint_wf a" "bigint_wf b"
    and Q: "\<And>st r'. outcome u True st
              (storage_ok r' \<and> canonical (limbs r') \<and>
               int (bigint_mag r') = \<bar>int (bigint_mag a) - int (bigint_mag b)\<bar> \<and>
               is_negative r' = (is_negative r \<and> limbs r' \<noteq> []))
              (r' = r) \<Longrightarrow> Q (st, r')"
  shows "rspec u (bigint_subtract_abs r a b) Q"
proof -
  have cmp: "bigint_compare_abs x y = sgn (int (bigint_mag x) - int (bigint_mag y))"
    if "bigint_wf x" "bigint_wf y" for x y
    using that by (intro compare_abs_sgn) (auto dest: bigint_wfD)
  have ordered: "rspec u (bigint_subtract_abs r x y) Q"
    if wf: "bigint_wf x" "bigint_wf y" and le: "bigint_mag y \<le> bigint_mag x"
      and diff: "int (bigint_mag x - bigint_mag y) = \<bar>int (bigint_mag a) - int (bigint_mag b)\<bar>" for x y
  proof -
    have "\<not> bigint_compare_abs x y < 0" using cmp [OF wf] le by (simp add: sgn_if)
    moreover obtain out borrow where ob:
      "fold (subtract_abs_step (limbs x) (limbs y)) [0..<bsize x] ([], 0) = (out, borrow)" by fastforce
    moreover have "length out = bsize x \<and> mag out = bigint_mag x - bigint_mag y"
    proof -
      have yx: "bsize y \<le> bsize x"
        using mag_length_less [of "limbs y" "limbs x"] le wf by (auto dest: bigint_wfD simp: not_less [symmetric])
      have loop: "length out = bsize x" "mag out + bigint_mag y = bigint_mag x + LB ^ bsize x * unat borrow"
        using subtract_abs_loop_correct [OF ob] yx by simp_all
      have "LB ^ bsize x * unat borrow < LB ^ bsize x * 1"
        using loop le mag_less [of out, unfolded loop(1)] by linarith
      then have "unat borrow < 1" by (simp only: mult_less_cancel1)
      then have "unat borrow = 0" by simp
      with loop show ?thesis by simp
    qed
    ultimately show ?thesis
      using r wf diff
      by (subst bigint_subtract_abs.simps)
        (auto intro!: wp Q normalize_storage_ok simp: normalize_negative storage_ok_def [of "r\<lparr>capacity := _, limbs := out\<rparr>"]
          dest: bigint_wfD)
  qed
  show ?thesis
  proof (cases "bigint_compare_abs a b < 0")
    case True
    then have "bigint_mag a < bigint_mag b" using cmp [OF ab] by (simp add: sgn_if split: if_splits)
    then have "rspec u (bigint_subtract_abs r b a) Q" using ab by (intro ordered) auto
    then show ?thesis using True by (subst bigint_subtract_abs.simps) simp
  next
    case False
    then have "bigint_mag b \<le> bigint_mag a" using cmp [OF ab] by (simp add: sgn_if split: if_splits)
    then show ?thesis using ab by (intro ordered) auto
  qed
qed

section \<open>Division by one limb\<close>

text \<open>\<open>divide_u64_loop i\<close> runs the loop for \<^verbatim>\<open>index = i - 1, ..., 0\<close>.\<close>

primrec divide_u64_loop :: "nat \<Rightarrow> u64 \<Rightarrow> u64 list \<Rightarrow> u64 \<Rightarrow> (u64 list \<times> u64) rt" where
  "divide_u64_loop 0 divisor xs r = State_Monad.return (xs, r)"
| "divide_u64_loop (Suc index) divisor xs r = do {
     (quot, r) \<leftarrow> bigint_divide_128_by_u64 r (xs ! index) divisor;
     divide_u64_loop index divisor (xs[index := quot]) r
   }"

definition bigint_divide_by_uint64 :: "BigInt \<Rightarrow> u64 \<Rightarrow> (u64 \<times> BigInt) rt" where
  "bigint_divide_by_uint64 value divisor =
    (if divisor = 0 then State_Monad.return (0, value)
     else do {
       (xs, r) \<leftarrow> divide_u64_loop (bsize value) divisor (limbs value) 0;
       State_Monad.return (r, value\<lparr>limbs := take (trimmed (length xs) xs) xs\<rparr>)
     })"

lemma divide_u64_loop_wp:
  "i \<le> length xs \<Longrightarrow> r < d \<Longrightarrow>
   (\<And>ys r'. length ys = length xs \<Longrightarrow> drop i ys = drop i xs \<Longrightarrow> r' < d \<Longrightarrow>
      mag (take i ys) * unat d + unat r' = unat r * LB ^ i + mag (take i xs) \<Longrightarrow> Q (ys, r')) \<Longrightarrow>
   rspec u (divide_u64_loop i d xs r) Q"
proof (induction i arbitrary: xs r)
  case 0
  then show ?case by (auto intro!: triple_return)
next
  case (Suc i)
  have i: "i < length xs" using Suc.prems(1) by simp
  show ?case
    unfolding divide_u64_loop.simps
  proof (intro wp)
    show "r < d" by fact
    fix q r1 a b :: u64
    assume qr: "unat q * unat d + unat r1 = unat r * LB + unat (xs ! i)" "r1 < d"
      and ab: "(q, r1) = (a, b)"
    show "rspec u (divide_u64_loop i d (xs[i := a]) b) Q"
    proof (rule Suc.IH)
      show "i \<le> length (xs[i := a])" "b < d" using i qr ab by auto
      fix ys r'
      assume ys: "length ys = length (xs[i := a])" "drop i ys = drop i (xs[i := a])" and r': "r' < d"
        and eq: "mag (take i ys) * unat d + unat r' = unat b * LB ^ i + mag (take i (xs[i := a]))"
      have nth: "ys ! i = q" and dr: "drop (Suc i) ys = drop (Suc i) xs"
      proof -
        have "drop i ys ! 0 = drop i (xs[i := a]) ! 0" using ys(2) by simp
        then show "ys ! i = q" using ys(1) i ab by simp
        have "drop 1 (drop i ys) = drop 1 (drop i (xs[i := a]))" using ys(2) by simp
        then show "drop (Suc i) ys = drop (Suc i) xs" by simp
      qed
      have "LB ^ i * (unat q * unat d + unat r1) = LB ^ i * (unat r * LB + unat (xs ! i))"
        using qr by simp
      then have "mag (take (Suc i) ys) * unat d + unat r' = unat r * LB ^ Suc i + mag (take (Suc i) xs)"
        using eq i ys(1) nth ab by (simp add: mag_take_Suc algebra_simps)
      then show "Q (ys, r')" using Suc.prems(3) ys(1) dr r' by simp
    qed
  qed
qed

lemma divide_by_uint64_wp [wp]:
  assumes wf: "storage_ok v" and d: "d \<noteq> 0"
    and Q: "\<And>r v'. storage_ok v' \<Longrightarrow> canonical (limbs v') \<Longrightarrow> capacity v' = capacity v \<Longrightarrow>
              is_negative v' = is_negative v \<Longrightarrow> bigint_mag v' = bigint_mag v div unat d \<Longrightarrow>
              unat r = bigint_mag v mod unat d \<Longrightarrow> Q (r, v')"
  shows "rspec u (bigint_divide_by_uint64 v d) Q"
proof -
  have pos: "0 < d" using d by (simp add: word_gt_0)
  have fin: "Q (r', v\<lparr>limbs := take (trimmed (length ys) ys) ys\<rparr>)"
    if "length ys = bsize v" "r' < d" "mag ys * unat d + unat r' = bigint_mag v" for ys r'
  proof (rule Q)
    have lt: "unat r' < unat d" using that(2) by (simp add: word_less_nat_alt)
    show "storage_ok (v\<lparr>limbs := take (trimmed (length ys) ys) ys\<rparr>)"
      using wf that(1) trimmed_le [of "length ys" ys] by (simp add: storage_ok_def)
    show "bigint_mag (v\<lparr>limbs := take (trimmed (length ys) ys) ys\<rparr>) = bigint_mag v div unat d"
      using lt that(3) [symmetric] by (simp add: mag_take_trimmed)
    show "unat r' = bigint_mag v mod unat d" using lt that(3) [symmetric] by simp
  qed (simp_all add: canonical_take_trimmed)
  show ?thesis
    unfolding bigint_divide_by_uint64_def
    using pos d fin by (auto intro!: wp divide_u64_loop_wp)
qed

section \<open>Bits\<close>

function top_bits :: "u64 \<Rightarrow> nat \<Rightarrow> nat" where
  "top_bits t bits = (if t = 0 then bits else top_bits (drop_bit 1 t) (bits + 1))"
  by pat_completeness auto

termination top_bits
  by (relation "measure (unat \<circ> fst)") (auto simp: drop_bit_Suc unat_div_distrib unat_gt_0)

declare top_bits.simps [simp del]

definition bigint_bit_length :: "BigInt \<Rightarrow> nat" where
  "bigint_bit_length value =
    (if limbs value = [] then 0
     else top_bits (limbs value ! (bsize value - 1)) ((bsize value - 1) * 64))"

definition bigint_get_bit :: "BigInt \<Rightarrow> nat \<Rightarrow> bool" where
  "bigint_get_bit value bit_index =
    (let limb_index = bit_index div 64
     in if limb_index \<ge> bsize value then False
        else let bit_offset = bit_index mod 64
             in drop_bit bit_offset (limbs value ! limb_index) AND 1 \<noteq> 0)"

definition bigint_set_bit :: "BigInt \<Rightarrow> nat \<Rightarrow> (BigIntStatus \<times> BigInt) rt" where
  "bigint_set_bit value bit_index =
    (let limb_index = bit_index div 64;
         bit_offset = bit_index mod 64
     in case bigint_size_add limb_index 1 of
          None \<Rightarrow> State_Monad.return (BIGINT_OUT_OF_MEMORY, value)
        | Some needed \<Rightarrow> do {
            (status, value) \<leftarrow> bigint_ensure_capacity value needed;
            if status \<noteq> BIGINT_OK then State_Monad.return (status, value)
            else if capacity value = 0 then State_Monad.return (BIGINT_OUT_OF_MEMORY, value)
            else let xs = limbs value @ replicate (limb_index + 1 - bsize value) 0
                 in State_Monad.return
                   (BIGINT_OK, value\<lparr>limbs := xs[limb_index := xs ! limb_index OR push_bit bit_offset 1]\<rparr>)
          })"

lemma bit_mag: "bit (mag xs) k \<longleftrightarrow> bit (limb_at xs (k div 64)) (k mod 64)"
proof (induction xs arbitrary: k)
  case (Cons x xs)
  have low: "take_bit 64 (mag (x # xs)) = unat x"
    unfolding take_bit_eq_mod LB_def [symmetric] by simp
  have high: "drop_bit 64 (mag (x # xs)) = mag xs"
    unfolding drop_bit_eq_div LB_def [symmetric] by simp
  show ?case
  proof (cases "k < 64")
    case True
    then have "bit (mag (x # xs)) k \<longleftrightarrow> bit (take_bit 64 (mag (x # xs))) k"
      by (simp only: bit_take_bit_iff) simp
    also have "\<dots> \<longleftrightarrow> bit x k" unfolding low using True by (simp add: bit_unsigned_iff)
    finally show ?thesis using True by (simp add: limb_at_def)
  next
    case False
    then have "bit (mag (x # xs)) k \<longleftrightarrow> bit (drop_bit 64 (mag (x # xs))) (k - 64)"
      by (simp only: bit_drop_bit_eq) simp
    moreover have "k div 64 = Suc ((k - 64) div 64)" "k mod 64 = (k - 64) mod 64"
      using False le_div_geq [of 64 k] le_mod_geq [of 64 k] by simp_all
    ultimately show ?thesis by (simp only: high Cons.IH) (simp add: limb_at_def)
  qed
qed (simp add: limb_at_def)

lemma get_bit_correct: "bigint_get_bit v k \<longleftrightarrow> bit (bigint_mag v) k"
  by (simp add: bigint_get_bit_def Let_def bit_mag limb_at_def input_bit)

lemma top_bits_correct: "t \<noteq> 0 \<Longrightarrow>
  \<exists>k. top_bits t bits = bits + Suc k \<and> 2 ^ k \<le> unat t \<and> unat t < 2 ^ Suc k"
proof (induction t bits rule: top_bits.induct)
  case (1 t bits)
  show ?case
  proof (cases "drop_bit 1 t = 0")
    case True
    have "unat t div 2 = unat (drop_bit 1 t)" by (simp add: drop_bit_Suc unat_div_distrib)
    also have "\<dots> = 0" by (simp only: True unsigned_0)
    finally have "unat t div 2 = 0" .
    moreover have "unat t \<noteq> 0" using 1(2) by (simp add: unat_eq_0_iff)
    ultimately have "unat t = 1" by linarith
    with True 1(2) show ?thesis
      by (intro exI [of _ 0]) (simp add: top_bits.simps [of t] top_bits.simps [of 0])
  next
    case False
    have half: "unat (drop_bit 1 t) = unat t div 2" by (simp add: drop_bit_Suc unat_div_distrib)
    from 1 False obtain k where
      "top_bits (drop_bit 1 t) (bits + 1) = bits + 1 + Suc k"
      "2 ^ k \<le> unat t div 2" "unat t div 2 < 2 ^ Suc k" unfolding half [symmetric] by blast
    with 1(2) show ?thesis
      by (intro exI [of _ "Suc k"]) (simp add: top_bits.simps [of t] less_mult_imp_div_less; linarith)
  qed
qed

lemma LB_power: "LB ^ n = 2 ^ (64 * n)"
  by (simp add: LB_def power_mult)

lemma bit_length_correct:
  assumes "canonical (limbs v)" and "limbs v \<noteq> []"
  shows "0 < bigint_bit_length v"
    and "2 ^ (bigint_bit_length v - 1) \<le> bigint_mag v"
    and "bigint_mag v < 2 ^ bigint_bit_length v"
proof -
  obtain ys y where xs: "limbs v = ys @ [y]" and y: "y \<noteq> 0"
    using assms by (cases "limbs v" rule: rev_cases) auto
  obtain k where k: "bigint_bit_length v = length ys * 64 + Suc k"
    "2 ^ k \<le> unat y" "unat y < 2 ^ Suc k"
    using top_bits_correct [OF y, of "length ys * 64"] by (auto simp: bigint_bit_length_def xs)
  have mag: "bigint_mag v = mag ys + LB ^ length ys * unat y" by (simp add: xs)
  show "0 < bigint_bit_length v" using k by simp
  have "LB ^ length ys * 2 ^ k \<le> bigint_mag v" using k(2) by (simp add: mag trans_le_add2)
  then show "2 ^ (bigint_bit_length v - 1) \<le> bigint_mag v"
    by (simp add: k(1) LB_power power_add mult.commute)
  have "bigint_mag v < LB ^ length ys * Suc (unat y)" using mag_less [of ys] by (simp add: mag)
  also have "\<dots> \<le> LB ^ length ys * 2 ^ Suc k" using k(3) by (intro mult_le_mono2) simp
  finally show "bigint_mag v < 2 ^ bigint_bit_length v"
    by (simp add: k(1) LB_power power_add mult.commute)
qed

lemma bit_length_0: "limbs v = [] \<Longrightarrow> bigint_bit_length v = 0"
  by (simp add: bigint_bit_length_def)

lemma bit_length_le_iff:
  assumes "canonical (limbs v)"
  shows "bigint_bit_length v \<le> n \<longleftrightarrow> bigint_mag v < 2 ^ n"
proof (cases "limbs v = []")
  case False
  note bl = bit_length_correct [OF assms False]
  show ?thesis
  proof
    assume "bigint_bit_length v \<le> n"
    then have "(2 :: nat) ^ bigint_bit_length v \<le> 2 ^ n" by (simp add: power_increasing)
    with bl(3) show "bigint_mag v < 2 ^ n" by linarith
  next
    assume "bigint_mag v < 2 ^ n"
    with bl(2) have "(2 :: nat) ^ (bigint_bit_length v - 1) < 2 ^ n" by linarith
    then have "bigint_bit_length v - 1 < n" by (simp add: power_strict_increasing_iff)
    with bl(1) show "bigint_bit_length v \<le> n" by linarith
  qed
qed (simp add: bit_length_0)

lemma bit_length_bsize:
  assumes "canonical (limbs v)"
  shows "bigint_bit_length v \<le> 64 * bsize v"
  using mag_less [of "limbs v"] by (simp add: bit_length_le_iff [OF assms] LB_power)

lemma limb_at_update_extend:
  "limb_at ((xs @ replicate (i + 1 - length xs) 0)[i := y]) j = (if j = i then y else limb_at xs j)"
  by (auto simp: limb_at_def nth_append nth_list_update)

lemma set_bit_wp [wp]:
  assumes wf: "storage_ok v" "canonical (limbs v)"
    and Q: "\<And>st v'. outcome u (Suc (k div 64) \<le> BIGINT_MAX_LIMBS) st
              (storage_ok v' \<and> canonical (limbs v') \<and> bigint_mag v' = set_bit k (bigint_mag v) \<and>
               is_negative v' = is_negative v) (v' = v) \<Longrightarrow> Q (st, v')"
  shows "rspec u (bigint_set_bit v k) Q"
proof -
  let ?i = "k div 64" and ?m = "push_bit (k mod 64) 1 :: u64"
  let ?xs = "limbs v @ replicate (?i + 1 - bsize v) 0"
  let ?ys = "?xs[?i := ?xs ! ?i OR ?m]"
  have nth: "?xs ! ?i = limb_at (limbs v) ?i" by (simp add: limb_at_def nth_append)
  have mag: "mag ?ys = set_bit k (bigint_mag v)"
  proof (rule bit_eqI)
    fix j
    have "bit (mag ?ys) j \<longleftrightarrow> bit (if j div 64 = ?i then limb_at (limbs v) ?i OR ?m
        else limb_at (limbs v) (j div 64)) (j mod 64)"
      by (simp only: bit_mag limb_at_update_extend nth)
    also have "\<dots> \<longleftrightarrow> bit (bigint_mag v) j \<or> j = k"
    proof (cases "j div 64 = ?i")
      case True
      then have "j mod 64 = k mod 64 \<longleftrightarrow> j = k"
        using div_mult_mod_eq [of j 64] div_mult_mod_eq [of k 64] by auto
      moreover have "bit ?m (j mod 64) \<longleftrightarrow> j mod 64 = k mod 64"
        by (auto simp: bit_exp_iff)
      ultimately show ?thesis using True by (simp add: bit_or_iff bit_mag)
    next
      case False
      then show ?thesis by (auto simp: bit_mag)
    qed
    finally show "bit (mag ?ys) j = bit (set_bit k (bigint_mag v)) j"
      by (auto simp: bit_set_bit_iff)
  qed
  have canon: "canonical ?ys"
  proof (cases "bsize v \<le> ?i")
    case True
    then have "canonical ?ys \<longleftrightarrow> limb_at (limbs v) ?i OR ?m \<noteq> 0"
      unfolding canonical_def nth by (simp add: last_conv_nth)
    moreover have "limb_at (limbs v) ?i OR ?m \<noteq> 0"
    proof
      assume "limb_at (limbs v) ?i OR ?m = 0"
      then have "\<not> bit (limb_at (limbs v) ?i OR ?m) (k mod 64)" by (simp only: bit_0_eq) simp
      then show False by (simp add: bit_or_iff bit_exp_iff)
    qed
    ultimately show ?thesis by simp
  next
    case False
    have "bigint_mag v \<le> mag ?ys" unfolding mag set_bit_eq by simp
    then show ?thesis using False by (intro canonical_mono [OF wf(2)]) simp_all
  qed
  have "BIGINT_MAX_LIMBS \<le> SIZE_MAX" by (simp add: BIGINT_MAX_LIMBS_def)
  then show ?thesis
    unfolding bigint_set_bit_def Let_def bigint_size_add_def
    using wf mag canon by (auto intro!: wp Q simp: storage_ok_def) arith
qed

section \<open>Properties\<close>

text \<open>Comparison. On canonical objects \<open>bigint_compare\<close> is the order of the integers:
  it returns the sign of their difference.\<close>

theorem bigint_compare_correct:
  assumes "bigint_wf a" "bigint_wf b"
  shows "bigint_compare a b = sgn (bigint_val a - bigint_val b)"
  by (rule compare_sgn [OF assms])

theorem bigint_compare_correct_witness:
  "bigint_compare (bigint_wrap_uint64 2) (bigint_wrap_uint64 5) = - 1"
  using bigint_compare_correct [of "bigint_wrap_uint64 2" "bigint_wrap_uint64 5"] by simp

text \<open>C39: Growing the buffer. \<open>bigint_ensure_capacity\<close> keeps the limbs and the sign, ends
  with at least the capacity asked for and at most \<open>BIGINT_MAX_LIMBS\<close>, never shrinks, and
  leaves the object as it was when it fails; its doubling loop ends.\<close>

theorem bigint_ensure_capacity_correct:
  assumes "\<not> stuck s" "capacity v \<le> BIGINT_MAX_LIMBS"
  shows "case run_state (bigint_ensure_capacity v needed) s of ((st, v'), s') \<Rightarrow> \<not> stuck s' \<and>
    limbs v' = limbs v \<and> is_negative v' = is_negative v \<and>
    outcome (unlimited s) (needed \<le> BIGINT_MAX_LIMBS) st
      (needed \<le> capacity v' \<and> capacity v \<le> capacity v' \<and> capacity v' \<le> BIGINT_MAX_LIMBS) (v' = v)"
  by (rule rspec_run2 [OF _ assms(1)], rule ensure_capacity_wp [OF assms(2)])
    (auto simp: outcome_def)

theorem bigint_ensure_capacity_correct_witness:
  "case run_state (bigint_ensure_capacity (bigint_wrap_uint64 4) 100) idle_runtime of ((st, v'), s') \<Rightarrow>
     st = BIGINT_OK \<and> limbs v' = [4] \<and> 100 \<le> capacity v'"
  using bigint_ensure_capacity_correct [of idle_runtime "bigint_wrap_uint64 4" 100]
  by (auto simp: bigint_wrap_uint64_def BIGINT_MAX_LIMBS_def SIZE_MAX_def outcome_def resource_failure_def
      split: prod.splits if_splits)

text \<open>Bit length. \<open>bigint_bit_length\<close> is the least number of bits that holds the
  magnitude.\<close>

theorem bigint_bit_length_least:
  assumes "bigint_wf v"
  shows "bigint_bit_length v \<le> n \<longleftrightarrow> \<bar>bigint_val v\<bar> < 2 ^ n"
proof -
  have "\<bar>bigint_val v\<bar> < 2 ^ n \<longleftrightarrow> int (bigint_mag v) < int (2 ^ n)" by simp
  then show ?thesis
    using bit_length_le_iff [OF bigint_wfD(1) [OF assms], of n] unfolding of_nat_less_iff by blast
qed

theorem bigint_bit_length_least_witness:
  "bigint_bit_length (bigint_wrap_uint64 9) \<le> 4 \<and> \<not> bigint_bit_length (bigint_wrap_uint64 9) \<le> 3"
  using bigint_bit_length_least [of "bigint_wrap_uint64 9" 4] bigint_bit_length_least [of "bigint_wrap_uint64 9" 3]
  by simp

text \<open>Setting a bit. \<open>bigint_set_bit\<close> sets exactly that bit of the magnitude, extending
  the number with zero limbs where needed.\<close>

theorem bigint_set_bit_correct:
  assumes "\<not> stuck s" "bigint_wf v"
  shows "case run_state (bigint_set_bit v k) s of ((st, v'), s') \<Rightarrow> \<not> stuck s' \<and>
    outcome (unlimited s) (Suc (k div 64) \<le> BIGINT_MAX_LIMBS) st
      (bigint_wf v' \<and> is_negative v' = is_negative v \<and>
       (\<forall>i. bigint_get_bit v' i = (i = k \<or> bigint_get_bit v i))) (v' = v)"
proof (rule rspec_run2 [OF _ assms(1)], rule set_bit_wp)
  fix st v'
  assume o: "outcome (unlimited s) (Suc (k div 64) \<le> BIGINT_MAX_LIMBS) st
    (storage_ok v' \<and> canonical (limbs v') \<and> bigint_mag v' = set_bit k (bigint_mag v) \<and>
     is_negative v' = is_negative v) (v' = v)"
  have ne: "limbs v' \<noteq> []" if "bigint_mag v' = set_bit k (bigint_mag v)"
    using that by (auto simp: set_bit_eq)
  show "case (st, v') of (st, v') \<Rightarrow> outcome (unlimited s) (Suc (k div 64) \<le> BIGINT_MAX_LIMBS) st
      (bigint_wf v' \<and> is_negative v' = is_negative v \<and>
       (\<forall>i. bigint_get_bit v' i = (i = k \<or> bigint_get_bit v i))) (v' = v)"
    using o ne by (auto simp: bigint_wf_iff get_bit_correct bit_set_bit_iff elim!: outcome_mono)
qed (use assms(2) in \<open>auto simp: bigint_wf_iff\<close>)

theorem bigint_set_bit_correct_witness:
  "case run_state (bigint_set_bit (bigint_wrap_uint64 1) 70) idle_runtime of ((st, v'), s') \<Rightarrow>
     st = BIGINT_OK \<and> bigint_get_bit v' 70"
  using bigint_set_bit_correct [of idle_runtime "bigint_wrap_uint64 1" 70]
  by (auto simp: BIGINT_MAX_LIMBS_def SIZE_MAX_def outcome_def resource_failure_def
      split: prod.splits if_splits)

end
