(* ===== verification/Karatsuba.thy ===== *)
theory Karatsuba
  imports BigInt_Core
begin

text \<open>
  Multiplication: the Karatsuba kernel of \<^verbatim>\<open>src/core/bigint/multiplication.c\<close>
  with its arena and workspace variants, and \<^verbatim>\<open>bigint_mul\<close> of
  \<^verbatim>\<open>arithmetic.c\<close>, which chooses between it and the schoolbook loop.

  A limb array is the list of its limbs, a pointer into the middle of one the list
  \<open>drop\<close>ped and \<open>take\<close>n; a destination that the C function fills is returned. The
  scratch arena is written before it is read, so the model carries the space that is left
  of it (\<open>available\<close>) and not its contents. A \<^verbatim>\<open>BigIntMultiplicationWorkspace\<close>
  is the record of its frame capacities.
\<close>

unbundle bit_operations_syntax

section \<open>Rows of the schoolbook product\<close>

definition mac_step :: "u64 list \<Rightarrow> u64 \<Rightarrow> nat \<Rightarrow> nat \<Rightarrow> u64 list \<Rightarrow> u64 \<Rightarrow> u64 list \<times> u64" where
  "mac_step as bi i j out carry =
    (let (hi, lo) = bigint_multiply_u64_u64 (as ! j) bi;
         s = out ! (i + j) + lo;
         c1 = of_bool (s < lo);
         next = s + carry;
         c2 = of_bool (next < s)
     in (out[i + j := next], hi + c1 + c2))"

definition row_inv :: "u64 list \<Rightarrow> u64 \<Rightarrow> nat \<Rightarrow> u64 list \<Rightarrow> nat \<Rightarrow> u64 list \<Rightarrow> u64 \<Rightarrow> bool" where
  "row_inv as bi i out0 j out carry \<longleftrightarrow>
     length out = length out0 \<and> drop (i + j) out = drop (i + j) out0 \<and>
     mag (take (i + j) out) + LB ^ (i + j) * unat carry
       = mag (take (i + j) out0) + LB ^ i * unat bi * mag (take j as)"

lemma row_inv_0: "row_inv as bi i out 0 out 0"
  by (simp add: row_inv_def)

lemma row_inv_step:
  assumes inv: "row_inv as bi i out0 j out carry"
    and j: "j < length as" "i + j < length out0"
    and step: "mac_step as bi i j out carry = (out', carry')"
  shows "row_inv as bi i out0 (Suc j) out' carry'"
proof -
  obtain hi lo where hl: "bigint_multiply_u64_u64 (as ! j) bi = (hi, lo)" by fastforce
  let ?s = "out ! (i + j) + lo"
  let ?n = "?s + carry"
  have len: "length out = length out0" using inv by (simp add: row_inv_def)
  have dr: "drop (i + j) out = drop (i + j) out0" using inv by (simp add: row_inv_def)
  have nth: "out ! (i + j) = out0 ! (i + j)"
    using arg_cong [OF dr, of "\<lambda>xs. xs ! 0"] j len by simp
  have dr': "drop (Suc (i + j)) out = drop (Suc (i + j)) out0"
    using arg_cong [OF dr, of "drop 1"] by simp
  have out': "out' = out[i + j := ?n]" and carry': "carry' = hi + of_bool (?s < lo) + of_bool (?n < ?s)"
    using step by (simp_all add: mac_step_def hl Let_def)
  have limb: "unat carry' * LB + unat ?n = unat (out0 ! (i + j)) + unat (as ! j) * unat bi + unat carry"
    unfolding carry' nth [symmetric] by (rule mac_limb [OF hl])
  have "LB ^ (i + j) * (unat carry' * LB + unat ?n)
      = LB ^ (i + j) * (unat (out0 ! (i + j)) + unat (as ! j) * unat bi + unat carry)"
    by (simp only: limb)
  moreover have "mag (take (i + j) out) + LB ^ (i + j) * unat carry
       = mag (take (i + j) out0) + LB ^ i * unat bi * mag (take j as)"
    using inv by (simp add: row_inv_def)
  ultimately have "mag (take (i + j) out) + LB ^ (i + j) * (unat ?n) + LB * LB ^ (i + j) * unat carry'
      = mag (take (i + j) out0) + LB ^ (i + j) * unat (out0 ! (i + j))
        + LB ^ i * unat bi * (mag (take j as) + LB ^ j * unat (as ! j))"
    by (simp add: algebra_simps power_add)
  then show ?thesis
    using j len dr' by (simp add: row_inv_def out' mag_take_Suc)
qed

lemma row_fold_inv:
  "j \<le> length as \<Longrightarrow> i + j \<le> length out0 \<Longrightarrow>
   fold (\<lambda>j (out, carry). mac_step as bi i j out carry) [0..<j] (out0, 0) = (out, carry) \<Longrightarrow>
   row_inv as bi i out0 j out carry"
proof (induction j arbitrary: out carry)
  case 0
  then show ?case by (simp add: row_inv_0)
next
  case (Suc j)
  obtain o1 c1 where o1: "fold (\<lambda>j (out, carry). mac_step as bi i j out carry) [0..<j] (out0, 0) = (o1, c1)"
    by fastforce
  then have "row_inv as bi i out0 j o1 c1" using Suc by simp
  moreover have "mac_step as bi i j o1 c1 = (out, carry)" using Suc.prems(3) o1 by simp
  ultimately show ?case using Suc.prems by (intro row_inv_step) auto
qed

text \<open>\<open>prod_inv\<close>: the first \<open>i\<close> rows have been added up.\<close>

definition prod_inv :: "u64 list \<Rightarrow> nat \<Rightarrow> u64 list \<Rightarrow> u64 list \<Rightarrow> nat \<Rightarrow> u64 list \<Rightarrow> bool" where
  "prod_inv as na bs out0 i out \<longleftrightarrow>
     length out = length out0 \<and> drop (i + na) out = drop (i + na) out0 \<and>
     mag (take (i + na) out) = mag (take na as) * mag (take i bs)"

lemma prod_inv_0: "mag (take na out) = 0 \<Longrightarrow> prod_inv as na bs out 0 out"
  by (simp add: prod_inv_def)

lemma prod_inv_step:
  assumes inv: "prod_inv as na bs out0 i out"
    and i: "i < length bs" "i + na < length out0"
    and row: "row_inv as (bs ! i) i out na out' carry"
  shows "prod_inv as na bs out0 (Suc i) (out'[i + na := carry])"
proof -
  have len: "length out' = length out0" and dr: "drop (i + na) out' = drop (i + na) out0"
    using inv row by (simp_all add: prod_inv_def row_inv_def)
  have "drop (Suc (i + na)) out' = drop (Suc (i + na)) out0"
    using arg_cong [OF dr, of "drop 1"] by simp
  moreover have "mag (take (i + na) out') + LB ^ (i + na) * unat carry
      = mag (take na as) * (mag (take i bs) + LB ^ i * unat (bs ! i))"
    using inv row by (simp add: prod_inv_def row_inv_def algebra_simps)
  ultimately show ?thesis
    using i len by (simp add: prod_inv_def mag_take_Suc)
qed

primrec school_row :: "nat \<Rightarrow> nat \<Rightarrow> nat \<Rightarrow> u64 list \<Rightarrow> u64 \<Rightarrow> u64 list \<Rightarrow> u64 \<Rightarrow> (bool \<times> u64 list \<times> u64) rt" where
  "school_row 0 j i as bi out carry = State_Monad.return (True, out, carry)"
| "school_row (Suc n) j i as bi out carry = do {
     go \<leftarrow> (if j \<noteq> 0 \<and> j mod 256 = 0 then numforge_budget_check else State_Monad.return True);
     if \<not> go then State_Monad.return (False, out, carry)
     else let (out, carry) = mac_step as bi i j out carry
          in school_row n (Suc j) i as bi out carry
   }"

primrec school_rows :: "nat \<Rightarrow> nat \<Rightarrow> u64 list \<Rightarrow> nat \<Rightarrow> u64 list \<Rightarrow> u64 list \<Rightarrow> (BigIntStatus \<times> u64 list) rt" where
  "school_rows 0 i as na bs out = State_Monad.return (BIGINT_OK, out)"
| "school_rows (Suc n) i as na bs out = do {
     go \<leftarrow> numforge_budget_check;
     if \<not> go then State_Monad.return (BIGINT_OUT_OF_MEMORY, out)
     else do {
       (finished, out, carry) \<leftarrow> school_row na 0 i as (bs ! i) out 0;
       if \<not> finished then State_Monad.return (BIGINT_OUT_OF_MEMORY, out)
       else school_rows n (Suc i) as na bs (out[i + na := carry])
     }
   }"

definition school :: "u64 list \<Rightarrow> u64 list \<Rightarrow> nat \<Rightarrow> u64 list \<Rightarrow> nat \<Rightarrow> (BigIntStatus \<times> u64 list) rt" where
  "school out as na bs nb = school_rows nb 0 as na bs out"

lemma school_row_wp:
  "row_inv as bi i out0 j out carry \<Longrightarrow> j + n \<le> length as \<Longrightarrow> i + j + n \<le> length out0 \<Longrightarrow>
   (\<And>b out' c'. (u \<longrightarrow> b) \<Longrightarrow> length out' = length out0 \<Longrightarrow>
      (b \<Longrightarrow> row_inv as bi i out0 (j + n) out' c') \<Longrightarrow> Q (b, out', c')) \<Longrightarrow>
   rspec u (school_row n j i as bi out carry) Q"
proof (induction n arbitrary: j out carry)
  case 0
  then show ?case by (auto intro!: triple_return simp: row_inv_def)
next
  case (Suc n)
  obtain out' c' where st: "mac_step as bi i j out carry = (out', c')" by fastforce
  have inv: "row_inv as bi i out0 (Suc j) out' c'"
    using Suc.prems st by (intro row_inv_step) auto
  have rec: "rspec u (school_row n (Suc j) i as bi out' c') Q"
    using inv Suc.prems by (intro Suc.IH) auto
  have stop: "Q (False, out, carry)" if "\<not> u"
    using Suc.prems(1,4) that by (auto simp: row_inv_def)
  show ?case
    using rec stop by (auto intro!: wp simp: st)
qed

lemma school_rows_wp:
  "prod_inv as na bs out0 i out \<Longrightarrow> na \<le> length as \<Longrightarrow> i + n \<le> length bs \<Longrightarrow>
   i + na + n \<le> length out0 \<Longrightarrow>
   (\<And>st out'. outcome u True st (prod_inv as na bs out0 (i + n) out') (length out' = length out0) \<Longrightarrow>
      Q (st, out')) \<Longrightarrow>
   rspec u (school_rows n i as na bs out) Q"
proof (induction n arbitrary: i out)
  case 0
  then show ?case by (auto intro!: triple_return)
next
  case (Suc n)
  have len: "length out = length out0" using Suc.prems(1) by (simp add: prod_inv_def)
  have rec: "rspec u (school_rows n (Suc i) as na bs (out'[i + na := c])) Q"
    if "row_inv as (bs ! i) i out na out' c" for out' c
    using that Suc.prems prod_inv_step [OF Suc.prems(1) _ _ that] by (intro Suc.IH) auto
  have stop: "Q (BIGINT_OUT_OF_MEMORY, out')" if "length out' = length out0" "\<not> u" for out'
    using that by (intro Suc.prems(5)) simp
  show ?case
    using Suc.prems(2-4) len
    by (auto intro!: wp school_row_wp [OF row_inv_0] rec stop)
qed

lemma school_wp [wp]:
  assumes "na \<le> length as" "nb \<le> length bs" "na + nb \<le> length out" "mag (take na out) = 0"
    and Q: "\<And>st out'. outcome u True st (length out' = length out \<and>
              drop (na + nb) out' = drop (na + nb) out \<and>
              mag (take (na + nb) out') = mag (take na as) * mag (take nb bs)) (length out' = length out) \<Longrightarrow>
            Q (st, out')"
  shows "rspec u (school out as na bs nb) Q"
  unfolding school_def
  using assms(1-4)
  by (intro school_rows_wp prod_inv_0 Q) (auto simp: prod_inv_def ac_simps outcome_def)

section \<open>Limb loops of the Karatsuba kernel\<close>

text \<open>One limb of an addition with carry and of a subtraction with borrow, as the loops
  of the file write them.\<close>

definition add_limb :: "u64 \<Rightarrow> u64 \<Rightarrow> u64 \<Rightarrow> u64 \<times> u64" where
  "add_limb x y carry =
    (let s = x + y; c1 = of_bool (s < x);
         t = s + carry; c2 = of_bool (t < s)
     in (t, c1 OR c2))"

definition sub_limb :: "u64 \<Rightarrow> u64 \<Rightarrow> u64 \<Rightarrow> u64 \<times> u64" where
  "sub_limb x y borrow =
    (let s = x - y; c1 = of_bool (x < y);
         t = s - borrow; c2 = of_bool (s < borrow)
     in (t, c1 OR c2))"

lemma of_bool_or_word: "(of_bool a OR of_bool b :: u64) = of_bool (a \<or> b)"
  by (cases a; cases b) simp_all

lemma add_limb_correct:
  assumes "add_limb x y c = (t, c')" "unat c \<le> 1"
  shows "unat c' \<le> 1" and "unat t + LB * unat c' = unat x + unat y + unat c"
  using assms add_with_carry [OF assms(2), of x y]
  by (auto simp: add_limb_def Let_def of_bool_or_word split: if_splits)

lemma sub_limb_correct:
  assumes "sub_limb x y c = (t, c')" "unat c \<le> 1"
  shows "unat c' \<le> 1" and "unat t + unat y + unat c = unat x + LB * unat c'"
proof -
  have c01: "c = 0 \<or> c = 1"
    using assms(2) unfolding word_unat_eq_iff unsigned_0 unsigned_1 by linarith
  then have "x - y < c \<longleftrightarrow> c \<noteq> 0 \<and> x = y" by (auto simp: word_less_1)
  then have "t = x - y - c" and "c' = (if x < y \<or> (c \<noteq> 0 \<and> x = y) then 1 else 0)"
    using assms(1) by (auto simp: sub_limb_def Let_def of_bool_or_word)
  then show "unat c' \<le> 1" and "unat t + unat y + unat c = unat x + LB * unat c'"
    using subtract_with_borrow [OF assms(2), of x y] by simp_all
qed

primrec sum_halves_loop ::
  "nat \<Rightarrow> nat \<Rightarrow> u64 list \<Rightarrow> nat \<Rightarrow> nat \<Rightarrow> nat \<Rightarrow> u64 list \<Rightarrow> u64 \<Rightarrow> (bool \<times> u64 list \<times> u64) rt" where
  "sum_halves_loop 0 i as low high k out carry = State_Monad.return (True, out, carry)"
| "sum_halves_loop (Suc n) i as low high k out carry = do {
     go \<leftarrow> budget_every_256 i;
     if \<not> go then State_Monad.return (False, out, carry)
     else let x = (if i < low then as ! i else 0);
              y = (if i < high then as ! (k + i) else 0);
              (t, carry) = add_limb x y carry
          in sum_halves_loop n (Suc i) as low high k (out @ [t]) carry
   }"

definition sum_halves :: "u64 list \<Rightarrow> nat \<Rightarrow> nat \<Rightarrow> (BigIntStatus \<times> u64 list \<times> nat) rt" where
  "sum_halves as na k = do {
     let low = (if na < k then na else k);
     let high = (if na > k then na - k else 0);
     let n = (if low > high then low else high);
     (finished, out, carry) \<leftarrow> sum_halves_loop n 0 as low high k [] 0;
     if \<not> finished then State_Monad.return (BIGINT_OUT_OF_MEMORY, out, 0)
     else State_Monad.return (BIGINT_OK, out @ [carry], n + (if carry \<noteq> 0 then 1 else 0))
   }"

primrec subtract_loop :: "nat \<Rightarrow> nat \<Rightarrow> u64 list \<Rightarrow> u64 list \<Rightarrow> nat \<Rightarrow> u64 \<Rightarrow> (bool \<times> u64 list \<times> u64) rt" where
  "subtract_loop 0 i as bs nb borrow = State_Monad.return (True, as, borrow)"
| "subtract_loop (Suc n) i as bs nb borrow = do {
     go \<leftarrow> budget_every_256 i;
     if \<not> go then State_Monad.return (False, as, borrow)
     else let (t, borrow) = sub_limb (as ! i) (if i < nb then bs ! i else 0) borrow
          in subtract_loop n (Suc i) (as[i := t]) bs nb borrow
   }"

definition subtract :: "u64 list \<Rightarrow> nat \<Rightarrow> u64 list \<Rightarrow> nat \<Rightarrow> (BigIntStatus \<times> u64 list) rt" where
  "subtract as na bs nb = do {
     (finished, as, borrow) \<leftarrow> subtract_loop na 0 as bs nb 0;
     if \<not> finished then State_Monad.return (BIGINT_OUT_OF_MEMORY, as)
     else State_Monad.return
       (if borrow \<noteq> 0 \<or> nb > na then BIGINT_INVALID_ARGUMENT else BIGINT_OK, as)
   }"

text \<open>The loop \<^verbatim>\<open>for (i = 0; i < nb || carry; ++i)\<close> leaves at the latest where
  \<open>i\<close> reaches \<open>na - offset\<close>.\<close>

primrec add_shifted_loop ::
  "nat \<Rightarrow> nat \<Rightarrow> u64 list \<Rightarrow> nat \<Rightarrow> u64 list \<Rightarrow> nat \<Rightarrow> nat \<Rightarrow> u64 \<Rightarrow> (BigIntStatus \<times> u64 list) rt" where
  "add_shifted_loop 0 i as na bs nb offset carry = out_of_fuel (BIGINT_OK, as)"
| "add_shifted_loop (Suc fuel) i as na bs nb offset carry =
    (if \<not> (i < nb \<or> carry \<noteq> 0) then State_Monad.return (BIGINT_OK, as)
     else do {
       go \<leftarrow> budget_every_256 i;
       if \<not> go then State_Monad.return (BIGINT_OUT_OF_MEMORY, as)
       else if offset \<ge> na \<or> i \<ge> na - offset then State_Monad.return (BIGINT_INVALID_ARGUMENT, as)
       else let (t, carry) = add_limb (as ! (offset + i)) (if i < nb then bs ! i else 0) carry
            in add_shifted_loop fuel (Suc i) (as[offset + i := t]) na bs nb offset carry
     })"

definition add_shifted :: "u64 list \<Rightarrow> nat \<Rightarrow> u64 list \<Rightarrow> nat \<Rightarrow> nat \<Rightarrow> (BigIntStatus \<times> u64 list) rt" where
  "add_shifted as na bs nb offset = add_shifted_loop (na + 1) 0 as na bs nb offset 0"

lemma sum_halves_loop_wp:
  assumes "low \<le> length as" "k + high \<le> length as"
  shows "length out = i \<Longrightarrow> unat carry \<le> 1 \<Longrightarrow>
   mag out + LB ^ i * unat carry = mag (take i (take low as)) + mag (take i (take high (drop k as))) \<Longrightarrow>
   (\<And>b out c. (u \<longrightarrow> b) \<Longrightarrow> (b \<Longrightarrow> length out = i + n \<and> unat c \<le> 1 \<and>
      mag out + LB ^ (i + n) * unat c = mag (take (i + n) (take low as)) + mag (take (i + n) (take high (drop k as)))) \<Longrightarrow>
      Q (b, out, c)) \<Longrightarrow>
   rspec u (sum_halves_loop n i as low high k out carry) Q"
proof (induction n arbitrary: i out carry)
  case 0
  then show ?case by (auto intro!: triple_return)
next
  case (Suc n)
  define x where "x = limb_at (take low as) i"
  define y where "y = limb_at (take high (drop k as)) i"
  have xy: "(if i < low then as ! i else 0) = x" "(if i < high then as ! (k + i) else 0) = y"
    using assms by (auto simp: x_def y_def limb_at_def)
  obtain t c where tc: "add_limb x y carry = (t, c)" by fastforce
  note limb = add_limb_correct [OF tc Suc.prems(2)]
  have "LB ^ i * (unat t + LB * unat c) = LB ^ i * (unat x + unat y + unat carry)"
    by (simp only: limb)
  then have "mag (out @ [t]) + LB ^ Suc i * unat c
    = mag (take (Suc i) (take low as)) + mag (take (Suc i) (take high (drop k as)))"
    using Suc.prems(1,3) by (simp only: mag_take_limb x_def y_def mag_append) (simp add: algebra_simps)
  then have rec: "rspec u (sum_halves_loop n (Suc i) as low high k (out @ [t]) c) Q"
    using Suc.prems limb(1) by (intro Suc.IH) auto
  have stop: "Q (False, out, carry)" if "\<not> u" using that by (intro Suc.prems(4)) auto
  show ?case
    unfolding sum_halves_loop.simps Let_def xy tc prod.case
    using rec stop by (auto intro!: wp)
qed

lemma sum_halves_wp [wp]:
  assumes len: "na \<le> length as" and kn: "k \<le> na" "na \<le> 2 * k + 1"
    and Q: "\<And>st out m. outcome u True st
              (m \<le> length out \<and> m \<le> max k (na - k) + 1 \<and>
               mag (take m out) = mag (take k as) + mag (take (na - k) (drop k as))) True \<Longrightarrow>
            Q (st, out, m)"
  shows "rspec u (sum_halves as na k) Q"
proof -
  define n where "n = max k (na - k)"
  have pre: "k \<le> length as" "k + (na - k) \<le> length as" using len kn by auto
  have cond: "(if na < k then na else k) = k" "(if na > k then na - k else 0) = na - k"
    "(if k > na - k then k else na - k) = n" using kn by (auto simp: n_def)
  have n: "k \<le> n" "na - k \<le> n" by (simp_all add: n_def)
  show ?thesis
    unfolding sum_halves_def Let_def cond
    using n by (intro wp sum_halves_loop_wp [OF pre]) (auto intro!: Q simp flip: n_def)
qed

lemma subtract_loop_wp:
  "i + n \<le> length as \<Longrightarrow> nb \<le> length bs \<Longrightarrow> unat borrow \<le> 1 \<Longrightarrow>
   mag (take i as) + mag (take i (take nb bs)) = A + LB ^ i * unat borrow \<Longrightarrow>
   (\<And>b as' c. (u \<longrightarrow> b) \<Longrightarrow> length as' = length as \<Longrightarrow>
      (b \<Longrightarrow> unat c \<le> 1 \<and> drop (i + n) as' = drop (i + n) as \<and>
         mag (take (i + n) as') + mag (take (i + n) (take nb bs))
         = A + LB ^ i * mag (take n (drop i as)) + LB ^ (i + n) * unat c) \<Longrightarrow> Q (b, as', c)) \<Longrightarrow>
   rspec u (subtract_loop n i as bs nb borrow) Q"
proof (induction n arbitrary: i as borrow A)
  case 0
  then show ?case by (auto intro!: triple_return)
next
  case (Suc n)
  define y where "y = limb_at (take nb bs) i"
  have y: "(if i < nb then bs ! i else 0) = y"
    using Suc.prems(2) by (auto simp: y_def limb_at_def)
  obtain t c where tc: "sub_limb (as ! i) y borrow = (t, c)" by fastforce
  note limb = sub_limb_correct [OF tc Suc.prems(3)]
  have i: "i < length as" using Suc.prems(1) by simp
  have "LB ^ i * (unat t + unat y + unat borrow) = LB ^ i * (unat (as ! i) + LB * unat c)"
    by (simp only: limb)
  then have inv: "mag (take (Suc i) (as[i := t])) + mag (take (Suc i) (take nb bs))
    = (A + LB ^ i * unat (as ! i)) + LB ^ Suc i * unat c"
    using Suc.prems(4) i by (simp only: mag_take_limb [of i "take nb bs"] y_def [symmetric])
      (simp add: mag_take_Suc algebra_simps)
  have tail: "LB ^ i * mag (take (Suc n) (drop i as)) = LB ^ i * unat (as ! i) + LB ^ Suc i * mag (take n (drop (Suc i) as))"
    using i by (simp flip: Cons_nth_drop_Suc add: algebra_simps)
  have rec: "rspec u (subtract_loop n (Suc i) (as[i := t]) bs nb c) Q"
    using Suc.prems(1,2,5) limb(1) inv tail by (intro Suc.IH [OF _ _ _ inv]) (auto simp: algebra_simps)
  have stop: "Q (False, as, borrow)" if "\<not> u" using that by (intro Suc.prems(5)) auto
  show ?case
    unfolding subtract_loop.simps Let_def y tc prod.case
    using rec stop by (auto intro!: wp)
qed

lemma subtract_wp [wp]:
  assumes len: "na \<le> length as" "nb \<le> length bs" "nb \<le> na"
    and le: "mag (take nb bs) \<le> mag (take na as)"
    and Q: "\<And>st as'. outcome u True st
              (length as' = length as \<and> drop na as' = drop na as \<and>
               mag (take na as') = mag (take na as) - mag (take nb bs)) (length as' = length as) \<Longrightarrow> Q (st, as')"
  shows "rspec u (subtract as na bs nb) Q"
proof -
  have fin: "c = 0 \<and> mag (take na as') = mag (take na as) - mag (take nb bs)"
    if "mag (take na as') + mag (take nb bs) = mag (take na as) + LB ^ na * unat c"
      "length as' = length as" for as' and c :: u64
  proof -
    have "mag (take na as') < LB ^ na" using mag_less [of "take na as'"] len(1) that(2) by simp
    with le that(1) have "LB ^ na * unat c < LB ^ na * 1" by linarith
    then have "unat c < 1" by (simp only: mult_less_cancel1)
    then have "unat c = 0" by linarith
    then have "c = 0" by (simp only: unat_eq_0_iff)
    with that(1) show ?thesis by simp
  qed
  show ?thesis
    unfolding subtract_def
    using len by (intro wp subtract_loop_wp [where A = 0]) (auto intro!: Q dest!: fin)
qed

lemma add_shifted_loop_wp:
  assumes nb: "nb \<le> length bs" "offset + nb \<le> na"
    and total: "T < LB ^ na"
  shows "na - (offset + i) < fuel \<Longrightarrow> offset + i \<le> na \<Longrightarrow> na \<le> length as \<Longrightarrow> unat carry \<le> 1 \<Longrightarrow>
   mag (take na as) + LB ^ (offset + i) * (unat carry + mag (drop i (take nb bs))) = T \<Longrightarrow>
   (\<And>st as'. outcome u True st (length as' = length as \<and> drop na as' = drop na as \<and> mag (take na as') = T)
      (length as' = length as) \<Longrightarrow> Q (st, as')) \<Longrightarrow>
   rspec u (add_shifted_loop fuel i as na bs nb offset carry) Q"
proof (induction fuel arbitrary: i as carry)
  case 0
  then show ?case by simp
next
  case (Suc fuel)
  have fin: "Q (BIGINT_OK, as)" if "\<not> (i < nb \<or> carry \<noteq> 0)"
    using that Suc.prems(5) by (intro Suc.prems(6)) auto
  have stop: "Q (BIGINT_OUT_OF_MEMORY, as)" if "\<not> u"
    using that by (intro Suc.prems(6)) simp
  have room: "offset + i < na" if more: "i < nb \<or> carry \<noteq> 0"
  proof (rule ccontr)
    assume "\<not> offset + i < na"
    with Suc.prems(2) have eq: "offset + i = na" by simp
    with nb(2) more have "carry \<noteq> 0" by auto
    then have "LB ^ na * 1 \<le> LB ^ na * (unat carry + mag (drop i (take nb bs)))"
      by (intro mult_le_mono2) (auto simp: Suc_le_eq unat_gt_0)
    with Suc.prems(5) eq total show False by simp
  qed
  have rec: "rspec u (add_shifted_loop fuel (Suc i) (as[offset + i := t]) na bs nb offset c) Q"
    if lt: "offset + i < na" and tc: "add_limb (as ! (offset + i)) (if i < nb then bs ! i else 0) carry = (t, c)" for t c
  proof (rule Suc.IH)
    define y where "y = limb_at (take nb bs) i"
    have y: "(if i < nb then bs ! i else 0) = y"
      using nb(1) by (auto simp: y_def limb_at_def)
    note limb = add_limb_correct [OF tc [unfolded y] Suc.prems(4)]
    have o: "offset + i < length as" using lt Suc.prems(3) by simp
    have take_upd: "take na (as[offset + i := t]) = (take na as)[offset + i := t]"
      by (rule take_update_swap)
    have "mag (take na (as[offset + i := t])) + LB ^ (offset + i) * unat (as ! (offset + i))
        = mag (take na as) + LB ^ (offset + i) * unat t"
      unfolding take_upd using mag_update [of "offset + i" "take na as" t] lt o by simp
    moreover have "LB ^ (offset + i) * (unat t + LB * unat c)
        = LB ^ (offset + i) * (unat (as ! (offset + i)) + unat y + unat carry)"
      by (simp only: limb)
    ultimately show "mag (take na (as[offset + i := t])) + LB ^ (offset + Suc i) * (unat c + mag (drop (Suc i) (take nb bs))) = T"
      using Suc.prems(5) mag_drop_limb [of i "take nb bs"] unfolding y_def [symmetric]
      by (simp add: algebra_simps)
    show "unat c \<le> 1" by (rule limb(1))
  qed (use Suc.prems lt in \<open>auto intro!: Suc.prems(6)\<close>)
  show ?case
    unfolding add_shifted_loop.simps Let_def
    using fin stop room rec by (auto intro!: wp)
qed

lemma add_shifted_wp [wp]:
  assumes "nb \<le> length bs" "offset + nb \<le> na" "na \<le> length as"
    and "mag (take na as) + LB ^ offset * mag (take nb bs) < LB ^ na"
    and Q: "\<And>st as'. outcome u True st
              (length as' = length as \<and> drop na as' = drop na as \<and>
               mag (take na as') = mag (take na as) + LB ^ offset * mag (take nb bs))
              (length as' = length as) \<Longrightarrow> Q (st, as')"
  shows "rspec u (add_shifted as na bs nb offset) Q"
  unfolding add_shifted_def
  using assms(1-4) by (intro add_shifted_loop_wp [OF assms(1,2,4)] Q) auto

section \<open>The recursive kernel\<close>

text \<open>The scratch memory of a \<^verbatim>\<open>BigIntMultiplicationWorkspace\<close>: the capacity of
  the frame of each of the 64 depths.\<close>

record mul_workspace =
  ws_split :: bool
  ws_capacities :: "nat list"

text \<open>Copying a block to an offset of a buffer.\<close>

definition store_at :: "nat \<Rightarrow> u64 list \<Rightarrow> u64 list \<Rightarrow> u64 list" where
  "store_at offset xs out = take offset out @ xs @ drop (offset + length xs) out"

text \<open>The part of \<^verbatim>\<open>multiply\<close> after the two products of the halves, which lie in
  \<open>out\<close>; \<open>recur\<close> is the recursive call on the sums of the halves, given the scratch
  space that it may use.\<close>

definition multiply_cross ::
  "(u64 list \<Rightarrow> u64 list \<Rightarrow> nat \<Rightarrow> (BigIntStatus \<times> u64 list) rt) \<Rightarrow> u64 list \<Rightarrow> nat \<Rightarrow> u64 list \<Rightarrow> nat \<Rightarrow>
   nat \<Rightarrow> nat \<Rightarrow> mul_workspace option \<Rightarrow> nat \<Rightarrow> u64 list \<Rightarrow> (BigIntStatus \<times> u64 list) rt" where
  "multiply_cross recur as na bs nb k available workspace depth out =
    (let al = (if na < k then na else k); bl = (if nb < k then nb else k);
         ah = na - al; bh = nb - bl;
         sa = (if al > ah then al else ah) + 1; sb = (if bl > bh then bl else bh) + 1;
         cross = sa + sb; frame = 2 * cross
     in case (case workspace of None \<Rightarrow> Some available
              | Some w \<Rightarrow> if depth \<ge> 64 then None else Some (ws_capacities w ! depth)) of
          None \<Rightarrow> State_Monad.return (BIGINT_VALUE_TOO_LARGE, out)
        | Some available \<Rightarrow>
            if frame > available then State_Monad.return (BIGINT_VALUE_TOO_LARGE, out)
            else do {
              (status, as', nas) \<leftarrow> sum_halves as na k;
              (status, bs', nbs) \<leftarrow> (if status = BIGINT_OK then sum_halves bs nb k
                                     else State_Monad.return (status, [], 0));
              (status, middle) \<leftarrow> (if status = BIGINT_OK
                 then recur (take nas as') (take nbs bs')
                        (case workspace of None \<Rightarrow> available - frame | Some _ \<Rightarrow> 0)
                 else State_Monad.return (status, []));
              let cross = (if status = BIGINT_OK then nas + nbs else 0);
              (status, middle) \<leftarrow> (if status = BIGINT_OK
                 then subtract middle cross out (trimmed (al + bl) out)
                 else State_Monad.return (status, middle));
              (status, middle) \<leftarrow> (if status = BIGINT_OK
                 then subtract middle cross (drop (2 * k) out) (trimmed (ah + bh) (drop (2 * k) out))
                 else State_Monad.return (status, middle));
              if status = BIGINT_OK then add_shifted out (na + nb) middle (trimmed cross middle) k
              else State_Monad.return (status, out)
            })"

primrec multiply ::
  "nat \<Rightarrow> u64 list \<Rightarrow> u64 list \<Rightarrow> nat \<Rightarrow> nat \<Rightarrow> mul_workspace option \<Rightarrow> nat \<Rightarrow> (BigIntStatus \<times> u64 list) rt" where
  "multiply 0 as bs threshold available workspace depth = out_of_fuel (BIGINT_OK, [])"
| "multiply (Suc fuel) as bs threshold available workspace depth = do {
     go \<leftarrow> numforge_budget_check;
     if \<not> go then State_Monad.return (BIGINT_OUT_OF_MEMORY, [])
     else let out = replicate (length as + length bs) 0;
              na = trimmed (length as) as;
              nb = trimmed (length bs) bs
          in if na = 0 \<or> nb = 0 then State_Monad.return (BIGINT_OK, out)
             else let n = (if na > nb then na else nb);
                      smaller = (if na < nb then na else nb)
                  in if smaller < threshold \<or> smaller \<le> n div 2 then school out as na bs nb
                     else let k = n div 2;
                              al = (if na < k then na else k);
                              bl = (if nb < k then nb else k);
                              ah = na - al;
                              bh = nb - bl
                          in do {
                            (status, low) \<leftarrow> multiply fuel (take al as) (take bl bs)
                                               threshold available workspace (depth + 1);
                            (status, high) \<leftarrow> (if status = BIGINT_OK
                               then multiply fuel (take ah (drop al as)) (take bh (drop bl bs))
                                      threshold available workspace (depth + 1)
                               else State_Monad.return (status, []));
                            if status \<noteq> BIGINT_OK then State_Monad.return (status, out)
                            else multiply_cross
                              (\<lambda>x y space. multiply fuel x y threshold space workspace (depth + 1))
                              as na bs nb k available workspace depth
                              (store_at (2 * k) high (store_at 0 low out))
                          }
   }"

text \<open>The size of the largest operand of the recursive calls.\<close>

definition half_up :: "nat \<Rightarrow> nat" where
  "half_up n = n - n div 2 + 1"

text \<open>\<open>room t ws n available depth\<close>: the scratch space is enough for operands of at most
  \<open>n\<close> limbs.\<close>

inductive room :: "nat \<Rightarrow> mul_workspace option \<Rightarrow> nat \<Rightarrow> nat \<Rightarrow> nat \<Rightarrow> bool" for t ws where
  room_leaf: "n < t \<Longrightarrow> room t ws n available depth"
| room_arena: "ws = None \<Longrightarrow> 4 * (half_up n) \<le> available \<Longrightarrow>
    room t ws (half_up n) (available - 4 * (half_up n)) (Suc depth) \<Longrightarrow>
    room t ws n available depth"
| room_frames: "ws = Some w \<Longrightarrow> depth < 64 \<Longrightarrow> 4 * (half_up n) \<le> ws_capacities w ! depth \<Longrightarrow>
    room t ws (half_up n) 0 (Suc depth) \<Longrightarrow>
    room t ws n available depth"

inductive_cases roomE: "room t ws n available depth"

lemma half_mono: "m \<le> n \<Longrightarrow> half_up m \<le> half_up n"
  unfolding half_up_def by arith

lemma room_mono:
  "room t ws n available depth \<Longrightarrow> m \<le> n \<Longrightarrow> available \<le> available' \<Longrightarrow> room t ws m available' depth"
proof (induction arbitrary: m available' rule: room.induct)
  case (room_leaf n available depth)
  then show ?case by (auto intro: room.room_leaf)
next
  case (room_arena n available depth)
  note h = half_mono [OF room_arena.prems(1)]
  show ?case
  proof (rule room.room_arena)
    show "4 * (half_up m) \<le> available'"
      using room_arena.hyps(2) room_arena.prems h by linarith
    show "room t ws (half_up m) (available' - 4 * (half_up m)) (Suc depth)"
      using room_arena.prems h by (intro room_arena.IH) linarith+
  qed fact
next
  case (room_frames w depth n available)
  note h = half_mono [OF room_frames.prems(1)]
  show ?case
  proof (rule room.room_frames)
    show "4 * (half_up m) \<le> ws_capacities w ! depth"
      using room_frames.hyps(3) h by linarith
    show "room t ws (half_up m) 0 (Suc depth)"
      using h by (intro room_frames.IH) linarith+
  qed fact+
qed

lemma room_children:
  assumes "room t ws n available depth" "t \<le> n"
  shows "room t ws (half_up n) available (Suc depth)"
    and "ws = None \<Longrightarrow> 4 * half_up n \<le> available \<and>
           room t ws (half_up n) (available - 4 * half_up n) (Suc depth)"
    and "ws = Some w \<Longrightarrow> depth < 64 \<and> 4 * half_up n \<le> ws_capacities w ! depth \<and>
           room t ws (half_up n) 0 (Suc depth)"
proof -
  show "ws = None \<Longrightarrow> 4 * half_up n \<le> available \<and>
           room t ws (half_up n) (available - 4 * half_up n) (Suc depth)"
    "ws = Some w \<Longrightarrow> depth < 64 \<and> 4 * half_up n \<le> ws_capacities w ! depth \<and>
           room t ws (half_up n) 0 (Suc depth)"
    using assms by (auto elim!: roomE)
  from assms show "room t ws (half_up n) available (Suc depth)"
  proof (cases rule: room.cases)
    case room_arena
    then show ?thesis by (elim room_mono) auto
  next
    case (room_frames w)
    then show ?thesis by (elim room_mono) auto
  qed simp
qed

text \<open>The Karatsuba identity on the pieces.\<close>

lemma karatsuba_identity:
  fixes B :: nat
  shows "(a0 + B * a1) * (b0 + B * b1)
    = (a0 * b0 + B * B * (a1 * b1)) + B * ((a0 + a1) * (b0 + b1) - a0 * b0 - a1 * b1)"
proof -
  have "(a0 + a1) * (b0 + b1) - a0 * b0 - a1 * b1 = a0 * b1 + a1 * b0"
    by (simp add: algebra_simps)
  then show ?thesis by (simp add: algebra_simps)
qed

lemma cross_ge: "a0 * b0 \<le> (a0 + a1) * (b0 + b1)" "a1 * b1 \<le> (a0 + a1) * (b0 + b1) - a0 * (b0 :: nat)"
  by (simp_all add: algebra_simps)

lemma mag_take_add:
  "i \<le> length xs \<Longrightarrow> mag (take (i + j) xs) = mag (take i xs) + LB ^ i * mag (take j (drop i xs))"
  by (simp add: take_add)

lemma trimmed_fits:
  assumes "m \<le> length xs" "mag (take m xs) \<le> mag ys"
  shows "trimmed m xs \<le> length ys"
proof (rule ccontr)
  assume "\<not> trimmed m xs \<le> length ys"
  then have "length ys < length (take (trimmed m xs) xs)"
    using assms(1) trimmed_le [of m xs] by simp
  then have "mag ys < mag (take (trimmed m xs) xs)"
    using canonical_take_trimmed [OF assms(1)] mag_length_less by blast
  then show False using assms mag_take_trimmed [OF assms(1)] by simp
qed

lemma trimmed_shift_fits:
  assumes "m \<le> length xs" "LB ^ k * mag (take m xs) < LB ^ n" "k \<le> n"
  shows "k + trimmed m xs \<le> n"
proof (cases "trimmed m xs = 0")
  case False
  let ?ys = "take (trimmed m xs) xs"
  have len: "length ?ys = trimmed m xs" using trimmed_le [of m xs] assms(1) by simp
  then have "?ys \<noteq> []" using False by auto
  then have "LB ^ (trimmed m xs - 1) \<le> mag (take m xs)"
    using mag_lower [OF canonical_take_trimmed [OF assms(1)]] len mag_take_trimmed [OF assms(1)] by simp
  then have "LB ^ k * LB ^ (trimmed m xs - 1) < LB ^ n"
    using assms(2) by (meson le_less_trans mult_le_mono2)
  then have "LB ^ (k + (trimmed m xs - 1)) < LB ^ n" by (simp add: power_add)
  then have "k + (trimmed m xs - 1) < n" by (simp add: power_strict_increasing_iff)
  then show ?thesis using False by linarith
qed (use assms in simp)

lemma multiply_cross_wp:
  fixes as bs out :: "u64 list" and na nb k n :: nat
  assumes len: "na \<le> length as" "nb \<le> length bs" "na + nb \<le> length out"
    and n: "n = max na nb" "k = n div 2" "k < na" "k < nb" "t \<le> n"
    and out: "mag (take (2 * k) out) = mag (take k as) * mag (take k bs)"
      "mag (take (na + nb - 2 * k) (drop (2 * k) out))
         = mag (take (na - k) (drop k as)) * mag (take (nb - k) (drop k bs))"
      "mag (drop (na + nb) out) = 0"
    and rec: "\<And>x y space Q. length x \<le> half_up n \<Longrightarrow> length y \<le> half_up n \<Longrightarrow>
       (\<And>st z. outcome u (room t ws (half_up n) space (Suc depth)) st
          (length z = length x + length y \<and> mag z = mag x * mag y) True \<Longrightarrow> Q (st, z)) \<Longrightarrow>
       rspec u (recur x y space) Q"
    and Q: "\<And>st out'. outcome u (room t ws n available depth) st
       (length out' = length out \<and> mag out' = mag (take na as) * mag (take nb bs)) True \<Longrightarrow> Q (st, out')"
  shows "rspec u (multiply_cross recur as na bs nb k available ws depth out) Q"
proof -
  define a0 a1 b0 b1 where abs: "a0 = mag (take k as)" "a1 = mag (take (na - k) (drop k as))"
    "b0 = mag (take k bs)" "b1 = mag (take (nb - k) (drop k bs))"
  define sa sb where s: "sa = (if k > na - k then k else na - k) + 1" "sb = (if k > nb - k then k else nb - k) + 1"
  define ga where "ga = (case ws of None \<Rightarrow> Some available
              | Some w \<Rightarrow> if depth \<ge> 64 then None else Some (ws_capacities w ! depth))"
  have k: "(if na < k then na else k) = k" "(if nb < k then nb else k) = k" using n by auto
  have nn: "na \<le> n" "nb \<le> n" using n(1) by simp_all
  have nk: "n \<le> 2 * k + 1" "2 * k \<le> n" unfolding n(2) by linarith+
  have hk: "half_up n = n - k + 1" by (simp add: half_up_def n(2))
  have kk: "k \<le> na" "k \<le> nb" "na \<le> 2 * k + 1" "nb \<le> 2 * k + 1"
    using nn nk n(3,4) by linarith+
  have hu: "sa \<le> half_up n" "sb \<le> half_up n" "max k (na - k) + 1 \<le> half_up n" "max k (nb - k) + 1 \<le> half_up n"
    using nn nk by (auto simp: s hk)
  have hmax: "max k (na - k) + 1 = sa" "max k (nb - k) + 1 = sb" by (simp_all add: s)
  have A: "mag (take na as) = a0 + LB ^ k * a1"
    using mag_take_add [of k as "na - k"] len n(3) by (simp add: abs)
  have B: "mag (take nb bs) = b0 + LB ^ k * b1"
    using mag_take_add [of k bs "nb - k"] len n(4) by (simp add: abs)
  have AB: "mag (take na as) * mag (take nb bs) < LB ^ (na + nb)"
  proof -
    have "mag (take na as) * mag (take nb bs) < LB ^ na * LB ^ nb"
      using mag_less [of "take na as"] mag_less [of "take nb bs"] len
      by (intro mult_strict_mono) auto
    then show ?thesis by (simp add: power_add)
  qed
  have O: "mag (take (na + nb) out) = a0 * b0 + LB ^ k * LB ^ k * (a1 * b1)"
    using mag_take_add [of "2 * k" out "na + nb - 2 * k"] len kk out
    by (simp add: abs mult_2 power_add)
  have identity: "mag (take (na + nb) out) + LB ^ k * ((a0 + a1) * (b0 + b1) - a0 * b0 - a1 * b1)
      = mag (take na as) * mag (take nb bs)"
    unfolding A B O karatsuba_identity ..
  define M Z0 Z2 where M: "M = (a0 + a1) * (b0 + b1)" "Z0 = a0 * b0" "Z2 = a1 * b1"
  have cross: "Z0 \<le> M" "Z2 \<le> M - Z0" unfolding M by (rule cross_ge)+
  have two_k: "2 * k \<le> length out" using len kk by simp
  have ghalf: "(na - k) + (nb - k) = na + nb - 2 * k" using kk by simp
  have frame: "2 * (sa + sb) \<le> 4 * half_up n" using hu by simp
  have large: "Q (BIGINT_VALUE_TOO_LARGE, out)" if "ga = None"
  proof (rule Q)
    have "\<not> room t ws n available depth"
      using room_children(3) [of t ws n available depth] n(5) that by (auto simp: ga_def split: option.splits if_splits)
    then show "outcome u (room t ws n available depth) BIGINT_VALUE_TOO_LARGE
       (length out = length out \<and> mag out = mag (take na as) * mag (take nb bs)) True" by simp
  qed
  have small: "Q (BIGINT_VALUE_TOO_LARGE, out)" if "ga = Some g" "2 * (sa + sb) > g" for g
  proof (rule Q)
    have "\<not> room t ws n available depth"
      using room_children(2,3) [of t ws n available depth] n(5) that frame
      by (fastforce simp: ga_def split: option.splits if_splits)
    then show "outcome u (room t ws n available depth) BIGINT_VALUE_TOO_LARGE
       (length out = length out \<and> mag out = mag (take na as) * mag (take nb bs)) True" by simp
  qed
  have child: "room t ws (half_up n) (case ws of None \<Rightarrow> g - 2 * (sa + sb) | Some _ \<Rightarrow> 0) (Suc depth)"
    if "ga = Some g" "room t ws n available depth" for g
    using room_children(2,3) [OF that(2) n(5)] that(1) frame
    by (cases ws) (auto simp: ga_def elim!: room_mono split: if_splits)
  have out2: "mag (take (k + k) out) = Z0" using out(1) by (simp add: abs M mult_2)
  have out3: "mag (take (na - k + (nb - k)) (drop (2 * k) out)) = Z2"
    using out(2) unfolding ghalf abs M .
  have len2: "k + k \<le> length out" "na - k + (nb - k) \<le> length (drop (2 * k) out)"
    using two_k len(3) ghalf by auto
  have sub1: "rspec u (subtract m c out (trimmed (k + k) out)) R"
    if m: "length m = c" "mag m = M"
      and R: "\<And>st m'. outcome u True st (length m' = c \<and> mag m' = M - Z0) True \<Longrightarrow> R (st, m')"
    for m c R
  proof (rule subtract_wp)
    note len = len2(1)
    show "c \<le> length m" using m(1) by simp
    show "trimmed (k + k) out \<le> length out" using len trimmed_le order_trans by blast
    have le: "mag (take (k + k) out) \<le> mag m" unfolding m(2) out2 by (rule cross)
    show "trimmed (k + k) out \<le> c" using trimmed_fits [OF len le] m(1) by simp
    show "mag (take (trimmed (k + k) out) out) \<le> mag (take c m)"
      using le m(1) by (simp add: mag_take_trimmed [OF len])
    fix st m'
    assume "outcome u True st (length m' = length m \<and> drop c m' = drop c m \<and>
      mag (take c m') = mag (take c m) - mag (take (trimmed (k + k) out) out)) (length m' = length m)"
    then show "R (st, m')"
      using m by (intro R) (elim outcome_mono; clarsimp simp add: mag_take_trimmed [OF len] out2)
  qed
  have sub2: "rspec u (subtract m c (drop (2 * k) out) (trimmed (na - k + (nb - k)) (drop (2 * k) out))) R"
    if m: "length m = c" "mag m = M - Z0"
      and R: "\<And>st m'. outcome u True st (length m' = c \<and> mag m' = M - Z0 - Z2) True \<Longrightarrow> R (st, m')"
    for m c R
  proof (rule subtract_wp)
    note len = len2(2)
    show "c \<le> length m" using m(1) by simp
    show "trimmed (na - k + (nb - k)) (drop (2 * k) out) \<le> length (drop (2 * k) out)" using len trimmed_le order_trans by blast
    have le: "mag (take (na - k + (nb - k)) (drop (2 * k) out)) \<le> mag m" unfolding m(2) out3 by (rule cross)
    show "trimmed (na - k + (nb - k)) (drop (2 * k) out) \<le> c" using trimmed_fits [OF len le] m(1) by simp
    show "mag (take (trimmed (na - k + (nb - k)) (drop (2 * k) out)) (drop (2 * k) out)) \<le> mag (take c m)"
      using le m(1) by (simp add: mag_take_trimmed [OF len])
    fix st m'
    assume "outcome u True st (length m' = length m \<and> drop c m' = drop c m \<and>
      mag (take c m') = mag (take c m) - mag (take (trimmed (na - k + (nb - k)) (drop (2 * k) out)) (drop (2 * k) out))) (length m' = length m)"
    then show "R (st, m')"
      using m by (intro R) (elim outcome_mono; clarsimp simp add: mag_take_trimmed [OF len] out3)
  qed
  have total: "mag out' = mag (take na as) * mag (take nb bs)"
    if "mag (take (na + nb) out') = mag (take na as) * mag (take nb bs)" "drop (na + nb) out' = drop (na + nb) out"
      "length out' = length out" for out'
    using mag_split [of "na + nb" out'] that out(3) len(3) by simp
  have add: "rspec u (add_shifted out (na + nb) m (trimmed c m) k) Q"
    if "length m = c" "mag m = M - Z0 - Z2" for m c
  proof -
    have m: "mag (take (trimmed c m) m) = mag m" using that(1) mag_take_trimmed [of c m] by simp
    have "LB ^ k * mag m \<le> mag (take na as) * mag (take nb bs)"
      unfolding identity [folded M, symmetric] that(2) by (rule le_add2)
    also note AB
    finally have "LB ^ k * mag m < LB ^ (na + nb)" .
    then have "k + trimmed c m \<le> na + nb"
      using trimmed_shift_fits [of c m k "na + nb"] that(1) kk by simp
    note sum' = identity [folded M, folded that(2)]
    show ?thesis
    proof (rule add_shifted_wp)
      show "trimmed c m \<le> length m" using trimmed_le [of c m] that(1) by simp
      show "mag (take (na + nb) out) + LB ^ k * mag (take (trimmed c m) m) < LB ^ (na + nb)"
        unfolding m sum' by (rule AB)
      fix st out'
      assume o: "outcome u True st (length out' = length out \<and> drop (na + nb) out' = drop (na + nb) out \<and>
        mag (take (na + nb) out') = mag (take (na + nb) out) + LB ^ k * mag (take (trimmed c m) m))
        (length out' = length out)"
      show "Q (st, out')"
        by (intro Q outcome_mono [OF o]) (auto simp: m sum' intro: total)
    qed fact+
  qed
  let ?R = "room t ws n available depth"
  have fail: "Q (st, out')" if "outcome u F st G True" "st \<noteq> BIGINT_OK" "?R \<Longrightarrow> F" for st out' F G
    using that by (intro Q) (auto simp: resource_failure_def)
  have s5: "rspec u (if st = BIGINT_OK then add_shifted out (na + nb) m (trimmed c m) k
      else State_Monad.return (st, out)) Q"
    if "outcome u F st (length m = c \<and> mag m = M - Z0 - Z2) True" "?R \<Longrightarrow> F" for st m c F
    using that by (intro wp add fail [OF that(1)]) simp_all
  have s4: "rspec u (do {
       (st, m) \<leftarrow> (if st = BIGINT_OK
          then subtract m c (drop (2 * k) out) (trimmed (na - k + (nb - k)) (drop (2 * k) out))
          else State_Monad.return (st, m));
       if st = BIGINT_OK then add_shifted out (na + nb) m (trimmed c m) k
       else State_Monad.return (st, out) }) Q"
    if o: "outcome u F st (length m = c \<and> mag m = M - Z0) True" "?R \<Longrightarrow> F" for st m c F
  proof (cases "st = BIGINT_OK")
    case True
    with o(1) have m: "length m = c" "mag m = M - Z0" by simp_all
    show ?thesis unfolding if_P [OF True]
      by (intro triple_bind triple_case_pair sub2 [OF m]) (rule s5, assumption, simp)
  next
    case False
    show ?thesis unfolding if_not_P [OF False] using False o
      by (intro triple_bind triple_case_pair triple_return) (auto intro!: wp fail [OF o(1)])
  qed
  have s3: "rspec u (do {
       (st, m) \<leftarrow> (if st = BIGINT_OK then subtract m c out (trimmed (k + k) out)
          else State_Monad.return (st, m));
       (st, m) \<leftarrow> (if st = BIGINT_OK
          then subtract m c (drop (2 * k) out) (trimmed (na - k + (nb - k)) (drop (2 * k) out))
          else State_Monad.return (st, m));
       if st = BIGINT_OK then add_shifted out (na + nb) m (trimmed c m) k
       else State_Monad.return (st, out) }) Q"
    if o: "outcome u F st (length m = c \<and> mag m = M) True" "?R \<Longrightarrow> F" for st m c F
  proof (cases "st = BIGINT_OK")
    case True
    with o(1) have m: "length m = c" "mag m = M" by simp_all
    show ?thesis unfolding if_P [OF True]
      by (rule triple_bind, rule sub1 [OF m], rule triple_case_pair, rule s4, assumption, simp)
  next
    case False
    show ?thesis unfolding if_not_P [OF False] using False o
      by (intro triple_bind triple_case_pair triple_return) (auto intro!: wp fail [OF o(1)])
  qed
  show ?thesis
  proof (cases "\<exists>g. ga = Some g \<and> 2 * (sa + sb) \<le> g")
    case False
    then show ?thesis
      unfolding multiply_cross_def Let_def k s [symmetric] ga_def [symmetric]
      using large small by (auto intro!: wp)
  next
    case True
    then obtain g where g: "ga = Some g" "\<not> 2 * (sa + sb) > g" by auto
    let ?space = "case ws of None \<Rightarrow> g - 2 * (sa + sb) | Some _ \<Rightarrow> 0"
    have recur: "rspec u (recur (take ma xa) (take mb xb) ?space) R"
      if A: "ma \<le> length xa \<and> ma \<le> max k (na - k) + 1 \<and> mag (take ma xa) = mag (take k as) + mag (take (na - k) (drop k as))"
        and B: "mb \<le> length xb \<and> mb \<le> max k (nb - k) + 1 \<and> mag (take mb xb) = mag (take k bs) + mag (take (nb - k) (drop k bs))"
        and R: "\<And>st z. outcome u (room t ws (half_up n) ?space (Suc depth)) st (length z = ma + mb \<and> mag z = M) True \<Longrightarrow> R (st, z)"
      for ma mb xa xb R
    proof (rule rec)
      show "length (take ma xa) \<le> half_up n" "length (take mb xb) \<le> half_up n"
        using A B hu by auto
      fix st z
      assume "outcome u (room t ws (half_up n) ?space (Suc depth)) st
        (length z = length (take ma xa) + length (take mb xb) \<and> mag z = mag (take ma xa) * mag (take mb xb)) True"
      then show "R (st, z)" using A B by (intro R) (simp add: M abs)
    qed
    let ?room = "room t ws (half_up n) ?space (Suc depth)"
    define T3 where "T3 = (\<lambda>st m c. do {
       (st, m) \<leftarrow> (if st = BIGINT_OK then subtract m c out (trimmed (k + k) out)
          else State_Monad.return (st, m));
       (st, m) \<leftarrow> (if st = BIGINT_OK
          then subtract m c (drop (2 * k) out) (trimmed (na - k + (nb - k)) (drop (2 * k) out))
          else State_Monad.return (st, m));
       if st = BIGINT_OK then add_shifted out (na + nb) m (trimmed c m) k
       else State_Monad.return (st, out) })"
    define T2 where "T2 = (\<lambda>st xa ma xb mb. do {
       (st, m) \<leftarrow> (if st = BIGINT_OK then recur (take ma xa) (take mb xb) ?space
          else State_Monad.return (st, []));
       T3 st m (if st = BIGINT_OK then ma + mb else 0) })"
    have t3: "rspec u (T3 st m c) Q"
      if "outcome u F st (length m = c \<and> mag m = M) True" "?R \<Longrightarrow> F" for st m c F
      unfolding T3_def using that by (rule s3)
    have t2: "rspec u (T2 st xa ma xb mb) Q"
      if A: "ma \<le> length xa \<and> ma \<le> max k (na - k) + 1 \<and> mag (take ma xa) = mag (take k as) + mag (take (na - k) (drop k as))"
        and B: "outcome u True st (mb \<le> length xb \<and> mb \<le> max k (nb - k) + 1 \<and>
          mag (take mb xb) = mag (take k bs) + mag (take (nb - k) (drop k bs))) True"
      for st xa ma xb mb
    proof (cases "st = BIGINT_OK")
      case True
      with B have B': "mb \<le> length xb \<and> mb \<le> max k (nb - k) + 1 \<and>
          mag (take mb xb) = mag (take k bs) + mag (take (nb - k) (drop k bs))" by simp
      show ?thesis
        unfolding T2_def if_P [OF True]
      proof (rule triple_bind, rule recur [OF A B'], rule triple_case_pair, rule t3)
        fix st z
        assume o: "outcome u ?room st (length z = ma + mb \<and> mag z = M) True"
        show "outcome u ?room st (length z = (if st = BIGINT_OK then ma + mb else 0) \<and> mag z = M) True"
          using o by (simp add: outcome_def)
        show "?R \<Longrightarrow> ?room" by (rule child [OF g(1)])
      qed
    next
      case False
      show ?thesis
        unfolding T2_def if_not_P [OF False]
        using False B by (intro triple_bind triple_return triple_case_pair t3 [where F = True]) simp_all
    qed
    have t1: "rspec u (do { (st, xb, mb) \<leftarrow> (if st = BIGINT_OK then sum_halves bs nb k
          else State_Monad.return (st, [], 0)); T2 st xa ma xb mb }) Q"
      if A: "outcome u True st (ma \<le> length xa \<and> ma \<le> max k (na - k) + 1 \<and>
          mag (take ma xa) = mag (take k as) + mag (take (na - k) (drop k as))) True"
      for st xa ma
    proof (cases "st = BIGINT_OK")
      case True
      with A have A': "ma \<le> length xa \<and> ma \<le> max k (na - k) + 1 \<and>
          mag (take ma xa) = mag (take k as) + mag (take (na - k) (drop k as))" by simp
      show ?thesis
        unfolding if_P [OF True]
        by (rule triple_bind, rule sum_halves_wp [OF len(2) kk(2,4)], rule triple_case_pair,
            rule triple_case_pair, rule t2 [OF A'], assumption)
    next
      case False
      show ?thesis
        unfolding if_not_P [OF False] T2_def
        using False A by (auto intro!: triple_bind triple_return t3 [where F = True])
    qed
    have "rspec u (do { (st, xa, ma) \<leftarrow> sum_halves as na k;
        (st, xb, mb) \<leftarrow> (if st = BIGINT_OK then sum_halves bs nb k
          else State_Monad.return (st, [], 0)); T2 st xa ma xb mb }) Q"
      by (rule triple_bind, rule sum_halves_wp [OF len(1) kk(1,3)], rule triple_case_pair,
          rule triple_case_pair, rule t1)
    then show ?thesis
      unfolding multiply_cross_def Let_def k s [symmetric] ga_def [symmetric] g(1) option.case if_not_P [OF g(2)]
        T2_def T3_def .
  qed
qed

end
