(* ===== verification/BigInt_Mul.thy ===== *)
theory BigInt_Mul
  imports Karatsuba
begin

text \<open>
  Multiplication of objects: the correctness of the recursive kernel, the sizes of its
  scratch memory, the entry points \<^verbatim>\<open>bigint_mul_karatsuba\<close> and
  \<^verbatim>\<open>bigint_mul_workspace\<close> of \<^verbatim>\<open>src/core/bigint/multiplication.c\<close>, and
  \<^verbatim>\<open>bigint_mul\<close> of \<^verbatim>\<open>arithmetic.c\<close>.
\<close>

section \<open>Correctness of the recursive kernel\<close>

text \<open>Operands that the kernel hands to the schoolbook loop at once.\<close>

definition mul_leaf :: "nat \<Rightarrow> u64 list \<Rightarrow> u64 list \<Rightarrow> bool" where
  "mul_leaf t as bs \<longleftrightarrow>
     (let na = trimmed (length as) as; nb = trimmed (length bs) bs
      in min na nb < t \<or> min na nb \<le> max na nb div 2)"

text \<open>The fuel is the recursion depth, for which the operand length is ample.\<close>

lemma multiply_wp:
  assumes t: "8 \<le> t"
  shows "max (length as) (length bs) < fuel \<Longrightarrow>
    (\<And>st out. outcome u (room t ws (max (length as) (length bs)) available depth \<or> mul_leaf t as bs) st
       (length out = length as + length bs \<and> mag out = mag as * mag bs) True \<Longrightarrow> Q (st, out)) \<Longrightarrow>
    rspec u (multiply fuel as bs t available ws depth) Q"
proof (induction fuel arbitrary: as bs available depth Q)
  case 0
  then show ?case by simp
next
  case (Suc fuel)
  define na nb where na: "na = trimmed (length as) as" "nb = trimmed (length bs) bs"
  define n where n: "n = max na nb"
  define k where k: "k = n div 2"
  let ?out = "replicate (length as + length bs) 0 :: u64 list"
  let ?R = "room t ws (max (length as) (length bs)) available depth \<or> mul_leaf t as bs"
  have leaf: "mul_leaf t as bs \<longleftrightarrow> min na nb < t \<or> min na nb \<le> n div 2"
    by (simp add: mul_leaf_def Let_def na n)
  note Q = Suc.prems(2)
  have le: "na \<le> length as" "nb \<le> length bs" by (simp_all add: na trimmed_le)
  have mags: "mag (take na as) = mag as" "mag (take nb bs) = mag bs"
    using mag_take_trimmed [of "length as" as] mag_take_trimmed [of "length bs" bs] by (simp_all add: na)
  have mxs: "(if na > nb then na else nb) = n" "(if na < nb then na else nb) = min na nb"
    by (simp_all add: n)
  have fail: "Q (st, x)" if "outcome u F st G True" "st \<noteq> BIGINT_OK" "?R \<Longrightarrow> F" for st x F G
    using that by (intro Q) (auto simp: resource_failure_def)
  have zero: "Q (BIGINT_OK, ?out)" if "na = 0 \<or> nb = 0"
    using that mags by (intro Q) auto
  have sch: "rspec u (school ?out as na bs nb) Q"
  proof (rule school_wp [OF le])
    fix st out'
    assume o: "outcome u True st (length out' = length ?out \<and> drop (na + nb) out' = drop (na + nb) ?out \<and>
      mag (take (na + nb) out') = mag (take na as) * mag (take nb bs)) (length out' = length ?out)"
    have "mag out' = mag as * mag bs" if "length out' = length ?out" "drop (na + nb) out' = drop (na + nb) ?out"
      "mag (take (na + nb) out') = mag (take na as) * mag (take nb bs)"
      using mag_split [of "na + nb" out'] that le mags by simp
    then show "Q (st, out')" by (intro Q outcome_mono [OF o]) auto
  qed (use le in auto)
  have kara: "rspec u (do {
       (status, low) \<leftarrow> multiply fuel (take k as) (take k bs) t available ws (depth + 1);
       (status, high) \<leftarrow> (if status = BIGINT_OK
          then multiply fuel (take (na - k) (drop k as)) (take (nb - k) (drop k bs)) t available ws (depth + 1)
          else State_Monad.return (status, []));
       if status \<noteq> BIGINT_OK then State_Monad.return (status, ?out)
       else multiply_cross (\<lambda>x y space. multiply fuel x y t space ws (depth + 1))
              as na bs nb k available ws depth (store_at (2 * k) high (store_at 0 low ?out)) }) Q"
    if big: "\<not> (min na nb < t \<or> min na nb \<le> n div 2)"
  proof -
    have kn: "k < na" "k < nb" "t \<le> n" using big by (auto simp: n k)
    have nk: "n \<le> 2 * k + 1" "2 * k \<le> n" unfolding k by linarith+
    have nn: "na \<le> n" "nb \<le> n" "n \<le> max (length as) (length bs)" using le by (auto simp: n)
    have hk: "half_up n = n - k + 1" by (simp add: half_up_def k)
    have hf: "half_up n < fuel" using nk nn kn t Suc.prems(1) unfolding hk by linarith
    have room_n: "?R \<Longrightarrow> room t ws n available depth"
      using big leaf nn by (auto elim: room_mono)
    have room_h: "?R \<Longrightarrow> m \<le> half_up n \<Longrightarrow> room t ws m available (Suc depth)" for m
      using room_children(1) [OF room_n kn(3)] room_mono by blast
    have sizes: "max (length (take k as)) (length (take k bs)) \<le> half_up n"
      "max (length (take (na - k) (drop k as))) (length (take (nb - k) (drop k bs))) \<le> half_up n"
      using le kn nk nn by (auto simp: hk)
    have cross: "rspec u (multiply_cross (\<lambda>x y space. multiply fuel x y t space ws (depth + 1))
        as na bs nb k available ws depth (store_at (2 * k) high (store_at 0 low ?out))) Q"
      if low: "length low = 2 * k" "mag low = mag (take k as) * mag (take k bs)"
        and high: "length high = na + nb - 2 * k" "mag high = mag (take (na - k) (drop k as)) * mag (take (nb - k) (drop k bs))"
      for low high
    proof (rule multiply_cross_wp [where n = n and t = t])
      have two: "2 * k \<le> na + nb" using kn by simp
      have out: "store_at (2 * k) high (store_at 0 low ?out)
          = low @ high @ replicate (length as + length bs - (na + nb)) 0"
        using low(1) high(1) two by (simp add: store_at_def)
      show "na + nb \<le> length (store_at (2 * k) high (store_at 0 low ?out))"
        unfolding out using low(1) high(1) two by simp
      show "mag (take (2 * k) (store_at (2 * k) high (store_at 0 low ?out))) = mag (take k as) * mag (take k bs)"
        unfolding out using low by simp
      show "mag (take (na + nb - 2 * k) (drop (2 * k) (store_at (2 * k) high (store_at 0 low ?out))))
          = mag (take (na - k) (drop k as)) * mag (take (nb - k) (drop k bs))"
        unfolding out using low high by simp
      show "mag (drop (na + nb) (store_at (2 * k) high (store_at 0 low ?out))) = 0"
        unfolding out using low high two by simp
      show "rspec u (multiply fuel x y t space ws (depth + 1)) P"
        if "length x \<le> half_up n" "length y \<le> half_up n"
          and P: "\<And>st z. outcome u (room t ws (half_up n) space (Suc depth)) st
            (length z = length x + length y \<and> mag z = mag x * mag y) True \<Longrightarrow> P (st, z)"
        for x y space P
      proof (rule Suc.IH)
        show "max (length x) (length y) < fuel" using that(1,2) hf by simp
        fix st z
        assume o: "outcome u (room t ws (max (length x) (length y)) space (depth + 1) \<or> mul_leaf t x y) st
          (length z = length x + length y \<and> mag z = mag x * mag y) True"
        show "P (st, z)"
          by (intro P outcome_mono [OF o]) (use that(1,2) in \<open>auto elim!: room_mono\<close>)
      qed
      show "Q (st, out')" if o: "outcome u (room t ws n available depth) st
        (length out' = length (store_at (2 * k) high (store_at 0 low ?out)) \<and> mag out' = mag (take na as) * mag (take nb bs)) True"
        for st out'
        by (intro Q outcome_mono [OF o]) (use room_n out low high two le mags in auto)
    qed (use le kn n k in auto)
    define T where "T = (\<lambda>low status high. if status \<noteq> BIGINT_OK then State_Monad.return (status, ?out)
       else multiply_cross (\<lambda>x y space. multiply fuel x y t space ws (depth + 1))
              as na bs nb k available ws depth (store_at (2 * k) high (store_at 0 low ?out)))"
    have t2: "rspec u (do { (status, high) \<leftarrow> (if status = BIGINT_OK
          then multiply fuel (take (na - k) (drop k as)) (take (nb - k) (drop k bs)) t available ws (depth + 1)
          else State_Monad.return (status, [])); T low status high }) Q"
      if o: "outcome u (room t ws (max (length (take k as)) (length (take k bs))) available (depth + 1)
          \<or> mul_leaf t (take k as) (take k bs)) status
        (length low = length (take k as) + length (take k bs) \<and> mag low = mag (take k as) * mag (take k bs)) True"
      for status low
    proof (cases "status = BIGINT_OK")
      case True
      then have low: "length low = 2 * k" "mag low = mag (take k as) * mag (take k bs)"
        using o le kn by auto
      show ?thesis
        unfolding if_P [OF True]
      proof (rule triple_bind, rule Suc.IH, use sizes(2) hf in linarith, rule triple_case_pair)
        fix st high
        assume h: "outcome u (room t ws (max (length (take (na - k) (drop k as))) (length (take (nb - k) (drop k bs))))
          available (depth + 1) \<or> mul_leaf t (take (na - k) (drop k as)) (take (nb - k) (drop k bs))) st (length high = length (take (na - k) (drop k as)) + length (take (nb - k) (drop k bs)) \<and>
          mag high = mag (take (na - k) (drop k as)) * mag (take (nb - k) (drop k bs))) True"
        show "rspec u (T low st high) Q"
        proof (cases "st = BIGINT_OK")
          case True
          with h le kn have "length high = na + nb - 2 * k"
            "mag high = mag (take (na - k) (drop k as)) * mag (take (nb - k) (drop k bs))" by auto
          from cross [OF low this] show ?thesis unfolding T_def using True by simp
        next
          case False
          have "Q (st, ?out)" by (rule fail [OF h False]) (use room_h sizes(2) in simp)
          then show ?thesis unfolding T_def using False by (auto intro!: triple_return)
        qed
      qed
    next
      case False
      have "Q (status, ?out)" by (rule fail [OF o False]) (use room_h sizes(1) in simp)
      then show ?thesis
        unfolding T_def if_not_P [OF False] using False by (auto intro!: triple_bind triple_return)
    qed
    have "rspec u (do {
       (status, low) \<leftarrow> multiply fuel (take k as) (take k bs) t available ws (depth + 1);
       (status, high) \<leftarrow> (if status = BIGINT_OK
          then multiply fuel (take (na - k) (drop k as)) (take (nb - k) (drop k bs)) t available ws (depth + 1)
          else State_Monad.return (status, []));
       T low status high }) Q"
      by (rule triple_bind, rule Suc.IH, use sizes(1) hf in linarith, rule triple_case_pair, rule t2)
    then show ?thesis unfolding T_def .
  qed
  have go: "rspec u (if na = 0 \<or> nb = 0 then State_Monad.return (BIGINT_OK, ?out)
     else if min na nb < t \<or> min na nb \<le> n div 2 then school ?out as na bs nb
     else do {
       (status, low) \<leftarrow> multiply fuel (take (if na < k then na else k) as) (take (if nb < k then nb else k) bs) t available ws (depth + 1);
       (status, high) \<leftarrow> (if status = BIGINT_OK
          then multiply fuel (take (na - (if na < k then na else k)) (drop (if na < k then na else k) as))
            (take (nb - (if nb < k then nb else k)) (drop (if nb < k then nb else k) bs)) t available ws (depth + 1)
          else State_Monad.return (status, []));
       if status \<noteq> BIGINT_OK then State_Monad.return (status, ?out)
       else multiply_cross (\<lambda>x y space. multiply fuel x y t space ws (depth + 1))
              as na bs nb k available ws depth (store_at (2 * k) high (store_at 0 low ?out)) }) Q"
  proof (cases "na = 0 \<or> nb = 0")
    case True
    then show ?thesis unfolding if_P [OF True] by (intro triple_return zero)
  next
    case nz: False
    show ?thesis
    proof (cases "min na nb < t \<or> min na nb \<le> n div 2")
      case True
      then show ?thesis unfolding if_not_P [OF nz] if_P [OF True] by (intro sch)
    next
      case False
      then have al: "(if na < k then na else k) = k" "(if nb < k then nb else k) = k" by (auto simp: k)
      show ?thesis unfolding if_not_P [OF nz] if_not_P [OF False] al by (rule kara [OF False])
    qed
  qed
  show ?case
    unfolding multiply.simps Let_def na [symmetric] mxs k [symmetric]
  proof (rule triple_bind, rule budget_check_wp, rule triple_if)
    fix b
    assume "u \<longrightarrow> b" "\<not> b"
    then show "rspec u (State_Monad.return (BIGINT_OUT_OF_MEMORY, [])) Q"
      by (intro triple_return fail [of True _ True]) simp_all
  qed (rule go [unfolded k [symmetric]])
qed

section \<open>Sizes of the scratch memory\<close>

text \<open>Every size is at most halved (plus two) per step, so 65 steps of fuel reach a size
  below any threshold.\<close>

primrec scratch_size_loop :: "nat \<Rightarrow> nat \<Rightarrow> nat \<Rightarrow> nat \<Rightarrow> nat option rt" where
  "scratch_size_loop 0 n threshold sofar = out_of_fuel None"
| "scratch_size_loop (Suc fuel) n threshold sofar =
    (if n \<ge> threshold then
       let h = n - n div 2 + 1
       in case bigint_size_mul h 4 of
            None \<Rightarrow> State_Monad.return None
          | Some frame \<Rightarrow>
              (case bigint_size_add sofar frame of
                 None \<Rightarrow> State_Monad.return None
               | Some sofar \<Rightarrow> scratch_size_loop fuel h threshold sofar)
     else State_Monad.return (Some sofar))"

definition scratch_size :: "nat \<Rightarrow> nat \<Rightarrow> nat option rt" where
  "scratch_size n threshold = scratch_size_loop 65 n threshold 0"

definition bigint_karatsuba_fits :: "nat \<Rightarrow> nat \<Rightarrow> nat \<Rightarrow> bool rt" where
  "bigint_karatsuba_fits na nb threshold = do {
     count \<leftarrow> scratch_size (if na > nb then na else nb) threshold;
     case count of None \<Rightarrow> State_Monad.return False
     | Some count \<Rightarrow>
       (case bigint_size_add na nb of None \<Rightarrow> State_Monad.return False
        | Some len \<Rightarrow>
          if len > BIGINT_MAX_LIMBS then State_Monad.return False
          else (case bigint_size_mul len 8 of None \<Rightarrow> State_Monad.return False
                | Some result_bytes \<Rightarrow>
                  (case bigint_size_mul count 8 of None \<Rightarrow> State_Monad.return False
                   | Some scratch_bytes \<Rightarrow> numforge_budget_can_allocate_pair result_bytes scratch_bytes)))
   }"

lemma half_up_le: "2 * half_up n \<le> n + 3"
  unfolding half_up_def by arith

lemma half_up_fuel: "n \<le> 2 ^ Suc f + 3 \<Longrightarrow> half_up n \<le> 2 ^ f + 3"
  unfolding half_up_def by simp

lemma scratch_size_loop_wp:
  assumes t: "8 \<le> t"
  shows "n \<le> 2 ^ f + 3 \<Longrightarrow>
   (\<And>r. (sofar + 8 * n \<le> SIZE_MAX \<longrightarrow> r \<noteq> None) \<Longrightarrow>
      (\<And>c. r = Some c \<Longrightarrow> sofar \<le> c \<and> c \<le> sofar + 8 * n \<and> (\<forall>depth. room t None n (c - sofar) depth)) \<Longrightarrow> Q r) \<Longrightarrow>
   rspec u (scratch_size_loop (Suc f) n t sofar) Q"
proof (induction f arbitrary: n sofar)
  case 0
  then have "n < t" using t by simp
  then have "Q (Some sofar)" by (intro 0(2)) (auto intro: room_leaf)
  with \<open>n < t\<close> show ?case by (auto intro!: triple_return)
next
  case (Suc f)
  show ?case
  proof (cases "t \<le> n")
    case False
    then have "Q (Some sofar)" by (intro Suc.prems(2)) (auto intro: room_leaf)
    with False show ?thesis by (auto intro!: triple_return)
  next
    case True
    let ?h = "half_up n"
    have h: "n - n div 2 + 1 = ?h" by (simp add: half_up_def)
    have hn: "2 * ?h \<le> n + 3" by (rule half_up_le)
    have n8: "12 * ?h \<le> 8 * n"
    proof (cases "n = 8")
      case False
      with True t hn show ?thesis by linarith
    qed (simp add: half_up_def)
    have none: "Q None" if "\<not> sofar + 4 * ?h \<le> SIZE_MAX"
      using that n8 by (intro Suc.prems(2)) auto
    have rec: "rspec u (scratch_size_loop (Suc f) ?h t (sofar + ?h * 4)) Q"
    proof (rule Suc.IH [OF half_up_fuel [OF Suc.prems(1)]], rule Suc.prems(2))
      fix r :: "nat option"
      assume s: "sofar + ?h * 4 + 8 * ?h \<le> SIZE_MAX \<longrightarrow> r \<noteq> None"
      then show "sofar + 8 * n \<le> SIZE_MAX \<longrightarrow> r \<noteq> None" using n8 by linarith
      fix c :: nat
      assume "r = Some c"
        and r: "\<And>c. r = Some c \<Longrightarrow> sofar + ?h * 4 \<le> c \<and> c \<le> sofar + ?h * 4 + 8 * ?h \<and>
          (\<forall>depth. room t None ?h (c - (sofar + ?h * 4)) depth)"
      then have c: "sofar + ?h * 4 \<le> c" "c \<le> sofar + ?h * 4 + 8 * ?h"
        and rm: "\<And>depth. room t None ?h (c - (sofar + ?h * 4)) depth" by auto
      have "room t None n (c - sofar) depth" for depth
      proof (rule room_arena [OF refl])
        show "4 * ?h \<le> c - sofar" using c(1) by linarith
        have "c - (sofar + ?h * 4) = c - sofar - 4 * ?h" by simp
        with rm [of "Suc depth"] show "room t None ?h (c - sofar - 4 * ?h) (Suc depth)" by (simp only:)
      qed
      then show "sofar \<le> c \<and> c \<le> sofar + 8 * n \<and> (\<forall>depth. room t None n (c - sofar) depth)"
        using c n8 by simp
    qed
    show ?thesis
      unfolding scratch_size_loop.simps(2) [of "Suc f"] h Let_def
      using True none rec
      by (auto intro!: wp simp: bigint_size_mul_iff bigint_size_mul_None_iff mult.commute
          dest: bigint_size_addD bigint_size_add_NoneD simp del: scratch_size_loop.simps)
  qed
qed

lemma max_limbs_8: "n \<le> BIGINT_MAX_LIMBS \<Longrightarrow> 64 * n \<le> SIZE_MAX"
  by (simp add: BIGINT_MAX_LIMBS_def SIZE_MAX_def)

lemma scratch_size_wp [wp]:
  assumes "8 \<le> t" "n \<le> BIGINT_MAX_LIMBS"
    and Q: "\<And>c. c \<le> 8 * n \<Longrightarrow> (\<And>depth. room t None n c depth) \<Longrightarrow> Q (Some c)"
  shows "rspec u (scratch_size n t) Q"
proof -
  have "n \<le> 2 ^ 64 + 3" using max_limbs_2_64 assms(2) by linarith
  moreover have "0 + 8 * n \<le> SIZE_MAX" using max_limbs_8 [OF assms(2)] by linarith
  ultimately have "rspec u (scratch_size_loop (Suc 64) n t 0) Q"
    using assms(1) Q by (intro scratch_size_loop_wp) auto
  then show ?thesis unfolding scratch_size_def by simp
qed

lemma karatsuba_fits_wp [wp]:
  assumes "8 \<le> t" "na \<le> BIGINT_MAX_LIMBS" "nb \<le> BIGINT_MAX_LIMBS"
    and Q: "\<And>b. (b \<longrightarrow> na + nb \<le> BIGINT_MAX_LIMBS) \<Longrightarrow> Q b"
  shows "rspec u (bigint_karatsuba_fits na nb t) Q"
  unfolding bigint_karatsuba_fits_def
  using assms(1-3) by (auto intro!: wp Q dest!: bigint_size_addD)

section \<open>The arena variant\<close>

text \<open>The end of both entry points: a last look at the budget, then the product is
  normalized and moved to its destination.\<close>

definition publish_product ::
  "BigInt \<Rightarrow> BigInt \<Rightarrow> BigInt \<Rightarrow> nat \<Rightarrow> BigIntStatus \<times> u64 list \<Rightarrow> (BigIntStatus \<times> BigInt) rt" where
  "publish_product out a b len p = (case p of (status, product) \<Rightarrow> do {
     go \<leftarrow> (if status = BIGINT_OK then numforge_budget_check else State_Monad.return True);
     let status = (if status = BIGINT_OK \<and> \<not> go then BIGINT_OUT_OF_MEMORY else status);
     if status = BIGINT_OK
     then let temporary = bigint_normalize \<lparr>limbs = product, capacity = len,
                is_negative = (is_negative a \<noteq> is_negative b)\<rparr>
          in State_Monad.return (BIGINT_OK, fst (bigint_commit out temporary))
     else State_Monad.return (status, out)
   })"

text \<open>The scratch space of a product: none for operands that the schoolbook loop takes.\<close>

definition arena_limbs :: "nat \<Rightarrow> nat \<Rightarrow> nat \<Rightarrow> nat option rt" where
  "arena_limbs smaller n threshold =
    (if smaller \<ge> threshold \<and> smaller > n div 2 then scratch_size n threshold
     else State_Monad.return (Some 0))"

definition bigint_mul_karatsuba :: "BigInt \<Rightarrow> BigInt \<Rightarrow> BigInt \<Rightarrow> nat \<Rightarrow> (BigIntStatus \<times> BigInt) rt" where
  "bigint_mul_karatsuba out a b threshold =
    (if threshold < 8 \<or> threshold > 1024 then State_Monad.return (BIGINT_INVALID_ARGUMENT, out)
     else do {
       go \<leftarrow> numforge_budget_check;
       if \<not> go then State_Monad.return (BIGINT_OUT_OF_MEMORY, out)
       else if limbs a = [] \<or> limbs b = [] then bigint_set_uint64 out 0
       else case bigint_size_add (bsize a) (bsize b) of
         None \<Rightarrow> State_Monad.return (BIGINT_VALUE_TOO_LARGE, out)
       | Some len \<Rightarrow>
         if len > BIGINT_MAX_LIMBS then State_Monad.return (BIGINT_VALUE_TOO_LARGE, out)
         else do {
           let n = (if bsize a > bsize b then bsize a else bsize b);
           let smaller = (if bsize a < bsize b then bsize a else bsize b);
           count \<leftarrow> arena_limbs smaller n threshold;
           case count of None \<Rightarrow> State_Monad.return (BIGINT_VALUE_TOO_LARGE, out)
           | Some count \<Rightarrow>
             (case bigint_size_mul count 8 of
                None \<Rightarrow> State_Monad.return (BIGINT_VALUE_TOO_LARGE, out)
              | Some bytes \<Rightarrow> do {
                  temporary_granted \<leftarrow> numforge_calloc len 8;
                  if \<not> temporary_granted then State_Monad.return (BIGINT_OUT_OF_MEMORY, out)
                  else do {
                    scratch_granted \<leftarrow> (if count \<noteq> 0 then numforge_malloc bytes else State_Monad.return False);
                    if count \<noteq> 0 \<and> \<not> scratch_granted then State_Monad.return (BIGINT_OUT_OF_MEMORY, out)
                    else do {
                      p \<leftarrow> multiply (n + 1) (limbs a) (limbs b) threshold count None 0;
                      publish_product out a b len p
                    }
                  }
                })
         }
     })"

text \<open>The value of a product, from its magnitude and sign.\<close>

lemma product_val:
  assumes "mag xs = bigint_mag a * bigint_mag b" "c = (is_negative a \<noteq> is_negative b)"
  shows "bigint_val \<lparr>limbs = xs, capacity = n, is_negative = c\<rparr> = bigint_val a * bigint_val b"
  using assms by (auto simp: bigint_val_def)

lemma publish_product_wp:
  assumes o: "outcome u F st (length xs = bsize a + bsize b \<and> mag xs = bigint_mag a * bigint_mag b) True"
    and len: "len = bsize a + bsize b" "len \<le> BIGINT_MAX_LIMBS"
    and Q: "\<And>st r'. outcome u F st (bigint_wf r' \<and> bigint_val r' = bigint_val a * bigint_val b) (r' = r) \<Longrightarrow> Q (st, r')"
  shows "rspec u (publish_product r a b len (st, xs)) Q"
proof (cases "st = BIGINT_OK")
  case True
  have "Q (BIGINT_OK, bigint_normalize \<lparr>limbs = xs, capacity = len, is_negative = (is_negative a \<noteq> is_negative b)\<rparr>)"
    using o True len by (intro Q) (simp add: normalize_wf product_val)
  with True show ?thesis by (auto intro!: wp Q simp: publish_product_def Let_def)
next
  case False
  with o show ?thesis by (auto intro!: wp Q simp: publish_product_def Let_def)
qed

lemma arena_limbs_wp [wp]:
  assumes "8 \<le> t" "n \<le> BIGINT_MAX_LIMBS"
    and Q: "\<And>c. c \<le> 8 * n \<Longrightarrow> room t None n c 0 \<or> \<not> (t \<le> m \<and> n div 2 < m) \<Longrightarrow> Q (Some c)"
  shows "rspec u (arena_limbs m n t) Q"
  unfolding arena_limbs_def using assms(1,2) by (intro wp Q) auto

lemma mul_leaf_canonical:
  assumes "canonical as" "canonical bs"
  shows "mul_leaf t as bs \<longleftrightarrow>
    \<not> (t \<le> min (length as) (length bs) \<and> max (length as) (length bs) div 2 < min (length as) (length bs))"
  unfolding mul_leaf_def Let_def trimmed_canonical [OF assms(1)] trimmed_canonical [OF assms(2)]
  by linarith

lemma mul_karatsuba_wp [wp]:
  assumes t: "8 \<le> t" "t \<le> 1024" and a: "bigint_wf a" and b: "bigint_wf b" and r: "storage_ok r"
    and Q: "\<And>st r'. outcome u (bsize a + bsize b \<le> BIGINT_MAX_LIMBS) st
              (bigint_wf r' \<and> bigint_val r' = bigint_val a * bigint_val b) (r' = r) \<Longrightarrow> Q (st, r')"
  shows "rspec u (bigint_mul_karatsuba r a b t) Q"
proof -
  let ?n = "max (bsize a) (bsize b)" and ?m = "min (bsize a) (bsize b)"
  have mx: "(if bsize a > bsize b then bsize a else bsize b) = ?n"
    "(if bsize a < bsize b then bsize a else bsize b) = ?m" by simp_all
  have n: "?n \<le> BIGINT_MAX_LIMBS" using a b by (simp add: bigint_wfD)
  have oom: "Q (BIGINT_OUT_OF_MEMORY, r)" if "\<not> u" using that by (intro Q) simp
  have large: "Q (BIGINT_VALUE_TOO_LARGE, r)" if "\<not> bsize a + bsize b \<le> BIGINT_MAX_LIMBS"
    using that by (intro Q) simp
  have zero: "rspec u (bigint_set_uint64 r 0) Q" if "limbs a = [] \<or> limbs b = []"
    using r that by (intro set_uint64_wp Q) (auto simp: bigint_val_def elim: outcome_mono)
  have leaf: "mul_leaf t (limbs a) (limbs b) \<longleftrightarrow> \<not> (t \<le> ?m \<and> ?n div 2 < ?m)"
    using a b by (intro mul_leaf_canonical) (auto dest: bigint_wfD)
  have mult: "rspec u (multiply (Suc ?n) (limbs a) (limbs b) t count None 0)
      (\<lambda>p. rspec u (publish_product r a b (bsize a + bsize b) p) Q)"
    if rm: "room t None ?n count 0 \<or> \<not> (t \<le> ?m \<and> ?n div 2 < ?m)"
      and len: "bsize a + bsize b \<le> BIGINT_MAX_LIMBS" for count
  proof (rule multiply_wp [OF t(1)], simp)
    fix st xs
    assume "outcome u (room t None ?n count 0 \<or> mul_leaf t (limbs a) (limbs b)) st
       (length xs = bsize a + bsize b \<and> mag xs = bigint_mag a * bigint_mag b) True"
    then show "rspec u (publish_product r a b (bsize a + bsize b) (st, xs)) Q"
      using rm len Q by (intro publish_product_wp [OF _ refl]) (auto simp: leaf elim: outcome_mono)
  qed
  have add: "bigint_size_add (bsize a) (bsize b) = Some (bsize a + bsize b)"
    using max_limbs_add [of "bsize a" "bsize b"] n by (intro bigint_size_add_Some) simp
  have bytes: "bigint_size_mul c 8 = Some (c * 8)" if "c \<le> 8 * ?n" for c
    using that max_limbs_8 [OF n] by (intro bigint_size_mul_Some) linarith
  have result_bytes: "bsize a * 8 + bsize b * 8 \<le> SIZE_MAX" if "bsize a + bsize b \<le> BIGINT_MAX_LIMBS"
    using max_limbs_bytes [OF that] by (simp add: add_mult_distrib)
  show ?thesis
    unfolding bigint_mul_karatsuba_def Let_def mx add option.case Suc_eq_plus1 [symmetric]
    using t n
    by (intro triple_if triple_return budget_check_wp arena_limbs_wp calloc_wp malloc_wp triple_bind triple_case_option zero mult)
      (simp_all add: bytes oom large not_less result_bytes)
qed

section \<open>Multiplication\<close>

primrec mul_rows :: "nat \<Rightarrow> nat \<Rightarrow> u64 list \<Rightarrow> u64 list \<Rightarrow> u64 list \<Rightarrow> (bool \<times> u64 list) rt" where
  "mul_rows 0 i as bs product = State_Monad.return (True, product)"
| "mul_rows (Suc n) i as bs product = do {
     go \<leftarrow> numforge_budget_check;
     if \<not> go then State_Monad.return (False, product)
     else let (product, carry) =
                fold (\<lambda>j (product, carry). mac_step as (bs ! i) i j product carry) [0..<length as] (product, 0)
          in mul_rows n (Suc i) as bs (product[i + length as := carry])
   }"

definition bigint_mul :: "BigInt \<Rightarrow> BigInt \<Rightarrow> BigInt \<Rightarrow> (BigIntStatus \<times> BigInt) rt" where
  "bigint_mul result a b =
    (if bsize a = 0 \<or> bsize b = 0
     then State_Monad.return (BIGINT_OK, result\<lparr>limbs := [], is_negative := False\<rparr>)
     else do {
       let larger = (if bsize a > bsize b then bsize a else bsize b);
       let smaller = (if bsize a < bsize b then bsize a else bsize b);
       fits \<leftarrow> (if smaller \<ge> 128 \<and> smaller > larger div 2
                then bigint_karatsuba_fits (bsize a) (bsize b) 32 else State_Monad.return False);
       if fits then bigint_mul_karatsuba result a b 32
       else (case bigint_size_add (bsize a) (bsize b) of
               None \<Rightarrow> State_Monad.return (BIGINT_VALUE_TOO_LARGE, result)
             | Some result_size \<Rightarrow>
               if result_size > BIGINT_MAX_LIMBS then State_Monad.return (BIGINT_VALUE_TOO_LARGE, result)
               else do {
                 granted \<leftarrow> numforge_calloc result_size 8;
                 if \<not> granted then State_Monad.return (BIGINT_OUT_OF_MEMORY, result)
                 else do {
                   (finished, product) \<leftarrow> mul_rows (bsize b) 0 (limbs a) (limbs b) (replicate result_size 0);
                   if \<not> finished then State_Monad.return (BIGINT_OUT_OF_MEMORY, result)
                   else State_Monad.return (BIGINT_OK, bigint_normalize
                     (result\<lparr>limbs := product, capacity := result_size,
                             is_negative := (is_negative a \<noteq> is_negative b)\<rparr>))
                 }
               })
     })"

lemma mul_rows_wp:
  "prod_inv as (length as) bs out0 i out \<Longrightarrow> i + n \<le> length bs \<Longrightarrow> i + length as + n \<le> length out0 \<Longrightarrow>
   (\<And>b out'. (u \<longrightarrow> b) \<Longrightarrow> (b \<Longrightarrow> prod_inv as (length as) bs out0 (i + n) out') \<Longrightarrow> Q (b, out')) \<Longrightarrow>
   rspec u (mul_rows n i as bs out) Q"
proof (induction n arbitrary: i out)
  case 0
  then show ?case by (auto intro!: triple_return)
next
  case (Suc n)
  have len: "length out = length out0" using Suc.prems(1) by (simp add: prod_inv_def)
  obtain out' c where oc:
    "fold (\<lambda>j (product, carry). mac_step as (bs ! i) i j product carry) [0..<length as] (out, 0) = (out', c)"
    by fastforce
  then have "row_inv as (bs ! i) i out (length as) out' c"
    using Suc.prems len by (intro row_fold_inv) auto
  then have "prod_inv as (length as) bs out0 (Suc i) (out'[i + length as := c])"
    using Suc.prems by (intro prod_inv_step) auto
  then have rec: "rspec u (mul_rows n (Suc i) as bs (out'[i + length as := c])) Q"
    using Suc.prems by (intro Suc.IH) auto
  have stop: "Q (False, out)" if "\<not> u" using that by (intro Suc.prems(4)) auto
  show ?case
    unfolding mul_rows.simps Let_def oc prod.case
    using rec stop by (auto intro!: wp)
qed

lemma mul_wp [wp]:
  assumes a: "bigint_wf a" and b: "bigint_wf b" and r: "storage_ok r"
    and Q: "\<And>st r'. outcome u (bsize a + bsize b \<le> BIGINT_MAX_LIMBS) st
              (bigint_wf r' \<and> bigint_val r' = bigint_val a * bigint_val b) (r' = r) \<Longrightarrow> Q (st, r')"
  shows "rspec u (bigint_mul r a b) Q"
proof -
  have bnd: "bsize a \<le> BIGINT_MAX_LIMBS" "bsize b \<le> BIGINT_MAX_LIMBS" using a b by (simp_all add: bigint_wfD)
  have oom: "Q (BIGINT_OUT_OF_MEMORY, r)" if "\<not> u" using that by (intro Q) simp
  have large: "Q (BIGINT_VALUE_TOO_LARGE, r)" if "\<not> bsize a + bsize b \<le> BIGINT_MAX_LIMBS"
    using that by (intro Q) simp
  have zero: "Q (BIGINT_OK, r\<lparr>limbs := [], is_negative := False\<rparr>)" if "bsize a = 0 \<or> bsize b = 0"
    using that r by (intro Q) (auto simp: bigint_val_def bigint_wf_def storage_ok_def)
  have fin: "Q (BIGINT_OK, bigint_normalize (r\<lparr>limbs := out, capacity := bsize a + bsize b,
                             is_negative := (is_negative a = (\<not> is_negative b))\<rparr>))"
    if "prod_inv (limbs a) (bsize a) (limbs b) (replicate (bsize a + bsize b) 0) (bsize b) out"
      "bsize a + bsize b \<le> BIGINT_MAX_LIMBS" for out
  proof -
    have "mag out = bigint_mag a * bigint_mag b" "length out = bsize a + bsize b"
      using that(1) by (auto simp: prod_inv_def add.commute)
    then show ?thesis
      using that(2) by (intro Q) (simp add: normalize_wf, auto simp: bigint_val_def)
  qed
  have add: "bigint_size_add (bsize a) (bsize b) = Some (bsize a + bsize b)"
    using max_limbs_add [OF bnd] by (intro bigint_size_add_Some) simp
  have result_bytes: "bsize a * 8 + bsize b * 8 \<le> SIZE_MAX" if "bsize a + bsize b \<le> BIGINT_MAX_LIMBS"
    using max_limbs_bytes [OF that] by (simp add: add_mult_distrib)
  have inv0: "prod_inv (limbs a) (bsize a) (limbs b) (replicate (bsize a + bsize b) 0) 0 (replicate (bsize a + bsize b) 0)"
    by (intro prod_inv_0) simp
  show ?thesis
    unfolding bigint_mul_def Let_def add option.case
    by (intro triple_bind triple_if triple_return calloc_wp karatsuba_fits_wp zero mul_karatsuba_wp [OF _ _ a b r]
          mul_rows_wp [OF inv0] triple_case_pair)
      (auto simp: oom large bnd not_less result_bytes intro: fin Q)
qed

section \<open>The workspace variant\<close>

primrec frame_capacity :: "nat \<Rightarrow> nat \<Rightarrow> nat \<Rightarrow> nat option rt" where
  "frame_capacity 0 cap needed = out_of_fuel None"
| "frame_capacity (Suc fuel) cap needed =
    (if cap < needed
     then (case bigint_size_mul cap 2 of
             None \<Rightarrow> State_Monad.return None
           | Some cap \<Rightarrow> frame_capacity fuel cap needed)
     else State_Monad.return (Some cap))"

text \<open>The next size, the capacity of the frame in limbs and in bytes.\<close>

definition workspace_frame :: "nat \<Rightarrow> (nat \<times> nat \<times> nat) option rt" where
  "workspace_frame n = do {
     let next = n - n div 2 + 1;
     case bigint_size_mul next 4 of
       None \<Rightarrow> State_Monad.return None
     | Some needed \<Rightarrow> do {
         cap \<leftarrow> frame_capacity 64 32 needed;
         case cap of
           None \<Rightarrow> State_Monad.return None
         | Some cap \<Rightarrow>
             (case bigint_size_mul cap 8 of
                None \<Rightarrow> State_Monad.return None
              | Some bytes \<Rightarrow> State_Monad.return (Some (next, cap, bytes)))
       }
   }"

primrec workspace_plan_loop :: "nat \<Rightarrow> nat \<Rightarrow> nat \<Rightarrow> nat \<Rightarrow> nat \<Rightarrow> (nat \<times> nat) option rt" where
  "workspace_plan_loop 0 depth n planned largest = out_of_fuel None"
| "workspace_plan_loop (Suc fuel) depth n planned largest =
    (if n \<ge> 32
     then if depth \<ge> 64 then State_Monad.return None
          else do {
            f \<leftarrow> workspace_frame n;
            case f of
              None \<Rightarrow> State_Monad.return None
            | Some (next, cap, bytes) \<Rightarrow>
                (case bigint_size_mul bytes 2 of
                   None \<Rightarrow> State_Monad.return None
                 | Some requests \<Rightarrow>
                     (case bigint_size_add planned requests of
                        None \<Rightarrow> State_Monad.return None
                      | Some planned \<Rightarrow> workspace_plan_loop fuel (depth + 1) next planned
                          (if largest < bytes div 2 then bytes div 2 else largest)))
          }
     else State_Monad.return (Some (planned, largest)))"

definition bigint_multiplication_workspace_plan :: "nat \<Rightarrow> (nat \<times> nat) option rt" where
  "bigint_multiplication_workspace_plan n = workspace_plan_loop 65 0 n 0 0"

primrec prepare_loop :: "nat \<Rightarrow> nat \<Rightarrow> mul_workspace \<Rightarrow> nat \<Rightarrow> (BigIntStatus \<times> mul_workspace) rt" where
  "prepare_loop 0 depth workspace n = out_of_fuel (BIGINT_OK, workspace)"
| "prepare_loop (Suc fuel) depth workspace n =
    (if n \<ge> 32
     then if depth \<ge> 64 then State_Monad.return (BIGINT_VALUE_TOO_LARGE, workspace)
          else do {
            f \<leftarrow> workspace_frame n;
            case f of
              None \<Rightarrow> State_Monad.return (BIGINT_VALUE_TOO_LARGE, workspace)
            | Some (h, cap, bytes) \<Rightarrow>
                if ws_capacities workspace ! depth < cap
                then do {
                  let allocation = (if ws_split workspace then bytes div 2 else bytes);
                  granted \<leftarrow> numforge_realloc allocation;
                  if \<not> granted then State_Monad.return (BIGINT_OUT_OF_MEMORY, workspace)
                  else do {
                    granted \<leftarrow> (if ws_split workspace then numforge_realloc allocation
                               else State_Monad.return True);
                    if \<not> granted then State_Monad.return (BIGINT_OUT_OF_MEMORY, workspace)
                    else prepare_loop fuel (depth + 1)
                      (workspace\<lparr>ws_capacities := (ws_capacities workspace)[depth := cap]\<rparr>) h
                  }
                }
                else prepare_loop fuel (depth + 1) workspace h
          }
     else State_Monad.return (BIGINT_OK, workspace))"

definition prepare_workspace :: "mul_workspace \<Rightarrow> nat \<Rightarrow> (BigIntStatus \<times> mul_workspace) rt" where
  "prepare_workspace workspace n = prepare_loop 65 0 workspace n"

definition bigint_multiplication_workspace_free :: "mul_workspace \<Rightarrow> mul_workspace" where
  "bigint_multiplication_workspace_free workspace = workspace\<lparr>ws_capacities := replicate 64 0\<rparr>"

definition bigint_mul_workspace ::
  "BigInt \<Rightarrow> BigInt \<Rightarrow> BigInt \<Rightarrow> mul_workspace \<Rightarrow> (BigIntStatus \<times> BigInt \<times> mul_workspace) rt" where
  "bigint_mul_workspace out a b workspace = do {
     let larger = (if bsize a > bsize b then bsize a else bsize b);
     let smaller = (if bsize a < bsize b then bsize a else bsize b);
     if smaller < 128 \<or> smaller \<le> larger div 2 then do {
       (status, out) \<leftarrow> bigint_mul out a b;
       State_Monad.return (status, out, workspace)
     }
     else do {
       go \<leftarrow> numforge_budget_check;
       if \<not> go then State_Monad.return (BIGINT_OUT_OF_MEMORY, out, workspace)
       else case bigint_size_add (bsize a) (bsize b) of
         None \<Rightarrow> State_Monad.return (BIGINT_VALUE_TOO_LARGE, out, workspace)
       | Some len \<Rightarrow>
         if len > BIGINT_MAX_LIMBS then State_Monad.return (BIGINT_VALUE_TOO_LARGE, out, workspace)
         else do {
           (status, workspace) \<leftarrow> prepare_workspace workspace larger;
           if status \<noteq> BIGINT_OK then State_Monad.return (status, out, workspace)
           else do {
             granted \<leftarrow> numforge_calloc len 8;
             if \<not> granted then State_Monad.return (BIGINT_OUT_OF_MEMORY, out, workspace)
             else do {
               p \<leftarrow> multiply (larger + 1) (limbs a) (limbs b) 32 0 (Some workspace) 0;
               (status, out) \<leftarrow> publish_product out a b len p;
               State_Monad.return (status, out, workspace)
             }
           }
         }
     }
   }"

lemma frame_capacity_wp:
  "needed \<le> cap * 2 ^ f \<Longrightarrow> 2 * needed \<le> SIZE_MAX \<Longrightarrow>
   (\<And>c. needed \<le> c \<Longrightarrow> c \<le> max cap (2 * needed) \<Longrightarrow> Q (Some c)) \<Longrightarrow>
   rspec u (frame_capacity (Suc f) cap needed) Q"
proof (induction f arbitrary: cap)
  case 0
  then show ?case by (auto intro!: triple_return)
next
  case (Suc f)
  show ?case
  proof (cases "cap < needed")
    case True
    have "rspec u (frame_capacity (Suc f) (cap * 2) needed) Q"
      using Suc.prems True by (intro Suc.IH) (auto simp: mult.assoc)
    with True Suc.prems(2) show ?thesis by simp
  next
    case False
    then show ?thesis using Suc.prems(3) [of cap] by (auto intro!: triple_return)
  qed
qed

lemma workspace_frame_wp [wp]:
  assumes n: "n \<le> BIGINT_MAX_LIMBS" "4 \<le> n"
    and Q: "\<And>c. 4 * half_up n \<le> c \<Longrightarrow> c \<le> max 32 (8 * half_up n) \<Longrightarrow> Q (Some (half_up n, c, c * 8))"
  shows "rspec u (workspace_frame n) Q"
proof -
  have h: "n - n div 2 + 1 = half_up n" by (simp add: half_up_def)
  have "4 * half_up n \<le> 32 * 2 ^ 63"
    using half_up_le [of n] n(1) max_limbs_2_64 by simp
  moreover have big: "1024 \<le> SIZE_MAX" by (simp add: SIZE_MAX_def)
  moreover have "2 * (4 * half_up n) \<le> SIZE_MAX" "64 * half_up n \<le> SIZE_MAX"
    using half_up_le [of n] n max_limbs_8 [OF n(1)] big by linarith+
  ultimately have fc: "rspec u (frame_capacity 64 32 (half_up n * 4)) R"
    and bytes: "\<And>c. c \<le> max 32 (8 * half_up n) \<Longrightarrow> c * 8 \<le> SIZE_MAX"
    and four: "half_up n * 4 \<le> SIZE_MAX"
    if "\<And>c. 4 * half_up n \<le> c \<Longrightarrow> c \<le> max 32 (8 * half_up n) \<Longrightarrow> R (Some c)" for R
    using frame_capacity_wp [of "4 * half_up n" 32 63 R] that by (auto simp: mult.commute)
  show ?thesis
    unfolding workspace_frame_def Let_def h
    by (auto intro!: triple_bind triple_return fc Q simp: four bytes)
qed

lemma workspace_plan_loop_wp:
  "n \<le> 2 ^ (64 - depth) + 3 \<Longrightarrow> n \<le> BIGINT_MAX_LIMBS \<Longrightarrow> depth \<le> 64 \<Longrightarrow> fuel = 65 - depth \<Longrightarrow>
   (\<And>r. Q r) \<Longrightarrow> rspec u (workspace_plan_loop fuel depth n planned largest) Q"
proof (induction fuel arbitrary: depth n planned largest)
  case 0
  then show ?case by simp
next
  case (Suc fuel)
  have lt: "depth < 64" if "32 \<le> n"
  proof (rule ccontr)
    assume "\<not> depth < 64"
    with Suc.prems(1,3) have "n \<le> 4" by (cases "depth = 64") auto
    with that show False by simp
  qed
  have h: "half_up n \<le> 2 ^ (64 - Suc depth) + 3" "half_up n \<le> BIGINT_MAX_LIMBS" if "32 \<le> n"
  proof -
    have "64 - depth = Suc (64 - Suc depth)" using lt [OF that] by simp
    then show "half_up n \<le> 2 ^ (64 - Suc depth) + 3"
      using half_up_fuel [of n "64 - Suc depth"] Suc.prems(1) by simp
    show "half_up n \<le> BIGINT_MAX_LIMBS" using half_up_le [of n] that Suc.prems(2) by linarith
  qed
  have rec: "rspec u (workspace_plan_loop fuel (Suc depth) (half_up n) p l) Q" if "32 \<le> n" for p l
    using h [OF that] lt [OF that] Suc.prems(4,5) by (intro Suc.IH) auto
  show ?case
    using Suc.prems(2) by (auto intro!: wp rec Suc.prems(5) simp del: max.bounded_iff)
qed

lemma workspace_plan_wp [wp]:
  assumes "n \<le> BIGINT_MAX_LIMBS" and Q: "\<And>r. Q r"
  shows "rspec u (bigint_multiplication_workspace_plan n) Q"
  unfolding bigint_multiplication_workspace_plan_def
  using assms max_limbs_2_64 by (intro workspace_plan_loop_wp) auto

definition ws_wf :: "mul_workspace \<Rightarrow> bool" where
  "ws_wf w \<longleftrightarrow> length (ws_capacities w) = 64"

definition ws_grown :: "mul_workspace \<Rightarrow> mul_workspace \<Rightarrow> bool" where
  "ws_grown w w' \<longleftrightarrow> ws_split w' = ws_split w \<and> length (ws_capacities w') = length (ws_capacities w) \<and>
     (\<forall>i < length (ws_capacities w). ws_capacities w ! i \<le> ws_capacities w' ! i)"

lemma ws_grown_refl [simp]: "ws_grown w w"
  by (simp add: ws_grown_def)

lemma ws_grown_trans: "ws_grown w w' \<Longrightarrow> ws_grown w' w'' \<Longrightarrow> ws_grown w w''"
  by (auto simp: ws_grown_def intro: order_trans)

lemma ws_grown_wf: "ws_grown w w' \<Longrightarrow> ws_wf w \<Longrightarrow> ws_wf w'"
  by (simp add: ws_grown_def ws_wf_def)

lemma ws_grown_update:
  "ws_capacities w ! d \<le> c \<Longrightarrow> ws_grown w (w\<lparr>ws_capacities := (ws_capacities w)[d := c]\<rparr>)"
  by (cases "d < length (ws_capacities w)") (auto simp: ws_grown_def nth_list_update)

lemma prepare_loop_wp:
  "n \<le> 2 ^ (64 - depth) + 3 \<Longrightarrow> n \<le> BIGINT_MAX_LIMBS \<Longrightarrow> depth \<le> 64 \<Longrightarrow> fuel = 65 - depth \<Longrightarrow> ws_wf w \<Longrightarrow>
   (\<And>st w'. outcome u True st (ws_grown w w' \<and> (\<forall>a. room 32 (Some w') n a depth)) (ws_grown w w') \<Longrightarrow>
      Q (st, w')) \<Longrightarrow>
   rspec u (prepare_loop fuel depth w n) Q"
proof (induction fuel arbitrary: depth n w)
  case 0
  then show ?case by simp
next
  case (Suc fuel)
  have lt: "depth < 64" if "32 \<le> n"
  proof (rule ccontr)
    assume "\<not> depth < 64"
    with Suc.prems(1,3) have "n \<le> 4" by (cases "depth = 64") auto
    with that show False by simp
  qed
  have h: "half_up n \<le> 2 ^ (64 - Suc depth) + 3" "half_up n \<le> BIGINT_MAX_LIMBS" if "32 \<le> n"
  proof -
    have "64 - depth = Suc (64 - Suc depth)" using lt [OF that] by simp
    then show "half_up n \<le> 2 ^ (64 - Suc depth) + 3"
      using half_up_fuel [of n "64 - Suc depth"] Suc.prems(1) by simp
    show "half_up n \<le> BIGINT_MAX_LIMBS" using half_up_le [of n] that Suc.prems(2) by linarith
  qed
  have oom: "Q (BIGINT_OUT_OF_MEMORY, w)" if "\<not> u" using that by (intro Suc.prems(6)) simp
  have leaf: "Q (BIGINT_OK, w)" if "\<not> 32 \<le> n"
    using that by (intro Suc.prems(6)) (auto intro: room_leaf)
  have rec: "rspec u (prepare_loop fuel (Suc depth) w1 (half_up n)) Q"
    if n: "32 \<le> n" and g: "ws_grown w w1" and c: "4 * half_up n \<le> ws_capacities w1 ! depth" for w1
  proof (rule Suc.IH)
    show "ws_wf w1" using g Suc.prems(5) by (rule ws_grown_wf)
    fix st w'
    assume o: "outcome u True st (ws_grown w1 w' \<and> (\<forall>a. room 32 (Some w') (half_up n) a (Suc depth))) (ws_grown w1 w')"
    have "room 32 (Some w') n a depth"
      if g': "ws_grown w1 w'" and r: "\<And>a. room 32 (Some w') (half_up n) a (Suc depth)" for a
    proof (rule room_frames [OF refl lt [OF n]])
      have "ws_capacities w1 ! depth \<le> ws_capacities w' ! depth"
        using g' g Suc.prems(5) lt [OF n] by (auto simp: ws_grown_def ws_wf_def)
      with c show "4 * half_up n \<le> ws_capacities w' ! depth" by linarith
    qed (rule r)
    then show "Q (st, w')"
      by (intro Suc.prems(6) outcome_mono [OF o]) (use g ws_grown_trans in blast)+
  qed (use h [OF n] lt [OF n] Suc.prems(4) in auto)
  have grow: "rspec u (prepare_loop fuel (Suc depth) (w\<lparr>ws_capacities := (ws_capacities w)[depth := c]\<rparr>) (half_up n)) Q"
    if "32 \<le> n" "ws_capacities w ! depth < c" "4 * half_up n \<le> c" for c
    using that lt [OF that(1)] Suc.prems(5) by (intro rec ws_grown_update) (auto simp: ws_wf_def)
  have keep: "rspec u (prepare_loop fuel (Suc depth) w (half_up n)) Q"
    if "32 \<le> n" "\<not> ws_capacities w ! depth < c" "4 * half_up n \<le> c" for c
    using that by (intro rec) auto
  show ?case
    using oom leaf grow keep lt Suc.prems(2) by (auto intro!: wp simp: Let_def)
qed

lemma prepare_workspace_wp [wp]:
  assumes "n \<le> BIGINT_MAX_LIMBS" "ws_wf w"
    and "\<And>st w'. outcome u True st (ws_grown w w' \<and> (\<forall>a. room 32 (Some w') n a 0)) (ws_grown w w') \<Longrightarrow> Q (st, w')"
  shows "rspec u (prepare_workspace w n) Q"
  unfolding prepare_workspace_def
  using assms max_limbs_2_64 by (intro prepare_loop_wp) auto

lemma mul_workspace_wp [wp]:
  assumes a: "bigint_wf a" and b: "bigint_wf b" and r: "storage_ok r" and w: "ws_wf w"
    and Q: "\<And>st r' w'. outcome u (bsize a + bsize b \<le> BIGINT_MAX_LIMBS) st
              (bigint_wf r' \<and> bigint_val r' = bigint_val a * bigint_val b) (r' = r) \<Longrightarrow>
              ws_grown w w' \<Longrightarrow> Q (st, r', w')"
  shows "rspec u (bigint_mul_workspace r a b w) Q"
proof -
  let ?n = "max (bsize a) (bsize b)"
  let ?fits = "bsize a + bsize b \<le> BIGINT_MAX_LIMBS"
  have mx: "(if bsize a > bsize b then bsize a else bsize b) = ?n" by simp
  have n: "?n \<le> BIGINT_MAX_LIMBS" using a b by (simp add: bigint_wfD)
  have fail: "Q (st, r, w')" if "outcome u True st G B" "st \<noteq> BIGINT_OK" "ws_grown w w'" for st G B w'
    using that by (intro Q) (auto elim: resource_failure_weaken)
  have oom: "Q (BIGINT_OUT_OF_MEMORY, r, w')" if "\<not> u" "ws_grown w w'" for w' using that by (intro Q) simp_all
  have large: "Q (BIGINT_VALUE_TOO_LARGE, r, w)" if "\<not> ?fits" using that by (intro Q) simp_all
  have add: "bigint_size_add (bsize a) (bsize b) = Some (bsize a + bsize b)"
    using max_limbs_add [of "bsize a" "bsize b"] n by (intro bigint_size_add_Some) simp
  have result_bytes: "bsize a * 8 + bsize b * 8 \<le> SIZE_MAX" if ?fits
    using max_limbs_bytes [OF that] by (simp add: add_mult_distrib)
  have mult: "rspec u (multiply (?n + 1) (limbs a) (limbs b) 32 0 (Some w') 0)
      (\<lambda>p. rspec u (do { (status, out) \<leftarrow> publish_product r a b (bsize a + bsize b) p;
                          State_Monad.return (status, out, w') }) Q)"
    if len: ?fits and g: "ws_grown w w'" and rm: "\<And>a. room 32 (Some w') ?n a 0" for w'
  proof (rule multiply_wp, simp, simp)
    fix st xs
    assume o: "outcome u (room 32 (Some w') ?n 0 0 \<or> mul_leaf 32 (limbs a) (limbs b)) st
       (length xs = bsize a + bsize b \<and> mag xs = bigint_mag a * bigint_mag b) True"
    have o: "outcome u ?fits st (length xs = bsize a + bsize b \<and> mag xs = bigint_mag a * bigint_mag b) True"
      by (rule outcome_mono [OF o]) (use rm in auto)
    show "rspec u (do { (status, out) \<leftarrow> publish_product r a b (bsize a + bsize b) (st, xs);
                        State_Monad.return (status, out, w') }) Q"
      by (rule triple_bind, rule publish_product_wp [OF o refl len], rule triple_case_pair,
          rule triple_return, rule Q [OF _ g])
  qed
  show ?thesis
    unfolding bigint_mul_workspace_def Let_def mx add option.case
    by (intro triple_if triple_bind [of _ "bigint_mul _ _ _"] mul_wp [OF a b r] triple_case_pair triple_return Q
          triple_bind [of _ numforge_budget_check] budget_check_wp
          triple_bind [of _ "prepare_workspace _ _"] prepare_workspace_wp [OF n w]
          triple_bind [of _ "numforge_calloc _ _"] calloc_wp triple_bind [of _ "multiply _ _ _ _ _ _ _"] mult)
      (auto simp: not_less result_bytes intro: oom large fail)
qed

section \<open>Properties\<close>

text \<open>C34: Karatsuba multiplication agrees with the product for every recursion threshold.
  \<open>bigint_mul_karatsuba\<close> with any threshold from 8 to 1024 returns the exact product, with
  scratch space that never runs out when the product fits; any other threshold is
  rejected.\<close>

theorem bigint_mul_karatsuba_correct:
  assumes "\<not> stuck s" "storage_ok r" "bigint_wf a" "bigint_wf b"
  shows "case run_state (bigint_mul_karatsuba r a b t) s of ((st, r'), s') \<Rightarrow> \<not> stuck s' \<and>
    (if t < 8 \<or> 1024 < t then st = BIGINT_INVALID_ARGUMENT \<and> r' = r
     else outcome (unlimited s) (bsize a + bsize b \<le> BIGINT_MAX_LIMBS) st
       (bigint_wf r' \<and> bigint_val r' = bigint_val a * bigint_val b) (r' = r))"
proof (rule rspec_run2 [OF _ assms(1)])
  show "rspec (unlimited s) (bigint_mul_karatsuba r a b t) (\<lambda>(st, r').
    if t < 8 \<or> 1024 < t then st = BIGINT_INVALID_ARGUMENT \<and> r' = r
    else outcome (unlimited s) (bsize a + bsize b \<le> BIGINT_MAX_LIMBS) st
       (bigint_wf r' \<and> bigint_val r' = bigint_val a * bigint_val b) (r' = r))"
  proof (cases "t < 8 \<or> 1024 < t")
    case True
    then show ?thesis by (simp add: bigint_mul_karatsuba_def triple_return)
  next
    case False
    then show ?thesis using assms(2-4) by (intro mul_karatsuba_wp) auto
  qed
qed

theorem bigint_mul_karatsuba_correct_witness:
  "case run_state (bigint_mul_karatsuba bigint_init (bigint_wrap_uint64 6) (bigint_wrap_uint64 7) 8) idle_runtime of
     ((st, r'), s') \<Rightarrow> st = BIGINT_OK \<and> bigint_val r' = 42"
proof -
  have "bsize (bigint_wrap_uint64 6) + bsize (bigint_wrap_uint64 7) \<le> BIGINT_MAX_LIMBS"
    by (simp add: bigint_wrap_uint64_def BIGINT_MAX_LIMBS_def SIZE_MAX_def)
  then show ?thesis
    using bigint_mul_karatsuba_correct [of idle_runtime bigint_init "bigint_wrap_uint64 6" "bigint_wrap_uint64 7" 8]
    by (auto simp: bigint_wf_storage_ok outcome_def resource_failure_def split: prod.splits if_splits)
qed

end
