(* ===== verification/Limb_Shifts.thy ===== *)
theory Limb_Shifts
  imports BigInt_Core
begin

text \<open>
  Shifts of limb arrays by less than a limb: the two expressions that the sources use in
  every loop that moves bits across limbs, and the value of the array they produce. They
  serve the long division of \<^verbatim>\<open>bigint.c\<close> and the shifts of
  \<^verbatim>\<open>bitwise.c\<close>.
\<close>

unbundle bit_operations_syntax

section \<open>Single limbs\<close>

text \<open>\<^verbatim>\<open>shift == 0U ? 0U : x >> (64U - shift)\<close>: the bits that a left shift
  moves out of the limb.\<close>

definition shifted_out :: "nat \<Rightarrow> u64 \<Rightarrow> u64" where
  "shifted_out shift x = (if shift = 0 then 0 else drop_bit (64 - shift) x)"

lemma LB_split: "s \<le> 64 \<Longrightarrow> 2 ^ s * 2 ^ (64 - s) = LB"
  by (simp add: LB_def flip: power_add)

lemma unat_drop_bit: "unat (drop_bit k (x :: u64)) = unat x div 2 ^ k"
proof -
  have "unat (drop_bit k x) = drop_bit k (unat x)"
    by (rule bit_eqI) (auto simp: bit_unsigned_iff bit_drop_bit_eq dest: bit_imp_le_length)
  then show ?thesis by (simp only: drop_bit_eq_div)
qed

lemma unat_push_bit: "unat (push_bit k (x :: u64)) = (unat x * 2 ^ k) mod LB"
proof (cases "k < 64")
  case True
  then have "unat (push_bit k x) = take_bit 64 (push_bit k (unat x))"
    by (simp add: unsigned_push_bit_eq)
  then show ?thesis by (simp add: take_bit_eq_mod push_bit_eq_mult LB_def)
next
  case False
  then have "LB dvd 2 ^ k" unfolding LB_def by (intro le_imp_power_dvd) simp
  moreover have "push_bit k x = 0"
    using False by (intro bit_eqI) (auto simp: bit_push_bit_iff dest: bit_imp_le_length)
  ultimately show ?thesis by (simp add: mod_mult_right_eq dvd_imp_mod_0 mod_eq_0_iff_dvd)
qed

lemma shifted_out_less: "s < 64 \<Longrightarrow> unat (shifted_out s x) < 2 ^ s"
proof (cases "s = 0")
  case False
  assume "s < 64"
  then have "unat x < 2 ^ s * 2 ^ (64 - s)" by (simp add: LB_split)
  then show ?thesis
    using False by (simp add: shifted_out_def unat_drop_bit less_mult_imp_div_less)
qed (simp add: shifted_out_def)

lemma shift_limb:
  assumes "s < 64" "unat c < 2 ^ s"
  shows "unat (push_bit s x OR c) + LB * unat (shifted_out s x) = unat x * 2 ^ s + unat (c :: u64)"
proof -
  have "push_bit s x OR c = push_bit s x + c"
  proof (rule disjunctive_add [symmetric])
    fix k
    show "\<not> bit (push_bit s x) k \<or> \<not> bit c k"
    proof (cases "k < s")
      case False
      then have "unat c < 2 ^ k"
        using assms(2) power_increasing [of s k "2 :: nat"] by linarith
      then have "\<not> bit (unat c) k" by (simp add: bit_iff_odd)
      then have "\<not> bit c k" using bit_imp_le_length [of c k] by (auto simp: bit_unsigned_iff)
      then show ?thesis ..
    qed (simp add: bit_push_bit_iff)
  qed
  moreover have split: "unat x * 2 ^ s = (unat x * 2 ^ s) mod LB + LB * unat (shifted_out s x)"
  proof (cases "s = 0")
    case False
    have "(unat x * 2 ^ s) div LB = unat x div 2 ^ (64 - s)"
      unfolding LB_split [of s, symmetric, OF less_imp_le [OF assms(1)]]
      by (simp add: mult.commute [of "unat x"])
    then show ?thesis
      using False mult_div_mod_eq [of LB "unat x * 2 ^ s"]
      by (simp add: shifted_out_def unat_drop_bit)
  qed (simp add: shifted_out_def)
  moreover have "(unat x * 2 ^ s) mod LB + unat c < LB"
  proof -
    have "(unat x * 2 ^ s) mod LB = 2 ^ s * (unat x mod 2 ^ (64 - s))"
      unfolding LB_split [of s, symmetric, OF less_imp_le [OF assms(1)]]
      by (simp add: mult.commute [of "unat x"] flip: mult_mod_right)
    moreover have "2 ^ s * (unat x mod 2 ^ (64 - s)) + unat c < 2 ^ s * Suc (unat x mod 2 ^ (64 - s))"
      using assms(2) by simp
    moreover have "2 ^ s * Suc (unat x mod 2 ^ (64 - s)) \<le> 2 ^ s * 2 ^ (64 - s)"
      by (intro mult_le_mono2) (simp add: Suc_le_eq)
    ultimately show ?thesis using LB_split [of s] assms(1) by linarith
  qed
  ultimately show ?thesis by (simp add: unat_add_exact unat_push_bit)
qed

text \<open>\<^verbatim>\<open>(x >> shift) | (y << (64 - shift))\<close>, for a shift of zero just
  \<^verbatim>\<open>x\<close>.\<close>

definition shift_down :: "nat \<Rightarrow> u64 \<Rightarrow> u64 \<Rightarrow> u64" where
  "shift_down shift x y = (if shift = 0 then x else drop_bit shift x OR push_bit (64 - shift) y)"

lemma shift_down_limb:
  assumes "s < 64"
  shows "2 ^ s * unat (shift_down s x y) + unat x mod 2 ^ s = unat x + LB * (unat y mod 2 ^ s)"
proof (cases "s = 0")
  case False
  have disj: "drop_bit s x OR push_bit (64 - s) y = drop_bit s x + push_bit (64 - s) y"
    by (rule disjunctive_add [symmetric])
      (auto simp: bit_push_bit_iff bit_drop_bit_eq dest: bit_imp_le_length)
  have push: "unat (push_bit (64 - s) y) = 2 ^ (64 - s) * (unat y mod 2 ^ s)"
    unfolding unat_push_bit LB_split [of s, symmetric, OF less_imp_le [OF assms]]
    by (simp only: mult_mod_right mult.commute [of "unat y"] mult.commute [of "2 ^ s"])
  have "unat x div 2 ^ s < 2 ^ (64 - s)"
    using LB_split [of s] assms by (intro less_mult_imp_div_less) (simp add: mult.commute)
  moreover have "2 ^ (64 - s) * Suc (unat y mod 2 ^ s) \<le> 2 ^ (64 - s) * 2 ^ s"
    by (intro mult_le_mono2) (simp add: Suc_le_eq)
  ultimately have "unat x div 2 ^ s + 2 ^ (64 - s) * (unat y mod 2 ^ s) < LB"
    using LB_split [of s] assms by (simp add: mult.commute)
  then have "unat (shift_down s x y) = unat x div 2 ^ s + 2 ^ (64 - s) * (unat y mod 2 ^ s)"
    using False disj push by (simp add: shift_down_def unat_add_exact unat_drop_bit)
  then have "2 ^ s * unat (shift_down s x y) = 2 ^ s * (unat x div 2 ^ s) + LB * (unat y mod 2 ^ s)"
    using LB_split [of s] assms by (simp add: algebra_simps)
  then show ?thesis using mult_div_mod_eq [of "2 ^ s" "unat x"] by linarith
qed (simp add: shift_down_def)

end
