(* ===== verification/BigInt_Division.thy ===== *)
theory BigInt_Division
  imports Limb_Shifts
begin

text \<open>
  Division of magnitudes: \<^verbatim>\<open>bigint_divmod_abs_core\<close> of
  \<^verbatim>\<open>src/core/bigint/bigint.c\<close>, long division in radix \<open>2^64\<close>
  (Algorithm D) with its one-limb case, its owned workspace and the variant without a
  quotient.

  The loops over limbs become recursions over the array they write; a loop that the
  budget can cancel returns a flag. The two C assertions and the partial operations are
  \<open>c_assert\<close>s of the model, so the rules below show that they never fail.
\<close>

unbundle bit_operations_syntax

section \<open>Definitions\<close>

text \<open>\<^verbatim>\<open>for (top = ...; (top >> 63) == 0; top <<= 1) shift++\<close>\<close>

primrec normalizing_shift :: "nat \<Rightarrow> u64 \<Rightarrow> nat \<Rightarrow> nat rt" where
  "normalizing_shift 0 t shift = out_of_fuel shift"
| "normalizing_shift (Suc fuel) t shift =
    (if drop_bit 63 t = 0 then normalizing_shift fuel (push_bit 1 t) (shift + 1)
     else State_Monad.return shift)"

primrec shift_in_loop :: "nat \<Rightarrow> nat \<Rightarrow> nat \<Rightarrow> u64 list \<Rightarrow> u64 list \<Rightarrow> u64 \<Rightarrow> (bool \<times> u64 list \<times> u64) rt" where
  "shift_in_loop 0 i shift xs out carry = State_Monad.return (True, out, carry)"
| "shift_in_loop (Suc n) i shift xs out carry = do {
     go \<leftarrow> budget_every_256 i;
     if \<not> go then State_Monad.return (False, out, carry)
     else shift_in_loop n (Suc i) shift xs (out @ [push_bit shift (xs ! i) OR carry])
            (shifted_out shift (xs ! i))
   }"

text \<open>The correction loop for an estimated quotient digit, at most two corrections.\<close>

primrec correct_estimate :: "nat \<Rightarrow> u64 \<Rightarrow> u64 \<Rightarrow> bool \<Rightarrow> u64 \<Rightarrow> u64 \<Rightarrow> u64 \<Rightarrow> u64 rt" where
  "correct_estimate 0 estimate rest rest_overflow v1 v2 u2 = out_of_fuel estimate"
| "correct_estimate (Suc fuel) estimate rest rest_overflow v1 v2 u2 =
    (if rest_overflow then State_Monad.return estimate
     else let (ph, pl) = bigint_multiply_u64_u64 estimate v2
          in if ph < rest \<or> (ph = rest \<and> pl \<le> u2) then State_Monad.return estimate
             else let estimate = estimate - 1;
                      old_rest = rest;
                      rest = rest + v1
                  in correct_estimate fuel estimate rest (rest < old_rest) v1 v2 u2)"

definition estimate_digit :: "u64 \<Rightarrow> u64 \<Rightarrow> u64 \<Rightarrow> u64 \<Rightarrow> u64 \<Rightarrow> u64 rt" where
  "estimate_digit high low u2 v1 v2 = do {
     c_assert (high \<le> v1);
     (estimate, rest, rest_overflow) \<leftarrow>
       (if high = v1 then State_Monad.return (UINT64_MAX, low + v1, low + v1 < low)
        else do {
          (estimate, rest) \<leftarrow> bigint_divide_128_by_u64 high low v1;
          State_Monad.return (estimate, rest, False)
        });
     correct_estimate 3 estimate rest rest_overflow v1 v2 u2
   }"

primrec multiply_subtract :: "nat \<Rightarrow> nat \<Rightarrow> nat \<Rightarrow> u64 \<Rightarrow> u64 list \<Rightarrow> u64 list \<Rightarrow> u64 \<Rightarrow> u64 \<Rightarrow>
    (bool \<times> u64 list \<times> u64 \<times> u64) rt" where
  "multiply_subtract 0 i j estimate v u carry borrow = State_Monad.return (True, u, carry, borrow)"
| "multiply_subtract (Suc n) i j estimate v u carry borrow = do {
     go \<leftarrow> budget_every_256 i;
     if \<not> go then State_Monad.return (False, u, carry, borrow)
     else let (ph, pl) = bigint_multiply_u64_u64 estimate (v ! i);
              old_pl = pl;
              pl = pl + carry;
              carry = ph + of_bool (pl < old_pl);
              original = u ! (j + i);
              difference = original - pl
          in multiply_subtract n (Suc i) j estimate v (u[j + i := difference - borrow]) carry
               (of_bool (original < pl \<or> difference < borrow))
   }"

primrec add_back :: "nat \<Rightarrow> nat \<Rightarrow> nat \<Rightarrow> u64 list \<Rightarrow> u64 list \<Rightarrow> u64 \<Rightarrow> (bool \<times> u64 list \<times> u64) rt" where
  "add_back 0 i j v u carry = State_Monad.return (True, u, carry)"
| "add_back (Suc n) i j v u carry = do {
     go \<leftarrow> budget_every_256 i;
     if \<not> go then State_Monad.return (False, u, carry)
     else let s = u ! (j + i) + v ! i;
              first_carry = s < u ! (j + i);
              t = s + carry
          in add_back n (Suc i) j v (u[j + i := t]) (of_bool (first_carry \<or> t < s))
   }"

text \<open>One digit: the body of the loop over \<^verbatim>\<open>position = j + 1\<close>.\<close>

definition division_digit :: "nat \<Rightarrow> u64 list \<Rightarrow> nat \<Rightarrow> u64 list \<Rightarrow> (bool \<times> u64 \<times> u64 list) rt" where
  "division_digit n v j u = do {
     go \<leftarrow> numforge_budget_check;
     if \<not> go then State_Monad.return (False, 0, u)
     else do {
       estimate \<leftarrow> estimate_digit (u ! (j + n)) (u ! (j + n - 1)) (u ! (j + n - 2)) (v ! (n - 1)) (v ! (n - 2));
       (finished, u, carry, borrow) \<leftarrow> multiply_subtract n 0 j estimate v u 0 0;
       if \<not> finished then State_Monad.return (False, estimate, u)
       else let original = u ! (j + n);
                difference = original - carry;
                negative = (original < carry \<or> difference < borrow);
                u = u[j + n := difference - borrow]
            in if negative then do {
                 (finished, u, carry) \<leftarrow> add_back n 0 j v u 0;
                 if \<not> finished then State_Monad.return (False, estimate, u)
                 else State_Monad.return (True, estimate - 1, u[j + n := u ! (j + n) + carry])
               }
               else State_Monad.return (True, estimate, u)
     }
   }"

primrec long_division :: "nat \<Rightarrow> nat \<Rightarrow> u64 list \<Rightarrow> u64 list \<Rightarrow> u64 list \<Rightarrow> (bool \<times> u64 list \<times> u64 list) rt" where
  "long_division 0 n v u digits = State_Monad.return (True, u, digits)"
| "long_division (Suc j) n v u digits = do {
     (finished, digit, u) \<leftarrow> division_digit n v j u;
     if \<not> finished then State_Monad.return (False, u, digits)
     else long_division j n v u (digit # digits)
   }"

primrec shift_out_loop :: "nat \<Rightarrow> nat \<Rightarrow> nat \<Rightarrow> u64 list \<Rightarrow> u64 list \<Rightarrow> (bool \<times> u64 list) rt" where
  "shift_out_loop 0 i shift u out = State_Monad.return (True, out)"
| "shift_out_loop (Suc n) i shift u out = do {
     go \<leftarrow> budget_every_256 i;
     if \<not> go then State_Monad.return (False, out)
     else shift_out_loop n (Suc i) shift u (out @ [shift_down shift (u ! i) (u ! (i + 1))])
   }"

section \<open>The normalizing shift\<close>

lemma drop_bit_63_0_iff: "drop_bit 63 (t :: u64) = 0 \<longleftrightarrow> 2 * unat t < LB"
proof -
  have "drop_bit 63 t = 0 \<longleftrightarrow> unat (drop_bit 63 t) = 0" by (simp add: unat_eq_0_iff)
  also have "\<dots> \<longleftrightarrow> unat t < 2 ^ 63" unfolding unat_drop_bit by (simp add: div_eq_0_iff)
  finally show ?thesis by (simp add: LB_def)
qed

lemma normalizing_shift_wp:
  "unat t * 2 ^ fuel \<ge> LB \<Longrightarrow>
   (\<And>s. s < shift + fuel \<Longrightarrow> shift \<le> s \<Longrightarrow> LB \<le> 2 * (unat t * 2 ^ (s - shift)) \<Longrightarrow> unat t * 2 ^ (s - shift) < LB \<Longrightarrow> Q s) \<Longrightarrow>
   rspec u (normalizing_shift fuel t shift) Q"
proof (induction fuel arbitrary: t shift)
  case 0
  then show ?case using unat_lt_LB [of t] by simp
next
  case (Suc fuel)
  show ?case
  proof (cases "drop_bit 63 t = 0")
    case True
    then have small: "2 * unat t < LB" by (simp add: drop_bit_63_0_iff)
    then have dbl: "unat (push_bit 1 t) = 2 * unat t"
      unfolding unat_push_bit by (simp add: mult.commute)
    have "rspec u (normalizing_shift fuel (push_bit 1 t) (shift + 1)) Q"
    proof (rule Suc.IH)
      show "LB \<le> unat (push_bit 1 t) * 2 ^ fuel" using Suc.prems(1) unfolding dbl by simp
      fix s
      assume s: "s < shift + 1 + fuel" "shift + 1 \<le> s" "LB \<le> 2 * (unat (push_bit 1 t) * 2 ^ (s - (shift + 1)))"
        "unat (push_bit 1 t) * 2 ^ (s - (shift + 1)) < LB"
      have "s - shift = Suc (s - (shift + 1))" using s(2) by simp
      then have "unat (push_bit 1 t) * 2 ^ (s - (shift + 1)) = unat t * 2 ^ (s - shift)" unfolding dbl by simp
      with s show "Q s" by (intro Suc.prems(2)) auto
    qed
    with True show ?thesis by simp
  next
    case False
    then have "Q shift" by (intro Suc.prems(2)) (auto simp: drop_bit_63_0_iff)
    with False show ?thesis by (auto intro!: triple_return)
  qed
qed

lemma shift_in_loop_wp:
  assumes s: "s < 64"
  shows "i + n \<le> length xs \<Longrightarrow> length out = i \<Longrightarrow> unat carry < 2 ^ s \<Longrightarrow>
   mag out + LB ^ i * unat carry = mag (take i xs) * 2 ^ s \<Longrightarrow>
   (\<And>b out c. (u \<longrightarrow> b) \<Longrightarrow> (b \<Longrightarrow> length out = i + n \<and> unat c < 2 ^ s \<and>
      mag out + LB ^ (i + n) * unat c = mag (take (i + n) xs) * 2 ^ s) \<Longrightarrow> Q (b, out, c)) \<Longrightarrow>
   rspec u (shift_in_loop n i s xs out carry) Q"
proof (induction n arbitrary: i out carry)
  case 0
  then show ?case by (auto intro!: triple_return)
next
  case (Suc n)
  let ?x = "xs ! i"
  have "LB ^ i * (unat (push_bit s ?x OR carry) + LB * unat (shifted_out s ?x))
      = LB ^ i * (unat ?x * 2 ^ s + unat carry)"
    unfolding shift_limb [OF s Suc.prems(3)] ..
  then have inv: "mag (out @ [push_bit s ?x OR carry]) + LB ^ Suc i * unat (shifted_out s ?x)
      = mag (take (Suc i) xs) * 2 ^ s"
    using Suc.prems(1,2,4) by (simp add: mag_take_Suc algebra_simps)
  have rec: "rspec u (shift_in_loop n (Suc i) s xs (out @ [push_bit s ?x OR carry]) (shifted_out s ?x)) Q"
    using Suc.prems(1,2,5) inv shifted_out_less [OF s] by (intro Suc.IH) auto
  have stop: "Q (False, out, carry)" if "\<not> u" using that by (intro Suc.prems(5)) auto
  show ?case
    unfolding shift_in_loop.simps using rec stop by (auto intro!: wp)
qed

lemma shift_out_loop_wp:
  assumes s: "s < 64"
  shows "i + n < length xs \<Longrightarrow> length out = i \<Longrightarrow>
   2 ^ s * mag out + mag (take 1 xs) mod 2 ^ s = mag (take i xs) + LB ^ i * (unat (xs ! i) mod 2 ^ s) \<Longrightarrow>
   (\<And>b out. (u \<longrightarrow> b) \<Longrightarrow> (b \<Longrightarrow> length out = i + n \<and>
      2 ^ s * mag out + mag (take 1 xs) mod 2 ^ s = mag (take (i + n) xs) + LB ^ (i + n) * (unat (xs ! (i + n)) mod 2 ^ s)) \<Longrightarrow> Q (b, out)) \<Longrightarrow>
   rspec u (shift_out_loop n i s xs out) Q"
proof (induction n arbitrary: i out)
  case 0
  then show ?case by (auto intro!: triple_return)
next
  case (Suc n)
  let ?d = "shift_down s (xs ! i) (xs ! (i + 1))"
  have "LB ^ i * (2 ^ s * unat ?d + unat (xs ! i) mod 2 ^ s)
      = LB ^ i * (unat (xs ! i) + LB * (unat (xs ! (i + 1)) mod 2 ^ s))"
    unfolding shift_down_limb [OF s] ..
  then have inv: "2 ^ s * mag (out @ [?d]) + mag (take 1 xs) mod 2 ^ s
      = mag (take (Suc i) xs) + LB ^ Suc i * (unat (xs ! Suc i) mod 2 ^ s)"
    using Suc.prems(1-3) by (simp add: mag_take_Suc algebra_simps)
  have rec: "rspec u (shift_out_loop n (Suc i) s xs (out @ [?d])) Q"
    using Suc.prems(1,2,4) inv by (intro Suc.IH) auto
  have stop: "Q (False, out)" if "\<not> u" using that by (intro Suc.prems(4)) auto
  show ?case
    unfolding shift_out_loop.simps using rec stop by (auto intro!: wp)
qed

section \<open>The estimate of a quotient digit\<close>

text \<open>
  The window and the divisor, split at their leading limbs:
  \<open>W = ((u0 B + u1) B + u2) P + ul\<close> and \<open>V = (v1 B + v2) P + vl\<close> with \<open>ul, vl < P\<close>. An
  estimate \<open>e\<close> with rest \<open>r\<close>, \<open>e v1 + r = u0 B + u1\<close>, is too large exactly when the test of
  the loop says so, up to one.
\<close>

lemma estimate_too_large:
  fixes B :: nat
  assumes W: "W = ((u0 * B + u1) * B + u2) * P + ul" "ul < P"
    and V: "V = (v1 * B + v2) * P + vl"
    and e: "e * v1 + r = u0 * B + u1" "B * r + u2 < e * v2"
  shows "W < e * V"
proof -
  have "(u0 * B + u1) * B + u2 + 1 \<le> e * (v1 * B + v2)"
  proof -
    have "(u0 * B + u1) * B + u2 = e * v1 * B + (B * r + u2)"
      unfolding e(1) [symmetric] by (simp add: algebra_simps)
    also have "\<dots> < e * v1 * B + e * v2" using e(2) by simp
    also have "\<dots> = e * (v1 * B + v2)" by (simp add: algebra_simps)
    finally show ?thesis by simp
  qed
  then have "((u0 * B + u1) * B + u2 + 1) * P \<le> e * (v1 * B + v2) * P" by (rule mult_le_mono1)
  moreover have "W < ((u0 * B + u1) * B + u2 + 1) * P" using W by simp
  moreover have "e * (v1 * B + v2) * P \<le> e * V" unfolding V by (simp add: algebra_simps)
  ultimately show ?thesis by linarith
qed

lemma estimate_close:
  fixes B :: nat
  assumes W: "W = ((u0 * B + u1) * B + u2) * P + ul"
    and V: "V = (v1 * B + v2) * P + vl" "vl < P" "0 < v1"
    and e: "e * v1 + r = u0 * B + u1" "e * v2 \<le> B * r + u2" "e < B"
  shows "e * V < W + V"
proof -
  have "e * (v1 * B + v2) \<le> (u0 * B + u1) * B + u2"
  proof -
    have "e * (v1 * B + v2) = e * v1 * B + e * v2" by (simp add: algebra_simps)
    also have "\<dots> \<le> e * v1 * B + (B * r + u2)" using e(2) by simp
    also have "\<dots> = (u0 * B + u1) * B + u2" unfolding e(1) [symmetric] by (simp add: algebra_simps)
    finally show ?thesis .
  qed
  then have "e * (v1 * B + v2) * P \<le> ((u0 * B + u1) * B + u2) * P" by (rule mult_le_mono1)
  then have "e * (v1 * B + v2) * P \<le> W" unfolding W by (rule trans_le_add1)
  moreover have "e * V = e * (v1 * B + v2) * P + e * vl" unfolding V(1) by (simp add: algebra_simps)
  moreover have "e * vl < V"
  proof -
    have "e * vl \<le> e * P" using V(2) by simp
    also have "\<dots> < B * P" using e(3) V(2) by simp
    also have "\<dots> \<le> v1 * (B * P)" using V(3) by (cases v1) auto
    also have "\<dots> \<le> V" unfolding V(1) by (simp add: algebra_simps)
    finally show ?thesis .
  qed
  ultimately show ?thesis by linarith
qed

lemma estimate_initial:
  fixes B :: nat
  assumes W: "W = ((u0 * B + u1) * B + u2) * P + ul" "ul < P" "u2 < B"
    and V: "V = (v1 * B + v2) * P + vl" and q: "q * V \<le> W"
  shows "q * v1 \<le> u0 * B + u1"
proof -
  have pos: "0 < B * P" using W(2,3) by simp
  have "q * v1 * (B * P) \<le> q * V" unfolding V by (simp add: algebra_simps)
  also note q
  also have "W < ((u0 * B + u1) * B + u2 + 1) * P" using W by simp
  also have "\<dots> \<le> ((u0 * B + u1 + 1) * B) * P" using W(3) by (intro mult_le_mono1) simp
  also have "\<dots> = (u0 * B + u1 + 1) * (B * P)" by (simp add: algebra_simps)
  finally have "q * v1 * (B * P) < (u0 * B + u1 + 1) * (B * P)" .
  then have "q * v1 < u0 * B + u1 + 1" using pos by (simp only: mult_less_cancel2)
  then show ?thesis by simp
qed

lemma unat_minus_1: "x \<noteq> 0 \<Longrightarrow> unat (x - 1 :: u64) = unat x - 1"
  using sub_borrow [of x 1] by (auto simp: word_less_1)

lemma rest_carry:
  "unat (r + v :: u64) + LB * of_bool (r + v < r) = unat r + unat v"
  by (rule add_carry)

lemma correct_estimate_wp:
  fixes v1 v2 u0 u1 u2 :: u64
  assumes W: "W = ((unat u0 * LB + unat u1) * LB + unat u2) * P + ul" "ul < P"
    and V: "V = (unat v1 * LB + unat v2) * P + vl" "vl < P" "0 < unat v1"
    and Q: "\<And>e. W div V \<le> unat e \<Longrightarrow> unat e \<le> W div V + 1 \<Longrightarrow> Q e"
  shows "0 < fuel \<Longrightarrow> LB \<le> unat r + LB * of_bool ovf + (fuel - 1) * unat v1 \<Longrightarrow>
     unat e * unat v1 + (unat r + LB * of_bool ovf) = unat u0 * LB + unat u1 \<Longrightarrow>
     W div V \<le> unat e \<Longrightarrow> rspec u (correct_estimate fuel e r ovf v1 v2 u2) Q"
proof (induction fuel arbitrary: e r ovf)
  case 0
  then show ?case by simp
next
  case (Suc fuel)
  have Vpos: "0 < V" using V by simp
  have close: "Q e" if "unat e * unat v2 \<le> LB * (unat r + LB * of_bool ovf) + unat u2"
  proof (rule Q)
    have "unat e * V < W + V"
      by (rule estimate_close [OF W(1) V Suc.prems(3) that unat_lt_LB])
    also have "W < (W div V) * V + V"
      using mod_less_divisor [OF Vpos, of W] div_mult_mod_eq [of W V] by linarith
    finally have "unat e * V < (W div V + 2) * V" by (simp add: algebra_simps)
    then have "unat e < W div V + 2" by (simp only: mult_less_cancel2)
    then show "unat e \<le> W div V + 1" by simp
  qed (rule Suc.prems(4))
  show ?case
  proof (cases ovf)
    case True
    have "unat e * unat v2 \<le> LB * LB" by (intro mult_le_mono less_imp_le) simp_all
    also have "\<dots> \<le> LB * (unat r + LB * of_bool ovf) + unat u2"
      using True by (simp add: algebra_simps)
    finally have "Q e" by (rule close)
    then show ?thesis using True by (auto intro!: triple_return)
  next
    case False
    obtain ph pl where p: "bigint_multiply_u64_u64 e v2 = (ph, pl)" by fastforce
    have pv: "unat ph * LB + unat pl = unat e * unat v2" by (rule multiply_u64_u64_exact [OF p])
    have test: "ph < r \<or> (ph = r \<and> pl \<le> u2) \<longleftrightarrow> unat e * unat v2 \<le> LB * unat r + unat u2"
    proof -
      have lex: "x * LB + y \<le> LB * x' + y' \<longleftrightarrow> x < x' \<or> (x = x' \<and> y \<le> y')" if "y < LB" "y' < LB" for x y x' y'
      proof -
        consider "x < x'" | "x = x'" | "x' < x" by linarith
        then show ?thesis
        proof cases
          case 1
          then have "LB * Suc x \<le> LB * x'" by (intro mult_le_mono2) simp
          then show ?thesis using 1 that by (simp add: algebra_simps)
        next
          case 3
          then have "LB * Suc x' \<le> LB * x" by (intro mult_le_mono2) simp
          then show ?thesis using 3 that by (simp add: algebra_simps)
        qed (simp add: mult.commute)
      qed
      show ?thesis
        unfolding pv [symmetric] lex [OF unat_lt_LB unat_lt_LB] word_less_nat_alt word_le_nat_alt
        by (auto simp: word_unat_eq_iff)
    qed
    show ?thesis
    proof (cases "ph < r \<or> (ph = r \<and> pl \<le> u2)")
      case True
      then have "Q e" using test False by (intro close) simp
      then show ?thesis using True False p by (auto intro!: triple_return)
    next
      case too: False
      have "W < unat e * V"
        by (rule estimate_too_large [OF W V(1), of "unat e" "unat r"])
          (use too test False Suc.prems(3) in auto)
      then have lt: "W div V < unat e" using Vpos by (simp add: less_mult_imp_div_less)
      then have e1: "unat (e - 1) = unat e - 1" by (intro unat_minus_1) auto
      have "rspec u (correct_estimate fuel (e - 1) (r + v1) (r + v1 < r) v1 v2 u2) Q"
      proof (rule Suc.IH)
        show fuel: "0 < fuel"
          using Suc.prems(2) False unat_lt_LB [of r] by (cases fuel) auto
        have "(Suc fuel - 1) * unat v1 = unat v1 + (fuel - 1) * unat v1" using fuel by (cases fuel) auto
        then show "LB \<le> unat (r + v1) + LB * of_bool (r + v1 < r) + (fuel - 1) * unat v1"
          unfolding rest_carry using Suc.prems(2) False by simp
        have "unat e = Suc (unat (e - 1))" using e1 lt by simp
        then show "unat (e - 1) * unat v1 + (unat (r + v1) + LB * of_bool (r + v1 < r)) = unat u0 * LB + unat u1"
          unfolding rest_carry using Suc.prems(3) False by simp
        show "W div V \<le> unat (e - 1)" using lt e1 by simp
      qed
      then show ?thesis using too False p by (auto simp: Let_def)
    qed
  qed
qed

lemma estimate_digit_wp:
  fixes v1 v2 u0 u1 u2 :: u64
  assumes W: "W = ((unat u0 * LB + unat u1) * LB + unat u2) * P + ul" "ul < P"
    and V: "V = (unat v1 * LB + unat v2) * P + vl" "vl < P" "LB \<le> 2 * unat v1"
    and WV: "W < LB * V"
    and Q: "\<And>e. W div V \<le> unat e \<Longrightarrow> unat e \<le> W div V + 1 \<Longrightarrow> Q e"
  shows "rspec u (estimate_digit u0 u1 u2 v1 v2) Q"
proof -
  have v1: "0 < unat v1" using V(3) LB_pos by linarith
  have Vpos: "0 < V" using V v1 by simp
  have qW: "(W div V) * V \<le> W" by simp
  have init: "(W div V) * unat v1 \<le> unat u0 * LB + unat u1"
    by (rule estimate_initial [OF W unat_lt_LB V(1) qW])
  have high: "u0 \<le> v1"
  proof -
    have "unat u0 * (LB * LB * P) \<le> W" unfolding W(1) by (simp add: algebra_simps)
    also note WV
    also have "LB * V < LB * ((unat v1 + 1) * (LB * P))"
    proof -
      have "unat v2 + 1 \<le> LB" by (simp add: Suc_le_eq)
      then have "(unat v2 + 1) * P \<le> LB * P" by (rule mult_le_mono1)
      then have "unat v2 * P + vl < LB * P" using V(2) by simp
      then have "V < (unat v1 + 1) * (LB * P)" unfolding V(1) by (simp add: algebra_simps)
      then show ?thesis by (rule mult_less_mono2) simp
    qed
    also have "\<dots> = (unat v1 + 1) * (LB * LB * P)" by (simp add: algebra_simps)
    finally have "unat u0 < unat v1 + 1" by (simp only: mult_less_cancel2)
    then show ?thesis by (simp add: word_le_nat_alt)
  qed
  have corr: "rspec u (correct_estimate 3 e r ovf v1 v2 u2) Q"
    if "unat e * unat v1 + (unat r + LB * of_bool ovf) = unat u0 * LB + unat u1" "W div V \<le> unat e" for e r ovf
    using that V(3) by (intro correct_estimate_wp [OF W V(1,2) v1 Q]) auto
  show ?thesis
  proof (cases "u0 = v1")
    case True
    have "rspec u (correct_estimate 3 UINT64_MAX (u1 + v1) (u1 + v1 < u1) v1 v2 u2) Q"
    proof (rule corr)
      have "LB = (LB - 1) + 1" using LB_pos by linarith
      then have "unat v1 * LB = (LB - 1) * unat v1 + unat v1"
        by (metis mult.commute mult_Suc_right Suc_eq_plus1 add.commute)
      then show "unat UINT64_MAX * unat v1 + (unat (u1 + v1) + LB * of_bool (u1 + v1 < u1)) = unat u0 * LB + unat u1"
        unfolding rest_carry True by simp
      have "W div V < LB" using WV by (simp add: less_mult_imp_div_less)
      then show "W div V \<le> unat UINT64_MAX" by simp
    qed
    then show ?thesis
      unfolding estimate_digit_def using True by (auto intro!: wp)
  next
    case False
    with high have lt: "u0 < v1" by simp
    show ?thesis
      unfolding estimate_digit_def
    proof (intro c_assert_wp triple_bind high, simp only: False if_False, intro divide_128_wp [OF lt] triple_bind triple_case_pair triple_return)
      fix e r :: u64
      assume er: "unat e * unat v1 + unat r = unat u0 * LB + unat u1" "r < v1"
      have "(W div V) * unat v1 < (unat e + 1) * unat v1"
        using init er by (simp add: word_less_nat_alt)
      then have "W div V < unat e + 1" by (simp only: mult_less_cancel2)
      then show "rspec u (correct_estimate 3 e r False v1 v2 u2) Q"
        using er by (intro corr) auto
    qed
  qed
qed

section \<open>One quotient digit\<close>

text \<open>The window of a digit is \<open>take (n + 1) (drop j u)\<close>. The loops rewrite its limbs
  \<open>j, ..., j + i - 1\<close> and leave the rest of the array alone.\<close>

definition window :: "nat \<Rightarrow> nat \<Rightarrow> u64 list \<Rightarrow> nat" where
  "window j i u = mag (take i (drop j u))"

definition same_outside :: "nat \<Rightarrow> nat \<Rightarrow> u64 list \<Rightarrow> u64 list \<Rightarrow> bool" where
  "same_outside j i u u' \<longleftrightarrow> length u' = length u \<and> take j u' = take j u \<and> drop (j + i) u' = drop (j + i) u"

lemma same_outside_refl [simp]: "same_outside j i u u"
  by (simp add: same_outside_def)

lemma window_Suc: "j + i < length u \<Longrightarrow> window j (Suc i) u = window j i u + LB ^ i * unat (u ! (j + i))"
  by (simp add: window_def mag_take_Suc)

lemma window_update: "window j i (u[j + i := x]) = window j i u"
  by (simp add: window_def drop_update_swap)

lemma same_outside_update:
  assumes "same_outside j i u u'" "j + i < length u"
  shows "same_outside j (Suc i) u (u'[j + i := x])"
proof -
  have "drop 1 (drop (j + i) u') = drop 1 (drop (j + i) u)"
    using assms(1) by (simp only: same_outside_def)
  then show ?thesis using assms by (simp add: same_outside_def)
qed

lemma same_outside_nth:
  assumes "same_outside j i u u'" "j + i \<le> k" "k < length u"
  shows "u' ! k = u ! k"
proof -
  have len: "length u' = length u" and dr: "drop (j + i) u' = drop (j + i) u"
    using assms(1) by (simp_all add: same_outside_def)
  have "u' ! k = drop (j + i) u' ! (k - (j + i))" using assms(2,3) len by simp
  also have "\<dots> = u ! k" unfolding dr using assms(2,3) by simp
  finally show ?thesis .
qed

lemma subtract_two_borrows:
  fixes x y b :: u64
  assumes "unat b \<le> 1"
  shows "unat (x - y - b) + unat y + unat b = unat x + LB * of_bool (x < y \<or> x - y < b)"
proof -
  have b1: "unat (x - y) + unat y = unat x + LB * of_bool (x < y)" by (rule sub_borrow)
  have b2: "unat (x - y - b) + unat b = unat (x - y) + LB * of_bool (x - y < b)" by (rule sub_borrow)
  have "\<not> (x < y \<and> x - y < b)"
  proof
    assume both: "x < y \<and> x - y < b"
    then have "unat (x - y) = 0" using assms by (simp add: word_less_nat_alt)
    then show False using both b1 unat_lt_LB [of y] by simp
  qed
  then show ?thesis using b1 b2 by auto
qed

lemma multiply_subtract_wp:
  assumes n: "n \<le> length v" and j: "j + n \<le> length u0"
  shows "i + k = n \<Longrightarrow> same_outside j i u0 u \<Longrightarrow> unat borrow \<le> 1 \<Longrightarrow>
   window j i u + unat e * mag (take i v) = window j i u0 + LB ^ i * (unat carry + unat borrow) \<Longrightarrow>
   (\<And>b u' c d. (w \<longrightarrow> b) \<Longrightarrow> length u' = length u0 \<Longrightarrow> (b \<Longrightarrow> same_outside j n u0 u' \<and> unat d \<le> 1 \<and>
      window j n u' + unat e * mag (take n v) = window j n u0 + LB ^ n * (unat c + unat d)) \<Longrightarrow> Q (b, u', c, d)) \<Longrightarrow>
   rspec w (multiply_subtract k i j e v u carry borrow) Q"
proof (induction k arbitrary: i u carry borrow)
  case 0
  then show ?case by (auto intro!: triple_return simp: same_outside_def)
next
  case (Suc k)
  have i: "i < length v" "j + i < length u0" "i < n" using Suc.prems(1) n j by auto
  have len: "length u = length u0" using Suc.prems(2) by (simp add: same_outside_def)
  obtain ph pl where p: "bigint_multiply_u64_u64 e (v ! i) = (ph, pl)" by fastforce
  define pl' where "pl' = pl + carry"
  define carry' where "carry' = ph + of_bool (pl' < pl)"
  define x where "x = u ! (j + i)"
  have x: "x = u0 ! (j + i)" unfolding x_def using Suc.prems(2) i by (intro same_outside_nth) auto
  have "carry' = (if pl' < pl then ph + 1 else ph)" by (simp add: carry'_def)
  then have mul: "unat carry' * LB + unat pl' = unat e * unat (v ! i) + unat carry"
    using mul_add_limb [OF p, of carry] by (simp only: pl'_def)
  define d where "d = x - pl' - borrow"
  define borrow' where "borrow' = (of_bool (x < pl' \<or> x - pl' < borrow) :: u64)"
  have sub: "unat d + unat pl' + unat borrow = unat x + LB * unat borrow'"
    unfolding d_def borrow'_def unat_of_bool by (rule subtract_two_borrows) fact
  have step: "unat d + unat e * unat (v ! i) + unat carry + unat borrow = unat x + LB * (unat carry' + unat borrow')"
    using mul sub by (simp add: algebra_simps)
  let ?u = "u[j + i := d]"
  have win: "window j (Suc i) ?u = window j i u + LB ^ i * unat d"
    "window j (Suc i) u0 = window j i u0 + LB ^ i * unat x"
    "mag (take (Suc i) v) = mag (take i v) + LB ^ i * unat (v ! i)"
    using i len by (simp_all add: window_Suc window_update mag_take_Suc x)
  have "LB ^ i * (unat d + unat e * unat (v ! i) + unat carry + unat borrow)
      = LB ^ i * (unat x + LB * (unat carry' + unat borrow'))" by (simp only: step)
  then have inv: "window j (Suc i) ?u + unat e * mag (take (Suc i) v)
      = window j (Suc i) u0 + LB ^ Suc i * (unat carry' + unat borrow')"
    using Suc.prems(4) unfolding win by (simp add: algebra_simps)
  have rec: "rspec w (multiply_subtract k (Suc i) j e v ?u carry' borrow') Q"
    using Suc.prems(1,5) inv same_outside_update [OF Suc.prems(2) i(2), of d]
    by (intro Suc.IH) (auto simp: borrow'_def)
  have stop: "Q (False, u, carry, borrow)" if "\<not> w" using that len by (intro Suc.prems(5)) auto
  show ?case
    unfolding multiply_subtract.simps Let_def p prod.case pl'_def [symmetric] carry'_def [symmetric]
      x_def [symmetric] d_def [symmetric] borrow'_def [symmetric]
    using rec stop by (auto intro!: wp)
qed

lemma add_back_wp:
  assumes n: "n \<le> length v" and j: "j + n \<le> length u0"
  shows "i + k = n \<Longrightarrow> same_outside j i u0 u \<Longrightarrow> unat carry \<le> 1 \<Longrightarrow>
   window j i u + LB ^ i * unat carry = window j i u0 + mag (take i v) \<Longrightarrow>
   (\<And>b u' c. (w \<longrightarrow> b) \<Longrightarrow> length u' = length u0 \<Longrightarrow> (b \<Longrightarrow> same_outside j n u0 u' \<and>
      window j n u' + LB ^ n * unat c = window j n u0 + mag (take n v)) \<Longrightarrow> Q (b, u', c)) \<Longrightarrow>
   rspec w (add_back k i j v u carry) Q"
proof (induction k arbitrary: i u carry)
  case 0
  then show ?case by (auto intro!: triple_return simp: same_outside_def)
next
  case (Suc k)
  have i: "i < length v" "j + i < length u0" "i < n" using Suc.prems(1) n j by auto
  have len: "length u = length u0" using Suc.prems(2) by (simp add: same_outside_def)
  define x where "x = u ! (j + i)"
  have x: "x = u0 ! (j + i)" unfolding x_def using Suc.prems(2) i by (intro same_outside_nth) auto
  define t where "t = x + v ! i + carry"
  define carry' where "carry' = (of_bool (x + v ! i < x \<or> t < x + v ! i) :: u64)"
  have "carry' = (if x + v ! i + carry < x + v ! i then 1 else if x + v ! i < x then 1 else 0)"
    by (auto simp: carry'_def t_def)
  then have step: "unat carry' \<le> 1" "unat t + LB * unat carry' = unat x + unat (v ! i) + unat carry"
    using add_with_carry [OF Suc.prems(3), of x "v ! i"] by (simp_all add: t_def)
  let ?u = "u[j + i := t]"
  have win: "window j (Suc i) ?u = window j i u + LB ^ i * unat t"
    "window j (Suc i) u0 = window j i u0 + LB ^ i * unat x"
    "mag (take (Suc i) v) = mag (take i v) + LB ^ i * unat (v ! i)"
    using i len by (simp_all add: window_Suc window_update mag_take_Suc x)
  have "LB ^ i * (unat t + LB * unat carry') = LB ^ i * (unat x + unat (v ! i) + unat carry)"
    by (simp only: step)
  then have inv: "window j (Suc i) ?u + LB ^ Suc i * unat carry' = window j (Suc i) u0 + mag (take (Suc i) v)"
    using Suc.prems(4) unfolding win by (simp add: algebra_simps)
  have rec: "rspec w (add_back k (Suc i) j v ?u carry') Q"
    using Suc.prems(1,5) step(1) inv same_outside_update [OF Suc.prems(2) i(2), of t]
    by (intro Suc.IH) auto
  have stop: "Q (False, u, carry)" if "\<not> w" using that len by (intro Suc.prems(5)) auto
  show ?case
    unfolding add_back.simps Let_def x_def [symmetric] t_def [symmetric] carry'_def [symmetric]
    using rec stop by (auto intro!: wp)
qed

lemma window_less: "window j i u < LB ^ i"
proof -
  have "window j i u < LB ^ length (take i (drop j u))" unfolding window_def by (rule mag_less)
  also have "\<dots> \<le> LB ^ i" by (intro power_increasing) (auto simp: Suc_leI)
  finally show ?thesis .
qed

lemma mag_drop_window:
  "j + i \<le> length u \<Longrightarrow> mag (drop j u) = window j i u + LB ^ i * mag (drop (j + i) u)"
  using mag_split [of i "drop j u"] by (simp add: window_def add.commute)

lemma window_leading:
  assumes "j + Suc (Suc k) < length u"
  shows "window j (Suc (Suc (Suc k))) u =
    ((unat (u ! (j + Suc (Suc k))) * LB + unat (u ! (j + Suc k))) * LB + unat (u ! (j + k))) * LB ^ k + window j k u"
  using assms by (simp add: window_Suc algebra_simps)

lemma division_digit_wp:
  assumes n: "2 \<le> n" "length v = n" "LB \<le> 2 * unat (v ! (n - 1))"
    and u: "j + n < length u" "mag (drop (Suc j) u) < mag v"
    and Q: "\<And>b d u'. (w \<longrightarrow> b) \<Longrightarrow> length u' = length u \<Longrightarrow>
       (b \<Longrightarrow> take j u' = take j u \<and> unat d = mag (drop j u) div mag v \<and> mag (drop j u') = mag (drop j u) mod mag v) \<Longrightarrow>
       Q (b, d, u')"
  shows "rspec w (division_digit n v j u) Q"
proof -
  obtain k where k: "n = Suc (Suc k)" using n(1) by (metis add_2_eq_Suc le_Suc_ex)
  define V where "V = mag v"
  define W where "W = mag (drop j u)"
  define q where "q = W div V"
  have VB: "V < LB ^ n" using mag_less [of v] n(2) by (simp add: V_def)
  have zero: "mag (drop (j + Suc n) u) = 0"
  proof (rule ccontr)
    assume "mag (drop (j + Suc n) u) \<noteq> 0"
    then have "LB ^ n * 1 \<le> LB ^ n * mag (drop (j + Suc n) u)" by (intro mult_le_mono2) simp
    moreover have "mag (drop (Suc j) u) = window (Suc j) n u + LB ^ n * mag (drop (j + Suc n) u)"
      using mag_drop_window [of "Suc j" n u] u(1) by simp
    ultimately have "LB ^ n \<le> mag (drop (Suc j) u)" by linarith
    with u(2) VB show False by (simp add: V_def)
  qed
  have Wwin: "W = window j (Suc n) u"
    using mag_drop_window [of j "Suc n" u] u(1) zero by (simp add: W_def)
  have WV: "W < LB * V"
  proof -
    have "W = unat (u ! j) + LB * mag (drop (Suc j) u)" using u(1) by (simp add: W_def mag_drop_nth)
    also have "\<dots> < LB * Suc (mag (drop (Suc j) u))" by simp
    also have "\<dots> \<le> LB * V" using u(2) by (intro mult_le_mono2) (simp add: V_def)
    finally show ?thesis .
  qed
  have v_top: "0 < unat (v ! (n - 1))" using n(3) LB_pos by linarith
  have V_split: "V = (unat (v ! (n - 1)) * LB + unat (v ! (n - 2))) * LB ^ k + mag (take k v)"
    using window_Suc [of 0 "Suc k" v] window_Suc [of 0 k v] n(2)
    by (simp add: V_def k window_def algebra_simps)
  have V_low: "mag (take k v) < LB ^ k" using mag_less [of "take k v"] n(2) by (simp add: k)
  have Vpos: "0 < V" unfolding V_split using v_top by simp
  have W_split: "W = ((unat (u ! (j + n)) * LB + unat (u ! (j + n - 1))) * LB + unat (u ! (j + n - 2))) * LB ^ k + window j k u"
    using window_leading [of j k u] u(1) by (simp add: Wwin k)
  have budget: "Q (False, d, u')" if "\<not> w" "length u' = length u" for d u'
    using that by (intro Q) auto
  have fin: "Q (True, d, u')"
    if "same_outside j (Suc n) u u'" "unat d = q" "window j (Suc n) u' = W mod V" for d u'
  proof -
    have "drop (j + Suc n) u' = drop (j + Suc n) u" "length u' = length u" "take j u' = take j u"
      using that(1) by (simp_all add: same_outside_def)
    moreover from this have "mag (drop j u') = W mod V"
      using mag_drop_window [of j "Suc n" u'] zero u(1) that(3) by simp
    ultimately show ?thesis using that(2) by (intro Q) (simp_all add: q_def W_def V_def)
  qed
  have qV: "q * V + W mod V = W" "W mod V < V" by (simp_all add: q_def Vpos)
  have step: "rspec w (do {
       (finished, u, carry, borrow) \<leftarrow> multiply_subtract n 0 j e v u 0 0;
       if \<not> finished then State_Monad.return (False, e, u)
       else if u ! (j + n) < carry \<or> u ! (j + n) - carry < borrow
            then do {
                 (finished, u, carry) \<leftarrow> add_back n 0 j v (u[j + n := u ! (j + n) - carry - borrow]) 0;
                 if \<not> finished then State_Monad.return (False, e, u)
                 else State_Monad.return (True, e - 1, u[j + n := u ! (j + n) + carry])
               }
            else State_Monad.return (True, e, u[j + n := u ! (j + n) - carry - borrow]) }) Q"
    if e: "q \<le> unat e" "unat e \<le> q + 1" for e
  proof (rule triple_bind, rule multiply_subtract_wp [where u0 = u and n = n])
    fix b u1 and c d :: u64
    assume b: "w \<longrightarrow> b" and len: "length u1 = length u"
      and ms: "b \<Longrightarrow> same_outside j n u u1 \<and> unat d \<le> 1 \<and>
        window j n u1 + unat e * mag (take n v) = window j n u + LB ^ n * (unat c + unat d)"
    define t where "t = u1 ! (j + n) - c - d"
    define neg where "neg \<longleftrightarrow> u1 ! (j + n) < c \<or> u1 ! (j + n) - c < d"
    let ?u2 = "u1[j + n := t]"
    have ms2: "same_outside j (Suc n) u ?u2"
      "window j (Suc n) ?u2 + unat e * V = W + LB ^ Suc n * of_bool neg" if b
    proof -
      have so: "same_outside j n u u1" using ms [OF that] by blast
      show "same_outside j (Suc n) u ?u2" using so u(1) by (rule same_outside_update)
      have top: "u1 ! (j + n) = u ! (j + n)" using so u(1) by (intro same_outside_nth) auto
      have "unat t + unat c + unat d = unat (u ! (j + n)) + LB * of_bool neg"
        unfolding t_def neg_def top using ms [OF that] by (intro subtract_two_borrows) auto
      then have "LB ^ n * (unat t + unat c + unat d) = LB ^ n * (unat (u ! (j + n)) + LB * of_bool neg)"
        by (simp only:)
      moreover have "window j (Suc n) ?u2 = window j n u1 + LB ^ n * unat t"
        using u(1) len by (simp add: window_Suc window_update)
      moreover have "W = window j n u + LB ^ n * unat (u ! (j + n))"
        unfolding Wwin using u(1) by (rule window_Suc)
      moreover have "window j n u1 + unat e * V = window j n u + LB ^ n * (unat c + unat d)"
        using ms [OF that] n(2) by (simp add: V_def)
      ultimately show "window j (Suc n) ?u2 + unat e * V = W + LB ^ Suc n * of_bool neg"
        by (simp add: algebra_simps)
    qed
    have pos: "Q (True, e, ?u2)" if "b" "\<not> neg"
    proof (rule fin [OF ms2(1) [OF that(1)]])
      have eq: "window j (Suc n) ?u2 + unat e * V = W" using ms2(2) [OF that(1)] that(2) by simp
      then have "unat e * V \<le> W" by linarith
      then have "unat e \<le> q" using Vpos by (simp add: q_def less_eq_div_iff_mult_less_eq)
      with e show eq': "unat e = q" by simp
      show "window j (Suc n) ?u2 = W mod V" using eq qV unfolding eq' by linarith
    qed
    have corr: "rspec w (do { (finished, u, carry) \<leftarrow> add_back n 0 j v ?u2 0;
                 if \<not> finished then State_Monad.return (False, e, u)
                 else State_Monad.return (True, e - 1, u[j + n := u ! (j + n) + carry]) }) Q"
      if "b" "neg"
    proof (rule triple_bind, rule add_back_wp [where n = n and ?u0.0 = ?u2])
      have eq: "window j (Suc n) ?u2 + unat e * V = W + LB ^ Suc n" using ms2(2) [OF that(1)] that(2) by simp
      then have "W < unat e * V" using window_less [of j "Suc n" ?u2] by linarith
      then have "q < unat e" using Vpos by (simp add: q_def less_mult_imp_div_less)
      then have e1: "unat e = q + 1" using e by simp
      then have "e \<noteq> 0" by (intro notI) simp
      with e1 have e2: "unat (e - 1) = q" by (simp add: unat_minus_1)
      have win2: "window j (Suc n) ?u2 + V = W mod V + LB ^ Suc n"
        using eq qV unfolding e1 by simp
      fix f u3 and c3 :: u64
      assume f: "w \<longrightarrow> f" and len3: "length u3 = length ?u2"
        and ab: "f \<Longrightarrow> same_outside j n ?u2 u3 \<and> window j n u3 + LB ^ n * unat c3 = window j n ?u2 + mag (take n v)"
      define t3 where "t3 = u3 ! (j + n) + c3"
      have "Q (True, e - 1, u3[j + n := t3])" if f
      proof (rule fin [OF _ e2])
        have so: "same_outside j n ?u2 u3" using ab [OF that] by blast
        have "same_outside j (Suc n) ?u2 (u3[j + n := t3])"
          using so u(1) len by (intro same_outside_update) auto
        then show "same_outside j (Suc n) u (u3[j + n := t3])"
          using ms2(1) [OF \<open>b\<close>] by (simp add: same_outside_def)
        have top: "u3 ! (j + n) = t" using same_outside_nth [OF so, of "j + n"] u(1) len by simp
        define k3 where "k3 = (of_bool (t3 < t) :: nat)"
        have "unat t3 + LB * k3 = unat t + unat c3"
          unfolding t3_def top k3_def by (rule add_carry)
        then have "LB ^ n * (unat t3 + LB * k3) = LB ^ n * (unat t + unat c3)" by (simp only:)
        moreover have "window j (Suc n) (u3[j + n := t3]) = window j n u3 + LB ^ n * unat t3"
          using u(1) len len3 by (simp add: window_Suc window_update)
        moreover have "window j (Suc n) ?u2 = window j n ?u2 + LB ^ n * unat t"
          using u(1) len by (simp add: window_Suc)
        moreover have "window j n u3 + LB ^ n * unat c3 = window j n ?u2 + V"
          using ab [OF that] n(2) by (simp add: V_def)
        ultimately have "window j (Suc n) (u3[j + n := t3]) + LB ^ Suc n * k3 = W mod V + LB ^ Suc n"
          using win2 by (simp add: algebra_simps)
        moreover have "k3 = 0 \<or> k3 = 1" by (simp add: k3_def)
        ultimately show "window j (Suc n) (u3[j + n := t3]) = W mod V"
          using window_less [of j "Suc n" "u3[j + n := t3]"] by auto
      qed
      then show "rspec w (case (f, u3, c3) of (finished, u, carry) \<Rightarrow>
          if \<not> finished then State_Monad.return (False, e, u)
          else State_Monad.return (True, e - 1, u[j + n := u ! (j + n) + carry])) Q"
        using f len3 len budget by (auto intro!: wp simp: t3_def)
    qed (use n u(1) len in auto)
    show "rspec w (case (b, u1, c, d) of (finished, u, carry, borrow) \<Rightarrow>
       if \<not> finished then State_Monad.return (False, e, u)
       else if u ! (j + n) < carry \<or> u ! (j + n) - carry < borrow
            then do {
                 (finished, u, carry) \<leftarrow> add_back n 0 j v (u[j + n := u ! (j + n) - carry - borrow]) 0;
                 if \<not> finished then State_Monad.return (False, e, u)
                 else State_Monad.return (True, e - 1, u[j + n := u ! (j + n) + carry])
               }
            else State_Monad.return (True, e, u[j + n := u ! (j + n) - carry - borrow])) Q"
      unfolding prod.case t_def [symmetric] neg_def [symmetric]
      by (intro triple_if triple_return corr pos) (use b len budget in auto)
  qed (use n u(1) in auto)
  show ?thesis
    unfolding division_digit_def Let_def
  proof (rule triple_bind, rule budget_check_wp, rule triple_if)
    fix b
    assume "w \<longrightarrow> b" "\<not> b"
    then show "rspec w (State_Monad.return (False, 0, u)) Q" by (intro triple_return budget) auto
  next
    show "rspec w (do {
       estimate \<leftarrow> estimate_digit (u ! (j + n)) (u ! (j + n - 1)) (u ! (j + n - 2)) (v ! (n - 1)) (v ! (n - 2));
       (finished, u, carry, borrow) \<leftarrow> multiply_subtract n 0 j estimate v u 0 0;
       if \<not> finished then State_Monad.return (False, estimate, u)
       else if u ! (j + n) < carry \<or> u ! (j + n) - carry < borrow
            then do {
                 (finished, u, carry) \<leftarrow> add_back n 0 j v (u[j + n := u ! (j + n) - carry - borrow]) 0;
                 if \<not> finished then State_Monad.return (False, estimate, u)
                 else State_Monad.return (True, estimate - 1, u[j + n := u ! (j + n) + carry])
               }
            else State_Monad.return (True, estimate, u[j + n := u ! (j + n) - carry - borrow]) }) Q"
      by (rule triple_bind, rule estimate_digit_wp [OF W_split window_less V_split V_low n(3) WV], rule step)
        (simp_all add: q_def)
  qed
qed

lemma long_division_wp:
  assumes n: "2 \<le> n" "length v = n" "LB \<le> 2 * unat (v ! (n - 1))"
  shows "j + n \<le> length u \<Longrightarrow> mag (drop j u) < mag v \<Longrightarrow>
    (\<And>b u' ds. (w \<longrightarrow> b) \<Longrightarrow> (b \<Longrightarrow> length u' = length u \<and> length ds = j \<and> mag ds * mag v + mag u' = mag u \<and> mag u' < mag v) \<Longrightarrow>
       Q (b, u', ds @ digits)) \<Longrightarrow>
    (\<And>b u' ds. (w \<longrightarrow> b) \<Longrightarrow> \<not> b \<Longrightarrow> Q (b, u', ds)) \<Longrightarrow>
    rspec w (long_division j n v u digits) Q"
proof (induction j arbitrary: u digits)
  case 0
  then show ?case using 0(3) [of True u "[]"] by (auto intro!: triple_return)
next
  case (Suc j)
  show ?case
    unfolding long_division.simps
  proof (rule triple_bind, rule division_digit_wp [OF n])
    fix b and d :: u64 and u1
    assume b: "w \<longrightarrow> b" and len: "length u1 = length u"
      and d: "b \<Longrightarrow> take j u1 = take j u \<and> unat d = mag (drop j u) div mag v \<and> mag (drop j u1) = mag (drop j u) mod mag v"
    have go: "rspec w (long_division j n v u1 (d # digits)) Q" if b
    proof (rule Suc.IH)
      have Vpos: "0 < mag v" using Suc.prems(2) by simp
      show "j + n \<le> length u1" using Suc.prems(1) len by simp
      show "mag (drop j u1) < mag v" using d [OF that] Vpos by simp
      fix b' u' ds
      assume b': "w \<longrightarrow> b'" and ds: "b' \<Longrightarrow> length u' = length u1 \<and> length ds = j \<and> mag ds * mag v + mag u' = mag u1 \<and> mag u' < mag v"
      have "mag (ds @ [d]) * mag v + mag u' = mag u" if b'
      proof -
        have "mag (drop j u) = unat d * mag v + mag (drop j u1)" using d [OF \<open>b\<close>] by simp
        moreover have "mag u = mag (take j u) + LB ^ j * mag (drop j u)"
          using Suc.prems(1) by (intro mag_split) simp
        moreover have "mag u1 = mag (take j u1) + LB ^ j * mag (drop j u1)"
          using Suc.prems(1) len by (intro mag_split) simp
        moreover have "mag ds * mag v + mag u' = mag u1" "length ds = j" "take j u1 = take j u"
          using ds [OF that] d [OF \<open>b\<close>] by auto
        ultimately show ?thesis by (simp add: algebra_simps)
      qed
      then have "Q (b', u', (ds @ [d]) @ digits)"
        using b' ds len by (intro Suc.prems(3)) auto
      then show "Q (b', u', ds @ d # digits)" by simp
    qed (rule Suc.prems(4))
    show "rspec w (case (b, d, u1) of (finished, digit, u) \<Rightarrow>
        if \<not> finished then State_Monad.return (False, u, digits)
        else long_division j n v u (digit # digits)) Q"
      using b go Suc.prems(4) by (auto intro!: wp)
  qed (use Suc.prems in auto)
qed

section \<open>Long division of limb arrays\<close>

definition division_arrays :: "u64 list \<Rightarrow> u64 list \<Rightarrow> (bool \<times> u64 list \<times> u64 list) rt" where
  "division_arrays as bs = do {
     let n = length bs;
     let m = length as - n;
     shift \<leftarrow> normalizing_shift 64 (bs ! (n - 1)) 0;
     (finished, v, carry) \<leftarrow> shift_in_loop n 0 shift bs [] 0;
     if \<not> finished then State_Monad.return (False, [], [])
     else do {
       (finished, u, carry) \<leftarrow> shift_in_loop (length as) 0 shift as [] 0;
       if \<not> finished then State_Monad.return (False, [], [])
       else do {
         (finished, u, digits) \<leftarrow> long_division (m + 1) n v (u @ [carry]) [];
         if \<not> finished then State_Monad.return (False, [], [])
         else do {
           (finished, rest) \<leftarrow> shift_out_loop n 0 shift u [];
           State_Monad.return (finished, digits, rest)
         }
       }
     }
   }"

text \<open>The shifted divisor has its top bit set.\<close>

lemma normalized_divisor:
  assumes bs: "bs = ys @ [t]" "t \<noteq> 0" and s: "s < 64" "LB \<le> 2 * (unat t * 2 ^ s)" "unat t * 2 ^ s < LB"
    and v: "length v = length bs" "mag v + LB ^ length bs * unat c = mag bs * 2 ^ s"
  shows "mag v = mag bs * 2 ^ s" and "LB \<le> 2 * unat (v ! (length bs - 1))"
    and "LB ^ length bs \<le> 2 * mag v"
proof -
  let ?k = "length ys"
  have "unat t * 2 ^ s < 2 ^ (64 - s) * 2 ^ s" using s(1,3) LB_split [of s] by (simp add: mult.commute)
  then have "unat t < 2 ^ (64 - s)" by (simp only: mult_less_cancel2)
  then have "(unat t + 1) * 2 ^ s \<le> 2 ^ (64 - s) * 2 ^ s" by (intro mult_le_mono1) simp
  then have top: "(unat t + 1) * 2 ^ s \<le> LB" using s(1) LB_split [of s] by (simp add: mult.commute)
  have "mag bs < LB ^ ?k * (unat t + 1)" using mag_less [of ys] by (simp add: bs)
  then have "mag bs * 2 ^ s < LB ^ ?k * (unat t + 1) * 2 ^ s" by simp
  also have "\<dots> = LB ^ ?k * ((unat t + 1) * 2 ^ s)" by (rule mult.assoc)
  also have "\<dots> \<le> LB ^ ?k * LB" using top by (rule mult_le_mono2)
  also have "\<dots> = LB ^ length bs" by (simp add: bs)
  finally have "LB ^ length bs * unat c < LB ^ length bs * 1" using v(2) by linarith
  then have "unat c < 1" by (simp only: mult_less_cancel1)
  then show mv: "mag v = mag bs * 2 ^ s" using v(2) by simp
  have "LB ^ ?k * (2 * (unat t * 2 ^ s)) \<le> 2 * mag v"
    unfolding mv by (simp add: bs algebra_simps)
  moreover have "LB ^ ?k * LB \<le> LB ^ ?k * (2 * (unat t * 2 ^ s))" using s(2) by (rule mult_le_mono2)
  ultimately have half: "LB ^ ?k * LB \<le> 2 * mag v" by (rule order_trans [rotated])
  then show "LB ^ length bs \<le> 2 * mag v" by (simp add: bs mult.commute)
  have "mag v = mag (take ?k v) + LB ^ ?k * unat (v ! ?k)"
    using mag_take_Suc [of ?k v] v(1) by (simp add: bs)
  moreover have "mag (take ?k v) < LB ^ ?k" using mag_less [of "take ?k v"] v(1) by (simp add: bs)
  ultimately have "LB ^ ?k * LB < LB ^ ?k * (2 * (unat (v ! ?k) + 1))"
    using half by (simp add: algebra_simps)
  then have "LB < 2 * (unat (v ! ?k) + 1)" by (simp only: mult_less_cancel1)
  moreover obtain h where "LB = 2 * h" using that [of "2 ^ 63"] by (simp add: LB_def)
  ultimately have "LB \<le> 2 * unat (v ! ?k)" by arith
  then show "LB \<le> 2 * unat (v ! (length bs - 1))" by (simp add: bs)
qed

lemma division_arrays_wp:
  assumes b: "canonical bs" "2 \<le> length bs" "length bs \<le> length as"
    and Q: "\<And>f ds rs. (w \<longrightarrow> f) \<Longrightarrow> (f \<Longrightarrow> length ds = length as - length bs + 1 \<and> length rs = length bs \<and>
       mag ds = mag as div mag bs \<and> mag rs = mag as mod mag bs) \<Longrightarrow> Q (f, ds, rs)"
  shows "rspec w (division_arrays as bs) Q"
proof -
  let ?n = "length bs" and ?m = "length as - length bs"
  obtain ys t where bs: "bs = ys @ [t]" "t \<noteq> 0"
    using b(1,2) by (cases bs rule: rev_cases) auto
  have nth: "bs ! (?n - 1) = t" by (simp add: bs)
  have t64: "LB \<le> unat t * 2 ^ 64"
    unfolding LB_def [symmetric] using bs(2) by (simp add: unat_gt_0 Suc_le_eq)
  have stop: "Q (False, ds, rs)" if "\<not> w" for ds rs using that by (intro Q) auto
  have main: "rspec w (do {
         (finished, u, digits) \<leftarrow> long_division (?m + 1) ?n v (u @ [c]) [];
         if \<not> finished then State_Monad.return (False, [], [])
         else do { (finished, rest) \<leftarrow> shift_out_loop ?n 0 s u [];
           State_Monad.return (finished, digits, rest) } }) Q"
    if s: "s < 64" "LB \<le> 2 * (unat t * 2 ^ s)" "unat t * 2 ^ s < LB"
      and v: "length v = ?n" "mag v + LB ^ ?n * unat cv = mag bs * 2 ^ s"
      and u: "length u = length as" "mag u + LB ^ length as * unat c = mag as * 2 ^ s" for s v cv u c
  proof (rule triple_bind, rule long_division_wp)
    note nd = normalized_divisor [OF bs s v]
    show "2 \<le> ?n" "length v = ?n" "LB \<le> 2 * unat (v ! (?n - 1))" using b(2) v(1) nd by auto
    show "?m + 1 + ?n \<le> length (u @ [c])" using u(1) b(3) by simp
    have mu: "mag (u @ [c]) = mag as * 2 ^ s" using u by simp
    have two_s: "2 * 2 ^ s \<le> LB"
    proof -
      have "(2 :: nat) ^ Suc s \<le> 2 ^ 64" using s(1) by (intro power_increasing) auto
      then show ?thesis by (simp add: LB_def)
    qed
    show "mag (drop (?m + 1) (u @ [c])) < mag v"
    proof -
      have "LB ^ (?m + 1) * mag (drop (?m + 1) (u @ [c])) \<le> mag (u @ [c])"
        using mag_split [of "?m + 1" "u @ [c]"] u(1) b(2,3) by simp
      also have "\<dots> < LB ^ length as * 2 ^ s" unfolding mu using mag_less [of as] by simp
      finally have "2 * (LB ^ (?m + 1) * mag (drop (?m + 1) (u @ [c]))) < LB ^ length as * (2 * 2 ^ s)" by simp
      also have "\<dots> \<le> LB ^ length as * LB" using two_s by (rule mult_le_mono2)
      also have "\<dots> = LB ^ (?m + 1) * LB ^ ?n" using b(3) by (simp flip: power_add)
      also have "\<dots> \<le> LB ^ (?m + 1) * (2 * mag v)" using nd(3) by (rule mult_le_mono2)
      finally have "LB ^ (?m + 1) * (2 * mag (drop (?m + 1) (u @ [c]))) < LB ^ (?m + 1) * (2 * mag v)"
        by (simp add: mult.left_commute)
      then show ?thesis by (simp only: mult_less_cancel1)
    qed
    have pos: "0 < mag bs" using bs(2) by (simp add: bs unat_gt_0)
    fix f u' ds
    assume f: "w \<longrightarrow> f" and r: "f \<Longrightarrow> length u' = length (u @ [c]) \<and> length ds = ?m + 1 \<and>
       mag ds * mag v + mag u' = mag (u @ [c]) \<and> mag u' < mag v"
    have rec: "rspec w (shift_out_loop ?n 0 s u' []) (\<lambda>x. rspec w (case x of (finished, rest) \<Rightarrow>
        State_Monad.return (finished, ds, rest)) Q)" if f
    proof (rule shift_out_loop_wp [OF s(1)])
      have len: "length u' = length as + 1" "length ds = ?m + 1" using r [OF that] u(1) by auto
      show "0 + ?n < length u'" using len b(3) by simp
      show "2 ^ s * mag [] + mag (take 1 u') mod 2 ^ s = mag (take 0 u') + LB ^ 0 * (unat (u' ! 0) mod 2 ^ s)"
        using len(1) by (cases u') auto
      have eq: "mag ds * (mag bs * 2 ^ s) + mag u' = mag as * 2 ^ s" and lt: "mag u' < mag bs * 2 ^ s"
        using r [OF that] unfolding mu nd(1) by auto
      have dvd: "2 ^ s dvd mag u'"
      proof -
        have "2 ^ s dvd mag ds * (mag bs * 2 ^ s) + mag u'" unfolding eq by simp
        then show ?thesis by (simp add: dvd_add_right_iff)
      qed
      then obtain x where x: "mag u' = x * 2 ^ s" by (auto simp: dvd_def mult.commute)
      have "(mag ds * mag bs + x) * 2 ^ s = mag as * 2 ^ s" using eq unfolding x by (simp add: algebra_simps)
      then have div: "mag ds * mag bs + x = mag as" by simp
      have "x < mag bs" using lt unfolding x by simp
      then have res: "mag ds = mag as div mag bs" "x = mag as mod mag bs"
        unfolding div [symmetric] by simp_all
      have "mag u' < LB ^ ?n" using r [OF that] mag_less [of v] v(1) by auto
      moreover have usplit: "mag u' = mag (take ?n u') + LB ^ ?n * mag (drop ?n u')"
        using len(1) b(3) by (intro mag_split) simp
      ultimately have "LB ^ ?n * mag (drop ?n u') < LB ^ ?n * 1" by linarith
      then have dz: "mag (drop ?n u') = 0" by (simp only: mult_less_cancel1) simp
      then have un: "unat (u' ! ?n) = 0" using mag_drop_nth [of ?n u'] len(1) b(3) by simp
      have tn: "mag (take ?n u') = x * 2 ^ s" using usplit dz x by simp
      fix g rs
      assume g: "w \<longrightarrow> g" and so: "g \<Longrightarrow> length rs = 0 + ?n \<and>
        2 ^ s * mag rs + mag (take 1 u') mod 2 ^ s = mag (take (0 + ?n) u') + LB ^ (0 + ?n) * (unat (u' ! (0 + ?n)) mod 2 ^ s)"
      have "mag rs = x" if g
      proof -
        have e: "2 ^ s * mag rs + mag (take 1 u') mod 2 ^ s = 2 ^ s * x"
          using so [OF that] tn un by (simp add: mult.commute)
        have "mag rs = (2 ^ s * mag rs + mag (take 1 u') mod 2 ^ s) div 2 ^ s" by simp
        then show ?thesis unfolding e by simp
      qed
      then show "rspec w (case (g, rs) of (finished, rest) \<Rightarrow> State_Monad.return (finished, ds, rest)) Q"
        using g so res len(2) by (auto intro!: wp Q)
    qed simp
    show "rspec w (case (f, u', ds @ []) of (finished, u, digits) \<Rightarrow>
         if \<not> finished then State_Monad.return (False, [], [])
         else do { (finished, rest) \<leftarrow> shift_out_loop ?n 0 s u [];
           State_Monad.return (finished, digits, rest) }) Q"
      using f rec stop by (auto intro!: wp)
  next
    fix f u' ds
    assume "w \<longrightarrow> f" "\<not> f"
    then show "rspec w (case (f, u', ds) of (finished, u, digits) \<Rightarrow>
         if \<not> finished then State_Monad.return (False, [], [])
         else do { (finished, rest) \<leftarrow> shift_out_loop ?n 0 s u [];
           State_Monad.return (finished, digits, rest) }) Q"
      using stop by (auto intro!: wp)
  qed
  show ?thesis
    unfolding division_arrays_def Let_def nth
  proof (rule triple_bind, rule normalizing_shift_wp [OF t64])
    fix s
    assume "s < 0 + 64" "0 \<le> s" "LB \<le> 2 * (unat t * 2 ^ (s - 0))" "unat t * 2 ^ (s - 0) < LB"
    then have s: "s < 64" "LB \<le> 2 * (unat t * 2 ^ s)" "unat t * 2 ^ s < LB" by simp_all
    show "rspec w (do {
     (finished, v, carry) \<leftarrow> shift_in_loop ?n 0 s bs [] 0;
     if \<not> finished then State_Monad.return (False, [], [])
     else do {
       (finished, u, carry) \<leftarrow> shift_in_loop (length as) 0 s as [] 0;
       if \<not> finished then State_Monad.return (False, [], [])
       else do {
         (finished, u, digits) \<leftarrow> long_division (?m + 1) ?n v (u @ [carry]) [];
         if \<not> finished then State_Monad.return (False, [], [])
         else do {
           (finished, rest) \<leftarrow> shift_out_loop ?n 0 s u [];
           State_Monad.return (finished, digits, rest)
         }
       }
     } }) Q"
      by (intro triple_bind [of _ "shift_in_loop _ _ _ _ _ _"] shift_in_loop_wp [OF s(1)] triple_case_pair triple_if
            triple_return stop main [OF s]) auto
  qed
qed

end
