(* ===== verification/BigInt_Divmod.thy ===== *)
theory BigInt_Divmod
  imports BigInt_Mul BigInt_Division
begin

text \<open>
  Division of objects: \<^verbatim>\<open>bigint_divmod_abs_core\<close> and its three entry points in
  \<^verbatim>\<open>src/core/bigint/bigint.c\<close>, on top of the long division of limb arrays of
  \<^verbatim>\<open>BigInt_Division\<close>. An output that the caller does not want
  (\<^verbatim>\<open>NULL\<close> for the quotient) and a workspace it does not supply are
  \<open>None\<close>.
\<close>

unbundle bit_operations_syntax

section \<open>Division of magnitudes\<close>

text \<open>A \<^verbatim>\<open>BigIntDivisionWorkspace\<close>: two objects of which only the buffers
  are used.\<close>

record div_workspace =
  ws_numerator :: BigInt
  ws_divisor :: BigInt

definition div_ws_ok :: "div_workspace \<Rightarrow> bool" where
  "div_ws_ok w \<longleftrightarrow> storage_ok (ws_numerator w) \<and> storage_ok (ws_divisor w)"

text \<open>The one-limb divisor.\<close>

primrec divide_single_loop :: "nat \<Rightarrow> u64 list \<Rightarrow> u64 \<Rightarrow> u64 list \<Rightarrow> u64 \<Rightarrow> (bool \<times> u64 list \<times> u64) rt" where
  "divide_single_loop 0 as divisor digits rest = State_Monad.return (True, digits, rest)"
| "divide_single_loop (Suc i) as divisor digits rest = do {
     go \<leftarrow> numforge_budget_check;
     if \<not> go then State_Monad.return (False, digits, rest)
     else do {
       (digit, rest) \<leftarrow> bigint_divide_128_by_u64 rest (as ! i) divisor;
       divide_single_loop i as divisor (digit # digits) rest
     }
   }"

definition divmod_single ::
  "BigInt option \<Rightarrow> BigInt \<Rightarrow> BigInt \<Rightarrow> BigInt \<Rightarrow> (BigIntStatus \<times> BigInt option \<times> BigInt) rt" where
  "divmod_single quot remainder a b = do {
     (status, quot) \<leftarrow> (case quot of
         None \<Rightarrow> State_Monad.return (BIGINT_OK, None)
       | Some q \<Rightarrow> do {
           (status, q) \<leftarrow> bigint_ensure_capacity q (bsize a);
           State_Monad.return (status, Some q)
         });
     if status \<noteq> BIGINT_OK then State_Monad.return (status, quot, remainder)
     else do {
       (finished, digits, rest) \<leftarrow> divide_single_loop (bsize a) (limbs a) (limbs b ! 0) [] 0;
       if \<not> finished then State_Monad.return (BIGINT_OUT_OF_MEMORY, quot, remainder)
       else do {
         let quot = map_option (\<lambda>q. bigint_normalize (q\<lparr>limbs := digits\<rparr>)) quot;
         (status, remainder) \<leftarrow> bigint_set_uint64 remainder rest;
         State_Monad.return (status, quot, remainder)
       }
     }
   }"

text \<open>The two working arrays, from the caller's workspace or freshly allocated.\<close>

definition acquire_arrays ::
  "div_workspace option \<Rightarrow> nat \<Rightarrow> nat \<Rightarrow> nat \<Rightarrow> nat \<Rightarrow> (BigIntStatus \<times> div_workspace option) rt" where
  "acquire_arrays workspace u_count n u_bytes v_bytes = (case workspace of
     Some w \<Rightarrow> do {
       (status, num) \<leftarrow> bigint_ensure_capacity (ws_numerator w) u_count;
       (status, dvs) \<leftarrow> (if status = BIGINT_OK then bigint_ensure_capacity (ws_divisor w) n
                        else State_Monad.return (status, ws_divisor w));
       State_Monad.return (status, Some \<lparr>ws_numerator = num, ws_divisor = dvs\<rparr>)
     }
   | None \<Rightarrow> do {
       u_granted \<leftarrow> numforge_malloc u_bytes;
       v_granted \<leftarrow> numforge_malloc v_bytes;
       State_Monad.return
         (if \<not> u_granted \<or> \<not> v_granted then BIGINT_OUT_OF_MEMORY else BIGINT_OK, None)
     })"

definition divmod_long :: "BigInt option \<Rightarrow> BigInt \<Rightarrow> BigInt \<Rightarrow> BigInt \<Rightarrow> div_workspace option \<Rightarrow>
    (BigIntStatus \<times> BigInt option \<times> BigInt \<times> div_workspace option) rt" where
  "divmod_long quot remainder a b workspace =
    (let n = bsize b; m = bsize a - n
     in case bigint_size_add (bsize a) 1 of
          None \<Rightarrow> State_Monad.return (BIGINT_OUT_OF_MEMORY, quot, remainder, workspace)
        | Some u_count \<Rightarrow>
       (case bigint_size_mul u_count 8 of
          None \<Rightarrow> State_Monad.return (BIGINT_OUT_OF_MEMORY, quot, remainder, workspace)
        | Some u_bytes \<Rightarrow>
       (case bigint_size_mul n 8 of
          None \<Rightarrow> State_Monad.return (BIGINT_OUT_OF_MEMORY, quot, remainder, workspace)
        | Some v_bytes \<Rightarrow> do {
            (status, quot) \<leftarrow> (case quot of
                None \<Rightarrow> State_Monad.return (BIGINT_OK, None)
              | Some q \<Rightarrow> do {
                  (status, q) \<leftarrow> bigint_ensure_capacity q (m + 1);
                  State_Monad.return (status, Some q)
                });
            (status, remainder) \<leftarrow> (if status = BIGINT_OK then bigint_ensure_capacity remainder n
                                   else State_Monad.return (status, remainder));
            if status \<noteq> BIGINT_OK then State_Monad.return (status, quot, remainder, workspace)
            else do {
              (status, workspace) \<leftarrow> acquire_arrays workspace u_count n u_bytes v_bytes;
              if status \<noteq> BIGINT_OK then State_Monad.return (status, quot, remainder, workspace)
              else do {
                (finished, digits, rest) \<leftarrow> division_arrays (limbs a) (limbs b);
                if \<not> finished
                then State_Monad.return (BIGINT_OUT_OF_MEMORY, quot, remainder, workspace)
                else State_Monad.return (BIGINT_OK,
                  map_option (\<lambda>q. bigint_normalize (q\<lparr>limbs := digits\<rparr>)) quot,
                  bigint_normalize (remainder\<lparr>limbs := rest\<rparr>), workspace)
              }
            }
          })))"

definition bigint_divmod_abs_core :: "BigInt option \<Rightarrow> BigInt \<Rightarrow> BigInt \<Rightarrow> BigInt \<Rightarrow> div_workspace option \<Rightarrow>
    (BigIntStatus \<times> BigInt option \<times> BigInt \<times> div_workspace option) rt" where
  "bigint_divmod_abs_core quot remainder a b workspace = do {
     let quot = map_option (\<lambda>q. q\<lparr>limbs := []\<rparr>) quot;
     let remainder = remainder\<lparr>limbs := []\<rparr>;
     go \<leftarrow> numforge_budget_check;
     if \<not> go then State_Monad.return (BIGINT_OUT_OF_MEMORY, quot, remainder, workspace)
     else if bsize a = 0 then State_Monad.return (BIGINT_OK, quot, remainder, workspace)
     else let comparison = bigint_compare_abs a b
          in if comparison < 0 then do {
               (status, remainder) \<leftarrow> bigint_copy remainder a;
               State_Monad.return (status, quot, remainder, workspace)
             }
             else if comparison = 0 then
               (case quot of
                  None \<Rightarrow> State_Monad.return (BIGINT_OK, None, remainder, workspace)
                | Some q \<Rightarrow> do {
                    (status, q) \<leftarrow> bigint_set_uint64 q 1;
                    State_Monad.return (status, Some q, remainder, workspace)
                  })
             else if bsize b = 1 then do {
               (status, quot, remainder) \<leftarrow> divmod_single quot remainder a b;
               State_Monad.return (status, quot, remainder, workspace)
             }
             else divmod_long quot remainder a b workspace
   }"

definition bigint_divmod_abs :: "BigInt \<Rightarrow> BigInt \<Rightarrow> BigInt \<Rightarrow> BigInt \<Rightarrow> (BigIntStatus \<times> BigInt \<times> BigInt) rt" where
  "bigint_divmod_abs quot remainder a b = do {
     (status, q, remainder, w) \<leftarrow> bigint_divmod_abs_core (Some quot) remainder a b None;
     State_Monad.return (status, the q, remainder)
   }"

definition bigint_divmod_abs_workspace ::
  "BigInt \<Rightarrow> BigInt \<Rightarrow> BigInt \<Rightarrow> BigInt \<Rightarrow> div_workspace \<Rightarrow> (BigIntStatus \<times> BigInt \<times> BigInt \<times> div_workspace) rt" where
  "bigint_divmod_abs_workspace quot remainder a b workspace = do {
     (status, q, remainder, w) \<leftarrow> bigint_divmod_abs_core (Some quot) remainder a b (Some workspace);
     State_Monad.return (status, the q, remainder, the w)
   }"

definition bigint_mod_abs_workspace ::
  "BigInt \<Rightarrow> BigInt \<Rightarrow> BigInt \<Rightarrow> div_workspace \<Rightarrow> (BigIntStatus \<times> BigInt \<times> div_workspace) rt" where
  "bigint_mod_abs_workspace remainder a b workspace = do {
     (status, q, remainder, w) \<leftarrow> bigint_divmod_abs_core None remainder a b (Some workspace);
     State_Monad.return (status, remainder, the w)
   }"

text \<open>What a division leaves in its outputs: objects without a sign of their own that hold
  the magnitudes \<open>x div y\<close> and \<open>x mod y\<close>. (A remainder that is a copy of the dividend has the
  dividend's sign.)\<close>

definition private_output :: "BigInt \<Rightarrow> bool" where
  "private_output r \<longleftrightarrow> storage_ok r \<and> \<not> is_negative r"

definition quotient_ok :: "BigInt option \<Rightarrow> BigInt option \<Rightarrow> nat \<Rightarrow> bool" where
  "quotient_ok old new x \<longleftrightarrow> (case new of None \<Rightarrow> old = None
     | Some q \<Rightarrow> old \<noteq> None \<and> bigint_wf q \<and> \<not> is_negative q \<and> bigint_mag q = x)"

definition remainder_ok :: "BigInt \<Rightarrow> BigInt \<Rightarrow> nat \<Rightarrow> bool" where
  "remainder_ok a r x \<longleftrightarrow> bigint_wf r \<and> bigint_mag r = x \<and> (is_negative r \<longrightarrow> is_negative a)"

definition outputs_kept :: "BigInt option \<Rightarrow> BigInt option \<Rightarrow> BigInt \<Rightarrow> bool" where
  "outputs_kept old q r \<longleftrightarrow> (q = None \<longleftrightarrow> old = None) \<and> pred_option private_output q \<and> private_output r"

lemma divide_single_loop_wp:
  "i \<le> length as \<Longrightarrow> rest < d \<Longrightarrow>
   (\<And>b ds r. (u \<longrightarrow> b) \<Longrightarrow> (b \<Longrightarrow> length ds = i \<and> r < d \<and> mag ds * unat d + unat r = unat rest * LB ^ i + mag (take i as)) \<Longrightarrow>
     Q (b, ds @ digits, r)) \<Longrightarrow>
   (\<And>ds r. \<not> u \<Longrightarrow> Q (False, ds, r)) \<Longrightarrow>
   rspec u (divide_single_loop i as d digits rest) Q"
proof (induction i arbitrary: digits rest)
  case 0
  then show ?case using 0(3) [of True "[]" rest] by (auto intro!: triple_return)
next
  case (Suc i)
  have rec: "rspec u (divide_single_loop i as d (q # digits) r) Q"
    if qr: "unat q * unat d + unat r = unat rest * LB + unat (as ! i)" "r < d" for q r
  proof (rule Suc.IH)
    fix b and ds :: "u64 list" and r'
    assume b: "u \<longrightarrow> b" and ds: "b \<Longrightarrow> length ds = i \<and> r' < d \<and> mag ds * unat d + unat r' = unat r * LB ^ i + mag (take i as)"
    have "mag (ds @ [q]) * unat d + unat r' = unat rest * LB ^ Suc i + mag (take (Suc i) as)" if b
    proof -
      have "LB ^ i * (unat q * unat d + unat r) = LB ^ i * (unat rest * LB + unat (as ! i))" by (simp only: qr)
      then show ?thesis
        using ds [OF that] Suc.prems(1) by (simp add: mag_take_Suc algebra_simps)
    qed
    then have "Q (b, (ds @ [q]) @ digits, r')" using b ds by (intro Suc.prems(3)) auto
    then show "Q (b, ds @ q # digits, r')" by simp
  qed (use Suc.prems qr in auto)
  show ?case
    unfolding divide_single_loop.simps
    using rec Suc.prems(2,4) by (auto intro!: wp)
qed

lemma divmod_single_wp:
  assumes q: "pred_option private_output q" and r: "private_output r"
    and a: "bigint_wf a" and b: "bigint_wf b" "bsize b = 1"
    and Q: "\<And>st q' r'. outcome u True st
       (quotient_ok q q' (bigint_mag a div bigint_mag b) \<and> remainder_ok a r' (bigint_mag a mod bigint_mag b))
       (outputs_kept q q' r') \<Longrightarrow> Q (st, q', r')"
  shows "rspec u (divmod_single q r a b) Q"
proof -
  define d where "d = limbs b ! 0"
  have bl: "limbs b = [d]" using b(2) by (cases "limbs b") (auto simp: d_def)
  then have d: "0 < d" "bigint_mag b = unat d"
    using bigint_wfD(1) [OF b(1)] by (auto simp: canonical_def word_gt_0)
  have am: "bsize a \<le> BIGINT_MAX_LIMBS" using a by (rule bigint_wfD)
  have stop: "Q (st, q', r)" if "resource_failure u True st" "(q' = None \<longleftrightarrow> q = None) \<and> pred_option private_output q'" for st q'
    using that r by (intro Q) (auto simp: outcome_def outputs_kept_def)
  have main: "rspec u (do {
       (finished, digits, rest) \<leftarrow> divide_single_loop (bsize a) (limbs a) (limbs b ! 0) [] 0;
       if \<not> finished then State_Monad.return (BIGINT_OUT_OF_MEMORY, q', r)
       else do {
         (status, remainder) \<leftarrow> bigint_set_uint64 r rest;
         State_Monad.return (status, map_option (\<lambda>q. bigint_normalize (q\<lparr>limbs := digits\<rparr>)) q', remainder)
       } }) Q"
    if q': "(q' = None \<longleftrightarrow> q = None) \<and> pred_option private_output q' \<and> pred_option (\<lambda>x. bsize a \<le> capacity x) q'" for q'
  proof (rule triple_bind, rule divide_single_loop_wp)
    show "0 < limbs b ! 0" using d by (simp add: d_def)
    fix f rest and ds :: "u64 list"
    assume f: "u \<longrightarrow> f" and ds: "f \<Longrightarrow> length ds = bsize a \<and> rest < limbs b ! 0 \<and>
      mag ds * unat (limbs b ! 0) + unat rest = unat (0 :: u64) * LB ^ bsize a + mag (take (bsize a) (limbs a))"
    have res: "mag ds = bigint_mag a div bigint_mag b" "unat rest = bigint_mag a mod bigint_mag b" if f
    proof -
      have "mag ds * unat d + unat rest = bigint_mag a" "unat rest < unat d"
        using ds [OF that] by (simp_all add: d_def word_less_nat_alt)
      then show "mag ds = bigint_mag a div bigint_mag b" "unat rest = bigint_mag a mod bigint_mag b"
        unfolding d(2) by (auto simp flip: \<open>mag ds * unat d + unat rest = bigint_mag a\<close>)
    qed
    have quot: "quotient_ok q (map_option (\<lambda>q. bigint_normalize (q\<lparr>limbs := ds\<rparr>)) q') (bigint_mag a div bigint_mag b)"
      and kept: "pred_option private_output (map_option (\<lambda>q. bigint_normalize (q\<lparr>limbs := ds\<rparr>)) q')" if f
    proof -
      have wf: "bigint_wf (bigint_normalize (x\<lparr>limbs := ds\<rparr>)) \<and> \<not> is_negative (bigint_normalize (x\<lparr>limbs := ds\<rparr>))"
        if "q' = Some x" for x
        using that q' ds [OF \<open>f\<close>]
        by (auto intro!: normalize_wf simp: private_output_def storage_ok_def normalize_negative)
      show "quotient_ok q (map_option (\<lambda>q. bigint_normalize (q\<lparr>limbs := ds\<rparr>)) q') (bigint_mag a div bigint_mag b)"
        "pred_option private_output (map_option (\<lambda>q. bigint_normalize (q\<lparr>limbs := ds\<rparr>)) q')"
        using wf q' res(1) [OF that] by (cases q'; auto simp: quotient_ok_def private_output_def bigint_wf_storage_ok)+
    qed
    have rem: "remainder_ok a r' (bigint_mag a mod bigint_mag b)"
      if "f" "bigint_wf r'" "bigint_val r' = int (unat rest)" for r'
    proof -
      have "\<not> is_negative r'" using bigint_val_neg_iff [OF that(2)] that(3) by simp
      then show ?thesis using that res(2) [OF that(1)] by (auto simp: remainder_ok_def bigint_val_def)
    qed
    have pub: "rspec u (do { (status, remainder) \<leftarrow> bigint_set_uint64 r rest;
         State_Monad.return (status, map_option (\<lambda>q. bigint_normalize (q\<lparr>limbs := ds\<rparr>)) q', remainder) }) Q" if f
    proof (rule triple_bind, rule set_uint64_wp)
      show "storage_ok r" using r by (simp add: private_output_def)
      fix st r'
      assume o: "outcome u True st (bigint_wf r' \<and> bigint_val r' = int (unat rest)) (r' = r)"
      have "outcome u True st (quotient_ok q (map_option (\<lambda>q. bigint_normalize (q\<lparr>limbs := ds\<rparr>)) q') (bigint_mag a div bigint_mag b)
          \<and> remainder_ok a r' (bigint_mag a mod bigint_mag b))
          (outputs_kept q (map_option (\<lambda>q. bigint_normalize (q\<lparr>limbs := ds\<rparr>)) q') r')"
        by (rule outcome_mono [OF o])
          (use quot [OF that] kept [OF that] rem [OF that] r q' in \<open>auto simp: outputs_kept_def\<close>)
      then show "rspec u (case (st, r') of (status, remainder) \<Rightarrow>
        State_Monad.return (status, map_option (\<lambda>q. bigint_normalize (q\<lparr>limbs := ds\<rparr>)) q', remainder)) Q"
        by (auto intro!: wp Q)
    qed
    show "rspec u (case (f, ds @ [], rest) of (finished, digits, rest) \<Rightarrow>
       if \<not> finished then State_Monad.return (BIGINT_OUT_OF_MEMORY, q', r)
       else do {
         (status, remainder) \<leftarrow> bigint_set_uint64 r rest;
         State_Monad.return (status, map_option (\<lambda>q. bigint_normalize (q\<lparr>limbs := digits\<rparr>)) q', remainder)
       }) Q"
      using pub f q' stop by (auto intro!: triple_return)
  next
    fix ds and rest :: u64
    assume "\<not> u"
    then show "rspec u (case (False, ds, rest) of (finished, digits, rest) \<Rightarrow>
       if \<not> finished then State_Monad.return (BIGINT_OUT_OF_MEMORY, q', r)
       else do {
         (status, remainder) \<leftarrow> bigint_set_uint64 r rest;
         State_Monad.return (status, map_option (\<lambda>q. bigint_normalize (q\<lparr>limbs := digits\<rparr>)) q', remainder)
       }) Q"
      using q' stop by (auto intro!: triple_return)
  qed simp
  show ?thesis
  proof (cases q)
    case None
    show ?thesis
      unfolding divmod_single_def Let_def None option.case
      by (rule triple_bind, rule triple_return, rule triple_case_pair) (use main [of None] None in simp)
  next
    case (Some x)
    show ?thesis
      unfolding divmod_single_def Let_def Some option.case
      using q Some am
      by (intro triple_bind [of _ "State_Monad.bind _ _"] triple_bind [of _ "bigint_ensure_capacity _ _"] ensure_capacity_wp
          triple_case_pair triple_return triple_if main)
        (auto simp: private_output_def storage_ok_def outcome_def intro!: stop)
  qed
qed

definition ws_kept :: "div_workspace option \<Rightarrow> div_workspace option \<Rightarrow> bool" where
  "ws_kept w w' \<longleftrightarrow> (w' = None \<longleftrightarrow> w = None) \<and> pred_option div_ws_ok w'"

lemma acquire_arrays_wp:
  assumes w: "pred_option div_ws_ok w" and len: "n \<le> BIGINT_MAX_LIMBS"
    and Q: "\<And>st w'. ws_kept w w' \<Longrightarrow> outcome u (w = None \<or> c \<le> BIGINT_MAX_LIMBS) st True True \<Longrightarrow> Q (st, w')"
  shows "rspec u (acquire_arrays w c n ub vb) Q"
proof (cases w)
  case None
  have "Q (if \<not> x \<or> \<not> y then BIGINT_OUT_OF_MEMORY else BIGINT_OK, None)" if "u \<longrightarrow> x" "u \<longrightarrow> y" for x y
    using that None by (intro Q) (auto simp: ws_kept_def)
  then show ?thesis
    unfolding acquire_arrays_def None option.case by (auto intro!: wp)
next
  case (Some v)
  have ok: "capacity (ws_numerator v) \<le> BIGINT_MAX_LIMBS" "bsize (ws_numerator v) \<le> capacity (ws_numerator v)"
    "capacity (ws_divisor v) \<le> BIGINT_MAX_LIMBS" "bsize (ws_divisor v) \<le> capacity (ws_divisor v)"
    using w Some by (auto simp: div_ws_ok_def storage_ok_def)
  have fin: "Q (st, Some \<lparr>ws_numerator = (ws_numerator v)\<lparr>capacity := x\<rparr>, ws_divisor = (ws_divisor v)\<lparr>capacity := y\<rparr>\<rparr>)"
    if "outcome u (c \<le> BIGINT_MAX_LIMBS) st True True"
      "capacity (ws_numerator v) \<le> x" "x \<le> BIGINT_MAX_LIMBS" "capacity (ws_divisor v) \<le> y" "y \<le> BIGINT_MAX_LIMBS" for st x y
    using that ok by (intro Q) (auto simp: ws_kept_def div_ws_ok_def storage_ok_def Some elim: outcome_mono)
  have same: "ws_divisor v = (ws_divisor v)\<lparr>capacity := capacity (ws_divisor v)\<rparr>" by simp
  show ?thesis
    unfolding acquire_arrays_def Some option.case
  proof (rule triple_bind, rule ensure_capacity_wp [OF ok(1)], rule triple_case_pair)
    fix st x
    assume o1: "outcome u (c \<le> BIGINT_MAX_LIMBS) st (c \<le> x \<and> capacity (ws_numerator v) \<le> x \<and> x \<le> BIGINT_MAX_LIMBS) (x = capacity (ws_numerator v))"
    then have x: "capacity (ws_numerator v) \<le> x" "x \<le> BIGINT_MAX_LIMBS" using ok by (auto simp: outcome_def split: if_splits)
    show "rspec u (do {
       (status, dvs) \<leftarrow> (if st = BIGINT_OK then bigint_ensure_capacity (ws_divisor v) n
                        else State_Monad.return (st, ws_divisor v));
       State_Monad.return (status, Some \<lparr>ws_numerator = (ws_numerator v)\<lparr>capacity := x\<rparr>, ws_divisor = dvs\<rparr>) }) Q"
    proof (cases "st = BIGINT_OK")
      case True
      show ?thesis
        unfolding if_P [OF True]
      proof (rule triple_bind, rule ensure_capacity_wp [OF ok(3)], rule triple_case_pair, rule triple_return)
        fix st' y
        assume o2: "outcome u (n \<le> BIGINT_MAX_LIMBS) st' (n \<le> y \<and> capacity (ws_divisor v) \<le> y \<and> y \<le> BIGINT_MAX_LIMBS) (y = capacity (ws_divisor v))"
        then show "Q (st', Some \<lparr>ws_numerator = (ws_numerator v)\<lparr>capacity := x\<rparr>, ws_divisor = (ws_divisor v)\<lparr>capacity := y\<rparr>\<rparr>)"
          using x ok len by (intro fin) (auto simp: outcome_def resource_failure_def split: if_splits)
      qed
    next
      case False
      have "Q (st, Some \<lparr>ws_numerator = (ws_numerator v)\<lparr>capacity := x\<rparr>, ws_divisor = ws_divisor v\<rparr>)"
        using fin [of st x "capacity (ws_divisor v)"] o1 x ok False by (simp add: outcome_def)
      then show ?thesis unfolding if_not_P [OF False] by (intro triple_bind triple_return triple_case_pair)
    qed
  qed
qed

lemma divmod_long_wp:
  assumes q: "pred_option private_output q" and r: "private_output r" and w: "pred_option div_ws_ok w"
    and a: "bigint_wf a" and b: "bigint_wf b" "2 \<le> bsize b" "bsize b \<le> bsize a"
    and Q: "\<And>st q' r' w'. ws_kept w w' \<Longrightarrow> outcome u (w = None \<or> Suc (bsize a) \<le> BIGINT_MAX_LIMBS) st
       (quotient_ok q q' (bigint_mag a div bigint_mag b) \<and> remainder_ok a r' (bigint_mag a mod bigint_mag b))
       (outputs_kept q q' r') \<Longrightarrow> Q (st, q', r', w')"
  shows "rspec u (divmod_long q r a b w) Q"
proof -
  let ?n = "bsize b" and ?m = "bsize a - bsize b"
  let ?F = "w = None \<or> Suc (bsize a) \<le> BIGINT_MAX_LIMBS"
  have am: "bsize a \<le> BIGINT_MAX_LIMBS" using a by (rule bigint_wfD)
  then have sizes: "bigint_size_add (bsize a) 1 = Some (bsize a + 1)"
    "bigint_size_mul (bsize a + 1) 8 = Some ((bsize a + 1) * 8)" "bigint_size_mul ?n 8 = Some (?n * 8)"
    using max_limbs_8 [OF am] max_limbs_Suc [OF am] b(3) by (simp_all add: SIZE_MAX_def)
  have w_refl: "ws_kept w w" using w by (simp add: ws_kept_def)
  define T where "T = (\<lambda>q' r'. do {
              (status, workspace) \<leftarrow> acquire_arrays w (bsize a + 1) ?n ((bsize a + 1) * 8) (?n * 8);
              if status \<noteq> BIGINT_OK then State_Monad.return (status, q', r', workspace)
              else do {
                (finished, digits, rest) \<leftarrow> division_arrays (limbs a) (limbs b);
                if \<not> finished
                then State_Monad.return (BIGINT_OUT_OF_MEMORY, q', r', workspace)
                else State_Monad.return (BIGINT_OK,
                  map_option (\<lambda>q. bigint_normalize (q\<lparr>limbs := digits\<rparr>)) q',
                  bigint_normalize (r'\<lparr>limbs := rest\<rparr>), workspace)
              } })"
  have t: "rspec u (T q' r') Q"
    if q': "(q' = None \<longleftrightarrow> q = None)" "pred_option (\<lambda>x. private_output x \<and> ?m + 1 \<le> capacity x) q'"
      and r': "private_output r'" "?n \<le> capacity r'" for q' r'
    unfolding T_def
  proof (rule triple_bind, rule acquire_arrays_wp [OF w], use am b(3) in linarith, rule triple_case_pair)
    fix st w'
    assume w': "ws_kept w w'" and o: "outcome u (w = None \<or> bsize a + 1 \<le> BIGINT_MAX_LIMBS) st True True"
    have kept: "outputs_kept q q' r'" using q' r' by (cases q') (auto simp: outputs_kept_def)
    have stop: "Q (st, q', r', w')" if "resource_failure u ?F st" for st
      using that w' kept by (intro Q) (auto simp: outcome_def)
    have fin: "Q (BIGINT_OK, map_option (\<lambda>q. bigint_normalize (q\<lparr>limbs := ds\<rparr>)) q', bigint_normalize (r'\<lparr>limbs := rs\<rparr>), w')"
      if ds: "length ds = ?m + 1" "length rs = ?n" "mag ds = bigint_mag a div bigint_mag b" "mag rs = bigint_mag a mod bigint_mag b" for ds rs
    proof (rule Q [OF w'])
      have r: "remainder_ok a (bigint_normalize (r'\<lparr>limbs := rs\<rparr>)) (bigint_mag a mod bigint_mag b)"
        using r' ds by (auto intro!: normalize_wf simp: remainder_ok_def private_output_def storage_ok_def normalize_negative)
      have wf: "bigint_wf (bigint_normalize (x\<lparr>limbs := ds\<rparr>)) \<and> \<not> is_negative (bigint_normalize (x\<lparr>limbs := ds\<rparr>))"
        if "q' = Some x" for x
        using that q' ds by (auto intro!: normalize_wf simp: private_output_def storage_ok_def normalize_negative)
      have "quotient_ok q (map_option (\<lambda>q. bigint_normalize (q\<lparr>limbs := ds\<rparr>)) q') (bigint_mag a div bigint_mag b)"
        using wf q'(1) ds(3) by (cases q') (auto simp: quotient_ok_def)
      with r show "outcome u ?F BIGINT_OK
        (quotient_ok q (map_option (\<lambda>q. bigint_normalize (q\<lparr>limbs := ds\<rparr>)) q') (bigint_mag a div bigint_mag b) \<and>
         remainder_ok a (bigint_normalize (r'\<lparr>limbs := rs\<rparr>)) (bigint_mag a mod bigint_mag b))
        (outputs_kept q (map_option (\<lambda>q. bigint_normalize (q\<lparr>limbs := ds\<rparr>)) q') (bigint_normalize (r'\<lparr>limbs := rs\<rparr>)))" by simp
    qed
    show "rspec u (if st \<noteq> BIGINT_OK then State_Monad.return (st, q', r', w')
              else do {
                (finished, digits, rest) \<leftarrow> division_arrays (limbs a) (limbs b);
                if \<not> finished
                then State_Monad.return (BIGINT_OUT_OF_MEMORY, q', r', w')
                else State_Monad.return (BIGINT_OK,
                  map_option (\<lambda>q. bigint_normalize (q\<lparr>limbs := digits\<rparr>)) q',
                  bigint_normalize (r'\<lparr>limbs := rest\<rparr>), w') }) Q"
      using o b bigint_wfD(1) [OF b(1)]
      by (intro triple_if triple_bind [of _ "division_arrays _ _"] division_arrays_wp triple_case_pair triple_return stop fin)
        (auto simp: outcome_def)
  qed
  define S where "S = (\<lambda>st q'. do {
            (status, remainder) \<leftarrow> (if st = BIGINT_OK then bigint_ensure_capacity r ?n
                                   else State_Monad.return (st, r));
            if status \<noteq> BIGINT_OK then State_Monad.return (status, q', remainder, w)
            else T q' remainder })"
  have s: "rspec u (S st q') Q"
    if o: "outcome u ?F st (pred_option (\<lambda>x. ?m + 1 \<le> capacity x) q') True"
      and q': "(q' = None \<longleftrightarrow> q = None)" "pred_option private_output q'" for st q'
  proof -
    have stop: "Q (st, q', r\<lparr>capacity := c\<rparr>, w)"
      if "resource_failure u ?F st" "capacity r \<le> c" "c \<le> BIGINT_MAX_LIMBS" for st c
      using that w_refl q' r by (intro Q) (auto simp: outcome_def outputs_kept_def private_output_def storage_ok_def)
    have stop': "Q (st, q', r, w)" if "resource_failure u ?F st" for st
      using stop [OF that, of "capacity r"] r by (simp add: private_output_def storage_ok_def)
    have rc: "capacity r \<le> BIGINT_MAX_LIMBS" "bsize r \<le> capacity r" "\<not> is_negative r"
      using r by (simp_all add: private_output_def storage_ok_def)
    have nm: "?n \<le> BIGINT_MAX_LIMBS" using am b(3) by linarith
    show ?thesis
    proof (cases "st = BIGINT_OK")
      case True
      have qq: "pred_option (\<lambda>x. private_output x \<and> ?m + 1 \<le> capacity x) q'"
        using o q' True by (cases q') auto
      show ?thesis
        unfolding S_def if_P [OF True]
      proof (rule triple_bind, rule ensure_capacity_wp [OF rc(1)], rule triple_case_pair, rule triple_if)
        fix st c
        assume o: "outcome u (?n \<le> BIGINT_MAX_LIMBS) st (?n \<le> c \<and> capacity r \<le> c \<and> c \<le> BIGINT_MAX_LIMBS) (c = capacity r)"
        show "rspec u (State_Monad.return (st, q', r\<lparr>capacity := c\<rparr>, w)) Q" if "st \<noteq> BIGINT_OK"
          using o that rc nm by (intro triple_return stop) (auto simp: resource_failure_def)
        show "rspec u (T q' (r\<lparr>capacity := c\<rparr>)) Q" if "\<not> st \<noteq> BIGINT_OK"
          using o that rc q' qq by (intro t) (auto simp: private_output_def storage_ok_def)
      qed
    next
      case False
      then have "Q (st, q', r, w)" using o by (intro stop') simp
      then show ?thesis unfolding S_def if_not_P [OF False] using False by (auto intro!: triple_bind triple_return)
    qed
  qed
  have unf: "divmod_long q r a b w = do {
            (status, q') \<leftarrow> (case q of
                None \<Rightarrow> State_Monad.return (BIGINT_OK, None)
              | Some q \<Rightarrow> do {
                  (status, q) \<leftarrow> bigint_ensure_capacity q (?m + 1);
                  State_Monad.return (status, Some q)
                });
            S status q' }"
    unfolding divmod_long_def Let_def sizes option.case S_def T_def ..
  show ?thesis
  proof (cases q)
    case None
    show ?thesis unfolding unf unfolding None option.case
      by (rule triple_bind, rule triple_return, rule triple_case_pair, rule s) (simp_all add: None)
  next
    case (Some x)
    have x: "capacity x \<le> BIGINT_MAX_LIMBS" "bsize x \<le> capacity x" "\<not> is_negative x"
      using q Some by (simp_all add: private_output_def storage_ok_def)
    have mm: "?m + 1 \<le> BIGINT_MAX_LIMBS" using am b by linarith
    show ?thesis unfolding unf unfolding Some option.case
    proof (intro triple_bind [of _ "State_Monad.bind _ _"] triple_bind [of _ "bigint_ensure_capacity _ _"] ensure_capacity_wp [OF x(1)]
        triple_case_pair triple_return, rule s)
      fix st c
      assume o: "outcome u (?m + 1 \<le> BIGINT_MAX_LIMBS) st (?m + 1 \<le> c \<and> capacity x \<le> c \<and> c \<le> BIGINT_MAX_LIMBS) (c = capacity x)"
      show "outcome u ?F st (pred_option (\<lambda>x. ?m + 1 \<le> capacity x) (Some (x\<lparr>capacity := c\<rparr>))) True"
        by (rule outcome_mono [OF o]) (use mm in auto)
      show "pred_option private_output (Some (x\<lparr>capacity := c\<rparr>))"
        using o x by (auto simp: private_output_def storage_ok_def outcome_def split: if_splits)
    qed (simp add: Some)
  qed
qed

lemma remainder_ok_self:
  assumes "bigint_wf a" "bigint_wf r" "bigint_val r = bigint_val a" "is_negative r = is_negative a"
    "bigint_mag a < m"
  shows "remainder_ok a r (bigint_mag a mod m)"
  using assms abs_bigint_val [of a] abs_bigint_val [of r] by (simp add: remainder_ok_def)

lemma divmod_abs_core_wp:
  assumes q: "pred_option private_output q" and r: "private_output r" and w: "pred_option div_ws_ok w"
    and a: "bigint_wf a" and b: "bigint_wf b" "limbs b \<noteq> []"
    and Q: "\<And>st q' r' w'. ws_kept w w' \<Longrightarrow> outcome u (w = None \<or> Suc (bsize a) \<le> BIGINT_MAX_LIMBS) st
       (quotient_ok q q' (bigint_mag a div bigint_mag b) \<and> remainder_ok a r' (bigint_mag a mod bigint_mag b))
       (outputs_kept q q' r') \<Longrightarrow> Q (st, q', r', w')"
  shows "rspec u (bigint_divmod_abs_core q r a b w) Q"
proof -
  let ?F = "w = None \<or> Suc (bsize a) \<le> BIGINT_MAX_LIMBS"
  define q0 where "q0 = map_option (\<lambda>q. q\<lparr>limbs := []\<rparr>) q"
  define r0 where "r0 = r\<lparr>limbs := []\<rparr>"
  have q0: "(q0 = None \<longleftrightarrow> q = None) \<and> pred_option private_output q0"
    using q by (cases q) (auto simp: q0_def private_output_def storage_ok_def)
  have r0: "private_output r0" "storage_ok r0" "bigint_wf r0" "bigint_mag r0 = 0" "\<not> is_negative r0"
    using r by (auto simp: r0_def private_output_def storage_ok_def bigint_wf_def)
  have q0z: "quotient_ok q q0 0"
    using q by (cases q) (auto simp: q0_def quotient_ok_def private_output_def storage_ok_def bigint_wf_def)
  have w_refl: "ws_kept w w" using w by (simp add: ws_kept_def)
  have kept0: "outputs_kept q q0 r0" using q0 r0 by (simp add: outputs_kept_def)
  have quot_old: "quotient_ok q q' x \<longleftrightarrow> quotient_ok q0 q' x" for q' x
    using q0 by (auto simp: quotient_ok_def split: option.split)
  have kept_old: "outputs_kept q0 q' r' \<longleftrightarrow> outputs_kept q q' r'" for q' r'
    using q0 by (auto simp: outputs_kept_def)
  have cmp: "bigint_compare_abs a b = sgn (int (bigint_mag a) - int (bigint_mag b))"
    using a b by (intro compare_abs_sgn) (auto dest: bigint_wfD)
  have bpos: "0 < bigint_mag b" using b mag_eq_0_iff [of "limbs b"] bigint_wfD(1) [OF b(1)] by auto
  have oom: "Q (BIGINT_OUT_OF_MEMORY, q0, r0, w)" if "\<not> u" using that kept0 w_refl by (intro Q) auto
  have zero: "Q (BIGINT_OK, q0, r0, w)" if "bsize a = 0"
    using that w_refl q0z r0 by (intro Q) (auto simp: remainder_ok_def)
  have less: "rspec u (do { (status, remainder) \<leftarrow> bigint_copy r0 a;
               State_Monad.return (status, q0, remainder, w) }) Q" if "bigint_compare_abs a b < 0"
  proof (rule triple_bind, rule copy_wp [OF r0(2) a])
    have lt: "bigint_mag a < bigint_mag b" using that cmp by (simp add: sgn_if split: if_splits)
    fix st r'
    assume o: "outcome u True st (bigint_wf r' \<and> bigint_val r' = bigint_val a \<and> limbs r' = limbs a \<and>
      is_negative r' = is_negative a \<and> capacity r0 \<le> capacity r') (r' = r0)"
    have "outcome u ?F st (quotient_ok q q0 (bigint_mag a div bigint_mag b) \<and>
        remainder_ok a r' (bigint_mag a mod bigint_mag b)) (outputs_kept q q0 r')"
      by (rule outcome_mono [OF o]) (use lt q0z kept0 remainder_ok_self [OF a] in auto)
    then show "rspec u (case (st, r') of (status, remainder) \<Rightarrow> State_Monad.return (status, q0, remainder, w)) Q"
      using w_refl by (auto intro!: wp Q)
  qed
  have equal: "rspec u (case q0 of
                  None \<Rightarrow> State_Monad.return (BIGINT_OK, None, r0, w)
                | Some q \<Rightarrow> do {
                    (status, q) \<leftarrow> bigint_set_uint64 q 1;
                    State_Monad.return (status, Some q, r0, w)
                  }) Q" if "bigint_compare_abs a b = 0"
  proof -
    have eq: "bigint_mag a = bigint_mag b" using that cmp by (simp add: sgn_if split: if_splits)
    have rem: "remainder_ok a r0 (bigint_mag a mod bigint_mag b)" using r0 eq by (simp add: remainder_ok_def)
    show ?thesis
    proof (cases q0)
      case None
      then have "Q (BIGINT_OK, None, r0, w)" using rem w_refl q0 by (intro Q) (auto simp: quotient_ok_def)
      then show ?thesis unfolding None by (auto intro!: wp)
    next
      case (Some x)
      have x: "storage_ok x" "q \<noteq> None" using q0 Some by (auto simp: private_output_def)
      show ?thesis
        unfolding Some option.case
      proof (rule triple_bind, rule set_uint64_wp [OF x(1)])
        fix st x'
        assume o: "outcome u True st (bigint_wf x' \<and> bigint_val x' = int (unat (1 :: u64))) (x' = x)"
        have "outcome u ?F st (quotient_ok q (Some x') (bigint_mag a div bigint_mag b) \<and>
            remainder_ok a r0 (bigint_mag a mod bigint_mag b)) (outputs_kept q (Some x') r0)"
        proof (rule outcome_mono [OF o])
          assume "bigint_wf x' \<and> bigint_val x' = int (unat (1 :: u64))"
          then have x': "bigint_wf x'" "bigint_val x' = 1" by simp_all
          then have "\<not> is_negative x'" using bigint_val_neg_iff [of x'] by simp
          then show "quotient_ok q (Some x') (bigint_mag a div bigint_mag b) \<and> remainder_ok a r0 (bigint_mag a mod bigint_mag b)"
            using x' x(2) rem eq bpos by (auto simp: quotient_ok_def bigint_val_def)
        qed (use kept0 Some in auto)
        then show "rspec u (case (st, x') of (status, q) \<Rightarrow> State_Monad.return (status, Some q, r0, w)) Q"
          using w_refl by (auto intro!: wp Q)
      qed
    qed
  qed
  have single: "rspec u (do { (status, quot, remainder) \<leftarrow> divmod_single q0 r0 a b;
               State_Monad.return (status, quot, remainder, w) }) Q" if "bsize b = 1"
  proof (rule triple_bind, rule divmod_single_wp [OF _ r0(1) a b(1) that])
    fix st q' r'
    assume o: "outcome u True st (quotient_ok q0 q' (bigint_mag a div bigint_mag b) \<and>
       remainder_ok a r' (bigint_mag a mod bigint_mag b)) (outputs_kept q0 q' r')"
    have "Q (st, q', r', w)" by (rule Q [OF w_refl outcome_mono [OF o]]) (auto simp: quot_old kept_old)
    then show "rspec u (case (st, q', r') of (status, quot, remainder) \<Rightarrow>
        State_Monad.return (status, quot, remainder, w)) Q" by (auto intro!: wp)
  qed (use q0 in simp)
  have long: "rspec u (divmod_long q0 r0 a b w) Q"
    if "\<not> bigint_compare_abs a b < 0" "bigint_compare_abs a b \<noteq> 0" "bsize b \<noteq> 1"
  proof (rule divmod_long_wp [OF _ r0(1) w a b(1)])
    have "bigint_mag b < bigint_mag a" using that cmp by (simp add: sgn_if split: if_splits)
    then show "bsize b \<le> bsize a"
      using mag_length_less [of "limbs b" "limbs a"] bigint_wfD(1) [OF b(1)] by (auto simp flip: not_less)
    show "2 \<le> bsize b" using that(3) b(2) by (cases "limbs b") (auto simp: Suc_le_eq)
    fix st q' r' w'
    assume "ws_kept w w'" and o: "outcome u ?F st (quotient_ok q0 q' (bigint_mag a div bigint_mag b) \<and>
       remainder_ok a r' (bigint_mag a mod bigint_mag b)) (outputs_kept q0 q' r')"
    then show "Q (st, q', r', w')" by (intro Q outcome_mono [OF o]) (auto simp: quot_old kept_old)
  qed (use q0 in simp)
  show ?thesis
    unfolding bigint_divmod_abs_core_def Let_def q0_def [symmetric] r0_def [symmetric]
    by (rule triple_bind, rule budget_check_wp)
      (intro triple_if triple_return less equal single long; use oom zero in auto)
qed

lemma divmod_abs_wp [wp]:
  assumes "private_output q" "private_output r" "bigint_wf a" "bigint_wf b" "limbs b \<noteq> []"
    and Q: "\<And>st q' r'. outcome u True st
       (bigint_wf q' \<and> \<not> is_negative q' \<and> bigint_mag q' = bigint_mag a div bigint_mag b \<and>
        bigint_wf r' \<and> bigint_mag r' = bigint_mag a mod bigint_mag b)
       (private_output q' \<and> private_output r') \<Longrightarrow> Q (st, q', r')"
  shows "rspec u (bigint_divmod_abs q r a b) Q"
  unfolding bigint_divmod_abs_def
proof (rule triple_bind, rule divmod_abs_core_wp [OF _ assms(2) _ assms(3-5)])
  fix st q' r' and w' :: "div_workspace option"
  assume o: "outcome u (None = None \<or> Suc (bsize a) \<le> BIGINT_MAX_LIMBS) st
     (quotient_ok (Some q) q' (bigint_mag a div bigint_mag b) \<and> remainder_ok a r' (bigint_mag a mod bigint_mag b))
     (outputs_kept (Some q) q' r')"
  have "Q (st, the q', r')"
    by (rule Q [OF outcome_mono [OF o]])
      (auto simp: quotient_ok_def remainder_ok_def outputs_kept_def split: option.splits)
  then show "rspec u (case (st, q', r', w') of (status, q, remainder, w) \<Rightarrow> State_Monad.return (status, the q, remainder)) Q"
    by (auto intro!: wp)
qed (use assms(1) in simp_all)

lemma divmod_abs_workspace_wp [wp]:
  assumes "private_output q" "private_output r" "div_ws_ok w" "bigint_wf a" "bigint_wf b" "limbs b \<noteq> []"
    and Q: "\<And>st q' r' w'. div_ws_ok w' \<Longrightarrow> outcome u (Suc (bsize a) \<le> BIGINT_MAX_LIMBS) st
       (bigint_wf q' \<and> \<not> is_negative q' \<and> bigint_mag q' = bigint_mag a div bigint_mag b \<and>
        bigint_wf r' \<and> bigint_mag r' = bigint_mag a mod bigint_mag b \<and> (is_negative r' \<longrightarrow> is_negative a))
       (private_output q' \<and> private_output r') \<Longrightarrow> Q (st, q', r', w')"
  shows "rspec u (bigint_divmod_abs_workspace q r a b w) Q"
  unfolding bigint_divmod_abs_workspace_def
proof (rule triple_bind, rule divmod_abs_core_wp [OF _ assms(2) _ assms(4-6)])
  fix st q' r' w'
  assume k: "ws_kept (Some w) w'" and o: "outcome u (Some w = None \<or> Suc (bsize a) \<le> BIGINT_MAX_LIMBS) st
     (quotient_ok (Some q) q' (bigint_mag a div bigint_mag b) \<and> remainder_ok a r' (bigint_mag a mod bigint_mag b))
     (outputs_kept (Some q) q' r')"
  have "Q (st, the q', r', the w')"
    by (rule Q [OF _ outcome_mono [OF o]])
      (use k in \<open>auto simp: ws_kept_def quotient_ok_def remainder_ok_def outputs_kept_def split: option.splits\<close>)
  then show "rspec u (case (st, q', r', w') of (status, q, remainder, w) \<Rightarrow> State_Monad.return (status, the q, remainder, the w)) Q"
    by (auto intro!: wp)
qed (use assms(1,3) in simp_all)

lemma mod_abs_workspace_wp [wp]:
  assumes "private_output r" "div_ws_ok w" "bigint_wf a" "bigint_wf b" "limbs b \<noteq> []"
    and Q: "\<And>st r' w'. div_ws_ok w' \<Longrightarrow> outcome u (Suc (bsize a) \<le> BIGINT_MAX_LIMBS) st
       (bigint_wf r' \<and> bigint_mag r' = bigint_mag a mod bigint_mag b \<and> (is_negative r' \<longrightarrow> is_negative a))
       (private_output r') \<Longrightarrow> Q (st, r', w')"
  shows "rspec u (bigint_mod_abs_workspace r a b w) Q"
  unfolding bigint_mod_abs_workspace_def
proof (rule triple_bind, rule divmod_abs_core_wp [OF _ assms(1) _ assms(3-5)])
  fix st q' r' w'
  assume k: "ws_kept (Some w) w'" and o: "outcome u (Some w = None \<or> Suc (bsize a) \<le> BIGINT_MAX_LIMBS) st
     (quotient_ok None q' (bigint_mag a div bigint_mag b) \<and> remainder_ok a r' (bigint_mag a mod bigint_mag b))
     (outputs_kept None q' r')"
  have "Q (st, r', the w')"
    by (rule Q [OF _ outcome_mono [OF o]])
      (use k in \<open>auto simp: ws_kept_def remainder_ok_def outputs_kept_def\<close>)
  then show "rspec u (case (st, q', r', w') of (status, q, remainder, w) \<Rightarrow> State_Monad.return (status, remainder, the w)) Q"
    by (auto intro!: wp)
qed (use assms(2) in simp_all)

end
