(* ===== verification/BigInt_Contract.thy ===== *)
theory BigInt_Contract
  imports BigInt_Mul
begin

text \<open>
  The contract that the operations of the public interface \<^verbatim>\<open>numforge/bigint.h\<close>
  share, as locales. An operation takes the object it writes and its operands, and returns
  a status and the new value of that object.

  \<^item> \<open>bigint_unary op f fits\<close>: \<open>op\<close> computes the integer function \<open>f\<close>; with unlimited
    resources it succeeds on operands that satisfy \<open>fits\<close>.
  \<^item> \<open>bigint_binary op f fits\<close>: the same for two operands.
  \<^item> \<open>bigint_commutative\<close>: \<open>f\<close> is commutative.

  The client lemmas say what follows for every such operation: what a run returns, that an
  operand may be the destination, that the limbs and the sign of a result depend on the
  values of the operands only (not on capacities, budget, clock or allocator), and that a
  failure leaves the destination as it was.
\<close>

section \<open>Results\<close>

text \<open>The outcome that all operations with one result share.\<close>

definition result_ok :: "bool \<Rightarrow> bool \<Rightarrow> BigInt \<Rightarrow> int \<Rightarrow> BigIntStatus \<Rightarrow> BigInt \<Rightarrow> bool" where
  "result_ok u fits old v st new \<longleftrightarrow>
     outcome u fits st (bigint_wf new \<and> bigint_val new = v) (new = old)"

lemma result_okI: "outcome u fits st (bigint_wf new \<and> bigint_val new = v) (new = old) \<Longrightarrow> result_ok u fits old v st new"
  by (simp add: result_ok_def)

lemma result_ok_OK [simp]: "result_ok u F old v BIGINT_OK new \<longleftrightarrow> bigint_wf new \<and> bigint_val new = v"
  by (simp add: result_ok_def)

lemma result_ok_fail [simp]:
  "st \<noteq> BIGINT_OK \<Longrightarrow> result_ok u F old v st new \<longleftrightarrow> resource_failure u F st \<and> new = old"
  by (simp add: result_ok_def)

lemma result_ok_failI:
  "resource_failure u X st \<Longrightarrow> (F \<Longrightarrow> X) \<Longrightarrow> result_ok u F r v st r"
  by (auto simp: result_ok_def outcome_def resource_failure_def)

lemma result_ok_unlimited [simp]:
  "result_ok True True r v st r' \<longleftrightarrow> st = BIGINT_OK \<and> bigint_wf r' \<and> bigint_val r' = v"
  by (auto simp: result_ok_def outcome_def resource_failure_def)

lemma storage_ok_init [simp]: "storage_ok bigint_init"
  by (simp add: bigint_wf_storage_ok)

lemma bsize_wrap_uint64: "bsize (bigint_wrap_uint64 n) = of_bool (n \<noteq> 0)"
  by (simp add: bigint_wrap_uint64_def)

lemma max_limbs_numeral: "BIGINT_MAX_LIMBS = 288230376151711743"
  by (simp add: BIGINT_MAX_LIMBS_def SIZE_MAX_def)

lemmas example_simps = bsize_wrap_uint64 max_limbs_numeral

section \<open>Operations with one operand\<close>

locale bigint_unary =
  fixes op :: "BigInt \<Rightarrow> BigInt \<Rightarrow> (BigIntStatus \<times> BigInt) rt"
    and f :: "int \<Rightarrow> int"
    and fits :: "BigInt \<Rightarrow> bool"
  assumes contract: "storage_ok r \<Longrightarrow> bigint_wf a \<Longrightarrow>
    rspec u (op r a) (\<lambda>(st, r'). result_ok u (fits a) r (f (bigint_val a)) st r')"
begin

lemma run:
  assumes "\<not> stuck s" "storage_ok r" "bigint_wf a"
  shows "case run_state (op r a) s of ((st, r'), s') \<Rightarrow>
    \<not> stuck s' \<and> result_ok (unlimited s) (fits a) r (f (bigint_val a)) st r'"
  by (rule rspec_run2 [OF contract [OF assms(2,3)] assms(1)])

lemma determined:
  assumes "\<not> stuck s" "storage_ok r" "bigint_wf a" "run_state (op r a) s = ((BIGINT_OK, x), s')"
    and "\<not> stuck t" "storage_ok q" "bigint_wf b" "run_state (op q b) t = ((BIGINT_OK, y), t')"
    and "bigint_val a = bigint_val b"
  shows "limbs x = limbs y \<and> is_negative x = is_negative y"
  using run [OF assms(1-3)] run [OF assms(5-7)] assms(4,8,9) by (intro bigint_val_inj) auto

end

section \<open>Operations with two operands\<close>

locale bigint_binary =
  fixes op :: "BigInt \<Rightarrow> BigInt \<Rightarrow> BigInt \<Rightarrow> (BigIntStatus \<times> BigInt) rt"
    and f :: "int \<Rightarrow> int \<Rightarrow> int"
    and fits :: "BigInt \<Rightarrow> BigInt \<Rightarrow> bool"
  assumes contract: "storage_ok r \<Longrightarrow> bigint_wf a \<Longrightarrow> bigint_wf b \<Longrightarrow>
    rspec u (op r a b) (\<lambda>(st, r'). result_ok u (fits a b) r (f (bigint_val a) (bigint_val b)) st r')"
begin

lemma run:
  assumes "\<not> stuck s" "storage_ok r" "bigint_wf a" "bigint_wf b"
  shows "case run_state (op r a b) s of ((st, r'), s') \<Rightarrow>
    \<not> stuck s' \<and> result_ok (unlimited s) (fits a b) r (f (bigint_val a) (bigint_val b)) st r'"
  by (rule rspec_run2 [OF contract [OF assms(2-4)] assms(1)])

text \<open>The destination may be an operand: \<^verbatim>\<open>op(x, x, x)\<close>.\<close>

lemma in_place:
  assumes "\<not> stuck s" "bigint_wf x"
  shows "case run_state (op x x x) s of ((st, x'), s') \<Rightarrow>
    \<not> stuck s' \<and> bigint_wf x' \<and>
    bigint_val x' = (if st = BIGINT_OK then f (bigint_val x) (bigint_val x) else bigint_val x)"
  using run [OF assms(1) bigint_wf_storage_ok [OF assms(2)] assms(2,2)] assms(2)
  by (auto simp: result_ok_def outcome_def split: prod.splits if_splits)

lemma determined:
  assumes "\<not> stuck s" "storage_ok r" "bigint_wf a" "bigint_wf b" "run_state (op r a b) s = ((BIGINT_OK, x), s')"
    and "\<not> stuck t" "storage_ok q" "bigint_wf c" "bigint_wf d" "run_state (op q c d) t = ((BIGINT_OK, y), t')"
    and "f (bigint_val a) (bigint_val b) = f (bigint_val c) (bigint_val d)"
  shows "limbs x = limbs y \<and> is_negative x = is_negative y"
  using run [OF assms(1-4)] run [OF assms(6-9)] assms(5,10,11) by (intro bigint_val_inj) auto

end

locale bigint_commutative = bigint_binary +
  assumes commutes: "f x y = f y x"
begin

text \<open>Exchanging the operands gives the same object.\<close>

lemma exchange:
  assumes "\<not> stuck s" "storage_ok r" "bigint_wf a" "bigint_wf b" "run_state (op r a b) s = ((BIGINT_OK, x), s')"
    and "\<not> stuck t" "storage_ok q" "run_state (op q b a) t = ((BIGINT_OK, y), t')"
  shows "limbs x = limbs y \<and> is_negative x = is_negative y"
  using assms commutes [of "bigint_val a" "bigint_val b"] by (intro determined [OF assms(1-7) assms(4,3,8)]) auto

end

end
