(* ===== verification/BigInt_Arith.thy ===== *)
theory BigInt_Arith
  imports BigInt_Divmod BigInt_Contract
begin

text \<open>
  The signed operations of \<^verbatim>\<open>src/core/bigint/arithmetic.c\<close>: sum,
  difference, negation, absolute value, truncating division and powers. (The product is in
  \<^verbatim>\<open>BigInt_Mul\<close>.)

  The rule of an operation says that it returns the integer it should, that the result is
  canonical, that it fails only for want of resources, and that a failed operation leaves
  its destination as it was.
\<close>

unbundle bit_operations_syntax

section \<open>Sum and difference\<close>

definition bigint_add :: "BigInt \<Rightarrow> BigInt \<Rightarrow> BigInt \<Rightarrow> (BigIntStatus \<times> BigInt) rt" where
  "bigint_add result a b = do {
     (negative, status, result) \<leftarrow>
       (if is_negative a \<and> is_negative b then do {
          (status, result) \<leftarrow> bigint_add_abs result a b;
          State_Monad.return (True, status, result)
        }
        else if is_negative a \<or> is_negative b then
          let comparison = bigint_compare_abs a b
          in if is_negative a then do {
               (status, result) \<leftarrow> (if comparison > 0 then bigint_subtract_abs result a b
                                   else bigint_subtract_abs result b a);
               State_Monad.return (comparison > 0, status, result)
             }
             else do {
               (status, result) \<leftarrow> (if comparison \<ge> 0 then bigint_subtract_abs result a b
                                   else bigint_subtract_abs result b a);
               State_Monad.return (comparison < 0, status, result)
             }
        else do {
          (status, result) \<leftarrow> bigint_add_abs result a b;
          State_Monad.return (False, status, result)
        });
     State_Monad.return (status,
       if status = BIGINT_OK then bigint_normalize (result\<lparr>is_negative := negative\<rparr>) else result)
   }"

definition bigint_abs :: "BigInt \<Rightarrow> BigInt \<Rightarrow> (BigIntStatus \<times> BigInt) rt" where
  "bigint_abs result value = do {
     (status, result) \<leftarrow> bigint_copy result value;
     if status \<noteq> BIGINT_OK then State_Monad.return (status, result)
     else State_Monad.return (BIGINT_OK, result\<lparr>is_negative := False\<rparr>)
   }"

definition bigint_negate :: "BigInt \<Rightarrow> BigInt \<Rightarrow> (BigIntStatus \<times> BigInt) rt" where
  "bigint_negate result value = do {
     (status, result) \<leftarrow> bigint_copy result value;
     if status \<noteq> BIGINT_OK then State_Monad.return (status, result)
     else State_Monad.return
       (BIGINT_OK, bigint_normalize (result\<lparr>is_negative := \<not> is_negative value\<rparr>))
   }"

definition bigint_sub :: "BigInt \<Rightarrow> BigInt \<Rightarrow> BigInt \<Rightarrow> (BigIntStatus \<times> BigInt) rt" where
  "bigint_sub result a b = do {
     (status, negated_b) \<leftarrow> bigint_negate bigint_init b;
     if status = BIGINT_OK then bigint_add result a negated_b
     else State_Monad.return (status, result)
   }"

lemma signed_result:
  assumes "storage_ok r" "canonical (limbs r)" "(if neg then - int (bigint_mag r) else int (bigint_mag r)) = v"
  shows "bigint_wf (bigint_normalize (r\<lparr>is_negative := neg\<rparr>))"
    and "bigint_val (bigint_normalize (r\<lparr>is_negative := neg\<rparr>)) = v"
proof -
  show "bigint_wf (bigint_normalize (r\<lparr>is_negative := neg\<rparr>))"
    using assms(1) by (intro normalize_wf) (auto simp: storage_ok_def)
  show "bigint_val (bigint_normalize (r\<lparr>is_negative := neg\<rparr>)) = v"
    unfolding normalize_val using assms(3) by (simp add: bigint_val_def split: if_splits)
qed

lemma add_wp [wp]:
  assumes r: "storage_ok r" and a: "bigint_wf a" and b: "bigint_wf b"
    and Q: "\<And>st r'. result_ok u (Suc (max (bsize a) (bsize b)) \<le> BIGINT_MAX_LIMBS) r (bigint_val a + bigint_val b) st r' \<Longrightarrow> Q (st, r')"
  shows "rspec u (bigint_add r a b) Q"
proof -
  let ?F = "Suc (max (bsize a) (bsize b)) \<le> BIGINT_MAX_LIMBS"
  have rc: "capacity r \<le> BIGINT_MAX_LIMBS" using r by (simp add: storage_ok_def)
  have ac: "storage_ok a" "canonical (limbs a)" "storage_ok b" "canonical (limbs b)"
    using a b by (auto simp: bigint_wf_iff)
  have cmp: "bigint_compare_abs a b = sgn (int (bigint_mag a) - int (bigint_mag b))"
    using ac by (intro compare_abs_sgn)
  have fin: "Q (st, if st = BIGINT_OK then bigint_normalize (x\<lparr>is_negative := neg\<rparr>) else x)"
    if "outcome u ?F st (storage_ok x \<and> canonical (limbs x) \<and> (if neg then - int (bigint_mag x) else int (bigint_mag x)) = bigint_val a + bigint_val b) (x = r)"
    for st x neg
    using that signed_result [of x neg] by (intro Q) (auto simp: result_ok_def outcome_def)
  have sum: "rspec u (bigint_add_abs r a b) (\<lambda>x. rspec u (case x of (st, x) \<Rightarrow> State_Monad.return (neg, st, x))
      (\<lambda>x. rspec u (case x of (negative, status, result) \<Rightarrow> State_Monad.return (status,
         if status = BIGINT_OK then bigint_normalize (result\<lparr>is_negative := negative\<rparr>) else result)) Q))"
    if "is_negative a = neg" "is_negative b = neg" for neg
  proof (rule add_abs_wp [OF rc ac], intro triple_case_pair triple_return, rule fin)
    fix st x
    assume o: "outcome u ?F st (storage_ok x \<and> canonical (limbs x) \<and> bigint_mag x = bigint_mag a + bigint_mag b \<and>
      is_negative x = is_negative r) (x = r)"
    show "outcome u ?F st (storage_ok x \<and> canonical (limbs x) \<and>
      (if neg then - int (bigint_mag x) else int (bigint_mag x)) = bigint_val a + bigint_val b) (x = r)"
      by (rule outcome_mono [OF o]) (use that in \<open>auto simp: bigint_val_def\<close>)
  qed
  have dif: "rspec u (if p then bigint_subtract_abs r a b else bigint_subtract_abs r b a)
      (\<lambda>x. rspec u (case x of (st, x) \<Rightarrow> State_Monad.return (neg, st, x))
      (\<lambda>x. rspec u (case x of (negative, status, result) \<Rightarrow> State_Monad.return (status,
         if status = BIGINT_OK then bigint_normalize (result\<lparr>is_negative := negative\<rparr>) else result)) Q))"
    if "(if neg then - \<bar>int (bigint_mag a) - int (bigint_mag b)\<bar> else \<bar>int (bigint_mag a) - int (bigint_mag b)\<bar>)
        = bigint_val a + bigint_val b" for p neg
  proof -
    have fin': "Q (st, if st = BIGINT_OK then bigint_normalize (x\<lparr>is_negative := neg\<rparr>) else x)"
      if o: "outcome u True st (storage_ok x \<and> canonical (limbs x) \<and>
        int (bigint_mag x) = \<bar>int (bigint_mag a) - int (bigint_mag b)\<bar> \<and> R x) (x = r)" for st x R
      by (rule fin, rule outcome_mono [OF o])
        (use \<open>(if neg then _ else _) = _\<close> in \<open>auto simp: abs_minus_commute\<close>)
    show ?thesis
      using fin' by (intro triple_if subtract_abs_wp [OF rc a b] subtract_abs_wp [OF rc b a])
        (auto intro!: triple_return simp: abs_minus_commute)
  qed
  show ?thesis
    unfolding bigint_add_def Let_def
    using cmp
    by (intro triple_bind triple_if sum dif) (auto simp: bigint_val_def sgn_if split: if_splits)
qed

lemma abs_wp [wp]:
  assumes r: "storage_ok r" and a: "bigint_wf a"
    and Q: "\<And>st r'. result_ok u True r \<bar>bigint_val a\<bar> st r' \<Longrightarrow> Q (st, r')"
  shows "rspec u (bigint_abs r a) Q"
  unfolding bigint_abs_def
  by (intro wp r a) (auto intro!: Q wp simp: result_ok_def bigint_wf_def bigint_val_def)

lemma negate_wp [wp]:
  assumes r: "storage_ok r" and a: "bigint_wf a"
    and Q: "\<And>st r'. result_ok u True r (- bigint_val a) st r' \<and> (st = BIGINT_OK \<longrightarrow> bsize r' = bsize a) \<Longrightarrow> Q (st, r')"
  shows "rspec u (bigint_negate r a) Q"
proof -
  have fin: "Q (BIGINT_OK, bigint_normalize (x\<lparr>is_negative := \<not> is_negative a\<rparr>))"
    if "bigint_wf x" "limbs x = limbs a" for x
  proof (rule Q)
    have "bsize (bigint_normalize (x\<lparr>is_negative := \<not> is_negative a\<rparr>)) = bsize x"
      using bigint_wfD(1) [OF that(1)] by (simp add: bigint_normalize_def Let_def trimmed_canonical)
    moreover have "(if \<not> is_negative a then - int (bigint_mag x) else int (bigint_mag x)) = - bigint_val a"
      using that(2) by (simp add: bigint_val_def)
    ultimately show "result_ok u True r (- bigint_val a) BIGINT_OK (bigint_normalize (x\<lparr>is_negative := \<not> is_negative a\<rparr>))
        \<and> (BIGINT_OK = BIGINT_OK \<longrightarrow> bsize (bigint_normalize (x\<lparr>is_negative := \<not> is_negative a\<rparr>)) = bsize a)"
      using that bigint_wfD(1) [OF that(1)] signed_result [of x "\<not> is_negative a" "- bigint_val a"]
      by (simp add: result_ok_def bigint_wf_storage_ok bigint_wfD(1))
  qed
  show ?thesis
    unfolding bigint_negate_def
  proof (rule triple_bind, rule copy_wp [OF r a], rule triple_case_pair, rule triple_if)
    fix st x
    assume o: "outcome u True st (bigint_wf x \<and> bigint_val x = bigint_val a \<and> limbs x = limbs a \<and>
      is_negative x = is_negative a \<and> capacity r \<le> capacity x) (x = r)"
    show "rspec u (State_Monad.return (st, x)) Q" if "st \<noteq> BIGINT_OK"
      using o that by (intro triple_return Q) (auto simp: result_ok_def)
    show "rspec u (State_Monad.return (BIGINT_OK, bigint_normalize (x\<lparr>is_negative := \<not> is_negative a\<rparr>))) Q"
      if "\<not> st \<noteq> BIGINT_OK"
      using o that by (intro triple_return fin) auto
  qed
qed

lemma sub_wp [wp]:
  assumes r: "storage_ok r" and a: "bigint_wf a" and b: "bigint_wf b"
    and Q: "\<And>st r'. result_ok u (Suc (max (bsize a) (bsize b)) \<le> BIGINT_MAX_LIMBS) r (bigint_val a - bigint_val b) st r' \<Longrightarrow> Q (st, r')"
  shows "rspec u (bigint_sub r a b) Q"
proof -
  have init: "storage_ok bigint_init" by (simp add: bigint_wf_storage_ok)
  show ?thesis
    unfolding bigint_sub_def
  proof (rule triple_bind, rule negate_wp [OF init b], rule triple_case_pair, rule triple_if)
    fix st nb
    assume n: "result_ok u True bigint_init (- bigint_val b) st nb \<and> (st = BIGINT_OK \<longrightarrow> bsize nb = bsize b)"
    show "rspec u (bigint_add r a nb) Q" if "st = BIGINT_OK"
      using n that Q by (intro add_wp [OF r a]) (auto simp: result_ok_def)
    show "rspec u (State_Monad.return (st, r)) Q" if "st \<noteq> BIGINT_OK"
      using n that by (intro triple_return Q) (auto simp: result_ok_def outcome_def elim: resource_failure_weaken)
  qed
qed

section \<open>Division\<close>

text \<open>\<open>same\<close> tells whether the two outputs are one object, which is refused before anything else is
  looked at.\<close>

definition bigint_div_mod ::
  "bool \<Rightarrow> BigInt \<Rightarrow> BigInt \<Rightarrow> BigInt \<Rightarrow> BigInt \<Rightarrow> (BigIntStatus \<times> BigInt \<times> BigInt) rt" where
  "bigint_div_mod same quot remainder a b =
    (if same then State_Monad.return (BIGINT_INVALID_ARGUMENT, quot, remainder)
     else if limbs b = [] then State_Monad.return (BIGINT_DIVISION_BY_ZERO, quot, remainder)
     else do {
       let a_negative = is_negative a;
       let b_negative = is_negative b;
       (status, temp_quot, temp_remainder) \<leftarrow> bigint_divmod_abs bigint_init bigint_init a b;
       if status = BIGINT_OK
       then let temp_quot = bigint_normalize (temp_quot\<lparr>is_negative := (a_negative \<noteq> b_negative)\<rparr>);
                temp_remainder = bigint_normalize (temp_remainder\<lparr>is_negative := a_negative\<rparr>)
            in State_Monad.return
                 (status, fst (bigint_commit quot temp_quot), fst (bigint_commit remainder temp_remainder))
       else State_Monad.return (status, quot, remainder)
     })"

definition bigint_div :: "BigInt \<Rightarrow> BigInt \<Rightarrow> BigInt \<Rightarrow> (BigIntStatus \<times> BigInt) rt" where
  "bigint_div quot a b = do {
     (status, quot, remainder) \<leftarrow> bigint_div_mod False quot bigint_init a b;
     State_Monad.return (status, quot)
   }"

definition bigint_mod :: "BigInt \<Rightarrow> BigInt \<Rightarrow> BigInt \<Rightarrow> (BigIntStatus \<times> BigInt) rt" where
  "bigint_mod remainder a b = do {
     (status, quot, remainder) \<leftarrow> bigint_div_mod False bigint_init remainder a b;
     State_Monad.return (status, remainder)
   }"

text \<open>Division truncates towards zero, the remainder has the sign of the dividend: the
  integer division of C.\<close>

definition tdiv :: "int \<Rightarrow> int \<Rightarrow> int" where
  "tdiv x y = sgn x * sgn y * (\<bar>x\<bar> div \<bar>y\<bar>)"

definition tmod :: "int \<Rightarrow> int \<Rightarrow> int" where
  "tmod x y = sgn x * (\<bar>x\<bar> mod \<bar>y\<bar>)"

lemma tdiv_tmod: "y * tdiv x y + tmod x y = x"
proof -
  have "y * tdiv x y + tmod x y = sgn x * ((y * sgn y) * (\<bar>x\<bar> div \<bar>y\<bar>) + \<bar>x\<bar> mod \<bar>y\<bar>)"
    by (simp add: tdiv_def tmod_def algebra_simps)
  also have "y * sgn y = \<bar>y\<bar>" by (simp add: abs_sgn)
  also have "sgn x * (\<bar>y\<bar> * (\<bar>x\<bar> div \<bar>y\<bar>) + \<bar>x\<bar> mod \<bar>y\<bar>) = x" by (simp add: sgn_mult_abs)
  finally show ?thesis .
qed

lemma tmod_less: "y \<noteq> 0 \<Longrightarrow> \<bar>tmod x y\<bar> < \<bar>y\<bar>"
  by (simp add: tmod_def abs_mult sgn_if)

lemma div_mod_wp [wp]:
  assumes a: "bigint_wf a" and b: "bigint_wf b"
    and Q: "\<And>st q' r'. (if limbs b = [] then st = BIGINT_DIVISION_BY_ZERO \<and> q' = q \<and> r' = r
         else outcome u True st
           (bigint_wf q' \<and> bigint_val q' = tdiv (bigint_val a) (bigint_val b) \<and>
            bigint_wf r' \<and> bigint_val r' = tmod (bigint_val a) (bigint_val b))
           (q' = q \<and> r' = r)) \<Longrightarrow> Q (st, q', r')"
  shows "rspec u (bigint_div_mod False q r a b) Q"
proof (cases "limbs b = []")
  case True
  then show ?thesis by (auto intro!: wp Q simp: bigint_div_mod_def)
next
  case False
  have init: "private_output bigint_init"
    by (simp add: private_output_def bigint_init_def storage_ok_def)
  have sa: "sgn (bigint_val a) = (if limbs a = [] then 0 else if is_negative a then - 1 else 1)"
    using bigint_val_0_iff [OF a] bigint_val_neg_iff [OF a] by (auto simp: sgn_if)
  have sb: "sgn (bigint_val b) = (if is_negative b then - 1 else 1)"
    using bigint_val_0_iff [OF b] bigint_val_neg_iff [OF b] False by (auto simp: sgn_if)
  show ?thesis
    unfolding bigint_div_mod_def Let_def if_False if_not_P [OF False]
  proof (rule triple_bind, rule divmod_abs_wp [OF init init a b False], intro triple_case_pair)
    fix st q' r'
    assume o: "outcome u True st (bigint_wf q' \<and> \<not> is_negative q' \<and> bigint_mag q' = bigint_mag a div bigint_mag b \<and>
        bigint_wf r' \<and> bigint_mag r' = bigint_mag a mod bigint_mag b) (private_output q' \<and> private_output r')"
    show "rspec u (if st = BIGINT_OK then State_Monad.return (st,
          fst (bigint_commit q (bigint_normalize (q'\<lparr>is_negative := (is_negative a \<noteq> is_negative b)\<rparr>))),
          fst (bigint_commit r (bigint_normalize (r'\<lparr>is_negative := is_negative a\<rparr>))))
       else State_Monad.return (st, q, r)) Q"
    proof (cases "st = BIGINT_OK")
      case True
      with o have q': "storage_ok q'" "canonical (limbs q')" "bigint_mag q' = bigint_mag a div bigint_mag b"
        and r': "storage_ok r'" "canonical (limbs r')" "bigint_mag r' = bigint_mag a mod bigint_mag b"
        by (auto simp: bigint_wf_iff)
      have vq: "(if is_negative a \<noteq> is_negative b then - int (bigint_mag q') else int (bigint_mag q'))
          = tdiv (bigint_val a) (bigint_val b)"
        using sa sb q'(3) by (auto simp: tdiv_def zdiv_int)
      have vr: "(if is_negative a then - int (bigint_mag r') else int (bigint_mag r')) = tmod (bigint_val a) (bigint_val b)"
        using sa r'(3) by (auto simp: tmod_def zmod_int)
      show ?thesis
        unfolding True fst_bigint_commit
        using signed_result [OF q'(1,2) vq] signed_result [OF r'(1,2) vr] False
        by (auto intro!: wp Q)
    next
      case nok: False
      then show ?thesis using o False by (auto intro!: wp Q simp: outcome_def)
    qed
  qed
qed

lemma div_mod_same_wp:
  assumes a: "bigint_wf a" and b: "bigint_wf b"
    and Q: "\<And>st q' r'. (if same then st = BIGINT_INVALID_ARGUMENT \<and> q' = q \<and> r' = r
         else if limbs b = [] then st = BIGINT_DIVISION_BY_ZERO \<and> q' = q \<and> r' = r
         else outcome u True st
           (bigint_wf q' \<and> bigint_val q' = tdiv (bigint_val a) (bigint_val b) \<and>
            bigint_wf r' \<and> bigint_val r' = tmod (bigint_val a) (bigint_val b))
           (q' = q \<and> r' = r)) \<Longrightarrow> Q (st, q', r')"
  shows "rspec u (bigint_div_mod same q r a b) Q"
proof (cases same)
  case True
  then show ?thesis by (auto intro!: triple_return Q simp: bigint_div_mod_def)
next
  case False
  then show ?thesis using div_mod_wp [OF a b, where Q = Q] Q by simp
qed

lemma div_wp [wp]:
  assumes a: "bigint_wf a" and b: "bigint_wf b"
    and Q: "\<And>st q'. (if limbs b = [] then st = BIGINT_DIVISION_BY_ZERO \<and> q' = q
         else result_ok u True q (tdiv (bigint_val a) (bigint_val b)) st q') \<Longrightarrow> Q (st, q')"
  shows "rspec u (bigint_div q a b) Q"
  unfolding bigint_div_def
  by (intro triple_bind div_mod_wp [OF a b] triple_case_pair triple_return Q)
    (auto simp: result_ok_def outcome_def split: if_splits)

lemma mod_wp [wp]:
  assumes a: "bigint_wf a" and b: "bigint_wf b"
    and Q: "\<And>st r'. (if limbs b = [] then st = BIGINT_DIVISION_BY_ZERO \<and> r' = r
         else result_ok u True r (tmod (bigint_val a) (bigint_val b)) st r') \<Longrightarrow> Q (st, r')"
  shows "rspec u (bigint_mod r a b) Q"
  unfolding bigint_mod_def
  by (intro triple_bind div_mod_wp [OF a b] triple_case_pair triple_return Q)
    (auto simp: result_ok_def outcome_def split: if_splits)

section \<open>The operations keep their contracts\<close>

interpretation abs: bigint_unary bigint_abs abs "\<lambda>a. True"
  by unfold_locales (rule abs_wp, auto)

interpretation negate: bigint_unary bigint_negate uminus "\<lambda>a. True"
  by unfold_locales (rule negate_wp, auto)

interpretation add: bigint_commutative bigint_add "(+)"
    "\<lambda>a b. Suc (max (bsize a) (bsize b)) \<le> BIGINT_MAX_LIMBS"
  by unfold_locales (rule add_wp, auto)

interpretation sub: bigint_binary bigint_sub "(-)"
    "\<lambda>a b. Suc (max (bsize a) (bsize b)) \<le> BIGINT_MAX_LIMBS"
  by unfold_locales (rule sub_wp, auto)

interpretation mul: bigint_commutative bigint_mul "(*)"
    "\<lambda>a b. bsize a + bsize b \<le> BIGINT_MAX_LIMBS"
  by unfold_locales (rule mul_wp, auto simp: result_ok_def)

section \<open>Powers\<close>

text \<open>The loop of binary exponentiation from bit \<open>i\<close> on.\<close>

primrec pow_loop ::
  "nat \<Rightarrow> nat \<Rightarrow> nat \<Rightarrow> BigInt \<Rightarrow> BigIntStatus \<Rightarrow> BigInt \<Rightarrow> BigInt \<Rightarrow> (BigIntStatus \<times> BigInt) rt" where
  "pow_loop 0 i bits exponent status accumulator base_power = State_Monad.return (status, accumulator)"
| "pow_loop (Suc n) i bits exponent status accumulator base_power =
    (if status = BIGINT_OK then do {
       (status, accumulator) \<leftarrow> (if bigint_get_bit exponent i
          then bigint_mul accumulator accumulator base_power
          else State_Monad.return (status, accumulator));
       (status, base_power) \<leftarrow> (if status = BIGINT_OK \<and> i + 1 < bits
          then bigint_mul base_power base_power base_power
          else State_Monad.return (status, base_power));
       pow_loop n (Suc i) bits exponent status accumulator base_power
     }
     else State_Monad.return (status, accumulator))"

definition bigint_pow :: "BigInt \<Rightarrow> BigInt \<Rightarrow> BigInt \<Rightarrow> (BigIntStatus \<times> BigInt) rt" where
  "bigint_pow result base exponent =
    (if is_negative exponent then State_Monad.return (BIGINT_NEGATIVE_ARGUMENT, result)
     else if limbs exponent = [] then bigint_set_uint64 result 1
     else if limbs base = []
     then State_Monad.return (BIGINT_OK, result\<lparr>limbs := [], is_negative := False\<rparr>)
     else do {
       let result_is_negative = (is_negative base \<and> bigint_get_bit exponent 0);
       (status, accumulator) \<leftarrow> bigint_set_uint64 bigint_init 1;
       (status, base_power) \<leftarrow> (if status = BIGINT_OK then bigint_abs bigint_init base
                               else State_Monad.return (status, bigint_init));
       let bits = bigint_bit_length exponent;
       (status, accumulator) \<leftarrow> pow_loop bits 0 bits exponent status accumulator base_power;
       (status, result) \<leftarrow> (if status = BIGINT_OK then bigint_copy result accumulator
                           else State_Monad.return (status, result));
       State_Monad.return (status,
         if status = BIGINT_OK then bigint_normalize (result\<lparr>is_negative := result_is_negative\<rparr>)
         else result)
     })"

text \<open>The sizes of two factors, from a bound on their product.\<close>

lemma limbs_product_bound:
  assumes "bigint_wf a" "bigint_wf b" "bigint_mag a * bigint_mag b < LB ^ k"
    "limbs a \<noteq> []" "limbs b \<noteq> []"
  shows "bsize a + bsize b \<le> k + 1"
proof -
  have "LB ^ (bsize a - 1) * LB ^ (bsize b - 1) \<le> bigint_mag a * bigint_mag b"
    using assms by (intro mult_le_mono mag_lower) (auto dest: bigint_wfD)
  also note assms(3)
  finally have "LB ^ (bsize a - 1 + (bsize b - 1)) < LB ^ k" by (simp add: power_add)
  then have "bsize a - 1 + (bsize b - 1) < k" by (simp add: power_strict_increasing_iff)
  then show ?thesis by linarith
qed

lemma mul_fits:
  assumes "bigint_wf a" "bigint_wf b" "bigint_mag a * bigint_mag b < LB ^ (BIGINT_MAX_LIMBS - 1)"
  shows "bsize a + bsize b \<le> BIGINT_MAX_LIMBS"
proof (cases "limbs a = [] \<or> limbs b = []")
  case True
  then show ?thesis using assms(1,2) by (auto dest: bigint_wfD)
next
  case False
  moreover have "1 \<le> BIGINT_MAX_LIMBS" by (simp add: BIGINT_MAX_LIMBS_def SIZE_MAX_def)
  ultimately show ?thesis using limbs_product_bound [OF assms] by auto
qed

lemma nonneg_product:
  assumes "bigint_wf r" "bigint_val r = int x"
  shows "bigint_mag r = x" "\<not> is_negative r"
  using assms bigint_val_neg_iff [OF assms(1)] by (auto simp: bigint_val_def)

lemma take_bit_Suc_power:
  "x ^ take_bit (Suc i) e = x ^ take_bit i e * (if bit e i then x ^ 2 ^ i else (1 :: nat))"
  by (simp add: take_bit_Suc_from_most power_add mult.commute)

lemma pow_loop_wp:
  assumes e: "bigint_wf e" "limbs e \<noteq> []" "bits = bigint_bit_length e" and x: "0 < x"
  shows "i + n = bits \<Longrightarrow>
    outcome u F st (bigint_wf acc \<and> bigint_val acc = int (x ^ take_bit i (bigint_mag e)) \<and>
       (i < bits \<longrightarrow> bigint_wf bp \<and> bigint_val bp = int (x ^ 2 ^ i))) True \<Longrightarrow>
    (x ^ bigint_mag e < LB ^ (BIGINT_MAX_LIMBS - 1) \<Longrightarrow> F) \<Longrightarrow>
    (\<And>st acc. outcome u (x ^ bigint_mag e < LB ^ (BIGINT_MAX_LIMBS - 1)) st
       (bigint_wf acc \<and> bigint_val acc = int (x ^ bigint_mag e)) True \<Longrightarrow> Q (st, acc)) \<Longrightarrow>
    rspec u (pow_loop n i bits e st acc bp) Q"
proof (induction n arbitrary: i st acc bp F)
  case 0
  have "take_bit bits (bigint_mag e) = bigint_mag e"
    using bit_length_correct(3) [OF bigint_wfD(1) [OF e(1)] e(2)] by (simp add: e(3) take_bit_nat_eq_self)
  then have "Q (st, acc)"
    using 0 by (intro 0(4) outcome_mono [OF 0(2)]) auto
  then show ?case by (auto intro!: triple_return)
next
  case (Suc n)
  let ?G = "x ^ bigint_mag e < LB ^ (BIGINT_MAX_LIMBS - 1)"
  have i: "i < bits" using Suc.prems(1) by simp
  have pow_le: "x ^ k \<le> x ^ bigint_mag e" if "k \<le> bigint_mag e" for k
    using x that by (intro power_increasing) auto
  show ?case
  proof (cases "st = BIGINT_OK")
    case False
    then have "Q (st, acc)" using Suc.prems(2,3) by (intro Suc.prems(4)) (auto elim: resource_failure_weaken)
    then show ?thesis using False by (auto intro!: triple_return)
  next
    case True
    have acc: "bigint_wf acc" "bigint_val acc = int (x ^ take_bit i (bigint_mag e))"
      and bp: "bigint_wf bp" "bigint_val bp = int (x ^ 2 ^ i)" using Suc.prems(2) True i by auto
    note acc' = nonneg_product [OF acc] and bp' = nonneg_product [OF bp]
    have sq: "rspec u (do { (status, base_power) \<leftarrow> (if st1 = BIGINT_OK \<and> i + 1 < bits
          then bigint_mul bp bp bp else State_Monad.return (st1, bp));
        pow_loop n (Suc i) bits e status acc1 base_power }) Q"
      if o: "outcome u ?G st1 (bigint_wf acc1 \<and> bigint_val acc1 = int (x ^ take_bit (Suc i) (bigint_mag e))) True" for st1 acc1
    proof (cases "st1 = BIGINT_OK \<and> i + 1 < bits")
      case sqr: True
      then have acc1: "bigint_wf acc1" "bigint_val acc1 = int (x ^ take_bit (Suc i) (bigint_mag e))" using o by auto
      have top: "2 * 2 ^ i \<le> bigint_mag e"
      proof -
        have "(2 :: nat) ^ Suc i \<le> 2 ^ (bits - 1)" using sqr by (intro power_increasing) auto
        also have "\<dots> \<le> bigint_mag e"
          using bit_length_correct(2) [OF bigint_wfD(1) [OF e(1)] e(2)] by (simp add: e(3))
        finally show ?thesis by simp
      qed
      have fits: "bsize bp + bsize bp \<le> BIGINT_MAX_LIMBS" if ?G
      proof (rule mul_fits [OF bp(1) bp(1)])
        have "bigint_mag bp * bigint_mag bp = x ^ (2 * 2 ^ i)" unfolding bp' by (simp add: mult_2 power_add)
        then show "bigint_mag bp * bigint_mag bp < LB ^ (BIGINT_MAX_LIMBS - 1)"
          using pow_le [OF top] that by simp
      qed
      show ?thesis
        unfolding if_P [OF sqr]
      proof (rule triple_bind, rule mul_wp [OF bp(1) bp(1) bigint_wf_storage_ok [OF bp(1)]], rule triple_case_pair, rule Suc.IH)
        fix st2 bp2
        assume o2: "outcome u (bsize bp + bsize bp \<le> BIGINT_MAX_LIMBS) st2
          (bigint_wf bp2 \<and> bigint_val bp2 = bigint_val bp * bigint_val bp) (bp2 = bp)"
        show "outcome u (bsize bp + bsize bp \<le> BIGINT_MAX_LIMBS) st2
          (bigint_wf acc1 \<and> bigint_val acc1 = int (x ^ take_bit (Suc i) (bigint_mag e)) \<and>
           (Suc i < bits \<longrightarrow> bigint_wf bp2 \<and> bigint_val bp2 = int (x ^ 2 ^ Suc i))) True"
          by (rule outcome_mono [OF o2]) (use acc1 bp(2) in \<open>auto simp: mult_2 power_add\<close>)
      qed (use Suc.prems(1,4) fits in auto)
    next
      case nsq: False
      have "rspec u (pow_loop n (Suc i) bits e st1 acc1 bp) Q"
      proof (rule Suc.IH)
        show "outcome u ?G st1 (bigint_wf acc1 \<and> bigint_val acc1 = int (x ^ take_bit (Suc i) (bigint_mag e)) \<and>
           (Suc i < bits \<longrightarrow> bigint_wf bp \<and> bigint_val bp = int (x ^ 2 ^ Suc i))) True"
          using o nsq by (auto simp: outcome_def split: if_splits)
      qed (use Suc.prems(1,4) in auto)
      then show ?thesis unfolding if_not_P [OF nsq] by (intro triple_bind triple_return triple_case_pair)
    qed
    have mult: "rspec u (if bigint_get_bit e i then bigint_mul acc acc bp else State_Monad.return (st, acc)) R"
      if R: "\<And>st1 acc1. outcome u ?G st1 (bigint_wf acc1 \<and> bigint_val acc1 = int (x ^ take_bit (Suc i) (bigint_mag e))) True \<Longrightarrow>
        R (st1, acc1)" for R
    proof (rule triple_if)
      assume b: "bigint_get_bit e i"
      then have bt: "bit (bigint_mag e) i" by (simp add: get_bit_correct)
      have val: "x ^ take_bit i (bigint_mag e) * x ^ 2 ^ i = x ^ take_bit (Suc i) (bigint_mag e)"
        using bt by (simp add: take_bit_Suc_power)
      have vali: "int (x ^ take_bit i (bigint_mag e)) * int (x ^ 2 ^ i) = int (x ^ take_bit (Suc i) (bigint_mag e))"
        unfolding of_nat_mult [symmetric] val ..
      have fits: "bsize acc + bsize bp \<le> BIGINT_MAX_LIMBS" if ?G
      proof (rule mul_fits [OF acc(1) bp(1)])
        have "bigint_mag acc * bigint_mag bp = x ^ take_bit (Suc i) (bigint_mag e)" unfolding acc' bp' val ..
        also have "\<dots> \<le> x ^ bigint_mag e" by (rule pow_le) (rule take_bit_nat_less_eq_self)
        finally show "bigint_mag acc * bigint_mag bp < LB ^ (BIGINT_MAX_LIMBS - 1)" using that by simp
      qed
      show "rspec u (bigint_mul acc acc bp) R"
      proof (rule mul_wp [OF acc(1) bp(1) bigint_wf_storage_ok [OF acc(1)]], rule R)
        fix st1 acc1
        assume o1: "outcome u (bsize acc + bsize bp \<le> BIGINT_MAX_LIMBS) st1
          (bigint_wf acc1 \<and> bigint_val acc1 = bigint_val acc * bigint_val bp) (acc1 = acc)"
        show "outcome u ?G st1 (bigint_wf acc1 \<and> bigint_val acc1 = int (x ^ take_bit (Suc i) (bigint_mag e))) True"
          by (rule outcome_mono [OF o1])
            (use fits in \<open>auto simp: acc(2) bp(2) vali simp del: of_nat_power\<close>)
      qed
    next
      assume "\<not> bigint_get_bit e i"
      then have "\<not> bit (bigint_mag e) i" by (simp add: get_bit_correct)
      then show "rspec u (State_Monad.return (st, acc)) R"
        using True acc by (intro triple_return R) (simp add: take_bit_Suc_power)
    qed
    show ?thesis
      unfolding pow_loop.simps if_P [OF True]
      by (rule triple_bind, rule mult, rule triple_case_pair, rule sq)
  qed
qed

lemma pow_wp [wp]:
  assumes r: "storage_ok r" and b: "bigint_wf b" and e: "bigint_wf e"
    and Q: "\<And>st r'. (if is_negative e then st = BIGINT_NEGATIVE_ARGUMENT \<and> r' = r
       else result_ok u (bigint_mag b ^ bigint_mag e < LB ^ (BIGINT_MAX_LIMBS - 1)) r
              (bigint_val b ^ bigint_mag e) st r') \<Longrightarrow> Q (st, r')"
  shows "rspec u (bigint_pow r b e) Q"
proof -
  let ?G = "bigint_mag b ^ bigint_mag e < LB ^ (BIGINT_MAX_LIMBS - 1)"
  have neg: "Q (BIGINT_NEGATIVE_ARGUMENT, r)" if "is_negative e" using that by (intro Q) simp
  have one: "rspec u (bigint_set_uint64 r 1) Q" if "\<not> is_negative e" "limbs e = []"
    using that by (intro set_uint64_wp [OF r] Q) (auto simp: result_ok_def elim: outcome_mono)
  have zero: "Q (BIGINT_OK, r\<lparr>limbs := [], is_negative := False\<rparr>)"
    if "\<not> is_negative e" "limbs e \<noteq> []" "limbs b = []"
  proof (rule Q)
    have "bigint_mag e \<noteq> 0" using that(2) mag_eq_0_iff bigint_wfD(1) [OF e] by auto
    then show "if is_negative e then BIGINT_OK = BIGINT_NEGATIVE_ARGUMENT \<and> r\<lparr>limbs := [], is_negative := False\<rparr> = r
       else result_ok u ?G r (bigint_val b ^ bigint_mag e) BIGINT_OK (r\<lparr>limbs := [], is_negative := False\<rparr>)"
      using that r by (simp add: result_ok_def bigint_wf_def storage_ok_def bigint_val_def)
  qed
  have init: "storage_ok bigint_init" by (simp add: bigint_wf_storage_ok)
  have fail: "Q (st, r)" if "resource_failure u ?G st" "\<not> is_negative e" for st
    using that by (intro Q) (auto simp: result_ok_def outcome_def)
  define neg where "neg = (is_negative b \<and> bigint_get_bit e 0)"
  have main: "rspec u (do {
       (status, accumulator) \<leftarrow> bigint_set_uint64 bigint_init 1;
       (status, base_power) \<leftarrow> (if status = BIGINT_OK then bigint_abs bigint_init b
                               else State_Monad.return (status, bigint_init));
       (status, accumulator) \<leftarrow> pow_loop (bigint_bit_length e) 0 (bigint_bit_length e) e status accumulator base_power;
       (status, result) \<leftarrow> (if status = BIGINT_OK then bigint_copy r accumulator
                           else State_Monad.return (status, r));
       State_Monad.return (status,
         if status = BIGINT_OK then bigint_normalize (result\<lparr>is_negative := neg\<rparr>) else result) }) Q"
    if ne: "\<not> is_negative e" "limbs e \<noteq> []" "limbs b \<noteq> []"
  proof (rule triple_bind, rule set_uint64_wp [OF init], rule triple_case_pair)
    have x: "0 < bigint_mag b" using ne(3) mag_eq_0_iff bigint_wfD(1) [OF b] by auto
    fix st acc
    assume o1: "outcome u True st (bigint_wf acc \<and> bigint_val acc = int (unat (1 :: u64))) (acc = bigint_init)"
    define T where "T = (\<lambda>status bp. do {
       (status, accumulator) \<leftarrow> pow_loop (bigint_bit_length e) 0 (bigint_bit_length e) e status acc bp;
       (status, result) \<leftarrow> (if status = BIGINT_OK then bigint_copy r accumulator
                           else State_Monad.return (status, r));
       State_Monad.return (status,
         if status = BIGINT_OK then bigint_normalize (result\<lparr>is_negative := neg\<rparr>) else result) })"
    have t: "rspec u (T st bp) Q"
      if o2: "outcome u True st (bigint_wf acc \<and> bigint_val acc = 1 \<and> bigint_wf bp \<and> bigint_val bp = int (bigint_mag b)) True" for st bp
      unfolding T_def
    proof (rule triple_bind, rule pow_loop_wp [OF e ne(2) refl x, where F = True], simp)
      show "outcome u True st (bigint_wf acc \<and> bigint_val acc = int (bigint_mag b ^ take_bit 0 (bigint_mag e)) \<and>
          (0 < bigint_bit_length e \<longrightarrow> bigint_wf bp \<and> bigint_val bp = int (bigint_mag b ^ 2 ^ 0))) True"
        by (rule outcome_mono [OF o2]) auto
      fix st2 acc2
      assume o3: "outcome u ?G st2 (bigint_wf acc2 \<and> bigint_val acc2 = int (bigint_mag b ^ bigint_mag e)) True"
      have val: "(if neg then - int (bigint_mag b ^ bigint_mag e) else int (bigint_mag b ^ bigint_mag e)) = bigint_val b ^ bigint_mag e"
      proof -
        have "bigint_get_bit e 0 \<longleftrightarrow> odd (bigint_mag e)" by (simp add: get_bit_correct bit_0)
        then show ?thesis by (auto simp: neg_def bigint_val_def)
      qed
      show "rspec u (case (st2, acc2) of (status, accumulator) \<Rightarrow> do {
         (status, result) \<leftarrow> (if status = BIGINT_OK then bigint_copy r accumulator
                           else State_Monad.return (status, r));
         State_Monad.return (status,
           if status = BIGINT_OK then bigint_normalize (result\<lparr>is_negative := neg\<rparr>) else result) }) Q"
      proof (cases "st2 = BIGINT_OK")
        case True
        then have acc2: "bigint_wf acc2" "bigint_val acc2 = int (bigint_mag b ^ bigint_mag e)" using o3 by auto
        show ?thesis
          unfolding prod.case if_P [OF True]
        proof (rule triple_bind, rule copy_wp [OF r acc2(1)], rule triple_case_pair, rule triple_return)
          fix st3 x
          assume o4: "outcome u True st3 (bigint_wf x \<and> bigint_val x = bigint_val acc2 \<and> limbs x = limbs acc2 \<and>
            is_negative x = is_negative acc2 \<and> capacity r \<le> capacity x) (x = r)"
          show "Q (st3, if st3 = BIGINT_OK then bigint_normalize (x\<lparr>is_negative := neg\<rparr>) else x)"
          proof (cases "st3 = BIGINT_OK")
            case True
            then have x: "bigint_wf x" "limbs x = limbs acc2" using o4 by auto
            have mag: "bigint_mag x = bigint_mag b ^ bigint_mag e" using nonneg_product [OF acc2] x(2) by simp
            have "(if neg then - int (bigint_mag x) else int (bigint_mag x)) = bigint_val b ^ bigint_mag e"
              unfolding mag by (rule val)
            then show ?thesis
              using signed_result [of x neg] x(1) True ne(1)
              by (intro Q) (simp add: result_ok_def bigint_wf_storage_ok bigint_wfD(1))
          next
            case False
            then show ?thesis using o4 ne(1) by (auto intro!: fail elim: resource_failure_weaken)
          qed
        qed
      next
        case False
        then have "Q (st2, r)" using o3 ne(1) by (intro fail) auto
        then show ?thesis using False by (auto intro!: wp)
      qed
    qed simp
    have "rspec u (do { (status, bp) \<leftarrow> (if st = BIGINT_OK then bigint_abs bigint_init b
                               else State_Monad.return (st, bigint_init)); T status bp }) Q"
    proof (cases "st = BIGINT_OK")
      case True
      then have acc: "bigint_wf acc" "bigint_val acc = 1" using o1 by auto
      show ?thesis
        unfolding if_P [OF True]
      proof (rule triple_bind, rule abs_wp [OF init b], rule triple_case_pair, rule t)
        fix st bp
        assume "result_ok u True bigint_init \<bar>bigint_val b\<bar> st bp"
        then have o: "outcome u True st (bigint_wf bp \<and> bigint_val bp = int (bigint_mag b)) (bp = bigint_init)"
          by (simp add: result_ok_def)
        show "outcome u True st (bigint_wf acc \<and> bigint_val acc = 1 \<and> bigint_wf bp \<and> bigint_val bp = int (bigint_mag b)) True"
          by (rule outcome_mono [OF o]) (use acc in auto)
      qed
    next
      case False
      then have "rspec u (T st bigint_init) Q" using o1 by (intro t) (auto simp: outcome_def)
      then show ?thesis unfolding if_not_P [OF False] by (intro triple_bind triple_return triple_case_pair)
    qed
    then show "rspec u (do {
       (status, base_power) \<leftarrow> (if st = BIGINT_OK then bigint_abs bigint_init b
                               else State_Monad.return (st, bigint_init));
       (status, accumulator) \<leftarrow> pow_loop (bigint_bit_length e) 0 (bigint_bit_length e) e status acc base_power;
       (status, result) \<leftarrow> (if status = BIGINT_OK then bigint_copy r accumulator
                           else State_Monad.return (status, r));
       State_Monad.return (status,
         if status = BIGINT_OK then bigint_normalize (result\<lparr>is_negative := neg\<rparr>) else result) }) Q"
      unfolding T_def .
  qed
  show ?thesis
    unfolding bigint_pow_def Let_def neg_def [symmetric]
    by (intro triple_if triple_return neg one zero main)
qed

section \<open>Properties\<close>

text \<open>C1: Multiplication is exact. A run of \<open>bigint_mul\<close> on canonical operands, whatever
  the budget, the clock and the allocator do, ends without a failed assertion; when it
  reports success the destination is canonical and holds the product of the two integers
  (by the schoolbook loop or by Karatsuba's recursion), otherwise it reports out of memory
  or value too large and the destination is as before. With unlimited resources and a
  product of at most \<open>BIGINT_MAX_LIMBS\<close> limbs it succeeds.\<close>

theorem bigint_mul_correct:
  assumes "\<not> stuck s" "storage_ok r" "bigint_wf a" "bigint_wf b"
  shows "case run_state (bigint_mul r a b) s of ((st, r'), s') \<Rightarrow> \<not> stuck s' \<and>
    result_ok (unlimited s) (bsize a + bsize b \<le> BIGINT_MAX_LIMBS) r (bigint_val a * bigint_val b) st r'"
  by (rule mul.run [OF assms])

theorem bigint_mul_correct_witness:
  "case run_state (bigint_mul bigint_init (bigint_wrap_uint64 6) (bigint_wrap_uint64 7)) idle_runtime of
     ((st, r'), s') \<Rightarrow> st = BIGINT_OK \<and> bigint_val r' = 42"
  using bigint_mul_correct [of idle_runtime bigint_init "bigint_wrap_uint64 6" "bigint_wrap_uint64 7"]
  by (auto simp: example_simps split: prod.split)

text \<open>C2: Division with remainder. For a nonzero divisor \<open>bigint_div_mod\<close> (Knuth's
  Algorithm D, or the one-limb loop) returns the quotient truncated towards zero and the
  remainder with the sign of the dividend: \<open>a = b * q + r\<close>, \<open>|r| < |b|\<close> and
  \<open>0 \<le> a * r\<close>. One object for both outputs is refused, before the divisor is looked at, and a zero
  divisor is reported; every failure leaves both outputs as they were; the estimate assertion of
  Algorithm D never fails.\<close>

theorem bigint_div_mod_correct:
  assumes "\<not> stuck s" "bigint_wf a" "bigint_wf b"
  shows "case run_state (bigint_div_mod same q r a b) s of ((st, q', r'), s') \<Rightarrow> \<not> stuck s' \<and>
    (if same then st = BIGINT_INVALID_ARGUMENT \<and> q' = q \<and> r' = r
     else if bigint_val b = 0 then st = BIGINT_DIVISION_BY_ZERO \<and> q' = q \<and> r' = r
     else outcome (unlimited s) True st
       (bigint_wf q' \<and> bigint_wf r' \<and>
        bigint_val a = bigint_val b * bigint_val q' + bigint_val r' \<and>
        \<bar>bigint_val r'\<bar> < \<bar>bigint_val b\<bar> \<and> 0 \<le> bigint_val a * bigint_val r')
       (q' = q \<and> r' = r))"
proof (rule rspec_run3 [OF _ assms(1)], rule div_mod_same_wp [OF assms(2,3)])
  fix st q' r'
  assume o: "if same then st = BIGINT_INVALID_ARGUMENT \<and> q' = q \<and> r' = r
    else if limbs b = [] then st = BIGINT_DIVISION_BY_ZERO \<and> q' = q \<and> r' = r
    else outcome (unlimited s) True st
      (bigint_wf q' \<and> bigint_val q' = tdiv (bigint_val a) (bigint_val b) \<and>
       bigint_wf r' \<and> bigint_val r' = tmod (bigint_val a) (bigint_val b)) (q' = q \<and> r' = r)"
  have sign: "0 \<le> x * tmod x y" for x y :: int
    by (cases "y = 0") (auto simp: tmod_def sgn_if zero_le_mult_iff mult_le_0_iff)
  show "case (st, q', r') of (st, q', r') \<Rightarrow>
     if same then st = BIGINT_INVALID_ARGUMENT \<and> q' = q \<and> r' = r
     else if bigint_val b = 0 then st = BIGINT_DIVISION_BY_ZERO \<and> q' = q \<and> r' = r
     else outcome (unlimited s) True st
       (bigint_wf q' \<and> bigint_wf r' \<and> bigint_val a = bigint_val b * bigint_val q' + bigint_val r' \<and>
        \<bar>bigint_val r'\<bar> < \<bar>bigint_val b\<bar> \<and> 0 \<le> bigint_val a * bigint_val r') (q' = q \<and> r' = r)"
    using o bigint_val_0_iff [OF assms(3)] sign [of "bigint_val a" "bigint_val b"]
      tdiv_tmod [of "bigint_val b" "bigint_val a"] tmod_less [of "bigint_val b" "bigint_val a"]
    by (auto simp: outcome_def simp del: abs_bigint_val)
qed

theorem bigint_div_mod_correct_witness:
  "case run_state (bigint_div_mod False bigint_init bigint_init (bigint_wrap_uint64 47) (bigint_wrap_uint64 5)) idle_runtime of
     ((st, q', r'), s') \<Rightarrow> st = BIGINT_OK \<and> 47 = 5 * bigint_val q' + bigint_val r' \<and> \<bar>bigint_val r'\<bar> < 5"
  using bigint_div_mod_correct [of idle_runtime "bigint_wrap_uint64 47" "bigint_wrap_uint64 5" False bigint_init bigint_init]
  by (auto simp: outcome_def resource_failure_def split: prod.splits if_splits)

text \<open>C27: Powers. \<open>bigint_pow\<close> computes \<open>base ^ exponent\<close> by repeated squaring for every
  non-negative exponent and rejects a negative one; with unlimited resources it succeeds
  whenever the power has fewer than \<open>BIGINT_MAX_LIMBS\<close> limbs.\<close>

theorem bigint_pow_correct:
  assumes "\<not> stuck s" "storage_ok r" "bigint_wf b" "bigint_wf e"
  shows "case run_state (bigint_pow r b e) s of ((st, r'), s') \<Rightarrow> \<not> stuck s' \<and>
    (if bigint_val e < 0 then st = BIGINT_NEGATIVE_ARGUMENT \<and> r' = r
     else result_ok (unlimited s) (\<bar>bigint_val b\<bar> ^ nat (bigint_val e) < int (LB ^ (BIGINT_MAX_LIMBS - 1)))
            r (bigint_val b ^ nat (bigint_val e)) st r')"
proof (rule rspec_run2 [OF _ assms(1)], rule pow_wp [OF assms(2-4)])
  fix st r'
  assume o: "if is_negative e then st = BIGINT_NEGATIVE_ARGUMENT \<and> r' = r
    else result_ok (unlimited s) (bigint_mag b ^ bigint_mag e < LB ^ (BIGINT_MAX_LIMBS - 1)) r
      (bigint_val b ^ bigint_mag e) st r'"
  have "\<not> is_negative e \<Longrightarrow> nat (bigint_val e) = bigint_mag e" by (simp add: bigint_val_def)
  then show "case (st, r') of (st, r') \<Rightarrow>
     if bigint_val e < 0 then st = BIGINT_NEGATIVE_ARGUMENT \<and> r' = r
     else result_ok (unlimited s) (\<bar>bigint_val b\<bar> ^ nat (bigint_val e) < int (LB ^ (BIGINT_MAX_LIMBS - 1)))
            r (bigint_val b ^ nat (bigint_val e)) st r'"
    using o bigint_val_neg_iff [OF assms(4)]
    unfolding abs_bigint_val of_nat_power [symmetric] of_nat_less_iff by (cases "is_negative e") simp_all
qed

theorem bigint_pow_correct_witness:
  "case run_state (bigint_pow bigint_init (bigint_wrap_uint64 1) (bigint_wrap_uint64 5)) idle_runtime of
     ((st, r'), s') \<Rightarrow> st = BIGINT_OK \<and> bigint_val r' = 1"
proof -
  have "(1 :: int) < int (LB ^ (BIGINT_MAX_LIMBS - 1))"
  proof -
    have "LB ^ 0 < LB ^ (BIGINT_MAX_LIMBS - 1)"
      by (intro power_strict_increasing) (simp_all add: max_limbs_numeral)
    then have "int (LB ^ 0) < int (LB ^ (BIGINT_MAX_LIMBS - 1))" unfolding of_nat_less_iff .
    then show ?thesis by simp
  qed
  then show ?thesis
    using bigint_pow_correct [of idle_runtime bigint_init "bigint_wrap_uint64 1" "bigint_wrap_uint64 5"]
    by (auto split: prod.split)
qed

text \<open>Sums. \<open>bigint_add\<close> is exact for every combination of signs, its result is
  canonical, and a failure leaves the destination as it was.\<close>

theorem bigint_add_correct:
  assumes "\<not> stuck s" "storage_ok r" "bigint_wf a" "bigint_wf b"
  shows "case run_state (bigint_add r a b) s of ((st, r'), s') \<Rightarrow> \<not> stuck s' \<and>
    result_ok (unlimited s) (Suc (max (bsize a) (bsize b)) \<le> BIGINT_MAX_LIMBS) r
      (bigint_val a + bigint_val b) st r'"
  by (rule add.run [OF assms])

theorem bigint_add_correct_witness:
  "case run_state (bigint_add bigint_init (bigint_wrap_uint64 UINT64_MAX) (bigint_wrap_uint64 1)) idle_runtime of
     ((st, r'), s') \<Rightarrow> st = BIGINT_OK \<and> bigint_val r' = 2 ^ 64"
  using bigint_add_correct [of idle_runtime bigint_init "bigint_wrap_uint64 UINT64_MAX" "bigint_wrap_uint64 1"]
  by (auto simp: example_simps LB_def split: prod.split)

text \<open>Differences. \<open>bigint_sub\<close> is exact and canonical; what it needs beyond the sum is a
  private negated copy of the subtrahend, so the operands may alias the destination.\<close>

theorem bigint_sub_correct:
  assumes "\<not> stuck s" "storage_ok r" "bigint_wf a" "bigint_wf b"
  shows "case run_state (bigint_sub r a b) s of ((st, r'), s') \<Rightarrow> \<not> stuck s' \<and>
    result_ok (unlimited s) (Suc (max (bsize a) (bsize b)) \<le> BIGINT_MAX_LIMBS) r
      (bigint_val a - bigint_val b) st r'"
  by (rule sub.run [OF assms])

theorem bigint_sub_correct_witness:
  "case run_state (bigint_sub bigint_init (bigint_wrap_uint64 3) (bigint_wrap_uint64 10)) idle_runtime of
     ((st, r'), s') \<Rightarrow> st = BIGINT_OK \<and> bigint_val r' = - 7"
  using bigint_sub_correct [of idle_runtime bigint_init "bigint_wrap_uint64 3" "bigint_wrap_uint64 10"]
  by (auto simp: example_simps split: prod.split)

text \<open>Squaring in place. \<^verbatim>\<open>bigint_mul(x, x, x)\<close> leaves a canonical object: the
  square when it succeeds, the old value when it does not.\<close>

theorem bigint_square_in_place:
  assumes "\<not> stuck s" "bigint_wf x"
  shows "case run_state (bigint_mul x x x) s of ((st, x'), s') \<Rightarrow> \<not> stuck s' \<and> bigint_wf x' \<and>
    bigint_val x' = (if st = BIGINT_OK then bigint_val x * bigint_val x else bigint_val x)"
  by (rule mul.in_place [OF assms])

theorem bigint_square_in_place_witness:
  "case run_state (bigint_mul (bigint_wrap_uint64 9) (bigint_wrap_uint64 9) (bigint_wrap_uint64 9)) idle_runtime of
     ((st, x'), s') \<Rightarrow> bigint_val x' = (if st = BIGINT_OK then 81 else 9)"
  using bigint_square_in_place [of idle_runtime "bigint_wrap_uint64 9"] by (auto split: prod.split)

end
