(* ===== verification/BigInt_Bitwise.thy ===== *)
theory BigInt_Bitwise
  imports BigInt_Arith
begin

text \<open>
  The bitwise operations and shifts of \<^verbatim>\<open>src/core/bigint/bitwise.c\<close>. The
  conjunction, disjunction and symmetric difference are defined for non-negative operands,
  the complement of \<open>a\<close> is \<open>-(a + 1)\<close>, a left shift multiplies by a power of two and a
  right shift truncates the quotient by one towards zero.
\<close>

unbundle bit_operations_syntax

section \<open>Operations\<close>

datatype BigIntBitwiseOperation =
    BIGINT_BITWISE_AND
  | BIGINT_BITWISE_OR
  | BIGINT_BITWISE_XOR

definition bigint_bitwise ::
  "BigInt \<Rightarrow> BigInt \<Rightarrow> BigInt \<Rightarrow> BigIntBitwiseOperation \<Rightarrow> (BigIntStatus \<times> BigInt) rt" where
  "bigint_bitwise result a b operation =
    (if is_negative a \<or> is_negative b then State_Monad.return (BIGINT_NEGATIVE_ARGUMENT, result)
     else
       let smaller = (if bsize a < bsize b then bsize a else bsize b);
           larger = (if bsize a > bsize b then bsize a else bsize b);
           size = (if operation = BIGINT_BITWISE_AND then smaller else larger);
           finish = (\<lambda>xs. fst (bigint_commit result (bigint_normalize
                      \<lparr>limbs = xs, capacity = size, is_negative = False\<rparr>)))
       in if size > 0 then
            (case bigint_size_mul size 8 of
               None \<Rightarrow> State_Monad.return (BIGINT_OUT_OF_MEMORY, result)
             | Some bytes \<Rightarrow> do {
                 granted \<leftarrow> numforge_malloc bytes;
                 if \<not> granted then State_Monad.return (BIGINT_OUT_OF_MEMORY, result)
                 else State_Monad.return (BIGINT_OK, finish
                   (case operation of
                      BIGINT_BITWISE_AND \<Rightarrow> map (\<lambda>i. limbs a ! i AND limbs b ! i) [0..<size]
                    | BIGINT_BITWISE_OR \<Rightarrow> map (\<lambda>i. limb_at (limbs a) i OR limb_at (limbs b) i) [0..<size]
                    | BIGINT_BITWISE_XOR \<Rightarrow> map (\<lambda>i. limb_at (limbs a) i XOR limb_at (limbs b) i) [0..<size]))
               })
          else State_Monad.return (BIGINT_OK, finish []))"

definition bigint_and :: "BigInt \<Rightarrow> BigInt \<Rightarrow> BigInt \<Rightarrow> (BigIntStatus \<times> BigInt) rt" where
  "bigint_and result a b = bigint_bitwise result a b BIGINT_BITWISE_AND"

definition bigint_or :: "BigInt \<Rightarrow> BigInt \<Rightarrow> BigInt \<Rightarrow> (BigIntStatus \<times> BigInt) rt" where
  "bigint_or result a b = bigint_bitwise result a b BIGINT_BITWISE_OR"

definition bigint_xor :: "BigInt \<Rightarrow> BigInt \<Rightarrow> BigInt \<Rightarrow> (BigIntStatus \<times> BigInt) rt" where
  "bigint_xor result a b = bigint_bitwise result a b BIGINT_BITWISE_XOR"

definition bigint_not :: "BigInt \<Rightarrow> BigInt \<Rightarrow> (BigIntStatus \<times> BigInt) rt" where
  "bigint_not result a = do {
     let one = bigint_wrap_uint64 1;
     (status, sum) \<leftarrow> bigint_add bigint_init a one;
     if status = BIGINT_OK then bigint_negate result sum
     else State_Monad.return (status, result)
   }"

text \<open>\<^verbatim>\<open>xs[i] |= w\<close>.\<close>

definition or_into :: "nat \<Rightarrow> u64 \<Rightarrow> u64 list \<Rightarrow> u64 list" where
  "or_into i w xs = xs[i := xs ! i OR w]"

definition shift_left_step :: "u64 list \<Rightarrow> nat \<Rightarrow> nat \<Rightarrow> nat \<Rightarrow> u64 list \<Rightarrow> u64 list" where
  "shift_left_step as limb_shift bit_shift i xs =
    (let part = as ! i
     in if bit_shift = 0 then or_into (i + limb_shift) part xs
        else or_into (i + limb_shift + 1) (drop_bit (64 - bit_shift) part)
               (or_into (i + limb_shift) (push_bit bit_shift part) xs))"

definition bigint_shift_left :: "BigInt \<Rightarrow> BigInt \<Rightarrow> nat \<Rightarrow> (BigIntStatus \<times> BigInt) rt" where
  "bigint_shift_left result a n =
    (if limbs a = [] \<or> n = 0 then bigint_copy result a
     else let limb_shift = n div 64; bit_shift = n mod 64
     in case Option.bind (bigint_size_add (bsize a) limb_shift) (\<lambda>s. bigint_size_add s 1) of
          None \<Rightarrow> State_Monad.return (BIGINT_VALUE_TOO_LARGE, result)
        | Some new_size \<Rightarrow>
            if new_size > BIGINT_MAX_LIMBS \<or> bigint_size_mul new_size 8 = None
            then State_Monad.return (BIGINT_VALUE_TOO_LARGE, result)
            else do {
              granted \<leftarrow> numforge_calloc new_size 8;
              if \<not> granted then State_Monad.return (BIGINT_OUT_OF_MEMORY, result)
              else let xs = fold (shift_left_step (limbs a) limb_shift bit_shift) [0..<bsize a]
                              (replicate new_size 0)
                   in State_Monad.return (BIGINT_OK, fst (bigint_commit result (bigint_normalize
                        \<lparr>limbs = xs, capacity = new_size, is_negative = is_negative a\<rparr>)))
            })"

definition shift_right_limb :: "u64 list \<Rightarrow> nat \<Rightarrow> nat \<Rightarrow> nat \<Rightarrow> u64" where
  "shift_right_limb as limb_shift bit_shift i =
    (let merged = as ! (i + limb_shift)
     in if bit_shift \<noteq> 0 then
          (let merged = drop_bit bit_shift merged
           in if i + limb_shift + 1 < length as
              then merged OR push_bit (64 - bit_shift) (as ! (i + limb_shift + 1)) else merged)
        else merged)"

definition bigint_shift_right :: "BigInt \<Rightarrow> BigInt \<Rightarrow> nat \<Rightarrow> (BigIntStatus \<times> BigInt) rt" where
  "bigint_shift_right result a n =
    (if limbs a = [] \<or> n = 0 then bigint_copy result a
     else let limb_shift = n div 64
     in if limb_shift \<ge> bsize a
        then State_Monad.return (BIGINT_OK, result\<lparr>limbs := [], is_negative := False\<rparr>)
        else let bit_shift = n mod 64; new_size = bsize a - limb_shift
        in case bigint_size_mul new_size 8 of
             None \<Rightarrow> State_Monad.return (BIGINT_OUT_OF_MEMORY, result)
           | Some bytes \<Rightarrow> do {
               granted \<leftarrow> numforge_malloc bytes;
               if \<not> granted then State_Monad.return (BIGINT_OUT_OF_MEMORY, result)
               else let xs = map (shift_right_limb (limbs a) limb_shift bit_shift) [0..<new_size]
                    in State_Monad.return (BIGINT_OK, fst (bigint_commit result (bigint_normalize
                         \<lparr>limbs = xs, capacity = new_size, is_negative = is_negative a\<rparr>)))
             })"

section \<open>Conjunction, disjunction, symmetric difference\<close>

lemma limb_at_map [simp]:
  "limb_at (map f [0..<n]) i = (if i < n then f i else 0)"
  by (simp add: limb_at_def)

lemma limb_at_beyond: "length xs \<le> i \<Longrightarrow> limb_at xs i = 0"
  by (simp add: limb_at_def)

lemma mag_and: "mag (map (\<lambda>i. xs ! i AND ys ! i) [0..<min (length xs) (length ys)]) = mag xs AND mag ys"
  by (rule bit_eqI) (auto simp: bit_mag bit_and_iff limb_at_def)

lemma mag_or: "mag (map (\<lambda>i. limb_at xs i OR limb_at ys i) [0..<max (length xs) (length ys)]) = mag xs OR mag ys"
  by (rule bit_eqI) (auto simp: bit_mag bit_or_iff limb_at_def)

lemma mag_xor: "mag (map (\<lambda>i. limb_at xs i XOR limb_at ys i) [0..<max (length xs) (length ys)]) = mag xs XOR mag ys"
  by (rule bit_eqI) (auto simp: bit_mag bit_xor_iff limb_at_def)

text \<open>The integer operation a selector stands for.\<close>

definition int_bitwise :: "BigIntBitwiseOperation \<Rightarrow> int \<Rightarrow> int \<Rightarrow> int" where
  "int_bitwise operation x y = (case operation of
      BIGINT_BITWISE_AND \<Rightarrow> x AND y | BIGINT_BITWISE_OR \<Rightarrow> x OR y | BIGINT_BITWISE_XOR \<Rightarrow> x XOR y)"

lemma int_bitwise_simps:
  "int_bitwise BIGINT_BITWISE_AND x y = x AND y"
  "int_bitwise BIGINT_BITWISE_OR x y = x OR y"
  "int_bitwise BIGINT_BITWISE_XOR x y = x XOR y"
  by (simp_all add: int_bitwise_def)

lemma val_record:
  "bigint_val \<lparr>limbs = xs, capacity = n, is_negative = neg\<rparr> = (if neg then - int (mag xs) else int (mag xs))"
  by (simp add: bigint_val_def)

lemma committed_wf:
  "length xs \<le> n \<Longrightarrow> n \<le> BIGINT_MAX_LIMBS \<Longrightarrow>
   bigint_wf (bigint_normalize \<lparr>limbs = xs, capacity = n, is_negative = neg\<rparr>)"
  by (rule normalize_wf) simp_all

lemma bitwise_wp [wp]:
  assumes a: "bigint_wf a" and b: "bigint_wf b"
    and Q: "\<And>st r'. (if is_negative a \<or> is_negative b then st = BIGINT_NEGATIVE_ARGUMENT \<and> r' = r
        else result_ok u True r (int_bitwise operation (bigint_val a) (bigint_val b)) st r') \<Longrightarrow> Q (st, r')"
  shows "rspec u (bigint_bitwise r a b operation) Q"
proof -
  let ?n = "if operation = BIGINT_BITWISE_AND then min (bsize a) (bsize b) else max (bsize a) (bsize b)"
  have n: "?n \<le> BIGINT_MAX_LIMBS" using bigint_wfD(5) [OF a] bigint_wfD(5) [OF b] by auto
  have fin: "Q (BIGINT_OK, bigint_normalize \<lparr>limbs = xs, capacity = ?n, is_negative = False\<rparr>)"
    if "\<not> is_negative a" "\<not> is_negative b" "length xs \<le> ?n"
      "int (mag xs) = int_bitwise operation (int (bigint_mag a)) (int (bigint_mag b))" for xs
    using that n by (intro Q) (simp add: result_ok_def committed_wf val_record bigint_val_def [of a] bigint_val_def [of b])
  have fail: "Q (BIGINT_OUT_OF_MEMORY, r)" if "\<not> u" "\<not> is_negative a" "\<not> is_negative b"
    using that by (intro Q) (simp add: result_ok_def)
  have sizes: "(if bsize a < bsize b then bsize a else bsize b) = min (bsize a) (bsize b)"
    "(if bsize a > bsize b then bsize a else bsize b) = max (bsize a) (bsize b)" by auto
  let ?xs = "case operation of
      BIGINT_BITWISE_AND \<Rightarrow> map (\<lambda>i. limbs a ! i AND limbs b ! i) [0..<?n]
    | BIGINT_BITWISE_OR \<Rightarrow> map (\<lambda>i. limb_at (limbs a) i OR limb_at (limbs b) i) [0..<?n]
    | BIGINT_BITWISE_XOR \<Rightarrow> map (\<lambda>i. limb_at (limbs a) i XOR limb_at (limbs b) i) [0..<?n]"
  have len: "length ?xs = ?n" by (cases operation) simp_all
  have mag: "int (mag ?xs) = int_bitwise operation (int (bigint_mag a)) (int (bigint_mag b))"
    by (cases operation) (simp_all add: int_bitwise_simps mag_and mag_or mag_xor of_nat_and_eq of_nat_or_eq of_nat_xor_eq)
  have empty: "?xs = []" if "\<not> 0 < ?n" using that len by simp
  have bytes: "?n * 8 \<le> SIZE_MAX" by (rule max_limbs_bytes [OF n])
  show ?thesis
  proof (cases "is_negative a \<or> is_negative b")
    case True
    then show ?thesis by (simp add: bigint_bitwise_def triple_return Q)
  next
    case False
    then have neg: "\<not> is_negative a" "\<not> is_negative b" by auto
    show ?thesis
      unfolding bigint_bitwise_def Let_def fst_bigint_commit sizes if_not_P [OF False]
        bigint_size_mul_Some [OF bytes] option.case
      using fin [OF neg _ mag] fin [OF neg, of "[]"] mag empty len neg
      by (intro triple_if triple_bind malloc_wp triple_return) (auto intro: fail)
  qed
qed

lemma and_wp:
  assumes "bigint_wf a" "bigint_wf b"
    and "\<And>st r'. (if is_negative a \<or> is_negative b then st = BIGINT_NEGATIVE_ARGUMENT \<and> r' = r
        else result_ok u True r (bigint_val a AND bigint_val b) st r') \<Longrightarrow> Q (st, r')"
  shows "rspec u (bigint_and r a b) Q"
  unfolding bigint_and_def by (rule bitwise_wp [OF assms(1,2)], rule assms(3)) (simp only: int_bitwise_simps)

lemma or_wp:
  assumes "bigint_wf a" "bigint_wf b"
    and "\<And>st r'. (if is_negative a \<or> is_negative b then st = BIGINT_NEGATIVE_ARGUMENT \<and> r' = r
        else result_ok u True r (bigint_val a OR bigint_val b) st r') \<Longrightarrow> Q (st, r')"
  shows "rspec u (bigint_or r a b) Q"
  unfolding bigint_or_def by (rule bitwise_wp [OF assms(1,2)], rule assms(3)) (simp only: int_bitwise_simps)

lemma xor_wp:
  assumes "bigint_wf a" "bigint_wf b"
    and "\<And>st r'. (if is_negative a \<or> is_negative b then st = BIGINT_NEGATIVE_ARGUMENT \<and> r' = r
        else result_ok u True r (bigint_val a XOR bigint_val b) st r') \<Longrightarrow> Q (st, r')"
  shows "rspec u (bigint_xor r a b) Q"
  unfolding bigint_xor_def by (rule bitwise_wp [OF assms(1,2)], rule assms(3)) (simp only: int_bitwise_simps)

section \<open>Complement\<close>

lemma not_wp [wp]:
  assumes r: "storage_ok r" and a: "bigint_wf a"
    and Q: "\<And>st r'. result_ok u (Suc (max (bsize a) 1) \<le> BIGINT_MAX_LIMBS) r (NOT (bigint_val a)) st r' \<Longrightarrow> Q (st, r')"
  shows "rspec u (bigint_not r a) Q"
  unfolding bigint_not_def Let_def
proof (rule triple_bind, rule add_wp [OF _ a wrap_uint64_wf], simp add: bigint_wf_storage_ok, rule triple_case_pair)
  fix st sum
  assume o: "result_ok u (Suc (max (bsize a) (bsize (bigint_wrap_uint64 1))) \<le> BIGINT_MAX_LIMBS) bigint_init
      (bigint_val a + bigint_val (bigint_wrap_uint64 1)) st sum"
  have one: "bsize (bigint_wrap_uint64 1) = 1" by (simp add: bigint_wrap_uint64_def)
  show "rspec u (if st = BIGINT_OK then bigint_negate r sum else State_Monad.return (st, r)) Q"
  proof (cases "st = BIGINT_OK")
    case True
    with o have sum: "bigint_wf sum" "bigint_val sum = bigint_val a + 1" by (auto simp: result_ok_def)
    have neg: "- bigint_val sum = NOT (bigint_val a)" by (simp add: sum(2) not_eq_complement)
    show ?thesis
      unfolding if_P [OF True]
      by (rule negate_wp [OF r sum(1)], rule Q)
        (auto simp: result_ok_def neg intro: outcome_mono)
  next
    case False
    with o have "resource_failure u (Suc (max (bsize a) 1) \<le> BIGINT_MAX_LIMBS) st"
      by (simp add: result_ok_def one)
    with False show ?thesis by (auto intro!: wp Q simp: result_ok_def)
  qed
qed

section \<open>Left shift\<close>

lemma or_into_length [simp]: "length (or_into i w xs) = length xs"
  by (simp add: or_into_def)

lemma mag_or_into:
  assumes "i < length xs"
  shows "mag (or_into i w xs) = mag xs OR push_bit (64 * i) (unat w)"
proof (rule bit_eqI)
  fix k
  have "k div 64 = i \<Longrightarrow> 64 * i \<le> k \<and> k - 64 * i = k mod 64"
    by (auto simp: minus_mod_eq_mult_div [symmetric])
  moreover have "64 * i \<le> k \<Longrightarrow> k div 64 \<noteq> i \<Longrightarrow> \<not> k - 64 * i < 64" by auto
  ultimately show "bit (mag (or_into i w xs)) k = bit (mag xs OR push_bit (64 * i) (unat w)) k"
    using assms
    by (auto simp: bit_mag or_into_def limb_at_def bit_or_iff bit_push_bit_iff bit_unsigned_iff
        nth_list_update dest: bit_imp_le_length)
qed

lemma push_bit_limb:
  assumes "s < 64"
  shows "push_bit s (unat (x :: u64)) =
    unat (push_bit s x) OR push_bit 64 (unat (if s = 0 then 0 else drop_bit (64 - s) x))"
proof (rule bit_eqI)
  fix n
  have "64 \<le> n \<Longrightarrow> 64 + (n - 64) - s = n - s" by simp
  then show "bit (push_bit s (unat x)) n =
      bit (unat (push_bit s x) OR push_bit 64 (unat (if s = 0 then 0 else drop_bit (64 - s) x))) n"
    using assms
    by (cases "n < 64") (auto simp: bit_or_iff bit_push_bit_iff bit_unsigned_iff bit_drop_bit_eq
        dest: bit_imp_le_length)
qed

lemma shift_left_step_mag:
  assumes i: "i < length as" and out: "length xs = length as + ls + 1" and bs: "bs < 64"
    and m: "mag xs = push_bit (64 * ls + bs) (mag (take i as))"
  shows "length (shift_left_step as ls bs i xs) = length xs"
    and "mag (shift_left_step as ls bs i xs) = push_bit (64 * ls + bs) (mag (take (Suc i) as))"
proof -
  show "length (shift_left_step as ls bs i xs) = length xs" by (simp add: shift_left_step_def Let_def)
  have low: "take_bit (64 * i) (mag (take i as)) = mag (take i as)"
    using mag_less [of "take i as"] i by (simp add: take_bit_nat_eq_self_iff LB_power)
  have "mag (take (Suc i) as) = mag (take i as) + push_bit (64 * i) (unat (as ! i))"
    using i by (simp add: mag_take_Suc push_bit_eq_mult LB_power mult.commute)
  also have "\<dots> = mag (take i as) OR push_bit (64 * i) (unat (as ! i))"
    by (rule disjunctive_add, subst low [symmetric]) (auto simp: bit_take_bit_iff bit_push_bit_iff)
  finally have "push_bit (64 * ls + bs) (mag (take (Suc i) as)) =
      mag xs OR push_bit (64 * (i + ls)) (push_bit bs (unat (as ! i)))"
    by (simp add: m push_bit_or algebra_simps)
  also have "\<dots> = mag (shift_left_step as ls bs i xs)"
    using i out unfolding push_bit_limb [OF bs]
    by (simp add: shift_left_step_def Let_def mag_or_into push_bit_or algebra_simps or.assoc)
  finally show "mag (shift_left_step as ls bs i xs) = push_bit (64 * ls + bs) (mag (take (Suc i) as))" ..
qed

lemma shift_left_fold:
  "i \<le> length as \<Longrightarrow> bs < 64 \<Longrightarrow>
   (let xs = fold (shift_left_step as ls bs) [0..<i] (replicate (length as + ls + 1) 0)
    in length xs = length as + ls + 1 \<and> mag xs = push_bit (64 * ls + bs) (mag (take i as)))"
proof (induction i)
  case (Suc i)
  then show ?case by (simp add: Let_def shift_left_step_mag)
qed (simp add: Let_def)

lemma shift_left_wp [wp]:
  assumes r: "storage_ok r" and a: "bigint_wf a"
    and Q: "\<And>st r'. result_ok u (bsize a + n div 64 + 1 \<le> BIGINT_MAX_LIMBS) r (bigint_val a * 2 ^ n) st r' \<Longrightarrow> Q (st, r')"
  shows "rspec u (bigint_shift_left r a n) Q"
proof (cases "limbs a = [] \<or> n = 0")
  case True
  then have "bigint_val a = bigint_val a * 2 ^ n" by (auto simp: bigint_val_def)
  with True show ?thesis
    by (auto intro!: copy_wp [OF r a] Q simp: bigint_shift_left_def result_ok_def elim!: outcome_mono)
next
  case False
  let ?m = "bsize a + n div 64 + 1" and ?out = "fold (shift_left_step (limbs a) (n div 64) (n mod 64)) [0..<bsize a]"
  have fold: "length (?out (replicate ?m 0)) = ?m" "mag (?out (replicate ?m 0)) = bigint_mag a * 2 ^ n"
    using shift_left_fold [of "bsize a" "limbs a" "n mod 64" "n div 64"] by (simp_all add: Let_def push_bit_eq_mult)
  have fin: "Q (BIGINT_OK, bigint_normalize \<lparr>limbs = ?out (replicate ?m 0), capacity = ?m, is_negative = is_negative a\<rparr>)"
    if "?m \<le> BIGINT_MAX_LIMBS"
    using that fold by (intro Q) (simp add: result_ok_def committed_wf val_record bigint_val_def [of a])
  have large: "Q (BIGINT_VALUE_TOO_LARGE, r)" if "\<not> ?m \<le> BIGINT_MAX_LIMBS"
    using that by (intro Q) (simp add: result_ok_def)
  have fail: "Q (BIGINT_OUT_OF_MEMORY, r)" if "\<not> u"
    using that by (intro Q) (simp add: result_ok_def)
  show ?thesis
  proof (cases "?m \<le> BIGINT_MAX_LIMBS")
    case True
    have size: "Option.bind (bigint_size_add (bsize a) (n div 64)) (\<lambda>s. bigint_size_add s 1) = Some ?m"
      using max_limbs_Suc [OF True] by simp
    have bytes: "?m * 8 \<le> SIZE_MAX" using True by (rule max_limbs_bytes)
    show ?thesis
      unfolding bigint_shift_left_def Let_def fst_bigint_commit if_not_P [OF False] size option.case
      using True bytes by (auto intro!: triple_if triple_return triple_bind calloc_wp fin fail simp del: add_Suc_right)
  next
    case m: False
    have some: "k = ?m"
      if "Option.bind (bigint_size_add (bsize a) (n div 64)) (\<lambda>s. bigint_size_add s 1) = Some k" for k
      using that by (auto simp: bind_eq_Some_conv dest!: bigint_size_addD)
    show ?thesis
      unfolding bigint_shift_left_def Let_def if_not_P [OF False]
    proof (intro triple_case_option triple_if triple_return large [OF m])
      fix new_size
      assume "Option.bind (bigint_size_add (bsize a) (n div 64)) (\<lambda>s. bigint_size_add s 1) = Some new_size"
        "\<not> (BIGINT_MAX_LIMBS < new_size \<or> bigint_size_mul new_size 8 = None)"
      then have False using some m by auto
      then show "rspec u (do {
          granted \<leftarrow> numforge_calloc new_size 8;
          if \<not> granted then State_Monad.return (BIGINT_OUT_OF_MEMORY, r)
          else State_Monad.return (BIGINT_OK, fst (bigint_commit r (bigint_normalize
            \<lparr>limbs = fold (shift_left_step (limbs a) (n div 64) (n mod 64)) [0..<bsize a] (replicate new_size 0),
             capacity = new_size, is_negative = is_negative a\<rparr>))) }) Q" ..
    qed
  qed
qed

section \<open>Right shift\<close>

lemma div_mod_64: "r < 64 \<Longrightarrow> (64 * q + r) div 64 = q" "r < 64 \<Longrightarrow> (64 * q + r) mod 64 = (r :: nat)"
  by simp_all

lemma mag_shift_right:
  assumes "ls < length as" "s < 64"
  shows "mag (map (shift_right_limb as ls s) [0..<length as - ls]) = drop_bit (64 * ls + s) (mag as)"
proof (rule bit_eqI)
  fix k
  show "bit (mag (map (shift_right_limb as ls s) [0..<length as - ls])) k = bit (drop_bit (64 * ls + s) (mag as)) k"
  proof -
    define q t where "q = k div 64" and "t = k mod 64"
    have k: "64 * ls + s + k = 64 * (q + ls) + (t + s)" by (simp add: q_def t_def)
    have t: "t < 64" by (simp add: t_def)
    show ?thesis
    proof (cases "t + s < 64")
      case True
      then have "(64 * ls + s + k) div 64 = q + ls" "(64 * ls + s + k) mod 64 = t + s"
        unfolding k by (simp_all only: div_mod_64)
      then show ?thesis
        using True
        by (auto simp: bit_mag shift_right_limb_def Let_def limb_at_def bit_or_iff bit_push_bit_iff
            bit_drop_bit_eq add.commute simp flip: q_def t_def dest: bit_imp_le_length)
    next
      case False
      have k': "64 * ls + s + k = 64 * Suc (q + ls) + (t + s - 64)" using False unfolding k by simp
      have "t + s - 64 < 64" using t assms(2) by simp
      then have "(64 * ls + s + k) div 64 = Suc (q + ls)" "(64 * ls + s + k) mod 64 = t + s - 64"
        unfolding k' by (simp_all only: div_mod_64)
      then show ?thesis
        using False assms t
        by (auto simp: bit_mag shift_right_limb_def Let_def limb_at_def bit_or_iff bit_push_bit_iff
            bit_drop_bit_eq add.commute simp flip: q_def t_def dest: bit_imp_le_length)
    qed
  qed
qed

lemma shift_right_wp [wp]:
  assumes r: "storage_ok r" and a: "bigint_wf a"
    and Q: "\<And>st r'. result_ok u True r (tdiv (bigint_val a) (2 ^ n)) st r' \<Longrightarrow> Q (st, r')"
  shows "rspec u (bigint_shift_right r a n) Q"
proof -
  have val: "tdiv (bigint_val a) (2 ^ n) = (if is_negative a then - int (bigint_mag a div 2 ^ n) else int (bigint_mag a div 2 ^ n))"
    using bigint_val_neg_iff [OF a] bigint_val_0_iff [OF a]
    by (auto simp: tdiv_def zdiv_int sgn_if bigint_val_def)
  show ?thesis
  proof (cases "limbs a = [] \<or> n = 0")
    case True
    then have "bigint_val a = tdiv (bigint_val a) (2 ^ n)" unfolding val by (auto simp: bigint_val_def)
    with True show ?thesis
      by (auto intro!: copy_wp [OF r a] Q simp: bigint_shift_right_def result_ok_def elim!: outcome_mono)
  next
    case general: False
    show ?thesis
    proof (cases "n div 64 \<ge> bsize a")
      case True
      then have "(2 :: nat) ^ (64 * bsize a) \<le> 2 ^ n" by (intro power_increasing) auto
      then have "bigint_mag a < 2 ^ n" using mag_less [of "limbs a"] unfolding LB_power by (rule less_le_trans [rotated])
      then have "tdiv (bigint_val a) (2 ^ n) = 0" unfolding val by simp
      then have "Q (BIGINT_OK, r\<lparr>limbs := [], is_negative := False\<rparr>)"
        using r by (intro Q) (simp add: result_ok_def bigint_wf_def storage_ok_def bigint_val_def)
      with True general show ?thesis by (simp add: bigint_shift_right_def Let_def triple_return)
    next
      case False
      let ?m = "bsize a - n div 64" and ?xs = "map (shift_right_limb (limbs a) (n div 64) (n mod 64)) [0..<bsize a - n div 64]"
      have m: "?m \<le> BIGINT_MAX_LIMBS" using bigint_wfD(5) [OF a] by simp
      have "mag ?xs = bigint_mag a div 2 ^ n"
        using mag_shift_right [of "n div 64" "limbs a" "n mod 64"] False by (simp add: drop_bit_eq_div)
      then have "Q (BIGINT_OK, bigint_normalize \<lparr>limbs = ?xs, capacity = ?m, is_negative = is_negative a\<rparr>)"
        using m by (intro Q) (simp add: result_ok_def committed_wf val_record val)
      then show ?thesis
        unfolding bigint_shift_right_def Let_def fst_bigint_commit if_not_P [OF general] if_not_P [OF False]
        using max_limbs_bytes [OF m] by (auto intro!: wp Q simp: result_ok_def)
    qed
  qed
qed


interpretation complement: bigint_unary bigint_not not "\<lambda>a. Suc (max (bsize a) 1) \<le> BIGINT_MAX_LIMBS"
  by unfold_locales (rule not_wp, auto)

interpretation shl: bigint_unary "\<lambda>r a. bigint_shift_left r a n" "\<lambda>x. x * 2 ^ n"
    "\<lambda>a. bsize a + n div 64 + 1 \<le> BIGINT_MAX_LIMBS" for n
  by unfold_locales (rule shift_left_wp, auto)

interpretation shr: bigint_unary "\<lambda>r a. bigint_shift_right r a n" "\<lambda>x. tdiv x (2 ^ n)" "\<lambda>a. True" for n
  by unfold_locales (rule shift_right_wp, auto)

section \<open>Properties\<close>

text \<open>Shifts. \<open>bigint_shift_left\<close> multiplies by \<open>2 ^ n\<close>; with unlimited resources it
  succeeds when the shifted limbs and one more fit.\<close>

theorem bigint_shift_left_correct:
  assumes "\<not> stuck s" "storage_ok r" "bigint_wf a"
  shows "case run_state (bigint_shift_left r a n) s of ((st, r'), s') \<Rightarrow> \<not> stuck s' \<and>
    result_ok (unlimited s) (bsize a + n div 64 + 1 \<le> BIGINT_MAX_LIMBS) r (bigint_val a * 2 ^ n) st r'"
  by (rule shl.run [OF assms])

theorem bigint_shift_left_correct_witness:
  "case run_state (bigint_shift_left bigint_init (bigint_wrap_uint64 5) 65) idle_runtime of
     ((st, r'), s') \<Rightarrow> st = BIGINT_OK \<and> bigint_val r' = 5 * 2 ^ 65"
  using bigint_shift_left_correct [of idle_runtime bigint_init "bigint_wrap_uint64 5" 65]
  by (auto simp: example_simps split: prod.split)

text \<open>A right shift divides by \<open>2 ^ n\<close> and truncates towards zero, for negative
  operands too.\<close>

theorem bigint_shift_right_correct:
  assumes "\<not> stuck s" "storage_ok r" "bigint_wf a"
  shows "case run_state (bigint_shift_right r a n) s of ((st, r'), s') \<Rightarrow> \<not> stuck s' \<and>
    result_ok (unlimited s) True r (sgn (bigint_val a) * (\<bar>bigint_val a\<bar> div 2 ^ n)) st r'"
  using shr.run [OF assms, of n] by (simp add: tdiv_def)

theorem bigint_shift_right_correct_witness:
  "case run_state (bigint_shift_right bigint_init (bigint_wrap_uint64 43) 3) idle_runtime of
     ((st, r'), s') \<Rightarrow> st = BIGINT_OK \<and> bigint_val r' = 5"
  using bigint_shift_right_correct [of idle_runtime bigint_init "bigint_wrap_uint64 43" 3]
  by (auto split: prod.split)

text \<open>C40: A left shift is undone by a right shift: whenever both succeed, the object is the
  one shifted, limb by limb.\<close>

theorem shift_round_trip:
  assumes "\<not> stuck s" "storage_ok r" "storage_ok q" "bigint_wf a"
    and "run_state (bigint_shift_left r a n) s = ((BIGINT_OK, x), t)"
    and "run_state (bigint_shift_right q x n) t = ((BIGINT_OK, y), t')"
  shows "limbs y = limbs a \<and> is_negative y = is_negative a"
proof (rule bigint_val_inj)
  have x: "bigint_wf x" "bigint_val x = bigint_val a * 2 ^ n" "\<not> stuck t"
    using shl.run [OF assms(1,2,4), of n] assms(5) by auto
  have "bigint_val y = tdiv (bigint_val a * 2 ^ n) (2 ^ n)" and y: "bigint_wf y"
    using shr.run [OF x(3) assms(3) x(1), of n] assms(6) x(2) by auto
  then show "bigint_val y = bigint_val a"
    by (simp add: tdiv_def abs_mult sgn_mult sgn_mult_abs del: abs_bigint_val)
qed (use assms shl.run [OF assms(1,2,4), of n] shr.run [of t q x n] in auto)

theorem shift_round_trip_witness:
  "case run_state (bigint_shift_left bigint_init (bigint_wrap_uint64 5) 7) idle_runtime of ((st, x), t) \<Rightarrow>
   case run_state (bigint_shift_right bigint_init x 7) t of ((st', y), t') \<Rightarrow>
     st = BIGINT_OK \<and> st' = BIGINT_OK \<and> limbs y = [5]"
proof -
  obtain st x t where l: "run_state (bigint_shift_left bigint_init (bigint_wrap_uint64 5) 7) idle_runtime = ((st, x), t)"
    by (metis surj_pair)
  obtain st' y t' where r: "run_state (bigint_shift_right bigint_init x 7) t = ((st', y), t')"
    by (metis surj_pair)
  note x = rspec_run_unlimited [OF shl.contract [OF storage_ok_init wrap_uint64_wf] _ _ l]
  have ok: "st = BIGINT_OK" "bigint_wf x" "\<not> stuck t" "unlimited t" using x by (simp_all add: example_simps)
  then have "st' = BIGINT_OK"
    using rspec_run_unlimited [OF shr.contract [OF storage_ok_init ok(2)] _ _ r] by simp
  with ok l r show ?thesis
    using shift_round_trip [OF _ _ _ wrap_uint64_wf, of idle_runtime bigint_init bigint_init 5 7 x t y t']
    by (simp add: bigint_wrap_uint64_def)
qed

text \<open>Conjunction, disjunction and symmetric difference are those of the
  (unbounded) integers; a negative operand is rejected and the destination kept.\<close>

theorem bigint_bitwise_correct:
  assumes "\<not> stuck s" "bigint_wf a" "bigint_wf b"
  shows "case run_state (bigint_bitwise r a b operation) s of ((st, r'), s') \<Rightarrow> \<not> stuck s' \<and>
    (if bigint_val a < 0 \<or> bigint_val b < 0 then st = BIGINT_NEGATIVE_ARGUMENT \<and> r' = r
     else result_ok (unlimited s) True r
       (case operation of BIGINT_BITWISE_AND \<Rightarrow> bigint_val a AND bigint_val b
          | BIGINT_BITWISE_OR \<Rightarrow> bigint_val a OR bigint_val b
          | BIGINT_BITWISE_XOR \<Rightarrow> bigint_val a XOR bigint_val b) st r')"
  by (rule rspec_run2 [OF _ assms(1)], rule bitwise_wp [OF assms(2,3)])
    (auto simp: bigint_val_neg_iff assms(2,3) int_bitwise_def)

theorem bigint_bitwise_correct_witness:
  "case run_state (bigint_bitwise bigint_init (bigint_wrap_uint64 12) (bigint_wrap_uint64 10) BIGINT_BITWISE_XOR) idle_runtime of
     ((st, r'), s') \<Rightarrow> st = BIGINT_OK \<and> bigint_val r' = 6"
  using bigint_bitwise_correct [of idle_runtime "bigint_wrap_uint64 12" "bigint_wrap_uint64 10" bigint_init BIGINT_BITWISE_XOR]
  by (auto split: prod.split)

text \<open>The complement is two's complement on unbounded integers, \<open>-(a + 1)\<close>.\<close>

theorem bigint_not_correct:
  assumes "\<not> stuck s" "storage_ok r" "bigint_wf a"
  shows "case run_state (bigint_not r a) s of ((st, r'), s') \<Rightarrow> \<not> stuck s' \<and>
    result_ok (unlimited s) (Suc (max (bsize a) 1) \<le> BIGINT_MAX_LIMBS) r (- (bigint_val a + 1)) st r'"
  using complement.run [OF assms] by (simp add: not_eq_complement)

theorem bigint_not_correct_witness:
  "case run_state (bigint_not bigint_init (bigint_wrap_uint64 41)) idle_runtime of
     ((st, r'), s') \<Rightarrow> st = BIGINT_OK \<and> bigint_val r' = - 42"
  using bigint_not_correct [of idle_runtime bigint_init "bigint_wrap_uint64 41"]
  by (auto simp: example_simps split: prod.split)

end
