(* ===== verification/BigInt_Number.thy ===== *)
theory BigInt_Number
  imports Complex_Main BigInt_Bitwise
begin

text \<open>
  The number-theoretic functions of \<^verbatim>\<open>src/core/bigint/number_theory.c\<close>:
  Euclid's algorithm with its rotating buffers and its division workspace, the least
  common multiple, the factorial by packed groups of factors, permutations and
  combinations by the exact recurrence.
\<close>

section \<open>Greatest common divisor\<close>

text \<open>The loop rotates the three objects: \<open>x \<leftarrow> y\<close>, \<open>y \<leftarrow> remainder\<close>, and the old
  \<open>x\<close> becomes the next remainder's buffer. The fuel bounds the number of divisions; \<open>y\<close>
  decreases in each, so \<open>y + 1\<close> is enough.\<close>

primrec gcd_loop ::
  "nat \<Rightarrow> BigInt \<Rightarrow> BigInt \<Rightarrow> BigInt \<Rightarrow> div_workspace \<Rightarrow> (BigIntStatus \<times> BigInt) rt" where
  "gcd_loop 0 x y remainder workspace = out_of_fuel (BIGINT_OK, x)"
| "gcd_loop (Suc fuel) x y remainder workspace =
    (if limbs y = [] then State_Monad.return (BIGINT_OK, x)
     else do {
       (status, remainder, workspace) \<leftarrow> bigint_mod_abs_workspace remainder x y workspace;
       if status = BIGINT_OK then gcd_loop fuel y remainder x workspace
       else State_Monad.return (status, x)
     })"

definition bigint_gcd :: "BigInt \<Rightarrow> BigInt \<Rightarrow> BigInt \<Rightarrow> (BigIntStatus \<times> BigInt) rt" where
  "bigint_gcd result a b = do {
     go \<leftarrow> numforge_budget_check;
     if \<not> go then State_Monad.return (BIGINT_OUT_OF_MEMORY, result)
     else do {
       (status, x) \<leftarrow> bigint_abs bigint_init a;
       (status, y) \<leftarrow> (if status = BIGINT_OK then bigint_abs bigint_init b
                      else State_Monad.return (status, bigint_init));
       (status, x) \<leftarrow> (if status = BIGINT_OK
                      then gcd_loop (bigint_mag y + 1) x y bigint_init
                             \<lparr>ws_numerator = bigint_init, ws_divisor = bigint_init\<rparr>
                      else State_Monad.return (status, x));
       (status, result) \<leftarrow> (if status = BIGINT_OK then bigint_copy result x
                           else State_Monad.return (status, result));
       State_Monad.return (status,
         if status = BIGINT_OK then result\<lparr>is_negative := False\<rparr> else result)
     }
   }"

definition bigint_lcm :: "BigInt \<Rightarrow> BigInt \<Rightarrow> BigInt \<Rightarrow> (BigIntStatus \<times> BigInt) rt" where
  "bigint_lcm result a b =
    (if limbs a = [] \<or> limbs b = []
     then State_Monad.return (BIGINT_OK, result\<lparr>limbs := [], is_negative := False\<rparr>)
     else do {
       (status, g) \<leftarrow> bigint_gcd bigint_init a b;
       (status, abs_a) \<leftarrow> (if status = BIGINT_OK then bigint_abs bigint_init a
                          else State_Monad.return (status, bigint_init));
       (status, abs_b) \<leftarrow> (if status = BIGINT_OK then bigint_abs bigint_init b
                          else State_Monad.return (status, bigint_init));
       (status, quot, remainder) \<leftarrow>
         (if status = BIGINT_OK then bigint_div_mod False bigint_init bigint_init abs_a g
          else State_Monad.return (status, bigint_init, bigint_init));
       (status, result) \<leftarrow> (if status = BIGINT_OK then bigint_mul result quot abs_b
                           else State_Monad.return (status, result));
       State_Monad.return (status,
         if status = BIGINT_OK then result\<lparr>is_negative := False\<rparr> else result)
     })"

lemma bsize_mono: "bigint_wf x \<Longrightarrow> bigint_mag x \<le> bigint_mag y \<Longrightarrow> bsize x \<le> bsize y"
  using mag_length_less [of "limbs x" "limbs y"] bigint_wfD(1) [of x] by (meson not_less)

text \<open>An object without sign that holds a natural number.\<close>

definition holds_nat :: "BigInt \<Rightarrow> nat \<Rightarrow> bool" where
  "holds_nat x n \<longleftrightarrow> bigint_wf x \<and> bigint_val x = int n"

lemma holds_natD:
  assumes "holds_nat x n"
  shows "bigint_wf x" "bigint_val x = int n" "bigint_mag x = n" "\<not> is_negative x"
    "private_output x" "storage_ok x" "limbs x = [] \<longleftrightarrow> n = 0"
  using assms nonneg_product [of x n] bigint_val_0_iff [of x]
  by (auto simp: holds_nat_def private_output_def bigint_wf_storage_ok)

lemma holds_natI: "bigint_wf x \<Longrightarrow> \<not> is_negative x \<Longrightarrow> bigint_mag x = n \<Longrightarrow> holds_nat x n"
  by (simp add: holds_nat_def bigint_val_def)

lemma gcd_loop_wp:
  "holds_nat x m \<Longrightarrow> holds_nat y n \<Longrightarrow> private_output r \<Longrightarrow> div_ws_ok w \<Longrightarrow> n < fuel \<Longrightarrow>
   Suc (bsize x) \<le> BIGINT_MAX_LIMBS \<or> \<not> F \<Longrightarrow> Suc (bsize y) \<le> BIGINT_MAX_LIMBS \<or> \<not> F \<Longrightarrow>
   (\<And>st x'. outcome u F st (holds_nat x' (gcd m n)) True \<Longrightarrow> Q (st, x')) \<Longrightarrow>
   rspec u (gcd_loop fuel x y r w) Q"
proof (induction fuel arbitrary: x y r w m n)
  case 0
  then show ?case by simp
next
  case (Suc fuel)
  note x = holds_natD [OF Suc.prems(1)] and y = holds_natD [OF Suc.prems(2)]
  show ?case
  proof (cases "limbs y = []")
    case True
    then show ?thesis using Suc.prems y by (auto intro!: triple_return)
  next
    case False
    have n: "n \<noteq> 0" using False y by simp
    show ?thesis
      unfolding gcd_loop.simps if_not_P [OF False]
    proof (rule triple_bind, rule mod_abs_workspace_wp [OF Suc.prems(3,4) x(1) y(1) False], intro triple_case_pair triple_if)
      fix st r' w'
      assume w': "div_ws_ok w'" and o: "outcome u (Suc (bsize x) \<le> BIGINT_MAX_LIMBS) st
        (bigint_wf r' \<and> bigint_mag r' = bigint_mag x mod bigint_mag y \<and> (is_negative r' \<longrightarrow> is_negative x))
        (private_output r')"
      show "rspec u (gcd_loop fuel y r' x w') Q" if "st = BIGINT_OK"
      proof (rule Suc.IH [OF Suc.prems(2) _ x(5) w'])
        show r': "holds_nat r' (m mod n)" using o that x y by (auto intro: holds_natI)
        show "m mod n < fuel" using n Suc.prems(5) mod_less_divisor [of n m] by linarith
        have "bsize r' \<le> bsize y"
          using holds_natD(3) [OF r'] y(3) n mod_less_divisor [of n m]
          by (intro bsize_mono holds_natD(1) [OF r']) simp
        then show "Suc (bsize r') \<le> BIGINT_MAX_LIMBS \<or> \<not> F" using Suc.prems(7) by auto
        show "Q (st, x')" if "outcome u F st (holds_nat x' (gcd n (m mod n))) True" for st x'
          using that unfolding gcd_red_nat [of m n, symmetric] by (rule Suc.prems(8))
      qed (use Suc.prems in auto)
      show "rspec u (State_Monad.return (st, x)) Q" if "st \<noteq> BIGINT_OK"
        using o that Suc.prems(6) by (intro triple_return Suc.prems(8)) (auto elim: resource_failure_weaken)
    qed
  qed
qed

lemma unsigned_same: "\<not> is_negative x \<Longrightarrow> x\<lparr>is_negative := False\<rparr> = x"
  by (cases x) simp

lemma gcd_wp [wp]:
  assumes r: "storage_ok r" and a: "bigint_wf a" and b: "bigint_wf b"
    and Q: "\<And>st r'. result_ok u (Suc (max (bsize a) (bsize b)) \<le> BIGINT_MAX_LIMBS) r
              (gcd (bigint_val a) (bigint_val b)) st r' \<Longrightarrow> Q (st, r')"
  shows "rspec u (bigint_gcd r a b) Q"
proof -
  let ?F = "Suc (max (bsize a) (bsize b)) \<le> BIGINT_MAX_LIMBS"
  have init: "storage_ok bigint_init" by (simp add: bigint_wf_storage_ok)
  have fail: "Q (st, r)" if "resource_failure u X st" "?F \<Longrightarrow> X" for st X
    using that by (intro Q result_ok_failI)
  have ws: "div_ws_ok \<lparr>ws_numerator = bigint_init, ws_divisor = bigint_init\<rparr>"
    using init by (simp add: div_ws_ok_def)
  have pr: "private_output bigint_init" using init by (simp add: private_output_def bigint_init_def)
  have val: "int (gcd (bigint_mag a) (bigint_mag b)) = gcd (bigint_val a) (bigint_val b)"
    by (simp add: bigint_val_def flip: gcd_int_int_eq)
  have fin: "Q (st, if st = BIGINT_OK then d\<lparr>is_negative := False\<rparr> else d)"
    if x: "holds_nat x (gcd (bigint_mag a) (bigint_mag b))"
      and o: "outcome u True st (bigint_wf d \<and> bigint_val d = bigint_val x \<and> limbs d = limbs x \<and>
        is_negative d = is_negative x \<and> capacity r \<le> capacity d) (d = r)" for st d x
  proof (cases "st = BIGINT_OK")
    case True
    then show ?thesis using o holds_natD [OF x] by (auto simp: unsigned_same val intro!: Q)
  next
    case False
    then show ?thesis using o by (auto intro: fail)
  qed
  have size: "Suc (bsize x) \<le> BIGINT_MAX_LIMBS \<or> \<not> ?F"
    if "bigint_wf x" "bigint_val x = int (bigint_mag a) \<or> bigint_val x = int (bigint_mag b)" for x
    using that nonneg_product(1) [OF that(1)] bsize_mono [of x a] bsize_mono [of x b] by auto
  have mag: "bigint_mag b < bigint_mag x + 1" if "bigint_wf x" "bigint_val x = int (bigint_mag b)" for x
    using nonneg_product [OF that] by simp
  show ?thesis
    unfolding bigint_gcd_def
    by (intro triple_bind [of _ numforge_budget_check] budget_check_wp triple_if if_ok
          triple_bind [of _ "bigint_copy _ _"] copy_wp [OF r] seq_ok [where e = r]
          abs_wp [OF init a] abs_wp [OF init b] ok_or_fail triple_case_pair triple_return
          gcd_loop_wp [where m = "bigint_mag a" and n = "bigint_mag b" and F = ?F, OF _ _ pr ws];
        (simp; fail | rule size mag holds_nat_def [THEN iffD2]; simp; fail | rule fin; simp; fail
        | rule fail [of True]; simp; fail | rule fail [of ?F]; simp; fail | simp add: holds_natD; fail))
qed


lemma tdiv_nonneg: "0 \<le> x \<Longrightarrow> 0 \<le> y \<Longrightarrow> tdiv x y = x div y"
  by (auto simp: tdiv_def sgn_if)

lemma lcm_wp [wp]:
  assumes r: "storage_ok r" and a: "bigint_wf a" and b: "bigint_wf b"
    and Q: "\<And>st r'. result_ok u (bsize a + bsize b \<le> BIGINT_MAX_LIMBS) r
              (lcm (bigint_val a) (bigint_val b)) st r' \<Longrightarrow> Q (st, r')"
  shows "rspec u (bigint_lcm r a b) Q"
proof (cases "limbs a = [] \<or> limbs b = []")
  case True
  then have "lcm (bigint_val a) (bigint_val b) = 0"
    using bigint_val_0_iff [OF a] bigint_val_0_iff [OF b] by auto
  then have "Q (BIGINT_OK, r\<lparr>limbs := [], is_negative := False\<rparr>)"
    using r by (intro Q) (simp add: bigint_wf_def storage_ok_def bigint_val_def)
  with True show ?thesis by (simp add: bigint_lcm_def triple_return)
next
  case False
  let ?F = "bsize a + bsize b \<le> BIGINT_MAX_LIMBS"
  have init: "storage_ok bigint_init" by (simp add: bigint_wf_storage_ok)
  have fail: "Q (st, r)" if "resource_failure u X st" "?F \<Longrightarrow> X" for st X
    using that by (intro Q result_ok_failI)
  have max: "?F \<Longrightarrow> Suc (max (bsize a) (bsize b)) \<le> BIGINT_MAX_LIMBS"
    using False by (cases "limbs a"; cases "limbs b") auto
  have g: "limbs g \<noteq> []" if "bigint_wf g" "bigint_val g = gcd (bigint_val a) (bigint_val b)" for g
    using that bigint_val_0_iff [of g] bigint_val_0_iff [OF a] bigint_val_0_iff [OF b] False by auto
  let ?q = "tdiv \<bar>bigint_val a\<bar> (gcd (bigint_val a) (bigint_val b))"
  have q: "?q = \<bar>bigint_val a\<bar> div gcd (bigint_val a) (bigint_val b)" by (rule tdiv_nonneg) auto
  have lcm: "?q * \<bar>bigint_val b\<bar> = lcm (bigint_val a) (bigint_val b)"
  proof -
    have "?q * \<bar>bigint_val b\<bar> = \<bar>bigint_val a\<bar> * \<bar>bigint_val b\<bar> div gcd (bigint_val a) (bigint_val b)"
      unfolding q by (rule dvd_div_mult) (simp del: abs_bigint_val)
    also have "\<dots> = lcm (bigint_val a) (bigint_val b)"
      using bigint_val_0_iff [OF a] False unfolding prod_gcd_lcm_int
      by (intro nonzero_mult_div_cancel_left) auto
    finally show ?thesis .
  qed
  have pos: "0 < gcd (bigint_val a) (bigint_val b)" using bigint_val_0_iff [OF a] False by simp
  then have "1 \<le> gcd (bigint_val a) (bigint_val b)" by linarith
  then have "?q \<le> \<bar>bigint_val a\<bar>" "0 \<le> ?q"
    unfolding q using zdiv_mono2 [of "\<bar>bigint_val a\<bar>" 1 "gcd (bigint_val a) (bigint_val b)"] pos
    by (simp_all add: pos_imp_zdiv_nonneg_iff)
  then have size: "bsize x + bsize y \<le> BIGINT_MAX_LIMBS"
    if "bigint_wf x" "bigint_val x = ?q" "bigint_wf y" "bigint_val y = \<bar>bigint_val b\<bar>" ?F for x y
    using that bsize_mono [of x a] bsize_mono [of y b] abs_bigint_val [of x] abs_bigint_val [of y]
    by simp
  have fin: "Q (st, if st = BIGINT_OK then d\<lparr>is_negative := False\<rparr> else d)"
    if "outcome u G st (bigint_wf d \<and> bigint_val d = bigint_val x * bigint_val y) (d = r)" "?F \<Longrightarrow> G"
      "bigint_val x = ?q" "bigint_val y = \<bar>bigint_val b\<bar>" for st d x y G
  proof (cases "st = BIGINT_OK")
    case True
    then have d: "bigint_wf d" "bigint_val d = lcm (bigint_val a) (bigint_val b)" using that lcm by auto
    have "0 \<le> lcm (bigint_val a) (bigint_val b)" by simp
    then have "\<not> is_negative d" using bigint_val_neg_iff [OF d(1)] unfolding d(2) by linarith
    then show ?thesis using True d by (simp add: unsigned_same Q)
  next
    case False
    then show ?thesis using that by (auto intro: fail)
  qed
  show ?thesis
    unfolding bigint_lcm_def if_not_P [OF False]
    by (intro if_ok triple_bind [of _ "bigint_mul _ _ _"] seq_ok [where e = r]
          gcd_wp [OF init a b] abs_wp [OF init a] abs_wp [OF init b] div_mod_wp mul_wp [OF _ _ r]
          ok_or_fail triple_case_pair triple_return;
        (simp split: prod.split; fail | simp add: g; fail | rule fin, assumption; simp add: g size; fail
         | rule fail [of True]; simp add: g; fail | rule fail, simp, erule max; fail))
qed


interpretation gcd: bigint_commutative bigint_gcd gcd
    "\<lambda>a b. Suc (max (bsize a) (bsize b)) \<le> BIGINT_MAX_LIMBS"
  by unfold_locales (rule gcd_wp, auto simp: gcd.commute)

interpretation lcm: bigint_commutative bigint_lcm lcm "\<lambda>a b. bsize a + bsize b \<le> BIGINT_MAX_LIMBS"
  by unfold_locales (rule lcm_wp, auto simp: lcm.commute)

section \<open>Properties\<close>

text \<open>C28: Euclid's algorithm. \<open>bigint_gcd\<close> returns the greatest common divisor of the two
  integers, never negative, and its loop of workspace divisions ends.\<close>

theorem bigint_gcd_correct:
  assumes "\<not> stuck s" "storage_ok r" "bigint_wf a" "bigint_wf b"
  shows "case run_state (bigint_gcd r a b) s of ((st, r'), s') \<Rightarrow> \<not> stuck s' \<and>
    result_ok (unlimited s) (Suc (max (bsize a) (bsize b)) \<le> BIGINT_MAX_LIMBS) r
      (gcd (bigint_val a) (bigint_val b)) st r'"
  by (rule gcd.run [OF assms])

theorem bigint_gcd_correct_witness:
  "case run_state (bigint_gcd bigint_init (bigint_wrap_uint64 12) (bigint_wrap_uint64 18)) idle_runtime of
     ((st, r'), s') \<Rightarrow> st = BIGINT_OK \<and> bigint_val r' = 6"
  using bigint_gcd_correct [of idle_runtime bigint_init "bigint_wrap_uint64 12" "bigint_wrap_uint64 18"]
  by (auto simp: example_simps gcd_non_0_int split: prod.split)

text \<open>The least common multiple, dividing before multiplying: \<open>bigint_lcm\<close> is exact and
  needs no more limbs than the two operands together.\<close>

theorem bigint_lcm_correct:
  assumes "\<not> stuck s" "storage_ok r" "bigint_wf a" "bigint_wf b"
  shows "case run_state (bigint_lcm r a b) s of ((st, r'), s') \<Rightarrow> \<not> stuck s' \<and>
    result_ok (unlimited s) (bsize a + bsize b \<le> BIGINT_MAX_LIMBS) r
      (lcm (bigint_val a) (bigint_val b)) st r'"
  by (rule lcm.run [OF assms])

theorem bigint_lcm_correct_witness:
  "case run_state (bigint_lcm bigint_init (bigint_wrap_uint64 4) (bigint_wrap_uint64 6)) idle_runtime of
     ((st, r'), s') \<Rightarrow> st = BIGINT_OK \<and> bigint_val r' = lcm 4 6"
  using bigint_lcm_correct [of idle_runtime bigint_init "bigint_wrap_uint64 4" "bigint_wrap_uint64 6"]
  by (auto simp: example_simps split: prod.split)

end
