(* ===== verification/BigInt_Factorial.thy ===== *)
theory BigInt_Factorial
  imports BigInt_Number
begin

text \<open>
  Factorials: the grouped scalar method of \<^verbatim>\<open>src/core/bigint/number_theory.c\<close>
  and the balanced product tree of \<^verbatim>\<open>factorial.c\<close> with its resource plan.

  Both pack consecutive factors into one limb as long as the product fits
  (\<open>multiply_factors\<close>), and both compute \<open>n!\<close>; \<open>bigint_factorial\<close> chooses the tree for
  large arguments when its plan fits the budget.
\<close>

unbundle bit_operations_syntax

section \<open>Packing factors into a limb\<close>

text \<open>The loop \<^verbatim>\<open>for (factor = low;; ++factor)\<close> that both methods share. The
  fuel is one more than \<^verbatim>\<open>high - low\<close>; the exit test precedes the increment.\<close>

primrec multiply_factors ::
  "nat \<Rightarrow> u64 \<Rightarrow> u64 \<Rightarrow> u64 \<Rightarrow> BigInt \<Rightarrow> (BigIntStatus \<times> u64 \<times> BigInt) rt" where
  "multiply_factors 0 i n grp temporary = out_of_fuel (BIGINT_OK, grp, temporary)"
| "multiply_factors (Suc fuel) i n grp temporary = do {
     go \<leftarrow> numforge_budget_check;
     if \<not> go then State_Monad.return (BIGINT_OUT_OF_MEMORY, grp, temporary)
     else if grp > UINT64_MAX div i then do {
       (status, temporary) \<leftarrow> bigint_multiply_by_uint64 temporary grp;
       if status \<noteq> BIGINT_OK then State_Monad.return (status, grp, temporary)
       else if i = n then State_Monad.return (BIGINT_OK, i, temporary)
       else multiply_factors fuel (i + 1) n i temporary
     }
     else if i = n then State_Monad.return (BIGINT_OK, grp * i, temporary)
     else multiply_factors fuel (i + 1) n (grp * i) temporary
   }"

definition bigint_factorial_grouped :: "BigInt \<Rightarrow> u64 \<Rightarrow> (BigIntStatus \<times> BigInt) rt" where
  "bigint_factorial_grouped result n = do {
     (status, temporary) \<leftarrow> bigint_set_uint64 bigint_init 1;
     (status, temporary) \<leftarrow>
       (if status = BIGINT_OK \<and> n \<ge> 2 then do {
          (status, grp, temporary) \<leftarrow> multiply_factors (unat n) 2 n 1 temporary;
          if status = BIGINT_OK then bigint_multiply_by_uint64 temporary grp
          else State_Monad.return (status, temporary)
        }
        else State_Monad.return (status, temporary));
     status \<leftarrow> (if status = BIGINT_OK then do {
                  go \<leftarrow> numforge_budget_check;
                  State_Monad.return (if go then status else BIGINT_OUT_OF_MEMORY)
                }
                else State_Monad.return status);
     State_Monad.return (status,
       if status = BIGINT_OK then fst (bigint_commit result (temporary\<lparr>is_negative := False\<rparr>)) else result)
   }"

section \<open>The product tree and its plan\<close>

function counter_bits_loop :: "u64 \<Rightarrow> nat \<Rightarrow> nat" where
  "counter_bits_loop n bits =
    (let bits = bits + 1; n = drop_bit 1 n
     in if n \<noteq> 0 then counter_bits_loop n bits else bits)"
  by pat_completeness auto
termination
proof (relation "measure (\<lambda>(n, bits). unat n)")
  fix n bits and x :: nat and y :: u64
  assume y: "y = drop_bit 1 n" "y \<noteq> 0"
  have half: "unat y = unat n div 2" unfolding y(1) unat_drop_bit by simp
  have "unat y \<noteq> 0" using y(2) by (simp add: unat_eq_0_iff)
  then have "unat y < unat n" unfolding half by simp
  then show "((y, x), n, bits) \<in> measure (\<lambda>(n, bits). unat n)" by simp
qed simp

definition counter_bits :: "u64 \<Rightarrow> nat" where
  "counter_bits n = counter_bits_loop n 0"

primrec range_bits_loop :: "nat \<Rightarrow> nat \<Rightarrow> u64 \<Rightarrow> u64 \<Rightarrow> nat \<Rightarrow> nat option" where
  "range_bits_loop 0 bits low high planned = Some planned"
| "range_bits_loop (Suc k) bits low high planned =
    (let first = push_bit (bits - 1) 1
     in if first > high then Some planned
        else let last = (if bits = 64 then UINT64_MAX else push_bit bits 1 - 1);
                 first = (if first < low then low else first);
                 last = (if last > high then high else last)
             in if first \<le> last
                then Option.bind (bigint_size_add (unat (last - first)) 1) (\<lambda>count.
                     Option.bind (bigint_size_mul count bits) (\<lambda>contribution.
                     Option.bind (bigint_size_add planned contribution) (\<lambda>planned.
                       range_bits_loop k (bits + 1) low high planned)))
                else range_bits_loop k (bits + 1) low high planned)"

definition range_bits :: "u64 \<Rightarrow> u64 \<Rightarrow> nat option" where
  "range_bits low high = range_bits_loop 64 1 low high 0"

text \<open>The plan: the bytes all requests add up to and the largest single request.\<close>

definition bigint_factorial_tree_plan :: "u64 \<Rightarrow> (nat \<times> nat) option rt" where
  "bigint_factorial_tree_plan n =
    (case Option.bind (range_bits 2 n) (\<lambda>full_bits.
          Option.bind (range_bits (n div 2 + 1) n) (\<lambda>child_bits.
          Option.bind (bigint_size_add full_bits 63) (\<lambda>n_limbs.
          Option.bind (bigint_size_add child_bits 63) (\<lambda>child_limbs.
            Some (n_limbs div 64 + 2, child_limbs div 64))))) of
       None \<Rightarrow> State_Monad.return None
     | Some (n_limbs, child_limbs) \<Rightarrow>
         if n_limbs > BIGINT_MAX_LIMBS then State_Monad.return None
         else (case bigint_size_mul n_limbs 8 of
             None \<Rightarrow> State_Monad.return None
           | Some bytes \<Rightarrow> do {
               w \<leftarrow> bigint_multiplication_workspace_plan child_limbs;
               case w of
                 None \<Rightarrow> State_Monad.return None
               | Some (workspace, largest) \<Rightarrow> do {
                   let largest = (if largest < bytes then bytes else largest);
                   State_Monad.return (
                     Option.bind (bigint_size_mul bytes (counter_bits n)) (\<lambda>planned.
                     Option.bind (bigint_size_add planned workspace) (\<lambda>planned.
                     Option.bind (bigint_size_mul (unat n) 8) (\<lambda>extra.
                     Option.bind (bigint_size_add planned extra) (\<lambda>planned.
                     Option.bind (bigint_size_add planned 32768) (\<lambda>planned.
                       Some (planned, largest)))))))
                 }
             }))"

definition bigint_factorial_tree_fits :: "u64 \<Rightarrow> bool rt" where
  "bigint_factorial_tree_fits n = do {
     plan \<leftarrow> bigint_factorial_tree_plan n;
     case plan of
       None \<Rightarrow> State_Monad.return False
     | Some (planned, largest) \<Rightarrow> numforge_budget_can_allocate_plan planned largest
   }"

lemma middle_bounds:
  assumes "low \<le> high" "\<not> high - low < (32 :: u64)"
  shows "unat (low + (high - low) div 2) = unat low + (unat high - unat low) div 2"
    "unat (low + (high - low) div 2 + 1) = unat low + (unat high - unat low) div 2 + 1"
    "unat low + 32 \<le> unat high"
proof -
  have d: "unat (high - low) = unat high - unat low" using assms(1) by (rule unat_sub)
  have "32 \<le> unat (high - low)" using assms(2) by (simp add: word_less_nat_alt)
  then show gap: "unat low + 32 \<le> unat high" unfolding d by linarith
  have h: "unat ((high - low) div 2) = (unat high - unat low) div 2" by (simp add: unat_div d)
  have lt: "unat low + (unat high - unat low) div 2 + 1 < LB" using gap unat_lt_LB [of high] by linarith
  show m: "unat (low + (high - low) div 2) = unat low + (unat high - unat low) div 2"
    using lt by (subst unat_add_exact) (simp_all add: h)
  show "unat (low + (high - low) div 2 + 1) = unat low + (unat high - unat low) div 2 + 1"
    using lt by (subst unat_add_exact) (simp_all add: m)
qed

lemma middle_measure:
  assumes "\<not> high < low" "\<not> high - low < (32 :: u64)"
  shows "unat (low + (high - low) div 2) - unat low < unat high - unat low"
    "unat high - unat (low + (high - low) div 2 + 1) < unat high - unat low"
proof -
  note m = middle_bounds [of low high, OF _ assms(2)]
  have le: "low \<le> high" using assms(1) by simp
  have "(unat high - unat low) div 2 < unat high - unat low" using m(3) [OF le] by linarith
  then show "unat (low + (high - low) div 2) - unat low < unat high - unat low"
    "unat high - unat (low + (high - low) div 2 + 1) < unat high - unat low"
    using m(3) [OF le] unfolding m(1) [OF le] m(2) [OF le] by linarith+
qed

function range_product ::
  "BigInt \<Rightarrow> u64 \<Rightarrow> u64 \<Rightarrow> nat \<Rightarrow> mul_workspace \<Rightarrow> (BigIntStatus \<times> BigInt \<times> mul_workspace) rt" where
  "range_product out low high bits workspace = do {
     go \<leftarrow> numforge_budget_check;
     if \<not> go then State_Monad.return (BIGINT_OUT_OF_MEMORY, out, workspace)
     else if low > high then do {
       (status, out) \<leftarrow> bigint_set_uint64 out 1;
       State_Monad.return (status, out, workspace)
     }
     else if high - low < 32 then do {
       let count = unat (high - low + 1);
       let cap = (count * bits + 63) div 64 + 1;
       granted \<leftarrow> numforge_calloc cap 8;
       if \<not> granted then State_Monad.return (BIGINT_OUT_OF_MEMORY, out, workspace)
       else do {
         let left = \<lparr>limbs = [1], capacity = cap, is_negative = False\<rparr>;
         (status, grp, left) \<leftarrow> multiply_factors (unat (high - low) + 1) low high 1 left;
         (status, left) \<leftarrow> (if status = BIGINT_OK then bigint_multiply_by_uint64 left grp
                           else State_Monad.return (status, left));
         State_Monad.return (status,
           if status = BIGINT_OK then fst (bigint_commit out left) else out, workspace)
       }
     }
     else do {
       let middle = low + (high - low) div 2;
       (status, left, workspace) \<leftarrow> range_product bigint_init low middle bits workspace;
       (status, right, workspace) \<leftarrow>
         (if status = BIGINT_OK then range_product bigint_init (middle + 1) high bits workspace
          else State_Monad.return (status, bigint_init, workspace));
       if status = BIGINT_OK then bigint_mul_workspace out left right workspace
       else State_Monad.return (status, out, workspace)
     }
   }"
  by pat_completeness auto
termination
  by (relation "measure (\<lambda>(out, low, high, bits, workspace). unat high - unat low)")
    (auto intro: middle_measure)

definition factorial_tree :: "BigInt \<Rightarrow> u64 \<Rightarrow> bool \<Rightarrow> (BigIntStatus \<times> BigInt) rt" where
  "factorial_tree out n split = do {
     let workspace = \<lparr>ws_split = split, ws_capacities = replicate 64 0\<rparr>;
     (status, temporary, workspace) \<leftarrow> range_product bigint_init 2 n (counter_bits n) workspace;
     status \<leftarrow> (if status = BIGINT_OK then do {
                  go \<leftarrow> numforge_budget_check;
                  State_Monad.return (if go then status else BIGINT_OUT_OF_MEMORY)
                }
                else State_Monad.return status);
     State_Monad.return (status, if status = BIGINT_OK then fst (bigint_commit out temporary) else out)
   }"

definition bigint_factorial_tree :: "BigInt \<Rightarrow> u64 \<Rightarrow> (BigIntStatus \<times> BigInt) rt" where
  "bigint_factorial_tree out n = factorial_tree out n True"

definition bigint_factorial_tree_unsplit :: "BigInt \<Rightarrow> u64 \<Rightarrow> (BigIntStatus \<times> BigInt) rt" where
  "bigint_factorial_tree_unsplit out n = factorial_tree out n False"

definition bigint_factorial_tree_split :: "BigInt \<Rightarrow> u64 \<Rightarrow> (BigIntStatus \<times> BigInt) rt" where
  "bigint_factorial_tree_split out n = factorial_tree out n True"

definition bigint_factorial :: "BigInt \<Rightarrow> BigInt \<Rightarrow> (BigIntStatus \<times> BigInt) rt" where
  "bigint_factorial result value =
    (if is_negative value then State_Monad.return (BIGINT_NEGATIVE_ARGUMENT, result)
     else if bsize value > 1 then State_Monad.return (BIGINT_VALUE_TOO_LARGE, result)
     else let n = (if limbs value \<noteq> [] then limbs value ! 0 else 0)
          in do {
            fits \<leftarrow> (if n \<ge> 8192 then bigint_factorial_tree_fits n else State_Monad.return False);
            if fits then bigint_factorial_tree result n
            else bigint_factorial_grouped result n
          })"

declare counter_bits_loop.simps [simp del] range_product.simps [simp del]

section \<open>Correctness of the packing loop\<close>

lemma holds_nat_multiply:
  assumes "holds_nat t x" "0 < x" "m \<noteq> 0"
    and Q: "\<And>st t'. outcome u (x * unat m < LB ^ (BIGINT_MAX_LIMBS - 1)) st (holds_nat t' (x * unat m)) True \<Longrightarrow> Q (st, t')"
  shows "rspec u (bigint_multiply_by_uint64 t m) Q"
proof (rule multiply_by_uint64_wp)
  note t = holds_natD [OF assms(1)]
  show "storage_ok t" by fact
  fix st t'
  assume o: "outcome u (Suc (bsize t) \<le> BIGINT_MAX_LIMBS) st
    (storage_ok t' \<and> (canonical (limbs t) \<longrightarrow> canonical (limbs t')) \<and> bigint_mag t' = bigint_mag t * unat m \<and>
     (m \<noteq> 0 \<longrightarrow> is_negative t' = is_negative t) \<and>
     (limbs t' = [] \<longrightarrow> is_negative t' \<longrightarrow> is_negative t \<and> limbs t = [])) (storage_ok t')"
  have fits: "Suc (bsize t) \<le> BIGINT_MAX_LIMBS" if "x * unat m < LB ^ (BIGINT_MAX_LIMBS - 1)"
  proof -
    have "x * 1 \<le> x * unat m" using assms(3) by (intro mult_le_mono2) (simp add: unat_gt_0 Suc_le_eq)
    moreover have "LB ^ (bsize t - 1) \<le> x"
      using mag_lower [of "limbs t"] t assms(2) bigint_wfD(1) [OF t(1)] by simp
    ultimately have "LB ^ (bsize t - 1) < LB ^ (BIGINT_MAX_LIMBS - 1)" using that by linarith
    then have "bsize t - 1 < BIGINT_MAX_LIMBS - 1" by (simp add: power_strict_increasing_iff)
    then show ?thesis by linarith
  qed
  show "Q (st, t')"
    by (rule Q, rule outcome_mono [OF o])
      (use t fits assms(2,3) bigint_wfD(1) [OF t(1)] in \<open>auto intro!: holds_natI simp: bigint_wf_iff\<close>)
qed

lemma prod_range_split:
  "low \<le> mid \<Longrightarrow> mid \<le> high \<Longrightarrow> \<Prod>{low..high} = \<Prod>{low..mid} * \<Prod>{Suc mid..(high :: nat)}"
  using prod.ub_add_nat [of low mid "\<lambda>x. x" "high - mid"] by simp

lemma prod_range_pos: "0 < low \<Longrightarrow> 0 < \<Prod>{low..(high :: nat)}"
  by (intro prod_pos) auto

lemma multiply_factors_wp:
  "holds_nat t x \<Longrightarrow> 0 < x \<Longrightarrow> g \<noteq> 0 \<Longrightarrow> i \<noteq> 0 \<Longrightarrow> i \<le> n \<Longrightarrow> unat n - unat i < fuel \<Longrightarrow>
   (\<And>st g' t'. outcome u (x * unat g * \<Prod>{unat i..unat n} < LB ^ (BIGINT_MAX_LIMBS - 1)) st
      (g' \<noteq> 0 \<and> (\<exists>y > 0. holds_nat t' y \<and> y * unat g' = x * unat g * \<Prod>{unat i..unat n})) True \<Longrightarrow> Q (st, g', t')) \<Longrightarrow>
   rspec u (multiply_factors fuel i n g t) Q"
proof (induction fuel arbitrary: t x g i)
  case 0
  then show ?case by simp
next
  case (Suc fuel)
  let ?P = "x * unat g * \<Prod>{unat i..unat n}"
  let ?F = "?P < LB ^ (BIGINT_MAX_LIMBS - 1)"
  have i: "unat i \<noteq> 0" "unat i \<le> unat n" using Suc.prems(4,5) by (auto simp: unat_eq_0_iff word_le_nat_alt)
  have oom: "Q (BIGINT_OUT_OF_MEMORY, g, t)" if "\<not> u" using that by (intro Suc.prems(7)) simp
  have split: "\<Prod>{unat i..unat n} = unat i * (if i = n then 1 else \<Prod>{unat (i + 1)..unat n})"
    and succ: "i \<noteq> n \<Longrightarrow> i + 1 \<noteq> 0 \<and> i + 1 \<le> n \<and> unat n - unat (i + 1) < fuel"
  proof -
    have s: "unat (i + 1) = unat i + 1" if "i \<noteq> n"
    proof -
      have "unat i < unat n" using that i(2) by (auto simp: word_unat_eq_iff)
      then have "unat i + unat (1 :: u64) < LB" using unat_lt_LB [of n] by (simp del: unat_lt_LB)
      then show ?thesis by (subst unat_add_exact) simp_all
    qed
    have lt: "i \<noteq> n \<Longrightarrow> unat i < unat n" using i(2) by (auto simp: word_unat_eq_iff)
    show "\<Prod>{unat i..unat n} = unat i * (if i = n then 1 else \<Prod>{unat (i + 1)..unat n})"
      using i s by (auto simp: prod.atLeast_Suc_atMost)
    show "i \<noteq> n \<Longrightarrow> i + 1 \<noteq> 0 \<and> i + 1 \<le> n \<and> unat n - unat (i + 1) < fuel"
      using s lt Suc.prems(6) by (auto simp: word_le_nat_alt simp flip: unat_eq_0_iff)
  qed
  have rest: "0 < (if i = n then 1 else \<Prod>{unat (i + 1)..unat n})"
    using succ prod_range_pos [of "unat (i + 1)" "unat n"] unat_gt_0 [of "i + 1"] by (cases "i = n") simp_all
  have flush: "rspec u (bigint_multiply_by_uint64 t g) R"
    if R: "\<And>st t'. outcome u ?F st (holds_nat t' (x * unat g)) True \<Longrightarrow> R (st, t')" for R
  proof (rule holds_nat_multiply [OF Suc.prems(1-3)], rule R, erule outcome_mono)
    have "x * unat g * 1 \<le> ?P" using rest i unfolding split by (intro mult_le_mono2) (simp add: Suc_le_eq)
    then show "x * unat g < LB ^ (BIGINT_MAX_LIMBS - 1)" if ?F using that by linarith
  qed simp_all
  have xg: "0 < x * unat g" using Suc.prems(2,3) by (simp add: unat_gt_0)
  show ?case
    unfolding multiply_factors.simps
  proof (intro triple_bind [of _ numforge_budget_check] budget_check_wp triple_if triple_return)
    show "Q (BIGINT_OUT_OF_MEMORY, g, t)" if "u \<longrightarrow> b" "\<not> b" for b using that by (intro oom) simp
    show "rspec u (do {
         (status, t) \<leftarrow> bigint_multiply_by_uint64 t g;
         if status \<noteq> BIGINT_OK then State_Monad.return (status, g, t)
         else if i = n then State_Monad.return (BIGINT_OK, i, t) else multiply_factors fuel (i + 1) n i t }) Q"
    proof (rule triple_bind, rule flush, intro triple_case_pair triple_if triple_return)
      fix st t'
      assume o: "outcome u ?F st (holds_nat t' (x * unat g)) True"
      show "Q (st, g, t')" if "st \<noteq> BIGINT_OK" using o that by (intro Suc.prems(7)) simp
      show "Q (BIGINT_OK, i, t')" if "\<not> st \<noteq> BIGINT_OK" "i = n"
        using o that xg Suc.prems(4) by (intro Suc.prems(7)) (auto simp: split intro!: exI [of _ "x * unat g"])
      show "rspec u (multiply_factors fuel (i + 1) n i t') Q" if "\<not> st \<noteq> BIGINT_OK" "i \<noteq> n"
        by (rule Suc.IH [of t' "x * unat g"], use o that xg succ Suc.prems(4) in simp_all, rule Suc.prems(7))
          (use that(2) in \<open>simp add: split mult.assoc\<close>)
    qed
    assume fit: "\<not> UINT64_MAX div i < g"
    have "unat g \<le> (LB - 1) div unat i" using fit by (simp add: word_le_nat_alt unat_div not_less)
    then have "unat g * unat i \<le> LB - 1" using i(1) by (simp add: less_eq_div_iff_mult_less_eq)
    then have gi: "unat (g * i) = unat g * unat i" by (intro unat_mult_exact) (simp add: LB_def)
    then have gi0: "g * i \<noteq> 0" using Suc.prems(3) i(1) by (simp add: unat_eq_0_iff [symmetric])
    show "Q (BIGINT_OK, g * i, t)" if "i = n"
      using that gi gi0 Suc.prems(1,2) by (intro Suc.prems(7)) (auto simp: split mult.assoc intro!: exI [of _ x])
    show "rspec u (multiply_factors fuel (i + 1) n (g * i) t) Q" if "i \<noteq> n"
      by (rule Suc.IH [OF Suc.prems(1,2) gi0], use succ that in simp_all, rule Suc.prems(7))
        (use that gi in \<open>simp add: split mult.assoc\<close>)
  qed
qed

text \<open>The loop followed by the multiplication of the last group.\<close>

lemma packed_product_wp:
  assumes "holds_nat t 1" "i \<noteq> 0" "i \<le> n" "unat n - unat i < fuel"
    and Q: "\<And>st t'. outcome u (\<Prod>{unat i..unat n} < LB ^ (BIGINT_MAX_LIMBS - 1)) st
      (holds_nat t' (\<Prod>{unat i..unat n})) True \<Longrightarrow> Q (st, t')"
  shows "rspec u (do { (status, g, t) \<leftarrow> multiply_factors fuel i n 1 t;
    if status = BIGINT_OK then bigint_multiply_by_uint64 t g else State_Monad.return (status, t) }) Q"
proof (rule triple_bind, rule multiply_factors_wp [OF assms(1) _ _ assms(2-4)], simp, simp,
    intro triple_case_pair triple_if triple_return)
  let ?P = "\<Prod>{unat i..unat n}"
  fix st t' and g :: u64
  assume o: "outcome u (1 * unat (1 :: u64) * ?P < LB ^ (BIGINT_MAX_LIMBS - 1)) st
    (g \<noteq> 0 \<and> (\<exists>y>0. holds_nat t' y \<and> y * unat g = 1 * unat (1 :: u64) * ?P)) True"
  show "Q (st, t')" if "st \<noteq> BIGINT_OK" using o that by (intro Q) simp
  show "rspec u (bigint_multiply_by_uint64 t' g) Q" if ok: "st = BIGINT_OK"
  proof -
    obtain y where "0 < y" "holds_nat t' y" "y * unat g = ?P" "g \<noteq> 0" using o ok by auto
    then show ?thesis by (intro holds_nat_multiply [of t' y]) (auto intro: Q)
  qed
qed

lemma fact_as_range: "2 \<le> n \<Longrightarrow> \<Prod>{2..n} = (fact n :: nat)"
  by (simp add: fact_prod prod.atLeast_Suc_atMost numeral_2_eq_2)

lemma fact_small: "n < 2 \<Longrightarrow> (fact n :: nat) = 1"
  by (cases n) auto

lemma holds_nat_result: "outcome u F st (holds_nat t x) True \<Longrightarrow>
  result_ok u F r (int x) st (if st = BIGINT_OK then t else r)"
  by (auto simp: result_ok_def outcome_def holds_nat_def)

lemma range_2_fact: "\<Prod>{2..n} = (fact n :: nat)"
  by (cases "2 \<le> n") (simp_all add: fact_as_range fact_small)

text \<open>The last budget check of both methods.\<close>

lemma checked_publish_wp:
  assumes o: "outcome u F st (holds_nat t x) True"
    and Q: "\<And>st. outcome u F st (holds_nat t x) True \<Longrightarrow> Q st"
  shows "rspec u (if st = BIGINT_OK then do {
       go \<leftarrow> numforge_budget_check;
       State_Monad.return (if go then st else BIGINT_OUT_OF_MEMORY) } else State_Monad.return st) Q"
  using o by (auto intro!: wp Q)

lemma factorial_grouped_wp:
  assumes Q: "\<And>st r'. result_ok u (fact (unat n) < LB ^ (BIGINT_MAX_LIMBS - 1)) r (fact (unat n)) st r' \<Longrightarrow> Q (st, r')"
  shows "rspec u (bigint_factorial_grouped r n) Q"
  unfolding bigint_factorial_grouped_def
proof (rule triple_bind, rule set_uint64_wp [OF storage_ok_init], rule triple_case_pair)
  let ?F = "fact (unat n) < LB ^ (BIGINT_MAX_LIMBS - 1)"
  fix st t
  assume o1: "outcome u True st (bigint_wf t \<and> bigint_val t = int (unat (1 :: u64))) (t = bigint_init)"
  have o1: "outcome u ?F st (holds_nat t 1) True" by (rule outcome_mono [OF o1]) (auto simp: holds_nat_def)
  define K where "K = (\<lambda>(st, t). do {
     st \<leftarrow> (if st = BIGINT_OK then do {
                  go \<leftarrow> numforge_budget_check;
                  State_Monad.return (if go then st else BIGINT_OUT_OF_MEMORY)
                }
                else State_Monad.return st);
     State_Monad.return (st,
       if st = BIGINT_OK then fst (bigint_commit r (t\<lparr>is_negative := False\<rparr>)) else r) })"
  have K: "rspec u (K (st, t)) Q" if "outcome u ?F st (holds_nat t (fact (unat n))) True" for st t
    unfolding K_def prod.case
  proof (rule triple_bind, rule checked_publish_wp [OF that], rule triple_return)
    fix st
    assume o: "outcome u ?F st (holds_nat t (fact (unat n))) True"
    show "Q (st, if st = BIGINT_OK then fst (bigint_commit r (t\<lparr>is_negative := False\<rparr>)) else r)"
      using Q [of st "if st = BIGINT_OK then t else r"] holds_nat_result [OF o, of r] o
      by (cases "st = BIGINT_OK") (auto simp: unsigned_same holds_natD(4))
  qed
  show "rspec u (do {
      (st, t) \<leftarrow> (if st = BIGINT_OK \<and> n \<ge> 2 then do {
          (st, g, t) \<leftarrow> multiply_factors (unat n) 2 n 1 t;
          if st = BIGINT_OK then bigint_multiply_by_uint64 t g else State_Monad.return (st, t) }
        else State_Monad.return (st, t));
      st \<leftarrow> (if st = BIGINT_OK then do {
                  go \<leftarrow> numforge_budget_check;
                  State_Monad.return (if go then st else BIGINT_OUT_OF_MEMORY)
                }
                else State_Monad.return st);
      State_Monad.return (st,
        if st = BIGINT_OK then fst (bigint_commit r (t\<lparr>is_negative := False\<rparr>)) else r) }) Q"
    unfolding K_def [symmetric]
  proof (rule triple_bind, rule triple_if)
    assume c: "st = BIGINT_OK \<and> n \<ge> 2"
    then have n: "2 \<le> unat n" by (simp add: word_le_nat_alt)
    have t: "holds_nat t 1" using o1 c by simp
    show "rspec u (do { (st, g, t) \<leftarrow> multiply_factors (unat n) 2 n 1 t;
          if st = BIGINT_OK then bigint_multiply_by_uint64 t g else State_Monad.return (st, t) })
        (\<lambda>x. rspec u (K x) Q)"
    proof (rule packed_product_wp [OF t])
      fix st t'
      assume o: "outcome u (\<Prod>{unat (2 :: u64)..unat n} < LB ^ (BIGINT_MAX_LIMBS - 1)) st
        (holds_nat t' (\<Prod>{unat (2 :: u64)..unat n})) True"
      show "rspec u (K (st, t')) Q" by (rule K) (use o in \<open>simp add: range_2_fact\<close>)
    qed (use c n in auto)
  next
    assume "\<not> (st = BIGINT_OK \<and> n \<ge> 2)"
    then have "outcome u ?F st (holds_nat t (fact (unat n))) True"
      using o1 by (auto simp: outcome_def word_le_nat_alt fact_small not_le)
    then show "rspec u (State_Monad.return (st, t)) (\<lambda>x. rspec u (K x) Q)"
      by (intro triple_return K)
  qed
qed

section \<open>Correctness of the product tree\<close>

lemma counter_bits_loop_bound:
  "unat n < 2 ^ Suc k \<Longrightarrow> counter_bits_loop n bits \<le> bits + Suc k"
proof (induction k arbitrary: n bits)
  case 0
  have "unat (drop_bit 1 n) = 0" using 0 unfolding unat_drop_bit by simp
  then have "drop_bit 1 n = 0" by (simp only: unat_eq_0_iff)
  then show ?case by (simp add: counter_bits_loop.simps [of n])
next
  case (Suc k)
  have "unat (drop_bit 1 n) < 2 ^ Suc k" using Suc.prems unfolding unat_drop_bit by simp
  then have "counter_bits_loop (drop_bit 1 n) (bits + 1) \<le> bits + 1 + Suc k" by (rule Suc.IH)
  then show ?case by (subst counter_bits_loop.simps) (simp add: Let_def)
qed

lemma counter_bits_le: "counter_bits n \<le> 64"
  using counter_bits_loop_bound [of n 63 0] unat_lt_LB [of n] by (simp add: counter_bits_def LB_def)

lemma leaf_holds:
  assumes "cap = (count * bits + 63) div 64 + 1" "count \<le> 32" "bits \<le> 64"
  shows "holds_nat \<lparr>limbs = [1], capacity = cap, is_negative = False\<rparr> 1" "cap * 8 \<le> SIZE_MAX"
proof -
  have "count * bits \<le> 32 * 64" using assms(2,3) by (rule mult_le_mono)
  then have "cap \<le> 40" "0 < cap" unfolding assms(1) by linarith+
  then show "holds_nat \<lparr>limbs = [1], capacity = cap, is_negative = False\<rparr> 1" "cap * 8 \<le> SIZE_MAX"
    by (simp_all add: holds_nat_def bigint_wf_def canonical_def val_record max_limbs_numeral SIZE_MAX_def)
qed

lemma range_product_wp:
  assumes "storage_ok out" "ws_wf w" "low \<noteq> 0" "bits \<le> 64"
    and "\<And>st out' w'. result_ok u (\<Prod>{unat low..unat high} < LB ^ (BIGINT_MAX_LIMBS - 1)) out
           (int (\<Prod>{unat low..unat high})) st out' \<Longrightarrow> ws_wf w' \<Longrightarrow> Q (st, out', w')"
  shows "rspec u (range_product out low high bits w) Q"
  using assms
proof (induction "unat high - unat low" arbitrary: out low high w Q rule: less_induct)
  case less
  note out = less.prems(1) and w = less.prems(2) and low = less.prems(3) and Q = less.prems(5)
  let ?P = "\<Prod>{unat low..unat high}"
  let ?F = "?P < LB ^ (BIGINT_MAX_LIMBS - 1)"
  have fail: "Q (st, out, w')" if "resource_failure u X st" "?F \<Longrightarrow> X" "ws_wf w'" for st w' X
    using that by (intro Q result_ok_failI)
  show ?case
    unfolding range_product.simps [of out]
  proof (rule triple_bind, rule budget_check_wp, rule triple_if, rule triple_return, rule fail [of True])
    show "rspec u (if low > high then do {
         (st, out) \<leftarrow> bigint_set_uint64 out 1; State_Monad.return (st, out, w) }
       else if high - low < 32 then do {
         let count = unat (high - low + 1);
         let cap = (count * bits + 63) div 64 + 1;
         granted \<leftarrow> numforge_calloc cap 8;
         if \<not> granted then State_Monad.return (BIGINT_OUT_OF_MEMORY, out, w)
         else do {
           let left = \<lparr>limbs = [1], capacity = cap, is_negative = False\<rparr>;
           (st, g, left) \<leftarrow> multiply_factors (unat (high - low) + 1) low high 1 left;
           (st, left) \<leftarrow> (if st = BIGINT_OK then bigint_multiply_by_uint64 left g
                             else State_Monad.return (st, left));
           State_Monad.return (st, if st = BIGINT_OK then fst (bigint_commit out left) else out, w)
         } }
       else do {
         let middle = low + (high - low) div 2;
         (st, left, w) \<leftarrow> range_product bigint_init low middle bits w;
         (st, right, w) \<leftarrow> (if st = BIGINT_OK then range_product bigint_init (middle + 1) high bits w
                            else State_Monad.return (st, bigint_init, w));
         if st = BIGINT_OK then bigint_mul_workspace out left right w
         else State_Monad.return (st, out, w) }) Q"
    proof (intro triple_if)
      assume "high < low"
      then have P: "?P = 1" by (simp add: word_less_nat_alt)
      show "rspec u (do { (st, out) \<leftarrow> bigint_set_uint64 out 1; State_Monad.return (st, out, w) }) Q"
        by (rule triple_bind, rule set_uint64_wp [OF out], intro triple_case_pair triple_return Q w)
          (auto simp: P result_ok_def elim: outcome_mono)
    next
      assume le: "\<not> high < low" and leaf: "high - low < 32"
      have d: "unat (high - low) = unat high - unat low" using le by (intro unat_sub) simp
      have lt: "unat (high - low) < 32" using leaf by (simp add: word_less_nat_alt)
      then have count: "unat (high - low + 1) \<le> 32" by (subst unat_add_exact) (simp_all add: LB_def)
      note left = leaf_holds [OF refl count less.prems(4)]
      define K where "K = (\<lambda>(st, left). State_Monad.return (st, if st = BIGINT_OK then fst (bigint_commit out left) else out, w) :: (BigIntStatus \<times> BigInt \<times> mul_workspace) rt)"
      have K: "rspec u (K (st, t)) Q" if "outcome u ?F st (holds_nat t ?P) True" for st t
        unfolding K_def prod.case fst_bigint_commit
        by (rule triple_return, rule Q [OF _ w]) (rule holds_nat_result [OF that])
      show "rspec u (do {
         let count = unat (high - low + 1);
         let cap = (count * bits + 63) div 64 + 1;
         granted \<leftarrow> numforge_calloc cap 8;
         if \<not> granted then State_Monad.return (BIGINT_OUT_OF_MEMORY, out, w)
         else do {
           let left = \<lparr>limbs = [1], capacity = cap, is_negative = False\<rparr>;
           (st, g, left) \<leftarrow> multiply_factors (unat (high - low) + 1) low high 1 left;
           (st, left) \<leftarrow> (if st = BIGINT_OK then bigint_multiply_by_uint64 left g
                             else State_Monad.return (st, left));
           State_Monad.return (st, if st = BIGINT_OK then fst (bigint_commit out left) else out, w)
         } }) Q"
        unfolding Let_def K_def [symmetric]
      proof (rule triple_bind, rule calloc_wp, intro triple_if triple_return)
        fix b
        assume b: "u \<and> ((unat (high - low + 1) * bits + 63) div 64 + 1) * 8 \<le> SIZE_MAX \<longrightarrow> b"
        show "Q (BIGINT_OUT_OF_MEMORY, out, w)" if "\<not> b"
          using b that left(2) by (intro fail [of True]) (auto simp: w)
        let ?left = "\<lparr>limbs = [1], capacity = (unat (high - low + 1) * bits + 63) div 64 + 1, is_negative = False\<rparr>"
        have "rspec u (do { x \<leftarrow> (do { (st, g, t) \<leftarrow> multiply_factors (unat (high - low) + 1) low high 1 ?left;
           if st = BIGINT_OK then bigint_multiply_by_uint64 t g else State_Monad.return (st, t) }); K x }) Q"
          by (rule triple_bind, rule packed_product_wp [OF left(1) low], use le d in simp, use d in simp, rule K)
        then show "rspec u (do {
           (st, g, left) \<leftarrow> multiply_factors (unat (high - low) + 1) low high 1 ?left;
           x \<leftarrow> (if st = BIGINT_OK then bigint_multiply_by_uint64 left g
                             else State_Monad.return (st, left));
           K x }) Q"
          by (simp add: case_prod_unfold del: multiply_factors.simps)
      qed
    next
      assume le: "\<not> high < low" and inner: "\<not> high - low < 32"
      let ?m = "low + (high - low) div 2"
      note m = middle_bounds [of low high, OF _ inner] and mm = middle_measure [OF le inner]
      have leq: "low \<le> high" using le by simp
      let ?L = "\<Prod>{unat low..unat ?m}" and ?R = "\<Prod>{unat (?m + 1)..unat high}"
      have P: "?P = ?L * ?R"
        using m(3) [OF leq] unfolding m(1) [OF leq] m(2) [OF leq] add_Suc_right add_0_right One_nat_def
        by (intro prod_range_split) linarith+
      have pos: "0 < ?L" "0 < ?R"
        using low prod_range_pos [of "unat low" "unat ?m"] prod_range_pos [of "unat (?m + 1)" "unat high"]
        by (simp_all only: unat_gt_0 m(2) [OF leq]) simp_all
      have "?L * 1 \<le> ?P" "1 * ?R \<le> ?P" unfolding P using pos by (auto intro!: mult_le_mono simp: Suc_le_eq)
      then have FL: "?F \<Longrightarrow> ?L < LB ^ (BIGINT_MAX_LIMBS - 1)" and FR: "?F \<Longrightarrow> ?R < LB ^ (BIGINT_MAX_LIMBS - 1)"
        by linarith+
      have nz: "?m + 1 \<noteq> 0" using m(2) [OF leq] by (simp flip: unat_eq_0_iff)
      have mul: "rspec u (bigint_mul_workspace out l r w') Q"
        if "bigint_wf l" "bigint_val l = int ?L" "bigint_wf r" "bigint_val r = int ?R" "ws_wf w'" for l r w'
      proof (rule mul_workspace_wp [OF that(1,3) out that(5)])
        note l = that(1,2) and r = that(3,4)
        fix st out' w2
        assume o: "outcome u (bsize l + bsize r \<le> BIGINT_MAX_LIMBS) st
          (bigint_wf out' \<and> bigint_val out' = bigint_val l * bigint_val r) (out' = out)" and g: "ws_grown w' w2"
        have "bsize l + bsize r \<le> BIGINT_MAX_LIMBS" if ?F
          by (rule mul_fits [OF l(1) r(1)]) (use that in \<open>simp only: nonneg_product(1) [OF l] nonneg_product(1) [OF r] P\<close>)
        then show "Q (st, out', w2)"
          by (intro Q ws_grown_wf [OF g] result_okI outcome_mono [OF o]) (use that in \<open>auto simp: P\<close>)
      qed
      show "rspec u (do {
         let middle = low + (high - low) div 2;
         (st, left, w) \<leftarrow> range_product bigint_init low middle bits w;
         (st, right, w) \<leftarrow> (if st = BIGINT_OK then range_product bigint_init (middle + 1) high bits w
                            else State_Monad.return (st, bigint_init, w));
         if st = BIGINT_OK then bigint_mul_workspace out left right w
         else State_Monad.return (st, out, w) }) Q"
        unfolding Let_def
      proof (rule triple_bind, rule less.hyps [OF mm(1) storage_ok_init w low less.prems(4)], intro triple_case_pair)
        fix st l w1
        assume l: "result_ok u (?L < LB ^ (BIGINT_MAX_LIMBS - 1)) bigint_init (int ?L) st l" and w1: "ws_wf w1"
        show "rspec u (do {
           (st, right, w) \<leftarrow> (if st = BIGINT_OK then range_product bigint_init (?m + 1) high bits w1
                              else State_Monad.return (st, bigint_init, w1));
           if st = BIGINT_OK then bigint_mul_workspace out l right w
           else State_Monad.return (st, out, w) }) Q"
        proof (cases "st = BIGINT_OK")
          case True
          have l: "bigint_wf l" "bigint_val l = int ?L" using l True by simp_all
          show ?thesis
            unfolding if_P [OF True]
          proof (rule triple_bind, rule less.hyps [OF mm(2) storage_ok_init w1 nz less.prems(4)],
              intro triple_case_pair triple_if triple_return)
            fix st r w2
            assume r: "result_ok u (?R < LB ^ (BIGINT_MAX_LIMBS - 1)) bigint_init (int ?R) st r" and w2: "ws_wf w2"
            show "rspec u (bigint_mul_workspace out l r w2) Q" if "st = BIGINT_OK"
              using r that by (intro mul l w2) simp_all
            show "Q (st, out, w2)" if "st \<noteq> BIGINT_OK" using r that FR w2 by (auto intro: fail)
          qed
        next
          case False
          then show ?thesis using l FL w1 by (auto intro!: triple_return intro: fail)
        qed
      qed
    qed
  qed (simp_all add: w)
qed

section \<open>Factorials\<close>

lemma factorial_tree_wp:
  assumes Q: "\<And>st r'. result_ok u (fact (unat n) < LB ^ (BIGINT_MAX_LIMBS - 1)) r (fact (unat n)) st r' \<Longrightarrow> Q (st, r')"
  shows "rspec u (factorial_tree r n split) Q"
proof -
  have w: "ws_wf \<lparr>ws_split = split, ws_capacities = replicate 64 0\<rparr>" by (simp add: ws_wf_def)
  show ?thesis
    unfolding factorial_tree_def Let_def
  proof (rule triple_bind, rule range_product_wp [OF storage_ok_init w _ counter_bits_le], simp, intro triple_case_pair)
    fix st t w'
    assume o: "result_ok u (\<Prod>{unat (2 :: u64)..unat n} < LB ^ (BIGINT_MAX_LIMBS - 1)) bigint_init
      (int (\<Prod>{unat (2 :: u64)..unat n})) st t"
    have o: "outcome u (fact (unat n) < LB ^ (BIGINT_MAX_LIMBS - 1)) st (holds_nat t (fact (unat n))) True"
      using o by (auto simp: range_2_fact result_ok_def holds_nat_def elim: outcome_mono)
    show "rspec u (do {
       st \<leftarrow> (if st = BIGINT_OK then do {
                  go \<leftarrow> numforge_budget_check;
                  State_Monad.return (if go then st else BIGINT_OUT_OF_MEMORY)
                }
                else State_Monad.return st);
       State_Monad.return (st, if st = BIGINT_OK then fst (bigint_commit r t) else r) }) Q"
    proof (rule triple_bind, rule checked_publish_wp [OF o], rule triple_return)
      fix st
      assume "outcome u (fact (unat n) < LB ^ (BIGINT_MAX_LIMBS - 1)) st (holds_nat t (fact (unat n))) True"
      from holds_nat_result [OF this, of r] show "Q (st, if st = BIGINT_OK then fst (bigint_commit r t) else r)"
        unfolding fst_bigint_commit by (intro Q) simp
    qed
  qed
qed

lemma factorial_tree_plan_wp [wp]:
  assumes "\<And>p. Q p"
  shows "rspec u (bigint_factorial_tree_plan n) Q"
proof -
  have small: "child div 64 \<le> BIGINT_MAX_LIMBS"
    if "bigint_size_add bits 63 = Some child" for bits child
  proof -
    have "child \<le> SIZE_MAX" using that by (auto simp: bigint_size_add_def SIZE_MAX_def split: if_splits)
    then show ?thesis unfolding BIGINT_MAX_LIMBS_def by (rule div_le_mono)
  qed
  show ?thesis
    unfolding bigint_factorial_tree_plan_def Let_def
    by (auto intro!: triple_return triple_case_option triple_if triple_bind workspace_plan_wp assms
        simp: bind_eq_Some_conv small split: prod.splits)
qed

lemma factorial_tree_fits_wp [wp]: "(\<And>b. Q b) \<Longrightarrow> rspec u (bigint_factorial_tree_fits n) Q"
  unfolding bigint_factorial_tree_fits_def by (auto intro!: wp)

lemma factorial_wp [wp]:
  assumes v: "bigint_wf v"
    and Q: "\<And>st r'. (if is_negative v then st = BIGINT_NEGATIVE_ARGUMENT \<and> r' = r
       else if LB \<le> bigint_mag v then st = BIGINT_VALUE_TOO_LARGE \<and> r' = r
       else result_ok u (fact (bigint_mag v) < LB ^ (BIGINT_MAX_LIMBS - 1)) r (fact (bigint_mag v)) st r') \<Longrightarrow> Q (st, r')"
  shows "rspec u (bigint_factorial r v) Q"
proof -
  have large: "LB \<le> bigint_mag v" if "1 < bsize v"
  proof -
    have "LB ^ 1 \<le> LB ^ (bsize v - 1)" using that by (intro power_increasing) (auto simp: LB_ge_2 Suc_le_eq)
    also have "\<dots> \<le> bigint_mag v" using that bigint_wfD(1) [OF v] by (intro mag_lower) auto
    finally show ?thesis by simp
  qed
  have small: "bigint_mag v = unat (if limbs v \<noteq> [] then limbs v ! 0 else 0)" if "\<not> 1 < bsize v"
    using that by (cases "limbs v") auto
  have less: "bigint_mag v < LB" if "\<not> 1 < bsize v" unfolding small [OF that] by simp
  show ?thesis
  proof (cases "is_negative v \<or> 1 < bsize v")
    case True
    then show ?thesis using large by (auto simp: bigint_factorial_def intro!: triple_return Q)
  next
    case False
    then have nv: "\<not> is_negative v" "\<not> 1 < bsize v" by auto
    have fin: "Q (st, r')"
      if "result_ok u (fact (unat (if limbs v \<noteq> [] then limbs v ! 0 else 0)) < LB ^ (BIGINT_MAX_LIMBS - 1)) r
         (fact (unat (if limbs v \<noteq> [] then limbs v ! 0 else 0))) st r'" for st r'
      using that nv less [OF nv(2)] unfolding small [OF nv(2), symmetric] by (intro Q) simp
    show ?thesis
      unfolding bigint_factorial_def Let_def if_not_P [OF nv(1)] if_not_P [OF nv(2)] bigint_factorial_tree_def
      by (intro triple_bind triple_if triple_return factorial_tree_fits_wp factorial_tree_wp factorial_grouped_wp fin)
  qed
qed

section \<open>The plan is an upper bound\<close>

lemma power_word: "k < 64 \<Longrightarrow> unat (push_bit k (1 :: u64)) = 2 ^ k"
proof -
  assume "k < 64"
  then have "(2 :: nat) ^ k < LB" unfolding LB_def by (intro power_strict_increasing) auto
  then show ?thesis unfolding unat_push_bit by simp
qed

lemma prod_range_bound:
  assumes "high < 2 ^ b"
  shows "\<Prod>{low..high} \<le> 2 ^ (b * (Suc high - low))"
proof -
  have "\<Prod>{low..high} \<le> (\<Prod>i\<in>{low..high}. 2 ^ b)" using assms by (intro prod_mono) auto
  also have "\<dots> = 2 ^ (b * (Suc high - low))" by (simp add: power_mult)
  finally show ?thesis .
qed

lemma range_bits_loop_bound:
  "range_bits_loop k b low high planned = Some r \<Longrightarrow> b + k = 65 \<Longrightarrow> 0 < b \<Longrightarrow>
   planned \<le> r \<and> \<Prod>{max (unat low) (2 ^ (b - 1))..unat high} \<le> 2 ^ (r - planned)"
proof (induction k arbitrary: b planned)
  case 0
  have "unat high < 2 ^ (b - 1)" using unat_lt_LB [of high] 0(2) by (simp add: LB_def)
  with 0(1) show ?case by simp
next
  case (Suc k)
  define first where "first = (push_bit (b - 1) 1 :: u64)"
  define last where "last = (if b = 64 then UINT64_MAX else push_bit b 1 - 1 :: u64)"
  have b: "b \<le> 64" using Suc.prems(2) by simp
  have first: "unat first = 2 ^ (b - 1)" using b Suc.prems(3) unfolding first_def by (intro power_word) simp
  have last: "unat last = 2 ^ b - 1"
  proof (cases "b = 64")
    case False
    then have "unat (push_bit b (1 :: u64)) = 2 ^ b" using b by (intro power_word) simp
    moreover from this have "push_bit b (1 :: u64) \<noteq> 0" by (auto simp: unat_eq_0_iff [symmetric])
    ultimately show ?thesis using False by (simp add: last_def unat_minus_1)
  qed (simp add: last_def LB_def)
  let ?lo = "max (unat low) (2 ^ (b - 1))" and ?hi = "min (unat high) (2 ^ b - 1)"
  let ?lo' = "max (unat low) (2 ^ (Suc b - 1))"
  show ?case
  proof (cases "high < first")
    case True
    then have "unat high < ?lo" using first by (simp add: word_less_nat_alt)
    then show ?thesis using Suc.prems(1) True by (simp add: first_def)
  next
    case False
    define f l where "f = (if first < low then low else first)" and "l = (if high < last then high else last)"
    have f: "unat f = ?lo" and l: "unat l = ?hi"
      using first last by (auto simp: f_def l_def word_less_nat_alt)
    note eq = Suc.prems(1) [unfolded range_bits_loop.simps Let_def, folded first_def last_def, folded f_def l_def,
        unfolded if_not_P [OF False]]
    show ?thesis
    proof (cases "f \<le> l")
      case True
      then have le: "?lo \<le> ?hi" using f l by (simp add: word_le_nat_alt)
      have cnt: "unat (l - f) = ?hi - ?lo" using True f l by (simp add: unat_sub)
      obtain c where c: "c = (unat (l - f) + 1) * b" and rec: "range_bits_loop k (b + 1) low high (planned + c) = Some r"
        using eq True by (auto simp: bind_eq_Some_conv bigint_size_mul_iff dest!: bigint_size_addD)
      have IH: "planned + c \<le> r" "\<Prod>{?lo'..unat high} \<le> 2 ^ (r - (planned + c))"
        using Suc.IH [OF rec] Suc.prems(2) by auto
      have "\<Prod>{?lo..?hi} \<le> 2 ^ (b * (Suc ?hi - ?lo))" 
        by (rule prod_range_bound, rule le_less_trans [OF min.cobounded2]) simp
      then have low_part: "\<Prod>{?lo..?hi} \<le> 2 ^ c" using le by (simp add: c cnt mult.commute Suc_diff_le)
      have "\<Prod>{?lo..unat high} \<le> \<Prod>{?lo..?hi} * \<Prod>{?lo'..unat high}"
      proof (cases "unat high \<le> 2 ^ b - 1")
        case True
        then have "unat high < ?lo'" using Suc.prems(3) by (simp add: less_max_iff_disj) (metis One_nat_def Suc_le_eq le_simps(2) power_eq_0_iff zero_neq_numeral not_gr_zero Suc_pred)
        then show ?thesis using True by simp
      next
        case False
        then have hi: "?hi = 2 ^ b - 1" by simp
        have lo': "?lo' = Suc (2 ^ b - 1)"
        proof -
          have "unat low \<le> 2 ^ b - 1" using le hi by simp
          then have "max (unat low) (2 ^ b) = 2 ^ b" by (intro max_absorb2) linarith
          then show ?thesis by simp
        qed
        have "\<Prod>{?lo..unat high} = \<Prod>{?lo..?hi} * \<Prod>{?lo'..unat high}"
          using le False unfolding hi lo' by (intro prod_range_split) linarith+
        then show ?thesis by (rule eq_imp_le)
      qed
      also have "\<dots> \<le> 2 ^ c * 2 ^ (r - (planned + c))" using low_part IH(2) by (rule mult_le_mono)
      also have "\<dots> = 2 ^ (r - planned)" using IH(1) by (simp flip: power_add)
      finally show ?thesis using IH(1) by simp
    next
      case gt: False
      then have "unat l < unat f" by (simp add: word_le_nat_alt)
      then have "?hi < ?lo" unfolding f l .
      moreover have half: "2 ^ (b - 1) \<le> unat high"
        using False unfolding word_less_nat_alt first by simp
      moreover have dbl: "2 ^ b = 2 * (2 :: nat) ^ (b - 1)" using Suc.prems(3) by (cases b) auto
      moreover have "0 < (2 :: nat) ^ (b - 1)" by simp
      ultimately have "unat high < unat low \<or> 2 ^ b \<le> unat low" by linarith
      then have range: "{?lo..unat high} = {?lo'..unat high}" using dbl by auto
      moreover have "planned \<le> r \<and> \<Prod>{?lo'..unat high} \<le> 2 ^ (r - planned)"
        using Suc.IH [of "b + 1" planned] eq gt Suc.prems(2) by simp
      ultimately show ?thesis unfolding range by blast
    qed
  qed
qed

lemma range_bits_bound:
  assumes "range_bits low high = Some r" "low \<noteq> 0"
  shows "\<Prod>{unat low..unat high} \<le> 2 ^ r"
proof -
  have "0 < unat low" using assms(2) by (simp add: unat_gt_0)
  then have "max (unat low) (2 ^ (1 - 1)) = unat low" by simp
  then show ?thesis using range_bits_loop_bound [of 64 1 low high 0 r] assms(1) by (simp add: range_bits_def)
qed

section \<open>Properties\<close>

text \<open>C33: \<open>bigint_factorial\<close> computes the factorial, by packed groups or by the product
  tree, whichever the plan and the budget choose; a negative argument and one of more than a
  limb are rejected; with unlimited resources it succeeds whenever the factorial has fewer
  than \<open>BIGINT_MAX_LIMBS\<close> limbs.\<close>

theorem bigint_factorial_correct:
  assumes "\<not> stuck s" "bigint_wf v"
  shows "case run_state (bigint_factorial r v) s of ((st, r'), s') \<Rightarrow> \<not> stuck s' \<and>
    (if bigint_val v < 0 then st = BIGINT_NEGATIVE_ARGUMENT \<and> r' = r
     else if 2 ^ 64 \<le> bigint_val v then st = BIGINT_VALUE_TOO_LARGE \<and> r' = r
     else result_ok (unlimited s) (fact (nat (bigint_val v)) < LB ^ (BIGINT_MAX_LIMBS - 1)) r
       (fact (nat (bigint_val v))) st r')"
proof (rule rspec_run2 [OF _ assms(1)], rule factorial_wp [OF assms(2)])
  fix st r'
  assume o: "if is_negative v then st = BIGINT_NEGATIVE_ARGUMENT \<and> r' = r
    else if LB \<le> bigint_mag v then st = BIGINT_VALUE_TOO_LARGE \<and> r' = r
    else result_ok (unlimited s) (fact (bigint_mag v) < LB ^ (BIGINT_MAX_LIMBS - 1)) r (fact (bigint_mag v)) st r'"
  have v: "\<not> is_negative v \<Longrightarrow> bigint_val v = int (bigint_mag v)" by (simp add: bigint_val_def)
  have "(2 :: int) ^ 64 \<le> int (bigint_mag v) \<longleftrightarrow> LB \<le> bigint_mag v" by (simp add: LB_def)
  then show "case (st, r') of (st, r') \<Rightarrow>
     (if bigint_val v < 0 then st = BIGINT_NEGATIVE_ARGUMENT \<and> r' = r
     else if 2 ^ 64 \<le> bigint_val v then st = BIGINT_VALUE_TOO_LARGE \<and> r' = r
     else result_ok (unlimited s) (fact (nat (bigint_val v)) < LB ^ (BIGINT_MAX_LIMBS - 1)) r
       (fact (nat (bigint_val v))) st r')"
    using o v bigint_val_neg_iff [OF assms(2)] by (cases "is_negative v"; cases "LB \<le> bigint_mag v") simp_all
qed

theorem bigint_factorial_correct_witness:
  "case run_state (bigint_factorial bigint_init (bigint_wrap_uint64 5)) idle_runtime of
     ((st, r'), s') \<Rightarrow> st = BIGINT_OK \<and> bigint_val r' = 120"
proof -
  have "LB ^ 1 \<le> LB ^ (BIGINT_MAX_LIMBS - 1)" by (intro power_increasing) (simp_all add: max_limbs_numeral LB_ge_2 Suc_le_eq)
  moreover have "(120 :: nat) < LB ^ 1" by (simp add: LB_def)
  ultimately have "(120 :: nat) < LB ^ (BIGINT_MAX_LIMBS - 1)" by (rule less_le_trans [rotated])
  moreover have "fact 5 = (120 :: nat)" "fact 5 = (120 :: int)" by (simp_all add: fact_numeral)
  ultimately show ?thesis
    using bigint_factorial_correct [of idle_runtime "bigint_wrap_uint64 5" bigint_init]
    by (auto split: prod.splits)
qed

text \<open>The three methods agree: whenever the grouped method and the product tree, with
  either layout of its workspace, succeed, they leave the same limbs.\<close>

theorem factorial_methods_agree:
  assumes "\<not> stuck s" "run_state (bigint_factorial_grouped r n) s = ((BIGINT_OK, x), s')"
    and "\<not> stuck t" "run_state (factorial_tree q n split) t = ((BIGINT_OK, y), t')"
  shows "limbs x = limbs y \<and> is_negative x = is_negative y"
proof (rule bigint_val_inj)
  have x: "bigint_wf x \<and> bigint_val x = fact (unat n)"
    using rspec_run2 [OF factorial_grouped_wp [of "unlimited s" n r "\<lambda>(st, r'). result_ok (unlimited s) (fact (unat n) < LB ^ (BIGINT_MAX_LIMBS - 1)) r (fact (unat n)) st r'"] assms(1)]
      assms(2) by simp
  have y: "bigint_wf y \<and> bigint_val y = fact (unat n)"
    using rspec_run2 [OF factorial_tree_wp [where split = split and u = "unlimited t" and n = n and r = q and Q = "\<lambda>(st, r'). result_ok (unlimited t) (fact (unat n) < LB ^ (BIGINT_MAX_LIMBS - 1)) q (fact (unat n)) st r'"] assms(3)]
      assms(4) by simp
  from x y show "bigint_wf x" "bigint_wf y" "bigint_val x = bigint_val y" by simp_all
qed

theorem factorial_methods_agree_witness:
  "case run_state (bigint_factorial_grouped bigint_init 5) idle_runtime of ((st, x), t) \<Rightarrow>
   case run_state (factorial_tree bigint_init 5 True) t of ((st', y), t') \<Rightarrow>
     st = BIGINT_OK \<and> st' = BIGINT_OK \<and> limbs x = limbs y"
proof -
  obtain st x t where g: "run_state (bigint_factorial_grouped bigint_init 5) idle_runtime = ((st, x), t)"
    by (metis surj_pair)
  obtain st' y t' where h: "run_state (factorial_tree bigint_init 5 True) t = ((st', y), t')"
    by (metis surj_pair)
  have fits: "fact (unat (5 :: u64)) < LB ^ (BIGINT_MAX_LIMBS - 1)"
  proof -
    have "(120 :: nat) < LB ^ 1" by (simp add: LB_def)
    also have "\<dots> \<le> LB ^ (BIGINT_MAX_LIMBS - 1)"
      by (intro power_increasing) (simp_all add: max_limbs_numeral LB_ge_2 Suc_le_eq)
    finally show ?thesis by (simp add: fact_numeral)
  qed
  have g1: "rspec True (bigint_factorial_grouped bigint_init 5) (\<lambda>(st, x). st = BIGINT_OK)"
    by (rule factorial_grouped_wp) (use fits in simp)
  have h1: "rspec True (factorial_tree bigint_init 5 True) (\<lambda>(st, x). st = BIGINT_OK)"
    by (rule factorial_tree_wp) (use fits in simp)
  have "st = BIGINT_OK" "\<not> stuck t" "unlimited t" using rspec_run_unlimited [OF g1 _ _ g] by auto
  moreover from this have "st' = BIGINT_OK" using rspec_run_unlimited [OF h1 _ _ h] by auto
  ultimately show ?thesis
    using factorial_methods_agree [of idle_runtime bigint_init 5 x t t bigint_init True y t'] g h by simp
qed

text \<open>The plan of the product tree is an upper bound for the result: when there is one,
  its largest request has room for every bit of \<open>n!\<close>, and the plan never runs out of fuel.\<close>

theorem factorial_tree_plan_covers:
  assumes "\<not> stuck s"
  shows "case run_state (bigint_factorial_tree_plan n) s of (p, s') \<Rightarrow> \<not> stuck s' \<and>
    (case p of None \<Rightarrow> True | Some (planned, largest) \<Rightarrow> fact (unat n) < (2 :: nat) ^ (8 * largest))"
proof (rule rspec_run1 [OF _ assms])
  have child: "child div 64 \<le> BIGINT_MAX_LIMBS" if "bigint_size_add bits 63 = Some child" for bits child
  proof -
    have "child \<le> SIZE_MAX" using that by (auto simp: bigint_size_add_def SIZE_MAX_def split: if_splits)
    then show ?thesis unfolding BIGINT_MAX_LIMBS_def by (rule div_le_mono)
  qed
  have bytes: "fact (unat n) < (2 :: nat) ^ (8 * bytes)"
    if "range_bits 2 n = Some bits" "bigint_size_add bits 63 = Some total"
      "bigint_size_mul (Suc (Suc (total div 64))) 8 = Some bytes" for bits total bytes
  proof -
    have "total = bits + 63" "bytes = Suc (Suc (total div 64)) * 8"
      using that(2,3) by (auto simp: bigint_size_mul_iff dest: bigint_size_addD)
    then have "bits < 8 * bytes" by presburger
    then have "(2 :: nat) ^ bits < 2 ^ (8 * bytes)" by (intro power_strict_increasing) auto
    moreover have "fact (unat n) \<le> (2 :: nat) ^ bits"
      using range_bits_bound [OF that(1)] by (simp add: range_2_fact)
    ultimately show ?thesis by linarith
  qed
  have larger: "fact (unat n) < (2 :: nat) ^ (8 * largest)"
    if "range_bits 2 n = Some bits" "bigint_size_add bits 63 = Some total"
      "bigint_size_mul (Suc (Suc (total div 64))) 8 = Some bytes" "\<not> largest < bytes" for bits total bytes largest
    by (rule less_le_trans [OF bytes [OF that(1-3)]], rule power_increasing) (use that(4) in auto)
  show "rspec (unlimited s) (bigint_factorial_tree_plan n) (\<lambda>p. case p of None \<Rightarrow> True
      | Some (planned, largest) \<Rightarrow> fact (unat n) < (2 :: nat) ^ (8 * largest))"
    unfolding bigint_factorial_tree_plan_def Let_def
    by (auto intro!: triple_return triple_case_option triple_if triple_bind workspace_plan_wp
        simp: bind_eq_Some_conv child split: prod.splits option.splits intro: bytes larger)
qed

theorem factorial_tree_plan_covers_witness:
  "case run_state (bigint_factorial_tree_plan 9) idle_runtime of (p, s') \<Rightarrow>
    (case p of None \<Rightarrow> True | Some (planned, largest) \<Rightarrow> (362880 :: nat) < 2 ^ (8 * largest))"
  using factorial_tree_plan_covers [of idle_runtime 9]
  by (auto simp: fact_numeral split: option.splits)

end
