(* ===== verification/BigInt_Combinatorics.thy ===== *)
theory BigInt_Combinatorics
  imports BigInt_Factorial
begin

text \<open>
  Permutations and combinations of \<^verbatim>\<open>src/core/bigint/number_theory.c\<close>. The
  loop multiplies by the next factor of the falling product and, for combinations, divides
  by the next factor of \<open>r!\<close>; the division is exact at every step, so the code's
  \<^verbatim>\<open>BIGINT_INVALID_ARGUMENT\<close> for a nonzero rest is never reached.
\<close>

section \<open>Operations\<close>

text \<open>The division by the counter that a combination needs in each round, in place by a
  one-limb counter, otherwise with the outputs swapped into the running value.\<close>

definition combinatorial_divide ::
  "bool \<Rightarrow> BigIntStatus \<Rightarrow> BigInt \<Rightarrow> BigInt \<Rightarrow> BigInt \<Rightarrow> BigInt \<Rightarrow>
   (BigIntStatus \<times> BigInt \<times> BigInt \<times> BigInt) rt" where
  "combinatorial_divide combination status temporary counter quot remainder =
    (if status = BIGINT_OK \<and> combination
     then if bsize counter = 1 then do {
            (rest, temporary) \<leftarrow> bigint_divide_by_uint64 temporary (limbs counter ! 0);
            go \<leftarrow> numforge_budget_check;
            State_Monad.return
              (if \<not> go then BIGINT_OUT_OF_MEMORY
               else if rest \<noteq> 0 then BIGINT_INVALID_ARGUMENT else BIGINT_OK,
               temporary, quot, remainder)
          }
          else do {
            (status, quot, remainder) \<leftarrow> bigint_div_mod False quot remainder temporary counter;
            let status = (if status = BIGINT_OK \<and> \<not> bigint_is_zero remainder
                          then BIGINT_INVALID_ARGUMENT else status);
            State_Monad.return
              (if status = BIGINT_OK then (status, quot, temporary, remainder)
               else (status, temporary, quot, remainder))
          }
     else State_Monad.return (status, temporary, quot, remainder))"

text \<open>The body of the loop: the next factor, the counter, the product and the division.\<close>

definition combinatorial_step ::
  "bool \<Rightarrow> BigInt \<Rightarrow> BigInt \<Rightarrow> BigInt \<Rightarrow> BigInt \<Rightarrow> BigInt \<Rightarrow> BigInt \<Rightarrow>
   (BigIntStatus \<times> BigInt \<times> BigInt \<times> BigInt \<times> BigInt \<times> BigInt) rt" where
  "combinatorial_step combination one temporary factor counter quot remainder = do {
     (status, factor) \<leftarrow> bigint_add factor factor one;
     (status, counter) \<leftarrow> (if status = BIGINT_OK then bigint_add counter counter one
                          else State_Monad.return (status, counter));
     (status, temporary) \<leftarrow>
       (if status = BIGINT_OK
        then if bsize factor = 1 then bigint_multiply_by_uint64 temporary (limbs factor ! 0)
             else bigint_mul temporary temporary factor
        else State_Monad.return (status, temporary));
     (status, temporary, quot, remainder) \<leftarrow>
       combinatorial_divide combination status temporary counter quot remainder;
     State_Monad.return (status, temporary, factor, counter, quot, remainder)
   }"

text \<open>The loop \<^verbatim>\<open>while (status == BIGINT_OK && counter < effective_r)\<close>. The
  counter grows by one, so \<open>effective_r + 1\<close> is fuel enough.\<close>

primrec combinatorial_loop ::
  "nat \<Rightarrow> bool \<Rightarrow> BigInt \<Rightarrow> BigInt \<Rightarrow> BigInt \<Rightarrow> BigInt \<Rightarrow> BigInt \<Rightarrow> BigInt \<Rightarrow> BigInt \<Rightarrow>
   (BigIntStatus \<times> BigInt) rt" where
  "combinatorial_loop 0 combination effective_r one temporary factor counter quot remainder =
     out_of_fuel (BIGINT_OK, temporary)"
| "combinatorial_loop (Suc fuel) combination effective_r one temporary factor counter quot remainder =
    (if bigint_compare counter effective_r < 0 then do {
       go \<leftarrow> numforge_budget_check;
       if \<not> go then State_Monad.return (BIGINT_OUT_OF_MEMORY, temporary)
       else do {
         (status, temporary, factor, counter, quot, remainder) \<leftarrow>
           combinatorial_step combination one temporary factor counter quot remainder;
         if status = BIGINT_OK
         then combinatorial_loop fuel combination effective_r one temporary factor counter quot remainder
         else State_Monad.return (status, temporary)
       }
     }
     else State_Monad.return (BIGINT_OK, temporary))"

definition bigint_combinatorial ::
  "BigInt \<Rightarrow> BigInt \<Rightarrow> BigInt \<Rightarrow> bool \<Rightarrow> (BigIntStatus \<times> BigInt) rt" where
  "bigint_combinatorial result n r combination =
    (if is_negative n \<or> is_negative r then State_Monad.return (BIGINT_NEGATIVE_ARGUMENT, result)
     else if bigint_compare r n > 0 then State_Monad.return (BIGINT_INVALID_ARGUMENT, result)
     else do {
       (status, temporary) \<leftarrow> bigint_set_uint64 bigint_init 1;
       (status, one) \<leftarrow> (if status = BIGINT_OK then bigint_set_uint64 bigint_init 1
                        else State_Monad.return (status, bigint_init));
       (status, difference) \<leftarrow> (if status = BIGINT_OK then bigint_sub bigint_init n r
                               else State_Monad.return (status, bigint_init));
       (status, effective_r) \<leftarrow>
         (if status = BIGINT_OK
          then bigint_copy bigint_init
                 (if combination \<and> bigint_compare r difference > 0 then difference else r)
          else State_Monad.return (status, bigint_init));
       (status, factor) \<leftarrow> (if status = BIGINT_OK then bigint_sub bigint_init n effective_r
                           else State_Monad.return (status, bigint_init));
       (status, temporary) \<leftarrow>
         (if status = BIGINT_OK
          then combinatorial_loop (bigint_mag effective_r + 1) combination effective_r one
                 temporary factor bigint_init bigint_init bigint_init
          else State_Monad.return (status, temporary));
       State_Monad.return (status,
         if status = BIGINT_OK then fst (bigint_commit result (temporary\<lparr>is_negative := False\<rparr>))
         else result)
     })"

definition bigint_permutation :: "BigInt \<Rightarrow> BigInt \<Rightarrow> BigInt \<Rightarrow> (BigIntStatus \<times> BigInt) rt" where
  "bigint_permutation result n r = bigint_combinatorial result n r False"

definition bigint_combination :: "BigInt \<Rightarrow> BigInt \<Rightarrow> BigInt \<Rightarrow> (BigIntStatus \<times> BigInt) rt" where
  "bigint_combination result n r = bigint_combinatorial result n r True"

section \<open>The recurrence\<close>

text \<open>The value after \<open>c\<close> rounds that started at \<open>m\<close>.\<close>

definition partial_product :: "bool \<Rightarrow> nat \<Rightarrow> nat \<Rightarrow> nat" where
  "partial_product combination m c = (if combination then (m + c) choose c else \<Prod>{m + 1..m + c})"

lemma partial_product_0 [simp]: "partial_product combination m 0 = 1"
  by (simp add: partial_product_def)

lemma partial_product_Suc:
  "partial_product combination m c * Suc (m + c) =
   partial_product combination m (Suc c) * (if combination then Suc c else 1)"
  using Suc_times_binomial_eq [of "m + c" c]
  by (simp add: partial_product_def prod.nat_ivl_Suc' mult.commute)

lemma partial_product_pos: "0 < partial_product combination m c"
  by (auto simp: partial_product_def intro!: prod_pos)

lemma partial_product_mono: "c \<le> d \<Longrightarrow> partial_product combination m c \<le> partial_product combination m d"
proof (induction d rule: dec_induct)
  case (step d)
  have "partial_product combination m d \<le> partial_product combination m (Suc d)"
  proof (cases combination)
    case True
    then show ?thesis by (simp add: partial_product_def)
  next
    case False
    then show ?thesis using partial_product_Suc [of combination m d] by simp
  qed
  with step.IH show ?case by linarith
qed simp

lemma partial_product_bound:
  assumes "c < d"
  shows "partial_product combination m c * Suc (m + c) \<le> partial_product combination m d * d"
proof -
  have "partial_product combination m (Suc c) * (if combination then Suc c else 1)
      \<le> partial_product combination m d * d"
    using assms by (intro mult_le_mono partial_product_mono) auto
  then show ?thesis unfolding partial_product_Suc .
qed

section \<open>One round\<close>

lemma holds_nat_add:
  assumes "holds_nat a x" "holds_nat b y"
    and Q: "\<And>st r'. outcome u (Suc (max (bsize a) (bsize b)) \<le> BIGINT_MAX_LIMBS) st (holds_nat r' (x + y)) True \<Longrightarrow> Q (st, r')"
    and "storage_ok r"
  shows "rspec u (bigint_add r a b) Q"
  by (rule add_wp [OF assms(4) holds_natD(1) [OF assms(1)] holds_natD(1) [OF assms(2)]], rule Q)
    (use holds_natD(2) [OF assms(1)] holds_natD(2) [OF assms(2)] in
      \<open>auto simp: result_ok_def holds_nat_def elim: outcome_mono\<close>)

lemma holds_nat_one_limb: "holds_nat x n \<Longrightarrow> bsize x = 1 \<Longrightarrow> unat (limbs x ! 0) = n"
  using holds_natD(3) [of x n] by (cases "limbs x") auto

lemma holds_nat_mul:
  assumes "holds_nat a x" "holds_nat b y" "storage_ok r"
    and Q: "\<And>st r'. outcome u (x * y < LB ^ (BIGINT_MAX_LIMBS - 1)) st (holds_nat r' (x * y)) True \<Longrightarrow> Q (st, r')"
  shows "rspec u (bigint_mul r a b) Q"
proof (rule mul_wp [OF holds_natD(1) [OF assms(1)] holds_natD(1) [OF assms(2)] assms(3)], rule Q, erule outcome_mono)
  note a = holds_natD [OF assms(1)] and b = holds_natD [OF assms(2)]
  show "bsize a + bsize b \<le> BIGINT_MAX_LIMBS" if "x * y < LB ^ (BIGINT_MAX_LIMBS - 1)"
    using mul_fits [OF a(1) b(1)] that a(3) b(3) by simp
qed (use holds_natD(2) [OF assms(1)] holds_natD(2) [OF assms(2)] in \<open>auto simp: holds_nat_def\<close>)

text \<open>The multiplication by the new factor, in one limb or in full.\<close>

lemma multiply_factor_wp:
  assumes "holds_nat t x" "0 < x" "holds_nat f y" "0 < y"
    and Q: "\<And>st t'. outcome u (x * y < LB ^ (BIGINT_MAX_LIMBS - 1)) st (holds_nat t' (x * y)) True \<Longrightarrow> Q (st, t')"
  shows "rspec u (if bsize f = 1 then bigint_multiply_by_uint64 t (limbs f ! 0) else bigint_mul t t f) Q"
proof (rule triple_if)
  assume one: "bsize f = 1"
  then have y: "unat (limbs f ! 0) = y" by (rule holds_nat_one_limb [OF assms(3)])
  with assms(4) have "limbs f ! 0 \<noteq> 0" by (auto simp: unat_eq_0_iff [symmetric])
  then show "rspec u (bigint_multiply_by_uint64 t (limbs f ! 0)) Q"
    by (rule holds_nat_multiply [OF assms(1,2)]) (use y Q in simp)
qed (rule holds_nat_mul [OF assms(1,3) holds_natD(6) [OF assms(1)]], rule Q)

text \<open>The exact division by the counter, in one limb or in full.\<close>

lemma divide_counter_wp:
  assumes o: "outcome u F st (holds_nat t (x * (if combination then y else 1)) \<and> holds_nat k y \<and> 0 < y) True"
    and Q: "\<And>st' t' q' r'. outcome u F st' (holds_nat t' x \<and> st = BIGINT_OK) True \<Longrightarrow> Q (st', t', q', r')"
  shows "rspec u (combinatorial_divide combination st t k q r) Q"
proof (cases "st = BIGINT_OK \<and> combination")
  case c: True
  then have t: "holds_nat t (x * y)" and k: "holds_nat k y" and y: "0 < y" using o by auto
  show ?thesis
  proof (cases "bsize k = 1")
    case True
    then have u: "unat (limbs k ! 0) = y" by (rule holds_nat_one_limb [OF k])
    with y have nz: "limbs k ! 0 \<noteq> 0" by (auto simp: unat_eq_0_iff [symmetric])
    show ?thesis
      unfolding combinatorial_divide_def if_P [OF c] if_P [OF True]
    proof (rule triple_bind, rule divide_by_uint64_wp [OF holds_natD(6) [OF t] nz],
        intro triple_case_pair triple_bind [of _ numforge_budget_check] budget_check_wp triple_return)
      fix rest :: u64 and t' b
      assume t': "storage_ok t'" "canonical (limbs t')" "is_negative t' = is_negative t"
        "bigint_mag t' = bigint_mag t div unat (limbs k ! 0)" and rest: "unat rest = bigint_mag t mod unat (limbs k ! 0)"
        and b: "u \<longrightarrow> b"
      have "unat rest = 0" using rest holds_natD(3) [OF t] by (simp add: u)
      then have "rest = 0" by (simp only: unat_eq_0_iff)
      moreover have "holds_nat t' x"
        using t' holds_natD [OF t] y by (intro holds_natI) (auto simp: bigint_wf_iff u)
      ultimately show "Q (if \<not> b then BIGINT_OUT_OF_MEMORY
           else if rest \<noteq> 0 then BIGINT_INVALID_ARGUMENT else BIGINT_OK, t', q, r)"
        using b c by (auto intro!: Q)
    qed
  next
    case False
    have k0: "limbs k \<noteq> []" using holds_natD(7) [OF k] y by simp
    have "tdiv (int (x * y)) (int y) = int x" "tmod (int (x * y)) (int y) = 0"
      using y by (simp_all add: tdiv_nonneg tmod_def)
    then show ?thesis
      unfolding combinatorial_divide_def if_P [OF c] if_not_P [OF False]
      using holds_natD(1,2) [OF t] holds_natD(1,2) [OF k] k0 c
      by (intro triple_bind div_mod_wp triple_case_pair triple_let triple_return)
        (auto intro!: Q simp: outcome_def holds_nat_def is_zero_iff resource_failure_def split: if_splits)
  qed
next
  case False
  then show ?thesis using o by (auto intro!: triple_return Q simp: combinatorial_divide_def outcome_def)
qed

lemma combinatorial_step_wp:
  assumes t: "holds_nat t T" "0 < T" and f: "holds_nat f (m + c)" and k: "holds_nat k c" and one: "holds_nat one 1"
    and T: "T * Suc (m + c) = T' * (if combination then Suc c else 1)"
    and F: "F \<Longrightarrow> T * Suc (m + c) < LB ^ (BIGINT_MAX_LIMBS - 1)"
      "F \<Longrightarrow> Suc (max (bsize f) (bsize one)) \<le> BIGINT_MAX_LIMBS" "F \<Longrightarrow> Suc (max (bsize k) (bsize one)) \<le> BIGINT_MAX_LIMBS"
    and Q: "\<And>st t' f' k' q' r'. outcome u F st (holds_nat t' T' \<and> holds_nat f' (Suc (m + c)) \<and> holds_nat k' (Suc c)) True \<Longrightarrow>
      Q (st, t', f', k', q', r')"
  shows "rspec u (combinatorial_step combination one t f k q r) Q"
  unfolding combinatorial_step_def
proof (rule triple_bind, rule holds_nat_add [OF f one _ holds_natD(6) [OF f]], rule triple_case_pair)
  fix st f'
  assume "outcome u (Suc (max (bsize f) (bsize one)) \<le> BIGINT_MAX_LIMBS) st (holds_nat f' (m + c + 1)) True"
  then have o1: "outcome u F st (holds_nat f' (Suc (m + c))) True" using F(2) by (auto elim!: outcome_mono)
  define K where "K = (\<lambda>(status, counter). do {
     (status, temporary) \<leftarrow>
       (if status = BIGINT_OK
        then if bsize f' = 1 then bigint_multiply_by_uint64 t (limbs f' ! 0) else bigint_mul t t f'
        else State_Monad.return (status, t));
     (status, temporary, q, r) \<leftarrow> combinatorial_divide combination status temporary counter q r;
     State_Monad.return (status, temporary, f', counter, q, r) })"
  have K: "rspec u (K (st, k')) Q"
    if o: "outcome u F st (holds_nat f' (Suc (m + c)) \<and> holds_nat k' (Suc c)) True" for st k'
    unfolding K_def prod.case
  proof (rule triple_bind, rule triple_conseq [of _ _ "\<lambda>(st, t'). outcome u F st
      (holds_nat t' (T * Suc (m + c)) \<and> holds_nat f' (Suc (m + c)) \<and> holds_nat k' (Suc c)) True"])
    show "rspec u (if st = BIGINT_OK
        then if bsize f' = 1 then bigint_multiply_by_uint64 t (limbs f' ! 0) else bigint_mul t t f'
        else State_Monad.return (st, t))
      (\<lambda>(st, t'). outcome u F st (holds_nat t' (T * Suc (m + c)) \<and> holds_nat f' (Suc (m + c)) \<and> holds_nat k' (Suc c)) True)"
    proof (cases "st = BIGINT_OK")
      case True
      then have h: "holds_nat f' (Suc (m + c))" "holds_nat k' (Suc c)" using o by auto
      show ?thesis
        unfolding if_P [OF True]
        by (rule multiply_factor_wp [OF t h(1)]) (use h F(1) in \<open>auto elim: outcome_mono\<close>)
    next
      case False
      then show ?thesis using o by (auto intro!: triple_return)
    qed
  next
    fix x
    assume "case x of (st, t') \<Rightarrow> outcome u F st
      (holds_nat t' (T * Suc (m + c)) \<and> holds_nat f' (Suc (m + c)) \<and> holds_nat k' (Suc c)) True"
    then obtain st t' where x: "x = (st, t')" and o: "outcome u F st
      (holds_nat t' (T * Suc (m + c)) \<and> holds_nat f' (Suc (m + c)) \<and> holds_nat k' (Suc c)) True" by (cases x) auto
    have d: "outcome u F st (holds_nat t' (T' * (if combination then Suc c else 1)) \<and> holds_nat k' (Suc c) \<and> 0 < Suc c) True"
      by (rule outcome_mono [OF o]) (simp_all only: T zero_less_Suc simp_thms)
    show "rspec u (case x of (status, temporary) \<Rightarrow> do {
       (status, temporary, q, r) \<leftarrow> combinatorial_divide combination status temporary k' q r;
       State_Monad.return (status, temporary, f', k', q, r) }) Q"
      unfolding x prod.case
      by (rule triple_bind, rule divide_counter_wp [OF d], intro triple_case_pair triple_return, rule Q)
        (use o in \<open>auto simp: outcome_def\<close>)
  qed
  have "rspec u (do { x \<leftarrow> (if st = BIGINT_OK then bigint_add k k one else State_Monad.return (st, k)); K x }) Q"
  proof (cases "st = BIGINT_OK")
    case True
    then have h: "holds_nat f' (Suc (m + c))" using o1 by simp
    show ?thesis
      unfolding if_P [OF True]
      by (rule triple_bind, rule holds_nat_add [OF k one _ holds_natD(6) [OF k]], rule K)
        (use h F(3) in \<open>auto elim!: outcome_mono\<close>)
  next
    case False
    then show ?thesis using o1 by (auto intro!: K simp: outcome_def)
  qed
  then show "rspec u (do {
     (status, counter) \<leftarrow> (if st = BIGINT_OK then bigint_add k k one else State_Monad.return (st, k));
     (status, temporary) \<leftarrow>
       (if status = BIGINT_OK
        then if bsize f' = 1 then bigint_multiply_by_uint64 t (limbs f' ! 0) else bigint_mul t t f'
        else State_Monad.return (status, t));
     (status, temporary, q, r) \<leftarrow> combinatorial_divide combination status temporary counter q r;
     State_Monad.return (status, temporary, f', counter, q, r) }) Q"
    unfolding K_def .
qed

section \<open>The loop\<close>

lemma holds_nat_bsize: "holds_nat x v \<Longrightarrow> v < LB ^ b \<Longrightarrow> bsize x \<le> b"
proof (cases "limbs x = []")
  case False
  assume x: "holds_nat x v" and v: "v < LB ^ b"
  have "LB ^ (bsize x - 1) \<le> v"
    using mag_lower [of "limbs x"] False holds_natD [OF x] bigint_wfD(1) [of x] by simp
  with v have "LB ^ (bsize x - 1) < LB ^ b" by linarith
  then have "bsize x - 1 < b" by (simp add: power_strict_increasing_iff)
  then show ?thesis by linarith
qed simp

lemma holds_nat_compare:
  "holds_nat a x \<Longrightarrow> holds_nat b y \<Longrightarrow> bigint_compare a b = sgn (int x - int y)"
  by (simp add: holds_nat_def compare_sgn)

lemma combinatorial_loop_wp:
  assumes er: "holds_nat er E" and one: "holds_nat one 1"
    and F: "F \<Longrightarrow> partial_product combination m E * E < LB ^ (BIGINT_MAX_LIMBS - 1)"
      "F \<Longrightarrow> m + E < LB ^ (BIGINT_MAX_LIMBS - 1)"
  shows "holds_nat t (partial_product combination m c) \<Longrightarrow> holds_nat f (m + c) \<Longrightarrow> holds_nat k c \<Longrightarrow>
    c \<le> E \<Longrightarrow> E - c < fuel \<Longrightarrow>
    (\<And>st t'. outcome u F st (holds_nat t' (partial_product combination m E)) True \<Longrightarrow> Q (st, t')) \<Longrightarrow>
    rspec u (combinatorial_loop fuel combination er one t f k q r) Q"
proof (induction fuel arbitrary: t f k q r c)
  case 0
  then show ?case by simp
next
  case (Suc fuel)
  note t = Suc.prems(1) and f = Suc.prems(2) and k = Suc.prems(3) and Q = Suc.prems(6)
  have cmp: "bigint_compare k er < 0 \<longleftrightarrow> c < E" by (simp add: holds_nat_compare [OF k er] sgn_if)
  have max1: "1 \<le> BIGINT_MAX_LIMBS - 1" by (simp add: max_limbs_numeral)
  have size: "Suc (max (bsize x) (bsize one)) \<le> BIGINT_MAX_LIMBS"
    if "holds_nat x v" "v \<le> m + E" F for x v
  proof -
    have "bsize x \<le> BIGINT_MAX_LIMBS - 1" using that F(2) by (intro holds_nat_bsize [OF that(1)]) linarith
    moreover have "bsize one \<le> 1" by (rule holds_nat_bsize [OF one]) simp
    ultimately show ?thesis using max1 by simp
  qed
  show ?case
  proof (cases "c < E")
    case True
    have less: "partial_product combination m c * Suc (m + c) < LB ^ (BIGINT_MAX_LIMBS - 1)" if F
      using partial_product_bound [OF True, of combination m] F(1) [OF that] by linarith
    have "rspec u (do {
         (status, t, f, k, q, r) \<leftarrow> combinatorial_step combination one t f k q r;
         if status = BIGINT_OK then combinatorial_loop fuel combination er one t f k q r
         else State_Monad.return (status, t) }) Q"
    proof (rule triple_bind, rule combinatorial_step_wp [where F = F, OF t partial_product_pos f k one partial_product_Suc],
        erule less, rule size [OF f], simp add: less_imp_le [OF True], assumption,
        rule size [OF k], use True in simp, assumption, intro triple_case_pair triple_if triple_return)
      fix st t' f' k' q' r'
      assume o: "outcome u F st (holds_nat t' (partial_product combination m (Suc c)) \<and>
        holds_nat f' (Suc (m + c)) \<and> holds_nat k' (Suc c)) True"
      show "rspec u (combinatorial_loop fuel combination er one t' f' k' q' r') Q" if "st = BIGINT_OK"
        using o that True Suc.prems(5) by (intro Suc.IH [of t' "Suc c"] Q) auto
      show "Q (st, t')" if "st \<noteq> BIGINT_OK" using o that by (intro Q) auto
    qed
    then show ?thesis
      using True by (auto intro!: triple_bind budget_check_wp triple_if triple_return Q simp: cmp)
  next
    case False
    then show ?thesis using t Suc.prems(4) by (auto intro!: triple_return Q simp: cmp)
  qed
qed

lemma holds_nat_sub:
  assumes "holds_nat a x" "holds_nat b y" "y \<le> x" "storage_ok r"
    and Q: "\<And>st r'. outcome u (Suc (max (bsize a) (bsize b)) \<le> BIGINT_MAX_LIMBS) st (holds_nat r' (x - y)) True \<Longrightarrow> Q (st, r')"
  shows "rspec u (bigint_sub r a b) Q"
  by (rule sub_wp [OF assms(4) holds_natD(1) [OF assms(1)] holds_natD(1) [OF assms(2)]], rule Q)
    (use holds_natD(2) [OF assms(1)] holds_natD(2) [OF assms(2)] assms(3) in
      \<open>auto simp: result_ok_def holds_nat_def of_nat_diff elim: outcome_mono\<close>)

lemma holds_nat_copy:
  assumes "holds_nat a x" "storage_ok r"
    and Q: "\<And>st r'. outcome u True st (holds_nat r' x) True \<Longrightarrow> Q (st, r')"
  shows "rspec u (bigint_copy r a) Q"
  by (rule copy_wp [OF assms(2) holds_natD(1) [OF assms(1)]], rule Q)
    (use holds_natD(2) [OF assms(1)] in \<open>auto simp: holds_nat_def elim: outcome_mono\<close>)

lemma holds_nat_set:
  assumes "storage_ok r"
    and Q: "\<And>st r'. outcome u True st (holds_nat r' (unat n)) True \<Longrightarrow> Q (st, r')"
  shows "rspec u (bigint_set_uint64 r n) Q"
  by (rule set_uint64_wp [OF assms(1)], rule Q, erule outcome_mono) (simp_all add: holds_nat_def)

definition effective :: "bool \<Rightarrow> nat \<Rightarrow> nat \<Rightarrow> nat" where
  "effective combination n r = (if combination \<and> r > n - r then n - r else r)"

lemma combinatorial_value:
  assumes "r \<le> n"
  shows "partial_product combination (n - effective combination n r) (effective combination n r) =
    (if combination then n choose r else fact n div fact (n - r))"
proof (cases combination)
  case True
  have "effective combination n r \<le> n" using assms by (auto simp: effective_def)
  then show ?thesis
    using True assms binomial_symmetric [of r n] by (auto simp: partial_product_def effective_def)
next
  case False
  then show ?thesis using assms fact_div_fact [of "n - r" n] by (simp add: partial_product_def effective_def)
qed

lemma combinatorial_wp [wp]:
  assumes n: "bigint_wf n" and r: "bigint_wf r"
    and Q: "\<And>st x. (if is_negative n \<or> is_negative r then st = BIGINT_NEGATIVE_ARGUMENT \<and> x = old
       else if bigint_mag n < bigint_mag r then st = BIGINT_INVALID_ARGUMENT \<and> x = old
       else let v = (if combination then bigint_mag n choose bigint_mag r
                     else fact (bigint_mag n) div fact (bigint_mag n - bigint_mag r))
            in result_ok u (bigint_mag n < LB ^ (BIGINT_MAX_LIMBS - 1) \<and>
                 v * bigint_mag r < LB ^ (BIGINT_MAX_LIMBS - 1)) old (int v) st x) \<Longrightarrow> Q (st, x)"
  shows "rspec u (bigint_combinatorial old n r combination) Q"
proof (cases "is_negative n \<or> is_negative r")
  case True
  then show ?thesis by (simp add: bigint_combinatorial_def triple_return Q)
next
  case nneg: False
  let ?N = "bigint_mag n" and ?R = "bigint_mag r"
  have hn: "holds_nat n ?N" and hr: "holds_nat r ?R" using n r nneg by (auto intro: holds_natI)
  have cmp: "bigint_compare r n > 0 \<longleftrightarrow> ?N < ?R" by (simp add: holds_nat_compare [OF hr hn] sgn_if)
  show ?thesis
  proof (cases "bigint_compare r n > 0")
    case True
    then show ?thesis using nneg cmp by (simp add: bigint_combinatorial_def triple_return Q)
  next
    case False
    with cmp have RN: "?R \<le> ?N" by simp
    let ?E = "effective combination ?N ?R"
    define v where "v = partial_product combination (?N - ?E) ?E"
    define F where "F \<longleftrightarrow> ?N < LB ^ (BIGINT_MAX_LIMBS - 1) \<and> v * ?R < LB ^ (BIGINT_MAX_LIMBS - 1)"
    have E: "?E \<le> ?R" "?E \<le> ?N" using RN by (auto simp: effective_def)
    have fin: "Q (st, x)" if "result_ok u F old (int v) st x" for st x
      using that nneg RN unfolding F_def v_def combinatorial_value [OF RN]
      by (intro Q) (auto simp: Let_def)
    have fail: "Q (st, old)" if "resource_failure u X st" "F \<Longrightarrow> X" for st X
      using that by (intro fin result_ok_failI)
    have size: "Suc (max (bsize x) (bsize y)) \<le> BIGINT_MAX_LIMBS"
      if "holds_nat x a" "holds_nat y b" "a \<le> ?N" "b \<le> ?N" F for x y a b
    proof -
      have "bsize x \<le> BIGINT_MAX_LIMBS - 1" "bsize y \<le> BIGINT_MAX_LIMBS - 1"
        using that by (auto simp: F_def intro!: holds_nat_bsize)
      then show ?thesis using max_limbs_numeral by simp
    qed
    have selected: "holds_nat (if combination \<and> bigint_compare r d > 0 then d else r) ?E"
      if "holds_nat d (?N - ?R)" for d
      using hr that by (auto simp: effective_def holds_nat_compare [OF hr that] sgn_if)
    have loopF: "F \<Longrightarrow> v * ?E < LB ^ (BIGINT_MAX_LIMBS - 1)" "F \<Longrightarrow> ?N - ?E + ?E < LB ^ (BIGINT_MAX_LIMBS - 1)"
      using E(2) mult_le_mono2 [OF E(1), of v] unfolding F_def by linarith+
    have fuel: "?E - 0 < bigint_mag x + 1" if "holds_nat x ?E" for x
      using holds_natD(3) [OF that] by simp
    have publish: "Q (st, if st = BIGINT_OK then fst (bigint_commit old (t\<lparr>is_negative := False\<rparr>)) else old)"
      if o: "outcome u F st (holds_nat t v) True" for st t
      using fin [OF holds_nat_result [OF o]] o
      by (cases "st = BIGINT_OK") (auto simp: unsigned_same holds_natD(4))
    show ?thesis
      unfolding bigint_combinatorial_def if_not_P [OF nneg] if_not_P [OF False]
      by (intro if_ok triple_bind [of _ "combinatorial_loop _ _ _ _ _ _ _ _ _"] seq_ok [where e = old]
          holds_nat_set storage_ok_init holds_nat_sub [OF hn hr RN storage_ok_init]
          holds_nat_sub [OF hn _ E(2) storage_ok_init] holds_nat_copy [OF selected storage_ok_init]
          combinatorial_loop_wp [where m = "?N - ?E" and c = 0 and E = ?E and F = F]
          triple_case_pair triple_return ok_or_fail publish;
        (simp add: holds_nat_def [of bigint_init]; fail | simp add: E(2); fail | rule loopF [unfolded v_def]; assumption; fail
         | simp add: v_def; fail | rule fuel; simp; fail
         | rule fail [of True]; simp; fail | rule fail, simp, erule size [OF hn hr _ RN, OF order_refl]; fail
         | rule fail, simp, rule size [OF hn _ order_refl E(2)]; simp; fail))
  qed
qed

section \<open>Properties\<close>

lemma example_bound: "(n :: nat) < 2 ^ 64 \<Longrightarrow> n < LB ^ (BIGINT_MAX_LIMBS - 1)"
proof -
  assume "n < 2 ^ 64"
  moreover have "LB ^ 1 \<le> LB ^ (BIGINT_MAX_LIMBS - 1)"
    by (intro power_increasing) (simp_all add: max_limbs_numeral LB_ge_2 Suc_le_eq)
  ultimately show ?thesis by (simp add: LB_def)
qed

lemmas example_bounds =
  example_bound [of 5, simplified] example_bound [of 20, simplified] example_bound [of 40, simplified]

text \<open>\<open>bigint_combination\<close> computes the binomial coefficient; every division of its
  recurrence is exact, so the status for an inexact division is never returned; negative
  arguments and \<open>r > n\<close> are rejected.\<close>

theorem bigint_combination_correct:
  assumes "\<not> stuck s" "bigint_wf n" "bigint_wf r"
  shows "case run_state (bigint_combination x n r) s of ((st, x'), s') \<Rightarrow> \<not> stuck s' \<and>
    (if bigint_val n < 0 \<or> bigint_val r < 0 then st = BIGINT_NEGATIVE_ARGUMENT \<and> x' = x
     else if bigint_val n < bigint_val r then st = BIGINT_INVALID_ARGUMENT \<and> x' = x
     else result_ok (unlimited s)
       (bigint_mag n < LB ^ (BIGINT_MAX_LIMBS - 1) \<and>
        (bigint_mag n choose bigint_mag r) * bigint_mag r < LB ^ (BIGINT_MAX_LIMBS - 1))
       x (int ((bigint_mag n choose bigint_mag r))) st x')"
proof (rule rspec_run2 [OF _ assms(1)], unfold bigint_combination_def, rule combinatorial_wp [OF assms(2,3)])
  fix st x'
  let ?v = "if True then bigint_mag n choose bigint_mag r
            else fact (bigint_mag n) div fact (bigint_mag n - bigint_mag r)"
  assume o: "if is_negative n \<or> is_negative r then st = BIGINT_NEGATIVE_ARGUMENT \<and> x' = x
    else if bigint_mag n < bigint_mag r then st = BIGINT_INVALID_ARGUMENT \<and> x' = x
    else let v = ?v in result_ok (unlimited s) (bigint_mag n < LB ^ (BIGINT_MAX_LIMBS - 1) \<and>
        v * bigint_mag r < LB ^ (BIGINT_MAX_LIMBS - 1)) x (int v) st x'"
  have "\<not> is_negative n \<and> \<not> is_negative r \<Longrightarrow> bigint_val n < bigint_val r \<longleftrightarrow> bigint_mag n < bigint_mag r"
    by (simp add: bigint_val_def)
  then show "case (st, x') of (st, x') \<Rightarrow>
    (if bigint_val n < 0 \<or> bigint_val r < 0 then st = BIGINT_NEGATIVE_ARGUMENT \<and> x' = x
     else if bigint_val n < bigint_val r then st = BIGINT_INVALID_ARGUMENT \<and> x' = x
     else result_ok (unlimited s)
       (bigint_mag n < LB ^ (BIGINT_MAX_LIMBS - 1) \<and>
        (bigint_mag n choose bigint_mag r) * bigint_mag r < LB ^ (BIGINT_MAX_LIMBS - 1))
       x (int ((bigint_mag n choose bigint_mag r))) st x')"
    using o bigint_val_neg_iff [OF assms(2)] bigint_val_neg_iff [OF assms(3)]
    by (cases "is_negative n \<or> is_negative r"; cases "bigint_mag n < bigint_mag r") (simp_all add: Let_def)
qed

theorem bigint_combination_correct_witness:
  "case run_state (bigint_combination bigint_init (bigint_wrap_uint64 5) (bigint_wrap_uint64 2)) idle_runtime of
     ((st, x'), s') \<Rightarrow> st = BIGINT_OK \<and> bigint_val x' = 10"
proof -
  have v: "bigint_mag (bigint_wrap_uint64 5) = 5" "bigint_mag (bigint_wrap_uint64 2) = 2"
    by (simp_all add: bigint_wrap_uint64_def)
  have "(5 :: nat) choose 2 = 10" by (simp add: choose_two)
  then show ?thesis
    using bigint_combination_correct [of idle_runtime "bigint_wrap_uint64 5" "bigint_wrap_uint64 2" bigint_init]
    by (auto simp: v example_bounds split: prod.splits)
qed

text \<open>\<open>bigint_permutation\<close> computes \<open>n! / (n - r)!\<close> as a falling product without
  forming either factorial; negative arguments and \<open>r > n\<close> are rejected.\<close>

theorem bigint_permutation_correct:
  assumes "\<not> stuck s" "bigint_wf n" "bigint_wf r"
  shows "case run_state (bigint_permutation x n r) s of ((st, x'), s') \<Rightarrow> \<not> stuck s' \<and>
    (if bigint_val n < 0 \<or> bigint_val r < 0 then st = BIGINT_NEGATIVE_ARGUMENT \<and> x' = x
     else if bigint_val n < bigint_val r then st = BIGINT_INVALID_ARGUMENT \<and> x' = x
     else result_ok (unlimited s)
       (bigint_mag n < LB ^ (BIGINT_MAX_LIMBS - 1) \<and>
        (fact (bigint_mag n) div fact (bigint_mag n - bigint_mag r)) * bigint_mag r < LB ^ (BIGINT_MAX_LIMBS - 1))
       x (int ((fact (bigint_mag n) div fact (bigint_mag n - bigint_mag r)))) st x')"
proof (rule rspec_run2 [OF _ assms(1)], unfold bigint_permutation_def, rule combinatorial_wp [OF assms(2,3)])
  fix st x'
  let ?v = "if False then bigint_mag n choose bigint_mag r
            else fact (bigint_mag n) div fact (bigint_mag n - bigint_mag r)"
  assume o: "if is_negative n \<or> is_negative r then st = BIGINT_NEGATIVE_ARGUMENT \<and> x' = x
    else if bigint_mag n < bigint_mag r then st = BIGINT_INVALID_ARGUMENT \<and> x' = x
    else let v = ?v in result_ok (unlimited s) (bigint_mag n < LB ^ (BIGINT_MAX_LIMBS - 1) \<and>
        v * bigint_mag r < LB ^ (BIGINT_MAX_LIMBS - 1)) x (int v) st x'"
  have "\<not> is_negative n \<and> \<not> is_negative r \<Longrightarrow> bigint_val n < bigint_val r \<longleftrightarrow> bigint_mag n < bigint_mag r"
    by (simp add: bigint_val_def)
  then show "case (st, x') of (st, x') \<Rightarrow>
    (if bigint_val n < 0 \<or> bigint_val r < 0 then st = BIGINT_NEGATIVE_ARGUMENT \<and> x' = x
     else if bigint_val n < bigint_val r then st = BIGINT_INVALID_ARGUMENT \<and> x' = x
     else result_ok (unlimited s)
       (bigint_mag n < LB ^ (BIGINT_MAX_LIMBS - 1) \<and>
        (fact (bigint_mag n) div fact (bigint_mag n - bigint_mag r)) * bigint_mag r < LB ^ (BIGINT_MAX_LIMBS - 1))
       x (int ((fact (bigint_mag n) div fact (bigint_mag n - bigint_mag r)))) st x')"
    using o bigint_val_neg_iff [OF assms(2)] bigint_val_neg_iff [OF assms(3)]
    by (cases "is_negative n \<or> is_negative r"; cases "bigint_mag n < bigint_mag r") (simp_all add: Let_def)
qed

theorem bigint_permutation_correct_witness:
  "case run_state (bigint_permutation bigint_init (bigint_wrap_uint64 5) (bigint_wrap_uint64 2)) idle_runtime of
     ((st, x'), s') \<Rightarrow> st = BIGINT_OK \<and> bigint_val x' = 20"
proof -
  have v: "bigint_mag (bigint_wrap_uint64 5) = 5" "bigint_mag (bigint_wrap_uint64 2) = 2"
    by (simp_all add: bigint_wrap_uint64_def)
  have "fact 5 div fact 3 = (20 :: nat)" by (simp add: fact_numeral)
  then show ?thesis
    using bigint_permutation_correct [of idle_runtime "bigint_wrap_uint64 5" "bigint_wrap_uint64 2" bigint_init]
    by (auto simp: v example_bounds split: prod.splits)
qed

end
