(* ===== verification/Numerals.thy ===== *)
theory Numerals
  imports Main
begin

text \<open>
  Positional numerals, the specification side of the text conversions: the value of a list
  of digits (most significant first), the digits of a number, and how the digits of a number
  are put together from the digits of its chunks.
\<close>

section \<open>Values and digits\<close>

definition digits_value :: "nat \<Rightarrow> nat list \<Rightarrow> nat" where
  "digits_value b ds = foldl (\<lambda>n d. b * n + d) 0 ds"

text \<open>The shortest numeral of a number, \<open>[0]\<close> for zero.\<close>

function numeral_digits :: "nat \<Rightarrow> nat \<Rightarrow> nat list" where
  "numeral_digits b n = (if n < b \<or> b < 2 then [n] else numeral_digits b (n div b) @ [n mod b])"
  by pat_completeness auto

termination numeral_digits
  by (relation "measure snd") auto

declare numeral_digits.simps [simp del]

text \<open>The last \<open>k\<close> digits of a number.\<close>

primrec padded_digits :: "nat \<Rightarrow> nat \<Rightarrow> nat \<Rightarrow> nat list" where
  "padded_digits b 0 n = []"
| "padded_digits b (Suc k) n = padded_digits b k (n div b) @ [n mod b]"

lemma digits_value_Nil [simp]: "digits_value b [] = 0"
  by (simp add: digits_value_def)

lemma digits_value_snoc [simp]: "digits_value b (ds @ [d]) = b * digits_value b ds + d"
  by (simp add: digits_value_def)

lemma digits_value_append:
  "digits_value b (xs @ ys) = digits_value b xs * b ^ length ys + digits_value b ys"
  by (induction ys rule: rev_induct) (simp_all add: algebra_simps flip: append_assoc)

lemma digits_value_Cons: "digits_value b (x # xs) = x * b ^ length xs + digits_value b xs"
  using digits_value_append [of b "[x]" xs] digits_value_snoc [of b "[]" x] by simp

lemma digits_value_less: "\<forall>d \<in> set ds. d < b \<Longrightarrow> digits_value b ds < b ^ length ds"
proof (induction ds rule: rev_induct)
  case (snoc d ds)
  then have "digits_value b ds + 1 \<le> b ^ length ds" by (simp add: Suc_le_eq)
  then have "b * (digits_value b ds + 1) \<le> b * b ^ length ds" by (rule mult_le_mono2)
  with snoc.prems show ?case by (simp add: algebra_simps)
qed simp

lemma numeral_digits_not_Nil [simp]: "numeral_digits b n \<noteq> []"
  by (subst numeral_digits.simps) simp

lemma numeral_digits_value: "2 \<le> b \<Longrightarrow> digits_value b (numeral_digits b n) = n"
proof (induction b n rule: numeral_digits.induct)
  case (1 b n)
  show ?case
    using 1 by (subst numeral_digits.simps) (auto simp: digits_value_Cons [of b n "[]"])
qed

lemma numeral_digits_less: "2 \<le> b \<Longrightarrow> d \<in> set (numeral_digits b n) \<Longrightarrow> d < b"
proof (induction b n rule: numeral_digits.induct)
  case (1 b n)
  from 1(3) show ?case
    by (subst (asm) numeral_digits.simps) (use 1(1,2) in \<open>auto split: if_splits\<close>)
qed

text \<open>No leading zero.\<close>

lemma numeral_digits_hd: "2 \<le> b \<Longrightarrow> n \<noteq> 0 \<Longrightarrow> hd (numeral_digits b n) \<noteq> 0"
proof (induction b n rule: numeral_digits.induct)
  case (1 b n)
  show ?case
    using 1 by (subst numeral_digits.simps) (auto simp: hd_append div_eq_0_iff)
qed

lemma numeral_digits_length:
  assumes "2 \<le> b" "n < b ^ k" "k \<noteq> 0"
  shows "length (numeral_digits b n) \<le> k"
  using assms
proof (induction b n arbitrary: k rule: numeral_digits.induct)
  case (1 b n)
  show ?case
  proof (cases "n < b")
    case True
    with 1(4) show ?thesis by (subst numeral_digits.simps) simp
  next
    case False
    then obtain j where k: "k = Suc j" "j \<noteq> 0" using 1(3,4) by (cases k; cases "k - 1") auto
    have "n div b < b ^ j" using 1(2,3) k by (simp add: div_less_iff_less_mult mult.commute)
    then have "length (numeral_digits b (n div b)) \<le> j" using 1(1) False 1(2) k by simp
    with False 1(2) k show ?thesis by (subst numeral_digits.simps) simp
  qed
qed

lemma length_padded [simp]: "length (padded_digits b k n) = k"
  by (induction k arbitrary: n) simp_all

lemma padded_less: "0 < b \<Longrightarrow> d \<in> set (padded_digits b k n) \<Longrightarrow> d < b"
  by (induction k arbitrary: n) auto

text \<open>Splitting off the low digits.\<close>

lemma numeral_digits_split:
  assumes "2 \<le> b" "n div b ^ k \<noteq> 0"
  shows "numeral_digits b n = numeral_digits b (n div b ^ k) @ padded_digits b k (n mod b ^ k)"
  using assms(2)
proof (induction k arbitrary: n)
  case (Suc k)
  have eq: "n div b ^ Suc k = n div b div b ^ k" by (simp add: div_mult2_eq)
  have "b \<le> n"
  proof (rule ccontr)
    assume "\<not> b \<le> n"
    then have "n div b = 0" by simp
    then show False using Suc.prems unfolding eq by simp
  qed
  then have "numeral_digits b n = numeral_digits b (n div b) @ [n mod b]"
    using assms(1) by (subst numeral_digits.simps) simp
  moreover have "numeral_digits b (n div b) =
      numeral_digits b (n div b ^ Suc k) @ padded_digits b k (n div b mod b ^ k)"
    unfolding eq using Suc.prems by (intro Suc.IH) (unfold eq)
  moreover have "padded_digits b k (n div b mod b ^ k) @ [n mod b] = padded_digits b (Suc k) (n mod b ^ Suc k)"
    using assms(1) by (simp add: mod_mult2_eq)
  ultimately show ?case by (metis append.assoc)
qed simp

section \<open>Chunks\<close>

text \<open>The value of a list of chunks, least significant first.\<close>

definition chunks_value :: "nat \<Rightarrow> nat list \<Rightarrow> nat" where
  "chunks_value B cs = foldr (\<lambda>c v. c + B * v) cs 0"

lemma chunks_value_simps [simp]:
  "chunks_value B [] = 0" "chunks_value B (c # cs) = c + B * chunks_value B cs"
  by (simp_all add: chunks_value_def)

lemma chunks_value_pos: "0 < c \<Longrightarrow> 0 < B \<Longrightarrow> 0 < chunks_value B (cs @ [c])"
  by (induction cs) auto

lemma numeral_digits_chunks:
  assumes "2 \<le> b" "0 < c" "\<forall>x \<in> set cs. x < b ^ k"
  shows "numeral_digits b (chunks_value (b ^ k) (cs @ [c])) =
    numeral_digits b c @ concat (map (padded_digits b k) (rev cs))"
  using assms(3)
proof (induction cs)
  case (Cons x cs)
  let ?v = "chunks_value (b ^ k) (cs @ [c])"
  have v: "0 < ?v" using assms(1,2) by (intro chunks_value_pos) auto
  have x: "x < b ^ k" using Cons.prems by simp
  moreover have "b ^ k \<noteq> 0" using assms(1) by simp
  ultimately have "(x + b ^ k * ?v) div b ^ k = ?v" "(x + b ^ k * ?v) mod b ^ k = x" by simp_all
  then show ?case
    using numeral_digits_split [OF assms(1), of "x + b ^ k * ?v" k] v Cons by simp
qed simp

section \<open>The number of decimal digits\<close>

text \<open>The bounds \<open>0.30102 < log10 2 < 0.30103\<close>, as inequalities between powers. The lower one
  follows from \<open>10^59 \<le> 2^196\<close>; the upper one from a chain of squarings in which the
  mantissa is rounded up to 13 digits.\<close>

lemma square_step:
  assumes "(2 :: nat) ^ a \<le> m * 10 ^ t" "m * m * 2 ^ r \<le> m' * 10 ^ k" "b = a + a + r" "t' = t + t + k"
  shows "(2 :: nat) ^ b \<le> m' * 10 ^ t'"
proof -
  have "(2 :: nat) ^ b = 2 ^ a * 2 ^ a * 2 ^ r" by (simp only: assms(3) power_add)
  also have "\<dots> \<le> (m * 10 ^ t) * (m * 10 ^ t) * 2 ^ r" using assms(1) by (intro mult_le_mono order_refl)
  also have "\<dots> = (m * m * 2 ^ r) * (10 ^ t * 10 ^ t)" by (simp only: ac_simps)
  also have "\<dots> \<le> (m' * 10 ^ k) * (10 ^ t * 10 ^ t)" by (rule mult_le_mono1 [OF assms(2)])
  also have "\<dots> = m' * 10 ^ t'" by (simp only: assms(4) power_add ac_simps)
  finally show ?thesis .
qed

lemma log2_upper: "(2 :: nat) ^ 100000 \<le> 10 ^ 30103"
proof -
  have s195: "(2 :: nat) ^ 195 \<le> 5021681388310 * 10 ^ 46" by simp
  have s390: "(2 :: nat) ^ 390 \<le> 2521728396570 * 10 ^ 105"
    by (rule square_step [OF s195, of 0 _ 13]; simp)
  have s781: "(2 :: nat) ^ 781 \<le> 1271822821214 * 10 ^ 223"
    by (rule square_step [OF s390, of 1 _ 13]; simp)
  have s1562: "(2 :: nat) ^ 1562 \<le> 1617533288561 * 10 ^ 458"
    by (rule square_step [OF s781, of 0 _ 12]; simp)
  have s3125: "(2 :: nat) ^ 3125 \<le> 5232827879206 * 10 ^ 928"
    by (rule square_step [OF s1562, of 1 _ 12]; simp)
  have s6250: "(2 :: nat) ^ 6250 \<le> 2738248761340 * 10 ^ 1869"
    by (rule square_step [OF s3125, of 0 _ 13]; simp)
  have s12500: "(2 :: nat) ^ 12500 \<le> 7498006278981 * 10 ^ 3750"
    by (rule square_step [OF s6250, of 0 _ 12]; simp)
  have s25000: "(2 :: nat) ^ 25000 \<le> 5622009815964 * 10 ^ 7513"
    by (rule square_step [OF s12500, of 0 _ 13]; simp)
  have s50000: "(2 :: nat) ^ 50000 \<le> 3160699437080 * 10 ^ 15039"
    by (rule square_step [OF s25000, of 0 _ 13]; simp)
  have s100000: "(2 :: nat) ^ 100000 \<le> 9990020931558 * 10 ^ 30090"
    by (rule square_step [OF s50000, of 0 _ 12]; simp)
  note s100000
  also have "(9990020931558 :: nat) * 10 ^ 30090 \<le> 10 ^ 13 * 10 ^ 30090" by (intro mult_le_mono1) simp
  also have "(10 :: nat) ^ 13 * 10 ^ 30090 = 10 ^ 30103" by (simp only: power_add [symmetric] arith_simps)
  finally show ?thesis .
qed

lemma log2_lower: "(10 :: nat) ^ 30102 \<le> 2 ^ 100000"
proof -
  have "(10 :: nat) ^ 59 \<le> 2 ^ 196" by simp
  then have "((10 :: nat) ^ 59) ^ 510 \<le> (2 ^ 196) ^ 510" by (rule power_mono) (rule zero_le)
  moreover have "(10 :: nat) ^ 12 \<le> 2 ^ 40" by simp
  ultimately have "((10 :: nat) ^ 59) ^ 510 * 10 ^ 12 \<le> (2 ^ 196) ^ 510 * 2 ^ 40" by (rule mult_le_mono)
  then show ?thesis by (simp only: power_mult [symmetric] power_add [symmetric] arith_simps)
qed

lemma power_frac_lower:
  assumes "(10 :: nat) ^ p \<le> 2 ^ q" "0 < q"
  shows "(10 :: nat) ^ (x * p div q) \<le> 2 ^ x"
proof (rule ccontr)
  assume "\<not> ?thesis"
  then have "((2 :: nat) ^ x) ^ q < (10 ^ (x * p div q)) ^ q" using assms(2) by (intro power_strict_mono) simp_all
  also have "\<dots> = 10 ^ (x * p div q * q)" by (rule power_mult [symmetric])
  also have "\<dots> \<le> 10 ^ (p * x)" by (rule power_increasing) (simp_all add: mult.commute)
  also have "\<dots> \<le> (2 ^ q) ^ x" unfolding power_mult using assms(1) by (rule power_mono) simp
  also have "\<dots> = (2 ^ x) ^ q" by (simp only: power_mult [symmetric] mult.commute)
  finally show False by simp
qed

lemma power_frac_upper:
  assumes "(2 :: nat) ^ q \<le> 10 ^ p" "0 < q"
  shows "(2 :: nat) ^ x \<le> 10 ^ ((x * p + (q - 1)) div q)"
proof (rule ccontr)
  let ?c = "(x * p + (q - 1)) div q"
  have "x * p + (q - 1) < ?c * q + q"
    using assms(2) dividend_less_div_times [of q "x * p + (q - 1)"] by simp
  then have c: "p * x \<le> ?c * q" using assms(2) unfolding mult.commute [of p x] by linarith
  assume "\<not> ?thesis"
  then have "((10 :: nat) ^ ?c) ^ q < (2 ^ x) ^ q" using assms(2) by (intro power_strict_mono) simp_all
  also have "\<dots> = (2 ^ q) ^ x" by (simp only: power_mult [symmetric] mult.commute)
  also have "\<dots> \<le> (10 ^ p) ^ x" using assms(1) by (rule power_mono) simp
  also have "\<dots> = 10 ^ (p * x)" by (rule power_mult [symmetric])
  also have "\<dots> \<le> 10 ^ (?c * q)" using c by (rule power_increasing) simp
  also have "\<dots> = (10 ^ ?c) ^ q" by (rule power_mult)
  finally show False by simp
qed

lemma split_product:
  assumes "0 < q"
  shows "b div q * p + (b mod q * p + r) div q = (b * p + r) div (q :: nat)"
proof -
  have "b * p + r = (b mod q * p + r) + q * (b div q * p)"
    using div_mult_mod_eq [of b q] by (metis (no_types, lifting) add.commute add.left_commute distrib_right mult.assoc mult.commute)
  then show ?thesis using assms by (simp only: div_mult_self2 neq0_conv)
qed

text \<open>The two counts of the code enclose the number of digits.\<close>

lemma length_numeral_digits_bounds:
  assumes "2 ^ (bits - 1) \<le> n" "n < 2 ^ bits"
  shows "(bits - 1) div 100000 * 30102 + (bits - 1) mod 100000 * 30102 div 100000 + 1 \<le> length (numeral_digits 10 n)"
    "length (numeral_digits 10 n) \<le> bits div 100000 * 30103 + (bits mod 100000 * 30103 + 99999) div 100000"
proof -
  let ?ds = "numeral_digits 10 n"
  have "(10 :: nat) ^ ((bits - 1) * 30102 div 100000) \<le> n"
    using power_frac_lower [OF log2_lower, of "bits - 1"] assms(1) by (rule order_trans) simp
  also have "n < 10 ^ length ?ds"
    using digits_value_less [of ?ds 10] numeral_digits_value [of 10 n] numeral_digits_less [of 10 _ n] by simp
  finally have "(bits - 1) * 30102 div 100000 < length ?ds" by (rule power_less_imp_less_exp [rotated]) simp
  then show "(bits - 1) div 100000 * 30102 + (bits - 1) mod 100000 * 30102 div 100000 + 1 \<le> length ?ds"
    using split_product [of 100000 "bits - 1" 30102 0] by simp
  have n: "n \<noteq> 0" using assms(1) by (metis not_one_le_zero one_le_power one_le_numeral order_trans)
  let ?u = "(bits * 30103 + 99999) div 100000"
  have u: "n < 10 ^ ?u"
    using power_frac_upper [OF log2_upper, of bits] assms(2) by simp
  have "?u \<noteq> 0" using u n by (metis power_0 less_one)
  from numeral_digits_length [OF _ u this] have "length ?ds \<le> ?u" by simp
  then show "length ?ds \<le> bits div 100000 * 30103 + (bits mod 100000 * 30103 + 99999) div 100000"
    using split_product [of 100000 bits 30103 99999] by simp
qed

end
