(* ===== verification/BigInt_Conversion.thy ===== *)
theory BigInt_Conversion
  imports BigInt_Combinatorics Numerals "HOL-Library.Char_ord"
begin

text \<open>
  Text conversions, \<^verbatim>\<open>src/core/bigint/conversion.c\<close>: counting decimal digits,
  parsing and printing in base 10 by chunks of 19 digits, and parsing and printing in the
  bases 2 to 36 by the largest chunks that fit a limb.

  A C string is the list of its bytes before the terminating NUL (\<open>string\<close>), so
  \<^verbatim>\<open>strlen\<close> is \<open>length\<close>. A \<^verbatim>\<open>char *\<close> result is an option, \<open>None\<close> for
  \<^verbatim>\<open>NULL\<close>. The buffers the code sizes beforehand (\<^verbatim>\<open>chunks\<close>,
  \<^verbatim>\<open>string\<close>, \<^verbatim>\<open>text\<close>) grow as lists in the model; that what is written
  fits them is asserted (\<open>c_assert\<close>, or the room left as fuel).
\<close>

section \<open>Counting digits\<close>

function count_digits :: "u64 \<Rightarrow> nat \<Rightarrow> nat" where
  "count_digits leading count =
    (if leading \<ge> 10 then count_digits (leading div 10) (count + 1) else count)"
  by pat_completeness auto

termination count_digits
  by (relation "measure (unat \<circ> fst)") (auto simp: unat_div_distrib word_le_nat_alt)

text \<open>The chunks peeled off while more than one limb is left. The fuel is the number of
  bits.\<close>

primrec peel_digits_loop :: "nat \<Rightarrow> BigInt \<Rightarrow> nat \<Rightarrow> (BigInt \<times> nat) option rt" where
  "peel_digits_loop 0 scratch count = out_of_fuel None"
| "peel_digits_loop (Suc fuel) scratch count =
    (if bsize scratch > 1 then do {
       go \<leftarrow> numforge_budget_check;
       if \<not> go then State_Monad.return None
       else do {
         (_, scratch) \<leftarrow> bigint_divide_by_uint64 scratch 10000000000000000000;
         peel_digits_loop fuel scratch (count + 19)
       }
     } else State_Monad.return (Some (scratch, count)))"

definition bigint_decimal_digits :: "BigInt \<Rightarrow> nat \<Rightarrow> (BigIntStatus \<times> nat) rt" where
  "bigint_decimal_digits value digits = do {
     go \<leftarrow> numforge_budget_check;
     if \<not> go then State_Monad.return (BIGINT_OUT_OF_MEMORY, digits)
     else if bsize value \<le> 1 then
       (let leading = (if bsize value = 0 then 0 else limbs value ! 0)
        in State_Monad.return (BIGINT_OK, count_digits leading 1))
     else
       (let bits = bigint_bit_length value;
            lower = (bits - 1) div 100000 * 30102 + (bits - 1) mod 100000 * 30102 div 100000 + 1;
            upper = bits div 100000 * 30103 + (bits mod 100000 * 30103 + 99999) div 100000
        in if lower = upper then State_Monad.return (BIGINT_OK, lower)
           else do {
             (status, scratch) \<leftarrow> bigint_copy bigint_init value;
             if status \<noteq> BIGINT_OK then State_Monad.return (status, digits)
             else do {
               peeled \<leftarrow> peel_digits_loop (64 * bsize scratch) scratch 0;
               case peeled of
                 None \<Rightarrow> State_Monad.return (BIGINT_OUT_OF_MEMORY, digits)
               | Some (scratch, count) \<Rightarrow>
                   (let leading = (if bsize scratch = 0 then 0 else limbs scratch ! 0)
                    in State_Monad.return (BIGINT_OK, count_digits leading (count + 1)))
             }
           })
   }"

section \<open>Decimal text\<close>

definition decimal_chunk_step :: "string \<Rightarrow> nat \<Rightarrow> nat \<Rightarrow> u64 \<times> u64 \<Rightarrow> u64 \<times> u64" where
  "decimal_chunk_step text i j acc =
    (let (chunk_value, chunk_multiplier) = acc
     in (chunk_value * 10 + word_of_int (of_char (text ! (i + j)) - 48), chunk_multiplier * 10))"

function set_string_loop :: "string \<Rightarrow> nat \<Rightarrow> BigInt \<Rightarrow> (BigIntStatus \<times> BigInt) rt" where
  "set_string_loop text i parsed =
    (if i < length text then do {
       go \<leftarrow> numforge_budget_check;
       if \<not> go then State_Monad.return (BIGINT_OUT_OF_MEMORY, parsed)
       else
         (let chunk_len = (if length text - i > 19 then 19 else length text - i);
              (chunk_value, chunk_multiplier) = fold (decimal_chunk_step text i) [0..<chunk_len] (0, 1)
          in do {
            (status, parsed) \<leftarrow> bigint_multiply_by_uint64 parsed chunk_multiplier;
            (status, parsed) \<leftarrow> (if status = BIGINT_OK then bigint_add_uint64 parsed chunk_value
                                else State_Monad.return (status, parsed));
            if status \<noteq> BIGINT_OK then State_Monad.return (status, parsed)
            else set_string_loop text (i + chunk_len) parsed
          })
     } else State_Monad.return (BIGINT_OK, parsed))"
  by pat_completeness auto

termination set_string_loop
  by (relation "measure (\<lambda>(text, i, parsed). length text - i)") auto

definition bigint_set_string :: "BigInt \<Rightarrow> string \<Rightarrow> (BigIntStatus \<times> BigInt) rt" where
  "bigint_set_string value text =
    (let len = length text
     in if len = 0 then State_Monad.return (BIGINT_INVALID_ARGUMENT, value)
        else
          (let signed = (text ! 0 = CHR ''-'' \<or> text ! 0 = CHR ''+'');
               negative = (signed \<and> text ! 0 = CHR ''-'');
               start = (if signed then 1 else 0)
           in if start \<ge> len then State_Monad.return (BIGINT_INVALID_ARGUMENT, value)
              else if list_ex (\<lambda>i. text ! i < CHR ''0'' \<or> text ! i > CHR ''9'') [start..<len]
              then State_Monad.return (BIGINT_INVALID_ARGUMENT, value)
              else do {
                (status, parsed) \<leftarrow> set_string_loop text start bigint_init;
                State_Monad.return
                  (if status \<noteq> BIGINT_OK then (status, value)
                   else (BIGINT_OK, bigint_normalize (parsed\<lparr>is_negative := negative\<rparr>)))
              }))"

text \<open>The chunks of a number, least significant first. The array \<^verbatim>\<open>chunks\<close> has
  \<^verbatim>\<open>chunks_capacity\<close> elements; the fuel is the room left in it, so a write beyond
  its end is a stuck run.\<close>

primrec decimal_chunks_loop :: "nat \<Rightarrow> BigInt \<Rightarrow> u64 list \<Rightarrow> u64 list option rt" where
  "decimal_chunks_loop 0 scratch chunks =
    (if bsize scratch > 0 then out_of_fuel None else State_Monad.return (Some chunks))"
| "decimal_chunks_loop (Suc space) scratch chunks =
    (if bsize scratch > 0 then do {
       go \<leftarrow> numforge_budget_check;
       if \<not> go then State_Monad.return None
       else do {
         (chunk, scratch) \<leftarrow> bigint_divide_by_uint64 scratch 10000000000000000000;
         decimal_chunks_loop space scratch (chunks @ [chunk])
       }
     } else State_Monad.return (Some chunks))"

text \<open>\<^verbatim>\<open>(char)('0' + limb % 10)\<close>\<close>

definition decimal_digit :: "u64 \<Rightarrow> char" where
  "decimal_digit limb = char_of (48 + unat (limb mod 10))"

text \<open>The do-while loop that fills \<^verbatim>\<open>buffer\<close>, least significant digit first.\<close>

function leading_digits :: "u64 \<Rightarrow> string \<Rightarrow> string" where
  "leading_digits limb buffer =
    (let buffer = buffer @ [decimal_digit limb]; limb = limb div 10
     in if limb > 0 then leading_digits limb buffer else buffer)"
  by pat_completeness auto

termination leading_digits
  by (relation "measure (unat \<circ> fst)")
    (auto simp: unat_div_distrib word_less_nat_alt intro!: div_less_dividend Nat.gr0I)

declare count_digits.simps [simp del] set_string_loop.simps [simp del] leading_digits.simps [simp del]

text \<open>The loop that writes the last \<open>n\<close> digits of a chunk from right to left.\<close>

primrec write_chunk :: "nat \<Rightarrow> u64 \<Rightarrow> string" where
  "write_chunk 0 limb = []"
| "write_chunk (Suc j) limb = write_chunk j (limb div 10) @ [decimal_digit limb]"

primrec write_chunks :: "nat \<Rightarrow> u64 list \<Rightarrow> string \<Rightarrow> string" where
  "write_chunks 0 chunks text = text"
| "write_chunks (Suc i) chunks text = write_chunks i chunks (text @ write_chunk 19 (chunks ! i))"

definition bigint_to_string_profile_impl :: "BigInt \<Rightarrow> string option rt" where
  "bigint_to_string_profile_impl value =
    (if bsize value = 0 then do {
       granted \<leftarrow> numforge_malloc 2;
       State_Monad.return (if \<not> granted then None else Some ''0'')
     } else do {
       (status, scratch) \<leftarrow> bigint_copy bigint_init value;
       if status \<noteq> BIGINT_OK then State_Monad.return None
       else case Option.bind (bigint_size_mul (bsize value) 64) (\<lambda>bits_estimate.
                 Option.bind (bigint_size_add bits_estimate 62) (\<lambda>rounded.
                 Option.bind (bigint_size_add (rounded div 63) 1) (\<lambda>chunks_capacity.
                 Option.bind (bigint_size_mul chunks_capacity 8) (\<lambda>chunks_bytes.
                   Some (chunks_capacity, chunks_bytes))))) of
         None \<Rightarrow> State_Monad.return None
       | Some (chunks_capacity, chunks_bytes) \<Rightarrow> do {
           granted \<leftarrow> numforge_malloc chunks_bytes;
           if \<not> granted then State_Monad.return None
           else do {
             result \<leftarrow> decimal_chunks_loop chunks_capacity scratch [];
             case result of
               None \<Rightarrow> State_Monad.return None
             | Some chunks \<Rightarrow>
                 (case Option.bind (bigint_size_mul (length chunks) 19) (\<lambda>chunk_digits.
                       Option.bind (bigint_size_add chunk_digits 2) (\<lambda>text_capacity.
                         if is_negative value then bigint_size_add text_capacity 1 else Some text_capacity)) of
                    None \<Rightarrow> State_Monad.return None
                  | Some text_capacity \<Rightarrow> do {
                      granted \<leftarrow> numforge_malloc text_capacity;
                      if \<not> granted then State_Monad.return None
                      else do {
                        let text = (if is_negative value then ''-'' else []);
                        let buffer = leading_digits (chunks ! (length chunks - 1)) [];
                        c_assert (length buffer \<le> 20);
                        let text = write_chunks (length chunks - 1) chunks (text @ rev buffer);
                        c_assert (length text < text_capacity);
                        State_Monad.return (Some text)
                      }
                    })
           }
         }
     })"

definition bigint_to_string :: "BigInt \<Rightarrow> string option rt" where
  "bigint_to_string value = bigint_to_string_profile_impl value"

section \<open>Text in other bases\<close>

text \<open>The largest power of the base that fits a limb, and its exponent; at most 63 steps
  are made, for base 2.\<close>

primrec radix_chunk_loop :: "nat \<Rightarrow> u64 \<Rightarrow> u64 \<Rightarrow> nat \<Rightarrow> (u64 \<times> nat) rt" where
  "radix_chunk_loop 0 base multiplier digits = out_of_fuel (multiplier, digits)"
| "radix_chunk_loop (Suc fuel) base multiplier digits =
    (if multiplier \<le> UINT64_MAX div base
     then radix_chunk_loop fuel base (multiplier * base) (digits + 1)
     else State_Monad.return (multiplier, digits))"

definition bigint_radix_chunk :: "nat \<Rightarrow> (u64 \<times> nat) rt" where
  "bigint_radix_chunk base = radix_chunk_loop 64 (of_nat base) 1 0"

definition bigint_ascii_digit :: "char \<Rightarrow> nat" where
  "bigint_ascii_digit byte =
    (if byte \<ge> CHR ''0'' \<and> byte \<le> CHR ''9'' then of_char byte - of_char CHR ''0''
     else if byte \<ge> CHR ''a'' \<and> byte \<le> CHR ''z'' then of_char byte - of_char CHR ''a'' + 10
     else if byte \<ge> CHR ''A'' \<and> byte \<le> CHR ''Z'' then of_char byte - of_char CHR ''A'' + 10
     else 36)"

definition base_chunk_step :: "string \<Rightarrow> nat \<Rightarrow> nat \<Rightarrow> nat \<Rightarrow> u64 \<times> u64 \<Rightarrow> u64 \<times> u64" where
  "base_chunk_step text base start i acc =
    (let (chunk, multiplier) = acc
     in (chunk * of_nat base + of_nat (bigint_ascii_digit (text ! (start + i))), multiplier * of_nat base))"

text \<open>The fuel bounds the number of chunks, at most one per digit.\<close>

primrec set_string_base_loop :: "nat \<Rightarrow> string \<Rightarrow> nat \<Rightarrow> nat \<Rightarrow> nat \<Rightarrow> BigInt \<Rightarrow> (BigIntStatus \<times> BigInt) rt" where
  "set_string_base_loop 0 text base chunk_digits start parsed = out_of_fuel (BIGINT_OK, parsed)"
| "set_string_base_loop (Suc fuel) text base chunk_digits start parsed =
    (if start < length text then
       (let count = (if length text - start < chunk_digits then length text - start else chunk_digits)
        in do {
          go \<leftarrow> numforge_budget_check;
          if \<not> go then State_Monad.return (BIGINT_OUT_OF_MEMORY, parsed)
          else
            (let (chunk, multiplier) = fold (base_chunk_step text base start) [0..<count] (0, 1)
             in do {
               (status, parsed) \<leftarrow> bigint_multiply_by_uint64 parsed multiplier;
               (status, parsed) \<leftarrow> (if status = BIGINT_OK then bigint_add_uint64 parsed chunk
                                   else State_Monad.return (status, parsed));
               if status \<noteq> BIGINT_OK then State_Monad.return (status, parsed)
               else set_string_base_loop fuel text base chunk_digits (start + count) parsed
             })
        })
     else State_Monad.return (BIGINT_OK, parsed))"

definition bigint_set_string_base :: "BigInt \<Rightarrow> string \<Rightarrow> nat \<Rightarrow> (BigIntStatus \<times> BigInt) rt" where
  "bigint_set_string_base value text base =
    (if base < 2 \<or> base > 36 then State_Monad.return (BIGINT_INVALID_ARGUMENT, value)
     else if base = 10 then bigint_set_string value text
     else
       (let len = length text;
            negative = (text \<noteq> [] \<and> text ! 0 = CHR ''-'');
            start = (if text \<noteq> [] \<and> text ! 0 = CHR ''+'' \<or> negative then 1 else 0)
        in if start \<ge> len then State_Monad.return (BIGINT_INVALID_ARGUMENT, value)
           else if list_ex (\<lambda>i. bigint_ascii_digit (text ! i) \<ge> base) [start..<len]
           then State_Monad.return (BIGINT_INVALID_ARGUMENT, value)
           else do {
             (_, chunk_digits) \<leftarrow> bigint_radix_chunk base;
             (status, parsed) \<leftarrow> set_string_base_loop (Suc len) text base chunk_digits start bigint_init;
             State_Monad.return
               (if status = BIGINT_OK
                then (status, fst (bigint_commit value (bigint_normalize (parsed\<lparr>is_negative := negative\<rparr>))))
                else (status, value))
           }))"

text \<open>The inner loop writes the digits of one chunk, least significant first: all
  \<^verbatim>\<open>chunk_digits\<close> of them while a \<open>rest\<close> is left, else up to the leading
  digit.\<close>

primrec radix_digits_loop ::
  "nat \<Rightarrow> string \<Rightarrow> u64 \<Rightarrow> nat \<Rightarrow> bool \<Rightarrow> u64 \<Rightarrow> nat \<Rightarrow> string \<Rightarrow> string rt" where
  "radix_digits_loop 0 alphabet base chunk_digits rest chunk written text = out_of_fuel text"
| "radix_digits_loop (Suc fuel) alphabet base chunk_digits rest chunk written text =
    (let text = text @ [alphabet ! unat (chunk mod base)];
         chunk = chunk div base;
         written = written + 1
     in if chunk \<noteq> 0 \<or> rest \<and> written < chunk_digits
        then radix_digits_loop fuel alphabet base chunk_digits rest chunk written text
        else State_Monad.return text)"

primrec radix_chunks_loop ::
  "nat \<Rightarrow> string \<Rightarrow> u64 \<Rightarrow> u64 \<Rightarrow> nat \<Rightarrow> BigInt \<Rightarrow> string \<Rightarrow> (BigIntStatus \<times> string) rt" where
  "radix_chunks_loop 0 alphabet base divisor chunk_digits scratch text = out_of_fuel (BIGINT_OK, text)"
| "radix_chunks_loop (Suc fuel) alphabet base divisor chunk_digits scratch text = do {
     go \<leftarrow> numforge_budget_check;
     if \<not> go then State_Monad.return (BIGINT_OUT_OF_MEMORY, text)
     else do {
       (chunk, scratch) \<leftarrow> bigint_divide_by_uint64 scratch divisor;
       text \<leftarrow> radix_digits_loop 64 alphabet base chunk_digits (bsize scratch \<noteq> 0) chunk 0 text;
       if bsize scratch \<noteq> 0 then radix_chunks_loop fuel alphabet base divisor chunk_digits scratch text
       else State_Monad.return (BIGINT_OK, text)
     }
   }"

definition swap_ends :: "nat \<Rightarrow> nat \<Rightarrow> string \<Rightarrow> string" where
  "swap_ends n i text = text[i := text ! (n - i - 1), n - i - 1 := text ! i]"

definition base_alphabet :: "bool \<Rightarrow> string" where
  "base_alphabet uppercase =
    (if uppercase then ''0123456789ABCDEFGHIJKLMNOPQRSTUVWXYZ''
     else ''0123456789abcdefghijklmnopqrstuvwxyz'')"

definition bigint_to_string_base ::
  "BigInt \<Rightarrow> nat \<Rightarrow> bool \<Rightarrow> string option \<Rightarrow> (BigIntStatus \<times> string option) rt" where
  "bigint_to_string_base value base uppercase result =
    (if base < 2 \<or> base > 36 then State_Monad.return (BIGINT_INVALID_ARGUMENT, result)
     else if base = 10 then do {
       text \<leftarrow> bigint_to_string value;
       State_Monad.return (if text = None then (BIGINT_OUT_OF_MEMORY, result) else (BIGINT_OK, text))
     }
     else case Option.bind (bigint_size_mul (bsize value) 64) (\<lambda>bits. bigint_size_add bits 3) of
            None \<Rightarrow> State_Monad.return (BIGINT_VALUE_TOO_LARGE, result)
          | Some text_capacity \<Rightarrow> do {
              granted \<leftarrow> numforge_malloc text_capacity;
              if \<not> granted then State_Monad.return (BIGINT_OUT_OF_MEMORY, result)
              else do {
                (status, scratch) \<leftarrow> bigint_copy bigint_init value;
                if status \<noteq> BIGINT_OK then State_Monad.return (status, result)
                else do {
                  (divisor, chunk_digits) \<leftarrow> bigint_radix_chunk base;
                  (status, text) \<leftarrow> radix_chunks_loop (64 * bsize scratch + 1) (base_alphabet uppercase)
                                     (of_nat base) divisor chunk_digits scratch [];
                  if status \<noteq> BIGINT_OK then State_Monad.return (status, result)
                  else do {
                    let text = (if is_negative value then text @ ''-'' else text);
                    let text = fold (swap_ends (length text)) [0..<length text div 2] text;
                    c_assert (length text < text_capacity);
                    State_Monad.return (BIGINT_OK, Some text)
                  }
                }
              }
            })"

section \<open>Digits and chunks of digits\<close>

text \<open>What a text denotes in a base: a sign, and digits in both cases of the alphabet.\<close>

definition numeral_text :: "string \<Rightarrow> bool \<times> string" where
  "numeral_text text = (case text of [] \<Rightarrow> (False, [])
     | c # cs \<Rightarrow> if c = CHR ''-'' then (True, cs) else if c = CHR ''+'' then (False, cs) else (False, text))"

definition is_numeral :: "nat \<Rightarrow> string \<Rightarrow> bool" where
  "is_numeral b text \<longleftrightarrow> snd (numeral_text text) \<noteq> [] \<and>
     list_all (\<lambda>c. bigint_ascii_digit c < b) (snd (numeral_text text))"

definition numeral_mag :: "nat \<Rightarrow> string \<Rightarrow> nat" where
  "numeral_mag b text = digits_value b (map bigint_ascii_digit (snd (numeral_text text)))"

definition numeral_value :: "nat \<Rightarrow> string \<Rightarrow> int" where
  "numeral_value b text =
     (if fst (numeral_text text) then - int (numeral_mag b text) else int (numeral_mag b text))"

lemma decimal_char_iff: "\<not> (c < CHR ''0'' \<or> c > CHR ''9'') \<longleftrightarrow> bigint_ascii_digit c < 10"
  by (auto simp: bigint_ascii_digit_def less_char_def less_eq_char_def)

lemma decimal_char_value:
  "bigint_ascii_digit c < 10 \<Longrightarrow> word_of_int (of_char c) - 48 = (of_nat (bigint_ascii_digit c) :: u64)"
  using of_nat_of_char [of c, where ?'a = int, symmetric]
  by (auto simp: bigint_ascii_digit_def less_char_def less_eq_char_def split: if_splits simp del: of_nat_of_char)

lemma horner_fold:
  assumes "\<And>j x y. j < n \<Longrightarrow> step j (x, y) = (x * of_nat b + of_nat (d j), y * of_nat b)"
  shows "fold step [0..<n] (0 :: u64, 1 :: u64) = (of_nat (digits_value b (map d [0..<n])), of_nat (b ^ n))"
  using assms
proof (induction n)
  case (Suc n)
  then have "fold step [0..<n] (0, 1) = (of_nat (digits_value b (map d [0..<n])), of_nat (b ^ n))" by simp
  with Suc.prems [of n] show ?case by (simp add: mult.commute)
qed simp

lemma unat_of_nat_LB: "n < LB \<Longrightarrow> unat (of_nat n :: u64) = n"
  by (simp add: unat_of_nat LB_def)

lemma holds_nat_limbs: "holds_nat x v \<Longrightarrow> v < LB ^ (BIGINT_MAX_LIMBS - 1) \<Longrightarrow> Suc (bsize x) \<le> BIGINT_MAX_LIMBS"
  using holds_nat_bsize [of x v "BIGINT_MAX_LIMBS - 1"] by (simp add: max_limbs_numeral)

lemma holds_nat_multiply0:
  assumes t: "holds_nat t x" and m: "m \<noteq> 0"
    and Q: "\<And>st t'. outcome u (x * unat m < LB ^ (BIGINT_MAX_LIMBS - 1)) st (holds_nat t' (x * unat m)) True \<Longrightarrow> Q (st, t')"
  shows "rspec u (bigint_multiply_by_uint64 t m) Q"
proof (cases "x = 0")
  case True
  then have "limbs t = []" using holds_natD(7) [OF t] by simp
  then show ?thesis using t True by (auto simp: bigint_multiply_by_uint64_def intro!: triple_return Q)
next
  case False
  then show ?thesis by (intro holds_nat_multiply [OF t _ m] Q) simp_all
qed

lemma holds_nat_add_limb:
  assumes t: "holds_nat t x"
    and Q: "\<And>st t'. outcome u (x + unat n < LB ^ (BIGINT_MAX_LIMBS - 1)) st (holds_nat t' (x + unat n)) True \<Longrightarrow> Q (st, t')"
  shows "rspec u (bigint_add_uint64 t n) Q"
proof (rule add_uint64_wp, (use holds_natD [OF t] in \<open>simp_all add: bigint_wfD\<close>)[2], rule Q, erule outcome_mono)
  show "Suc (bsize t) \<le> BIGINT_MAX_LIMBS" if "x + unat n < LB ^ (BIGINT_MAX_LIMBS - 1)"
    using that by (intro holds_nat_limbs [OF t]) simp
qed (use holds_natD [OF t] in \<open>auto intro!: holds_natI simp: bigint_wf_iff\<close>)

text \<open>One chunk of digits read into the number: the multiplication and the addition shared
  by the two parsing loops.\<close>

lemma parse_chunk_wp:
  assumes p: "holds_nat parsed p" and b: "2 \<le> b" "b ^ n < LB"
    and v: "v < b ^ n" and eq: "m = of_nat (b ^ n)" "c = of_nat v"
    and step: "\<And>parsed'. holds_nat parsed' (p * b ^ n + v) \<Longrightarrow> rspec u (f parsed') Q"
    and fail: "\<And>st parsed'. resource_failure u (p * b ^ n + v < LB ^ (BIGINT_MAX_LIMBS - 1)) st \<Longrightarrow> Q (st, parsed')"
  shows "rspec u (do {
      (status, parsed) \<leftarrow> bigint_multiply_by_uint64 parsed m;
      (status, parsed) \<leftarrow> (if status = BIGINT_OK then bigint_add_uint64 parsed c
                          else State_Monad.return (status, parsed));
      if status \<noteq> BIGINT_OK then State_Monad.return (status, parsed) else f parsed }) Q"
proof -
  have m: "unat m = b ^ n" "m \<noteq> 0" using b(2) eq unat_of_nat_LB [of "b ^ n"] b(1) by auto
  have c: "unat c = v" using v b(2) eq by (simp add: unat_of_nat_LB)
  show ?thesis
  proof (rule triple_bind, rule holds_nat_multiply0 [OF p m(2)], rule triple_case_pair)
    fix st t
    assume o: "outcome u (p * unat m < LB ^ (BIGINT_MAX_LIMBS - 1)) st (holds_nat t (p * unat m)) True"
    show "rspec u (do {
        (status, parsed) \<leftarrow> (if st = BIGINT_OK then bigint_add_uint64 t c else State_Monad.return (st, t));
        if status \<noteq> BIGINT_OK then State_Monad.return (status, parsed) else f parsed }) Q"
    proof (cases "st = BIGINT_OK")
      case True
      then have t: "holds_nat t (p * b ^ n)" using o m by simp
      have "Q (st', t')" if "outcome u (p * b ^ n + unat c < LB ^ (BIGINT_MAX_LIMBS - 1)) st'
          (holds_nat t' (p * b ^ n + unat c)) True" "st' \<noteq> BIGINT_OK" for st' t'
        using that by (intro fail) (simp add: c)
      with True show ?thesis
        by (auto intro!: triple_bind holds_nat_add_limb [OF t] triple_return step simp: c)
    next
      case False
      then show ?thesis
        using o by (auto intro!: wp fail elim!: resource_failure_weaken simp: m)
    qed
  qed
qed

section \<open>Parsing\<close>

lemma outcome_failI:
  "resource_failure u X st \<Longrightarrow> (F \<Longrightarrow> X) \<Longrightarrow> bad \<Longrightarrow> outcome u F st good bad"
  by (auto simp: outcome_def resource_failure_def)

lemma upto_map_drop:
  "i + n \<le> length text \<Longrightarrow> map (\<lambda>j. f (text ! (i + j))) [0..<n] = map f (take n (drop i text))"
  by (rule nth_equalityI) auto

lemma digits_value_drop:
  assumes "i + n \<le> length text"
  shows "(p * b ^ n + digits_value b (map f (take n (drop i text)))) * b ^ (length text - (i + n)) +
      digits_value b (map f (drop (i + n) text)) =
    p * b ^ (length text - i) + digits_value b (map f (drop i text))"
proof -
  have "map f (drop i text) = map f (take n (drop i text)) @ map f (drop (i + n) text)"
    by (metis append_take_drop_id drop_drop add.commute map_append)
  moreover have "b ^ (length text - i) = b ^ n * b ^ (length text - (i + n))"
    using assms by (simp flip: power_add)
  ultimately show ?thesis by (simp add: digits_value_append algebra_simps)
qed

lemma set_string_loop_wp:
  assumes "holds_nat parsed p" "\<forall>c \<in> set (drop i str). bigint_ascii_digit c < 10"
    and Q: "\<And>st t. outcome u (p * 10 ^ (length str - i) + digits_value 10 (map bigint_ascii_digit (drop i str))
        < LB ^ (BIGINT_MAX_LIMBS - 1)) st
      (holds_nat t (p * 10 ^ (length str - i) + digits_value 10 (map bigint_ascii_digit (drop i str)))) True \<Longrightarrow> Q (st, t)"
  shows "rspec u (set_string_loop str i parsed) Q"
  using assms
proof (induction "length str - i" arbitrary: i parsed p rule: less_induct)
  case less
  show ?case
  proof (cases "i < length str")
    case True
    let ?n = "if length str - i > 19 then 19 else length str - i"
    let ?v = "digits_value 10 (map bigint_ascii_digit (take ?n (drop i str)))"
    have n: "i + ?n \<le> length str" using True by auto
    have lt: "(10 :: nat) ^ ?n < LB"
    proof -
      have "(10 :: nat) ^ ?n \<le> 10 ^ 19" by (intro power_increasing) auto
      then show ?thesis by (simp add: LB_def)
    qed
    have dig: "bigint_ascii_digit (str ! (i + j)) < 10" if "j < ?n" for j
    proof -
      have "str ! (i + j) = drop i str ! j" "j < length (drop i str)" using that n by auto
      then show ?thesis using less.prems(2) by (metis nth_mem)
    qed
    have chunk: "fold (decimal_chunk_step str i) [0..<?n] (0, 1) = (of_nat ?v, of_nat (10 ^ ?n))"
      unfolding upto_map_drop [OF n, symmetric]
      by (rule horner_fold) (simp add: decimal_chunk_step_def decimal_char_value dig del: of_nat_mult)
    have v: "?v < 10 ^ ?n"
    proof -
      have "\<forall>d \<in> set (map bigint_ascii_digit (take ?n (drop i str))). d < 10"
        using less.prems(2) by (auto dest: in_set_takeD)
      from digits_value_less [OF this] show ?thesis using n by (simp del: if_split)
    qed
    have le: "p * 10 ^ ?n + ?v \<le> p * 10 ^ (length str - i) + digits_value 10 (map bigint_ascii_digit (drop i str))"
      unfolding digits_value_drop [OF n, of p 10 bigint_ascii_digit, symmetric]
      by (rule trans_le_add1) simp
    show ?thesis
      unfolding set_string_loop.simps [of str i] if_P [OF True] Let_def chunk prod.case
    proof (intro triple_bind [of _ numforge_budget_check] budget_check_wp triple_if)
      fix go
      assume go: "u \<longrightarrow> go"
      show "rspec u (State_Monad.return (BIGINT_OUT_OF_MEMORY, parsed)) Q" if "\<not> go"
        using go that by (intro triple_return less.prems(3)) simp
      assume "\<not> \<not> go"
      then have go: go by simp
      show "rspec u (do {
          (status, parsed) \<leftarrow> bigint_multiply_by_uint64 parsed (of_nat (10 ^ ?n));
          (status, parsed) \<leftarrow> (if status = BIGINT_OK then bigint_add_uint64 parsed (of_nat ?v)
                              else State_Monad.return (status, parsed));
          if status \<noteq> BIGINT_OK then State_Monad.return (status, parsed)
          else set_string_loop str (i + ?n) parsed }) Q"
      proof (rule parse_chunk_wp [OF less.prems(1) _ lt v refl refl])
        fix parsed'
        assume h: "holds_nat parsed' (p * 10 ^ ?n + ?v)"
        show "rspec u (set_string_loop str (i + ?n) parsed') Q"
        proof (rule less.hyps [OF _ h])
          show "length str - (i + ?n) < length str - i" using True by auto
          show "\<forall>c \<in> set (drop (i + ?n) str). bigint_ascii_digit c < 10"
            using less.prems(2) set_drop_subset_set_drop [of i "i + ?n" str] by auto
        qed (unfold digits_value_drop [OF n], rule less.prems(3))
      qed (simp, rule less.prems(3), erule outcome_failI, erule order_le_less_trans [OF le], simp)
    qed
  next
    case False
    then show ?thesis
      using less.prems by (subst set_string_loop.simps) (auto intro!: triple_return)
  qed
qed

lemma list_ex_upt_drop:
  "list_ex (\<lambda>i. P (xs ! i)) [n..<length xs] \<longleftrightarrow> (\<exists>x \<in> set (drop n xs). P x)"
proof -
  have "map ((!) xs) [n..<length xs] = drop n xs" by (rule nth_equalityI) auto
  then have "set (drop n xs) = (!) xs ` {n..<length xs}" by (metis set_map set_upt)
  then show ?thesis by (auto simp: list_ex_iff)
qed

lemmas non_digit_drop = list_ex_upt_drop [where P = "\<lambda>c. c < CHR ''0'' \<or> c > CHR ''9''"]

lemma normalize_signed:
  assumes "holds_nat t n"
  shows "bigint_wf (bigint_normalize (t\<lparr>is_negative := b\<rparr>)) \<and>
    bigint_val (bigint_normalize (t\<lparr>is_negative := b\<rparr>)) = (if b then - int n else int n)"
proof
  show "bigint_wf (bigint_normalize (t\<lparr>is_negative := b\<rparr>))"
    using holds_natD(6) [OF assms] by (intro normalize_wf) (simp_all add: storage_ok_def)
qed (use holds_natD(3) [OF assms] in \<open>simp add: bigint_val_def [of "t\<lparr>is_negative := b\<rparr>"]\<close>)

lemma set_string_wp [wp]:
  assumes Q: "\<And>st v'. (if is_numeral 10 cs then result_ok u (numeral_mag 10 cs < LB ^ (BIGINT_MAX_LIMBS - 1)) v
      (numeral_value 10 cs) st v' else st = BIGINT_INVALID_ARGUMENT \<and> v' = v) \<Longrightarrow> Q (st, v')"
  shows "rspec u (bigint_set_string v cs) Q"
proof (cases "is_numeral 10 cs")
  case False
  have bad: "Q (BIGINT_INVALID_ARGUMENT, v)" using False by (intro Q) simp
  let ?n = "if cs ! 0 = CHR ''-'' \<or> cs ! 0 = CHR ''+'' then 1 else 0"
  have ex: "\<exists>c \<in> set (drop ?n cs). c < CHR ''0'' \<or> c > CHR ''9''" if "cs \<noteq> []" "?n < length cs"
  proof -
    have "drop ?n cs = snd (numeral_text cs)" using that by (cases cs) (auto simp: numeral_text_def)
    with False that obtain c where "c \<in> set (drop ?n cs)" "\<not> bigint_ascii_digit c < 10"
      by (auto simp: is_numeral_def list_all_iff)
    then show ?thesis using decimal_char_iff by blast
  qed
  show ?thesis
    unfolding bigint_set_string_def Let_def non_digit_drop length_0_conv
    by (intro triple_if triple_return bad; erule notE, rule ex; simp only: not_le not_False_eq_True)
next
  case True
  let ?n = "if cs ! 0 = CHR ''-'' \<or> cs ! 0 = CHR ''+'' then 1 else 0"
  have cs: "cs \<noteq> []" using True by (auto simp: is_numeral_def numeral_text_def)
  have d: "drop ?n cs = snd (numeral_text cs)"
    and s: "((cs ! 0 = CHR ''-'' \<or> cs ! 0 = CHR ''+'') \<and> cs ! 0 = CHR ''-'') = fst (numeral_text cs)"
    using cs by (cases cs; auto simp: numeral_text_def)+
  have dig: "\<forall>c \<in> set (drop ?n cs). bigint_ascii_digit c < 10"
    using True unfolding d by (simp add: is_numeral_def list_all_iff)
  then have ok: "\<not> (\<exists>c \<in> set (drop ?n cs). c < CHR ''0'' \<or> c > CHR ''9'')"
    using decimal_char_iff by blast
  have n: "\<not> length cs \<le> ?n"
  proof
    assume "length cs \<le> ?n"
    then have "drop ?n cs = []" by (rule drop_all)
    with True show False unfolding d by (simp add: is_numeral_def)
  qed
  show ?thesis
    unfolding bigint_set_string_def Let_def non_digit_drop s if_not_P [OF n] if_not_P [OF ok]
  proof (rule triple_if, use cs in simp, rule triple_bind, rule set_string_loop_wp [OF _ dig, where p = 0])
    show "holds_nat bigint_init 0" by (simp add: holds_nat_def)
    fix st t
    assume o: "outcome u (0 * 10 ^ (length cs - ?n) + digits_value 10 (map bigint_ascii_digit (drop ?n cs)) < LB ^ (BIGINT_MAX_LIMBS - 1)) st
      (holds_nat t (0 * 10 ^ (length cs - ?n) + digits_value 10 (map bigint_ascii_digit (drop ?n cs)))) True"
    then have o: "outcome u (numeral_mag 10 cs < LB ^ (BIGINT_MAX_LIMBS - 1)) st (holds_nat t (numeral_mag 10 cs)) True"
      unfolding d by (simp add: numeral_mag_def)
    show "rspec u (case (st, t) of (status, parsed) \<Rightarrow> State_Monad.return
      (if status \<noteq> BIGINT_OK then (status, v)
       else (BIGINT_OK, bigint_normalize (parsed\<lparr>is_negative := fst (numeral_text cs)\<rparr>)))) Q"
    proof (cases "st = BIGINT_OK")
      case ok: True
      then have "holds_nat t (numeral_mag 10 cs)" using o by simp
      from normalize_signed [OF this] show ?thesis
        using True ok by (auto intro!: triple_return Q simp: numeral_value_def)
    next
      case bad: False
      with o True show ?thesis by (auto intro!: triple_return Q)
    qed
  qed
qed

section \<open>Printing in base 10\<close>

text \<open>The specification: the sign and the shortest numeral of the magnitude.\<close>

definition digit_string :: "bool \<Rightarrow> nat list \<Rightarrow> string" where
  "digit_string uppercase ds = map (\<lambda>d. base_alphabet uppercase ! d) ds"

definition signed_string :: "bool \<Rightarrow> nat \<Rightarrow> int \<Rightarrow> string" where
  "signed_string uppercase b v =
     (if v < 0 then ''-'' else []) @ digit_string uppercase (numeral_digits b (nat \<bar>v\<bar>))"

lemma digit_string_append [simp]: "digit_string p (xs @ ys) = digit_string p xs @ digit_string p ys"
  by (simp add: digit_string_def)

lemma length_digit_string [simp]: "length (digit_string p xs) = length xs"
  by (simp add: digit_string_def)

lemma alphabet_tables:
  "list_all (\<lambda>p. list_all (\<lambda>d. char_of (48 + d) = base_alphabet p ! d) [0..<10]) [True, False]"
  "list_all (\<lambda>p. list_all (\<lambda>d. bigint_ascii_digit (base_alphabet p ! d) = d) [0..<36]) [True, False]"
  by code_simp+

lemma decimal_digit_alphabet: "decimal_digit x = base_alphabet p ! (unat x mod 10)"
proof -
  have "char_of (48 + d) = base_alphabet p ! d" if "d < 10" for d
    using alphabet_tables(1) that unfolding list_all_iff by (cases p) (auto simp del: set_upt simp add: atLeastLessThan_iff set_upt)
  then show ?thesis by (simp add: decimal_digit_def unat_mod_distrib)
qed

lemma leading_digits_eq:
  "leading_digits x buffer = buffer @ rev (digit_string p (numeral_digits 10 (unat x)))"
proof (induction x buffer rule: leading_digits.induct)
  case (1 x buffer)
  have "x div 10 > 0 \<longleftrightarrow> \<not> unat x < 10"
    by (simp add: word_less_nat_alt unat_div_distrib div_greater_zero_iff not_less)
  then show ?case
    using 1 by (subst leading_digits.simps, subst numeral_digits.simps)
      (auto simp: Let_def decimal_digit_alphabet [of _ p] digit_string_def unat_div_distrib)
qed

lemma write_chunk_eq: "write_chunk n x = digit_string p (padded_digits 10 n (unat x))"
  by (induction n arbitrary: x)
    (simp_all add: decimal_digit_alphabet [of _ p] digit_string_def unat_div_distrib)

lemma write_chunks_eq:
  "i \<le> length cs \<Longrightarrow> write_chunks i cs t = t @ concat (map (write_chunk 19) (rev (take i cs)))"
  by (induction i arbitrary: t) (simp_all add: take_Suc_conv_app_nth)

lemma decimal_chunks_loop_wp:
  assumes "storage_ok v" "canonical (limbs v)" "bigint_mag v < (10 ^ 19) ^ space"
    and Q: "\<And>r. (case r of None \<Rightarrow> \<not> u | Some ds \<Rightarrow> \<exists>new. ds = cs @ new \<and>
        chunks_value (10 ^ 19) (map unat new) = bigint_mag v \<and> (\<forall>x \<in> set new. unat x < 10 ^ 19) \<and>
        (if bigint_mag v = 0 then new = [] else new \<noteq> [] \<and> last new \<noteq> 0) \<and> length new \<le> space) \<Longrightarrow> Q r"
  shows "rspec u (decimal_chunks_loop space v cs) Q"
  using assms
proof (induction space arbitrary: v cs)
  case 0
  then have "limbs v = []" using mag_eq_0_iff [of "limbs v"] by simp
  then show ?case using 0 by (auto intro!: triple_return)
next
  case (Suc space)
  let ?d = "10000000000000000000 :: u64"
  have d: "unat ?d = 10 ^ 19" by simp
  have empty: "bsize v > 0 \<longleftrightarrow> bigint_mag v \<noteq> 0" using mag_eq_0_iff [of "limbs v"] Suc.prems(2) by simp
  show ?case
  proof (cases "bsize v > 0")
    case False
    then show ?thesis using empty by (auto intro!: triple_return Suc.prems(4))
  next
    case True
    show ?thesis
      unfolding decimal_chunks_loop.simps if_P [OF True]
    proof (intro triple_bind [of _ numforge_budget_check] budget_check_wp triple_if,
        use Suc.prems(4) in \<open>force intro: triple_return\<close>, rule triple_bind,
        rule divide_by_uint64_wp [OF Suc.prems(1)], simp, rule triple_case_pair)
      fix x :: u64 and v'
      assume v': "storage_ok v'" "canonical (limbs v')" "bigint_mag v' = bigint_mag v div unat ?d"
        and x: "unat x = bigint_mag v mod unat ?d"
      have eq: "bigint_mag v = unat x + 10 ^ 19 * bigint_mag v'"
        unfolding v'(3) x d by simp
      show "rspec u (decimal_chunks_loop space v' (cs @ [x])) Q"
      proof (rule Suc.IH [OF v'(1,2)])
        show "bigint_mag v' < (10 ^ 19) ^ space"
          using Suc.prems(3) unfolding v'(3) d by (simp add: div_less_iff_less_mult mult.commute)
        fix r
        assume r: "case r of None \<Rightarrow> \<not> u | Some ds \<Rightarrow> \<exists>new. ds = (cs @ [x]) @ new \<and>
          chunks_value (10 ^ 19) (map unat new) = bigint_mag v' \<and> (\<forall>x \<in> set new. unat x < 10 ^ 19) \<and>
          (if bigint_mag v' = 0 then new = [] else new \<noteq> [] \<and> last new \<noteq> 0) \<and> length new \<le> space"
        show "Q r"
        proof (cases r)
          case (Some ds)
          with r obtain new where n: "ds = (cs @ [x]) @ new" "chunks_value (10 ^ 19) (map unat new) = bigint_mag v'"
            "\<forall>x \<in> set new. unat x < 10 ^ 19" "if bigint_mag v' = 0 then new = [] else new \<noteq> [] \<and> last new \<noteq> 0" "length new \<le> space"
            by auto
          have last: "last (x # new) \<noteq> 0"
          proof (cases "new = []")
            case True
            then have "unat x \<noteq> 0" using eq n(2) \<open>bsize v > 0\<close> empty by simp
            then show ?thesis using True by (auto simp: unat_eq_0_iff)
          qed (use n(4) in \<open>simp split: if_splits\<close>)
          have "unat x < 10 ^ 19" unfolding x d by simp
          moreover have "chunks_value (10 ^ 19) (map unat (x # new)) = bigint_mag v" using n(2) eq by simp
          moreover have "bigint_mag v \<noteq> 0" using True empty by simp
          ultimately show ?thesis
            using Some n last by (intro Suc.prems(4)) (auto intro!: exI [of _ "x # new"])
        qed (use r in \<open>auto intro: Suc.prems(4)\<close>)
      qed
    qed
  qed
qed

lemma chunks_capacity_fits:
  assumes "n \<le> BIGINT_MAX_LIMBS"
  shows "n * 64 \<le> SIZE_MAX" "n * 64 + 62 \<le> SIZE_MAX" "(n * 64 + 62) div 63 + 1 \<le> SIZE_MAX"
    "((n * 64 + 62) div 63 + 1) * 8 \<le> SIZE_MAX" "((n * 64 + 62) div 63 + 1) * 19 + 3 \<le> SIZE_MAX"
proof -
  show *: "n * 64 + 62 \<le> SIZE_MAX" using assms unfolding max_limbs_numeral SIZE_MAX_def by simp
  then show "n * 64 \<le> SIZE_MAX" by simp
  have "(n * 64 + 62) div 63 \<le> SIZE_MAX div 63" using * by (rule div_le_mono)
  then show "(n * 64 + 62) div 63 + 1 \<le> SIZE_MAX" "((n * 64 + 62) div 63 + 1) * 8 \<le> SIZE_MAX"
    "((n * 64 + 62) div 63 + 1) * 19 + 3 \<le> SIZE_MAX"
    unfolding SIZE_MAX_def by simp_all
qed

lemma chunks_capacity_room:
  assumes "m < LB ^ n"
  shows "m < (10 ^ 19) ^ ((n * 64 + 62) div 63 + 1)"
proof -
  let ?c = "(n * 64 + 62) div 63 + 1"
  have "n * 64 \<le> 63 * ?c" by simp
  then have "(2 :: nat) ^ (n * 64) \<le> 2 ^ (63 * ?c)" by (rule power_increasing) simp
  also have "\<dots> = (2 ^ 63) ^ ?c" by (rule power_mult)
  also have "\<dots> \<le> (10 ^ 19) ^ ?c" by (rule power_mono) simp_all
  finally show ?thesis using assms unfolding LB_power by (simp only: mult.commute [of 64] order_less_le_trans)
qed

lemma to_string_wp [wp]:
  assumes v: "bigint_wf v"
    and Q: "\<And>r. (case r of None \<Rightarrow> \<not> u | Some t \<Rightarrow> t = signed_string p 10 (bigint_val v)) \<Longrightarrow> Q r"
  shows "rspec u (bigint_to_string v) Q"
proof (cases "bsize v = 0")
  case True
  have "digit_string p (numeral_digits 10 0) = ''0''"
    by (subst numeral_digits.simps) (simp add: digit_string_def base_alphabet_def)
  with True have "signed_string p 10 (bigint_val v) = ''0''"
    by (simp add: signed_string_def bigint_val_def)
  with True show ?thesis
    unfolding bigint_to_string_def bigint_to_string_profile_impl_def by (auto intro!: wp Q)
next
  case False
  have no: "Q None" if "\<not> u" using that by (intro Q) simp
  let ?n = "bsize v"
  note fits = chunks_capacity_fits [OF bigint_wfD(5) [OF v]]
  let ?c = "(?n * 64 + 62) div 63 + 1"
  have plan: "Option.bind (bigint_size_mul ?n 64) (\<lambda>bits_estimate.
                 Option.bind (bigint_size_add bits_estimate 62) (\<lambda>rounded.
                 Option.bind (bigint_size_add (rounded div 63) 1) (\<lambda>chunks_capacity.
                 Option.bind (bigint_size_mul chunks_capacity 8) (\<lambda>chunks_bytes.
                   Some (chunks_capacity, chunks_bytes))))) = Some (?c, ?c * 8)"
    using fits by simp
  have mag: "bigint_mag v \<noteq> 0" using False bigint_val_0_iff [OF v] by (auto simp: bigint_val_def split: if_splits)
  have size: "Option.bind (bigint_size_mul (length ds) 19) (\<lambda>chunk_digits.
      Option.bind (bigint_size_add chunk_digits 2) (\<lambda>text_capacity.
        if is_negative v then bigint_size_add text_capacity 1 else Some text_capacity)) =
      Some (length ds * 19 + 2 + of_bool (is_negative v))" if "length ds \<le> ?c" for ds :: "u64 list"
  proof -
    have "length ds * 19 + 3 \<le> ?c * 19 + 3" using that by simp
    then have "length ds * 19 + 3 \<le> SIZE_MAX" using fits(5) by linarith
    then show ?thesis by simp
  qed
  have shown: "write_chunks (length ds - 1) ds ((if is_negative v then ''-'' else []) @
        rev (leading_digits (ds ! (length ds - 1)) [])) = signed_string p 10 (bigint_val v)"
    "length (leading_digits (ds ! (length ds - 1)) []) \<le> 19"
    "length (signed_string p 10 (bigint_val v)) < length ds * 19 + 2 + of_bool (is_negative v)"
    if ds: "chunks_value (10 ^ 19) (map unat ds) = bigint_mag v" "\<forall>x \<in> set ds. unat x < 10 ^ 19"
      "ds \<noteq> []" "last ds \<noteq> 0" for ds
  proof -
    obtain cs c where s: "ds = cs @ [c]" "c \<noteq> 0" using ds(3,4) by (cases ds rule: rev_cases) auto
    have n: "numeral_digits 10 (bigint_mag v) =
        numeral_digits 10 (unat c) @ concat (map (padded_digits 10 19) (rev (map unat cs)))"
      using ds(1,2) s by (subst numeral_digits_chunks [symmetric]) (auto simp: unat_gt_0)
    have val: "signed_string p 10 (bigint_val v) = (if is_negative v then ''-'' else []) @
        digit_string p (numeral_digits 10 (bigint_mag v))"
      using bigint_val_neg_iff [OF v] by (simp add: signed_string_def)
    have wc: "write_chunk 19 = (\<lambda>x. digit_string p (padded_digits 10 19 (unat x)))"
      by (rule ext, rule write_chunk_eq)
    have cat: "digit_string p (concat (map (padded_digits 10 19) xs)) =
        concat (map (\<lambda>x. digit_string p (padded_digits 10 19 x)) xs)" for xs
      by (induction xs) (simp_all add: digit_string_def)
    show "write_chunks (length ds - 1) ds ((if is_negative v then ''-'' else []) @
        rev (leading_digits (ds ! (length ds - 1)) [])) = signed_string p 10 (bigint_val v)"
      unfolding val n digit_string_append cat
      by (simp add: s write_chunks_eq leading_digits_eq [of _ _ p] wc rev_map comp_def)
    have "length (numeral_digits 10 (unat c)) \<le> 19"
      using ds(2) s by (intro numeral_digits_length) simp_all
    then show "length (leading_digits (ds ! (length ds - 1)) []) \<le> 19"
      by (simp add: s leading_digits_eq [of _ _ p])
    have "length (concat (map (padded_digits 10 19) xs)) = 19 * length xs" for xs
      by (induction xs) simp_all
    then show "length (signed_string p 10 (bigint_val v)) < length ds * 19 + 2 + of_bool (is_negative v)"
      unfolding val n using \<open>length (numeral_digits 10 (unat c)) \<le> 19\<close> s by simp
  qed
  have emit: "rspec u (case Option.bind (bigint_size_mul (length ds) 19) (\<lambda>chunk_digits.
                  Option.bind (bigint_size_add chunk_digits 2) (\<lambda>text_capacity.
                    if is_negative v then bigint_size_add text_capacity 1 else Some text_capacity)) of
                 None \<Rightarrow> State_Monad.return None
               | Some text_capacity \<Rightarrow> numforge_malloc text_capacity \<bind> (\<lambda>granted.
                   if \<not> granted then State_Monad.return None
                   else let text = (if is_negative v then ''-'' else []);
                            buffer = leading_digits (ds ! (length ds - 1)) []
                        in c_assert (length buffer \<le> 20) \<bind> (\<lambda>_.
                          let text = write_chunks (length ds - 1) ds (text @ rev buffer)
                          in c_assert (length text < text_capacity) \<bind> (\<lambda>_. State_Monad.return (Some text))))) Q"
    if ds: "chunks_value (10 ^ 19) (map unat ds) = bigint_mag v" "\<forall>x \<in> set ds. unat x < 10 ^ 19"
      "if bigint_mag v = 0 then ds = [] else ds \<noteq> [] \<and> last ds \<noteq> 0" "length ds \<le> ?c" for ds
  proof -
    have "ds \<noteq> []" "last ds \<noteq> 0" using ds(3) mag by auto
    note s = shown [OF ds(1,2) this]
    have "Q (Some (signed_string p 10 (bigint_val v)))" by (rule Q) simp
    then show ?thesis
      unfolding Let_def size [OF ds(4)] option.case s(1)
      using s(2,3) by (intro triple_bind malloc_wp triple_if triple_return c_assert_wp) (auto intro: no)
  qed
  show ?thesis
    unfolding bigint_to_string_def bigint_to_string_profile_impl_def if_not_P [OF False] plan
      option.case prod.case
  proof (rule triple_bind, rule copy_wp [OF storage_ok_init v], rule triple_case_pair)
    fix st d
    assume o: "outcome u True st (bigint_wf d \<and> bigint_val d = bigint_val v \<and> limbs d = limbs v \<and>
      is_negative d = is_negative v \<and> capacity bigint_init \<le> capacity d) (d = bigint_init)"
    show "rspec u (if st \<noteq> BIGINT_OK then State_Monad.return None
        else numforge_malloc (?c * 8) \<bind> (\<lambda>granted.
          if \<not> granted then State_Monad.return None
          else decimal_chunks_loop ?c d [] \<bind> (\<lambda>result.
            case result of None \<Rightarrow> State_Monad.return None
            | Some chunks \<Rightarrow>
              (case Option.bind (bigint_size_mul (length chunks) 19) (\<lambda>chunk_digits.
                  Option.bind (bigint_size_add chunk_digits 2) (\<lambda>text_capacity.
                    if is_negative v then bigint_size_add text_capacity 1 else Some text_capacity)) of
                 None \<Rightarrow> State_Monad.return None
               | Some text_capacity \<Rightarrow> numforge_malloc text_capacity \<bind> (\<lambda>granted.
                   if \<not> granted then State_Monad.return None
                   else let text = (if is_negative v then ''-'' else []);
                            buffer = leading_digits (chunks ! (length chunks - 1)) []
                        in c_assert (length buffer \<le> 20) \<bind> (\<lambda>_.
                          let text = write_chunks (length chunks - 1) chunks (text @ rev buffer)
                          in c_assert (length text < text_capacity) \<bind> (\<lambda>_. State_Monad.return (Some text)))))))) Q"
    proof (cases "st = BIGINT_OK")
      case True
      then have d: "storage_ok d" "canonical (limbs d)" "bigint_mag d = bigint_mag v"
        using o bigint_wfD(1) [OF v] by (auto simp: bigint_wf_storage_ok)
      have room: "bigint_mag d < (10 ^ 19) ^ ?c" unfolding d(3) by (rule chunks_capacity_room, rule mag_less)
      have rest: "rspec u (case r of None \<Rightarrow> State_Monad.return None | Some chunks \<Rightarrow> f chunks) Q"
        if "case r of None \<Rightarrow> \<not> u | Some ds \<Rightarrow> \<exists>new. ds = [] @ new \<and>
          chunks_value (10 ^ 19) (map unat new) = bigint_mag d \<and> (\<forall>x \<in> set new. unat x < 10 ^ 19) \<and>
          (if bigint_mag d = 0 then new = [] else new \<noteq> [] \<and> last new \<noteq> 0) \<and> length new \<le> ?c"
          "\<And>ds. chunks_value (10 ^ 19) (map unat ds) = bigint_mag v \<Longrightarrow> \<forall>x \<in> set ds. unat x < 10 ^ 19 \<Longrightarrow>
             if bigint_mag v = 0 then ds = [] else ds \<noteq> [] \<and> last ds \<noteq> 0 \<Longrightarrow> length ds \<le> ?c \<Longrightarrow> rspec u (f ds) Q"
        for r and f :: "u64 list \<Rightarrow> string option rt"
        using that unfolding d(3) by (cases r) (auto intro: triple_return no)
      show ?thesis
        by (intro triple_if triple_bind [of _ "numforge_malloc _"] malloc_wp triple_return
            triple_bind [of _ "decimal_chunks_loop _ _ _"] decimal_chunks_loop_wp [OF d(1,2) room];
          (simp add: True no; fail | erule rest, erule emit; assumption))
    qed (use o no in \<open>auto intro!: triple_return simp: resource_failure_def\<close>)
  qed
qed

section \<open>Other bases\<close>

lemma radix_chunk_loop_wp:
  assumes b: "2 \<le> b" "b < LB"
  shows "fuel + k = 64 \<Longrightarrow> b ^ k < LB \<Longrightarrow> unat m = b ^ k \<Longrightarrow>
    (\<And>m' k'. unat m' = b ^ k' \<Longrightarrow> b ^ k' < LB \<Longrightarrow> LB \<le> b * b ^ k' \<Longrightarrow> Q (m', k')) \<Longrightarrow>
    rspec u (radix_chunk_loop fuel (of_nat b) m k) Q"
proof (induction fuel arbitrary: m k)
  case 0
  have "(2 :: nat) ^ 64 \<le> b ^ 64" using b(1) by (rule power_mono) simp
  with 0 show ?case by (simp add: LB_def)
next
  case (Suc fuel)
  have le: "m \<le> UINT64_MAX div of_nat b \<longleftrightarrow> b * b ^ k < LB"
    using b Suc.prems(3) LB_gt_1
    by (simp add: word_le_nat_alt unat_div_distrib unat_of_nat_LB less_eq_div_iff_mult_less_eq mult.commute)
      linarith
  have "unat (m * of_nat b) = b ^ Suc k" if "b * b ^ k < LB"
    using that b Suc.prems(3) by (simp add: unat_mult_mod unat_of_nat_LB mult.commute)
  then show ?case
    using Suc.prems le by (auto intro!: triple_return Suc.IH)
qed

lemma radix_chunk_wp [wp]:
  assumes b: "2 \<le> b" "b \<le> 36"
    and Q: "\<And>m k. unat m = b ^ k \<Longrightarrow> b ^ k < LB \<Longrightarrow> 0 < k \<Longrightarrow> k < 64 \<Longrightarrow> Q (m, k)"
  shows "rspec u (bigint_radix_chunk b) Q"
  unfolding bigint_radix_chunk_def
proof (rule radix_chunk_loop_wp [OF b(1)])
  fix m :: u64 and k
  assume m: "unat m = b ^ k" "b ^ k < LB" "LB \<le> b * b ^ k"
  have "k \<noteq> 0" using m(3) b by (cases k) (simp_all add: LB_def)
  moreover have "(2 :: nat) ^ k < 2 ^ 64"
    using m(2) power_mono [OF b(1), of k] by (simp add: LB_def)
  then have "k < 64" by (rule power_less_imp_less_exp [rotated]) simp
  ultimately show "Q (m, k)" using m by (intro Q) auto
qed (use b in \<open>simp_all add: LB_def\<close>)

lemma set_string_base_loop_wp:
  assumes b: "2 \<le> b" "b \<le> 36" and k: "b ^ k < LB" "0 < k"
  shows "holds_nat parsed p \<Longrightarrow> \<forall>c \<in> set (drop i cs). bigint_ascii_digit c < b \<Longrightarrow> length cs - i < fuel \<Longrightarrow>
    (\<And>st t. outcome u (p * b ^ (length cs - i) + digits_value b (map bigint_ascii_digit (drop i cs))
        < LB ^ (BIGINT_MAX_LIMBS - 1)) st
      (holds_nat t (p * b ^ (length cs - i) + digits_value b (map bigint_ascii_digit (drop i cs)))) True \<Longrightarrow> Q (st, t)) \<Longrightarrow>
    rspec u (set_string_base_loop fuel cs b k i parsed) Q"
proof (induction fuel arbitrary: i parsed p)
  case (Suc fuel)
  show ?case
  proof (cases "i < length cs")
    case True
    let ?n = "if length cs - i < k then length cs - i else k"
    let ?v = "digits_value b (map bigint_ascii_digit (take ?n (drop i cs)))"
    have n: "i + ?n \<le> length cs" using True by auto
    have lt: "b ^ ?n < LB"
      using power_increasing [of ?n k b] b(1) by (intro order_le_less_trans [OF _ k(1)]) simp
    have chunk: "fold (base_chunk_step cs b i) [0..<?n] (0, 1) = (of_nat ?v, of_nat (b ^ ?n))"
      unfolding upto_map_drop [OF n, symmetric]
      by (rule horner_fold) (simp add: base_chunk_step_def)
    have v: "?v < b ^ ?n"
    proof -
      have "\<forall>d \<in> set (map bigint_ascii_digit (take ?n (drop i cs))). d < b"
        using Suc.prems(2) by (auto dest: in_set_takeD)
      from digits_value_less [OF this] show ?thesis using n by (simp del: if_split)
    qed
    have le: "p * b ^ ?n + ?v \<le> p * b ^ (length cs - i) + digits_value b (map bigint_ascii_digit (drop i cs))"
      unfolding digits_value_drop [OF n, of p b bigint_ascii_digit, symmetric]
      using b(1) by (intro trans_le_add1) simp
    show ?thesis
      unfolding set_string_base_loop.simps if_P [OF True] Let_def chunk prod.case
    proof (intro triple_bind [of _ numforge_budget_check] budget_check_wp triple_if)
      fix go
      assume go: "u \<longrightarrow> go"
      show "rspec u (State_Monad.return (BIGINT_OUT_OF_MEMORY, parsed)) Q" if "\<not> go"
        using go that by (intro triple_return Suc.prems(4)) simp
      show "rspec u (do {
          (status, parsed) \<leftarrow> bigint_multiply_by_uint64 parsed (of_nat (b ^ ?n));
          (status, parsed) \<leftarrow> (if status = BIGINT_OK then bigint_add_uint64 parsed (of_nat ?v)
                              else State_Monad.return (status, parsed));
          if status \<noteq> BIGINT_OK then State_Monad.return (status, parsed)
          else set_string_base_loop fuel cs b k (i + ?n) parsed }) Q"
      proof (rule parse_chunk_wp [OF Suc.prems(1) b(1) lt v refl refl])
        fix parsed'
        assume h: "holds_nat parsed' (p * b ^ ?n + ?v)"
        show "rspec u (set_string_base_loop fuel cs b k (i + ?n) parsed') Q"
        proof (rule Suc.IH [OF h])
          show "length cs - (i + ?n) < fuel" using True Suc.prems(3) k(2) by auto
          show "\<forall>c \<in> set (drop (i + ?n) cs). bigint_ascii_digit c < b"
            using Suc.prems(2) set_drop_subset_set_drop [of i "i + ?n" cs] by auto
        qed (unfold digits_value_drop [OF n], rule Suc.prems(4))
      qed (rule Suc.prems(4), erule outcome_failI, erule order_le_less_trans [OF le], simp)
    qed
  next
    case False
    then show ?thesis using Suc.prems by (auto intro!: triple_return)
  qed
qed simp

lemmas non_base_digit_drop = list_ex_upt_drop [where P = "\<lambda>c. bigint_ascii_digit c \<ge> b" for b]

lemma set_string_base_wp [wp]:
  assumes Q: "\<And>st v'. (if 2 \<le> b \<and> b \<le> 36 \<and> is_numeral b cs
      then result_ok u (numeral_mag b cs < LB ^ (BIGINT_MAX_LIMBS - 1)) v (numeral_value b cs) st v'
      else st = BIGINT_INVALID_ARGUMENT \<and> v' = v) \<Longrightarrow> Q (st, v')"
  shows "rspec u (bigint_set_string_base v cs b) Q"
proof (cases "b < 2 \<or> b > 36 \<or> b = 10")
  case True
  then show ?thesis
    unfolding bigint_set_string_base_def by (auto intro!: triple_return set_string_wp Q)
next
  case False
  then have b: "2 \<le> b" "b \<le> 36" "\<not> (b < 2 \<or> b > 36)" "b \<noteq> 10" by auto
  let ?neg = "cs \<noteq> [] \<and> cs ! 0 = CHR ''-''"
  let ?n = "if cs \<noteq> [] \<and> cs ! 0 = CHR ''+'' \<or> ?neg then 1 else 0"
  have d: "drop ?n cs = snd (numeral_text cs)" and s: "?neg = fst (numeral_text cs)"
    by (cases cs; auto simp: numeral_text_def)+
  have iff: "is_numeral b cs \<longleftrightarrow> \<not> length cs \<le> ?n \<and> \<not> (\<exists>c \<in> set (drop ?n cs). b \<le> bigint_ascii_digit c)"
    unfolding is_numeral_def d [symmetric] list_all_iff drop_eq_Nil by (auto simp: not_le)
  have bad: "Q (BIGINT_INVALID_ARGUMENT, v)" if "\<not> is_numeral b cs" using that by (intro Q) simp
  show ?thesis
    unfolding bigint_set_string_base_def Let_def if_not_P [OF b(3)] if_not_P [OF b(4)] non_base_digit_drop
  proof (intro triple_if triple_return triple_bind [of _ "bigint_radix_chunk _"] radix_chunk_wp [OF b(1,2)])
    show "length cs \<le> ?n \<Longrightarrow> Q (BIGINT_INVALID_ARGUMENT, v)" using iff bad by blast
    show "\<exists>c \<in> set (drop ?n cs). b \<le> bigint_ascii_digit c \<Longrightarrow> Q (BIGINT_INVALID_ARGUMENT, v)"
      using iff bad by blast
    fix m :: u64 and k
    assume num: "\<not> length cs \<le> ?n" "\<not> (\<exists>c \<in> set (drop ?n cs). b \<le> bigint_ascii_digit c)"
      and k: "b ^ k < LB" "0 < k"
    have ok: "is_numeral b cs" using iff num by blast
    have dig: "\<forall>c \<in> set (drop ?n cs). bigint_ascii_digit c < b" using num(2) by (meson not_le)
    show "rspec u (case (m, k) of (_, chunk_digits) \<Rightarrow>
        set_string_base_loop (Suc (length cs)) cs b chunk_digits ?n bigint_init \<bind>
        (\<lambda>(status, parsed). State_Monad.return (if status = BIGINT_OK
           then (status, fst (bigint_commit v (bigint_normalize (parsed\<lparr>is_negative := ?neg\<rparr>))))
           else (status, v)))) Q"
      unfolding prod.case
    proof (rule triple_bind, rule set_string_base_loop_wp [OF b(1,2) k _ dig, where p = 0])
      show "holds_nat bigint_init 0" by (simp add: holds_nat_def)
      fix st t
      assume "outcome u (0 * b ^ (length cs - ?n) + digits_value b (map bigint_ascii_digit (drop ?n cs)) < LB ^ (BIGINT_MAX_LIMBS - 1)) st
        (holds_nat t (0 * b ^ (length cs - ?n) + digits_value b (map bigint_ascii_digit (drop ?n cs)))) True"
      then have o: "outcome u (numeral_mag b cs < LB ^ (BIGINT_MAX_LIMBS - 1)) st (holds_nat t (numeral_mag b cs)) True"
        unfolding d by (simp add: numeral_mag_def)
      show "rspec u (case (st, t) of (status, parsed) \<Rightarrow> State_Monad.return (if status = BIGINT_OK
           then (status, fst (bigint_commit v (bigint_normalize (parsed\<lparr>is_negative := ?neg\<rparr>))))
           else (status, v))) Q"
        unfolding s
      proof (cases "st = BIGINT_OK")
        case True
        then have "holds_nat t (numeral_mag b cs)" using o by simp
        from normalize_signed [OF this] show "rspec u (case (st, t) of (status, parsed) \<Rightarrow>
          State_Monad.return (if status = BIGINT_OK
           then (status, fst (bigint_commit v (bigint_normalize (parsed\<lparr>is_negative := fst (numeral_text cs)\<rparr>))))
           else (status, v))) Q"
          using ok True b by (auto intro!: triple_return Q simp: numeral_value_def)
      qed (use o ok b in \<open>auto intro!: triple_return Q\<close>)
    qed simp
  qed
qed

lemma radix_digits_rest_wp:
  assumes b: "2 \<le> b" "b \<le> 36"
  shows "w < k \<Longrightarrow> unat x < b ^ (k - w) \<Longrightarrow> k - w \<le> fuel \<Longrightarrow>
    Q (t @ rev (digit_string p (padded_digits b (k - w) (unat x)))) \<Longrightarrow>
    rspec u (radix_digits_loop fuel (base_alphabet p) (of_nat b) k True x w t) Q"
proof (induction fuel arbitrary: x w t)
  case (Suc fuel)
  have ub: "unat (of_nat b :: u64) = b" using b by (intro unat_of_nat_LB) (simp add: LB_def)
  obtain j where j: "k - w = Suc j" using Suc.prems(1) by (metis Suc_diff_Suc)
  have x: "unat (x mod of_nat b) = unat x mod b" "unat (x div of_nat b) = unat x div b"
    by (simp_all add: ub unat_mod_distrib unat_div_distrib)
  have less: "unat x div b < b ^ j"
    using Suc.prems(2) j b(1) by (simp add: div_less_iff_less_mult mult.commute)
  have j': "k - Suc w = j" using j by simp
  have stop: "x div of_nat b \<noteq> 0 \<or> True \<and> w + 1 < k \<longleftrightarrow> j \<noteq> 0"
  proof (cases j)
    case 0
    then show ?thesis using less x(2) j' j by (auto simp flip: unat_eq_0_iff)
  next
    case (Suc i)
    then have "w + 1 < k" using j by linarith
    then show ?thesis using Suc by simp
  qed
  show ?case
    unfolding radix_digits_loop.simps Let_def stop
  proof (intro triple_if triple_return)
    show "rspec u (radix_digits_loop fuel (base_alphabet p) (of_nat b) k True (x div of_nat b) (w + 1)
        (t @ [base_alphabet p ! unat (x mod of_nat b)])) Q" if "j \<noteq> 0"
      using Suc.prems(1,3,4) that less j j' by (intro Suc.IH) (auto simp: x digit_string_def)
    show "Q (t @ [base_alphabet p ! unat (x mod of_nat b)])" if "\<not> j \<noteq> 0"
      using Suc.prems(4) that j by (simp add: x digit_string_def)
  qed
qed simp

lemma radix_digits_last_wp:
  assumes b: "2 \<le> b" "b \<le> 36"
  shows "unat x < 2 ^ fuel \<Longrightarrow> 0 < fuel \<Longrightarrow>
    Q (t @ rev (digit_string p (numeral_digits b (unat x)))) \<Longrightarrow>
    rspec u (radix_digits_loop fuel (base_alphabet p) (of_nat b) k False x w t) Q"
proof (induction fuel arbitrary: x w t)
  case (Suc fuel)
  have ub: "unat (of_nat b :: u64) = b" using b by (intro unat_of_nat_LB) (simp add: LB_def)
  have x: "unat (x mod of_nat b) = unat x mod b" "unat (x div of_nat b) = unat x div b"
    by (simp_all add: ub unat_mod_distrib unat_div_distrib)
  have go_on: "x div of_nat b \<noteq> 0 \<or> False \<and> w + 1 < k \<longleftrightarrow> \<not> unat x < b"
    using b(1) by (simp add: x(2) div_eq_0_iff flip: unat_eq_0_iff)
  have "unat x div b \<le> unat x div 2" using b(1) by (intro div_le_mono2) simp_all
  then have less: "unat x div b < 2 ^ fuel" using Suc.prems(1) by simp
  have pos: "0 < fuel" if "\<not> unat x < b" using that less b(1) by (cases fuel) (auto simp: div_eq_0_iff)
  show ?case
    unfolding radix_digits_loop.simps Let_def go_on
  proof (intro triple_if triple_return)
    show "rspec u (radix_digits_loop fuel (base_alphabet p) (of_nat b) k False (x div of_nat b) (w + 1)
        (t @ [base_alphabet p ! unat (x mod of_nat b)])) Q" if "\<not> unat x < b"
    proof (rule Suc.IH)
      have "numeral_digits b (unat x) = numeral_digits b (unat x div b) @ [unat x mod b]"
        using that b(1) by (subst numeral_digits.simps) simp
      then show "Q ((t @ [base_alphabet p ! unat (x mod of_nat b)]) @
          rev (digit_string p (numeral_digits b (unat (x div of_nat b)))))"
        using Suc.prems(3) by (simp add: x digit_string_def)
    qed (use less pos that in \<open>simp_all add: x\<close>)
    show "Q (t @ [base_alphabet p ! unat (x mod of_nat b)])" if "\<not> \<not> unat x < b"
      using Suc.prems(3) that by (simp add: x digit_string_def numeral_digits.simps [of b])
  qed
qed simp

lemma radix_chunks_loop_wp:
  assumes b: "2 \<le> b" "b \<le> 36" and m: "unat m = b ^ k" "b ^ k < LB" "0 < k" "k < 64"
    and fail: "\<And>t. \<not> u \<Longrightarrow> Q (BIGINT_OUT_OF_MEMORY, t)"
  shows "storage_ok v \<Longrightarrow> 0 < fuel \<Longrightarrow> bigint_mag v < 2 ^ (fuel - 1) \<Longrightarrow>
    Q (BIGINT_OK, t @ rev (digit_string p (numeral_digits b (bigint_mag v)))) \<Longrightarrow>
    rspec u (radix_chunks_loop fuel (base_alphabet p) (of_nat b) m k v t) Q"
proof (induction fuel arbitrary: v t)
  case (Suc fuel)
  have mk: "m \<noteq> 0" "2 \<le> unat m"
  proof -
    have "2 ^ 1 \<le> (2 :: nat) ^ k" using m(3) by (intro power_increasing) auto
    also have "\<dots> \<le> b ^ k" using b(1) by (rule power_mono) simp
    finally show "2 \<le> unat m" by (simp add: m(1))
    then show "m \<noteq> 0" by auto
  qed
  show ?case
    unfolding radix_chunks_loop.simps
  proof (intro triple_bind [of _ numforge_budget_check] budget_check_wp triple_if,
      use fail in \<open>force intro: triple_return\<close>, rule triple_bind,
      rule divide_by_uint64_wp [OF Suc.prems(1) mk(1)], rule triple_case_pair)
    fix x :: u64 and v'
    assume v': "storage_ok v'" "canonical (limbs v')" "bigint_mag v' = bigint_mag v div unat m"
      and x: "unat x = bigint_mag v mod unat m"
    have empty: "bsize v' \<noteq> 0 \<longleftrightarrow> bigint_mag v' \<noteq> 0" using mag_eq_0_iff [of "limbs v'"] v'(2) by simp
    show "rspec u (do {
        t \<leftarrow> radix_digits_loop 64 (base_alphabet p) (of_nat b) k (bsize v' \<noteq> 0) x 0 t;
        if bsize v' \<noteq> 0 then radix_chunks_loop fuel (base_alphabet p) (of_nat b) m k v' t
        else State_Monad.return (BIGINT_OK, t) }) Q"
    proof (cases "bsize v' \<noteq> 0")
      case True
      have split: "numeral_digits b (bigint_mag v) =
          numeral_digits b (bigint_mag v') @ padded_digits b k (unat x)"
        using True v'(3) x unfolding empty m(1) by (simp add: numeral_digits_split [OF b(1), of "bigint_mag v" k])
      have "bigint_mag v' \<le> bigint_mag v div 2" unfolding v'(3) using mk(2) by (intro div_le_mono2) simp_all
      then have less: "2 * bigint_mag v' < 2 ^ fuel" using Suc.prems(3) by simp
      then have fuel: "0 < fuel" "bigint_mag v' < 2 ^ (fuel - 1)"
        using True empty by (cases fuel; simp)+
      have xk: "unat x < b ^ (k - 0)" using b(1) unfolding x m(1) by simp
      show ?thesis
        unfolding if_P [OF True] using True m(3,4)
        by (simp only: simp_thms, intro triple_bind radix_digits_rest_wp [OF b _ xk] Suc.IH [OF v'(1) fuel])
          (use Suc.prems(4) in \<open>simp_all add: split\<close>)
    next
      case False
      then have "bigint_mag v = unat x"
        using empty x v'(3) div_mult_mod_eq [of "bigint_mag v" "unat m"] by simp
      then show ?thesis
        using False Suc.prems(4) unat_lt_LB [of x]
        by (auto intro!: triple_bind radix_digits_last_wp [OF b] triple_return simp: LB_def)
    qed
  qed
qed simp

lemma swap_ends_fold:
  "k \<le> length xs div 2 \<Longrightarrow> length (fold (swap_ends (length xs)) [0..<k] xs) = length xs \<and>
   (\<forall>i < length xs. fold (swap_ends (length xs)) [0..<k] xs ! i =
     (if i < k \<or> length xs - k \<le> i then xs ! (length xs - i - 1) else xs ! i))"
proof (induction k)
  case (Suc k)
  define ys where "ys = fold (swap_ends (length xs)) [0..<k] xs"
  have ys: "length ys = length xs" "\<And>i. i < length xs \<Longrightarrow>
      ys ! i = (if i < k \<or> length xs - k \<le> i then xs ! (length xs - i - 1) else xs ! i)"
    using Suc by (auto simp: ys_def)
  have k: "k < length xs - k - 1" using Suc.prems by simp
  have step: "fold (swap_ends (length xs)) [0..<Suc k] xs = swap_ends (length xs) k ys"
    by (simp add: ys_def)
  show ?case
    unfolding step using k by (auto simp: swap_ends_def ys nth_list_update)
qed simp

lemma swap_ends_rev: "fold (swap_ends (length xs)) [0..<length xs div 2] xs = rev xs"
proof (rule nth_equalityI)
  note s = swap_ends_fold [of "length xs div 2" xs, OF order_refl]
  show "length (fold (swap_ends (length xs)) [0..<length xs div 2] xs) = length (rev xs)" using s by simp
  fix i
  assume "i < length (fold (swap_ends (length xs)) [0..<length xs div 2] xs)"
  then have i: "i < length xs" using s by simp
  have "length xs - i - 1 = i" if "\<not> i < length xs div 2" "\<not> length xs - length xs div 2 \<le> i"
    using that i by linarith
  with s i show "fold (swap_ends (length xs)) [0..<length xs div 2] xs ! i = rev xs ! i"
    by (simp add: rev_nth)
qed

lemma to_string_base_wp [wp]:
  assumes v: "bigint_wf v"
    and Q: "\<And>st r'. (if 2 \<le> b \<and> b \<le> 36 then outcome u True st (r' = Some (signed_string p b (bigint_val v))) (r' = r)
      else st = BIGINT_INVALID_ARGUMENT \<and> r' = r) \<Longrightarrow> Q (st, r')"
  shows "rspec u (bigint_to_string_base v b p r) Q"
proof (cases "b < 2 \<or> b > 36 \<or> b = 10")
  case True
  then show ?thesis
    unfolding bigint_to_string_base_def
    by (auto intro!: triple_return triple_bind to_string_wp [OF v, where p = p] Q split: option.splits)
next
  case False
  then have b: "2 \<le> b" "b \<le> 36" "\<not> (b < 2 \<or> b > 36)" "b \<noteq> 10" by auto
  have no: "Q (BIGINT_OUT_OF_MEMORY, r)" if "\<not> u" using that b by (intro Q) simp
  have plan: "Option.bind (bigint_size_mul (bsize v) 64) (\<lambda>bits. bigint_size_add bits 3) = Some (bsize v * 64 + 3)"
    using chunks_capacity_fits [OF bigint_wfD(5) [OF v]] by simp
  let ?ds = "numeral_digits b (bigint_mag v)"
  have less: "bigint_mag v < 2 ^ (64 * bsize v)" using mag_less [of "limbs v"] by (simp add: LB_power)
  have len: "length ?ds + of_bool (is_negative v) < bsize v * 64 + 3"
  proof (cases "bsize v = 0")
    case True
    then have "\<not> is_negative v" using bigint_wfD(2) [OF v] by auto
    with True b show ?thesis by (simp add: numeral_digits.simps [of b 0])
  next
    case False
    have "bigint_mag v < b ^ (64 * bsize v)"
      using less power_mono [OF b(1), of "64 * bsize v"] by simp
    from numeral_digits_length [OF b(1) this] False show ?thesis by simp
  qed
  have val: "rev (if is_negative v then rev (digit_string p ?ds) @ ''-'' else rev (digit_string p ?ds)) =
      signed_string p b (bigint_val v)"
    using bigint_val_neg_iff [OF v] by (simp add: signed_string_def)
  have good: "Q (BIGINT_OK, Some (signed_string p b (bigint_val v)))" using b by (intro Q) simp
  show ?thesis
    unfolding bigint_to_string_base_def if_not_P [OF b(3)] if_not_P [OF b(4)] plan option.case
  proof (intro triple_bind [of _ "numforge_malloc _"] malloc_wp triple_if triple_return, simp add: no,
      rule triple_bind, rule copy_wp [OF storage_ok_init v], rule triple_case_pair)
    fix st d
    assume o: "outcome u True st (bigint_wf d \<and> bigint_val d = bigint_val v \<and> limbs d = limbs v \<and>
      is_negative d = is_negative v \<and> capacity bigint_init \<le> capacity d) (d = bigint_init)"
    show "rspec u (if st \<noteq> BIGINT_OK then State_Monad.return (st, r)
      else bigint_radix_chunk b \<bind> (\<lambda>(divisor, chunk_digits).
        radix_chunks_loop (64 * bsize d + 1) (base_alphabet p) (of_nat b) divisor chunk_digits d [] \<bind>
        (\<lambda>(status, text). if status \<noteq> BIGINT_OK then State_Monad.return (status, r)
          else let text = (if is_negative v then text @ ''-'' else text);
                   text = fold (swap_ends (length text)) [0..<length text div 2] text
               in c_assert (length text < bsize v * 64 + 3) \<bind> (\<lambda>_. State_Monad.return (BIGINT_OK, Some text))))) Q"
    proof (cases "st = BIGINT_OK")
      case True
      then have d: "storage_ok d" "limbs d = limbs v" using o by (auto simp: bigint_wf_storage_ok)
      have fuel: "0 < 64 * bsize d + 1" "bigint_mag d < 2 ^ (64 * bsize d + 1 - 1)" using less d(2) by simp_all
      have last: "rspec u (case (BIGINT_OK, [] @ rev (digit_string p (numeral_digits b (bigint_mag d)))) of
          (status, text) \<Rightarrow> if status \<noteq> BIGINT_OK then State_Monad.return (status, r)
          else let text = (if is_negative v then text @ ''-'' else text);
                   text = fold (swap_ends (length text)) [0..<length text div 2] text
               in c_assert (length text < bsize v * 64 + 3) \<bind> (\<lambda>_. State_Monad.return (BIGINT_OK, Some text))) Q"
        unfolding d(2) Let_def swap_ends_rev prod.case append_Nil val
        using len good by (auto intro!: wp simp: val [symmetric])
      show ?thesis
        by (rule triple_if, simp add: True, rule triple_bind, rule radix_chunk_wp [OF b(1,2)], rule triple_case_pair,
            rule triple_bind, rule radix_chunks_loop_wp [OF b(1,2) _ _ _ _ _ d(1) fuel], assumption+,
            simp add: no triple_return, rule last)
    qed (use o b in \<open>auto intro!: triple_return Q\<close>)
  qed
qed

section \<open>Counting digits is exact\<close>

lemma count_digits_eq: "count_digits x c + 1 = c + length (numeral_digits 10 (unat x))"
proof (induction x c rule: count_digits.induct)
  case (1 x c)
  have iff: "x \<ge> 10 \<longleftrightarrow> \<not> unat x < 10" by (simp add: word_le_nat_alt not_less)
  show ?case
  proof (cases "x \<ge> 10")
    case True
    have "length (numeral_digits 10 (unat x)) = length (numeral_digits 10 (unat x div 10)) + 1"
      using True unfolding iff by (subst numeral_digits.simps) simp
    with 1 True show ?thesis by (subst count_digits.simps) (simp add: unat_div_distrib)
  next
    case False
    then show ?thesis using iff by (subst count_digits.simps, subst numeral_digits.simps) simp
  qed
qed

lemma one_limb_mag: "bsize v \<le> 1 \<Longrightarrow> unat (if bsize v = 0 then 0 else limbs v ! 0) = bigint_mag v"
  by (cases "limbs v") auto

lemma peel_digits_loop_wp:
  assumes fail: "\<not> u \<Longrightarrow> Q None"
  shows "storage_ok v \<Longrightarrow> canonical (limbs v) \<Longrightarrow> bigint_mag v < 2 ^ fuel \<Longrightarrow> 0 < fuel \<Longrightarrow>
    (\<And>v' c'. bsize v' \<le> 1 \<Longrightarrow> c' + length (numeral_digits 10 (bigint_mag v')) =
        c + length (numeral_digits 10 (bigint_mag v)) \<Longrightarrow> Q (Some (v', c'))) \<Longrightarrow>
    rspec u (peel_digits_loop fuel v c) Q"
proof (induction fuel arbitrary: v c)
  case (Suc fuel)
  let ?d = "10000000000000000000 :: u64"
  have d: "unat ?d = 10 ^ 19" by simp
  show ?case
  proof (cases "bsize v > 1")
    case False
    then show ?thesis using Suc.prems(5) by (auto intro!: triple_return)
  next
    case True
    have "LB ^ 1 \<le> LB ^ (bsize v - 1)" using True by (intro power_increasing) (auto simp: Suc_le_eq)
    also have "\<dots> \<le> bigint_mag v" using True Suc.prems(2) by (intro mag_lower) auto
    finally have big: "10 ^ 19 \<le> bigint_mag v" by (simp add: LB_def)
    show ?thesis
      unfolding peel_digits_loop.simps if_P [OF True]
    proof (intro triple_bind [of _ numforge_budget_check] budget_check_wp triple_if,
        use fail in \<open>force intro: triple_return\<close>, rule triple_bind,
        rule divide_by_uint64_wp [OF Suc.prems(1)], simp, rule triple_case_pair)
      fix x :: u64 and v'
      assume v': "storage_ok v'" "canonical (limbs v')" "bigint_mag v' = bigint_mag v div unat ?d"
      have split: "length (numeral_digits 10 (bigint_mag v)) = length (numeral_digits 10 (bigint_mag v')) + 19"
        using big unfolding v'(3) d by (subst numeral_digits_split [of 10 _ 19]) (simp_all add: div_eq_0_iff)
      have "bigint_mag v' \<le> bigint_mag v div 2" unfolding v'(3) d by (intro div_le_mono2) simp_all
      then have less: "bigint_mag v' < 2 ^ fuel" using Suc.prems(3) by simp
      have "0 < bigint_mag v'" using big unfolding v'(3) d by (simp add: div_greater_zero_iff)
      then have "0 < fuel" using less by (cases fuel) auto
      then show "rspec u (peel_digits_loop fuel v' (c + 19)) Q"
        using v' less Suc.prems(5) split by (intro Suc.IH) simp_all
    qed
  qed
qed simp

lemma decimal_digits_wp [wp]:
  assumes v: "bigint_wf v"
    and Q: "\<And>st d'. outcome u True st (d' = length (numeral_digits 10 (bigint_mag v))) (d' = d) \<Longrightarrow> Q (st, d')"
  shows "rspec u (bigint_decimal_digits v d) Q"
proof -
  have no: "Q (BIGINT_OUT_OF_MEMORY, d)" if "\<not> u" using that by (intro Q) simp
  have ok: "Q (BIGINT_OK, n)" if "n = length (numeral_digits 10 (bigint_mag v))" for n
    using that by (intro Q) simp
  have last: "Q (BIGINT_OK, count_digits (if bsize v' = 0 then 0 else limbs v' ! 0) (c + 1))"
    if "bsize v' \<le> 1" "c + length (numeral_digits 10 (bigint_mag v')) = length (numeral_digits 10 (bigint_mag v))" for v' c
    using that count_digits_eq [of "if bsize v' = 0 then 0 else limbs v' ! 0" "c + 1"] one_limb_mag [OF that(1)]
    by (intro ok) simp
  show ?thesis
    unfolding bigint_decimal_digits_def Let_def
  proof (intro triple_bind [of _ numforge_budget_check] budget_check_wp triple_if triple_return)
    show "Q (BIGINT_OK, count_digits (if bsize v = 0 then 0 else limbs v ! 0) 1)" if "bsize v \<le> 1"
      using last [of v 0] that by simp
    let ?bits = "bigint_bit_length v"
    let ?lower = "(?bits - 1) div 100000 * 30102 + (?bits - 1) mod 100000 * 30102 div 100000 + 1"
    let ?upper = "?bits div 100000 * 30103 + (?bits mod 100000 * 30103 + 99999) div 100000"
    assume big: "\<not> bsize v \<le> 1"
    then have ne: "limbs v \<noteq> []" by auto
    note bl = bit_length_correct [OF bigint_wfD(1) [OF v] ne]
    show "Q (BIGINT_OK, ?lower)" if "?lower = ?upper"
      using length_numeral_digits_bounds [OF bl(2,3)] that by (intro ok) linarith
    show "rspec u (bigint_copy bigint_init v \<bind> (\<lambda>(status, scratch).
        if status \<noteq> BIGINT_OK then State_Monad.return (status, d)
        else peel_digits_loop (64 * bsize scratch) scratch 0 \<bind>
          case_option (State_Monad.return (BIGINT_OUT_OF_MEMORY, d))
            (\<lambda>(scratch, count). State_Monad.return (BIGINT_OK,
               count_digits (if bsize scratch = 0 then 0 else limbs scratch ! 0) (count + 1))))) Q"
    proof (rule triple_bind, rule copy_wp [OF storage_ok_init v], rule triple_case_pair)
      fix st s
      assume o: "outcome u True st (bigint_wf s \<and> bigint_val s = bigint_val v \<and> limbs s = limbs v \<and>
        is_negative s = is_negative v \<and> capacity bigint_init \<le> capacity s) (s = bigint_init)"
      show "rspec u (if st \<noteq> BIGINT_OK then State_Monad.return (st, d)
        else peel_digits_loop (64 * bsize s) s 0 \<bind>
          case_option (State_Monad.return (BIGINT_OUT_OF_MEMORY, d))
            (\<lambda>(scratch, count). State_Monad.return (BIGINT_OK,
               count_digits (if bsize scratch = 0 then 0 else limbs scratch ! 0) (count + 1)))) Q"
      proof (cases "st = BIGINT_OK")
        case True
        then have s: "storage_ok s" "canonical (limbs s)" "limbs s = limbs v"
          using o bigint_wfD(1) [OF v] by (auto simp: bigint_wf_storage_ok)
        have less: "bigint_mag s < 2 ^ (64 * bsize s)" using mag_less [of "limbs s"] by (simp add: LB_power)
        have pos: "0 < 64 * bsize s" using ne s(3) by simp
        show ?thesis
          by (rule triple_if, simp add: True, rule triple_bind, rule peel_digits_loop_wp [OF _ s(1,2) less pos],
              simp add: no triple_return, simp only: option.case prod.case, rule triple_return, rule last)
            (simp_all add: s(3))
      qed (use o in \<open>auto intro!: triple_return Q\<close>)
    qed
  qed (use no in auto)
qed

section \<open>Reading back what was printed\<close>

lemma alphabet_digit: "d < 36 \<Longrightarrow> bigint_ascii_digit (base_alphabet p ! d) = d"
  using alphabet_tables(2) unfolding list_all_iff by (cases p) auto

lemma sign_not_digit: "bigint_ascii_digit CHR ''-'' = 36" "bigint_ascii_digit CHR ''+'' = 36"
  by code_simp+

lemma numeral_text_signed:
  assumes b: "2 \<le> b" "b \<le> 36"
  shows "numeral_text (signed_string p b z) = (z < 0, digit_string p (numeral_digits b (nat \<bar>z\<bar>)))"
proof -
  obtain d ds where d: "numeral_digits b (nat \<bar>z\<bar>) = d # ds" by (meson neq_Nil_conv numeral_digits_not_Nil)
  then have "d < b" using numeral_digits_less [OF b(1), of d "nat \<bar>z\<bar>"] by simp
  then have "bigint_ascii_digit (base_alphabet p ! d) \<noteq> 36" using b(2) alphabet_digit [of d p] by simp
  then have "base_alphabet p ! d \<noteq> CHR ''-''" "base_alphabet p ! d \<noteq> CHR ''+''"
    by (auto simp: sign_not_digit)
  then show ?thesis by (simp add: signed_string_def numeral_text_def digit_string_def d)
qed

lemma digit_string_values:
  assumes "2 \<le> b" "b \<le> 36"
  shows "map bigint_ascii_digit (digit_string p (numeral_digits b n)) = numeral_digits b n"
proof -
  have "d < 36" if "d \<in> set (numeral_digits b n)" for d
    using numeral_digits_less [OF assms(1) that] assms(2) by simp
  then show ?thesis by (auto simp: digit_string_def comp_def alphabet_digit intro!: map_idI)
qed

lemma signed_string_numeral:
  assumes b: "2 \<le> b" "b \<le> 36"
  shows "is_numeral b (signed_string p b z)" "numeral_mag b (signed_string p b z) = nat \<bar>z\<bar>"
    "numeral_value b (signed_string p b z) = z"
proof -
  note t = numeral_text_signed [OF b, of p z]
  note v = digit_string_values [OF b, of p "nat \<bar>z\<bar>"]
  show "numeral_mag b (signed_string p b z) = nat \<bar>z\<bar>"
    unfolding numeral_mag_def t snd_conv v by (rule numeral_digits_value [OF b(1)])
  then show "numeral_value b (signed_string p b z) = z"
    by (auto simp: numeral_value_def t)
  have "bigint_ascii_digit c < b" if "c \<in> set (digit_string p (numeral_digits b (nat \<bar>z\<bar>)))" for c
  proof -
    have "bigint_ascii_digit c \<in> set (map bigint_ascii_digit (digit_string p (numeral_digits b (nat \<bar>z\<bar>))))"
      using that by simp
    then show ?thesis unfolding v by (rule numeral_digits_less [OF b(1)])
  qed
  then show "is_numeral b (signed_string p b z)"
    unfolding is_numeral_def t snd_conv list_all_iff by (simp add: digit_string_def)
qed

section \<open>Properties\<close>

text \<open>C35: Parsing. \<open>bigint_set_string_base\<close> accepts exactly an optional sign followed by at
  least one digit of the base (2 to 36, both cases), and then stores the value of the numeral
  in canonical form; anything else is an invalid argument and leaves the destination.\<close>

theorem bigint_set_string_base_correct:
  assumes "\<not> stuck s"
  shows "case run_state (bigint_set_string_base v cs b) s of ((st, v'), s') \<Rightarrow> \<not> stuck s' \<and>
    (if 2 \<le> b \<and> b \<le> 36 \<and> is_numeral b cs
     then result_ok (unlimited s) (numeral_mag b cs < LB ^ (BIGINT_MAX_LIMBS - 1)) v (numeral_value b cs) st v'
     else st = BIGINT_INVALID_ARGUMENT \<and> v' = v)"
  by (rule rspec_run2 [OF _ assms]) (rule set_string_base_wp, simp)

theorem bigint_set_string_base_correct_witness:
  "case run_state (bigint_set_string_base bigint_init ''-1f'' 16) idle_runtime of ((st, v'), s') \<Rightarrow>
     st = BIGINT_OK \<and> bigint_val v' = - 31"
proof -
  have "is_numeral 16 ''-1f''" "numeral_value 16 ''-1f'' = - 31" "numeral_mag 16 ''-1f'' = 31" by code_simp+
  then show ?thesis
    using bigint_set_string_base_correct [of idle_runtime 16 "''-1f''" bigint_init] example_bound [of 31, simplified]
    by (auto split: prod.splits)
qed

text \<open>Printing. \<open>bigint_to_string_base\<close> yields the sign and the shortest numeral of the
  magnitude in the base and the case of letters asked for; the buffers it sizes beforehand
  are never overrun, and only want of memory or an invalid base makes it fail.\<close>

theorem bigint_to_string_base_correct:
  assumes "\<not> stuck s" "bigint_wf v"
  shows "case run_state (bigint_to_string_base v b p r) s of ((st, r'), s') \<Rightarrow> \<not> stuck s' \<and>
    (if 2 \<le> b \<and> b \<le> 36
     then outcome (unlimited s) True st (r' = Some (signed_string p b (bigint_val v))) (r' = r)
     else st = BIGINT_INVALID_ARGUMENT \<and> r' = r)"
  by (rule rspec_run2 [OF _ assms(1)]) (rule to_string_base_wp [OF assms(2)], simp)

theorem bigint_to_string_base_correct_witness:
  "case run_state (bigint_to_string_base (bigint_wrap_uint64 1000) 36 True None) idle_runtime of
     ((st, r'), s') \<Rightarrow> st = BIGINT_OK \<and> r' = Some ''RS''"
proof -
  have "signed_string True 36 1000 = ''RS''" by code_simp
  then show ?thesis
    using bigint_to_string_base_correct [of idle_runtime "bigint_wrap_uint64 1000" 36 True None]
    by (auto simp: outcome_def resource_failure_def split: prod.splits if_splits)
qed

text \<open>C9: Round trip. Printing a number and parsing the text in the same base gives back the
  same limbs and the same sign, in every base and with both alphabets.\<close>

theorem text_round_trip:
  assumes "\<not> stuck s" "bigint_wf v" "2 \<le> b" "b \<le> 36"
  shows "case run_state (do {
      (st, r') \<leftarrow> bigint_to_string_base v b p None;
      case r' of None \<Rightarrow> State_Monad.return (st, x) | Some cs \<Rightarrow> bigint_set_string_base x cs b }) s of
    ((st, x'), s') \<Rightarrow> \<not> stuck s' \<and>
      outcome (unlimited s) (bigint_mag v < LB ^ (BIGINT_MAX_LIMBS - 1)) st
        (limbs x' = limbs v \<and> is_negative x' = is_negative v) (x' = x)"
proof (rule rspec_run2 [OF _ assms(1)], rule triple_bind, rule to_string_base_wp [OF assms(2)], rule triple_case_pair)
  let ?F = "bigint_mag v < LB ^ (BIGINT_MAX_LIMBS - 1)"
  let ?P = "\<lambda>(st, x'). outcome (unlimited s) ?F st (limbs x' = limbs v \<and> is_negative x' = is_negative v) (x' = x)"
  fix st r'
  assume "if 2 \<le> b \<and> b \<le> 36 then outcome (unlimited s) True st (r' = Some (signed_string p b (bigint_val v))) (r' = None)
    else st = BIGINT_INVALID_ARGUMENT \<and> r' = None"
  then have o: "outcome (unlimited s) True st (r' = Some (signed_string p b (bigint_val v))) (r' = None)"
    using assms(3,4) by simp
  note num = signed_string_numeral [OF assms(3,4), of p "bigint_val v"]
  have same: "limbs x' = limbs v \<and> is_negative x' = is_negative v" if "bigint_wf x'" "bigint_val x' = bigint_val v" for x'
    using bigint_val_inj [OF that(1) assms(2) that(2)] .
  have "rspec (unlimited s) (bigint_set_string_base x (signed_string p b (bigint_val v)) b) ?P"
    by (rule set_string_base_wp)
      (use num assms(3,4) same in \<open>auto simp: result_ok_def abs_bigint_val elim!: outcome_mono\<close>)
  then show "rspec (unlimited s) (case r' of None \<Rightarrow> State_Monad.return (st, x)
      | Some cs \<Rightarrow> bigint_set_string_base x cs b) ?P"
    using o by (cases "st = BIGINT_OK") (auto intro!: triple_return elim!: resource_failure_weaken)
qed

theorem text_round_trip_witness:
  "case run_state (do {
      (st, r') \<leftarrow> bigint_to_string_base (bigint_wrap_uint64 77) 10 False None;
      case r' of None \<Rightarrow> State_Monad.return (st, bigint_init)
      | Some cs \<Rightarrow> bigint_set_string_base bigint_init cs 10 }) idle_runtime of
    ((st, x'), s') \<Rightarrow> st = BIGINT_OK \<and> limbs x' = [77]"
proof -
  have "bigint_mag (bigint_wrap_uint64 77) < LB ^ (BIGINT_MAX_LIMBS - 1)"
    using example_bound [of 77] by (simp add: bigint_wrap_uint64_def)
  moreover have "limbs (bigint_wrap_uint64 77) = [77]" by (simp add: bigint_wrap_uint64_def)
  ultimately show ?thesis
    using text_round_trip [of idle_runtime "bigint_wrap_uint64 77" 10 bigint_init False]
    by (auto simp: outcome_def resource_failure_def split: prod.splits if_splits)
qed

text \<open>\<open>bigint_decimal_digits\<close> is the number of decimal digits of the magnitude, one for
  zero. The two estimates from the bit length enclose it, so that the fast answer taken when
  they agree is exact at every size, and the peeling loop ends.\<close>

theorem bigint_decimal_digits_correct:
  assumes "\<not> stuck s" "bigint_wf v"
  shows "case run_state (bigint_decimal_digits v d) s of ((st, d'), s') \<Rightarrow> \<not> stuck s' \<and>
    outcome (unlimited s) True st
      (0 < d' \<and> \<bar>bigint_val v\<bar> < 10 ^ d' \<and> (bigint_val v \<noteq> 0 \<longrightarrow> 10 ^ (d' - 1) \<le> \<bar>bigint_val v\<bar>) \<and>
       (bigint_val v = 0 \<longrightarrow> d' = 1)) (d' = d)"
proof (rule rspec_run2 [OF _ assms(1)], rule decimal_digits_wp [OF assms(2)], unfold prod.case, erule outcome_mono)
  let ?n = "bigint_mag v"
  let ?ds = "numeral_digits 10 ?n"
  fix d'
  assume d': "d' = length ?ds"
  have "?n < 10 ^ length ?ds"
    using digits_value_less [of ?ds 10] numeral_digits_value [of 10 ?n] numeral_digits_less [of 10 _ ?n] by simp
  then have "int ?n < int (10 ^ d')" unfolding d' by (simp only: of_nat_less_iff)
  moreover have low: "10 ^ (length ?ds - 1) \<le> ?n" if "?n \<noteq> 0"
  proof (rule ccontr)
    assume "\<not> ?thesis"
    then have less: "?n < 10 ^ (length ?ds - 1)" by simp
    then have "length ?ds - 1 \<noteq> 0" using that by (metis less_one power_0)
    from numeral_digits_length [OF _ less this] show False using \<open>length ?ds - 1 \<noteq> 0\<close> by simp
  qed
  have "int (10 ^ (d' - 1)) \<le> int ?n" if "?n \<noteq> 0"
    unfolding d' of_nat_le_iff using that by (rule low)
  moreover have "d' = 1" if "?n = 0" using that unfolding d' by (simp add: numeral_digits.simps [of 10 0])
  moreover have "0 < d'" unfolding d' by simp
  ultimately show "0 < d' \<and> \<bar>bigint_val v\<bar> < 10 ^ d' \<and> (bigint_val v \<noteq> 0 \<longrightarrow> 10 ^ (d' - 1) \<le> \<bar>bigint_val v\<bar>) \<and>
       (bigint_val v = 0 \<longrightarrow> d' = 1)"
    by (simp add: bigint_val_def split: if_splits)
qed simp_all

theorem bigint_decimal_digits_correct_witness:
  "case run_state (bigint_decimal_digits (bigint_wrap_uint64 100) 0) idle_runtime of ((st, d'), s') \<Rightarrow>
     st = BIGINT_OK \<and> (100 :: int) < 10 ^ d' \<and> (10 :: int) ^ (d' - 1) \<le> 100"
  using bigint_decimal_digits_correct [of idle_runtime "bigint_wrap_uint64 100" 0]
  by (auto simp: outcome_def resource_failure_def split: prod.splits if_splits)

end
