(* ===== verification/Prime_Facts.thy ===== *)
theory Prime_Facts
  imports Main
begin

text \<open>
  The number theory behind the Miller-Rabin test and the integer square root: Euclid's lemma
  and Fermat's little theorem for primes, the strong probable prime condition of a base, and
  the integer square root.
\<close>

section \<open>Primes\<close>

definition is_prime :: "nat \<Rightarrow> bool" where
  "is_prime p \<longleftrightarrow> 1 < p \<and> (\<forall>d. d dvd p \<longrightarrow> d = 1 \<or> d = p)"

lemma is_prime_gt_1: "is_prime p \<Longrightarrow> 1 < p"
  by (simp add: is_prime_def)

lemma is_primeI:
  assumes "1 < p" "list_all (\<lambda>d. \<not> d dvd p) [2..<p]"
  shows "is_prime p"
proof -
  have "d = 1 \<or> d = p" if "d dvd p" for d
  proof -
    have "d \<le> p" "d \<noteq> 0" using that assms(1) by (auto dest: dvd_imp_le intro!: Nat.gr0I)
    moreover have "\<not> (2 \<le> d \<and> d < p)" using that assms(2) by (auto simp: list_all_iff)
    ultimately show ?thesis by linarith
  qed
  with assms(1) show ?thesis by (simp add: is_prime_def)
qed

lemma is_prime_coprime: "is_prime p \<Longrightarrow> \<not> p dvd a \<Longrightarrow> coprime p a"
  unfolding is_prime_def coprime_iff_gcd_eq_1 by (metis gcd_dvd1 gcd_dvd2)

lemma is_prime_dvd_mult: "is_prime p \<Longrightarrow> p dvd a * b \<Longrightarrow> p dvd a \<or> p dvd b"
  using is_prime_coprime coprime_dvd_mult_right_iff by blast

lemma is_prime_not_dvd_fact: "is_prime p \<Longrightarrow> n < p \<Longrightarrow> \<not> p dvd (fact n :: nat)"
proof (induction n)
  case 0
  then show ?case using is_prime_gt_1 by (auto simp: nat_dvd_1_iff_1)
next
  case (Suc n)
  then have "\<not> p dvd Suc n" by (auto dest: dvd_imp_le)
  then show ?case using Suc is_prime_dvd_mult [of p "Suc n" "fact n"] by auto
qed

text \<open>Multiplication by \<open>a\<close> permutes the residues from 1 to \<open>p - 1\<close>.\<close>

lemma residues_permute:
  assumes p: "is_prime p" and a: "\<not> p dvd a"
  shows "bij_betw (\<lambda>x. a * x mod p) {1..p - 1} {1..p - 1}"
proof -
  let ?f = "\<lambda>x. a * x mod p"
  have cop: "coprime a p" using is_prime_coprime [OF p a] by (simp add: ac_simps)
  have inj: "inj_on ?f {1..p - 1}"
  proof (rule linorder_inj_onI')
    fix x y
    assume xy: "x \<in> {1..p - 1}" "y \<in> {1..p - 1}" "x < y"
    show "?f x \<noteq> ?f y"
    proof
      assume "?f x = ?f y"
      then have "p dvd a * y - a * x" using xy by (intro mod_eq_dvd_iff_nat [THEN iffD1]) auto
      then have "p dvd a * (y - x)" by (simp add: diff_mult_distrib2)
      then have "p dvd y - x" using cop by (simp add: coprime_dvd_mult_right_iff ac_simps)
      then show False using xy by (auto dest: dvd_imp_le)
    qed
  qed
  have "?f x \<in> {1..p - 1}" if "x \<in> {1..p - 1}" for x
  proof -
    have "\<not> p dvd x" using that by (auto dest: dvd_imp_le)
    then have "\<not> p dvd a * x" using p a is_prime_dvd_mult by blast
    then have "?f x \<noteq> 0" by (simp add: dvd_eq_mod_eq_0)
    moreover have "?f x < p" using is_prime_gt_1 [OF p] by simp
    ultimately show ?thesis by simp
  qed
  then have "?f ` {1..p - 1} = {1..p - 1}" by (intro endo_inj_surj inj) auto
  with inj show ?thesis by (simp add: bij_betw_def)
qed

theorem fermat_little:
  assumes p: "is_prime p" and a: "\<not> p dvd a"
  shows "a ^ (p - 1) mod p = 1"
proof -
  let ?F = "fact (p - 1) :: nat"
  have "?F = (\<Prod>x \<in> {1..p - 1}. x)" by (simp add: fact_prod)
  also have "\<dots> = (\<Prod>x \<in> {1..p - 1}. a * x mod p)"
    by (rule prod.reindex_bij_betw [OF residues_permute [OF p a], symmetric])
  finally have "?F mod p = (\<Prod>x \<in> {1..p - 1}. a * x) mod p" by (simp only: mod_prod_eq)
  also have "(\<Prod>x \<in> {1..p - 1}. a * x) = a ^ (p - 1) * ?F" by (simp add: prod.distrib fact_prod)
  finally have eq: "(a ^ (p - 1) * ?F) mod p = ?F mod p" ..
  have pos: "?F \<le> a ^ (p - 1) * ?F" using a by (cases "a = 0") simp_all
  have "p dvd a ^ (p - 1) * ?F - ?F" using eq pos by (simp add: mod_eq_dvd_iff_nat)
  then have "p dvd (a ^ (p - 1) - 1) * ?F" by (simp add: diff_mult_distrib)
  moreover have "\<not> p dvd ?F" using p is_prime_gt_1 [OF p] by (intro is_prime_not_dvd_fact) auto
  ultimately have "p dvd a ^ (p - 1) - 1" using is_prime_dvd_mult [OF p] by blast
  moreover have "1 \<le> a ^ (p - 1)" using a by (cases "a = 0") simp_all
  ultimately have "a ^ (p - 1) mod p = 1 mod p" by (subst mod_eq_dvd_iff_nat) simp_all
  then show ?thesis using is_prime_gt_1 [OF p] by simp
qed

section \<open>Strong probable primes\<close>

text \<open>The condition that a base \<open>a\<close> puts on \<open>n = 2 ^ s * d + 1\<close>.\<close>

definition strong_probable_prime :: "nat \<Rightarrow> nat \<Rightarrow> nat \<Rightarrow> nat \<Rightarrow> bool" where
  "strong_probable_prime n s d a \<longleftrightarrow>
     n dvd a \<or> a ^ d mod n = 1 \<or> (\<exists>r < s. a ^ (2 ^ r * d) mod n = n - 1)"

lemma square_root_of_one:
  assumes "is_prime p" "x * x mod p = 1"
  shows "x mod p = 1 \<or> x mod p = p - 1"
proof -
  have p: "1 < p" using assms(1) by (rule is_prime_gt_1)
  have "x \<noteq> 0" using assms(2) by (cases "x = 0") simp_all
  then have "1 \<le> x * x" by (simp add: Suc_le_eq)
  then have "p dvd x * x - 1" using assms(2) p mod_eq_dvd_iff_nat [of 1 "x * x" p] by simp
  moreover have "x * x - 1 = (x - 1) * (x + 1)" by (simp add: algebra_simps)
  ultimately have "p dvd x - 1 \<or> p dvd x + 1" using is_prime_dvd_mult [OF assms(1)] by metis
  then show ?thesis
  proof
    assume "p dvd x - 1"
    then have "x mod p = 1 mod p" using \<open>x \<noteq> 0\<close> by (subst mod_eq_dvd_iff_nat) simp_all
    then show ?thesis using p by simp
  next
    assume "p dvd x + 1"
    then have "(x + 1) mod p = 0" by (simp add: dvd_eq_mod_eq_0)
    then have "Suc (x mod p) mod p = 0" by (simp add: mod_Suc_eq)
    then have "Suc (x mod p) = p" using p by (metis Suc_lessI mod_less mod_less_divisor nat.distinct(1) order_less_trans zero_less_one)
    then show ?thesis by linarith
  qed
qed

lemma prime_strong_probable_prime:
  assumes p: "is_prime p" and dec: "p - 1 = 2 ^ s * d"
  shows "strong_probable_prime p s d a"
proof (cases "p dvd a")
  case False
  have "a ^ (2 ^ j * d) mod p = 1 \<Longrightarrow> a ^ d mod p = 1 \<or> (\<exists>r < j. a ^ (2 ^ r * d) mod p = p - 1)" for j
  proof (induction j)
    case (Suc j)
    have "a ^ (2 ^ Suc j * d) = a ^ (2 ^ j * d) * a ^ (2 ^ j * d)"
      by (simp add: mult.assoc flip: power_add mult_2)
    with Suc.prems have "a ^ (2 ^ j * d) mod p = 1 \<or> a ^ (2 ^ j * d) mod p = p - 1"
      by (intro square_root_of_one [OF p]) simp
    with Suc.IH show ?case using less_Suc_eq by blast
  qed simp
  moreover have "a ^ (2 ^ s * d) mod p = 1" using fermat_little [OF p False] unfolding dec .
  ultimately show ?thesis by (auto simp: strong_probable_prime_def)
qed (simp add: strong_probable_prime_def)

section \<open>Integer square roots\<close>

definition is_sqrt :: "nat \<Rightarrow> nat \<Rightarrow> bool" where
  "is_sqrt n r \<longleftrightarrow> r * r \<le> n \<and> n < (r + 1) * (r + 1)"

lemma is_sqrt_exists: "\<exists>r. is_sqrt n r"
proof (induction n)
  case 0
  then show ?case by (auto simp: is_sqrt_def intro: exI [of _ 0])
next
  case (Suc n)
  then obtain r where r: "r * r \<le> n" "n < (r + 1) * (r + 1)" by (auto simp: is_sqrt_def)
  show ?case
  proof (cases "Suc n < (r + 1) * (r + 1)")
    case True
    then show ?thesis using r by (auto simp: is_sqrt_def intro!: exI [of _ r])
  next
    case False
    then show ?thesis using r by (auto simp: is_sqrt_def intro!: exI [of _ "r + 1"])
  qed
qed

lemma is_sqrt_unique: "is_sqrt n r \<Longrightarrow> is_sqrt n s \<Longrightarrow> r = s"
proof (rule ccontr)
  have less: False if "is_sqrt n r" "is_sqrt n s" "r < s" for r s
    using that mult_mono [of "r + 1" s "r + 1" s] by (auto simp: is_sqrt_def)
  assume "is_sqrt n r" "is_sqrt n s" "r \<noteq> s"
  then show False using less [of r s] less [of s r] by linarith
qed

text \<open>A Newton step from above stays above the root, and ends the iteration only at it.\<close>

lemma newton_step:
  assumes s: "is_sqrt n s" and r: "s \<le> r" "0 < r"
  shows "s \<le> (n div r + r) div 2" "r \<le> (n div r + r) div 2 \<Longrightarrow> r = s"
proof -
  have "2 * s \<le> n div r + r"
  proof (cases "2 * s \<le> r")
    case False
    then obtain k where k: "2 * s = r + k" by (metis le_Suc_ex nat_le_linear)
    have "int (k * r) \<le> int (s * s)"
    proof -
      have k': "int k = 2 * int s - int r" using k by linarith
      have "int s * int s - int k * int r = (int s - int r) * (int s - int r)"
        unfolding k' by (simp add: algebra_simps)
      then have "int k * int r \<le> int s * int s" using zero_le_square [of "int s - int r"] by linarith
      then show ?thesis by simp
    qed
    then have "k * r \<le> n" using s unfolding is_sqrt_def by linarith
    then have "k \<le> n div r" using r(2) by (simp add: less_eq_div_iff_mult_less_eq)
    then show ?thesis using k by simp
  qed simp
  then show "s \<le> (n div r + r) div 2" by simp
  assume "r \<le> (n div r + r) div 2"
  then have "r \<le> n div r" by linarith
  then have "r * r \<le> n" using r(2) by (simp add: less_eq_div_iff_mult_less_eq)
  then have "\<not> s < r"
    using s mult_mono [of "s + 1" r "s + 1" r] by (auto simp: is_sqrt_def)
  with r(1) show "r = s" by simp
qed

end
