(* ===== verification/BigInt_Roots.thy ===== *)
theory BigInt_Roots
  imports BigInt_Conversion Prime_Facts
begin

text \<open>
  The integer square root by Newton's iteration, \<^verbatim>\<open>src/core/bigint/roots.c\<close>.
  The specification \<open>is_sqrt n r\<close> says that \<open>r\<close> is the floor of the root of \<open>n\<close>.
  \<^verbatim>\<open>bigint_destroy\<close> of the temporaries only frees them and has no counterpart.
\<close>

section \<open>Newton's iteration\<close>

text \<open>The iterates decrease, so the starting value plus one bounds their number.\<close>

primrec sqrt_loop :: "nat \<Rightarrow> BigInt \<Rightarrow> BigInt \<Rightarrow> BigInt \<Rightarrow> (BigIntStatus \<times> BigInt) rt" where
  "sqrt_loop 0 number next_root the_root = out_of_fuel (BIGINT_OK, the_root)"
| "sqrt_loop (Suc fuel) number next_root the_root = do {
     go \<leftarrow> numforge_budget_check;
     if \<not> go then State_Monad.return (BIGINT_OUT_OF_MEMORY, the_root)
     else do {
       (status, next_root) \<leftarrow> bigint_div next_root number the_root;
       (status, next_root) \<leftarrow> (if status = BIGINT_OK then bigint_add next_root next_root the_root
                              else State_Monad.return (status, next_root));
       (status, next_root) \<leftarrow> (if status = BIGINT_OK then bigint_shift_right next_root next_root 1
                              else State_Monad.return (status, next_root));
       if status \<noteq> BIGINT_OK \<or> bigint_compare next_root the_root \<ge> 0 then State_Monad.return (status, the_root)
       else do {
         (status, the_root) \<leftarrow> bigint_copy the_root next_root;
         if status = BIGINT_OK then sqrt_loop fuel number next_root the_root
         else State_Monad.return (status, the_root)
       }
     }
   }"

definition integer_sqrt_impl :: "BigInt \<Rightarrow> BigInt \<Rightarrow> (BigIntStatus \<times> BigInt) rt" where
  "integer_sqrt_impl the_root number =
    (if bigint_is_zero number then bigint_set_string the_root ''0''
     else
       (let bits = top_bits (limbs number ! (bsize number - 1)) ((bsize number - 1) * 64)
        in do {
          created \<leftarrow> bigint_create;
          case created of
            None \<Rightarrow> State_Monad.return (BIGINT_OUT_OF_MEMORY, the_root)
          | Some next_root \<Rightarrow> do {
              (status, the_root) \<leftarrow> bigint_set_string the_root ''1'';
              (status, the_root) \<leftarrow> (if status = BIGINT_OK
                 then bigint_shift_left the_root the_root (bits div 2 + bits mod 2)
                 else State_Monad.return (status, the_root));
              if status = BIGINT_OK then sqrt_loop (bigint_mag the_root + 1) number next_root the_root
              else State_Monad.return (status, the_root)
            }
        }))"

definition bigint_isqrt :: "BigInt \<Rightarrow> BigInt \<Rightarrow> (BigIntStatus \<times> BigInt) rt" where
  "bigint_isqrt result value =
    (if bigint_is_negative value then State_Monad.return (BIGINT_NEGATIVE_ARGUMENT, result)
     else do {
       created \<leftarrow> bigint_create;
       case created of
         None \<Rightarrow> State_Monad.return (BIGINT_OUT_OF_MEMORY, result)
       | Some temporary \<Rightarrow> do {
           (status, temporary) \<leftarrow> integer_sqrt_impl temporary value;
           if status = BIGINT_OK then bigint_copy result temporary
           else State_Monad.return (status, result)
         }
     })"

section \<open>Operations on natural numbers\<close>

lemma holds_nat_div:
  assumes a: "holds_nat a x" and b: "holds_nat b y" "y \<noteq> 0"
    and Q: "\<And>st q'. outcome u True st (holds_nat q' (x div y)) (q' = q) \<Longrightarrow> Q (st, q')"
  shows "rspec u (bigint_div q a b) Q"
proof (rule div_wp [OF holds_natD(1) [OF a] holds_natD(1) [OF b(1)]])
  fix st q'
  assume "if limbs b = [] then st = BIGINT_DIVISION_BY_ZERO \<and> q' = q
    else result_ok u True q (tdiv (bigint_val a) (bigint_val b)) st q'"
  then show "Q (st, q')"
    using b(2) holds_natD(7) [OF b(1)] holds_natD(2) [OF a] holds_natD(2) [OF b(1)]
    by (auto simp: result_ok_def tdiv_nonneg zdiv_int holds_nat_def intro!: Q elim!: outcome_mono)
qed

lemma holds_nat_mod:
  assumes a: "holds_nat a x" and b: "holds_nat b y" "y \<noteq> 0"
    and Q: "\<And>st r'. outcome u True st (holds_nat r' (x mod y)) (r' = r) \<Longrightarrow> Q (st, r')"
  shows "rspec u (bigint_mod r a b) Q"
proof (rule mod_wp [OF holds_natD(1) [OF a] holds_natD(1) [OF b(1)]])
  have t: "tmod (int x) (int y) = int (x mod y)" by (cases "x = 0") (simp_all add: tmod_def zmod_int)
  fix st r'
  assume "if limbs b = [] then st = BIGINT_DIVISION_BY_ZERO \<and> r' = r
    else result_ok u True r (tmod (bigint_val a) (bigint_val b)) st r'"
  then show "Q (st, r')"
    using b(2) holds_natD(7) [OF b(1)] holds_natD(2) [OF a] holds_natD(2) [OF b(1)]
    by (auto simp: result_ok_def t holds_nat_def intro!: Q elim!: outcome_mono)
qed

lemma holds_nat_compare_iffs:
  assumes "holds_nat a x" "holds_nat b y"
  shows "0 \<le> bigint_compare a b \<longleftrightarrow> y \<le> x" "bigint_compare a b = 0 \<longleftrightarrow> x = y"
    "bigint_compare a b \<le> 0 \<longleftrightarrow> x \<le> y" "bigint_compare a b < 0 \<longleftrightarrow> x < y"
  by (auto simp: holds_nat_compare [OF assms] sgn_if)

lemma holds_nat_shift_right:
  assumes a: "holds_nat a x" and "storage_ok r"
    and Q: "\<And>st r'. outcome u True st (holds_nat r' (x div 2 ^ n)) (r' = r) \<Longrightarrow> Q (st, r')"
  shows "rspec u (bigint_shift_right r a n) Q"
  by (rule shift_right_wp [OF assms(2) holds_natD(1) [OF a]], rule Q)
    (use holds_natD(2) [OF a] in \<open>auto simp: result_ok_def tdiv_nonneg zdiv_int holds_nat_def elim!: outcome_mono\<close>)

lemma holds_nat_shift_left:
  assumes a: "holds_nat a x" and "storage_ok r"
    and Q: "\<And>st r'. outcome u (bsize a + n div 64 + 1 \<le> BIGINT_MAX_LIMBS) st (holds_nat r' (x * 2 ^ n)) (r' = r) \<Longrightarrow> Q (st, r')"
  shows "rspec u (bigint_shift_left r a n) Q"
  by (rule shift_left_wp [OF assms(2) holds_natD(1) [OF a]], rule Q)
    (use holds_natD(2) [OF a] in \<open>auto simp: result_ok_def holds_nat_def elim!: outcome_mono\<close>)

text \<open>A link of a chain \<^verbatim>\<open>if (status == BIGINT_OK) status = ...\<close>: go on after success,
  fall through after a failure.\<close>

lemma chain_link:
  assumes "st = BIGINT_OK \<Longrightarrow> rspec u (State_Monad.bind m f) Q"
    and "st \<noteq> BIGINT_OK \<Longrightarrow> rspec u (f (st, d)) Q"
  shows "rspec u (State_Monad.bind (if st = BIGINT_OK then m else State_Monad.return (st, d)) f) Q"
  using assms by (cases "st = BIGINT_OK") simp_all

section \<open>The iteration reaches the root\<close>

lemma holds_nat_le_bsize: "holds_nat x m \<Longrightarrow> m < LB ^ bsize v \<Longrightarrow> bsize x \<le> bsize v"
  by (rule holds_nat_bsize)

lemma sqrt_loop_wp:
  assumes n: "holds_nat num n" and s: "is_sqrt n s" "0 < s" and F: "F \<Longrightarrow> Suc (bsize num) \<le> BIGINT_MAX_LIMBS"
    and Q: "\<And>st x'. outcome u F st (holds_nat x' s) True \<Longrightarrow> Q (st, x')"
  shows "holds_nat x r \<Longrightarrow> s \<le> r \<Longrightarrow> r < LB ^ bsize num \<Longrightarrow> r < fuel \<Longrightarrow> storage_ok y \<Longrightarrow>
    rspec u (sqrt_loop fuel num y x) Q"
proof (induction fuel arbitrary: x y r)
  case (Suc fuel)
  have r: "r \<noteq> 0" using Suc.prems(2) s(2) by simp
  let ?t = "(n div r + r) div 2"
  note step = newton_step [OF s(1) Suc.prems(2)]
  have F': "Suc (max (bsize q) (bsize x)) \<le> BIGINT_MAX_LIMBS" if F "holds_nat q (n div r)" for q
  proof -
    have "n div r \<le> n" by simp
    also have "n < LB ^ bsize num" using mag_less [of "limbs num"] holds_natD(3) [OF n] by simp
    finally have "bsize q \<le> bsize num" by (rule holds_nat_bsize [OF that(2)])
    moreover have "bsize x \<le> bsize num" using Suc.prems(1,3) by (rule holds_nat_bsize)
    ultimately show ?thesis using F [OF that(1)] by simp
  qed
  have fail: "Q (st, z)" if "resource_failure u X st" "F \<Longrightarrow> X" for st X z
    by (rule Q, rule outcome_failI [OF that(1)]) (use that(2) in simp_all)
  have last: "rspec u (if st \<noteq> BIGINT_OK \<or> bigint_compare y' x \<ge> 0 then State_Monad.return (st, x)
      else do { (status, x) \<leftarrow> bigint_copy x y';
                if status = BIGINT_OK then sqrt_loop fuel num y' x else State_Monad.return (status, x) }) Q"
    if o: "st = BIGINT_OK \<Longrightarrow> holds_nat y' ?t" and bad: "st \<noteq> BIGINT_OK \<Longrightarrow> Q (st, x)" for st y'
  proof -
    consider "st \<noteq> BIGINT_OK" | "st = BIGINT_OK" "r \<le> ?t" | "st = BIGINT_OK" "\<not> r \<le> ?t" by blast
    then show ?thesis
  proof cases
    case 1
    then show ?thesis using bad by (simp add: triple_return)
  next
    case True: 2
    then have y': "holds_nat y' ?t" "st = BIGINT_OK" using o by simp_all
    have "r = s" using step(2) r True by simp
    then have "Q (BIGINT_OK, x)" using Suc.prems(1) by (intro Q) simp
    with True show ?thesis
      by (simp add: holds_nat_compare_iffs [OF y'(1) Suc.prems(1)] triple_return)
  next
    case False: 3
    then have y': "holds_nat y' ?t" "st = BIGINT_OK" using o by simp_all
    have go: "\<not> (st \<noteq> BIGINT_OK \<or> bigint_compare y' x \<ge> 0)"
      using y' False by (simp add: holds_nat_compare_iffs [OF y'(1) Suc.prems(1)])
    show ?thesis
      unfolding if_not_P [OF go]
    proof (rule triple_bind, rule holds_nat_copy [OF y'(1) holds_natD(6) [OF Suc.prems(1)]], rule triple_case_pair)
      fix st z
      assume o: "outcome u True st (holds_nat z ?t) True"
      show "rspec u (if st = BIGINT_OK then sqrt_loop fuel num y' z else State_Monad.return (st, z)) Q"
        using o step(1) r False Suc.prems(3,4) holds_natD(6) [OF y'(1)]
        by (auto intro!: triple_if triple_return Suc.IH [of z ?t] fail)
    qed
  qed
  qed
  show ?case
    unfolding sqrt_loop.simps
    by (intro triple_bind [of _ numforge_budget_check] budget_check_wp
        triple_if [of _ _ "State_Monad.return (BIGINT_OUT_OF_MEMORY, _)"]
        triple_bind [of _ "bigint_div _ _ _"] holds_nat_div [OF n Suc.prems(1) r] triple_case_pair chain_link
        triple_bind [of _ "bigint_add _ _ _"] holds_nat_add [OF _ Suc.prems(1)]
        triple_bind [of _ "bigint_shift_right _ _ _"] holds_nat_shift_right last;
        (force dest: holds_natD(6); fail | simp add: triple_return fail [of True]; fail
         | simp add: triple_return fail [OF _ F']; fail)?)
qed simp

lemma set_digit_wp:
  assumes d: "is_numeral 10 cs" "numeral_mag 10 cs = m" "numeral_value 10 cs = int m" "m < 2"
    and x: "\<And>st x'. outcome u True st (holds_nat x' m) (x' = x) \<Longrightarrow> Q (st, x')"
  shows "rspec u (bigint_set_string x cs) Q"
proof (rule set_string_wp, rule x)
  have "m < 2 ^ 64" using d(4) by simp
  then have "m < LB ^ (BIGINT_MAX_LIMBS - 1)" by (rule example_bound)
  moreover fix st x'
  assume "if is_numeral 10 cs then result_ok u (numeral_mag 10 cs < LB ^ (BIGINT_MAX_LIMBS - 1)) x (numeral_value 10 cs) st x'
    else st = BIGINT_INVALID_ARGUMENT \<and> x' = x"
  ultimately show "outcome u True st (holds_nat x' m) (x' = x)"
    using d(1-3) by (simp add: result_ok_def holds_nat_def)
qed

lemma digit_texts:
  "is_numeral 10 ''0''" "numeral_mag 10 ''0'' = 0" "numeral_value 10 ''0'' = int 0"
  "is_numeral 10 ''1''" "numeral_mag 10 ''1'' = 1" "numeral_value 10 ''1'' = int 1"
  by code_simp+

lemma integer_sqrt_wp:
  assumes n: "holds_nat num n" and s: "is_sqrt n s" and x: "storage_ok x"
    and Q: "\<And>st x'. outcome u (Suc (bsize num) \<le> BIGINT_MAX_LIMBS) st (holds_nat x' s) True \<Longrightarrow> Q (st, x')"
  shows "rspec u (integer_sqrt_impl x num) Q"
proof (cases "n = 0")
  case True
  then have "s = 0" using is_sqrt_unique [OF s, of 0] by (simp add: is_sqrt_def)
  then have "Q (st, x')" if "outcome u True st (holds_nat x' 0) (x' = x)" for st x'
    using that by (intro Q) (auto elim: outcome_mono)
  moreover have "bigint_is_zero num" using True holds_natD [OF n] is_zero_iff by simp
  ultimately show ?thesis
    unfolding integer_sqrt_impl_def by (auto intro!: triple_if set_digit_wp digit_texts(1-3))
next
  case False
  let ?F = "Suc (bsize num) \<le> BIGINT_MAX_LIMBS"
  let ?bits = "bigint_bit_length num"
  let ?k = "?bits div 2 + ?bits mod 2"
  have ne: "limbs num \<noteq> []" using False holds_natD(7) [OF n] by simp
  have nz: "\<not> bigint_is_zero num" using False holds_natD [OF n] is_zero_iff by simp
  have bits: "top_bits (limbs num ! (bsize num - 1)) ((bsize num - 1) * 64) = ?bits"
    using ne by (simp add: bigint_bit_length_def)
  have canon: "canonical (limbs num)" using holds_natD(1) [OF n] by (rule bigint_wfD)
  have half: "b div 2 + b mod 2 \<le> m" if "b \<le> 2 * m" for b m :: nat
    using that by (cases "even b") (auto elim!: evenE oddE)
  have k: "?k \<le> 32 * bsize num" using bit_length_bsize [OF canon] by (intro half) simp
  have small: "2 ^ ?k < LB ^ bsize num"
    unfolding LB_power using k ne by (intro power_strict_increasing) (cases "limbs num"; simp)+
  have above: "s \<le> 2 ^ ?k"
  proof (rule ccontr)
    assume "\<not> s \<le> 2 ^ ?k"
    then have "2 ^ ?k * 2 ^ ?k \<le> s * s" by (intro mult_mono) simp_all
    also have "\<dots> \<le> n" using s by (simp add: is_sqrt_def)
    also have "n < 2 ^ ?bits" using bit_length_correct(3) [OF canon ne] holds_natD(3) [OF n] by simp
    also have "?bits \<le> ?k + ?k" using div_mult_mod_eq [of ?bits 2] by linarith
    then have "(2 :: nat) ^ ?bits \<le> 2 ^ (?k + ?k)" by (rule power_increasing) simp
    finally show False by (simp add: power_add)
  qed
  have pos: "0 < s" using s False by (cases "s = 0") (auto simp: is_sqrt_def)
  have shift_fits: "bsize r + ?k div 64 + 1 \<le> BIGINT_MAX_LIMBS" if r: "holds_nat r 1" and F: ?F for r
  proof -
    have "bsize r \<le> 1" by (rule holds_nat_bsize [OF r]) (simp add: LB_def)
    moreover have "?k div 64 \<le> bsize num div 2" using k by linarith
    moreover have "1 \<le> bsize num" using ne by (cases "limbs num") simp_all
    ultimately show ?thesis using F by linarith
  qed
  have fail: "Q (st, z)" if "resource_failure u X st" "?F \<Longrightarrow> X" for st X z
    by (rule Q, rule outcome_failI [OF that(1)]) (use that(2) in simp_all)
  show ?thesis
    unfolding integer_sqrt_impl_def if_not_P [OF nz] Let_def bits
  proof (rule triple_bind, rule create_wp)
    fix p
    assume p: "p = Some bigint_init \<or> \<not> u \<and> p = None"
    have go: "rspec u (do {
        (status, r) \<leftarrow> bigint_set_string x ''1'';
        (status, r) \<leftarrow> (if status = BIGINT_OK then bigint_shift_left r r ?k else State_Monad.return (status, r));
        if status = BIGINT_OK then sqrt_loop (bigint_mag r + 1) num bigint_init r
        else State_Monad.return (status, r) }) Q"
    proof (rule triple_bind, rule set_digit_wp [OF digit_texts(4-6)], simp, rule triple_case_pair, rule chain_link)
      fix st r
      assume o: "outcome u True st (holds_nat r 1) (r = x)"
      show "rspec u (case (st, r) of (status, r) \<Rightarrow> if status = BIGINT_OK
          then sqrt_loop (bigint_mag r + 1) num bigint_init r else State_Monad.return (status, r)) Q"
        if "st \<noteq> BIGINT_OK" using o that by (simp add: triple_return fail [of True])
      assume "st = BIGINT_OK"
      with o have r: "holds_nat r 1" by simp
      show "rspec u (bigint_shift_left r r ?k \<bind> (\<lambda>(status, r). if status = BIGINT_OK
          then sqrt_loop (bigint_mag r + 1) num bigint_init r else State_Monad.return (status, r))) Q"
      proof (rule triple_bind, rule holds_nat_shift_left [OF r holds_natD(6) [OF r]], rule triple_case_pair, rule triple_if)
        fix st r'
        assume o: "outcome u (bsize r + ?k div 64 + 1 \<le> BIGINT_MAX_LIMBS) st (holds_nat r' (1 * 2 ^ ?k)) (r' = r)"
        show "rspec u (State_Monad.return (st, r')) Q" if "st \<noteq> BIGINT_OK"
          using o that by (simp add: triple_return fail [OF _ shift_fits [OF r]])
        assume "st = BIGINT_OK"
        then have r': "holds_nat r' (2 ^ ?k)" using o by simp
        show "rspec u (sqrt_loop (bigint_mag r' + 1) num bigint_init r') Q"
          by (rule sqrt_loop_wp [where F = ?F and r = "2 ^ ?k", OF n s pos])
            (simp_all add: holds_natD(3) [OF r'] r' above small Q)
      qed
    qed
    show "rspec u (case p of None \<Rightarrow> State_Monad.return (BIGINT_OUT_OF_MEMORY, x)
        | Some next_root \<Rightarrow> do {
            (status, r) \<leftarrow> bigint_set_string x ''1'';
            (status, r) \<leftarrow> (if status = BIGINT_OK then bigint_shift_left r r ?k else State_Monad.return (status, r));
            if status = BIGINT_OK then sqrt_loop (bigint_mag r + 1) num next_root r
            else State_Monad.return (status, r) }) Q"
      using p go by (auto intro!: triple_return Q)
  qed
qed

lemma isqrt_wp [wp]:
  assumes r: "storage_ok r" and v: "bigint_wf v"
    and Q: "\<And>st r'. (if bigint_val v < 0 then st = BIGINT_NEGATIVE_ARGUMENT \<and> r' = r
      else \<exists>s. is_sqrt (bigint_mag v) s \<and> result_ok u (Suc (bsize v) \<le> BIGINT_MAX_LIMBS) r (int s) st r') \<Longrightarrow> Q (st, r')"
  shows "rspec u (bigint_isqrt r v) Q"
proof (cases "bigint_val v < 0")
  case True
  then have "bigint_is_negative v" using is_negative_iff [OF v] by simp
  with True show ?thesis unfolding bigint_isqrt_def by (simp add: triple_return Q)
next
  case False
  obtain s where s: "is_sqrt (bigint_mag v) s" using is_sqrt_exists by blast
  have n: "holds_nat v (bigint_mag v)" using False v by (auto simp: holds_nat_def bigint_val_def split: if_splits)
  have neg: "\<not> bigint_is_negative v" using False is_negative_iff [OF v] by simp
  let ?F = "Suc (bsize v) \<le> BIGINT_MAX_LIMBS"
  have fin: "Q (st, r')" if "result_ok u ?F r (int s) st r'" for st r'
    using False s that by (intro Q) auto
  have fail: "Q (st, r)" if "resource_failure u X st" "?F \<Longrightarrow> X" for st X
    using that by (intro fin result_ok_failI)
  have copied: "Q (st, d)" if "outcome u True st (holds_nat d s) (d = r)" for st d
    using that by (intro fin) (auto simp: result_ok_def holds_nat_def elim!: outcome_mono)
  have go: "rspec u (do {
      (status, x) \<leftarrow> integer_sqrt_impl bigint_init v;
      if status = BIGINT_OK then bigint_copy r x else State_Monad.return (status, r) }) Q"
  proof (rule triple_bind, rule integer_sqrt_wp [OF n s storage_ok_init], rule triple_case_pair, rule triple_if)
    fix st x
    assume o: "outcome u ?F st (holds_nat x s) True"
    show "rspec u (State_Monad.return (st, r)) Q" if "st \<noteq> BIGINT_OK"
      using o that by (simp add: triple_return fail [of ?F])
    assume "st = BIGINT_OK"
    then have x: "holds_nat x s" using o by simp
    show "rspec u (bigint_copy r x) Q"
      by (rule copy_wp [OF r holds_natD(1) [OF x]], rule copied)
        (use holds_natD(2) [OF x] in \<open>auto simp: holds_nat_def elim!: outcome_mono\<close>)
  qed
  show ?thesis
    unfolding bigint_isqrt_def if_not_P [OF neg]
    using go by (auto intro!: triple_bind create_wp triple_return fail [of True])
qed

section \<open>Properties\<close>

text \<open>C29: The integer square root. \<open>bigint_isqrt\<close> returns the floor of the exact root, its
  Newton iteration ends, and a negative argument is rejected.\<close>

theorem bigint_isqrt_correct:
  assumes "\<not> stuck s" "storage_ok r" "bigint_wf v"
  shows "case run_state (bigint_isqrt r v) s of ((st, r'), s') \<Rightarrow> \<not> stuck s' \<and>
    (if bigint_val v < 0 then st = BIGINT_NEGATIVE_ARGUMENT \<and> r' = r
     else outcome (unlimited s) (Suc (bsize v) \<le> BIGINT_MAX_LIMBS) st
       (bigint_wf r' \<and> 0 \<le> bigint_val r' \<and> bigint_val r' * bigint_val r' \<le> bigint_val v \<and>
        bigint_val v < (bigint_val r' + 1) * (bigint_val r' + 1)) (r' = r))"
proof (rule rspec_run2 [OF _ assms(1)], rule isqrt_wp [OF assms(2,3)])
  fix st r'
  assume o: "if bigint_val v < 0 then st = BIGINT_NEGATIVE_ARGUMENT \<and> r' = r
    else \<exists>x. is_sqrt (bigint_mag v) x \<and> result_ok (unlimited s) (Suc (bsize v) \<le> BIGINT_MAX_LIMBS) r (int x) st r'"
  have sq: "int x * int x \<le> bigint_val v \<and> bigint_val v < (int x + 1) * (int x + 1)"
    if "is_sqrt (bigint_mag v) x" "\<not> bigint_val v < 0" for x
  proof -
    have "bigint_val v = int (bigint_mag v)" using that(2) by (auto simp: bigint_val_def split: if_splits)
    moreover have "int (x * x) \<le> int (bigint_mag v)" "int (bigint_mag v) < int ((x + 1) * (x + 1))"
      using that(1) unfolding is_sqrt_def of_nat_le_iff of_nat_less_iff by auto
    ultimately show ?thesis by (simp add: algebra_simps)
  qed
  show "case (st, r') of (st, r') \<Rightarrow> if bigint_val v < 0 then st = BIGINT_NEGATIVE_ARGUMENT \<and> r' = r
     else outcome (unlimited s) (Suc (bsize v) \<le> BIGINT_MAX_LIMBS) st
       (bigint_wf r' \<and> 0 \<le> bigint_val r' \<and> bigint_val r' * bigint_val r' \<le> bigint_val v \<and>
        bigint_val v < (bigint_val r' + 1) * (bigint_val r' + 1)) (r' = r)"
    using o sq by (auto simp: result_ok_def elim!: outcome_mono split: if_splits)
qed

theorem bigint_isqrt_correct_witness:
  "case run_state (bigint_isqrt bigint_init (bigint_wrap_uint64 30)) idle_runtime of ((st, r'), s') \<Rightarrow>
     st = BIGINT_OK \<and> bigint_val r' * bigint_val r' \<le> 30 \<and> 30 < (bigint_val r' + 1) * (bigint_val r' + 1)"
  using bigint_isqrt_correct [of idle_runtime bigint_init "bigint_wrap_uint64 30"]
  by (auto simp: example_simps outcome_def resource_failure_def split: prod.splits if_splits)

end
