(* ===== verification/BigInt_Primality.thy ===== *)
theory BigInt_Primality
  imports BigInt_Roots
begin

text \<open>
  Parity, modular powers, the Miller-Rabin test and the perfect square test of
  \<^verbatim>\<open>src/core/bigint/primality.c\<close>. The theorems relate the test to the strong
  probable prime condition of its seven bases, from which follows that it never rejects a
  prime; that the bases decide every 64-bit value is a published computation and not proved.
\<close>

unbundle bit_operations_syntax

section \<open>Parity and modular powers\<close>

definition bigint_is_even :: "BigInt \<Rightarrow> bool" where
  "bigint_is_even value = (if limbs value = [] then True else limbs value ! 0 AND 1 = 0)"

definition bigint_is_odd :: "BigInt \<Rightarrow> bool" where
  "bigint_is_odd value = (if limbs value = [] then False else limbs value ! 0 AND 1 \<noteq> 0)"

definition bigint_modular_multiply ::
  "BigInt \<Rightarrow> BigInt \<Rightarrow> BigInt \<Rightarrow> BigInt \<Rightarrow> (BigIntStatus \<times> BigInt) rt" where
  "bigint_modular_multiply result a b modulus = do {
     (status, product) \<leftarrow> bigint_mul bigint_init a b;
     if status = BIGINT_OK then bigint_mod result product modulus
     else State_Monad.return (status, result)
   }"

text \<open>The fuel is the number of bits of the exponent.\<close>

primrec modular_pow_loop ::
  "nat \<Rightarrow> BigInt \<Rightarrow> BigInt \<Rightarrow> BigInt \<Rightarrow> BigInt \<Rightarrow> (BigIntStatus \<times> BigInt) rt" where
  "modular_pow_loop 0 modulus accumulator factor remaining = out_of_fuel (BIGINT_OK, accumulator)"
| "modular_pow_loop (Suc fuel) modulus accumulator factor remaining =
    (if limbs remaining \<noteq> [] then do {
       (status, accumulator) \<leftarrow> (if bigint_is_odd remaining
          then bigint_modular_multiply accumulator accumulator factor modulus
          else State_Monad.return (BIGINT_OK, accumulator));
       (status, remaining) \<leftarrow> (if status = BIGINT_OK then bigint_shift_right remaining remaining 1
          else State_Monad.return (status, remaining));
       (status, factor) \<leftarrow> (if status = BIGINT_OK \<and> limbs remaining \<noteq> []
          then bigint_modular_multiply factor factor factor modulus
          else State_Monad.return (status, factor));
       if status = BIGINT_OK then modular_pow_loop fuel modulus accumulator factor remaining
       else State_Monad.return (status, accumulator)
     } else State_Monad.return (BIGINT_OK, accumulator))"

definition bigint_modular_pow ::
  "BigInt \<Rightarrow> BigInt \<Rightarrow> BigInt \<Rightarrow> BigInt \<Rightarrow> (BigIntStatus \<times> BigInt) rt" where
  "bigint_modular_pow result base exponent modulus = do {
     (status, accumulator) \<leftarrow> bigint_set_uint64 bigint_init 1;
     (status, accumulator) \<leftarrow> (if status = BIGINT_OK then bigint_mod accumulator accumulator modulus
        else State_Monad.return (status, accumulator));
     (status, factor) \<leftarrow> (if status = BIGINT_OK then bigint_mod bigint_init base modulus
        else State_Monad.return (status, bigint_init));
     (status, remaining) \<leftarrow> (if status = BIGINT_OK then bigint_copy bigint_init exponent
        else State_Monad.return (status, bigint_init));
     (status, accumulator) \<leftarrow> (if status = BIGINT_OK
        then modular_pow_loop (bigint_bit_length remaining + 1) modulus accumulator factor remaining
        else State_Monad.return (status, accumulator));
     if status = BIGINT_OK then bigint_copy result accumulator
     else State_Monad.return (status, result)
   }"

section \<open>The Miller-Rabin test\<close>

text \<open>The loop \<^verbatim>\<open>for (i = 1; ... && i < squarings; i++)\<close>, on the number of rounds
  left.\<close>

primrec witness_squarings_loop :: "nat \<Rightarrow> BigInt \<Rightarrow> BigInt \<Rightarrow> BigInt \<Rightarrow> (BigIntStatus \<times> bool) rt" where
  "witness_squarings_loop 0 value value_minus_one x = State_Monad.return (BIGINT_OK, False)"
| "witness_squarings_loop (Suc n) value value_minus_one x = do {
     (status, x) \<leftarrow> bigint_modular_multiply x x x value;
     if status = BIGINT_OK then
       (if bigint_compare x value_minus_one = 0 then State_Monad.return (BIGINT_OK, True)
        else witness_squarings_loop n value value_minus_one x)
     else State_Monad.return (status, False)
   }"

definition bigint_miller_rabin_passes ::
  "bool \<Rightarrow> BigInt \<Rightarrow> BigInt \<Rightarrow> nat \<Rightarrow> u64 \<Rightarrow> (BigIntStatus \<times> bool) rt" where
  "bigint_miller_rabin_passes result value odd_part squarings witness =
    (let witness_value = bigint_wrap_uint64 witness; one = bigint_wrap_uint64 1
     in do {
       (status, value_minus_one) \<leftarrow> bigint_sub bigint_init value one;
       (status, x) \<leftarrow> (if status = BIGINT_OK then bigint_mod bigint_init witness_value value
          else State_Monad.return (status, bigint_init));
       let passes = (status = BIGINT_OK \<and> limbs x = []);
       (status, x) \<leftarrow> (if status = BIGINT_OK \<and> \<not> passes then bigint_modular_pow x x odd_part value
          else State_Monad.return (status, x));
       let passes = (passes \<or> (status = BIGINT_OK \<and>
          (bigint_compare x one = 0 \<or> bigint_compare x value_minus_one = 0)));
       (status, passes) \<leftarrow> (if status = BIGINT_OK \<and> \<not> passes
          then witness_squarings_loop (squarings - 1) value value_minus_one x
          else State_Monad.return (status, passes));
       State_Monad.return (status, if status = BIGINT_OK then passes else result)
     })"

definition miller_rabin_witnesses :: "u64 list" where
  "miller_rabin_witnesses = [2, 325, 9375, 28178, 450775, 9780504, 1795265022]"

text \<open>The loop that takes the factors 2 out of \<^verbatim>\<open>odd_part\<close>; the fuel is its number
  of bits.\<close>

primrec odd_part_loop :: "nat \<Rightarrow> BigInt \<Rightarrow> nat \<Rightarrow> (BigIntStatus \<times> BigInt \<times> nat) rt" where
  "odd_part_loop 0 odd_part squarings = out_of_fuel (BIGINT_OK, odd_part, squarings)"
| "odd_part_loop (Suc fuel) odd_part squarings =
    (if bigint_is_even odd_part then do {
       (status, odd_part) \<leftarrow> bigint_shift_right odd_part odd_part 1;
       if status = BIGINT_OK then odd_part_loop fuel odd_part (squarings + 1)
       else State_Monad.return (status, odd_part, squarings + 1)
     } else State_Monad.return (BIGINT_OK, odd_part, squarings))"

primrec witnesses_loop :: "u64 list \<Rightarrow> BigInt \<Rightarrow> BigInt \<Rightarrow> nat \<Rightarrow> (BigIntStatus \<times> bool) rt" where
  "witnesses_loop [] value odd_part squarings = State_Monad.return (BIGINT_OK, True)"
| "witnesses_loop (witness # ws) value odd_part squarings = do {
     (status, passes) \<leftarrow> bigint_miller_rabin_passes False value odd_part squarings witness;
     if status = BIGINT_OK then
       (if \<not> passes then State_Monad.return (BIGINT_OK, False)
        else witnesses_loop ws value odd_part squarings)
     else State_Monad.return (status, True)
   }"

definition bigint_is_probable_prime :: "bool \<Rightarrow> BigInt \<Rightarrow> (BigIntStatus \<times> bool) rt" where
  "bigint_is_probable_prime result value =
    (if is_negative value \<or> bsize value = 0 \<or> bsize value = 1 \<and> limbs value ! 0 < 2
     then State_Monad.return (BIGINT_OK, False)
     else if bigint_is_even value
     then State_Monad.return (BIGINT_OK, bsize value = 1 \<and> limbs value ! 0 = 2)
     else do {
       (status, odd_part) \<leftarrow> bigint_sub bigint_init value (bigint_wrap_uint64 1);
       (status, odd_part, squarings) \<leftarrow> (if status = BIGINT_OK
          then odd_part_loop (bigint_bit_length odd_part + 1) odd_part 0
          else State_Monad.return (status, odd_part, 0));
       (status, is_probable_prime) \<leftarrow> (if status = BIGINT_OK
          then witnesses_loop miller_rabin_witnesses value odd_part squarings
          else State_Monad.return (status, True));
       State_Monad.return (status, if status = BIGINT_OK then is_probable_prime else result)
     })"

section \<open>Perfect squares\<close>

text \<open>One candidate bit per round, most significant first; an accepted candidate is swapped
  with the root.\<close>

primrec square_bits_loop ::
  "nat \<Rightarrow> BigInt \<Rightarrow> BigInt \<Rightarrow> BigInt \<Rightarrow> BigInt \<Rightarrow> (BigIntStatus \<times> BigInt) rt" where
  "square_bits_loop 0 value the_root candidate candidate_squared =
     State_Monad.return (BIGINT_OK, the_root)"
| "square_bits_loop (Suc bit_index) value the_root candidate candidate_squared = do {
     (status, candidate) \<leftarrow> bigint_copy candidate the_root;
     (status, candidate) \<leftarrow> (if status = BIGINT_OK then bigint_set_bit candidate bit_index
        else State_Monad.return (status, candidate));
     (status, candidate_squared) \<leftarrow> (if status = BIGINT_OK
        then bigint_mul candidate_squared candidate candidate
        else State_Monad.return (status, candidate_squared));
     if status = BIGINT_OK then
       (if bigint_compare_abs candidate_squared value \<le> 0
        then square_bits_loop bit_index value candidate the_root candidate_squared
        else square_bits_loop bit_index value the_root candidate candidate_squared)
     else State_Monad.return (status, the_root)
   }"

definition bigint_is_perfect_square :: "bool \<Rightarrow> BigInt \<Rightarrow> (BigIntStatus \<times> bool) rt" where
  "bigint_is_perfect_square result value =
    (if is_negative value then State_Monad.return (BIGINT_OK, False)
     else if limbs value = [] then State_Monad.return (BIGINT_OK, True)
     else
       (let bits = bigint_bit_length value; root_bits = (bits + 1) div 2
        in do {
          (status, the_root) \<leftarrow> square_bits_loop root_bits value bigint_init bigint_init bigint_init;
          (status, root_squared) \<leftarrow> (if status = BIGINT_OK then bigint_mul bigint_init the_root the_root
             else State_Monad.return (status, bigint_init));
          State_Monad.return (status,
            if status = BIGINT_OK then bigint_compare_abs root_squared value = 0 else result)
        }))"

section \<open>Modular arithmetic is correct\<close>

lemma is_odd_iff: "bigint_is_odd v \<longleftrightarrow> odd (bigint_mag v)"
  using get_bit_correct [of v 0] by (cases "limbs v") (simp_all add: bigint_is_odd_def bigint_get_bit_def Let_def bit_0)

lemma is_even_iff: "bigint_is_even v \<longleftrightarrow> even (bigint_mag v)"
  using is_odd_iff [of v] by (auto simp: bigint_is_even_def bigint_is_odd_def)

lemma modular_multiply_wp:
  assumes a: "holds_nat a x" and b: "holds_nat b y" and m: "holds_nat m n" "n \<noteq> 0"
    and Q: "\<And>st r'. outcome u (x * y < LB ^ (BIGINT_MAX_LIMBS - 1)) st (holds_nat r' (x * y mod n)) (r' = r) \<Longrightarrow> Q (st, r')"
  shows "rspec u (bigint_modular_multiply r a b m) Q"
  unfolding bigint_modular_multiply_def
proof (rule triple_bind, rule holds_nat_mul [OF a b storage_ok_init], rule triple_case_pair, rule triple_if)
  fix st p
  assume o: "outcome u (x * y < LB ^ (BIGINT_MAX_LIMBS - 1)) st (holds_nat p (x * y)) True"
  show "rspec u (State_Monad.return (st, r)) Q" if "st \<noteq> BIGINT_OK"
    using o that by (intro triple_return Q) simp
  assume "st = BIGINT_OK"
  with o have p: "holds_nat p (x * y)" by simp
  show "rspec u (bigint_mod r p m) Q"
    by (rule holds_nat_mod [OF p m], rule Q) (auto elim: outcome_mono)
qed

lemma modulus_fits: "n * n < B \<Longrightarrow> x < n \<Longrightarrow> y < n \<Longrightarrow> x * y < (B :: nat)"
  by (rule order_le_less_trans [of _ "n * n"]) (auto intro!: mult_le_mono)

lemma pow_step_mod:
  "(a * f ^ e) mod (n :: nat) = ((if odd e then a * f mod n else a) * (f * f mod n) ^ (e div 2)) mod n"
proof -
  have "f ^ e = f ^ (e mod 2) * (f * f) ^ (e div 2)"
    by (metis add.commute div_mult_mod_eq mult.commute power2_eq_square power_add power_mult)
  then have "a * f ^ e = (a * f ^ (e mod 2)) * (f * f) ^ (e div 2)" by simp
  also have "(\<dots>) mod n = ((a * f ^ (e mod 2)) mod n * ((f * f mod n) ^ (e div 2))) mod n"
    by (metis mod_mult_eq mod_mult_left_eq mod_mult_right_eq power_mod)
  also have "\<dots> = ((if odd e then a * f mod n else a) * (f * f mod n) ^ (e div 2)) mod n"
    by (cases "even e") (simp_all add: mod_mult_left_eq odd_iff_mod_2_eq_one)
  finally show ?thesis .
qed

lemma modular_pow_loop_wp:
  assumes m: "holds_nat m n" "n \<noteq> 0"
    and Q: "\<And>st r'. outcome u (n * n < LB ^ (BIGINT_MAX_LIMBS - 1)) st (holds_nat r' (v mod n)) True \<Longrightarrow> Q (st, r')"
  shows "holds_nat acc a \<Longrightarrow> holds_nat factor f \<Longrightarrow> holds_nat rem e \<Longrightarrow> a < n \<Longrightarrow> f < n \<Longrightarrow>
    v mod n = (a * f ^ e) mod n \<Longrightarrow> 0 < fuel \<Longrightarrow> e < 2 ^ (fuel - 1) \<Longrightarrow>
    rspec u (modular_pow_loop fuel m acc factor rem) Q"
proof (induction fuel arbitrary: acc factor rem a f e)
  case (Suc fuel)
  let ?F = "n * n < LB ^ (BIGINT_MAX_LIMBS - 1)"
  note acc = Suc.prems(1) and factor = Suc.prems(2) and rem = Suc.prems(3)
  have fail: "Q (st, z)" if "resource_failure u X st" "?F \<Longrightarrow> X" for st X z
    by (rule Q, rule outcome_failI [OF that(1)]) (use that(2) in simp_all)
  show ?case
  proof (cases "e = 0")
    case True
    then have "Q (BIGINT_OK, acc)" using Suc.prems(4,6) acc by (intro Q) simp
    then show ?thesis using True holds_natD(7) [OF rem] by (simp add: triple_return)
  next
    case False
    then have ne: "limbs rem \<noteq> []" using holds_natD(7) [OF rem] by simp
    have odd: "bigint_is_odd rem \<longleftrightarrow> odd e" using holds_natD(3) [OF rem] by (simp add: is_odd_iff)
    let ?a = "if odd e then a * f mod n else a"
    have a': "?a < n" using Suc.prems(4) m(2) by simp
    have e2: "0 < fuel" "e div 2 < 2 ^ (fuel - 1)" using Suc.prems(8) False by (cases fuel; simp)+
    have next_round: "rspec u (modular_pow_loop fuel m acc' factor' rem') Q"
      if "holds_nat acc' ?a" "holds_nat rem' (e div 2)"
        "if e div 2 = 0 then factor' = factor else holds_nat factor' (f * f mod n)" for acc' factor' rem'
    proof (cases "e div 2 = 0")
      case True
      then show ?thesis
        using that Suc.prems(5,6) a' e2 unfolding pow_step_mod [of a f e n]
        by (intro Suc.IH [of acc' ?a factor' f rem' 0]) (simp_all add: factor)
    next
      case False
      then show ?thesis
        using that Suc.prems(6) a' e2 m(2) unfolding pow_step_mod [of a f e n]
        by (intro Suc.IH [of acc' ?a factor' "f * f mod n" rem' "e div 2"]) simp_all
    qed
    have rest: "rspec u (do {
        (status, rem) \<leftarrow> (if st = BIGINT_OK then bigint_shift_right rem rem 1 else State_Monad.return (st, rem));
        (status, factor) \<leftarrow> (if status = BIGINT_OK \<and> limbs rem \<noteq> []
           then bigint_modular_multiply factor factor factor m else State_Monad.return (status, factor));
        if status = BIGINT_OK then modular_pow_loop fuel m acc' factor rem
        else State_Monad.return (status, acc') }) Q"
      if o: "outcome u (a * f < LB ^ (BIGINT_MAX_LIMBS - 1)) st (holds_nat acc' ?a) True" for st acc'
    proof (rule chain_link)
      assume "st = BIGINT_OK"
      with o have acc': "holds_nat acc' ?a" by simp
      show "rspec u (bigint_shift_right rem rem 1 \<bind> (\<lambda>(status, rem).
          (if status = BIGINT_OK \<and> limbs rem \<noteq> []
           then bigint_modular_multiply factor factor factor m else State_Monad.return (status, factor)) \<bind>
          (\<lambda>(status, factor). if status = BIGINT_OK then modular_pow_loop fuel m acc' factor rem
             else State_Monad.return (status, acc')))) Q"
      proof (rule triple_bind, rule holds_nat_shift_right [OF rem holds_natD(6) [OF rem]], rule triple_case_pair)
        fix st rem'
        assume o: "outcome u True st (holds_nat rem' (e div 2 ^ 1)) (rem' = rem)"
        show "rspec u ((if st = BIGINT_OK \<and> limbs rem' \<noteq> []
             then bigint_modular_multiply factor factor factor m else State_Monad.return (st, factor)) \<bind>
            (\<lambda>(status, factor). if status = BIGINT_OK then modular_pow_loop fuel m acc' factor rem'
               else State_Monad.return (status, acc'))) Q"
        proof (cases "st = BIGINT_OK")
          case True
          then have rem': "holds_nat rem' (e div 2)" using o by simp
          note empty = holds_natD(7) [OF rem']
          show ?thesis
          proof (cases "e div 2 = 0")
            case zero: True
            then show ?thesis
              using True empty next_round [OF acc' rem'] by simp
          next
            case nonzero: False
            have "Q (st', acc')" if "resource_failure u (f * f < LB ^ (BIGINT_MAX_LIMBS - 1)) st'" for st'
              using that modulus_fits [OF _ Suc.prems(5,5)] by (rule fail)
            with True nonzero empty show ?thesis
              by (auto intro!: triple_bind modular_multiply_wp [OF factor factor m] triple_return
                  next_round [OF acc' rem'])
          qed
        next
          case False
          with o show ?thesis by (simp add: triple_return fail [of True])
        qed
      qed
    next
      assume "st \<noteq> BIGINT_OK"
      with o have "resource_failure u (a * f < LB ^ (BIGINT_MAX_LIMBS - 1)) st" by simp
      then have "Q (st, acc')" by (rule fail) (rule modulus_fits [OF _ Suc.prems(4,5)])
      with \<open>st \<noteq> BIGINT_OK\<close> show "rspec u (case (st, rem) of (status, rem) \<Rightarrow> do {
        (status, factor) \<leftarrow> (if status = BIGINT_OK \<and> limbs rem \<noteq> []
           then bigint_modular_multiply factor factor factor m else State_Monad.return (status, factor));
        if status = BIGINT_OK then modular_pow_loop fuel m acc' factor rem
        else State_Monad.return (status, acc') }) Q" by (simp add: triple_return)
    qed
    show ?thesis
    proof (cases "odd e")
      case True
      then have o: "bigint_is_odd rem" using odd by simp
      show ?thesis
        unfolding modular_pow_loop.simps if_P [OF ne] if_P [OF o]
        by (rule triple_bind, rule modular_multiply_wp [OF acc factor m], rule triple_case_pair, rule rest)
          (use True in \<open>auto elim!: outcome_mono\<close>)
    next
      case False
      then have o: "\<not> bigint_is_odd rem" using odd by simp
      show ?thesis
        unfolding modular_pow_loop.simps if_P [OF ne] if_not_P [OF o]
        using rest [of BIGINT_OK acc] False acc by simp
    qed
  qed
qed simp

lemma modular_pow_wp:
  assumes b: "holds_nat b x" and e: "holds_nat ex e" and m: "holds_nat m n" "n \<noteq> 0" and r: "storage_ok r"
    and Q: "\<And>st r'. outcome u (n * n < LB ^ (BIGINT_MAX_LIMBS - 1)) st (holds_nat r' (x ^ e mod n)) True \<Longrightarrow> Q (st, r')"
  shows "rspec u (bigint_modular_pow r b ex m) Q"
proof -
  let ?F = "n * n < LB ^ (BIGINT_MAX_LIMBS - 1)"
  have fail: "Q (st, z)" if "resource_failure u X st" "?F \<Longrightarrow> X" for st X z
    by (rule Q, rule outcome_failI [OF that(1)]) (use that(2) in simp_all)
  have loop: "rspec u (modular_pow_loop (bigint_bit_length rem + 1) m acc factor rem) Q'"
    if "holds_nat acc (1 mod n)" "holds_nat factor (x mod n)" "holds_nat rem e"
      "\<And>st r'. outcome u ?F st (holds_nat r' (x ^ e mod n)) True \<Longrightarrow> Q' (st, r')" for acc factor rem Q'
  proof (rule modular_pow_loop_wp [OF m _ that(1-3), where v = "x ^ e"])
    have rem: "canonical (limbs rem)" "bigint_mag rem = e"
      using holds_natD [OF that(3)] by (simp_all add: bigint_wfD)
    show "e < 2 ^ (bigint_bit_length rem + 1 - 1)"
      using bit_length_le_iff [OF rem(1), of "bigint_bit_length rem"] rem(2) by simp
    show "x ^ e mod n = (1 mod n * (x mod n) ^ e) mod n"
      by (metis mod_mult_left_eq mult_1 power_mod)
  qed (use m(2) that(4) in simp_all)
  show ?thesis
    unfolding bigint_modular_pow_def
    by (intro triple_bind [of _ "bigint_set_uint64 _ _"] holds_nat_set [OF storage_ok_init] triple_case_pair chain_link
        triple_bind [of _ "bigint_mod _ _ _"] holds_nat_mod [OF _ m] holds_nat_mod [OF b m]
        triple_bind [of _ "bigint_copy _ _"] holds_nat_copy [OF e]
        triple_bind [of _ "modular_pow_loop _ _ _ _ _"] loop
        triple_if [of _ _ "bigint_copy _ _"] holds_nat_copy [of _ "x ^ e mod n", OF _ r];
      (simp; fail | simp add: b; fail | simp add: triple_return fail [of True]; fail
       | simp only: outcome_OK One_nat_def; fail | rule triple_return, rule fail [of ?F]; simp; fail | rule Q, erule outcome_mono, simp_all; fail)?)
qed

lemma disj_False_left: "(False \<or> P) = P"
  by simp

section \<open>The Miller-Rabin test decides its condition\<close>

lemma witness_squarings_loop_wp:
  assumes n: "holds_nat v n" "n \<noteq> 0" and m: "holds_nat vm (n - 1)"
    and Q: "\<And>st p. outcome u (n * n < LB ^ (BIGINT_MAX_LIMBS - 1)) st
        (p \<longleftrightarrow> (\<exists>r. i < r \<and> r \<le> i + k \<and> a ^ (2 ^ r * d) mod n = n - 1)) True \<Longrightarrow> Q (st, p)"
  shows "holds_nat x (a ^ (2 ^ i * d) mod n) \<Longrightarrow> rspec u (witness_squarings_loop k v vm x) Q"
  using Q
proof (induction k arbitrary: x i Q)
  case 0
  then show ?case by (auto intro!: triple_return)
next
  case (Suc k)
  let ?F = "n * n < LB ^ (BIGINT_MAX_LIMBS - 1)"
  let ?x = "a ^ (2 ^ i * d) mod n"
  have x: "?x < n" using n(2) by simp
  have sq: "?x * ?x mod n = a ^ (2 ^ Suc i * d) mod n"
    by (simp add: mod_mult_eq mult_2 add_mult_distrib power_add)
  show ?case
    unfolding witness_squarings_loop.simps
  proof (rule triple_bind, rule modular_multiply_wp [OF Suc.prems(1,1) n], unfold sq, rule triple_case_pair, rule triple_if)
    fix st x'
    assume o: "outcome u (?x * ?x < LB ^ (BIGINT_MAX_LIMBS - 1)) st (holds_nat x' (a ^ (2 ^ Suc i * d) mod n)) (x' = x)"
    show "rspec u (State_Monad.return (st, False)) Q" if "st \<noteq> BIGINT_OK"
    proof (rule triple_return, rule Suc.prems(2), rule outcome_failI)
      show "resource_failure u (?x * ?x < LB ^ (BIGINT_MAX_LIMBS - 1)) st" using o that by simp
    qed (use modulus_fits [OF _ x x] in simp_all)
    assume "st = BIGINT_OK"
    with o have x': "holds_nat x' (a ^ (2 ^ Suc i * d) mod n)" by simp
    have cmp: "bigint_compare x' vm = 0 \<longleftrightarrow> a ^ (2 ^ Suc i * d) mod n = n - 1"
      by (rule holds_nat_compare_iffs(2) [OF x' m])
    show "rspec u (if bigint_compare x' vm = 0 then State_Monad.return (BIGINT_OK, True)
        else witness_squarings_loop k v vm x') Q"
    proof (rule triple_if)
      assume "bigint_compare x' vm = 0"
      then show "rspec u (State_Monad.return (BIGINT_OK, True)) Q"
        using cmp by (intro triple_return Suc.prems(2)) (auto intro!: exI [of _ "Suc i"])
    next
      assume ne: "bigint_compare x' vm \<noteq> 0"
      have "(\<exists>r. Suc i < r \<and> r \<le> Suc i + k \<and> a ^ (2 ^ r * d) mod n = n - 1) \<longleftrightarrow>
          (\<exists>r. i < r \<and> r \<le> i + Suc k \<and> a ^ (2 ^ r * d) mod n = n - 1)"
        using ne unfolding cmp by (metis Suc_leI add_Suc_shift order_less_le Suc_lessD)
      then show "rspec u (witness_squarings_loop k v vm x') Q"
        using Suc.prems(2) by (intro Suc.IH [OF x']) simp
    qed
  qed
qed

lemma miller_rabin_passes_wp:
  assumes n: "holds_nat v n" "2 \<le> n" and d: "holds_nat od d" and s: "0 < s"
    and Q: "\<And>st p. outcome u (n * n < LB ^ (BIGINT_MAX_LIMBS - 1)) st
        (p \<longleftrightarrow> strong_probable_prime n s d (unat w)) (p = p0) \<Longrightarrow> Q (st, p)"
  shows "rspec u (bigint_miller_rabin_passes p0 v od s w) Q"
proof -
  let ?F = "n * n < LB ^ (BIGINT_MAX_LIMBS - 1)"
  let ?a = "unat w"
  have n0: "n \<noteq> 0" and n1: "1 \<le> n" using n(2) by auto
  have one: "holds_nat (bigint_wrap_uint64 1) 1" and ww: "holds_nat (bigint_wrap_uint64 w) ?a"
    by (simp_all add: holds_nat_def)
  have fail: "Q (st, p0)" if "resource_failure u X st" "?F \<Longrightarrow> X" for st X
    by (rule Q, rule outcome_failI [OF that(1)]) (use that(2) in simp_all)
  have Fsub: "Suc (max (bsize v) (bsize (bigint_wrap_uint64 1))) \<le> BIGINT_MAX_LIMBS" if ?F
  proof -
    have "n \<le> n * n" by simp
    then have "n < LB ^ (BIGINT_MAX_LIMBS - 1)" using that by (rule order_le_less_trans)
    from holds_nat_limbs [OF n(1) this] show ?thesis
      by (simp add: bsize_wrap_uint64 max_limbs_numeral)
  qed
  let ?finish = "\<lambda>st x vm passes. do {
      (status, passes) \<leftarrow> (if st = BIGINT_OK \<and> \<not> passes then witness_squarings_loop (s - 1) v vm x
         else State_Monad.return (st, passes));
      State_Monad.return (status, if status = BIGINT_OK then passes else p0) }"
  let ?test = "\<lambda>st x vm. st = BIGINT_OK \<and>
      (bigint_compare x (bigint_wrap_uint64 1) = 0 \<or> bigint_compare x vm = 0)"
  have range: "(\<exists>r < s. P r) \<longleftrightarrow> P 0 \<or> (\<exists>r. 0 < r \<and> r \<le> 0 + (s - 1) \<and> P r)" for P
  proof -
    have "r < s \<longleftrightarrow> r = 0 \<or> 0 < r \<and> r \<le> 0 + (s - 1)" for r using s by auto
    then show ?thesis by auto
  qed
  have power: "rspec u (?finish BIGINT_OK x vm (?test BIGINT_OK x vm)) Q"
    if x: "holds_nat x (?a ^ d mod n)" and vm: "holds_nat vm (n - 1)" and nd: "\<not> n dvd ?a" for x vm
  proof -
    have strong: "strong_probable_prime n s d ?a \<longleftrightarrow> ?a ^ d mod n = 1 \<or> ?a ^ d mod n = n - 1 \<or>
        (\<exists>r. 0 < r \<and> r \<le> 0 + (s - 1) \<and> ?a ^ (2 ^ r * d) mod n = n - 1)"
      using nd unfolding strong_probable_prime_def range by simp
    have test: "?test BIGINT_OK x vm \<longleftrightarrow> ?a ^ d mod n = 1 \<or> ?a ^ d mod n = n - 1"
      using holds_nat_compare_iffs(2) [OF x one] holds_nat_compare_iffs(2) [OF x vm] by simp
    show ?thesis
    proof (cases "?test BIGINT_OK x vm")
      case True
      then have "strong_probable_prime n s d ?a" using strong test by blast
      with True show ?thesis by (auto intro!: triple_return Q)
    next
      case False
      have go: "BIGINT_OK = BIGINT_OK \<and> \<not> ?test BIGINT_OK x vm" using False by blast
      have x0: "holds_nat x (?a ^ (2 ^ 0 * d) mod n)" using x by simp
      have none: "\<not> (?a ^ d mod n = 1 \<or> ?a ^ d mod n = n - 1)" using False test by blast
      show ?thesis
        unfolding if_P [OF go]
        by (rule triple_bind, rule witness_squarings_loop_wp [where a = ?a and d = d and i = 0, OF n(1) n0 vm _ x0], rule triple_case_pair,
            rule triple_return, rule Q) (use none strong in \<open>auto simp: outcome_def\<close>)
    qed
  qed
  have rest: "rspec u (do {
      (status, x') \<leftarrow> (if st = BIGINT_OK \<and> \<not> (st = BIGINT_OK \<and> limbs x = []) then bigint_modular_pow x x od v
         else State_Monad.return (st, x));
      ?finish status x' vm (st = BIGINT_OK \<and> limbs x = [] \<or> ?test status x' vm) }) Q"
    if vm: "st = BIGINT_OK \<Longrightarrow> holds_nat vm (n - 1)" and ok: "st = BIGINT_OK \<Longrightarrow> holds_nat x (?a mod n)"
      and bad: "st \<noteq> BIGINT_OK \<Longrightarrow> Q (st, p0)" for st x vm
  proof (cases "st = BIGINT_OK")
    case True
    note x = ok [OF True] and ok' = True
    show ?thesis
    proof (cases "limbs x = []")
      case empty: True
      then have "n dvd ?a" using holds_natD(7) [OF x] by (simp add: dvd_eq_mod_eq_0)
      then have "Q (BIGINT_OK, True)" by (intro Q) (simp add: strong_probable_prime_def)
      with True empty show ?thesis by (simp add: triple_return)
    next
      case False
      then have nd: "\<not> n dvd ?a" using holds_natD(7) [OF x] by (simp add: dvd_eq_mod_eq_0)
      have go: "st = BIGINT_OK \<and> \<not> False" and no: "\<not> (st = BIGINT_OK \<and> limbs x = [])"
        using True False by blast+
      show ?thesis
        unfolding no [THEN Eq_FalseI] if_P [OF go] disj_False_left
      proof (rule triple_bind, rule modular_pow_wp [OF x d n(1) n0 holds_natD(6) [OF x]], rule triple_case_pair)
        fix st x'
        assume o: "outcome u ?F st (holds_nat x' ((?a mod n) ^ d mod n)) True"
        show "rspec u (?finish st x' vm (?test st x' vm)) Q"
        proof (cases "st = BIGINT_OK")
          case True
          then have "holds_nat x' (?a ^ d mod n)" using o by (simp add: power_mod)
          from power [OF this vm [OF ok'] nd] show ?thesis unfolding True .
        next
          case False
          then have "Q (st, p0)" using o by (intro fail [of ?F]) simp_all
          with False show ?thesis by (simp add: triple_return)
        qed
      qed
    qed
  qed (use bad in \<open>simp add: triple_return\<close>)
  show ?thesis
    unfolding bigint_miller_rabin_passes_def Let_def
    by (intro triple_bind [of _ "bigint_sub _ _ _"] holds_nat_sub [OF n(1) one n1 storage_ok_init] triple_case_pair chain_link
      triple_bind [of _ "bigint_mod _ _ _"] holds_nat_mod [OF ww n(1) n0] rest;
      (simp; fail | rule fail [OF _ Fsub]; simp; fail | simp add: fail [of True]; fail)?)
qed

lemma odd_part_loop_wp:
  assumes Q: "\<And>st od' k' d. (st = BIGINT_OK \<Longrightarrow> holds_nat od' d \<and> odd d \<and> m = 2 ^ k' * d \<and> k \<le> k' \<and>
        (even d0 \<longrightarrow> k < k')) \<Longrightarrow>
      (st \<noteq> BIGINT_OK \<Longrightarrow> resource_failure u True st) \<Longrightarrow> Q (st, od', k')"
  shows "holds_nat od d0 \<Longrightarrow> m = 2 ^ k * d0 \<Longrightarrow> 0 < d0 \<Longrightarrow> d0 < 2 ^ fuel \<Longrightarrow>
    rspec u (odd_part_loop (Suc fuel) od k) Q"
  using Q
proof (induction fuel arbitrary: od d0 k Q)
  case 0
  then show ?case by simp
next
  case (Suc fuel)
  have even: "bigint_is_even od \<longleftrightarrow> even d0" using holds_natD(3) [OF Suc.prems(1)] by (simp add: is_even_iff)
  show ?case
  proof (cases "even d0")
    case False
    have "Q (BIGINT_OK, od, k)"
      by (rule Suc.prems(5) [where d = d0]) (use Suc.prems(1,2) False in simp_all)
    with False show ?thesis using even by (simp add: triple_return)
  next
    case True
    then obtain d1 where d1: "d0 = 2 * d1" by (elim evenE)
    have e: "bigint_is_even od" using True even by simp
    show ?thesis
      unfolding odd_part_loop.simps(2) [of "Suc fuel"] if_P [OF e]
    proof (rule triple_bind, rule holds_nat_shift_right [OF Suc.prems(1) holds_natD(6) [OF Suc.prems(1)]],
        rule triple_case_pair, rule triple_if)
      fix st od'
      assume o: "outcome u True st (holds_nat od' (d0 div 2 ^ 1)) (od' = od)"
      show "rspec u (State_Monad.return (st, od', k + 1)) Q" if "st \<noteq> BIGINT_OK"
        using o that by (intro triple_return Suc.prems(5)) auto
      assume "st = BIGINT_OK"
      then have od': "holds_nat od' d1" using o d1 by simp
      show "rspec u (odd_part_loop (Suc fuel) od' (k + 1)) Q"
      proof (rule Suc.IH [OF od'])
        fix st od'' k' d
        assume "st = BIGINT_OK \<Longrightarrow> holds_nat od'' d \<and> odd d \<and> m = 2 ^ k' * d \<and> k + 1 \<le> k' \<and> (even d1 \<longrightarrow> k + 1 < k')"
          "st \<noteq> BIGINT_OK \<Longrightarrow> resource_failure u True st"
        then show "Q (st, od'', k')" by (intro Suc.prems(5)) auto
      qed (use Suc.prems d1 in auto)
    qed
  qed
qed

lemma witnesses_loop_wp:
  assumes n: "holds_nat v n" "2 \<le> n" and d: "holds_nat od d" and s: "0 < s"
    and Q: "\<And>st p. outcome u (n * n < LB ^ (BIGINT_MAX_LIMBS - 1)) st
        (p \<longleftrightarrow> (\<forall>w \<in> set ws. strong_probable_prime n s d (unat w))) True \<Longrightarrow> Q (st, p)"
  shows "rspec u (witnesses_loop ws v od s) Q"
  using Q
proof (induction ws arbitrary: Q)
  case Nil
  then show ?case by (auto intro!: triple_return)
next
  case (Cons w ws)
  have "Q (st, True)" if "resource_failure u (n * n < LB ^ (BIGINT_MAX_LIMBS - 1)) st" for st
    using that by (intro Cons.prems) (auto simp: outcome_def)
  moreover have "rspec u (witnesses_loop ws v od s) Q" if "strong_probable_prime n s d (unat w)"
    using that by (intro Cons.IH Cons.prems) (auto elim: outcome_mono)
  moreover have "Q (BIGINT_OK, False)" if "\<not> strong_probable_prime n s d (unat w)"
    using that by (intro Cons.prems) simp
  ultimately show ?case
    by (auto intro!: triple_bind miller_rabin_passes_wp [OF n d s] triple_return simp del: One_nat_def)
qed

definition passes_witnesses :: "nat \<Rightarrow> bool" where
  "passes_witnesses n \<longleftrightarrow> (\<exists>s d. 0 < s \<and> odd d \<and> n - 1 = 2 ^ s * d \<and>
     (\<forall>w \<in> set miller_rabin_witnesses. strong_probable_prime n s d (unat w)))"

lemma two_power_odd_unique:
  assumes "2 ^ s * d = 2 ^ t * (e :: nat)" "odd d" "odd e"
  shows "s = t \<and> d = e"
proof -
  have le: False if "2 ^ s * d = 2 ^ t * (e :: nat)" "odd d" "s < t" for s t d e
  proof -
    have "2 ^ t = (2 :: nat) ^ s * 2 ^ (t - s)" using that(3) by (simp flip: power_add)
    with that(1) have "d = 2 ^ (t - s) * e" by simp
    then have "even d" using that(3) by simp
    with that(2) show False by simp
  qed
  have "s = t" using le [OF assms(1,2)] le [OF assms(1) [symmetric] assms(3)] by (meson nat_neq_iff)
  with assms(1) show ?thesis by simp
qed

lemma is_probable_prime_wp [wp]:
  assumes v: "bigint_wf v"
    and Q: "\<And>st p. (if bigint_val v < 2 then st = BIGINT_OK \<and> \<not> p
      else if even (bigint_val v) then st = BIGINT_OK \<and> (p \<longleftrightarrow> bigint_val v = 2)
      else outcome u (bigint_mag v * bigint_mag v < LB ^ (BIGINT_MAX_LIMBS - 1)) st
        (p \<longleftrightarrow> passes_witnesses (bigint_mag v)) (p = p0)) \<Longrightarrow> Q (st, p)"
  shows "rspec u (bigint_is_probable_prime p0 v) Q"
proof -
  let ?n = "bigint_mag v"
  let ?F = "?n * ?n < LB ^ (BIGINT_MAX_LIMBS - 1)"
  have limb: "unat (limbs v ! 0) = ?n" if "bsize v = 1" using that by (cases "limbs v") auto
  have big: "1 < bsize v \<Longrightarrow> 2 < ?n"
  proof -
    assume "1 < bsize v"
    then have "LB ^ 1 \<le> LB ^ (bsize v - 1)" by (intro power_increasing) (auto simp: Suc_le_eq)
    also have "\<dots> \<le> ?n" using \<open>1 < bsize v\<close> bigint_wfD(1) [OF v] by (intro mag_lower) auto
    finally show ?thesis by (simp add: LB_def)
  qed
  have size: "bsize v = 0 \<or> bsize v = 1 \<or> 1 < bsize v" by linarith
  have less2: "is_negative v \<or> bsize v = 0 \<or> bsize v = 1 \<and> limbs v ! 0 < 2 \<longleftrightarrow> bigint_val v < 2"
  proof (cases "is_negative v")
    case False
    then have "bigint_val v < 2 \<longleftrightarrow> ?n < 2" by (simp add: bigint_val_def)
    then show ?thesis using False size big limb by (auto simp: word_less_nat_alt)
  qed (use bigint_val_neg_iff [OF v] in simp)
  have even: "bigint_is_even v \<longleftrightarrow> even (bigint_val v)" by (simp add: is_even_iff bigint_val_def)
  show ?thesis
    unfolding bigint_is_probable_prime_def less2 even
  proof (intro triple_if triple_return)
    show "Q (BIGINT_OK, False)" if "bigint_val v < 2" using that by (intro Q) simp
    assume ge2: "\<not> bigint_val v < 2"
    then have pos: "bigint_val v = int ?n" by (auto simp: bigint_val_def split: if_splits)
    show "Q (BIGINT_OK, bsize v = 1 \<and> limbs v ! 0 = 2)" if "even (bigint_val v)"
    proof -
      have "bsize v = 1 \<and> limbs v ! 0 = 2 \<longleftrightarrow> bigint_val v = 2"
      proof
        assume "bsize v = 1 \<and> limbs v ! 0 = 2"
        then show "bigint_val v = 2" using limb pos by simp
      next
        assume "bigint_val v = 2"
        then have n: "?n = 2" using pos by simp
        then have "bsize v = 1" using size big by auto
        with limb n show "bsize v = 1 \<and> limbs v ! 0 = 2" by (auto simp: word_unat_eq_iff)
      qed
      then show ?thesis using ge2 that by (intro Q) simp
    qed
    assume odd: "odd (bigint_val v)"
    have n: "holds_nat v ?n" "2 \<le> ?n" "odd ?n" using v pos ge2 odd by (auto simp: holds_nat_def)
    have n3: "0 < ?n - 1" "1 \<le> ?n" "even (?n - 1)" using n by auto
    have one: "holds_nat (bigint_wrap_uint64 1) 1" by (simp add: holds_nat_def)
    have fin: "Q (st, p)" if "outcome u ?F st (p \<longleftrightarrow> passes_witnesses ?n) (p = p0)" for st p
      using that ge2 odd by (intro Q) simp
    have fail: "Q (st, p0)" if "resource_failure u X st" "?F \<Longrightarrow> X" for st X
      by (rule fin, rule outcome_failI [OF that(1)]) (use that(2) in simp_all)
    have Fsub: "Suc (max (bsize v) (bsize (bigint_wrap_uint64 1))) \<le> BIGINT_MAX_LIMBS" if ?F
    proof -
      have "?n \<le> ?n * ?n" by simp
      then have "?n < LB ^ (BIGINT_MAX_LIMBS - 1)" using that by (rule order_le_less_trans)
      from holds_nat_limbs [OF n(1) this] show ?thesis
        by (simp add: bsize_wrap_uint64 max_limbs_numeral)
    qed
    have decide: "passes_witnesses ?n \<longleftrightarrow> (\<forall>w \<in> set miller_rabin_witnesses. strong_probable_prime ?n k d (unat w))"
      if "odd d" "?n - 1 = 2 ^ k * d" "0 < k" for k d
      using that two_power_odd_unique [of k d] unfolding passes_witnesses_def by metis
    have test: "rspec u (do {
        (status, p) \<leftarrow> (if st = BIGINT_OK then witnesses_loop miller_rabin_witnesses v od k
           else State_Monad.return (st, True));
        State_Monad.return (status, if status = BIGINT_OK then p else p0) }) Q"
      if ok: "st = BIGINT_OK \<Longrightarrow> holds_nat od d \<and> odd d \<and> ?n - 1 = 2 ^ k * d \<and> 0 \<le> k \<and> (even (?n - 1) \<longrightarrow> 0 < k)"
        and bad: "st \<noteq> BIGINT_OK \<Longrightarrow> resource_failure u True st" for st od k d
    proof (rule chain_link)
      assume "st = BIGINT_OK"
      then have o: "holds_nat od d" "odd d" "?n - 1 = 2 ^ k * d" "0 < k" using ok n3(3) by auto
      show "rspec u (witnesses_loop miller_rabin_witnesses v od k \<bind>
          (\<lambda>(status, p). State_Monad.return (status, if status = BIGINT_OK then p else p0))) Q"
        by (rule triple_bind, rule witnesses_loop_wp [OF n(1,2) o(1,4)], rule triple_case_pair, rule triple_return,
            rule fin) (auto simp: decide [OF o(2-4)] outcome_def)
    qed (use bad in \<open>simp add: triple_return fail [of True]\<close>)
    show "rspec u (do {
        (status, odd_part) \<leftarrow> bigint_sub bigint_init v (bigint_wrap_uint64 1);
        (status, odd_part, squarings) \<leftarrow> (if status = BIGINT_OK
          then odd_part_loop (bigint_bit_length odd_part + 1) odd_part 0
          else State_Monad.return (status, odd_part, 0));
        (status, is_probable_prime) \<leftarrow> (if status = BIGINT_OK
          then witnesses_loop miller_rabin_witnesses v odd_part squarings
          else State_Monad.return (status, True));
        State_Monad.return (status, if status = BIGINT_OK then is_probable_prime else p0) }) Q"
    proof (rule triple_bind, rule holds_nat_sub [OF n(1) one n3(2) storage_ok_init], rule triple_case_pair, rule chain_link)
      fix st od
      assume o: "outcome u (Suc (max (bsize v) (bsize (bigint_wrap_uint64 1))) \<le> BIGINT_MAX_LIMBS) st (holds_nat od (?n - 1)) True"
      show "rspec u (case (st, od, 0) of (status, odd_part, squarings) \<Rightarrow> do {
        (status, is_probable_prime) \<leftarrow> (if status = BIGINT_OK
          then witnesses_loop miller_rabin_witnesses v odd_part squarings
          else State_Monad.return (status, True));
        State_Monad.return (status, if status = BIGINT_OK then is_probable_prime else p0) }) Q" if "st \<noteq> BIGINT_OK"
      proof -
        have "Q (st, p0)" using o that by (intro fail [OF _ Fsub]) simp_all
        with that show ?thesis by (simp add: triple_return)
      qed
      assume "st = BIGINT_OK"
      with o have od: "holds_nat od (?n - 1)" by simp
      have less: "?n - 1 < 2 ^ bigint_bit_length od"
        using bit_length_le_iff [of od "bigint_bit_length od"] holds_natD(3) [OF od] bigint_wfD(1) [OF holds_natD(1) [OF od]]
        by simp
      show "rspec u (odd_part_loop (bigint_bit_length od + 1) od 0 \<bind>
        (\<lambda>(status, odd_part, squarings). (if status = BIGINT_OK
          then witnesses_loop miller_rabin_witnesses v odd_part squarings
          else State_Monad.return (status, True)) \<bind>
        (\<lambda>(status, is_probable_prime).
          State_Monad.return (status, if status = BIGINT_OK then is_probable_prime else p0)))) Q"
        unfolding Suc_eq_plus1 [symmetric]
        by (rule triple_bind, rule odd_part_loop_wp [OF _ od _ n3(1) less], (rule triple_case_pair)+, rule test, assumption+, simp)
    qed
  qed
qed

text \<open>A prime passes all witnesses.\<close>

lemma two_power_odd_exists: "0 < m \<Longrightarrow> \<exists>s d. odd d \<and> m = 2 ^ s * (d :: nat)"
proof (induction m rule: less_induct)
  case (less m)
  show ?case
  proof (cases "even m")
    case True
    then obtain h where h: "m = 2 * h" by (elim evenE)
    with less.prems have "h < m" "0 < h" by auto
    from less.IH [OF this] obtain s d where "odd d" "h = 2 ^ s * d" by blast
    with h show ?thesis by (intro exI [of _ "Suc s"] exI [of _ d]) simp
  qed (auto intro: exI [of _ 0])
qed

lemma prime_passes_witnesses:
  assumes p: "is_prime p" and odd: "odd p"
  shows "passes_witnesses p"
proof -
  have gt: "0 < p - 1" "even (p - 1)" using is_prime_gt_1 [OF p] odd by auto
  obtain s d where d: "odd d" "p - 1 = 2 ^ s * d" using two_power_odd_exists [OF gt(1)] by blast
  then have "0 < s" using gt(2) by (cases s) auto
  with d show ?thesis
    using prime_strong_probable_prime [OF p d(2)] unfolding passes_witnesses_def by blast
qed

section \<open>The perfect square test\<close>

lemma set_bit_add:
  assumes "2 ^ Suc k dvd (r :: nat)"
  shows "set_bit k r = r + 2 ^ k"
proof -
  from assms obtain q where "r = 2 ^ Suc k * q" by (elim dvdE)
  then have "r div 2 ^ k = 2 * q" by simp
  then have "\<not> bit r k" by (simp add: bit_iff_odd)
  then show ?thesis by (simp add: set_bit_eq)
qed

lemma compare_abs_nat:
  "holds_nat a x \<Longrightarrow> holds_nat b y \<Longrightarrow> bigint_compare_abs a b = sgn (int x - int y)"
  by (simp add: compare_abs_sgn bigint_wfD holds_natD)

lemma holds_nat_set_bit:
  assumes r: "holds_nat v r" and "2 ^ Suc k dvd r"
    and Q: "\<And>st v'. outcome u (Suc (k div 64) \<le> BIGINT_MAX_LIMBS) st (holds_nat v' (r + 2 ^ k)) True \<Longrightarrow> Q (st, v')"
  shows "rspec u (bigint_set_bit v k) Q"
proof (rule set_bit_wp, (use holds_natD [OF r] in \<open>simp_all add: bigint_wfD\<close>)[2], rule Q, erule outcome_mono)
  fix v'
  assume v': "storage_ok v' \<and> canonical (limbs v') \<and> bigint_mag v' = set_bit k (bigint_mag v) \<and> is_negative v' = is_negative v"
  then show "holds_nat v' (r + 2 ^ k)"
    using holds_natD [OF r] by (intro holds_natI) (simp_all add: bigint_wf_iff set_bit_add [OF assms(2)])
qed simp_all

lemma square_bits_loop_wp:
  assumes v: "holds_nat v n" and R: "F \<Longrightarrow> R * R < LB ^ (BIGINT_MAX_LIMBS - 1)"
    and Q: "\<And>st r'. outcome u F st (\<exists>s. is_sqrt n s \<and> holds_nat r' s \<and> s < R) True \<Longrightarrow> Q (st, r')"
  shows "holds_nat x r \<Longrightarrow> 2 ^ i dvd r \<Longrightarrow> r * r \<le> n \<Longrightarrow> n < (r + 2 ^ i) * (r + 2 ^ i) \<Longrightarrow> r + 2 ^ i \<le> R \<Longrightarrow>
    storage_ok c \<Longrightarrow> storage_ok sq \<Longrightarrow> (F \<Longrightarrow> Suc (i div 64) \<le> BIGINT_MAX_LIMBS) \<Longrightarrow>
    rspec u (square_bits_loop i v x c sq) Q"
proof (induction i arbitrary: x c sq r)
  case 0
  then show ?case by (auto intro!: triple_return Q exI [of _ r] simp: is_sqrt_def)
next
  case (Suc i)
  note x = Suc.prems(1) and c = Suc.prems(6) and sq = Suc.prems(7)
  have fail: "Q (st, z)" if "resource_failure u X st" "F \<Longrightarrow> X" for st X z
    by (rule Q, rule outcome_failI [OF that(1)]) (use that(2) in simp_all)
  let ?c = "r + 2 ^ i"
  have step: "?c + 2 ^ i = r + 2 ^ Suc i" by simp
  have R': "?c \<le> R" using Suc.prems(5) by simp
  have fits: "?c * ?c < LB ^ (BIGINT_MAX_LIMBS - 1)" if F
    using R [OF that] mult_le_mono [OF R' R'] by (rule order_le_less_trans [rotated])
  have idiv: "Suc (i div 64) \<le> BIGINT_MAX_LIMBS" if F
    using Suc.prems(8) [OF that] div_le_mono [of i "Suc i" 64] by linarith
  have dvd: "2 ^ i dvd r" using Suc.prems(2) by (rule dvd_trans [rotated]) simp
  have last: "rspec u (if st = BIGINT_OK then (if bigint_compare_abs sq' v \<le> 0
        then square_bits_loop i v c' x sq' else square_bits_loop i v x c' sq')
      else State_Monad.return (st, x)) Q"
    if ok: "st = BIGINT_OK \<Longrightarrow> holds_nat c' ?c" "st = BIGINT_OK \<Longrightarrow> holds_nat sq' (?c * ?c)"
      and bad: "st \<noteq> BIGINT_OK \<Longrightarrow> Q (st, x)" for st c' sq'
  proof (cases "st = BIGINT_OK")
    case True
    note c' = ok(1) [OF True] and sq' = ok(2) [OF True]
    have le: "bigint_compare_abs sq' v \<le> 0 \<longleftrightarrow> ?c * ?c \<le> n"
      by (simp add: compare_abs_nat [OF sq' v] sgn_if del: of_nat_mult of_nat_add)
    have "rspec u (square_bits_loop i v c' x sq') Q" if "?c * ?c \<le> n"
    proof (rule Suc.IH [OF c'])
      show "2 ^ i dvd ?c" using dvd by simp
      show "n < (?c + 2 ^ i) * (?c + 2 ^ i)" unfolding step by (rule Suc.prems(4))
      show "?c + 2 ^ i \<le> R" unfolding step by (rule Suc.prems(5))
    qed (use that holds_natD(6) [OF x] holds_natD(6) [OF sq'] idiv in auto)
    moreover have "rspec u (square_bits_loop i v x c' sq') Q" if "\<not> ?c * ?c \<le> n"
      by (rule Suc.IH [OF x dvd Suc.prems(3) _ R'])
        (use that holds_natD(6) [OF c'] holds_natD(6) [OF sq'] idiv in auto)
    ultimately show ?thesis using True le by simp
  qed (use bad in \<open>simp add: triple_return\<close>)
  show ?case
    unfolding square_bits_loop.simps
    by (intro triple_bind [of _ "bigint_copy _ _"] holds_nat_copy [OF x c] triple_case_pair chain_link
        triple_bind [of _ "bigint_set_bit _ _"] holds_nat_set_bit [of _ r, OF _ Suc.prems(2)]
        triple_bind [of _ "bigint_mul _ _ _"] holds_nat_mul [of _ ?c _ ?c, OF _ _ sq] last;
      (simp; fail | rule fail [of True]; simp; fail | rule fail [OF _ idiv]; simp; fail
       | rule fail [OF _ fits]; simp; fail)?)
qed

lemma is_perfect_square_wp [wp]:
  assumes v: "bigint_wf v"
    and Q: "\<And>st p. (if bigint_val v < 0 then st = BIGINT_OK \<and> \<not> p
      else outcome u (Suc (Suc (bsize v)) \<le> BIGINT_MAX_LIMBS) st (p \<longleftrightarrow> (\<exists>x. bigint_val v = x * x)) (p = p0)) \<Longrightarrow> Q (st, p)"
  shows "rspec u (bigint_is_perfect_square p0 v) Q"
proof (cases "is_negative v \<or> limbs v = []")
  case True
  then show ?thesis
    unfolding bigint_is_perfect_square_def
    using bigint_val_neg_iff [OF v] bigint_val_0_iff [OF v]
    by (auto intro!: triple_return Q simp: bigint_val_def [of v])
next
  case False
  then have neg: "\<not> is_negative v" and ne: "limbs v \<noteq> []" by auto
  let ?n = "bigint_mag v"
  let ?F = "Suc (Suc (bsize v)) \<le> BIGINT_MAX_LIMBS"
  have val: "bigint_val v = int ?n" using neg by (simp add: bigint_val_def)
  have n: "holds_nat v ?n" using v val by (simp add: holds_nat_def)
  have fin: "Q (st, p)" if "outcome u ?F st (p \<longleftrightarrow> (\<exists>x. bigint_val v = x * x)) (p = p0)" for st p
    using that val by (intro Q) simp
  have fail: "Q (st, p0)" if "resource_failure u X st" "?F \<Longrightarrow> X" for st X
    by (rule fin, rule outcome_failI [OF that(1)]) (use that(2) in simp_all)
  let ?b = "(bigint_bit_length v + 1) div 2"
  let ?R = "2 ^ ?b :: nat"
  note bl = bit_length_correct [OF bigint_wfD(1) [OF v] ne]
  have b: "bigint_bit_length v \<le> 2 * ?b" "2 * ?b \<le> bigint_bit_length v + 1" by linarith+
  have R: "?R * ?R < LB ^ (BIGINT_MAX_LIMBS - 1)" if ?F
  proof -
    have "2 * ?b \<le> 64 * bsize v + 1" using b bit_length_bsize [OF bigint_wfD(1) [OF v]] by linarith
    then have "2 * ?b < 64 * Suc (bsize v)" by simp
    then have "(2 :: nat) ^ (2 * ?b) < 2 ^ (64 * Suc (bsize v))" by (rule power_strict_increasing) simp
    then have "?R * ?R < LB ^ Suc (bsize v)" unfolding LB_power by (simp only: mult_2 power_add)
    also have "\<dots> \<le> LB ^ (BIGINT_MAX_LIMBS - 1)" using that by (intro power_increasing) (auto simp: Suc_le_eq)
    finally show ?thesis .
  qed
  have less: "?n < (0 + ?R) * (0 + ?R)"
  proof -
    have "?n < 2 ^ bigint_bit_length v" by (rule bl(3))
    also have "\<dots> \<le> 2 ^ (2 * ?b)" using b(1) by (rule power_increasing) simp
    finally show ?thesis by (simp add: mult_2 power_add)
  qed
  have bdiv: "Suc (?b div 64) \<le> BIGINT_MAX_LIMBS" if ?F
  proof -
    have "?b \<le> 64 * bsize v" using b(2) bl(1) bit_length_bsize [OF bigint_wfD(1) [OF v]] by linarith
    then have "?b div 64 \<le> bsize v" by simp
    with that show ?thesis by simp
  qed
  show ?thesis
    unfolding bigint_is_perfect_square_def if_not_P [OF neg] if_not_P [OF ne] Let_def
  proof (rule triple_bind, rule square_bits_loop_wp [where r = 0 and F = ?F and R = ?R, OF n R])
    show "holds_nat bigint_init 0" by (simp add: holds_nat_def)
    show "?n < (0 + ?R) * (0 + ?R)" by (rule less)
    fix st r'
    assume o: "outcome u ?F st (\<exists>s. is_sqrt ?n s \<and> holds_nat r' s \<and> s < ?R) True"
    show "rspec u (case (st, r') of (status, the_root) \<Rightarrow> do {
        (status, root_squared) \<leftarrow> (if status = BIGINT_OK then bigint_mul bigint_init the_root the_root
           else State_Monad.return (status, bigint_init));
        State_Monad.return (status,
          if status = BIGINT_OK then bigint_compare_abs root_squared v = 0 else p0) }) Q"
    proof (rule triple_case_pair, rule chain_link)
      assume "st = BIGINT_OK"
      then obtain s where s: "is_sqrt ?n s" "holds_nat r' s" "s < ?R" using o by auto
      have sq: "s * s = ?n \<longleftrightarrow> (\<exists>x. bigint_val v = x * x)"
      proof
        assume "s * s = ?n"
        then have "bigint_val v = int s * int s" unfolding val by (metis of_nat_mult)
        then show "\<exists>x. bigint_val v = x * x" ..
      next
        assume "\<exists>x. bigint_val v = x * x"
        then obtain x where "int ?n = \<bar>x\<bar> * \<bar>x\<bar>" using val by auto
        then have "int ?n = int (nat \<bar>x\<bar> * nat \<bar>x\<bar>)" by simp
        then have "?n = nat \<bar>x\<bar> * nat \<bar>x\<bar>" by (simp only: of_nat_eq_iff)
        then have "is_sqrt ?n (nat \<bar>x\<bar>)" by (simp add: is_sqrt_def)
        with is_sqrt_unique [OF s(1)] show "s * s = ?n" using \<open>?n = nat \<bar>x\<bar> * nat \<bar>x\<bar>\<close> by metis
      qed
      have fits: "s * s < LB ^ (BIGINT_MAX_LIMBS - 1)" if ?F
        using R [OF that] s(3) by (intro order_le_less_trans [OF mult_le_mono [of s ?R s ?R]]) simp_all
      have decide: "bigint_compare_abs q v = 0 \<longleftrightarrow> (\<exists>x. bigint_val v = x * x)" if "holds_nat q (s * s)" for q
        unfolding compare_abs_nat [OF that n] sq [symmetric] sgn_eq_0_iff by linarith
      show "rspec u (bigint_mul bigint_init r' r' \<bind> (\<lambda>(status, root_squared). State_Monad.return (status,
          if status = BIGINT_OK then bigint_compare_abs root_squared v = 0 else p0))) Q"
      proof (rule triple_bind, rule holds_nat_mul [OF s(2,2) storage_ok_init], rule triple_case_pair, rule triple_return)
        fix st q
        assume o: "outcome u (s * s < LB ^ (BIGINT_MAX_LIMBS - 1)) st (holds_nat q (s * s)) True"
        show "Q (st, if st = BIGINT_OK then bigint_compare_abs q v = 0 else p0)"
        proof (cases "st = BIGINT_OK")
          case True
          with o decide [of q] show ?thesis by (intro fin) simp
        next
          case False
          with o have "resource_failure u (s * s < LB ^ (BIGINT_MAX_LIMBS - 1)) st" by simp
          from fail [OF this fits] False show ?thesis by simp
        qed
      qed
    next
      assume "st \<noteq> BIGINT_OK"
      then show "rspec u (case (st, bigint_init) of (status, root_squared) \<Rightarrow> State_Monad.return (status,
          if status = BIGINT_OK then bigint_compare_abs root_squared v = 0 else p0)) Q"
        using o by (simp add: triple_return fail [of ?F])
    qed
  qed (use bdiv in simp_all)
qed

section \<open>Properties\<close>

text \<open>C32: The Miller-Rabin test never rejects a prime: whenever it succeeds on a prime it
  answers true, and with unlimited resources it does succeed on values whose square fits an
  object.\<close>

theorem prime_never_rejected:
  assumes "\<not> stuck s" "bigint_wf v" "bigint_val v = int n" "is_prime n"
  shows "case run_state (bigint_is_probable_prime p0 v) s of ((st, p), s') \<Rightarrow> \<not> stuck s' \<and>
    outcome (unlimited s) (n * n < LB ^ (BIGINT_MAX_LIMBS - 1)) st p (p = p0)"
proof (rule rspec_run2 [OF _ assms(1)], rule is_probable_prime_wp [OF assms(2)])
  have mag: "bigint_mag v = n" using nonneg_product(1) [OF assms(2,3)] .
  have n: "1 < n" using is_prime_gt_1 [OF assms(4)] .
  have even: "even n \<Longrightarrow> n = 2" using assms(4) by (auto simp: is_prime_def)
  fix st p
  assume "if bigint_val v < 2 then st = BIGINT_OK \<and> \<not> p
      else if even (bigint_val v) then st = BIGINT_OK \<and> (p \<longleftrightarrow> bigint_val v = 2)
      else outcome (unlimited s) (bigint_mag v * bigint_mag v < LB ^ (BIGINT_MAX_LIMBS - 1)) st
        (p \<longleftrightarrow> passes_witnesses (bigint_mag v)) (p = p0)"
  then show "case (st, p) of (st, p) \<Rightarrow> outcome (unlimited s) (n * n < LB ^ (BIGINT_MAX_LIMBS - 1)) st p (p = p0)"
    using n even prime_passes_witnesses [OF assms(4)] unfolding mag assms(3)
    by (auto elim: outcome_mono split: if_splits)
qed

theorem prime_never_rejected_witness:
  "case run_state (bigint_is_probable_prime False (bigint_wrap_uint64 13)) idle_runtime of
     ((st, p), s') \<Rightarrow> st = BIGINT_OK \<and> p"
proof -
  have "is_prime 13" by (rule is_primeI) (simp, code_simp)
  then show ?thesis
    using prime_never_rejected [of idle_runtime "bigint_wrap_uint64 13" 13 False] example_bound [of 169, simplified]
    by (auto simp: outcome_def resource_failure_def split: prod.splits if_splits)
qed

text \<open>What the test decides: values below 2 are not prime, among the even values only 2 is,
  and an odd value is accepted exactly when it meets the strong probable prime condition for
  each of the seven witnesses.\<close>

theorem bigint_is_probable_prime_correct:
  assumes "\<not> stuck s" "bigint_wf v"
  shows "case run_state (bigint_is_probable_prime p0 v) s of ((st, p), s') \<Rightarrow> \<not> stuck s' \<and>
    (if bigint_val v < 2 then st = BIGINT_OK \<and> \<not> p
     else if even (bigint_val v) then st = BIGINT_OK \<and> (p \<longleftrightarrow> bigint_val v = 2)
     else outcome (unlimited s) (bigint_mag v * bigint_mag v < LB ^ (BIGINT_MAX_LIMBS - 1)) st
       (p \<longleftrightarrow> passes_witnesses (bigint_mag v)) (p = p0))"
  by (rule rspec_run2 [OF _ assms(1)]) (rule is_probable_prime_wp [OF assms(2)], simp)

theorem bigint_is_probable_prime_correct_witness:
  "case run_state (bigint_is_probable_prime True (bigint_wrap_uint64 9)) idle_runtime of
     ((st, p), s') \<Rightarrow> st = BIGINT_OK \<and> \<not> p"
proof -
  have "\<not> passes_witnesses 9"
  proof
    assume "passes_witnesses 9"
    then obtain s d :: nat where d: "odd d" "8 = 2 ^ s * d"
      "strong_probable_prime 9 s d 2"
      unfolding passes_witnesses_def miller_rabin_witnesses_def by auto
    have "s = 3 \<and> d = 1" using two_power_odd_unique [of s d 3 1] d(1,2) by simp
    then have "strong_probable_prime 9 3 1 2" using d(3) by simp
    moreover have "(2 :: nat) ^ (2 ^ r * 1) mod 9 \<noteq> 8" if "r < 3" for r :: nat
    proof -
      from that consider "r = 0" | "r = 1" | "r = 2" by linarith
      then show ?thesis by cases simp_all
    qed
    then have "\<not> strong_probable_prime 9 3 1 2" by (auto simp: strong_probable_prime_def)
    ultimately show False by blast
  qed
  then show ?thesis
    using bigint_is_probable_prime_correct [of idle_runtime "bigint_wrap_uint64 9" True] example_bound [of 81, simplified]
    by (auto simp: outcome_def resource_failure_def bigint_wrap_uint64_def [THEN arg_cong [where f = limbs]]
        split: prod.splits if_splits)
qed

text \<open>The perfect square test decides whether the value is a square, for every value whose
  operands fit.\<close>

theorem bigint_is_perfect_square_correct:
  assumes "\<not> stuck s" "bigint_wf v"
  shows "case run_state (bigint_is_perfect_square p0 v) s of ((st, p), s') \<Rightarrow> \<not> stuck s' \<and>
    (if bigint_val v < 0 then st = BIGINT_OK \<and> \<not> p
     else outcome (unlimited s) (Suc (Suc (bsize v)) \<le> BIGINT_MAX_LIMBS) st
       (p \<longleftrightarrow> (\<exists>x. bigint_val v = x * x)) (p = p0))"
  by (rule rspec_run2 [OF _ assms(1)]) (rule is_perfect_square_wp [OF assms(2)], simp)

theorem bigint_is_perfect_square_correct_witness:
  "case run_state (bigint_is_perfect_square False (bigint_wrap_uint64 49)) idle_runtime of
     ((st, p), s') \<Rightarrow> st = BIGINT_OK \<and> p"
proof -
  have "\<exists>x :: int. 49 = x * x" by (rule exI [of _ 7]) simp
  then show ?thesis
    using bigint_is_perfect_square_correct [of idle_runtime "bigint_wrap_uint64 49" False]
    by (auto simp: example_simps outcome_def resource_failure_def split: prod.splits if_splits)
qed

end
