(* ===== verification/BigRational.thy ===== *)
theory BigRational
  imports BigInt_Primality
begin

text \<open>
  Exact fractions, \<^verbatim>\<open>src/core/bigrational\<close>: \<^verbatim>\<open>bigrational.c\<close> without
  its two conversions from and to \<^verbatim>\<open>BigDecimal\<close> (in \<open>Decimal_Operations\<close>), and \<^verbatim>\<open>sqrt.c\<close>.

  A \<^verbatim>\<open>struct BigRational\<close> is a record of the two objects it owns. The invariant
  \<open>rational_wf\<close> is the one of the header file: reduced, with a positive denominator. The
  rational number an object denotes is \<open>rational_val\<close>, of the type \<open>rat\<close> of HOL.
\<close>

section \<open>Objects and statuses\<close>

datatype BigRationalStatus =
    BIGRATIONAL_OK
  | BIGRATIONAL_NULL_ARGUMENT
  | BIGRATIONAL_OUT_OF_MEMORY
  | BIGRATIONAL_INVALID_ARGUMENT
  | BIGRATIONAL_DIVISION_BY_ZERO
  | BIGRATIONAL_VALUE_TOO_LARGE
  | BIGRATIONAL_SCALE_OVERFLOW

record BigRational =
  numerator :: BigInt
  denominator :: BigInt

definition numforge_storage_add :: "nat \<Rightarrow> nat \<Rightarrow> nat" where
  "numforge_storage_add a b = (if b > SIZE_MAX - a then SIZE_MAX else a + b)"

definition bigrational_storage_bytes :: "BigRational option \<Rightarrow> nat" where
  "bigrational_storage_bytes p = (case p of None \<Rightarrow> 0
     | Some value \<Rightarrow> numforge_storage_add 16 (numforge_storage_add
         (bigint_storage_bytes (Some (numerator value))) (bigint_storage_bytes (Some (denominator value)))))"

fun rational_from_integer_status :: "BigIntStatus \<Rightarrow> BigRationalStatus" where
  "rational_from_integer_status BIGINT_OK = BIGRATIONAL_OK"
| "rational_from_integer_status BIGINT_NULL_ARGUMENT = BIGRATIONAL_NULL_ARGUMENT"
| "rational_from_integer_status BIGINT_OUT_OF_MEMORY = BIGRATIONAL_OUT_OF_MEMORY"
| "rational_from_integer_status BIGINT_DIVISION_BY_ZERO = BIGRATIONAL_DIVISION_BY_ZERO"
| "rational_from_integer_status BIGINT_VALUE_TOO_LARGE = BIGRATIONAL_VALUE_TOO_LARGE"
| "rational_from_integer_status _ = BIGRATIONAL_INVALID_ARGUMENT"

definition bigrational_status_to_string :: "BigRationalStatus \<Rightarrow> string" where
  "bigrational_status_to_string status = (case status of
      BIGRATIONAL_OK \<Rightarrow> ''success''
    | BIGRATIONAL_NULL_ARGUMENT \<Rightarrow> ''null argument''
    | BIGRATIONAL_OUT_OF_MEMORY \<Rightarrow> ''out of memory''
    | BIGRATIONAL_INVALID_ARGUMENT \<Rightarrow> ''invalid argument''
    | BIGRATIONAL_DIVISION_BY_ZERO \<Rightarrow> ''division by zero''
    | BIGRATIONAL_VALUE_TOO_LARGE \<Rightarrow> ''value too large''
    | BIGRATIONAL_SCALE_OVERFLOW \<Rightarrow> ''scale overflow'')"

text \<open>\<^verbatim>\<open>rational_from_integer_status(bigint_op(...))\<close>\<close>

definition integer_call :: "(BigIntStatus \<times> 'a) rt \<Rightarrow> (BigRationalStatus \<times> 'a) rt" where
  "integer_call m = do { (status, x) \<leftarrow> m; State_Monad.return (rational_from_integer_status status, x) }"

text \<open>\<open>n\<close> calls of \<^verbatim>\<open>bigint_create\<close> in a row, and whether all returned an
  object (each a fresh \<open>bigint_init\<close>).\<close>

primrec create_objects :: "nat \<Rightarrow> bool rt" where
  "create_objects 0 = State_Monad.return True"
| "create_objects (Suc n) = do {
     p \<leftarrow> bigint_create;
     others \<leftarrow> create_objects n;
     State_Monad.return (p \<noteq> None \<and> others)
   }"

section \<open>Construction\<close>

definition bigrational_create :: "BigRational option rt" where
  "bigrational_create = do {
     granted \<leftarrow> numforge_malloc 16;
     if \<not> granted then State_Monad.return None
     else do {
       created \<leftarrow> create_objects 2;
       if \<not> created then State_Monad.return None
       else do {
         (status, den) \<leftarrow> bigint_set_string bigint_init ''1'';
         State_Monad.return (if status \<noteq> BIGINT_OK then None
           else Some \<lparr>numerator = bigint_init, denominator = den\<rparr>)
       }
     }
   }"

text \<open>The temporary's objects move into the destination; the old ones are freed.\<close>

definition rational_commit :: "BigRational \<Rightarrow> BigRational \<Rightarrow> BigRational" where
  "rational_commit destination temporary =
     destination\<lparr>numerator := numerator temporary, denominator := denominator temporary\<rparr>"

text \<open>\<open>same\<close> says whether \<^verbatim>\<open>result == value\<close> as pointers.\<close>

definition bigrational_copy ::
  "bool \<Rightarrow> BigRational \<Rightarrow> BigRational \<Rightarrow> (BigRationalStatus \<times> BigRational) rt" where
  "bigrational_copy same result value =
    (if same then State_Monad.return (BIGRATIONAL_OK, result)
     else do {
       created \<leftarrow> bigrational_create;
       case created of
         None \<Rightarrow> State_Monad.return (BIGRATIONAL_OUT_OF_MEMORY, result)
       | Some temporary \<Rightarrow> do {
           (status, num) \<leftarrow> integer_call (bigint_copy (numerator temporary) (numerator value));
           (status, den) \<leftarrow> (if status = BIGRATIONAL_OK
              then integer_call (bigint_copy (denominator temporary) (denominator value))
              else State_Monad.return (status, denominator temporary));
           State_Monad.return (status, if status = BIGRATIONAL_OK
             then rational_commit result \<lparr>numerator = num, denominator = den\<rparr> else result)
         }
     })"

definition bigrational_set_fraction ::
  "BigRational \<Rightarrow> BigInt \<Rightarrow> BigInt \<Rightarrow> (BigRationalStatus \<times> BigRational) rt" where
  "bigrational_set_fraction result num den =
    (if bigint_is_zero den then State_Monad.return (BIGRATIONAL_DIVISION_BY_ZERO, result)
     else do {
       created \<leftarrow> bigrational_create;
       factor \<leftarrow> bigint_create;
       case (created, factor) of
         (Some temporary, Some factor) \<Rightarrow> do {
           (status, factor) \<leftarrow> integer_call (bigint_gcd factor num den);
           (status, temporary) \<leftarrow> (if status = BIGRATIONAL_OK \<and> \<not> bigint_is_zero num then do {
               (status, n) \<leftarrow> integer_call (bigint_div (numerator temporary) num factor);
               (status, d) \<leftarrow> (if status = BIGRATIONAL_OK
                  then integer_call (bigint_div (denominator temporary) den factor)
                  else State_Monad.return (status, denominator temporary));
               if status = BIGRATIONAL_OK \<and> bigint_is_negative d then do {
                 (status, n) \<leftarrow> integer_call (bigint_negate n n);
                 (status, d) \<leftarrow> (if status = BIGRATIONAL_OK then integer_call (bigint_abs d d)
                    else State_Monad.return (status, d));
                 State_Monad.return (status, \<lparr>numerator = n, denominator = d\<rparr>)
               } else State_Monad.return (status, \<lparr>numerator = n, denominator = d\<rparr>)
             } else State_Monad.return (status, temporary));
           State_Monad.return (status,
             if status = BIGRATIONAL_OK then rational_commit result temporary else result)
         }
       | _ \<Rightarrow> State_Monad.return (BIGRATIONAL_OUT_OF_MEMORY, result)
     })"

definition bigrational_from_bigint :: "BigRational \<Rightarrow> BigInt \<Rightarrow> (BigRationalStatus \<times> BigRational) rt" where
  "bigrational_from_bigint result value = do {
     created \<leftarrow> bigrational_create;
     case created of
       None \<Rightarrow> State_Monad.return (BIGRATIONAL_OUT_OF_MEMORY, result)
     | Some temporary \<Rightarrow> do {
         (status, num) \<leftarrow> integer_call (bigint_copy (numerator temporary) value);
         State_Monad.return (status, if status = BIGRATIONAL_OK
           then rational_commit result (temporary\<lparr>numerator := num\<rparr>) else result)
       }
   }"

definition bigrational_get_numerator :: "BigInt \<Rightarrow> BigRational \<Rightarrow> (BigRationalStatus \<times> BigInt) rt" where
  "bigrational_get_numerator result value = integer_call (bigint_copy result (numerator value))"

definition bigrational_get_denominator :: "BigInt \<Rightarrow> BigRational \<Rightarrow> (BigRationalStatus \<times> BigInt) rt" where
  "bigrational_get_denominator result value = integer_call (bigint_copy result (denominator value))"

definition bigrational_to_string :: "BigRational \<Rightarrow> string option \<Rightarrow> (BigRationalStatus \<times> string option) rt" where
  "bigrational_to_string value result = do {
     num \<leftarrow> bigint_to_string (numerator value);
     case num of
       None \<Rightarrow> State_Monad.return (BIGRATIONAL_OUT_OF_MEMORY, result)
     | Some num \<Rightarrow> do {
         den \<leftarrow> (if \<not> bigint_is_one (denominator value) then bigint_to_string (denominator value)
                else State_Monad.return None);
         if \<not> bigint_is_one (denominator value) \<and> den = None
         then State_Monad.return (BIGRATIONAL_OUT_OF_MEMORY, result)
         else
           (let first = length num; second = (case den of None \<Rightarrow> 0 | Some t \<Rightarrow> length t)
            in if second > SIZE_MAX - 2 \<or> first > SIZE_MAX - second - 2
               then State_Monad.return (BIGRATIONAL_VALUE_TOO_LARGE, result)
               else do {
                 granted \<leftarrow> numforge_malloc (first + second + (if den = None then 1 else 2));
                 State_Monad.return (if \<not> granted then (BIGRATIONAL_OUT_OF_MEMORY, result)
                   else (BIGRATIONAL_OK, Some (num @ (case den of None \<Rightarrow> [] | Some t \<Rightarrow> ''/'' @ t))))
               })
       }
   }"

section \<open>Comparison and arithmetic\<close>

definition bigrational_compare ::
  "int \<Rightarrow> BigRational \<Rightarrow> BigRational \<Rightarrow> (BigRationalStatus \<times> int) rt" where
  "bigrational_compare comparison a b = do {
     created \<leftarrow> create_objects 4;
     if \<not> created then State_Monad.return (BIGRATIONAL_OUT_OF_MEMORY, comparison)
     else do {
       (status, g) \<leftarrow> integer_call (bigint_gcd bigint_init (denominator a) (denominator b));
       (status, factor) \<leftarrow> (if status = BIGRATIONAL_OK
          then integer_call (bigint_div bigint_init (denominator b) g)
          else State_Monad.return (status, bigint_init));
       (status, left) \<leftarrow> (if status = BIGRATIONAL_OK
          then integer_call (bigint_mul bigint_init (numerator a) factor)
          else State_Monad.return (status, bigint_init));
       (status, factor) \<leftarrow> (if status = BIGRATIONAL_OK
          then integer_call (bigint_div factor (denominator a) g)
          else State_Monad.return (status, factor));
       (status, right) \<leftarrow> (if status = BIGRATIONAL_OK
          then integer_call (bigint_mul bigint_init (numerator b) factor)
          else State_Monad.return (status, bigint_init));
       State_Monad.return (status, if status = BIGRATIONAL_OK then bigint_compare left right else comparison)
     }
   }"

definition rational_unary ::
  "BigRational \<Rightarrow> BigRational \<Rightarrow> bool \<Rightarrow> (BigRationalStatus \<times> BigRational) rt" where
  "rational_unary result value negate = do {
     created \<leftarrow> bigrational_create;
     case created of
       None \<Rightarrow> State_Monad.return (BIGRATIONAL_OUT_OF_MEMORY, result)
     | Some temporary \<Rightarrow> do {
         (status, temporary) \<leftarrow> bigrational_copy False temporary value;
         (status, num) \<leftarrow> (if status = BIGRATIONAL_OK
            then integer_call (if negate then bigint_negate (numerator temporary) (numerator temporary)
                               else bigint_abs (numerator temporary) (numerator temporary))
            else State_Monad.return (status, numerator temporary));
         State_Monad.return (status, if status = BIGRATIONAL_OK
           then rational_commit result (temporary\<lparr>numerator := num\<rparr>) else result)
       }
   }"

definition bigrational_negate :: "BigRational \<Rightarrow> BigRational \<Rightarrow> (BigRationalStatus \<times> BigRational) rt" where
  "bigrational_negate result value = rational_unary result value True"

definition bigrational_abs :: "BigRational \<Rightarrow> BigRational \<Rightarrow> (BigRationalStatus \<times> BigRational) rt" where
  "bigrational_abs result value = rational_unary result value False"

definition rational_sum ::
  "BigRational \<Rightarrow> BigRational \<Rightarrow> BigRational \<Rightarrow> bool \<Rightarrow> (BigRationalStatus \<times> BigRational) rt" where
  "rational_sum result a b subtracting = do {
     created \<leftarrow> create_objects 7;
     if \<not> created then State_Monad.return (BIGRATIONAL_OUT_OF_MEMORY, result)
     else do {
       (status, g) \<leftarrow> integer_call (bigint_gcd bigint_init (denominator a) (denominator b));
       (status, u) \<leftarrow> (if status = BIGRATIONAL_OK
          then integer_call (bigint_div bigint_init (denominator b) g)
          else State_Monad.return (status, bigint_init));
       (status, v) \<leftarrow> (if status = BIGRATIONAL_OK
          then integer_call (bigint_div bigint_init (denominator a) g)
          else State_Monad.return (status, bigint_init));
       (status, left) \<leftarrow> (if status = BIGRATIONAL_OK
          then integer_call (bigint_mul bigint_init (numerator a) u)
          else State_Monad.return (status, bigint_init));
       (status, right) \<leftarrow> (if status = BIGRATIONAL_OK
          then integer_call (bigint_mul bigint_init (numerator b) v)
          else State_Monad.return (status, bigint_init));
       (status, num) \<leftarrow> (if status = BIGRATIONAL_OK
          then integer_call (if subtracting then bigint_sub bigint_init left right
                             else bigint_add bigint_init left right)
          else State_Monad.return (status, bigint_init));
       (status, den) \<leftarrow> (if status = BIGRATIONAL_OK
          then integer_call (bigint_mul bigint_init (denominator a) u)
          else State_Monad.return (status, bigint_init));
       if status = BIGRATIONAL_OK then bigrational_set_fraction result num den
       else State_Monad.return (status, result)
     }
   }"

definition bigrational_add ::
  "BigRational \<Rightarrow> BigRational \<Rightarrow> BigRational \<Rightarrow> (BigRationalStatus \<times> BigRational) rt" where
  "bigrational_add result a b = rational_sum result a b False"

definition bigrational_sub ::
  "BigRational \<Rightarrow> BigRational \<Rightarrow> BigRational \<Rightarrow> (BigRationalStatus \<times> BigRational) rt" where
  "bigrational_sub result a b = rational_sum result a b True"

definition rational_product ::
  "BigRational \<Rightarrow> BigRational \<Rightarrow> BigRational \<Rightarrow> bool \<Rightarrow> (BigRationalStatus \<times> BigRational) rt" where
  "rational_product result a b dividing =
    (let upper = (if dividing then denominator b else numerator b);
         lower = (if dividing then numerator b else denominator b)
     in if dividing \<and> bigint_is_zero (numerator b)
        then State_Monad.return (BIGRATIONAL_DIVISION_BY_ZERO, result)
        else do {
          created \<leftarrow> create_objects 8;
          if \<not> created then State_Monad.return (BIGRATIONAL_OUT_OF_MEMORY, result)
          else do {
            (status, g1) \<leftarrow> integer_call (bigint_gcd bigint_init (numerator a) lower);
            (status, g2) \<leftarrow> (if status = BIGRATIONAL_OK
               then integer_call (bigint_gcd bigint_init upper (denominator a))
               else State_Monad.return (status, bigint_init));
            (status, p) \<leftarrow> (if status = BIGRATIONAL_OK
               then integer_call (bigint_div bigint_init (numerator a) g1)
               else State_Monad.return (status, bigint_init));
            (status, q) \<leftarrow> (if status = BIGRATIONAL_OK
               then integer_call (bigint_div bigint_init upper g2)
               else State_Monad.return (status, bigint_init));
            (status, u) \<leftarrow> (if status = BIGRATIONAL_OK
               then integer_call (bigint_div bigint_init (denominator a) g2)
               else State_Monad.return (status, bigint_init));
            (status, v) \<leftarrow> (if status = BIGRATIONAL_OK
               then integer_call (bigint_div bigint_init lower g1)
               else State_Monad.return (status, bigint_init));
            (status, num) \<leftarrow> (if status = BIGRATIONAL_OK then integer_call (bigint_mul bigint_init p q)
               else State_Monad.return (status, bigint_init));
            (status, den) \<leftarrow> (if status = BIGRATIONAL_OK then integer_call (bigint_mul bigint_init u v)
               else State_Monad.return (status, bigint_init));
            if status = BIGRATIONAL_OK then bigrational_set_fraction result num den
            else State_Monad.return (status, result)
          }
        })"

definition bigrational_mul ::
  "BigRational \<Rightarrow> BigRational \<Rightarrow> BigRational \<Rightarrow> (BigRationalStatus \<times> BigRational) rt" where
  "bigrational_mul result a b = rational_product result a b False"

definition bigrational_div ::
  "BigRational \<Rightarrow> BigRational \<Rightarrow> BigRational \<Rightarrow> (BigRationalStatus \<times> BigRational) rt" where
  "bigrational_div result a b = rational_product result a b True"

section \<open>Exact square roots\<close>

fun integer_status :: "BigIntStatus \<Rightarrow> BigRationalStatus" where
  "integer_status BIGINT_OK = BIGRATIONAL_OK"
| "integer_status BIGINT_OUT_OF_MEMORY = BIGRATIONAL_OUT_OF_MEMORY"
| "integer_status BIGINT_NULL_ARGUMENT = BIGRATIONAL_NULL_ARGUMENT"
| "integer_status BIGINT_VALUE_TOO_LARGE = BIGRATIONAL_VALUE_TOO_LARGE"
| "integer_status _ = BIGRATIONAL_INVALID_ARGUMENT"

definition sqrt_call :: "(BigIntStatus \<times> 'a) rt \<Rightarrow> (BigRationalStatus \<times> 'a) rt" where
  "sqrt_call m = do { (status, x) \<leftarrow> m; State_Monad.return (integer_status status, x) }"

definition numforge_rational_sqrt_exact ::
  "BigRational \<Rightarrow> BigRational \<Rightarrow> bool \<Rightarrow> (BigRationalStatus \<times> BigRational \<times> bool) rt" where
  "numforge_rational_sqrt_exact result operand exact = do {
     created \<leftarrow> create_objects 5;
     if \<not> created then State_Monad.return (BIGRATIONAL_OUT_OF_MEMORY, result, exact)
     else do {
       (status, num) \<leftarrow> bigrational_get_numerator bigint_init operand;
       (status, den) \<leftarrow> (if status = BIGRATIONAL_OK then bigrational_get_denominator bigint_init operand
          else State_Monad.return (status, bigint_init));
       status \<leftarrow> State_Monad.return (if status = BIGRATIONAL_OK \<and> bigint_is_negative num
          then BIGRATIONAL_INVALID_ARGUMENT else status);
       (status, upper) \<leftarrow> (if status = BIGRATIONAL_OK then sqrt_call (bigint_isqrt bigint_init num)
          else State_Monad.return (status, bigint_init));
       (status, square) \<leftarrow> (if status = BIGRATIONAL_OK then sqrt_call (bigint_mul bigint_init upper upper)
          else State_Monad.return (status, bigint_init));
       rational \<leftarrow> State_Monad.return (status = BIGRATIONAL_OK \<longrightarrow> bigint_compare square num = 0);
       (status, lower) \<leftarrow> (if status = BIGRATIONAL_OK \<and> rational then sqrt_call (bigint_isqrt bigint_init den)
          else State_Monad.return (status, bigint_init));
       (status, square) \<leftarrow> (if status = BIGRATIONAL_OK \<and> rational then sqrt_call (bigint_mul square lower lower)
          else State_Monad.return (status, square));
       rational \<leftarrow> State_Monad.return (if status = BIGRATIONAL_OK \<and> rational
          then bigint_compare square den = 0 else rational);
       (status, result) \<leftarrow> (if status = BIGRATIONAL_OK \<and> rational
          then bigrational_set_fraction result upper lower else State_Monad.return (status, result));
       State_Monad.return (status, result, if status = BIGRATIONAL_OK then rational else exact)
     }
   }"

section \<open>The rational number of an object\<close>

definition rational_val :: "BigRational \<Rightarrow> rat" where
  "rational_val q = Fract (bigint_val (numerator q)) (bigint_val (denominator q))"

definition rational_wf :: "BigRational \<Rightarrow> bool" where
  "rational_wf q \<longleftrightarrow> bigint_wf (numerator q) \<and> bigint_wf (denominator q) \<and>
     0 < bigint_val (denominator q) \<and> coprime (bigint_val (numerator q)) (bigint_val (denominator q))"

definition rational_size :: "BigRational \<Rightarrow> nat" where
  "rational_size q = bsize (numerator q) + bsize (denominator q)"

text \<open>The representation is unique: equal rationals have the same limbs and signs.\<close>

lemma rational_val_inj:
  assumes "rational_wf p" "rational_wf q" "rational_val p = rational_val q"
  shows "limbs (numerator p) = limbs (numerator q) \<and> is_negative (numerator p) = is_negative (numerator q) \<and>
    limbs (denominator p) = limbs (denominator q) \<and> is_negative (denominator p) = is_negative (denominator q)"
proof -
  have quot: "quotient_of (rational_val x) = (bigint_val (numerator x), bigint_val (denominator x))"
    if "rational_wf x" for x
    using that by (auto simp: rational_wf_def rational_val_def intro!: quotient_of_Fract [THEN trans] simp: normalize_def)
  show ?thesis
    using assms quot [OF assms(1)] quot [OF assms(2)] bigint_val_inj by (auto simp: rational_wf_def)
qed

definition routcome :: "bool \<Rightarrow> bool \<Rightarrow> BigRationalStatus \<Rightarrow> bool \<Rightarrow> bool \<Rightarrow> bool" where
  "routcome u fits st good bad \<longleftrightarrow>
     (if st = BIGRATIONAL_OK then good
      else (st = BIGRATIONAL_OUT_OF_MEMORY \<or> st = BIGRATIONAL_VALUE_TOO_LARGE) \<and> \<not> (u \<and> fits) \<and> bad)"

lemma routcome_OK [simp]: "routcome u F BIGRATIONAL_OK good bad = good"
  by (simp add: routcome_def)

lemma routcome_OOM [simp]: "routcome u F BIGRATIONAL_OUT_OF_MEMORY good bad \<longleftrightarrow> \<not> (u \<and> F) \<and> bad"
  by (simp add: routcome_def)

lemma routcome_LARGE [simp]: "routcome u F BIGRATIONAL_VALUE_TOO_LARGE good bad \<longleftrightarrow> \<not> (u \<and> F) \<and> bad"
  by (simp add: routcome_def)

lemma routcome_mono:
  "routcome u F st good bad \<Longrightarrow> (u \<Longrightarrow> F' \<Longrightarrow> F) \<Longrightarrow> (good \<Longrightarrow> good') \<Longrightarrow> (bad \<Longrightarrow> bad') \<Longrightarrow>
   routcome u F' st good' bad'"
  by (auto simp: routcome_def split: if_splits)

lemma routcome_failI:
  "routcome u X st good bad \<Longrightarrow> st \<noteq> BIGRATIONAL_OK \<Longrightarrow> (F \<Longrightarrow> X) \<Longrightarrow> bad' \<Longrightarrow> routcome u F st good' bad'"
  by (auto simp: routcome_def)

section \<open>Integer operations as fractions use them\<close>

definition holds_int :: "BigInt \<Rightarrow> int \<Rightarrow> bool" where
  "holds_int x v \<longleftrightarrow> bigint_wf x \<and> bigint_val x = v"

lemma holds_intD:
  "holds_int x v \<Longrightarrow> bigint_wf x" "holds_int x v \<Longrightarrow> bigint_val x = v" "holds_int x v \<Longrightarrow> storage_ok x"
  by (auto simp: holds_int_def bigint_wf_storage_ok)

lemma holds_int_bsize: "holds_int x v \<Longrightarrow> bigint_wf y \<Longrightarrow> \<bar>v\<bar> \<le> \<bar>bigint_val y\<bar> \<Longrightarrow> bsize x \<le> bsize y"
  by (rule bsize_mono) (auto simp: holds_int_def)

lemma integer_call_wp:
  assumes "rspec u m (\<lambda>(st, x). Q (rational_from_integer_status st, x))"
  shows "rspec u (integer_call m) Q"
  unfolding integer_call_def by (rule triple_bind, rule triple_conseq [OF assms]) (auto intro: triple_return)

lemma integer_outcome:
  "outcome u F st good bad \<Longrightarrow> routcome u F (rational_from_integer_status st) good bad"
  by (cases st) (auto simp: outcome_def resource_failure_def routcome_def)

lemma integer_result:
  "result_ok u F r v st x \<Longrightarrow> routcome u F (rational_from_integer_status st) (holds_int x v) True"
  using integer_outcome [of u F st "bigint_wf x \<and> bigint_val x = v" "x = r"]
  by (auto simp: result_ok_def holds_int_def elim: routcome_mono)

lemma call_gcd:
  assumes a: "holds_int a x" and b: "holds_int b y" and r: "storage_ok r"
    and Q: "\<And>st r'. routcome u (Suc (max (bsize a) (bsize b)) \<le> BIGINT_MAX_LIMBS) st (holds_int r' (gcd x y)) True \<Longrightarrow> Q (st, r')"
  shows "rspec u (integer_call (bigint_gcd r a b)) Q"
  using gcd_wp [OF r holds_intD(1) [OF a] holds_intD(1) [OF b]] holds_intD(2) [OF a] holds_intD(2) [OF b]
  by (intro integer_call_wp) (auto intro!: gcd_wp [OF r holds_intD(1) [OF a] holds_intD(1) [OF b]] Q dest: integer_result)

lemma call_mul:
  assumes a: "holds_int a x" and b: "holds_int b y" and r: "storage_ok r"
    and Q: "\<And>st r'. routcome u (bsize a + bsize b \<le> BIGINT_MAX_LIMBS) st (holds_int r' (x * y)) True \<Longrightarrow> Q (st, r')"
  shows "rspec u (integer_call (bigint_mul r a b)) Q"
  using holds_intD(2) [OF a] holds_intD(2) [OF b]
  by (intro integer_call_wp)
    (auto intro!: mul_wp [OF holds_intD(1) [OF a] holds_intD(1) [OF b] r] Q integer_result dest: result_okI)

lemma call_div:
  assumes a: "holds_int a x" and b: "holds_int b y" "y \<noteq> 0"
    and Q: "\<And>st r'. routcome u True st (holds_int r' (tdiv x y)) (r' = r) \<Longrightarrow> Q (st, r')"
  shows "rspec u (integer_call (bigint_div r a b)) Q"
proof (rule integer_call_wp, rule div_wp [OF holds_intD(1) [OF a] holds_intD(1) [OF b(1)]])
  fix st q
  assume "if limbs b = [] then st = BIGINT_DIVISION_BY_ZERO \<and> q = r
    else result_ok u True r (tdiv (bigint_val a) (bigint_val b)) st q"
  then have "result_ok u True r (tdiv x y) st q"
    using b(2) bigint_val_0_iff [OF holds_intD(1) [OF b(1)]] holds_intD(2) [OF a] holds_intD(2) [OF b(1)]
    by (auto split: if_splits)
  then show "case (st, q) of (st, x) \<Rightarrow> Q (rational_from_integer_status st, x)"
    using integer_outcome [of u True st "bigint_wf q \<and> bigint_val q = tdiv x y" "q = r"]
    by (auto simp: result_ok_def holds_int_def intro!: Q)
qed

lemma call_add:
  assumes a: "holds_int a x" and b: "holds_int b y" and r: "storage_ok r"
    and Q: "\<And>st r'. routcome u (Suc (max (bsize a) (bsize b)) \<le> BIGINT_MAX_LIMBS) st (holds_int r' (x + y)) True \<Longrightarrow> Q (st, r')"
  shows "rspec u (integer_call (bigint_add r a b)) Q"
  using holds_intD(2) [OF a] holds_intD(2) [OF b]
  by (intro integer_call_wp) (auto intro!: add_wp [OF r holds_intD(1) [OF a] holds_intD(1) [OF b]] Q dest: integer_result)

lemma call_sub:
  assumes a: "holds_int a x" and b: "holds_int b y" and r: "storage_ok r"
    and Q: "\<And>st r'. routcome u (Suc (max (bsize a) (bsize b)) \<le> BIGINT_MAX_LIMBS) st (holds_int r' (x - y)) True \<Longrightarrow> Q (st, r')"
  shows "rspec u (integer_call (bigint_sub r a b)) Q"
  using holds_intD(2) [OF a] holds_intD(2) [OF b]
  by (intro integer_call_wp) (auto intro!: sub_wp [OF r holds_intD(1) [OF a] holds_intD(1) [OF b]] Q dest: integer_result)

lemma call_copy:
  assumes a: "holds_int a x" and r: "storage_ok r"
    and Q: "\<And>st r'. routcome u True st (holds_int r' x) (r' = r) \<Longrightarrow> Q (st, r')"
  shows "rspec u (integer_call (bigint_copy r a)) Q"
proof (rule integer_call_wp, rule copy_wp [OF r holds_intD(1) [OF a]])
  fix st d
  assume "outcome u True st (bigint_wf d \<and> bigint_val d = bigint_val a \<and> limbs d = limbs a \<and>
    is_negative d = is_negative a \<and> capacity r \<le> capacity d) (d = r)"
  from integer_outcome [OF this] show "case (st, d) of (st, x) \<Rightarrow> Q (rational_from_integer_status st, x)"
    using holds_intD(2) [OF a] by (auto simp: holds_int_def intro!: Q elim: routcome_mono)
qed

lemma call_negate:
  assumes a: "holds_int a x" and r: "storage_ok r"
    and Q: "\<And>st r'. routcome u True st (holds_int r' (- x)) True \<Longrightarrow> Q (st, r')"
  shows "rspec u (integer_call (bigint_negate r a)) Q"
  using holds_intD(2) [OF a]
  by (intro integer_call_wp) (auto intro!: negate_wp [OF r holds_intD(1) [OF a]] Q dest: integer_result)

lemma call_abs:
  assumes a: "holds_int a x" and r: "storage_ok r"
    and Q: "\<And>st r'. routcome u True st (holds_int r' \<bar>x\<bar>) True \<Longrightarrow> Q (st, r')"
  shows "rspec u (integer_call (bigint_abs r a)) Q"
  using holds_intD(2) [OF a]
  by (intro integer_call_wp) (auto intro!: abs_wp [OF r holds_intD(1) [OF a]] Q dest: integer_result simp del: abs_bigint_val)

lemma create_objects_wp [wp]:
  "(\<And>b. (u \<longrightarrow> b) \<Longrightarrow> Q b) \<Longrightarrow> rspec u (create_objects n) Q"
proof (induction n arbitrary: Q)
  case (Suc n)
  show ?case
    unfolding create_objects.simps
    by (intro triple_bind create_wp Suc.IH triple_return Suc.prems) auto
qed (simp add: triple_return)

lemma rational_chain:
  assumes "st = BIGRATIONAL_OK \<Longrightarrow> rspec u (State_Monad.bind m f) Q"
    and "st \<noteq> BIGRATIONAL_OK \<Longrightarrow> rspec u (f (st, d)) Q"
  shows "rspec u (State_Monad.bind (if st = BIGRATIONAL_OK then m else State_Monad.return (st, d)) f) Q"
  using assms by (cases "st = BIGRATIONAL_OK") simp_all

lemma holds_int_init [simp]: "holds_int bigint_init 0"
  by (simp add: holds_int_def)

lemma rational_create_wp [wp]:
  assumes Q: "\<And>p. (case p of None \<Rightarrow> \<not> u | Some t \<Rightarrow> holds_int (numerator t) 0 \<and> holds_int (denominator t) 1) \<Longrightarrow> Q p"
  shows "rspec u bigrational_create Q"
proof -
  have none: "Q None" if "\<not> u" using that by (intro Q) simp
  have some: "Q (if st \<noteq> BIGINT_OK then None else Some \<lparr>numerator = bigint_init, denominator = d\<rparr>)"
    if "outcome u True st (holds_nat d 1) (d = bigint_init)" for st d
    using that none by (cases "st = BIGINT_OK") (auto intro!: Q simp: holds_nat_def holds_int_def resource_failure_def)
  show ?thesis
    unfolding bigrational_create_def
    by (intro triple_bind [of _ "numforge_malloc _"] malloc_wp triple_if triple_return
        triple_bind [of _ "create_objects _"] create_objects_wp triple_bind [of _ "bigint_set_string _ _"]
        set_digit_wp [OF digit_texts(4-6)] triple_case_pair some)
      (auto intro: none)
qed

lemma tdiv_exact:
  assumes g: "0 < g" and dvd: "g dvd x"
  shows "tdiv x g = x div g"
proof -
  obtain k where x: "x = g * k" using dvd by (elim dvdE)
  have "sgn (g * k) * (\<bar>k\<bar>) = k" using g by (simp add: sgn_mult sgn_mult_abs)
  then show ?thesis using g by (simp add: x tdiv_def abs_mult)
qed

lemma sgn_div_gcd: "sgn y = sgn (y div gcd x y)" if "y \<noteq> 0" for x y :: int
proof -
  have g: "0 < gcd x y" using that by simp
  have "sgn (y div gcd x y * gcd x y) = sgn (y div gcd x y)"
    by (simp only: sgn_mult sgn_pos [OF g] mult_1_right)
  then show ?thesis by simp
qed

lemma Fract_reduce:
  assumes "y \<noteq> 0" "x = n * g" "y = d * g"
  shows "Fract x y = Fract n d" "Fract x y = Fract (- n) (- d)"
  using assms by (auto simp: eq_rat algebra_simps)

text \<open>The reduction: a fraction \<open>x / y\<close> divided by the greatest common divisor, and with the
  sign moved to the numerator.\<close>

lemma reduced_fraction:
  assumes y: "y \<noteq> 0" and n: "holds_int n (sgn y * (x div gcd x y))" and d: "holds_int d \<bar>y div gcd x y\<bar>"
  shows "rational_wf \<lparr>numerator = n, denominator = d\<rparr>" "rational_val \<lparr>numerator = n, denominator = d\<rparr> = Fract x y"
proof -
  let ?g = "gcd x y"
  have g: "0 < ?g" using y by simp
  have split: "x = x div ?g * ?g" "y = y div ?g * ?g" by simp_all
  have yg: "y div ?g \<noteq> 0" using y by (simp add: dvd_div_eq_0_iff)
  have cop: "coprime (x div ?g) (y div ?g)" using y by (intro div_gcd_coprime) simp
  note sgn = sgn_div_gcd [OF y, of x]
  show "rational_wf \<lparr>numerator = n, denominator = d\<rparr>"
    using n d cop yg y by (auto simp: rational_wf_def holds_int_def sgn_if)
  note red = Fract_reduce [OF y split]
  show "rational_val \<lparr>numerator = n, denominator = d\<rparr> = Fract x y"
    using n d y yg unfolding rational_val_def holds_int_def sgn
    by (cases "0 < y div ?g") (simp_all add: red(1) [symmetric] red(2) [symmetric] sgn_if)
qed

lemma reduce_wp:
  assumes n: "holds_int n x" and d: "holds_int d y" and y: "y \<noteq> 0" and f: "holds_int factor (gcd x y)"
    and Q: "\<And>st t. routcome u True st (rational_wf t \<and> rational_val t = Fract x y) True \<Longrightarrow> Q (st, t)"
  shows "rspec u (do {
      (status, p) \<leftarrow> integer_call (bigint_div p0 n factor);
      (status, q) \<leftarrow> (if status = BIGRATIONAL_OK then integer_call (bigint_div q0 d factor)
         else State_Monad.return (status, q0));
      if status = BIGRATIONAL_OK \<and> bigint_is_negative q then do {
        (status, p) \<leftarrow> integer_call (bigint_negate p p);
        (status, q) \<leftarrow> (if status = BIGRATIONAL_OK then integer_call (bigint_abs q q)
           else State_Monad.return (status, q));
        State_Monad.return (status, \<lparr>numerator = p, denominator = q\<rparr>)
      } else State_Monad.return (status, \<lparr>numerator = p, denominator = q\<rparr>) }) Q"
proof -
  let ?g = "gcd x y"
  have g: "0 < ?g" "?g \<noteq> 0" using y by simp_all
  have exact: "tdiv x ?g = x div ?g" "tdiv y ?g = y div ?g" by (rule tdiv_exact [OF g(1)]; simp)+
  have fail: "Q (st, t)" if "routcome u True st A B" "st \<noteq> BIGRATIONAL_OK" for st t A B
    using routcome_failI [OF that] by (intro Q) simp
  note sgn = sgn_div_gcd [OF y, of x]
  have flip: "rspec u (do {
      (status, p) \<leftarrow> integer_call (bigint_negate p p);
      (status, q) \<leftarrow> (if status = BIGRATIONAL_OK then integer_call (bigint_abs q q)
         else State_Monad.return (status, q));
      State_Monad.return (status, \<lparr>numerator = p, denominator = q\<rparr>) }) Q"
    if p: "holds_int p (x div ?g)" and q: "holds_int q (y div ?g)" "bigint_is_negative q" for p q
  proof -
    have neg: "y div ?g < 0" using q by (simp add: holds_int_def is_negative_iff)
    have good: "Q (st, \<lparr>numerator = p', denominator = q'\<rparr>)"
      if "holds_int p' (- (x div ?g))" "routcome u True st (holds_int q' \<bar>y div ?g\<bar>) B" for st p' q' B
      using reduced_fraction [OF y, of p' x q'] that neg sgn by (intro Q) (auto elim!: routcome_mono)
    show ?thesis
      by (intro triple_bind [of _ "integer_call _"] call_negate [OF p] call_abs [OF q(1)] triple_case_pair
          rational_chain holds_intD(3) [OF p] holds_intD(3) [OF q(1)] triple_return;
        (simp add: good | simp add: triple_return fail)?)
  qed
  have keep: "Q (st, \<lparr>numerator = p, denominator = q\<rparr>)"
    if p: "holds_int p (x div ?g)" and q: "routcome u True st (holds_int q (y div ?g)) B"
      and nn: "\<not> (st = BIGRATIONAL_OK \<and> bigint_is_negative q)" for st p q B
  proof (cases "st = BIGRATIONAL_OK")
    case True
    with q nn have q: "holds_int q (y div ?g)" and "0 \<le> y div ?g" by (auto simp: holds_int_def is_negative_iff)
    moreover have "y div ?g \<noteq> 0" using y by (simp add: dvd_div_eq_0_iff)
    ultimately show ?thesis using reduced_fraction [OF y, of p x q] p True sgn by (intro Q) simp
  next
    case False
    then show ?thesis using fail [OF q] by simp
  qed
  show ?thesis
    apply (intro triple_bind [of _ "integer_call _"] call_div [OF n f g(2)] call_div [OF d f g(2)] triple_case_pair
        rational_chain)
    unfolding exact
     apply (rule triple_if)
      apply (simp add: flip)
     apply (rule triple_return)
     apply (rule keep; simp)
    apply (simp add: triple_return fail)
    done
qed

lemma set_fraction_wp:
  assumes n: "holds_int n x" and d: "holds_int d y"
    and Q: "\<And>st r'. (if y = 0 then st = BIGRATIONAL_DIVISION_BY_ZERO \<and> r' = r
      else routcome u (Suc (max (bsize n) (bsize d)) \<le> BIGINT_MAX_LIMBS) st
        (rational_wf r' \<and> rational_val r' = Fract x y) (r' = r)) \<Longrightarrow> Q (st, r')"
  shows "rspec u (bigrational_set_fraction r n d) Q"
proof (cases "y = 0")
  case True
  then have "bigint_is_zero d" using d by (simp add: holds_int_def is_zero_iff)
  with True show ?thesis unfolding bigrational_set_fraction_def by (simp add: triple_return Q)
next
  case False
  let ?F = "Suc (max (bsize n) (bsize d)) \<le> BIGINT_MAX_LIMBS"
  have nz: "\<not> bigint_is_zero d" using False d by (simp add: holds_int_def is_zero_iff)
  have zero: "bigint_is_zero n \<longleftrightarrow> x = 0" using n by (simp add: holds_int_def is_zero_iff)
  have finish: "Q (st, if st = BIGRATIONAL_OK then rational_commit r t else r)"
    if "routcome u ?F st (rational_wf t \<and> rational_val t = Fract x y) B" for st t B
    using that False
    by (cases "st = BIGRATIONAL_OK") (auto intro!: Q simp: rational_commit_def rational_wf_def rational_val_def routcome_def)
  have oom: "Q (BIGRATIONAL_OUT_OF_MEMORY, r)" if "\<not> u" using that False by (intro Q) simp
  have gcd: "rspec u (do {
       (status, factor) \<leftarrow> integer_call (bigint_gcd f0 n d);
       (status, temporary) \<leftarrow> (if status = BIGRATIONAL_OK \<and> \<not> bigint_is_zero n then do {
           (status, p) \<leftarrow> integer_call (bigint_div (numerator t) n factor);
           (status, q) \<leftarrow> (if status = BIGRATIONAL_OK then integer_call (bigint_div (denominator t) d factor)
              else State_Monad.return (status, denominator t));
           if status = BIGRATIONAL_OK \<and> bigint_is_negative q then do {
             (status, p) \<leftarrow> integer_call (bigint_negate p p);
             (status, q) \<leftarrow> (if status = BIGRATIONAL_OK then integer_call (bigint_abs q q)
                else State_Monad.return (status, q));
             State_Monad.return (status, \<lparr>numerator = p, denominator = q\<rparr>)
           } else State_Monad.return (status, \<lparr>numerator = p, denominator = q\<rparr>)
         } else State_Monad.return (status, t));
       State_Monad.return (status, if status = BIGRATIONAL_OK then rational_commit r temporary else r) }) Q"
    if t: "holds_int (numerator t) 0" "holds_int (denominator t) 1" and f0: "storage_ok f0" for t f0
  proof (intro triple_bind [of _ "integer_call _"] call_gcd [OF n d f0] triple_case_pair, goal_cases)
    case (1 st factor)
    show ?case
    proof (rule triple_bind, rule triple_if)
      assume go: "st = BIGRATIONAL_OK \<and> \<not> bigint_is_zero n"
      then have f: "holds_int factor (gcd x y)" using 1 by simp
      show "rspec u (do {
           (status, p) \<leftarrow> integer_call (bigint_div (numerator t) n factor);
           (status, q) \<leftarrow> (if status = BIGRATIONAL_OK then integer_call (bigint_div (denominator t) d factor)
              else State_Monad.return (status, denominator t));
           if status = BIGRATIONAL_OK \<and> bigint_is_negative q then do {
             (status, p) \<leftarrow> integer_call (bigint_negate p p);
             (status, q) \<leftarrow> (if status = BIGRATIONAL_OK then integer_call (bigint_abs q q)
                else State_Monad.return (status, q));
             State_Monad.return (status, \<lparr>numerator = p, denominator = q\<rparr>)
           } else State_Monad.return (status, \<lparr>numerator = p, denominator = q\<rparr>) })
         (\<lambda>z. rspec u (case z of (status, temporary) \<Rightarrow>
           State_Monad.return (status, if status = BIGRATIONAL_OK then rational_commit r temporary else r)) Q)"
        by (rule reduce_wp [OF n d False f], simp only: prod.case, rule triple_return, rule finish, erule routcome_mono) simp_all
    next
      assume stop: "\<not> (st = BIGRATIONAL_OK \<and> \<not> bigint_is_zero n)"
      have "routcome u ?F st (rational_wf t \<and> rational_val t = Fract x y) True"
      proof (cases "st = BIGRATIONAL_OK")
        case True
        then have "x = 0" using stop zero by simp
        then show ?thesis using True t False
          by (simp add: rational_wf_def rational_val_def holds_int_def eq_rat)
      next
        case False
        then show ?thesis using 1 by (simp add: routcome_def)
      qed
      from finish [OF this] show "rspec u (State_Monad.return (st, t))
         (\<lambda>z. rspec u (case z of (status, temporary) \<Rightarrow>
           State_Monad.return (status, if status = BIGRATIONAL_OK then rational_commit r temporary else r)) Q)"
        by (simp add: triple_return)
    qed
  qed
  show ?thesis
    unfolding bigrational_set_fraction_def if_not_P [OF nz]
    by (intro triple_bind [of _ bigrational_create] triple_bind [of _ bigint_create] rational_create_wp create_wp)
      (auto split: option.splits intro!: gcd triple_return oom)
qed

section \<open>The operations\<close>

lemma rational_wfD:
  assumes "rational_wf q"
  shows "holds_int (numerator q) (bigint_val (numerator q))" "holds_int (denominator q) (bigint_val (denominator q))"
    "bigint_val (denominator q) \<noteq> 0" "0 < bigint_val (denominator q)"
  using assms by (auto simp: rational_wf_def holds_int_def)

lemma rational_copy_wp:
  assumes q: "rational_wf q"
    and Q: "\<And>st r'. routcome u True st (rational_wf r' \<and> rational_val r' = rational_val q) (r' = r) \<Longrightarrow> Q (st, r')"
  shows "rspec u (bigrational_copy False r q) Q"
proof -
  note parts = rational_wfD [OF q]
  have fail: "Q (st, r)" if "routcome u True st A B" "st \<noteq> BIGRATIONAL_OK" for st A B
    using routcome_failI [OF that] by (intro Q) simp
  have finish: "Q (st, if st = BIGRATIONAL_OK then rational_commit r \<lparr>numerator = n, denominator = d\<rparr> else r)"
    if n: "holds_int n (bigint_val (numerator q))" and d: "routcome u True st (holds_int d (bigint_val (denominator q))) B"
    for st n d B
    using n d q fail [OF d] by (cases "st = BIGRATIONAL_OK")
      (auto intro!: Q simp: rational_commit_def rational_wf_def rational_val_def holds_int_def)
  have oom: "Q (BIGRATIONAL_OUT_OF_MEMORY, r)" if "\<not> u" using that by (intro Q) simp
  show ?thesis
    unfolding bigrational_copy_def if_False
    by (rule triple_bind [OF rational_create_wp])
      (auto split: option.splits intro!: triple_return oom
        triple_bind [of _ "integer_call _"] call_copy [OF parts(1)] call_copy [OF parts(2)] rational_chain
        intro: holds_intD(3) finish fail)
qed

lemma from_bigint_wp:
  assumes x: "holds_int a x"
    and Q: "\<And>st r'. routcome u True st (rational_wf r' \<and> rational_val r' = of_int x) (r' = r) \<Longrightarrow> Q (st, r')"
  shows "rspec u (bigrational_from_bigint r a) Q"
proof -
  have finish: "Q (st, if st = BIGRATIONAL_OK then rational_commit r (t\<lparr>numerator := n\<rparr>) else r)"
    if "holds_int (denominator t) 1" "routcome u True st (holds_int n x) B" for st n t B
    using that by (cases "st = BIGRATIONAL_OK")
      (auto intro!: Q simp: rational_commit_def rational_wf_def rational_val_def holds_int_def routcome_def of_int_rat)
  have oom: "Q (BIGRATIONAL_OUT_OF_MEMORY, r)" if "\<not> u" using that by (intro Q) simp
  show ?thesis
    unfolding bigrational_from_bigint_def
    by (rule triple_bind [OF rational_create_wp])
      (auto split: option.splits intro!: triple_return oom triple_bind [of _ "integer_call _"] call_copy [OF x]
        intro: holds_intD(3) finish)
qed

lemma rational_unary_wp:
  assumes q: "rational_wf q"
    and Q: "\<And>st r'. routcome u True st (rational_wf r' \<and>
      rational_val r' = (if negate then - rational_val q else \<bar>rational_val q\<bar>)) (r' = r) \<Longrightarrow> Q (st, r')"
  shows "rspec u (rational_unary r q negate) Q"
proof -
  let ?v = "if negate then - rational_val q else \<bar>rational_val q\<bar>"
  have fail: "Q (st, r)" if "routcome u True st A B" "st \<noteq> BIGRATIONAL_OK" for st A B
    using routcome_failI [OF that] by (intro Q) simp
  have finish: "Q (st, if st = BIGRATIONAL_OK then rational_commit r (t\<lparr>numerator := n\<rparr>) else r)"
    if t: "rational_wf t" "rational_val t = rational_val q"
      and n: "routcome u True st (holds_int n (if negate then - bigint_val (numerator t) else \<bar>bigint_val (numerator t)\<bar>)) B"
    for st n t B
  proof (cases "st = BIGRATIONAL_OK")
    case True
    then have "rational_wf (t\<lparr>numerator := n\<rparr>)" "rational_val (t\<lparr>numerator := n\<rparr>) = ?v"
      using t(1) n unfolding t(2) [symmetric]
      by (auto simp: rational_wf_def rational_val_def holds_int_def abs_if Fract_less_zero_iff)
    with True show ?thesis
      by (intro Q) (simp add: rational_commit_def rational_wf_def rational_val_def)
  qed (use fail [OF n] in simp)
  have unary: "rspec u (integer_call (if negate then bigint_negate (numerator t) (numerator t)
      else bigint_abs (numerator t) (numerator t))) Q'"
    if t: "rational_wf t" and Q': "\<And>st n. routcome u True st
      (holds_int n (if negate then - bigint_val (numerator t) else \<bar>bigint_val (numerator t)\<bar>)) True \<Longrightarrow> Q' (st, n)" for t Q'
    using Q' holds_intD(3) [OF rational_wfD(1) [OF t]]
    by (cases negate) (auto intro!: call_negate [OF rational_wfD(1) [OF t]] call_abs [OF rational_wfD(1) [OF t]])
  have step: "rspec u (do {
      (status, t) \<leftarrow> bigrational_copy False t q;
      (status, n) \<leftarrow> (if status = BIGRATIONAL_OK
         then integer_call (if negate then bigint_negate (numerator t) (numerator t)
                            else bigint_abs (numerator t) (numerator t))
         else State_Monad.return (status, numerator t));
      State_Monad.return (status, if status = BIGRATIONAL_OK then rational_commit r (t\<lparr>numerator := n\<rparr>) else r) }) Q" for t
    by (intro triple_bind [of _ "bigrational_copy _ _ _"] rational_copy_wp [OF q] triple_case_pair rational_chain
          triple_bind [of _ "integer_call _"] unary;
        (simp; fail | simp only: prod.case, rule triple_return, rule finish; simp | simp add: triple_return fail)?)
  have oom: "Q (BIGRATIONAL_OUT_OF_MEMORY, r)" if "\<not> u" using that by (intro Q) simp
  show ?thesis
    unfolding rational_unary_def
    by (rule triple_bind [OF rational_create_wp]) (auto split: option.splits intro!: triple_return oom step simp del: split_paired_All)
qed

text \<open>The calls once more, with one condition \<open>F\<close> under which every step of an operation
  fits, and the sizes of the operands bounded by their values.\<close>

lemma holds_int_size:
  assumes "holds_int a x" "\<bar>x\<bar> < int LB ^ i"
  shows "bsize a \<le> i"
proof -
  have "bigint_mag a < LB ^ i"
    using assms unfolding holds_int_def by (metis abs_bigint_val of_nat_less_iff of_nat_power)
  then have "holds_nat (a\<lparr>is_negative := False\<rparr>) (bigint_mag a) \<Longrightarrow> ?thesis"
    using holds_nat_bsize by fastforce
  then show ?thesis using assms by (simp add: holds_int_def holds_nat_def bigint_wf_def bigint_val_def)
qed

lemma size_mult: "\<bar>x\<bar> < int LB ^ i \<Longrightarrow> \<bar>y\<bar> < int LB ^ j \<Longrightarrow> \<bar>x * y\<bar> < int LB ^ (i + j)"
  by (simp add: abs_mult power_add mult_strict_mono)

lemma size_add:
  assumes "\<bar>x\<bar> < int LB ^ i" "\<bar>y\<bar> < int LB ^ j"
  shows "\<bar>x + y\<bar> < int LB ^ Suc (max i j)" "\<bar>x - y\<bar> < int LB ^ Suc (max i j)"
proof -
  have one: "1 \<le> int LB" using LB_ge_2 by linarith
  have "int LB ^ i \<le> int LB ^ max i j" "int LB ^ j \<le> int LB ^ max i j" by (intro power_increasing one; simp)+
  moreover have "2 * int LB ^ max i j \<le> int LB ^ Suc (max i j)" using LB_ge_2 by simp
  ultimately show "\<bar>x + y\<bar> < int LB ^ Suc (max i j)" "\<bar>x - y\<bar> < int LB ^ Suc (max i j)" using assms by linarith+
qed

lemma size_tdiv:
  assumes "\<bar>x\<bar> < int LB ^ i"
  shows "\<bar>tdiv x g\<bar> < int LB ^ i"
proof -
  have "\<bar>x\<bar> div \<bar>g\<bar> = int (nat \<bar>x\<bar> div nat \<bar>g\<bar>)" by (simp add: zdiv_int)
  also have "\<dots> \<le> \<bar>x\<bar>" using div_le_dividend [of "nat \<bar>x\<bar>" "nat \<bar>g\<bar>"] by linarith
  finally have le: "\<bar>x\<bar> div \<bar>g\<bar> \<le> \<bar>x\<bar>" .
  have "0 \<le> \<bar>x\<bar> div \<bar>g\<bar>" by (cases "g = 0") (simp_all add: pos_imp_zdiv_nonneg_iff)
  with le have "\<bar>tdiv x g\<bar> \<le> \<bar>x\<bar>" by (auto simp: tdiv_def abs_mult sgn_if)
  with assms show ?thesis by linarith
qed

lemma size_mono:
  assumes "\<bar>x\<bar> < int LB ^ i" "i \<le> j"
  shows "\<bar>x\<bar> < int LB ^ j"
proof -
  have "1 \<le> int LB" using LB_ge_2 by linarith
  with assms(2) have "int LB ^ i \<le> int LB ^ j" by (intro power_increasing)
  with assms(1) show ?thesis by linarith
qed

lemma bigint_val_size: "\<bar>bigint_val a\<bar> < int LB ^ bsize a"
  using mag_less [of "limbs a"] by (metis abs_bigint_val of_nat_less_iff of_nat_power)

lemma call_mul_fits:
  assumes a: "holds_int a x" and b: "holds_int b y" and r: "storage_ok r"
    and "\<bar>x\<bar> < int LB ^ i" "\<bar>y\<bar> < int LB ^ j" "F \<Longrightarrow> i + j \<le> BIGINT_MAX_LIMBS"
    and Q: "\<And>st r'. routcome u F st (holds_int r' (x * y)) True \<Longrightarrow> Q (st, r')"
  shows "rspec u (integer_call (bigint_mul r a b)) Q"
  using holds_int_size [OF a assms(4)] holds_int_size [OF b assms(5)] assms(6)
  by (intro call_mul [OF a b r] Q) (auto elim!: routcome_mono)

lemma call_gcd_fits:
  assumes a: "holds_int a x" and b: "holds_int b y" and r: "storage_ok r"
    and "\<bar>x\<bar> < int LB ^ i" "\<bar>y\<bar> < int LB ^ j" "F \<Longrightarrow> Suc (max i j) \<le> BIGINT_MAX_LIMBS"
    and Q: "\<And>st r'. routcome u F st (holds_int r' (gcd x y)) True \<Longrightarrow> Q (st, r')"
  shows "rspec u (integer_call (bigint_gcd r a b)) Q"
  using holds_int_size [OF a assms(4)] holds_int_size [OF b assms(5)] assms(6)
  by (intro call_gcd [OF a b r] Q) (auto elim!: routcome_mono)

lemma call_sum_fits:
  assumes a: "holds_int a x" and b: "holds_int b y" and r: "storage_ok r"
    and "\<bar>x\<bar> < int LB ^ i" "\<bar>y\<bar> < int LB ^ j" "F \<Longrightarrow> Suc (max i j) \<le> BIGINT_MAX_LIMBS"
    and Q: "\<And>st r'. routcome u F st (holds_int r' (if subtracting then x - y else x + y)) True \<Longrightarrow> Q (st, r')"
  shows "rspec u (integer_call (if subtracting then bigint_sub r a b else bigint_add r a b)) Q"
  using holds_int_size [OF a assms(4)] holds_int_size [OF b assms(5)] assms(6) Q
  by (cases subtracting) (auto intro!: call_sub [OF a b r] call_add [OF a b r] Q elim!: routcome_mono)

lemma call_div_fits:
  assumes a: "holds_int a x" and b: "holds_int b y" "y \<noteq> 0"
    and Q: "\<And>st r'. routcome u F st (holds_int r' (tdiv x y)) True \<Longrightarrow> Q (st, r')"
  shows "rspec u (integer_call (bigint_div r a b)) Q"
  by (rule call_div [OF a b]) (auto intro!: Q elim!: routcome_mono)

text \<open>The links of a long chain: the branch that carries a failure on is left as an
  implication, for the simplifier.\<close>

lemma rational_step:
  assumes "P \<Longrightarrow> rspec u (State_Monad.bind m f) Q" and "\<not> P \<longrightarrow> rspec u (f x) Q"
  shows "rspec u (State_Monad.bind (if P then m else State_Monad.return x) f) Q"
  using assms by (cases P) simp_all

lemma rational_last:
  assumes "st = BIGRATIONAL_OK \<Longrightarrow> rspec u m Q" "st \<noteq> BIGRATIONAL_OK \<longrightarrow> Q (st, d)"
  shows "rspec u (if st = BIGRATIONAL_OK then m else State_Monad.return (st, d)) Q"
  using assms by (cases "st = BIGRATIONAL_OK") (simp_all add: triple_return)

lemma rational_sum_wp:
  assumes a: "rational_wf a" and b: "rational_wf b"
    and Q: "\<And>st r'. routcome u (rational_size a + rational_size b + 2 \<le> BIGINT_MAX_LIMBS) st
      (rational_wf r' \<and> rational_val r' = (if subtracting then rational_val a - rational_val b
         else rational_val a + rational_val b)) (r' = r) \<Longrightarrow> Q (st, r')"
  shows "rspec u (rational_sum r a b subtracting) Q"
proof -
  define A B C D where vals: "A = bigint_val (numerator a)" "B = bigint_val (denominator a)"
    "C = bigint_val (numerator b)" "D = bigint_val (denominator b)"
  define i j k l where sizes: "i = bsize (numerator a)" "j = bsize (denominator a)"
    "k = bsize (numerator b)" "l = bsize (denominator b)"
  let ?F = "rational_size a + rational_size b + 2 \<le> BIGINT_MAX_LIMBS"
  let ?v = "if subtracting then rational_val a - rational_val b else rational_val a + rational_val b"
  have sz: "rational_size a + rational_size b = i + j + k + l"
    by (simp add: rational_size_def sizes)
  note parts = rational_wfD [OF a, folded vals] rational_wfD [OF b, folded vals]
  note bounds = bigint_val_size [of "numerator a", folded vals sizes] bigint_val_size [of "denominator a", folded vals sizes]
    bigint_val_size [of "numerator b", folded vals sizes] bigint_val_size [of "denominator b", folded vals sizes]
  define g U V where g: "g = gcd B D" and U: "U = tdiv D g" and V: "V = tdiv B g"
  have gpos: "0 < g" using parts(4) by (simp add: g)
  then have g0: "g \<noteq> 0" by simp
  have UV: "U * g = D" "V * g = B" using tdiv_exact [OF gpos] by (simp_all add: U V g)
  let ?N = "if subtracting then A * U - C * V else A * U + C * V"
  have U0: "U \<noteq> 0" "B \<noteq> 0" using UV parts(7) parts(3) by auto
  then have den0: "B * U \<noteq> 0" by simp
  have val: "?v = Fract ?N (B * U)"
  proof -
    have "?v = (if subtracting then Fract (A * D - C * B) (B * D) else Fract (A * D + C * B) (B * D))"
      using parts(3,7) by (simp add: rational_val_def vals algebra_simps)
    also have "\<dots> = Fract (?N * g) (B * U * g)" by (simp add: algebra_simps flip: UV)
    also have "\<dots> = Fract ?N (B * U)" using g0 U0 by (simp add: eq_rat)
    finally show ?thesis .
  qed
  have bU: "\<bar>U\<bar> < int LB ^ l" and bV: "\<bar>V\<bar> < int LB ^ j" using size_tdiv bounds by (auto simp: U V)
  note bl = size_mult [OF bounds(1) bU] and br = size_mult [OF bounds(3) bV]
  have bN: "\<bar>?N\<bar> < int LB ^ Suc (max (i + l) (k + j))" using size_add [OF bl br] by simp
  note bD = size_mult [OF bounds(2) bU]
  have fail: "Q (st, r)" if "routcome u ?F st A' B'" "st \<noteq> BIGRATIONAL_OK" for st A' B'
    by (rule Q, rule routcome_failI [OF that]) simp_all
  have oom: "Q (BIGRATIONAL_OUT_OF_MEMORY, r)" if "\<not> u" using that by (intro Q) simp
  have last: "rspec u (bigrational_set_fraction r n d) Q" if n: "holds_int n ?N" and d: "holds_int d (B * U)" for n d
  proof (rule set_fraction_wp [OF n d], goal_cases)
    case (1 st r')
    have "?F \<Longrightarrow> Suc (max (bsize n) (bsize d)) \<le> BIGINT_MAX_LIMBS"
      using holds_int_size [OF n bN] holds_int_size [OF d bD] sz by linarith
    then show ?case using 1 den0 unfolding val [symmetric] by (intro Q) (simp only: if_False, elim routcome_mono; simp)
  qed
  show ?thesis
    unfolding rational_sum_def
    apply (intro triple_bind [of _ "create_objects _"] create_objects_wp triple_if [of _ _ "State_Monad.return (BIGRATIONAL_OUT_OF_MEMORY, r)"]
       triple_return oom)
     apply simp
    apply (intro triple_bind [of _ "integer_call _"] triple_case_pair rational_step
       call_gcd_fits [where F = ?F, OF parts(2) parts(6) _ bounds(2) bounds(4), folded g]
       call_div_fits [where F = ?F, OF parts(6) _ g0, folded U] call_div_fits [where F = ?F, OF parts(2) _ g0, folded V]
       call_mul_fits [where F = ?F, OF parts(1) _ _ bounds(1) bU] call_mul_fits [where F = ?F, OF parts(5) _ _ bounds(3) bV]
       call_mul_fits [where F = ?F, OF parts(2) _ _ bounds(2) bU]
       call_sum_fits [where F = ?F, OF _ _ _ bl br] rational_last last; (assumption | (simp add: sz; fail) | (simp add: triple_return fail; fail))?)
    done
qed

lemma rational_product_wp:
  assumes a: "rational_wf a" and b: "rational_wf b"
    and Q: "\<And>st r'. (if dividing \<and> rational_val b = 0 then st = BIGRATIONAL_DIVISION_BY_ZERO \<and> r' = r
      else routcome u (rational_size a + rational_size b + 1 \<le> BIGINT_MAX_LIMBS) st
      (rational_wf r' \<and> rational_val r' = (if dividing then rational_val a / rational_val b
         else rational_val a * rational_val b)) (r' = r)) \<Longrightarrow> Q (st, r')"
  shows "rspec u (rational_product r a b dividing) Q"
proof -
  define upper where "upper = (if dividing then denominator b else numerator b)"
  define lower where "lower = (if dividing then numerator b else denominator b)"
  define A B T L where vals: "A = bigint_val (numerator a)" "B = bigint_val (denominator a)"
    "T = bigint_val upper" "L = bigint_val lower"
  define i j k l where sizes: "i = bsize (numerator a)" "j = bsize (denominator a)" "k = bsize upper" "l = bsize lower"
  let ?F = "rational_size a + rational_size b + 1 \<le> BIGINT_MAX_LIMBS"
  let ?v = "if dividing then rational_val a / rational_val b else rational_val a * rational_val b"
  have sz: "rational_size a + rational_size b = i + j + k + l"
    by (simp add: rational_size_def sizes upper_def lower_def)
  have upper: "holds_int upper T" and lower: "holds_int lower L"
    using rational_wfD [OF b] by (simp_all add: vals upper_def lower_def)
  note parts = rational_wfD [OF a, folded vals]
  note bounds = bigint_val_size [of "numerator a", folded vals sizes] bigint_val_size [of "denominator a", folded vals sizes]
    bigint_val_size [of upper, folded vals sizes] bigint_val_size [of lower, folded vals sizes]
  have zero: "(dividing \<and> bigint_is_zero (numerator b)) = (dividing \<and> rational_val b = 0)"
    and L0: "L \<noteq> 0 \<longleftrightarrow> \<not> (dividing \<and> rational_val b = 0)"
    using rational_wfD [OF b]
    by (auto simp: lower_def vals is_zero_iff holds_int_def rational_val_def eq_rat Zero_rat_def)
  show ?thesis
  proof (cases "dividing \<and> rational_val b = 0")
    case True
    then show ?thesis unfolding rational_product_def Let_def zero if_P [OF True]
      by (intro triple_return Q) simp
  next
    case False
    with L0 have L: "L \<noteq> 0" by simp
    define g h P W U V where g: "g = gcd A L" and h: "h = gcd T B" and P: "P = tdiv A g" and W: "W = tdiv T h"
      and U: "U = tdiv B h" and V: "V = tdiv L g"
    have pos: "0 < g" "0 < h" using parts(4) L by (simp_all add: g h)
    then have n0: "g \<noteq> 0" "h \<noteq> 0" by simp_all
    have whole: "P * g = A" "W * h = T" "U * h = B" "V * g = L"
      using tdiv_exact [OF pos(1)] tdiv_exact [OF pos(2)] by (simp_all add: P W U V g h)
    have den0: "U * V \<noteq> 0" using whole L parts(3) by auto
    have val: "?v = Fract (P * W) (U * V)"
    proof -
      have "?v = Fract (A * T) (B * L)"
        by (simp add: rational_val_def vals upper_def lower_def)
      also have "\<dots> = Fract (P * W * (g * h)) (U * V * (g * h))" by (simp add: algebra_simps flip: whole)
      also have "\<dots> = Fract (P * W) (U * V)" using n0 den0 by (simp add: eq_rat)
      finally show ?thesis .
    qed
    have bP: "\<bar>P\<bar> < int LB ^ i" and bW: "\<bar>W\<bar> < int LB ^ k" and bU: "\<bar>U\<bar> < int LB ^ j" and bV: "\<bar>V\<bar> < int LB ^ l"
      using size_tdiv bounds by (auto simp: P W U V)
    note bN = size_mult [OF bP bW] and bD = size_mult [OF bU bV]
    have fail: "Q (st, r)" if "routcome u ?F st A' B'" "st \<noteq> BIGRATIONAL_OK" for st A' B'
      using False by (intro Q, unfold if_not_P) (rule routcome_failI [OF that], simp_all)
    have oom: "Q (BIGRATIONAL_OUT_OF_MEMORY, r)" if "\<not> u" using that False by (intro Q) simp
    have last: "rspec u (bigrational_set_fraction r n d) Q" if n: "holds_int n (P * W)" and d: "holds_int d (U * V)" for n d
    proof (rule set_fraction_wp [OF n d], goal_cases)
      case (1 st r')
      have "?F \<Longrightarrow> Suc (max (bsize n) (bsize d)) \<le> BIGINT_MAX_LIMBS"
        using holds_int_size [OF n bN] holds_int_size [OF d bD] sz by linarith
      then show ?case using 1 den0 False unfolding val [symmetric]
        by (intro Q) (simp only: if_False, elim routcome_mono; simp)
    qed
    show ?thesis
      unfolding rational_product_def Let_def zero if_not_P [OF False] upper_def [symmetric] lower_def [symmetric]
      apply (intro triple_bind [of _ "create_objects _"] create_objects_wp
          triple_if [of _ _ "State_Monad.return (BIGRATIONAL_OUT_OF_MEMORY, r)"] triple_return oom)
       apply simp
      apply (intro triple_bind [of _ "integer_call _"] triple_case_pair rational_step
          call_gcd_fits [where F = ?F, OF parts(1) lower _ bounds(1) bounds(4), folded g]
          call_gcd_fits [where F = ?F, OF upper parts(2) _ bounds(3) bounds(2), folded h]
          call_div_fits [where F = ?F, OF parts(1) _ n0(1), folded P] call_div_fits [where F = ?F, OF upper _ n0(2), folded W]
          call_div_fits [where F = ?F, OF parts(2) _ n0(2), folded U] call_div_fits [where F = ?F, OF lower _ n0(1), folded V]
          ; (simp; fail | simp add: sz; fail | simp add: triple_return fail; fail)?)
      apply (rule call_mul_fits [where F = ?F, OF _ _ _ bP bW]; (simp; fail | simp add: sz; fail)?)
      apply (intro triple_bind [of _ "integer_call _"] triple_case_pair rational_step
          call_mul_fits [where F = ?F, OF _ _ _ bU bV] rational_last last;
          (simp; fail | simp add: sz; fail | simp add: triple_return fail; fail)?)
      done
  qed
qed

lemma rational_compare_wp:
  assumes a: "rational_wf a" and b: "rational_wf b"
    and Q: "\<And>st r'. routcome u (rational_size a + rational_size b + 1 \<le> BIGINT_MAX_LIMBS) st
      (r' = (if rational_val a < rational_val b then - 1 else if rational_val a = rational_val b then 0 else 1))
      (r' = r) \<Longrightarrow> Q (st, r')"
  shows "rspec u (bigrational_compare r a b) Q"
proof -
  define A B C D where vals: "A = bigint_val (numerator a)" "B = bigint_val (denominator a)"
    "C = bigint_val (numerator b)" "D = bigint_val (denominator b)"
  define i j k l where sizes: "i = bsize (numerator a)" "j = bsize (denominator a)"
    "k = bsize (numerator b)" "l = bsize (denominator b)"
  let ?F = "rational_size a + rational_size b + 1 \<le> BIGINT_MAX_LIMBS"
  have sz: "rational_size a + rational_size b = i + j + k + l"
    by (simp add: rational_size_def sizes)
  note parts = rational_wfD [OF a, folded vals] rational_wfD [OF b, folded vals]
  note bounds = bigint_val_size [of "numerator a", folded vals sizes] bigint_val_size [of "denominator a", folded vals sizes]
    bigint_val_size [of "numerator b", folded vals sizes] bigint_val_size [of "denominator b", folded vals sizes]
  define g U V where g: "g = gcd B D" and U: "U = tdiv D g" and V: "V = tdiv B g"
  have gpos: "0 < g" using parts(4) by (simp add: g)
  then have g0: "g \<noteq> 0" by simp
  have whole: "U * g = D" "V * g = B" using tdiv_exact [OF gpos] by (simp_all add: U V g)
  have order: "rational_val a < rational_val b \<longleftrightarrow> A * U < C * V" "rational_val a = rational_val b \<longleftrightarrow> A * U = C * V"
  proof -
    have "rational_val a < rational_val b \<longleftrightarrow> A * D * (B * D) < C * B * (B * D)"
      using parts by (simp add: rational_val_def vals)
    also have "\<dots> \<longleftrightarrow> A * D < C * B" using parts(4,8) by simp
    also have "\<dots> \<longleftrightarrow> A * U * g < C * V * g" by (simp add: algebra_simps flip: whole)
    also have "\<dots> \<longleftrightarrow> A * U < C * V" using gpos by simp
    finally show "rational_val a < rational_val b \<longleftrightarrow> A * U < C * V" .
    have "rational_val a = rational_val b \<longleftrightarrow> A * D = C * B"
      using parts by (simp add: rational_val_def vals eq_rat)
    also have "\<dots> \<longleftrightarrow> A * U * g = C * V * g" by (simp add: algebra_simps flip: whole)
    also have "\<dots> \<longleftrightarrow> A * U = C * V" using g0 by simp
    finally show "rational_val a = rational_val b \<longleftrightarrow> A * U = C * V" .
  qed
  have bU: "\<bar>U\<bar> < int LB ^ l" and bV: "\<bar>V\<bar> < int LB ^ j" using size_tdiv bounds by (auto simp: U V)
  have fail: "Q (st, r)" if "routcome u ?F st A' B'" "st \<noteq> BIGRATIONAL_OK" for st A' B'
    by (rule Q, rule routcome_failI [OF that]) simp_all
  have oom: "Q (BIGRATIONAL_OUT_OF_MEMORY, r)" if "\<not> u" using that by (intro Q) simp
  have finish: "Q (st, if st = BIGRATIONAL_OK then bigint_compare x y else r)"
    if x: "holds_int x (A * U)" and y: "routcome u ?F st (holds_int y (C * V)) B'" for st x y B'
  proof (cases "st = BIGRATIONAL_OK")
    case True
    then have "bigint_compare x y = sgn (A * U - C * V)"
      using compare_sgn [of x y] x y by (simp add: holds_int_def)
    then show ?thesis using True by (auto intro!: Q simp: order sgn_if)
  qed (use fail [OF y] in simp)
  show ?thesis
    unfolding bigrational_compare_def
    apply (intro triple_bind [of _ "create_objects _"] create_objects_wp
        triple_if [of _ _ "State_Monad.return (BIGRATIONAL_OUT_OF_MEMORY, r)"] triple_return oom)
     apply simp
    apply (intro triple_bind [of _ "integer_call _"] triple_case_pair rational_step
        call_gcd_fits [where F = ?F, OF parts(2) parts(6) _ bounds(2) bounds(4), folded g]
        call_div_fits [where F = ?F, OF parts(6) _ g0, folded U] call_div_fits [where F = ?F, OF parts(2) _ g0, folded V]
        call_mul_fits [where F = ?F, OF parts(1) _ _ bounds(1) bU] call_mul_fits [where F = ?F, OF parts(5) _ _ bounds(3) bV]
        ; (simp; fail | simp add: sz; fail | simp add: triple_return fail; fail)?)
    apply (rule triple_return, rule finish; simp)
    done
qed

section \<open>Text\<close>

definition rational_text :: "BigRational \<Rightarrow> string" where
  "rational_text q = signed_string False 10 (bigint_val (numerator q)) @
     (if bigint_val (denominator q) = 1 then []
      else ''/'' @ signed_string False 10 (bigint_val (denominator q)))"

lemma rational_to_string_wp:
  assumes q: "rational_wf q"
    and Q: "\<And>st r'. routcome u (length (rational_text q) + 2 \<le> SIZE_MAX) st (r' = Some (rational_text q)) (r' = r) \<Longrightarrow> Q (st, r')"
  shows "rspec u (bigrational_to_string q r) Q"
proof -
  note parts = rational_wfD [OF q]
  have wf: "bigint_wf (numerator q)" "bigint_wf (denominator q)" using q by (simp_all add: rational_wf_def)
  have one: "bigint_is_one (denominator q) \<longleftrightarrow> bigint_val (denominator q) = 1" by (rule is_one_iff [OF wf(2)])
  have oom: "Q (BIGRATIONAL_OUT_OF_MEMORY, r)" if "\<not> u" using that by (intro Q) simp
  have large: "Q (BIGRATIONAL_VALUE_TOO_LARGE, r)" if "SIZE_MAX < length (rational_text q) + 2" using that by (intro Q) simp
  have good: "Q (BIGRATIONAL_OK, Some t)" if "t = rational_text q" for t using that by (intro Q) simp
  show ?thesis
  proof (cases "bigint_val (denominator q) = 1")
    case True
    then have txt_q: "rational_text q = signed_string False 10 (bigint_val (numerator q))" by (simp add: rational_text_def)
    show ?thesis
      unfolding bigrational_to_string_def
      apply (intro triple_bind [of _ "bigint_to_string _"] to_string_wp [where p = False] wf)
      using True apply (auto intro!: wp oom simp: one Let_def split: option.splits)
       apply (auto intro!: large good simp: txt_q)
      done
  next
    case False
    then have txt_q: "rational_text q = signed_string False 10 (bigint_val (numerator q)) @ ''/'' @
      signed_string False 10 (bigint_val (denominator q))" by (simp add: rational_text_def)
    show ?thesis
      unfolding bigrational_to_string_def
      apply (intro triple_bind [of _ "bigint_to_string _"] to_string_wp [where p = False] wf)
      using False apply (auto intro!: wp oom to_string_wp [where p = False] wf simp: one Let_def split: option.splits)
         apply (auto intro!: large good simp: txt_q)
      done
  qed
qed

section \<open>Exact roots\<close>

lemma quotient_of_rational:
  "rational_wf x \<Longrightarrow> quotient_of (rational_val x) = (bigint_val (numerator x), bigint_val (denominator x))"
  by (auto simp: rational_wf_def rational_val_def intro!: quotient_of_Fract [THEN trans] simp: normalize_def)

text \<open>A reduced fraction is a square exactly when both of its parts are.\<close>

lemma rational_square_iff:
  assumes q: "rational_wf q"
  shows "(\<exists>w. w * w = rational_val q) \<longleftrightarrow>
    (\<exists>n d. n * n = bigint_val (numerator q) \<and> d * d = bigint_val (denominator q))"
proof
  assume "\<exists>w. w * w = rational_val q"
  then obtain w where w: "w * w = rational_val q" by blast
  obtain n d where r: "w = Fract n d" "0 < d" "coprime n d" by (cases w)
  have "w * w = Fract (n * n) (d * d)" using r by simp
  moreover have "coprime (n * n) (d * d)" using r(3) by simp
  ultimately have "quotient_of (rational_val q) = (n * n, d * d)"
    using r(2) unfolding w [symmetric] by (simp add: quotient_of_Fract normalize_def)
  then show "\<exists>n d. n * n = bigint_val (numerator q) \<and> d * d = bigint_val (denominator q)"
    unfolding quotient_of_rational [OF q] by (metis prod.inject)
next
  assume "\<exists>n d. n * n = bigint_val (numerator q) \<and> d * d = bigint_val (denominator q)"
  then obtain n d where "n * n = bigint_val (numerator q)" "d * d = bigint_val (denominator q)" by blast
  then have "Fract n d * Fract n d = rational_val q" by (simp add: rational_val_def)
  then show "\<exists>w. w * w = rational_val q" by blast
qed

lemma square_of_floor:
  assumes "is_sqrt (nat v) s" "0 \<le> v"
  shows "int s * int s = v \<longleftrightarrow> (\<exists>n. n * n = v)"
proof
  assume "\<exists>n. n * n = v"
  then obtain n where n: "n * n = v" by blast
  define m where "m = nat \<bar>n\<bar>"
  have m: "m * m = nat v" using n by (simp add: m_def nat_mult_distrib [symmetric] flip: n)
  have "\<not> m < s" "\<not> s < m" 
    using assms(1) mult_strict_mono [of m s m s] mult_le_mono [of "s + 1" m "s + 1" m]
    unfolding is_sqrt_def m [symmetric] by auto
  then show "int s * int s = v" using m assms(2) by (simp add: of_nat_mult [symmetric] del: of_nat_mult)
qed blast

lemma sqrt_call_wp:
  assumes "rspec u m (\<lambda>(st, x). Q (integer_status st, x))"
  shows "rspec u (sqrt_call m) Q"
  unfolding sqrt_call_def by (rule triple_bind, rule triple_conseq [OF assms]) (auto intro: triple_return)

lemma sqrt_result:
  "result_ok u F r v st x \<Longrightarrow> routcome u F (integer_status st) (holds_int x v) True"
  by (cases st) (auto simp: result_ok_def outcome_def resource_failure_def routcome_def holds_int_def)

lemma call_sqrt_mul:
  assumes a: "holds_int a x" and b: "holds_int b y" and r: "storage_ok r"
    and "\<bar>x\<bar> < int LB ^ i" "\<bar>y\<bar> < int LB ^ j" "F \<Longrightarrow> i + j \<le> BIGINT_MAX_LIMBS"
    and Q: "\<And>st r'. routcome u F st (holds_int r' (x * y)) True \<Longrightarrow> Q (st, r')"
  shows "rspec u (sqrt_call (bigint_mul r a b)) Q"
  using holds_int_size [OF a assms(4)] holds_int_size [OF b assms(5)] assms(6) holds_intD(2) [OF a] holds_intD(2) [OF b]
  by (intro sqrt_call_wp mul_wp [OF holds_intD(1) [OF a] holds_intD(1) [OF b] r], unfold prod.case, intro Q)
    (auto dest!: result_okI sqrt_result elim!: routcome_mono)

lemma call_isqrt:
  assumes a: "holds_int a x" "0 \<le> x" and s: "is_sqrt (nat x) s" and r: "storage_ok r"
    and "\<bar>x\<bar> < int LB ^ i" "F \<Longrightarrow> Suc i \<le> BIGINT_MAX_LIMBS"
    and Q: "\<And>st r'. routcome u F st (holds_int r' (int s)) True \<Longrightarrow> Q (st, r')"
  shows "rspec u (sqrt_call (bigint_isqrt r a)) Q"
proof (intro sqrt_call_wp isqrt_wp [OF r holds_intD(1) [OF a(1)]], unfold prod.case, rule Q)
  fix st r'
  have mag: "bigint_mag a = nat x" using a by (metis abs_bigint_val abs_of_nonneg holds_intD(2) nat_int)
  assume "if bigint_val a < 0 then st = BIGINT_NEGATIVE_ARGUMENT \<and> r' = r
    else \<exists>s. is_sqrt (bigint_mag a) s \<and> result_ok u (Suc (bsize a) \<le> BIGINT_MAX_LIMBS) r (int s) st r'"
  then obtain s' where "is_sqrt (nat x) s'" and o: "result_ok u (Suc (bsize a) \<le> BIGINT_MAX_LIMBS) r (int s') st r'"
    using a holds_intD(2) [OF a(1)] mag by auto
  moreover then have "s' = s" using s is_sqrt_unique by blast
  ultimately have "result_ok u (Suc (bsize a) \<le> BIGINT_MAX_LIMBS) r (int s) st r'" by simp
  from sqrt_result [OF this] show "routcome u F (integer_status st) (holds_int r' (int s)) True"
    using holds_int_size [OF a(1) assms(5)] assms(6) by (auto elim!: routcome_mono)
qed

lemma holds_int_compare: "holds_int x v \<Longrightarrow> holds_int y w \<Longrightarrow> bigint_compare x y = 0 \<longleftrightarrow> v = w"
  using compare_sgn [of x y] by (simp add: holds_int_def sgn_0_0)

lemma size_sqrt:
  assumes "is_sqrt (nat v) s" "\<bar>v\<bar> < int LB ^ i" "0 \<le> v"
  shows "\<bar>int s\<bar> < int LB ^ i"
proof -
  have "s \<le> nat v" using assms(1) le_square [of s] unfolding is_sqrt_def by linarith
  with assms(2,3) show ?thesis by linarith
qed

lemma rational_sqrt_wp:
  assumes q: "rational_wf q"
    and Q: "\<And>st r' e'. (if rational_val q < 0
      then st \<noteq> BIGRATIONAL_OK \<and> (u \<longrightarrow> st = BIGRATIONAL_INVALID_ARGUMENT) \<and> r' = r \<and> e' = e
      else routcome u (2 * rational_size q + 1 \<le> BIGINT_MAX_LIMBS) st
        (e' = (\<exists>w. w * w = rational_val q) \<and>
         (if e' then rational_wf r' \<and> 0 \<le> rational_val r' \<and> rational_val r' * rational_val r' = rational_val q else r' = r))
        (r' = r \<and> e' = e)) \<Longrightarrow> Q (st, r', e')"
  shows "rspec u (numforge_rational_sqrt_exact r q e) Q"
proof -
  define N D where vals: "N = bigint_val (numerator q)" "D = bigint_val (denominator q)"
  define i j where sizes: "i = bsize (numerator q)" "j = bsize (denominator q)"
  let ?F = "2 * rational_size q + 1 \<le> BIGINT_MAX_LIMBS"
  have sz: "rational_size q = i + j" by (simp add: rational_size_def sizes)
  note parts = rational_wfD [OF q, folded vals]
  note bounds = bigint_val_size [of "numerator q", folded vals sizes] bigint_val_size [of "denominator q", folded vals sizes]
  have neg: "rational_val q < 0 \<longleftrightarrow> N < 0" using parts(4) by (simp add: rational_val_def vals Fract_less_zero_iff)
  have isneg: "bigint_is_negative x \<longleftrightarrow> N < 0" if "holds_int x N" for x
    using that by (auto simp: holds_int_def is_negative_iff)
  have oom: "Q (BIGRATIONAL_OUT_OF_MEMORY, r, e)" if "\<not> u" using that by (intro Q) simp
  have get: "Q (st, r, e)" if "routcome u True st A' B'" "st \<noteq> BIGRATIONAL_OK" for st A' B'
    using that by (intro Q) (auto simp: neg routcome_def)
  show ?thesis
  proof (cases "N < 0")
    case True
    have invalid: "Q (BIGRATIONAL_INVALID_ARGUMENT, r, e)" using True neg by (intro Q) simp
    show ?thesis
      unfolding numforge_rational_sqrt_exact_def bigrational_get_numerator_def bigrational_get_denominator_def
      apply (intro triple_bind [of _ "create_objects _"] create_objects_wp
          triple_if [of _ _ "State_Monad.return (BIGRATIONAL_OUT_OF_MEMORY, r, e)"] triple_return oom)
       apply simp
      apply (intro triple_bind [of _ "integer_call _"] triple_case_pair rational_step call_copy [OF parts(1)] call_copy [OF parts(2)])
         apply (simp_all add: get isneg True invalid triple_return)
      done
  next
    case False
    obtain s t where s: "is_sqrt (nat N) s" and t: "is_sqrt (nat D) t" using is_sqrt_exists by metis
    have s2: "int s * int s = N \<longleftrightarrow> (\<exists>n. n * n = N)" and t2: "int t * int t = D \<longleftrightarrow> (\<exists>n. n * n = D)"
      using square_of_floor [OF s] square_of_floor [OF t] False parts(4) by simp_all
    have fail: "Q (st, r, e)" if "routcome u ?F st A' B'" "st \<noteq> BIGRATIONAL_OK" for st A' B'
      using that False by (intro Q) (auto simp: neg routcome_def)
    have square: "(\<exists>w. w * w = rational_val q) \<longleftrightarrow> int s * int s = N \<and> int t * int t = D"
      unfolding s2 t2 rational_square_iff [OF q] vals [symmetric] by blast
    have no: "Q (BIGRATIONAL_OK, r, False)" if "\<not> (int s * int s = N \<and> int t * int t = D)"
      using that False neg by (intro Q) (simp add: square)
    have yes: "Q (st, r', if st = BIGRATIONAL_OK then True else e)"
      if h: "int s * int s = N" "int t * int t = D"
        and o: "routcome u ?F st (rational_wf r' \<and> rational_val r' = Fract (int s) (int t)) (r' = r)" for st r'
    proof (cases "st = BIGRATIONAL_OK")
      case True
      have "Fract (int s) (int t) * Fract (int s) (int t) = rational_val q" using h by (simp add: rational_val_def vals)
      moreover have "0 < int t" using h(2) parts(4) by (cases "t = 0") auto
      then have "0 \<le> Fract (int s) (int t)" by (simp add: zero_le_Fract_iff)
      moreover have "\<exists>w. w * w = rational_val q" using square h by blast
      ultimately show ?thesis using o False neg True by (intro Q) simp
    qed (use fail [OF o] o in \<open>auto simp: routcome_def\<close>)
    have N0: "0 \<le> N" and D0: "0 \<le> D" using False parts(4) by simp_all
    have b: "\<bar>int s\<bar> < int LB ^ i" "\<bar>int t\<bar> < int LB ^ j"
      using size_sqrt [OF s bounds(1)] size_sqrt [OF t bounds(2)] False parts(4) by simp_all
    have last: "rspec u (bigrational_set_fraction r x y) Q'"
      if x: "holds_int x (int s)" and y: "holds_int y (int t)" and h: "int t * int t = D"
        and Q': "\<And>st r'. routcome u ?F st (rational_wf r' \<and> rational_val r' = Fract (int s) (int t)) (r' = r) \<Longrightarrow> Q' (st, r')" for x y Q'
    proof (rule set_fraction_wp [OF x y], rule Q')
      fix st r'
      have "int t \<noteq> 0" using h parts(3) by auto
      moreover have "?F \<Longrightarrow> Suc (max (bsize x) (bsize y)) \<le> BIGINT_MAX_LIMBS"
        using holds_int_size [OF x b(1)] holds_int_size [OF y b(2)] sz by linarith
      moreover assume "if int t = 0 then st = BIGRATIONAL_DIVISION_BY_ZERO \<and> r' = r
        else routcome u (Suc (max (bsize x) (bsize y)) \<le> BIGINT_MAX_LIMBS) st
          (rational_wf r' \<and> rational_val r' = Fract (int s) (int t)) (r' = r)"
      ultimately show "routcome u ?F st (rational_wf r' \<and> rational_val r' = Fract (int s) (int t)) (r' = r)"
        by (auto elim: routcome_mono)
    qed
    show ?thesis
      unfolding numforge_rational_sqrt_exact_def bigrational_get_numerator_def bigrational_get_denominator_def
      apply (intro triple_bind [of _ "create_objects _"] create_objects_wp
          triple_if [of _ _ "State_Monad.return (BIGRATIONAL_OUT_OF_MEMORY, r, e)"] triple_return oom)
       apply simp
      apply (intro triple_bind [of _ "integer_call _"] triple_case_pair rational_step call_copy [OF parts(1)] call_copy [OF parts(2)])
         apply (simp_all add: get isneg False triple_return)
      apply (intro impI)
      apply (intro triple_bind [of _ "sqrt_call _"] triple_case_pair call_isqrt [where F = ?F, OF _ N0 s _ bounds(1)];
          (simp add: sz; fail)?)
      apply (intro triple_bind [of _ "sqrt_call _"] triple_case_pair rational_step
          call_sqrt_mul [where F = ?F, OF _ _ _ b(1) b(1)];
          (simp add: sz; fail | simp add: triple_return fail no holds_int_compare; fail)?)
      apply (intro triple_bind [of _ "sqrt_call _"] triple_case_pair rational_step call_isqrt [where F = ?F, OF _ D0 t _ bounds(2)]
          call_sqrt_mul [where F = ?F, OF _ _ _ b(2) b(2)];
          (simp add: sz holds_intD(3); fail | simp add: triple_return fail no holds_int_compare; fail)?)
        apply (intro triple_bind [of _ "bigrational_set_fraction _ _ _"] last triple_case_pair;
          (simp add: holds_int_compare; fail)?)
        apply (drule yes [rotated -1]; auto simp: holds_int_compare intro!: triple_return split: if_splits)
       apply (auto simp: triple_return fail no holds_int_compare split: if_splits)
      done
  qed
qed

section \<open>The contract of a binary operation\<close>

text \<open>What callers rely on: the value of the result, the invariant, and the room the operation
  needs beyond the limbs of its operands. From the contract alone follows that two runs on
  operands of the same values store the same limbs.\<close>

locale rational_binary =
  fixes op :: "BigRational \<Rightarrow> BigRational \<Rightarrow> BigRational \<Rightarrow> (BigRationalStatus \<times> BigRational) rt"
    and f :: "rat \<Rightarrow> rat \<Rightarrow> rat"
    and spare :: nat
  assumes contract: "rational_wf a \<Longrightarrow> rational_wf b \<Longrightarrow>
    rspec u (op r a b) (\<lambda>(st, r'). routcome u (rational_size a + rational_size b + spare \<le> BIGINT_MAX_LIMBS) st
      (rational_wf r' \<and> rational_val r' = f (rational_val a) (rational_val b)) (r' = r))"
begin

lemma run:
  assumes "\<not> stuck s" "rational_wf a" "rational_wf b"
  shows "case run_state (op r a b) s of ((st, r'), s') \<Rightarrow> \<not> stuck s' \<and>
    routcome (unlimited s) (rational_size a + rational_size b + spare \<le> BIGINT_MAX_LIMBS) st
      (rational_wf r' \<and> rational_val r' = f (rational_val a) (rational_val b)) (r' = r)"
  by (rule rspec_run2 [OF contract [OF assms(2,3)] assms(1)])

lemma determined:
  assumes "\<not> stuck s" "rational_wf a" "rational_wf b" "run_state (op r a b) s = ((BIGRATIONAL_OK, x), s')"
    and "\<not> stuck t" "rational_wf c" "rational_wf d" "run_state (op q c d) t = ((BIGRATIONAL_OK, y), t')"
    and "f (rational_val a) (rational_val b) = f (rational_val c) (rational_val d)"
  shows "limbs (numerator x) = limbs (numerator y) \<and> is_negative (numerator x) = is_negative (numerator y) \<and>
    limbs (denominator x) = limbs (denominator y) \<and> is_negative (denominator x) = is_negative (denominator y)"
  by (rule rational_val_inj)
    (use run [OF assms(1-3), of r] run [OF assms(5-7), of q] assms(4,8,9) in simp_all)

end

interpretation radd: rational_binary bigrational_add "(+)" 2
  by unfold_locales (auto simp: bigrational_add_def intro!: rational_sum_wp)

interpretation rsub: rational_binary bigrational_sub "(-)" 2
  by unfold_locales (auto simp: bigrational_sub_def intro!: rational_sum_wp)

interpretation rmul: rational_binary bigrational_mul "(*)" 1
  by unfold_locales (auto simp: bigrational_mul_def intro!: rational_product_wp)

section \<open>Examples\<close>

text \<open>Three fractions for the concrete runs below.\<close>

abbreviation example_half :: BigRational where
  "example_half \<equiv> \<lparr>numerator = bigint_wrap_uint64 1, denominator = bigint_wrap_uint64 2\<rparr>"

abbreviation example_third :: BigRational where
  "example_third \<equiv> \<lparr>numerator = bigint_wrap_uint64 1, denominator = bigint_wrap_uint64 3\<rparr>"

abbreviation example_quarter :: BigRational where
  "example_quarter \<equiv> \<lparr>numerator = bigint_wrap_uint64 1, denominator = bigint_wrap_uint64 4\<rparr>"

lemma example_fractions:
  "rational_wf \<lparr>numerator = bigint_wrap_uint64 1, denominator = bigint_wrap_uint64 n\<rparr> \<longleftrightarrow> n \<noteq> 0"
  "rational_val \<lparr>numerator = bigint_wrap_uint64 m, denominator = bigint_wrap_uint64 n\<rparr> = Fract (uint m) (uint n)"
  "rational_size \<lparr>numerator = bigint_wrap_uint64 m, denominator = bigint_wrap_uint64 n\<rparr> =
     of_bool (m \<noteq> 0) + of_bool (n \<noteq> 0)"
  by (auto simp: rational_wf_def rational_val_def rational_size_def bsize_wrap_uint64 order_less_le uint_0_iff)

section \<open>Properties\<close>

text \<open>C7: Addition and subtraction of fractions are those of the rational numbers. The result is
  reduced with a positive denominator, whatever the operands share, and the destination is
  unchanged when an intermediate product does not fit or memory runs out.\<close>

theorem bigrational_add_sub_correct:
  assumes "\<not> stuck s" "rational_wf a" "rational_wf b"
  shows "(case run_state (bigrational_add r a b) s of ((st, r'), s') \<Rightarrow> \<not> stuck s' \<and>
      routcome (unlimited s) (rational_size a + rational_size b + 2 \<le> BIGINT_MAX_LIMBS) st
        (rational_wf r' \<and> rational_val r' = rational_val a + rational_val b) (r' = r)) \<and>
    (case run_state (bigrational_sub r a b) s of ((st, r'), s') \<Rightarrow> \<not> stuck s' \<and>
      routcome (unlimited s) (rational_size a + rational_size b + 2 \<le> BIGINT_MAX_LIMBS) st
        (rational_wf r' \<and> rational_val r' = rational_val a - rational_val b) (r' = r))"
  by (intro conjI radd.run [OF assms] rsub.run [OF assms])

theorem bigrational_add_sub_correct_witness:
  "(case run_state (bigrational_add example_half example_half example_third) idle_runtime of
      ((st, r'), s') \<Rightarrow> st = BIGRATIONAL_OK \<and> rational_val r' = Fract 5 6) \<and>
   (case run_state (bigrational_sub example_half example_half example_third) idle_runtime of
      ((st, r'), s') \<Rightarrow> st = BIGRATIONAL_OK \<and> rational_val r' = Fract 1 6)"
  using bigrational_add_sub_correct [of idle_runtime example_half example_third example_half]
  by (auto simp: routcome_def example_simps example_fractions split: prod.splits if_splits)

text \<open>C30: Multiplication and division of fractions are those of the rational numbers, with the
  common factors cancelled before the products are formed. Division by a fraction that is zero
  is reported.\<close>

theorem bigrational_mul_div_correct:
  assumes "\<not> stuck s" "rational_wf a" "rational_wf b"
  shows "(case run_state (bigrational_mul r a b) s of ((st, r'), s') \<Rightarrow> \<not> stuck s' \<and>
      routcome (unlimited s) (rational_size a + rational_size b + 1 \<le> BIGINT_MAX_LIMBS) st
        (rational_wf r' \<and> rational_val r' = rational_val a * rational_val b) (r' = r)) \<and>
    (case run_state (bigrational_div r a b) s of ((st, r'), s') \<Rightarrow> \<not> stuck s' \<and>
      (if rational_val b = 0 then st = BIGRATIONAL_DIVISION_BY_ZERO \<and> r' = r
       else routcome (unlimited s) (rational_size a + rational_size b + 1 \<le> BIGINT_MAX_LIMBS) st
        (rational_wf r' \<and> rational_val r' = rational_val a / rational_val b) (r' = r)))"
  unfolding bigrational_div_def
  by (intro conjI rmul.run [OF assms], rule rspec_run2 [OF _ assms(1)], rule rational_product_wp [OF assms(2,3)])
    (simp split: if_splits)

theorem bigrational_mul_div_correct_witness:
  "(case run_state (bigrational_mul example_half example_half example_third) idle_runtime of
      ((st, r'), s') \<Rightarrow> st = BIGRATIONAL_OK \<and> rational_val r' = Fract 1 6) \<and>
   (case run_state (bigrational_div example_half example_half example_third) idle_runtime of
      ((st, r'), s') \<Rightarrow> st = BIGRATIONAL_OK \<and> rational_val r' = Fract 3 2)"
  using bigrational_mul_div_correct [of idle_runtime example_half example_third example_half]
  by (auto simp: routcome_def example_simps example_fractions eq_rat Zero_rat_def split: prod.splits if_splits)

text \<open>C8: The representation of a fraction is unique. Two quotients that denote the same number
  are stored with the same limbs and the same signs, with the sign on the numerator.\<close>

theorem bigrational_set_fraction_canonical:
  assumes "\<not> stuck s" "bigint_wf n" "bigint_wf d" "rational_wf q"
    and "bigint_val d \<noteq> 0" "Fract (bigint_val n) (bigint_val d) = rational_val q"
  shows "case run_state (bigrational_set_fraction r n d) s of ((st, r'), s') \<Rightarrow> \<not> stuck s' \<and>
    routcome (unlimited s) (Suc (max (bsize n) (bsize d)) \<le> BIGINT_MAX_LIMBS) st
      (limbs (numerator r') = limbs (numerator q) \<and> is_negative (numerator r') = is_negative (numerator q) \<and>
       limbs (denominator r') = limbs (denominator q) \<and> is_negative (denominator r') = is_negative (denominator q))
      (r' = r)"
proof (rule rspec_run2 [OF _ assms(1)], rule set_fraction_wp, unfold prod.case)
  show "holds_int n (bigint_val n)" "holds_int d (bigint_val d)" using assms(2,3) by (simp_all add: holds_int_def)
qed (use assms(5,6) rational_val_inj [OF _ assms(4)] in \<open>auto elim!: routcome_mono\<close>)

theorem bigrational_set_fraction_canonical_witness:
  "case run_state (bigrational_set_fraction example_third (bigint_wrap_uint64 3) (bigint_wrap_uint64 6)) idle_runtime of
     ((st, r'), s') \<Rightarrow> st = BIGRATIONAL_OK \<and> limbs (numerator r') = [1] \<and> limbs (denominator r') = [2]"
proof -
  have "limbs (bigint_wrap_uint64 1) = [1]" "limbs (bigint_wrap_uint64 2) = [2]"
    by (simp_all add: bigint_wrap_uint64_def)
  then show ?thesis
    using bigrational_set_fraction_canonical [of idle_runtime "bigint_wrap_uint64 3" "bigint_wrap_uint64 6" example_half example_third]
    by (auto simp: routcome_def example_simps example_fractions eq_rat split: prod.splits if_splits)
qed

text \<open>Comparison of fractions decides the order of the rational numbers.\<close>

theorem bigrational_compare_correct:
  assumes "\<not> stuck s" "rational_wf a" "rational_wf b"
  shows "case run_state (bigrational_compare c a b) s of ((st, c'), s') \<Rightarrow> \<not> stuck s' \<and>
    routcome (unlimited s) (rational_size a + rational_size b + 1 \<le> BIGINT_MAX_LIMBS) st
      (c' = (if rational_val a < rational_val b then - 1 else if rational_val a = rational_val b then 0 else 1))
      (c' = c)"
  by (rule rspec_run2 [OF _ assms(1)], rule rational_compare_wp [OF assms(2,3)]) simp

theorem bigrational_compare_correct_witness:
  "case run_state (bigrational_compare 7 example_half example_third) idle_runtime of
     ((st, c'), s') \<Rightarrow> st = BIGRATIONAL_OK \<and> c' = 1"
  using bigrational_compare_correct [of idle_runtime example_half example_third 7]
  by (auto simp: routcome_def example_simps example_fractions eq_rat split: prod.splits if_splits)

text \<open>C31: The exact square root of a fraction. A root is stored exactly when the value is the
  square of a rational number, the flag says which case it was, and a negative argument is
  rejected.\<close>

theorem rational_sqrt_exact_correct:
  assumes "\<not> stuck s" "rational_wf q"
  shows "case run_state (numforge_rational_sqrt_exact r q e) s of ((st, r', e'), s') \<Rightarrow> \<not> stuck s' \<and>
    (if rational_val q < 0
     then st \<noteq> BIGRATIONAL_OK \<and> (unlimited s \<longrightarrow> st = BIGRATIONAL_INVALID_ARGUMENT) \<and> r' = r \<and> e' = e
     else routcome (unlimited s) (2 * rational_size q + 1 \<le> BIGINT_MAX_LIMBS) st
       (e' = (\<exists>w. w * w = rational_val q) \<and>
        (if e' then rational_wf r' \<and> 0 \<le> rational_val r' \<and> rational_val r' * rational_val r' = rational_val q
         else r' = r))
       (r' = r \<and> e' = e))"
  by (rule rspec_run3 [OF _ assms(1)], rule rational_sqrt_wp [OF assms(2)]) simp

theorem rational_sqrt_exact_correct_witness:
  "case run_state (numforge_rational_sqrt_exact example_third example_quarter False) idle_runtime of
     ((st, r', e'), s') \<Rightarrow> st = BIGRATIONAL_OK \<and> e' \<and> rational_val r' * rational_val r' = Fract 1 4"
proof -
  have "\<exists>w. w * w = Fract 1 4" by (rule exI [of _ "Fract 1 2"]) simp
  then show ?thesis
    using rational_sqrt_exact_correct [of idle_runtime example_quarter example_third False]
    by (auto simp: routcome_def example_simps example_fractions Fract_less_zero_iff split: prod.splits if_splits)
qed

end
