(* ===== verification/Decimal_Zeros.thy ===== *)
theory Decimal_Zeros
  imports BigInt_Primality
begin

text \<open>
  Removal of decimal zeros: \<^verbatim>\<open>bigint_strip_decimal_zeros\<close> with its reference
  routine in \<^verbatim>\<open>bigint.c\<close> and the division-free one of \<^verbatim>\<open>normalization.c\<close>.

  The routines work in place. On success the value is the input divided by a power of ten and
  no further division is possible; when the budget stops them half way the object is only a
  buffer (\<open>storage_ok\<close>), which the callers in the decimal layer discard.
\<close>

unbundle bit_operations_syntax

section \<open>The reference routine\<close>

text \<open>The residue modulo ten: \<open>n\<close> limbs from index \<open>i\<close>. The C variable is an
  \<^verbatim>\<open>unsigned int\<close> that stays below 64. \<open>None\<close>: the budget stopped the loop.\<close>

primrec residue10_loop :: "nat \<Rightarrow> nat \<Rightarrow> u64 list \<Rightarrow> nat \<Rightarrow> nat option rt" where
  "residue10_loop 0 i xs r = State_Monad.return (Some r)"
| "residue10_loop (Suc n) i xs r = do {
     go \<leftarrow> budget_every_256 i;
     if \<not> go then State_Monad.return None
     else residue10_loop n (Suc i) xs ((r + 6 * unat (xs ! i mod 10)) mod 10)
   }"

text \<open>The residue modulo the block of nineteen digits, for \<open>i\<close> down to 1.\<close>

definition decimal_block :: u64 where
  "decimal_block = 10000000000000000000"

primrec block_residue_loop :: "nat \<Rightarrow> u64 list \<Rightarrow> u64 \<Rightarrow> u64 option rt" where
  "block_residue_loop 0 xs r = State_Monad.return (Some r)"
| "block_residue_loop (Suc index) xs r = do {
     go \<leftarrow> budget_every_256 (Suc index);
     if \<not> go then State_Monad.return None
     else do {
       (_, r) \<leftarrow> bigint_divide_128_by_u64 r (xs ! index) decimal_block;
       block_residue_loop index xs r
     }
   }"

text \<open>The zeros of the residue: count, power of ten and the residue without them. A residue
  below the block has at most eighteen.\<close>

primrec count_zeros_loop :: "nat \<Rightarrow> nat \<Rightarrow> u64 \<Rightarrow> u64 \<Rightarrow> (nat \<times> u64 \<times> u64) rt" where
  "count_zeros_loop 0 count divisor r = out_of_fuel (count, divisor, r)"
| "count_zeros_loop (Suc fuel) count divisor r =
    (if r mod 10 = 0 then count_zeros_loop fuel (count + 1) (divisor * 10) (r div 10)
     else State_Monad.return (count, divisor, r))"

text \<open>The division in place; stopped half way it leaves the limbs as they are.\<close>

primrec strip_divide_loop :: "nat \<Rightarrow> u64 \<Rightarrow> u64 list \<Rightarrow> u64 \<Rightarrow> (bool \<times> u64 list) rt" where
  "strip_divide_loop 0 divisor xs carry = State_Monad.return (True, xs)"
| "strip_divide_loop (Suc index) divisor xs carry = do {
     go \<leftarrow> budget_every_256 (Suc index);
     if \<not> go then State_Monad.return (False, xs)
     else do {
       (quot, carry) \<leftarrow> bigint_divide_128_by_u64 carry (xs ! index) divisor;
       strip_divide_loop index divisor (xs[index := quot]) carry
     }
   }"

primrec strip_loop :: "nat \<Rightarrow> BigInt \<Rightarrow> u64 \<Rightarrow> (BigIntStatus \<times> BigInt \<times> u64) rt" where
  "strip_loop 0 value removed = out_of_fuel (BIGINT_OK, value, removed)"
| "strip_loop (Suc fuel) value removed = do {
     go \<leftarrow> numforge_budget_check;
     if \<not> go then State_Monad.return (BIGINT_OUT_OF_MEMORY, value, removed)
     else do {
       residue \<leftarrow> block_residue_loop (bsize value) (limbs value) 0;
       case residue of
         None \<Rightarrow> State_Monad.return (BIGINT_OUT_OF_MEMORY, value, removed)
       | Some r \<Rightarrow> do {
           (count, divisor, r) \<leftarrow> (if r = 0 then State_Monad.return (19, decimal_block, r)
              else count_zeros_loop 20 0 1 r);
           if r \<noteq> 0 \<and> count = 0 then State_Monad.return (BIGINT_OK, value, removed)
           else if removed > UINT64_MAX - of_nat count
           then State_Monad.return (BIGINT_VALUE_TOO_LARGE, value, removed)
           else do {
             (go, xs) \<leftarrow> strip_divide_loop (bsize value) divisor (limbs value) 0;
             let value = value\<lparr>limbs := xs\<rparr>;
             if \<not> go then State_Monad.return (BIGINT_OUT_OF_MEMORY, value, removed)
             else
               (let value = bigint_normalize value; removed = removed + of_nat count
                in if r \<noteq> 0 then State_Monad.return (BIGINT_OK, value, removed)
                   else strip_loop fuel value removed)
           }
         }
     }
   }"

definition bigint_strip_decimal_zeros_classic :: "BigInt \<Rightarrow> (BigIntStatus \<times> BigInt \<times> u64) rt" where
  "bigint_strip_decimal_zeros_classic value =
    (if bsize value = 0 then State_Monad.return (BIGINT_OK, value, 0)
     else do {
       residue \<leftarrow> residue10_loop (bsize value - 1) 1 (limbs value) (unat (limbs value ! 0 mod 10));
       case residue of
         None \<Rightarrow> State_Monad.return (BIGINT_OUT_OF_MEMORY, value, 0)
       | Some r \<Rightarrow> (if r \<noteq> 0 then State_Monad.return (BIGINT_OK, value, 0)
           else strip_loop (64 * bsize value + 1) value 0)
     })"

section \<open>The division-free routine\<close>

primrec residue5_loop :: "nat \<Rightarrow> nat \<Rightarrow> u64 list \<Rightarrow> nat \<Rightarrow> nat option rt" where
  "residue5_loop 0 i xs r = State_Monad.return (Some r)"
| "residue5_loop (Suc n) i xs r = do {
     go \<leftarrow> budget_every_256 i;
     if \<not> go then State_Monad.return None
     else residue5_loop n (Suc i) xs ((r + unat (xs ! i mod 5)) mod 5)
   }"

definition power_of_five :: "nat \<Rightarrow> u64" where
  "power_of_five block = ((\<lambda>d. d * 5) ^^ block) 1"

definition inverse_step :: "u64 \<Rightarrow> u64 \<Rightarrow> u64" where
  "inverse_step divisor recip = recip * (2 - divisor * recip)"

definition odd_inverse :: "u64 \<Rightarrow> u64" where
  "odd_inverse divisor = (inverse_step divisor ^^ 6) 1"

text \<open>One trial: \<open>n\<close> limbs from index \<open>i\<close>; the quotient limbs found so far are \<open>out\<close>.\<close>

primrec trial_loop ::
  "nat \<Rightarrow> nat \<Rightarrow> nat \<Rightarrow> u64 \<Rightarrow> u64 \<Rightarrow> u64 list \<Rightarrow> u64 \<Rightarrow> u64 list \<Rightarrow> (bool \<times> u64 \<times> u64 list) rt" where
  "trial_loop 0 i block divisor recip xs carry out = State_Monad.return (True, carry, out)"
| "trial_loop (Suc n) i block divisor recip xs carry out = do {
     go \<leftarrow> budget_every_256 i;
     if \<not> go then State_Monad.return (False, carry, out)
     else
       (let w = drop_bit block (xs ! i) OR (if i + 1 < length xs then push_bit (64 - block) (xs ! (i + 1)) else 0);
            quot = (w - carry) * recip;
            (high, low) = bigint_multiply_u64_u64 quot divisor
        in trial_loop n (Suc i) block divisor recip xs (high + (if w < carry then 1 else 0)) (out @ [quot]))
   }"

text \<open>The passes. \<open>room\<close> is the capacity of the trial buffer, which changes owner with every
  pass that succeeds.\<close>

primrec inverse_loop ::
  "nat \<Rightarrow> nat \<Rightarrow> u64 \<Rightarrow> u64 \<Rightarrow> nat \<Rightarrow> BigInt \<Rightarrow> u64 \<Rightarrow> (BigIntStatus \<times> BigInt \<times> u64) rt" where
  "inverse_loop 0 block divisor recip trial_capacity value removed = out_of_fuel (BIGINT_OK, value, removed)"
| "inverse_loop (Suc fuel) block divisor recip trial_capacity value removed =
    (if \<not> (bsize value \<noteq> 0 \<and> limbs value ! 0 AND (push_bit block 1 - 1) = 0)
     then State_Monad.return (BIGINT_OK, value, removed)
     else do {
       c_assert (bsize value \<le> trial_capacity);
       (go, carry, out) \<leftarrow> trial_loop (bsize value) 0 block divisor recip (limbs value) 0 [];
       if \<not> go then State_Monad.return (BIGINT_OUT_OF_MEMORY, value, removed)
       else if carry \<noteq> 0 then State_Monad.return (BIGINT_OK, value, removed)
       else if removed > UINT64_MAX - of_nat block then State_Monad.return (BIGINT_VALUE_TOO_LARGE, value, removed)
       else
         (let trial = bigint_normalize \<lparr>limbs = out, capacity = trial_capacity, is_negative = is_negative value\<rparr>
          in inverse_loop fuel block divisor recip (capacity value) trial (removed + of_nat block))
     })"

definition bigint_strip_decimal_zeros_inverse ::
  "BigInt \<Rightarrow> u64 \<Rightarrow> nat \<Rightarrow> (BigIntStatus \<times> BigInt \<times> u64) rt" where
  "bigint_strip_decimal_zeros_inverse value removed block =
    (if block \<noteq> 19 \<and> block \<noteq> 27 then State_Monad.return (BIGINT_INVALID_ARGUMENT, value, removed)
     else do {
       go \<leftarrow> numforge_budget_check;
       if \<not> go then State_Monad.return (BIGINT_OUT_OF_MEMORY, value, 0)
       else if bsize value = 0 \<or> limbs value ! 0 AND (push_bit block 1 - 1) \<noteq> 0
       then bigint_strip_decimal_zeros_classic value
       else do {
         residue \<leftarrow> residue5_loop (bsize value) 0 (limbs value) 0;
         case residue of
           None \<Rightarrow> State_Monad.return (BIGINT_OUT_OF_MEMORY, value, 0)
         | Some r \<Rightarrow> (if r \<noteq> 0 then State_Monad.return (BIGINT_OK, value, 0)
             else case bigint_size_mul (bsize value) 8 of
               None \<Rightarrow> State_Monad.return (BIGINT_OUT_OF_MEMORY, value, 0)
             | Some bytes \<Rightarrow> do {
                 fits \<leftarrow> numforge_budget_can_allocate_pair bytes 0;
                 if \<not> fits then bigint_strip_decimal_zeros_classic value
                 else do {
                   granted \<leftarrow> numforge_malloc bytes;
                   if \<not> granted then State_Monad.return (BIGINT_OUT_OF_MEMORY, value, 0)
                   else do {
                     let divisor = power_of_five block;
                     (status, value, removed) \<leftarrow>
                       inverse_loop (64 * bsize value + 1) block divisor (odd_inverse divisor) (bsize value) value 0;
                     if status = BIGINT_OK then do {
                       (status, value, tail) \<leftarrow> bigint_strip_decimal_zeros_classic value;
                       if status = BIGINT_OK \<and> removed > UINT64_MAX - tail
                       then State_Monad.return (BIGINT_VALUE_TOO_LARGE, value, removed)
                       else State_Monad.return (status, value, removed + tail)
                     }
                     else State_Monad.return (status, value, removed)
                   }
                 }
               })
       }
     })"

definition bigint_strip_decimal_zeros :: "BigInt \<Rightarrow> u64 \<Rightarrow> (BigIntStatus \<times> BigInt \<times> u64) rt" where
  "bigint_strip_decimal_zeros value removed = do {
     go \<leftarrow> numforge_budget_check;
     if \<not> go then State_Monad.return (BIGINT_OUT_OF_MEMORY, value, removed)
     else do {
       (status, value, removed) \<leftarrow> (if bsize value \<ge> 128 then bigint_strip_decimal_zeros_inverse value removed 27
          else bigint_strip_decimal_zeros_classic value);
       if status = BIGINT_OK then do {
         go \<leftarrow> numforge_budget_check;
         State_Monad.return (if go then BIGINT_OK else BIGINT_OUT_OF_MEMORY, value, removed)
       }
       else State_Monad.return (status, value, removed)
     }
   }"

section \<open>Residues\<close>

lemma LB_power_mod:
  "(LB ^ Suc i * m) mod 10 = (6 * m) mod 10" "(LB ^ i * m) mod 5 = m mod 5"
proof -
  have "LB ^ Suc i mod 10 = 6"
  proof (induction i)
    case (Suc i)
    have "LB ^ Suc (Suc i) mod 10 = (LB mod 10) * (LB ^ Suc i mod 10) mod 10"
      unfolding power_Suc [of LB "Suc i"] by (rule mod_mult_eq [symmetric])
    then show ?case unfolding Suc by (simp add: LB_def)
  qed (simp add: LB_def)
  then show "(LB ^ Suc i * m) mod 10 = (6 * m) mod 10" by (metis mod_mult_left_eq)
  have "LB ^ i mod 5 = 1 mod 5" by (subst power_mod [symmetric]) (simp add: LB_def)
  then show "(LB ^ i * m) mod 5 = m mod 5" by (metis mod_mult_left_eq mult_1)
qed

lemma mod_step:
  assumes "c mod m = a mod (m :: nat)"
  shows "((r + c) mod m + b) mod m = (r + (a + b)) mod m"
proof -
  have "((r + c) mod m + b) mod m = (r + c + b) mod m" by (rule mod_add_left_eq)
  also have "\<dots> = (c + (r + b)) mod m" by (simp add: add.commute add.left_commute)
  also have "\<dots> = (a + (r + b)) mod m" using assms by (rule mod_add_cong) simp
  finally show ?thesis by (simp add: add.commute add.left_commute)
qed

lemma mod_shed: "((q * b + r) * l + m) mod b = (r * l + m) mod (b :: nat)"
proof -
  have "(q * b + r) * l + m = (r * l + m) + b * (q * l)" by (simp add: algebra_simps)
  then show ?thesis by (simp only: mod_mult_self2)
qed

lemma residue10_loop_wp:
  "i + n = length xs \<Longrightarrow> 0 < i \<Longrightarrow> r < 10 \<Longrightarrow> (\<not> u \<Longrightarrow> Q None) \<Longrightarrow>
   Q (Some ((r + LB ^ i * mag (drop i xs)) mod 10)) \<Longrightarrow> rspec u (residue10_loop n i xs r) Q"
proof (induction n arbitrary: i r)
  case 0
  then show ?case by (simp add: triple_return)
next
  case (Suc n)
  obtain j where j: "i = Suc j" using Suc.prems(2) by (cases i) auto
  have d: "mag (drop i xs) = unat (xs ! i) + LB * mag (drop (Suc i) xs)" using Suc.prems(1) by (intro mag_drop_nth) simp
  have "(6 * unat (xs ! i mod 10)) mod 10 = (LB ^ i * unat (xs ! i)) mod 10"
    unfolding j LB_power_mod(1) by (simp add: unat_mod_distrib mod_mult_right_eq)
  from mod_step [OF this, of r] have eq: "((r + 6 * unat (xs ! i mod 10)) mod 10 + LB ^ Suc i * mag (drop (Suc i) xs)) mod 10 =
      (r + LB ^ i * mag (drop i xs)) mod 10"
    unfolding d by (simp add: algebra_simps)
  show ?case
    unfolding residue10_loop.simps
    using Suc.prems by (intro wp Suc.IH) (auto simp: eq simp del: power_Suc)
qed

lemma residue5_loop_wp:
  "i + n = length xs \<Longrightarrow> r < 5 \<Longrightarrow> (\<not> u \<Longrightarrow> Q None) \<Longrightarrow>
   Q (Some ((r + mag (drop i xs)) mod 5)) \<Longrightarrow> rspec u (residue5_loop n i xs r) Q"
proof (induction n arbitrary: i r)
  case 0
  then show ?case by (simp add: triple_return)
next
  case (Suc n)
  have d: "mag (drop i xs) = unat (xs ! i) + LB * mag (drop (Suc i) xs)" using Suc.prems(1) by (intro mag_drop_nth) simp
  have "(LB * mag (drop (Suc i) xs)) mod 5 = mag (drop (Suc i) xs) mod 5" using LB_power_mod(2) [of 1] by simp
  from mod_add_cong [OF refl this, of "r + unat (xs ! i)"]
  have "(r + mag (drop i xs)) mod 5 = (r + (unat (xs ! i) + mag (drop (Suc i) xs))) mod 5"
    unfolding d by (simp add: add.assoc)
  moreover have "unat (xs ! i mod 5) mod 5 = unat (xs ! i) mod 5" by (simp add: unat_mod_distrib)
  ultimately have eq: "((r + unat (xs ! i mod 5)) mod 5 + mag (drop (Suc i) xs)) mod 5 = (r + mag (drop i xs)) mod 5"
    using mod_step by simp
  show ?case
    unfolding residue5_loop.simps
    using Suc.prems by (intro wp Suc.IH) (auto simp: eq)
qed

lemma block_pos [simp]: "0 < decimal_block" "unat decimal_block = 10 ^ 19"
  by (simp_all add: decimal_block_def)

lemma block_residue_loop_wp:
  "i \<le> length xs \<Longrightarrow> r < decimal_block \<Longrightarrow> (\<not> u \<Longrightarrow> Q None) \<Longrightarrow>
   (\<And>r'. unat r' = (unat r * LB ^ i + mag (take i xs)) mod 10 ^ 19 \<Longrightarrow> Q (Some r')) \<Longrightarrow>
   rspec u (block_residue_loop i xs r) Q"
proof (induction i arbitrary: r)
  case 0
  then show ?case by (auto simp: word_less_nat_alt intro!: triple_return)
next
  case (Suc i)
  have step: "unat r' = (unat r * LB ^ Suc i + mag (take (Suc i) xs)) mod 10 ^ 19"
    if qr: "unat q * unat decimal_block + unat r1 = unat r * LB + unat (xs ! i)"
      and r': "unat r' = (unat r1 * LB ^ i + mag (take i xs)) mod 10 ^ 19" for q r1 r' :: u64
  proof -
    have "unat r * LB ^ Suc i + mag (take (Suc i) xs) = (unat q * unat decimal_block + unat r1) * LB ^ i + mag (take i xs)"
      unfolding qr using Suc.prems(1) by (simp add: mag_take_Suc algebra_simps)
    also have "\<dots> mod 10 ^ 19 = (unat r1 * LB ^ i + mag (take i xs)) mod 10 ^ 19"
      unfolding block_pos by (rule mod_shed)
    finally show ?thesis using r' by simp
  qed
  have stop: "Q None" if "\<not> u" using that Suc.prems(3) by simp
  have go: "rspec u (block_residue_loop i xs r1) Q"
    if qr: "unat q * unat decimal_block + unat r1 = unat r * LB + unat (xs ! i)" "r1 < decimal_block" for q r1 :: u64
  proof (rule Suc.IH)
    show "Q (Some r')" if "unat r' = (unat r1 * LB ^ i + mag (take i xs)) mod 10 ^ 19" for r'
      by (rule Suc.prems(4), rule step [OF qr(1) that])
  qed (use Suc.prems(1) qr(2) stop in simp_all)
  show ?case
    unfolding block_residue_loop.simps
    using Suc.prems(2) by (intro wp) (auto intro: stop go)
qed

section \<open>Counting and dividing\<close>

lemma ten_power_less: "c < 19" if "10 ^ c < (10 ^ 19 :: nat)"
proof (rule ccontr)
  assume "\<not> c < 19"
  then have "10 ^ 19 \<le> (10 ^ c :: nat)" by (intro power_increasing) simp_all
  with that show False by linarith
qed

lemma count_zeros_loop_wp:
  "0 < unat r \<Longrightarrow> unat r * 10 ^ c < 10 ^ 19 \<Longrightarrow> unat d = 10 ^ c \<Longrightarrow> 19 \<le> fuel + c \<Longrightarrow> 0 < fuel \<Longrightarrow>
   (\<And>c' d' r'. unat d' = 10 ^ c' \<Longrightarrow> unat r' * 10 ^ c' = unat r * 10 ^ c \<Longrightarrow> \<not> 10 dvd unat r' \<Longrightarrow>
      c' < 19 \<Longrightarrow> Q (c', d', r')) \<Longrightarrow>
   rspec u (count_zeros_loop fuel c d r) Q"
proof (induction fuel arbitrary: c d r)
  case (Suc fuel)
  have "10 ^ c * 1 \<le> 10 ^ c * unat r" using Suc.prems(1) by (intro mult_le_mono2) simp
  also have "\<dots> < 10 ^ 19" using Suc.prems(2) by (simp only: mult.commute)
  finally have c: "c < 19" unfolding mult_1_right by (rule ten_power_less)
  show ?case
  proof (cases "r mod 10 = 0")
    case True
    then have dvd: "10 dvd unat r" using unat_mod_distrib [of r 10] by (simp add: dvd_eq_mod_eq_0)
    then obtain k where k: "unat r = 10 * k" by (elim dvdE)
    have div: "unat (r div 10) = k" by (simp add: unat_div_distrib k)
    have keep: "k * 10 ^ Suc c = unat r * 10 ^ c" by (simp add: k)
    have "10 ^ Suc c * 1 \<le> 10 ^ Suc c * k" using Suc.prems(1) k by (intro mult_le_mono2) simp
    also have "\<dots> < 10 ^ 19" using Suc.prems(2) keep by (simp only: mult.commute)
    finally have c': "Suc c < 19" unfolding mult_1_right by (rule ten_power_less)
    have fuel: "0 < fuel" using Suc.prems(4) c' by linarith
    have "10 ^ Suc c < LB"
    proof -
      have "10 ^ Suc c \<le> (10 ^ 19 :: nat)" using c by (intro power_increasing) simp_all
      also have "\<dots> < LB" by (simp add: LB_def)
      finally show ?thesis .
    qed
    then have d: "unat (d * 10) = 10 ^ Suc c" using Suc.prems(3) unat_mult_exact [of d 10] by simp
    show ?thesis
      unfolding count_zeros_loop.simps if_P [OF True]
      by (rule Suc.IH, use Suc.prems k in \<open>simp_all add: div d keep c' fuel del: power_Suc\<close>)
  next
    case False
    then have "0 < unat (r mod 10)" by (simp add: unat_gt_0)
    then have "\<not> 10 dvd unat r" by (simp add: unat_mod_distrib dvd_eq_mod_eq_0)
    with False c Suc.prems(3,6) show ?thesis by (simp add: triple_return)
  qed
qed simp

lemma strip_divide_loop_wp:
  "i \<le> length xs \<Longrightarrow> r < d \<Longrightarrow> (\<And>ys. \<not> u \<Longrightarrow> length ys = length xs \<Longrightarrow> Q (False, ys)) \<Longrightarrow>
   (\<And>ys r'. length ys = length xs \<Longrightarrow> drop i ys = drop i xs \<Longrightarrow> r' < unat d \<Longrightarrow>
      mag (take i ys) * unat d + r' = unat r * LB ^ i + mag (take i xs) \<Longrightarrow> Q (True, ys)) \<Longrightarrow>
   rspec u (strip_divide_loop i d xs r) Q"
proof (induction i arbitrary: xs r)
  case 0
  then show ?case by (auto simp: word_less_nat_alt intro!: triple_return)
next
  case (Suc i)
  have i: "i < length xs" using Suc.prems(1) by simp
  have stop: "Q (False, xs)" if "\<not> u" using that Suc.prems(3) by simp
  have go: "rspec u (strip_divide_loop i d (xs[i := q]) r1) Q"
    if qr: "unat q * unat d + unat r1 = unat r * LB + unat (xs ! i)" "r1 < d" for q r1
  proof (rule Suc.IH)
    show "i \<le> length (xs[i := q])" "r1 < d" using i qr by auto
    show "Q (False, ys)" if "\<not> u" "length ys = length (xs[i := q])" for ys using that Suc.prems(3) by simp
    fix ys r'
    assume ys: "length ys = length (xs[i := q])" "drop i ys = drop i (xs[i := q])" and r': "r' < unat d"
      and eq: "mag (take i ys) * unat d + r' = unat r1 * LB ^ i + mag (take i (xs[i := q]))"
    have "drop i ys ! 0 = drop i (xs[i := q]) ! 0" using ys(2) by simp
    then have nth: "ys ! i = q" using ys(1) i by simp
    have "drop 1 (drop i ys) = drop 1 (drop i (xs[i := q]))" using ys(2) by simp
    then have dr: "drop (Suc i) ys = drop (Suc i) xs" by simp
    have "LB ^ i * (unat q * unat d + unat r1) = LB ^ i * (unat r * LB + unat (xs ! i))"
      using qr by simp
    then have "mag (take (Suc i) ys) * unat d + r' = unat r * LB ^ Suc i + mag (take (Suc i) xs)"
      using eq i ys(1) nth by (simp add: mag_take_Suc algebra_simps)
    then show "Q (True, ys)" using Suc.prems(4) ys(1) dr r' by simp
  qed
  show ?case
    unfolding strip_divide_loop.simps
    using Suc.prems(2) by (intro wp) (auto intro: stop go)
qed

section \<open>The reference routine is correct\<close>

text \<open>The promise: the value is divided by the power of ten that \<open>k\<close> counts, and by no smaller
  one; or the budget stopped the routine, which unlimited resources exclude.\<close>

definition strip_ok :: "bool \<Rightarrow> int \<Rightarrow> BigIntStatus \<Rightarrow> BigInt \<Rightarrow> u64 \<Rightarrow> bool" where
  "strip_ok u V st v k \<longleftrightarrow>
     (st = BIGINT_OK \<and> bigint_wf v \<and> bigint_val v * 10 ^ unat k = V \<and> (if V = 0 then k = 0 else \<not> 10 dvd bigint_val v)) \<or>
     (st = BIGINT_OUT_OF_MEMORY \<and> \<not> u \<and> storage_ok v)"

lemma ten_power_bound: "n < L" if "10 ^ n \<le> m" "m < (2 :: nat) ^ L"
proof -
  have "2 ^ n \<le> (10 :: nat) ^ n" by (rule power_mono) simp_all
  with that have "2 ^ n < (2 :: nat) ^ L" by linarith
  then show ?thesis by simp
qed

lemma val_0_mag: "bigint_val v = 0 \<longleftrightarrow> bigint_mag v = 0"
  by (simp add: bigint_val_def)

lemma mag_val_dvd: "int d dvd bigint_val v \<longleftrightarrow> d dvd bigint_mag v"
  by (simp add: bigint_val_def)

lemma val_limbs_div:
  "mag ys * d = bigint_mag v \<Longrightarrow> bigint_val (v\<lparr>limbs := ys\<rparr>) * int d = bigint_val v"
  by (auto simp: bigint_val_def simp flip: of_nat_mult)

lemma val_limbs_div2:
  "mag ys * d = bigint_mag v \<Longrightarrow>
   bigint_val \<lparr>limbs = ys, capacity = c, is_negative = is_negative v\<rparr> * int d = bigint_val v"
  by (auto simp: bigint_val_def simp flip: of_nat_mult)

lemma count_fits: "\<not> UINT64_MAX - n < k" if "unat k + unat n < LB" for k n :: u64
proof -
  have "unat (UINT64_MAX - n) = LB - 1 - unat n" using word_n1_ge [of n] by (simp add: unat_sub)
  with that show ?thesis by (simp add: word_less_nat_alt)
qed

lemma residue_zeros:
  assumes "m mod 10 ^ 19 = x * 10 ^ c" "c < 19" "\<not> 10 dvd (x :: nat)"
  shows "10 ^ c dvd m" "\<not> 10 dvd m div 10 ^ c"
proof -
  obtain e where e: "19 = Suc e + c" using assms(2) less_imp_Suc_add [OF assms(2)] by (metis add.commute add_Suc_right)
  define K where "K = m div 10 ^ 19"
  have "m = K * 10 ^ 19 + x * 10 ^ c" unfolding K_def assms(1) [symmetric] by (rule div_mult_mod_eq [symmetric])
  also have "(10 :: nat) ^ 19 = 10 * 10 ^ e * 10 ^ c" unfolding e by (simp add: power_add)
  finally have m: "m = (10 * (K * 10 ^ e) + x) * 10 ^ c" by (simp add: algebra_simps)
  then show "10 ^ c dvd m" by simp
  have "m div 10 ^ c = 10 * (K * 10 ^ e) + x" by (subst m) simp
  with assms(3) show "\<not> 10 dvd m div 10 ^ c" by (simp add: dvd_add_right_iff)
qed

lemma strip_loop_wp:
  "bigint_wf v \<Longrightarrow> bigint_val v \<noteq> 0 \<Longrightarrow> bigint_mag v < 2 ^ fuel \<Longrightarrow> bigint_val v * 10 ^ unat k = V \<Longrightarrow>
   nat \<bar>V\<bar> < 2 ^ L \<Longrightarrow> L < LB \<Longrightarrow> (\<And>st v' k'. strip_ok u V st v' k' \<Longrightarrow> Q (st, v', k')) \<Longrightarrow>
   rspec u (strip_loop fuel v k) Q"
proof (induction fuel arbitrary: v k)
  case 0
  then have "bigint_mag v = 0" by simp
  then have "bigint_val v = 0" by (simp add: val_0_mag)
  with 0 show ?case by blast
next
  case (Suc fuel)
  note wf = Suc.prems(1) and Q = Suc.prems(7)
  let ?m = "bigint_mag v"
  have stop: "Q (BIGINT_OUT_OF_MEMORY, v, k)" if "\<not> u"
    using that wf by (intro Q) (simp add: strip_ok_def bigint_wf_storage_ok)
  have V0: "V \<noteq> 0" using Suc.prems(2,4) by auto
  have m0: "0 < ?m" using Suc.prems(2) by (simp add: val_0_mag)
  have absV: "nat \<bar>V\<bar> = ?m * 10 ^ unat k"
    using Suc.prems(4) by (simp add: abs_mult nat_mult_distrib nat_power_eq flip: Suc.prems(4))
  have finish: "rspec u (do {
        (go, xs) \<leftarrow> strip_divide_loop (bsize v) d (limbs v) 0;
        let v = v\<lparr>limbs := xs\<rparr>;
        if \<not> go then State_Monad.return (BIGINT_OUT_OF_MEMORY, v, k)
        else
          (let v = bigint_normalize v; k = k + of_nat c
           in if r \<noteq> 0 then State_Monad.return (BIGINT_OK, v, k) else strip_loop fuel v k) }) Q"
    and small: "\<not> k > UINT64_MAX - of_nat c"
    if d: "unat d = 10 ^ c" and c: "0 < c" "c \<le> 19" and dvd: "10 ^ c dvd ?m"
      and last: "r \<noteq> 0 \<Longrightarrow> \<not> 10 dvd ?m div 10 ^ c" for d c and r :: u64
  proof -
    have "10 ^ (unat k + c) dvd nat \<bar>V\<bar>" using dvd by (simp add: absV power_add mult.commute mult_dvd_mono)
    then have "10 ^ (unat k + c) \<le> nat \<bar>V\<bar>" using V0 by (intro dvd_imp_le) simp_all
    from ten_power_bound [OF this Suc.prems(5)] have fits: "unat k + c < LB" using Suc.prems(6) by linarith
    have nc: "unat (of_nat c :: u64) = c" using c(2) by (intro unat_of_nat_LB) (simp add: LB_def)
    show "\<not> k > UINT64_MAX - of_nat c"
      using fits nc by (intro count_fits) simp
    have k': "unat (k + of_nat c) = unat k + c" using fits nc by (simp add: unat_add_exact)
    have dpos: "0 < d" using d by (simp add: word_gt_0) (metis power_not_zero unat_0 zero_neq_numeral)
    show "rspec u (do {
        (go, xs) \<leftarrow> strip_divide_loop (bsize v) d (limbs v) 0;
        let v = v\<lparr>limbs := xs\<rparr>;
        if \<not> go then State_Monad.return (BIGINT_OUT_OF_MEMORY, v, k)
        else
          (let v = bigint_normalize v; k = k + of_nat c
           in if r \<noteq> 0 then State_Monad.return (BIGINT_OK, v, k) else strip_loop fuel v k) }) Q"
    proof (rule triple_bind, rule strip_divide_loop_wp, goal_cases)
      case (3 ys)
      then show ?case
        using wf by (auto intro!: triple_return Q simp: strip_ok_def storage_ok_def bigint_wf_def Let_def)
    next
      case (4 ys r')
      note ys = 4(1,3,4)
      have eq: "mag ys * 10 ^ c + r' = ?m" using ys by (simp add: d)
      with dvd have "10 ^ c dvd r'" by (metis dvd_add_right_iff dvd_triv_right)
      with ys(2) have "r' = 0" unfolding d using dvd_imp_le [of "10 ^ c" r'] by (cases "r' = 0") simp_all
      with eq have eq: "mag ys * 10 ^ c = ?m" by simp
      let ?v = "bigint_normalize (v\<lparr>limbs := ys\<rparr>)"
      have v: "bigint_wf ?v" using wf ys(1) by (intro normalize_wf) (simp_all add: bigint_wf_def)
      have val: "bigint_val ?v * 10 ^ c = bigint_val v" using val_limbs_div [OF eq] by simp
      have V: "bigint_val ?v * 10 ^ unat (k + of_nat c) = V"
        using val Suc.prems(4) unfolding k' by (simp add: power_add ac_simps flip: val)
      have div: "mag ys = ?m div 10 ^ c" using eq by (metis nonzero_mult_div_cancel_right power_not_zero zero_neq_numeral)
      have good: "Q (BIGINT_OK, ?v, k + of_nat c)" if "r \<noteq> 0"
        using last [OF that] mag_val_dvd [of 10 ?v] v V V0 by (intro Q) (simp add: strip_ok_def div)
      have again: "rspec u (strip_loop fuel ?v (k + of_nat c)) Q"
      proof (rule Suc.IH [OF v _ _ V Suc.prems(5,6) Q])
        show "bigint_val ?v \<noteq> 0" using val Suc.prems(2) by auto
        have "2 \<le> (10 :: nat) ^ c" using c(1) by (cases c) simp_all
        then have "mag ys * 2 \<le> mag ys * 10 ^ c" by (intro mult_le_mono2)
        then show "bigint_mag ?v < 2 ^ fuel" using eq Suc.prems(3) by simp
      qed
      show ?case using good again by (simp add: Let_def triple_return)
    qed (use dpos in simp_all)
  qed
  show ?case
    unfolding strip_loop.simps
    apply (intro triple_bind [of _ numforge_budget_check] budget_check_wp triple_if [of _ _ "State_Monad.return (BIGINT_OUT_OF_MEMORY, v, k)"] triple_return stop)
     apply simp
    apply (intro triple_bind [of _ "block_residue_loop _ _ _"] block_residue_loop_wp)
       apply simp
      apply simp
     apply (simp add: stop triple_return)
    subgoal for b res
    proof (simp only: option.case, cases "res = 0", goal_cases)
      case 1
      then have dvd: "10 ^ 19 dvd ?m" by (simp add: dvd_eq_mod_eq_0)
      show ?case
        unfolding 1 if_P [OF refl]
        apply (rule triple_bind, rule triple_return, simp only: prod.case)
        apply (subst if_not_P, simp)
        apply (subst if_not_P, rule small [of decimal_block 19 0], (simp add: dvd del: power_numeral)+)
        apply (rule finish; simp add: dvd del: power_numeral)
        done
    next
      case 2
      then have res: "?m mod 10 ^ 19 = unat res" by simp
      show ?case
        unfolding if_not_P [OF 2(4)]
      proof (rule triple_bind, rule count_zeros_loop_wp, goal_cases)
        case 1
        then show ?case using 2(4) by (simp add: unat_gt_0)
      next
        case 2
        then show ?case using res by (metis mod_less_divisor mult.right_neutral power_0 zero_less_numeral zero_less_power)
      next
        case (6 c' d' r')
        then have "?m mod 10 ^ 19 = unat r' * 10 ^ c'" using res by simp
        note zeros = residue_zeros [OF this 6(4,3)]
        have r0: "r' \<noteq> 0" using 6(3) by auto
        show ?case
        proof (cases "c' = 0")
          case True
          then have "\<not> 10 dvd ?m" using zeros(2) by simp
          then have "Q (BIGINT_OK, v, k)"
            using wf Suc.prems(4) V0 mag_val_dvd [of 10 v] by (intro Q) (simp add: strip_ok_def)
          then show ?thesis using True r0 by (simp add: triple_return)
        next
          case False
          then have c: "0 < c'" "c' \<le> 19" using 6(4) by simp_all
          show ?thesis
            unfolding prod.case
            apply (subst if_not_P, simp add: False)
            apply (subst if_not_P, rule small [OF 6(1) c zeros])
            apply (rule finish [OF 6(1) c zeros])
            done
        qed
      qed simp_all
    qed
    done
qed

lemma classic_wp:
  assumes v: "bigint_wf v" and Q: "\<And>st v' k. strip_ok u (bigint_val v) st v' k \<Longrightarrow> Q (st, v', k)"
  shows "rspec u (bigint_strip_decimal_zeros_classic v) Q"
proof (cases "bsize v = 0")
  case True
  then have "Q (BIGINT_OK, v, 0)" using v by (intro Q) (simp add: strip_ok_def bigint_val_def)
  with True show ?thesis by (simp add: bigint_strip_decimal_zeros_classic_def triple_return)
next
  case False
  let ?m = "bigint_mag v"
  have V0: "bigint_val v \<noteq> 0" using bigint_val_0_iff [OF v] False by simp
  have stop: "Q (BIGINT_OUT_OF_MEMORY, v, 0)" if "\<not> u"
    using that v by (intro Q) (simp add: strip_ok_def bigint_wf_storage_ok)
  have "?m = unat (limbs v ! 0) + LB * mag (drop 1 (limbs v))" using mag_drop_nth [of 0 "limbs v"] False by simp
  then have res: "(unat (limbs v ! 0 mod 10) + LB ^ 1 * mag (drop 1 (limbs v))) mod 10 = ?m mod 10"
    by (simp add: unat_mod_distrib mod_add_left_eq)
  have none: "Q (BIGINT_OK, v, 0)" if "?m mod 10 \<noteq> 0"
    using that v mag_val_dvd [of 10 v] by (intro Q) (simp add: strip_ok_def dvd_eq_mod_eq_0)
  have bound: "?m < 2 ^ (64 * bsize v)" using mag_less [of "limbs v"] by (simp add: LB_def power_mult)
  have fits: "64 * bsize v < LB" using v by (simp add: bigint_wf_def BIGINT_MAX_LIMBS_def SIZE_MAX_def LB_def)
  have loop: "rspec u (strip_loop (64 * bsize v + 1) v 0) Q"
    by (rule strip_loop_wp [where V = "bigint_val v" and L = "64 * bsize v"])
      (use v V0 bound fits Q in \<open>simp_all add: less_SucI\<close>)
  show ?thesis
    unfolding bigint_strip_decimal_zeros_classic_def if_not_P [OF False]
    apply (rule triple_bind, rule residue10_loop_wp)
        apply (use False in simp)
       apply simp
      apply (simp add: unat_mod_distrib)
     apply (simp add: stop triple_return)
    apply (use none loop in \<open>simp add: res triple_return del: One_nat_def power_one_right\<close>)
    done
qed

section \<open>The division-free routine is correct\<close>

lemma trial_limb:
  assumes inv: "divisor * recip = 1" and mul: "bigint_multiply_u64_u64 ((w - c) * recip) divisor = (high, low)"
  shows "unat ((w - c) * recip) * unat divisor + unat c = unat w + LB * unat (high + (if w < c then 1 else 0))"
proof -
  let ?q = "(w - c) * recip"
  have m: "unat high * LB + unat low = unat ?q * unat divisor" by (rule multiply_u64_u64_exact [OF mul])
  have "?q * divisor = w - c" using inv by (simp add: mult.assoc mult.commute [of recip])
  then have "unat (w - c) = (unat ?q * unat divisor) mod LB" using unat_mult_mod [of ?q divisor] by simp
  also have "\<dots> = unat low" using m [symmetric] unat_lt_LB [of low] by simp
  finally have low: "unat low = unat (w - c)" ..
  have eq: "unat ?q * unat divisor + unat c = unat w + LB * (unat high + of_bool (w < c))"
    using m low sub_borrow [of w c] by (simp add: algebra_simps)
  have "LB * (unat high + of_bool (w < c)) < LB * LB"
    using eq limb_mac_less [of 0 ?q divisor c] unfolding unat_0 by linarith
  then have "unat high + of_bool (w < c) < LB" unfolding mult_less_cancel1 by blast
  then have "unat (high + (if w < c then 1 else 0)) = unat high + of_bool (w < c)"
    using unat_add_exact [of high 1] by (cases "w < c") simp_all
  with eq show ?thesis by simp
qed

lemma trial_loop_wp:
  assumes inv: "divisor * recip = 1" and s: "0 < s" "s < 64"
  shows "i + n = length xs \<Longrightarrow> length out = i \<Longrightarrow>
   2 ^ s * (unat divisor * mag out) = mag (take i xs) + LB ^ i * (2 ^ s * unat c + unat (limb_at xs i) mod 2 ^ s) \<Longrightarrow>
   (\<And>c' out'. \<not> u \<Longrightarrow> Q (False, c', out')) \<Longrightarrow>
   (\<And>c' out'. length out' = length xs \<Longrightarrow>
      2 ^ s * (unat divisor * mag out') = mag xs + LB ^ length xs * (2 ^ s * unat c') \<Longrightarrow> Q (True, c', out')) \<Longrightarrow>
   rspec u (trial_loop n i s divisor recip xs c out) Q"
proof (induction n arbitrary: i c out)
  case 0
  then show ?case by (auto simp: limb_at_def intro!: triple_return)
next
  case (Suc n)
  have i: "i < length xs" using Suc.prems(1) by simp
  let ?w = "drop_bit s (xs ! i) OR (if i + 1 < length xs then push_bit (64 - s) (xs ! (i + 1)) else 0)"
  have w: "?w = shift_down s (xs ! i) (limb_at xs (Suc i))"
    using s by (simp add: shift_down_def limb_at_def)
  obtain high low where mul: "bigint_multiply_u64_u64 ((?w - c) * recip) divisor = (high, low)" by fastforce
  let ?q = "(?w - c) * recip" and ?c = "high + (if ?w < c then 1 else 0)"
  have limb: "unat ?q * unat divisor + unat c = unat ?w + LB * unat ?c" by (rule trial_limb [OF inv mul])
  have down: "2 ^ s * unat ?w + unat (xs ! i) mod 2 ^ s = unat (xs ! i) + LB * (unat (limb_at xs (Suc i)) mod 2 ^ s)"
    unfolding w by (rule shift_down_limb [OF s(2)])
  have step: "2 ^ s * (unat divisor * mag (out @ [?q])) =
      mag (take (Suc i) xs) + LB ^ Suc i * (2 ^ s * unat ?c + unat (limb_at xs (Suc i)) mod 2 ^ s)"
  proof -
    have x: "limb_at xs i = xs ! i" using i by (simp add: limb_at_def)
    have "2 ^ s * (unat divisor * mag (out @ [?q])) = 2 ^ s * (unat divisor * mag out) + LB ^ i * (2 ^ s * (unat ?q * unat divisor))"
      using Suc.prems(2) by (simp add: mag_append algebra_simps)
    also have "\<dots> = mag (take i xs) + LB ^ i * (2 ^ s * (unat ?q * unat divisor + unat c) + unat (xs ! i) mod 2 ^ s)"
      unfolding Suc.prems(3) x by (simp add: algebra_simps)
    also have "\<dots> = mag (take i xs) + LB ^ i * (2 ^ s * unat ?w + unat (xs ! i) mod 2 ^ s + LB * (2 ^ s * unat ?c))"
      unfolding limb by (simp add: algebra_simps)
    also have "\<dots> = mag (take (Suc i) xs) + LB ^ Suc i * (2 ^ s * unat ?c + unat (limb_at xs (Suc i)) mod 2 ^ s)"
      unfolding down using i by (simp add: mag_take_Suc algebra_simps)
    finally show ?thesis .
  qed
  have go: "rspec u (trial_loop n (Suc i) s divisor recip xs ?c (out @ [?q])) Q"
    by (rule Suc.IH [OF _ _ step]) (use Suc.prems in simp_all)
  show ?case
    unfolding trial_loop.simps Let_def mul prod.case
    by (intro triple_bind [of _ "budget_every_256 _"] budget_every_256_wp triple_if go triple_return Suc.prems(4)) auto
qed

lemma low_mask: "x AND (push_bit s 1 - 1) = 0 \<longleftrightarrow> unat (x :: u64) mod 2 ^ s = 0"
proof -
  have "x AND (push_bit s 1 - 1) = take_bit s x"
    by (simp add: take_bit_eq_mask mask_eq_exp_minus_1 push_bit_eq_mult)
  moreover have "unat (take_bit s x) = unat x mod 2 ^ s"
    by (rule trans [OF unsigned_take_bit_eq take_bit_eq_mod])
  ultimately show ?thesis by (metis unat_eq_0_iff)
qed

lemma power_of_five: "power_of_five s = 5 ^ s"
  unfolding power_of_five_def by (induction s) simp_all

lemma inverse_steps_19:
  "inverse_step 19073486328125 1 = 18446725000223223493"
  "inverse_step 19073486328125 18446725000223223493 = 9710422630148339989"
  "inverse_step 19073486328125 9710422630148339989 = 10113477034404793877"
  "inverse_step 19073486328125 10113477034404793877 = 10241807031813656085"
  "inverse_step 19073486328125 10241807031813656085 = 2788135333942382101"
  "inverse_step 19073486328125 2788135333942382101 = 2788135333942382101"
  by (simp_all add: inverse_step_def)

lemma inverse_steps_27:
  "inverse_step 7450580596923828125 1 = 10996163476785723493"
  "inverse_step 7450580596923828125 10996163476785723493 = 12770503285481120181"
  "inverse_step 7450580596923828125 12770503285481120181 = 14775454978487137973"
  "inverse_step 7450580596923828125 14775454978487137973 = 3104903143276000949"
  "inverse_step 7450580596923828125 3104903143276000949 = 14782855951936763573"
  "inverse_step 7450580596923828125 14782855951936763573 = 14782855951936763573"
  by (simp_all add: inverse_step_def)

lemma odd_inverses:
  "19073486328125 * odd_inverse 19073486328125 = 1"
  "7450580596923828125 * odd_inverse 7450580596923828125 = 1"
proof -
  have six: "(f ^^ 6) x = f (f (f (f (f (f x)))))" for f :: "u64 \<Rightarrow> u64" and x by (simp add: eval_nat_numeral)
  show "19073486328125 * odd_inverse 19073486328125 = 1" "7450580596923828125 * odd_inverse 7450580596923828125 = 1"
    unfolding odd_inverse_def six inverse_steps_19 inverse_steps_27 by simp_all
qed

lemma five_facts:
  assumes "s = 19 \<or> s = 27"
  shows "unat (power_of_five s) = 5 ^ s" "power_of_five s * odd_inverse (power_of_five s) = 1"
proof -
  have five: "power_of_five 19 = 19073486328125" "power_of_five 27 = 7450580596923828125"
    by (simp_all add: power_of_five)
  show "unat (power_of_five s) = 5 ^ s" using assms by (auto simp: five)
  show "power_of_five s * odd_inverse (power_of_five s) = 1" using assms odd_inverses by (auto simp only: five)
qed

definition partly_stripped :: "bool \<Rightarrow> int \<Rightarrow> BigIntStatus \<Rightarrow> BigInt \<Rightarrow> u64 \<Rightarrow> bool" where
  "partly_stripped u V st v k \<longleftrightarrow> bigint_wf v \<and> bigint_val v * 10 ^ unat k = V \<and>
     (st = BIGINT_OK \<or> st = BIGINT_OUT_OF_MEMORY \<and> \<not> u)"

lemma inverse_loop_wp:
  assumes inv: "divisor * recip = 1" "unat divisor = 5 ^ s" and s: "0 < s" "s < 64" and L: "nat \<bar>V\<bar> < 2 ^ L" "L < LB" "V \<noteq> 0"
    and Q: "\<And>st v' k'. partly_stripped u V st v' k' \<Longrightarrow> Q (st, v', k')"
  shows "bigint_wf v \<Longrightarrow> bigint_mag v < 2 ^ fuel \<Longrightarrow> bigint_val v * 10 ^ unat k = V \<Longrightarrow>
    bsize v \<le> trial_capacity \<Longrightarrow> trial_capacity \<le> BIGINT_MAX_LIMBS \<Longrightarrow>
    rspec u (inverse_loop fuel s divisor recip trial_capacity v k) Q"
proof (induction fuel arbitrary: v k trial_capacity)
  case 0
  then have "bigint_val v = 0" by (simp add: val_0_mag)
  with 0 L(3) show ?case by simp
next
  case (Suc fuel)
  note wf = Suc.prems(1)
  let ?m = "bigint_mag v"
  let ?T = "\<lambda>out. bigint_normalize \<lparr>limbs = out, capacity = trial_capacity, is_negative = is_negative v\<rparr>"
  have keep: "Q (BIGINT_OK, v, k)" using wf Suc.prems(3) by (intro Q) (simp add: partly_stripped_def)
  have stop: "Q (BIGINT_OUT_OF_MEMORY, v, k)" if "\<not> u"
    using that wf Suc.prems(3) by (intro Q) (simp add: partly_stripped_def)
  show ?case
  proof (cases "bsize v \<noteq> 0 \<and> limbs v ! 0 AND (push_bit s 1 - 1) = 0")
    case False
    then show ?thesis using keep by (simp add: triple_return)
  next
    case True
    then have "unat (limbs v ! 0) mod 2 ^ s = 0" unfolding low_mask by blast
    then have start: "unat (limb_at (limbs v) 0) mod 2 ^ s = 0" by (simp add: limb_at_def)
    have pass: "rspec u (inverse_loop fuel s divisor recip (capacity v) (?T out) (k + of_nat s)) Q"
      and small: "\<not> k > UINT64_MAX - of_nat s"
      if out: "length out = bsize v" and eq: "2 ^ s * (unat divisor * mag out) = ?m" for out
    proof -
      have eq: "mag out * 10 ^ s = ?m" using eq by (simp add: inv(2) ac_simps flip: power_mult_distrib)
      have absV: "nat \<bar>V\<bar> = ?m * 10 ^ unat k"
        using Suc.prems(3) by (simp add: abs_mult nat_mult_distrib nat_power_eq flip: Suc.prems(3))
      have "nat \<bar>V\<bar> = mag out * 10 ^ (unat k + s)" unfolding absV eq [symmetric] by (simp add: power_add)
      then have "10 ^ (unat k + s) dvd nat \<bar>V\<bar>" by simp
      then have "10 ^ (unat k + s) \<le> nat \<bar>V\<bar>" by (rule dvd_imp_le) (use L(3) in simp)
      from ten_power_bound [OF this L(1)] have fits: "unat k + s < LB" using L(2) by linarith
      have ns: "unat (of_nat s :: u64) = s" using s(2) by (intro unat_of_nat_LB) (simp add: LB_def)
      show "\<not> k > UINT64_MAX - of_nat s" using fits ns by (intro count_fits) simp
      have k': "unat (k + of_nat s) = unat k + s" using fits ns by (simp add: unat_add_exact)
      have val: "bigint_val (?T out) * 10 ^ s = bigint_val v"
        using val_limbs_div2 [OF eq] by simp
      show "rspec u (inverse_loop fuel s divisor recip (capacity v) (?T out) (k + of_nat s)) Q"
      proof (rule Suc.IH)
        show "bigint_wf (?T out)" using Suc.prems(4,5) out by (intro normalize_wf) simp_all
        show "bigint_val (?T out) * 10 ^ unat (k + of_nat s) = V"
          unfolding k' Suc.prems(3) [symmetric] val [symmetric] by (simp add: power_add ac_simps)
        have "2 \<le> (10 :: nat) ^ s" using s(1) by (cases s) simp_all
        then have "mag out * 2 \<le> mag out * 10 ^ s" by (intro mult_le_mono2)
        then show "bigint_mag (?T out) < 2 ^ fuel" using eq Suc.prems(2) by simp
        show "bsize (?T out) \<le> capacity v" "capacity v \<le> BIGINT_MAX_LIMBS"
          using normalize_length [of "\<lparr>limbs = out, capacity = trial_capacity, is_negative = is_negative v\<rparr>"] out wf
          by (simp_all add: bigint_wf_def)
      qed
    qed
    have nn: "\<not> \<not> (bsize v \<noteq> 0 \<and> limbs v ! 0 AND (push_bit s 1 - 1) = 0)" using True by blast
    show ?thesis
      unfolding inverse_loop.simps if_not_P [OF nn]
    proof (intro triple_bind [of _ "c_assert _"] c_assert_wp Suc.prems(4) triple_bind [of _ "trial_loop _ _ _ _ _ _ _ _"]
        trial_loop_wp [OF inv(1) s], goal_cases)
      case (4 c' out')
      then show ?case using stop by (simp add: triple_return)
    next
      case (5 c' out')
      show ?case
      proof (cases "c' = 0")
        case True
        have len: "length out' = bsize v" and eq: "2 ^ s * (unat divisor * mag out') = ?m" using 5 True by simp_all
        show ?thesis using pass [OF len eq] small [OF len eq] by (simp add: True)
      qed (simp add: triple_return keep)
    qed (use start in simp_all)
  qed
qed

lemma tail_fits:
  assumes "partly_stripped u V BIGINT_OK v k" "strip_ok u (bigint_val v) BIGINT_OK v' tail"
    and L: "nat \<bar>V\<bar> < 2 ^ L" "L < LB" "V \<noteq> 0"
  shows "\<not> k > UINT64_MAX - tail" "strip_ok u V BIGINT_OK v' (k + tail)"
proof -
  have eqs: "bigint_val v * 10 ^ unat k = V" "bigint_val v' * 10 ^ unat tail = bigint_val v"
    and wf: "bigint_wf v'" and nd: "\<not> 10 dvd bigint_val v'"
    using assms(1,2) L(3) by (auto simp: partly_stripped_def strip_ok_def)
  then have V: "bigint_val v' * 10 ^ (unat k + unat tail) = V" unfolding eqs(1) [symmetric] eqs(2) [symmetric] by (simp add: power_add ac_simps)
  have "nat \<bar>V\<bar> = bigint_mag v' * 10 ^ (unat k + unat tail)"
    unfolding V [symmetric] by (simp add: abs_mult nat_mult_distrib nat_power_eq)
  then have "10 ^ (unat k + unat tail) dvd nat \<bar>V\<bar>" by simp
  then have "10 ^ (unat k + unat tail) \<le> nat \<bar>V\<bar>" by (rule dvd_imp_le) (use L(3) in simp)
  from ten_power_bound [OF this L(1)] have fits: "unat k + unat tail < LB" using L(2) by linarith
  then show "\<not> k > UINT64_MAX - tail" by (rule count_fits)
  show "strip_ok u V BIGINT_OK v' (k + tail)"
    using V wf nd fits L(3) by (simp add: strip_ok_def unat_add_exact)
qed

lemma inverse_wp:
  assumes v: "bigint_wf v" and s: "block = 19 \<or> block = 27"
    and Q: "\<And>st v' k. strip_ok u (bigint_val v) st v' k \<Longrightarrow> Q (st, v', k)"
  shows "rspec u (bigint_strip_decimal_zeros_inverse v removed block) Q"
proof -
  let ?m = "bigint_mag v" and ?L = "64 * bsize v"
  have stop: "Q (BIGINT_OUT_OF_MEMORY, v, 0)" if "\<not> u"
    using that v by (intro Q) (simp add: strip_ok_def bigint_wf_storage_ok)
  have none: "Q (BIGINT_OK, v, 0)" if "?m mod 5 \<noteq> 0"
  proof (intro Q)
    have "\<not> 10 dvd bigint_val v" using that mag_val_dvd [of 5 v] by (metis dvd_eq_mod_eq_0 dvd_trans numeral_Bit0 of_nat_numeral dvd_triv_left even_numeral num_double numeral_times_numeral dvd_triv_right)
    then show "strip_ok u (bigint_val v) BIGINT_OK v 0" using v by (simp add: strip_ok_def)
  qed
  have L: "nat \<bar>bigint_val v\<bar> < 2 ^ ?L" "?L < LB"
    using mag_less [of "limbs v"] v by (simp_all add: LB_def power_mult bigint_wf_def BIGINT_MAX_LIMBS_def SIZE_MAX_def)
  have classic: "rspec u (bigint_strip_decimal_zeros_classic v) Q" by (rule classic_wp [OF v]) (rule Q)
  have passes: "rspec u (inverse_loop (?L + 1) block (power_of_five block) (odd_inverse (power_of_five block)) (bsize v) v 0) R"
    if V0: "bigint_val v \<noteq> 0" and R: "\<And>st w k. partly_stripped u (bigint_val v) st w k \<Longrightarrow> R (st, w, k)" for R
    by (rule inverse_loop_wp [where V = "bigint_val v" and L = ?L])
      (use s L v V0 R five_facts [OF s] in \<open>auto simp: bigint_wf_def less_SucI\<close>)
  have after: "rspec u (do {
       (status, value, removed) \<leftarrow> inverse_loop (?L + 1) block (power_of_five block) (odd_inverse (power_of_five block)) (bsize v) v 0;
       if status = BIGINT_OK then do {
         (status, value, tail) \<leftarrow> bigint_strip_decimal_zeros_classic value;
         if status = BIGINT_OK \<and> removed > UINT64_MAX - tail
         then State_Monad.return (BIGINT_VALUE_TOO_LARGE, value, removed)
         else State_Monad.return (status, value, removed + tail)
       }
       else State_Monad.return (status, value, removed)
     }) Q" if V0: "bigint_val v \<noteq> 0"
  proof (rule triple_bind, rule passes [OF V0], goal_cases)
    case (1 st w k)
    note part = this
    then have stopped: "Q (BIGINT_OUT_OF_MEMORY, w, k)" if "\<not> u"
      using that by (intro Q) (auto simp: strip_ok_def partly_stripped_def bigint_wf_storage_ok)
    have tail: "rspec u (bigint_strip_decimal_zeros_classic w) R"
      if "st = BIGINT_OK" "\<And>st' w' tail. strip_ok u (bigint_val w) st' w' tail \<Longrightarrow> R (st', w', tail)" for R
      using part that by (intro classic_wp) (auto simp: partly_stripped_def)
    show ?case
      unfolding prod.case
    proof (rule triple_if, rule triple_bind, rule tail, assumption, goal_cases)
      case (1 st' w' tail)
      note t = this
      have p: "partly_stripped u (bigint_val v) BIGINT_OK w k" using part t(1) by simp
      show ?case
      proof (cases "st' = BIGINT_OK")
        case True
        then have "strip_ok u (bigint_val w) BIGINT_OK w' tail" using t(2) by simp
        note fits = tail_fits [OF p this L V0]
        then show ?thesis using True Q [OF fits(2)] by (simp add: triple_return)
      next
        case False
        then have "Q (st', w', k + tail)" by (intro Q) (use t(2) in \<open>auto simp: strip_ok_def\<close>)
        with False show ?thesis by (simp add: triple_return)
      qed
    next
      case 2
      then show ?case using part stopped by (auto simp: triple_return partly_stripped_def)
    qed
  qed
  show ?thesis
    unfolding bigint_strip_decimal_zeros_inverse_def
    apply (intro triple_if triple_bind [of _ numforge_budget_check] budget_check_wp)
        apply (use s in simp)
       apply (simp add: triple_return stop)
      apply (rule classic)
     apply (rule triple_bind, rule residue5_loop_wp)
        apply simp
       apply simp
      apply (simp add: triple_return stop)
     apply (unfold option.case)
     apply (rule triple_if)
      apply (simp add: triple_return none)
    apply (subst bigint_size_mul_Some)
    subgoal using v max_limbs_bytes [of "bsize v"] by (simp add: bigint_wf_def)
    apply (unfold option.case Let_def)
     apply (intro triple_if triple_bind [of _ "numforge_budget_can_allocate_pair _ _"] can_allocate_pair_wp classic
       triple_bind [of _ "numforge_malloc _"] malloc_wp)
    apply (simp add: triple_return stop)
    apply (rule after)
    subgoal using bigint_val_0_iff [OF v] by simp
    done
qed

lemma ten_free_unique: "i = j" if "x * 10 ^ i = y * 10 ^ j" "\<not> 10 dvd x" "\<not> 10 dvd y" for x y :: int
proof -
  have le: "i \<le> j" if eq: "x * 10 ^ i = y * 10 ^ j" and y: "\<not> 10 dvd y" for x y :: int and i j
  proof (rule ccontr)
    assume "\<not> i \<le> j"
    then obtain e where "i = j + Suc e" using less_imp_Suc_add [of j i] by auto
    with eq have "y = x * 10 ^ e * 10" by (simp add: power_add)
    with y show False by simp
  qed
  show ?thesis using le [OF that(1,3)] le [OF that(1) [symmetric] that(2)] by simp
qed

lemma strip_ok_unique:
  assumes "strip_ok True V st v k" "strip_ok True V st' v' k'"
  shows "st = BIGINT_OK \<and> st' = BIGINT_OK \<and> limbs v = limbs v' \<and> is_negative v = is_negative v' \<and> k = k'"
proof -
  have eqs: "bigint_val v * 10 ^ unat k = bigint_val v' * 10 ^ unat k'" and wf: "bigint_wf v" "bigint_wf v'"
    using assms by (auto simp: strip_ok_def)
  have k: "unat k = unat k'"
  proof (cases "V = 0")
    case False
    then have nd: "\<not> 10 dvd bigint_val v" "\<not> 10 dvd bigint_val v'" using assms by (auto simp: strip_ok_def)
    show ?thesis by (rule ten_free_unique [OF eqs nd])
  qed (use assms in \<open>auto simp: strip_ok_def\<close>)
  with eqs have "bigint_val v = bigint_val v'" by simp
  moreover have "k = k'" using k by (simp add: word_unat_eq_iff)
  ultimately show ?thesis using bigint_val_inj [OF wf] assms by (auto simp: strip_ok_def)
qed

lemma strip_wp:
  assumes "bigint_wf v" "\<And>st v' k. st = BIGINT_OUT_OF_MEMORY \<and> \<not> u \<and> storage_ok v' \<or> strip_ok u (bigint_val v) st v' k \<Longrightarrow> Q (st, v', k)"
  shows "rspec u (bigint_strip_decimal_zeros v removed) Q"
proof -
  have stop: "Q (BIGINT_OUT_OF_MEMORY, v', k)" if "\<not> u" "storage_ok v'" for v' k
    using that by (intro assms(2)) simp
  have routine: "rspec u (if bsize v \<ge> 128 then bigint_strip_decimal_zeros_inverse v removed 27
      else bigint_strip_decimal_zeros_classic v) R"
    if "\<And>st v' k. strip_ok u (bigint_val v) st v' k \<Longrightarrow> R (st, v', k)" for R
    using that assms(1) by (intro triple_if inverse_wp classic_wp) simp_all
  show ?thesis
    unfolding bigint_strip_decimal_zeros_def
  proof (intro triple_bind [of _ numforge_budget_check] budget_check_wp triple_if, goal_cases)
    case 1
    then show ?case using stop assms(1) by (simp add: triple_return bigint_wf_storage_ok)
  next
    case (2 b)
    show ?case
    proof (rule triple_bind, rule routine, unfold prod.case, rule triple_if, goal_cases)
      case (1 st v' k)
      then have "Q (BIGINT_OK, v', k)" "\<not> u \<Longrightarrow> Q (BIGINT_OUT_OF_MEMORY, v', k)"
        using stop by (auto simp: strip_ok_def bigint_wf_storage_ok intro: assms(2))
      then show ?case
        by (intro triple_bind [of _ numforge_budget_check] budget_check_wp triple_return) auto
    next
      case (2 st v' k)
      then show ?case by (simp add: triple_return assms(2))
    qed
  qed
qed

section \<open>Properties\<close>

text \<open>C10: Removing the decimal zeros of an integer divides it by the largest power of ten that
  divides it and counts that power. The count never overflows, so the routine fails only for
  want of resources.\<close>

theorem bigint_strip_decimal_zeros_correct:
  assumes "\<not> stuck s" "bigint_wf v"
  shows "case run_state (bigint_strip_decimal_zeros v removed) s of ((st, v', k), s') \<Rightarrow> \<not> stuck s' \<and>
    (if st = BIGINT_OK
     then bigint_wf v' \<and> bigint_val v' * 10 ^ unat k = bigint_val v \<and>
       (if bigint_val v = 0 then k = 0 else \<not> 10 dvd bigint_val v')
     else st = BIGINT_OUT_OF_MEMORY \<and> \<not> unlimited s)"
  by (rule rspec_run3 [OF _ assms(1)], rule strip_wp [OF assms(2)]) (auto simp: strip_ok_def)

theorem bigint_strip_decimal_zeros_correct_witness:
  "case run_state (bigint_strip_decimal_zeros (bigint_wrap_uint64 1200) 7) idle_runtime of ((st, v', k), s') \<Rightarrow>
     st = BIGINT_OK \<and> bigint_val v' * 10 ^ unat k = 1200 \<and> \<not> 10 dvd bigint_val v'"
  using bigint_strip_decimal_zeros_correct [of idle_runtime "bigint_wrap_uint64 1200" 7]
  by (auto simp: example_simps split: prod.splits if_splits)

text \<open>C11: The routine without division is equivalent to the reference routine. With unlimited
  resources both return the same limbs, the same sign and the same count.\<close>

theorem strip_inverse_equals_classic:
  assumes "\<not> stuck s" "unlimited s" "bigint_wf v" "block = 19 \<or> block = 27"
  shows "case run_state (bigint_strip_decimal_zeros_inverse v removed block) s of ((st, w, k), s1) \<Rightarrow>
    case run_state (bigint_strip_decimal_zeros_classic v) s of ((st', w', k'), s2) \<Rightarrow>
      st = BIGINT_OK \<and> st' = BIGINT_OK \<and> limbs w = limbs w' \<and> is_negative w = is_negative w' \<and> k = k'"
proof -
  note strip = rspec_run3 [OF inverse_wp [OF assms(3,4)] assms(1), of "strip_ok (unlimited s) (bigint_val v)" removed]
    rspec_run3 [OF classic_wp [OF assms(3)] assms(1), of "strip_ok (unlimited s) (bigint_val v)"]
  obtain st w k s1 where i: "run_state (bigint_strip_decimal_zeros_inverse v removed block) s = ((st, w, k), s1)"
    by (metis surj_pair)
  obtain st' w' k' s2 where c: "run_state (bigint_strip_decimal_zeros_classic v) s = ((st', w', k'), s2)"
    by (metis surj_pair)
  have "strip_ok True (bigint_val v) st w k" "strip_ok True (bigint_val v) st' w' k'"
    using strip assms(2) i c by simp_all
  from strip_ok_unique [OF this] show ?thesis using i c by simp
qed

theorem strip_inverse_equals_classic_witness:
  "case run_state (bigint_strip_decimal_zeros_inverse (bigint_wrap_uint64 1200) 7 27) idle_runtime of ((st, w, k), s1) \<Rightarrow>
    case run_state (bigint_strip_decimal_zeros_classic (bigint_wrap_uint64 1200)) idle_runtime of ((st', w', k'), s2) \<Rightarrow>
      st = BIGINT_OK \<and> st' = BIGINT_OK \<and> limbs w = limbs w' \<and> k = k'"
  using strip_inverse_equals_classic [of idle_runtime "bigint_wrap_uint64 1200" 27 7]
  by (auto simp: example_simps split: prod.splits)

text \<open>C12: Both loops over the passes end. A pass at least halves the value, so any fuel beyond
  the bit length of the value is enough for either loop.\<close>

theorem decimal_zero_passes_terminate:
  assumes "\<not> stuck s" "bigint_wf v" "bigint_val v \<noteq> 0" "bigint_mag v < 2 ^ fuel" "block = 19 \<or> block = 27"
  shows "\<not> stuck (snd (run_state (strip_loop fuel v 0) s)) \<and>
    \<not> stuck (snd (run_state (inverse_loop fuel block (power_of_five block) (odd_inverse (power_of_five block)) (bsize v) v 0) s))"
proof -
  let ?L = "64 * bsize v"
  have L: "nat \<bar>bigint_val v\<bar> < 2 ^ ?L" "?L < LB"
    using mag_less [of "limbs v"] assms(2) by (simp_all add: LB_def power_mult bigint_wf_def BIGINT_MAX_LIMBS_def SIZE_MAX_def)
  have "rspec (unlimited s) (strip_loop fuel v 0) (\<lambda>_. True)"
    by (rule strip_loop_wp [where V = "bigint_val v" and L = ?L]) (use assms L in simp_all)
  moreover have "rspec (unlimited s) (inverse_loop fuel block (power_of_five block) (odd_inverse (power_of_five block)) (bsize v) v 0) (\<lambda>_. True)"
    by (rule inverse_loop_wp [where V = "bigint_val v" and L = ?L])
      (use assms L five_facts [OF assms(5)] in \<open>auto simp: bigint_wf_def\<close>)
  ultimately show ?thesis
    using rspec_run1 [OF _ assms(1)] by (fastforce split: prod.splits)
qed

theorem decimal_zero_passes_terminate_witness:
  "\<not> stuck (snd (run_state (strip_loop 11 (bigint_wrap_uint64 1200) 0) idle_runtime))"
proof -
  have "bigint_mag (bigint_wrap_uint64 1200) < 2 ^ 11" by (simp add: bigint_wrap_uint64_def)
  then show ?thesis
    using decimal_zero_passes_terminate [of idle_runtime "bigint_wrap_uint64 1200" 11 27] by simp
qed

end
