(* ===== verification/BigDecimal_Base.thy ===== *)
theory BigDecimal_Base
  imports BigRational Decimal_Zeros
begin

text \<open>
  Decimal numbers, \<^verbatim>\<open>src/core/bigdecimal\<close>: the object of
  \<^verbatim>\<open>bigdecimal_internal.h\<close> and \<^verbatim>\<open>bigdecimal.c\<close>.

  A \<^verbatim>\<open>struct BigDecimal\<close> is a record of the coefficient it owns and of its scale; it
  denotes \<^verbatim>\<open>coefficient * 10^(-scale)\<close>, \<open>decimal_val\<close>, a \<open>rat\<close>. The invariant
  \<open>decimal_wf\<close> is the one of the header: zero has scale zero and no other coefficient is
  divisible by ten. An \<^verbatim>\<open>int64_t\<close> is an \<open>int\<close>; the helpers that add and subtract scales
  test the bounds of the type, written out as \<open>INT64_MIN\<close> and \<open>INT64_MAX\<close>. The calls of the
  phase profiler have no counterpart.
\<close>

section \<open>Objects and statuses\<close>

datatype BigDecimalStatus =
    BIGDECIMAL_OK
  | BIGDECIMAL_NULL_ARGUMENT
  | BIGDECIMAL_OUT_OF_MEMORY
  | BIGDECIMAL_INVALID_ARGUMENT
  | BIGDECIMAL_DIVISION_BY_ZERO
  | BIGDECIMAL_VALUE_TOO_LARGE
  | BIGDECIMAL_SCALE_OVERFLOW

text \<open>A C object of the enumeration may hold any integer; the last constructor stands for the
  values that name no mode.\<close>

datatype BigDecimalRoundingMode =
    BIGDECIMAL_ROUND_TOWARD_ZERO
  | BIGDECIMAL_ROUND_AWAY_FROM_ZERO
  | BIGDECIMAL_ROUND_FLOOR
  | BIGDECIMAL_ROUND_CEILING
  | BIGDECIMAL_ROUND_HALF_UP
  | BIGDECIMAL_ROUND_HALF_EVEN
  | BIGDECIMAL_ROUND_OTHER int

record BigDecimal =
  coefficient :: BigInt
  scale :: int

record BigDecimalExponent =
  exponent_negative :: bool
  exponent_high :: bool
  exponent_magnitude :: u64

definition bigdecimal_storage_bytes :: "BigDecimal option \<Rightarrow> nat" where
  "bigdecimal_storage_bytes p = (case p of None \<Rightarrow> 0
     | Some value \<Rightarrow> numforge_storage_add 16 (bigint_storage_bytes (Some (coefficient value))))"

fun bigdecimal_from_bigint_status :: "BigIntStatus \<Rightarrow> BigDecimalStatus" where
  "bigdecimal_from_bigint_status BIGINT_OK = BIGDECIMAL_OK"
| "bigdecimal_from_bigint_status BIGINT_NULL_ARGUMENT = BIGDECIMAL_NULL_ARGUMENT"
| "bigdecimal_from_bigint_status BIGINT_OUT_OF_MEMORY = BIGDECIMAL_OUT_OF_MEMORY"
| "bigdecimal_from_bigint_status BIGINT_DIVISION_BY_ZERO = BIGDECIMAL_DIVISION_BY_ZERO"
| "bigdecimal_from_bigint_status BIGINT_VALUE_TOO_LARGE = BIGDECIMAL_VALUE_TOO_LARGE"
| "bigdecimal_from_bigint_status _ = BIGDECIMAL_INVALID_ARGUMENT"

text \<open>\<^verbatim>\<open>bigdecimal_from_bigint_status(bigint_op(...))\<close>\<close>

definition decimal_call :: "(BigIntStatus \<times> 'a) rt \<Rightarrow> (BigDecimalStatus \<times> 'a) rt" where
  "decimal_call m = do { (status, x) \<leftarrow> m; State_Monad.return (bigdecimal_from_bigint_status status, x) }"

definition bigdecimal_status_to_string :: "BigDecimalStatus \<Rightarrow> string" where
  "bigdecimal_status_to_string status = (case status of
      BIGDECIMAL_OK \<Rightarrow> ''success''
    | BIGDECIMAL_NULL_ARGUMENT \<Rightarrow> ''null argument''
    | BIGDECIMAL_OUT_OF_MEMORY \<Rightarrow> ''out of memory''
    | BIGDECIMAL_INVALID_ARGUMENT \<Rightarrow> ''invalid argument''
    | BIGDECIMAL_DIVISION_BY_ZERO \<Rightarrow> ''division by zero''
    | BIGDECIMAL_VALUE_TOO_LARGE \<Rightarrow> ''value too large''
    | BIGDECIMAL_SCALE_OVERFLOW \<Rightarrow> ''scale overflow'')"

section \<open>Scales\<close>

definition INT64_MAX :: int where "INT64_MAX = 2 ^ 63 - 1"
definition INT64_MIN :: int where "INT64_MIN = - (2 ^ 63)"

definition bigdecimal_abs_i64 :: "int \<Rightarrow> u64" where
  "bigdecimal_abs_i64 value = (if value < 0 then of_int (- (value + 1)) + 1 else of_int value)"

definition bigdecimal_size_add :: "nat \<Rightarrow> nat \<Rightarrow> nat option" where
  "bigdecimal_size_add a b = (if a > SIZE_MAX - b then None else Some (a + b))"

definition bigdecimal_i64_add :: "int \<Rightarrow> int \<Rightarrow> int option" where
  "bigdecimal_i64_add a b =
    (if b > 0 \<and> a > INT64_MAX - b \<or> b < 0 \<and> a < INT64_MIN - b then None else Some (a + b))"

definition bigdecimal_i64_sub :: "int \<Rightarrow> int \<Rightarrow> int option" where
  "bigdecimal_i64_sub a b =
    (if b > 0 \<and> a < INT64_MIN + b \<or> b < 0 \<and> a > INT64_MAX + b then None else Some (a - b))"

definition bigdecimal_scale_difference :: "int \<Rightarrow> int \<Rightarrow> u64 \<Rightarrow> BigDecimalStatus \<times> u64" where
  "bigdecimal_scale_difference larger smaller difference =
    (if larger < smaller then (BIGDECIMAL_INVALID_ARGUMENT, difference)
     else (BIGDECIMAL_OK,
       if smaller \<ge> 0 then of_int (larger - smaller)
       else if larger < 0 then bigdecimal_abs_i64 smaller - bigdecimal_abs_i64 larger
       else of_int larger + bigdecimal_abs_i64 smaller))"

definition bigdecimal_valid_rounding :: "BigDecimalRoundingMode \<Rightarrow> bool" where
  "bigdecimal_valid_rounding rounding = (case rounding of BIGDECIMAL_ROUND_OTHER _ \<Rightarrow> False | _ \<Rightarrow> True)"

definition bigdecimal_decimal_exponent :: "nat \<Rightarrow> int \<Rightarrow> BigDecimalExponent" where
  "bigdecimal_decimal_exponent digits s =
    (if s \<ge> 0 \<and> (of_nat digits :: u64) < of_int s
     then \<lparr>exponent_negative = True, exponent_high = False, exponent_magnitude = of_int s - of_nat digits\<rparr>
     else if s \<ge> 0
     then \<lparr>exponent_negative = False, exponent_high = False, exponent_magnitude = of_nat digits - of_int s\<rparr>
     else
       (let scale_magnitude = bigdecimal_abs_i64 s
        in \<lparr>exponent_negative = False, exponent_high = of_nat digits > UINT64_MAX - scale_magnitude,
            exponent_magnitude = of_nat digits + scale_magnitude\<rparr>))"

definition bigdecimal_compare_exponents :: "BigDecimalExponent \<Rightarrow> BigDecimalExponent \<Rightarrow> int" where
  "bigdecimal_compare_exponents a b =
    (if exponent_negative a \<noteq> exponent_negative b then if exponent_negative a then - 1 else 1
     else if exponent_high a \<noteq> exponent_high b then if exponent_high a then 1 else - 1
     else if exponent_magnitude a = exponent_magnitude b then 0
     else if exponent_negative a then if exponent_magnitude a > exponent_magnitude b then - 1 else 1
     else if exponent_magnitude a < exponent_magnitude b then - 1 else 1)"

section \<open>Life cycle\<close>

definition bigdecimal_create :: "BigDecimal option rt" where
  "bigdecimal_create = do {
     granted \<leftarrow> numforge_malloc 16;
     if \<not> granted then State_Monad.return None
     else do {
       created \<leftarrow> bigint_create;
       State_Monad.return (case created of None \<Rightarrow> None | Some c \<Rightarrow> Some \<lparr>coefficient = c, scale = 0\<rparr>)
     }
   }"

text \<open>The temporary's coefficient moves into the destination; the old one is freed.\<close>

definition bigdecimal_commit :: "BigDecimal \<Rightarrow> BigDecimal \<Rightarrow> BigDecimal" where
  "bigdecimal_commit destination temporary =
     destination\<lparr>coefficient := coefficient temporary, scale := scale temporary\<rparr>"

text \<open>\<open>same\<close> says whether \<^verbatim>\<open>destination == source\<close> as pointers.\<close>

definition bigdecimal_copy ::
  "bool \<Rightarrow> BigDecimal \<Rightarrow> BigDecimal \<Rightarrow> (BigDecimalStatus \<times> BigDecimal) rt" where
  "bigdecimal_copy same destination source =
    (if same then State_Monad.return (BIGDECIMAL_OK, destination)
     else do {
       created \<leftarrow> bigdecimal_create;
       case created of
         None \<Rightarrow> State_Monad.return (BIGDECIMAL_OUT_OF_MEMORY, destination)
       | Some temporary \<Rightarrow> do {
           (status, c) \<leftarrow> decimal_call (bigint_copy (coefficient temporary) (coefficient source));
           State_Monad.return (status,
             if status = BIGDECIMAL_OK
             then bigdecimal_commit destination \<lparr>coefficient = c, scale = scale source\<rparr> else destination)
         }
     })"

section \<open>Powers of ten and canonical form\<close>

definition bigdecimal_set_power_of_ten :: "BigInt \<Rightarrow> u64 \<Rightarrow> (BigDecimalStatus \<times> BigInt) rt" where
  "bigdecimal_set_power_of_ten value exponent =
    (if unat exponent > SIZE_MAX - 2 then State_Monad.return (BIGDECIMAL_VALUE_TOO_LARGE, value)
     else do {
       granted \<leftarrow> numforge_malloc (unat exponent + 2);
       if \<not> granted then State_Monad.return (BIGDECIMAL_OUT_OF_MEMORY, value)
       else decimal_call (bigint_set_string value (CHR ''1'' # replicate (unat exponent) CHR ''0''))
     })"

definition bigdecimal_multiply_power_of_ten ::
  "BigInt \<Rightarrow> BigInt \<Rightarrow> u64 \<Rightarrow> (BigDecimalStatus \<times> BigInt) rt" where
  "bigdecimal_multiply_power_of_ten result value exponent =
    (if exponent = 0 then decimal_call (bigint_copy result value)
     else do {
       created \<leftarrow> bigint_create;
       case created of
         None \<Rightarrow> State_Monad.return (BIGDECIMAL_OUT_OF_MEMORY, result)
       | Some ten \<Rightarrow> do {
           (status, ten) \<leftarrow> bigdecimal_set_power_of_ten ten exponent;
           if status = BIGDECIMAL_OK then decimal_call (bigint_mul result value ten)
           else State_Monad.return (status, result)
         }
     })"

text \<open>The chunks in which the number of removed zeros is subtracted from the scale; the scale
  reached when a subtraction overflows comes with \<open>False\<close>.\<close>

function subtract_removed :: "u64 \<Rightarrow> int \<Rightarrow> bool \<times> int" where
  "subtract_removed removed s =
    (if uint removed > INT64_MAX
     then case bigdecimal_i64_sub s INT64_MAX of
            None \<Rightarrow> (False, s)
          | Some s \<Rightarrow> subtract_removed (removed - of_int INT64_MAX) s
     else case bigdecimal_i64_sub s (uint removed) of None \<Rightarrow> (False, s) | Some s \<Rightarrow> (True, s))"
  by pat_completeness auto

termination
proof (relation "measure (\<lambda>(removed, s). unat removed)", goal_cases)
  case (2 removed s s')
  have m: "uint (of_int INT64_MAX :: u64) = INT64_MAX" by (simp add: INT64_MAX_def)
  with 2 have "of_int INT64_MAX \<le> removed" by (simp add: word_le_def)
  then have "unat (removed - of_int INT64_MAX) = unat removed - unat (of_int INT64_MAX :: u64)" by (rule unat_sub)
  moreover have "0 < unat (of_int INT64_MAX :: u64)" by (simp add: INT64_MAX_def)
  moreover have "unat (of_int INT64_MAX :: u64) \<le> unat removed" using \<open>of_int INT64_MAX \<le> removed\<close> by (simp add: word_le_nat_alt)
  ultimately show ?case by simp
qed simp

definition bigdecimal_normalize :: "BigDecimal \<Rightarrow> (BigDecimalStatus \<times> BigDecimal) rt" where
  "bigdecimal_normalize value =
    (if bigint_is_zero (coefficient value) then State_Monad.return (BIGDECIMAL_OK, value\<lparr>scale := 0\<rparr>)
     else do {
       (status, c, removed) \<leftarrow> bigint_strip_decimal_zeros (coefficient value) 0;
       let status = bigdecimal_from_bigint_status status;
       if status \<noteq> BIGDECIMAL_OK then State_Monad.return (status, value\<lparr>coefficient := c\<rparr>)
       else
         (case subtract_removed removed (scale value) of
            (fits, s) \<Rightarrow> State_Monad.return
              (if fits then BIGDECIMAL_OK else BIGDECIMAL_SCALE_OVERFLOW, value\<lparr>coefficient := c, scale := s\<rparr>))
     })"

definition bigdecimal_finish :: "BigDecimal \<Rightarrow> BigDecimal \<Rightarrow> (BigDecimalStatus \<times> BigDecimal) rt" where
  "bigdecimal_finish destination temporary = do {
     (status, temporary) \<leftarrow> bigdecimal_normalize temporary;
     State_Monad.return (status,
       if status = BIGDECIMAL_OK then bigdecimal_commit destination temporary else destination)
   }"

section \<open>The number of an object\<close>

definition decimal_val :: "BigDecimal \<Rightarrow> rat" where
  "decimal_val d = of_int (bigint_val (coefficient d)) * 10 powi (- scale d)"

definition in_i64 :: "int \<Rightarrow> bool" where
  "in_i64 e \<longleftrightarrow> INT64_MIN \<le> e \<and> e \<le> INT64_MAX"

definition decimal_wf :: "BigDecimal \<Rightarrow> bool" where
  "decimal_wf d \<longleftrightarrow> bigint_wf (coefficient d) \<and> in_i64 (scale d) \<and>
     (if bigint_val (coefficient d) = 0 then scale d = 0 else \<not> 10 dvd bigint_val (coefficient d))"

text \<open>The numbers some canonical object denotes.\<close>

definition decimal_representable :: "rat \<Rightarrow> bool" where
  "decimal_representable x \<longleftrightarrow> (\<exists>d. decimal_wf d \<and> decimal_val d = x)"

lemma powi_split: "(10 :: rat) powi (a + b) = 10 powi a * 10 powi b"
  by (simp add: power_int_add)

lemma powi_nat: "0 \<le> e \<Longrightarrow> (10 :: rat) powi e = of_int (10 ^ nat e)"
  by (simp add: power_int_def)

text \<open>Canonical decimals are unique.\<close>

lemma canonical_decimal_unique:
  fixes c1 c2 e1 e2 :: int
  assumes eq: "(of_int c1 :: rat) * 10 powi e1 = of_int c2 * 10 powi e2" and c: "\<not> 10 dvd c1" "\<not> 10 dvd c2"
  shows "c1 = c2 \<and> e1 = e2"
proof -
  let ?m = "min e1 e2"
  have part: "(of_int x :: rat) * 10 powi e = of_int (x * 10 ^ nat (e - ?m)) * 10 powi ?m" if "?m \<le> e" for x e
    using powi_split [of "e - ?m" ?m] powi_nat [of "e - ?m"] that by simp
  have "(of_int (c1 * 10 ^ nat (e1 - ?m)) :: rat) * 10 powi ?m = of_int (c2 * 10 ^ nat (e2 - ?m)) * 10 powi ?m"
    using eq part [of e1 c1] part [of e2 c2] by simp
  then have "(of_int (c1 * 10 ^ nat (e1 - ?m)) :: rat) = of_int (c2 * 10 ^ nat (e2 - ?m))" by simp
  then have eq': "c1 * 10 ^ nat (e1 - ?m) = c2 * 10 ^ nat (e2 - ?m)" by (simp only: of_int_eq_iff)
  from ten_free_unique [OF this c] have "nat (e1 - ?m) = nat (e2 - ?m)" .
  with eq' show ?thesis by (auto simp: min_def split: if_splits)
qed

lemma decimal_val_inj:
  assumes "decimal_wf p" "decimal_wf q" "decimal_val p = decimal_val q"
  shows "limbs (coefficient p) = limbs (coefficient q) \<and> is_negative (coefficient p) = is_negative (coefficient q) \<and>
    scale p = scale q"
proof -
  have z: "bigint_val (coefficient p) = 0 \<longleftrightarrow> bigint_val (coefficient q) = 0"
    using assms(3) by (simp add: decimal_val_def) (metis mult_eq_0_iff of_int_eq_0_iff power_int_eq_0_iff zero_neq_numeral)
  have "bigint_val (coefficient p) = bigint_val (coefficient q) \<and> scale p = scale q"
  proof (cases "bigint_val (coefficient p) = 0")
    case True
    then show ?thesis using z assms(1,2) by (simp add: decimal_wf_def)
  next
    case False
    then show ?thesis
      using z assms canonical_decimal_unique [of "bigint_val (coefficient p)" "- scale p" "bigint_val (coefficient q)" "- scale q"]
      by (simp add: decimal_wf_def decimal_val_def)
  qed
  then show ?thesis using assms(1,2) bigint_val_inj by (simp add: decimal_wf_def)
qed

text \<open>The second half of canonical form: a canonical pair whose exponent leaves the type denotes
  a number no object denotes.\<close>

lemma not_representable:
  assumes "\<not> 10 dvd c" "\<not> in_i64 e"
  shows "\<not> decimal_representable (of_int c * 10 powi (- e))"
proof
  assume "decimal_representable (of_int c * 10 powi (- e))"
  then obtain d where d: "decimal_wf d" "of_int (bigint_val (coefficient d)) * 10 powi (- scale d) = (of_int c * 10 powi (- e) :: rat)"
    by (auto simp: decimal_representable_def decimal_val_def)
  have "c \<noteq> 0" using assms(1) by auto
  then have "bigint_val (coefficient d) \<noteq> 0" using d(2) by (auto simp: power_int_eq_0_iff)
  then have "\<not> 10 dvd bigint_val (coefficient d)" using d(1) by (simp add: decimal_wf_def)
  from canonical_decimal_unique [OF d(2) this assms(1)] have "scale d = e" by simp
  with d(1) assms(2) show False by (simp add: decimal_wf_def)
qed

section \<open>Arithmetic on scales\<close>

lemma i64_add_iff: "in_i64 a \<Longrightarrow> in_i64 b \<Longrightarrow> bigdecimal_i64_add a b = (if in_i64 (a + b) then Some (a + b) else None)"
  by (auto simp: bigdecimal_i64_add_def in_i64_def)

lemma i64_sub_iff: "in_i64 a \<Longrightarrow> in_i64 b \<Longrightarrow> bigdecimal_i64_sub a b = (if in_i64 (a - b) then Some (a - b) else None)"
  by (auto simp: bigdecimal_i64_sub_def in_i64_def)

lemma unat_of_int64: "0 \<le> v \<Longrightarrow> v < int LB \<Longrightarrow> unat (of_int v :: u64) = nat v"
  using unat_of_nat_LB [of "nat v"] by simp

lemma abs_i64: "bigdecimal_abs_i64 v = of_int \<bar>v\<bar>"
  by (simp add: bigdecimal_abs_i64_def)

lemma abs_i64_unat: "in_i64 v \<Longrightarrow> unat (bigdecimal_abs_i64 v) = nat \<bar>v\<bar>"
  unfolding abs_i64 by (rule unat_of_int64) (auto simp: in_i64_def INT64_MIN_def INT64_MAX_def LB_def)

lemma scale_difference:
  assumes "in_i64 a" "in_i64 b" "b \<le> a"
  shows "bigdecimal_scale_difference a b d = (BIGDECIMAL_OK, of_int (a - b))"
    "unat (of_int (a - b) :: u64) = nat (a - b)"
proof -
  show "bigdecimal_scale_difference a b d = (BIGDECIMAL_OK, of_int (a - b))"
    using assms(3) by (simp add: bigdecimal_scale_difference_def abs_i64)
  show "unat (of_int (a - b) :: u64) = nat (a - b)"
    by (rule unat_of_int64) (use assms in \<open>simp_all add: in_i64_def INT64_MIN_def INT64_MAX_def LB_def\<close>)
qed

lemma uint_less_LB: "0 \<le> uint (w :: u64)" "uint (w :: u64) < 2 ^ 64"
  using uint_bounded [of w] by simp_all

lemma subtract_removed_wp:
  "in_i64 s \<Longrightarrow> in_i64 (s - uint removed) \<and> subtract_removed removed s = (True, s - uint removed) \<or>
    \<not> in_i64 (s - uint removed) \<and> fst (subtract_removed removed s) = False"
proof (induction removed s rule: subtract_removed.induct)
  case (1 removed s)
  have mx: "in_i64 INT64_MAX" by (simp add: in_i64_def INT64_MAX_def INT64_MIN_def)
  show ?case
  proof (cases "uint removed > INT64_MAX")
    case True
    have m: "uint (of_int INT64_MAX :: u64) = INT64_MAX" by (simp add: INT64_MAX_def)
    have sub: "uint (removed - of_int INT64_MAX) = uint removed - INT64_MAX"
      using True uint_sub_lem [of "of_int INT64_MAX :: u64" removed] m by simp
    show ?thesis
    proof (cases "in_i64 (s - INT64_MAX)")
      case in_range: True
      then have "bigdecimal_i64_sub s INT64_MAX = Some (s - INT64_MAX)" using 1(2) mx by (simp add: i64_sub_iff)
      then show ?thesis using 1(1) [OF True] in_range True unfolding sub by (subst (1 2) subtract_removed.simps) simp
    next
      case False
      then have "bigdecimal_i64_sub s INT64_MAX = None" using 1(2) mx by (simp add: i64_sub_iff)
      moreover have "\<not> in_i64 (s - uint removed)" using False True 1(2) by (simp add: in_i64_def INT64_MAX_def)
      ultimately show ?thesis using True by (subst (2) subtract_removed.simps) simp
    qed
  next
    case False
    moreover have "INT64_MIN \<le> 0" by (simp add: INT64_MIN_def)
    ultimately have "in_i64 (uint removed)" using uint_less_LB(1) [of removed] unfolding in_i64_def by linarith
    from i64_sub_iff [OF 1(2) this] show ?thesis using False by (subst (1 2) subtract_removed.simps) simp
  qed
qed

declare subtract_removed.simps [simp del]

section \<open>Statuses\<close>

text \<open>How a decimal operation may return: \<open>u\<close> and \<open>F\<close> as in \<open>outcome\<close>; \<open>ov\<close> is the
  condition under which the status may be \<^verbatim>\<open>BIGDECIMAL_SCALE_OVERFLOW\<close>.\<close>

definition doutcome :: "bool \<Rightarrow> bool \<Rightarrow> bool \<Rightarrow> BigDecimalStatus \<Rightarrow> bool \<Rightarrow> bool \<Rightarrow> bool" where
  "doutcome u fits ov st good bad \<longleftrightarrow>
     (if st = BIGDECIMAL_OK then good
      else ((st = BIGDECIMAL_OUT_OF_MEMORY \<or> st = BIGDECIMAL_VALUE_TOO_LARGE) \<and> \<not> (u \<and> fits) \<or>
            st = BIGDECIMAL_SCALE_OVERFLOW \<and> ov) \<and> bad)"

lemma doutcome_OK [simp]: "doutcome u F ov BIGDECIMAL_OK good bad = good"
  by (simp add: doutcome_def)

lemma doutcome_OOM [simp]: "doutcome u F ov BIGDECIMAL_OUT_OF_MEMORY good bad \<longleftrightarrow> \<not> (u \<and> F) \<and> bad"
  by (simp add: doutcome_def)

lemma doutcome_LARGE [simp]: "doutcome u F ov BIGDECIMAL_VALUE_TOO_LARGE good bad \<longleftrightarrow> \<not> (u \<and> F) \<and> bad"
  by (simp add: doutcome_def)

lemma doutcome_OVERFLOW [simp]: "doutcome u F ov BIGDECIMAL_SCALE_OVERFLOW good bad \<longleftrightarrow> ov \<and> bad"
  by (simp add: doutcome_def)

lemma doutcome_mono:
  "doutcome u F ov st good bad \<Longrightarrow> (u \<Longrightarrow> F' \<Longrightarrow> F) \<Longrightarrow> (ov \<Longrightarrow> ov') \<Longrightarrow> (good \<Longrightarrow> good') \<Longrightarrow>
   (bad \<Longrightarrow> bad') \<Longrightarrow> doutcome u F' ov' st good' bad'"
  by (auto simp: doutcome_def split: if_splits)

lemma doutcome_failI:
  "doutcome u X ov st good bad \<Longrightarrow> st \<noteq> BIGDECIMAL_OK \<Longrightarrow> (F \<Longrightarrow> X) \<Longrightarrow> (ov \<Longrightarrow> ov') \<Longrightarrow> bad' \<Longrightarrow>
   doutcome u F ov' st good' bad'"
  by (auto simp: doutcome_def)

section \<open>Integer operations as decimals use them\<close>

text \<open>The two status translations agree, so the rules for \<open>integer_call\<close> carry over.\<close>

fun decimal_of_rational_status :: "BigRationalStatus \<Rightarrow> BigDecimalStatus" where
  "decimal_of_rational_status BIGRATIONAL_OK = BIGDECIMAL_OK"
| "decimal_of_rational_status BIGRATIONAL_NULL_ARGUMENT = BIGDECIMAL_NULL_ARGUMENT"
| "decimal_of_rational_status BIGRATIONAL_OUT_OF_MEMORY = BIGDECIMAL_OUT_OF_MEMORY"
| "decimal_of_rational_status BIGRATIONAL_INVALID_ARGUMENT = BIGDECIMAL_INVALID_ARGUMENT"
| "decimal_of_rational_status BIGRATIONAL_DIVISION_BY_ZERO = BIGDECIMAL_DIVISION_BY_ZERO"
| "decimal_of_rational_status BIGRATIONAL_VALUE_TOO_LARGE = BIGDECIMAL_VALUE_TOO_LARGE"
| "decimal_of_rational_status BIGRATIONAL_SCALE_OVERFLOW = BIGDECIMAL_SCALE_OVERFLOW"

lemma status_translations: "bigdecimal_from_bigint_status st = decimal_of_rational_status (rational_from_integer_status st)"
  by (cases st) simp_all

lemma decimal_via:
  assumes "rspec u (integer_call m) (\<lambda>(st, x). Q (decimal_of_rational_status st, x))"
  shows "rspec u (decimal_call m) Q"
proof -
  have "decimal_call m = State_Monad.bind (integer_call m) (\<lambda>(st, x). State_Monad.return (decimal_of_rational_status st, x))"
    by (simp add: decimal_call_def integer_call_def status_translations case_prod_unfold)
  then show ?thesis
    by (simp only:) (rule triple_bind, rule triple_conseq [OF assms], auto intro: triple_return)
qed

lemma decimal_call_wp:
  assumes "rspec u m (\<lambda>(st, x). Q (bigdecimal_from_bigint_status st, x))"
  shows "rspec u (decimal_call m) Q"
  unfolding decimal_call_def by (rule triple_bind, rule triple_conseq [OF assms]) (auto intro: triple_return)

lemma routcome_decimal: "routcome u F st good bad \<Longrightarrow> doutcome u F False (decimal_of_rational_status st) good bad"
  by (cases st) (auto simp: routcome_def doutcome_def)

lemma dcall_copy:
  assumes a: "holds_int a x" and r: "storage_ok r"
    and Q: "\<And>st r'. doutcome u True False st (holds_int r' x) (r' = r) \<Longrightarrow> Q (st, r')"
  shows "rspec u (decimal_call (bigint_copy r a)) Q"
  by (rule decimal_via, rule call_copy [OF a r]) (auto intro!: Q routcome_decimal)

lemma dcall_negate:
  assumes a: "holds_int a x" and r: "storage_ok r"
    and Q: "\<And>st r'. doutcome u True False st (holds_int r' (- x)) True \<Longrightarrow> Q (st, r')"
  shows "rspec u (decimal_call (bigint_negate r a)) Q"
  by (rule decimal_via, rule call_negate [OF a r]) (auto intro!: Q routcome_decimal)

lemma dcall_abs:
  assumes a: "holds_int a x" and r: "storage_ok r"
    and Q: "\<And>st r'. doutcome u True False st (holds_int r' \<bar>x\<bar>) True \<Longrightarrow> Q (st, r')"
  shows "rspec u (decimal_call (bigint_abs r a)) Q"
  by (rule decimal_via, rule call_abs [OF a r]) (auto intro!: Q routcome_decimal)

lemma dcall_mul:
  assumes a: "holds_int a x" and b: "holds_int b y" and r: "storage_ok r"
    and "\<bar>x\<bar> < int LB ^ i" "\<bar>y\<bar> < int LB ^ j" "F \<Longrightarrow> i + j \<le> BIGINT_MAX_LIMBS"
    and Q: "\<And>st r'. doutcome u F False st (holds_int r' (x * y)) True \<Longrightarrow> Q (st, r')"
  shows "rspec u (decimal_call (bigint_mul r a b)) Q"
  by (rule decimal_via, rule call_mul_fits [OF a b r assms(4-6)]) (auto intro!: Q routcome_decimal)

lemma decimal_chain:
  assumes "st = BIGDECIMAL_OK \<Longrightarrow> rspec u (State_Monad.bind m f) Q"
    and "st \<noteq> BIGDECIMAL_OK \<Longrightarrow> rspec u (f (st, d)) Q"
  shows "rspec u (State_Monad.bind (if st = BIGDECIMAL_OK then m else State_Monad.return (st, d)) f) Q"
  using assms by (cases "st = BIGDECIMAL_OK") simp_all

section \<open>Life cycle, powers of ten, canonical form\<close>

lemma decimal_create_wp [wp]:
  assumes Q: "\<And>p. p = Some \<lparr>coefficient = bigint_init, scale = 0\<rparr> \<or> \<not> u \<and> p = None \<Longrightarrow> Q p"
  shows "rspec u bigdecimal_create Q"
  unfolding bigdecimal_create_def
  by (intro triple_bind [of _ "numforge_malloc _"] malloc_wp triple_if triple_bind [of _ bigint_create] create_wp triple_return)
    (auto intro!: Q)

lemma decimal_wfD:
  assumes "decimal_wf d"
  shows "holds_int (coefficient d) (bigint_val (coefficient d))" "in_i64 (scale d)" "bigint_wf (coefficient d)"
    "storage_ok (coefficient d)"
  using assms by (auto simp: decimal_wf_def holds_int_def bigint_wf_storage_ok)

lemma decimal_copy_wp:
  assumes s: "decimal_wf s" and same: "same \<Longrightarrow> d = s"
    and Q: "\<And>st d'. doutcome u True False st (decimal_wf d' \<and> decimal_val d' = decimal_val s \<and> scale d' = scale s) (d' = d) \<Longrightarrow> Q (st, d')"
  shows "rspec u (bigdecimal_copy same d s) Q"
proof (cases same)
  case True
  then show ?thesis using same s by (auto simp: bigdecimal_copy_def intro!: triple_return Q)
next
  case False
  have step: "rspec u (do {
      (status, c) \<leftarrow> decimal_call (bigint_copy bigint_init (coefficient s));
      State_Monad.return (status,
        if status = BIGDECIMAL_OK then bigdecimal_commit d \<lparr>coefficient = c, scale = scale s\<rparr> else d)
    }) Q"
  proof (rule triple_bind, rule dcall_copy [OF decimal_wfD(1) [OF s]], goal_cases)
    case (2 st c)
    then show ?case
      using s by (auto intro!: triple_return Q simp: bigdecimal_commit_def decimal_wf_def decimal_val_def holds_int_def doutcome_def
        split: if_splits)
  qed simp
  have oom: "Q (BIGDECIMAL_OUT_OF_MEMORY, d)" if "\<not> u" using that by (intro Q) simp
  show ?thesis
    unfolding bigdecimal_copy_def if_not_P [OF False]
    by (rule triple_bind [OF decimal_create_wp]) (use step in \<open>auto intro!: triple_return oom\<close>)
qed

text \<open>Enough limbs for a power of ten.\<close>

definition ten_limbs :: "nat \<Rightarrow> nat" where
  "ten_limbs e = e div 19 + 1"

lemma ten_limbs: "(10 :: int) ^ e < int LB ^ ten_limbs e"
proof -
  have nineteen: "(10 :: int) ^ 19 < int LB" by (simp add: LB_def)
  have "(10 :: int) ^ (e mod 19) \<le> 10 ^ 18" by (intro power_increasing) simp_all
  also have "\<dots> < int LB" by (simp add: LB_def)
  finally have r: "(10 :: int) ^ (e mod 19) < int LB" .
  have "(10 :: int) ^ e = (10 ^ 19) ^ (e div 19) * 10 ^ (e mod 19)"
    unfolding power_mult [symmetric] power_add [symmetric] mult_div_mod_eq ..
  also have "\<dots> \<le> int LB ^ (e div 19) * 10 ^ (e mod 19)"
    by (intro mult_right_mono power_mono less_imp_le [OF nineteen]) simp_all
  also have "\<dots> < int LB ^ (e div 19) * int LB" by (intro mult_strict_left_mono r) (simp add: LB_def)
  finally show ?thesis by (simp add: ten_limbs_def mult.commute)
qed

text \<open>\<open>ten_fits e n\<close>: the text and the value of the power of ten fit, with room for \<open>n\<close> more limbs.\<close>

definition ten_fits :: "nat \<Rightarrow> nat \<Rightarrow> bool" where
  "ten_fits e n \<longleftrightarrow> e + 2 \<le> SIZE_MAX \<and> ten_limbs e + n + 1 \<le> BIGINT_MAX_LIMBS"

lemma zeros_value: "digits_value 10 (replicate e 0) = 0"
  by (induction e) (simp_all add: digits_value_Cons)

lemma digit_chars [simp]: "bigint_ascii_digit CHR ''0'' = 0" "bigint_ascii_digit CHR ''1'' = 1"
  by (simp_all add: bigint_ascii_digit_def)

lemma ten_text:
  "is_numeral 10 (CHR ''1'' # replicate e CHR ''0'')"
  "numeral_mag 10 (CHR ''1'' # replicate e CHR ''0'') = 10 ^ e"
  "numeral_value 10 (CHR ''1'' # replicate e CHR ''0'') = 10 ^ e"
  by (simp_all add: is_numeral_def numeral_mag_def numeral_value_def numeral_text_def digits_value_Cons
    zeros_value list_all_iff)

lemma doutcome_of_outcome: "outcome u F st good bad \<Longrightarrow> doutcome u F False (bigdecimal_from_bigint_status st) good bad"
  by (cases st) (auto simp: outcome_def resource_failure_def doutcome_def)

lemma set_power_of_ten_wp:
  assumes F: "F \<Longrightarrow> ten_fits (unat e) 0"
    and Q: "\<And>st v'. doutcome u F False st (holds_int v' (10 ^ unat e)) (v' = v) \<Longrightarrow> Q (st, v')"
  shows "rspec u (bigdecimal_set_power_of_ten v e) Q"
proof -
  have fits: "10 ^ unat e < LB ^ (BIGINT_MAX_LIMBS - 1)" if F
  proof -
    have "ten_limbs (unat e) \<le> BIGINT_MAX_LIMBS - 1" using F [OF that] unfolding ten_fits_def by linarith
    then have "int LB ^ ten_limbs (unat e) \<le> int LB ^ (BIGINT_MAX_LIMBS - 1)"
      by (rule power_increasing) (simp add: LB_def)
    from order.strict_trans2 [OF ten_limbs this] have "int (10 ^ unat e) < int (LB ^ (BIGINT_MAX_LIMBS - 1))"
      unfolding of_nat_power of_nat_numeral .
    then show ?thesis by (simp only: of_nat_less_iff)
  qed
  have large: "Q (BIGDECIMAL_VALUE_TOO_LARGE, v)" if "unat e > SIZE_MAX - 2"
    using that F by (intro Q) (auto simp: ten_fits_def)
  have oom: "Q (BIGDECIMAL_OUT_OF_MEMORY, v)" if "\<not> u" using that by (intro Q) simp
  have step: "rspec u (decimal_call (bigint_set_string v (CHR ''1'' # replicate (unat e) CHR ''0''))) Q"
  proof (rule decimal_call_wp, rule set_string_wp, goal_cases)
    case (1 st v')
    then have "outcome u (10 ^ unat e < LB ^ (BIGINT_MAX_LIMBS - 1)) st (holds_int v' (10 ^ unat e)) (v' = v)"
      by (simp add: ten_text result_ok_def holds_int_def)
    from doutcome_of_outcome [OF this] show ?case
      using fits by (auto intro!: Q elim: doutcome_mono)
  qed
  show ?thesis
    unfolding bigdecimal_set_power_of_ten_def
    by (intro triple_if triple_return large triple_bind [of _ "numforge_malloc _"] malloc_wp oom step) auto
qed

lemma multiply_power_of_ten_wp:
  assumes a: "holds_int a x" and r: "storage_ok r" and x: "\<bar>x\<bar> < int LB ^ i"
    and F: "F \<Longrightarrow> e = 0 \<or> ten_fits (unat e) i"
    and Q: "\<And>st r'. doutcome u F False st (holds_int r' (x * 10 ^ unat e)) True \<Longrightarrow> Q (st, r')"
  shows "rspec u (bigdecimal_multiply_power_of_ten r a e) Q"
proof (cases "e = 0")
  case True
  then show ?thesis
    unfolding bigdecimal_multiply_power_of_ten_def if_P [OF True]
    by (intro dcall_copy [OF a r] Q) (auto elim: doutcome_mono)
next
  case False
  have oom: "Q (BIGDECIMAL_OUT_OF_MEMORY, r')" if "\<not> u" for r' using that by (intro Q) simp
  have step: "rspec u (do {
      (status, ten) \<leftarrow> bigdecimal_set_power_of_ten bigint_init e;
      if status = BIGDECIMAL_OK then decimal_call (bigint_mul r a ten) else State_Monad.return (status, r)
    }) Q"
  proof (rule triple_bind, rule set_power_of_ten_wp [where F = F], goal_cases)
    case (2 st v')
    show ?case
      unfolding prod.case
    proof (rule triple_if, goal_cases)
      case 1
      then have "holds_int v' (10 ^ unat e)" using 2 by simp
      then show ?case
        by (rule dcall_mul [where F = F, OF a _ r x, of v' _ "ten_limbs (unat e)"])
          (use ten_limbs [of "unat e"] F False in \<open>auto simp: ten_fits_def intro!: Q\<close>)
    next
      case b: 2
      then show ?case using 2 by (intro triple_return Q) (auto elim: doutcome_failI)
    qed
  qed (use F False in \<open>auto simp: ten_fits_def\<close>)
  show ?thesis
    unfolding bigdecimal_multiply_power_of_ten_def if_not_P [OF False]
    by (rule triple_bind [OF create_wp]) (use step in \<open>auto intro!: triple_return oom\<close>)
qed

text \<open>Canonical form: the number does not change, and the only number for which the scale
  overflows is one that no object denotes.\<close>

lemma normalize_wp:
  assumes t: "bigint_wf (coefficient t)" "in_i64 (scale t)"
    and Q: "\<And>st t'. doutcome u True (\<not> decimal_representable (decimal_val t)) st
      (decimal_wf t' \<and> decimal_val t' = decimal_val t) True \<Longrightarrow> Q (st, t')"
  shows "rspec u (bigdecimal_normalize t) Q"
proof (cases "bigint_val (coefficient t) = 0")
  case True
  then show ?thesis
    using t by (auto simp: bigdecimal_normalize_def is_zero_iff decimal_wf_def decimal_val_def in_i64_def
      INT64_MIN_def INT64_MAX_def intro!: triple_return Q)
next
  case False
  then have nz: "\<not> bigint_is_zero (coefficient t)" using t(1) by (simp add: is_zero_iff)
  let ?V = "bigint_val (coefficient t)"
  have oom: "Q (BIGDECIMAL_OUT_OF_MEMORY, t')" if "\<not> u" for t' using that by (intro Q) simp
  show ?thesis
    unfolding bigdecimal_normalize_def if_not_P [OF nz] Let_def
  proof (rule triple_bind, rule strip_wp [OF t(1)], unfold prod.case, goal_cases)
    case (1 st c k)
    show ?case
    proof (cases "st = BIGINT_OK")
      case True
      then have c: "bigint_wf c" "bigint_val c * 10 ^ unat k = ?V" "\<not> 10 dvd bigint_val c"
        using 1 False by (auto simp: strip_ok_def)
      have k: "(10 :: rat) powi uint k = 10 ^ unat k" by (simp add: power_int_def)
      have val: "decimal_val t = of_int (bigint_val c) * 10 powi (- (scale t - uint k))"
        unfolding decimal_val_def c(2) [symmetric] by (simp add: k power_int_diff power_int_minus field_simps)
      have c0: "bigint_val c \<noteq> 0" using c(3) by auto
      show ?thesis
        using subtract_removed_wp [OF t(2), of k] True
      proof (elim disjE conjE, goal_cases)
        case 1
        then have "Q (BIGDECIMAL_OK, t\<lparr>coefficient := c, scale := scale t - uint k\<rparr>)"
          using c c0 val by (intro Q) (simp add: decimal_wf_def decimal_val_def)
        with 1 show ?case by (simp add: triple_return)
      next
        case 2
        obtain s where s: "subtract_removed k (scale t) = (False, s)" using 2 by (cases "subtract_removed k (scale t)") simp
        have "\<not> decimal_representable (decimal_val t)" unfolding val by (rule not_representable [OF c(3) 2(2)])
        with s 2(1) show ?case by (simp add: triple_return Q)
      qed
    next
      case False
      then have "st = BIGINT_OUT_OF_MEMORY \<and> \<not> u" using 1 by (auto simp: strip_ok_def)
      then show ?thesis using oom by (simp add: triple_return)
    qed
  qed
qed

lemma finish_wp:
  assumes t: "bigint_wf (coefficient t)" "in_i64 (scale t)"
    and Q: "\<And>st d'. doutcome u True (\<not> decimal_representable (decimal_val t)) st
      (decimal_wf d' \<and> decimal_val d' = decimal_val t) (d' = d) \<Longrightarrow> Q (st, d')"
  shows "rspec u (bigdecimal_finish d t) Q"
  unfolding bigdecimal_finish_def
proof (rule triple_bind, rule normalize_wp [OF t], goal_cases)
  case (1 st t')
  then show ?case
    by (auto intro!: triple_return Q simp: bigdecimal_commit_def decimal_wf_def decimal_val_def doutcome_def split: if_splits)
qed

end
