(* ===== verification/BigDecimal_Arith.thy ===== *)
theory BigDecimal_Arith
  imports BigDecimal_Base
begin

text \<open>
  Exact operations on decimals: \<^verbatim>\<open>arithmetic.c\<close>, \<^verbatim>\<open>comparison.c\<close>, and the
  sums and products of sequences in \<^verbatim>\<open>aggregation.c\<close>.

  An operation that copies one of its operands into the result returns at once when both are
  the same object. The flags \<open>ra\<close> and \<open>rb\<close> say whether the result is the first or the second
  operand, as pointers.
\<close>

section \<open>Arithmetic\<close>

definition bigdecimal_unary :: "BigDecimal \<Rightarrow> BigDecimal \<Rightarrow> bool \<Rightarrow> (BigDecimalStatus \<times> BigDecimal) rt" where
  "bigdecimal_unary result value negating = do {
     created \<leftarrow> bigdecimal_create;
     case created of
       None \<Rightarrow> State_Monad.return (BIGDECIMAL_OUT_OF_MEMORY, result)
     | Some temporary \<Rightarrow> do {
         (status, c) \<leftarrow> decimal_call (if negating then bigint_negate (coefficient temporary) (coefficient value)
            else bigint_abs (coefficient temporary) (coefficient value));
         State_Monad.return (status,
           if status = BIGDECIMAL_OK
           then bigdecimal_commit result \<lparr>coefficient = c, scale = scale value\<rparr> else result)
       }
   }"

definition bigdecimal_abs :: "BigDecimal \<Rightarrow> BigDecimal \<Rightarrow> (BigDecimalStatus \<times> BigDecimal) rt" where
  "bigdecimal_abs result value = bigdecimal_unary result value False"

definition bigdecimal_negate :: "BigDecimal \<Rightarrow> BigDecimal \<Rightarrow> (BigDecimalStatus \<times> BigDecimal) rt" where
  "bigdecimal_negate result value = bigdecimal_unary result value True"

text \<open>One operand brought from its own scale to the larger scale \<open>s\<close>.\<close>

definition align_operand :: "BigInt \<Rightarrow> int \<Rightarrow> int \<Rightarrow> (BigDecimalStatus \<times> BigInt) rt" where
  "align_operand value s own = do {
     created \<leftarrow> bigint_create;
     case created of
       None \<Rightarrow> State_Monad.return (BIGDECIMAL_OUT_OF_MEMORY, value)
     | Some scaled \<Rightarrow>
         (case bigdecimal_scale_difference s own 0 of (status, difference) \<Rightarrow>
            if status = BIGDECIMAL_OK then bigdecimal_multiply_power_of_ten scaled value difference
            else State_Monad.return (status, value))
   }"

definition bigdecimal_add_or_subtract ::
  "bool \<Rightarrow> bool \<Rightarrow> BigDecimal \<Rightarrow> BigDecimal \<Rightarrow> BigDecimal \<Rightarrow> bool \<Rightarrow> (BigDecimalStatus \<times> BigDecimal) rt" where
  "bigdecimal_add_or_subtract ra rb result a b subtracting =
    (let s = (if scale a \<ge> scale b then scale a else scale b)
     in if bigint_is_zero (coefficient a) then
          if subtracting then bigdecimal_negate result b else bigdecimal_copy rb result b
        else if bigint_is_zero (coefficient b) then bigdecimal_copy ra result a
        else do {
          created \<leftarrow> bigdecimal_create;
          case created of
            None \<Rightarrow> State_Monad.return (BIGDECIMAL_OUT_OF_MEMORY, result)
          | Some temporary \<Rightarrow> do {
              (status, left) \<leftarrow> (if scale a \<noteq> s then align_operand (coefficient a) s (scale a)
                 else State_Monad.return (BIGDECIMAL_OK, coefficient a));
              (status, right) \<leftarrow> (if status = BIGDECIMAL_OK \<and> scale b \<noteq> s
                 then align_operand (coefficient b) s (scale b)
                 else State_Monad.return (status, coefficient b));
              (status, c) \<leftarrow> (if status = BIGDECIMAL_OK
                 then decimal_call (if subtracting then bigint_sub (coefficient temporary) left right
                   else bigint_add (coefficient temporary) left right)
                 else State_Monad.return (status, coefficient temporary));
              if status = BIGDECIMAL_OK then bigdecimal_finish result \<lparr>coefficient = c, scale = s\<rparr>
              else State_Monad.return (status, result)
            }
        })"

definition bigdecimal_add ::
  "bool \<Rightarrow> bool \<Rightarrow> BigDecimal \<Rightarrow> BigDecimal \<Rightarrow> BigDecimal \<Rightarrow> (BigDecimalStatus \<times> BigDecimal) rt" where
  "bigdecimal_add ra rb result a b = bigdecimal_add_or_subtract ra rb result a b False"

definition bigdecimal_sub ::
  "bool \<Rightarrow> bool \<Rightarrow> BigDecimal \<Rightarrow> BigDecimal \<Rightarrow> BigDecimal \<Rightarrow> (BigDecimalStatus \<times> BigDecimal) rt" where
  "bigdecimal_sub ra rb result a b = bigdecimal_add_or_subtract ra rb result a b True"

text \<open>Two additions of scales in a row, and the three orders in which the scale of a product is
  tried.\<close>

definition add_scales :: "int \<Rightarrow> int \<Rightarrow> int \<Rightarrow> int option" where
  "add_scales x y z = (case bigdecimal_i64_add x y of None \<Rightarrow> None | Some s \<Rightarrow> bigdecimal_i64_add s z)"

definition product_scale :: "int \<Rightarrow> int \<Rightarrow> int \<Rightarrow> int option" where
  "product_scale a adjustment b =
    (case add_scales a adjustment b of Some s \<Rightarrow> Some s
     | None \<Rightarrow> (case add_scales b adjustment a of Some s \<Rightarrow> Some s
     | None \<Rightarrow> add_scales a b adjustment))"

definition bigdecimal_mul :: "BigDecimal \<Rightarrow> BigDecimal \<Rightarrow> BigDecimal \<Rightarrow> (BigDecimalStatus \<times> BigDecimal) rt" where
  "bigdecimal_mul result a b = do {
     created \<leftarrow> bigdecimal_create;
     case created of
       None \<Rightarrow> State_Monad.return (BIGDECIMAL_OUT_OF_MEMORY, result)
     | Some temporary \<Rightarrow> do {
         (status, c) \<leftarrow> decimal_call (bigint_mul (coefficient temporary) (coefficient a) (coefficient b));
         if status \<noteq> BIGDECIMAL_OK then State_Monad.return (status, result)
         else do {
           (status, temporary) \<leftarrow> bigdecimal_normalize (temporary\<lparr>coefficient := c\<rparr>);
           if status \<noteq> BIGDECIMAL_OK then State_Monad.return (status, result)
           else if bigint_is_zero (coefficient temporary)
           then State_Monad.return (BIGDECIMAL_OK, bigdecimal_commit result temporary)
           else State_Monad.return
             (case product_scale (scale a) (scale temporary) (scale b) of
                None \<Rightarrow> (BIGDECIMAL_SCALE_OVERFLOW, result)
              | Some s \<Rightarrow> (BIGDECIMAL_OK, bigdecimal_commit result (temporary\<lparr>scale := s\<rparr>)))
         }
       }
   }"

section \<open>Comparison and inspection\<close>

text \<open>\<open>n\<close> positions from \<open>index\<close>; a digit beyond the end of a text counts as zero.\<close>

primrec compare_digits :: "nat \<Rightarrow> nat \<Rightarrow> string \<Rightarrow> string \<Rightarrow> int" where
  "compare_digits 0 index a_digits b_digits = 0"
| "compare_digits (Suc n) index a_digits b_digits =
    (let a_digit = (if index < length a_digits then a_digits ! index else CHR ''0'');
         b_digit = (if index < length b_digits then b_digits ! index else CHR ''0'')
     in if a_digit \<noteq> b_digit then if a_digit < b_digit then - 1 else 1
        else compare_digits n (Suc index) a_digits b_digits)"

definition bigdecimal_compare :: "int \<Rightarrow> BigDecimal \<Rightarrow> BigDecimal \<Rightarrow> (BigDecimalStatus \<times> int) rt" where
  "bigdecimal_compare comparison a b =
    (let a_negative = bigint_is_negative (coefficient a); b_negative = bigint_is_negative (coefficient b)
     in if a_negative \<noteq> b_negative then State_Monad.return (BIGDECIMAL_OK, if a_negative then - 1 else 1)
        else if bigint_is_zero (coefficient a) \<or> bigint_is_zero (coefficient b)
        then State_Monad.return (BIGDECIMAL_OK,
          if bigint_is_zero (coefficient a) \<and> bigint_is_zero (coefficient b) then 0
          else if bigint_is_zero (coefficient a) then - 1 else 1)
        else if scale a = scale b then do {
          go \<leftarrow> numforge_budget_check;
          State_Monad.return (if \<not> go then (BIGDECIMAL_OUT_OF_MEMORY, comparison)
            else (BIGDECIMAL_OK, bigint_compare (coefficient a) (coefficient b)))
        }
        else do {
          a_text \<leftarrow> bigint_to_string (coefficient a);
          b_text \<leftarrow> bigint_to_string (coefficient b);
          case (a_text, b_text) of
            (Some a_text, Some b_text) \<Rightarrow>
              (let a_digits = drop (if a_negative then 1 else 0) a_text;
                   b_digits = drop (if b_negative then 1 else 0) b_text;
                   a_length = length a_digits; b_length = length b_digits;
                   magnitude_comparison = bigdecimal_compare_exponents
                     (bigdecimal_decimal_exponent a_length (scale a)) (bigdecimal_decimal_exponent b_length (scale b));
                   magnitude_comparison = (if magnitude_comparison = 0
                     then compare_digits (if a_length > b_length then a_length else b_length) 0 a_digits b_digits
                     else magnitude_comparison)
               in State_Monad.return (BIGDECIMAL_OK,
                    if a_negative then - magnitude_comparison else magnitude_comparison))
          | _ \<Rightarrow> State_Monad.return (BIGDECIMAL_OUT_OF_MEMORY, comparison)
        })"

definition bigdecimal_is_zero :: "BigDecimal \<Rightarrow> bool" where
  "bigdecimal_is_zero value = bigint_is_zero (coefficient value)"

definition bigdecimal_is_negative :: "BigDecimal \<Rightarrow> bool" where
  "bigdecimal_is_negative value = bigint_is_negative (coefficient value)"

section \<open>Sequences\<close>

text \<open>The accumulator is the result and the first operand of every step.\<close>

primrec aggregate_loop :: "BigDecimal list \<Rightarrow> bool \<Rightarrow> BigDecimal \<Rightarrow> (BigDecimalStatus \<times> BigDecimal) rt" where
  "aggregate_loop [] multiplying accumulator = State_Monad.return (BIGDECIMAL_OK, accumulator)"
| "aggregate_loop (v # values) multiplying accumulator = do {
     (status, accumulator) \<leftarrow> (if multiplying then bigdecimal_mul accumulator accumulator v
        else bigdecimal_add True False accumulator accumulator v);
     if status = BIGDECIMAL_OK then aggregate_loop values multiplying accumulator
     else State_Monad.return (status, accumulator)
   }"

definition bigdecimal_validate_sequence :: "BigDecimal list \<Rightarrow> BigDecimalStatus" where
  "bigdecimal_validate_sequence values = (if length values = 0 then BIGDECIMAL_INVALID_ARGUMENT else BIGDECIMAL_OK)"

definition bigdecimal_aggregate :: "BigDecimal \<Rightarrow> BigDecimal list \<Rightarrow> bool \<Rightarrow> (BigDecimalStatus \<times> BigDecimal) rt" where
  "bigdecimal_aggregate result values multiplying =
    (if bigdecimal_validate_sequence values \<noteq> BIGDECIMAL_OK
     then State_Monad.return (bigdecimal_validate_sequence values, result)
     else do {
       created \<leftarrow> bigdecimal_create;
       case created of
         None \<Rightarrow> State_Monad.return (BIGDECIMAL_OUT_OF_MEMORY, result)
       | Some accumulator \<Rightarrow> do {
           (status, accumulator) \<leftarrow> bigdecimal_copy False accumulator (values ! 0);
           (status, accumulator) \<leftarrow> (if status = BIGDECIMAL_OK
              then aggregate_loop (drop 1 values) multiplying accumulator
              else State_Monad.return (status, accumulator));
           if status = BIGDECIMAL_OK then bigdecimal_copy False result accumulator
           else State_Monad.return (status, result)
         }
     })"

definition bigdecimal_sum :: "BigDecimal \<Rightarrow> BigDecimal list \<Rightarrow> (BigDecimalStatus \<times> BigDecimal) rt" where
  "bigdecimal_sum result values = bigdecimal_aggregate result values False"

definition bigdecimal_product :: "BigDecimal \<Rightarrow> BigDecimal list \<Rightarrow> (BigDecimalStatus \<times> BigDecimal) rt" where
  "bigdecimal_product result values = bigdecimal_aggregate result values True"

section \<open>Sums and products are exact\<close>

lemma commit_simps [simp]:
  "coefficient (bigdecimal_commit r t) = coefficient t" "scale (bigdecimal_commit r t) = scale t"
  "decimal_wf (bigdecimal_commit r t) \<longleftrightarrow> decimal_wf t" "decimal_val (bigdecimal_commit r t) = decimal_val t"
  by (simp_all add: bigdecimal_commit_def decimal_wf_def decimal_val_def)

lemma decimal_create_bind:
  assumes "\<not> u \<Longrightarrow> rspec u (f None) Q" "rspec u (f (Some \<lparr>coefficient = bigint_init, scale = 0\<rparr>)) Q"
  shows "rspec u (State_Monad.bind bigdecimal_create f) Q"
  by (rule triple_bind [OF decimal_create_wp]) (use assms in auto)

lemma dcall_sum:
  assumes a: "holds_int a x" and b: "holds_int b y" and r: "storage_ok r"
    and "\<bar>x\<bar> < int LB ^ i" "\<bar>y\<bar> < int LB ^ j" "F \<Longrightarrow> Suc (max i j) \<le> BIGINT_MAX_LIMBS"
    and Q: "\<And>st r'. doutcome u F False st (holds_int r' (if subtracting then x - y else x + y)) True \<Longrightarrow> Q (st, r')"
  shows "rspec u (decimal_call (if subtracting then bigint_sub r a b else bigint_add r a b)) Q"
  by (rule decimal_via, rule call_sum_fits [OF a b r assms(4-6)]) (auto intro!: Q routcome_decimal)

lemma decimal_val_0_iff: "decimal_val d = 0 \<longleftrightarrow> bigint_val (coefficient d) = 0"
  by (auto simp: decimal_val_def power_int_eq_0_iff)

lemma powi_pos [simp]: "0 < (10 :: rat) powi e" "\<not> (10 :: rat) powi e < 0" "0 \<le> (10 :: rat) powi e"
  using zero_less_power_int [of "10 :: rat" e] by (simp_all add: not_less)

lemma decimal_val_neg_iff: "decimal_val d < 0 \<longleftrightarrow> bigint_val (coefficient d) < 0"
  by (simp add: decimal_val_def mult_less_0_iff)

lemma decimal_unary_wp:
  assumes v: "decimal_wf v"
    and Q: "\<And>st r'. doutcome u True False st
      (decimal_wf r' \<and> decimal_val r' = (if negating then - decimal_val v else \<bar>decimal_val v\<bar>) \<and> scale r' = scale v) (r' = r) \<Longrightarrow>
      Q (st, r')"
  shows "rspec u (bigdecimal_unary r v negating) Q"
proof -
  let ?x = "bigint_val (coefficient v)"
  have oom: "Q (BIGDECIMAL_OUT_OF_MEMORY, r)" if "\<not> u" using that by (intro Q) simp
  have done': "Q (st, if st = BIGDECIMAL_OK then bigdecimal_commit r \<lparr>coefficient = c, scale = scale v\<rparr> else r)"
    if "doutcome u True False st (holds_int c (if negating then - ?x else \<bar>?x\<bar>)) True" for st c
  proof (cases "st = BIGDECIMAL_OK")
    case True
    then have "holds_int c (if negating then - ?x else \<bar>?x\<bar>)" using that by simp
    then have "decimal_wf \<lparr>coefficient = c, scale = scale v\<rparr> \<and>
       decimal_val \<lparr>coefficient = c, scale = scale v\<rparr> = (if negating then - decimal_val v else \<bar>decimal_val v\<bar>)"
      using v by (auto simp: decimal_wf_def holds_int_def decimal_val_def abs_mult simp del: abs_bigint_val split: if_splits)
    with True show ?thesis by (auto simp: bigdecimal_commit_def decimal_wf_def decimal_val_def intro!: Q)
  next
    case False
    then show ?thesis using that by (auto intro!: Q elim: doutcome_failI)
  qed
  have step: "rspec u (do {
      (status, c) \<leftarrow> decimal_call (if negating then bigint_negate bigint_init (coefficient v) else bigint_abs bigint_init (coefficient v));
      State_Monad.return (status,
        if status = BIGDECIMAL_OK then bigdecimal_commit r \<lparr>coefficient = c, scale = scale v\<rparr> else r)
    }) Q"
    using done' decimal_wfD(1) [OF v]
    by (cases negating) (auto intro!: triple_bind [of _ "decimal_call _"] dcall_negate dcall_abs triple_return simp del: split_paired_All)
  show ?thesis
    unfolding bigdecimal_unary_def
    by (rule triple_bind [OF decimal_create_wp]) (use step in \<open>auto intro!: triple_return oom\<close>)
qed

lemma ten_fits_mono: "ten_fits e n \<Longrightarrow> e' \<le> e \<Longrightarrow> n' \<le> n \<Longrightarrow> ten_fits e' n'"
  using div_le_mono [of e' e 19] by (auto simp: ten_fits_def ten_limbs_def)

lemma align_val:
  fixes x :: int
  assumes "e \<le> s"
  shows "(of_int (x * 10 ^ nat (s - e)) :: rat) * 10 powi (- s) = of_int x * 10 powi (- e)"
  using powi_nat [of "s - e"] powi_split [of "s - e" "- s"] assms by simp

lemma align_operand_wp:
  assumes v: "holds_int v x" "\<bar>x\<bar> < int LB ^ i" and s: "in_i64 s" "in_i64 e" "e \<le> s"
    and F: "F \<Longrightarrow> ten_fits (nat (s - e)) i"
    and Q: "\<And>st r'. doutcome u F False st (holds_int r' (x * 10 ^ nat (s - e))) True \<Longrightarrow> Q (st, r')"
  shows "rspec u (align_operand v s e) Q"
proof -
  note d = scale_difference(1) [OF s, of 0] scale_difference(2) [OF s]
  have oom: "Q (BIGDECIMAL_OUT_OF_MEMORY, v)" if "\<not> u" using that by (intro Q) simp
  have step: "rspec u (bigdecimal_multiply_power_of_ten bigint_init v (of_int (s - e))) Q"
    by (rule multiply_power_of_ten_wp [where F = F, OF v(1) storage_ok_init v(2)]) (use F Q d(2) in auto)
  show ?thesis
    unfolding align_operand_def d(1) prod.case
    by (rule triple_bind [OF create_wp]) (use step in \<open>auto intro!: triple_return oom\<close>)
qed

lemma aligned_wp:
  assumes v: "holds_int v x" "\<bar>x\<bar> < int LB ^ i" and s: "in_i64 s" "in_i64 e" "e \<le> s"
    and F: "F \<Longrightarrow> ten_fits (nat (s - e)) i"
    and Q: "\<And>st r'. doutcome u F False st (holds_int r' (x * 10 ^ nat (s - e))) True \<Longrightarrow> Q (st, r')"
  shows "rspec u (if e \<noteq> s then align_operand v s e else State_Monad.return (BIGDECIMAL_OK, v)) Q"
  using v(1) by (intro triple_if align_operand_wp [OF v s, where F = F] triple_return Q F) auto

lemma add_or_subtract_wp:
  assumes a: "decimal_wf a" and b: "decimal_wf b" and same: "ra \<Longrightarrow> r = a" "rb \<Longrightarrow> r = b"
    and Q: "\<And>st r'. doutcome u (ten_fits (nat \<bar>scale a - scale b\<bar>) (bsize (coefficient a) + bsize (coefficient b) + 1))
      (\<not> decimal_representable (if subtracting then decimal_val a - decimal_val b else decimal_val a + decimal_val b)) st
      (decimal_wf r' \<and> decimal_val r' = (if subtracting then decimal_val a - decimal_val b else decimal_val a + decimal_val b))
      (r' = r) \<Longrightarrow> Q (st, r')"
  shows "rspec u (bigdecimal_add_or_subtract ra rb r a b subtracting) Q"
proof -
  define x y where vals: "x = bigint_val (coefficient a)" "y = bigint_val (coefficient b)"
  define i j d where sizes: "i = bsize (coefficient a)" "j = bsize (coefficient b)" "d = nat \<bar>scale a - scale b\<bar>"
  let ?v = "if subtracting then decimal_val a - decimal_val b else decimal_val a + decimal_val b"
  let ?F = "ten_fits d (i + j + 1)" and ?ov = "\<not> decimal_representable ?v"
  let ?s = "if scale a \<ge> scale b then scale a else scale b"
  have Q': "Q (st, r')" if "doutcome u ?F ?ov st (decimal_wf r' \<and> decimal_val r' = ?v) (r' = r)" for st r'
    using that unfolding sizes by (rule Q)
  have oom: "Q (BIGDECIMAL_OUT_OF_MEMORY, r)" if "\<not> u" using that by (intro Q') simp
  have fail: "Q (st, r)" if "doutcome u ?F False st good bad" "st \<noteq> BIGDECIMAL_OK" for st good bad
    using that by (intro Q') (auto elim: doutcome_failI)
  note ad = decimal_wfD [OF a] and bd = decimal_wfD [OF b]
  note bounds = bigint_val_size [of "coefficient a", folded vals sizes] bigint_val_size [of "coefficient b", folded vals sizes]
  have s64: "in_i64 ?s" using ad(2) bd(2) by simp
  have eD: "nat (?s - scale a) \<le> d" "nat (?s - scale b) \<le> d" by (auto simp: sizes)
  have FF: "ten_fits (nat (?s - scale a)) i" "ten_fits (nat (?s - scale b)) j" if ?F
    by (rule ten_fits_mono [OF that eD(1)], simp, rule ten_fits_mono [OF that eD(2)], simp)
  define L where "L = x * 10 ^ nat (?s - scale a)"
  define R where "R = y * 10 ^ nat (?s - scale b)"
  have grow: "\<bar>z * 10 ^ n\<bar> < int LB ^ (k + ten_limbs d)" if "\<bar>z\<bar> < int LB ^ k" "n \<le> d" for z n k
  proof -
    have "ten_limbs n \<le> ten_limbs d" using that(2) by (simp add: ten_limbs_def div_le_mono)
    then show ?thesis using size_mult [OF that(1), of "10 ^ n" "ten_limbs n"] ten_limbs [of n] size_mono by auto
  qed
  have bL: "\<bar>L\<bar> < int LB ^ (i + ten_limbs d)" and bR: "\<bar>R\<bar> < int LB ^ (j + ten_limbs d)"
    unfolding L_def R_def using grow bounds by (auto simp: sizes)
  have oom: "Q (BIGDECIMAL_OUT_OF_MEMORY, r)" if "\<not> u" using that by (intro Q') simp
  have left: "rspec u (if scale a \<noteq> ?s then align_operand (coefficient a) ?s (scale a)
      else State_Monad.return (BIGDECIMAL_OK, coefficient a)) P"
    if "\<And>st c. doutcome u ?F False st (holds_int c L) True \<Longrightarrow> P (st, c)" for P
    by (rule aligned_wp [where F = ?F, OF ad(1) [folded vals] bounds(1) s64 ad(2) _ FF(1)], simp, assumption,
      rule that, simp only: L_def)
  have right: "rspec u (if st = BIGDECIMAL_OK \<and> scale b \<noteq> ?s then align_operand (coefficient b) ?s (scale b)
      else State_Monad.return (st, coefficient b)) P"
    if "\<And>st' c. doutcome u ?F False st' (st = BIGDECIMAL_OK \<and> holds_int c R) True \<Longrightarrow> P (st', c)"
      "doutcome u ?F False st good True" for P st good
  proof (cases "st = BIGDECIMAL_OK")
    case True
    have "rspec u (if scale b \<noteq> ?s then align_operand (coefficient b) ?s (scale b)
      else State_Monad.return (BIGDECIMAL_OK, coefficient b)) P"
      by (rule aligned_wp [where F = ?F, OF bd(1) [folded vals] bounds(2) s64 bd(2) _ FF(2)], simp, assumption,
        rule that(1), simp only: R_def True simp_thms)
    with True show ?thesis by (simp only: simp_thms)
  next
    case False
    then show ?thesis using that by (auto intro!: triple_return that(1) elim: doutcome_failI)
  qed
  have last: "rspec u (if st = BIGDECIMAL_OK then bigdecimal_finish r \<lparr>coefficient = c, scale = ?s\<rparr>
      else State_Monad.return (st, r)) Q"
    if "doutcome u ?F False st (holds_int c (if subtracting then L - R else L + R)) True" for st c
  proof (rule triple_if)
    assume "st = BIGDECIMAL_OK"
    with that have c: "holds_int c (if subtracting then L - R else L + R)" by simp
    have "decimal_val \<lparr>coefficient = c, scale = ?s\<rparr> = ?v"
      using holds_intD(2) [OF c] align_val [of "scale a" ?s x] align_val [of "scale b" ?s y]
      by (auto simp: decimal_val_def vals L_def R_def algebra_simps)
    then show "rspec u (bigdecimal_finish r \<lparr>coefficient = c, scale = ?s\<rparr>) Q"
      using holds_intD(1) [OF c] s64 by (intro finish_wp) (auto intro!: Q' elim: doutcome_mono)
  next
    assume "st \<noteq> BIGDECIMAL_OK"
    then show "rspec u (State_Monad.return (st, r)) Q" by (intro triple_return fail [OF that])
  qed
  have main: "rspec u (do {
      (status, left) \<leftarrow> (if scale a \<noteq> ?s then align_operand (coefficient a) ?s (scale a)
         else State_Monad.return (BIGDECIMAL_OK, coefficient a));
      (status, right) \<leftarrow> (if status = BIGDECIMAL_OK \<and> scale b \<noteq> ?s
         then align_operand (coefficient b) ?s (scale b)
         else State_Monad.return (status, coefficient b));
      (status, c) \<leftarrow> (if status = BIGDECIMAL_OK
         then decimal_call (if subtracting then bigint_sub bigint_init left right else bigint_add bigint_init left right)
         else State_Monad.return (status, bigint_init));
      if status = BIGDECIMAL_OK then bigdecimal_finish r \<lparr>coefficient = c, scale = ?s\<rparr>
      else State_Monad.return (status, r)
    }) Q"
  proof (rule triple_bind, rule left, rule triple_case_pair, goal_cases)
    case one: (1 st1 l)
    show ?case
    proof (rule triple_bind, rule right, rule triple_case_pair)
      show "doutcome u ?F False st1 (holds_int l L) True" by (rule one)
      fix st2 rr
      assume two: "doutcome u ?F False st2 (st1 = BIGDECIMAL_OK \<and> holds_int rr R) True"
      show "rspec u (do {
          (status, c) \<leftarrow> (if st2 = BIGDECIMAL_OK
             then decimal_call (if subtracting then bigint_sub bigint_init l rr else bigint_add bigint_init l rr)
             else State_Monad.return (st2, bigint_init));
          if status = BIGDECIMAL_OK then bigdecimal_finish r \<lparr>coefficient = c, scale = ?s\<rparr>
          else State_Monad.return (status, r)
        }) Q"
      proof (rule decimal_chain)
        assume ok: "st2 = BIGDECIMAL_OK"
        with one two have "holds_int l L" "holds_int rr R" by simp_all
        from dcall_sum [OF this storage_ok_init bL bR, where F = ?F and u = u and subtracting = subtracting]
        show "rspec u (do {
            (status, c) \<leftarrow> decimal_call (if subtracting then bigint_sub bigint_init l rr else bigint_add bigint_init l rr);
            if status = BIGDECIMAL_OK then bigdecimal_finish r \<lparr>coefficient = c, scale = ?s\<rparr>
            else State_Monad.return (status, r)
          }) Q"
          by (rule triple_bind) (use last in \<open>auto simp: ten_fits_def\<close>)
      next
        assume "st2 \<noteq> BIGDECIMAL_OK"
        then show "rspec u (case (st2, bigint_init) of (status, c) \<Rightarrow>
            if status = BIGDECIMAL_OK then bigdecimal_finish r \<lparr>coefficient = c, scale = ?s\<rparr>
            else State_Monad.return (status, r)) Q"
          by (simp add: triple_return fail [OF two])
      qed
    qed
  qed
  show ?thesis
  proof (cases "x = 0 \<or> y = 0")
    case True
    have z: "bigint_is_zero (coefficient a) \<longleftrightarrow> x = 0" "bigint_is_zero (coefficient b) \<longleftrightarrow> y = 0"
      using ad(3) bd(3) by (simp_all add: is_zero_iff vals)
    have zero: "decimal_val a = 0 \<longleftrightarrow> x = 0" "decimal_val b = 0 \<longleftrightarrow> y = 0" by (simp_all add: decimal_val_0_iff vals)
    show ?thesis
      unfolding bigdecimal_add_or_subtract_def Let_def z bigdecimal_negate_def
      by (intro triple_if decimal_unary_wp [OF b] decimal_copy_wp [OF a same(1)] decimal_copy_wp [OF b same(2)] Q')
        (use True zero in \<open>auto elim: doutcome_mono\<close>)
  next
    case False
    then have z: "\<not> bigint_is_zero (coefficient a)" "\<not> bigint_is_zero (coefficient b)"
      using ad(3) bd(3) by (simp_all add: is_zero_iff vals)
    show ?thesis
      unfolding bigdecimal_add_or_subtract_def Let_def if_not_P [OF z(1)] if_not_P [OF z(2)]
      by (rule decimal_create_bind, simp add: triple_return oom, unfold option.case BigDecimal.select_convs, rule main)
  qed
qed

text \<open>A canonical decimal is an integer exactly when its scale is not positive.\<close>

lemma integer_scale:
  assumes "decimal_wf d"
  shows "scale d \<le> 0 \<longleftrightarrow> decimal_val d \<in> \<int>"
proof
  assume "scale d \<le> 0"
  then show "decimal_val d \<in> \<int>" by (simp add: decimal_val_def powi_nat)
next
  assume "decimal_val d \<in> \<int>"
  then obtain v where v: "decimal_val d = of_int v" by (auto elim: Ints_cases)
  show "scale d \<le> 0"
  proof (rule ccontr)
    assume "\<not> scale d \<le> 0"
    then obtain n where n: "scale d = int (Suc n)" by (metis linorder_not_le zero_less_imp_eq_int Suc_pred)
    have "of_int (bigint_val (coefficient d)) = decimal_val d * 10 powi scale d"
      by (simp add: decimal_val_def flip: power_int_add)
    also have "\<dots> = of_int (v * 10 ^ Suc n)" unfolding v n power_int_of_nat by simp
    finally have "bigint_val (coefficient d) = v * 10 ^ Suc n" by (simp only: of_int_eq_iff)
    then have "10 dvd bigint_val (coefficient d)" by simp
    moreover have "scale d \<noteq> 0" using n by simp
    ultimately show False using assms by (simp add: decimal_wf_def split: if_splits)
  qed
qed

text \<open>Every integer an object holds is representable.\<close>

lemma integer_representable:
  assumes "bigint_wf c"
  shows "decimal_representable (of_int (bigint_val c))"
proof -
  have "rspec (unlimited idle_runtime) (bigint_strip_decimal_zeros c 0) (\<lambda>(st, w, k). strip_ok True (bigint_val c) st w k)"
    by (rule strip_wp [OF assms]) auto
  from rspec_run3 [OF this] have "\<exists>st w k. strip_ok True (bigint_val c) st w k" by (auto split: prod.splits)
  then obtain st w k where "strip_ok True (bigint_val c) st w k" by blast
  then have w: "bigint_wf w" "bigint_val w * 10 ^ unat k = bigint_val c"
      "if bigint_val c = 0 then k = 0 else \<not> 10 dvd bigint_val w"
    by (auto simp: strip_ok_def)
  show ?thesis
  proof (cases "bigint_val c = 0")
    case True
    then show ?thesis
      using assms by (intro exI [of _ "\<lparr>coefficient = c, scale = 0\<rparr>"] iffD2 [OF decimal_representable_def])
        (auto simp: decimal_wf_def decimal_val_def in_i64_def INT64_MIN_def INT64_MAX_def)
  next
    case False
    have "nat \<bar>bigint_val c\<bar> = bigint_mag w * 10 ^ unat k"
      unfolding w(2) [symmetric] by (simp add: abs_mult nat_mult_distrib nat_power_eq)
    moreover have "bigint_mag w \<noteq> 0" using False w(2) by (auto simp: val_0_mag [symmetric])
    ultimately have "10 ^ unat k \<le> nat \<bar>bigint_val c\<bar>" by simp
    also have "\<dots> < 2 ^ (64 * bsize c)" using mag_less [of "limbs c"] by (simp add: LB_def power_mult)
    finally have "8 ^ unat k < (2 :: nat) ^ (64 * bsize c)" using power_mono [of 8 "10 :: nat" "unat k"] by linarith
    moreover have "(8 :: nat) ^ unat k = 2 ^ (3 * unat k)" by (simp add: power_mult)
    ultimately have "(2 :: nat) ^ (3 * unat k) < 2 ^ (64 * bsize c)" by (simp only:)
    then have "3 * unat k < 64 * bsize c" by (rule power_less_imp_less_exp [rotated]) simp
    moreover have "64 * bsize c < 2 ^ 64" using assms by (simp add: bigint_wf_def BIGINT_MAX_LIMBS_def SIZE_MAX_def)
    ultimately have "unat k < 2 ^ 63" by simp
    moreover have "in_i64 (- int n)" if "n < 2 ^ 63" for n
      using that by (simp add: in_i64_def INT64_MIN_def INT64_MAX_def)
    ultimately have "in_i64 (- int (unat k))" by blast
    then have "decimal_wf \<lparr>coefficient = w, scale = - int (unat k)\<rparr>" using w False by (auto simp: decimal_wf_def)
    moreover have "decimal_val \<lparr>coefficient = w, scale = - int (unat k)\<rparr> = of_int (bigint_val c)"
      unfolding w(2) [symmetric] by (simp add: decimal_val_def power_int_def del: unsigned_of_nat)
    ultimately show ?thesis by (auto simp: decimal_representable_def)
  qed
qed

lemma product_scale_iff:
  assumes "in_i64 a" "in_i64 b" "in_i64 e" "e \<le> 0"
  shows "product_scale a e b = (if in_i64 (a + e + b) then Some (a + e + b) else None)"
  using assms
  by (auto simp: product_scale_def add_scales_def i64_add_iff split: option.splits if_splits)
    (auto simp: in_i64_def bigdecimal_i64_add_def INT64_MIN_def INT64_MAX_def split: if_splits)

lemma decimal_mul_wp:
  assumes a: "decimal_wf a" and b: "decimal_wf b"
    and Q: "\<And>st r'. doutcome u (bsize (coefficient a) + bsize (coefficient b) \<le> BIGINT_MAX_LIMBS)
      (\<not> decimal_representable (decimal_val a * decimal_val b)) st
      (decimal_wf r' \<and> decimal_val r' = decimal_val a * decimal_val b) (r' = r) \<Longrightarrow> Q (st, r')"
  shows "rspec u (bigdecimal_mul r a b) Q"
proof -
  let ?F = "bsize (coefficient a) + bsize (coefficient b) \<le> BIGINT_MAX_LIMBS"
  let ?v = "decimal_val a * decimal_val b" and ?x = "bigint_val (coefficient a)" and ?y = "bigint_val (coefficient b)"
  note ad = decimal_wfD [OF a] and bd = decimal_wfD [OF b]
  have oom: "Q (BIGDECIMAL_OUT_OF_MEMORY, r)" if "\<not> u" using that by (intro Q) simp
  have fail: "Q (st, r)" if "doutcome u F' False st good bad" "st \<noteq> BIGDECIMAL_OK" "?F \<Longrightarrow> F'" for st good bad F'
    using that by (intro Q) (auto elim: doutcome_failI)
  have step: "rspec u (do {
      (status, t) \<leftarrow> bigdecimal_normalize \<lparr>coefficient = c, scale = 0\<rparr>;
      if status \<noteq> BIGDECIMAL_OK then State_Monad.return (status, r)
      else if bigint_is_zero (coefficient t) then State_Monad.return (BIGDECIMAL_OK, bigdecimal_commit r t)
      else State_Monad.return
        (case product_scale (scale a) (scale t) (scale b) of
           None \<Rightarrow> (BIGDECIMAL_SCALE_OVERFLOW, r)
         | Some s \<Rightarrow> (BIGDECIMAL_OK, bigdecimal_commit r (t\<lparr>scale := s\<rparr>)))
    }) Q" if c: "holds_int c (?x * ?y)" for c
  proof (rule triple_bind, rule normalize_wp, goal_cases)
    case (3 st t)
    have v: "decimal_val \<lparr>coefficient = c, scale = 0\<rparr> = of_int (bigint_val c)" by (simp add: decimal_val_def)
    have o: "doutcome u True False st (decimal_wf t \<and> decimal_val t = of_int (?x * ?y)) True"
      using 3 integer_representable [OF holds_intD(1) [OF c]] holds_intD(2) [OF c] unfolding v by (auto elim: doutcome_mono)
    show ?case
      unfolding prod.case
    proof (intro triple_if triple_return, goal_cases)
      case 1
      then show ?case by (intro fail [OF o]) simp_all
    next
      case 2
      then have t: "decimal_wf t" "decimal_val t = of_int (?x * ?y)" using o by simp_all
      have zt: "decimal_val t = 0" using 2 decimal_wfD(3) [OF t(1)] by (simp add: decimal_val_0_iff is_zero_iff)
      then have "?x * ?y = 0" using t(2) by (simp only: of_int_eq_0_iff)
      then have "?v = 0" by (auto simp: decimal_val_def)
      with t(1) zt show ?case by (intro Q) simp
    next
      case 3
      then have t: "decimal_wf t" "decimal_val t = of_int (?x * ?y)" using o by simp_all
      then have nz: "bigint_val (coefficient t) \<noteq> 0" using 3 by (simp add: is_zero_iff decimal_wf_def)
      then have nd: "\<not> 10 dvd bigint_val (coefficient t)" using t(1) by (simp add: decimal_wf_def)
      have "scale t \<le> 0" using integer_scale [OF t(1)] t(2) by simp
      note ps = product_scale_iff [OF ad(2) bd(2) decimal_wfD(2) [OF t(1)] this]
      let ?e = "scale a + scale t + scale b"
      have val: "?v = of_int (bigint_val (coefficient t)) * 10 powi (- ?e)"
      proof -
        have "?v = of_int (?x * ?y) * (10 powi (- scale a) * 10 powi (- scale b))" by (simp add: decimal_val_def)
        also have "of_int (?x * ?y) = of_int (bigint_val (coefficient t)) * (10 :: rat) powi (- scale t)"
          using t(2) by (simp add: decimal_val_def)
        finally have v: "?v = of_int (bigint_val (coefficient t)) * 10 powi (- scale t) * (10 powi (- scale a) * 10 powi (- scale b))" .
        have e: "- ?e = - scale t + (- scale a + - scale b)" by simp
        show ?thesis unfolding v e powi_split by (simp only: mult.assoc)
      qed
      show ?case
      proof (cases "in_i64 ?e")
        case True
        then have "decimal_wf (t\<lparr>scale := ?e\<rparr>)" using t(1) nz by (simp add: decimal_wf_def)
        with True val show ?thesis unfolding ps
          by (auto simp: bigdecimal_commit_def decimal_wf_def decimal_val_def intro!: Q)
      next
        case False
        have "\<not> decimal_representable ?v" unfolding val by (rule not_representable [OF nd False])
        with False show ?thesis unfolding ps by (simp add: Q)
      qed
    qed
  qed (use holds_intD(1) [OF c] in \<open>simp_all add: in_i64_def INT64_MIN_def INT64_MAX_def\<close>)
  show ?thesis
    unfolding bigdecimal_mul_def
  proof (rule decimal_create_bind, simp add: triple_return oom, unfold option.case BigDecimal.select_convs BigDecimal.update_convs,
      rule triple_bind, rule dcall_mul [where F = ?F, OF ad(1) bd(1) storage_ok_init bigint_val_size bigint_val_size], assumption,
      unfold prod.case, rule triple_if, goal_cases)
    case (1 st c)
    show ?case by (intro triple_return fail [OF 1]) simp
  next
    case (2 st c)
    then show ?case by (intro step) simp
  qed
qed

section \<open>Comparison decides the order\<close>

lemma digit_count_bounds:
  assumes "n \<noteq> 0"
  shows "10 ^ (length (numeral_digits 10 n) - 1) \<le> n" "n < 10 ^ length (numeral_digits 10 n)"
proof -
  let ?ds = "numeral_digits 10 n"
  obtain d ds where ds: "?ds = d # ds" using numeral_digits_not_Nil by (cases ?ds) auto
  have "d \<noteq> 0" using numeral_digits_hd [of 10 n] assms ds by simp
  then have le: "1 * 10 ^ length ds \<le> d * 10 ^ length ds" by (intro mult_le_mono1) simp
  have n: "d * 10 ^ length ds + digits_value 10 ds = n"
    using numeral_digits_value [of 10 n] by (simp add: ds digits_value_Cons)
  have l: "length ?ds - 1 = length ds" by (simp add: ds)
  show "10 ^ (length ?ds - 1) \<le> n" using trans_le_add1 [OF le, of "digits_value 10 ds"] unfolding n l by simp
  show "n < 10 ^ length ?ds"
    using digits_value_less [of ?ds 10] numeral_digits_value [of 10 n] numeral_digits_less [of 10 _ n] by simp
qed

lemma digit_char:
  assumes "d < 10"
  shows "of_char (base_alphabet p ! d) = (48 + d :: nat)"
proof -
  have "d \<in> {0, 1, 2, 3, 4, 5, 6, 7, 8, 9}" using assms by auto
  then show ?thesis by (auto simp: base_alphabet_def)
qed

lemma digit_char_order:
  assumes "d < 10" "e < 10"
  shows "base_alphabet p ! d = base_alphabet p ! e \<longleftrightarrow> d = e" "base_alphabet p ! d < base_alphabet p ! e \<longleftrightarrow> d < e"
  using digit_char [OF assms(1), of p] digit_char [OF assms(2), of p]
  by (metis add_left_cancel, simp add: less_char_def)

lemma sgn_diff_nat: "sgn (int a - int b) = (if a < b then - 1 else if a = b then 0 else 1)"
  by (simp add: sgn_if)

lemma digit_order:
  fixes d e x y K :: nat
  assumes "x < K" "y < K"
  shows "(if d \<noteq> e then if d < e then - 1 else 1 else sgn (int x - int y)) = sgn (int (d * K + x) - int (e * K + y))"
proof -
  have big: "a * K + u < b * K + v" if "a < b" "u < K" for a b u v
  proof -
    have "(a + 1) * K \<le> b * K" using that(1) by (intro mult_le_mono1) simp
    then show ?thesis using that(2) by simp
  qed
  consider "d = e" | "d < e" | "e < d" by linarith
  then show ?thesis
    using big [of d e x y] big [of e d y x] assms by cases (simp_all add: sgn_diff_nat del: of_nat_add of_nat_mult)
qed

lemma compare_digits_correct:
  assumes ds: "\<forall>d \<in> set xs. d < 10" "\<forall>d \<in> set ys. d < 10"
  shows "length xs \<le> i + n \<Longrightarrow> length ys \<le> i + n \<Longrightarrow>
    compare_digits n i (digit_string p xs) (digit_string p ys) =
      sgn (int (digits_value 10 (drop i (xs @ replicate (i + n - length xs) 0))) -
           int (digits_value 10 (drop i (ys @ replicate (i + n - length ys) 0))))"
proof (induction n arbitrary: i)
  case 0
  then show ?case by simp
next
  case (Suc n)
  let ?pad = "\<lambda>zs. zs @ replicate (i + Suc n - length zs) (0 :: nat)"
  let ?d = "\<lambda>zs. if i < length zs then zs ! i else (0 :: nat)"
  have zero: "CHR ''0'' = base_alphabet p ! 0" by (simp add: base_alphabet_def)
  have char: "(if i < length (digit_string p zs) then digit_string p zs ! i else CHR ''0'') = base_alphabet p ! ?d zs" for zs
    by (simp add: digit_string_def zero)
  have less: "?d xs < 10" "?d ys < 10" using ds by simp_all
  have rest: "drop i (?pad zs) = ?d zs # drop (Suc i) (?pad zs)" if "length zs \<le> i + Suc n" for zs
    using that by (subst Cons_nth_drop_Suc [symmetric]) (auto simp: nth_append)
  have all: "\<forall>d \<in> set (drop (Suc i) (?pad zs)). d < 10" if "\<forall>d \<in> set zs. d < 10" for zs
    using that by (auto dest!: in_set_dropD)
  have len: "length (drop (Suc i) (?pad zs)) = n" if "length zs \<le> i + Suc n" for zs using that by simp
  let ?x = "digits_value 10 (drop (Suc i) (?pad xs))" and ?y = "digits_value 10 (drop (Suc i) (?pad ys))"
  have bounds: "?x < 10 ^ n" "?y < 10 ^ n"
    using digits_value_less [OF all [OF ds(1)]] digits_value_less [OF all [OF ds(2)]] len [OF Suc.prems(1)] len [OF Suc.prems(2)] by simp_all
  have vals: "digits_value 10 (drop i (?pad xs)) = ?d xs * 10 ^ n + ?x" "digits_value 10 (drop i (?pad ys)) = ?d ys * 10 ^ n + ?y"
    by (simp_all only: rest [OF Suc.prems(1)] rest [OF Suc.prems(2)] digits_value_Cons len [OF Suc.prems(1)] len [OF Suc.prems(2)])
  have IH: "compare_digits n (Suc i) (digit_string p xs) (digit_string p ys) = sgn (int ?x - int ?y)"
    using Suc.IH [of "Suc i"] Suc.prems by simp
  show ?case
    unfolding compare_digits.simps Let_def char digit_char_order [OF less] IH vals by (rule digit_order [OF bounds])
qed

text \<open>The number a decimal exponent stands for; its magnitude has 65 bits.\<close>

definition exponent_val :: "BigDecimalExponent \<Rightarrow> int" where
  "exponent_val x = (if exponent_negative x then - uint (exponent_magnitude x)
     else of_bool (exponent_high x) * 2 ^ 64 + uint (exponent_magnitude x))"

definition exponent_wf :: "BigDecimalExponent \<Rightarrow> bool" where
  "exponent_wf x \<longleftrightarrow> (exponent_negative x \<longrightarrow> \<not> exponent_high x \<and> exponent_magnitude x \<noteq> 0)"

lemma uint_of_int64: "uint (of_int v :: u64) = v mod 2 ^ 64"
  by (simp add: uint_word_of_int)

lemma decimal_exponent_correct:
  assumes "L < LB" "in_i64 s"
  shows "exponent_val (bigdecimal_decimal_exponent L s) = int L - s" "exponent_wf (bigdecimal_decimal_exponent L s)"
proof -
  have bounds: "int L < 2 ^ 64" "- (2 ^ 63) \<le> s" "s < 2 ^ 63"
    using assms by (simp_all add: LB_def in_i64_def INT64_MIN_def INT64_MAX_def)
  have nat: "of_nat L = (of_int (int L) :: u64)" by simp
  have less: "(of_int x :: u64) < of_int y \<longleftrightarrow> x < y" if "0 \<le> x" "x < 2 ^ 64" "0 \<le> y" "y < 2 ^ 64" for x y
    using that by (simp add: word_less_def uint_of_int64)
  have eq: "(of_int x :: u64) = of_int y \<longleftrightarrow> x = y" if "0 \<le> x" "x < 2 ^ 64" "0 \<le> y" "y < 2 ^ 64" for x y
    using that by (metis uint_of_int64 mod_pos_pos_trivial)
  consider "s \<ge> 0" "int L < s" | "s \<ge> 0" "s \<le> int L" | "s < 0" by linarith
  then show "exponent_val (bigdecimal_decimal_exponent L s) = int L - s" "exponent_wf (bigdecimal_decimal_exponent L s)"
  proof (atomize (full), cases)
    case 1
    then have "(of_nat L :: u64) < of_int s" unfolding nat using bounds by (subst less) simp_all
    moreover have "of_int s - of_nat L = (of_int (s - int L) :: u64)" by simp
    moreover have "(of_int (s - int L) :: u64) \<noteq> of_int 0" using 1 bounds by (subst eq) simp_all
    ultimately show "exponent_val (bigdecimal_decimal_exponent L s) = int L - s \<and> exponent_wf (bigdecimal_decimal_exponent L s)"
      using 1 bounds by (simp add: bigdecimal_decimal_exponent_def exponent_val_def exponent_wf_def uint_of_int64 del: of_int_diff)
  next
    case 2
    then have "\<not> (of_nat L :: u64) < of_int s" unfolding nat using bounds by (subst less) simp_all
    moreover have "of_nat L - of_int s = (of_int (int L - s) :: u64)" by simp
    ultimately show "exponent_val (bigdecimal_decimal_exponent L s) = int L - s \<and> exponent_wf (bigdecimal_decimal_exponent L s)"
      using 2 bounds by (simp add: bigdecimal_decimal_exponent_def exponent_val_def exponent_wf_def uint_of_int64 del: of_int_diff)
  next
    case 3
    have m: "UINT64_MAX - bigdecimal_abs_i64 s = of_int (2 ^ 64 - 1 + s)"
      using 3 by (simp add: abs_i64)
    have high: "(of_nat L :: u64) > UINT64_MAX - bigdecimal_abs_i64 s \<longleftrightarrow> int L - s \<ge> 2 ^ 64"
      unfolding nat m using 3 bounds by (subst less) auto
    have mag: "of_nat L + bigdecimal_abs_i64 s = (of_int (int L - s) :: u64)" using 3 by (simp add: abs_i64)
    have "(int L - s) mod 2 ^ 64 = (if int L - s \<ge> 2 ^ 64 then int L - s - 2 ^ 64 else int L - s)"
    proof (cases "int L - s \<ge> 2 ^ 64")
      case True
      have "(int L - s) mod 2 ^ 64 = (int L - s - 2 ^ 64) mod 2 ^ 64"
        using mod_add_self2 [of "int L - s - 2 ^ 64" "2 ^ 64"] by (simp only: diff_add_cancel)
      also have "\<dots> = int L - s - 2 ^ 64" by (rule mod_pos_pos_trivial) (use True 3 bounds in simp_all)
      finally show ?thesis using True by simp
    next
      case False
      then show ?thesis using 3 by (simp add: mod_pos_pos_trivial)
    qed
    then show "exponent_val (bigdecimal_decimal_exponent L s) = int L - s \<and> exponent_wf (bigdecimal_decimal_exponent L s)"
      using 3 by (simp add: bigdecimal_decimal_exponent_def Let_def high mag exponent_val_def exponent_wf_def uint_of_int64 del: of_int_diff)
  qed
qed

lemma compare_exponents_correct:
  assumes "exponent_wf a" "exponent_wf b"
  shows "bigdecimal_compare_exponents a b = sgn (exponent_val a - exponent_val b)"
proof -
  have pos: "exponent_negative x \<Longrightarrow> exponent_wf x \<Longrightarrow> 0 < uint (exponent_magnitude x)" for x
    by (simp add: exponent_wf_def word_neq_0_conv word_less_def)
  have m: "exponent_magnitude a = exponent_magnitude b \<longleftrightarrow> uint (exponent_magnitude a) = uint (exponent_magnitude b)"
    by (rule word_uint_eq_iff)
  define p q where "p = uint (exponent_magnitude a)" and "q = uint (exponent_magnitude b)"
  have pq: "0 \<le> p" "p < 2 ^ 64" "0 \<le> q" "q < 2 ^ 64" using uint_less_LB by (simp_all add: p_def q_def)
  show ?thesis
    using assms pos [of a] pos [of b] pq
    unfolding bigdecimal_compare_exponents_def exponent_val_def exponent_wf_def word_less_def m
      p_def [symmetric] q_def [symmetric]
    by (cases "exponent_negative a"; cases "exponent_negative b"; cases "exponent_high a"; cases "exponent_high b")
      (simp_all add: sgn_if)
qed

lemma powi_nat_add: "e = int n + f \<Longrightarrow> (10 :: rat) powi e = of_nat (10 ^ n) * 10 powi f"
  by (simp add: powi_split)

lemma decimal_magnitude:
  fixes A :: nat
  assumes "A \<noteq> 0"
  shows "(10 :: rat) powi (int (length (numeral_digits 10 A)) - s - 1) \<le> of_nat A * 10 powi (- s)"
    "of_nat A * 10 powi (- s) < (10 :: rat) powi (int (length (numeral_digits 10 A)) - s)"
proof -
  let ?L = "length (numeral_digits 10 A)"
  have L: "0 < ?L" by simp
  have "(of_nat (10 ^ (?L - 1)) :: rat) \<le> of_nat A" using digit_count_bounds(1) [OF assms] by (simp only: of_nat_le_iff)
  moreover have "(10 :: rat) powi (int ?L - s - 1) = of_nat (10 ^ (?L - 1)) * 10 powi (- s)"
  proof -
    have "int ?L - s - 1 = int (?L - 1) + - s" using L by arith
    from powi_nat_add [OF this] show ?thesis by simp
  qed
  ultimately show "(10 :: rat) powi (int ?L - s - 1) \<le> of_nat A * 10 powi (- s)" by simp
  have "(of_nat A :: rat) < of_nat (10 ^ ?L)" using digit_count_bounds(2) [OF assms] by (simp only: of_nat_less_iff)
  moreover have "(10 :: rat) powi (int ?L - s) = of_nat (10 ^ ?L) * 10 powi (- s)"
    using powi_split [of "int ?L" "- s"] by simp
  ultimately show "of_nat A * 10 powi (- s) < (10 :: rat) powi (int ?L - s)" by simp
qed

lemma powi_mono: "e \<le> e' \<Longrightarrow> (10 :: rat) powi e \<le> 10 powi e'"
  by (rule power_int_increasing) simp_all

definition order_sign :: "rat \<Rightarrow> rat \<Rightarrow> int" where
  "order_sign x y = (if x < y then - 1 else if x = y then 0 else 1)"

lemma pad_value: "length xs \<le> N \<Longrightarrow> digits_value 10 (xs @ replicate (N - length xs) 0) = digits_value 10 xs * 10 ^ (N - length xs)"
  by (simp add: digits_value_append zeros_value)

lemma compare_magnitudes:
  fixes A B :: nat
  assumes nz: "A \<noteq> 0" "B \<noteq> 0" and s: "in_i64 s" "in_i64 t"
    and L: "length (numeral_digits 10 A) < LB" "length (numeral_digits 10 B) < LB"
  defines "xs \<equiv> numeral_digits 10 A" and "ys \<equiv> numeral_digits 10 B"
  defines "m \<equiv> bigdecimal_compare_exponents (bigdecimal_decimal_exponent (length xs) s) (bigdecimal_decimal_exponent (length ys) t)"
  shows "(if m = 0 then compare_digits (if length xs > length ys then length xs else length ys) 0
      (digit_string p xs) (digit_string p ys) else m) = order_sign (of_nat A * 10 powi (- s)) (of_nat B * 10 powi (- t))"
proof -
  let ?d = "int (length xs) - s" and ?e = "int (length ys) - t" and ?x = "(of_nat A :: rat) * 10 powi (- s)"
    and ?y = "(of_nat B :: rat) * 10 powi (- t)"
  have m: "m = sgn (?d - ?e)"
    using L s decimal_exponent_correct by (simp add: m_def compare_exponents_correct xs_def ys_def)
  note xb = decimal_magnitude [OF nz(1), of s, folded xs_def] and yb = decimal_magnitude [OF nz(2), of t, folded ys_def]
  consider "?d < ?e" | "?e < ?d" | "?d = ?e" by linarith
  then show ?thesis
  proof cases
    case 1
    then have "?x < ?y" using xb(2) yb(1) powi_mono [of ?d "?e - 1"] by linarith
    then show ?thesis using 1 by (simp add: m order_sign_def)
  next
    case 2
    then have "?y < ?x" using yb(2) xb(1) powi_mono [of ?e "?d - 1"] by linarith
    then show ?thesis using 2 by (simp add: m order_sign_def)
  next
    case 3
    let ?N = "if length xs > length ys then length xs else length ys"
    define X where "X = A * 10 ^ (?N - length xs)"
    define Y where "Y = B * 10 ^ (?N - length ys)"
    have digits: "\<forall>d \<in> set xs. d < 10" "\<forall>d \<in> set ys. d < 10"
      by (auto simp: xs_def ys_def intro: numeral_digits_less [of 10])
    have vals: "digits_value 10 xs = A" "digits_value 10 ys = B" by (simp_all add: xs_def ys_def numeral_digits_value)
    have cmp: "compare_digits ?N 0 (digit_string p xs) (digit_string p ys) = sgn (int X - int Y)"
      using compare_digits_correct [OF digits, of 0 ?N p] by (simp only: drop_0 add_0 pad_value vals X_def Y_def) (simp add: pad_value vals)
    have scaled: "(of_nat C :: rat) * 10 powi (- r) = of_nat (C * 10 ^ (?N - k)) * 10 powi (?d - int ?N)"
      if "int k - r = ?d" "k \<le> ?N" for C r k
    proof -
      have "- r = int (?N - k) + (?d - int ?N)" using that by simp
      from powi_nat_add [OF this] show ?thesis by simp
    qed
    have "?x = of_nat X * 10 powi (?d - int ?N)" "?y = of_nat Y * 10 powi (?d - int ?N)"
      unfolding X_def Y_def using 3 by (intro scaled; simp)+
    then have "order_sign ?x ?y = sgn (int X - int Y)"
      by (simp add: order_sign_def sgn_diff_nat del: of_nat_mult)
    then show ?thesis using 3 cmp by (simp add: m)
  qed
qed

lemma digits_fit:
  assumes "bigint_wf v"
  shows "length (numeral_digits 10 (bigint_mag v)) < LB" "length (numeral_digits 10 (bigint_mag v)) + 3 \<le> SIZE_MAX"
proof -
  let ?c = "(bsize v * 64 + 62) div 63 + 1"
  have "bigint_mag v < (10 ^ 19) ^ ?c" by (rule chunks_capacity_room, rule mag_less)
  then have "bigint_mag v < 10 ^ (19 * ?c)" by (simp only: power_mult)
  then have "length (numeral_digits 10 (bigint_mag v)) \<le> 19 * ?c" by (intro numeral_digits_length) simp_all
  moreover have "?c * 19 + 3 \<le> SIZE_MAX" by (rule chunks_capacity_fits) (use assms in \<open>simp add: bigint_wf_def\<close>)
  ultimately show "length (numeral_digits 10 (bigint_mag v)) + 3 \<le> SIZE_MAX" by linarith
  then show "length (numeral_digits 10 (bigint_mag v)) < LB" by (simp add: SIZE_MAX_def LB_def)
qed

lemma decimal_val_mag: "\<bar>decimal_val d\<bar> = of_nat (bigint_mag (coefficient d)) * 10 powi (- scale d)"
proof -
  have "\<bar>of_int (bigint_val (coefficient d)) :: rat\<bar> = of_int \<bar>bigint_val (coefficient d)\<bar>" by (simp del: abs_bigint_val)
  then show ?thesis by (simp add: decimal_val_def abs_mult)
qed

lemma compare_wp:
  assumes a: "decimal_wf a" and b: "decimal_wf b"
    and Q: "\<And>st c'. doutcome u True False st (c' = order_sign (decimal_val a) (decimal_val b)) (c' = c) \<Longrightarrow> Q (st, c')"
  shows "rspec u (bigdecimal_compare c a b) Q"
proof -
  let ?x = "decimal_val a" and ?y = "decimal_val b"
  note ad = decimal_wfD [OF a] and bd = decimal_wfD [OF b]
  have neg: "bigint_is_negative (coefficient a) \<longleftrightarrow> ?x < 0" "bigint_is_negative (coefficient b) \<longleftrightarrow> ?y < 0"
    using ad(3) bd(3) by (simp_all add: is_negative_iff decimal_val_neg_iff)
  have zero: "bigint_is_zero (coefficient a) \<longleftrightarrow> ?x = 0" "bigint_is_zero (coefficient b) \<longleftrightarrow> ?y = 0"
    using ad(3) bd(3) by (simp_all add: is_zero_iff decimal_val_0_iff)
  have ok: "Q (BIGDECIMAL_OK, v)" if "v = order_sign ?x ?y" for v using that by (intro Q) simp
  have oom: "Q (BIGDECIMAL_OUT_OF_MEMORY, c)" if "\<not> u" using that by (intro Q) simp
  have same: "bigint_compare (coefficient a) (coefficient b) = order_sign ?x ?y" if "scale a = scale b"
    using compare_sgn [OF ad(3) bd(3)] that by (simp add: order_sign_def decimal_val_def sgn_if)
  let ?A = "bigint_mag (coefficient a)" and ?B = "bigint_mag (coefficient b)"
  let ?m = "bigdecimal_compare_exponents (bigdecimal_decimal_exponent (length (numeral_digits 10 ?A)) (scale a))
      (bigdecimal_decimal_exponent (length (numeral_digits 10 ?B)) (scale b))"
  let ?c = "if ?m = 0 then compare_digits (if length (numeral_digits 10 ?A) > length (numeral_digits 10 ?B)
      then length (numeral_digits 10 ?A) else length (numeral_digits 10 ?B)) 0
      (digit_string True (numeral_digits 10 ?A)) (digit_string True (numeral_digits 10 ?B)) else ?m"
  have cmp: "(if ?x < 0 then - ?c else ?c) = order_sign ?x ?y" if "(?x < 0) = (?y < 0)" "\<not> (?x = 0 \<or> ?y = 0)"
  proof -
    have "?A \<noteq> 0" "?B \<noteq> 0" using that(2) by (auto simp: decimal_val_0_iff val_0_mag)
    from compare_magnitudes [OF this ad(2) bd(2) digits_fit(1) [OF ad(3)] digits_fit(1) [OF bd(3)], of True]
    have "?c = order_sign \<bar>?x\<bar> \<bar>?y\<bar>" unfolding decimal_val_mag .
    then show ?thesis using that by (auto simp: order_sign_def)
  qed
  have shown: "drop (if z < 0 then 1 else 0) (signed_string True 10 (bigint_val v)) = digit_string True (numeral_digits 10 (bigint_mag v))"
    if "z < 0 \<longleftrightarrow> bigint_val v < 0" for v and z :: rat
    using that by (simp add: signed_string_def)
  have an: "?x < 0 \<longleftrightarrow> bigint_val (coefficient a) < 0" and bn: "?y < 0 \<longleftrightarrow> bigint_val (coefficient b) < 0"
    by (simp_all add: decimal_val_neg_iff)
  show ?thesis
    unfolding bigdecimal_compare_def Let_def neg zero
  proof (intro triple_if, goal_cases)
    case 1
    then show ?case by (intro triple_return ok) (auto simp: order_sign_def)
  next
    case 2
    then show ?case by (intro triple_return ok) (auto simp: order_sign_def)
  next
    case 3
    then show ?case
      by (intro triple_bind [of _ numforge_budget_check] budget_check_wp triple_return) (auto simp: same intro: ok oom)
  next
    case 4
    note differ = this
    show ?case
    proof (rule triple_bind, rule to_string_wp [OF ad(3), where p = True], rule triple_bind,
        rule to_string_wp [OF bd(3), where p = True], goal_cases)
      case (1 r1 r2)
      show ?case
      proof (cases "r1 = None \<or> r2 = None")
        case True
        then show ?thesis using 1 by (auto split: option.splits intro!: triple_return oom)
      next
        case False
        then have r: "r1 = Some (signed_string True 10 (bigint_val (coefficient a)))"
          "r2 = Some (signed_string True 10 (bigint_val (coefficient b)))" using 1 by auto
        show ?thesis
          unfolding r prod.case option.case shown [OF an] shown [OF bn] length_digit_string
          by (rule triple_return, rule ok, rule cmp) (use differ in auto)
      qed
    qed
  qed
qed

section \<open>Sums and products of sequences\<close>

lemma aggregate_loop_wp:
  "decimal_wf acc \<Longrightarrow> \<forall>v \<in> set vs. decimal_wf v \<Longrightarrow>
   (\<And>st r'. doutcome u False True st (decimal_wf r' \<and> decimal_val r' =
      (if multiplying then decimal_val acc * prod_list (map decimal_val vs) else decimal_val acc + sum_list (map decimal_val vs))) True \<Longrightarrow>
     Q (st, r')) \<Longrightarrow>
   rspec u (aggregate_loop vs multiplying acc) Q"
proof (induction vs arbitrary: acc)
  case Nil
  then show ?case by (simp add: triple_return)
next
  case (Cons v vs)
  let ?x = "if multiplying then decimal_val acc * decimal_val v else decimal_val acc + decimal_val v"
  have step: "rspec u (if multiplying then bigdecimal_mul acc acc v else bigdecimal_add True False acc acc v) P"
    if "\<And>st r'. doutcome u False True st (decimal_wf r' \<and> decimal_val r' = ?x) True \<Longrightarrow> P (st, r')" for P
    unfolding bigdecimal_add_def
    by (intro triple_if decimal_mul_wp add_or_subtract_wp) (use Cons.prems(1,2) in \<open>auto intro!: that elim: doutcome_mono\<close>)
  show ?case
    unfolding aggregate_loop.simps
  proof (rule triple_bind, rule step, rule triple_case_pair, rule triple_if, goal_cases)
    case (1 st r')
    then have r: "decimal_wf r'" "decimal_val r' = ?x" by simp_all
    show ?case
      by (rule Cons.IH [OF r(1)]) (use Cons.prems(2) in simp, rule Cons.prems(3), cases multiplying, simp_all add: r(2) mult.assoc add.assoc)
  next
    case (2 st r')
    then show ?case by (intro triple_return Cons.prems(3)) (auto elim: doutcome_failI)
  qed
qed

lemma aggregate_wp:
  assumes vs: "\<forall>v \<in> set vs. decimal_wf v"
    and Q: "\<And>st r'. (if vs = [] then st = BIGDECIMAL_INVALID_ARGUMENT \<and> r' = r
      else doutcome u False True st (decimal_wf r' \<and> decimal_val r' =
        (if multiplying then prod_list (map decimal_val vs) else sum_list (map decimal_val vs))) (r' = r)) \<Longrightarrow> Q (st, r')"
  shows "rspec u (bigdecimal_aggregate r vs multiplying) Q"
proof (cases vs)
  case Nil
  then show ?thesis by (auto simp: bigdecimal_aggregate_def bigdecimal_validate_sequence_def intro!: triple_return Q)
next
  case (Cons w ws)
  let ?v = "if multiplying then prod_list (map decimal_val vs) else sum_list (map decimal_val vs)"
  have v: "\<not> bigdecimal_validate_sequence vs \<noteq> BIGDECIMAL_OK" "vs ! 0 = w" "drop 1 vs = ws"
    using Cons by (simp_all add: bigdecimal_validate_sequence_def)
  have wf: "decimal_wf w" "\<forall>v \<in> set ws. decimal_wf v" using vs Cons by simp_all
  have Q': "Q (st, r')" if "doutcome u False True st (decimal_wf r' \<and> decimal_val r' = ?v) (r' = r)" for st r'
    using that Cons by (intro Q) simp
  have oom: "Q (BIGDECIMAL_OUT_OF_MEMORY, r)" by (intro Q') simp
  show ?thesis
    unfolding bigdecimal_aggregate_def if_not_P [OF v(1)] v(2,3)
  proof (rule decimal_create_bind, simp add: triple_return oom, unfold option.case, rule triple_bind,
      rule decimal_copy_wp [OF wf(1)], simp, rule triple_case_pair, rule decimal_chain, goal_cases)
    case (1 st d)
    then have d: "decimal_wf d" "decimal_val d = decimal_val w" by simp_all
    show ?case
    proof (rule triple_bind, rule aggregate_loop_wp [OF d(1) wf(2)], rule triple_case_pair, rule triple_if, goal_cases)
      case (1 st' r')
      then have r: "decimal_wf r'" "decimal_val r' = ?v" using d(2) Cons by simp_all
      show ?case by (rule decimal_copy_wp [OF r(1)]) (auto simp: r(2) intro!: Q' elim: doutcome_mono)
    next
      case (2 st' r')
      then show ?case by (intro triple_return Q') (auto elim: doutcome_failI)
    qed
  next
    case (2 st d)
    then show ?case by (auto intro!: triple_return Q' elim: doutcome_failI)
  qed
qed

section \<open>Interfaces\<close>

text \<open>The contract of an exact binary operation: the flags tell which operands the result is, and
  \<open>fits\<close> is what the sizes of the operands must satisfy.\<close>

locale decimal_binary =
  fixes op :: "bool \<Rightarrow> bool \<Rightarrow> BigDecimal \<Rightarrow> BigDecimal \<Rightarrow> BigDecimal \<Rightarrow> (BigDecimalStatus \<times> BigDecimal) rt"
    and val :: "rat \<Rightarrow> rat \<Rightarrow> rat"
    and fits :: "BigDecimal \<Rightarrow> BigDecimal \<Rightarrow> bool"
  assumes op_spec: "decimal_wf a \<Longrightarrow> decimal_wf b \<Longrightarrow> (ra \<Longrightarrow> r = a) \<Longrightarrow> (rb \<Longrightarrow> r = b) \<Longrightarrow>
    (\<And>st r'. doutcome u (fits a b) (\<not> decimal_representable (val (decimal_val a) (decimal_val b))) st
      (decimal_wf r' \<and> decimal_val r' = val (decimal_val a) (decimal_val b)) (r' = r) \<Longrightarrow> Q (st, r')) \<Longrightarrow>
    rspec u (op ra rb r a b) Q"
begin

lemma run:
  assumes "\<not> stuck s" "decimal_wf a" "decimal_wf b" "ra \<Longrightarrow> r = a" "rb \<Longrightarrow> r = b"
  shows "case run_state (op ra rb r a b) s of ((st, r'), s') \<Rightarrow> \<not> stuck s' \<and>
    doutcome (unlimited s) (fits a b) (\<not> decimal_representable (val (decimal_val a) (decimal_val b))) st
      (decimal_wf r' \<and> decimal_val r' = val (decimal_val a) (decimal_val b)) (r' = r)"
  by (rule rspec_run2 [OF _ assms(1)], rule op_spec [OF assms(2-5)]) simp_all

end

definition sum_fits :: "BigDecimal \<Rightarrow> BigDecimal \<Rightarrow> bool" where
  "sum_fits a b \<longleftrightarrow> ten_fits (nat \<bar>scale a - scale b\<bar>) (bsize (coefficient a) + bsize (coefficient b) + 1)"

interpretation dadd: decimal_binary bigdecimal_add "(+)" sum_fits
  unfolding bigdecimal_add_def sum_fits_def by unfold_locales (rule add_or_subtract_wp; simp)

interpretation dsub: decimal_binary bigdecimal_sub "(-)" sum_fits
  unfolding bigdecimal_sub_def sum_fits_def by unfold_locales (rule add_or_subtract_wp; simp)

interpretation dmul: decimal_binary "\<lambda>ra rb. bigdecimal_mul" "(*)"
    "\<lambda>a b. bsize (coefficient a) + bsize (coefficient b) \<le> BIGINT_MAX_LIMBS"
  by unfold_locales (rule decimal_mul_wp)

section \<open>Properties\<close>

definition example_decimal :: "u64 \<Rightarrow> int \<Rightarrow> BigDecimal" where
  "example_decimal c e = \<lparr>coefficient = bigint_wrap_uint64 c, scale = e\<rparr>"

lemma example_decimals:
  "decimal_wf (example_decimal 12 1)" "decimal_wf (example_decimal 5 2)"
  "decimal_val (example_decimal 12 1) = 6 / 5" "decimal_val (example_decimal 5 2) = 1 / 20"
  "sum_fits (example_decimal 12 1) (example_decimal 5 2)"
  "decimal_representable (5 / 4)" "decimal_representable (23 / 20)" "decimal_representable (3 / 50)"
proof -
  have wf: "decimal_wf (example_decimal c e)" if "\<not> 10 dvd uint c" "in_i64 e" for c e
    using that by (auto simp: example_decimal_def decimal_wf_def)
  have val: "decimal_val (example_decimal c e) = of_int (uint c) * 10 powi (- e)" for c e
    by (simp add: example_decimal_def decimal_val_def)
  have small: "in_i64 1" "in_i64 2" by (simp_all add: in_i64_def INT64_MIN_def INT64_MAX_def)
  show "decimal_wf (example_decimal 12 1)" "decimal_wf (example_decimal 5 2)" by (intro wf small; simp)+
  show "decimal_val (example_decimal 12 1) = 6 / 5" "decimal_val (example_decimal 5 2) = 1 / 20"
    by (simp_all add: val power_int_minus)
  show "sum_fits (example_decimal 12 1) (example_decimal 5 2)"
    by (simp add: sum_fits_def ten_fits_def ten_limbs_def example_decimal_def bsize_wrap_uint64 max_limbs_numeral SIZE_MAX_def)
  have rep: "decimal_representable x" if "decimal_val (example_decimal c e) = x" "\<not> 10 dvd uint c" "in_i64 e" for c e x
    using wf [OF that(2,3)] that(1) by (auto simp: decimal_representable_def)
  show "decimal_representable (5 / 4)" by (rule rep [of 125 2]) (simp_all add: val power_int_minus small)
  show "decimal_representable (23 / 20)" by (rule rep [of 115 2]) (simp_all add: val power_int_minus small)
  show "decimal_representable (3 / 50)" by (rule rep [of 6 2]) (simp_all add: val power_int_minus small)
qed

text \<open>C13: Addition and subtraction of decimals are those of the rational numbers, whatever the
  distance of the scales, and keep the canonical form. The scale overflows only when no object
  can hold the result; on failure the destination is unchanged.\<close>

theorem bigdecimal_add_sub_correct:
  assumes "\<not> stuck s" "decimal_wf a" "decimal_wf b" "ra \<Longrightarrow> r = a" "rb \<Longrightarrow> r = b"
  shows "(case run_state (bigdecimal_add ra rb r a b) s of ((st, r'), s') \<Rightarrow> \<not> stuck s' \<and>
      doutcome (unlimited s) (sum_fits a b) (\<not> decimal_representable (decimal_val a + decimal_val b)) st
        (decimal_wf r' \<and> decimal_val r' = decimal_val a + decimal_val b) (r' = r)) \<and>
    (case run_state (bigdecimal_sub ra rb r a b) s of ((st, r'), s') \<Rightarrow> \<not> stuck s' \<and>
      doutcome (unlimited s) (sum_fits a b) (\<not> decimal_representable (decimal_val a - decimal_val b)) st
        (decimal_wf r' \<and> decimal_val r' = decimal_val a - decimal_val b) (r' = r))"
  by (intro conjI dadd.run [OF assms] dsub.run [OF assms])

theorem bigdecimal_add_sub_correct_witness:
  "(case run_state (bigdecimal_add True False (example_decimal 12 1) (example_decimal 12 1) (example_decimal 5 2)) idle_runtime of
      ((st, r'), s') \<Rightarrow> st = BIGDECIMAL_OK \<and> decimal_wf r' \<and> decimal_val r' = 5 / 4) \<and>
   (case run_state (bigdecimal_sub True False (example_decimal 12 1) (example_decimal 12 1) (example_decimal 5 2)) idle_runtime of
      ((st, r'), s') \<Rightarrow> st = BIGDECIMAL_OK \<and> decimal_wf r' \<and> decimal_val r' = 23 / 20)"
  using bigdecimal_add_sub_correct [of idle_runtime "example_decimal 12 1" "example_decimal 5 2" True "example_decimal 12 1" False]
  by (auto simp: doutcome_def example_decimals split: prod.splits if_splits)

text \<open>C14: Multiplication of decimals is that of the rational numbers. The three orders in which the
  scales are added miss no product: the scale overflows only when no object can hold the result.\<close>

theorem bigdecimal_mul_correct:
  assumes "\<not> stuck s" "decimal_wf a" "decimal_wf b"
  shows "case run_state (bigdecimal_mul r a b) s of ((st, r'), s') \<Rightarrow> \<not> stuck s' \<and>
    doutcome (unlimited s) (bsize (coefficient a) + bsize (coefficient b) \<le> BIGINT_MAX_LIMBS)
      (\<not> decimal_representable (decimal_val a * decimal_val b)) st
      (decimal_wf r' \<and> decimal_val r' = decimal_val a * decimal_val b) (r' = r)"
  using dmul.run [OF assms, of False r False] by simp

theorem bigdecimal_mul_correct_witness:
  "case run_state (bigdecimal_mul (example_decimal 5 2) (example_decimal 12 1) (example_decimal 5 2)) idle_runtime of
     ((st, r'), s') \<Rightarrow> st = BIGDECIMAL_OK \<and> decimal_wf r' \<and> decimal_val r' = 3 / 50"
proof -
  have "bsize (coefficient (example_decimal 12 1)) + bsize (coefficient (example_decimal 5 2)) \<le> BIGINT_MAX_LIMBS"
    by (simp add: example_decimal_def bsize_wrap_uint64 max_limbs_numeral)
  then show ?thesis
    using bigdecimal_mul_correct [of idle_runtime "example_decimal 12 1" "example_decimal 5 2" "example_decimal 5 2"]
    by (auto simp: doutcome_def example_decimals split: prod.splits if_splits)
qed

text \<open>C15: Comparison decides the order of the decimals for all scales, by the decimal exponents first
  and by the digits padded with zeros when these agree, without aligning the coefficients.\<close>

theorem bigdecimal_compare_correct:
  assumes "\<not> stuck s" "decimal_wf a" "decimal_wf b"
  shows "case run_state (bigdecimal_compare c a b) s of ((st, c'), s') \<Rightarrow> \<not> stuck s' \<and>
    doutcome (unlimited s) True False st
      (c' = (if decimal_val a < decimal_val b then - 1 else if decimal_val a = decimal_val b then 0 else 1)) (c' = c)"
  by (rule rspec_run2 [OF _ assms(1)], rule compare_wp [OF assms(2,3)]) (simp add: order_sign_def)

theorem bigdecimal_compare_correct_witness:
  "case run_state (bigdecimal_compare 7 (example_decimal 5 2) (example_decimal 12 1)) idle_runtime of
     ((st, c'), s') \<Rightarrow> st = BIGDECIMAL_OK \<and> c' = - 1"
  using bigdecimal_compare_correct [of idle_runtime "example_decimal 5 2" "example_decimal 12 1" 7]
  by (auto simp: doutcome_def example_decimals split: prod.splits if_splits)

end
