(* ===== verification/Decimal_Rounding.thy ===== *)
theory Decimal_Rounding
  imports BigDecimal_Arith
begin

text \<open>
  Rounding of decimals: the rounding decision of \<^verbatim>\<open>bigdecimal.c\<close> and the operations of
  \<^verbatim>\<open>division.c\<close> that change the scale or the number of digits of one decimal.

  The reference is \<open>round_int\<close>, the six modes on a rational number in terms of floor and
  ceiling.
\<close>

section \<open>The rounding decision\<close>

text \<open>\<open>scratch\<close> is the caller's buffer, or \<open>None\<close> for the \<^verbatim>\<open>NULL\<close> pointer; then the
  doubled remainder gets an object of its own.\<close>

definition nearest_adjustment ::
  "BigInt \<Rightarrow> BigInt \<Rightarrow> BigInt \<Rightarrow> BigDecimalRoundingMode \<Rightarrow> BigInt option \<Rightarrow>
   (BigDecimalStatus \<times> bool \<times> BigInt option) rt" where
  "nearest_adjustment quot remainder divisor rounding scratch = do {
     twice_remainder \<leftarrow> (case scratch of Some x \<Rightarrow> State_Monad.return (Some x) | None \<Rightarrow> bigint_create);
     case twice_remainder of
       None \<Rightarrow> State_Monad.return (BIGDECIMAL_OUT_OF_MEMORY, False, scratch)
     | Some twice \<Rightarrow> do {
         (status, twice) \<leftarrow> decimal_call (bigint_copy twice remainder);
         (status, twice) \<leftarrow> (if status = BIGDECIMAL_OK then decimal_call (bigint_multiply_by_uint64 twice 2)
            else State_Monad.return (status, twice));
         let comparison = bigint_compare_abs twice divisor;
         State_Monad.return (status,
           status = BIGDECIMAL_OK \<and> (comparison > 0 \<or>
             comparison = 0 \<and> (rounding = BIGDECIMAL_ROUND_HALF_UP \<or> \<not> bigint_is_even quot)),
           if scratch = None then None else Some twice)
       }
   }"

definition rounding_adjustment ::
  "BigInt \<Rightarrow> BigInt \<Rightarrow> BigInt \<Rightarrow> bool \<Rightarrow> BigDecimalRoundingMode \<Rightarrow> BigInt option \<Rightarrow>
   (BigDecimalStatus \<times> bool \<times> BigInt option) rt" where
  "rounding_adjustment quot remainder divisor negative rounding scratch = (case rounding of
      BIGDECIMAL_ROUND_AWAY_FROM_ZERO \<Rightarrow> State_Monad.return (BIGDECIMAL_OK, True, scratch)
    | BIGDECIMAL_ROUND_FLOOR \<Rightarrow> State_Monad.return (BIGDECIMAL_OK, negative, scratch)
    | BIGDECIMAL_ROUND_CEILING \<Rightarrow> State_Monad.return (BIGDECIMAL_OK, \<not> negative, scratch)
    | BIGDECIMAL_ROUND_HALF_UP \<Rightarrow> nearest_adjustment quot remainder divisor rounding scratch
    | BIGDECIMAL_ROUND_HALF_EVEN \<Rightarrow> nearest_adjustment quot remainder divisor rounding scratch
    | _ \<Rightarrow> State_Monad.return (BIGDECIMAL_INVALID_ARGUMENT, False, scratch))"

definition bigdecimal_round_quotient_scratch ::
  "BigInt \<Rightarrow> BigInt \<Rightarrow> BigInt \<Rightarrow> bool \<Rightarrow> BigDecimalRoundingMode \<Rightarrow> BigInt option \<Rightarrow>
   (BigDecimalStatus \<times> BigInt \<times> BigInt option) rt" where
  "bigdecimal_round_quotient_scratch quot remainder divisor negative rounding scratch =
    (if bigint_is_zero remainder \<or> rounding = BIGDECIMAL_ROUND_TOWARD_ZERO
     then State_Monad.return (BIGDECIMAL_OK, quot, scratch)
     else do {
       (status, adjust, scratch) \<leftarrow> rounding_adjustment quot remainder divisor negative rounding scratch;
       if status \<noteq> BIGDECIMAL_OK \<or> \<not> adjust then State_Monad.return (status, quot, scratch)
       else if scratch \<noteq> None then do {
         (status, quot) \<leftarrow> decimal_call (bigint_add_uint64 quot 1);
         State_Monad.return (status,
           if status = BIGDECIMAL_OK then quot\<lparr>is_negative := negative\<rparr> else quot, scratch)
       }
       else do {
         (status, quot) \<leftarrow> decimal_call
           (if negative then bigint_sub quot quot (bigint_wrap_uint64 1)
            else bigint_add quot quot (bigint_wrap_uint64 1));
         State_Monad.return (status, quot, scratch)
       }
     })"

definition bigdecimal_round_quotient ::
  "BigInt \<Rightarrow> BigInt \<Rightarrow> BigInt \<Rightarrow> bool \<Rightarrow> BigDecimalRoundingMode \<Rightarrow> (BigDecimalStatus \<times> BigInt) rt" where
  "bigdecimal_round_quotient quot remainder divisor negative rounding = do {
     (status, quot, scratch) \<leftarrow> bigdecimal_round_quotient_scratch quot remainder divisor negative rounding None;
     State_Monad.return (status, quot)
   }"

section \<open>Rescaling\<close>

text \<open>\<open>same\<close> says whether the result and the value are the same object.\<close>

definition bigdecimal_rescale ::
  "bool \<Rightarrow> BigDecimal \<Rightarrow> BigDecimal \<Rightarrow> int \<Rightarrow> BigDecimalRoundingMode \<Rightarrow> (BigDecimalStatus \<times> BigDecimal) rt" where
  "bigdecimal_rescale same result value target_scale rounding =
    (if \<not> bigdecimal_valid_rounding rounding then State_Monad.return (BIGDECIMAL_INVALID_ARGUMENT, result)
     else if bigint_is_zero (coefficient value) then bigdecimal_copy same result value
     else if target_scale \<ge> scale value then bigdecimal_copy same result value
     else
       (case bigdecimal_scale_difference (scale value) target_scale 0 of (status, difference) \<Rightarrow>
          if status \<noteq> BIGDECIMAL_OK then State_Monad.return (status, result)
          else do {
            created \<leftarrow> bigdecimal_create;
            others \<leftarrow> create_objects 2;
            case created of
              None \<Rightarrow> State_Monad.return (BIGDECIMAL_OUT_OF_MEMORY, result)
            | Some temporary \<Rightarrow>
                if \<not> others then State_Monad.return (BIGDECIMAL_OUT_OF_MEMORY, result)
                else do {
                  (status, divisor) \<leftarrow> bigdecimal_set_power_of_ten bigint_init difference;
                  (status, c, remainder) \<leftarrow> (if status = BIGDECIMAL_OK
                     then decimal_call (bigint_div_mod False (coefficient temporary) bigint_init (coefficient value) divisor)
                     else State_Monad.return (status, coefficient temporary, bigint_init));
                  (status, c) \<leftarrow> (if status = BIGDECIMAL_OK
                     then bigdecimal_round_quotient c remainder divisor (bigint_is_negative (coefficient value)) rounding
                     else State_Monad.return (status, c));
                  if status = BIGDECIMAL_OK then bigdecimal_finish result \<lparr>coefficient = c, scale = target_scale\<rparr>
                  else State_Monad.return (status, result)
                }
          }))"

definition bigdecimal_floor :: "bool \<Rightarrow> BigDecimal \<Rightarrow> BigDecimal \<Rightarrow> (BigDecimalStatus \<times> BigDecimal) rt" where
  "bigdecimal_floor same result value = bigdecimal_rescale same result value 0 BIGDECIMAL_ROUND_FLOOR"

definition bigdecimal_ceil :: "bool \<Rightarrow> BigDecimal \<Rightarrow> BigDecimal \<Rightarrow> (BigDecimalStatus \<times> BigDecimal) rt" where
  "bigdecimal_ceil same result value = bigdecimal_rescale same result value 0 BIGDECIMAL_ROUND_CEILING"

definition bigdecimal_trunc :: "bool \<Rightarrow> BigDecimal \<Rightarrow> BigDecimal \<Rightarrow> (BigDecimalStatus \<times> BigDecimal) rt" where
  "bigdecimal_trunc same result value = bigdecimal_rescale same result value 0 BIGDECIMAL_ROUND_TOWARD_ZERO"

definition bigdecimal_round :: "bool \<Rightarrow> BigDecimal \<Rightarrow> BigDecimal \<Rightarrow> int \<Rightarrow> (BigDecimalStatus \<times> BigDecimal) rt" where
  "bigdecimal_round same result value places = bigdecimal_rescale same result value places BIGDECIMAL_ROUND_HALF_EVEN"

definition bigdecimal_round_significant ::
  "bool \<Rightarrow> BigDecimal \<Rightarrow> BigDecimal \<Rightarrow> int \<Rightarrow> BigDecimalRoundingMode \<Rightarrow> (BigDecimalStatus \<times> BigDecimal) rt" where
  "bigdecimal_round_significant same result value digits rounding =
    (if digits < 1 \<or> \<not> bigdecimal_valid_rounding rounding
     then State_Monad.return (BIGDECIMAL_INVALID_ARGUMENT, result)
     else if bigint_is_zero (coefficient value) then bigdecimal_copy same result value
     else do {
       (status, n) \<leftarrow> decimal_call (bigint_decimal_digits (coefficient value) 0);
       if status \<noteq> BIGDECIMAL_OK then State_Monad.return (status, result)
       else if int n \<le> digits then bigdecimal_copy same result value
       else
         (let discarded = n - nat digits
          in if int discarded > INT64_MAX then State_Monad.return (BIGDECIMAL_SCALE_OVERFLOW, result)
             else case bigdecimal_i64_sub (scale value) (int discarded) of
                    None \<Rightarrow> State_Monad.return (BIGDECIMAL_SCALE_OVERFLOW, result)
                  | Some target_scale \<Rightarrow> bigdecimal_rescale same result value target_scale rounding)
     })"

section \<open>The reference\<close>

definition round_int :: "BigDecimalRoundingMode \<Rightarrow> rat \<Rightarrow> int" where
  "round_int rounding x = (case rounding of
      BIGDECIMAL_ROUND_TOWARD_ZERO \<Rightarrow> if x < 0 then \<lceil>x\<rceil> else \<lfloor>x\<rfloor>
    | BIGDECIMAL_ROUND_AWAY_FROM_ZERO \<Rightarrow> if x < 0 then \<lfloor>x\<rfloor> else \<lceil>x\<rceil>
    | BIGDECIMAL_ROUND_FLOOR \<Rightarrow> \<lfloor>x\<rfloor>
    | BIGDECIMAL_ROUND_CEILING \<Rightarrow> \<lceil>x\<rceil>
    | BIGDECIMAL_ROUND_HALF_UP \<Rightarrow> if x < 0 then \<lceil>x - 1 / 2\<rceil> else \<lfloor>x + 1 / 2\<rfloor>
    | BIGDECIMAL_ROUND_HALF_EVEN \<Rightarrow>
        if frac x = 1 / 2 then if even \<lfloor>x\<rfloor> then \<lfloor>x\<rfloor> else \<lceil>x\<rceil> else \<lfloor>x + 1 / 2\<rfloor>
    | BIGDECIMAL_ROUND_OTHER _ \<Rightarrow> 0)"

text \<open>Rounding to a scale.\<close>

definition round_decimal :: "BigDecimalRoundingMode \<Rightarrow> int \<Rightarrow> rat \<Rightarrow> rat" where
  "round_decimal rounding e x = of_int (round_int rounding (x * 10 powi e)) * 10 powi (- e)"

text \<open>The decision in terms of a magnitude \<open>m + f\<close> with the whole part \<open>m\<close>.\<close>

definition rounds_up :: "BigDecimalRoundingMode \<Rightarrow> bool \<Rightarrow> int \<Rightarrow> rat \<Rightarrow> bool" where
  "rounds_up rounding negative m f = (case rounding of
      BIGDECIMAL_ROUND_TOWARD_ZERO \<Rightarrow> False
    | BIGDECIMAL_ROUND_AWAY_FROM_ZERO \<Rightarrow> True
    | BIGDECIMAL_ROUND_FLOOR \<Rightarrow> negative
    | BIGDECIMAL_ROUND_CEILING \<Rightarrow> \<not> negative
    | BIGDECIMAL_ROUND_HALF_UP \<Rightarrow> 1 / 2 \<le> f
    | BIGDECIMAL_ROUND_HALF_EVEN \<Rightarrow> 1 / 2 < f \<or> f = 1 / 2 \<and> odd m
    | BIGDECIMAL_ROUND_OTHER _ \<Rightarrow> False)"

lemma half_floor: "\<lfloor>of_int n + 1 / 2 :: rat\<rfloor> = n" "\<lceil>of_int n - 1 / 2 :: rat\<rceil> = n"
  by (simp_all add: floor_unique ceiling_unique)

lemma round_int_of_int [simp]: "bigdecimal_valid_rounding mode \<Longrightarrow> round_int mode (of_int n) = n"
  by (cases mode) (simp_all add: round_int_def bigdecimal_valid_rounding_def half_floor)

lemma floor_nonneg_parts:
  fixes f :: rat and m :: int
  assumes "0 < f" "f < 1"
  shows "\<lfloor>of_int m + f\<rfloor> = m" "\<lceil>of_int m + f\<rceil> = m + 1" "\<lfloor>- of_int m - f\<rfloor> = - m - 1" "\<lceil>- of_int m - f\<rceil> = - m"
    "\<lfloor>of_int m + f + 1 / 2\<rfloor> = (if 1 / 2 \<le> f then m + 1 else m)"
    "\<lceil>- of_int m - f - 1 / 2\<rceil> = - (if 1 / 2 \<le> f then m + 1 else m)"
    "\<lfloor>- of_int m - f + 1 / 2\<rfloor> = - (if 1 / 2 < f then m + 1 else m)"
  using assms by (simp_all add: floor_unique ceiling_unique)

lemma frac_parts:
  fixes f :: rat and m :: int
  assumes "0 < f" "f < 1"
  shows "frac (of_int m + f) = f" "frac (- of_int m - f) = 1 - f"
  using floor_nonneg_parts(1,3) [OF assms, of m] unfolding frac_def by simp_all

lemma round_int_parts:
  assumes f: "0 < f" "f < 1" and m: "0 \<le> m" and mode: "bigdecimal_valid_rounding mode"
  shows "round_int mode (if neg then - of_int m - f else of_int m + f) =
    (if neg then - (if rounds_up mode neg m f then m + 1 else m) else (if rounds_up mode neg m f then m + 1 else m))"
proof -
  have pos: "0 < of_int m + f" using f(1) m by (simp add: add_nonneg_pos)
  then have sign: "\<not> of_int m + f < 0" "- of_int m - f < 0" by linarith+
  note parts = floor_nonneg_parts [OF f] frac_parts [OF f]
  show ?thesis
    using mode f sign by (cases mode; cases neg) (auto simp: round_int_def rounds_up_def parts bigdecimal_valid_rounding_def)
qed

section \<open>The decision is correct\<close>

lemma quotient_parts:
  fixes N D :: int
  assumes D: "D \<noteq> 0" and r: "tmod N D \<noteq> 0"
  defines "m \<equiv> \<bar>N\<bar> div \<bar>D\<bar>" and "f \<equiv> (of_int \<bar>tmod N D\<bar> / of_int \<bar>D\<bar> :: rat)" and "neg \<equiv> (N < 0) \<noteq> (D < 0)"
  shows "tdiv N D = (if neg then - m else m)" "0 \<le> m" "0 < f" "f < 1"
    "(of_int N / of_int D :: rat) = (if neg then - of_int m - f else of_int m + f)"
proof -
  have r': "\<bar>tmod N D\<bar> = \<bar>N\<bar> mod \<bar>D\<bar>" using D by (simp add: tmod_def abs_mult sgn_if)
  have N: "N \<noteq> 0" using r by (auto simp: tmod_def)
  show "tdiv N D = (if neg then - m else m)" using N D by (auto simp: tdiv_def neg_def m_def sgn_if)
  show "0 \<le> m" using D by (simp add: m_def pos_imp_zdiv_nonneg_iff)
  have "(of_int \<bar>tmod N D\<bar> :: rat) < of_int \<bar>D\<bar>" by (simp only: of_int_less_iff tmod_less [OF D])
  then show "f < 1" using D by (simp add: f_def del: of_int_abs)
  show "0 < f" using r D by (simp add: f_def)
  have "\<bar>N\<bar> = m * \<bar>D\<bar> + \<bar>tmod N D\<bar>" unfolding r' m_def by simp
  then have "(of_int \<bar>N\<bar> :: rat) = of_int m * of_int \<bar>D\<bar> + of_int \<bar>tmod N D\<bar>" by (simp flip: of_int_mult of_int_add del: of_int_abs)
  then have x: "(of_int \<bar>N\<bar> / of_int \<bar>D\<bar> :: rat) = of_int m + f" using D by (simp add: f_def field_simps)
  show "(of_int N / of_int D :: rat) = (if neg then - of_int m - f else of_int m + f)"
    using x N D by (auto simp: neg_def abs_if split: if_splits)
qed

lemma half_iff:
  fixes a b :: int
  assumes "0 < b"
  shows "(1 / 2 \<le> (of_int a / of_int b :: rat)) \<longleftrightarrow> b \<le> 2 * a" "(1 / 2 < (of_int a / of_int b :: rat)) \<longleftrightarrow> b < 2 * a"
    "((of_int a / of_int b :: rat) = 1 / 2) \<longleftrightarrow> 2 * a = b"
proof -
  have p: "(0 :: rat) < of_int b" using assms by simp
  have "(1 / 2 \<le> (of_int a / of_int b :: rat)) \<longleftrightarrow> (of_int b :: rat) \<le> of_int (2 * a)" using p by (simp add: field_simps)
  then show "(1 / 2 \<le> (of_int a / of_int b :: rat)) \<longleftrightarrow> b \<le> 2 * a" by (simp only: of_int_le_iff)
  have "(1 / 2 < (of_int a / of_int b :: rat)) \<longleftrightarrow> (of_int b :: rat) < of_int (2 * a)" using p by (simp add: field_simps)
  then show "(1 / 2 < (of_int a / of_int b :: rat)) \<longleftrightarrow> b < 2 * a" by (simp only: of_int_less_iff)
  have "((of_int a / of_int b :: rat) = 1 / 2) \<longleftrightarrow> (of_int (2 * a) :: rat) = of_int b" using p by (auto simp add: field_simps)
  then show "((of_int a / of_int b :: rat) = 1 / 2) \<longleftrightarrow> 2 * a = b" by (simp only: of_int_eq_iff)
qed

lemma dcall_twice:
  assumes r: "holds_int r x" "\<bar>x\<bar> < int LB ^ i" and t: "storage_ok t" and F: "F \<Longrightarrow> Suc i \<le> BIGINT_MAX_LIMBS"
    and Q: "\<And>st t'. doutcome u F False st (storage_ok t' \<and> canonical (limbs t') \<and> bigint_mag t' = 2 * nat \<bar>x\<bar>) True \<Longrightarrow>
      rspec u (g (st, t')) Q"
  shows "rspec u (State_Monad.bind (decimal_call (bigint_copy t r)) (\<lambda>(status, twice).
      State_Monad.bind (if status = BIGDECIMAL_OK then decimal_call (bigint_multiply_by_uint64 twice 2)
        else State_Monad.return (status, twice)) g)) Q"
proof (rule triple_bind, rule dcall_copy [OF r(1) t], unfold prod.case, rule decimal_chain, goal_cases)
  case (1 st t')
  then have h: "holds_int t' x" by simp
  have size: "bsize t' \<le> i" by (rule holds_int_size [OF h r(2)])
  have wf: "bigint_wf t'" "bigint_mag t' = nat \<bar>x\<bar>" using h by (auto simp: holds_int_def)
  show ?case
  proof (rule triple_bind, rule decimal_call_wp, rule multiply_by_uint64_wp, goal_cases)
    case (2 st'' t'')
    then have "outcome u (Suc (bsize t') \<le> BIGINT_MAX_LIMBS) st''
        (storage_ok t'' \<and> canonical (limbs t'') \<and> bigint_mag t'' = 2 * nat \<bar>x\<bar>) True"
      using wf by (auto elim!: outcome_mono simp: bigint_wf_def)
    from doutcome_of_outcome [OF this] show ?case
      using F size by (auto intro!: Q elim!: doutcome_mono)
  qed (use wf in \<open>simp add: bigint_wf_storage_ok\<close>)
next
  case (2 st t')
  then show ?case by (intro Q) (auto elim: doutcome_failI)
qed

lemma nearest_wp:
  assumes rem: "holds_int rm R" "\<bar>R\<bar> < int LB ^ i" and dv: "holds_int d D" and mode: "mode = BIGDECIMAL_ROUND_HALF_UP \<or> mode = BIGDECIMAL_ROUND_HALF_EVEN"
    and D: "D \<noteq> 0" and quot: "bigint_mag q = nat m" "0 \<le> m" and F: "F \<Longrightarrow> Suc i \<le> BIGINT_MAX_LIMBS"
    and Q: "\<And>st adj. doutcome u F False st (adj = rounds_up mode neg m (of_int \<bar>R\<bar> / of_int \<bar>D\<bar>)) True \<Longrightarrow> Q (st, adj, None)"
  shows "rspec u (nearest_adjustment q rm d mode None) Q"
proof -
  have oom: "Q (BIGDECIMAL_OUT_OF_MEMORY, False, None)" if "\<not> u" using that by (intro Q) simp
  have odd: "\<not> bigint_is_even q \<longleftrightarrow> odd m" unfolding is_even_iff quot(1) using quot(2) by (metis even_nat_iff)
  have cmp: "bigint_compare_abs t d = sgn (2 * \<bar>R\<bar> - \<bar>D\<bar>)"
    if "storage_ok t" "canonical (limbs t)" "bigint_mag t = 2 * nat \<bar>R\<bar>" for t
    using that compare_abs_sgn [of t d] dv by (simp add: holds_int_def bigint_wf_def) (metis abs_bigint_val)
  have adj: "(sgn (2 * \<bar>R\<bar> - \<bar>D\<bar>) > 0 \<or> sgn (2 * \<bar>R\<bar> - \<bar>D\<bar>) = 0 \<and> (mode = BIGDECIMAL_ROUND_HALF_UP \<or> odd m)) \<longleftrightarrow>
      rounds_up mode neg m (of_int \<bar>R\<bar> / of_int \<bar>D\<bar>)"
    using half_iff [of "\<bar>D\<bar>" "\<bar>R\<bar>"] D mode by (auto simp: rounds_up_def sgn_if simp del: of_int_abs)
  have step: "rspec u (State_Monad.bind (decimal_call (bigint_copy bigint_init rm)) (\<lambda>(status, twice).
      State_Monad.bind (if status = BIGDECIMAL_OK then decimal_call (bigint_multiply_by_uint64 twice 2)
        else State_Monad.return (status, twice)) (\<lambda>(status, twice).
          let comparison = bigint_compare_abs twice d in State_Monad.return (status,
             status = BIGDECIMAL_OK \<and> (comparison > 0 \<or> comparison = 0 \<and> (mode = BIGDECIMAL_ROUND_HALF_UP \<or> \<not> bigint_is_even q)),
             None)))) Q"
  proof (rule dcall_twice [where F = F, OF rem storage_ok_init F], assumption, unfold prod.case Let_def odd, rule triple_return, rule Q,
      goal_cases)
    case (1 st t')
    show ?case
    proof (cases "st = BIGDECIMAL_OK")
      case True
      with 1 have "bigint_compare_abs t' d = sgn (2 * \<bar>R\<bar> - \<bar>D\<bar>)" by (intro cmp) simp_all
      then show ?thesis by (simp only: True doutcome_OK adj simp_thms)
    next
      case False
      then show ?thesis using 1 by (simp add: doutcome_def)
    qed
  qed
  show ?thesis
    unfolding nearest_adjustment_def option.case
    by (rule triple_bind [OF create_wp]) (use step in \<open>auto intro!: triple_return oom\<close>)
qed

lemma adjustment_wp:
  assumes rem: "holds_int rm R" "\<bar>R\<bar> < int LB ^ i" and dv: "holds_int d D"
    and mode: "bigdecimal_valid_rounding mode" "mode \<noteq> BIGDECIMAL_ROUND_TOWARD_ZERO"
    and D: "D \<noteq> 0" and quot: "bigint_mag q = nat m" "0 \<le> m" and F: "F \<Longrightarrow> Suc i \<le> BIGINT_MAX_LIMBS"
    and Q: "\<And>st adj. doutcome u F False st (adj = rounds_up mode neg m (of_int \<bar>R\<bar> / of_int \<bar>D\<bar>)) True \<Longrightarrow> Q (st, adj, None)"
  shows "rspec u (rounding_adjustment q rm d neg mode None) Q"
proof (cases "mode = BIGDECIMAL_ROUND_HALF_UP \<or> mode = BIGDECIMAL_ROUND_HALF_EVEN")
  case True
  then have "rounding_adjustment q rm d neg mode None = nearest_adjustment q rm d mode None"
    by (auto simp: rounding_adjustment_def)
  then show ?thesis by (simp only:) (rule nearest_wp [OF rem dv True D quot F], assumption, rule Q)
next
  case False
  then show ?thesis using mode
    by (cases mode) (auto simp: rounding_adjustment_def rounds_up_def bigdecimal_valid_rounding_def intro!: triple_return Q)
qed

lemma round_quotient_wp:
  assumes q: "holds_int q (tdiv N D)" "\<bar>tdiv N D\<bar> < int LB ^ i" and rem: "holds_int rm (tmod N D)" "\<bar>tmod N D\<bar> < int LB ^ j"
    and dv: "holds_int d D" "D \<noteq> 0" and neg: "tmod N D \<noteq> 0 \<Longrightarrow> neg = ((N < 0) \<noteq> (D < 0))"
    and mode: "bigdecimal_valid_rounding mode" and F: "F \<Longrightarrow> Suc (max i 1) \<le> BIGINT_MAX_LIMBS" "F \<Longrightarrow> Suc j \<le> BIGINT_MAX_LIMBS"
    and Q: "\<And>st q'. doutcome u F False st (holds_int q' (round_int mode (of_int N / of_int D))) True \<Longrightarrow> Q (st, q')"
  shows "rspec u (bigdecimal_round_quotient q rm d neg mode) Q"
proof -
  let ?x = "of_int N / of_int D :: rat" and ?q = "tdiv N D" and ?r = "tmod N D"
  have zero: "bigint_is_zero rm \<longleftrightarrow> ?r = 0" using rem(1) by (auto simp: holds_int_def is_zero_iff)
  show ?thesis
  proof (cases "?r = 0")
    case True
    then have "N = D * ?q" using tdiv_tmod [of D N] by simp
    then have "?x = of_int ?q" using dv(2) by (metis nonzero_mult_div_cancel_left of_int_0_eq_iff of_int_mult)
    then have "Q (BIGDECIMAL_OK, q)" using q(1) mode by (intro Q) simp
    with True show ?thesis
      by (simp add: bigdecimal_round_quotient_def bigdecimal_round_quotient_scratch_def zero triple_return)
  next
    case False
    define m where "m = \<bar>N\<bar> div \<bar>D\<bar>"
    define f where "f = (of_int \<bar>?r\<bar> / of_int \<bar>D\<bar> :: rat)"
    note parts = quotient_parts [OF dv(2) False, folded neg [OF False] m_def f_def]
    define up where "up = rounds_up mode neg m f"
    have val: "round_int mode ?x = (if neg then - (if up then m + 1 else m) else (if up then m + 1 else m))"
      unfolding parts(5) up_def by (rule round_int_parts [OF parts(3,4,2) mode])
    have keep: "Q (BIGDECIMAL_OK, q)" if "\<not> up"
      using that q(1) parts(1) by (intro Q) (cases neg; simp add: val)
    have fail: "Q (st, q)" if "doutcome u F False st good bad" "st \<noteq> BIGDECIMAL_OK" for st good bad
      using that by (intro Q) (auto elim: doutcome_failI)
    have one: "holds_int (bigint_wrap_uint64 1) 1" "\<bar>1 :: int\<bar> < int LB ^ 1" by (simp_all add: holds_int_def LB_def)
    have "\<bar>bigint_val q\<bar> = m" using q(1) parts(1,2) by (simp add: holds_int_def split: if_splits)
    then have mag_q: "bigint_mag q = nat m" by (metis abs_bigint_val nat_int)
    show ?thesis
    proof (cases "mode = BIGDECIMAL_ROUND_TOWARD_ZERO")
      case True
      then show ?thesis using keep
        by (simp add: bigdecimal_round_quotient_def bigdecimal_round_quotient_scratch_def up_def rounds_up_def triple_return)
    next
      case direction: False
      then have "\<not> (bigint_is_zero rm \<or> mode = BIGDECIMAL_ROUND_TOWARD_ZERO)" using False zero by simp
      show ?thesis
        unfolding bigdecimal_round_quotient_def bigdecimal_round_quotient_scratch_def
          if_not_P [OF \<open>\<not> (bigint_is_zero rm \<or> mode = BIGDECIMAL_ROUND_TOWARD_ZERO)\<close>]
      proof (rule triple_bind, rule triple_bind,
          rule adjustment_wp [where F = F and neg = neg and m = m, OF rem dv(1) mode direction dv(2) mag_q parts(2) F(2)], assumption,
          unfold prod.case f_def [symmetric] up_def [symmetric], rule triple_if, goal_cases)
        case (1 st adj)
        then show ?case using keep fail by (cases "st = BIGDECIMAL_OK") (auto intro!: triple_return)
      next
        case (2 st adj)
        then have up: "up" by simp
        have val': "(if neg then ?q - 1 else ?q + 1) = round_int mode ?x" using up parts(1) by (cases neg) (simp_all add: val)
        show ?case
          by (simp only: simp_thms if_False, rule triple_bind,
              rule dcall_sum [where F = F, OF q(1) one(1) holds_intD(3) [OF q(1)] q(2) one(2) F(1)], assumption)
            (auto intro!: triple_return Q simp: val')
      qed
    qed
  qed
qed

lemma objects_bind:
  assumes "\<not> u \<Longrightarrow> rspec u (f False) Q" "rspec u (f True) Q"
  shows "rspec u (State_Monad.bind (create_objects n) f) Q"
proof (rule triple_bind, rule create_objects_wp)
  show "rspec u (f b) Q" if "u \<longrightarrow> b" for b using assms that by (cases b) auto
qed

text \<open>Both divisions end with the truncated quotient, its remainder and the decision.\<close>

lemma dcall_div_mod:
  assumes a: "holds_int a x" and b: "holds_int b y" "y \<noteq> 0"
    and Q: "\<And>st q' r'. doutcome u True False st (holds_int q' (tdiv x y) \<and> holds_int r' (tmod x y)) True \<Longrightarrow> Q (st, q', r')"
  shows "rspec u (decimal_call (bigint_div_mod False q r a b)) Q"
proof (rule decimal_call_wp, rule div_mod_wp [OF holds_intD(1) [OF a] holds_intD(1) [OF b(1)]], unfold prod.case, goal_cases)
  case (1 st q' r')
  moreover have "limbs b \<noteq> []" using b is_zero_iff [of b] by (auto simp: holds_int_def bigint_is_zero_def)
  ultimately have "outcome u True st (holds_int q' (tdiv x y) \<and> holds_int r' (tmod x y)) True"
    using a b by (auto elim!: outcome_mono simp: holds_int_def)
  from doutcome_of_outcome [OF this] show ?case by (rule Q)
qed

lemma tdiv_le: "\<bar>tdiv N D\<bar> \<le> \<bar>N\<bar>"
proof -
  have "\<bar>N\<bar> div \<bar>D\<bar> \<le> \<bar>N\<bar>" using zdiv_mono2 [of "\<bar>N\<bar>" 1 "\<bar>D\<bar>"] by (cases "D = 0") simp_all
  moreover have "0 \<le> \<bar>N\<bar> div \<bar>D\<bar>" by (cases "D = 0") (simp_all add: pos_imp_zdiv_nonneg_iff)
  moreover have "\<bar>sgn N * sgn D * q\<bar> \<le> \<bar>q\<bar>" for q by (simp add: abs_mult sgn_if)
  ultimately show ?thesis unfolding tdiv_def by (metis abs_of_nonneg order.trans)
qed

lemma rounded_division_wp:
  assumes n: "holds_int nm N" "\<bar>N\<bar> < int LB ^ i" and d: "holds_int d D" "\<bar>D\<bar> < int LB ^ j" "D \<noteq> 0"
    and neg: "N \<noteq> 0 \<Longrightarrow> neg = ((N < 0) \<noteq> (D < 0))" and mode: "bigdecimal_valid_rounding mode"
    and F: "F \<Longrightarrow> Suc (max i 1) \<le> BIGINT_MAX_LIMBS" "F \<Longrightarrow> Suc j \<le> BIGINT_MAX_LIMBS"
    and Q: "\<And>st c. doutcome u F False st (holds_int c (round_int mode (of_int N / of_int D))) True \<Longrightarrow> rspec u (f (st, c)) Q"
  shows "rspec u (State_Monad.bind (decimal_call (bigint_div_mod False q r nm d)) (\<lambda>(status, c, remainder).
      State_Monad.bind (if status = BIGDECIMAL_OK then bigdecimal_round_quotient c remainder d neg mode
        else State_Monad.return (status, c)) f)) Q"
proof (rule triple_bind, rule dcall_div_mod [OF n(1) d(1,3)], unfold prod.case, rule decimal_chain, goal_cases)
  case (1 st q' r')
  then have h: "holds_int q' (tdiv N D)" "holds_int r' (tmod N D)" by simp_all
  have sizes: "\<bar>tdiv N D\<bar> < int LB ^ i" "\<bar>tmod N D\<bar> < int LB ^ j"
    using n(2) d(2) tdiv_le [of N D] tmod_less [OF d(3), of N] by linarith+
  have "N \<noteq> 0" if "tmod N D \<noteq> 0" using that by (auto simp: tmod_def)
  then show ?case
    by (intro triple_bind [of _ "bigdecimal_round_quotient _ _ _ _ _"])
      (rule round_quotient_wp [where F = F, OF h(1) sizes(1) h(2) sizes(2) d(1,3) neg mode F]; simp add: Q)
next
  case (2 st q' r')
  then show ?case by (intro Q) (auto elim: doutcome_failI)
qed

section \<open>Rescaling is correct\<close>

text \<open>Rounding at a scale that is not below the number's own changes nothing.\<close>

lemma round_decimal_above:
  assumes "bigdecimal_valid_rounding mode" "decimal_val d = 0 \<or> scale d \<le> e"
  shows "round_decimal mode e (decimal_val d) = decimal_val d"
proof -
  obtain v where v: "decimal_val d * 10 powi e = of_int v"
  proof (cases "decimal_val d = 0")
    case False
    then have e: "0 \<le> e - scale d" using assms(2) by simp
    have "decimal_val d * 10 powi e = of_int (bigint_val (coefficient d)) * 10 powi (e - scale d)"
      by (simp add: decimal_val_def power_int_diff power_int_minus field_simps)
    also have "\<dots> = of_int (bigint_val (coefficient d) * 10 ^ nat (e - scale d))" unfolding powi_nat [OF e] by simp
    finally show ?thesis by (rule that)
  qed (use that [of 0] in simp)
  have "round_decimal mode e (decimal_val d) = (decimal_val d * 10 powi e) * 10 powi (- e)"
    unfolding round_decimal_def v round_int_of_int [OF assms(1)] ..
  also have "\<dots> = decimal_val d" by (simp add: power_int_minus)
  finally show ?thesis .
qed

definition rescale_fits :: "BigDecimal \<Rightarrow> int \<Rightarrow> bool" where
  "rescale_fits d e \<longleftrightarrow> bsize (coefficient d) + 2 \<le> BIGINT_MAX_LIMBS \<and> ten_fits (nat (scale d - e)) 0"

lemma decimal_mag_less: "bigint_wf c \<Longrightarrow> \<bar>bigint_val c\<bar> < int LB ^ bsize c"
  using mag_less [of "limbs c"] by (metis abs_bigint_val of_nat_less_iff of_nat_power)

lemma rescale_wp:
  assumes v: "decimal_wf v" and same: "same \<Longrightarrow> r = v" and e: "in_i64 e" and mode: "bigdecimal_valid_rounding mode"
    and Q: "\<And>st r'. doutcome u (rescale_fits v e) (\<not> decimal_representable (round_decimal mode e (decimal_val v))) st
      (decimal_wf r' \<and> decimal_val r' = round_decimal mode e (decimal_val v)) (r' = r) \<Longrightarrow> Q (st, r')"
  shows "rspec u (bigdecimal_rescale same r v e mode) Q"
proof (cases "decimal_val v = 0 \<or> scale v \<le> e")
  case True
  have "rspec u (bigdecimal_copy same r v) Q"
    by (rule decimal_copy_wp [OF v same], assumption, rule Q, unfold round_decimal_above [OF mode True])
      (auto elim: doutcome_mono)
  then show ?thesis
    using True mode decimal_wfD(3) [OF v]
    by (auto simp: bigdecimal_rescale_def is_zero_iff decimal_val_0_iff)
next
  case False
  let ?c = "bigint_val (coefficient v)"
  let ?F = "rescale_fits v e"
  note vd = decimal_wfD [OF v]
  have c: "?c \<noteq> 0" "scale v > e" using False by (simp_all add: decimal_val_0_iff)
  define k where "k = (of_int (scale v - e) :: u64)"
  have k: "unat k = nat (scale v - e)" unfolding k_def by (rule scale_difference(2) [OF vd(2) e less_imp_le [OF c(2)]])
  have powi: "(10 :: rat) powi (scale v - e) = of_int (10 ^ unat k)" unfolding k using c by (intro powi_nat) simp
  have x: "decimal_val v * 10 powi e = of_int ?c / of_int (10 ^ unat k)"
    unfolding powi [symmetric] by (simp add: decimal_val_def power_int_diff power_int_minus field_simps)
  have res: "decimal_val \<lparr>coefficient = q, scale = e\<rparr> = round_decimal mode e (decimal_val v)"
    if "holds_int q (round_int mode (of_int ?c / of_int (10 ^ unat k)))" for q
    using that unfolding round_decimal_def x by (simp add: decimal_val_def holds_int_def)
  have fail: "Q (st, r)" if "doutcome u ?F False st good bad" "st \<noteq> BIGDECIMAL_OK" for st good bad
    using that by (intro Q) (auto elim: doutcome_failI)
  have oom: "Q (BIGDECIMAL_OUT_OF_MEMORY, r)" if "\<not> u" using that by (intro Q) simp
  have ten: "?F \<Longrightarrow> ten_fits (unat k) 0" unfolding k by (simp add: rescale_fits_def)
  have z: "\<not> bigint_is_zero (coefficient v)" "\<not> e \<ge> scale v" using c vd(3) by (auto simp: is_zero_iff)
  have main: "rspec u (do {
      (status, divisor) \<leftarrow> bigdecimal_set_power_of_ten bigint_init k;
      (status, c, remainder) \<leftarrow> (if status = BIGDECIMAL_OK
         then decimal_call (bigint_div_mod False bigint_init bigint_init (coefficient v) divisor)
         else State_Monad.return (status, bigint_init, bigint_init));
      (status, c) \<leftarrow> (if status = BIGDECIMAL_OK
         then bigdecimal_round_quotient c remainder divisor (bigint_is_negative (coefficient v)) mode
         else State_Monad.return (status, c));
      if status = BIGDECIMAL_OK then bigdecimal_finish r \<lparr>coefficient = c, scale = e\<rparr>
      else State_Monad.return (status, r)
    }) Q"
  proof (rule triple_bind, rule set_power_of_ten_wp [where F = ?F, OF ten], assumption, unfold prod.case, rule decimal_chain, goal_cases)
    case (1 st d)
    then have d: "holds_int d (10 ^ unat k)" by simp
    have sign: "bigint_is_negative (coefficient v) = ((?c < 0) \<noteq> ((10 :: int) ^ unat k < 0))"
      using c vd(3) by (simp add: is_negative_iff)
    show ?case
    proof (rule rounded_division_wp [where F = ?F and j = "ten_limbs (unat k)", OF vd(1) decimal_mag_less [OF vd(3)] d _ _ sign mode], goal_cases)
      case 1
      then show ?case using ten_limbs [of "unat k"] by simp
    next
      case (5 st q)
      then show ?case
        using e by (auto intro!: triple_if triple_return finish_wp Q simp: res holds_intD elim: doutcome_mono doutcome_failI)
    qed (use ten in \<open>auto simp: rescale_fits_def ten_fits_def\<close>)
next
    case (2 st d)
    then show ?case using fail by (auto intro!: triple_return)
  qed
  have valid: "\<not> \<not> bigdecimal_valid_rounding mode" using mode by simp
  show ?thesis
    unfolding bigdecimal_rescale_def if_not_P [OF valid] if_not_P [OF z(1)] if_not_P [OF z(2)]
      scale_difference(1) [OF vd(2) e less_imp_le [OF c(2)]] prod.case k_def [symmetric]
    by (simp only: simp_thms if_False, rule decimal_create_bind; rule objects_bind)
      (simp_all only: option.case BigDecimal.select_convs simp_thms if_True if_False main triple_return [of Q] oom)
qed

section \<open>Significant digits\<close>

text \<open>The decade of a number, which says where its leading digit stands.\<close>

definition decade :: "int \<Rightarrow> rat \<Rightarrow> bool" where
  "decade e x \<longleftrightarrow> 10 powi e \<le> \<bar>x\<bar> \<and> \<bar>x\<bar> < 10 powi (e + 1)"

abbreviation digit_count :: "BigDecimal \<Rightarrow> nat" where
  "digit_count d \<equiv> length (numeral_digits 10 (bigint_mag (coefficient d)))"

lemma decade_unique: "decade a x \<Longrightarrow> decade b x \<Longrightarrow> a = b"
proof (rule ccontr)
  assume d: "decade a x" "decade b x" and "a \<noteq> b"
  then have "a + 1 \<le> b \<or> b + 1 \<le> a" by linarith
  then show False
    using d powi_mono [of "a + 1" b] powi_mono [of "b + 1" a] unfolding decade_def by (elim disjE) linarith+
qed

lemma decade_val:
  assumes "decimal_val d \<noteq> 0"
  shows "decade (int (digit_count d) - 1 - scale d) (decimal_val d)"
proof -
  have "bigint_mag (coefficient d) \<noteq> 0" using assms by (auto simp: decimal_val_0_iff val_0_mag)
  from decimal_magnitude [OF this, of "scale d"] show ?thesis
    unfolding decade_def decimal_val_mag by (simp add: algebra_simps)
qed

lemma round_int_nonzero:
  assumes "bigdecimal_valid_rounding mode" "1 \<le> \<bar>y\<bar>"
  shows "round_int mode y \<noteq> 0"
proof (cases "y < 0")
  case True
  then have "\<lfloor>y\<rfloor> \<le> - 1" "\<lceil>y\<rceil> \<le> - 1" "\<lceil>y - 1 / 2\<rceil> \<le> - 1" "\<lfloor>y + 1 / 2\<rfloor> \<le> - 1"
    using assms(2) by (simp_all add: ceiling_le_iff floor_le_iff)
  then have "\<lfloor>y\<rfloor> \<noteq> 0" "\<lceil>y\<rceil> \<noteq> 0" "\<lceil>y - 1 / 2\<rceil> \<noteq> 0" "\<lfloor>y + 1 / 2\<rfloor> \<noteq> 0" by linarith+
  then show ?thesis using True assms(1) by (cases mode) (auto simp: round_int_def bigdecimal_valid_rounding_def)
next
  case False
  then have "1 \<le> \<lfloor>y\<rfloor>" "1 \<le> \<lceil>y\<rceil>" "1 \<le> \<lfloor>y + 1 / 2\<rfloor>"
    using assms(2) by (simp_all add: le_floor_iff le_ceiling_iff)
  then have "\<lfloor>y\<rfloor> \<noteq> 0" "\<lceil>y\<rceil> \<noteq> 0" "\<lfloor>y + 1 / 2\<rfloor> \<noteq> 0" by linarith+
  then show ?thesis using False assms(1) by (cases mode) (auto simp: round_int_def bigdecimal_valid_rounding_def)
qed

lemma scaled_not_representable:
  assumes "q \<noteq> 0" "t < INT64_MIN"
  shows "\<not> decimal_representable (of_int q * 10 powi (- t))"
proof
  assume "decimal_representable (of_int q * 10 powi (- t))"
  then obtain d where d: "decimal_wf d" "decimal_val d = of_int q * 10 powi (- t)"
    by (auto simp: decimal_representable_def)
  have t: "t < scale d" using d(1) assms(2) by (simp add: decimal_wf_def in_i64_def)
  have "(of_int (bigint_val (coefficient d)) :: rat) = decimal_val d * 10 powi (scale d)"
    by (simp add: decimal_val_def power_int_minus)
  also have "\<dots> = of_int q * 10 powi (scale d - t)" unfolding d(2) by (simp add: power_int_diff power_int_minus divide_inverse ac_simps)
  also have "\<dots> = of_int (q * 10 ^ nat (scale d - t))" using t powi_nat [of "scale d - t"] by simp
  finally have c: "bigint_val (coefficient d) = q * 10 ^ nat (scale d - t)" by (simp only: of_int_eq_iff)
  have "nat (scale d - t) \<noteq> 0" using t by simp
  then have "10 dvd bigint_val (coefficient d)" unfolding c by (intro dvd_mult dvd_power) simp
  moreover have "bigint_val (coefficient d) \<noteq> 0" unfolding c using assms(1) by simp
  ultimately show False using d(1) by (simp add: decimal_wf_def)
qed

text \<open>A rounding to \<open>k\<close> digits whose scale underflows has no representable result.\<close>

lemma significant_overflow:
  assumes mode: "bigdecimal_valid_rounding mode" and x: "decade e x" and k: "1 \<le> k" and t: "k - 1 - e < INT64_MIN"
  shows "\<not> decimal_representable (round_decimal mode (k - 1 - e) x)"
proof -
  have "(1 :: rat) \<le> 10 powi (k - 1)" using powi_mono [of 0 "k - 1"] k by simp
  also have "\<dots> = 10 powi e * 10 powi (k - 1 - e)" using powi_split [of e "k - 1 - e"] by simp
  also have "\<dots> \<le> \<bar>x\<bar> * 10 powi (k - 1 - e)" using x by (intro mult_right_mono) (simp_all add: decade_def)
  also have "\<dots> = \<bar>x * 10 powi (k - 1 - e)\<bar>" by (simp add: abs_mult)
  finally show ?thesis
    unfolding round_decimal_def by (intro scaled_not_representable round_int_nonzero mode t)
qed

lemma round_significant_wp:
  assumes v: "decimal_wf v" and same: "same \<Longrightarrow> r = v" and k: "1 \<le> k" "in_i64 k" and mode: "bigdecimal_valid_rounding mode"
    and e: "decimal_val v = 0 \<or> decade e (decimal_val v)"
    and Q: "\<And>st r'. doutcome u (rescale_fits v (k - 1 - e))
        (INT64_MAX < int (digit_count v) \<or> \<not> decimal_representable (round_decimal mode (k - 1 - e) (decimal_val v))) st
      (decimal_wf r' \<and> decimal_val r' = round_decimal mode (k - 1 - e) (decimal_val v)) (r' = r) \<Longrightarrow> Q (st, r')"
  shows "rspec u (bigdecimal_round_significant same r v k mode) Q"
proof -
  note vd = decimal_wfD [OF v]
  have zero: "bigint_is_zero (coefficient v) \<longleftrightarrow> decimal_val v = 0" using vd(3) by (simp add: is_zero_iff decimal_val_0_iff)
  have valid: "\<not> (k < 1 \<or> \<not> bigdecimal_valid_rounding mode)" using k mode by simp
  have copy: "rspec u (bigdecimal_copy same r v) Q" if "decimal_val v = 0 \<or> scale v \<le> k - 1 - e"
    by (rule decimal_copy_wp [OF v same], assumption, rule Q, unfold round_decimal_above [OF mode that])
      (auto elim: doutcome_mono)
  show ?thesis
  proof (cases "decimal_val v = 0")
    case True
    then show ?thesis using copy by (simp only: bigdecimal_round_significant_def if_not_P [OF valid] zero if_True simp_thms)
  next
    case False
    let ?n = "digit_count v"
    from decade_unique [OF decade_val [OF False]] e False have e': "e = int ?n - 1 - scale v" by auto
    have oom: "Q (BIGDECIMAL_OUT_OF_MEMORY, r)" if "\<not> u" using that by (intro Q) simp
    show ?thesis
      unfolding bigdecimal_round_significant_def if_not_P [OF valid] zero if_not_P [OF False] Let_def
    proof (rule triple_bind, rule decimal_call_wp, rule decimal_digits_wp [OF vd(3)], unfold prod.case, goal_cases)
      case (1 st n)
      note digits = doutcome_of_outcome [OF 1]
      show ?case
      proof (cases "bigdecimal_from_bigint_status st = BIGDECIMAL_OK")
        case ok: True
        with digits have n: "n = ?n" by simp
        have target: "scale v - int (?n - nat k) = k - 1 - e" if "\<not> int ?n \<le> k" using that k by (simp add: e')
        show ?thesis
          unfolding ok n
        proof (simp only: simp_thms if_False, intro triple_if, goal_cases)
          case 1
          then show ?case by (intro copy) (simp add: e')
        next
          case 2
          then show ?case using k by (intro triple_return Q) simp
        next
          case 3
          then have d: "in_i64 (int (?n - nat k))" by (simp add: in_i64_def INT64_MIN_def)
          show ?case
          proof (cases "in_i64 (k - 1 - e)")
            case True
            then have "bigdecimal_i64_sub (scale v) (int (?n - nat k)) = Some (k - 1 - e)"
              using i64_sub_iff [OF vd(2) d, unfolded target [OF 3(1)]] by (simp only: if_True if_False)
            then show ?thesis
              by (simp only: option.case) (rule rescale_wp [OF v same True mode], assumption, rule Q, auto elim: doutcome_mono)
          next
            case False
            then have "bigdecimal_i64_sub (scale v) (int (?n - nat k)) = None"
              using i64_sub_iff [OF vd(2) d, unfolded target [OF 3(1)]] by (simp only: if_True if_False)
            moreover have "k - 1 - e < INT64_MIN"
              using False vd(2) target [OF 3(1)] unfolding in_i64_def by linarith
            ultimately show ?thesis
              using significant_overflow [OF mode _ k(1)] e \<open>decimal_val v \<noteq> 0\<close> by (simp add: triple_return Q)
          qed
        qed
      next
        case False
        with digits have "Q (bigdecimal_from_bigint_status st, r)" by (intro Q) (auto elim: doutcome_failI)
        with False show ?thesis by (simp add: triple_return)
      qed
    qed
  qed
qed

section \<open>Properties\<close>

text \<open>C16: Rescaling a decimal to a scale is rounding its value to that many places after the point in the
  mode that is asked for: the integer next to the scaled value that floor, ceiling or the nearest
  rule selects, ties away from zero or to even. The mode is checked first; the result is canonical, the scale
  overflows only when no object can hold the result, and on failure the destination is unchanged.\<close>

theorem bigdecimal_rescale_correct:
  assumes "\<not> stuck s" "decimal_wf v" "same \<Longrightarrow> r = v" "in_i64 e"
  shows "case run_state (bigdecimal_rescale same r v e mode) s of ((st, r'), s') \<Rightarrow> \<not> stuck s' \<and>
    (if bigdecimal_valid_rounding mode
     then doutcome (unlimited s) (rescale_fits v e) (\<not> decimal_representable (round_decimal mode e (decimal_val v))) st
       (decimal_wf r' \<and> decimal_val r' = round_decimal mode e (decimal_val v)) (r' = r)
     else st = BIGDECIMAL_INVALID_ARGUMENT \<and> r' = r)"
proof (cases "bigdecimal_valid_rounding mode")
  case True
  then show ?thesis
    by (intro rspec_run2 [OF _ assms(1)] rescale_wp [OF assms(2-4)]) auto
next
  case False
  then show ?thesis using assms(1) by (simp add: bigdecimal_rescale_def)
qed

text \<open>1.2 and -1.2 to no places, in each mode\<close>

theorem bigdecimal_rescale_correct_witness:
  "case run_state (bigdecimal_rescale False (example_decimal 5 2) (example_decimal 12 1) 0 BIGDECIMAL_ROUND_CEILING) idle_runtime of
     ((st, r'), s') \<Rightarrow> st = BIGDECIMAL_OK \<and> decimal_wf r' \<and> decimal_val r' = 2"
proof -
  have fits: "rescale_fits (example_decimal 12 1) 0"
    by (simp add: rescale_fits_def ten_fits_def ten_limbs_def example_decimal_def bsize_wrap_uint64 max_limbs_numeral SIZE_MAX_def)
  have r: "round_decimal BIGDECIMAL_ROUND_CEILING 0 (6 / 5) = 2"
    by (simp add: round_decimal_def round_int_def ceiling_unique)
  have "decimal_representable 2"
    using integer_representable [of "bigint_wrap_uint64 2"] by simp
  then show ?thesis
    using bigdecimal_rescale_correct [of idle_runtime "example_decimal 12 1" False "example_decimal 5 2" 0 BIGDECIMAL_ROUND_CEILING]
    by (auto simp: doutcome_def example_decimals fits r in_i64_def INT64_MIN_def INT64_MAX_def bigdecimal_valid_rounding_def
      split: prod.splits if_splits)
qed

text \<open>C24: Rounding to a number of significant digits rounds at the scale that puts the last digit kept
  \<open>k - 1\<close> places below the leading digit, whatever the scale of the operand. The scale
  overflows only when no object can hold the result, or for operands with more than
  \<^verbatim>\<open>INT64_MAX\<close> digits.\<close>

theorem bigdecimal_round_significant_correct:
  assumes "\<not> stuck s" "decimal_wf v" "same \<Longrightarrow> r = v" "1 \<le> k" "in_i64 k" "bigdecimal_valid_rounding mode"
    and "decimal_val v = 0 \<or> decade e (decimal_val v)"
  shows "case run_state (bigdecimal_round_significant same r v k mode) s of ((st, r'), s') \<Rightarrow> \<not> stuck s' \<and>
    doutcome (unlimited s) (rescale_fits v (k - 1 - e))
      (INT64_MAX < int (digit_count v) \<or> \<not> decimal_representable (round_decimal mode (k - 1 - e) (decimal_val v))) st
      (decimal_wf r' \<and> decimal_val r' = round_decimal mode (k - 1 - e) (decimal_val v)) (r' = r)"
  by (rule rspec_run2 [OF _ assms(1)], rule round_significant_wp [OF assms(2-7)]) auto

theorem bigdecimal_round_significant_correct_witness:
  "case run_state (bigdecimal_round_significant True (example_decimal 12 1) (example_decimal 12 1) 1 BIGDECIMAL_ROUND_HALF_EVEN)
      idle_runtime of ((st, r'), s') \<Rightarrow> st = BIGDECIMAL_OK \<and> decimal_wf r' \<and> decimal_val r' = 1"
proof -
  have fits: "rescale_fits (example_decimal 12 1) 0"
    by (simp add: rescale_fits_def ten_fits_def ten_limbs_def example_decimal_def bsize_wrap_uint64 max_limbs_numeral SIZE_MAX_def)
  have fl: "\<lfloor>6 / 5 :: rat\<rfloor> = 1" by (simp add: floor_unique)
  have r: "round_decimal BIGDECIMAL_ROUND_HALF_EVEN 0 (6 / 5) = 1"
    by (simp add: round_decimal_def round_int_def frac_def fl floor_unique)
  have d: "decade 0 (6 / 5)" by (simp add: decade_def)
  have rep: "decimal_representable 1" using integer_representable [of "bigint_wrap_uint64 1"] by simp
  have n: "digit_count (example_decimal 12 1) = 2"
    by (simp add: example_decimal_def numeral_digits.simps bigint_wrap_uint64_def)
  show ?thesis
    using bigdecimal_round_significant_correct [of idle_runtime "example_decimal 12 1" True "example_decimal 12 1" 1
        BIGDECIMAL_ROUND_HALF_EVEN 0]
    by (auto simp: doutcome_def example_decimals fits r d rep n in_i64_def INT64_MIN_def INT64_MAX_def bigdecimal_valid_rounding_def
      split: prod.splits if_splits)
qed

end
