(* ===== verification/Decimal_Division.thy ===== *)
theory Decimal_Division
  imports Decimal_Rounding
begin

text \<open>
  Division of decimals: the rest of \<^verbatim>\<open>src/core/bigdecimal/division.c\<close>.

  Division to a scale, to a number of significant digits, and the division that is exact when the
  quotient has a finite decimal expansion. All three round through \<open>bigdecimal_round_quotient\<close>.
\<close>

section \<open>Division to a scale\<close>

text \<open>The two orders in which the power of ten between the coefficients is computed.\<close>

definition division_exponent :: "int \<Rightarrow> int \<Rightarrow> int \<Rightarrow> int option" where
  "division_exponent target_scale b_scale a_scale =
    (case Option.bind (bigdecimal_i64_add target_scale b_scale) (\<lambda>exponent. bigdecimal_i64_sub exponent a_scale) of
       Some exponent \<Rightarrow> Some exponent
     | None \<Rightarrow> Option.bind (bigdecimal_i64_sub target_scale a_scale) (\<lambda>exponent. bigdecimal_i64_add exponent b_scale))"

text \<open>\<open>same\<close> says whether the result and the dividend are the same object.\<close>

definition bigdecimal_div ::
  "bool \<Rightarrow> BigDecimal \<Rightarrow> BigDecimal \<Rightarrow> BigDecimal \<Rightarrow> int \<Rightarrow> BigDecimalRoundingMode \<Rightarrow> (BigDecimalStatus \<times> BigDecimal) rt" where
  "bigdecimal_div same result a b target_scale rounding =
    (if \<not> bigdecimal_valid_rounding rounding then State_Monad.return (BIGDECIMAL_INVALID_ARGUMENT, result)
     else if bigint_is_zero (coefficient b) then State_Monad.return (BIGDECIMAL_DIVISION_BY_ZERO, result)
     else if bigint_is_zero (coefficient a) then bigdecimal_copy same result a
     else
       (case division_exponent target_scale (scale b) (scale a) of
          None \<Rightarrow> State_Monad.return (BIGDECIMAL_SCALE_OVERFLOW, result)
        | Some exponent \<Rightarrow> do {
            created \<leftarrow> bigdecimal_create;
            others \<leftarrow> create_objects (if exponent \<noteq> 0 then 2 else 1);
            case created of
              None \<Rightarrow> State_Monad.return (BIGDECIMAL_OUT_OF_MEMORY, result)
            | Some temporary \<Rightarrow>
                if \<not> others then State_Monad.return (BIGDECIMAL_OUT_OF_MEMORY, result)
                else do {
                  (status, scaled) \<leftarrow>
                    (if exponent > 0 then bigdecimal_multiply_power_of_ten bigint_init (coefficient a) (of_int exponent)
                     else if exponent < 0
                     then bigdecimal_multiply_power_of_ten bigint_init (coefficient b) (bigdecimal_abs_i64 exponent)
                     else State_Monad.return (BIGDECIMAL_OK, bigint_init));
                  let numerator = (if exponent > 0 then scaled else coefficient a);
                  let divisor = (if exponent < 0 then scaled else coefficient b);
                  (status, c, remainder) \<leftarrow> (if status = BIGDECIMAL_OK
                     then decimal_call (bigint_div_mod False (coefficient temporary) bigint_init numerator divisor)
                     else State_Monad.return (status, coefficient temporary, bigint_init));
                  (status, c) \<leftarrow> (if status = BIGDECIMAL_OK
                     then bigdecimal_round_quotient c remainder divisor
                       (bigint_is_negative (coefficient a) \<noteq> bigint_is_negative (coefficient b)) rounding
                     else State_Monad.return (status, c));
                  if status = BIGDECIMAL_OK then bigdecimal_finish result \<lparr>coefficient = c, scale = target_scale\<rparr>
                  else State_Monad.return (status, result)
                }
          }))"

section \<open>Significant digits\<close>

function align_digits_loop :: "u64 \<Rightarrow> BigInt \<Rightarrow> (BigDecimalStatus \<times> BigInt \<times> u64) rt" where
  "align_digits_loop places aligned =
    (if places \<ge> 19 then do {
       go \<leftarrow> numforge_budget_check;
       if \<not> go then State_Monad.return (BIGDECIMAL_OUT_OF_MEMORY, aligned, places)
       else do {
         (status, aligned) \<leftarrow> decimal_call (bigint_multiply_by_uint64 aligned 10000000000000000000);
         if status = BIGDECIMAL_OK then align_digits_loop (places - 19) aligned
         else State_Monad.return (status, aligned, places - 19)
       }
     }
     else State_Monad.return (BIGDECIMAL_OK, aligned, places))"
  by pat_completeness auto

termination
proof (relation "measure (\<lambda>(places, aligned). unat places)", goal_cases)
  case (2 places aligned)
  then show ?case by (auto simp: unat_sub word_le_nat_alt)
qed simp

declare align_digits_loop.simps [simp del]

text \<open>The power of ten for the places left over.\<close>

primrec last_factor :: "nat \<Rightarrow> u64 \<Rightarrow> u64" where
  "last_factor 0 f = f"
| "last_factor (Suc places) f = last_factor places (f * 10)"

definition bigdecimal_align_coefficient_digits ::
  "BigInt \<Rightarrow> BigInt \<Rightarrow> u64 \<Rightarrow> (BigDecimalStatus \<times> BigInt) rt" where
  "bigdecimal_align_coefficient_digits aligned value places = do {
     (status, aligned) \<leftarrow> decimal_call (bigint_copy aligned value);
     (status, aligned, places) \<leftarrow> (if status = BIGDECIMAL_OK then align_digits_loop places aligned
       else State_Monad.return (status, aligned, places));
     if status \<noteq> BIGDECIMAL_OK then State_Monad.return (status, aligned)
     else do {
       let last = last_factor (unat places) 1;
       go \<leftarrow> numforge_budget_check;
       if \<not> go then State_Monad.return (BIGDECIMAL_OUT_OF_MEMORY, aligned)
       else decimal_call (bigint_multiply_by_uint64 aligned last)
     }
   }"

definition bigdecimal_significant_target ::
  "BigDecimal \<Rightarrow> BigDecimal \<Rightarrow> int \<Rightarrow> BigInt \<Rightarrow> int \<Rightarrow> (BigDecimalStatus \<times> BigInt \<times> int) rt" where
  "bigdecimal_significant_target a b digits aligned target = do {
     (status, a_length) \<leftarrow> decimal_call (bigint_decimal_digits (coefficient a) 0);
     (status, b_length) \<leftarrow> (if status = BIGDECIMAL_OK then decimal_call (bigint_decimal_digits (coefficient b) 0)
       else State_Monad.return (status, 0));
     if status \<noteq> BIGDECIMAL_OK then State_Monad.return (status, aligned, target)
     else if int a_length > INT64_MAX \<or> int b_length > INT64_MAX
     then State_Monad.return (BIGDECIMAL_VALUE_TOO_LARGE, aligned, target)
     else do {
       (status, aligned, comparison) \<leftarrow>
         (if a_length = b_length
          then State_Monad.return (BIGDECIMAL_OK, aligned, bigint_compare_abs (coefficient a) (coefficient b))
          else if a_length < b_length then do {
            (status, aligned) \<leftarrow> bigdecimal_align_coefficient_digits aligned (coefficient a) (of_nat (b_length - a_length));
            State_Monad.return (status, aligned,
              if status = BIGDECIMAL_OK then bigint_compare_abs aligned (coefficient b) else 0)
          }
          else do {
            (status, aligned) \<leftarrow> bigdecimal_align_coefficient_digits aligned (coefficient b) (of_nat (a_length - b_length));
            State_Monad.return (status, aligned,
              if status = BIGDECIMAL_OK then bigint_compare_abs (coefficient a) aligned else 0)
          });
       if status \<noteq> BIGDECIMAL_OK then State_Monad.return (status, aligned, target)
       else
         (let exponent = int a_length - int b_length;
              exponent = (if comparison < 0 then exponent - 1 else exponent)
          in case bigdecimal_i64_sub (digits - 1) exponent of
               None \<Rightarrow> State_Monad.return (BIGDECIMAL_SCALE_OVERFLOW, aligned, target)
             | Some selected_target \<Rightarrow> State_Monad.return (BIGDECIMAL_OK, aligned, selected_target))
     }
   }"

text \<open>The three orders in which the scales of the operands are put on the quotient of the
  coefficients.\<close>

definition quotient_scale :: "int \<Rightarrow> int \<Rightarrow> int \<Rightarrow> int option" where
  "quotient_scale s a_scale b_scale =
    (case Option.bind (bigdecimal_i64_add s a_scale) (\<lambda>x. bigdecimal_i64_sub x b_scale) of
       Some x \<Rightarrow> Some x
     | None \<Rightarrow>
         (case Option.bind (bigdecimal_i64_sub s b_scale) (\<lambda>x. bigdecimal_i64_add x a_scale) of
            Some x \<Rightarrow> Some x
          | None \<Rightarrow> Option.bind (bigdecimal_i64_sub a_scale b_scale) (\<lambda>x. bigdecimal_i64_add x s)))"

definition bigdecimal_div_significant ::
  "bool \<Rightarrow> BigDecimal \<Rightarrow> BigDecimal \<Rightarrow> BigDecimal \<Rightarrow> int \<Rightarrow> BigDecimalRoundingMode \<Rightarrow> (BigDecimalStatus \<times> BigDecimal) rt" where
  "bigdecimal_div_significant same result a b digits rounding =
    (if digits < 1 \<or> \<not> bigdecimal_valid_rounding rounding
     then State_Monad.return (BIGDECIMAL_INVALID_ARGUMENT, result)
     else if bigint_is_zero (coefficient b) then State_Monad.return (BIGDECIMAL_DIVISION_BY_ZERO, result)
     else if bigint_is_zero (coefficient a) then bigdecimal_copy same result a
     else do {
       (status, aligned, target) \<leftarrow> bigdecimal_significant_target a b digits bigint_init 0;
       if status \<noteq> BIGDECIMAL_OK then State_Monad.return (status, result)
       else do {
         created \<leftarrow> bigdecimal_create;
         case created of
           None \<Rightarrow> State_Monad.return (BIGDECIMAL_OUT_OF_MEMORY, result)
         | Some temporary \<Rightarrow> do {
             (status, temporary) \<leftarrow> bigdecimal_div False temporary (a\<lparr>scale := 0\<rparr>) (b\<lparr>scale := 0\<rparr>) target rounding;
             let (status, temporary) = (if status = BIGDECIMAL_OK \<and> \<not> bigint_is_zero (coefficient temporary)
               then case quotient_scale (scale temporary) (scale a) (scale b) of
                      None \<Rightarrow> (BIGDECIMAL_SCALE_OVERFLOW, temporary)
                    | Some s \<Rightarrow> (status, temporary\<lparr>scale := s\<rparr>)
               else (status, temporary));
             State_Monad.return (status,
               if status = BIGDECIMAL_OK then bigdecimal_commit result temporary else result)
           }
       }
     })"

section \<open>Exact or significant\<close>

text \<open>The loop that divides the denominator by one factor and counts; it ends because the
  denominator shrinks, and its bits are enough fuel.\<close>

primrec divide_out_loop :: "nat \<Rightarrow> BigInt \<Rightarrow> BigInt \<Rightarrow> int \<Rightarrow> (BigDecimalStatus \<times> BigInt \<times> int) rt" where
  "divide_out_loop 0 denom factor count = out_of_fuel (BIGDECIMAL_OK, denom, count)"
| "divide_out_loop (Suc fuel) denom factor count =
    (if bigint_is_one denom then State_Monad.return (BIGDECIMAL_OK, denom, count)
     else do {
       go \<leftarrow> numforge_budget_check;
       if \<not> go then State_Monad.return (BIGDECIMAL_OUT_OF_MEMORY, denom, count)
       else do {
         (status, quot, remainder) \<leftarrow> decimal_call (bigint_div_mod False bigint_init bigint_init denom factor);
         if status \<noteq> BIGDECIMAL_OK \<or> \<not> bigint_is_zero remainder
         then State_Monad.return (status, denom, count)
         else if count = INT64_MAX then State_Monad.return (BIGDECIMAL_SCALE_OVERFLOW, denom, count)
         else do {
           (status, denom) \<leftarrow> decimal_call (bigint_copy denom quot);
           if status = BIGDECIMAL_OK then divide_out_loop fuel denom factor (count + 1)
           else State_Monad.return (status, denom, count + 1)
         }
       }
     })"

definition divide_out :: "string \<Rightarrow> BigInt \<Rightarrow> BigInt \<Rightarrow> (BigDecimalStatus \<times> BigInt \<times> BigInt \<times> int) rt" where
  "divide_out text denom factor = do {
     (status, factor) \<leftarrow> decimal_call (bigint_set_string factor text);
     (status, denom, count) \<leftarrow> (if status = BIGDECIMAL_OK
       then divide_out_loop (bigint_mag denom + 1) denom factor 0
       else State_Monad.return (status, denom, 0));
     State_Monad.return (status, denom, factor, count)
   }"

definition bigdecimal_div_exact_or_significant ::
  "bool \<Rightarrow> BigDecimal \<Rightarrow> BigDecimal \<Rightarrow> BigDecimal \<Rightarrow> int \<Rightarrow> BigDecimalRoundingMode \<Rightarrow> (BigDecimalStatus \<times> BigDecimal) rt" where
  "bigdecimal_div_exact_or_significant same result a b digits rounding =
    (if digits < 1 \<or> \<not> bigdecimal_valid_rounding rounding
     then State_Monad.return (BIGDECIMAL_INVALID_ARGUMENT, result)
     else if bigint_is_zero (coefficient b) then State_Monad.return (BIGDECIMAL_DIVISION_BY_ZERO, result)
     else if bigint_is_zero (coefficient a) then bigdecimal_copy same result a
     else do {
       created \<leftarrow> create_objects 4;
       if \<not> created then State_Monad.return (BIGDECIMAL_OUT_OF_MEMORY, result)
       else do {
         (status, factor) \<leftarrow> decimal_call (bigint_gcd bigint_init (coefficient a) (coefficient b));
         (status, denominator) \<leftarrow> (if status = BIGDECIMAL_OK
           then decimal_call (bigint_div bigint_init (coefficient b) factor)
           else State_Monad.return (status, bigint_init));
         (status, denominator) \<leftarrow> (if status = BIGDECIMAL_OK
           then decimal_call (bigint_abs denominator denominator)
           else State_Monad.return (status, denominator));
         (status, denominator, factor, twos) \<leftarrow> (if status = BIGDECIMAL_OK
           then divide_out ''2'' denominator factor
           else State_Monad.return (status, denominator, factor, 0));
         (status, denominator, factor, fives) \<leftarrow> (if status = BIGDECIMAL_OK
           then divide_out ''5'' denominator factor
           else State_Monad.return (status, denominator, factor, 0));
         if status \<noteq> BIGDECIMAL_OK then State_Monad.return (status, result)
         else if bigint_is_one denominator then do {
           created \<leftarrow> bigdecimal_create;
           case created of
             None \<Rightarrow> State_Monad.return (BIGDECIMAL_OUT_OF_MEMORY, result)
           | Some temporary \<Rightarrow> do {
               (status, temporary) \<leftarrow> bigdecimal_div False temporary (a\<lparr>scale := 0\<rparr>) (b\<lparr>scale := 0\<rparr>)
                 (if twos > fives then twos else fives) rounding;
               if status \<noteq> BIGDECIMAL_OK then State_Monad.return (status, result)
               else case quotient_scale (scale temporary) (scale a) (scale b) of
                 None \<Rightarrow> State_Monad.return (BIGDECIMAL_SCALE_OVERFLOW, result)
               | Some s \<Rightarrow> State_Monad.return (BIGDECIMAL_OK, bigdecimal_commit result (temporary\<lparr>scale := s\<rparr>))
             }
         }
         else bigdecimal_div_significant same result a b digits rounding
       }
     })"

section \<open>Division to a scale is correct\<close>

lemma division_exponent_iff:
  assumes "in_i64 t" "in_i64 b" "in_i64 a"
  shows "division_exponent t b a = (if in_i64 (t + b - a) then Some (t + b - a) else None)"
proof -
  consider "in_i64 (t + b)" | "in_i64 (t - a)" "\<not> in_i64 (t + b)" | "\<not> in_i64 (t + b)" "\<not> in_i64 (t - a)" by blast
  then show ?thesis
  proof cases
    case 1
    then show ?thesis
      using assms by (auto simp: division_exponent_def i64_add_iff i64_sub_iff algebra_simps split: option.splits)
  next
    case 2
    then show ?thesis
      using assms by (auto simp: division_exponent_def i64_add_iff i64_sub_iff algebra_simps)
  next
    case 3
    then have "\<not> in_i64 (t + b - a)"
      using assms by (auto simp: in_i64_def INT64_MIN_def INT64_MAX_def)
    with 3 show ?thesis
      using assms by (simp add: division_exponent_def i64_add_iff i64_sub_iff)
  qed
qed

definition div_fits :: "BigDecimal \<Rightarrow> BigDecimal \<Rightarrow> int \<Rightarrow> bool" where
  "div_fits a b t \<longleftrightarrow> ten_fits (nat \<bar>t + scale b - scale a\<bar>) (bsize (coefficient a) + bsize (coefficient b) + 1)"

lemma ten_multiple_less:
  assumes "\<bar>x\<bar> < int LB ^ i"
  shows "\<bar>x * 10 ^ n\<bar> < int LB ^ (i + ten_limbs n)"
proof -
  have "\<bar>x * 10 ^ n\<bar> = \<bar>x\<bar> * 10 ^ n" by (simp add: abs_mult)
  also have "\<dots> \<le> \<bar>x\<bar> * int LB ^ ten_limbs n" by (intro mult_left_mono less_imp_le [OF ten_limbs]) simp
  also have "\<dots> < int LB ^ i * int LB ^ ten_limbs n" by (intro mult_strict_right_mono assms) (simp add: LB_def)
  finally show ?thesis by (simp add: power_add)
qed

lemma decimal_objects_bind:
  assumes "\<And>b. \<not> u \<Longrightarrow> rspec u (f None b) Q" "\<And>p. \<not> u \<Longrightarrow> rspec u (f (Some p) False) Q"
    and "rspec u (f (Some \<lparr>coefficient = bigint_init, scale = 0\<rparr>) True) Q"
  shows "rspec u (State_Monad.bind bigdecimal_create (\<lambda>p. State_Monad.bind (create_objects n) (f p))) Q"
  by (rule decimal_create_bind; rule objects_bind; use assms in \<open>simp\<close>)

lemma rounded_finish_wp:
  assumes c: "doutcome u F False st (holds_int c q) True" and t: "in_i64 t" and x: "x = of_int q * 10 powi (- t)"
    and Q: "\<And>st r'. doutcome u F (\<not> decimal_representable x) st (decimal_wf r' \<and> decimal_val r' = x) (r' = r) \<Longrightarrow> Q (st, r')"
  shows "rspec u (if st = BIGDECIMAL_OK then bigdecimal_finish r \<lparr>coefficient = c, scale = t\<rparr> else State_Monad.return (st, r)) Q"
proof (rule triple_if)
  assume "st = BIGDECIMAL_OK"
  with c have c: "holds_int c q" by simp
  then have "decimal_val \<lparr>coefficient = c, scale = t\<rparr> = x" by (simp add: decimal_val_def x holds_int_def)
  then show "rspec u (bigdecimal_finish r \<lparr>coefficient = c, scale = t\<rparr>) Q"
    using holds_intD(1) [OF c] t by (intro finish_wp Q) (auto elim: doutcome_mono)
next
  assume "st \<noteq> BIGDECIMAL_OK"
  with c show "rspec u (State_Monad.return (st, r)) Q" by (intro triple_return Q) (auto elim: doutcome_failI)
qed

lemma decimal_div_wp:
  assumes a: "decimal_wf a" and b: "decimal_wf b" and same: "same \<Longrightarrow> r = a" and t: "in_i64 t"
    and mode: "bigdecimal_valid_rounding mode"
    and Q: "\<And>st r'. (if decimal_val b = 0 then st = BIGDECIMAL_DIVISION_BY_ZERO \<and> r' = r
      else doutcome u (div_fits a b t) (\<not> in_i64 (t + scale b - scale a) \<or>
          \<not> decimal_representable (round_decimal mode t (decimal_val a / decimal_val b))) st
        (decimal_wf r' \<and> decimal_val r' = round_decimal mode t (decimal_val a / decimal_val b)) (r' = r)) \<Longrightarrow> Q (st, r')"
  shows "rspec u (bigdecimal_div same r a b t mode) Q"
proof -
  note ad = decimal_wfD [OF a] and bd = decimal_wfD [OF b]
  let ?a = "bigint_val (coefficient a)" and ?b = "bigint_val (coefficient b)" and ?F = "div_fits a b t"
  define ex where "ex = t + scale b - scale a"
  have valid: "\<not> \<not> bigdecimal_valid_rounding mode" using mode by simp
  have zero: "bigint_is_zero (coefficient a) \<longleftrightarrow> decimal_val a = 0" "bigint_is_zero (coefficient b) \<longleftrightarrow> decimal_val b = 0"
    using ad(3) bd(3) by (simp_all add: is_zero_iff decimal_val_0_iff)
  consider "decimal_val b = 0" | "decimal_val b \<noteq> 0" "decimal_val a = 0" | "decimal_val b \<noteq> 0" "decimal_val a \<noteq> 0" "\<not> in_i64 ex"
    | "decimal_val b \<noteq> 0" "decimal_val a \<noteq> 0" "in_i64 ex" by blast
  then show ?thesis
  proof cases
    case 1
    then show ?thesis using mode zero by (auto simp: bigdecimal_div_def intro!: triple_return Q)
  next
    case 2
    have "round_decimal mode t 0 = 0" using mode round_int_of_int [of mode 0] by (simp add: round_decimal_def)
    then have "rspec u (bigdecimal_copy same r a) Q"
      by (intro decimal_copy_wp [OF a same] Q) (use 2 in \<open>auto elim: doutcome_mono\<close>)
    then show ?thesis using 2 mode zero by (simp add: bigdecimal_div_def)
  next
    case 3
    then have "division_exponent t (scale b) (scale a) = None"
      using division_exponent_iff [OF t bd(2) ad(2)] by (simp add: ex_def)
    then show ?thesis using 3 mode zero by (auto simp: bigdecimal_div_def ex_def intro!: triple_return Q)
  next
    case 4
    let ?x = "decimal_val a / decimal_val b"
    have exponent: "division_exponent t (scale b) (scale a) = Some ex"
      using division_exponent_iff [OF t bd(2) ad(2)] 4 by (simp add: ex_def)
    have vals: "?a \<noteq> 0" "?b \<noteq> 0" using 4 by (simp_all add: decimal_val_0_iff)
    have x: "?x * 10 powi t = of_int ?a / of_int ?b * 10 powi ex"
      by (simp add: decimal_val_def ex_def power_int_add power_int_diff power_int_minus field_simps)
    have fail: "Q (st, r)" if "doutcome u ?F False st good bad" "st \<noteq> BIGDECIMAL_OK" for st good bad
      using that 4 by (intro Q) (auto elim: doutcome_failI)
    have oom: "Q (BIGDECIMAL_OUT_OF_MEMORY, r)" if "\<not> u" using that 4 by (intro Q) simp
    let ?neg = "bigint_is_negative (coefficient a) \<noteq> bigint_is_negative (coefficient b)"
    let ?finish = "\<lambda>(status, c). if status = BIGDECIMAL_OK then bigdecimal_finish r \<lparr>coefficient = c, scale = t\<rparr>
      else State_Monad.return (status, r)"
    have tail: "rspec u (State_Monad.bind (decimal_call (bigint_div_mod False bigint_init bigint_init nm d)) (\<lambda>(status, c, remainder).
        State_Monad.bind (if status = BIGDECIMAL_OK then bigdecimal_round_quotient c remainder d ?neg mode
          else State_Monad.return (status, c)) ?finish)) Q"
      if n: "holds_int nm N" "\<bar>N\<bar> < int LB ^ i" and d: "holds_int d D" "\<bar>D\<bar> < int LB ^ j"
        and eq: "?x * 10 powi t = of_int N / of_int D" and sgn: "sgn N = sgn ?a" "sgn D = sgn ?b"
        and F: "?F \<Longrightarrow> Suc (max i 1) \<le> BIGINT_MAX_LIMBS" "?F \<Longrightarrow> Suc j \<le> BIGINT_MAX_LIMBS" for nm d N D i j
    proof -
      have "D \<noteq> 0" using sgn(2) vals(2) by (auto simp: sgn_if split: if_splits)
      moreover have "?neg = ((N < 0) \<noteq> (D < 0))"
        using sgn by (auto simp: is_negative_iff ad(3) bd(3) sgn_if split: if_splits)
      ultimately show ?thesis
      proof (intro rounded_division_wp [where F = ?F, OF n d _ _ mode F], goal_cases)
        case (5 st c)
        show ?case
          unfolding prod.case
        proof (rule rounded_finish_wp [OF 5(3) t, where x = "round_decimal mode t ?x"])
          show "Q (st, r')" if "doutcome u ?F (\<not> decimal_representable (round_decimal mode t ?x)) st
            (decimal_wf r' \<and> decimal_val r' = round_decimal mode t ?x) (r' = r)" for st r'
            using that 4 by (intro Q) (auto elim!: doutcome_mono)
        qed (simp only: round_decimal_def eq)
      qed
    qed
    have F_up: "?F \<Longrightarrow> ten_fits (nat \<bar>ex\<bar>) (bsize (coefficient a) + bsize (coefficient b) + 1)"
      by (simp add: div_fits_def ex_def)
    note start = bigdecimal_div_def if_not_P [OF valid] zero if_not_P [OF 4(1)] if_not_P [OF 4(2)] exponent option.case Let_def
    have scaled_neg: "\<And>n :: nat. sgn (z * 10 ^ n) = sgn z" for z :: int by (simp add: sgn_mult)
    note chain = prod.case option.case BigDecimal.select_convs not_True_eq_False not_False_eq_True if_False if_True
    consider "ex > 0" | "ex < 0" | "ex = 0" by linarith
    then show ?thesis
    proof cases
      case 1
      then have s: "\<not> ex < 0" "ex \<noteq> 0" by simp_all
      have k: "unat (of_int ex :: u64) = nat ex"
        using 1 4 by (intro unat_of_int64) (auto simp: in_i64_def INT64_MAX_def LB_def)
      have eq: "?x * 10 powi t = of_int (?a * 10 ^ nat ex) / of_int ?b"
        unfolding x using powi_nat [of ex] 1 by simp
      show ?thesis
        unfolding start if_P [OF 1] if_not_P [OF s(1)]
      proof (rule decimal_objects_bind, unfold chain, goal_cases)
        case 3
        show ?case
        proof (rule triple_bind, rule multiply_power_of_ten_wp [where F = ?F, OF ad(1) storage_ok_init bigint_val_size], unfold k,
            goal_cases)
          case (2 st sc)
          show ?case
            unfolding prod.case
          proof (rule decimal_chain, goal_cases)
            case 1
            then have "holds_int sc (?a * 10 ^ nat ex)" using 2 k by simp
            then show ?case
              by (rule tail [OF _ ten_multiple_less [OF bigint_val_size] bd(1) bigint_val_size eq scaled_neg refl])
                (use F_up \<open>ex > 0\<close> in \<open>auto simp: ten_fits_def\<close>)
          next
            case b: 2
            then show ?case using 2 fail by (simp add: triple_return)
          qed
        qed (use F_up 1 k in \<open>auto simp: ten_fits_def\<close>)
      qed (auto intro!: triple_return oom)
    next
      case 2
      have k: "unat (bigdecimal_abs_i64 ex) = nat \<bar>ex\<bar>" using 4 by (intro abs_i64_unat)
      have s: "\<not> ex > 0" using 2 by simp
      have "inverse (10 powi ex) = (of_int (10 ^ nat \<bar>ex\<bar>) :: rat)"
        using powi_nat [of "- ex"] 2 by (simp add: power_int_minus)
      then have p: "(10 :: rat) powi ex = 1 / of_int (10 ^ nat \<bar>ex\<bar>)" by (metis inverse_eq_divide inverse_inverse_eq)
      have eq: "?x * 10 powi t = of_int ?a / of_int (?b * 10 ^ nat \<bar>ex\<bar>)"
        unfolding x p by simp
      show ?thesis
        unfolding start if_P [OF 2] if_not_P [OF s]
      proof (rule decimal_objects_bind, unfold chain, goal_cases)
        case 3
        show ?case
        proof (rule triple_bind, rule multiply_power_of_ten_wp [where F = ?F, OF bd(1) storage_ok_init bigint_val_size], unfold k,
            goal_cases)
          case (2 st sc)
          show ?case
            unfolding prod.case
          proof (rule decimal_chain, goal_cases)
            case 1
            then have "holds_int sc (?b * 10 ^ nat \<bar>ex\<bar>)" using 2 k by simp
            then show ?case
              by (rule tail [OF ad(1) bigint_val_size _ ten_multiple_less [OF bigint_val_size] eq refl scaled_neg])
                (use F_up in \<open>auto simp: ten_fits_def\<close>)
          next
            case b: 2
            then show ?case using 2 fail by (simp add: triple_return)
          qed
        qed (use F_up k in \<open>auto simp: ten_fits_def\<close>)
      qed (auto intro!: triple_return oom)
    next
      case 3
      then have s: "\<not> ex > 0" "\<not> ex < 0" by simp_all
      have eq: "?x * 10 powi t = of_int ?a / of_int ?b" unfolding x 3 by simp
      show ?thesis
        unfolding start if_not_P [OF s(1)] if_not_P [OF s(2)]
      proof (rule decimal_objects_bind, unfold chain State_Monad.bind_left_identity if_P [OF refl], goal_cases)
        case 3
        show ?case
          by (rule tail [OF ad(1) bigint_val_size bd(1) bigint_val_size eq refl refl])
            (use F_up in \<open>auto simp: ten_fits_def\<close>)
      qed (auto intro!: triple_return oom)
    qed
  qed
qed

section \<open>The target of significant digits\<close>

lemma dcall_multiply_u64:
  assumes a: "holds_int a x" "\<bar>x\<bar> < int LB ^ i" and m: "m \<noteq> 0" and F: "F \<Longrightarrow> Suc i \<le> BIGINT_MAX_LIMBS"
    and Q: "\<And>st a'. doutcome u F False st (holds_int a' (x * int (unat m))) True \<Longrightarrow> Q (st, a')"
  shows "rspec u (decimal_call (bigint_multiply_by_uint64 a m)) Q"
proof (rule decimal_call_wp, rule multiply_by_uint64_wp, unfold prod.case, goal_cases)
  case (2 st a')
  note wf = holds_intD(1) [OF a(1)]
  have "outcome u (Suc (bsize a) \<le> BIGINT_MAX_LIMBS) st (holds_int a' (x * int (unat m))) True"
    using 2
  proof (rule outcome_mono)
    assume "storage_ok a' \<and> (canonical (limbs a) \<longrightarrow> canonical (limbs a')) \<and> bigint_mag a' = bigint_mag a * unat m \<and>
      (m \<noteq> 0 \<longrightarrow> is_negative a' = is_negative a) \<and> (limbs a' = [] \<longrightarrow> is_negative a' \<longrightarrow> is_negative a \<and> limbs a = [])"
    then show "holds_int a' (x * int (unat m))"
      using wf a(1) m by (auto simp: holds_int_def bigint_wf_def bigint_val_def storage_ok_def)
  qed simp_all
  from doutcome_of_outcome [OF this] show ?case
    using F holds_int_size [OF a] by (intro Q) (auto elim!: doutcome_mono)
qed (use holds_intD(3) [OF a(1)] in simp)

lemma align_digits_loop_wp:
  "holds_int a x \<Longrightarrow> \<bar>x\<bar> * 10 ^ unat p < int LB ^ i \<Longrightarrow> (F \<Longrightarrow> Suc i \<le> BIGINT_MAX_LIMBS) \<Longrightarrow>
   (\<And>st a' p'. doutcome u F False st (unat p' < 19 \<and> unat p' \<le> unat p \<and> holds_int a' (x * 10 ^ (unat p - unat p'))) True \<Longrightarrow> Q (st, a', p')) \<Longrightarrow>
   rspec u (align_digits_loop p a) Q"
proof (induction "unat p" arbitrary: p a x rule: less_induct)
  case (less p a x)
  note 1 = less
  show ?case
  proof (cases "p \<ge> 19")
    case True
    then have k: "19 \<le> unat p" by (simp add: word_le_nat_alt)
    then have sub: "unat (p - 19) = unat p - 19" using True by (simp add: unat_sub)
    have oom: "Q (BIGDECIMAL_OUT_OF_MEMORY, a, p)" if "\<not> u" using that by (intro 1(5)) simp
    have "\<bar>x\<bar> * 1 \<le> \<bar>x\<bar> * 10 ^ unat p" by (intro mult_left_mono) simp_all
    then have less: "\<bar>x\<bar> < int LB ^ i" using 1(3) by linarith
    have next_x: "\<bar>x * 10 ^ 19\<bar> * 10 ^ unat (p - 19) = \<bar>x\<bar> * 10 ^ unat p"
    proof -
      have "unat p = 19 + unat (p - 19)" using k by (simp add: sub)
      then have "(10 :: int) ^ unat p = 10 ^ 19 * 10 ^ unat (p - 19)" by (metis power_add)
      then show ?thesis by (simp only: abs_mult power_abs abs_numeral mult.assoc)
    qed
    have step: "rspec u (State_Monad.bind (decimal_call (bigint_multiply_by_uint64 a 10000000000000000000)) (\<lambda>(status, aligned).
        if status = BIGDECIMAL_OK then align_digits_loop (p - 19) aligned else State_Monad.return (status, aligned, p - 19))) Q"
    proof (rule triple_bind, rule dcall_multiply_u64 [where F = F, OF 1(2) less _ 1(4)], goal_cases)
      case (3 st a')
      show ?case
        unfolding prod.case
      proof (rule triple_if)
        assume "st = BIGDECIMAL_OK"
        with 3 have h: "holds_int a' (x * 10 ^ 19)" by simp
        have smaller: "unat (p - 19) < unat p" using k sub by simp
        show "rspec u (align_digits_loop (p - 19) a') Q"
        proof (rule less.hyps [OF smaller h], unfold next_x)
          show "Q (st', a'', p')" if "doutcome u F False st' (unat p' < 19 \<and> unat p' \<le> unat (p - 19) \<and>
              holds_int a'' (x * 10 ^ 19 * 10 ^ (unat (p - 19) - unat p'))) True" for st' a'' p'
          proof (rule 1(5), rule doutcome_mono [OF that])
            assume h: "unat p' < 19 \<and> unat p' \<le> unat (p - 19) \<and> holds_int a'' (x * 10 ^ 19 * 10 ^ (unat (p - 19) - unat p'))"
            then have "unat p' \<le> unat (p - 19)" by simp
            then have "19 + (unat (p - 19) - unat p') = unat p - unat p'" using k unfolding sub by arith
            then have eq: "x * 10 ^ 19 * 10 ^ (unat (p - 19) - unat p') = x * 10 ^ (unat p - unat p')"
              by (metis mult.assoc power_add)
            have "unat (p - 19) \<le> unat p" using sub by simp
            with h [unfolded eq] show "unat p' < 19 \<and> unat p' \<le> unat p \<and> holds_int a'' (x * 10 ^ (unat p - unat p'))"
              by (blast intro: order.trans)
          qed simp_all
        qed (use 1 in auto)
      next
        assume "st \<noteq> BIGDECIMAL_OK"
        with 3 show "rspec u (State_Monad.return (st, a', p - 19)) Q"
          by (intro triple_return 1(5)) (auto elim: doutcome_failI)
      qed
    qed simp_all
    show ?thesis
      by (subst align_digits_loop.simps, unfold if_P [OF True], rule triple_bind, rule budget_check_wp)
        (use step in \<open>auto intro!: triple_return oom\<close>)
  next
    case False
    then have "unat p < 19" by (simp add: word_le_nat_alt)
    then have "Q (BIGDECIMAL_OK, a, p)" using 1(2) by (intro 1(5)) simp
    then show ?thesis by (subst align_digits_loop.simps) (use False in \<open>simp add: triple_return\<close>)
  qed
qed

lemma last_factor: "unat f * 10 ^ n < LB \<Longrightarrow> unat (last_factor n f) = unat f * 10 ^ n"
proof (induction n arbitrary: f)
  case (Suc n)
  have "unat f * 10 * 1 \<le> unat f * 10 * 10 ^ n" by (intro mult_le_mono2) simp
  with Suc.prems have "unat f * 10 < LB" unfolding power_Suc mult.assoc [symmetric] by linarith
  then have "unat (f * 10) = unat f * 10" by (simp add: unat_word_ariths LB_def)
  with Suc show ?case by simp
qed simp

lemma align_wp:
  assumes v: "holds_int v x" "\<bar>x\<bar> * 10 ^ unat p < int LB ^ i" and a: "storage_ok a" and F: "F \<Longrightarrow> Suc i \<le> BIGINT_MAX_LIMBS"
    and Q: "\<And>st a'. doutcome u F False st (holds_int a' (x * 10 ^ unat p)) True \<Longrightarrow> Q (st, a')"
  shows "rspec u (bigdecimal_align_coefficient_digits a v p) Q"
  unfolding bigdecimal_align_coefficient_digits_def
proof (rule triple_bind, rule dcall_copy [OF v(1) a], unfold prod.case, rule decimal_chain, goal_cases)
  case (1 st a')
  then have h: "holds_int a' x" by simp
  show ?case
  proof (rule triple_bind, rule align_digits_loop_wp [where F = F, OF h v(2) F], assumption, unfold prod.case Let_def,
      rule triple_if, goal_cases)
    case (1 st a'' p')
    then show ?case by (intro triple_return Q) (auto elim: doutcome_failI)
  next
    case (2 st a'' p')
    then have p': "unat p' < 19" "unat p' \<le> unat p" "holds_int a'' (x * 10 ^ (unat p - unat p'))" by simp_all
    have "(10 :: nat) ^ unat p' \<le> 10 ^ 19" using p'(1) by (intro power_increasing) simp_all
    also have "\<dots> < LB" by (simp add: LB_def)
    finally have f: "unat (last_factor (unat p') 1) = 10 ^ unat p'" using last_factor [of 1 "unat p'"] by simp
    then have f0: "last_factor (unat p') 1 \<noteq> 0" by (metis unat_0 power_not_zero zero_neq_numeral)
    have "\<bar>x\<bar> * 10 ^ (unat p - unat p') \<le> \<bar>x\<bar> * 10 ^ unat p" by (intro mult_left_mono power_increasing) simp_all
    then have less: "\<bar>x * 10 ^ (unat p - unat p')\<bar> < int LB ^ i" using v(2) by (simp add: abs_mult)
    have "10 ^ (unat p - unat p') * 10 ^ unat p' = (10 :: int) ^ unat p" using p'(2) by (simp flip: power_add)
    then have prod: "x * 10 ^ (unat p - unat p') * int (unat (last_factor (unat p') 1)) = x * 10 ^ unat p"
      unfolding f by (simp add: mult.assoc)
    have oom: "Q (BIGDECIMAL_OUT_OF_MEMORY, a'')" if "\<not> u" using that by (intro Q) simp
    have "rspec u (decimal_call (bigint_multiply_by_uint64 a'' (last_factor (unat p') 1))) Q"
      by (rule dcall_multiply_u64 [where F = F, OF p'(3) less f0 F], assumption) (unfold prod, rule Q)
    then show ?case by (intro triple_bind [of _ numforge_budget_check] budget_check_wp triple_if triple_return oom) auto
  qed
next
  case (2 st a')
  then show ?case by (auto intro!: triple_return Q elim: doutcome_failI)
qed

lemma decade_quotient:
  fixes A B :: nat
  assumes A: "A \<noteq> 0" and B: "B \<noteq> 0"
  defines "la \<equiv> length (numeral_digits 10 A)" and "lb \<equiv> length (numeral_digits 10 B)"
  shows "decade (int la - int lb - (if A * 10 ^ lb < B * 10 ^ la then 1 else 0)) (of_nat A / of_nat B)"
proof -
  have ub: "(of_nat X :: rat) < 10 powi int (length (numeral_digits 10 X))"
    and lo: "(10 :: rat) powi (int (length (numeral_digits 10 X)) - 1) \<le> of_nat X" if "X \<noteq> 0" for X
    using decimal_magnitude [OF that, of 0] by simp_all
  note a = ub [OF A, folded la_def] lo [OF A, folded la_def] and b = ub [OF B, folded lb_def] lo [OF B, folded lb_def]
  have B0: "(0 :: rat) < of_nat B" using B by simp
  have cross: "A * 10 ^ lb < B * 10 ^ la \<longleftrightarrow> (of_nat A :: rat) < of_nat B * 10 powi (int la - int lb)"
  proof -
    have "A * 10 ^ lb < B * 10 ^ la \<longleftrightarrow> (of_nat (A * 10 ^ lb) :: rat) < of_nat (B * 10 ^ la)" by (simp only: of_nat_less_iff)
    also have "\<dots> \<longleftrightarrow> (of_nat A :: rat) < of_nat B * 10 ^ la / 10 ^ lb" by (simp add: less_divide_eq)
    also have "(of_nat B :: rat) * 10 ^ la / 10 ^ lb = of_nat B * 10 powi (int la - int lb)" by (simp add: power_int_diff)
    finally show ?thesis .
  qed
  have bound: "decade e (of_nat A / of_nat B)"
    if "of_nat B * 10 powi e \<le> (of_nat A :: rat)" "(of_nat A :: rat) < of_nat B * 10 powi (e + 1)" for e
    using that B0 by (simp add: decade_def le_divide_eq divide_less_eq mult.commute)
  show ?thesis
  proof (cases "A * 10 ^ lb < B * 10 ^ la")
    case True
    have "of_nat B * 10 powi (int la - int lb - 1) \<le> 10 powi int lb * (10 :: rat) powi (int la - int lb - 1)"
      by (intro mult_right_mono less_imp_le [OF b(1)]) simp
    also have "\<dots> = 10 powi (int la - 1)" by (subst powi_split [symmetric]) simp
    finally show ?thesis using True a(2) cross by (intro bound) simp_all
  next
    case False
    have "10 powi int la = 10 powi (int lb - 1) * (10 :: rat) powi (int la - int lb + 1)"
      by (subst powi_split [symmetric]) simp
    also have "\<dots> \<le> of_nat B * 10 powi (int la - int lb + 1)" by (intro mult_right_mono b(2)) simp
    finally have "10 powi int la \<le> of_nat B * (10 :: rat) powi (int la - int lb + 1)" .
    from order.strict_trans2 [OF a(1) this] show ?thesis using False cross by (intro bound) simp_all
  qed
qed

lemma aligned_less:
  assumes "bigint_val v \<noteq> 0" "bigint_val w \<noteq> 0"
    and "length (numeral_digits 10 (bigint_mag v)) \<le> length (numeral_digits 10 (bigint_mag w))"
  shows "\<bar>bigint_val v\<bar> * 10 ^ (length (numeral_digits 10 (bigint_mag w)) - length (numeral_digits 10 (bigint_mag v)))
    < int LB ^ Suc (bsize w)"
proof -
  let ?v = "bigint_mag v" and ?w = "bigint_mag w"
  let ?lv = "length (numeral_digits 10 ?v)" and ?lw = "length (numeral_digits 10 ?w)"
  have "?v < 10 ^ ?lv" "10 ^ (?lw - 1) \<le> ?w" using assms digit_count_bounds by (auto simp: val_0_mag)
  then have "?v * 10 ^ (?lw - ?lv) < 10 ^ ?lv * 10 ^ (?lw - ?lv)" by (intro mult_strict_right_mono) simp_all
  also have "\<dots> = 10 * 10 ^ (?lw - 1)"
    using assms(3) by (simp flip: power_add power_Suc)
  also have "\<dots> \<le> 10 * ?w" by (intro mult_le_mono2) fact
  also have "\<dots> \<le> LB * LB ^ bsize w" using mag_less [of "limbs w"] by (intro mult_mono) (simp_all add: LB_def)
  finally have "int (?v * 10 ^ (?lw - ?lv)) < int (LB ^ Suc (bsize w))" unfolding power_Suc of_nat_less_iff .
  then show ?thesis by simp
qed

lemma decade_coefficients:
  assumes "decimal_wf a" "decimal_wf b" "decimal_val b \<noteq> 0" "decimal_val a \<noteq> 0"
  shows "decade (int (digit_count a) - int (digit_count b) -
      (if bigint_mag (coefficient a) * 10 ^ digit_count b < bigint_mag (coefficient b) * 10 ^ digit_count a then 1 else 0))
    (of_int (bigint_val (coefficient a)) / of_int (bigint_val (coefficient b)))"
proof -
  have "\<bar>of_int (bigint_val (coefficient a)) / of_int (bigint_val (coefficient b)) :: rat\<bar> =
      \<bar>of_nat (bigint_mag (coefficient a)) / of_nat (bigint_mag (coefficient b))\<bar>"
    by (simp add: abs_divide flip: of_int_abs)
  moreover have "bigint_mag (coefficient a) \<noteq> 0" "bigint_mag (coefficient b) \<noteq> 0"
    using assms by (auto simp: decimal_val_0_iff val_0_mag)
  ultimately show ?thesis using decade_quotient unfolding decade_def by simp
qed

lemma dcall_digits:
  assumes v: "bigint_wf v"
    and Q: "\<And>st n. doutcome u True False st (n = length (numeral_digits 10 (bigint_mag v))) True \<Longrightarrow> Q (st, n)"
  shows "rspec u (decimal_call (bigint_decimal_digits v d)) Q"
proof (rule decimal_call_wp, rule decimal_digits_wp [OF v], unfold prod.case, goal_cases)
  case (1 st n)
  from doutcome_of_outcome [OF this] show ?case by (intro Q) (auto elim: doutcome_mono)
qed

definition target_fits :: "BigDecimal \<Rightarrow> BigDecimal \<Rightarrow> bool" where
  "target_fits a b \<longleftrightarrow> bsize (coefficient a) + bsize (coefficient b) + 2 \<le> BIGINT_MAX_LIMBS \<and>
     int (digit_count a) \<le> INT64_MAX \<and> int (digit_count b) \<le> INT64_MAX"

lemma significant_target_wp:
  assumes a: "decimal_wf a" "decimal_val a \<noteq> 0" and b: "decimal_wf b" "decimal_val b \<noteq> 0" and al: "storage_ok al"
    and k: "1 \<le> k" "in_i64 k" and e: "decade e (of_int (bigint_val (coefficient a)) / of_int (bigint_val (coefficient b)))"
    and Q: "\<And>st al' t'. doutcome u (target_fits a b) (INT64_MAX < k + int (digit_count b)) st
        (t' = k - 1 - e \<and> in_i64 t' \<and> int (digit_count a) \<le> INT64_MAX \<and> int (digit_count b) \<le> INT64_MAX) True \<Longrightarrow> Q (st, al', t')"
  shows "rspec u (bigdecimal_significant_target a b k al t) Q"
proof -
  note ad = decimal_wfD [OF a(1)] and bd = decimal_wfD [OF b(1)]
  let ?a = "bigint_val (coefficient a)" and ?b = "bigint_val (coefficient b)"
  let ?A = "bigint_mag (coefficient a)" and ?B = "bigint_mag (coefficient b)"
  let ?la = "digit_count a" and ?lb = "digit_count b" and ?F = "target_fits a b"
  have nz: "?a \<noteq> 0" "?b \<noteq> 0" using a(2) b(2) by (simp_all add: decimal_val_0_iff)
  have e': "e = int ?la - int ?lb - (if ?A * 10 ^ ?lb < ?B * 10 ^ ?la then 1 else 0)"
    by (rule decade_unique [OF e decade_coefficients [OF a(1) b(1) b(2) a(2)]])
  have finish: "rspec u (if st \<noteq> BIGDECIMAL_OK then State_Monad.return (st, al', t)
       else
         (let exponent = int ?la - int ?lb;
              exponent = (if c < 0 then exponent - 1 else exponent)
          in case bigdecimal_i64_sub (k - 1) exponent of
               None \<Rightarrow> State_Monad.return (BIGDECIMAL_SCALE_OVERFLOW, al', t)
             | Some selected_target \<Rightarrow> State_Monad.return (BIGDECIMAL_OK, al', selected_target))) Q"
    if "doutcome u ?F False st (c < 0 \<longleftrightarrow> ?A * 10 ^ ?lb < ?B * 10 ^ ?la) True"
      "int ?la \<le> INT64_MAX" "int ?lb \<le> INT64_MAX" for st c al'
  proof (rule triple_if)
    assume "st \<noteq> BIGDECIMAL_OK"
    with that(1) show "rspec u (State_Monad.return (st, al', t)) Q" by (intro triple_return Q) (auto elim: doutcome_failI)
  next
    assume "\<not> st \<noteq> BIGDECIMAL_OK"
    with that(1) have c: "(if c < 0 then int ?la - int ?lb - 1 else int ?la - int ?lb) = e" by (simp add: e')
    have "in_i64 (k - 1)" "in_i64 e" using k that(2,3) unfolding e' in_i64_def INT64_MIN_def INT64_MAX_def by auto
    note sub = i64_sub_iff [OF this]
    have "INT64_MIN \<le> k - 1 - e" using k that(2,3) unfolding e' INT64_MIN_def INT64_MAX_def by auto
    then have "INT64_MAX < k + int ?lb" if "\<not> in_i64 (k - 1 - e)"
      using that unfolding in_i64_def e' by (auto split: if_splits)
    then show "rspec u (let exponent = int ?la - int ?lb;
              exponent = (if c < 0 then exponent - 1 else exponent)
          in case bigdecimal_i64_sub (k - 1) exponent of
               None \<Rightarrow> State_Monad.return (BIGDECIMAL_SCALE_OVERFLOW, al', t)
             | Some selected_target \<Rightarrow> State_Monad.return (BIGDECIMAL_OK, al', selected_target)) Q"
      unfolding Let_def c sub using that(2,3) by (auto intro!: triple_return Q)
  qed
  have canonical: "canonical (limbs (coefficient a))" "canonical (limbs (coefficient b))"
    using ad(3) bd(3) by (simp_all add: bigint_wf_def)
  have scaled: "bigint_mag x = nat \<bar>v\<bar> * 10 ^ n" "canonical (limbs x)" if "holds_int x (v * 10 ^ n)" for x v n
  proof -
    have "int (bigint_mag x) = \<bar>v * 10 ^ n\<bar>" using that by (metis abs_bigint_val holds_intD(2))
    also have "\<dots> = int (nat \<bar>v\<bar> * 10 ^ n)" by (simp add: abs_mult)
    finally show "bigint_mag x = nat \<bar>v\<bar> * 10 ^ n" by (simp only: of_nat_eq_iff)
    show "canonical (limbs x)" using that by (simp add: holds_int_def bigint_wf_def)
  qed
  have less: "X * 10 ^ l < Y * 10 ^ m \<longleftrightarrow> X * 10 ^ (l - m) < Y" if "m \<le> l" for X Y l m :: nat
  proof -
    have "(10 :: nat) ^ l = 10 ^ (l - m) * 10 ^ m" using that by (simp flip: power_add)
    then show ?thesis by (simp only: mult.assoc [symmetric] mult_less_cancel2) simp
  qed
  have less': "X * 10 ^ l < Y * 10 ^ m \<longleftrightarrow> X < Y * 10 ^ (m - l)" if "l \<le> m" for X Y l m :: nat
  proof -
    have "(10 :: nat) ^ m = 10 ^ (m - l) * 10 ^ l" using that by (simp flip: power_add)
    then show ?thesis by (simp only: mult.assoc [symmetric] mult_less_cancel2) simp
  qed
  have fail: "Q (st, al', t)" if "doutcome u ?F False st good bad" "st \<noteq> BIGDECIMAL_OK" for st al' good bad
    using that by (intro Q) (auto elim: doutcome_failI)
  have diff: "unat (of_nat (x - y) :: u64) = x - y" if "x < LB" for x y using that by (intro unat_of_nat_LB) simp
  note digits = digits_fit(1) [OF ad(3)] digits_fit(1) [OF bd(3)]
  have A: "nat \<bar>?a\<bar> = ?A" and B: "nat \<bar>?b\<bar> = ?B" by simp_all
  have fits: "?F \<Longrightarrow> Suc (Suc (bsize (coefficient b))) \<le> BIGINT_MAX_LIMBS" "?F \<Longrightarrow> Suc (Suc (bsize (coefficient a))) \<le> BIGINT_MAX_LIMBS"
    by (simp_all add: target_fits_def)
  show ?thesis
    unfolding bigdecimal_significant_target_def
  proof (rule triple_bind, rule dcall_digits [OF ad(3)], unfold prod.case, rule decimal_chain, goal_cases)
    case (1 st n)
    then have n: "n = ?la" by simp
    show ?case
      unfolding n
    proof (rule triple_bind, rule dcall_digits [OF bd(3)], unfold prod.case, rule triple_if, goal_cases)
      case (1 st' m)
      then show ?case by (auto intro!: triple_return Q elim: doutcome_failI)
    next
      case (2 st' m)
      then have m: "m = ?lb" by simp
      show ?case
        unfolding m
      proof (intro triple_if, goal_cases)
        case 1
        then show ?case by (intro triple_return Q) (auto simp: target_fits_def)
      next
        case large: 2
        then have small: "int ?la \<le> INT64_MAX" "int ?lb \<le> INT64_MAX" by simp_all
        show ?case
        proof (rule triple_bind, intro triple_if, goal_cases)
          case 1
          then show ?case
            by (intro triple_return, unfold prod.case, intro finish [OF _ small])
              (simp add: compare_abs_sgn [OF canonical])
        next
          case 2
          then have le: "?la \<le> ?lb" by simp
          show ?case
          proof (rule triple_bind, rule align_wp [where F = ?F, OF ad(1) _ al fits(1)], unfold diff [OF digits(2)],
              rule aligned_less [OF nz le], assumption, unfold prod.case, rule triple_return, unfold prod.case, rule finish [OF _ small])
            fix st'' al'
            assume o: "doutcome u ?F False st'' (holds_int al' (?a * 10 ^ (?lb - ?la))) True"
            show "doutcome u ?F False st'' ((if st'' = BIGDECIMAL_OK then bigint_compare_abs al' (coefficient b) else 0) < 0 \<longleftrightarrow>
                ?A * 10 ^ ?lb < ?B * 10 ^ ?la) True"
            proof (cases "st'' = BIGDECIMAL_OK")
              case True
              with o have h: "holds_int al' (?a * 10 ^ (?lb - ?la))" by simp
              show ?thesis
                using True unfolding compare_abs_sgn [OF scaled(2) [OF h] canonical(2)] scaled(1) [OF h] A sgn_diff_nat less [OF le]
                by simp
            qed (use o in \<open>auto elim: doutcome_failI\<close>)
          qed
        next
          case 3
          then have le: "?lb \<le> ?la" by simp
          show ?case
          proof (rule triple_bind, rule align_wp [where F = ?F, OF bd(1) _ al fits(2)], unfold diff [OF digits(1)],
              rule aligned_less [OF nz(2,1) le], assumption, unfold prod.case, rule triple_return, unfold prod.case, rule finish [OF _ small])
            fix st'' al'
            assume o: "doutcome u ?F False st'' (holds_int al' (?b * 10 ^ (?la - ?lb))) True"
            show "doutcome u ?F False st'' ((if st'' = BIGDECIMAL_OK then bigint_compare_abs (coefficient a) al' else 0) < 0 \<longleftrightarrow>
                ?A * 10 ^ ?lb < ?B * 10 ^ ?la) True"
            proof (cases "st'' = BIGDECIMAL_OK")
              case True
              with o have h: "holds_int al' (?b * 10 ^ (?la - ?lb))" by simp
              show ?thesis
                using True unfolding compare_abs_sgn [OF canonical(1) scaled(2) [OF h]] scaled(1) [OF h] B sgn_diff_nat less' [OF le]
                by simp
            qed (use o in \<open>auto elim: doutcome_failI\<close>)
          qed
        qed
      qed
    qed
  next
    case (2 st n)
    then show ?case by (auto intro!: triple_return Q elim: doutcome_failI)
  qed
qed

section \<open>Division to significant digits\<close>

lemma quotient_scale_iff:
  assumes "in_i64 s" "in_i64 a" "in_i64 b"
  shows "quotient_scale s a b = (if in_i64 (s + a - b) then Some (s + a - b) else None)"
proof -
  have one: "in_i64 (s + a) \<or> in_i64 (s - b)" if "in_i64 (s + a - b)"
    using assms that unfolding in_i64_def INT64_MIN_def INT64_MAX_def by linarith
  show ?thesis
    using assms one by (auto simp: quotient_scale_def i64_add_iff i64_sub_iff algebra_simps split: option.splits)
qed

lemma round_decimal_shift: "round_decimal mode (t + d) (z * 10 powi (- d)) = round_decimal mode t z * 10 powi (- d)"
  by (simp add: round_decimal_def power_int_add power_int_diff power_int_minus field_simps)

lemma round_int_bound:
  assumes "bigdecimal_valid_rounding mode" "\<bar>x\<bar> \<le> of_int n"
  shows "\<bar>round_int mode x\<bar> \<le> n"
proof -
  have n: "- of_int n \<le> x" "x \<le> of_int n" using assms(2) by linarith+
  then have "\<lfloor>x\<rfloor> \<le> n" "- n \<le> \<lfloor>x\<rfloor>" "\<lceil>x\<rceil> \<le> n" "- n \<le> \<lceil>x\<rceil>"
    by (simp_all add: floor_le_iff le_floor_iff ceiling_le_iff le_ceiling_iff)
  moreover from n have "\<lfloor>x + 1 / 2\<rfloor> \<le> n" "- n \<le> \<lfloor>x + 1 / 2\<rfloor>" "\<lceil>x - 1 / 2\<rceil> \<le> n" "- n \<le> \<lceil>x - 1 / 2\<rceil>"
    by (simp_all add: floor_le_iff le_floor_iff ceiling_le_iff le_ceiling_iff)
  ultimately show ?thesis
    using assms(1) unfolding round_int_def by (cases mode) (auto simp: bigdecimal_valid_rounding_def abs_le_iff)
qed

lemma scale_bounds:
  assumes c: "c \<noteq> 0" "\<not> 10 dvd c" and y: "of_int c * 10 powi (- s) = of_int q * (10 :: rat) powi (- t)"
    and m: "\<bar>of_int q * (10 :: rat) powi (- t)\<bar> \<le> 10 powi m"
  shows "s \<le> t" "- m \<le> s"
proof -
  show "s \<le> t"
  proof (rule ccontr)
    assume "\<not> s \<le> t"
    have "(of_int c :: rat) = of_int c * 10 powi (- s) * 10 powi s" by (simp add: power_int_minus)
    also have "\<dots> = of_int q * 10 powi (s - t)" unfolding y by (simp add: power_int_diff power_int_minus divide_inverse ac_simps)
    also have "\<dots> = of_int (q * 10 ^ nat (s - t))" using powi_nat [of "s - t"] \<open>\<not> s \<le> t\<close> by simp
    finally have c': "c = q * 10 ^ nat (s - t)" by (simp only: of_int_eq_iff)
    have "nat (s - t) \<noteq> 0" using \<open>\<not> s \<le> t\<close> by simp
    then have "10 dvd c" unfolding c' by (intro dvd_mult dvd_power) simp
    with c(2) show False ..
  qed
  have "1 \<le> \<bar>c\<bar>" using c(1) by linarith
  then have "(1 :: rat) \<le> \<bar>of_int c\<bar>" unfolding of_int_abs [symmetric] by (simp only: of_int_1_le_iff)
  then have "1 * (10 :: rat) powi (- s) \<le> \<bar>of_int c\<bar> * 10 powi (- s)" by (intro mult_right_mono) simp_all
  also have "\<dots> = \<bar>of_int q * (10 :: rat) powi (- t)\<bar>" unfolding y [symmetric] by (simp add: abs_mult)
  also note m
  finally have le: "(10 :: rat) powi (- s) \<le> 10 powi m" by simp
  show "- m \<le> s"
  proof (rule ccontr)
    assume "\<not> - m \<le> s"
    then have "(10 :: rat) powi (m + 1) \<le> 10 powi (- s)" by (intro powi_mono) simp
    with le have "(10 :: rat) powi (m + 1) \<le> 10 powi m" by linarith
    then have "10 * (10 :: rat) powi m \<le> 1 * 10 powi m" using powi_split [of m 1] by (simp add: mult.commute)
    then show False by (simp only: mult_le_cancel_right_pos powi_pos)
  qed
qed

text \<open>When the quotient of the coefficients cannot be held, the shifted one cannot either.\<close>

lemma shifted_not_representable:
  assumes y: "\<not> decimal_representable y" "y = of_int q * 10 powi (- t)" "y \<noteq> 0" "\<bar>y\<bar> \<le> 10 powi m"
    and t: "in_i64 t" "in_i64 (- m)"
  shows "\<not> decimal_representable (y * 10 powi (- d))"
proof
  assume "decimal_representable (y * 10 powi (- d))"
  then obtain r where r: "decimal_wf r" "decimal_val r = y * 10 powi (- d)" by (auto simp: decimal_representable_def)
  let ?c = "bigint_val (coefficient r)" and ?s = "scale r - d"
  have nz: "?c \<noteq> 0" using r(2) y(3) by (simp flip: decimal_val_0_iff)
  then have c: "?c \<noteq> 0" "\<not> 10 dvd ?c" using r(1) by (simp_all add: decimal_wf_def)
  have eq: "of_int ?c * 10 powi (- ?s) = y"
  proof -
    have "of_int ?c * 10 powi (- ?s) = decimal_val r * 10 powi d"
      by (simp add: decimal_val_def power_int_diff power_int_minus divide_inverse ac_simps)
    then show ?thesis unfolding r(2) by (simp add: power_int_minus)
  qed
  have "?s \<le> t" "- m \<le> ?s"
    using scale_bounds [OF c, of ?s q t m] eq y(2,4) by simp_all
  then have "in_i64 ?s" using t by (simp add: in_i64_def)
  then have "decimal_wf (r\<lparr>scale := ?s\<rparr>)" "decimal_val (r\<lparr>scale := ?s\<rparr>) = y"
    using r(1) nz eq by (simp_all add: decimal_wf_def decimal_val_def)
  with y(1) show False by (auto simp: decimal_representable_def)
qed

text \<open>What putting the scales back on the quotient of the coefficients gives.\<close>

lemma rescaled_quotient:
  assumes y: "decimal_wf y" "decimal_val y \<noteq> 0" and a: "in_i64 sa" and b: "in_i64 sb"
    and x: "x = decimal_val y * 10 powi (sb - sa)"
  shows "case quotient_scale (scale y) sa sb of None \<Rightarrow> \<not> decimal_representable x
    | Some s \<Rightarrow> decimal_wf (y\<lparr>scale := s\<rparr>) \<and> decimal_val (y\<lparr>scale := s\<rparr>) = x"
proof -
  let ?s = "scale y + sa - sb"
  have c: "bigint_val (coefficient y) \<noteq> 0" "\<not> 10 dvd bigint_val (coefficient y)"
    using y by (auto simp: decimal_wf_def decimal_val_0_iff)
  have val: "x = of_int (bigint_val (coefficient y)) * 10 powi (- ?s)"
    unfolding x by (simp add: decimal_val_def power_int_add power_int_diff power_int_minus divide_inverse ac_simps)
  show ?thesis
    using y(1) c not_representable [OF c(2), of ?s] quotient_scale_iff [OF decimal_wfD(2) [OF y(1)] a b]
    unfolding val by (auto simp: decimal_wf_def decimal_val_def)
qed

definition sig_fits :: "BigDecimal \<Rightarrow> BigDecimal \<Rightarrow> int \<Rightarrow> bool" where
  "sig_fits a b t \<longleftrightarrow> target_fits a b \<and>
     ten_fits (nat \<bar>t + scale b - scale a\<bar>) (bsize (coefficient a) + bsize (coefficient b) + 1)"

lemma unscaled_wf:
  assumes "decimal_wf a" "decimal_val a \<noteq> 0"
  shows "decimal_wf (a\<lparr>scale := 0\<rparr>)" "decimal_val (a\<lparr>scale := 0\<rparr>) = of_int (bigint_val (coefficient a))"
  using assms by (auto simp: decimal_wf_def decimal_val_def in_i64_def INT64_MIN_def INT64_MAX_def)

lemma unscaled_div_wp:
  assumes a: "decimal_wf a" "decimal_val a \<noteq> 0" and b: "decimal_wf b" "decimal_val b \<noteq> 0" and t: "in_i64 t"
    and mode: "bigdecimal_valid_rounding mode"
  defines "y \<equiv> round_decimal mode t (of_int (bigint_val (coefficient a)) / of_int (bigint_val (coefficient b)))"
  assumes Q: "\<And>st r'. doutcome u (ten_fits (nat \<bar>t\<bar>) (bsize (coefficient a) + bsize (coefficient b) + 1))
      (\<not> decimal_representable y) st (decimal_wf r' \<and> decimal_val r' = y) True \<Longrightarrow> Q (st, r')"
  shows "rspec u (bigdecimal_div False r (a\<lparr>scale := 0\<rparr>) (b\<lparr>scale := 0\<rparr>) t mode) Q"
proof (rule decimal_div_wp [OF unscaled_wf(1) [OF a] unscaled_wf(1) [OF b] _ t mode], simp, rule Q, goal_cases)
  case (1 st r')
  moreover have "decimal_val (b\<lparr>scale := 0\<rparr>) \<noteq> 0" using b by (simp add: decimal_val_0_iff)
  ultimately show ?case
    unfolding unscaled_wf(2) [OF a] unscaled_wf(2) [OF b] y_def div_fits_def
    using t by (auto elim: doutcome_mono)
qed

lemma decade_shift: "decade e (z * 10 powi d) \<longleftrightarrow> decade (e - d) z"
proof -
  have "(10 :: rat) powi e = 10 powi (e - d) * 10 powi d" "(10 :: rat) powi (e + 1) = 10 powi (e - d + 1) * 10 powi d"
    by (simp_all flip: powi_split add: algebra_simps)
  then show ?thesis by (simp add: decade_def abs_mult)
qed

text \<open>Rounding to \<open>k\<close> digits keeps the number in its decade, or one above.\<close>

lemma round_decimal_bounds:
  assumes mode: "bigdecimal_valid_rounding mode" and k: "1 \<le> k" and z: "decade e z"
  shows "round_decimal mode (k - 1 - e) z \<noteq> 0" "\<bar>round_decimal mode (k - 1 - e) z\<bar> \<le> 10 powi (e + 1)"
proof -
  let ?t = "k - 1 - e" and ?q = "round_int mode (z * 10 powi (k - 1 - e))"
  have d: "decade (k - 1) (z * 10 powi ?t)" using z by (simp add: decade_shift)
  then have lo: "(10 :: rat) powi (k - 1) \<le> \<bar>z * 10 powi ?t\<bar>" and up: "\<bar>z * 10 powi ?t\<bar> < 10 powi k"
    by (simp_all add: decade_def)
  have "(1 :: rat) \<le> 10 powi (k - 1)" using powi_mono [of 0 "k - 1"] k by simp
  then have "?q \<noteq> 0" using lo by (intro round_int_nonzero mode) linarith
  then show "round_decimal mode ?t z \<noteq> 0" by (simp add: round_decimal_def)
  have p: "(10 :: rat) powi k = of_int (10 ^ nat k)" using k by (intro powi_nat) simp
  have "\<bar>?q\<bar> \<le> 10 ^ nat k" using up unfolding p by (intro round_int_bound mode) simp
  then have "(of_int \<bar>?q\<bar> :: rat) \<le> 10 powi k" unfolding p by (simp only: of_int_le_iff)
  then have "of_int \<bar>?q\<bar> * 10 powi (- ?t) \<le> (10 :: rat) powi k * 10 powi (- ?t)" by (intro mult_right_mono) simp_all
  also have "\<dots> = 10 powi (e + 1)" by (subst powi_split [symmetric]) simp
  finally show "\<bar>round_decimal mode ?t z\<bar> \<le> 10 powi (e + 1)" by (simp add: round_decimal_def abs_mult)
qed

lemma div_significant_wp:
  assumes a: "decimal_wf a" and b: "decimal_wf b" and same: "same \<Longrightarrow> r = a" and k: "1 \<le> k" "in_i64 k"
    and mode: "bigdecimal_valid_rounding mode" and e: "decimal_val a = 0 \<or> decimal_val b = 0 \<or> decade e (decimal_val a / decimal_val b)"
    and Q: "\<And>st r'. (if decimal_val b = 0 then st = BIGDECIMAL_DIVISION_BY_ZERO \<and> r' = r
      else doutcome u (sig_fits a b (k - 1 - e))
        (INT64_MAX < k + int (digit_count b) \<or>
         \<not> decimal_representable (round_decimal mode (k - 1 - e) (decimal_val a / decimal_val b))) st
        (decimal_wf r' \<and> decimal_val r' = round_decimal mode (k - 1 - e) (decimal_val a / decimal_val b)) (r' = r)) \<Longrightarrow> Q (st, r')"
  shows "rspec u (bigdecimal_div_significant same r a b k mode) Q"
proof -
  note ad = decimal_wfD [OF a] and bd = decimal_wfD [OF b]
  have valid: "\<not> (k < 1 \<or> \<not> bigdecimal_valid_rounding mode)" using k mode by simp
  have zero: "bigint_is_zero (coefficient a) \<longleftrightarrow> decimal_val a = 0" "bigint_is_zero (coefficient b) \<longleftrightarrow> decimal_val b = 0"
    using ad(3) bd(3) by (simp_all add: is_zero_iff decimal_val_0_iff)
  consider "decimal_val b = 0" | "decimal_val b \<noteq> 0" "decimal_val a = 0" | "decimal_val b \<noteq> 0" "decimal_val a \<noteq> 0" by blast
  then show ?thesis
  proof cases
    case 1
    then show ?thesis using valid zero by (auto simp: bigdecimal_div_significant_def intro!: triple_return Q)
  next
    case 2
    have "round_decimal mode (k - 1 - e) 0 = 0" using mode round_int_of_int [of mode 0] by (simp add: round_decimal_def)
    then have "rspec u (bigdecimal_copy same r a) Q"
      by (intro decimal_copy_wp [OF a same] Q) (use 2 in \<open>auto elim: doutcome_mono\<close>)
    then show ?thesis using 2 valid zero by (simp add: bigdecimal_div_significant_def)
  next
    case 3
    let ?a = "bigint_val (coefficient a)" and ?b = "bigint_val (coefficient b)"
    let ?z = "of_int ?a / of_int ?b :: rat" and ?x = "decimal_val a / decimal_val b" and ?t = "k - 1 - e"
    let ?X = "round_decimal mode ?t ?x" and ?F = "sig_fits a b (k - 1 - e)"
    define ec where "ec = e - (scale b - scale a)"
    define t where "t = k - 1 - ec"
    let ?Y = "round_decimal mode t ?z"
    have ov: "INT64_MAX < k + int (digit_count b) \<or> \<not> decimal_representable ?X" if "\<not> decimal_representable ?X"
      using that ..
    have x: "?x = ?z * 10 powi (- (scale a - scale b))"
      by (simp add: decimal_val_def power_int_diff power_int_minus divide_inverse ac_simps)
    have X: "?X = ?Y * 10 powi (scale b - scale a)"
    proof -
      have "?t = t + (scale a - scale b)" by (simp add: t_def ec_def)
      then show ?thesis unfolding x by (simp only: round_decimal_shift) simp
    qed
    have dec: "decade ec ?z" using e 3 unfolding x decade_shift by (simp add: ec_def)
    have t_alt: "t = k - 1 - ec" by (fact t_def)
    note bounds = round_decimal_bounds [OF mode k(1) dec, folded t_def]
    have Q': "Q (st, r')" if "doutcome u ?F (INT64_MAX < k + int (digit_count b) \<or> \<not> decimal_representable ?X) st
        (decimal_wf r' \<and> decimal_val r' = ?X) (r' = r)" for st r'
      by (rule Q, unfold if_not_P [OF 3(1)], rule that)
    have fail: "Q (st, r)" if "doutcome u F ov st good bad" "st \<noteq> BIGDECIMAL_OK" "?F \<Longrightarrow> F"
        "ov \<Longrightarrow> INT64_MAX < k + int (digit_count b) \<or> \<not> decimal_representable ?X" for st F ov good bad
      by (rule Q', rule doutcome_failI [OF that]) (assumption | rule refl)+
    have oom: "Q (BIGDECIMAL_OUT_OF_MEMORY, r)" if "\<not> u" using that 3 by (intro Q') simp
    show ?thesis
      unfolding bigdecimal_div_significant_def if_not_P [OF valid] zero if_not_P [OF 3(1)] if_not_P [OF 3(2)]
    proof (rule triple_bind, rule significant_target_wp [OF a 3(2) b 3(1) storage_ok_init k dec], unfold prod.case, rule triple_if,
        goal_cases)
      case (1 st al t')
      show ?case by (rule triple_return, rule fail [OF 1]) (simp_all add: sig_fits_def)
    next
      case (2 st al t')
      then have t: "t' = t" "in_i64 t" and la: "int (digit_count a) \<le> INT64_MAX" by (auto simp: t_def)
      have Y: "?Y = of_int (round_int mode (?z * 10 powi t)) * 10 powi (- t)" by (simp add: round_decimal_def)
      have "int (digit_count a) - int (digit_count b) - 1 \<le> ec" "ec \<le> int (digit_count a) - int (digit_count b)"
        using decade_unique [OF dec decade_coefficients [OF a b 3]] by simp_all
      moreover have "0 < digit_count a" "0 < digit_count b" "int (digit_count b) \<le> INT64_MAX" using 2 by auto
      ultimately have "in_i64 (- (ec + 1))" using la unfolding in_i64_def INT64_MIN_def INT64_MAX_def by linarith
      from shifted_not_representable [OF _ Y bounds(1,2) t(2) this, of "scale a - scale b"]
      have ovY: "\<not> decimal_representable ?X" if "\<not> decimal_representable ?Y"
        using that unfolding X by simp
      show ?case
        unfolding t(1)
      proof (rule decimal_create_bind, simp add: triple_return oom, unfold option.case, rule triple_bind,
          rule unscaled_div_wp [OF a 3(2) b 3(1) t(2) mode], unfold prod.case, goal_cases)
        case (1 st' y)
        then have y: "doutcome u ?F (\<not> decimal_representable ?Y) st' (decimal_wf y \<and> decimal_val y = ?Y) True"
          by (rule doutcome_mono) (simp_all add: sig_fits_def t_alt ec_def algebra_simps)
        show ?case
        proof (cases "st' = BIGDECIMAL_OK")
          case True
          with y have Y: "decimal_wf y" "decimal_val y = ?Y" by simp_all
          then have nz: "decimal_val y \<noteq> 0" using bounds(1) by simp
          then have "\<not> bigint_is_zero (coefficient y)" using Y(1) by (simp add: decimal_wf_def is_zero_iff decimal_val_0_iff)
          with True show ?thesis
            using rescaled_quotient [OF Y(1) nz ad(2) bd(2) X [folded Y(2)]]
            by (auto simp: Let_def intro!: triple_return Q' split: option.splits)
        next
          case False
          with y show ?thesis using ovY by (auto intro!: triple_return Q' elim: doutcome_failI)
        qed
      qed
    qed
  qed
qed

section \<open>Exact division\<close>

lemma dcall_gcd:
  assumes a: "holds_int a x" and b: "holds_int b y" and r: "storage_ok r"
    and "\<bar>x\<bar> < int LB ^ i" "\<bar>y\<bar> < int LB ^ j" "F \<Longrightarrow> Suc (max i j) \<le> BIGINT_MAX_LIMBS"
    and Q: "\<And>st r'. doutcome u F False st (holds_int r' (gcd x y)) True \<Longrightarrow> Q (st, r')"
  shows "rspec u (decimal_call (bigint_gcd r a b)) Q"
  by (rule decimal_via, rule call_gcd_fits [OF a b r assms(4-6)]) (auto intro!: Q routcome_decimal)

lemma dcall_div:
  assumes a: "holds_int a x" and b: "holds_int b y" "y \<noteq> 0"
    and Q: "\<And>st r'. doutcome u True False st (holds_int r' (tdiv x y)) (r' = r) \<Longrightarrow> Q (st, r')"
  shows "rspec u (decimal_call (bigint_div r a b)) Q"
  by (rule decimal_via, rule call_div [OF a b]) (auto intro!: Q routcome_decimal)

lemma dcall_set_string:
  assumes "is_numeral 10 cs" "numeral_mag 10 cs < LB"
    and Q: "\<And>st v'. doutcome u True False st (holds_int v' (numeral_value 10 cs)) (v' = v) \<Longrightarrow> Q (st, v')"
  shows "rspec u (decimal_call (bigint_set_string v cs)) Q"
proof (rule decimal_call_wp, rule set_string_wp, unfold prod.case, goal_cases)
  case (1 st v')
  have "LB ^ 1 \<le> LB ^ (BIGINT_MAX_LIMBS - 1)" by (intro power_increasing) (simp_all add: max_limbs_numeral LB_def)
  with assms(2) have "numeral_mag 10 cs < LB ^ (BIGINT_MAX_LIMBS - 1)" by simp
  with 1 assms(1) have "outcome u True st (holds_int v' (numeral_value 10 cs)) (v' = v)"
    by (simp add: result_ok_def holds_int_def)
  from doutcome_of_outcome [OF this] show ?case by (rule Q)
qed

text \<open>The loop takes out all factors \<open>p\<close>; the count stays below \<open>n\<close>, the number of bits.\<close>

lemma divide_out_loop_wp:
  "holds_int den d \<Longrightarrow> 0 < d \<Longrightarrow> holds_int f p \<Longrightarrow> 2 \<le> p \<Longrightarrow> nat d < fuel \<Longrightarrow> 0 \<le> count \<Longrightarrow> count \<le> INT64_MAX \<Longrightarrow>
   d * 2 ^ nat count < 2 ^ n \<Longrightarrow>
   (\<And>st den' d' count'. doutcome u True (INT64_MAX < int n) st
      (holds_int den' d' \<and> 0 < d' \<and> \<not> p dvd d' \<and> d = d' * p ^ nat (count' - count) \<and> count \<le> count' \<and>
       count' \<le> INT64_MAX \<and> count' < int n) True \<Longrightarrow> Q (st, den', count')) \<Longrightarrow>
   rspec u (divide_out_loop fuel den f count) Q"
proof (induction fuel arbitrary: den d count)
  case 0
  then show ?case by simp
next
  case (Suc fuel)
  note den = Suc.prems(1) and Q = Suc.prems(9)
  have "(2 :: int) ^ nat count \<le> d * 2 ^ nat count" using Suc.prems(2) by simp
  with Suc.prems(8) have "(2 :: int) ^ nat count < 2 ^ n" by linarith
  then have n: "count < int n" using Suc.prems(6) by (simp add: power_less_imp_less_exp nat_less_iff)
  have stop: "Q (BIGDECIMAL_OK, den, count)" if "\<not> p dvd d"
    using that Suc.prems n by (intro Q [of _ _ d]) simp
  have oom: "Q (BIGDECIMAL_OUT_OF_MEMORY, den', c)" if "\<not> u" for den' c using that by (intro Q) simp
  show ?case
  proof (cases "d = 1")
    case True
    then have "\<not> p dvd d" using Suc.prems(4) by (auto dest: zdvd_imp_le)
    moreover have "bigint_is_one den" using True den by (simp add: is_one_iff holds_int_def)
    ultimately show ?thesis using stop by (simp add: triple_return)
  next
    case False
    then have one: "\<not> bigint_is_one den" using den by (simp add: is_one_iff holds_int_def)
    have p: "p \<noteq> 0" "0 \<le> d" "0 \<le> p" using Suc.prems(2,4) by simp_all
    have parts: "tdiv d p = d div p" "tmod d p = d mod p"
      using p Suc.prems(2,4) by (simp_all add: tdiv_nonneg tmod_def)
    have step: "rspec u (do {
        (status, quot, remainder) \<leftarrow> decimal_call (bigint_div_mod False bigint_init bigint_init den f);
        if status \<noteq> BIGDECIMAL_OK \<or> \<not> bigint_is_zero remainder
        then State_Monad.return (status, den, count)
        else if count = INT64_MAX then State_Monad.return (BIGDECIMAL_SCALE_OVERFLOW, den, count)
        else do {
          (status, den) \<leftarrow> decimal_call (bigint_copy den quot);
          if status = BIGDECIMAL_OK then divide_out_loop fuel den f (count + 1)
          else State_Monad.return (status, den, count + 1)
        } }) Q"
    proof (rule triple_bind, rule dcall_div_mod [OF den Suc.prems(3) p(1)], unfold prod.case parts, intro triple_if, goal_cases)
      case (1 st q r)
      show ?case
      proof (cases "st = BIGDECIMAL_OK")
        case True
        with 1 have "d mod p \<noteq> 0" by (auto simp: holds_int_def is_zero_iff)
        then show ?thesis using True stop by (simp add: triple_return dvd_eq_mod_eq_0)
      next
        case False
        with 1 show ?thesis by (intro triple_return Q [of _ _ d]) (auto elim: doutcome_failI)
      qed
    next
      case (2 st q r)
      then have dvd: "p dvd d" by (auto simp: holds_int_def is_zero_iff dvd_eq_mod_eq_0)
      then have "2 \<le> d" using zdvd_imp_le [OF dvd] Suc.prems(2,4) by linarith
      then have "2 * 2 ^ nat count \<le> d * 2 ^ nat count" by simp
      then have "(2 :: int) ^ Suc (nat count) < 2 ^ n" using Suc.prems(8) unfolding power_Suc by linarith
      then have "Suc (nat count) < n" by (rule power_less_imp_less_exp [rotated]) simp
      then have "INT64_MAX < int n" using 2(3) Suc.prems(6) by linarith
      then show ?case by (intro triple_return Q [of _ _ d]) simp
    next
      case (3 st q r)
      then have dvd: "p dvd d" and q: "holds_int q (d div p)" by (auto simp: holds_int_def is_zero_iff dvd_eq_mod_eq_0)
      define d' where "d' = d div p"
      have d: "d = d' * p" using dvd by (simp add: d'_def)
      then have d': "0 < d'" using Suc.prems(2,4) by (auto simp: zero_less_mult_iff)
      then have "d' * 2 \<le> d" unfolding d using Suc.prems(4) by (intro mult_left_mono) simp_all
      note half = this
      have c1: "nat (count + 1) = Suc (nat count)" using Suc.prems(6) by simp
      have "d' * 2 ^ nat (count + 1) \<le> d * 2 ^ nat count"
        using mult_right_mono [OF half, of "2 ^ nat count"] by (simp add: c1 mult.assoc)
      then have n': "d' * 2 ^ nat (count + 1) < 2 ^ n" using Suc.prems(8) by linarith
      show ?case
      proof (rule triple_bind, rule dcall_copy [OF q [folded d'_def] holds_intD(3) [OF den]], unfold prod.case, rule triple_if, goal_cases)
        case (1 st' den')
        then have h: "holds_int den' d'" by simp
        have fuel: "nat d' < fuel" using half d' Suc.prems(5) by linarith
        have c2: "0 \<le> count + 1" "count + 1 \<le> INT64_MAX" using Suc.prems(6,7) 3(3) by simp_all
        show ?case
        proof (rule Suc.IH [OF h d' Suc.prems(3,4) fuel c2 n'])
          fix st den'' d'' count'
          assume o: "doutcome u True (INT64_MAX < int n) st
            (holds_int den'' d'' \<and> 0 < d'' \<and> \<not> p dvd d'' \<and> d' = d'' * p ^ nat (count' - (count + 1)) \<and> count + 1 \<le> count' \<and>
             count' \<le> INT64_MAX \<and> count' < int n) True"
          show "Q (st, den'', count')"
          proof (rule Q [of _ _ d''], rule doutcome_mono [OF o])
            assume *: "holds_int den'' d'' \<and> 0 < d'' \<and> \<not> p dvd d'' \<and> d' = d'' * p ^ nat (count' - (count + 1)) \<and>
              count + 1 \<le> count' \<and> count' \<le> INT64_MAX \<and> count' < int n"
            then have "count + 1 \<le> count'" and d'': "d' = d'' * p ^ nat (count' - (count + 1))" by blast+
            then have e: "nat (count' - count) = Suc (nat (count' - (count + 1)))" by linarith
            have "d = d'' * p ^ nat (count' - count)" unfolding d e power_Suc d'' by simp
            with * show "holds_int den'' d'' \<and> 0 < d'' \<and> \<not> p dvd d'' \<and> d = d'' * p ^ nat (count' - count) \<and>
              count \<le> count' \<and> count' \<le> INT64_MAX \<and> count' < int n"
              by auto
          qed simp_all
        qed
      next
        case (2 st' den')
        then show ?case by (intro triple_return Q [of _ _ d]) (auto elim: doutcome_failI)
      qed
    qed
    show ?thesis
      unfolding divide_out_loop.simps if_not_P [OF one]
      by (rule triple_bind, rule budget_check_wp) (use step in \<open>auto intro!: triple_return oom\<close>)
  qed
qed

lemma divide_out_wp:
  assumes den: "holds_int den d" "0 < d" "d < 2 ^ n" and p: "cs = ''2'' \<and> p = 2 \<or> cs = ''5'' \<and> p = 5"
    and Q: "\<And>st den' f' c. doutcome u True (INT64_MAX < int n) st
      (\<exists>d'. holds_int den' d' \<and> 0 < d' \<and> \<not> p dvd d' \<and> d = d' * p ^ nat c \<and> 0 \<le> c \<and> c \<le> INT64_MAX \<and> c < int n) True \<Longrightarrow>
      Q (st, den', f', c)"
  shows "rspec u (divide_out cs den f) Q"
proof -
  have cs: "is_numeral 10 cs" "numeral_mag 10 cs < LB" "numeral_value 10 cs = p" "2 \<le> p"
    using p by (auto simp: is_numeral_def numeral_mag_def numeral_value_def numeral_text_def digits_value_Cons LB_def
      bigint_ascii_digit_def)
  have "int (bigint_mag den) = d" using den(1,2) abs_bigint_val [of den] by (simp add: holds_int_def)
  then have mag: "nat d < bigint_mag den + 1" by linarith
  show ?thesis
    unfolding divide_out_def
  proof (rule triple_bind, rule dcall_set_string [OF cs(1,2)], unfold prod.case cs(3), rule decimal_chain, goal_cases)
    case (1 st f')
    then have f: "holds_int f' p" by simp
    show ?case
    proof (rule triple_bind, rule divide_out_loop_wp [where n = n, OF den(1,2) f cs(4) mag], goal_cases)
      case (4 st den' d' c)
      then show ?case by (auto intro!: triple_return Q elim!: doutcome_mono)
    qed (use den(3) in \<open>simp_all add: INT64_MAX_def\<close>)
  next
    case (2 st f')
    then show ?case by (auto intro!: triple_return Q elim: doutcome_failI)
  qed
qed

text \<open>The numbers with a finite decimal expansion.\<close>

definition finite_decimal :: "rat \<Rightarrow> bool" where
  "finite_decimal x \<longleftrightarrow> (\<exists>n. x * 10 ^ n \<in> \<int>)"

lemma finite_decimal_shift: "finite_decimal (x * 10 powi e) \<longleftrightarrow> finite_decimal x"
proof -
  have up: "finite_decimal (y * 10 powi e)" if "finite_decimal y" for y :: rat and e
  proof -
    from that obtain n where n: "y * 10 ^ n \<in> \<int>" by (auto simp: finite_decimal_def)
    have "y * 10 powi e * 10 ^ (n + nat (- e)) = y * 10 ^ n * 10 ^ nat e"
    proof (cases "0 \<le> e")
      case True
      then show ?thesis by (simp add: powi_nat)
    next
      case False
      then have "(10 :: rat) powi e * 10 ^ nat (- e) = 10 powi e * 10 powi (- e)" using powi_nat [of "- e"] by simp
      then have "(10 :: rat) powi e * 10 ^ nat (- e) = 1" by (simp add: power_int_minus)
      then show ?thesis using False by (simp add: power_add mult.commute mult.left_commute)
    qed
    also have "\<dots> \<in> \<int>" using n by simp
    finally show ?thesis unfolding finite_decimal_def ..
  qed
  have "x * 10 powi e * 10 powi (- e) = x" by (simp add: mult.assoc flip: powi_split)
  then show ?thesis using up [of x e] up [of "x * 10 powi e" "- e"] by metis
qed

lemma quotient_integral:
  fixes a b m :: int
  assumes "b \<noteq> 0"
  shows "of_int a / of_int b * of_int m \<in> (\<int> :: rat set) \<longleftrightarrow> b dvd a * m"
proof
  assume "of_int a / of_int b * of_int m \<in> (\<int> :: rat set)"
  then obtain k where "(of_int a / of_int b * of_int m :: rat) = of_int k" by (auto elim: Ints_cases)
  then have "(of_int (a * m) :: rat) = of_int (b * k)" using assms by (simp add: field_simps)
  then have "a * m = b * k" by (simp only: of_int_eq_iff)
  then show "b dvd a * m" by simp
next
  assume "b dvd a * m"
  then obtain k where "a * m = b * k" ..
  then have "(of_int a * of_int m :: rat) = of_int b * of_int k" by (metis of_int_mult)
  then have "(of_int a / of_int b * of_int m :: rat) = of_int k" using assms by (simp add: field_simps)
  then show "of_int a / of_int b * of_int m \<in> (\<int> :: rat set)" by simp
qed

lemma coprime_five:
  fixes d :: int
  assumes "\<not> 5 dvd d"
  shows "coprime 5 d"
proof -
  define g where "g = gcd 5 d"
  have g: "g dvd 5" "0 < g" "g dvd d" by (simp_all add: g_def)
  then have "g \<le> 5" by (intro zdvd_imp_le) simp_all
  with g(2) consider "g = 1" | "g = 2" | "g = 3" | "g = 4" | "g = 5" by linarith
  then show ?thesis
    unfolding coprime_iff_gcd_eq_1 g_def [symmetric] using g(1,3) assms by cases simp_all
qed

lemma finite_decimal_iff:
  fixes a b d :: int
  assumes b: "b \<noteq> 0" and d: "0 < d" "\<not> 2 dvd d" "\<not> 5 dvd d" and eq: "\<bar>b\<bar> div gcd a b = d * 5 ^ l * 2 ^ j"
  shows "finite_decimal (of_int a / of_int b) \<longleftrightarrow> d = 1"
    "d = 1 \<Longrightarrow> of_int a / of_int b * 10 ^ max j l \<in> (\<int> :: rat set)"
proof -
  let ?g = "gcd a b"
  define a' b' where "a' = a div ?g" and "b' = b div ?g"
  have g: "?g \<noteq> 0" "a = a' * ?g" "b = b' * ?g" using b by (simp_all add: a'_def b'_def)
  have cop: "coprime b' a'" unfolding a'_def b'_def using div_gcd_coprime [of a b] b by (simp add: coprime_commute)
  have b': "b' \<noteq> 0" using b g(3) by auto
  have "\<bar>b\<bar> = \<bar>b'\<bar> * ?g" by (metis g(3) abs_mult abs_of_nonneg gcd_ge_0_int)
  then have abs: "\<bar>b'\<bar> = d * 5 ^ l * 2 ^ j" using eq g(1) b by simp
  have "(of_int ?g :: rat) \<noteq> 0" using g(1) by simp
  then have z: "(of_int a / of_int b :: rat) = of_int a' / of_int b'"
    by (metis g(2,3) of_int_mult nonzero_mult_divide_mult_cancel_right)
  have int: "of_int a / of_int b * 10 ^ n \<in> (\<int> :: rat set) \<longleftrightarrow> d * 5 ^ l * 2 ^ j dvd 10 ^ n" for n
  proof -
    have "of_int a / of_int b * 10 ^ n \<in> (\<int> :: rat set) \<longleftrightarrow> b' dvd a' * 10 ^ n"
      unfolding z using quotient_integral [OF b', of a' "10 ^ n"] by simp
    also have "\<dots> \<longleftrightarrow> b' dvd 10 ^ n" using cop by (simp add: coprime_dvd_mult_right_iff)
    finally show ?thesis unfolding abs [symmetric] by simp
  qed
  have ten: "(10 :: int) ^ n = 5 ^ n * 2 ^ n" for n by (simp flip: power_mult_distrib)
  show "d = 1 \<Longrightarrow> of_int a / of_int b * 10 ^ max j l \<in> (\<int> :: rat set)"
    unfolding int ten by (auto intro!: mult_dvd_mono le_imp_power_dvd)
  then have "finite_decimal (of_int a / of_int b)" if "d = 1" using that by (auto simp: finite_decimal_def)
  moreover have "d = 1" if "finite_decimal (of_int a / of_int b)"
  proof -
    from that obtain n where "of_int a / of_int b * 10 ^ n \<in> (\<int> :: rat set)" unfolding finite_decimal_def by blast
    then have "d * 5 ^ l * 2 ^ j dvd 10 ^ n" unfolding int .
    then have dn: "d dvd 10 ^ n" by (auto dest: dvd_mult_left)
    have "coprime (2 :: int) d" "coprime (5 :: int) d" using d by (simp_all add: coprime_five)
    then have "coprime d (2 * 5)" unfolding coprime_mult_right_iff by (simp add: coprime_commute)
    then have "coprime d (10 ^ n)" by simp
    from coprime_common_divisor [OF this dvd_refl dn] have "is_unit d" .
    then show ?thesis using d(1) by simp
  qed
  ultimately show "finite_decimal (of_int a / of_int b) \<longleftrightarrow> d = 1" by blast
qed

lemma exact_quotient_wp:
  assumes a: "decimal_wf a" "decimal_val a \<noteq> 0" and b: "decimal_wf b" "decimal_val b \<noteq> 0" and t: "in_i64 t" "0 \<le> t"
    and mode: "bigdecimal_valid_rounding mode"
    and exact: "of_int (bigint_val (coefficient a)) / of_int (bigint_val (coefficient b)) * 10 ^ nat t \<in> (\<int> :: rat set)"
    and Q: "\<And>st r'. doutcome u (ten_fits (nat t) (bsize (coefficient a) + bsize (coefficient b) + 1))
        (INT64_MAX < int (digit_count a) \<or> \<not> decimal_representable (decimal_val a / decimal_val b)) st
        (decimal_wf r' \<and> decimal_val r' = decimal_val a / decimal_val b) (r' = r) \<Longrightarrow> Q (st, r')"
  shows "rspec u (do {
      created \<leftarrow> bigdecimal_create;
      case created of
        None \<Rightarrow> State_Monad.return (BIGDECIMAL_OUT_OF_MEMORY, r)
      | Some temporary \<Rightarrow> do {
          (status, temporary) \<leftarrow> bigdecimal_div False temporary (a\<lparr>scale := 0\<rparr>) (b\<lparr>scale := 0\<rparr>) t mode;
          if status \<noteq> BIGDECIMAL_OK then State_Monad.return (status, r)
          else case quotient_scale (scale temporary) (scale a) (scale b) of
            None \<Rightarrow> State_Monad.return (BIGDECIMAL_SCALE_OVERFLOW, r)
          | Some s \<Rightarrow> State_Monad.return (BIGDECIMAL_OK, bigdecimal_commit r (temporary\<lparr>scale := s\<rparr>))
        }
    }) Q"
proof -
  note ad = decimal_wfD [OF a(1)] and bd = decimal_wfD [OF b(1)]
  let ?a = "bigint_val (coefficient a)" and ?b = "bigint_val (coefficient b)" and ?x = "decimal_val a / decimal_val b"
  let ?z = "of_int ?a / of_int ?b :: rat"
  have nz: "?a \<noteq> 0" "?b \<noteq> 0" using a(2) b(2) by (simp_all add: decimal_val_0_iff)
  obtain q where q: "?z * 10 ^ nat t = of_int q" using exact by (auto elim: Ints_cases)
  have p: "(10 :: rat) ^ nat t = 10 powi t" using powi_nat [OF t(2)] by simp
  have z: "?z = of_int q * 10 powi (- t)" unfolding q [symmetric] p by (simp add: mult.assoc flip: powi_split)
  have round: "round_decimal mode t ?z = ?z"
    unfolding round_decimal_def p [symmetric] q round_int_of_int [OF mode] z [symmetric] ..
  have x: "?x = ?z * 10 powi (scale b - scale a)"
    by (simp add: decimal_val_def power_int_diff power_int_minus divide_inverse ac_simps)
  have bound: "\<bar>?z\<bar> \<le> 10 powi int (digit_count a)"
  proof -
    have "1 \<le> \<bar>?b\<bar>" using nz(2) by linarith
    then have b1: "(1 :: rat) \<le> \<bar>of_int ?b\<bar>" by (simp only: of_int_1_le_iff flip: of_int_abs)
    have "\<bar>?z\<bar> = \<bar>of_int ?a\<bar> / \<bar>of_int ?b\<bar>" by (simp only: abs_divide)
    also have "\<dots> \<le> \<bar>of_int ?a\<bar> / 1" using b1 by (intro divide_left_mono) simp_all
    also have "\<dots> = of_nat (bigint_mag (coefficient a))" by (simp flip: of_int_abs)
    also have "\<dots> \<le> of_nat (10 ^ digit_count a)"
      using digit_count_bounds(2) [of "bigint_mag (coefficient a)"] nz(1) by (simp only: of_nat_le_iff val_0_mag) simp
    finally show ?thesis by simp
  qed
  have ov: "\<not> decimal_representable ?x" if "\<not> decimal_representable ?z" "int (digit_count a) \<le> INT64_MAX"
  proof -
    have "in_i64 (- int (digit_count a))" using that(2) by (simp add: in_i64_def INT64_MIN_def INT64_MAX_def)
    moreover have "?z \<noteq> 0" using nz by simp
    ultimately show ?thesis
      unfolding x using shifted_not_representable [OF that(1) z _ bound t(1), of "scale a - scale b"] by simp
  qed
  have oom: "Q (BIGDECIMAL_OUT_OF_MEMORY, r)" if "\<not> u" using that by (intro Q) simp
  show ?thesis
  proof (rule decimal_create_bind, simp add: triple_return oom, unfold option.case, rule triple_bind,
      rule unscaled_div_wp [OF a b t(1) mode], unfold prod.case round, rule triple_if, goal_cases)
    case (1 st y)
    then show ?case using t ov by (intro triple_return Q) (auto elim!: doutcome_failI simp: not_less)
  next
    case (2 st y)
    then have y: "decimal_wf y" "decimal_val y = ?z" by simp_all
    then have "decimal_val y \<noteq> 0" using nz by simp
    from rescaled_quotient [OF y(1) this ad(2) bd(2) x [folded y(2)]] show ?case
      by (auto intro!: triple_return Q split: option.splits)
  qed
qed

definition exact_fits :: "BigDecimal \<Rightarrow> BigDecimal \<Rightarrow> int \<Rightarrow> bool" where
  "exact_fits a b t \<longleftrightarrow> ten_fits (64 * bsize (coefficient b)) (bsize (coefficient a) + bsize (coefficient b) + 1) \<and>
     (\<not> finite_decimal (decimal_val a / decimal_val b) \<longrightarrow> sig_fits a b t)"

text \<open>The number that is stored.\<close>

definition quotient_value :: "BigDecimalRoundingMode \<Rightarrow> int \<Rightarrow> rat \<Rightarrow> rat" where
  "quotient_value mode t x = (if finite_decimal x then x else round_decimal mode t x)"

definition exact_overflow :: "BigDecimal \<Rightarrow> BigDecimal \<Rightarrow> int \<Rightarrow> bool" where
  "exact_overflow a b k \<longleftrightarrow> INT64_MAX < 64 * int (bsize (coefficient b)) \<or> INT64_MAX < int (digit_count a) \<or>
     \<not> finite_decimal (decimal_val a / decimal_val b) \<and> INT64_MAX < k + int (digit_count b)"

lemma div_exact_wp:
  assumes a: "decimal_wf a" and b: "decimal_wf b" and same: "same \<Longrightarrow> r = a" and k: "1 \<le> k" "in_i64 k"
    and mode: "bigdecimal_valid_rounding mode" and e: "decimal_val a = 0 \<or> decimal_val b = 0 \<or> decade e (decimal_val a / decimal_val b)"
    and Q: "\<And>st r'. (if decimal_val b = 0 then st = BIGDECIMAL_DIVISION_BY_ZERO \<and> r' = r
      else doutcome u (exact_fits a b (k - 1 - e))
        (exact_overflow a b k \<or> \<not> decimal_representable (quotient_value mode (k - 1 - e) (decimal_val a / decimal_val b))) st
        (decimal_wf r' \<and> decimal_val r' = quotient_value mode (k - 1 - e) (decimal_val a / decimal_val b)) (r' = r)) \<Longrightarrow> Q (st, r')"
  shows "rspec u (bigdecimal_div_exact_or_significant same r a b k mode) Q"
proof -
  note ad = decimal_wfD [OF a] and bd = decimal_wfD [OF b]
  have valid: "\<not> (k < 1 \<or> \<not> bigdecimal_valid_rounding mode)" using k mode by simp
  have zero: "bigint_is_zero (coefficient a) \<longleftrightarrow> decimal_val a = 0" "bigint_is_zero (coefficient b) \<longleftrightarrow> decimal_val b = 0"
    using ad(3) bd(3) by (simp_all add: is_zero_iff decimal_val_0_iff)
  consider "decimal_val b = 0" | "decimal_val b \<noteq> 0" "decimal_val a = 0" | "decimal_val b \<noteq> 0" "decimal_val a \<noteq> 0" by blast
  then show ?thesis
  proof cases
    case 1
    then show ?thesis using valid zero by (auto simp: bigdecimal_div_exact_or_significant_def intro!: triple_return Q)
  next
    case 2
    have "finite_decimal 0" by (simp add: finite_decimal_def)
    then have "rspec u (bigdecimal_copy same r a) Q"
      by (intro decimal_copy_wp [OF a same] Q) (use 2 in \<open>auto simp: quotient_value_def elim: doutcome_mono\<close>)
    then show ?thesis using 2 valid zero by (simp add: bigdecimal_div_exact_or_significant_def)
  next
    case 3
    let ?a = "bigint_val (coefficient a)" and ?b = "bigint_val (coefficient b)"
    let ?z = "of_int ?a / of_int ?b :: rat" and ?x = "decimal_val a / decimal_val b" and ?t = "k - 1 - e"
    let ?X = "quotient_value mode ?t ?x" and ?F = "exact_fits a b ?t" and ?n = "64 * bsize (coefficient b)"
    let ?ov = "exact_overflow a b k \<or> \<not> decimal_representable ?X"
    have nz: "?a \<noteq> 0" "?b \<noteq> 0" using 3 by (simp_all add: decimal_val_0_iff)
    have Q': "Q (st, r')" if "doutcome u ?F ?ov st (decimal_wf r' \<and> decimal_val r' = ?X) (r' = r)" for st r'
      by (rule Q, unfold if_not_P [OF 3(1)], rule that)
    have fail: "Q (st, r)" if "doutcome u F ov st good bad" "st \<noteq> BIGDECIMAL_OK" "?F \<Longrightarrow> F" "ov \<Longrightarrow> ?ov" for st F ov good bad
      by (rule Q', rule doutcome_failI [OF that]) (assumption | rule refl)+
    have oom: "Q (BIGDECIMAL_OUT_OF_MEMORY, r)" if "\<not> u" using that 3 by (intro Q') simp
    define g where "g = gcd ?a ?b"
    define d0 where "d0 = \<bar>?b\<bar> div g"
    have g: "0 < g" "g dvd ?b" using nz by (simp_all add: g_def)
    have d0: "\<bar>tdiv ?b g\<bar> = d0" "0 < d0" "d0 < 2 ^ ?n"
    proof -
      show "\<bar>tdiv ?b g\<bar> = d0" using g nz by (simp add: tdiv_def d0_def abs_mult pos_imp_zdiv_nonneg_iff)
      have "d0 * g = \<bar>?b\<bar>" using g(2) by (simp add: d0_def del: abs_bigint_val)
      then show "0 < d0" using g(1) nz(2) by (metis zero_less_abs_iff zero_less_mult_pos2)
      then have "d0 * 1 \<le> d0 * g" using g(1) by (intro mult_left_mono) simp_all
      then have "d0 < int LB ^ bsize (coefficient b)" using \<open>d0 * g = _\<close> bigint_val_size [of "coefficient b"] by linarith
      then show "d0 < 2 ^ ?n" by (simp add: LB_def power_mult)
    qed
    let ?exact = "\<lambda>t. do {
      created \<leftarrow> bigdecimal_create;
      case created of
        None \<Rightarrow> State_Monad.return (BIGDECIMAL_OUT_OF_MEMORY, r)
      | Some temporary \<Rightarrow> do {
          (status, temporary) \<leftarrow> bigdecimal_div False temporary (a\<lparr>scale := 0\<rparr>) (b\<lparr>scale := 0\<rparr>) t mode;
          if status \<noteq> BIGDECIMAL_OK then State_Monad.return (status, r)
          else case quotient_scale (scale temporary) (scale a) (scale b) of
            None \<Rightarrow> State_Monad.return (BIGDECIMAL_SCALE_OVERFLOW, r)
          | Some s \<Rightarrow> State_Monad.return (BIGDECIMAL_OK, bigdecimal_commit r (temporary\<lparr>scale := s\<rparr>))
        } }"
    have last: "rspec u (if bigint_is_one den then ?exact (if j > l then j else l)
        else bigdecimal_div_significant same r a b k mode) Q"
      if den: "holds_int den d2" "0 < d2" "\<not> 5 dvd d2" "\<not> 2 dvd d2 * 5 ^ nat l" "d0 = d2 * 5 ^ nat l * 2 ^ nat j"
        and j: "0 \<le> j" "j \<le> INT64_MAX" "j < int ?n" and l: "0 \<le> l" "l \<le> INT64_MAX" "l < int ?n" for den d2 j l
    proof -
      have one: "bigint_is_one den \<longleftrightarrow> d2 = 1" using den(1) by (simp add: holds_int_def is_one_iff)
      have "\<not> 2 dvd d2" using den(4) by auto
      note finite = finite_decimal_iff [OF nz(2) den(2) this den(3) den(5) [unfolded d0_def g_def]]
      have x: "?x = ?z * 10 powi (scale b - scale a)"
        by (simp add: decimal_val_def power_int_diff power_int_minus divide_inverse ac_simps)
      have fin: "finite_decimal ?x \<longleftrightarrow> d2 = 1" unfolding x finite_decimal_shift by (rule finite(1))
      have mx: "nat (if j > l then j else l) = max (nat j) (nat l)" using j(1) l(1) by auto
      show ?thesis
      proof (rule triple_if, goal_cases)
        case 1
        then have X: "?X = ?x" and d2: "d2 = 1" using fin one by (simp_all add: quotient_value_def)
        show ?case
        proof (rule exact_quotient_wp [OF a 3(2) b 3(1) _ _ mode], goal_cases)
          case (4 st r')
          have "nat (if j > l then j else l) \<le> ?n" using j l by auto
          then show ?case
            using 4 X by (intro Q') (auto elim!: doutcome_mono ten_fits_mono simp: exact_fits_def exact_overflow_def)
        qed (use j l finite(2) [OF d2] in \<open>auto simp: in_i64_def INT64_MIN_def INT64_MAX_def mx\<close>)
      next
        case 2
        then have X: "?X = round_decimal mode ?t ?x" using fin one by (simp add: quotient_value_def)
        show ?case
          by (rule div_significant_wp [OF a b same k mode e], assumption, rule Q')
            (use 3 X 2 fin one in \<open>auto elim!: doutcome_mono simp: exact_fits_def exact_overflow_def\<close>)
      qed
    qed
    show ?thesis
      unfolding bigdecimal_div_exact_or_significant_def if_not_P [OF valid] zero if_not_P [OF 3(1)] if_not_P [OF 3(2)]
    proof (rule objects_bind, simp add: triple_return oom, unfold not_True_eq_False if_False, rule triple_bind,
        rule dcall_gcd [where F = ?F, OF ad(1) bd(1) storage_ok_init bigint_val_size bigint_val_size], goal_cases)
      case 1
      then show ?case by (auto simp: exact_fits_def ten_fits_def max_def)
    next
      case (2 st f)
      show ?case
        unfolding prod.case
      proof (rule decimal_chain, goal_cases)
        case 1
        then have f: "holds_int f g" "g \<noteq> 0" using 2 g(1) by (simp_all add: g_def)
        show ?case
        proof (rule triple_bind, rule dcall_div [OF bd(1) f], unfold prod.case, rule decimal_chain, goal_cases)
          case (1 st den)
          then have den: "holds_int den (tdiv ?b g)" by simp
          show ?case
          proof (rule triple_bind, rule dcall_abs [OF den holds_intD(3) [OF den]], unfold prod.case d0(1), rule decimal_chain, goal_cases)
            case (1 st den)
            then have den: "holds_int den d0" by simp
            show ?case
            proof (rule triple_bind, rule divide_out_wp [where p = 2, OF den d0(2,3)], simp, unfold prod.case, rule decimal_chain, goal_cases)
              case (1 st den f j)
              then obtain d1 where d1: "holds_int den d1" "0 < d1" "\<not> 2 dvd d1" "d0 = d1 * 2 ^ nat j" "0 \<le> j" "j \<le> INT64_MAX" "j < int ?n"
                by auto
              have "d1 * 1 \<le> d1 * 2 ^ nat j" using d1(2) by (intro mult_left_mono) simp_all
              then have less: "d1 < 2 ^ ?n" using d0(3) d1(4) by linarith
              show ?case
              proof (rule triple_bind, rule divide_out_wp [where p = 5, OF d1(1,2) less], simp, unfold prod.case, rule triple_if, goal_cases)
                case (1 st den' f' l)
                show ?case by (rule triple_return, rule fail [OF 1]) (simp_all add: exact_overflow_def)
              next
                case (2 st den' f' l)
                then obtain d2 where d2: "holds_int den' d2" "0 < d2" "\<not> 5 dvd d2" "d1 = d2 * 5 ^ nat l" "0 \<le> l" "l \<le> INT64_MAX"
                    "l < int ?n"
                  by auto
                show ?case
                  by (rule last [OF d2(1-3) d1(3) [unfolded d2(4)] d1(4) [unfolded d2(4)] d1(5-7) d2(5-7)])
              qed
            next
              case (2 st den f j)
              have "Q (st, r)" by (rule fail [OF 2]) (simp_all add: exact_overflow_def)
              with 2 show ?case by (simp add: triple_return)
            qed
          next
            case (2 st den)
            have "Q (st, r)" by (rule fail [OF 2]) simp_all
            with 2 show ?case by (simp add: triple_return)
          qed
        next
          case (2 st den)
          have "Q (st, r)" by (rule fail [OF 2]) simp_all
          with 2 show ?case by (simp add: triple_return)
        qed
      next
        case b: 2
        then show ?case using 2 fail by (simp add: triple_return)
      qed
    qed
  qed
qed

section \<open>Properties\<close>

lemma example_seven: "decimal_wf (example_decimal 7 0)" "decimal_val (example_decimal 7 0) = 7" "scale (example_decimal c e) = e"
  by (simp_all add: example_decimal_def decimal_wf_def decimal_val_def in_i64_def INT64_MIN_def INT64_MAX_def)

lemma example_digits: "digit_count (example_decimal 12 1) = 2" "digit_count (example_decimal 7 0) = 1" "digit_count (example_decimal 5 2) = 1"
  by (simp_all add: example_decimal_def numeral_digits.simps bigint_wrap_uint64_def)

lemma example_representable: "decimal_representable (17 / 100)" "decimal_representable 24"
proof -
  have "decimal_wf (example_decimal 17 2)" "decimal_val (example_decimal 17 2) = 17 / 100"
    by (simp_all add: example_decimal_def decimal_wf_def decimal_val_def in_i64_def INT64_MIN_def INT64_MAX_def power_int_minus)
  then show "decimal_representable (17 / 100)" by (auto simp: decimal_representable_def)
  show "decimal_representable 24" using integer_representable [of "bigint_wrap_uint64 24"] by simp
qed

lemma example_quotient: "round_decimal BIGDECIMAL_ROUND_HALF_EVEN 2 (6 / 35) = 17 / 100"
proof -
  have fl: "\<lfloor>120 / 7 :: rat\<rfloor> = 17" "\<lfloor>247 / 14 :: rat\<rfloor> = 17" by (simp_all add: floor_unique)
  show ?thesis by (simp add: round_decimal_def round_int_def frac_def fl power_int_minus)
qed

text \<open>C17: Division to a scale rounds the quotient of the two decimals to that many places, for all scales of
  the operands: the power of ten between the coefficients is put on one of them only. A zero divisor is
  reported. The scale overflows only when the exponent of that power leaves the type or when no object can hold
  the result; on failure the destination is unchanged.\<close>

theorem bigdecimal_div_correct:
  assumes "\<not> stuck s" "decimal_wf a" "decimal_wf b" "same \<Longrightarrow> r = a" "in_i64 t" "bigdecimal_valid_rounding mode"
  shows "case run_state (bigdecimal_div same r a b t mode) s of ((st, r'), s') \<Rightarrow> \<not> stuck s' \<and>
    (if decimal_val b = 0 then st = BIGDECIMAL_DIVISION_BY_ZERO \<and> r' = r
     else doutcome (unlimited s) (div_fits a b t) (\<not> in_i64 (t + scale b - scale a) \<or>
         \<not> decimal_representable (round_decimal mode t (decimal_val a / decimal_val b))) st
       (decimal_wf r' \<and> decimal_val r' = round_decimal mode t (decimal_val a / decimal_val b)) (r' = r))"
  by (rule rspec_run2 [OF _ assms(1)], rule decimal_div_wp [OF assms(2-6)], unfold prod.case, assumption)

theorem bigdecimal_div_correct_witness:
  "case run_state (bigdecimal_div True (example_decimal 12 1) (example_decimal 12 1) (example_decimal 7 0) 2
      BIGDECIMAL_ROUND_HALF_EVEN) idle_runtime of ((st, r'), s') \<Rightarrow> st = BIGDECIMAL_OK \<and> decimal_wf r' \<and> decimal_val r' = 17 / 100"
proof -
  have fits: "div_fits (example_decimal 12 1) (example_decimal 7 0) 2"
    by (simp add: div_fits_def ten_fits_def ten_limbs_def example_decimal_def bsize_wrap_uint64 max_limbs_numeral SIZE_MAX_def)
  have ex: "in_i64 (2 + scale (example_decimal 7 0) - scale (example_decimal 12 1))"
    by (simp add: example_seven in_i64_def INT64_MIN_def INT64_MAX_def)
  show ?thesis
    using bigdecimal_div_correct [of idle_runtime "example_decimal 12 1" "example_decimal 7 0" True "example_decimal 12 1" 2
        BIGDECIMAL_ROUND_HALF_EVEN]
    by (auto simp: doutcome_def example_decimals example_seven example_quotient example_representable fits ex
      in_i64_def INT64_MIN_def INT64_MAX_def bigdecimal_valid_rounding_def split: prod.splits if_splits)
qed

text \<open>C19: Division to a number of significant digits rounds the quotient at the scale that puts the last digit
  \<open>k - 1\<close> places below the leading digit of the quotient, which is found by comparing the coefficients and
  without dividing. A zero divisor is reported. The scale overflows only when no object can hold the result or when the digits asked for
  and those of the divisor together exceed \<^verbatim>\<open>INT64_MAX\<close>.\<close>

theorem bigdecimal_div_significant_correct:
  assumes "\<not> stuck s" "decimal_wf a" "decimal_wf b" "same \<Longrightarrow> r = a" "1 \<le> k" "in_i64 k" "bigdecimal_valid_rounding mode"
    and "decimal_val a = 0 \<or> decimal_val b = 0 \<or> decade e (decimal_val a / decimal_val b)"
  shows "case run_state (bigdecimal_div_significant same r a b k mode) s of ((st, r'), s') \<Rightarrow> \<not> stuck s' \<and>
    (if decimal_val b = 0 then st = BIGDECIMAL_DIVISION_BY_ZERO \<and> r' = r
     else doutcome (unlimited s) (sig_fits a b (k - 1 - e)) (INT64_MAX < k + int (digit_count b) \<or>
         \<not> decimal_representable (round_decimal mode (k - 1 - e) (decimal_val a / decimal_val b))) st
       (decimal_wf r' \<and> decimal_val r' = round_decimal mode (k - 1 - e) (decimal_val a / decimal_val b)) (r' = r))"
  by (rule rspec_run2 [OF _ assms(1)], rule div_significant_wp [OF assms(2-8)], unfold prod.case, assumption)

theorem bigdecimal_div_significant_correct_witness:
  "case run_state (bigdecimal_div_significant False (example_decimal 5 2) (example_decimal 12 1) (example_decimal 7 0) 2
      BIGDECIMAL_ROUND_HALF_EVEN) idle_runtime of ((st, r'), s') \<Rightarrow> st = BIGDECIMAL_OK \<and> decimal_wf r' \<and> decimal_val r' = 17 / 100"
proof -
  have fits: "sig_fits (example_decimal 12 1) (example_decimal 7 0) 2"
    unfolding sig_fits_def target_fits_def example_digits
    by (simp add: ten_fits_def ten_limbs_def example_decimal_def bsize_wrap_uint64
      max_limbs_numeral SIZE_MAX_def INT64_MAX_def)
  have d: "decade (- 1) (6 / 35)" by (simp add: decade_def power_int_minus)
  show ?thesis
    using bigdecimal_div_significant_correct [of idle_runtime "example_decimal 12 1" "example_decimal 7 0" False "example_decimal 5 2" 2
        BIGDECIMAL_ROUND_HALF_EVEN "- 1"]
    by (auto simp: doutcome_def example_decimals example_seven example_quotient example_representable example_digits fits d
      in_i64_def INT64_MIN_def INT64_MAX_def bigdecimal_valid_rounding_def split: prod.splits if_splits)
qed

text \<open>C18: The division that prefers exactness returns the quotient itself when it has a finite decimal expansion,
  whatever the number of digits asked for, and rounds to these digits only otherwise. Which of the two applies is
  decided by taking the factors two and five out of the reduced denominator; both loops end. A zero divisor is
  reported.\<close>

theorem bigdecimal_div_exact_correct:
  assumes "\<not> stuck s" "decimal_wf a" "decimal_wf b" "same \<Longrightarrow> r = a" "1 \<le> k" "in_i64 k" "bigdecimal_valid_rounding mode"
    and "decimal_val a = 0 \<or> decimal_val b = 0 \<or> decade e (decimal_val a / decimal_val b)"
  shows "case run_state (bigdecimal_div_exact_or_significant same r a b k mode) s of ((st, r'), s') \<Rightarrow> \<not> stuck s' \<and>
    (if decimal_val b = 0 then st = BIGDECIMAL_DIVISION_BY_ZERO \<and> r' = r
     else doutcome (unlimited s) (exact_fits a b (k - 1 - e)) (exact_overflow a b k \<or>
         \<not> decimal_representable (quotient_value mode (k - 1 - e) (decimal_val a / decimal_val b))) st
       (decimal_wf r' \<and> decimal_val r' = quotient_value mode (k - 1 - e) (decimal_val a / decimal_val b)) (r' = r))"
  by (rule rspec_run2 [OF _ assms(1)], rule div_exact_wp [OF assms(2-8)], unfold prod.case, assumption)

text \<open>1.2 / 0.05 to one digit is 24, not 20\<close>

theorem bigdecimal_div_exact_correct_witness:
  "case run_state (bigdecimal_div_exact_or_significant False (example_decimal 7 0) (example_decimal 12 1) (example_decimal 5 2) 1
      BIGDECIMAL_ROUND_FLOOR) idle_runtime of ((st, r'), s') \<Rightarrow> st = BIGDECIMAL_OK \<and> decimal_wf r' \<and> decimal_val r' = 24"
proof -
  have fits: "exact_fits (example_decimal 12 1) (example_decimal 5 2) (- 1)"
    unfolding exact_fits_def sig_fits_def target_fits_def example_digits
    by (simp add: ten_fits_def ten_limbs_def example_decimal_def bsize_wrap_uint64
      max_limbs_numeral SIZE_MAX_def INT64_MAX_def)
  have ov: "\<not> exact_overflow (example_decimal 12 1) (example_decimal 5 2) 1"
    unfolding exact_overflow_def example_digits by (simp add: example_decimal_def bsize_wrap_uint64 INT64_MAX_def)
  have "finite_decimal 24" by (auto simp: finite_decimal_def intro!: exI [of _ 0])
  then have v: "quotient_value BIGDECIMAL_ROUND_FLOOR (- 1) 24 = 24" by (simp add: quotient_value_def)
  have d: "decade 1 24" by (simp add: decade_def)
  show ?thesis
    using bigdecimal_div_exact_correct [of idle_runtime "example_decimal 12 1" "example_decimal 5 2" False "example_decimal 7 0" 1
        BIGDECIMAL_ROUND_FLOOR 1]
    by (auto simp: doutcome_def example_decimals example_representable v fits ov d
      in_i64_def INT64_MIN_def INT64_MAX_def bigdecimal_valid_rounding_def split: prod.splits if_splits)
qed

end
