(* ===== verification/BigDecimal_Text.thy ===== *)
theory BigDecimal_Text
  imports Decimal_Division
begin

text \<open>
  Text and integers: \<^verbatim>\<open>conversion.c\<close>, the exponent parser of \<^verbatim>\<open>bigdecimal.c\<close>,
  \<^verbatim>\<open>operations.c\<close>, the mean of \<^verbatim>\<open>aggregation.c\<close> and the conversions between
  decimals and fractions of \<^verbatim>\<open>bigrational.c\<close>.

  C strings are lists of bytes without the terminating \<^verbatim>\<open>NUL\<close>. The reference for the parser
  is \<open>is_decimal_text\<close> and \<open>decimal_text_value\<close>, which cut the text at the exponent mark and at
  the point.
\<close>

section \<open>Parsing\<close>

text \<open>The loop over the digits of the exponent; \<open>bigint_ascii_digit\<close> is \<^verbatim>\<open>*text - '0'\<close> on a digit.\<close>

fun exponent_digits :: "u64 \<Rightarrow> string \<Rightarrow> u64 \<Rightarrow> BigDecimalStatus \<times> u64" where
  "exponent_digits limit [] magnitude = (BIGDECIMAL_OK, magnitude)"
| "exponent_digits limit (c # text) magnitude =
    (if c < CHR ''0'' \<or> c > CHR ''9'' then (BIGDECIMAL_INVALID_ARGUMENT, magnitude)
     else
       (let digit = of_nat (bigint_ascii_digit c)
        in if magnitude > (limit - digit) div 10 then (BIGDECIMAL_SCALE_OVERFLOW, magnitude)
           else exponent_digits limit text (magnitude * 10 + digit)))"

definition bigdecimal_parse_exponent :: "string \<Rightarrow> int \<Rightarrow> BigDecimalStatus \<times> int" where
  "bigdecimal_parse_exponent input result =
    (let (negative, digits) = (case input of
           c # rest \<Rightarrow> if c = CHR ''+'' \<or> c = CHR ''-'' then (c = CHR ''-'', rest) else (False, input)
         | [] \<Rightarrow> (False, input))
     in if digits = [] then (BIGDECIMAL_INVALID_ARGUMENT, result)
        else
          (let limit = (if negative then of_int INT64_MAX + 1 else of_int INT64_MAX)
           in case exponent_digits limit digits 0 of (status, magnitude) \<Rightarrow>
                if status \<noteq> BIGDECIMAL_OK then (status, result)
                else (BIGDECIMAL_OK,
                  if \<not> negative then uint magnitude
                  else if magnitude = of_int INT64_MAX + 1 then INT64_MIN
                  else - uint magnitude)))"

text \<open>The loop over the mantissa: the digits so far, the number of fractional ones, whether the point
  was seen; the last component is the rest of the text.\<close>

fun scan_mantissa :: "string \<Rightarrow> string \<Rightarrow> nat \<Rightarrow> bool \<Rightarrow> BigDecimalStatus \<times> string \<times> nat \<times> string" where
  "scan_mantissa [] digits fractional_digits decimal_point_seen = (BIGDECIMAL_OK, digits, fractional_digits, [])"
| "scan_mantissa (c # cursor) digits fractional_digits decimal_point_seen =
    (if c = CHR ''e'' \<or> c = CHR ''E'' then (BIGDECIMAL_OK, digits, fractional_digits, c # cursor)
     else if c \<ge> CHR ''0'' \<and> c \<le> CHR ''9'' then
       (if decimal_point_seen then
          (if fractional_digits = SIZE_MAX then (BIGDECIMAL_VALUE_TOO_LARGE, digits @ [c], fractional_digits, c # cursor)
           else scan_mantissa cursor (digits @ [c]) (fractional_digits + 1) True)
        else scan_mantissa cursor (digits @ [c]) fractional_digits False)
     else if c = CHR ''.'' \<and> \<not> decimal_point_seen then scan_mantissa cursor digits fractional_digits True
     else (BIGDECIMAL_INVALID_ARGUMENT, digits, fractional_digits, c # cursor))"

text \<open>The buffer of \<^verbatim>\<open>input_length + 2\<close> bytes takes the digits, a sign and the
  terminating \<^verbatim>\<open>NUL\<close>.\<close>

definition bigdecimal_set_string :: "BigDecimal \<Rightarrow> string \<Rightarrow> (BigDecimalStatus \<times> BigDecimal) rt" where
  "bigdecimal_set_string value input =
    (if length input > SIZE_MAX - 2 then State_Monad.return (BIGDECIMAL_VALUE_TOO_LARGE, value)
     else do {
       granted \<leftarrow> numforge_malloc (length input + 2);
       if \<not> granted then State_Monad.return (BIGDECIMAL_OUT_OF_MEMORY, value)
       else
         (let (negative, cursor) = (case input of
                c # rest \<Rightarrow> if c = CHR ''+'' \<or> c = CHR ''-'' then (c = CHR ''-'', rest) else (False, input)
              | [] \<Rightarrow> (False, input));
              (status, digits, fractional_digits, cursor) = scan_mantissa cursor [] 0 False
          in do {
            c_assert (length digits + (if negative then 1 else 0) + 1 \<le> length input + 2);
            if status \<noteq> BIGDECIMAL_OK then State_Monad.return (status, value)
            else if digits = [] then State_Monad.return (BIGDECIMAL_INVALID_ARGUMENT, value)
            else
              (case (if cursor \<noteq> [] then bigdecimal_parse_exponent (tl cursor) 0 else (BIGDECIMAL_OK, 0)) of (status, exponent) \<Rightarrow>
                 if status \<noteq> BIGDECIMAL_OK then State_Monad.return (status, value)
                 else if int fractional_digits > INT64_MAX then State_Monad.return (BIGDECIMAL_SCALE_OVERFLOW, value)
                 else case bigdecimal_i64_sub (int fractional_digits) exponent of
                        None \<Rightarrow> State_Monad.return (BIGDECIMAL_SCALE_OVERFLOW, value)
                      | Some s \<Rightarrow> do {
                          created \<leftarrow> bigdecimal_create;
                          case created of
                            None \<Rightarrow> State_Monad.return (BIGDECIMAL_OUT_OF_MEMORY, value)
                          | Some temporary \<Rightarrow> do {
                              (status, c) \<leftarrow> decimal_call (bigint_set_string (coefficient temporary)
                                (if negative then CHR ''-'' # digits else digits));
                              if status = BIGDECIMAL_OK then bigdecimal_finish value \<lparr>coefficient = c, scale = s\<rparr>
                              else State_Monad.return (status, value)
                            }
                        })
          })
     })"

section \<open>Printing\<close>

text \<open>A new text goes to \<^verbatim>\<open>*result\<close>; \<open>None\<close> is a pointer that was not assigned.\<close>

definition bigdecimal_to_string :: "BigDecimal \<Rightarrow> string option \<Rightarrow> (BigDecimalStatus \<times> string option) rt" where
  "bigdecimal_to_string value result = do {
     text_of_coefficient \<leftarrow> bigint_to_string (coefficient value);
     case text_of_coefficient of
       None \<Rightarrow> State_Monad.return (BIGDECIMAL_OUT_OF_MEMORY, result)
     | Some c \<Rightarrow>
         (let negative = (c \<noteq> [] \<and> hd c = CHR ''-'');
              digits = drop (if negative then 1 else 0) c;
              digits_length = length digits;
              prefix_length = (if negative then 1 else 0);
              sign = (if negative then ''-'' else [])
          in if scale value < 0 then
               (let zeros = unat (bigdecimal_abs_i64 (scale value))
                in case Option.bind (bigdecimal_size_add prefix_length digits_length) (\<lambda>n. bigdecimal_size_add n zeros) of
                     None \<Rightarrow> State_Monad.return (BIGDECIMAL_VALUE_TOO_LARGE, result)
                   | Some total_length \<Rightarrow>
                       if total_length = SIZE_MAX then State_Monad.return (BIGDECIMAL_VALUE_TOO_LARGE, result)
                       else do {
                         granted \<leftarrow> numforge_malloc (total_length + 1);
                         if \<not> granted then State_Monad.return (BIGDECIMAL_OUT_OF_MEMORY, result)
                         else do {
                           let formatted = sign @ digits @ replicate zeros CHR ''0'';
                           c_assert (length formatted = total_length);
                           State_Monad.return (BIGDECIMAL_OK, Some formatted)
                         }
                       })
             else
               (let s = nat (scale value)
                in if s = 0 then do {
                     granted \<leftarrow> numforge_malloc (prefix_length + digits_length + 1);
                     if \<not> granted then State_Monad.return (BIGDECIMAL_OUT_OF_MEMORY, result)
                     else do {
                       c_assert (length c = prefix_length + digits_length);
                       State_Monad.return (BIGDECIMAL_OK, Some c)
                     }
                   }
                   else if s \<ge> digits_length then
                     (let zero_count = s - digits_length
                      in case Option.bind (bigdecimal_size_add prefix_length 2) (\<lambda>n.
                             Option.bind (bigdecimal_size_add n zero_count) (\<lambda>n. bigdecimal_size_add n digits_length)) of
                           None \<Rightarrow> State_Monad.return (BIGDECIMAL_VALUE_TOO_LARGE, result)
                         | Some total_length \<Rightarrow>
                             if total_length = SIZE_MAX then State_Monad.return (BIGDECIMAL_VALUE_TOO_LARGE, result)
                             else do {
                               granted \<leftarrow> numforge_malloc (total_length + 1);
                               if \<not> granted then State_Monad.return (BIGDECIMAL_OUT_OF_MEMORY, result)
                               else do {
                                 let formatted = sign @ ''0.'' @ replicate zero_count CHR ''0'' @ digits;
                                 c_assert (length formatted = total_length);
                                 State_Monad.return (BIGDECIMAL_OK, Some formatted)
                               }
                             })
                   else do {
                     let total_length = prefix_length + digits_length + 1;
                     granted \<leftarrow> numforge_malloc (total_length + 1);
                     if \<not> granted then State_Monad.return (BIGDECIMAL_OUT_OF_MEMORY, result)
                     else do {
                       let before_point = digits_length - s;
                       let formatted = sign @ take before_point digits @ ''.'' @ drop before_point digits;
                       c_assert (length formatted = total_length);
                       State_Monad.return (BIGDECIMAL_OK, Some formatted)
                     }
                   }))
   }"

section \<open>The reference for texts\<close>

definition exponent_mark :: "char \<Rightarrow> bool" where
  "exponent_mark c \<longleftrightarrow> c = CHR ''e'' \<or> c = CHR ''E''"

definition text_mantissa :: "string \<Rightarrow> string" where
  "text_mantissa cs = takeWhile (\<lambda>c. \<not> exponent_mark c) (snd (numeral_text cs))"

definition text_exponent :: "string \<Rightarrow> string option" where
  "text_exponent cs = (case dropWhile (\<lambda>c. \<not> exponent_mark c) (snd (numeral_text cs)) of [] \<Rightarrow> None | _ # t \<Rightarrow> Some t)"

definition is_mantissa :: "string \<Rightarrow> bool" where
  "is_mantissa m \<longleftrightarrow> list_all (\<lambda>c. bigint_ascii_digit c < 10 \<or> c = CHR ''.'') m \<and>
     length (filter (\<lambda>c. c = CHR ''.'') m) \<le> 1 \<and> list_ex (\<lambda>c. bigint_ascii_digit c < 10) m"

definition is_decimal_text :: "string \<Rightarrow> bool" where
  "is_decimal_text cs \<longleftrightarrow> is_mantissa (text_mantissa cs) \<and>
     (case text_exponent cs of None \<Rightarrow> True | Some t \<Rightarrow> is_numeral 10 t)"

definition exponent_value :: "string \<Rightarrow> int" where
  "exponent_value cs = (case text_exponent cs of None \<Rightarrow> 0 | Some t \<Rightarrow> numeral_value 10 t)"

definition mantissa_digits :: "string \<Rightarrow> string" where
  "mantissa_digits m = filter (\<lambda>c. c \<noteq> CHR ''.'') m"

definition fraction_length :: "string \<Rightarrow> nat" where
  "fraction_length m = length (tl (dropWhile (\<lambda>c. c \<noteq> CHR ''.'') m))"

definition decimal_text_value :: "string \<Rightarrow> rat" where
  "decimal_text_value cs =
    (let m = text_mantissa cs; n = of_nat (digits_value 10 (map bigint_ascii_digit (mantissa_digits m)))
     in (if fst (numeral_text cs) then - n else n) * 10 powi (exponent_value cs - int (fraction_length m)))"

section \<open>The parser is correct\<close>

lemma sign_split:
  "(case input of c # rest \<Rightarrow> if c = CHR ''+'' \<or> c = CHR ''-'' then (c = CHR ''-'', rest) else (False, input) | [] \<Rightarrow> (False, input)) =
   numeral_text input"
  by (auto simp: numeral_text_def split: list.splits)

lemma exponent_digits_wp:
  assumes "unat m \<le> unat limit" "9 \<le> unat limit"
  shows "if list_all (\<lambda>c. bigint_ascii_digit c < 10) cs
    then (let t = unat m * 10 ^ length cs + digits_value 10 (map bigint_ascii_digit cs)
          in if t \<le> unat limit then \<exists>m'. exponent_digits limit cs m = (BIGDECIMAL_OK, m') \<and> unat m' = t
             else \<exists>m'. exponent_digits limit cs m = (BIGDECIMAL_SCALE_OVERFLOW, m'))
    else \<exists>st m'. exponent_digits limit cs m = (st, m') \<and> (st = BIGDECIMAL_INVALID_ARGUMENT \<or> st = BIGDECIMAL_SCALE_OVERFLOW)"
  using assms(1)
proof (induction cs arbitrary: m)
  case (Cons c cs)
  show ?case
  proof (cases "bigint_ascii_digit c < 10")
    case False
    then show ?thesis using decimal_char_iff [of c] by auto
  next
    case True
    let ?d = "bigint_ascii_digit c"
    have char: "\<not> (c < CHR ''0'' \<or> c > CHR ''9'')" using True decimal_char_iff by blast
    have d: "unat (of_nat ?d :: u64) = ?d" using True by (intro unat_of_nat_LB) (simp add: LB_def)
    then have "of_nat ?d \<le> limit" using True assms(2) by (simp add: word_le_nat_alt)
    then have sub: "unat ((limit - of_nat ?d) div 10) = (unat limit - ?d) div 10"
      by (simp add: unat_div_distrib unat_sub d)
    have le: "?d \<le> unat limit" using True assms(2) by simp
    have step: "m > (limit - of_nat ?d) div 10 \<longleftrightarrow> unat limit < unat m * 10 + ?d"
      unfolding word_less_nat_alt sub using le by (simp add: div_less_iff_less_mult) arith
    have total: "unat m * 10 ^ length (c # cs) + digits_value 10 (map bigint_ascii_digit (c # cs)) =
        (unat m * 10 + ?d) * 10 ^ length cs + digits_value 10 (map bigint_ascii_digit cs)"
      by (simp add: digits_value_Cons algebra_simps)
    have ge: "unat m * 10 + ?d \<le> (unat m * 10 + ?d) * 10 ^ length cs + digits_value 10 (map bigint_ascii_digit cs)"
      by (rule trans_le_add1) simp
    show ?thesis
    proof (cases "unat limit < unat m * 10 + ?d")
      case over: True
      then have "\<not> (unat m * 10 + ?d) * 10 ^ length cs + digits_value 10 (map bigint_ascii_digit cs) \<le> unat limit"
        using ge by linarith
      moreover have "exponent_digits limit (c # cs) m = (BIGDECIMAL_SCALE_OVERFLOW, m)" using char step over by (simp add: Let_def)
      ultimately show ?thesis unfolding total by (simp add: Let_def)
    next
      case False
      have "unat limit < LB" using unsigned_less [of limit] by (simp add: LB_def)
      then have m': "unat (m * 10 + of_nat ?d) = unat m * 10 + ?d"
        using False by (simp add: unat_word_ariths d LB_def)
      have eq: "exponent_digits limit (c # cs) m = exponent_digits limit cs (m * 10 + of_nat ?d)"
        using char step False by (simp add: Let_def)
      have digits: "list_all (\<lambda>c. bigint_ascii_digit c < 10) (c # cs) = list_all (\<lambda>c. bigint_ascii_digit c < 10) cs"
        using True by simp
      have "unat (m * 10 + of_nat ?d) \<le> unat limit" using False unfolding m' by simp
      from Cons.IH [OF this] show ?thesis unfolding eq total digits m' .
    qed
  qed
qed simp

lemma parse_exponent_correct:
  "if is_numeral 10 t
   then bigdecimal_parse_exponent t r = (if in_i64 (numeral_value 10 t) then (BIGDECIMAL_OK, numeral_value 10 t)
     else (BIGDECIMAL_SCALE_OVERFLOW, r))
   else \<exists>st. bigdecimal_parse_exponent t r = (st, r) \<and> (st = BIGDECIMAL_INVALID_ARGUMENT \<or> st = BIGDECIMAL_SCALE_OVERFLOW)"
proof -
  obtain neg ds where nt: "numeral_text t = (neg, ds)" by force
  define limit where "limit = (if neg then of_int INT64_MAX + 1 else of_int INT64_MAX :: u64)"
  have limit: "unat limit = (if neg then 2 ^ 63 else 2 ^ 63 - 1)" by (simp add: limit_def INT64_MAX_def)
  have L: "unat (0 :: u64) \<le> unat limit" "9 \<le> unat limit" unfolding limit by simp_all
  let ?T = "digits_value 10 (map bigint_ascii_digit ds)"
  note loop = exponent_digits_wp [OF L, of ds, unfolded Let_def]
  have num: "is_numeral 10 t \<longleftrightarrow> ds \<noteq> [] \<and> list_all (\<lambda>c. bigint_ascii_digit c < 10) ds"
    "numeral_value 10 t = (if neg then - int ?T else int ?T)"
    by (simp_all add: is_numeral_def numeral_value_def numeral_mag_def nt)
  have range: "in_i64 (numeral_value 10 t) \<longleftrightarrow> ?T \<le> unat limit"
    unfolding num limit by (auto simp: in_i64_def INT64_MIN_def INT64_MAX_def)
  have top: "m = of_int INT64_MAX + 1 \<longleftrightarrow> unat m = 2 ^ 63" for m :: u64
    by (simp add: word_eq_iff_unsigned word_unat_eq_iff INT64_MAX_def)
  have body: "bigdecimal_parse_exponent t r =
    (if ds = [] then (BIGDECIMAL_INVALID_ARGUMENT, r)
     else case exponent_digits limit ds 0 of (status, magnitude) \<Rightarrow>
            if status \<noteq> BIGDECIMAL_OK then (status, r)
            else (BIGDECIMAL_OK, if \<not> neg then uint magnitude
              else if magnitude = of_int INT64_MAX + 1 then INT64_MIN else - uint magnitude))"
    unfolding bigdecimal_parse_exponent_def sign_split nt prod.case Let_def limit_def ..
  show ?thesis
  proof (cases "ds = []")
    case True
    then show ?thesis unfolding body num(1) by simp
  next
    case False
    show ?thesis
    proof (cases "list_all (\<lambda>c. bigint_ascii_digit c < 10) ds")
      case True
      then show ?thesis
      proof (cases "?T \<le> unat limit")
        case fits: True
        with loop True obtain m where m: "exponent_digits limit ds 0 = (BIGDECIMAL_OK, m)" "unat m = ?T" by auto
        have "uint m = int ?T" using m(2) by (metis uint_nat)
        then show ?thesis
          unfolding body m(1) num(1) range using False True fits m(2) unfolding num(2) top by (auto simp: INT64_MIN_def)
      next
        case over: False
        with loop True obtain m where "exponent_digits limit ds 0 = (BIGDECIMAL_SCALE_OVERFLOW, m)" by auto
        then show ?thesis unfolding body num(1) range using False True over by simp
      qed
    next
      case bad: False
      with loop obtain st m where "exponent_digits limit ds 0 = (st, m)" "st = BIGDECIMAL_INVALID_ARGUMENT \<or> st = BIGDECIMAL_SCALE_OVERFLOW"
        by auto
      then show ?thesis unfolding body num(1) using False bad by auto
    qed
  qed
qed

text \<open>The loop over the mantissa cuts it off and takes the point out.\<close>

lemma scan_mantissa_wp:
  assumes "fr + length cs < SIZE_MAX"
  shows "let m = takeWhile (\<lambda>c. \<not> exponent_mark c) cs; rest = dropWhile (\<lambda>c. \<not> exponent_mark c) cs
    in if list_all (\<lambda>c. bigint_ascii_digit c < 10 \<or> c = CHR ''.'') m \<and>
          length (filter (\<lambda>c. c = CHR ''.'') m) + (if seen then 1 else 0) \<le> 1
       then scan_mantissa cs ds fr seen = (BIGDECIMAL_OK, ds @ mantissa_digits m,
         fr + (if seen then length m else fraction_length m), rest)
       else \<exists>ds' fr' cs'. scan_mantissa cs ds fr seen = (BIGDECIMAL_INVALID_ARGUMENT, ds', fr', cs') \<and>
         length ds' \<le> length ds + length cs"
  using assms
proof (induction cs arbitrary: ds fr seen)
  case Nil
  then show ?case by (simp add: mantissa_digits_def fraction_length_def)
next
  case (Cons c cs)
  have digit: "c \<ge> CHR ''0'' \<and> c \<le> CHR ''9'' \<longleftrightarrow> bigint_ascii_digit c < 10"
    using decimal_char_iff [of c] by (simp add: not_less)
  have dot: "\<not> bigint_ascii_digit CHR ''.'' < 10" by (simp add: bigint_ascii_digit_def)
  consider "exponent_mark c" | "\<not> exponent_mark c" "bigint_ascii_digit c < 10"
    | "\<not> exponent_mark c" "c = CHR ''.''" | "\<not> exponent_mark c" "\<not> bigint_ascii_digit c < 10" "c \<noteq> CHR ''.''" by blast
  then show ?case
  proof cases
    case 1
    then show ?thesis by (auto simp: exponent_mark_def mantissa_digits_def fraction_length_def)
  next
    case 2
    then have c: "c \<noteq> CHR ''.''" using dot by auto
    have "scan_mantissa (c # cs) ds fr seen = scan_mantissa cs (ds @ [c]) (if seen then fr + 1 else fr) seen"
      using 2 digit Cons.prems by (cases seen) (simp_all add: exponent_mark_def)
    moreover have "(if seen then fr + 1 else fr) + length cs < SIZE_MAX" using Cons.prems by simp
    note IH = Cons.IH [where ds = "ds @ [c]" and seen = seen, OF this]
    ultimately show ?thesis
      using IH 2 c by (auto simp: Let_def mantissa_digits_def fraction_length_def split: if_splits)
  next
    case 3
    have scan: "scan_mantissa (c # cs) ds fr seen = (if seen then (BIGDECIMAL_INVALID_ARGUMENT, ds, fr, c # cs) else scan_mantissa cs ds fr True)"
      using 3 dot digit by (simp add: exponent_mark_def)
    have "fr + length cs < SIZE_MAX" using Cons.prems by simp
    note IH = Cons.IH [where ds = ds and seen = True, OF this]
    show ?thesis
      unfolding scan using IH 3 dot by (cases seen) (auto simp: Let_def mantissa_digits_def fraction_length_def split: if_splits)
  next
    case 4
    then show ?thesis using digit by (auto simp: exponent_mark_def Let_def)
  qed
qed

text \<open>The resources a text needs: its copy and the integer of its digits.\<close>

definition text_fits :: "string \<Rightarrow> bool" where
  "text_fits cs \<longleftrightarrow> length cs + 2 \<le> SIZE_MAX \<and>
     digits_value 10 (map bigint_ascii_digit (mantissa_digits (text_mantissa cs))) < LB ^ (BIGINT_MAX_LIMBS - 1)"

text \<open>The texts the parser reports as out of range: the exponent, or the scale it gives, leaves the
  64-bit type, or no object denotes the number.\<close>

definition text_overflows :: "string \<Rightarrow> bool" where
  "text_overflows cs \<longleftrightarrow> \<not> in_i64 (exponent_value cs) \<or> int (fraction_length (text_mantissa cs)) > INT64_MAX \<or>
     \<not> in_i64 (int (fraction_length (text_mantissa cs)) - exponent_value cs) \<or> \<not> decimal_representable (decimal_text_value cs)"

lemma mantissa_digits_chars:
  "list_all (\<lambda>c. bigint_ascii_digit c < 10 \<or> c = CHR ''.'') m \<Longrightarrow> \<forall>c \<in> set (mantissa_digits m). bigint_ascii_digit c < 10"
  by (auto simp: mantissa_digits_def list_all_iff)

lemma mantissa_digits_nonempty:
  "list_all (\<lambda>c. bigint_ascii_digit c < 10 \<or> c = CHR ''.'') m \<Longrightarrow>
   mantissa_digits m \<noteq> [] \<longleftrightarrow> list_ex (\<lambda>c. bigint_ascii_digit c < 10) m"
proof (induction m)
  case (Cons c m)
  moreover have "\<not> bigint_ascii_digit CHR ''.'' < 10" by (simp add: bigint_ascii_digit_def)
  ultimately show ?case by (cases "c = CHR ''.''") (auto simp: mantissa_digits_def)
qed (simp add: mantissa_digits_def)

lemma signed_digits:
  assumes "ds \<noteq> []" "\<forall>c \<in> set ds. bigint_ascii_digit c < 10"
  shows "is_numeral 10 (if neg then CHR ''-'' # ds else ds)"
    "numeral_mag 10 (if neg then CHR ''-'' # ds else ds) = digits_value 10 (map bigint_ascii_digit ds)"
    "numeral_value 10 (if neg then CHR ''-'' # ds else ds) =
      (if neg then - int (digits_value 10 (map bigint_ascii_digit ds)) else int (digits_value 10 (map bigint_ascii_digit ds)))"
proof -
  have "hd ds \<noteq> CHR ''-''" "hd ds \<noteq> CHR ''+''" using assms by (cases ds; auto simp: bigint_ascii_digit_def)+
  then have nt: "numeral_text (if neg then CHR ''-'' # ds else ds) = (neg, ds)"
    using assms(1) by (cases ds) (auto simp: numeral_text_def)
  then show "is_numeral 10 (if neg then CHR ''-'' # ds else ds)"
    "numeral_mag 10 (if neg then CHR ''-'' # ds else ds) = digits_value 10 (map bigint_ascii_digit ds)"
    "numeral_value 10 (if neg then CHR ''-'' # ds else ds) =
      (if neg then - int (digits_value 10 (map bigint_ascii_digit ds)) else int (digits_value 10 (map bigint_ascii_digit ds)))"
    using assms unfolding is_numeral_def numeral_mag_def numeral_value_def nt by (simp_all add: list_all_iff)
qed

lemma dcall_set_string_fits:
  assumes "is_numeral 10 cs"
    and Q: "\<And>st v'. doutcome u (numeral_mag 10 cs < LB ^ (BIGINT_MAX_LIMBS - 1)) False st (holds_int v' (numeral_value 10 cs)) True \<Longrightarrow> Q (st, v')"
  shows "rspec u (decimal_call (bigint_set_string v cs)) Q"
proof (rule decimal_call_wp, rule set_string_wp, unfold prod.case, goal_cases)
  case (1 st v')
  with assms(1) have "outcome u (numeral_mag 10 cs < LB ^ (BIGINT_MAX_LIMBS - 1)) st (holds_int v' (numeral_value 10 cs)) True"
    by (auto simp: result_ok_def holds_int_def elim: outcome_mono)
  from doutcome_of_outcome [OF this] show ?case by (rule Q)
qed

lemma decimal_set_string_wp:
  assumes Q: "\<And>st v'. (if is_decimal_text cs
      then doutcome u (text_fits cs) (text_overflows cs) st (decimal_wf v' \<and> decimal_val v' = decimal_text_value cs) (v' = v)
      else (st = BIGDECIMAL_INVALID_ARGUMENT \<or> st = BIGDECIMAL_SCALE_OVERFLOW \<or>
        (st = BIGDECIMAL_OUT_OF_MEMORY \<or> st = BIGDECIMAL_VALUE_TOO_LARGE) \<and> \<not> (u \<and> length cs + 2 \<le> SIZE_MAX)) \<and> v' = v) \<Longrightarrow> Q (st, v')"
  shows "rspec u (bigdecimal_set_string v cs) Q"
proof -
  obtain neg body where nt: "numeral_text cs = (neg, body)" by force
  let ?m = "text_mantissa cs"
  have body: "length body \<le> length cs" using nt by (auto simp: numeral_text_def split: list.splits if_splits)
  have m: "takeWhile (\<lambda>c. \<not> exponent_mark c) body = ?m" by (simp add: text_mantissa_def nt)
  define rest where "rest = dropWhile (\<lambda>c. \<not> exponent_mark c) body"
  have te: "text_exponent cs = (case rest of [] \<Rightarrow> None | _ # t \<Rightarrow> Some t)" by (simp add: text_exponent_def nt rest_def)
  have large: "Q (BIGDECIMAL_VALUE_TOO_LARGE, v)" if "length cs > SIZE_MAX - 2"
    using that by (intro Q) (auto simp: text_fits_def SIZE_MAX_def)
  have oom: "Q (BIGDECIMAL_OUT_OF_MEMORY, v)" if "\<not> u" using that by (intro Q) simp
  have invalid: "Q (st, v)" if "\<not> is_decimal_text cs" "st = BIGDECIMAL_INVALID_ARGUMENT \<or> st = BIGDECIMAL_SCALE_OVERFLOW" for st
    using that by (intro Q) auto
  have overflow: "Q (BIGDECIMAL_SCALE_OVERFLOW, v)" if "text_overflows cs" using that by (intro Q) simp
  let ?good = "list_all (\<lambda>c. bigint_ascii_digit c < 10 \<or> c = CHR ''.'') ?m \<and> length (filter (\<lambda>c. c = CHR ''.'') ?m) \<le> 1"
  let ?f = "fraction_length ?m"
  let ?ds = "mantissa_digits ?m"
  have "length ?ds \<le> length ?m" unfolding mantissa_digits_def by (rule length_filter_le)
  also have "\<dots> \<le> length body" unfolding m [symmetric] by (rule length_takeWhile_le)
  finally have fits: "length ?ds + (if neg then 1 else 0) + 1 \<le> length cs + 2" using body by simp
  define P where "P = (if rest \<noteq> [] then bigdecimal_parse_exponent (tl rest) 0 else (BIGDECIMAL_OK, 0))"
  have expo: "if (case text_exponent cs of None \<Rightarrow> True | Some t \<Rightarrow> is_numeral 10 t)
      then P = (if in_i64 (exponent_value cs) then (BIGDECIMAL_OK, exponent_value cs) else (BIGDECIMAL_SCALE_OVERFLOW, 0))
      else \<exists>st. P = (st, 0) \<and> (st = BIGDECIMAL_INVALID_ARGUMENT \<or> st = BIGDECIMAL_SCALE_OVERFLOW)"
  proof (cases rest)
    case Nil
    then show ?thesis by (simp add: P_def te exponent_value_def in_i64_def INT64_MIN_def INT64_MAX_def)
  next
    case (Cons c t)
    then show ?thesis using parse_exponent_correct [of t 0] by (simp add: P_def te exponent_value_def)
  qed
  let ?n = "int (digits_value 10 (map bigint_ascii_digit ?ds))"
  have last: "rspec u (do {
      created \<leftarrow> bigdecimal_create;
      case created of
        None \<Rightarrow> State_Monad.return (BIGDECIMAL_OUT_OF_MEMORY, v)
      | Some temporary \<Rightarrow> do {
          (status, c) \<leftarrow> decimal_call (bigint_set_string (coefficient temporary) (if neg then CHR ''-'' # ?ds else ?ds));
          if status = BIGDECIMAL_OK then bigdecimal_finish v \<lparr>coefficient = c, scale = int ?f - exponent_value cs\<rparr>
          else State_Monad.return (status, v)
        }
    }) Q" if ds: "?ds \<noteq> []" and dec: "is_decimal_text cs" and range: "in_i64 (int ?f - exponent_value cs)"
  proof (rule decimal_create_bind, unfold option.case BigDecimal.select_convs, rule triple_return, erule oom,
      rule triple_bind, rule dcall_set_string_fits, goal_cases)
    have chars: "\<forall>c \<in> set ?ds. bigint_ascii_digit c < 10"
      using dec by (intro mantissa_digits_chars) (simp add: is_decimal_text_def is_mantissa_def)
    note sd = signed_digits [OF ds chars, of neg]
    {
      case 1
      show ?case by (rule sd(1))
    next
      case (2 st c)
      have val: "decimal_text_value cs = of_int (if neg then - ?n else ?n) * 10 powi (- (int ?f - exponent_value cs))"
        unfolding decimal_text_value_def nt by (simp add: Let_def)
      show ?case
        unfolding prod.case
      proof (rule rounded_finish_wp [OF _ range val])
        show "doutcome u (text_fits cs) False st (holds_int c (if neg then - ?n else ?n)) True"
          using 2 unfolding sd(2,3) by (rule doutcome_mono) (auto simp: text_fits_def)
      next
        fix st r'
        assume "doutcome u (text_fits cs) (\<not> decimal_representable (decimal_text_value cs)) st
          (decimal_wf r' \<and> decimal_val r' = decimal_text_value cs) (r' = v)"
        then show "Q (st, r')" using dec by (intro Q) (auto simp: text_overflows_def elim: doutcome_mono)
      qed
    }
  qed
  show ?thesis
    unfolding bigdecimal_set_string_def sign_split nt prod.case Let_def
  proof (rule triple_if, goal_cases)
    case 1
    then show ?case by (intro triple_return large)
  next
    case 2
    then have "0 + length body < SIZE_MAX" using body by (simp add: SIZE_MAX_def)
    from scan_mantissa_wp [OF this, where ds = "[]" and seen = False, unfolded Let_def m, folded rest_def, unfolded append_Nil if_False add_0 add_0_right list.size(3)]
    have scan: "if ?good then scan_mantissa body [] 0 False = (BIGDECIMAL_OK, ?ds, ?f, rest)
       else \<exists>ds' fr' cs'. scan_mantissa body [] 0 False = (BIGDECIMAL_INVALID_ARGUMENT, ds', fr', cs') \<and> length ds' \<le> length body" .
    show ?case
    proof (rule triple_bind, rule malloc_wp, rule triple_if, goal_cases)
      case (1 g)
      then show ?case by (intro triple_return oom) simp
    next
      case (2 g)
      show ?case
      proof (cases ?good)
        case False
        with scan obtain ds' fr' cs' where s: "scan_mantissa body [] 0 False = (BIGDECIMAL_INVALID_ARGUMENT, ds', fr', cs')"
          "length ds' \<le> length body" by auto
        have bad: "\<not> is_decimal_text cs" using False by (auto simp: is_decimal_text_def is_mantissa_def)
        show ?thesis
          unfolding s(1) prod.case
          using s(2) body by (intro triple_bind [of _ "c_assert _"] c_assert_wp) (auto intro!: triple_return invalid bad)
      next
        case True
        with scan have s: "scan_mantissa body [] 0 False = (BIGDECIMAL_OK, ?ds, ?f, rest)" by simp
        have nonempty: "?ds \<noteq> [] \<longleftrightarrow> is_mantissa ?m" using True mantissa_digits_nonempty [of ?m] by (simp add: is_mantissa_def)
        show ?thesis
          unfolding s prod.case
        proof (rule triple_bind, rule c_assert_wp [OF fits], unfold simp_thms if_False, rule triple_if, goal_cases)
          case 1
          then show ?case using nonempty by (intro triple_return invalid) (auto simp: is_decimal_text_def)
        next
          case 2
          then have ds: "?ds \<noteq> []" by simp
          have dtext: "is_decimal_text cs \<longleftrightarrow> (case text_exponent cs of None \<Rightarrow> True | Some t \<Rightarrow> is_numeral 10 t)"
            using ds nonempty by (simp add: is_decimal_text_def)
          show ?case
          proof (cases "is_decimal_text cs")
            case False
            then obtain st where "P = (st, 0)" "st = BIGDECIMAL_INVALID_ARGUMENT \<or> st = BIGDECIMAL_SCALE_OVERFLOW"
              using expo unfolding dtext by auto
            then show ?thesis unfolding P_def [symmetric] using invalid [OF False, of st] by (auto intro: triple_return)
          next
            case dec: True
            with expo dtext have P: "P = (if in_i64 (exponent_value cs) then (BIGDECIMAL_OK, exponent_value cs) else (BIGDECIMAL_SCALE_OVERFLOW, 0))"
              by simp
            show ?thesis
              unfolding P_def [symmetric]
            proof (cases "in_i64 (exponent_value cs) \<and> int ?f \<le> INT64_MAX \<and> in_i64 (int ?f - exponent_value cs)", goal_cases)
              case 1
              then have sub: "bigdecimal_i64_sub (int ?f) (exponent_value cs) = Some (int ?f - exponent_value cs)"
                using i64_sub_iff [of "int ?f" "exponent_value cs"] by (simp add: in_i64_def INT64_MIN_def)
              from 1 have "\<not> int ?f > INT64_MAX" "P = (BIGDECIMAL_OK, exponent_value cs)" using P by simp_all
              then show ?case
                using last 1 ds dec sub by simp
            next
              case 2
              then have "text_overflows cs" by (auto simp: text_overflows_def)
              then have o: "rspec u (State_Monad.return (BIGDECIMAL_SCALE_OVERFLOW, v)) Q" by (intro triple_return overflow)
              show ?case
                using 2 i64_sub_iff [of "int ?f" "exponent_value cs"] by (auto simp: P o in_i64_def INT64_MIN_def split: option.splits)
            qed
          qed
        qed
      qed
    qed
  qed
qed

section \<open>The printer is correct\<close>

text \<open>The reference: zeros are appended for a negative scale; otherwise the digits are padded on the
  left until one stands before the point.\<close>

definition plain_digits :: "string \<Rightarrow> int \<Rightarrow> string" where
  "plain_digits ds s =
    (if s \<le> 0 then ds @ replicate (nat (- s)) CHR ''0''
     else (let padded = replicate (Suc (nat s) - length ds) CHR ''0'' @ ds; n = length padded - nat s
           in take n padded @ CHR ''.'' # drop n padded))"

definition plain_decimal :: "BigDecimal \<Rightarrow> string" where
  "plain_decimal v = (if bigint_val (coefficient v) < 0 then ''-'' else []) @
     plain_digits (digit_string True (numeral_digits 10 (bigint_mag (coefficient v)))) (scale v)"

lemma printed_fits:
  assumes "bigint_wf v"
  shows "length (numeral_digits 10 (bigint_mag v)) + 2 ^ 63 + 4 \<le> SIZE_MAX"
proof -
  let ?c = "(bsize v * 64 + 62) div 63 + 1"
  have "bigint_mag v < (10 ^ 19) ^ ?c" by (rule chunks_capacity_room, rule mag_less)
  then have "bigint_mag v < 10 ^ (19 * ?c)" by (simp only: power_mult)
  then have "length (numeral_digits 10 (bigint_mag v)) \<le> 19 * ?c" by (intro numeral_digits_length) simp_all
  moreover have "bsize v \<le> 288230376151711743" using bigint_wfD(5) [OF assms] by (simp add: max_limbs_numeral)
  then have "19 * ?c + 2 ^ 63 + 4 \<le> SIZE_MAX" by (simp add: SIZE_MAX_def)
  ultimately show ?thesis by linarith
qed

lemma size_add_small: "a + b \<le> SIZE_MAX \<Longrightarrow> bigdecimal_size_add a b = Some (a + b)"
  by (simp add: bigdecimal_size_add_def)

lemma length_plain_digits:
  "length (plain_digits ds s) = (if s \<le> 0 then length ds + nat (- s) else if nat s < length ds then Suc (length ds) else nat s + 2)"
  by (auto simp: plain_digits_def Let_def min_def)

lemma plain_digits_leading:
  assumes "0 < s" "length ds \<le> nat s" "ds \<noteq> []"
  shows "plain_digits ds s = ''0.'' @ replicate (nat s - length ds) CHR ''0'' @ ds"
proof -
  obtain k where k: "Suc (nat s) - length ds = Suc k" "nat s - length ds = k" using assms by (simp add: Suc_diff_le)
  with assms have "Suc (k + length ds) - nat s = Suc 0" by linarith
  then show ?thesis using assms(1) unfolding plain_digits_def k by (simp add: Let_def take_Cons' drop_Cons')
qed

lemma plain_digits_split:
  "0 < s \<Longrightarrow> nat s < length ds \<Longrightarrow> plain_digits ds s = take (length ds - nat s) ds @ ''.'' @ drop (length ds - nat s) ds"
  by (simp add: plain_digits_def Let_def)

lemma signed_string_cases:
  assumes "2 \<le> b" "b \<le> 36"
  shows "(signed_string p b z \<noteq> [] \<and> hd (signed_string p b z) = CHR ''-'') = (z < 0)"
proof (cases "z < 0")
  case True
  then show ?thesis by (simp add: signed_string_def)
next
  case False
  have "digit_string p (numeral_digits b (nat z)) \<noteq> []" by (simp add: digit_string_def)
  moreover have "fst (numeral_text (signed_string p b z)) = False" using numeral_text_signed [OF assms, of p z] False by simp
  ultimately show ?thesis using False by (auto simp: signed_string_def numeral_text_def split: list.splits if_splits)
qed

lemma decimal_to_string_wp:
  assumes v: "bigint_wf (coefficient v)" "in_i64 (scale v)"
    and Q: "\<And>st t. doutcome u True False st (t = Some (plain_decimal v)) (t = r) \<Longrightarrow> Q (st, t)"
  shows "rspec u (bigdecimal_to_string v r) Q"
proof -
  let ?z = "bigint_val (coefficient v)"
  let ?ds = "digit_string True (numeral_digits 10 (bigint_mag (coefficient v)))"
  let ?sign = "if ?z < 0 then ''-'' else []" and ?pre = "if ?z < 0 then 1 else 0 :: nat"
  have ne: "?ds \<noteq> []" by (simp add: digit_string_def)
  have len: "length ?ds + 2 ^ 63 + 4 \<le> SIZE_MAX" using printed_fits [OF v(1)] by simp
  have range: "- (2 ^ 63) \<le> scale v" "scale v < 2 ^ 63" using v(2) by (simp_all add: in_i64_def INT64_MIN_def INT64_MAX_def)
  have oom: "Q (BIGDECIMAL_OUT_OF_MEMORY, r)" if "\<not> u" using that by (intro Q) simp
  have ok: "Q (BIGDECIMAL_OK, Some t)" if "t = plain_decimal v" for t using that by (intro Q) simp
  have string: "signed_string True 10 ?z = ?sign @ ?ds" by (simp add: signed_string_def)
  have neg: "(signed_string True 10 ?z \<noteq> [] \<and> hd (signed_string True 10 ?z) = CHR ''-'') = (?z < 0)"
    by (rule signed_string_cases) simp_all
  have drop: "drop (if ?z < 0 then 1 else 0) (signed_string True 10 ?z) = ?ds" by (simp add: signed_string_def)
  have emit: "rspec u (do {
      granted \<leftarrow> numforge_malloc n;
      if \<not> granted then State_Monad.return (BIGDECIMAL_OUT_OF_MEMORY, r)
      else do { c_assert A; State_Monad.return (BIGDECIMAL_OK, Some t) } }) Q" if "A" "t = plain_decimal v" for n A t
    using that by (intro triple_bind malloc_wp triple_if c_assert_wp triple_return oom ok) simp_all
  show ?thesis
    unfolding bigdecimal_to_string_def
  proof (rule triple_bind, rule to_string_wp [OF v(1), where p = True], goal_cases)
    case (1 c)
    show ?case
    proof (cases c)
      case None
      then show ?thesis using 1 by (simp add: oom triple_return)
    next
      case (Some c')
      with 1 have c: "c = Some (signed_string True 10 ?z)" by simp
      show ?thesis
        unfolding c option.case Let_def neg drop
      proof (intro triple_if, goal_cases)
        case 1
        have zeros: "unat (bigdecimal_abs_i64 (scale v)) = nat (- scale v)" using abs_i64_unat [OF v(2)] 1 by simp
        have "?pre + length ?ds + nat (- scale v) < SIZE_MAX" using len range by (auto split: if_splits)
        then have sizes: "Option.bind (bigdecimal_size_add ?pre (length ?ds)) (\<lambda>n. bigdecimal_size_add n (nat (- scale v))) =
            Some (?pre + length ?ds + nat (- scale v))" "?pre + length ?ds + nat (- scale v) \<noteq> SIZE_MAX"
          by (simp_all add: size_add_small)
        show ?case
          unfolding zeros sizes(1) option.case if_not_P [OF sizes(2)]
          by (rule emit) (use 1 in \<open>simp_all add: plain_decimal_def plain_digits_def\<close>)
      next
        case 2
        then have "scale v = 0" by simp
        then show ?case
          by (intro emit) (simp_all add: string plain_decimal_def plain_digits_def)
      next
        case 3
        have "?pre + 2 + (nat (scale v) - length ?ds) + length ?ds < SIZE_MAX" using len range by (auto split: if_splits)
        then have sizes: "Option.bind (bigdecimal_size_add ?pre 2) (\<lambda>n. Option.bind (bigdecimal_size_add n (nat (scale v) - length ?ds))
            (\<lambda>n. bigdecimal_size_add n (length ?ds))) = Some (?pre + 2 + (nat (scale v) - length ?ds) + length ?ds)"
          "?pre + 2 + (nat (scale v) - length ?ds) + length ?ds \<noteq> SIZE_MAX"
          by (simp_all add: size_add_small)
        show ?case
          unfolding sizes(1) option.case if_not_P [OF sizes(2)]
          by (rule emit) (use 3 plain_digits_leading [OF _ _ ne, of "scale v"] in \<open>simp_all add: plain_decimal_def\<close>)
      next
        case 4
        then show ?case
          by (intro emit) (simp_all add: plain_decimal_def plain_digits_split)
      qed
    qed
  qed
qed

section \<open>Printed texts are read back\<close>

lemma plain_digits_chars:
  assumes "\<forall>c \<in> set ds. bigint_ascii_digit c < 10" "ds \<noteq> []"
  shows "\<forall>c \<in> set (plain_digits ds s). bigint_ascii_digit c < 10 \<or> c = CHR ''.''"
    "plain_digits ds s \<noteq> []" "bigint_ascii_digit (hd (plain_digits ds s)) < 10"
    "length (filter (\<lambda>c. c = CHR ''.'') (plain_digits ds s)) \<le> 1"
    "digits_value 10 (map bigint_ascii_digit (mantissa_digits (plain_digits ds s))) =
      digits_value 10 (map bigint_ascii_digit ds) * 10 ^ nat (- s)"
    "fraction_length (plain_digits ds s) = nat s"
    "mantissa_digits (plain_digits ds s) \<noteq> []"
proof -
  have dot: "\<not> bigint_ascii_digit CHR ''.'' < 10" by (simp add: bigint_ascii_digit_def)
  have digits: "filter (\<lambda>c. c \<noteq> CHR ''.'') xs = xs" "filter (\<lambda>c. c = CHR ''.'') xs = []"
    "dropWhile (\<lambda>c. c \<noteq> CHR ''.'') (xs @ ys) = dropWhile (\<lambda>c. c \<noteq> CHR ''.'') ys"
    if "\<forall>c \<in> set xs. bigint_ascii_digit c < 10" for xs ys
    using that dot by (auto simp: filter_id_conv filter_empty_conv dropWhile_append)
  have all: "(\<forall>c \<in> set (plain_digits ds s). bigint_ascii_digit c < 10 \<or> c = CHR ''.'') \<and>
    plain_digits ds s \<noteq> [] \<and> bigint_ascii_digit (hd (plain_digits ds s)) < 10 \<and>
    length (filter (\<lambda>c. c = CHR ''.'') (plain_digits ds s)) \<le> 1 \<and>
    (\<exists>ps. mantissa_digits (plain_digits ds s) = ps \<and> ps \<noteq> [] \<and> digits_value 10 (map bigint_ascii_digit ps) =
      digits_value 10 (map bigint_ascii_digit ds) * 10 ^ nat (- s)) \<and>
    fraction_length (plain_digits ds s) = nat s"
  proof (cases "s \<le> 0")
    case True
    then have "\<forall>c \<in> set (plain_digits ds s). bigint_ascii_digit c < 10" using assms(1) by (auto simp: plain_digits_def)
    note plain = this and d = digits [OF this] and d' = digits(3) [OF this, of "[]", unfolded append_Nil2 dropWhile.simps(1)]
    have "digits_value 10 (map bigint_ascii_digit (plain_digits ds s)) = digits_value 10 (map bigint_ascii_digit ds) * 10 ^ nat (- s)"
      using True by (simp add: plain_digits_def digits_value_append zeros_value)
    moreover have "mantissa_digits (plain_digits ds s) = plain_digits ds s" using d(1) by (simp add: mantissa_digits_def)
    moreover have "fraction_length (plain_digits ds s) = nat s" unfolding fraction_length_def d' using True by simp
    moreover have "plain_digits ds s \<noteq> [] \<and> hd (plain_digits ds s) = hd ds" using True assms(2) by (simp add: plain_digits_def)
    ultimately show ?thesis using assms d(2) hd_in_set [OF assms(2)] plain by simp
  next
    case False
    define ps where "ps = replicate (Suc (nat s) - length ds) CHR ''0'' @ ds"
    define n where "n = length ps - nat s"
    have ps: "\<forall>c \<in> set ps. bigint_ascii_digit c < 10" using assms(1) by (auto simp: ps_def)
    have n: "0 < n" "n \<le> length ps" "length (drop n ps) = nat s" using False by (auto simp: n_def ps_def)
    have plain: "plain_digits ds s = take n ps @ CHR ''.'' # drop n ps" using False by (simp add: plain_digits_def ps_def n_def Let_def)
    have tk: "\<forall>c \<in> set (take n ps). bigint_ascii_digit c < 10" and dr: "\<forall>c \<in> set (drop n ps). bigint_ascii_digit c < 10"
      using ps in_set_takeD in_set_dropD by fast+
    have hd: "take n ps \<noteq> []" using n by auto
    then have "hd (plain_digits ds s) \<in> set (take n ps)" unfolding plain hd_append2 [OF hd] by (rule hd_in_set)
    moreover have "digits_value 10 (map bigint_ascii_digit ps) = digits_value 10 (map bigint_ascii_digit ds)"
      by (simp add: ps_def digits_value_append zeros_value)
    moreover have "mantissa_digits (plain_digits ds s) = ps"
      using digits(1) [OF tk] digits(1) [OF dr] by (simp add: mantissa_digits_def plain)
    moreover have "fraction_length (plain_digits ds s) = nat s"
      using digits(3) [OF tk, of "CHR ''.'' # drop n ps"] n(3) by (simp add: fraction_length_def plain)
    moreover have "length (filter (\<lambda>c. c = CHR ''.'') (plain_digits ds s)) \<le> 1"
      using digits(2) [OF tk] digits(2) [OF dr] by (simp add: plain)
    moreover have "\<forall>c \<in> set (plain_digits ds s). bigint_ascii_digit c < 10 \<or> c = CHR ''.''"
      using tk dr unfolding plain by auto
    ultimately show ?thesis using tk n False hd by (auto simp: plain)
  qed
  show "\<forall>c \<in> set (plain_digits ds s). bigint_ascii_digit c < 10 \<or> c = CHR ''.''"
    "plain_digits ds s \<noteq> []" "bigint_ascii_digit (hd (plain_digits ds s)) < 10"
    "length (filter (\<lambda>c. c = CHR ''.'') (plain_digits ds s)) \<le> 1"
    "digits_value 10 (map bigint_ascii_digit (mantissa_digits (plain_digits ds s))) =
      digits_value 10 (map bigint_ascii_digit ds) * 10 ^ nat (- s)"
    "fraction_length (plain_digits ds s) = nat s" "mantissa_digits (plain_digits ds s) \<noteq> []"
    using all by blast+
qed

lemma plain_decimal_text:
  assumes "bigint_wf (coefficient v)" "in_i64 (scale v)" "decimal_representable (decimal_val v)"
  shows "is_decimal_text (plain_decimal v)" "decimal_text_value (plain_decimal v) = decimal_val v"
    "\<not> text_overflows (plain_decimal v)"
    "bigint_mag (coefficient v) * 10 ^ nat (- scale v) < LB ^ (BIGINT_MAX_LIMBS - 1) \<Longrightarrow> text_fits (plain_decimal v)"
proof -
  let ?z = "bigint_val (coefficient v)"
  let ?ds = "digit_string True (numeral_digits 10 (bigint_mag (coefficient v)))"
  let ?t = "plain_digits ?ds (scale v)"
  have b: "(2 :: nat) \<le> 10" "(10 :: nat) \<le> 36" by simp_all
  note dv = digit_string_values [OF b, of True "bigint_mag (coefficient v)"]
  have chars: "\<forall>c \<in> set ?ds. bigint_ascii_digit c < 10"
  proof
    fix c assume "c \<in> set ?ds"
    then have "bigint_ascii_digit c \<in> set (map bigint_ascii_digit ?ds)" by simp
    then show "bigint_ascii_digit c < 10" unfolding dv by (rule numeral_digits_less [OF b(1)])
  qed
  have ne: "?ds \<noteq> []" by (simp add: digit_string_def)
  note t = plain_digits_chars [OF chars ne, of "scale v"]
  have "hd ?t \<noteq> CHR ''-''" "hd ?t \<noteq> CHR ''+''" using t(3) by (auto simp: bigint_ascii_digit_def)
  then have nt: "numeral_text (plain_decimal v) = (?z < 0, ?t)"
    using t(2) by (cases ?t) (auto simp: plain_decimal_def numeral_text_def)
  have mark: "\<not> exponent_mark c" if "c \<in> set ?t" for c
    using t(1) that by (auto simp: exponent_mark_def bigint_ascii_digit_def)
  then have m: "text_mantissa (plain_decimal v) = ?t" by (auto simp: text_mantissa_def nt takeWhile_eq_all_conv)
  have drop: "dropWhile (\<lambda>c. \<not> exponent_mark c) ?t = []"
    unfolding dropWhile_eq_Nil_conv using mark by blast
  have e: "text_exponent (plain_decimal v) = None"
    unfolding text_exponent_def nt snd_conv drop list.case ..
  then have ev: "exponent_value (plain_decimal v) = 0" by (simp add: exponent_value_def)
  have la: "list_all (\<lambda>c. bigint_ascii_digit c < 10 \<or> c = CHR ''.'') ?t" using t(1) by (simp add: list_all_iff)
  have "is_mantissa ?t"
    using la t(4,7) mantissa_digits_nonempty [OF la] by (simp add: is_mantissa_def)
  then show "is_decimal_text (plain_decimal v)" by (simp add: is_decimal_text_def m e)
  have mag: "digits_value 10 (map bigint_ascii_digit (mantissa_digits ?t)) = bigint_mag (coefficient v) * 10 ^ nat (- scale v)"
    unfolding t(5) dv by (simp add: numeral_digits_value)
  have shift: "(10 :: rat) ^ nat (- scale v) * 10 powi (- int (nat (scale v))) = 10 powi (- scale v)"
    by (cases "0 \<le> scale v") (simp_all add: power_int_def)
  have "decimal_text_value (plain_decimal v) =
      (if ?z < 0 then - of_nat (bigint_mag (coefficient v) * 10 ^ nat (- scale v)) else of_nat (bigint_mag (coefficient v) * 10 ^ nat (- scale v))) *
      10 powi (0 - int (nat (scale v)))"
    by (simp only: decimal_text_value_def m mag nt ev t(6) Let_def fst_conv)
  also have "\<dots> = (if ?z < 0 then - of_nat (bigint_mag (coefficient v)) else of_nat (bigint_mag (coefficient v))) *
      (10 ^ nat (- scale v) * 10 powi (- int (nat (scale v))))" by (simp add: mult.assoc)
  also have "\<dots> = decimal_val v" unfolding shift decimal_val_def by (simp add: bigint_val_def)
  finally show val: "decimal_text_value (plain_decimal v) = decimal_val v" .
  show "\<not> text_overflows (plain_decimal v)"
    unfolding text_overflows_def m ev t(6) val
    using assms(2,3) by (auto simp: in_i64_def INT64_MIN_def INT64_MAX_def)
  assume "bigint_mag (coefficient v) * 10 ^ nat (- scale v) < LB ^ (BIGINT_MAX_LIMBS - 1)"
  moreover have "length (plain_decimal v) + 2 \<le> SIZE_MAX"
    using printed_fits [OF assms(1)] assms(2)
    by (auto simp: plain_decimal_def length_plain_digits in_i64_def INT64_MIN_def INT64_MAX_def SIZE_MAX_def)
  ultimately show "text_fits (plain_decimal v)" unfolding text_fits_def m mag by simp
qed

section \<open>Properties\<close>

text \<open>C20: The parser accepts exactly the decimal texts: an optional sign, digits with at most one point and
  at least one digit, and after \<^verbatim>\<open>e\<close> or \<^verbatim>\<open>E\<close> an optionally signed number. It stores
  the number the text denotes in canonical form. Any other text is rejected, and a text whose exponent, scale
  or number leaves the 64-bit range is reported as an overflow; in both cases, and when memory runs out, the
  destination is unchanged.\<close>

theorem bigdecimal_set_string_correct:
  assumes "\<not> stuck s"
  shows "case run_state (bigdecimal_set_string v cs) s of ((st, v'), s') \<Rightarrow> \<not> stuck s' \<and>
    (if is_decimal_text cs
     then doutcome (unlimited s) (text_fits cs) (text_overflows cs) st
       (decimal_wf v' \<and> decimal_val v' = decimal_text_value cs) (v' = v)
     else (st = BIGDECIMAL_INVALID_ARGUMENT \<or> st = BIGDECIMAL_SCALE_OVERFLOW \<or>
       (st = BIGDECIMAL_OUT_OF_MEMORY \<or> st = BIGDECIMAL_VALUE_TOO_LARGE) \<and>
         \<not> (unlimited s \<and> length cs + 2 \<le> SIZE_MAX)) \<and> v' = v)"
  by (rule rspec_run2 [OF _ assms], rule decimal_set_string_wp, unfold prod.case, assumption)

lemma example_text:
  "is_decimal_text ''-1.20e2''" "decimal_text_value ''-1.20e2'' = - 120" "text_fits ''-1.20e2''" "\<not> text_overflows ''-1.20e2''"
proof -
  have parts: "numeral_text ''-1.20e2'' = (True, ''1.20e2'')" "text_mantissa ''-1.20e2'' = ''1.20''"
    "text_exponent ''-1.20e2'' = Some ''2''"
    by (simp_all add: numeral_text_def text_mantissa_def text_exponent_def exponent_mark_def)
  have "numeral_value 10 ''2'' = 2" by (simp add: numeral_value_def numeral_mag_def numeral_text_def bigint_ascii_digit_def digits_value_Cons)
  then have e: "exponent_value ''-1.20e2'' = 2" by (simp add: exponent_value_def parts)
  have ds: "mantissa_digits ''1.20'' = ''120''" "fraction_length ''1.20'' = 2" by (simp_all add: mantissa_digits_def fraction_length_def)
  have n: "digits_value 10 (map bigint_ascii_digit ''120'') = 120" by (simp add: bigint_ascii_digit_def digits_value_Cons)
  show "is_decimal_text ''-1.20e2''"
    by (simp add: is_decimal_text_def parts is_mantissa_def is_numeral_def numeral_text_def bigint_ascii_digit_def)
  show val: "decimal_text_value ''-1.20e2'' = - 120" unfolding decimal_text_value_def parts ds n e Let_def by simp
  have "(120 :: nat) < LB ^ 1" by (simp add: LB_def)
  also have "\<dots> \<le> LB ^ (BIGINT_MAX_LIMBS - 1)" by (intro power_increasing) (simp_all add: max_limbs_numeral LB_def)
  finally show "text_fits ''-1.20e2''" unfolding text_fits_def parts ds n by (simp add: SIZE_MAX_def)
  have "decimal_representable (- 120)"
    unfolding decimal_representable_def
    by (rule exI [of _ "\<lparr>coefficient = (bigint_wrap_uint64 12)\<lparr>is_negative := True\<rparr>, scale = -1\<rparr>"])
      (simp add: decimal_wf_def decimal_val_def bigint_wrap_uint64_def bigint_wf_def bigint_val_def
        canonical_def storage_ok_def max_limbs_numeral in_i64_def INT64_MIN_def INT64_MAX_def)
  then show "\<not> text_overflows ''-1.20e2''"
    by (simp add: text_overflows_def e parts ds val in_i64_def INT64_MIN_def INT64_MAX_def)
qed

theorem bigdecimal_set_string_correct_witness:
  "case run_state (bigdecimal_set_string (example_decimal 12 1) ''-1.20e2'') idle_runtime of
    ((st, v'), s') \<Rightarrow> st = BIGDECIMAL_OK \<and> decimal_wf v' \<and> decimal_val v' = - 120"
  using bigdecimal_set_string_correct [of idle_runtime "''-1.20e2''" "example_decimal 12 1"]
  by (auto simp: doutcome_def example_text split: prod.splits if_splits)

text \<open>C21: Printing a canonical decimal and parsing the text gives the same object back: limbs, sign and scale.
  Printing fails for lack of memory only; the parser needs room for the integer of the digits, which for a
  negative scale includes the zeros that the text spells out.\<close>

theorem decimal_text_round_trip:
  assumes "\<not> stuck s" "decimal_wf v"
  shows "case run_state (do {
      (st, r') \<leftarrow> bigdecimal_to_string v None;
      case r' of None \<Rightarrow> State_Monad.return (st, x) | Some cs \<Rightarrow> bigdecimal_set_string x cs }) s of
    ((st, x'), s') \<Rightarrow> \<not> stuck s' \<and>
      doutcome (unlimited s) (bigint_mag (coefficient v) * 10 ^ nat (- scale v) < LB ^ (BIGINT_MAX_LIMBS - 1)) False st
        (limbs (coefficient x') = limbs (coefficient v) \<and> is_negative (coefficient x') = is_negative (coefficient v) \<and>
         scale x' = scale v) (x' = x)"
proof (rule rspec_run2 [OF _ assms(1)], rule triple_bind, rule decimal_to_string_wp, goal_cases)
  case (3 st r')
  let ?F = "bigint_mag (coefficient v) * 10 ^ nat (- scale v) < LB ^ (BIGINT_MAX_LIMBS - 1)"
  let ?same = "\<lambda>x'. limbs (coefficient x') = limbs (coefficient v) \<and> is_negative (coefficient x') = is_negative (coefficient v) \<and>
      scale x' = scale v"
  let ?P = "\<lambda>(st, x'). doutcome (unlimited s) ?F False st (?same x') (x' = x)"
  have rep: "decimal_representable (decimal_val v)" using assms(2) by (auto simp: decimal_representable_def)
  note t = plain_decimal_text [OF decimal_wfD(3,2) [OF assms(2)] rep]
  have "rspec (unlimited s) (bigdecimal_set_string x (plain_decimal v)) ?P"
    by (rule decimal_set_string_wp)
      (use t decimal_val_inj [OF _ assms(2)] in \<open>auto elim!: doutcome_mono\<close>)
  moreover have "r' = None \<and> ?P (st, x)" if "st \<noteq> BIGDECIMAL_OK" using 3 that by (auto simp: doutcome_def)
  ultimately show ?case
    using 3 by (cases "st = BIGDECIMAL_OK") (simp_all add: triple_return)
qed (use assms(2) in \<open>simp_all add: decimal_wf_def\<close>)

theorem decimal_text_round_trip_witness:
  "case run_state (do {
      (st, r') \<leftarrow> bigdecimal_to_string (example_decimal 12 1) None;
      case r' of None \<Rightarrow> State_Monad.return (st, example_decimal 5 2) | Some cs \<Rightarrow> bigdecimal_set_string (example_decimal 5 2) cs })
      idle_runtime of
    ((st, x'), s') \<Rightarrow> st = BIGDECIMAL_OK \<and> limbs (coefficient x') = [12] \<and> scale x' = 1"
proof -
  have "bigint_mag (coefficient (example_decimal 12 1)) * 10 ^ nat (- scale (example_decimal 12 1)) < LB ^ (BIGINT_MAX_LIMBS - 1)"
    using example_bound [of 12] by (simp add: example_decimal_def bigint_wrap_uint64_def)
  moreover have "limbs (coefficient (example_decimal 12 1)) = [12]" "scale (example_decimal 12 1) = 1"
    by (simp_all add: example_decimal_def bigint_wrap_uint64_def)
  ultimately show ?thesis
    using decimal_text_round_trip [of idle_runtime "example_decimal 12 1" "example_decimal 5 2"]
    by (auto simp: doutcome_def example_decimals split: prod.splits if_splits)
qed

end
