(* ===== verification/Decimal_Operations.thy ===== *)
theory Decimal_Operations
  imports BigDecimal_Text
begin

text \<open>
  Operations on top of decimal arithmetic: \<^verbatim>\<open>operations.c\<close> of
  \<^verbatim>\<open>src/core/bigdecimal\<close>, the mean of \<^verbatim>\<open>aggregation.c\<close>, and the conversions
  between decimals and fractions of \<^verbatim>\<open>bigrational.c\<close>.

  \<open>ra\<close> and \<open>rb\<close> say whether the destination is the first or the second operand, as
  pointers. The loop of \<open>bigdecimal_pow\<close> runs on fuel, one more than the bit length of the exponent.
\<close>

section \<open>Conversions and predicates\<close>

fun from_integer_status :: "BigIntStatus \<Rightarrow> BigDecimalStatus" where
  "from_integer_status BIGINT_OK = BIGDECIMAL_OK"
| "from_integer_status BIGINT_NULL_ARGUMENT = BIGDECIMAL_NULL_ARGUMENT"
| "from_integer_status BIGINT_OUT_OF_MEMORY = BIGDECIMAL_OUT_OF_MEMORY"
| "from_integer_status BIGINT_VALUE_TOO_LARGE = BIGDECIMAL_VALUE_TOO_LARGE"
| "from_integer_status _ = BIGDECIMAL_INVALID_ARGUMENT"

text \<open>\<^verbatim>\<open>from_integer_status(bigint_op(...))\<close>\<close>

definition operation_call :: "(BigIntStatus \<times> 'a) rt \<Rightarrow> (BigDecimalStatus \<times> 'a) rt" where
  "operation_call m = do { (status, x) \<leftarrow> m; State_Monad.return (from_integer_status status, x) }"

definition bigdecimal_from_bigint :: "BigDecimal \<Rightarrow> BigInt \<Rightarrow> (BigDecimalStatus \<times> BigDecimal) rt" where
  "bigdecimal_from_bigint result value = do {
     created \<leftarrow> bigdecimal_create;
     case created of
       None \<Rightarrow> State_Monad.return (BIGDECIMAL_OUT_OF_MEMORY, result)
     | Some temporary \<Rightarrow> do {
         (status, c) \<leftarrow> operation_call (bigint_copy (coefficient temporary) value);
         if status \<noteq> BIGDECIMAL_OK then State_Monad.return (status, result)
         else bigdecimal_finish result \<lparr>coefficient = c, scale = 0\<rparr>
       }
   }"

definition bigdecimal_to_bigint :: "BigInt \<Rightarrow> BigDecimal \<Rightarrow> (BigDecimalStatus \<times> BigInt) rt" where
  "bigdecimal_to_bigint result value =
    (if scale value > 0 then State_Monad.return (BIGDECIMAL_INVALID_ARGUMENT, result)
     else do {
       (status, digits) \<leftarrow> bigdecimal_to_string value None;
       case digits of
         Some t \<Rightarrow> if status = BIGDECIMAL_OK then operation_call (bigint_set_string result t)
           else State_Monad.return (status, result)
       | None \<Rightarrow> State_Monad.return (status, result)
     })"

definition bigdecimal_is_integer :: "BigDecimal \<Rightarrow> BigDecimalStatus \<times> bool" where
  "bigdecimal_is_integer value = (BIGDECIMAL_OK, scale value \<le> 0)"

definition bigdecimal_sign :: "BigDecimal \<Rightarrow> BigDecimalStatus \<times> int" where
  "bigdecimal_sign value = (BIGDECIMAL_OK,
     if bigint_is_zero (coefficient value) then 0 else if bigint_is_negative (coefficient value) then - 1 else 1)"

section \<open>Minimum and maximum\<close>

definition bigdecimal_min ::
  "bool \<Rightarrow> bool \<Rightarrow> BigDecimal \<Rightarrow> BigDecimal \<Rightarrow> BigDecimal \<Rightarrow> (BigDecimalStatus \<times> BigDecimal) rt" where
  "bigdecimal_min ra rb result a b = do {
     (status, comparison) \<leftarrow> bigdecimal_compare 0 a b;
     if status \<noteq> BIGDECIMAL_OK then State_Monad.return (status, result)
     else if comparison \<le> 0 then bigdecimal_copy ra result a else bigdecimal_copy rb result b
   }"

definition bigdecimal_max ::
  "bool \<Rightarrow> bool \<Rightarrow> BigDecimal \<Rightarrow> BigDecimal \<Rightarrow> BigDecimal \<Rightarrow> (BigDecimalStatus \<times> BigDecimal) rt" where
  "bigdecimal_max ra rb result a b = do {
     (status, comparison) \<leftarrow> bigdecimal_compare 0 a b;
     if status \<noteq> BIGDECIMAL_OK then State_Monad.return (status, result)
     else if comparison \<ge> 0 then bigdecimal_copy ra result a else bigdecimal_copy rb result b
   }"

section \<open>Powers\<close>

primrec decimal_pow_loop ::
  "nat \<Rightarrow> BigInt \<Rightarrow> BigDecimal \<Rightarrow> BigDecimal \<Rightarrow> (BigDecimalStatus \<times> BigDecimal) rt" where
  "decimal_pow_loop 0 remaining accumulator factor = out_of_fuel (BIGDECIMAL_OK, accumulator)"
| "decimal_pow_loop (Suc fuel) remaining accumulator factor =
    (if bigint_is_zero remaining then State_Monad.return (BIGDECIMAL_OK, accumulator)
     else do {
       continue \<leftarrow> numforge_budget_check;
       if \<not> continue then State_Monad.return (BIGDECIMAL_OUT_OF_MEMORY, accumulator)
       else do {
         (status, accumulator) \<leftarrow> (if bigint_is_odd remaining then bigdecimal_mul accumulator accumulator factor
           else State_Monad.return (BIGDECIMAL_OK, accumulator));
         (status, remaining) \<leftarrow> (if status = BIGDECIMAL_OK then operation_call (bigint_shift_right remaining remaining 1)
           else State_Monad.return (status, remaining));
         (status, factor) \<leftarrow> (if status = BIGDECIMAL_OK \<and> \<not> bigint_is_zero remaining
           then bigdecimal_mul factor factor factor else State_Monad.return (status, factor));
         if status = BIGDECIMAL_OK then decimal_pow_loop fuel remaining accumulator factor
         else State_Monad.return (status, accumulator)
       }
     })"

definition bigdecimal_pow :: "BigDecimal \<Rightarrow> BigDecimal \<Rightarrow> BigInt \<Rightarrow> (BigDecimalStatus \<times> BigDecimal) rt" where
  "bigdecimal_pow result base exponent =
    (if bigint_is_negative exponent then State_Monad.return (BIGDECIMAL_INVALID_ARGUMENT, result)
     else do {
       remaining \<leftarrow> bigint_create;
       accumulator \<leftarrow> bigdecimal_create;
       factor \<leftarrow> bigdecimal_create;
       case (remaining, accumulator, factor) of
         (Some remaining, Some accumulator, Some factor) \<Rightarrow> do {
           (status, remaining) \<leftarrow> operation_call (bigint_copy remaining exponent);
           (status, accumulator) \<leftarrow> (if status = BIGDECIMAL_OK then bigdecimal_set_string accumulator ''1''
             else State_Monad.return (status, accumulator));
           (status, factor) \<leftarrow> (if status = BIGDECIMAL_OK then bigdecimal_copy False factor base
             else State_Monad.return (status, factor));
           (status, accumulator) \<leftarrow> (if status = BIGDECIMAL_OK
             then decimal_pow_loop (bigint_bit_length remaining + 1) remaining accumulator factor
             else State_Monad.return (status, accumulator));
           if status = BIGDECIMAL_OK then bigdecimal_copy False result accumulator
           else State_Monad.return (status, result)
         }
       | _ \<Rightarrow> State_Monad.return (BIGDECIMAL_OUT_OF_MEMORY, result)
     })"

definition bigdecimal_pow_signed ::
  "BigDecimal \<Rightarrow> BigDecimal \<Rightarrow> BigInt \<Rightarrow> int \<Rightarrow> BigDecimalRoundingMode \<Rightarrow> (BigDecimalStatus \<times> BigDecimal) rt" where
  "bigdecimal_pow_signed result base exponent digits rounding =
    (if digits < 1 \<or> \<not> bigdecimal_valid_rounding rounding
     then State_Monad.return (BIGDECIMAL_INVALID_ARGUMENT, result)
     else if \<not> bigint_is_negative exponent then bigdecimal_pow result base exponent
     else if bigint_is_zero (coefficient base) then State_Monad.return (BIGDECIMAL_DIVISION_BY_ZERO, result)
     else do {
       magnitude \<leftarrow> bigint_create;
       base_power \<leftarrow> bigdecimal_create;
       one \<leftarrow> bigdecimal_create;
       case (magnitude, base_power, one) of
         (Some magnitude, Some base_power, Some one) \<Rightarrow> do {
           (status, magnitude) \<leftarrow> operation_call (bigint_abs magnitude exponent);
           (status, base_power) \<leftarrow> (if status = BIGDECIMAL_OK then bigdecimal_pow base_power base magnitude
             else State_Monad.return (status, base_power));
           (status, one) \<leftarrow> (if status = BIGDECIMAL_OK then bigdecimal_set_string one ''1''
             else State_Monad.return (status, one));
           if status = BIGDECIMAL_OK then bigdecimal_div_exact_or_significant False result one base_power digits rounding
           else State_Monad.return (status, result)
         }
       | _ \<Rightarrow> State_Monad.return (BIGDECIMAL_OUT_OF_MEMORY, result)
     })"

section \<open>Rounded sums and products, machine integers\<close>

definition bigdecimal_binary_rounded ::
  "BigDecimal \<Rightarrow> BigDecimal \<Rightarrow> BigDecimal \<Rightarrow> int \<Rightarrow> bool \<Rightarrow> (BigDecimalStatus \<times> BigDecimal) rt" where
  "bigdecimal_binary_rounded result a b digits subtracting = do {
     created \<leftarrow> bigdecimal_create;
     case created of
       None \<Rightarrow> State_Monad.return (BIGDECIMAL_OUT_OF_MEMORY, result)
     | Some temporary \<Rightarrow> do {
         (status, temporary) \<leftarrow> (if subtracting then bigdecimal_sub False False temporary a b
           else bigdecimal_add False False temporary a b);
         if status = BIGDECIMAL_OK
         then bigdecimal_round_significant False result temporary digits BIGDECIMAL_ROUND_HALF_EVEN
         else State_Monad.return (status, result)
       }
   }"

definition bigdecimal_multiply_rounded ::
  "BigDecimal \<Rightarrow> BigDecimal \<Rightarrow> BigDecimal \<Rightarrow> int \<Rightarrow> (BigDecimalStatus \<times> BigDecimal) rt" where
  "bigdecimal_multiply_rounded result a b digits = do {
     created \<leftarrow> bigdecimal_create;
     case created of
       None \<Rightarrow> State_Monad.return (BIGDECIMAL_OUT_OF_MEMORY, result)
     | Some temporary \<Rightarrow> do {
         (status, temporary) \<leftarrow> bigdecimal_mul temporary a b;
         if status = BIGDECIMAL_OK
         then bigdecimal_round_significant False result temporary digits BIGDECIMAL_ROUND_HALF_EVEN
         else State_Monad.return (status, result)
       }
   }"

text \<open>What \<^verbatim>\<open>snprintf\<close> writes for an unsigned integer.\<close>

definition unsigned_text :: "nat \<Rightarrow> string" where
  "unsigned_text n = digit_string True (numeral_digits 10 n)"

definition bigdecimal_set_u64 :: "BigDecimal \<Rightarrow> u64 \<Rightarrow> (BigDecimalStatus \<times> BigDecimal) rt" where
  "bigdecimal_set_u64 value integer = bigdecimal_set_string value (unsigned_text (unat integer))"

section \<open>The mean\<close>

definition bigdecimal_mean ::
  "BigDecimal \<Rightarrow> BigDecimal list \<Rightarrow> int \<Rightarrow> BigDecimalRoundingMode \<Rightarrow> (BigDecimalStatus \<times> BigDecimal) rt" where
  "bigdecimal_mean result values digits rounding =
    (if bigdecimal_validate_sequence values \<noteq> BIGDECIMAL_OK
     then State_Monad.return (bigdecimal_validate_sequence values, result)
     else if digits \<le> 0 \<or> \<not> bigdecimal_valid_rounding rounding
     then State_Monad.return (BIGDECIMAL_INVALID_ARGUMENT, result)
     else do {
       the_sum \<leftarrow> bigdecimal_create;
       divisor \<leftarrow> bigdecimal_create;
       case (the_sum, divisor) of
         (Some the_sum, Some divisor) \<Rightarrow> do {
           (status, the_sum) \<leftarrow> bigdecimal_sum the_sum values;
           (status, divisor) \<leftarrow> (if status = BIGDECIMAL_OK
             then bigdecimal_set_string divisor (unsigned_text (length values))
             else State_Monad.return (status, divisor));
           if status = BIGDECIMAL_OK then bigdecimal_div_exact_or_significant False result the_sum divisor digits rounding
           else State_Monad.return (status, result)
         }
       | _ \<Rightarrow> State_Monad.return (BIGDECIMAL_OUT_OF_MEMORY, result)
     })"

section \<open>Decimals and fractions\<close>

fun rational_from_decimal_status :: "BigDecimalStatus \<Rightarrow> BigRationalStatus" where
  "rational_from_decimal_status BIGDECIMAL_OK = BIGRATIONAL_OK"
| "rational_from_decimal_status BIGDECIMAL_NULL_ARGUMENT = BIGRATIONAL_NULL_ARGUMENT"
| "rational_from_decimal_status BIGDECIMAL_OUT_OF_MEMORY = BIGRATIONAL_OUT_OF_MEMORY"
| "rational_from_decimal_status BIGDECIMAL_DIVISION_BY_ZERO = BIGRATIONAL_DIVISION_BY_ZERO"
| "rational_from_decimal_status BIGDECIMAL_VALUE_TOO_LARGE = BIGRATIONAL_VALUE_TOO_LARGE"
| "rational_from_decimal_status BIGDECIMAL_SCALE_OVERFLOW = BIGRATIONAL_SCALE_OVERFLOW"
| "rational_from_decimal_status _ = BIGRATIONAL_INVALID_ARGUMENT"

definition fraction_call :: "(BigDecimalStatus \<times> 'a) rt \<Rightarrow> (BigRationalStatus \<times> 'a) rt" where
  "fraction_call m = do { (status, x) \<leftarrow> m; State_Monad.return (rational_from_decimal_status status, x) }"

definition bigrational_from_bigdecimal :: "BigRational \<Rightarrow> BigDecimal \<Rightarrow> (BigRationalStatus \<times> BigRational) rt" where
  "bigrational_from_bigdecimal result value = do {
     created \<leftarrow> bigrational_create;
     case created of
       None \<Rightarrow> State_Monad.return (BIGRATIONAL_OUT_OF_MEMORY, result)
     | Some temporary \<Rightarrow> do {
         (status, num) \<leftarrow> integer_call (bigint_copy (numerator temporary) (coefficient value));
         (status, num, den) \<leftarrow> (if status = BIGRATIONAL_OK \<and> scale value > 0 then do {
             (status, den) \<leftarrow> fraction_call (bigdecimal_set_power_of_ten (denominator temporary) (of_int (scale value)));
             State_Monad.return (status, num, den)
           }
           else if status = BIGRATIONAL_OK \<and> scale value < 0 then do {
             (status, num) \<leftarrow> fraction_call (bigdecimal_multiply_power_of_ten num num (bigdecimal_abs_i64 (scale value)));
             State_Monad.return (status, num, denominator temporary)
           }
           else State_Monad.return (status, num, denominator temporary));
         if status = BIGRATIONAL_OK then bigrational_set_fraction result num den
         else State_Monad.return (status, result)
       }
   }"

definition bigrational_to_bigdecimal ::
  "BigDecimal \<Rightarrow> BigRational \<Rightarrow> int \<Rightarrow> BigDecimalRoundingMode \<Rightarrow> (BigRationalStatus \<times> BigDecimal) rt" where
  "bigrational_to_bigdecimal result value digits rounding =
    (if digits < 1 \<or> \<not> bigdecimal_valid_rounding rounding
     then State_Monad.return (BIGRATIONAL_INVALID_ARGUMENT, result)
     else do {
       num \<leftarrow> bigdecimal_create;
       den \<leftarrow> bigdecimal_create;
       case (num, den) of
         (Some num, Some den) \<Rightarrow> do {
           (status, num) \<leftarrow> fraction_call (bigdecimal_from_bigint num (numerator value));
           (status, den) \<leftarrow> (if status = BIGRATIONAL_OK then fraction_call (bigdecimal_from_bigint den (denominator value))
             else State_Monad.return (status, den));
           if status = BIGRATIONAL_OK
           then fraction_call (bigdecimal_div_exact_or_significant False result num den digits rounding)
           else State_Monad.return (status, result)
         }
       | _ \<Rightarrow> State_Monad.return (BIGRATIONAL_OUT_OF_MEMORY, result)
     })"

section \<open>Numbers that objects denote\<close>

lemma limbs_exist: "m < LB ^ n \<Longrightarrow> \<exists>xs. canonical xs \<and> mag xs = m \<and> length xs \<le> n"
proof (induction n arbitrary: m)
  case 0
  then show ?case by (intro exI [of _ "[]"]) simp
next
  case (Suc n)
  have "m div LB < LB ^ n" using Suc.prems by (simp add: div_less_iff_less_mult LB_def mult.commute)
  then obtain xs where xs: "canonical xs" "mag xs = m div LB" "length xs \<le> n" using Suc.IH by blast
  let ?x = "of_nat (m mod LB) :: u64"
  have x: "unat ?x = m mod LB" by (rule unat_of_nat_LB) (simp add: LB_def)
  show ?case
  proof (cases "m = 0")
    case True
    then show ?thesis by (intro exI [of _ "[]"]) simp
  next
    case False
    have "canonical (?x # xs)"
    proof (cases "xs = []")
      case True
      then have "m mod LB = m" using xs(2) by (simp add: div_eq_0_iff LB_def)
      then have "?x \<noteq> 0" using x False by auto
      then show ?thesis using True by (simp add: canonical_def)
    next
      case False
      then show ?thesis using xs(1) by (simp add: canonical_def)
    qed
    then show ?thesis using xs x by (intro exI [of _ "?x # xs"]) simp
  qed
qed

lemma integer_object_exists:
  assumes "\<bar>z\<bar> < int LB ^ BIGINT_MAX_LIMBS"
  shows "\<exists>b. holds_int b z"
proof -
  have "nat \<bar>z\<bar> < LB ^ BIGINT_MAX_LIMBS" using assms by (simp add: nat_less_iff)
  then obtain xs where "canonical xs" "mag xs = nat \<bar>z\<bar>" "length xs \<le> BIGINT_MAX_LIMBS" using limbs_exist by blast
  then show ?thesis
    by (intro exI [of _ "\<lparr>limbs = xs, capacity = length xs, is_negative = z < 0\<rparr>"])
      (auto simp: holds_int_def bigint_wf_def bigint_val_def)
qed

lemma representable_iff:
  assumes "\<not> 10 dvd c" "\<bar>c\<bar> < int LB ^ BIGINT_MAX_LIMBS"
  shows "decimal_representable (of_int c * 10 powi (- e)) \<longleftrightarrow> in_i64 e"
proof
  assume "in_i64 e"
  from integer_object_exists [OF assms(2)] obtain b where "holds_int b c" by blast
  then show "decimal_representable (of_int c * 10 powi (- e))"
    unfolding decimal_representable_def using assms(1) \<open>in_i64 e\<close>
    by (intro exI [of _ "\<lparr>coefficient = b, scale = e\<rparr>"]) (auto simp: holds_int_def decimal_wf_def decimal_val_def)
qed (use not_representable [OF assms(1)] in blast)

section \<open>Conversions are exact\<close>

lemma operation_result:
  "outcome u F st good bad \<Longrightarrow> doutcome u F False (from_integer_status st) good bad"
  by (cases st) (auto simp: outcome_def resource_failure_def doutcome_def)

lemma operation_call_wp:
  assumes "rspec u m (\<lambda>(st, x). Q (from_integer_status st, x))"
  shows "rspec u (operation_call m) Q"
  unfolding operation_call_def by (rule triple_bind, rule triple_conseq [OF assms]) (auto intro: triple_return)

lemma result_holds: "result_ok u F r x st r' \<Longrightarrow> doutcome u F False (from_integer_status st) (holds_int r' x) (r' = r)"
  unfolding result_ok_def holds_int_def by (rule operation_result)

lemma ocall_copy:
  assumes a: "holds_int a x" and r: "storage_ok r"
    and Q: "\<And>st r'. doutcome u True False st (holds_int r' x) (r' = r) \<Longrightarrow> Q (st, r')"
  shows "rspec u (operation_call (bigint_copy r a)) Q"
proof (rule operation_call_wp, rule copy_wp [OF r holds_intD(1) [OF a]], unfold prod.case, goal_cases)
  case (1 st d)
  then have "outcome u True st (holds_int d x) (d = r)" using a by (auto simp: holds_int_def elim: outcome_mono)
  then show ?case by (intro Q operation_result)
qed

lemma ten_part: "z \<noteq> 0 \<Longrightarrow> \<exists>c k. z = c * 10 ^ k \<and> \<not> 10 dvd c" for z :: int
proof (induction "nat \<bar>z\<bar>" arbitrary: z rule: less_induct)
  case less
  show ?case
  proof (cases "10 dvd z")
    case True
    then obtain w where w: "z = 10 * w" by blast
    with less.prems have "w \<noteq> 0" "nat \<bar>w\<bar> < nat \<bar>z\<bar>" by auto
    from less.hyps [OF this(2,1)] obtain c k where "w = c * 10 ^ k" "\<not> 10 dvd c" by blast
    then show ?thesis using w by (intro exI [of _ c] exI [of _ "Suc k"]) simp
  next
    case False
    then show ?thesis by (intro exI [of _ z] exI [of _ 0]) simp
  qed
qed

text \<open>The integers that fit an object are decimals: the zeros taken out of them are fewer than
  \<^verbatim>\<open>INT64_MAX\<close>.\<close>

lemma integer_is_decimal:
  assumes "bigint_wf v"
  shows "decimal_representable (of_int (bigint_val v))"
proof (cases "bigint_val v = 0")
  case True
  then show ?thesis
    unfolding decimal_representable_def
    by (intro exI [of _ "\<lparr>coefficient = bigint_init, scale = 0\<rparr>"])
      (simp add: decimal_wf_def decimal_val_def in_i64_def INT64_MIN_def INT64_MAX_def)
next
  case False
  from ten_part [OF this] obtain c k where c: "bigint_val v = c * 10 ^ k" "\<not> 10 dvd c" by blast
  have "c \<noteq> 0" using c(2) by auto
  then have c0: "1 \<le> \<bar>c\<bar>" by arith
  have abs: "\<bar>c\<bar> * 10 ^ k = int (bigint_mag v)" unfolding abs_bigint_val [symmetric] c(1) by (simp add: abs_mult)
  have "1 * 10 ^ k \<le> \<bar>c\<bar> * 10 ^ k" using c0 by (intro mult_right_mono) simp_all
  then have "int (10 ^ k) \<le> int (bigint_mag v)" unfolding abs by simp
  then have pow: "10 ^ k \<le> bigint_mag v" by (simp only: of_nat_le_iff)
  let ?ds = "numeral_digits 10 (bigint_mag v)"
  have "bigint_mag v < 10 ^ length ?ds"
    using digits_value_less [of ?ds 10] numeral_digits_value [of 10 "bigint_mag v"] numeral_digits_less [of 10 _ "bigint_mag v"] by simp
  with pow have "(10 :: nat) ^ k < 10 ^ length ?ds" by (rule le_less_trans)
  then have "k < length ?ds" by (rule power_less_imp_less_exp [rotated]) simp
  then have k: "in_i64 (- int k)" using printed_fits [OF assms] by (simp add: in_i64_def INT64_MIN_def INT64_MAX_def SIZE_MAX_def)
  have "\<bar>c\<bar> * 1 \<le> \<bar>c\<bar> * 10 ^ k" by (intro mult_left_mono) simp_all
  also have "\<dots> < int LB ^ BIGINT_MAX_LIMBS"
  proof -
    have "bigint_mag v < LB ^ bsize v" by (rule mag_less)
    also have "\<dots> \<le> LB ^ BIGINT_MAX_LIMBS" using bigint_wfD(5) [OF assms] by (intro power_increasing) (simp_all add: LB_def)
    finally have "int (bigint_mag v) < int (LB ^ BIGINT_MAX_LIMBS)" by (simp only: of_nat_less_iff)
    then show ?thesis unfolding abs by simp
  qed
  finally have "decimal_representable (of_int c * 10 powi (- (- int k)))"
    using representable_iff [OF c(2), of "- int k"] k by (simp only: mult_1_right)
  then show ?thesis by (simp add: c(1) power_int_def)
qed

lemma decimal_from_bigint_wp:
  assumes v: "holds_int v z"
    and Q: "\<And>st r'. doutcome u True False st (decimal_wf r' \<and> decimal_val r' = of_int z) (r' = r) \<Longrightarrow> Q (st, r')"
  shows "rspec u (bigdecimal_from_bigint r v) Q"
  unfolding bigdecimal_from_bigint_def
proof (rule decimal_create_bind, unfold option.case BigDecimal.select_convs, goal_cases)
  case 1
  then show ?case by (intro triple_return Q) simp
next
  case 2
  have rep: "decimal_representable (of_int z)" using integer_is_decimal [of v] v by (auto simp: holds_int_def)
  show ?case
  proof (rule triple_bind, rule ocall_copy [OF v storage_ok_init], unfold prod.case, rule triple_if, goal_cases)
    case (1 st c)
    then show ?case by (intro triple_return Q) (auto elim: doutcome_failI)
  next
    case (2 st c)
    then have c: "holds_int c z" by simp
    then have val: "decimal_val \<lparr>coefficient = c, scale = 0\<rparr> = of_int z" by (simp add: decimal_val_def holds_int_def)
    show ?case
      by (rule finish_wp) (use c rep in \<open>auto simp: val holds_int_def in_i64_def INT64_MIN_def INT64_MAX_def intro!: Q\<close>)
  qed
qed

lemma to_bigint_wp:
  assumes v: "decimal_wf v"
    and Q: "\<And>st r'. (if scale v > 0 then st = BIGDECIMAL_INVALID_ARGUMENT \<and> r' = r
      else \<exists>n. decimal_val v = of_int n \<and> doutcome u (nat \<bar>n\<bar> < LB ^ (BIGINT_MAX_LIMBS - 1)) False st (holds_int r' n) (r' = r)) \<Longrightarrow> Q (st, r')"
  shows "rspec u (bigdecimal_to_bigint r v) Q"
proof (cases "scale v > 0")
  case True
  then show ?thesis by (auto simp: bigdecimal_to_bigint_def intro!: triple_return Q)
next
  case False
  let ?z = "bigint_val (coefficient v)" and ?k = "nat (- scale v)"
  let ?n = "?z * 10 ^ ?k"
  let ?ds = "digit_string True (numeral_digits 10 (bigint_mag (coefficient v))) @ replicate ?k CHR ''0''"
  have n: "decimal_val v = of_int ?n" using False by (simp add: decimal_val_def power_int_def)
  have shown: "plain_decimal v = (if ?z < 0 then CHR ''-'' # ?ds else ?ds)"
    using False by (simp add: plain_decimal_def plain_digits_def)
  have b: "(2 :: nat) \<le> 10" "(10 :: nat) \<le> 36" by simp_all
  note dv = digit_string_values [OF b, of True "bigint_mag (coefficient v)"]
  have chars: "\<forall>c \<in> set ?ds. bigint_ascii_digit c < 10"
  proof
    fix c assume c: "c \<in> set ?ds"
    show "bigint_ascii_digit c < 10"
    proof (cases "c = CHR ''0''")
      case False
      with c have "bigint_ascii_digit c \<in> set (map bigint_ascii_digit (digit_string True (numeral_digits 10 (bigint_mag (coefficient v)))))"
        by auto
      then show ?thesis unfolding dv by (rule numeral_digits_less [OF b(1)])
    qed simp
  qed
  have ne: "?ds \<noteq> []" by (simp add: digit_string_def)
  note sd = signed_digits [OF ne chars, of "?z < 0", folded shown]
  have mag: "digits_value 10 (map bigint_ascii_digit ?ds) = bigint_mag (coefficient v) * 10 ^ ?k"
    unfolding map_append digits_value_append dv by (simp add: numeral_digits_value zeros_value)
  have sign: "int (bigint_mag (coefficient v)) = (if ?z < 0 then - ?z else ?z)" by (simp add: bigint_val_def)
  have abs: "nat \<bar>?n\<bar> = bigint_mag (coefficient v) * 10 ^ ?k" unfolding abs_mult by (simp add: nat_mult_distrib nat_power_eq)
  have val: "numeral_value 10 (plain_decimal v) = ?n" unfolding sd(3) mag by (simp add: sign)
  have Q': "doutcome u (nat \<bar>?n\<bar> < LB ^ (BIGINT_MAX_LIMBS - 1)) False st (holds_int r' ?n) (r' = r) \<Longrightarrow> Q (st, r')" for st r'
    using n by (intro Q, unfold if_not_P [OF False]) blast
  show ?thesis
    unfolding bigdecimal_to_bigint_def if_not_P [OF False]
  proof (rule triple_bind, rule decimal_to_string_wp [OF decimal_wfD(3,2) [OF v]], unfold prod.case, goal_cases)
    case (1 st t)
    show ?case
    proof (cases "st = BIGDECIMAL_OK")
      case True
      then have t: "t = Some (plain_decimal v)" using 1 by simp
      show ?thesis
        unfolding t option.case if_P [OF True]
      proof (rule operation_call_wp, rule set_string_wp, unfold prod.case, goal_cases)
        case (1 st' r')
        then have "result_ok u (nat \<bar>?n\<bar> < LB ^ (BIGINT_MAX_LIMBS - 1)) r ?n st' r'"
          using sd(1) unfolding val sd(2) mag abs by simp
        then show ?case by (intro Q' result_holds)
      qed
    next
      case False
      then have "t = None" "\<not> u" "st = BIGDECIMAL_OUT_OF_MEMORY \<or> st = BIGDECIMAL_VALUE_TOO_LARGE" using 1 by (auto simp: doutcome_def)
      then show ?thesis by (auto intro!: triple_return Q')
    qed
  qed
qed

lemma choose_wp:
  assumes a: "decimal_wf a" "ra \<Longrightarrow> r = a" and b: "decimal_wf b" "rb \<Longrightarrow> r = b"
    and P: "\<And>c. c = order_sign (decimal_val a) (decimal_val b) \<Longrightarrow> (if P c then decimal_val a else decimal_val b) = x"
    and Q: "\<And>st r'. doutcome u True False st (decimal_wf r' \<and> decimal_val r' = x) (r' = r) \<Longrightarrow> Q (st, r')"
  shows "rspec u (do {
      (status, comparison) \<leftarrow> bigdecimal_compare 0 a b;
      if status \<noteq> BIGDECIMAL_OK then State_Monad.return (status, r)
      else if P comparison then bigdecimal_copy ra r a else bigdecimal_copy rb r b
    }) Q"
proof (rule triple_bind, rule compare_wp [OF a(1) b(1)], unfold prod.case, intro triple_if, goal_cases)
  case (1 st c)
  then show ?case by (intro triple_return Q) (auto elim: doutcome_failI)
next
  case (2 st c)
  then have "decimal_val a = x" using P [of c] by simp
  then show ?case by (intro decimal_copy_wp [OF a] Q) (auto elim: doutcome_mono)
next
  case (3 st c)
  then have "decimal_val b = x" using P [of c] by simp
  then show ?case by (intro decimal_copy_wp [OF b] Q) (auto elim: doutcome_mono)
qed

lemma min_max_wp:
  assumes a: "decimal_wf a" "ra \<Longrightarrow> r = a" and b: "decimal_wf b" "rb \<Longrightarrow> r = b"
  shows "(\<And>st r'. doutcome u True False st (decimal_wf r' \<and> decimal_val r' = min (decimal_val a) (decimal_val b)) (r' = r) \<Longrightarrow> Q (st, r')) \<Longrightarrow>
      rspec u (bigdecimal_min ra rb r a b) Q"
    "(\<And>st r'. doutcome u True False st (decimal_wf r' \<and> decimal_val r' = max (decimal_val a) (decimal_val b)) (r' = r) \<Longrightarrow> Q (st, r')) \<Longrightarrow>
      rspec u (bigdecimal_max ra rb r a b) Q"
  unfolding bigdecimal_min_def bigdecimal_max_def
  by (rule choose_wp [OF assms, where x = "min (decimal_val a) (decimal_val b)"]; simp add: order_sign_def min_def)
    (rule choose_wp [OF assms, where x = "max (decimal_val a) (decimal_val b)"]; simp add: order_sign_def max_def)

text \<open>The text of an unsigned integer is that of a decimal with scale zero.\<close>

lemma unsigned_decimal:
  "plain_decimal \<lparr>coefficient = bigint_wrap_uint64 n, scale = 0\<rparr> = unsigned_text (unat n)"
  "decimal_val \<lparr>coefficient = bigint_wrap_uint64 n, scale = 0\<rparr> = of_nat (unat n)"
  by (simp_all add: plain_decimal_def plain_digits_def unsigned_text_def decimal_val_def bigint_wrap_uint64_def bigint_val_def)

lemma set_unsigned_wp:
  assumes n: "n < LB"
    and Q: "\<And>st v'. doutcome u True False st (decimal_wf v' \<and> decimal_val v' = of_nat n) (v' = v) \<Longrightarrow> Q (st, v')"
  shows "rspec u (bigdecimal_set_string v (unsigned_text n)) Q"
proof -
  let ?v = "\<lparr>coefficient = bigint_wrap_uint64 (of_nat n), scale = 0\<rparr>"
  have un: "unat (of_nat n :: u64) = n" by (rule unat_of_nat_LB [OF n])
  have wf: "bigint_wf (bigint_wrap_uint64 (of_nat n))" by simp
  have val: "decimal_val ?v = of_nat n" and shown: "plain_decimal ?v = unsigned_text n" unfolding unsigned_decimal un by (rule refl)+
  have "decimal_representable (of_int (bigint_val (bigint_wrap_uint64 (of_nat n))))" by (rule integer_is_decimal [OF wf])
  then have rep: "decimal_representable (decimal_val ?v)" by (simp add: decimal_val_def)
  have range: "in_i64 (scale ?v)" by (simp add: in_i64_def INT64_MIN_def INT64_MAX_def)
  have wf': "bigint_wf (coefficient ?v)" using wf by simp
  note t = plain_decimal_text [OF wf' range rep, unfolded val shown]
  have "bigint_mag (bigint_wrap_uint64 (of_nat n)) = n" using un by (cases "of_nat n = (0 :: u64)") (simp_all add: bigint_wrap_uint64_def)
  moreover have "LB ^ 1 \<le> LB ^ (BIGINT_MAX_LIMBS - 1)" by (intro power_increasing) (simp_all add: max_limbs_numeral LB_def)
  ultimately have "text_fits (unsigned_text n)" using n by (intro t(4)) simp
  then show ?thesis
    using t(1-3) by (intro decimal_set_string_wp Q) (auto elim!: doutcome_mono)
qed

lemma one_text: "''1'' = unsigned_text 1"
  by code_simp

section \<open>Powers\<close>

lemma power_not_ten:
  fixes c :: int
  assumes "\<not> 10 dvd c"
  shows "\<not> 10 dvd c ^ n"
proof
  assume ten: "10 dvd c ^ n"
  have "2 dvd c ^ n" "5 dvd c ^ n" by (rule dvd_trans [OF _ ten], simp)+
  then have "even c" by simp
  show False
  proof (cases "5 dvd c")
    case True
    with \<open>even c\<close> assms show False by presburger
  next
    case False
    then have "coprime 5 (c ^ n)" using coprime_five by simp
    then show False unfolding coprime_absorb_left [OF \<open>5 dvd c ^ n\<close>] by simp
  qed
qed

text \<open>The coefficient of the object that holds a power.\<close>

lemma power_coefficient:
  assumes b: "decimal_wf b" and d: "decimal_wf d" "decimal_val d = decimal_val b ^ n"
  shows "bigint_val (coefficient d) = bigint_val (coefficient b) ^ n"
    "bigint_val (coefficient b) \<noteq> 0 \<Longrightarrow> scale d = int n * scale b"
proof -
  let ?c = "bigint_val (coefficient b)" and ?d = "bigint_val (coefficient d)"
  have eq: "of_int ?d * 10 powi (- scale d) = (of_int (?c ^ n) * 10 powi (- (int n * scale b)) :: rat)"
  proof -
    have "((10 :: rat) powi (- scale b)) ^ n = 10 powi (- (int n * scale b))"
      using power_int_mult [of "10 :: rat" "- scale b" "int n"] by (simp add: mult.commute)
    then show ?thesis using d(2) unfolding decimal_val_def by (simp add: power_mult_distrib)
  qed
  have both: "?d = ?c ^ n \<and> - scale d = - (int n * scale b)" if "?c \<noteq> 0"
  proof (rule canonical_decimal_unique [OF eq])
    show "\<not> 10 dvd ?c ^ n" using b that by (intro power_not_ten) (simp add: decimal_wf_def)
    have "?d \<noteq> 0" using d(2) that decimal_val_0_iff [of d] decimal_val_0_iff [of b] by simp
    then show "\<not> 10 dvd ?d" using d(1) by (simp add: decimal_wf_def)
  qed
  then show "?c \<noteq> 0 \<Longrightarrow> scale d = int n * scale b" by simp
  show "?d = ?c ^ n"
  proof (cases "?c = 0")
    case True
    then have s: "scale b = 0" using b by (simp add: decimal_wf_def)
    show ?thesis
    proof (cases "n = 0")
      case True
      then have "of_int ?d * 10 powi (- scale d) = (of_int 1 * 10 powi 0 :: rat)" using eq by simp
      moreover have "?d \<noteq> 0" using d(2) True decimal_val_0_iff [of d] by auto
      then have "\<not> 10 dvd ?d" using d(1) by (simp add: decimal_wf_def)
      ultimately have "?d = 1" using canonical_decimal_unique [of ?d "- scale d" 1 0] by simp
      then show ?thesis using True by simp
    next
      case False
      then show ?thesis using True eq by (simp add: power_0_left)
    qed
  qed (use both in blast)
qed

text \<open>Room for the power and for the product that forms it. No factor of a product in the loop is larger.\<close>

definition pow_fits :: "BigDecimal \<Rightarrow> nat \<Rightarrow> bool" where
  "pow_fits base n \<longleftrightarrow> \<bar>bigint_val (coefficient base)\<bar> ^ n < int LB ^ (BIGINT_MAX_LIMBS div 2)"

lemma smaller_power:
  fixes c :: int
  assumes "i \<le> n" "c \<noteq> 0"
  shows "\<bar>c\<bar> ^ i \<le> \<bar>c\<bar> ^ n"
  using assms by (intro power_increasing) arith+

lemma power_size:
  assumes b: "decimal_wf b" and d: "decimal_wf d" "decimal_val d = decimal_val b ^ i" and i: "i \<le> n" and F: "pow_fits b n"
  shows "bsize (coefficient d) \<le> BIGINT_MAX_LIMBS div 2"
proof (rule holds_int_size)
  let ?c = "bigint_val (coefficient b)"
  show "holds_int (coefficient d) (?c ^ i)"
    using power_coefficient(1) [OF b d] d(1) by (simp add: holds_int_def decimal_wf_def)
  show "\<bar>?c ^ i\<bar> < int LB ^ (BIGINT_MAX_LIMBS div 2)"
  proof (cases "?c = 0")
    case True
    have "1 < int LB ^ (BIGINT_MAX_LIMBS div 2)" by (intro one_less_power) (simp_all add: LB_def max_limbs_numeral)
    then show ?thesis using True by (simp add: power_0_left)
  next
    case False
    then show ?thesis using smaller_power [OF i, of ?c] F by (simp add: pow_fits_def power_abs)
  qed
qed

text \<open>When an object denotes a power, objects denote the smaller powers as well.\<close>

lemma power_representable:
  assumes b: "decimal_wf b" and rep: "decimal_representable (decimal_val b ^ n)" and i: "i \<le> n"
  shows "decimal_representable (decimal_val b ^ i)"
proof -
  let ?c = "bigint_val (coefficient b)"
  have one: "decimal_representable 1"
    using integer_is_decimal [of "bigint_wrap_uint64 1"] by simp
  show ?thesis
  proof (cases "?c = 0")
    case True
    then have "decimal_val b = 0" by (simp add: decimal_val_def)
    moreover have "decimal_representable 0" using integer_is_decimal [of bigint_init] by simp
    ultimately show ?thesis using one by (cases "i = 0") (simp_all add: power_0_left)
  next
    case False
    from rep obtain d where d: "decimal_wf d" "decimal_val d = decimal_val b ^ n" by (auto simp: decimal_representable_def)
    note c = power_coefficient(1) [OF b d] and s = power_coefficient(2) [OF b d False]
    have nd: "\<not> 10 dvd ?c ^ i" using b False by (intro power_not_ten) (simp add: decimal_wf_def)
    have wf: "bigint_wf (coefficient d)" "in_i64 (scale d)" using d(1) by (simp_all add: decimal_wf_def)
    have "\<bar>?c ^ i\<bar> \<le> \<bar>?c ^ n\<bar>" using smaller_power [OF i, of ?c] False by (simp add: power_abs)
    also have "\<dots> = int (bigint_mag (coefficient d))" unfolding c [symmetric] by (rule abs_bigint_val)
    also have "\<dots> < int (LB ^ bsize (coefficient d))" using mag_less [of "limbs (coefficient d)"] by (simp only: of_nat_less_iff)
    also have "\<dots> \<le> int LB ^ BIGINT_MAX_LIMBS"
      unfolding of_nat_power using bigint_wfD(5) [OF wf(1)] by (intro power_increasing) (simp_all add: LB_def)
    finally have iff: "decimal_representable (of_int (?c ^ i) * 10 powi (- (int i * scale b))) \<longleftrightarrow> in_i64 (int i * scale b)"
      by (rule representable_iff [OF nd])
    have "\<bar>int i * scale b\<bar> \<le> \<bar>int n * scale b\<bar>" using i by (simp add: abs_mult mult_right_mono)
    moreover have "0 \<le> int i * scale b \<and> 0 \<le> int n * scale b \<or> int i * scale b \<le> 0 \<and> int n * scale b \<le> 0"
      by (cases "0 \<le> scale b") (simp_all add: mult_nonneg_nonpos)
    ultimately have "in_i64 (int i * scale b)"
      using wf(2) unfolding s in_i64_def INT64_MIN_def INT64_MAX_def by linarith
    moreover have "decimal_val b ^ i = of_int (?c ^ i) * 10 powi (- (int i * scale b))"
      using power_int_mult [of "10 :: rat" "- scale b" "int i"] by (simp add: decimal_val_def power_mult_distrib mult.commute)
    ultimately show ?thesis using iff by simp
  qed
qed

lemma ocall_halve:
  assumes r: "holds_int r (int e)"
    and Q: "\<And>st r'. doutcome u True False st (holds_int r' (int (e div 2))) True \<Longrightarrow> Q (st, r')"
  shows "rspec u (operation_call (bigint_shift_right r r 1)) Q"
proof (rule operation_call_wp, rule shift_right_wp, goal_cases)
  case (3 st r')
  have "tdiv (bigint_val r) (2 ^ 1) = int (e div 2)" using r by (simp add: holds_int_def tdiv_def zdiv_int sgn_if)
  with 3 show ?case using result_holds [of u True r "int (e div 2)" st r'] by (auto intro!: Q elim: doutcome_mono)
qed (use r in \<open>simp_all add: holds_int_def bigint_wf_storage_ok\<close>)

lemma decimal_pow_loop_wp:
  assumes b: "decimal_wf b" and F: "F \<Longrightarrow> pow_fits b n"
    and Q: "\<And>st r. doutcome u F (\<not> decimal_representable (decimal_val b ^ n)) st (decimal_wf r \<and> decimal_val r = decimal_val b ^ n) True \<Longrightarrow> Q (st, r)"
  shows "holds_int rm (int e) \<Longrightarrow> decimal_wf a \<Longrightarrow> decimal_val a = decimal_val b ^ m \<Longrightarrow> decimal_wf f \<Longrightarrow>
    decimal_val f = decimal_val b ^ p \<Longrightarrow> m + p * e = n \<Longrightarrow> e < 2 ^ k \<Longrightarrow> rspec u (decimal_pow_loop (Suc k) rm a f) Q"
proof (induction k arbitrary: rm e a m f p)
  case 0
  then have "bigint_is_zero rm" by (simp add: holds_int_def is_zero_iff)
  then show ?case using 0 by (auto intro!: triple_return Q)
next
  case (Suc k)
  note rm = Suc.prems(1) and a = Suc.prems(2,3) and f = Suc.prems(4,5) and n = Suc.prems(6)
  let ?x = "decimal_val b"
  have zero: "bigint_is_zero rm \<longleftrightarrow> e = 0" and odd: "bigint_is_odd rm \<longleftrightarrow> odd e"
    using rm by (auto simp: holds_int_def is_zero_iff is_odd_iff bigint_val_def split: if_splits)
  have mul: "rspec u (bigdecimal_mul r c d) P" if "decimal_wf c" "decimal_val c = ?x ^ i" "decimal_wf d" "decimal_val d = ?x ^ j" "i + j \<le> n"
    "\<And>st r'. doutcome u F (\<not> decimal_representable (?x ^ n)) st (decimal_wf r' \<and> decimal_val r' = ?x ^ (i + j)) True \<Longrightarrow> P (st, r')"
    for r c d i j and P :: "BigDecimalStatus \<times> BigDecimal \<Rightarrow> bool"
  proof (rule decimal_mul_wp [OF that(1,3)], rule that(6), erule doutcome_mono)
    assume F
    then have "bsize (coefficient c) \<le> BIGINT_MAX_LIMBS div 2" "bsize (coefficient d) \<le> BIGINT_MAX_LIMBS div 2"
      using power_size [OF b that(1,2), of n] power_size [OF b that(3,4), of n] F that(5) by simp_all
    then show "bsize (coefficient c) + bsize (coefficient d) \<le> BIGINT_MAX_LIMBS" by linarith
  qed (use that power_representable [OF b, of n "i + j"] in \<open>auto simp: power_add\<close>)
  have fail: "Q (st, r)" if "doutcome u F (\<not> decimal_representable (?x ^ n)) st good bad" "st \<noteq> BIGDECIMAL_OK" for st r good bad
    using that by (intro Q) (auto elim: doutcome_failI)
  show ?case
  proof (cases "e = 0")
    case True
    then show ?thesis using a n zero by (auto intro!: triple_return Q)
  next
    case False
    let ?m = "if odd e then m + p else m" and ?e = "e div 2"
    have e: "e = 2 * ?e + (if odd e then 1 else 0)" by (cases "odd e"; simp; presburger)
    have n': "?m + 2 * p * ?e = n"
    proof -
      define h where "h = e div 2"
      have h: "2 * h + (if odd e then 1 else 0) = e" using e by (simp add: h_def)
      have "m + p * (2 * h + (if odd e then 1 else 0)) = n" unfolding h by (rule n)
      then show ?thesis unfolding h_def [symmetric] by (simp add: algebra_simps split: if_splits)
    qed
    have mp: "?m \<le> n" using n' by linarith
    have pe: "p * 1 \<le> p * e" using False by (intro mult_le_mono2) simp
    have step1: "rspec u (if odd e then bigdecimal_mul a a f else State_Monad.return (BIGDECIMAL_OK, a)) P"
      if P: "\<And>st a'. doutcome u F (\<not> decimal_representable (?x ^ n)) st (decimal_wf a' \<and> decimal_val a' = ?x ^ ?m) True \<Longrightarrow> P (st, a')" for P
      by (rule triple_if, rule mul [OF a f]) (use n pe a P in \<open>auto intro!: triple_return\<close>)
    show ?thesis
      unfolding decimal_pow_loop.simps(2) [of "Suc k"] zero odd if_not_P [OF False]
    proof (rule triple_bind, rule budget_check_wp, rule triple_if, goal_cases)
      case (1 c)
      then show ?case by (intro triple_return Q) auto
    next
      case (2 c)
      show ?case
      proof (rule triple_bind, rule step1, unfold prod.case, rule decimal_chain, goal_cases)
        case (1 st a')
        then have a': "decimal_wf a'" "decimal_val a' = ?x ^ ?m" by simp_all
        show ?case
        proof (rule triple_bind, rule ocall_halve [OF rm], unfold prod.case, goal_cases)
          case (1 st rm')
          show ?case
          proof (cases "st = BIGDECIMAL_OK")
            case True
            with 1 have rm': "holds_int rm' (int ?e)" by simp
            then have z: "bigint_is_zero rm' \<longleftrightarrow> ?e = 0" by (auto simp: holds_int_def is_zero_iff)
            have small: "?e < 2 ^ k" using Suc.prems(7) by simp
            show ?thesis
            proof (cases "?e = 0")
              case stop: True
              have "?m + p * ?e = n" using n' stop by simp
              from Suc.IH [OF rm' a' f this small] show ?thesis using z stop True by simp
            next
              case more: False
              have "2 * p * 1 \<le> 2 * p * ?e" using more by (intro mult_le_mono2) simp
              then have pp: "p + p \<le> n" using n' by linarith
              have cond: "(st = BIGDECIMAL_OK \<and> \<not> bigint_is_zero rm') = True" using z more True by simp
              show ?thesis
                unfolding cond if_True
              proof (rule triple_bind, rule mul [OF f f pp], unfold prod.case, rule triple_if, goal_cases)
                case (1 st f')
                then have f': "decimal_wf f'" "decimal_val f' = ?x ^ (p + p)" by simp_all
                have "?m + (p + p) * ?e = n" using n' by (simp add: algebra_simps)
                from Suc.IH [OF rm' a' f' this small] show ?case .
              next
                case (2 st f')
                then show ?case by (intro triple_return) (rule fail)
              qed
            qed
          next
            case False
            then have "rspec u (State_Monad.return (st, a')) Q"
              using 1 by (intro triple_return Q) (auto elim: doutcome_failI)
            then show ?thesis using False by simp
          qed
        qed
      next
        case (2 st a')
        then have "rspec u (State_Monad.return (st, a')) Q" by (intro triple_return) (rule fail)
        then show ?case using 2(2) by simp
      qed
    qed
  qed
qed

lemma pow_objects_bind:
  assumes "\<not> u \<Longrightarrow> Q (BIGDECIMAL_OUT_OF_MEMORY, r)"
    and "rspec u (g bigint_init \<lparr>coefficient = bigint_init, scale = 0\<rparr> \<lparr>coefficient = bigint_init, scale = 0\<rparr>) Q"
  shows "rspec u (do {
      x \<leftarrow> bigint_create; y \<leftarrow> bigdecimal_create; z \<leftarrow> bigdecimal_create;
      case (x, y, z) of (Some x, Some y, Some z) \<Rightarrow> g x y z | _ \<Rightarrow> State_Monad.return (BIGDECIMAL_OUT_OF_MEMORY, r)
    }) Q"
  by (intro triple_bind [of _ bigint_create] triple_bind [of _ bigdecimal_create] create_wp decimal_create_wp)
    (use assms in \<open>auto intro!: triple_return\<close>)

lemma decimal_pow_wp:
  assumes b: "decimal_wf b" and e: "holds_int ex e"
    and Q: "\<And>st r'. (if e < 0 then st = BIGDECIMAL_INVALID_ARGUMENT \<and> r' = r
      else doutcome u (pow_fits b (nat e)) (\<not> decimal_representable (decimal_val b ^ nat e)) st
        (decimal_wf r' \<and> decimal_val r' = decimal_val b ^ nat e) (r' = r)) \<Longrightarrow> Q (st, r')"
  shows "rspec u (bigdecimal_pow r b ex) Q"
proof (cases "e < 0")
  case True
  then have "bigint_is_negative ex" using e by (simp add: holds_int_def is_negative_iff)
  then show ?thesis using True by (auto simp: bigdecimal_pow_def intro!: triple_return Q)
next
  case False
  then have neg: "\<not> bigint_is_negative ex" using e by (simp add: holds_int_def is_negative_iff)
  let ?n = "nat e"
  let ?F = "pow_fits b ?n" and ?ov = "\<not> decimal_representable (decimal_val b ^ ?n)"
  have Q': "doutcome u ?F ?ov st (decimal_wf r' \<and> decimal_val r' = decimal_val b ^ ?n) (r' = r) \<Longrightarrow> Q (st, r')" for st r'
    using False by (intro Q) simp
  have fail: "rspec u (State_Monad.return (st, r)) Q" if "doutcome u X Y st good bad" "st \<noteq> BIGDECIMAL_OK" "X \<or> ?F \<longrightarrow> X" "Y \<longrightarrow> ?ov"
    for st good bad X Y
    using that by (intro triple_return Q') (auto elim!: doutcome_failI)
  show ?thesis
    unfolding bigdecimal_pow_def if_not_P [OF neg]
  proof (rule pow_objects_bind, goal_cases)
    case 1
    then show ?case by (intro Q') simp
  next
    case 2
    show ?case
      unfolding BigDecimal.select_convs
    proof (rule triple_bind, rule ocall_copy [OF e storage_ok_init], unfold prod.case, rule decimal_chain, goal_cases)
      case (1 st rm)
      then have rm: "holds_int rm (int ?n)" using False by simp
      then have canon: "canonical (limbs rm)" "bigint_mag rm = ?n" by (auto simp: holds_int_def bigint_wf_def bigint_val_def split: if_splits)
      have small: "?n < 2 ^ bigint_bit_length rm" using bit_length_le_iff [OF canon(1), of "bigint_bit_length rm"] canon(2) by simp
      show ?case
        unfolding one_text
      proof (rule triple_bind, rule set_unsigned_wp, simp add: LB_def, unfold prod.case, rule decimal_chain, goal_cases)
        case (1 st a)
        then have a: "decimal_wf a" "decimal_val a = decimal_val b ^ 0" by simp_all
        show ?case
        proof (rule triple_bind, rule decimal_copy_wp [OF b], simp, unfold prod.case, rule decimal_chain, goal_cases)
          case (1 st f)
          then have f: "decimal_wf f" "decimal_val f = decimal_val b ^ 1" by simp_all
          show ?case
            unfolding Suc_eq_plus1 [symmetric]
          proof (rule triple_bind, rule decimal_pow_loop_wp [where F = ?F and n = ?n, OF b _ _ rm a f _ small], goal_cases)
            case (2 st a')
            then show ?case
              unfolding prod.case
            proof (intro triple_if, goal_cases)
              case 1
              then have "decimal_wf a'" "decimal_val a' = decimal_val b ^ ?n" by simp_all
              then show ?case by (intro decimal_copy_wp Q') (auto elim: doutcome_mono)
            next
              case 2
              then show ?case by (intro fail [OF 2(1)]) simp_all
            qed
          qed simp_all
        next
          case (2 st f)
          then show ?case by (simp add: fail)
        qed
      next
        case (2 st a)
        then show ?case by (simp add: fail)
      qed
    next
      case (2 st rm)
      then show ?case by (simp add: fail)
    qed
  qed
qed

text \<open>Signed exponents: a negative power is the quotient of one by the positive power, exact when its expansion
  is finite.\<close>

lemma pow_signed_wp:
  assumes b: "decimal_wf b" and e: "holds_int ex e" and k: "1 \<le> k" "in_i64 k" and mode: "bigdecimal_valid_rounding mode"
    and d: "decade d (1 / decimal_val b ^ nat (- e))"
    and Q: "\<And>st r'. (if 0 \<le> e then doutcome u (pow_fits b (nat e)) (\<not> decimal_representable (decimal_val b ^ nat e)) st
          (decimal_wf r' \<and> decimal_val r' = decimal_val b ^ nat e) (r' = r)
      else if decimal_val b = 0 then st = BIGDECIMAL_DIVISION_BY_ZERO \<and> r' = r
      else doutcome u False True st (decimal_wf r' \<and>
        decimal_val r' = quotient_value mode (k - 1 - d) (1 / decimal_val b ^ nat (- e))) (r' = r)) \<Longrightarrow> Q (st, r')"
  shows "rspec u (bigdecimal_pow_signed r b ex k mode) Q"
proof -
  have args: "\<not> (k < 1 \<or> \<not> bigdecimal_valid_rounding mode)" using k mode by simp
  have neg: "bigint_is_negative ex \<longleftrightarrow> e < 0" using e by (simp add: holds_int_def is_negative_iff)
  have zero: "bigint_is_zero (coefficient b) \<longleftrightarrow> decimal_val b = 0"
    using b by (simp add: decimal_wf_def is_zero_iff decimal_val_0_iff)
  show ?thesis
    unfolding bigdecimal_pow_signed_def if_not_P [OF args] neg zero not_less
  proof (rule triple_if, rule decimal_pow_wp [OF b e], rule Q, simp, rule triple_if, goal_cases)
    case 1
    then show ?case by (intro triple_return Q) simp
  next
    case 2
    then have e0: "\<not> 0 \<le> e" and b0: "decimal_val b \<noteq> 0" by simp_all
    let ?n = "nat (- e)"
    have Q': "doutcome u False True st (decimal_wf r' \<and> decimal_val r' = quotient_value mode (k - 1 - d) (1 / decimal_val b ^ ?n)) (r' = r) \<Longrightarrow>
        Q (st, r')" for st r'
      using e0 b0 by (intro Q) simp
    have fail: "rspec u (State_Monad.return (st, r)) Q" if "doutcome u X Y st good bad" "st \<noteq> BIGDECIMAL_OK" for st good bad X Y
      using that by (intro triple_return Q') (auto elim!: doutcome_failI)
    show ?case
    proof (rule pow_objects_bind, goal_cases)
      case 1
      then show ?case by (intro Q') simp
    next
      case 2
      show ?case
      proof (rule triple_bind, rule operation_call_wp, rule abs_wp, goal_cases)
        case (3 st m)
        then have abs: "doutcome u True False (from_integer_status st) (holds_int m \<bar>e\<bar>) (m = bigint_init)"
          using result_holds [of u True bigint_init "\<bar>bigint_val ex\<bar>" st m] e by (simp add: holds_int_def del: abs_bigint_val)
        show ?case
          unfolding prod.case
        proof (rule decimal_chain, goal_cases)
          case 1
          then have m: "holds_int m (- e)" using e0 abs by simp
          show ?case
          proof (rule triple_bind, rule decimal_pow_wp [OF b m], unfold prod.case, rule decimal_chain, goal_cases)
            case (1 st p)
            then have p: "decimal_wf p" "decimal_val p = decimal_val b ^ ?n" using e0 by simp_all
            show ?case
              unfolding one_text
            proof (rule triple_bind, rule set_unsigned_wp, simp add: LB_def, unfold prod.case, rule triple_if, goal_cases)
              case (1 st w)
              then have w: "decimal_wf w" "decimal_val w = 1" by simp_all
              show ?case
                by (rule div_exact_wp [OF w(1) p(1) _ k mode, where e = d])
                  (use d b0 in \<open>auto simp: w p intro!: Q' elim: doutcome_mono\<close>)
            next
              case (2 st w)
              then show ?case by (rule fail)
            qed
          next
            case (2 st p)
            then have "rspec u (State_Monad.return (st, r)) Q" using e0 by (intro fail [of "pow_fits b ?n"]) auto
            then show ?case using 2(2) by simp
          qed
        next
          case 2
          with abs have "rspec u (State_Monad.return (from_integer_status st, r)) Q" by (rule fail)
          then show ?case using 2 by simp
        qed
      qed (use e in \<open>simp_all add: holds_int_def bigint_wf_storage_ok\<close>)
    qed
  qed
qed

section \<open>Sums, products and means, rounded\<close>

lemma binary_rounded_wp:
  assumes a: "decimal_wf a" and b: "decimal_wf b" and k: "1 \<le> k" "in_i64 k" and v: "v = (if subtracting then decimal_val a - decimal_val b else decimal_val a + decimal_val b)"
    and d: "v = 0 \<or> decade d v"
    and Q: "\<And>st r'. doutcome u False True st (decimal_wf r' \<and>
      decimal_val r' = round_decimal BIGDECIMAL_ROUND_HALF_EVEN (k - 1 - d) v) (r' = r) \<Longrightarrow> Q (st, r')"
  shows "rspec u (bigdecimal_binary_rounded r a b k subtracting) Q"
proof -
  have sum: "rspec u (if subtracting then bigdecimal_sub False False t a b else bigdecimal_add False False t a b) P"
    if "\<And>st t'. doutcome u False True st (decimal_wf t' \<and> decimal_val t' = v) True \<Longrightarrow> P (st, t')" for t P
    unfolding bigdecimal_add_def bigdecimal_sub_def v
    by (intro triple_if add_or_subtract_wp [OF a b]) (use that in \<open>auto simp: v intro!: that elim!: doutcome_mono\<close>)
  show ?thesis
    unfolding bigdecimal_binary_rounded_def
  proof (rule decimal_create_bind, unfold option.case, goal_cases)
    case 1
    then show ?case by (intro triple_return Q) simp
  next
    case 2
    show ?case
    proof (rule triple_bind, rule sum, unfold prod.case, rule triple_if, goal_cases)
      case (1 st t)
      then have t: "decimal_wf t" "decimal_val t = v" by simp_all
      show ?case
        by (rule round_significant_wp [OF t(1) _ k, where e = d])
          (use d in \<open>auto simp: t bigdecimal_valid_rounding_def intro!: Q elim: doutcome_mono\<close>)
    next
      case (2 st t)
      then show ?case by (intro triple_return Q) (auto elim: doutcome_failI)
    qed
  qed
qed

lemma multiply_rounded_wp:
  assumes a: "decimal_wf a" and b: "decimal_wf b" and k: "1 \<le> k" "in_i64 k"
    and d: "decimal_val a * decimal_val b = 0 \<or> decade d (decimal_val a * decimal_val b)"
    and Q: "\<And>st r'. doutcome u False True st (decimal_wf r' \<and>
      decimal_val r' = round_decimal BIGDECIMAL_ROUND_HALF_EVEN (k - 1 - d) (decimal_val a * decimal_val b)) (r' = r) \<Longrightarrow> Q (st, r')"
  shows "rspec u (bigdecimal_multiply_rounded r a b k) Q"
  unfolding bigdecimal_multiply_rounded_def
proof (rule decimal_create_bind, unfold option.case, goal_cases)
  case 1
  then show ?case by (intro triple_return Q) simp
next
  case 2
  show ?case
  proof (rule triple_bind, rule decimal_mul_wp [OF a b], unfold prod.case, rule triple_if, goal_cases)
    case (1 st t)
    then have t: "decimal_wf t" "decimal_val t = decimal_val a * decimal_val b" by simp_all
    show ?case
      by (rule round_significant_wp [OF t(1) _ k, where e = d])
        (use d in \<open>auto simp: t bigdecimal_valid_rounding_def intro!: Q elim: doutcome_mono\<close>)
  next
    case (2 st t)
    then show ?case by (intro triple_return Q) (auto elim: doutcome_failI)
  qed
qed

lemma decimals_bind:
  assumes "\<not> u \<Longrightarrow> Q x"
    and "rspec u (g \<lparr>coefficient = bigint_init, scale = 0\<rparr> \<lparr>coefficient = bigint_init, scale = 0\<rparr>) Q"
  shows "rspec u (do {
      a \<leftarrow> bigdecimal_create; b \<leftarrow> bigdecimal_create;
      case (a, b) of (Some a, Some b) \<Rightarrow> g a b | _ \<Rightarrow> State_Monad.return x
    }) Q"
  by (intro triple_bind [of _ bigdecimal_create] decimal_create_wp) (use assms in \<open>auto intro!: triple_return\<close>)

lemma mean_wp:
  assumes vs: "\<forall>v \<in> set vs. decimal_wf v" "vs \<noteq> []" "length vs < LB" and k: "1 \<le> k" "in_i64 k" and mode: "bigdecimal_valid_rounding mode"
    and v: "v = sum_list (map decimal_val vs) / of_nat (length vs)" and d: "v = 0 \<or> decade d v"
    and Q: "\<And>st r'. doutcome u False True st (decimal_wf r' \<and> decimal_val r' = quotient_value mode (k - 1 - d) v) (r' = r) \<Longrightarrow> Q (st, r')"
  shows "rspec u (bigdecimal_mean r vs k mode) Q"
proof -
  have ok: "\<not> bigdecimal_validate_sequence vs \<noteq> BIGDECIMAL_OK" "\<not> (k \<le> 0 \<or> \<not> bigdecimal_valid_rounding mode)"
    using vs k mode by (simp_all add: bigdecimal_validate_sequence_def)
  have fail: "rspec u (State_Monad.return (st, r)) Q" if "doutcome u X Y st good bad" "st \<noteq> BIGDECIMAL_OK" for st good bad X Y
    using that by (intro triple_return Q) (auto elim!: doutcome_failI)
  have len: "(of_nat (length vs) :: rat) \<noteq> 0" using vs(2) by simp
  show ?thesis
    unfolding bigdecimal_mean_def if_not_P [OF ok(1)] if_not_P [OF ok(2)]
  proof (rule decimals_bind, goal_cases)
    case 1
    then show ?case by (intro Q) simp
  next
    case 2
    show ?case
    proof (unfold bigdecimal_sum_def, rule triple_bind, rule aggregate_wp [OF vs(1)], unfold prod.case, rule decimal_chain, goal_cases)
      case (1 st s)
      then have s: "decimal_wf s" "decimal_val s = sum_list (map decimal_val vs)" using vs(2) by simp_all
      show ?case
      proof (rule triple_bind, rule set_unsigned_wp [OF vs(3)], unfold prod.case, rule triple_if, goal_cases)
        case (1 st w)
        then have w: "decimal_wf w" "decimal_val w = of_nat (length vs)" by simp_all
        have zero: "sum_list (map decimal_val vs) = 0 \<or> decade d (sum_list (map decimal_val vs) / of_nat (length vs))"
          using d len unfolding v by auto
        show ?case
          by (rule div_exact_wp [OF s(1) w(1) _ k mode, where e = d])
            (use zero len in \<open>auto simp: s w v intro!: Q elim: doutcome_mono\<close>)
      next
        case (2 st w)
        then show ?case by (rule fail)
      qed
    next
      case (2 st s)
      then have "rspec u (State_Monad.return (st, r)) Q" using vs(2) by (intro fail [of False]) auto
      then show ?case using 2(2) by simp
    qed
  qed
qed

section \<open>Decimals and fractions denote the same numbers\<close>

lemma fraction_call_wp:
  assumes "rspec u m (\<lambda>(st, x). Q (rational_from_decimal_status st, x))"
  shows "rspec u (fraction_call m) Q"
  unfolding fraction_call_def by (rule triple_bind, rule triple_conseq [OF assms]) (auto intro: triple_return)

lemma fraction_result: "doutcome u F False st good bad \<Longrightarrow> routcome u F (rational_from_decimal_status st) good bad"
  by (cases st) (auto simp: doutcome_def routcome_def)

lemma from_bigdecimal_wp:
  assumes v: "decimal_wf v"
    and Q: "\<And>st r'. routcome u (ten_fits (nat \<bar>scale v\<bar>) (bsize (coefficient v))) st
      (rational_wf r' \<and> rational_val r' = decimal_val v) (r' = r) \<Longrightarrow> Q (st, r')"
  shows "rspec u (bigrational_from_bigdecimal r v) Q"
proof -
  let ?c = "bigint_val (coefficient v)" and ?s = "scale v" and ?i = "bsize (coefficient v)"
  let ?e = "nat \<bar>?s\<bar>"
  let ?F = "ten_fits ?e ?i"
  note vd = decimal_wfD [OF v]
  have c: "\<bar>?c\<bar> < int LB ^ ?i" by (rule bigint_val_size)
  have fail: "rspec u (State_Monad.return (st, r)) Q" if "routcome u X st good bad" "st \<noteq> BIGRATIONAL_OK" "?F \<Longrightarrow> X" for st good bad X
    using that by (intro triple_return Q) (auto simp: routcome_def)
  have fin: "rspec u (bigrational_set_fraction r n d) Q"
    if n: "holds_int n x" "\<bar>x\<bar> < int LB ^ i" and d: "holds_int d y" "y \<noteq> 0" "\<bar>y\<bar> < int LB ^ j" and val: "Fract x y = decimal_val v"
      and size: "?F \<Longrightarrow> Suc (max i j) \<le> BIGINT_MAX_LIMBS" for n d x y i j
  proof (rule set_fraction_wp [OF n(1) d(1)], goal_cases)
    case (1 st r')
    have "bsize n \<le> i" "bsize d \<le> j" by (rule holds_int_size [OF n] holds_int_size [OF d(1,3)])+
    then show ?case using 1 size d(2) val by (intro Q) (auto simp: routcome_def split: if_splits)
  qed
  show ?thesis
    unfolding bigrational_from_bigdecimal_def
  proof (rule triple_bind, rule rational_create_wp, goal_cases)
    case (1 p)
    show ?case
    proof (cases p)
      case None
      with 1 have "rspec u (State_Monad.return (BIGRATIONAL_OUT_OF_MEMORY, r)) Q" by (intro triple_return Q) simp
      then show ?thesis using None by simp
    next
      case (Some t)
      with 1 have t: "holds_int (numerator t) 0" "holds_int (denominator t) 1" by simp_all
      have ok: "storage_ok (numerator t)" "storage_ok (denominator t)" using t by (simp_all add: holds_int_def bigint_wf_storage_ok)
      show ?thesis
        unfolding Some option.case
      proof (rule triple_bind, rule call_copy [OF vd(1) ok(1)], unfold prod.case, goal_cases)
        case (1 st n)
        show ?case
        proof (cases "st = BIGRATIONAL_OK")
          case False
          with 1 have "rspec u (State_Monad.return (st, r)) Q" by (intro fail [of True]) auto
          then show ?thesis using False by simp
        next
          case True
          with 1 have n: "holds_int n ?c" by simp
          have nok: "storage_ok n" using n by (simp add: holds_int_def bigint_wf_storage_ok)
          consider "?s > 0" | "?s < 0" | "?s = 0" by linarith
          then show ?thesis
          proof cases
            case 1
            have e: "unat (of_int ?s :: u64) = ?e" using 1 vd(2) by (subst unat_of_int64) (auto simp: in_i64_def INT64_MAX_def LB_def)
            have cond: "(st = BIGRATIONAL_OK \<and> scale v > 0) = True" using True 1 by simp
            have pw: "(10 :: rat) powi ?s = of_int (10 ^ ?e)" using powi_nat [of ?s] 1 by simp
            show ?thesis
              unfolding cond if_True
            proof (rule triple_bind, rule triple_bind, rule fraction_call_wp, rule set_power_of_ten_wp [where F = ?F], goal_cases)
              case 1
              then show ?case unfolding e by (rule ten_fits_mono) simp_all
            next
              case (2 st d)
              note d = fraction_result [OF 2, unfolded e]
              show ?case
                unfolding prod.case
              proof (rule triple_return, unfold prod.case, rule triple_if, goal_cases)
                case 1
                then have d: "holds_int d (10 ^ ?e)" using d by simp
                show ?case
                proof (rule fin [OF n c d, of "ten_limbs ?e"])
                  show "Fract ?c (10 ^ ?e) = decimal_val v"
                    unfolding decimal_val_def Fract_of_int_quotient power_int_minus_divide using pw by simp
                  show "\<bar>10 ^ ?e\<bar> < int LB ^ ten_limbs ?e" unfolding power_abs abs_numeral by (rule ten_limbs)
                  show "Suc (max ?i (ten_limbs ?e)) \<le> BIGINT_MAX_LIMBS" if ?F using that unfolding ten_fits_def by linarith
                qed simp
              next
                case 2
                then show ?case using d by (intro fail [OF d]) simp_all
              qed
            qed
          next
            case 2
            have e: "unat (bigdecimal_abs_i64 ?s) = ?e" by (rule abs_i64_unat [OF vd(2)])
            have cond: "(st = BIGRATIONAL_OK \<and> scale v > 0) = False" "(st = BIGRATIONAL_OK \<and> scale v < 0) = True" using True 2 by simp_all
            show ?thesis
              unfolding cond if_True if_False
            proof (rule triple_bind, rule triple_bind, rule fraction_call_wp, rule multiply_power_of_ten_wp [where F = ?F, OF n nok c], goal_cases)
              case 1
              then show ?case unfolding e by simp
            next
              case (2 st m)
              note m = fraction_result [OF 2, unfolded e]
              show ?case
                unfolding prod.case
              proof (rule triple_return, unfold prod.case, rule triple_if, goal_cases)
                case 1
                then have m: "holds_int m (?c * 10 ^ ?e)" using m by simp
                show ?case
                proof (rule fin [OF m _ t(2), of "?i + ten_limbs ?e" 1])
                  show "\<bar>?c * 10 ^ ?e\<bar> < int LB ^ (?i + ten_limbs ?e)" by (rule size_mult [OF c]) (unfold power_abs abs_numeral, rule ten_limbs)
                  show "Fract (?c * 10 ^ ?e) 1 = decimal_val v"
                    using \<open>?s < 0\<close> by (simp add: decimal_val_def Fract_of_int_quotient power_int_def)
                  show "Suc (max (?i + ten_limbs ?e) 1) \<le> BIGINT_MAX_LIMBS" if ?F using that unfolding ten_fits_def ten_limbs_def by linarith
                qed (simp_all add: LB_def)
              next
                case 2
                then show ?case by (intro fail [OF m]) simp_all
              qed
            qed
          next
            case 3
            have "rspec u (bigrational_set_fraction r n (denominator t)) Q"
            proof (rule fin [OF n c t(2), of 1])
              show "Fract ?c 1 = decimal_val v" using 3 by (simp add: decimal_val_def Fract_of_int_quotient)
              show "Suc (max ?i 1) \<le> BIGINT_MAX_LIMBS" if ?F using that unfolding ten_fits_def ten_limbs_def by linarith
            qed (simp_all add: LB_def)
            then show ?thesis using True 3 by simp
          qed
        qed
      qed
    qed
  qed
qed

text \<open>The outcome of a conversion to a decimal, as \<open>doutcome\<close> has it for decimals.\<close>

definition conversion_outcome :: "bool \<Rightarrow> bool \<Rightarrow> bool \<Rightarrow> BigRationalStatus \<Rightarrow> bool \<Rightarrow> bool \<Rightarrow> bool" where
  "conversion_outcome u fits ov st good bad \<longleftrightarrow>
     (if st = BIGRATIONAL_OK then good
      else ((st = BIGRATIONAL_OUT_OF_MEMORY \<or> st = BIGRATIONAL_VALUE_TOO_LARGE) \<and> \<not> (u \<and> fits) \<or>
            st = BIGRATIONAL_SCALE_OVERFLOW \<and> ov) \<and> bad)"

lemma conversion_result:
  "doutcome u F ov st good bad \<Longrightarrow> conversion_outcome u F ov (rational_from_decimal_status st) good bad"
  by (cases st) (auto simp: doutcome_def conversion_outcome_def)

lemma conversion_outcome_mono:
  "conversion_outcome u F ov st good bad \<Longrightarrow> (u \<Longrightarrow> F' \<Longrightarrow> F) \<Longrightarrow> (ov \<Longrightarrow> ov') \<Longrightarrow> (good \<Longrightarrow> good') \<Longrightarrow>
   (bad \<Longrightarrow> bad') \<Longrightarrow> conversion_outcome u F' ov' st good' bad'"
  by (auto simp: conversion_outcome_def split: if_splits)

lemma to_bigdecimal_wp:
  assumes v: "rational_wf v" and k: "1 \<le> k" "in_i64 k" and mode: "bigdecimal_valid_rounding mode"
    and d: "rational_val v = 0 \<or> decade d (rational_val v)"
    and fits: "\<And>n m. decimal_wf n \<Longrightarrow> decimal_val n = of_int (bigint_val (numerator v)) \<Longrightarrow>
      decimal_wf m \<Longrightarrow> decimal_val m = of_int (bigint_val (denominator v)) \<Longrightarrow>
      (F \<longrightarrow> exact_fits n m (k - 1 - d)) \<and>
      (exact_overflow n m k \<or> \<not> decimal_representable (quotient_value mode (k - 1 - d) (rational_val v)) \<longrightarrow> ov)"
    and Q: "\<And>st r'. conversion_outcome u F ov st
      (decimal_wf r' \<and> decimal_val r' = quotient_value mode (k - 1 - d) (rational_val v)) (r' = r) \<Longrightarrow> Q (st, r')"
  shows "rspec u (bigrational_to_bigdecimal r v k mode) Q"
proof -
  have args: "\<not> (k < 1 \<or> \<not> bigdecimal_valid_rounding mode)" using k mode by simp
  have h: "holds_int (numerator v) (bigint_val (numerator v))" "holds_int (denominator v) (bigint_val (denominator v))"
    and pos: "0 < bigint_val (denominator v)" using v by (simp_all add: rational_wf_def holds_int_def)
  have fail: "rspec u (State_Monad.return (rational_from_decimal_status st, r)) Q"
    if "doutcome u True False st good bad" "rational_from_decimal_status st \<noteq> BIGRATIONAL_OK" for st good bad
    using conversion_result [OF that(1)] that(2) by (intro triple_return Q) (auto simp: conversion_outcome_def)
  show ?thesis
    unfolding bigrational_to_bigdecimal_def if_not_P [OF args]
  proof (rule decimals_bind, goal_cases)
    case 1
    then show ?case by (intro Q) (simp add: conversion_outcome_def)
  next
    case 2
    show ?case
    proof (rule triple_bind, rule fraction_call_wp, rule decimal_from_bigint_wp [OF h(1)], unfold prod.case, rule rational_chain, goal_cases)
      case (1 st n)
      then have n: "decimal_wf n" "decimal_val n = of_int (bigint_val (numerator v))" by (auto simp: doutcome_def split: if_splits)
      show ?case
      proof (rule triple_bind, rule fraction_call_wp, rule decimal_from_bigint_wp [OF h(2)], unfold prod.case, rule triple_if, goal_cases)
        case (1 st m)
        then have m: "decimal_wf m" "decimal_val m = of_int (bigint_val (denominator v))" by (auto simp: doutcome_def split: if_splits)
        have val: "decimal_val n / decimal_val m = rational_val v" unfolding n m rational_val_def Fract_of_int_quotient ..
        have m0: "decimal_val m \<noteq> 0" using pos unfolding m by simp
        show ?case
        proof (rule fraction_call_wp, rule div_exact_wp [OF n(1) m(1) _ k mode, where e = d], simp, goal_cases)
          case 1
          then show ?case using d m0 unfolding val [symmetric] by auto
        next
          case (2 st r')
          from 2 m0 have "doutcome u (exact_fits n m (k - 1 - d))
              (exact_overflow n m k \<or> \<not> decimal_representable (quotient_value mode (k - 1 - d) (rational_val v))) st
              (decimal_wf r' \<and> decimal_val r' = quotient_value mode (k - 1 - d) (rational_val v)) (r' = r)"
            unfolding val by simp
          from conversion_result [OF this] show ?case
            unfolding prod.case by (intro Q, elim conversion_outcome_mono) (use fits [OF n m] in blast)+
        qed
      next
        case (2 st m)
        then show ?case by (intro fail)
      qed
    next
      case (2 st n)
      then have "rspec u (State_Monad.return (rational_from_decimal_status st, r)) Q" by (intro fail)
      then show ?case using 2(2) by simp
    qed
  qed
qed

lemma decimal_is_finite: "finite_decimal (decimal_val v)"
  unfolding decimal_val_def finite_decimal_shift by (auto simp: finite_decimal_def intro: exI [of _ 0])

text \<open>The sizes of the numbers in between. A reduced fraction is no larger than any other form of it, and a decimal
  without trailing zeros no larger than the integer it denotes.\<close>

lemma reduced_size:
  assumes q: "rational_wf q" and val: "rational_val q = Fract x y" and y: "y \<noteq> 0"
    and size: "\<bar>x\<bar> < int LB ^ i" "\<bar>y\<bar> < int LB ^ i"
  shows "\<bar>bigint_val (numerator q)\<bar> < int LB ^ i" "\<bar>bigint_val (denominator q)\<bar> < int LB ^ i"
proof -
  let ?n = "bigint_val (numerator q)" and ?d = "bigint_val (denominator q)"
  have d: "0 < ?d" and cop: "coprime ?n ?d" using q by (simp_all add: rational_wf_def)
  have eq: "?n * y = x * ?d" using val d y by (simp add: rational_val_def eq_rat)
  have "?d dvd ?n * y" by (simp add: eq)
  then have "?d dvd y" using cop by (simp add: coprime_dvd_mult_right_iff coprime_commute)
  then have "?d \<le> \<bar>y\<bar>" using y by (simp add: zdvd_imp_le)
  then show "\<bar>?d\<bar> < int LB ^ i" using size(2) d by linarith
  have "?n dvd x * ?d" by (simp flip: eq)
  then have "?n dvd x" using cop by (simp add: coprime_dvd_mult_left_iff)
  then have "\<bar>?n\<bar> \<le> \<bar>x\<bar>" using eq y d by (cases "x = 0") (simp_all add: dvd_imp_le_int del: abs_bigint_val)
  then show "\<bar>?n\<bar> < int LB ^ i" using size(1) by linarith
qed

lemma integral_decimal_size:
  assumes n: "decimal_wf n" "decimal_val n = of_int z" and z: "\<bar>z\<bar> < int LB ^ i"
  shows "bsize (coefficient n) \<le> i"
proof -
  let ?c = "bigint_val (coefficient n)" and ?s = "scale n"
  have "\<bar>?c\<bar> \<le> \<bar>z\<bar>"
  proof (cases "0 < ?s")
    case True
    have "(of_int ?c :: rat) = of_int z * 10 powi ?s"
      using n(2) by (simp add: decimal_val_def power_int_minus field_simps)
    then have "(of_int ?c :: rat) = of_int (z * 10 ^ nat ?s)" using True by (simp add: power_int_def)
    then have c: "?c = z * 10 ^ nat ?s" by (simp only: of_int_eq_iff)
    have "(10 :: int) dvd 10 ^ nat ?s" using True by (intro dvd_power) simp
    then have "10 dvd ?c" unfolding c by simp
    then have "?c = 0" using n(1) by (auto simp: decimal_wf_def split: if_splits)
    then show ?thesis by simp
  next
    case False
    then have "(of_int z :: rat) = of_int (?c * 10 ^ nat (- ?s))"
      using n(2) by (simp add: decimal_val_def power_int_def)
    then have "z = ?c * 10 ^ nat (- ?s)" by (simp only: of_int_eq_iff)
    then have "\<bar>z\<bar> = \<bar>?c\<bar> * 10 ^ nat (- ?s)" by (simp add: abs_mult del: abs_bigint_val)
    moreover have "\<bar>?c\<bar> * 1 \<le> \<bar>?c\<bar> * 10 ^ nat (- ?s)" by (intro mult_left_mono) simp_all
    ultimately show ?thesis by simp
  qed
  then show ?thesis using holds_int_size [OF decimal_wfD(1) [OF n(1)], of i] z by linarith
qed

lemma digit_count_size: "digit_count n \<le> 64 * bsize (coefficient n) + 1"
proof (cases "bigint_mag (coefficient n) = 0")
  case True
  then show ?thesis by (simp add: numeral_digits.simps)
next
  case False
  let ?m = "bigint_mag (coefficient n)"
  have "(2 :: nat) ^ (digit_count n - 1) \<le> 10 ^ (digit_count n - 1)" by (rule power_mono) simp_all
  also have "\<dots> \<le> ?m" by (rule digit_count_bounds(1) [OF False])
  also have "\<dots> < 2 ^ (64 * bsize (coefficient n))" using mag_less [of "limbs (coefficient n)"] by (simp add: LB_def power_mult)
  finally show ?thesis by simp
qed

text \<open>The room the way back needs, from the sizes of the coefficient and of the power of ten of its scale.\<close>

definition round_trip_fits :: "BigDecimal \<Rightarrow> bool" where
  "round_trip_fits v \<longleftrightarrow> (let n = bsize (coefficient v) + ten_limbs (nat \<bar>scale v\<bar>) in ten_fits (64 * n) (2 * n + 1))"

lemma fraction_form:
  assumes "n = bsize (coefficient v) + ten_limbs (nat \<bar>scale v\<bar>)"
  obtains x y where "decimal_val v = Fract x y" "y \<noteq> 0" "\<bar>x\<bar> < int LB ^ n" "\<bar>y\<bar> < int LB ^ n"
proof (cases "0 < scale v")
  case True
  let ?c = "bigint_val (coefficient v)" and ?e = "nat \<bar>scale v\<bar>"
  have pw: "(10 :: rat) powi scale v = of_int (10 ^ ?e)" using powi_nat [of "scale v"] True by simp
  show ?thesis
  proof (rule that [of ?c "10 ^ ?e"])
    show "decimal_val v = Fract ?c (10 ^ ?e)"
      unfolding decimal_val_def Fract_of_int_quotient power_int_minus_divide using pw by simp
    show "\<bar>?c\<bar> < int LB ^ n"
      by (rule less_le_trans [OF bigint_val_size power_increasing]) (simp_all add: assms LB_def)
    have "\<bar>10 ^ ?e\<bar> < int LB ^ ten_limbs ?e" unfolding power_abs abs_numeral by (rule ten_limbs)
    also have "\<dots> \<le> int LB ^ n" by (rule power_increasing) (simp_all add: assms LB_def)
    finally show "\<bar>10 ^ ?e\<bar> < int LB ^ n" .
  qed simp
next
  case False
  let ?c = "bigint_val (coefficient v)" and ?e = "nat \<bar>scale v\<bar>"
  have n: "0 < n" by (simp add: assms ten_limbs_def)
  show ?thesis
  proof (rule that [of "?c * 10 ^ ?e" 1])
    show "decimal_val v = Fract (?c * 10 ^ ?e) 1"
      using False by (simp add: decimal_val_def Fract_of_int_quotient power_int_def)
    show "\<bar>?c * 10 ^ ?e\<bar> < int LB ^ n"
      unfolding assms by (rule size_mult [OF bigint_val_size]) (unfold power_abs abs_numeral, rule ten_limbs)
    show "\<bar>1\<bar> < int LB ^ n" using n one_less_power [of "int LB" n] by (simp add: LB_def)
  qed simp
qed

lemma round_trip_room:
  assumes q: "rational_wf q" "rational_val q = decimal_val v"
    and n: "decimal_wf n" "decimal_val n = of_int (bigint_val (numerator q))"
    and m: "decimal_wf m" "decimal_val m = of_int (bigint_val (denominator q))" and fits: "round_trip_fits v"
  shows "exact_fits n m t" "\<not> exact_overflow n m k"
proof -
  define N where "N = bsize (coefficient v) + ten_limbs (nat \<bar>scale v\<bar>)"
  have room: "ten_fits (64 * N) (2 * N + 1)" using fits by (simp add: round_trip_fits_def N_def)
  then have small: "64 * int N + 1 \<le> INT64_MAX"
    by (simp add: ten_fits_def ten_limbs_def BIGINT_MAX_LIMBS_def SIZE_MAX_def INT64_MAX_def)
  obtain x y where xy: "decimal_val v = Fract x y" "y \<noteq> 0" "\<bar>x\<bar> < int LB ^ N" "\<bar>y\<bar> < int LB ^ N"
    using fraction_form [OF N_def] .
  note sizes = reduced_size [OF q(1) q(2) [unfolded xy(1)] xy(2-4)]
  have s: "bsize (coefficient n) \<le> N" "bsize (coefficient m) \<le> N"
    by (rule integral_decimal_size [OF n sizes(1)] integral_decimal_size [OF m sizes(2)])+
  have val: "decimal_val n / decimal_val m = decimal_val v"
    unfolding n m q(2) [symmetric] rational_val_def Fract_of_int_quotient ..
  have "ten_fits (64 * bsize (coefficient m)) (bsize (coefficient n) + bsize (coefficient m) + 1)"
    using room s by (elim ten_fits_mono) simp_all
  then show "exact_fits n m t" by (simp add: exact_fits_def val decimal_is_finite)
  have "int (digit_count n) \<le> INT64_MAX" "64 * int (bsize (coefficient m)) \<le> INT64_MAX"
    using digit_count_size [of n] s small by linarith+
  then show "\<not> exact_overflow n m k" by (simp add: exact_overflow_def val decimal_is_finite)
qed

section \<open>Properties\<close>

text \<open>C22: Powers with a non-negative exponent are exact and canonical, \<open>0^0\<close> being one; a negative exponent is
  rejected. The loop ends after one round per bit of the exponent. The scale overflows only when no object can
  hold the power: a number in between is then a smaller power, and those are representable whenever the result
  is. On failure the destination is unchanged.\<close>

theorem bigdecimal_pow_correct:
  assumes "\<not> stuck s" "decimal_wf b" "bigint_wf ex"
  shows "case run_state (bigdecimal_pow r b ex) s of ((st, r'), s') \<Rightarrow> \<not> stuck s' \<and>
    (if bigint_val ex < 0 then st = BIGDECIMAL_INVALID_ARGUMENT \<and> r' = r
     else doutcome (unlimited s) (pow_fits b (nat (bigint_val ex))) (\<not> decimal_representable (decimal_val b ^ nat (bigint_val ex))) st
       (decimal_wf r' \<and> decimal_val r' = decimal_val b ^ nat (bigint_val ex)) (r' = r))"
proof -
  have "holds_int ex (bigint_val ex)" using assms(3) by (simp add: holds_int_def)
  then show ?thesis
    by (intro rspec_run2 [OF _ assms(1)] decimal_pow_wp [OF assms(2)]) (unfold prod.case)
qed

theorem bigdecimal_pow_correct_witness:
  "case run_state (bigdecimal_pow (example_decimal 5 2) (example_decimal 12 1) (bigint_wrap_uint64 2)) idle_runtime of
    ((st, r'), s') \<Rightarrow> st = BIGDECIMAL_OK \<and> decimal_wf r' \<and> decimal_val r' = 36 / 25"
proof -
  have "int (144 :: nat) < int (LB ^ (BIGINT_MAX_LIMBS div 2))"
  proof (subst of_nat_less_iff)
    have "(144 :: nat) < LB ^ 1" by (simp add: LB_def)
    also have "\<dots> \<le> LB ^ (BIGINT_MAX_LIMBS div 2)" by (intro power_increasing) (simp_all add: max_limbs_numeral LB_def)
    finally show "(144 :: nat) < LB ^ (BIGINT_MAX_LIMBS div 2)" .
  qed
  then have fits: "pow_fits (example_decimal 12 1) 2" by (simp add: pow_fits_def example_decimal_def)
  have "decimal_wf (example_decimal 144 2)" "decimal_val (example_decimal 144 2) = 36 / 25"
    by (simp_all add: example_decimal_def decimal_wf_def decimal_val_def in_i64_def INT64_MIN_def INT64_MAX_def power_int_minus)
  then have rep: "decimal_representable (36 / 25)" unfolding decimal_representable_def by blast
  show ?thesis
    using bigdecimal_pow_correct [of idle_runtime "example_decimal 12 1" "bigint_wrap_uint64 2" "example_decimal 5 2"] fits rep
    by (auto simp: doutcome_def example_decimals power2_eq_square split: prod.splits if_splits)
qed

text \<open>C23: A decimal turned into a fraction and back is the same decimal, limbs, sign and scale, whatever the number
  of digits and the rounding mode asked for: the division the second conversion makes is exact. In an unlimited run
  the round trip succeeds whenever there is room for the power of ten of the scale and the powers that clear the
  denominator (\<open>round_trip_fits\<close>), and then no scale overflows, in no run. A failure leaves the destination alone.\<close>

theorem decimal_fraction_round_trip:
  assumes "\<not> stuck s" "decimal_wf v" "1 \<le> k" "in_i64 k" "bigdecimal_valid_rounding mode"
  shows "case run_state (do {
      (st, q) \<leftarrow> bigrational_from_bigdecimal q v;
      if st = BIGRATIONAL_OK then bigrational_to_bigdecimal x q k mode else State_Monad.return (st, x) }) s of
    ((st, x'), s') \<Rightarrow> \<not> stuck s' \<and>
      conversion_outcome (unlimited s) (round_trip_fits v) (\<not> round_trip_fits v) st
        (limbs (coefficient x') = limbs (coefficient v) \<and> is_negative (coefficient x') = is_negative (coefficient v) \<and>
         scale x' = scale v) (x' = x)"
proof (rule rspec_run2 [OF _ assms(1)], rule triple_bind, rule from_bigdecimal_wp [OF assms(2)], unfold prod.case, rule triple_if, goal_cases)
  case (1 st q')
  then have q: "rational_wf q'" "rational_val q' = decimal_val v" by simp_all
  obtain d where d: "rational_val q' = 0 \<or> decade d (rational_val q')" unfolding q using decade_val by blast
  have X: "quotient_value mode (k - 1 - d) (decimal_val v) = decimal_val v" by (simp add: quotient_value_def decimal_is_finite)
  have rep: "decimal_representable (decimal_val v)" using assms(2) by (auto simp: decimal_representable_def)
  show ?case
  proof (rule to_bigdecimal_wp [OF q(1) assms(3-5) d, where F = "round_trip_fits v" and ov = "\<not> round_trip_fits v"],
      unfold q(2) prod.case X, goal_cases)
    case (1 n m)
    then show ?case using round_trip_room [OF q 1] rep by blast
  next
    case (2 st x')
    then show ?case using decimal_val_inj [OF _ assms(2)] by (auto elim!: conversion_outcome_mono)
  qed
next
  case (2 st q')
  have "round_trip_fits v \<Longrightarrow> ten_fits (nat \<bar>scale v\<bar>) (bsize (coefficient v))"
    using dividend_less_times_div [of 19 "nat \<bar>scale v\<bar>"] by (simp add: round_trip_fits_def ten_fits_def ten_limbs_def Let_def)
  with 2 show ?case by (intro triple_return) (auto simp: routcome_def conversion_outcome_def)
qed

theorem decimal_fraction_round_trip_witness:
  "case run_state (do {
      (st, q) \<leftarrow> bigrational_from_bigdecimal \<lparr>numerator = bigint_init, denominator = bigint_wrap_uint64 1\<rparr> (example_decimal 12 1);
      if st = BIGRATIONAL_OK then bigrational_to_bigdecimal (example_decimal 5 2) q 1 BIGDECIMAL_ROUND_FLOOR
      else State_Monad.return (st, example_decimal 5 2) }) idle_runtime of
    ((st, x'), s') \<Rightarrow> st = BIGRATIONAL_OK \<and> limbs (coefficient x') = [12] \<and> \<not> is_negative (coefficient x') \<and> scale x' = 1"
proof -
  have fits: "round_trip_fits (example_decimal 12 1)"
    by (simp add: round_trip_fits_def ten_fits_def ten_limbs_def example_decimal_def bsize_wrap_uint64 max_limbs_numeral SIZE_MAX_def)
  have parts: "limbs (coefficient (example_decimal 12 1)) = [12]" "\<not> is_negative (coefficient (example_decimal 12 1))"
    "scale (example_decimal 12 1) = 1" by (simp_all add: example_decimal_def bigint_wrap_uint64_def)
  have "in_i64 1" "bigdecimal_valid_rounding BIGDECIMAL_ROUND_FLOOR"
    by (simp_all add: in_i64_def INT64_MIN_def INT64_MAX_def bigdecimal_valid_rounding_def)
  from decimal_fraction_round_trip [where s = idle_runtime and v = "example_decimal 12 1" and k = 1 and
      mode = BIGDECIMAL_ROUND_FLOOR and q = "\<lparr>numerator = bigint_init, denominator = bigint_wrap_uint64 1\<rparr>" and
      x = "example_decimal 5 2", OF _ example_decimals(1) _ this]
  show ?thesis by (auto simp: conversion_outcome_def fits parts split: prod.splits if_splits)
qed

end
