(* ===== verification/Unit_Catalog.thy ===== *)
theory Unit_Catalog
  imports Decimal_Operations
begin

text \<open>
  Units of measure, \<^verbatim>\<open>src/modules/units/units.c\<close>: lookup in the catalogue and exact conversion of
  fractions. The table of units is generated and a parameter, the argument \<open>units\<close> of the definitions; what
  the code relies on is \<open>catalog_ok\<close>. Strings are lists of bytes.
\<close>

section \<open>The catalogue\<close>

datatype NumForgeUnitQuantity =
    NUMFORGE_UNIT_LENGTH | NUMFORGE_UNIT_AREA | NUMFORGE_UNIT_VOLUME
  | NUMFORGE_UNIT_MASS | NUMFORGE_UNIT_TIME | NUMFORGE_UNIT_SPEED
  | NUMFORGE_UNIT_TEMPERATURE | NUMFORGE_UNIT_TEMPERATURE_INTERVAL
  | NUMFORGE_UNIT_INFORMATION | NUMFORGE_UNIT_ANGLE

datatype NumForgeUnitStatus =
    NUMFORGE_UNIT_OK
  | NUMFORGE_UNIT_NULL_ARGUMENT
  | NUMFORGE_UNIT_UNKNOWN_UNIT
  | NUMFORGE_UNIT_INCOMPATIBLE_UNITS
  | NUMFORGE_UNIT_INVALID_ARGUMENT
  | NUMFORGE_UNIT_OUT_OF_MEMORY
  | NUMFORGE_UNIT_VALUE_TOO_LARGE
  | NUMFORGE_UNIT_SCALE_OVERFLOW
  | NUMFORGE_UNIT_NON_RATIONAL_CONVERSION

record NumForgeUnitInfo =
  unit_id :: string
  unit_symbol :: string
  unit_quantity :: NumForgeUnitQuantity
  unit_name_en :: string
  unit_name_sk :: string
  unit_source_url :: string
  pi_power :: int

record UnitDefinition =
  unit_info :: NumForgeUnitInfo
  unit_sn :: string
  unit_sd :: string
  unit_on :: string
  unit_od :: string

definition numforge_unit_count :: "UnitDefinition list \<Rightarrow> nat" where
  "numforge_unit_count units = length units"

definition numforge_unit_at :: "UnitDefinition list \<Rightarrow> nat \<Rightarrow> NumForgeUnitInfo option" where
  "numforge_unit_at units index = (if index < numforge_unit_count units then Some (unit_info (units ! index)) else None)"

primrec find_unit :: "UnitDefinition list \<Rightarrow> string \<Rightarrow> UnitDefinition option" where
  "find_unit [] name = None"
| "find_unit (u # units) name = (if name = unit_id (unit_info u) then Some u else find_unit units name)"

definition numforge_unit_find :: "UnitDefinition list \<Rightarrow> string \<Rightarrow> NumForgeUnitInfo option" where
  "numforge_unit_find units name = map_option unit_info (find_unit units name)"

definition numforge_units_compatible :: "UnitDefinition list \<Rightarrow> string \<Rightarrow> string \<Rightarrow> bool" where
  "numforge_units_compatible units from to = (case (find_unit units from, find_unit units to) of
     (Some a, Some b) \<Rightarrow> unit_quantity (unit_info a) = unit_quantity (unit_info b) | _ \<Rightarrow> False)"

definition numforge_unit_conversion_is_exact :: "UnitDefinition list \<Rightarrow> string \<Rightarrow> string \<Rightarrow> bool" where
  "numforge_unit_conversion_is_exact units from to = (case (find_unit units from, find_unit units to) of
     (Some a, Some b) \<Rightarrow> unit_quantity (unit_info a) = unit_quantity (unit_info b) \<and> pi_power (unit_info a) = pi_power (unit_info b)
   | _ \<Rightarrow> False)"

definition numforge_unit_status_to_string :: "NumForgeUnitStatus \<Rightarrow> string" where
  "numforge_unit_status_to_string status = (case status of
      NUMFORGE_UNIT_OK \<Rightarrow> ''success''
    | NUMFORGE_UNIT_NULL_ARGUMENT \<Rightarrow> ''null argument''
    | NUMFORGE_UNIT_UNKNOWN_UNIT \<Rightarrow> ''unknown unit''
    | NUMFORGE_UNIT_INCOMPATIBLE_UNITS \<Rightarrow> ''incompatible units''
    | NUMFORGE_UNIT_INVALID_ARGUMENT \<Rightarrow> ''invalid argument''
    | NUMFORGE_UNIT_OUT_OF_MEMORY \<Rightarrow> ''out of memory''
    | NUMFORGE_UNIT_VALUE_TOO_LARGE \<Rightarrow> ''value too large''
    | NUMFORGE_UNIT_SCALE_OVERFLOW \<Rightarrow> ''scale overflow''
    | NUMFORGE_UNIT_NON_RATIONAL_CONVERSION \<Rightarrow> ''conversion requires pi approximation'')"

section \<open>Exact conversion\<close>

fun map_status :: "BigRationalStatus \<Rightarrow> NumForgeUnitStatus" where
  "map_status BIGRATIONAL_OK = NUMFORGE_UNIT_OK"
| "map_status BIGRATIONAL_NULL_ARGUMENT = NUMFORGE_UNIT_NULL_ARGUMENT"
| "map_status BIGRATIONAL_OUT_OF_MEMORY = NUMFORGE_UNIT_OUT_OF_MEMORY"
| "map_status BIGRATIONAL_VALUE_TOO_LARGE = NUMFORGE_UNIT_VALUE_TOO_LARGE"
| "map_status BIGRATIONAL_SCALE_OVERFLOW = NUMFORGE_UNIT_SCALE_OVERFLOW"
| "map_status _ = NUMFORGE_UNIT_INVALID_ARGUMENT"

definition set_coefficient :: "BigRational \<Rightarrow> string \<Rightarrow> string \<Rightarrow> (BigRationalStatus \<times> BigRational) rt" where
  "set_coefficient result num den = do {
     n \<leftarrow> bigint_create;
     d \<leftarrow> bigint_create;
     case (n, d) of
       (Some n, Some d) \<Rightarrow> do {
         (ns, n) \<leftarrow> bigint_set_string n num;
         (ds, d) \<leftarrow> bigint_set_string d den;
         if ns = BIGINT_OK \<and> ds = BIGINT_OK then bigrational_set_fraction result n d
         else State_Monad.return (BIGRATIONAL_OUT_OF_MEMORY, result)
       }
     | _ \<Rightarrow> State_Monad.return (BIGRATIONAL_OUT_OF_MEMORY, result)
   }"

text \<open>One step of the affine map: the coefficient is read from its texts and the operation applied to it,
  unless an earlier step failed.\<close>

definition apply_coefficient ::
  "BigRationalStatus \<Rightarrow> (BigRational \<Rightarrow> BigRational \<Rightarrow> BigRational \<Rightarrow> (BigRationalStatus \<times> BigRational) rt) \<Rightarrow> BigRational \<Rightarrow>
    BigRational \<Rightarrow> BigRational \<Rightarrow> string \<Rightarrow> string \<Rightarrow> (BigRationalStatus \<times> BigRational \<times> BigRational) rt" where
  "apply_coefficient status operation work operand coeff num den = do {
     (status, coeff) \<leftarrow> (if status = BIGRATIONAL_OK then set_coefficient coeff num den
       else State_Monad.return (status, coeff));
     (status, work) \<leftarrow> (if status = BIGRATIONAL_OK then operation work operand coeff
       else State_Monad.return (status, work));
     State_Monad.return (status, work, coeff)
   }"

text \<open>\<open>same\<close> says whether \<^verbatim>\<open>result == value\<close>. Entries of the table are equal as
  pointers when the identifiers are.\<close>

definition convert_coefficients ::
  "UnitDefinition list \<Rightarrow> bool \<Rightarrow> BigRational \<Rightarrow> BigRational \<Rightarrow> string \<Rightarrow> string \<Rightarrow> (NumForgeUnitStatus \<times> BigRational) rt" where
  "convert_coefficients units same result value from to =
    (case find_unit units from of
       None \<Rightarrow> State_Monad.return (NUMFORGE_UNIT_UNKNOWN_UNIT, result)
     | Some a \<Rightarrow>
         (case find_unit units to of
            None \<Rightarrow> State_Monad.return (NUMFORGE_UNIT_UNKNOWN_UNIT, result)
          | Some b \<Rightarrow>
              if unit_quantity (unit_info a) \<noteq> unit_quantity (unit_info b)
              then State_Monad.return (NUMFORGE_UNIT_INCOMPATIBLE_UNITS, result)
              else if from = to then do {
                (status, result) \<leftarrow> bigrational_copy same result value;
                State_Monad.return (map_status status, result)
              }
              else do {
                work \<leftarrow> bigrational_create;
                coeff \<leftarrow> bigrational_create;
                case (work, coeff) of
                  (Some work, Some coeff) \<Rightarrow> do {
                    (status, work, coeff) \<leftarrow> apply_coefficient BIGRATIONAL_OK bigrational_mul work value coeff (unit_sn a) (unit_sd a);
                    (status, work, coeff) \<leftarrow> apply_coefficient status bigrational_add work work coeff (unit_on a) (unit_od a);
                    (status, work, coeff) \<leftarrow> apply_coefficient status bigrational_sub work work coeff (unit_on b) (unit_od b);
                    (status, work, coeff) \<leftarrow> apply_coefficient status bigrational_div work work coeff (unit_sn b) (unit_sd b);
                    (status, result) \<leftarrow> (if status = BIGRATIONAL_OK then bigrational_copy False result work
                      else State_Monad.return (status, result));
                    State_Monad.return (map_status status, result)
                  }
                | _ \<Rightarrow> State_Monad.return (NUMFORGE_UNIT_OUT_OF_MEMORY, result)
              }))"

definition numforge_unit_convert_rational ::
  "UnitDefinition list \<Rightarrow> bool \<Rightarrow> BigRational \<Rightarrow> BigRational \<Rightarrow> string \<Rightarrow> string \<Rightarrow> (NumForgeUnitStatus \<times> BigRational) rt" where
  "numforge_unit_convert_rational units same result value from to =
    (case find_unit units from of
       None \<Rightarrow> State_Monad.return (NUMFORGE_UNIT_UNKNOWN_UNIT, result)
     | Some a \<Rightarrow>
         (case find_unit units to of
            None \<Rightarrow> State_Monad.return (NUMFORGE_UNIT_UNKNOWN_UNIT, result)
          | Some b \<Rightarrow>
              if unit_quantity (unit_info a) \<noteq> unit_quantity (unit_info b)
              then State_Monad.return (NUMFORGE_UNIT_INCOMPATIBLE_UNITS, result)
              else if pi_power (unit_info a) \<noteq> pi_power (unit_info b)
              then State_Monad.return (NUMFORGE_UNIT_NON_RATIONAL_CONVERSION, result)
              else convert_coefficients units same result value from to))"

section \<open>What the catalogue promises\<close>

text \<open>The coefficients are integers in decimal, none of more than five limbs (the longest in the generated
  table has 91 digits), scales are not zero and denominators are not either.\<close>

definition coefficient_ok :: "string \<Rightarrow> bool" where
  "coefficient_ok cs \<longleftrightarrow> is_numeral 10 cs \<and> \<bar>numeral_value 10 cs\<bar> < int LB ^ 5"

definition catalog_ok :: "UnitDefinition list \<Rightarrow> bool" where
  "catalog_ok units \<longleftrightarrow> list_all (\<lambda>a. coefficient_ok (unit_sn a) \<and> coefficient_ok (unit_sd a) \<and>
     coefficient_ok (unit_on a) \<and> coefficient_ok (unit_od a) \<and>
     numeral_value 10 (unit_sn a) \<noteq> 0 \<and> numeral_value 10 (unit_sd a) \<noteq> 0 \<and> numeral_value 10 (unit_od a) \<noteq> 0) units"

definition unit_scale :: "UnitDefinition \<Rightarrow> rat" where
  "unit_scale a = Fract (numeral_value 10 (unit_sn a)) (numeral_value 10 (unit_sd a))"

definition unit_shift :: "UnitDefinition \<Rightarrow> rat" where
  "unit_shift a = Fract (numeral_value 10 (unit_on a)) (numeral_value 10 (unit_od a))"

lemma find_unit_Some: "find_unit units name = Some a \<Longrightarrow> a \<in> set units \<and> unit_id (unit_info a) = name"
  by (induction units) (auto split: if_splits)

lemma find_unit_same: "find_unit units from = Some a \<Longrightarrow> find_unit units to = Some b \<Longrightarrow> a = b \<longleftrightarrow> from = to"
  by (metis find_unit_Some option.inject)

section \<open>Sizes of fractions\<close>

definition limbs_below :: "nat \<Rightarrow> BigRational \<Rightarrow> bool" where
  "limbs_below n q \<longleftrightarrow> \<bar>bigint_val (numerator q)\<bar> < int LB ^ n \<and> \<bar>bigint_val (denominator q)\<bar> < int LB ^ n"

lemma below_size: "rational_wf q \<Longrightarrow> limbs_below n q \<Longrightarrow> rational_size q \<le> 2 * n"
  using holds_int_size [of "numerator q" _ n] holds_int_size [of "denominator q" _ n]
  by (force simp: limbs_below_def rational_size_def dest: rational_wfD)

lemma below_Fract:
  assumes q: "rational_wf q" "rational_val q = Fract x y" and y: "y \<noteq> 0" and "\<bar>x\<bar> < int LB ^ n" "\<bar>y\<bar> < int LB ^ n"
  shows "limbs_below n q"
proof -
  define N D where ND: "N = bigint_val (numerator q)" "D = bigint_val (denominator q)"
  have D: "0 < D" and cop: "coprime N D" using q(1) by (simp_all add: rational_wf_def ND)
  have eq: "N * y = x * D" using q(2) y D by (simp add: rational_val_def eq_rat ND)
  have "N dvd x" using cop eq by (metis coprime_dvd_mult_left_iff dvd_triv_left)
  moreover have "D dvd y" using cop eq by (metis coprime_commute coprime_dvd_mult_right_iff dvd_triv_right)
  moreover have "x = 0 \<longleftrightarrow> N = 0" using eq y D by auto
  ultimately have "\<bar>N\<bar> \<le> \<bar>x\<bar>" "\<bar>D\<bar> \<le> \<bar>y\<bar>"
    using y dvd_imp_le_int [of x N] dvd_imp_le_int [of y D] by auto
  with assms(4,5) show ?thesis unfolding limbs_below_def ND [symmetric] by linarith
qed

lemma below_mono:
  assumes "limbs_below m q" "m \<le> n"
  shows "limbs_below n q"
  using assms size_mono [OF _ assms(2)] unfolding limbs_below_def by blast

lemma below_product:
  assumes p: "rational_wf p" "limbs_below m p" and q: "rational_wf q" "limbs_below n q"
    and r: "rational_wf r" "rational_val r = rational_val p * rational_val q"
  shows "limbs_below (m + n) r"
proof -
  define A B C D where vals: "A = bigint_val (numerator p)" "B = bigint_val (denominator p)"
    "C = bigint_val (numerator q)" "D = bigint_val (denominator q)"
  have pos: "B \<noteq> 0" "D \<noteq> 0" using p(1) q(1) by (auto simp: rational_wf_def vals)
  have size: "\<bar>A\<bar> < int LB ^ m" "\<bar>B\<bar> < int LB ^ m" "\<bar>C\<bar> < int LB ^ n" "\<bar>D\<bar> < int LB ^ n"
    using p(2) q(2) by (simp_all add: limbs_below_def vals)
  have "rational_val r = Fract (A * C) (B * D)"
    using r(2) by (simp add: rational_val_def vals [symmetric])
  with below_Fract [OF r(1) _ _ size_mult [OF size(1,3)] size_mult [OF size(2,4)]] pos show ?thesis by simp
qed

lemma below_sum:
  assumes p: "rational_wf p" "limbs_below m p" and q: "rational_wf q" "limbs_below n q"
    and r: "rational_wf r" "rational_val r = (if subtracting then rational_val p - rational_val q else rational_val p + rational_val q)"
  shows "limbs_below (Suc (m + n)) r"
proof -
  define A B C D where vals: "A = bigint_val (numerator p)" "B = bigint_val (denominator p)"
    "C = bigint_val (numerator q)" "D = bigint_val (denominator q)"
  let ?x = "if subtracting then A * D - C * B else A * D + C * B"
  have pos: "B \<noteq> 0" "D \<noteq> 0" using p(1) q(1) by (auto simp: rational_wf_def vals)
  have size: "\<bar>A\<bar> < int LB ^ m" "\<bar>B\<bar> < int LB ^ m" "\<bar>C\<bar> < int LB ^ n" "\<bar>D\<bar> < int LB ^ n"
    using p(2) q(2) by (simp_all add: limbs_below_def vals)
  note AD = size_mult [OF size(1,4)] and CB = size_mult [OF size(3,2), unfolded add.commute [of n]]
    and BD = size_mult [OF size(2,4)]
  have "\<bar>?x\<bar> < int LB ^ Suc (m + n)" using size_add [OF AD CB] by simp
  moreover have "\<bar>B * D\<bar> < int LB ^ Suc (m + n)" by (rule size_mono [OF BD]) simp
  moreover have "rational_val r = Fract ?x (B * D)"
    using r(2) pos by (auto simp: rational_val_def vals [symmetric] mult.commute)
  ultimately show ?thesis using below_Fract [OF r(1)] pos by (metis mult_eq_0_iff)
qed

lemma below_quotient:
  assumes p: "rational_wf p" "limbs_below m p" and q: "rational_wf q" "limbs_below n q" "rational_val q \<noteq> 0"
    and r: "rational_wf r" "rational_val r = rational_val p / rational_val q"
  shows "limbs_below (m + n) r"
proof -
  define A B C D where vals: "A = bigint_val (numerator p)" "B = bigint_val (denominator p)"
    "C = bigint_val (numerator q)" "D = bigint_val (denominator q)"
  have pos: "B \<noteq> 0" "D \<noteq> 0" "C \<noteq> 0" using p(1) q(1,3) by (auto simp: rational_wf_def rational_val_def vals rat_number_collapse)
  have size: "\<bar>A\<bar> < int LB ^ m" "\<bar>B\<bar> < int LB ^ m" "\<bar>C\<bar> < int LB ^ n" "\<bar>D\<bar> < int LB ^ n"
    using p(2) q(2) by (simp_all add: limbs_below_def vals)
  have "rational_val r = Fract (A * D) (B * C)"
    using r(2) by (simp add: rational_val_def vals [symmetric])
  with below_Fract [OF r(1) _ _ size_mult [OF size(1,4)] size_mult [OF size(2,3)]] pos show ?thesis by simp
qed

section \<open>The conversion is exact\<close>

lemma coefficient_wp:
  assumes c: "coefficient_ok num" "coefficient_ok den" and nz: "numeral_value 10 den \<noteq> 0"
    and Q: "\<And>st r'. routcome u True st (rational_wf r' \<and> limbs_below 5 r' \<and>
      rational_val r' = Fract (numeral_value 10 num) (numeral_value 10 den)) (r' = r) \<Longrightarrow> Q (st, r')"
  shows "rspec u (set_coefficient r num den) Q"
proof -
  let ?x = "numeral_value 10 num" and ?y = "numeral_value 10 den"
  have n: "is_numeral 10 num" "\<bar>?x\<bar> < int LB ^ 5" and d: "is_numeral 10 den" "\<bar>?y\<bar> < int LB ^ 5"
    using c by (simp_all add: coefficient_ok_def)
  have mag: "numeral_mag 10 cs < LB ^ (BIGINT_MAX_LIMBS - 1)" if "\<bar>numeral_value 10 cs\<bar> < int LB ^ 5" for cs
  proof -
    have "int (numeral_mag 10 cs) < int LB ^ 5" using that by (simp add: numeral_value_def split: if_splits)
    then have "numeral_mag 10 cs < LB ^ 5" by (metis of_nat_less_iff of_nat_power)
    also have "\<dots> \<le> LB ^ (BIGINT_MAX_LIMBS - 1)" by (intro power_increasing) (simp_all add: max_limbs_numeral LB_def)
    finally show ?thesis .
  qed
  have oom: "rspec u (State_Monad.return (BIGRATIONAL_OUT_OF_MEMORY, r)) Q" if "\<not> u"
    using that by (intro triple_return Q) simp
  have parsed: "(st = BIGINT_OK \<longrightarrow> holds_int v (numeral_value 10 cs)) \<and> (st \<noteq> BIGINT_OK \<longrightarrow> \<not> u)"
    if "if is_numeral 10 cs then result_ok u (numeral_mag 10 cs < LB ^ (BIGINT_MAX_LIMBS - 1)) v' (numeral_value 10 cs) st v else X"
      "is_numeral 10 cs" "\<bar>numeral_value 10 cs\<bar> < int LB ^ 5" for st v v' cs X
    using that mag [OF that(3)] by (auto simp: result_ok_def outcome_def holds_int_def resource_failure_def)
  have done1: "Q (st, r')" if a: "holds_int a ?x" and b: "holds_int b ?y"
    and r: "if ?y = 0 then st = BIGRATIONAL_DIVISION_BY_ZERO \<and> r' = r
      else routcome u (Suc (max (bsize a) (bsize b)) \<le> BIGINT_MAX_LIMBS) st (rational_wf r' \<and> rational_val r' = Fract ?x ?y) (r' = r)"
    for a b st r'
  proof (rule Q)
    have "bsize a \<le> 5" "bsize b \<le> 5" using holds_int_size [OF a n(2)] holds_int_size [OF b d(2)] by simp_all
    then have fits: "Suc (max (bsize a) (bsize b)) \<le> BIGINT_MAX_LIMBS" by (simp add: max_limbs_numeral)
    show "routcome u True st (rational_wf r' \<and> limbs_below 5 r' \<and> rational_val r' = Fract ?x ?y) (r' = r)"
      using r nz fits below_Fract [OF _ _ nz n(2) d(2), of r'] by (auto simp: routcome_def)
  qed
  show ?thesis
    unfolding set_coefficient_def
  proof (rule triple_bind, rule create_wp, rule triple_bind, rule create_wp, goal_cases)
    case (1 a b)
    show ?case
    proof (cases "a = None \<or> b = None")
      case True
      with 1 oom show ?thesis by (auto split: option.splits)
    next
      case False
      then obtain a' b' where ab: "a = Some a'" "b = Some b'" by auto
      show ?thesis
        unfolding ab option.case prod.case
      proof (rule triple_bind, rule set_string_wp, unfold prod.case, rule triple_bind, rule set_string_wp, unfold prod.case, rule triple_if, goal_cases)
        case (1 s1 v1 s2 v2)
        with parsed [OF 1(1) n] parsed [OF 1(2) d] have h: "holds_int v1 ?x" "holds_int v2 ?y" by auto
        show ?case by (rule set_fraction_wp [OF h], rule done1 [OF h])
      next
        case (2 s1 v1 s2 v2)
        with parsed [OF 2(1) n] parsed [OF 2(2) d] oom show ?case by auto
      qed
    qed
  qed
qed

lemma apply_coefficient_wp:
  assumes c: "coefficient_ok num" "coefficient_ok den" "numeral_value 10 den \<noteq> 0"
    and st0: "routcome u F st0 G True"
    and op: "\<And>c. G \<Longrightarrow> rational_wf c \<Longrightarrow> limbs_below 5 c \<Longrightarrow> rational_val c = Fract (numeral_value 10 num) (numeral_value 10 den) \<Longrightarrow>
      rspec u (operation work operand c) (\<lambda>(st, w). routcome u F st (good w) True)"
    and Q: "\<And>st w c. routcome u F st (good w) True \<Longrightarrow> Q (st, w, c)"
  shows "rspec u (apply_coefficient st0 operation work operand coeff num den) Q"
proof (cases "st0 = BIGRATIONAL_OK")
  case False
  have "Q (st0, work, coeff)" using st0 False by (intro Q) (simp add: routcome_def)
  with False show ?thesis by (simp add: apply_coefficient_def triple_return)
next
  case True
  with st0 have G: G by simp
  have fail: "Q (st, w, c)" if "routcome u True st A B" "st \<noteq> BIGRATIONAL_OK" for st w c A B
    using that by (intro Q) (auto simp: routcome_def)
  show ?thesis
    unfolding apply_coefficient_def if_P [OF True]
  proof (rule triple_bind, rule coefficient_wp [OF c], unfold prod.case, rule rational_chain, goal_cases)
    case (1 st c)
    then have "rational_wf c" "limbs_below 5 c" "rational_val c = Fract (numeral_value 10 num) (numeral_value 10 den)" by simp_all
    from op [OF G this] show ?case
      by (rule triple_bind [OF triple_conseq]) (auto intro!: triple_return Q)
  next
    case (2 st c)
    from fail [OF 2] show ?case by (simp add: triple_return)
  qed
qed

lemma copy_same_wp:
  assumes q: "rational_wf q" and same: "same \<Longrightarrow> r = q"
    and Q: "\<And>st r'. routcome u True st (rational_wf r' \<and> rational_val r' = rational_val q) (r' = r) \<Longrightarrow> Q (st, r')"
  shows "rspec u (bigrational_copy same r q) Q"
proof (cases same)
  case True
  then have "bigrational_copy same r q = State_Monad.return (BIGRATIONAL_OK, r)" by (simp add: bigrational_copy_def)
  then show ?thesis using Q [of BIGRATIONAL_OK r] q same [OF True] by (simp add: triple_return)
qed (use rational_copy_wp [OF q, of u r Q] Q in simp)

text \<open>What a conversion promises: the value of the affine map, or a resource failure that leaves the result
  object alone.\<close>

definition unit_outcome :: "bool \<Rightarrow> bool \<Rightarrow> NumForgeUnitStatus \<Rightarrow> bool \<Rightarrow> bool \<Rightarrow> bool" where
  "unit_outcome u fits st good bad \<longleftrightarrow>
     (if st = NUMFORGE_UNIT_OK then good
      else (st = NUMFORGE_UNIT_OUT_OF_MEMORY \<or> st = NUMFORGE_UNIT_VALUE_TOO_LARGE) \<and> \<not> (u \<and> fits) \<and> bad)"

lemma unit_outcome_map:
  "routcome u F st good bad \<Longrightarrow> (G \<Longrightarrow> F) \<Longrightarrow> unit_outcome u G (map_status st) good bad"
  by (cases st) (auto simp: routcome_def unit_outcome_def)

definition converted :: "UnitDefinition \<Rightarrow> UnitDefinition \<Rightarrow> rat \<Rightarrow> rat" where
  "converted a b x = (x * unit_scale a + unit_shift a - unit_shift b) / unit_scale b"

definition conversion_fits :: "BigRational \<Rightarrow> bool" where
  "conversion_fits v \<longleftrightarrow> 2 * max (bsize (numerator v)) (bsize (denominator v)) + 45 \<le> BIGINT_MAX_LIMBS"

lemma unit_scale_nonzero:
  assumes "catalog_ok units" "find_unit units name = Some a"
  shows "unit_scale a \<noteq> 0"
proof -
  from find_unit_Some [OF assms(2)] assms(1) have "numeral_value 10 (unit_sn a) \<noteq> 0" "numeral_value 10 (unit_sd a) \<noteq> 0"
    by (auto simp: catalog_ok_def list_all_iff)
  then show ?thesis by (simp add: unit_scale_def Zero_rat_def eq_rat)
qed

lemma converted_same: "unit_scale a \<noteq> 0 \<Longrightarrow> converted a a x = x"
  by (simp add: converted_def)

lemma convert_coefficients_wp:
  assumes v: "rational_wf v" and cat: "catalog_ok units" and same: "same \<Longrightarrow> r = v"
    and ab: "find_unit units from = Some a" "find_unit units to = Some b" "unit_quantity (unit_info a) = unit_quantity (unit_info b)"
    and Q: "\<And>st r'. unit_outcome u (conversion_fits v) st (rational_wf r' \<and> rational_val r' = converted a b (rational_val v)) (r' = r) \<Longrightarrow> Q (st, r')"
  shows "rspec u (convert_coefficients units same r v from to) Q"
proof (cases "from = to")
  case True
  then have [simp]: "b = a" using ab by simp
  have val: "converted a b (rational_val v) = rational_val v"
    using unit_scale_nonzero [OF cat ab(1)] by (simp add: converted_same)
  have fin: "Q (map_status st, r')" if "routcome u True st (rational_wf r' \<and> rational_val r' = rational_val v) (r' = r)" for st r'
    by (rule Q, unfold val, rule unit_outcome_map [OF that]) simp
  have q: "\<not> unit_quantity (unit_info a) \<noteq> unit_quantity (unit_info b)" using ab(3) by simp
  show ?thesis
    unfolding convert_coefficients_def ab(1,2) option.case if_P [OF True] if_not_P [OF q]
    by (rule triple_bind, rule copy_same_wp [OF v same], assumption, unfold prod.case, rule triple_return, rule fin)
next
  case False
  let ?F = "conversion_fits v"
  define n where "n = max (bsize (numerator v)) (bsize (denominator v))"
  have "max (bsize (numerator v)) (bsize (denominator v)) \<le> n" by (simp add: n_def)
  then have vn: "limbs_below n v"
    unfolding limbs_below_def using size_mono [OF bigint_val_size] by simp
  have F: "2 * n + 45 \<le> BIGINT_MAX_LIMBS" if ?F using that by (simp add: conversion_fits_def n_def)
  have ok: "coefficient_ok (unit_sn x)" "coefficient_ok (unit_sd x)" "coefficient_ok (unit_on x)" "coefficient_ok (unit_od x)"
    "numeral_value 10 (unit_sd x) \<noteq> 0" "numeral_value 10 (unit_od x) \<noteq> 0" if "x \<in> {a, b}" for x
    using that find_unit_Some [OF ab(1)] find_unit_Some [OF ab(2)] cat by (auto simp: catalog_ok_def list_all_iff)
  note sb = unit_scale_nonzero [OF cat ab(2)]
  have stop: "Q (map_status st, r)" if "routcome u X st A B" "st \<noteq> BIGRATIONAL_OK" "?F \<Longrightarrow> X" for st A B X
    using that by (intro Q unit_outcome_map [of u X]) (auto simp: routcome_def)
  have oom: "Q (NUMFORGE_UNIT_OUT_OF_MEMORY, r)" if "\<not> u" using that by (intro Q) (simp add: unit_outcome_def)
  have q: "\<not> unit_quantity (unit_info a) \<noteq> unit_quantity (unit_info b)" using ab(3) by simp
  let ?x = "rational_val v"
  define good where "good k y w \<longleftrightarrow> rational_wf w \<and> limbs_below k w \<and> rational_val w = y" for k y w
  have mul: "rspec u (bigrational_mul w v c) (\<lambda>(st, w). routcome u ?F st (good (5 + n) (?x * unit_scale a) w) True)"
    if "rational_wf c" "limbs_below 5 c" "rational_val c = unit_scale a" for w c
    unfolding bigrational_mul_def
    by (rule rational_product_wp [OF v that(1)])
      (use below_size [OF v vn] below_size [OF that(1,2)] F below_product [OF v vn that(1,2), unfolded add.commute [of n 5]] that(3) in
        \<open>auto simp: routcome_def good_def\<close>)
  have sum: "rspec u (rational_sum w w c d) (\<lambda>(st, w). routcome u ?F st (good (Suc (k + 5)) (if d then y - z else y + z) w) True)"
    if "good k y w" "rational_wf c" "limbs_below 5 c" "rational_val c = z" "k \<le> n + 11" for w c d k y z
    by (rule rational_sum_wp [of w c])
      (use that below_size [of w k] below_size [OF that(2,3)] F below_sum [of w k c 5] in
        \<open>auto simp: routcome_def good_def\<close>)
  have quot: "rspec u (bigrational_div w w c) (\<lambda>(st, w). routcome u ?F st (good (22 + n) (y / unit_scale b) w) True)"
    if "good (17 + n) y w" "rational_wf c" "limbs_below 5 c" "rational_val c = unit_scale b" for w c y
    unfolding bigrational_div_def
    by (rule rational_product_wp [of w c])
      (use that below_size [of w "17 + n"] below_size [OF that(2,3)] F below_quotient [of w "17 + n" c 5] sb in
        \<open>auto simp: routcome_def good_def\<close>)
  have step1: "rspec u (apply_coefficient BIGRATIONAL_OK bigrational_mul w v c (unit_sn a) (unit_sd a)) R"
    if "\<And>st w c. routcome u ?F st (good (5 + n) (?x * unit_scale a) w) True \<Longrightarrow> R (st, w, c)" for w c R
    by (rule apply_coefficient_wp [where F = ?F and G = True and good = "good (5 + n) (?x * unit_scale a)"])
      (use ok [of a] mul that in \<open>auto simp: unit_scale_def\<close>)
  have step2: "rspec u (apply_coefficient st bigrational_add w w c (unit_on a) (unit_od a)) R"
    if "routcome u ?F st (good (5 + n) (?x * unit_scale a) w) True"
      "\<And>st w c. routcome u ?F st (good (11 + n) (?x * unit_scale a + unit_shift a) w) True \<Longrightarrow> R (st, w, c)" for st w c R
    unfolding bigrational_add_def
    by (rule apply_coefficient_wp [OF _ _ _ that(1), where good = "good (11 + n) (?x * unit_scale a + unit_shift a)"])
      (use ok [of a] sum [of "5 + n" "?x * unit_scale a" w _ "unit_shift a" False] that(2) in \<open>auto simp: unit_shift_def\<close>)
  have step3: "rspec u (apply_coefficient st bigrational_sub w w c (unit_on b) (unit_od b)) R"
    if "routcome u ?F st (good (11 + n) y w) True"
      "\<And>st w c. routcome u ?F st (good (17 + n) (y - unit_shift b) w) True \<Longrightarrow> R (st, w, c)" for st w c R y
    by (rule apply_coefficient_wp [OF _ _ _ that(1), where good = "good (17 + n) (y - unit_shift b)"])
      (use ok [of b] sum [of "11 + n" y w _ "unit_shift b" True] that(2) in \<open>auto simp: unit_shift_def bigrational_sub_def\<close>)
  have step4: "rspec u (apply_coefficient st bigrational_div w w c (unit_sn b) (unit_sd b)) R"
    if "routcome u ?F st (good (17 + n) y w) True"
      "\<And>st w c. routcome u ?F st (good (22 + n) (y / unit_scale b) w) True \<Longrightarrow> R (st, w, c)" for st w c R y
    by (rule apply_coefficient_wp [OF _ _ _ that(1), where good = "good (22 + n) (y / unit_scale b)"])
      (use ok [of b] quot that(2) in \<open>auto simp: unit_scale_def\<close>)
  show ?thesis
    unfolding convert_coefficients_def ab(1,2) option.case if_not_P [OF q] if_not_P [OF False]
  proof (rule triple_bind, rule rational_create_wp, rule triple_bind, rule rational_create_wp, goal_cases)
    case (1 p q)
    show ?case
    proof (cases "p = None \<or> q = None")
      case True
      with 1 oom show ?thesis by (auto split: option.splits intro: triple_return)
    next
      case False
      then obtain work coeff where pq: "p = Some work" "q = Some coeff" by auto
      show ?thesis
        unfolding pq option.case prod.case
      proof (rule triple_bind, rule step1, unfold prod.case, rule triple_bind, rule step2, assumption, unfold prod.case,
          rule triple_bind, rule step3, assumption, unfold prod.case, rule triple_bind, rule step4, assumption, unfold prod.case,
          rule rational_chain, goal_cases)
        case prems: (1 s1 w1 c1 s2 w2 c2 s3 w3 c3 s4 w4 c4)
        then have w: "rational_wf w4" "rational_val w4 = converted a b ?x" by (simp_all add: good_def converted_def)
        show ?case
          by (rule triple_bind, rule rational_copy_wp [OF w(1)], unfold prod.case, rule triple_return, rule Q,
              unfold w(2), erule unit_outcome_map) simp
      next
        case (2 s1 w1 c1 s2 w2 c2 s3 w3 c3 s4 w4 c4)
        from stop [OF this(4,5)] show ?case by (simp add: triple_return)
      qed
    qed
  qed
qed

lemma convert_rational_wp:
  assumes v: "rational_wf v" and cat: "catalog_ok units" and same: "same \<Longrightarrow> r = v"
    and Q: "\<And>st r'. (case (find_unit units from, find_unit units to) of
        (Some a, Some b) \<Rightarrow>
          if unit_quantity (unit_info a) \<noteq> unit_quantity (unit_info b) then st = NUMFORGE_UNIT_INCOMPATIBLE_UNITS \<and> r' = r
          else if pi_power (unit_info a) \<noteq> pi_power (unit_info b) then st = NUMFORGE_UNIT_NON_RATIONAL_CONVERSION \<and> r' = r
          else unit_outcome u (conversion_fits v) st (rational_wf r' \<and> rational_val r' = converted a b (rational_val v)) (r' = r)
      | _ \<Rightarrow> st = NUMFORGE_UNIT_UNKNOWN_UNIT \<and> r' = r) \<Longrightarrow> Q (st, r')"
  shows "rspec u (numforge_unit_convert_rational units same r v from to) Q"
proof (cases "find_unit units from")
  case None
  then have "Q (NUMFORGE_UNIT_UNKNOWN_UNIT, r)" by (intro Q) simp
  with None show ?thesis by (simp add: numforge_unit_convert_rational_def triple_return)
next
  case a: (Some a)
  show ?thesis
  proof (cases "find_unit units to")
    case None
    with a have "Q (NUMFORGE_UNIT_UNKNOWN_UNIT, r)" by (intro Q) simp
    with a None show ?thesis by (simp add: numforge_unit_convert_rational_def triple_return)
  next
    case b: (Some b)
    note Q' = Q [unfolded a b prod.case option.case]
    show ?thesis
      unfolding numforge_unit_convert_rational_def a b option.case
    proof (intro triple_if, goal_cases)
      case 3
      then show ?case by (intro convert_coefficients_wp [OF v cat same a b] Q') auto
    qed (auto intro!: triple_return Q')
  qed
qed

text \<open>There and back is the identity.\<close>

lemma converted_back:
  assumes "catalog_ok units" "find_unit units from = Some a" "find_unit units to = Some b"
  shows "converted b a (converted a b x) = x"
  using unit_scale_nonzero [OF assms(1,2)] unit_scale_nonzero [OF assms(1,3)] by (simp add: converted_def field_simps)

text \<open>C26: Conversion between units of a catalogue whose coefficients are integers with nonzero scales. Unknown
  identifiers, units of different quantities and pairs whose scales differ by a power of \<open>\<pi>\<close> are
  reported with the result untouched, in this order. Otherwise the result is the exact image of the value under
  the affine map to the canonical unit followed by the inverse of the other one, also when the result object is
  the operand; the map back undoes it. Only resources can fail, and not in an unlimited run for values of
  ordinary size; then the result is kept.\<close>

theorem unit_conversion_correct:
  assumes "\<not> stuck s" "rational_wf v" "catalog_ok units" "same \<Longrightarrow> r = v"
  shows "case run_state (numforge_unit_convert_rational units same r v from to) s of ((st, r'), s') \<Rightarrow> \<not> stuck s' \<and>
    (case (find_unit units from, find_unit units to) of
        (Some a, Some b) \<Rightarrow>
          if unit_quantity (unit_info a) \<noteq> unit_quantity (unit_info b) then st = NUMFORGE_UNIT_INCOMPATIBLE_UNITS \<and> r' = r
          else if pi_power (unit_info a) \<noteq> pi_power (unit_info b) then st = NUMFORGE_UNIT_NON_RATIONAL_CONVERSION \<and> r' = r
          else unit_outcome (unlimited s) (conversion_fits v) st
            (rational_wf r' \<and> rational_val r' = converted a b (rational_val v) \<and>
             converted b a (rational_val r') = rational_val v) (r' = r)
      | _ \<Rightarrow> st = NUMFORGE_UNIT_UNKNOWN_UNIT \<and> r' = r)"
  by (rule rspec_run2 [OF _ assms(1)], rule convert_rational_wp [OF assms(2-4)], assumption, unfold prod.case)
    (auto simp: unit_outcome_def converted_back [OF assms(3)] split: option.splits if_splits)

text \<open>The entries of the generated table for two temperatures and two angles, with shorter addresses of the source.\<close>

definition example_url :: string where
  "example_url = ''https://www.nist.gov/pml''"

definition celsius :: UnitDefinition where
  "celsius = \<lparr>unit_info = \<lparr>unit_id = ''degC'', unit_symbol = [CHR 0xC2, CHR 0xB0, CHR 0x43], unit_quantity = NUMFORGE_UNIT_TEMPERATURE,
       unit_name_en = ''degree Celsius'', unit_name_sk = [CHR 0x73, CHR 0x74, CHR 0x75, CHR 0x70, CHR 0x65, CHR 0xC5, CHR 0x88, CHR 0x20, CHR 0x43, CHR 0x65, CHR 0x6C, CHR 0x7A, CHR 0x69, CHR 0x61], unit_source_url = example_url, pi_power = 0\<rparr>,
     unit_sn = ''1'', unit_sd = ''1'', unit_on = ''5463'', unit_od = ''20''\<rparr>"

definition fahrenheit :: UnitDefinition where
  "fahrenheit = \<lparr>unit_info = \<lparr>unit_id = ''degF'', unit_symbol = [CHR 0xC2, CHR 0xB0, CHR 0x46], unit_quantity = NUMFORGE_UNIT_TEMPERATURE,
       unit_name_en = ''degree Fahrenheit'', unit_name_sk = [CHR 0x73, CHR 0x74, CHR 0x75, CHR 0x70, CHR 0x65, CHR 0xC5, CHR 0x88, CHR 0x20, CHR 0x46, CHR 0x61, CHR 0x68, CHR 0x72, CHR 0x65, CHR 0x6E, CHR 0x68, CHR 0x65, CHR 0x69, CHR 0x74, CHR 0x61], unit_source_url = example_url, pi_power = 0\<rparr>,
     unit_sn = ''5'', unit_sd = ''9'', unit_on = ''45967'', unit_od = ''180''\<rparr>"

definition radian :: UnitDefinition where
  "radian = \<lparr>unit_info = \<lparr>unit_id = ''rad'', unit_symbol = ''rad'', unit_quantity = NUMFORGE_UNIT_ANGLE,
       unit_name_en = ''radian'', unit_name_sk = [CHR 0x72, CHR 0x61, CHR 0x64, CHR 0x69, CHR 0xC3, CHR 0xA1, CHR 0x6E], unit_source_url = example_url, pi_power = 0\<rparr>,
     unit_sn = ''1'', unit_sd = ''1'', unit_on = ''0'', unit_od = ''1''\<rparr>"

definition degree :: UnitDefinition where
  "degree = \<lparr>unit_info = \<lparr>unit_id = ''deg'', unit_symbol = [CHR 0xC2, CHR 0xB0], unit_quantity = NUMFORGE_UNIT_ANGLE,
       unit_name_en = ''degree'', unit_name_sk = [CHR 0x73, CHR 0x74, CHR 0x75, CHR 0x70, CHR 0x65, CHR 0xC5, CHR 0x88], unit_source_url = example_url, pi_power = 1\<rparr>,
     unit_sn = ''1'', unit_sd = ''180'', unit_on = ''0'', unit_od = ''1''\<rparr>"

definition example_units :: "UnitDefinition list" where
  "example_units = [celsius, fahrenheit, radian, degree]"

lemma example_digit:
  "bigint_ascii_digit CHR ''3'' = 3" "bigint_ascii_digit CHR ''4'' = 4" "bigint_ascii_digit CHR ''5'' = 5"
  "bigint_ascii_digit CHR ''6'' = 6" "bigint_ascii_digit CHR ''7'' = 7" "bigint_ascii_digit CHR ''8'' = 8"
  "bigint_ascii_digit CHR ''9'' = 9" "bigint_ascii_digit CHR ''2'' = 2"
  by code_simp+

lemma example_numerals:
  "numeral_value 10 ''1'' = 1" "numeral_value 10 ''0'' = 0" "numeral_value 10 ''5'' = 5" "numeral_value 10 ''9'' = 9"
  "numeral_value 10 ''20'' = 20" "numeral_value 10 ''180'' = 180" "numeral_value 10 ''5463'' = 5463" "numeral_value 10 ''45967'' = 45967"
  by (simp_all add: numeral_value_def numeral_mag_def numeral_text_def digits_value_def example_digit)

lemma example_coefficients:
  "coefficient_ok ''1''" "coefficient_ok ''0''" "coefficient_ok ''5''" "coefficient_ok ''9''"
  "coefficient_ok ''20''" "coefficient_ok ''180''" "coefficient_ok ''5463''" "coefficient_ok ''45967''"
  by (simp_all add: coefficient_ok_def example_numerals LB_def is_numeral_def numeral_text_def example_digit)

lemma example_catalog: "catalog_ok example_units"
  by (simp add: catalog_ok_def example_units_def celsius_def fahrenheit_def radian_def degree_def example_coefficients example_numerals)

lemma example_find:
  "find_unit example_units ''degC'' = Some celsius" "find_unit example_units ''degF'' = Some fahrenheit"
  "find_unit example_units ''rad'' = Some radian" "find_unit example_units ''deg'' = Some degree"
  by code_simp+

lemma example_fits: "rational_wf example_half" "conversion_fits example_half"
  by (simp_all add: example_fractions conversion_fits_def example_simps)

lemma example_conversion:
  "unit_quantity (unit_info celsius) = unit_quantity (unit_info fahrenheit)" "pi_power (unit_info celsius) = pi_power (unit_info fahrenheit)"
  "unit_quantity (unit_info radian) = unit_quantity (unit_info degree)" "pi_power (unit_info radian) \<noteq> pi_power (unit_info degree)"
  "converted celsius fahrenheit (rational_val example_half) = Fract 329 10"
  by (simp_all add: celsius_def fahrenheit_def radian_def degree_def converted_def unit_scale_def unit_shift_def example_numerals
      example_fractions eq_rat)

theorem unit_conversion_correct_witness:
  "(case run_state (numforge_unit_convert_rational example_units False example_half example_half ''degC'' ''degF'') idle_runtime of
      ((st, r'), s') \<Rightarrow> st = NUMFORGE_UNIT_OK \<and> rational_val r' = Fract 329 10) \<and>
   (case run_state (numforge_unit_convert_rational example_units False example_half example_half ''rad'' ''deg'') idle_runtime of
      ((st, r'), s') \<Rightarrow> st = NUMFORGE_UNIT_NON_RATIONAL_CONVERSION \<and> r' = example_half)"
  using unit_conversion_correct [of idle_runtime example_half example_units False example_half "''degC''" "''degF''"]
    unit_conversion_correct [of idle_runtime example_half example_units False example_half "''rad''" "''deg''"]
    example_catalog example_fits
  by (auto simp: unit_outcome_def example_find example_conversion split: prod.splits if_splits)

end
