(* ===== verification/Calculator_Parser.thy ===== *)
theory Calculator_Parser
  imports Calculator_Expressions Unit_Catalog
begin

text \<open>
  The recursive-descent parser, \<^verbatim>\<open>src/engine/parser/parser.c\<close>.

  A parse function takes the parser and returns it with a status other than \<open>CALCULATOR_OK\<close> or the
  expression: in C the expression goes to \<^verbatim>\<open>*result\<close>, which is written on success only.
  \<^verbatim>\<open>calculator_parse_expression\<close> and \<^verbatim>\<open>calculator_parse_unary\<close> call
  themselves through the functions between them. Those functions are defined first and take the functions they
  call as arguments; the two are then defined together, by recursion on a fuel. Loops have a fuel as well. The
  table of units is a parameter, as in \<open>Unit_Catalog\<close>. Freeing trees has no counterpart.
\<close>

section \<open>The parser state\<close>

definition CALCULATOR_MAX_EXPRESSION_DEPTH :: nat where
  "CALCULATOR_MAX_EXPRESSION_DEPTH = 256"

definition CALCULATOR_MAX_CALL_ARGUMENTS :: nat where
  "CALCULATOR_MAX_CALL_ARGUMENTS = 256"

record CalculatorParser =
  parser_tokenizer :: CalculatorTokenizer
  current :: CalculatorToken
  parser_error :: CalculatorError
  recursion_depth :: nat
  allow_variables :: bool

type_synonym 'a parse = "(CalculatorParser \<times> (CalculatorStatus + 'a)) rt"

abbreviation current_type :: "CalculatorParser \<Rightarrow> CalculatorTokenType" where
  "current_type p \<equiv> token_type (current p)"

abbreviation current_offset :: "CalculatorParser \<Rightarrow> nat" where
  "current_offset p \<equiv> token_offset (current p)"

definition current_text :: "CalculatorParser \<Rightarrow> string" where
  "current_text p = token_slice (tokenizer_input (parser_tokenizer p)) (current p)"

text \<open>\<^verbatim>\<open>if (status != CALCULATOR_OK) return status;\<close>\<close>

definition parse_then :: "'a parse \<Rightarrow> (CalculatorParser \<Rightarrow> 'a \<Rightarrow> 'b parse) \<Rightarrow> 'b parse" where
  "parse_then m f = do {
     (p, r) \<leftarrow> m;
     case r of Inl status \<Rightarrow> State_Monad.return (p, Inl status) | Inr x \<Rightarrow> f p x
   }"

definition parsed :: "CalculatorParser \<Rightarrow> 'a \<Rightarrow> 'a parse" where
  "parsed p x = State_Monad.return (p, Inr x)"

text \<open>\<^verbatim>\<open>calculator_error_set(parser->error, status, offset); return status;\<close>\<close>

definition parse_error :: "CalculatorParser \<Rightarrow> CalculatorStatus \<Rightarrow> nat \<Rightarrow> 'a parse" where
  "parse_error p status position =
     State_Monad.return (p\<lparr>parser_error := calculator_error_set (parser_error p) status position\<rparr>, Inl status)"

definition calculator_parser_advance :: "CalculatorParser \<Rightarrow> unit parse" where
  "calculator_parser_advance p =
    (case calculator_tokenizer_next (parser_tokenizer p) (current p) (parser_error p) of (status, tokenizer, token, error) \<Rightarrow>
       State_Monad.return (p\<lparr>parser_tokenizer := tokenizer, current := token, parser_error := error\<rparr>,
         if status = CALCULATOR_OK then Inr () else Inl status))"

definition calculator_parser_syntax_error :: "CalculatorParser \<Rightarrow> 'a parse" where
  "calculator_parser_syntax_error p = parse_error p CALCULATOR_SYNTAX_ERROR (current_offset p)"

definition calculator_parser_depth_error :: "CalculatorParser \<Rightarrow> nat \<Rightarrow> 'a parse" where
  "calculator_parser_depth_error p position = parse_error p CALCULATOR_VALUE_TOO_LARGE position"

text \<open>\<^verbatim>\<open>parser->recursion_depth++; status = parse(parser, &result); parser->recursion_depth--;\<close>\<close>

definition nested :: "(CalculatorParser \<Rightarrow> 'a parse) \<Rightarrow> CalculatorParser \<Rightarrow> 'a parse" where
  "nested parse p = do {
     (p, r) \<leftarrow> parse (p\<lparr>recursion_depth := recursion_depth p + 1\<rparr>);
     State_Monad.return (p\<lparr>recursion_depth := recursion_depth p - 1\<rparr>, r)
   }"

section \<open>Creating nodes\<close>

text \<open>A node takes 112 bytes; \<open>node\<close> makes it from its offset and depth.\<close>

definition calculator_expression_create ::
  "(nat \<Rightarrow> nat \<Rightarrow> CalculatorExpression) \<Rightarrow> nat \<Rightarrow> nat \<Rightarrow> CalculatorExpression option rt" where
  "calculator_expression_create node position depth = do {
     allocated \<leftarrow> numforge_malloc 112;
     State_Monad.return (if allocated then Some (node position depth) else None)
   }"

text \<open>A number, or a variable, owns a copy of the text of the token.\<close>

definition calculator_expression_create_number ::
  "(nat \<Rightarrow> nat \<Rightarrow> string \<Rightarrow> CalculatorExpression) \<Rightarrow> CalculatorParser \<Rightarrow> CalculatorExpression option rt" where
  "calculator_expression_create_number node p =
    (if token_length (current p) = SIZE_MAX then State_Monad.return None
     else do {
       expression \<leftarrow> calculator_expression_create (\<lambda>position depth. node position depth (current_text p)) (current_offset p) 1;
       allocated \<leftarrow> numforge_malloc (token_length (current p) + 1);
       State_Monad.return (if allocated then expression else None)
     })"

definition calculator_expression_create_constant :: "CalculatorParser \<Rightarrow> CalculatorConstant \<Rightarrow> CalculatorExpression option rt" where
  "calculator_expression_create_constant p constant =
     calculator_expression_create (\<lambda>position depth. CALCULATOR_EXPRESSION_CONSTANT position depth constant) (current_offset p) 1"

definition calculator_expression_create_unary ::
  "CalculatorUnaryOperator \<Rightarrow> nat \<Rightarrow> CalculatorExpression \<Rightarrow> CalculatorExpression option rt" where
  "calculator_expression_create_unary operation position operand =
     calculator_expression_create (\<lambda>position depth. CALCULATOR_EXPRESSION_UNARY position depth operation operand)
       position (expression_depth operand + 1)"

definition calculator_expression_create_postfix ::
  "CalculatorPostfixOperator \<Rightarrow> nat \<Rightarrow> CalculatorExpression \<Rightarrow> CalculatorExpression option rt" where
  "calculator_expression_create_postfix operation position operand =
     calculator_expression_create (\<lambda>position depth. CALCULATOR_EXPRESSION_POSTFIX position depth operation operand)
       position (expression_depth operand + 1)"

definition calculator_expression_create_binary ::
  "CalculatorBinaryOperator \<Rightarrow> nat \<Rightarrow> CalculatorExpression \<Rightarrow> CalculatorExpression \<Rightarrow> CalculatorExpression option rt" where
  "calculator_expression_create_binary operation position left right =
     calculator_expression_create (\<lambda>position depth. CALCULATOR_EXPRESSION_BINARY position depth operation left right)
       position ((if expression_depth left > expression_depth right then expression_depth left else expression_depth right) + 1)"

text \<open>A node that could not be created is an error at the position given.\<close>

definition created_or_error :: "CalculatorParser \<Rightarrow> nat \<Rightarrow> CalculatorExpression option \<Rightarrow> CalculatorExpression parse" where
  "created_or_error p position created =
    (case created of None \<Rightarrow> parse_error p CALCULATOR_OUT_OF_MEMORY position | Some expression \<Rightarrow> parsed p expression)"

definition calculator_expression_can_wrap :: "CalculatorExpression \<Rightarrow> bool" where
  "calculator_expression_can_wrap expression \<longleftrightarrow> expression_depth expression < CALCULATOR_MAX_EXPRESSION_DEPTH"

definition calculator_parser_combine ::
  "CalculatorParser \<Rightarrow> CalculatorBinaryOperator \<Rightarrow> nat \<Rightarrow> CalculatorExpression \<Rightarrow> CalculatorExpression \<Rightarrow> CalculatorExpression parse" where
  "calculator_parser_combine p operation position left right =
    (if expression_depth left \<ge> CALCULATOR_MAX_EXPRESSION_DEPTH \<or> expression_depth right \<ge> CALCULATOR_MAX_EXPRESSION_DEPTH
     then calculator_parser_depth_error p position
     else do {
       combined \<leftarrow> calculator_expression_create_binary operation position left right;
       created_or_error p position combined
     })"

section \<open>Calls\<close>

text \<open>A unit in the arguments of \<^verbatim>\<open>qty\<close> and \<^verbatim>\<open>convert\<close>: a semicolon and a quoted identifier of the
  catalogue, compatible with the first unit when there is one.\<close>

definition call_unit :: "UnitDefinition list \<Rightarrow> string option \<Rightarrow> CalculatorParser \<Rightarrow> string parse" where
  "call_unit units from_unit p =
    (if current_type p \<noteq> CALCULATOR_TOKEN_SEMICOLON then calculator_parser_syntax_error p
     else parse_then (calculator_parser_advance p) (\<lambda>p _.
       if current_type p \<noteq> CALCULATOR_TOKEN_UNIT then calculator_parser_syntax_error p
       else if token_length (current p) = 0 \<or> token_length (current p) \<ge> 32
       then parse_error p CALCULATOR_UNKNOWN_UNIT (current_offset p)
       else let name = current_text p in
         if numforge_unit_find units name = None then parse_error p CALCULATOR_UNKNOWN_UNIT (current_offset p)
         else if (case from_unit of None \<Rightarrow> False | Some from_unit \<Rightarrow> \<not> numforge_units_compatible units from_unit name)
         then parse_error p CALCULATOR_INCOMPATIBLE_UNITS (current_offset p)
         else parse_then (calculator_parser_advance p) (\<lambda>p _. parsed p name)))"

definition call_units :: "UnitDefinition list \<Rightarrow> CalculatorFunction \<Rightarrow> CalculatorParser \<Rightarrow> (string \<times> string) parse" where
  "call_units units f p =
     parse_then (call_unit units None p) (\<lambda>p from_unit.
       if implementation f = CALCULATOR_FUNCTION_QUANTITY then parsed p (from_unit, [])
       else parse_then (call_unit units (Some from_unit) p) (\<lambda>p to_unit. parsed p (from_unit, to_unit)))"

definition takes_units :: "CalculatorFunction \<Rightarrow> bool" where
  "takes_units f \<longleftrightarrow> implementation f = CALCULATOR_FUNCTION_CONVERT \<or> implementation f = CALCULATOR_FUNCTION_QUANTITY"

text \<open>The loop over the arguments returns them with the depth of the call and the two units.\<close>

primrec call_arguments ::
  "nat \<Rightarrow> UnitDefinition list \<Rightarrow> (CalculatorParser \<Rightarrow> CalculatorExpression parse) \<Rightarrow> CalculatorFunction \<Rightarrow> nat \<Rightarrow>
    CalculatorExpression list \<Rightarrow> nat \<Rightarrow> nat \<Rightarrow> CalculatorParser \<Rightarrow> (CalculatorExpression list \<times> nat \<times> string \<times> string) parse" where
  "call_arguments 0 units parse_expression f position arguments depth slots p = out_of_fuel (p, Inl CALCULATOR_SYNTAX_ERROR)"
| "call_arguments (Suc fuel) units parse_expression f position arguments depth slots p =
    (if current_type p = CALCULATOR_TOKEN_RIGHT_PAREN then parsed p (arguments, depth, [], [])
     else if length arguments = CALCULATOR_MAX_CALL_ARGUMENTS then calculator_parser_depth_error p position
     else do {
       let next_slots =
         (if length arguments = slots then (if slots = 0 then 4 else slots * 2) else slots);
       grown \<leftarrow> (if length arguments = slots then numforge_realloc (next_slots * 8) else State_Monad.return True);
       if \<not> grown then parse_error p CALCULATOR_OUT_OF_MEMORY position
       else parse_then (nested parse_expression p) (\<lambda>p argument.
         let arguments = arguments @ [argument] in
         if \<not> calculator_expression_can_wrap argument then calculator_parser_depth_error p position
         else let depth = (if expression_depth argument + 1 > depth then expression_depth argument + 1 else depth) in
           if takes_units f
           then parse_then (call_units units f p) (\<lambda>p (from_unit, to_unit). parsed p (arguments, depth, from_unit, to_unit))
           else if current_type p \<noteq> CALCULATOR_TOKEN_SEMICOLON then parsed p (arguments, depth, [], [])
           else parse_then (calculator_parser_advance p) (\<lambda>p _.
             if current_type p = CALCULATOR_TOKEN_RIGHT_PAREN then calculator_parser_syntax_error p
             else call_arguments fuel units parse_expression f position arguments depth next_slots p))
     })"

definition supplied_arguments :: "CalculatorFunction \<Rightarrow> nat \<Rightarrow> nat" where
  "supplied_arguments f n = n +
    (if implementation f = CALCULATOR_FUNCTION_CONVERT then 2 else if implementation f = CALCULATOR_FUNCTION_QUANTITY then 1 else 0)"

definition wrong_argument_count :: "CalculatorFunction \<Rightarrow> nat \<Rightarrow> bool" where
  "wrong_argument_count f supplied \<longleftrightarrow> supplied < minimum_arguments f \<or>
     maximum_arguments f \<noteq> 0 \<and> supplied > maximum_arguments f"

text \<open>As the loops below, the loop over the arguments runs at most once for each byte that is left.\<close>

definition loop_fuel :: "CalculatorParser \<Rightarrow> nat" where
  "loop_fuel p = tokenizer_length (parser_tokenizer p) + 2"

definition calculator_parse_call ::
  "UnitDefinition list \<Rightarrow> (CalculatorParser \<Rightarrow> CalculatorExpression parse) \<Rightarrow> CalculatorFunction \<Rightarrow> CalculatorParser \<Rightarrow>
    CalculatorExpression parse" where
  "calculator_parse_call units parse_expression f p =
    (let position = current_offset p
     in if recursion_depth p \<ge> CALCULATOR_MAX_EXPRESSION_DEPTH then calculator_parser_depth_error p position
     else parse_then (calculator_parser_advance p) (\<lambda>p _.
       if current_type p \<noteq> CALCULATOR_TOKEN_LEFT_PAREN then calculator_parser_syntax_error p
       else do {
         allocated \<leftarrow> numforge_malloc 112;
         if \<not> allocated then parse_error p CALCULATOR_OUT_OF_MEMORY position
         else parse_then (calculator_parser_advance p) (\<lambda>p _.
           parse_then (call_arguments (loop_fuel p) units parse_expression f position [] 1 0 p)
             (\<lambda>p (arguments, depth, from_unit, to_unit).
               if current_type p \<noteq> CALCULATOR_TOKEN_RIGHT_PAREN then calculator_parser_syntax_error p
               else if wrong_argument_count f (supplied_arguments f (length arguments))
               then parse_error p CALCULATOR_ARGUMENT_COUNT position
               else parse_then (calculator_parser_advance p) (\<lambda>p _.
                 parsed p (CALCULATOR_EXPRESSION_CALL position depth f arguments from_unit to_unit))))
       }))"

section \<open>Primary and postfix expressions\<close>

definition parse_number :: "CalculatorParser \<Rightarrow> CalculatorExpression parse" where
  "parse_number p = do {
     created \<leftarrow> calculator_expression_create_number CALCULATOR_EXPRESSION_NUMBER p;
     parse_then (created_or_error p (current_offset p) created) (\<lambda>p expression.
       parse_then (calculator_parser_advance p) (\<lambda>p _.
         if current_type p = CALCULATOR_TOKEN_NUMBER then calculator_parser_syntax_error p
         else parsed p expression))
   }"

definition parse_name :: "CalculatorParser \<Rightarrow> CalculatorExpression parse" where
  "parse_name p =
    (let name = current_text p; position = current_offset p
     in parse_then
       (if name = ''ans'' then do {
          created \<leftarrow> calculator_expression_create CALCULATOR_EXPRESSION_ANSWER position 1;
          created_or_error p position created }
        else if name = ''i'' then do {
          created \<leftarrow> calculator_expression_create CALCULATOR_EXPRESSION_IMAGINARY position 1;
          created_or_error p position created }
        else case calculator_constant_from_text name of
          Some constant \<Rightarrow> do {
            created \<leftarrow> calculator_expression_create_constant p constant;
            created_or_error p position created }
        | None \<Rightarrow>
            if allow_variables p then do {
              created \<leftarrow> calculator_expression_create_number CALCULATOR_EXPRESSION_VARIABLE p;
              created_or_error p position created }
            else parse_error p CALCULATOR_INVALID_TOKEN position)
       (\<lambda>p expression. parse_then (calculator_parser_advance p) (\<lambda>p _. parsed p expression)))"

definition parse_group :: "(CalculatorParser \<Rightarrow> CalculatorExpression parse) \<Rightarrow> CalculatorParser \<Rightarrow> CalculatorExpression parse" where
  "parse_group parse_expression p =
    (if recursion_depth p \<ge> CALCULATOR_MAX_EXPRESSION_DEPTH then calculator_parser_depth_error p (current_offset p)
     else parse_then (calculator_parser_advance p) (\<lambda>p _.
       parse_then (nested parse_expression p) (\<lambda>p expression.
         if current_type p \<noteq> CALCULATOR_TOKEN_RIGHT_PAREN then calculator_parser_syntax_error p
         else parse_then (calculator_parser_advance p) (\<lambda>p _. parsed p expression))))"

definition calculator_parse_primary ::
  "UnitDefinition list \<Rightarrow> (CalculatorParser \<Rightarrow> CalculatorExpression parse) \<Rightarrow> CalculatorParser \<Rightarrow> CalculatorExpression parse" where
  "calculator_parse_primary units parse_expression p =
    (if current_type p = CALCULATOR_TOKEN_NUMBER then parse_number p
     else if current_type p = CALCULATOR_TOKEN_SQRT
     then calculator_parse_call units parse_expression (the (calculator_function_find ''sqrt'')) p
     else if current_type p = CALCULATOR_TOKEN_IDENTIFIER
     then (case calculator_function_find (current_text p) of
         Some f \<Rightarrow> calculator_parse_call units parse_expression f p
       | None \<Rightarrow> parse_name p)
     else if current_type p = CALCULATOR_TOKEN_LEFT_PAREN then parse_group parse_expression p
     else calculator_parser_syntax_error p)"

fun postfix_operator :: "CalculatorTokenType \<Rightarrow> CalculatorPostfixOperator option" where
  "postfix_operator CALCULATOR_TOKEN_SQUARE = Some CALCULATOR_POSTFIX_SQUARE"
| "postfix_operator CALCULATOR_TOKEN_CUBE = Some CALCULATOR_POSTFIX_CUBE"
| "postfix_operator CALCULATOR_TOKEN_FACTORIAL = Some CALCULATOR_POSTFIX_FACTORIAL"
| "postfix_operator _ = None"

primrec postfix_loop :: "nat \<Rightarrow> CalculatorParser \<Rightarrow> CalculatorExpression \<Rightarrow> CalculatorExpression parse" where
  "postfix_loop 0 p left = out_of_fuel (p, Inl CALCULATOR_SYNTAX_ERROR)"
| "postfix_loop (Suc fuel) p left =
    (case postfix_operator (current_type p) of
       None \<Rightarrow> parsed p left
     | Some operation \<Rightarrow>
         let position = current_offset p in
         parse_then (calculator_parser_advance p) (\<lambda>p _.
           if \<not> calculator_expression_can_wrap left then calculator_parser_depth_error p position
           else do {
             combined \<leftarrow> calculator_expression_create_postfix operation position left;
             parse_then (created_or_error p position combined) (postfix_loop fuel)
           }))"

definition calculator_parse_postfix ::
  "UnitDefinition list \<Rightarrow> (CalculatorParser \<Rightarrow> CalculatorExpression parse) \<Rightarrow> CalculatorParser \<Rightarrow> CalculatorExpression parse" where
  "calculator_parse_postfix units parse_expression p =
     parse_then (calculator_parse_primary units parse_expression p) (\<lambda>p. postfix_loop (loop_fuel p) p)"

section \<open>Operators\<close>

definition calculator_parse_power ::
  "UnitDefinition list \<Rightarrow> (CalculatorParser \<Rightarrow> CalculatorExpression parse) \<Rightarrow> (CalculatorParser \<Rightarrow> CalculatorExpression parse) \<Rightarrow>
    CalculatorParser \<Rightarrow> CalculatorExpression parse" where
  "calculator_parse_power units parse_expression parse_unary p =
     parse_then (calculator_parse_postfix units parse_expression p) (\<lambda>p base.
       if current_type p \<noteq> CALCULATOR_TOKEN_CARET then parsed p base
       else let position = current_offset p in
         parse_then (calculator_parser_advance p) (\<lambda>p _.
           if recursion_depth p \<ge> CALCULATOR_MAX_EXPRESSION_DEPTH then calculator_parser_depth_error p position
           else parse_then (nested parse_unary p) (\<lambda>p exponent.
             calculator_parser_combine p CALCULATOR_BINARY_POWER position base exponent)))"

text \<open>One level of \<^verbatim>\<open>calculator_parse_unary\<close>\<close>

definition unary_level ::
  "UnitDefinition list \<Rightarrow> (CalculatorParser \<Rightarrow> CalculatorExpression parse) \<Rightarrow> (CalculatorParser \<Rightarrow> CalculatorExpression parse) \<Rightarrow>
    CalculatorParser \<Rightarrow> CalculatorExpression parse" where
  "unary_level units parse_expression parse_unary p =
    (if current_type p = CALCULATOR_TOKEN_PLUS \<or> current_type p = CALCULATOR_TOKEN_MINUS
     then let operation = (if current_type p = CALCULATOR_TOKEN_PLUS then CALCULATOR_UNARY_PLUS else CALCULATOR_UNARY_MINUS);
              position = current_offset p in
       parse_then (calculator_parser_advance p) (\<lambda>p _.
         if recursion_depth p \<ge> CALCULATOR_MAX_EXPRESSION_DEPTH then calculator_parser_depth_error p position
         else parse_then (nested parse_unary p) (\<lambda>p operand.
           if \<not> calculator_expression_can_wrap operand then calculator_parser_depth_error p position
           else do {
             expression \<leftarrow> calculator_expression_create_unary operation position operand;
             created_or_error p position expression
           }))
     else calculator_parse_power units parse_expression parse_unary p)"

definition calculator_token_starts_primary :: "CalculatorTokenType \<Rightarrow> bool" where
  "calculator_token_starts_primary type \<longleftrightarrow> type = CALCULATOR_TOKEN_NUMBER \<or> type = CALCULATOR_TOKEN_SQRT \<or>
     type = CALCULATOR_TOKEN_IDENTIFIER \<or> type = CALCULATOR_TOKEN_LEFT_PAREN"

definition explicit_operator :: "CalculatorTokenType \<Rightarrow> bool" where
  "explicit_operator type \<longleftrightarrow> type = CALCULATOR_TOKEN_STAR \<or> type = CALCULATOR_TOKEN_SLASH"

primrec multiplicative_loop ::
  "nat \<Rightarrow> (CalculatorParser \<Rightarrow> CalculatorExpression parse) \<Rightarrow> CalculatorParser \<Rightarrow> CalculatorExpression \<Rightarrow> CalculatorExpression parse" where
  "multiplicative_loop 0 parse_unary p left = out_of_fuel (p, Inl CALCULATOR_SYNTAX_ERROR)"
| "multiplicative_loop (Suc fuel) parse_unary p left =
    (if explicit_operator (current_type p) \<or> calculator_token_starts_primary (current_type p)
     then let operation = (if current_type p = CALCULATOR_TOKEN_SLASH then CALCULATOR_BINARY_DIVIDE else CALCULATOR_BINARY_MULTIPLY);
              position = current_offset p in
       parse_then (if explicit_operator (current_type p) then calculator_parser_advance p else parsed p ()) (\<lambda>p _.
         parse_then (parse_unary p) (\<lambda>p right.
           parse_then (calculator_parser_combine p operation position left right) (multiplicative_loop fuel parse_unary)))
     else parsed p left)"

definition calculator_parse_multiplicative ::
  "(CalculatorParser \<Rightarrow> CalculatorExpression parse) \<Rightarrow> CalculatorParser \<Rightarrow> CalculatorExpression parse" where
  "calculator_parse_multiplicative parse_unary p =
     parse_then (parse_unary p) (\<lambda>p. multiplicative_loop (loop_fuel p) parse_unary p)"

primrec additive_loop ::
  "nat \<Rightarrow> (CalculatorParser \<Rightarrow> CalculatorExpression parse) \<Rightarrow> CalculatorParser \<Rightarrow> CalculatorExpression \<Rightarrow> CalculatorExpression parse" where
  "additive_loop 0 parse_unary p left = out_of_fuel (p, Inl CALCULATOR_SYNTAX_ERROR)"
| "additive_loop (Suc fuel) parse_unary p left =
    (if current_type p = CALCULATOR_TOKEN_PLUS \<or> current_type p = CALCULATOR_TOKEN_MINUS
     then let operation = (if current_type p = CALCULATOR_TOKEN_PLUS then CALCULATOR_BINARY_ADD else CALCULATOR_BINARY_SUBTRACT);
              position = current_offset p in
       parse_then (calculator_parser_advance p) (\<lambda>p _.
         parse_then (calculator_parse_multiplicative parse_unary p) (\<lambda>p right.
           parse_then (calculator_parser_combine p operation position left right) (additive_loop fuel parse_unary)))
     else parsed p left)"

text \<open>One level of \<^verbatim>\<open>calculator_parse_expression\<close>\<close>

definition expression_level ::
  "(CalculatorParser \<Rightarrow> CalculatorExpression parse) \<Rightarrow> CalculatorParser \<Rightarrow> CalculatorExpression parse" where
  "expression_level parse_unary p =
     parse_then (calculator_parse_multiplicative parse_unary p) (\<lambda>p. additive_loop (loop_fuel p) parse_unary p)"

fun calculator_parse_expression :: "UnitDefinition list \<Rightarrow> nat \<Rightarrow> CalculatorParser \<Rightarrow> CalculatorExpression parse"
  and calculator_parse_unary :: "UnitDefinition list \<Rightarrow> nat \<Rightarrow> CalculatorParser \<Rightarrow> CalculatorExpression parse" where
  "calculator_parse_expression units 0 p = out_of_fuel (p, Inl CALCULATOR_SYNTAX_ERROR)"
| "calculator_parse_expression units (Suc fuel) p = expression_level (calculator_parse_unary units fuel) p"
| "calculator_parse_unary units 0 p = out_of_fuel (p, Inl CALCULATOR_SYNTAX_ERROR)"
| "calculator_parse_unary units (Suc fuel) p =
     unary_level units (calculator_parse_expression units fuel) (calculator_parse_unary units fuel) p"

section \<open>Parsing an input\<close>

text \<open>Two units of fuel for each level of recursion are enough.\<close>

definition parse_fuel :: nat where
  "parse_fuel = 2 * CALCULATOR_MAX_EXPRESSION_DEPTH + 2"

definition calculator_parse_profile_impl ::
  "UnitDefinition list \<Rightarrow> string \<Rightarrow> bool \<Rightarrow> CalculatorError \<Rightarrow> (CalculatorError \<times> (CalculatorStatus + CalculatorExpression)) rt" where
  "calculator_parse_profile_impl units cs variables err = do {
     (p, r) \<leftarrow>
       parse_then (calculator_parser_advance
           \<lparr>parser_tokenizer = calculator_tokenizer_init cs, current = no_token, parser_error = err,
            recursion_depth = 0, allow_variables = variables\<rparr>)
         (\<lambda>p _. parse_then (calculator_parse_expression units parse_fuel p) (\<lambda>p expression.
            if current_type p \<noteq> CALCULATOR_TOKEN_END then calculator_parser_syntax_error p
            else parsed (p\<lparr>parser_error := calculator_error_clear (parser_error p)\<rparr>) expression));
     State_Monad.return (parser_error p, r)
   }"

definition calculator_parse ::
  "UnitDefinition list \<Rightarrow> string \<Rightarrow> CalculatorError \<Rightarrow> (CalculatorError \<times> (CalculatorStatus + CalculatorExpression)) rt" where
  "calculator_parse units cs err = calculator_parse_profile_impl units cs False err"

definition calculator_parse_variables ::
  "UnitDefinition list \<Rightarrow> string \<Rightarrow> CalculatorError \<Rightarrow> (CalculatorError \<times> (CalculatorStatus + CalculatorExpression)) rt" where
  "calculator_parse_variables units cs err = calculator_parse_profile_impl units cs True err"

end
