(* ===== verification/Calculator_Lexemes.thy ===== *)
theory Calculator_Lexemes
  imports Calculator_Tokenizer
begin

text \<open>
  What the tokens of an input are, without the tokenizer: after white space comes the longest lexeme of any class,
  and an error is a place where there is none, a number run into a separator, or a unit that is not closed. The
  relation \<open>lexes\<close> says so; it determines the tokens, and the tokenizer computes exactly them.
\<close>

section \<open>Lexemes\<close>

definition lexeme :: "CalculatorTokenType \<Rightarrow> string \<Rightarrow> bool" where
  "lexeme type s \<longleftrightarrow> s \<noteq> [] \<and> (\<exists>u. s = token_lexeme type u \<and> lexeme_class type u)"

definition longest_lexeme :: "string \<Rightarrow> nat \<Rightarrow> CalculatorTokenType \<Rightarrow> nat \<Rightarrow> bool" where
  "longest_lexeme cs q type j \<longleftrightarrow> q < j \<and> j \<le> length cs \<and> lexeme type (bytes_between cs q j) \<and>
     (\<forall>i type'. j < i \<and> i \<le> length cs \<longrightarrow> \<not> lexeme type' (bytes_between cs q i))"

definition skips :: "string \<Rightarrow> nat \<Rightarrow> nat \<Rightarrow> bool" where
  "skips cs p q \<longleftrightarrow> p \<le> q \<and> q \<le> length cs \<and> set (bytes_between cs p q) \<subseteq> white_space \<and>
     (q < length cs \<longrightarrow> cs ! q \<notin> white_space)"

text \<open>The token \<open>t\<close> is at \<open>q\<close> and ends at \<open>j\<close>; the text of a unit is between its quotes.\<close>

definition token_at :: "string \<Rightarrow> nat \<Rightarrow> CalculatorToken \<Rightarrow> nat \<Rightarrow> bool" where
  "token_at cs q t j \<longleftrightarrow> longest_lexeme cs q (token_type t) j \<and> token_offset t = q \<and>
     (if token_type t = CALCULATOR_TOKEN_UNIT then token_text t = q + 1 \<and> token_length t = j - q - 2
      else token_text t = q \<and> token_length t = j - q) \<and>
     \<not> (token_type t = CALCULATOR_TOKEN_NUMBER \<and> j < length cs \<and> cs ! j \<in> separator_bytes)"

text \<open>The errors at \<open>q\<close>: a separator behind a number, a byte that breaks off a unit, no lexeme.\<close>

inductive lexical_error :: "string \<Rightarrow> nat \<Rightarrow> nat \<Rightarrow> bool" where
  second_separator: "longest_lexeme cs q CALCULATOR_TOKEN_NUMBER j \<Longrightarrow> j < length cs \<Longrightarrow> cs ! j \<in> separator_bytes \<Longrightarrow>
    lexical_error cs q j"
| unit_broken: "q < j \<Longrightarrow> j \<le> length cs \<Longrightarrow> cs ! q = CHR 0x22 \<Longrightarrow> set (bytes_between cs (q + 1) j) \<subseteq> unit_bytes \<Longrightarrow>
    (j < length cs \<longrightarrow> cs ! j \<notin> insert (CHR 0x22) unit_bytes) \<Longrightarrow> lexical_error cs q j"
| no_lexeme: "q < length cs \<Longrightarrow> cs ! q \<noteq> CHR 0x22 \<Longrightarrow>
    (\<forall>i type. q < i \<and> i \<le> length cs \<longrightarrow> \<not> lexeme type (bytes_between cs q i)) \<Longrightarrow> lexical_error cs q q"

definition end_token :: "nat \<Rightarrow> CalculatorToken" where
  "end_token q = \<lparr>token_type = CALCULATOR_TOKEN_END, token_text = q, token_length = 0, token_offset = q\<rparr>"

text \<open>The tokens from \<open>p\<close> on, and the position of the error if there is one.\<close>

inductive lexes :: "string \<Rightarrow> nat \<Rightarrow> CalculatorToken list \<Rightarrow> nat option \<Rightarrow> bool" where
  lexes_end: "skips cs p (length cs) \<Longrightarrow> lexes cs p [end_token (length cs)] None"
| lexes_token: "skips cs p q \<Longrightarrow> token_at cs q t j \<Longrightarrow> lexes cs j ts r \<Longrightarrow> lexes cs p (t # ts) r"
| lexes_error: "skips cs p q \<Longrightarrow> lexical_error cs q j \<Longrightarrow> lexes cs p [] (Some j)"

inductive_cases lexesE: "lexes cs p ts r"

section \<open>Lexemes are told apart by their first bytes\<close>

lemma disjoint_classes: "digit_bytes \<inter> letter_bytes = {}" "CHR 0x22 \<notin> unit_bytes"
  by (simp_all add: digit_bytes_def letter_bytes_def unit_bytes_def)

text \<open>The bytes a lexeme of a type may start with.\<close>

fun first_bytes :: "CalculatorTokenType \<Rightarrow> char set" where
  "first_bytes CALCULATOR_TOKEN_NUMBER = digit_bytes \<union> separator_bytes"
| "first_bytes CALCULATOR_TOKEN_UNIT = {CHR 0x22}"
| "first_bytes CALCULATOR_TOKEN_IDENTIFIER = insert (CHR 0xCF) letter_bytes"
| "first_bytes CALCULATOR_TOKEN_PLUS = {CHR ''+''}"
| "first_bytes CALCULATOR_TOKEN_MINUS = {CHR ''-''}"
| "first_bytes CALCULATOR_TOKEN_STAR = {CHR ''*''}"
| "first_bytes CALCULATOR_TOKEN_SLASH = {CHR ''/''}"
| "first_bytes CALCULATOR_TOKEN_CARET = {CHR ''^''}"
| "first_bytes CALCULATOR_TOKEN_SQUARE = {CHR 0xC2}"
| "first_bytes CALCULATOR_TOKEN_CUBE = {CHR 0xC2}"
| "first_bytes CALCULATOR_TOKEN_FACTORIAL = {CHR ''!''}"
| "first_bytes CALCULATOR_TOKEN_SQRT = {CHR 0xE2}"
| "first_bytes CALCULATOR_TOKEN_SEMICOLON = {CHR '';''}"
| "first_bytes CALCULATOR_TOKEN_LEFT_PAREN = {CHR ''(''}"
| "first_bytes CALCULATOR_TOKEN_RIGHT_PAREN = {CHR '')''}"
| "first_bytes CALCULATOR_TOKEN_END = {}"

lemma number_first: "number_literal s \<Longrightarrow> \<exists>c s'. s = c # s' \<and> c \<in> digit_bytes \<union> separator_bytes"
proof -
  assume "number_literal s"
  then obtain whole fraction exponent where s: "s = whole @ fraction @ exponent" "set whole \<subseteq> digit_bytes"
    "fraction_part fraction" "whole \<noteq> [] \<or> 1 < length fraction" unfolding number_literal_def by blast
  then show ?thesis by (cases whole) (auto simp: fraction_part_def)
qed

lemma lexeme_first: "lexeme type s \<Longrightarrow> \<exists>c s'. s = c # s' \<and> c \<in> first_bytes type"
  by (cases type) (auto simp: lexeme_def token_lexeme_def neq_Nil_conv dest: number_first)

lemma lexeme_types: "lexeme CALCULATOR_TOKEN_NUMBER s \<longleftrightarrow> number_literal s"
  "lexeme CALCULATOR_TOKEN_UNIT s \<longleftrightarrow> (\<exists>u. s = [CHR 0x22] @ u @ [CHR 0x22] \<and> set u \<subseteq> unit_bytes)"
  "type \<noteq> CALCULATOR_TOKEN_UNIT \<Longrightarrow> lexeme type s \<longleftrightarrow> s \<noteq> [] \<and> lexeme_class type s"
  using number_first [of s] by (auto simp: lexeme_def token_lexeme_def)

lemma first_bytes_apart:
  "c \<in> first_bytes type \<Longrightarrow> c \<in> first_bytes type' \<Longrightarrow>
   type = type' \<or> {type, type'} = {CALCULATOR_TOKEN_SQUARE, CALCULATOR_TOKEN_CUBE}"
  by (cases type; cases type') (auto simp: digit_bytes_def letter_bytes_def separator_bytes_def)

lemma lexeme_unique: "lexeme type s \<Longrightarrow> lexeme type' s \<Longrightarrow> type = type'"
  using first_bytes_apart [of "hd s" type type'] lexeme_first [of type s] lexeme_first [of type' s]
  by (auto simp: doubleton_eq_iff lexeme_types)

lemma longest_unique:
  assumes "longest_lexeme cs q type j" "longest_lexeme cs q type' j'"
  shows "type = type' \<and> j = j'"
proof -
  have "j = j'" using assms by (metis longest_lexeme_def linorder_neqE_nat)
  then show ?thesis using assms lexeme_unique by (auto simp: longest_lexeme_def)
qed

section \<open>The tokens are determined\<close>

lemma in_bytes: "i \<le> n \<Longrightarrow> n < j \<Longrightarrow> j \<le> length cs \<Longrightarrow> cs ! n \<in> set (bytes_between cs i j)"
  using slice_append [of i n j cs] slice_Cons [of n j cs] by simp

lemma skips_unique:
  assumes "skips cs p q" "skips cs p q'"
  shows "q = q'"
proof -
  have "\<not> n < n'" if n: "skips cs p n" "skips cs p n'" for n n'
    using in_bytes [of p n n' cs] that by (auto simp: skips_def)
  then show ?thesis using assms by (meson linorder_neqE_nat)
qed

lemma token_unique: "token_at cs q t j \<Longrightarrow> token_at cs q t' j' \<Longrightarrow> t = t' \<and> j = j'"
  using longest_unique [of cs q "token_type t" j "token_type t'" j']
  by (auto simp: token_at_def intro!: CalculatorToken.equality split: if_splits)

text \<open>An opened unit is closed at most once, and not where it is broken off.\<close>

lemma unit_closed:
  assumes q: "cs ! q = CHR 0x22" and l: "lexeme type (bytes_between cs q i)" "q < i" "i \<le> length cs"
  shows "type = CALCULATOR_TOKEN_UNIT" "q + 1 < i" "cs ! (i - 1) = CHR 0x22" "set (bytes_between cs (q + 1) (i - 1)) \<subseteq> unit_bytes"
proof -
  have b: "bytes_between cs q i = CHR 0x22 # bytes_between cs (Suc q) i" using slice_Cons [OF l(2,3)] q by simp
  have "CHR 0x22 \<in> first_bytes type" using lexeme_first [OF l(1)] b by auto
  then show t: "type = CALCULATOR_TOKEN_UNIT" using first_bytes_apart [of "CHR 0x22" type CALCULATOR_TOKEN_UNIT] by auto
  from l(1) obtain u where u: "bytes_between cs (Suc q) i = u @ [CHR 0x22]" "set u \<subseteq> unit_bytes"
    unfolding t lexeme_types b by auto
  have "length u + 1 = i - Suc q" using arg_cong [OF u(1), of length] l(3) by (simp add: length_slice)
  then show lt: "q + 1 < i" by simp
  have "bytes_between cs (Suc q) i = bytes_between cs (Suc q) (i - 1) @ [cs ! (i - 1)]"
    using slice_append [of "Suc q" "i - 1" i cs] slice_one [of "i - 1" cs] lt l(3) by simp
  then show "cs ! (i - 1) = CHR 0x22" "set (bytes_between cs (q + 1) (i - 1)) \<subseteq> unit_bytes" using u by auto
qed

lemma broken_no_lexeme:
  assumes "q < j" "j \<le> length cs" "cs ! q = CHR 0x22" "set (bytes_between cs (q + 1) j) \<subseteq> unit_bytes"
    "j < length cs \<longrightarrow> cs ! j \<notin> insert (CHR 0x22) unit_bytes" "lexeme type (bytes_between cs q i)" "q < i" "i \<le> length cs"
  shows False
proof -
  note u = unit_closed [OF assms(3,6-8)]
  show False
  proof (cases "i - 1 < j")
    case True
    have "q + 1 \<le> i - 1" using u(2) by simp
    from in_bytes [OF this True assms(2)] show False using u(3) assms(4) disjoint_classes(2) by auto
  next
    case False
    then show False
    proof (cases "j = i - 1")
      case True
      then show False using u(2,3) assms(5,8) by auto
    next
      case less: False
      have "q + 1 \<le> j" "j < i - 1" "i - 1 \<le> length cs" using less False assms(1,8) by simp_all
      from in_bytes [OF this] this show False using u(4) assms(5) by auto
    qed
  qed
qed

lemma error_excludes_token:
  assumes "lexical_error cs q j"
  shows "\<not> token_at cs q t i" "q < length cs"
proof -
  show "\<not> token_at cs q t i"
    using assms
  proof cases
    case second_separator
    then show ?thesis using longest_unique by (fastforce simp: token_at_def)
  next
    case unit_broken
    then show ?thesis using broken_no_lexeme [OF unit_broken, of "token_type t" i] by (auto simp: token_at_def longest_lexeme_def)
  next
    case no_lexeme
    then show ?thesis by (auto simp: token_at_def longest_lexeme_def)
  qed
  show "q < length cs" using assms by cases (auto simp: longest_lexeme_def)
qed

lemma error_unique:
  assumes "lexical_error cs q j" "lexical_error cs q i"
  shows "j = i"
  using assms(1)
proof cases
  case second_separator
  have "cs ! q \<in> digit_bytes \<union> separator_bytes"
    using lexeme_first [of CALCULATOR_TOKEN_NUMBER "bytes_between cs q j"] slice_Cons [of q j cs] second_separator
    by (auto simp: longest_lexeme_def)
  then have q: "cs ! q \<noteq> CHR 0x22" by (auto simp: digit_bytes_def separator_bytes_def)
  from assms(2) show ?thesis
  proof cases
    case other: second_separator
    then show ?thesis using longest_unique [OF second_separator(1) other(1)] by simp
  qed (use second_separator q in \<open>auto simp: longest_lexeme_def\<close>)
next
  case unit_broken
  have no: "\<not> longest_lexeme cs q type n" for type n
    using broken_no_lexeme [OF unit_broken, of type n] by (auto simp: longest_lexeme_def)
  from assms(2) show ?thesis
  proof cases
    case other: unit_broken
    have "\<not> n < n'" if "q < n" "n < n'" "n' \<le> length cs" "cs ! n \<notin> insert (CHR 0x22) unit_bytes"
      "set (bytes_between cs (q + 1) n') \<subseteq> unit_bytes" for n n'
      using in_bytes [of "q + 1" n n' cs] that by auto
    then show ?thesis using unit_broken other by (metis le_neq_implies_less linorder_neqE_nat order_less_le_trans)
  qed (use no unit_broken in auto)
next
  case no_lexeme
  from assms(2) show ?thesis using no_lexeme by cases (auto simp: longest_lexeme_def)
qed

theorem lexes_unique: "lexes cs p ts r \<Longrightarrow> lexes cs p ts' r' \<Longrightarrow> ts' = ts \<and> r' = r"
proof (induction arbitrary: ts' r' rule: lexes.induct)
  case (lexes_end cs p)
  from lexes_end.prems show ?case
  proof (rule lexesE, goal_cases)
    case (2 q t j us)
    then show ?case using skips_unique [OF lexes_end.hyps, of q] by (auto simp: token_at_def longest_lexeme_def)
  next
    case (3 q j)
    then show ?case using skips_unique [OF lexes_end.hyps, of q] error_excludes_token(2) by auto
  qed simp
next
  case (lexes_token cs p q t j ts r)
  from lexes_token.prems show ?case
  proof (rule lexesE, goal_cases)
    case 1
    then show ?case using skips_unique [OF lexes_token.hyps(1)] lexes_token.hyps(2) by (auto simp: token_at_def longest_lexeme_def)
  next
    case (2 q' t' j' us)
    then show ?case using skips_unique [OF lexes_token.hyps(1), of q'] token_unique [OF lexes_token.hyps(2)] lexes_token.IH by blast
  next
    case (3 q' j')
    then show ?case using skips_unique [OF lexes_token.hyps(1), of q'] error_excludes_token lexes_token.hyps(2) by blast
  qed
next
  case (lexes_error cs p q j)
  from lexes_error.prems show ?case
  proof (rule lexesE, goal_cases)
    case 1
    then show ?case using skips_unique [OF lexes_error.hyps(1)] error_excludes_token(2) [OF lexes_error.hyps(2)] by auto
  next
    case (2 q' t' j' us)
    then show ?case using skips_unique [OF lexes_error.hyps(1), of q'] error_excludes_token(1) [OF lexes_error.hyps(2)] by blast
  next
    case (3 q' j')
    then show ?case using skips_unique [OF lexes_error.hyps(1), of q'] error_unique [OF lexes_error.hyps(2)] by blast
  qed
qed

section \<open>The longest lexeme\<close>

lemma scan_while_max:
  assumes "set (bytes_between cs i j) \<subseteq> {c. P c}" "i \<le> j" "j \<le> length cs"
  shows "j \<le> scan_while P cs i"
proof (rule ccontr)
  let ?m = "scan_while P cs i"
  assume "\<not> j \<le> ?m"
  moreover have "i \<le> ?m" "?m < length cs \<longrightarrow> \<not> P (cs ! ?m)" using scan_while_bounds [of i cs P] assms(2,3) by auto
  ultimately show False using in_bytes [of i ?m j cs] assms by auto
qed

lemma bytes_split:
  assumes "bytes_between cs i j = u @ v" "i \<le> j" "j \<le> length cs"
  shows "bytes_between cs i (i + length u) = u" "bytes_between cs (i + length u) j = v" "i + length u \<le> j"
    "j = i + length u + length v"
proof -
  have n: "length u + length v = j - i" using arg_cong [OF assms(1), of length] assms(3) by (simp add: length_slice)
  then show le: "i + length u \<le> j" and "j = i + length u + length v" using assms(2) by simp_all
  have "bytes_between cs i (i + length u) @ bytes_between cs (i + length u) j = u @ v"
    using slice_append [of i "i + length u" j cs] le assms(1) by simp
  then show "bytes_between cs i (i + length u) = u" "bytes_between cs (i + length u) j = v"
    using le assms(3) by (auto simp: append_eq_append_conv length_slice)
qed

lemma bytes_first:
  assumes "bytes_between cs i j = c # v" "j \<le> length cs"
  shows "i < j" "cs ! i = c" "bytes_between cs (i + 1) j = v"
proof -
  show lt: "i < j" using assms(1) by (cases "i < j") (auto simp: bytes_between_def)
  show "cs ! i = c" "bytes_between cs (i + 1) j = v" using slice_Cons [OF lt assms(2)] assms(1) by simp_all
qed

lemma exponent_longest:
  assumes e: "exponent_part (bytes_between cs j n)" "j \<le> n" "n \<le> length cs"
  shows "n \<le> number_exponent cs j"
proof (cases "j = n")
  case True
  have "j \<le> number_exponent cs j"
    using scan_while_bounds [of "j + 1 + 1" cs calculator_is_digit] scan_while_bounds [of "j + 1 + 1 + 1" cs calculator_is_digit]
    by (auto simp: number_exponent_def Let_def input_at_def split: if_splits)
  then show ?thesis using True by simp
next
  case False
  then have "bytes_between cs j n \<noteq> []" using e(2,3) slice_empty_iff by auto
  then obtain sign ds where s: "bytes_between cs j n = CHR ''E'' # sign @ ds" "sign = [] \<or> sign = ''+'' \<or> sign = ''-''"
    "ds \<noteq> []" "set ds \<subseteq> digit_bytes" using e(1) by (auto simp: exponent_part_def)
  note E = bytes_first [OF s(1) e(3)]
  have "j + 1 \<le> n" using E(1) by simp
  note d = bytes_split [OF E(3) this e(3)]
  let ?c = "j + 1 + length sign"
  obtain x xs where x: "ds = x # xs" using s(3) by (cases ds) auto
  note c = bytes_first [OF d(2) [unfolded x] e(3)]
  have digit: "calculator_is_digit (input_at cs ?c)" using c s(4) e(3) by (simp add: input_at_def is_digit_iff x)
  have sign: "(if input_at cs (j + 1) = CHR ''+'' \<or> input_at cs (j + 1) = CHR ''-'' then j + 1 + 1 else j + 1) = ?c"
  proof (cases "sign = []")
    case True
    then show ?thesis using digit by (auto simp: is_digit_iff digit_bytes_def)
  next
    case False
    then obtain y where y: "sign = [y]" "y = CHR ''+'' \<or> y = CHR ''-''" using s(2) by auto
    have "cs ! (j + 1) = y" "j + 1 < ?c" using bytes_first [OF d(1) [unfolded y(1)]] d(3) e(3) y(1) by simp_all
    then show ?thesis using y d(3) e(3) by (auto simp: input_at_def)
  qed
  have "n \<le> scan_while calculator_is_digit cs (?c + 1)"
    by (rule scan_while_max) (use c s(4) e(3) in \<open>auto simp: is_digit_iff x\<close>)
  moreover have "input_at cs j = CHR ''E''" using E(1,2) e(3) by (simp add: input_at_def)
  ultimately show ?thesis using digit unfolding number_exponent_def Let_def sign by simp
qed

lemma number_longest:
  assumes l: "number_literal (bytes_between cs p n)" "p \<le> n" "n \<le> length cs"
  defines "i \<equiv> scan_while calculator_is_digit cs p"
  shows "n \<le> number_exponent cs (fst (number_fraction cs i))"
proof -
  have p: "p \<le> length cs" using l by simp
  note scanned = number_scanned [OF p, folded i_def]
  obtain whole fraction exponent where s: "bytes_between cs p n = whole @ fraction @ exponent" "set whole \<subseteq> digit_bytes"
    "fraction_part fraction" "exponent_part exponent" using l(1) by (auto simp: number_literal_def)
  let ?a = "p + length whole" and ?b = "p + length whole + length fraction"
  note w = bytes_split [OF s(1) l(2,3)]
  note f = bytes_split [OF w(2,3) l(3)]
  have b: "?b \<le> n" using f(3) by simp
  have ai: "?a \<le> i" unfolding i_def by (rule scan_while_max) (use w s(2) l(3) in \<open>auto simp: is_digit_iff\<close>)
  have run: "cs ! m \<in> digit_bytes" if "p \<le> m" "m < i" for m
    using in_bytes [of p m i cs] that scan_while_bounds [OF p, of calculator_is_digit]
    by (auto simp: i_def all_iff)
  have letter: "cs ! ?b = CHR ''E''" if "?b < n"
  proof -
    have "bytes_between cs ?b n \<noteq> []" using that l(3) slice_empty_iff [of ?b n cs] by simp
    then obtain u where "exponent = CHR ''E'' # u" using s(4) f(2) by (auto simp: exponent_part_def)
    from bytes_first [OF f(2) [unfolded this] l(3)] show ?thesis by simp
  qed
  have sep: "cs ! ?a \<in> separator_bytes" "set (bytes_between cs (?a + 1) ?b) \<subseteq> digit_bytes" if ab: "?a < ?b"
  proof -
    obtain c ds where c: "fraction = c # ds" "c \<in> separator_bytes" "set ds \<subseteq> digit_bytes"
      using s(3) ab by (auto simp: fraction_part_def)
    have "?b \<le> length cs" using b l(3) by simp
    from bytes_first [OF f(1) [unfolded c(1)]] this c show "cs ! ?a \<in> separator_bytes" "set (bytes_between cs (?a + 1) ?b) \<subseteq> digit_bytes"
      by simp_all
  qed
  have apart: "digit_bytes \<inter> separator_bytes = {}" "CHR ''E'' \<notin> digit_bytes" "CHR ''E'' \<notin> separator_bytes"
    by (simp_all add: digit_bytes_def separator_bytes_def)
  show ?thesis
  proof (cases "?a < i")
    case True
    then have "cs ! ?a \<in> digit_bytes" using run by simp
    then have "?a = ?b" "\<not> ?b < n" using sep(1) letter apart by fastforce+
    then show ?thesis using True b scanned(2) by simp
  next
    case False
    then have a: "?a = i" using ai by simp
    let ?sep = "calculator_is_decimal_separator (input_at cs i)"
    let ?j = "fst (number_fraction cs i)"
    have "?b \<le> ?j \<and> (?b < ?j \<longrightarrow> ?b = n) \<or> n \<le> i"
    proof (cases "?a < ?b")
      case True
      have "?a < length cs" using True b l(3) by linarith
      then have lt: "i < length cs" unfolding a .
      then have "?sep" using sep(1) [OF True] a by (simp add: input_at_def classes_iff)
      then have j: "?j = scan_while calculator_is_digit cs (i + 1)" by (simp add: number_fraction_def Let_def)
      have "i + 1 \<le> ?b" "?b \<le> length cs" using True a b l(3) by linarith+
      then have "?b \<le> ?j" unfolding j using sep(2) [OF True] a by (intro scan_while_max) (auto simp: is_digit_iff)
      moreover have "?b = n" if "?b < ?j"
      proof (rule ccontr)
        assume "?b \<noteq> n"
        have "cs ! ?b \<in> digit_bytes"
          using in_bytes [of "i + 1" ?b ?j cs] that True a scan_while_bounds [of "i + 1" cs calculator_is_digit] lt
          by (auto simp: j all_iff)
        then show False using letter b \<open>?b \<noteq> n\<close> apart by auto
      qed
      ultimately show ?thesis by blast
    next
      case False
      then have ib: "?b = i" using a by simp
      show ?thesis
      proof (cases ?sep)
        case True
        from input_at_class [of calculator_is_decimal_separator, OF True classes_nul(2)]
        have "i < length cs" "cs ! i \<in> separator_bytes" by (simp_all add: class_iff(1))
        then show ?thesis using letter ib apart by fastforce
      qed (use ib in \<open>simp add: number_fraction_def\<close>)
    qed
    then show ?thesis
    proof (elim disjE conjE)
      assume bj: "?b \<le> ?j" "?b < ?j \<longrightarrow> ?b = n"
      show ?thesis
      proof (cases "?b = n")
        case True
        have "?j \<le> number_exponent cs ?j" using exponent_longest [of cs ?j ?j] scanned(2,3)
          by (cases "?j \<le> length cs") (auto simp: exponent_part_def number_exponent_def input_at_def Let_def)
        then show ?thesis using True bj by simp
      next
        case False
        then have "?j = ?b" using bj by simp
        then show ?thesis using exponent_longest [of cs ?b n] f(2) s(4) b l(3) by simp
      qed
    qed (use scanned(2) in simp)
  qed
qed

text \<open>The length of the lexemes that are fixed.\<close>

fun fixed_length :: "CalculatorTokenType \<Rightarrow> nat option" where
  "fixed_length CALCULATOR_TOKEN_NUMBER = None"
| "fixed_length CALCULATOR_TOKEN_UNIT = None"
| "fixed_length CALCULATOR_TOKEN_IDENTIFIER = None"
| "fixed_length CALCULATOR_TOKEN_SQUARE = Some 2"
| "fixed_length CALCULATOR_TOKEN_CUBE = Some 2"
| "fixed_length CALCULATOR_TOKEN_SQRT = Some 3"
| "fixed_length _ = Some 1"

lemma fixed_lexeme: "lexeme type s \<Longrightarrow> fixed_length type = Some n \<Longrightarrow> length s = n"
  by (cases type) (auto simp: lexeme_types)

lemma bytes_lexeme:
  assumes "lexeme type (bytes_between cs q i)" "q < i" "i \<le> length cs"
  shows "cs ! q \<in> first_bytes type"
  using lexeme_first [OF assms(1)] slice_Cons [OF assms(2,3)] by auto

lemma longest_fixed:
  assumes l: "lexeme type (bytes_between cs q j)" "q < j" "j \<le> length cs" and n: "fixed_length type = Some n"
  shows "longest_lexeme cs q type j"
proof -
  have "\<not> lexeme type' (bytes_between cs q i)" if i: "j < i" "i \<le> length cs" for i type'
  proof
    assume l': "lexeme type' (bytes_between cs q i)"
    have "q < i" using i l(2) by simp
    have "type = type' \<or> {type, type'} = {CALCULATOR_TOKEN_SQUARE, CALCULATOR_TOKEN_CUBE}"
      by (rule first_bytes_apart [OF bytes_lexeme [OF l] bytes_lexeme [OF l' \<open>q < i\<close> i(2)]])
    then have "fixed_length type' = Some n" using n by (auto simp: doubleton_eq_iff)
    from fixed_lexeme [OF l' this] fixed_lexeme [OF l(1) n] show False using i l(2,3) by (simp add: length_slice)
  qed
  then show ?thesis using l by (simp add: longest_lexeme_def)
qed

lemma longest_number:
  assumes l: "number_literal (bytes_between cs q k)" "q < k" "k \<le> length cs"
    and k: "k = number_exponent cs (fst (number_fraction cs (scan_while calculator_is_digit cs q)))"
  shows "longest_lexeme cs q CALCULATOR_TOKEN_NUMBER k"
proof -
  have "\<not> lexeme type (bytes_between cs q i)" if i: "k < i" "i \<le> length cs" for i type
  proof
    assume l': "lexeme type (bytes_between cs q i)"
    have "cs ! q \<in> first_bytes CALCULATOR_TOKEN_NUMBER" "cs ! q \<in> first_bytes type"
      using bytes_lexeme [OF _ l(2,3), of CALCULATOR_TOKEN_NUMBER] bytes_lexeme [OF l'] l i by (simp_all add: lexeme_types)
    then have "type = CALCULATOR_TOKEN_NUMBER" using first_bytes_apart by (fastforce simp: doubleton_eq_iff)
    then show False using number_longest [of cs q i] l' l(2) i by (simp add: lexeme_types k)
  qed
  then show ?thesis using l by (simp add: longest_lexeme_def lexeme_types)
qed

lemma longest_name:
  assumes "q < length cs" "cs ! q \<in> letter_bytes"
  defines "j \<equiv> scan_while calculator_is_identifier_start cs (q + 1)"
  shows "longest_lexeme cs q CALCULATOR_TOKEN_IDENTIFIER j"
proof -
  have j: "q + 1 \<le> j" "j \<le> length cs" "set (bytes_between cs (q + 1) j) \<subseteq> letter_bytes"
    using scan_while_bounds [of "q + 1" cs calculator_is_identifier_start] assms(1) by (simp_all add: j_def all_iff)
  have b: "bytes_between cs q i = cs ! q # bytes_between cs (q + 1) i" if "q < i" "i \<le> length cs" for i
    using slice_Cons [OF that] by simp
  have notgreek: "CHR 0xCF \<notin> letter_bytes" by (simp add: letter_bytes_def)
  have "\<not> lexeme type (bytes_between cs q i)" if i: "j < i" "i \<le> length cs" for i type
  proof
    assume l': "lexeme type (bytes_between cs q i)"
    have qi: "q < i" using i j(1) by simp
    have "cs ! q \<in> first_bytes CALCULATOR_TOKEN_IDENTIFIER" using assms(2) by simp
    then have "type = CALCULATOR_TOKEN_IDENTIFIER"
      using first_bytes_apart [OF bytes_lexeme [OF l' qi i(2)]] by (fastforce simp: doubleton_eq_iff)
    then have "set (bytes_between cs (q + 1) i) \<subseteq> letter_bytes"
      using l' assms(2) notgreek by (auto simp: lexeme_types b [OF qi i(2)])
    then have "i \<le> j" unfolding j_def by (intro scan_while_max) (use qi i in \<open>auto simp: is_letter_iff\<close>)
    then show False using i by simp
  qed
  then show ?thesis using j assms(2) b [of j] by (simp add: longest_lexeme_def lexeme_types)
qed

lemma longest_greek:
  assumes "calculator_is_greek_constant_start cs q"
  shows "longest_lexeme cs q CALCULATOR_TOKEN_IDENTIFIER (q + 2)"
proof -
  have lt: "q + 1 < length cs" and at: "cs ! q = CHR 0xCF" "cs ! (q + 1) = CHR 0x80 \<or> cs ! (q + 1) = CHR 0x86"
    using assms by (auto simp: calculator_is_greek_constant_start_def input_at_def split: if_splits)
  have b: "bytes_between cs q (q + 2) = [cs ! q, cs ! (q + 1)]"
    using slice_Cons [of q "q + 2" cs] slice_one [of "q + 1" cs] lt by simp
  have notgreek: "CHR 0xCF \<notin> letter_bytes" by (simp add: letter_bytes_def)
  have "\<not> lexeme type (bytes_between cs q i)" if i: "q + 2 < i" "i \<le> length cs" for i type
  proof
    assume l': "lexeme type (bytes_between cs q i)"
    have qi: "q < i" using i by simp
    have "cs ! q \<in> first_bytes CALCULATOR_TOKEN_IDENTIFIER" using at by simp
    then have "type = CALCULATOR_TOKEN_IDENTIFIER"
      using first_bytes_apart [OF bytes_lexeme [OF l' qi i(2)]] by (fastforce simp: doubleton_eq_iff)
    then have "length (bytes_between cs q i) = 2"
      using l' at(1) notgreek slice_Cons [OF qi i(2)] by (auto simp: lexeme_types)
    then show False using i by (simp add: length_slice)
  qed
  moreover have "lexeme CALCULATOR_TOKEN_IDENTIFIER (bytes_between cs q (q + 2))"
    unfolding b using at by (auto simp: lexeme_types)
  ultimately show ?thesis using lt unfolding longest_lexeme_def by auto
qed

lemma longest_unit:
  assumes q: "cs ! q = CHR 0x22" and j: "q < j" "j < length cs" "cs ! j = CHR 0x22" "set (bytes_between cs (q + 1) j) \<subseteq> unit_bytes"
  shows "longest_lexeme cs q CALCULATOR_TOKEN_UNIT (j + 1)"
proof -
  have b: "bytes_between cs q (j + 1) = [CHR 0x22] @ bytes_between cs (q + 1) j @ [CHR 0x22]"
    using slice_Cons [of q "j + 1" cs] slice_append [of "q + 1" j "j + 1" cs] slice_one [of j cs] q j by simp
  have "\<not> lexeme type (bytes_between cs q i)" if i: "j + 1 < i" "i \<le> length cs" for i type
  proof
    assume l': "lexeme type (bytes_between cs q i)"
    have "q < i" using i j(1) by simp
    note u = unit_closed [OF q l' this i(2)]
    have "q + 1 \<le> j" "j < i - 1" "i - 1 \<le> length cs" using j(1) i by simp_all
    from in_bytes [OF this] show False using u(4) j(3) disjoint_classes(2) by auto
  qed
  moreover have "lexeme CALCULATOR_TOKEN_UNIT (bytes_between cs q (j + 1))" unfolding b lexeme_types using j(4) by blast
  ultimately show ?thesis using j unfolding longest_lexeme_def by auto
qed

section \<open>A step of the tokenizer\<close>

definition lexical_outcome :: "string \<Rightarrow> nat \<Rightarrow> token_result \<Rightarrow> bool" where
  "lexical_outcome cs q r = (case r of (status, b, t, err) \<Rightarrow>
     if status = CALCULATOR_OK
     then if token_type t = CALCULATOR_TOKEN_END then q = length cs \<and> t = end_token q else token_at cs q t (tokenizer_offset b)
     else lexical_error cs q (error_offset err))"

lemma lexical_error_outcome: "lexical_error cs q j \<Longrightarrow>
    lexical_outcome cs q (CALCULATOR_INVALID_TOKEN, b, t, calculator_error_set err CALCULATOR_INVALID_TOKEN j)"
  by (simp add: lexical_outcome_def calculator_error_set_def)

lemma lexical_token_outcome:
  assumes "longest_lexeme cs q type j" "tokenizer_offset b = j" "n = j - q" "type \<noteq> CALCULATOR_TOKEN_UNIT"
    "type = CALCULATOR_TOKEN_NUMBER \<Longrightarrow> j < length cs \<Longrightarrow> cs ! j \<notin> separator_bytes"
  shows "lexical_outcome cs q (CALCULATOR_OK, b, calculator_set_token t type q n q, err)"
proof -
  have "type \<noteq> CALCULATOR_TOKEN_END" using assms(1) by (auto simp: longest_lexeme_def lexeme_types)
  then show ?thesis using assms by (auto simp: lexical_outcome_def calculator_set_token_def token_at_def)
qed

lemma read_number_lexical:
  assumes q: "q < length cs" and cs: "tokenizer_input a = cs"
    and start: "calculator_is_digit (cs ! q) \<or> calculator_is_decimal_separator (cs ! q) \<and> calculator_is_digit (input_at cs (q + 1))"
  shows "lexical_outcome cs q (calculator_read_number (a\<lparr>tokenizer_offset := q\<rparr>) t err)"
proof -
  let ?i = "scan_while calculator_is_digit cs q"
  let ?k = "number_exponent cs (fst (number_fraction cs ?i))"
  have some: "q < ?i \<or> snd (number_fraction cs ?i)"
  proof (cases "calculator_is_digit (cs ! q)")
    case True
    have "q + 1 \<le> ?i" by (rule scan_while_max) (use q True slice_one [OF q] in auto)
    then show ?thesis by simp
  next
    case False
    then have i: "?i = q" by (subst scan_while.simps) simp
    have sep: "calculator_is_decimal_separator (cs ! q)" and d: "q + 1 < length cs" "calculator_is_digit (cs ! (q + 1))"
      using start False input_at_class [of calculator_is_digit cs "q + 1"] by auto
    have "q + 1 + 1 \<le> scan_while calculator_is_digit cs (q + 1)"
      by (rule scan_while_max) (use d slice_one [OF d(1)] in auto)
    then show ?thesis using sep q by (simp add: i number_fraction_def input_at_def Let_def)
  qed
  have k: "q < ?k" "?k \<le> length cs" "number_literal (bytes_between cs q ?k)"
    using number_scanned(3,4) [of q cs] some q by simp_all
  note long = longest_number [OF k(3,1,2) refl]
  show ?thesis
  proof (cases "calculator_is_decimal_separator (input_at cs ?k)")
    case True
    from input_at_class [of calculator_is_decimal_separator, OF True classes_nul(2)]
    have "?k < length cs" "cs ! ?k \<in> separator_bytes" by (simp_all add: class_iff(1))
    then have "lexical_error cs q ?k" by (rule second_separator [OF long])
    then show ?thesis unfolding read_number_eq cs Let_def using some True by (simp add: lexical_error_outcome)
  next
    case False
    have "lexical_outcome cs q (CALCULATOR_OK, a\<lparr>tokenizer_offset := ?k\<rparr>,
        calculator_set_token t CALCULATOR_TOKEN_NUMBER q (?k - q) q, calculator_error_clear err)"
      by (rule lexical_token_outcome [OF long]) (use False in \<open>auto simp: input_at_def class_iff\<close>)
    then show ?thesis unfolding read_number_eq cs Let_def using some False by simp
  qed
qed

lemma read_identifier_lexical:
  assumes q: "q < length cs" and cs: "tokenizer_input a = cs"
    and start: "calculator_is_greek_constant_start cs q \<or> calculator_is_identifier_start (cs ! q)"
  shows "lexical_outcome cs q (calculator_read_identifier (a\<lparr>tokenizer_offset := q\<rparr>) t err)"
proof (cases "calculator_is_greek_constant_start cs q")
  case True
  have "lexical_outcome cs q (CALCULATOR_OK, a\<lparr>tokenizer_offset := q + 2\<rparr>,
      calculator_set_token t CALCULATOR_TOKEN_IDENTIFIER q 2 q, calculator_error_clear err)"
    by (rule lexical_token_outcome [OF longest_greek [OF True]]) simp_all
  then show ?thesis using True by (simp add: calculator_read_identifier_def cs)
next
  case False
  then have "cs ! q \<in> letter_bytes" using start by (simp add: is_letter_iff)
  from longest_name [OF q this]
  have "lexical_outcome cs q (CALCULATOR_OK, a\<lparr>tokenizer_offset := scan_while calculator_is_identifier_start cs (q + 1)\<rparr>,
      calculator_set_token t CALCULATOR_TOKEN_IDENTIFIER q (scan_while calculator_is_identifier_start cs (q + 1) - q) q,
      calculator_error_clear err)" by (rule lexical_token_outcome) simp_all
  then show ?thesis using False by (simp add: calculator_read_identifier_def cs Let_def)
qed

lemma operator_lexical:
  assumes q: "q < length cs" and "operator_token (cs ! q) = Some type"
  shows "longest_lexeme cs q type (q + 1)" "type \<noteq> CALCULATOR_TOKEN_UNIT" "type \<noteq> CALCULATOR_TOKEN_NUMBER"
proof -
  have "fixed_length type = Some 1" "lexeme type [cs ! q]"
    using assms(2) by (auto simp: operator_token_def lexeme_types split: if_splits)
  then show "longest_lexeme cs q type (q + 1)" using q slice_one [OF q] by (intro longest_fixed) simp_all
  show "type \<noteq> CALCULATOR_TOKEN_UNIT" "type \<noteq> CALCULATOR_TOKEN_NUMBER"
    using assms(2) by (auto simp: operator_token_def split: if_splits)
qed

text \<open>Where no branch of the tokenizer applies, there is no lexeme.\<close>

lemma nothing_starts:
  assumes q: "q < length cs" and l: "lexeme type (bytes_between cs q i)" "q < i" "i \<le> length cs"
    and none: "\<not> (length cs - q \<ge> 3 \<and> take 3 (drop q cs) = [CHR 0xE2, CHR 0x88, CHR 0x9A])"
    "\<not> (calculator_is_digit (cs ! q) \<or> calculator_is_decimal_separator (cs ! q) \<and> calculator_is_digit (input_at cs (q + 1)))"
    "calculator_superscript_token_type cs q = CALCULATOR_TOKEN_END"
    "\<not> (calculator_is_greek_constant_start cs q \<or> calculator_is_identifier_start (cs ! q))"
    "cs ! q \<noteq> CHR 0x22" "operator_token (cs ! q) = None"
  shows False
proof -
  have b: "bytes_between cs q i = cs ! q # bytes_between cs (q + 1) i" using slice_Cons [OF l(2,3)] by simp
  have second: "q + 1 < length cs \<and> input_at cs (q + 1) = c" if "bytes_between cs (q + 1) i = c # u" for c u
    using bytes_first [OF that l(3)] l(3) by (simp add: input_at_def)
  have at: "input_at cs q = cs ! q" using q by (simp add: input_at_def)
  show False
  proof (cases type)
    case CALCULATOR_TOKEN_NUMBER
    then obtain whole fraction exponent where s: "bytes_between cs q i = whole @ fraction @ exponent" "set whole \<subseteq> digit_bytes"
      "fraction_part fraction" "whole \<noteq> [] \<or> 1 < length fraction" using l(1) by (auto simp: lexeme_types number_literal_def)
    show False
    proof (cases whole)
      case Nil
      then obtain c d ds where f: "fraction = c # d # ds" "c \<in> separator_bytes" "d \<in> digit_bytes"
        using s(3,4) by (auto simp: fraction_part_def neq_Nil_conv)
      then have "cs ! q = c" "bytes_between cs (q + 1) i = d # ds @ exponent" using s(1) b Nil by simp_all
      then show False using second f none(2) by (auto simp: classes_iff)
    next
      case (Cons c whole')
      then show False using s(1,2) b none(2) by (auto simp: is_digit_iff)
    qed
  next
    case CALCULATOR_TOKEN_IDENTIFIER
    then show False using l(1) b none(4) second
      by (auto simp: lexeme_types calculator_is_greek_constant_start_def at is_letter_iff)
  next
    case CALCULATOR_TOKEN_SQUARE
    then show False using l(1) b none(3) second by (auto simp: lexeme_types calculator_superscript_token_type_def at)
  next
    case CALCULATOR_TOKEN_CUBE
    then show False using l(1) b none(3) second by (auto simp: lexeme_types calculator_superscript_token_type_def at)
  next
    case CALCULATOR_TOKEN_SQRT
    then have r: "bytes_between cs q i = [CHR 0xE2, CHR 0x88, CHR 0x9A]" using l(1) by (simp add: lexeme_types)
    from bytes_split [of cs q i "[CHR 0xE2, CHR 0x88, CHR 0x9A]" "[]"] r l have "i = q + 3" by simp
    then show False using r none(1) l(3) by (simp add: bytes_between_def)
  qed (use l(1) b none(5,6) in \<open>auto simp: lexeme_types operator_token_def\<close>)
qed






lemma next_lexical:
  assumes wf: "tokenizer_wf a" and cs: "tokenizer_input a = cs"
  shows "\<exists>q. skips cs (tokenizer_offset a) q \<and> lexical_outcome cs q (calculator_tokenizer_next a t err)"
proof -
  define q where "q = scan_while calculator_is_whitespace cs (tokenizer_offset a)"
  have a: "tokenizer_offset a \<le> length cs" "tokenizer_length a = length cs" "CHR 0x00 \<notin> set cs"
    using wf by (simp_all add: tokenizer_wf_def cs)
  have skips: "skips cs (tokenizer_offset a) q"
    using scan_while_bounds [OF a(1), of calculator_is_whitespace] by (simp add: q_def skips_def all_iff class_iff)
  note next_def = calculator_tokenizer_next_def [of a t err, unfolded Let_def cs, folded q_def]
  have "lexical_outcome cs q (calculator_tokenizer_next a t err)"
  proof (cases "q < length cs")
    case False
    then have q: "q = length cs" using skips by (simp add: skips_def)
    then have nul: "input_at cs (length cs) = CHR 0x00" "input_at cs (Suc (length cs)) = CHR 0x00" by (simp_all add: input_at_def)
    have "calculator_tokenizer_next a t err =
      (CALCULATOR_OK, a\<lparr>tokenizer_offset := q\<rparr>, calculator_set_token t CALCULATOR_TOKEN_END q 0 q, calculator_error_clear err)"
      unfolding next_def by (simp add: nul calculator_superscript_token_type_def calculator_is_greek_constant_start_def
          operator_token_def a(2) q)
    then show ?thesis using q by (simp add: lexical_outcome_def calculator_set_token_def end_token_def)
  next
    case True
    have at: "input_at cs q = cs ! q" using True by (simp add: input_at_def)
    let ?root = "length cs - q \<ge> 3 \<and> take 3 (drop q cs) = [CHR 0xE2, CHR 0x88, CHR 0x9A]"
    let ?number = "calculator_is_digit (cs ! q) \<or> calculator_is_decimal_separator (cs ! q) \<and> calculator_is_digit (input_at cs (q + 1))"
    let ?sup = "calculator_superscript_token_type cs q"
    let ?name = "calculator_is_greek_constant_start cs q \<or> calculator_is_identifier_start (cs ! q)"
    show ?thesis
    proof (cases ?root)
      case root: True
      have "longest_lexeme cs q CALCULATOR_TOKEN_SQRT (q + 3)"
        using root True by (intro longest_fixed) (auto simp: lexeme_types bytes_between_def)
      from lexical_token_outcome [OF this, of "a\<lparr>tokenizer_offset := q + 3\<rparr>" 3] root show ?thesis
        by (simp add: next_def a(2))
    next
      case nroot: False
      show ?thesis
      proof (cases ?number)
        case num: True
        with nroot read_number_lexical [OF True cs num, of t err] show ?thesis by (auto simp: next_def a(2) at)
      next
        case nnum: False
        show ?thesis
        proof (cases "?sup = CALCULATOR_TOKEN_END")
          case False
          have lt: "q + 1 < length cs" and two: "?sup = CALCULATOR_TOKEN_SQUARE \<or> ?sup = CALCULATOR_TOKEN_CUBE"
            using False by (auto simp: calculator_superscript_token_type_def input_at_def split: if_splits)
          have "bytes_between cs q (q + 2) = [cs ! q, cs ! (q + 1)]"
            using slice_Cons [of q "q + 2" cs] slice_one [of "q + 1" cs] lt by simp
          then have "lexeme ?sup (bytes_between cs q (q + 2))"
            using False lt by (auto simp: calculator_superscript_token_type_def input_at_def lexeme_types split: if_splits)
          then have "longest_lexeme cs q ?sup (q + 2)" using two lt by (intro longest_fixed) auto
          from lexical_token_outcome [OF this, of "a\<lparr>tokenizer_offset := q + 2\<rparr>" 2] two nroot nnum show ?thesis
            by (auto simp: next_def a(2) at)
        next
          case nsup: True
          show ?thesis
          proof (cases ?name)
            case name: True
            with nroot nnum nsup read_identifier_lexical [OF True cs name, of t err] show ?thesis
              by (auto simp: next_def a(2) at)
          next
            case nname: False
            show ?thesis
            proof (cases "cs ! q = CHR 0x22")
              case quote: True
              define j where "j = scan_while unit_character cs (q + 1)"
              have j: "q + 1 \<le> j" "j \<le> length cs" "set (bytes_between cs (q + 1) j) \<subseteq> unit_bytes"
                "j < length cs \<Longrightarrow> cs ! j \<notin> unit_bytes"
                using scan_while_bounds [of "q + 1" cs unit_character] True by (simp_all add: j_def all_iff class_iff)
              have ru: "read_unit cs (Suc q) = (input_at cs j = CHR 0x22, j)" by (simp add: read_unit_def Let_def j_def)
              have run: "calculator_tokenizer_next a t err =
                (if input_at cs j \<noteq> CHR 0x22
                 then (CALCULATOR_INVALID_TOKEN, a\<lparr>tokenizer_offset := q\<rparr>, t, calculator_error_set err CALCULATOR_INVALID_TOKEN j)
                 else (CALCULATOR_OK, a\<lparr>tokenizer_offset := j + 1\<rparr>,
                   calculator_set_token t CALCULATOR_TOKEN_UNIT (q + 1) (j - q - 1) q, calculator_error_clear err))"
                using nroot nnum nsup nname quote by (auto simp: next_def ru a(2) at)
              show ?thesis
              proof (cases "input_at cs j = CHR 0x22")
                case closed: True
                then have jl: "j < length cs" "cs ! j = CHR 0x22" by (auto simp: input_at_def split: if_splits)
                have "longest_lexeme cs q CALCULATOR_TOKEN_UNIT (j + 1)" by (rule longest_unit [OF quote _ jl j(3)]) (use j in simp)
                then show ?thesis using closed j(1)
                  by (simp add: run lexical_outcome_def token_at_def calculator_set_token_def)
              next
                case open_unit: False
                have "lexical_error cs q j"
                  by (rule unit_broken) (use j quote open_unit in \<open>auto simp: input_at_def\<close>)
                then show ?thesis using open_unit by (simp add: run lexical_error_outcome)
              qed
            next
              case nquote: False
              have run: "calculator_tokenizer_next a t err =
                (case operator_token (cs ! q) of
                   Some type \<Rightarrow> (CALCULATOR_OK, a\<lparr>tokenizer_offset := q + 1\<rparr>,
                     calculator_set_token t type q 1 q, calculator_error_clear err)
                 | None \<Rightarrow> (CALCULATOR_INVALID_TOKEN, a\<lparr>tokenizer_offset := q\<rparr>, t, calculator_error_set err CALCULATOR_INVALID_TOKEN q))"
                using nroot nnum nsup nname nquote a(3) nth_mem [OF True] by (auto simp: next_def a(2) at split: option.splits)
              show ?thesis
              proof (cases "operator_token (cs ! q)")
                case None
                have "lexical_error cs q q"
                  using nothing_starts [OF True _ _ _ nroot nnum nsup nname nquote None] True nquote by (intro no_lexeme) auto
                then show ?thesis by (simp add: run None lexical_error_outcome)
              next
                case (Some type)
                note o = operator_lexical [OF True Some]
                show ?thesis unfolding run Some option.case
                  by (rule lexical_token_outcome [OF o(1)]) (use o in simp_all)
              qed
            qed
          qed
        qed
      qed
    qed
  qed
  with skips show ?thesis by blast
qed


section \<open>The whole input\<close>

lemma tokenize_lexes:
  "tokenizer_wf a \<Longrightarrow> tokenizer_input a = cs \<Longrightarrow> length cs - tokenizer_offset a < fuel \<Longrightarrow>
   \<exists>status ts err'. tokenize fuel a t err = Some (status, ts, err') \<and>
     lexes cs (tokenizer_offset a) ts (if status = CALCULATOR_OK then None else Some (error_offset err')) \<and>
     status = error_status err' \<and> status \<in> {CALCULATOR_OK, CALCULATOR_INVALID_TOKEN}"
proof (induction fuel arbitrary: a t err)
  case (Suc fuel)
  obtain status b t' err' where n: "calculator_tokenizer_next a t err = (status, b, t', err')" by (metis prod_cases4)
  note step = tokenizer_step [OF Suc.prems(1), of t err, unfolded n step_outcome_def prod.case]
  obtain q where q: "skips cs (tokenizer_offset a) q" "lexical_outcome cs q (status, b, t', err')"
    using next_lexical [OF Suc.prems(1,2), of t err] unfolding n by blast
  show ?case
  proof (cases "status = CALCULATOR_OK")
    case False
    then have "lexes cs (tokenizer_offset a) [] (Some (error_offset err'))"
      using q by (intro lexes_error) (simp_all add: lexical_outcome_def)
    then show ?thesis using False step by (simp add: n)
  next
    case True
    with step have st: "token_step a b t'" by simp
    note d = token_stepD [OF st Suc.prems(1), unfolded Suc.prems(2)]
    show ?thesis
    proof (cases "token_type t' = CALCULATOR_TOKEN_END")
      case stop: True
      then have "lexes cs (tokenizer_offset a) [t'] None" using q True by (auto simp: lexical_outcome_def intro: lexes_end)
      then show ?thesis using True stop step by (simp add: n)
    next
      case more: False
      have "length cs - tokenizer_offset b < fuel" using Suc.prems(3) d(4,5) more by simp
      from Suc.IH [OF d(1,2) this, of t' err'] obtain status' ts err'' where r: "tokenize fuel b t' err' = Some (status', ts, err'')"
        "lexes cs (tokenizer_offset b) ts (if status' = CALCULATOR_OK then None else Some (error_offset err''))"
        "status' = error_status err'' \<and> status' \<in> {CALCULATOR_OK, CALCULATOR_INVALID_TOKEN}" by blast
      have "token_at cs q t' (tokenizer_offset b)" using q(2) True more by (simp add: lexical_outcome_def)
      from lexes_token [OF q(1) this r(2)] show ?thesis using True more r(1,3) by (auto simp: n)
    qed
  qed
qed simp

section \<open>Properties\<close>

text \<open>C25: Tokenizing any input ends within one step per byte and one more, and returns exactly the tokens of the
  input: after white space the longest lexeme of any class, up to the end of the input, which is the last token, or
  up to the first error. An error is a byte where no lexeme starts, reported at its position, or the byte that
  breaks off a unit, at its own position, or a separator directly behind a number, at the position of the separator.
  The relation \<open>lexes\<close> says this with the classes spelled out as sets of bytes, and no other tokens and no other
  error are in it. With the white space between them the tokens spell the input, or what is before the error.\<close>

theorem tokenizer_correct:
  assumes "CHR 0x00 \<notin> set cs"
  shows "case tokenize (Suc (length cs)) (calculator_tokenizer_init cs) t err of
      None \<Rightarrow> False
    | Some (status, ts, err') \<Rightarrow>
        (\<forall>us r. lexes cs 0 us r \<longleftrightarrow> us = ts \<and> r = (if status = CALCULATOR_OK then None else Some (error_offset err'))) \<and>
        status = error_status err' \<and> status \<in> {CALCULATOR_OK, CALCULATOR_INVALID_TOKEN} \<and>
        (\<exists>ws. length ws = length ts \<and> (\<forall>w \<in> set ws. set w \<subseteq> white_space) \<and>
          (if status = CALCULATOR_OK then tokens_text cs ws ts = cs
           else \<exists>n \<le> error_offset err'. tokens_text cs ws ts = take n cs))"
proof -
  let ?a = "calculator_tokenizer_init cs"
  have wf: "tokenizer_wf ?a" "tokenizer_input ?a = cs" "tokenizer_offset ?a = 0"
    using assms by (simp_all add: calculator_tokenizer_init_def tokenizer_wf_def)
  have "length cs - tokenizer_offset ?a < Suc (length cs)" by simp
  from tokenize_lexes [OF wf(1,2) this, of t err] obtain status ts err' where
    r: "tokenize (Suc (length cs)) ?a t err = Some (status, ts, err')"
    "lexes cs 0 ts (if status = CALCULATOR_OK then None else Some (error_offset err'))"
    "status = error_status err' \<and> status \<in> {CALCULATOR_OK, CALCULATOR_INVALID_TOKEN}"
    unfolding wf by blast
  have "lexes cs 0 us r' \<longleftrightarrow> us = ts \<and> r' = (if status = CALCULATOR_OK then None else Some (error_offset err'))" for us r'
    using r(2) lexes_unique [OF r(2), of us r'] by blast
  then show ?thesis
    using r(1,3) tokenizer_covers_input [OF assms, of t err] by (auto simp: all_iff)
qed

text \<open>Tokens up to the second separator, with the position of the error.\<close>

theorem tokenizer_correct_witness:
  "case tokenize 8 (calculator_tokenizer_init ''2 +1.5.'') no_token no_error of
    None \<Rightarrow> False
  | Some (status, ts, err) \<Rightarrow> status = CALCULATOR_INVALID_TOKEN \<and> length ts = 2 \<and> error_offset err = 6 \<and>
      lexes ''2 +1.5.'' 0 ts (Some 6)"
proof -
  have "case tokenize 8 (calculator_tokenizer_init ''2 +1.5.'') no_token no_error of
    None \<Rightarrow> False | Some (status, ts, err) \<Rightarrow> status = CALCULATOR_INVALID_TOKEN \<and> length ts = 2 \<and> error_offset err = 6"
    by code_simp
  then obtain ts err where r: "tokenize 8 (calculator_tokenizer_init ''2 +1.5.'') no_token no_error = Some (CALCULATOR_INVALID_TOKEN, ts, err)"
    "length ts = 2" "error_offset err = 6"
    by (cases "tokenize 8 (calculator_tokenizer_init ''2 +1.5.'') no_token no_error") auto
  have "CHR 0x00 \<notin> set ''2 +1.5.''" "Suc (length ''2 +1.5.'') = 8" by simp_all
  from tokenizer_correct [OF this(1), of no_token no_error, unfolded this(2) r(1) option.case prod.case] r(2,3)
  have "lexes ''2 +1.5.'' 0 ts (Some 6)" by simp
  then show ?thesis unfolding r(1) option.case prod.case using r(2,3) by simp
qed

end
