(* ===== verification/Calculator_Grammar.thy ===== *)
theory Calculator_Grammar
  imports Calculator_Parser Calculator_Lexemes
begin

text \<open>
  The grammar of expressions, by token lists, and the proof that the parser follows it: a parse function returns
  a tree the grammar derives from the tokens it consumed, or records an error. The grammar has the recursion depth
  as an index, as sentences nested too deeply are rejected. Its tables (operators, first tokens, arities, names) are
  its own and are compared with those of the parser below.
\<close>

section \<open>Token lists\<close>

text \<open>What the tokenizer reads next does not depend on the token and the error it overwrites.\<close>

definition next_token :: "CalculatorTokenizer \<Rightarrow> (CalculatorToken \<times> CalculatorTokenizer) option" where
  "next_token a = (case calculator_tokenizer_next a no_token no_error of (status, b, t, err) \<Rightarrow>
     if status = CALCULATOR_OK then Some (t, b) else None)"

primrec lexed :: "CalculatorTokenizer \<Rightarrow> CalculatorToken list \<Rightarrow> CalculatorTokenizer \<Rightarrow> bool" where
  "lexed a [] b \<longleftrightarrow> b = a"
| "lexed a (t # ts) b \<longleftrightarrow> (\<exists>c. next_token a = Some (t, c) \<and> lexed c ts b)"

definition numbers_apart :: "CalculatorToken list \<Rightarrow> bool" where
  "numbers_apart = successively (\<lambda>t t'. \<not> (token_type t = CALCULATOR_TOKEN_NUMBER \<and> token_type t' = CALCULATOR_TOKEN_NUMBER))"

section \<open>The tables of the grammar\<close>

inductive postfix_symbol :: "CalculatorTokenType \<Rightarrow> CalculatorPostfixOperator \<Rightarrow> bool" where
  "postfix_symbol CALCULATOR_TOKEN_SQUARE CALCULATOR_POSTFIX_SQUARE"
| "postfix_symbol CALCULATOR_TOKEN_CUBE CALCULATOR_POSTFIX_CUBE"
| "postfix_symbol CALCULATOR_TOKEN_FACTORIAL CALCULATOR_POSTFIX_FACTORIAL"

definition primary_first :: "CalculatorTokenType set" where
  "primary_first =
     {CALCULATOR_TOKEN_NUMBER, CALCULATOR_TOKEN_IDENTIFIER, CALCULATOR_TOKEN_SQRT, CALCULATOR_TOKEN_LEFT_PAREN}"

text \<open>A tree that may still become the operand of a node.\<close>

definition shallow :: "CalculatorExpression \<Rightarrow> bool" where
  "shallow e \<longleftrightarrow> Suc (expression_depth e) \<le> 256"

text \<open>Quoted units count as arguments; a maximum of zero stands for no maximum.\<close>

definition unit_count :: "CalculatorFunction \<Rightarrow> nat" where
  "unit_count f = (case implementation f of CALCULATOR_FUNCTION_QUANTITY \<Rightarrow> 1 | CALCULATOR_FUNCTION_CONVERT \<Rightarrow> 2 | _ \<Rightarrow> 0)"

definition arity_ok :: "CalculatorFunction \<Rightarrow> nat \<Rightarrow> bool" where
  "arity_ok f n \<longleftrightarrow> n + unit_count f \<ge> minimum_arguments f \<and> (maximum_arguments f > 0 \<longrightarrow> n + unit_count f \<le> maximum_arguments f)"

definition function_named :: "string \<Rightarrow> CalculatorFunction \<Rightarrow> bool" where
  "function_named name f \<longleftrightarrow> f \<in> set calculator_functions \<and> function_name f = name"

section \<open>The grammar\<close>

definition binary_node ::
  "CalculatorBinaryOperator \<Rightarrow> CalculatorToken \<Rightarrow> CalculatorExpression \<Rightarrow> CalculatorExpression \<Rightarrow> CalculatorExpression" where
  "binary_node operation t left right = CALCULATOR_EXPRESSION_BINARY (token_offset t)
     (Suc (max (expression_depth left) (expression_depth right))) operation left right"

text \<open>The depth of a call with these arguments, from the depth of the node alone.\<close>

definition call_depth :: "nat \<Rightarrow> CalculatorExpression list \<Rightarrow> nat" where
  "call_depth depth arguments = foldl (\<lambda>d e. max d (Suc (expression_depth e))) depth arguments"

inductive postfix_tail :: "CalculatorExpression \<Rightarrow> CalculatorToken list \<Rightarrow> CalculatorExpression \<Rightarrow> bool" where
  postfix_end: "postfix_tail e [] e"
| postfix_more: "postfix_symbol (token_type t) operation \<Longrightarrow> shallow e \<Longrightarrow>
    postfix_tail (CALCULATOR_EXPRESSION_POSTFIX (token_offset t) (Suc (expression_depth e)) operation e) ts e' \<Longrightarrow>
    postfix_tail e (t # ts) e'"

definition unit_argument :: "UnitDefinition list \<Rightarrow> string \<Rightarrow> string option \<Rightarrow> CalculatorToken list \<Rightarrow> string \<Rightarrow> bool" where
  "unit_argument units cs from_unit ts name \<longleftrightarrow> (\<exists>semicolon t. ts = [semicolon, t] \<and>
     token_type semicolon = CALCULATOR_TOKEN_SEMICOLON \<and> token_type t = CALCULATOR_TOKEN_UNIT \<and>
     0 < token_length t \<and> token_length t < 32 \<and> name = token_slice cs t \<and> numforge_unit_find units name \<noteq> None \<and>
     (case from_unit of None \<Rightarrow> True | Some from_unit \<Rightarrow> numforge_units_compatible units from_unit name))"

definition unit_arguments ::
  "UnitDefinition list \<Rightarrow> string \<Rightarrow> CalculatorFunction \<Rightarrow> CalculatorToken list \<Rightarrow> string \<Rightarrow> string \<Rightarrow> bool" where
  "unit_arguments units cs f ts from_unit to_unit \<longleftrightarrow>
    (if unit_count f = 1 then unit_argument units cs None ts from_unit \<and> to_unit = []
     else \<exists>us ws. ts = us @ ws \<and> unit_argument units cs None us from_unit \<and> unit_argument units cs (Some from_unit) ws to_unit)"

text \<open>The name a call starts with.\<close>

definition call_name :: "string \<Rightarrow> CalculatorToken \<Rightarrow> CalculatorFunction \<Rightarrow> bool" where
  "call_name cs t f \<longleftrightarrow>
    (if token_type t = CALCULATOR_TOKEN_SQRT then function_named ''sqrt'' f
     else token_type t = CALCULATOR_TOKEN_IDENTIFIER \<and> function_named (token_slice cs t) f)"

text \<open>Names that are not functions: the answer, the imaginary unit, constants, and variables where they are allowed.\<close>

definition named_value :: "bool \<Rightarrow> nat \<Rightarrow> string \<Rightarrow> CalculatorExpression option" where
  "named_value variables position name =
    (if name = ''ans'' then Some (CALCULATOR_EXPRESSION_ANSWER position 1)
     else if name = ''i'' then Some (CALCULATOR_EXPRESSION_IMAGINARY position 1)
     else if name = ''e'' then Some (CALCULATOR_EXPRESSION_CONSTANT position 1 CALCULATOR_CONSTANT_E)
     else if name = [CHR 0xCF, CHR 0x80] then Some (CALCULATOR_EXPRESSION_CONSTANT position 1 CALCULATOR_CONSTANT_PI)
     else if name = [CHR 0xCF, CHR 0x86] then Some (CALCULATOR_EXPRESSION_CONSTANT position 1 CALCULATOR_CONSTANT_PHI)
     else if variables then Some (CALCULATOR_EXPRESSION_VARIABLE position 1 name) else None)"

inductive primary_expr :: "UnitDefinition list \<Rightarrow> string \<Rightarrow> bool \<Rightarrow> nat \<Rightarrow> CalculatorToken list \<Rightarrow> CalculatorExpression \<Rightarrow> bool"
  and argument_list :: "UnitDefinition list \<Rightarrow> string \<Rightarrow> bool \<Rightarrow> nat \<Rightarrow> CalculatorFunction \<Rightarrow> CalculatorToken list \<Rightarrow>
    CalculatorExpression list \<Rightarrow> string \<Rightarrow> string \<Rightarrow> bool"
  and postfix_expr :: "UnitDefinition list \<Rightarrow> string \<Rightarrow> bool \<Rightarrow> nat \<Rightarrow> CalculatorToken list \<Rightarrow> CalculatorExpression \<Rightarrow> bool"
  and power_expr :: "UnitDefinition list \<Rightarrow> string \<Rightarrow> bool \<Rightarrow> nat \<Rightarrow> CalculatorToken list \<Rightarrow> CalculatorExpression \<Rightarrow> bool"
  and unary_expr :: "UnitDefinition list \<Rightarrow> string \<Rightarrow> bool \<Rightarrow> nat \<Rightarrow> CalculatorToken list \<Rightarrow> CalculatorExpression \<Rightarrow> bool"
  and factor_tail :: "UnitDefinition list \<Rightarrow> string \<Rightarrow> bool \<Rightarrow> nat \<Rightarrow> CalculatorExpression \<Rightarrow> CalculatorToken list \<Rightarrow>
    CalculatorExpression \<Rightarrow> bool"
  and multiplicative_expr :: "UnitDefinition list \<Rightarrow> string \<Rightarrow> bool \<Rightarrow> nat \<Rightarrow> CalculatorToken list \<Rightarrow> CalculatorExpression \<Rightarrow> bool"
  and summand_tail :: "UnitDefinition list \<Rightarrow> string \<Rightarrow> bool \<Rightarrow> nat \<Rightarrow> CalculatorExpression \<Rightarrow> CalculatorToken list \<Rightarrow>
    CalculatorExpression \<Rightarrow> bool"
  and additive_expr :: "UnitDefinition list \<Rightarrow> string \<Rightarrow> bool \<Rightarrow> nat \<Rightarrow> CalculatorToken list \<Rightarrow> CalculatorExpression \<Rightarrow> bool"
  for units cs variables
where
  number: "token_type t = CALCULATOR_TOKEN_NUMBER \<Longrightarrow>
    primary_expr units cs variables d [t] (CALCULATOR_EXPRESSION_NUMBER (token_offset t) 1 (token_slice cs t))"
| name: "token_type t = CALCULATOR_TOKEN_IDENTIFIER \<Longrightarrow> \<nexists>f. function_named (token_slice cs t) f \<Longrightarrow>
    named_value variables (token_offset t) (token_slice cs t) = Some e \<Longrightarrow> primary_expr units cs variables d [t] e"
| group: "d < CALCULATOR_MAX_EXPRESSION_DEPTH \<Longrightarrow> token_type l = CALCULATOR_TOKEN_LEFT_PAREN \<Longrightarrow>
    additive_expr units cs variables (Suc d) ts e \<Longrightarrow> token_type r = CALCULATOR_TOKEN_RIGHT_PAREN \<Longrightarrow>
    primary_expr units cs variables d (l # ts @ [r]) e"
| call: "d < CALCULATOR_MAX_EXPRESSION_DEPTH \<Longrightarrow> call_name cs t f \<Longrightarrow> token_type l = CALCULATOR_TOKEN_LEFT_PAREN \<Longrightarrow>
    argument_list units cs variables (Suc d) f ts arguments from_unit to_unit \<Longrightarrow>
    length arguments \<le> CALCULATOR_MAX_CALL_ARGUMENTS \<Longrightarrow> token_type r = CALCULATOR_TOKEN_RIGHT_PAREN \<Longrightarrow>
    arity_ok f (length arguments) \<Longrightarrow>
    primary_expr units cs variables d (t # l # ts @ [r])
      (CALCULATOR_EXPRESSION_CALL (token_offset t) (call_depth 1 arguments) f arguments from_unit to_unit)"
| no_arguments: "argument_list units cs variables d f [] [] [] []"
| with_units: "0 < unit_count f \<Longrightarrow> additive_expr units cs variables d ts e \<Longrightarrow> shallow e \<Longrightarrow>
    unit_arguments units cs f us from_unit to_unit \<Longrightarrow> argument_list units cs variables d f (ts @ us) [e] from_unit to_unit"
| last_argument: "unit_count f = 0 \<Longrightarrow> additive_expr units cs variables d ts e \<Longrightarrow> shallow e \<Longrightarrow>
    argument_list units cs variables d f ts [e] [] []"
| more_arguments: "unit_count f = 0 \<Longrightarrow> additive_expr units cs variables d ts e \<Longrightarrow> shallow e \<Longrightarrow>
    token_type semicolon = CALCULATOR_TOKEN_SEMICOLON \<Longrightarrow> argument_list units cs variables d f us arguments [] [] \<Longrightarrow>
    arguments \<noteq> [] \<Longrightarrow> argument_list units cs variables d f (ts @ semicolon # us) (e # arguments) [] []"
| postfixed: "primary_expr units cs variables d ts e \<Longrightarrow> postfix_tail e us e' \<Longrightarrow> postfix_expr units cs variables d (ts @ us) e'"
| base: "postfix_expr units cs variables d ts e \<Longrightarrow> power_expr units cs variables d ts e"
| powered: "postfix_expr units cs variables d ts left \<Longrightarrow> token_type t = CALCULATOR_TOKEN_CARET \<Longrightarrow>
    d < CALCULATOR_MAX_EXPRESSION_DEPTH \<Longrightarrow> unary_expr units cs variables (Suc d) us right \<Longrightarrow>
    shallow left \<Longrightarrow> shallow right \<Longrightarrow>
    power_expr units cs variables d (ts @ t # us) (binary_node CALCULATOR_BINARY_POWER t left right)"
| unsigned: "power_expr units cs variables d ts e \<Longrightarrow> unary_expr units cs variables d ts e"
| signed: "token_type t = CALCULATOR_TOKEN_PLUS \<and> operation = CALCULATOR_UNARY_PLUS \<or>
      token_type t = CALCULATOR_TOKEN_MINUS \<and> operation = CALCULATOR_UNARY_MINUS \<Longrightarrow>
    d < CALCULATOR_MAX_EXPRESSION_DEPTH \<Longrightarrow> unary_expr units cs variables (Suc d) ts e \<Longrightarrow> shallow e \<Longrightarrow>
    unary_expr units cs variables d (t # ts)
      (CALCULATOR_EXPRESSION_UNARY (token_offset t) (Suc (expression_depth e)) operation e)"
| factors_end: "factor_tail units cs variables d e [] e"
| factor: "token_type t = CALCULATOR_TOKEN_STAR \<and> operation = CALCULATOR_BINARY_MULTIPLY \<or>
      token_type t = CALCULATOR_TOKEN_SLASH \<and> operation = CALCULATOR_BINARY_DIVIDE \<Longrightarrow>
    unary_expr units cs variables d ts right \<Longrightarrow> shallow left \<Longrightarrow> shallow right \<Longrightarrow>
    factor_tail units cs variables d (binary_node operation t left right) us e \<Longrightarrow>
    factor_tail units cs variables d left (t # ts @ us) e"
| juxtaposed: "token_type t \<in> primary_first \<Longrightarrow> unary_expr units cs variables d (t # ts) right \<Longrightarrow>
    shallow left \<Longrightarrow> shallow right \<Longrightarrow>
    factor_tail units cs variables d (binary_node CALCULATOR_BINARY_MULTIPLY t left right) us e \<Longrightarrow>
    factor_tail units cs variables d left (t # ts @ us) e"
| multiplied: "unary_expr units cs variables d ts left \<Longrightarrow> factor_tail units cs variables d left us e \<Longrightarrow>
    multiplicative_expr units cs variables d (ts @ us) e"
| summands_end: "summand_tail units cs variables d e [] e"
| summand: "token_type t = CALCULATOR_TOKEN_PLUS \<and> operation = CALCULATOR_BINARY_ADD \<or>
      token_type t = CALCULATOR_TOKEN_MINUS \<and> operation = CALCULATOR_BINARY_SUBTRACT \<Longrightarrow>
    multiplicative_expr units cs variables d ts right \<Longrightarrow> shallow left \<Longrightarrow>
    shallow right \<Longrightarrow>
    summand_tail units cs variables d (binary_node operation t left right) us e \<Longrightarrow>
    summand_tail units cs variables d left (t # ts @ us) e"
| added: "multiplicative_expr units cs variables d ts left \<Longrightarrow> summand_tail units cs variables d left us e \<Longrightarrow>
    additive_expr units cs variables d (ts @ us) e"

text \<open>A sentence: the tokens of the input, without an error and up to the end, no number directly after a number.\<close>

definition sentence :: "UnitDefinition list \<Rightarrow> string \<Rightarrow> bool \<Rightarrow> CalculatorExpression \<Rightarrow> bool" where
  "sentence units cs variables e \<longleftrightarrow> (\<exists>ts. lexes cs 0 (ts @ [end_token (length cs)]) None \<and>
     numbers_apart ts \<and> additive_expr units cs variables 0 ts e)"

section \<open>The tables agree with those of the parser\<close>

lemma postfix_symbol_iff: "postfix_symbol type operation \<longleftrightarrow> postfix_operator type = Some operation"
  by (cases type) (auto simp: postfix_symbol.simps)

lemma primary_first_iff: "type \<in> primary_first \<longleftrightarrow> calculator_token_starts_primary type"
  by (auto simp: primary_first_def calculator_token_starts_primary_def)

lemma shallow_iff: "shallow e \<longleftrightarrow> calculator_expression_can_wrap e"
  by (auto simp: shallow_def calculator_expression_can_wrap_def CALCULATOR_MAX_EXPRESSION_DEPTH_def)

lemma unit_count_iff: "0 < unit_count f \<longleftrightarrow> takes_units f" "unit_count f = 0 \<longleftrightarrow> \<not> takes_units f"
  "unit_count f = 1 \<longleftrightarrow> implementation f = CALCULATOR_FUNCTION_QUANTITY"
  "unit_count f = 2 \<longleftrightarrow> implementation f = CALCULATOR_FUNCTION_CONVERT"
  by (auto simp: unit_count_def takes_units_def split: CalculatorFunctionImplementation.splits)

lemma arity_iff: "arity_ok f n \<longleftrightarrow> \<not> wrong_argument_count f (supplied_arguments f n)"
  by (auto simp: arity_ok_def wrong_argument_count_def supplied_arguments_def unit_count_def
      split: CalculatorFunctionImplementation.splits)

lemma function_find_loop_iff:
  "distinct (map function_name fs) \<Longrightarrow> function_find_loop fs name = Some f \<longleftrightarrow> f \<in> set fs \<and> function_name f = name"
  by (induction fs) (auto simp: image_iff)

lemma function_names_distinct: "distinct (map function_name calculator_functions)"
  by code_simp

lemma function_named_iff: "function_named name f \<longleftrightarrow> calculator_function_find name = Some f"
  unfolding function_named_def calculator_function_find_def function_find_loop_iff [OF function_names_distinct] ..

lemma named_value_parsed:
  "named_value variables position name =
    (if name = ''ans'' then Some (CALCULATOR_EXPRESSION_ANSWER position 1)
     else if name = ''i'' then Some (CALCULATOR_EXPRESSION_IMAGINARY position 1)
     else case calculator_constant_from_text name of
       Some constant \<Rightarrow> Some (CALCULATOR_EXPRESSION_CONSTANT position 1 constant)
     | None \<Rightarrow> if variables then Some (CALCULATOR_EXPRESSION_VARIABLE position 1 name) else None)"
  by (simp add: named_value_def calculator_constant_from_text_def)

lemma no_function_iff: "(\<nexists>f. function_named name f) \<longleftrightarrow> calculator_function_find name = None"
  by (simp add: function_named_iff)

lemmas grammar_tables = postfix_symbol_iff primary_first_iff shallow_iff unit_count_iff arity_iff function_named_iff

text \<open>The rules of the grammar over the tables of the parser, as the proofs below use them.\<close>

lemmas postfix_more = postfix_more [unfolded grammar_tables]
lemmas name = name [unfolded no_function_iff]
lemmas call = call [unfolded grammar_tables]
lemmas with_units = with_units [unfolded grammar_tables]
lemmas last_argument = last_argument [unfolded grammar_tables]
lemmas more_arguments = more_arguments [unfolded grammar_tables]
lemmas powered = powered [unfolded grammar_tables]
lemmas signed = signed [unfolded grammar_tables]
lemmas factor = factor [unfolded grammar_tables]
lemmas juxtaposed = juxtaposed [unfolded grammar_tables]
lemmas summand = summand [unfolded grammar_tables]
lemmas call_name_parsed = call_name_def [unfolded grammar_tables]
lemmas unit_arguments_parsed = unit_arguments_def [unfolded grammar_tables]
lemmas postfix_tail_induct = postfix_tail.induct [unfolded grammar_tables, consumes 1, case_names postfix_end postfix_more]

section \<open>Reading tokens\<close>

lemma error_clear: "calculator_error_clear err = no_error"
  by (cases err) (simp add: calculator_error_clear_def calculator_error_set_def no_error_def)

lemma set_token: "calculator_set_token t type start len position =
    \<lparr>token_type = type, token_text = start, token_length = len, token_offset = position\<rparr>"
  by (cases t) (simp add: calculator_set_token_def)

definition alike :: "token_result \<Rightarrow> token_result \<Rightarrow> bool" where
  "alike r r' \<longleftrightarrow> (case r of (status, b, t, err) \<Rightarrow> case r' of (status', b', t', err') \<Rightarrow>
     status = status' \<and> (status = CALCULATOR_OK \<longrightarrow> b = b' \<and> t = t' \<and> token_length t \<le> tokenizer_offset b))"

lemma alike_if:
  "(P \<Longrightarrow> alike a a') \<Longrightarrow> (\<not> P \<Longrightarrow> alike b b') \<Longrightarrow> alike (if P then a else b) (if P then a' else b')"
  by simp

lemma alike_error: "status \<noteq> CALCULATOR_OK \<Longrightarrow> alike (status, b, t, err) (status, b', t', err')"
  by (simp add: alike_def)

lemma alike_token: "len \<le> tokenizer_offset b \<Longrightarrow>
    alike (CALCULATOR_OK, b, calculator_set_token t type start len position, err)
      (CALCULATOR_OK, b, calculator_set_token t' type start len position, err')"
  by (simp add: alike_def set_token)

lemma read_number_alike: "alike (calculator_read_number a t err) (calculator_read_number a t' err')"
  unfolding calculator_read_number_def Let_def
  by (simp add: case_prod_beta alike_error alike_token)

lemma read_identifier_alike: "alike (calculator_read_identifier a t err) (calculator_read_identifier a t' err')"
  unfolding calculator_read_identifier_def Let_def by (simp add: alike_token)

lemma next_alike: "alike (calculator_tokenizer_next a t err) (calculator_tokenizer_next a t' err')"
  unfolding calculator_tokenizer_next_def Let_def
  by (intro alike_if read_number_alike read_identifier_alike alike_token)
    (auto simp: alike_error alike_token split: prod.split option.split)

lemma next_token_any:
  assumes n: "calculator_tokenizer_next a t err = (status, b, t', err')"
  shows "if status = CALCULATOR_OK then next_token a = Some (t', b) \<and> token_length t' \<le> tokenizer_offset b else next_token a = None"
proof -
  obtain status0 b0 t0 err0 where n0: "calculator_tokenizer_next a no_token no_error = (status0, b0, t0, err0)" by (metis prod_cases4)
  show ?thesis
    using next_alike [of a t err no_token no_error] by (auto simp: n n0 next_token_def alike_def)
qed

text \<open>The parser has read a token of the input and stands behind it.\<close>

definition parser_ok :: "string \<Rightarrow> CalculatorParser \<Rightarrow> bool" where
  "parser_ok cs p \<longleftrightarrow> tokenizer_wf (parser_tokenizer p) \<and> tokenizer_input (parser_tokenizer p) = cs \<and>
     current_offset p \<le> length cs \<and> token_length (current p) \<le> length cs \<and>
     (current_type p \<noteq> CALCULATOR_TOKEN_END \<longrightarrow> current_offset p < tokenizer_offset (parser_tokenizer p)) \<and>
     lexeme_class (current_type p) (token_slice cs (current p))"

definition same_level :: "CalculatorParser \<Rightarrow> CalculatorParser \<Rightarrow> bool" where
  "same_level p p' \<longleftrightarrow> recursion_depth p' = recursion_depth p \<and> allow_variables p' = allow_variables p"

definition parse_failure :: "CalculatorStatus \<Rightarrow> bool" where
  "parse_failure status \<longleftrightarrow> status \<in> {CALCULATOR_INVALID_TOKEN, CALCULATOR_SYNTAX_ERROR, CALCULATOR_VALUE_TOO_LARGE,
     CALCULATOR_ARGUMENT_COUNT, CALCULATOR_UNKNOWN_UNIT, CALCULATOR_INCOMPATIBLE_UNITS, CALCULATOR_OUT_OF_MEMORY}"

definition failed :: "bool \<Rightarrow> string \<Rightarrow> CalculatorStatus \<Rightarrow> CalculatorParser \<Rightarrow> bool" where
  "failed u cs status p \<longleftrightarrow> parse_failure status \<and> error_status (parser_error p) = status \<and>
     error_offset (parser_error p) \<le> length cs \<and> (u \<longrightarrow> status \<noteq> CALCULATOR_OUT_OF_MEMORY)"

text \<open>\<open>parses u F R m\<close>: \<open>m\<close> does not get stuck; a failure satisfies \<open>F\<close>, a result \<open>R\<close>.\<close>

definition parses ::
  "bool \<Rightarrow> (CalculatorStatus \<Rightarrow> CalculatorParser \<Rightarrow> bool) \<Rightarrow> (CalculatorParser \<Rightarrow> 'a \<Rightarrow> bool) \<Rightarrow> 'a parse \<Rightarrow> bool" where
  "parses u F R m \<longleftrightarrow> rspec u m (\<lambda>(p, r). case r of Inl status \<Rightarrow> F status p | Inr x \<Rightarrow> R p x)"

named_theorems parse_rules

lemma parses_then [parse_rules]:
  assumes "parses u F R m" "\<And>p x. R p x \<Longrightarrow> parses u F S (f p x)"
  shows "parses u F S (parse_then m f)"
  unfolding parse_then_def parses_def
proof (rule triple_bind, rule triple_conseq [OF assms(1) [unfolded parses_def]], goal_cases)
  case (1 r)
  then show ?case using assms(2) [unfolded parses_def]
    by (cases r; cases "snd r") (auto intro: triple_return)
qed

lemma parses_parsed [parse_rules]: "R p x \<Longrightarrow> parses u F R (parsed p x)"
  by (simp add: parses_def parsed_def triple_return)

lemma parses_if [parse_rules]: "(b \<Longrightarrow> parses u F R m) \<Longrightarrow> (\<not> b \<Longrightarrow> parses u F R m') \<Longrightarrow> parses u F R (if b then m else m')"
  by simp

lemma parses_bind: "rspec u m (\<lambda>x. parses u F R (f x)) \<Longrightarrow> parses u F R (State_Monad.bind m f)"
  unfolding parses_def by (rule triple_bind)

lemma parses_conseq: "parses u F R m \<Longrightarrow> (\<And>p x. R p x \<Longrightarrow> S p x) \<Longrightarrow> parses u F S m"
  unfolding parses_def by (erule triple_conseq) (auto split: sum.splits)

lemma parses_nested:
  assumes "parses u F R (parse (p\<lparr>recursion_depth := recursion_depth p + 1\<rparr>))"
    "\<And>status p'. F status p' \<Longrightarrow> F status (p'\<lparr>recursion_depth := recursion_depth p' - 1\<rparr>)"
    "\<And>p' x. R p' x \<Longrightarrow> S (p'\<lparr>recursion_depth := recursion_depth p' - 1\<rparr>) x"
  shows "parses u F S (nested parse p)"
  unfolding nested_def parses_def
  by (rule triple_bind, rule triple_conseq [OF assms(1) [unfolded parses_def]])
    (use assms(2,3) in \<open>auto split: sum.splits intro!: triple_return\<close>)

lemma parse_error_failed [parse_rules]:
  "parse_failure status \<Longrightarrow> (u \<Longrightarrow> status \<noteq> CALCULATOR_OUT_OF_MEMORY) \<Longrightarrow> position \<le> length cs \<Longrightarrow>
   parses u (failed u cs) R (parse_error p status position)"
  by (auto simp: parses_def parse_error_def failed_def calculator_error_set_def intro!: triple_return)

lemma parse_errors_failed [parse_rules]:
  "current_offset p \<le> length cs \<Longrightarrow> parses u (failed u cs) R (calculator_parser_syntax_error p)"
  "position \<le> length cs \<Longrightarrow> parses u (failed u cs) R (calculator_parser_depth_error p position)"
  unfolding calculator_parser_syntax_error_def calculator_parser_depth_error_def
  by (rule parse_error_failed; simp add: parse_failure_def)+

lemma parse_error_kinds [parse_rules]:
  "position \<le> length cs \<Longrightarrow> parses u (failed u cs) R (parse_error p CALCULATOR_UNKNOWN_UNIT position)"
  "position \<le> length cs \<Longrightarrow> parses u (failed u cs) R (parse_error p CALCULATOR_INCOMPATIBLE_UNITS position)"
  "position \<le> length cs \<Longrightarrow> parses u (failed u cs) R (parse_error p CALCULATOR_ARGUMENT_COUNT position)"
  "position \<le> length cs \<Longrightarrow> parses u (failed u cs) R (parse_error p CALCULATOR_INVALID_TOKEN position)"
  "position \<le> length cs \<Longrightarrow> \<not> u \<Longrightarrow> parses u (failed u cs) R (parse_error p CALCULATOR_OUT_OF_MEMORY position)"
  by (rule parse_error_failed; simp add: parse_failure_def)+

text \<open>One token further: \<open>advanced\<close>.\<close>

definition advanced :: "string \<Rightarrow> CalculatorParser \<Rightarrow> CalculatorParser \<Rightarrow> bool" where
  "advanced cs p p' \<longleftrightarrow> parser_ok cs p' \<and> same_level p p' \<and> current_offset p < current_offset p' \<and>
     next_token (parser_tokenizer p) = Some (current p', parser_tokenizer p')"

lemma advance_wp:
  assumes ok: "parser_ok cs p" and more: "current_type p \<noteq> CALCULATOR_TOKEN_END"
  shows "parses u (failed u cs) (\<lambda>p' _. advanced cs p p') (calculator_parser_advance p)"
proof -
  obtain status b t err where n: "calculator_tokenizer_next (parser_tokenizer p) (current p) (parser_error p) = (status, b, t, err)"
    by (metis prod_cases4)
  have wf: "tokenizer_wf (parser_tokenizer p)" and cs: "tokenizer_input (parser_tokenizer p) = cs"
    and before: "current_offset p < tokenizer_offset (parser_tokenizer p)" using ok more by (simp_all add: parser_ok_def)
  note step = tokenizer_step [OF wf, of "current p" "parser_error p", unfolded n step_outcome_def prod.case cs]
  note any = next_token_any [OF n]
  show ?thesis
  proof (cases "status = CALCULATOR_OK")
    case True
    with step any have ts: "token_step (parser_tokenizer p) b t" and nx: "next_token (parser_tokenizer p) = Some (t, b)"
      and len: "token_length t \<le> tokenizer_offset b" by simp_all
    note b = token_stepD [OF ts wf, unfolded cs]
    have "lexeme_class (token_type t) (token_slice cs t)" "tokenizer_offset (parser_tokenizer p) \<le> token_offset t"
      "token_type t \<noteq> CALCULATOR_TOKEN_END \<longrightarrow> token_offset t < tokenizer_offset b"
      using ts by (auto simp: token_step_def Let_def cs)
    with True b before nx len show ?thesis
      by (auto simp: parses_def calculator_parser_advance_def n advanced_def parser_ok_def same_level_def intro!: triple_return)
  next
    case False
    with step show ?thesis
      by (auto simp: parses_def calculator_parser_advance_def n failed_def parse_failure_def intro!: triple_return)
  qed
qed

section \<open>Soundness\<close>

text \<open>From \<open>p\<close> the tokens \<open>ts\<close> are read up to \<open>p'\<close>.\<close>

definition consumes :: "string \<Rightarrow> CalculatorParser \<Rightarrow> CalculatorToken list \<Rightarrow> CalculatorParser \<Rightarrow> bool" where
  "consumes cs p ts p' \<longleftrightarrow> parser_ok cs p' \<and> same_level p p' \<and> current_offset p + length ts \<le> current_offset p' \<and>
     numbers_apart (ts @ [current p']) \<and>
     (\<exists>us. lexed (parser_tokenizer p) us (parser_tokenizer p') \<and> current p # us = ts @ [current p'])"

lemma consumes_Nil: "parser_ok cs p \<Longrightarrow> consumes cs p [] p"
  by (auto simp: consumes_def same_level_def numbers_apart_def intro!: exI [of _ "[]"])

lemma consumesD:
  assumes "consumes cs p ts p'"
  shows "parser_ok cs p'" "same_level p p'" "current_offset p + length ts \<le> current_offset p'"
    "recursion_depth p' = recursion_depth p" "allow_variables p' = allow_variables p"
  using assms by (simp_all add: consumes_def same_level_def)

lemma lexed_append: "lexed a ts b \<Longrightarrow> lexed b us c \<Longrightarrow> lexed a (ts @ us) c"
  by (induction ts arbitrary: a) auto

lemma consumes_trans:
  assumes "consumes cs p ts q" "consumes cs q us r"
  shows "consumes cs p (ts @ us) r"
proof -
  from assms obtain vs ws where l: "lexed (parser_tokenizer p) vs (parser_tokenizer q)" "current p # vs = ts @ [current q]"
    "lexed (parser_tokenizer q) ws (parser_tokenizer r)" "current q # ws = us @ [current r]" by (auto simp: consumes_def)
  have "current p # vs @ ws = (ts @ us) @ [current r]" using l(2,4) by (metis append_Cons append_assoc append.left_neutral)
  moreover have "lexed (parser_tokenizer p) (vs @ ws) (parser_tokenizer r)" by (rule lexed_append [OF l(1,3)])
  moreover have "numbers_apart ((ts @ us) @ [current r])"
  proof -
    have "numbers_apart (ts @ [current q])" "numbers_apart (us @ [current r])" "hd (us @ [current r]) = current q"
      using assms l(4) by (auto simp: consumes_def) (metis list.sel(1))
    then show ?thesis by (auto simp: numbers_apart_def successively_append_iff)
  qed
  ultimately show ?thesis using assms by (auto simp: consumes_def same_level_def)
qed

lemma advanced_consumes:
  assumes "advanced cs p p'" "current_type p = CALCULATOR_TOKEN_NUMBER \<Longrightarrow> current_type p' \<noteq> CALCULATOR_TOKEN_NUMBER"
  shows "consumes cs p [current p] p'"
  using assms by (auto simp: advanced_def consumes_def numbers_apart_def intro!: exI [of _ "[current p']"])

lemma advanced_ok: "advanced cs p p' \<Longrightarrow> parser_ok cs p'" "advanced cs p p' \<Longrightarrow> recursion_depth p' = recursion_depth p"
  "advanced cs p p' \<Longrightarrow> allow_variables p' = allow_variables p"
  by (simp_all add: advanced_def same_level_def)

lemma consumes_nested:
  assumes "consumes cs (p\<lparr>recursion_depth := recursion_depth p + 1\<rparr>) ts p'"
  shows "consumes cs p ts (p'\<lparr>recursion_depth := recursion_depth p' - 1\<rparr>)"
  using assms by (simp add: consumes_def same_level_def parser_ok_def)

lemma parser_ok_depth [simp]: "parser_ok cs (p\<lparr>recursion_depth := d\<rparr>) = parser_ok cs p"
  by (simp add: parser_ok_def)

lemma failed_depth [simp]: "failed u cs status (p\<lparr>recursion_depth := d\<rparr>) = failed u cs status p"
  by (simp add: failed_def)

lemma parser_ok_offset: "parser_ok cs p \<Longrightarrow> current_offset p \<le> length cs"
  by (simp add: parser_ok_def)

text \<open>What a parse function for a class of the grammar promises.\<close>

definition derives ::
  "string \<Rightarrow> (CalculatorToken list \<Rightarrow> CalculatorExpression \<Rightarrow> bool) \<Rightarrow> CalculatorParser \<Rightarrow> CalculatorParser \<Rightarrow> CalculatorExpression \<Rightarrow> bool" where
  "derives cs G p p' e \<longleftrightarrow> (\<exists>ts. ts \<noteq> [] \<and> consumes cs p ts p' \<and> G ts e \<and> expression_depth e \<le> CALCULATOR_MAX_EXPRESSION_DEPTH)"

lemma created_wp:
  assumes "position \<le> length cs"
  shows "parses u (failed u cs) (\<lambda>p' e. p' = p \<and> e = node position depth)
    (State_Monad.bind (calculator_expression_create node position depth) (created_or_error p position))"
  unfolding calculator_expression_create_def
  by (rule parses_bind, rule triple_bind, rule malloc_wp)
    (use assms in \<open>auto simp: created_or_error_def parse_failure_def intro!: triple_return parses_parsed parse_error_failed\<close>)

lemma binary_wp:
  assumes "position \<le> length cs"
  shows "parses u (failed u cs)
    (\<lambda>p' e. p' = p \<and> e = CALCULATOR_EXPRESSION_BINARY position (Suc (max (expression_depth l) (expression_depth r))) operation l r \<and>
      calculator_expression_can_wrap l \<and> calculator_expression_can_wrap r)
    (calculator_parser_combine p operation position l r)"
proof (cases "calculator_expression_can_wrap l \<and> calculator_expression_can_wrap r")
  case True
  then have "\<not> (CALCULATOR_MAX_EXPRESSION_DEPTH \<le> expression_depth l \<or> CALCULATOR_MAX_EXPRESSION_DEPTH \<le> expression_depth r)"
    by (auto simp: calculator_expression_can_wrap_def)
  then show ?thesis
    unfolding calculator_parser_combine_def calculator_expression_create_binary_def
    using parses_conseq [OF created_wp [OF assms]] True by (simp add: max_def)
next
  case False
  then have "CALCULATOR_MAX_EXPRESSION_DEPTH \<le> expression_depth l \<or> CALCULATOR_MAX_EXPRESSION_DEPTH \<le> expression_depth r"
    by (auto simp: calculator_expression_can_wrap_def)
  then show ?thesis using parse_errors_failed(2) [OF assms] by (simp add: calculator_parser_combine_def)
qed

lemma number_wp:
  assumes "length cs < SIZE_MAX" "parser_ok cs p"
  shows "parses u (failed u cs) (\<lambda>p' e. p' = p \<and> e = node (current_offset p) 1 (token_slice cs (current p)))
    (State_Monad.bind (calculator_expression_create_number node p) (created_or_error p (current_offset p)))"
proof -
  have "token_length (current p) \<noteq> SIZE_MAX" "current_text p = token_slice cs (current p)"
    using assms by (auto simp: parser_ok_def current_text_def)
  then show ?thesis
    unfolding calculator_expression_create_number_def calculator_expression_create_def
    by (simp, intro parses_bind triple_bind malloc_wp triple_return)
      (use parser_ok_offset [OF assms(2)] in
        \<open>auto simp: created_or_error_def parse_failure_def intro!: parses_parsed parse_error_failed triple_bind malloc_wp triple_return\<close>)
qed

lemma current_text_ok: "parser_ok cs p \<Longrightarrow> current_text p = token_slice cs (current p)"
  by (simp add: parser_ok_def current_text_def)

lemma call_unit_wp:
  assumes p: "parser_ok cs p"
  shows "parses u (failed u cs) (\<lambda>p' name. \<exists>ts. consumes cs p ts p' \<and> unit_argument units cs from_unit ts name)
    (call_unit units from_unit p)"
  unfolding call_unit_def Let_def
proof (rule parses_if, rule parse_errors_failed(1) [OF parser_ok_offset [OF p]], rule parses_then, rule advance_wp [OF p],
    goal_cases)
  case semicolon: (2 q)
  then have q: "advanced cs p q" "parser_ok cs q" by (simp_all add: advanced_def)
  show ?case
  proof (intro parses_if parse_errors_failed(1) parse_error_kinds parser_ok_offset [OF q(2)], rule parses_then,
      rule advance_wp [OF q(2)], goal_cases)
    case unit: (2 r)
    have "consumes cs p ([current p] @ [current q]) r"
      by (rule consumes_trans; rule advanced_consumes) (use unit semicolon q(1) in auto)
    then show ?case
      using semicolon unit current_text_ok [OF q(2)]
      by (intro parses_parsed exI [of _ "[current p, current q]"]) (auto simp: unit_argument_def split: option.splits)
  qed simp
qed simp

lemma call_units_wp:
  assumes p: "parser_ok cs p"
  shows "parses u (failed u cs)
    (\<lambda>p' (from_unit, to_unit). \<exists>ts. consumes cs p ts p' \<and> unit_arguments units cs f ts from_unit to_unit) (call_units units f p)"
  unfolding call_units_def
proof (rule parses_then, rule call_unit_wp [OF p], elim exE conjE, rule parses_if, goal_cases)
  case (1 q name ts)
  then show ?case by (intro parses_parsed) (auto simp: unit_arguments_parsed)
next
  case (2 q name ts)
  show ?case
  proof (rule parses_then, rule call_unit_wp [OF consumesD(1) [OF 2(1)]], elim exE conjE, rule parses_parsed, goal_cases)
    case (1 r to_unit us)
    with 2 show ?case
      unfolding prod.case unit_arguments_parsed by (intro exI [of _ "ts @ us"] conjI consumes_trans [OF 2(1)]) auto
  qed
qed

text \<open>The functions a parse function calls one level deeper.\<close>

definition level_ok ::
  "bool \<Rightarrow> string \<Rightarrow> bool \<Rightarrow> nat \<Rightarrow> (CalculatorToken list \<Rightarrow> CalculatorExpression \<Rightarrow> bool) \<Rightarrow>
    (CalculatorParser \<Rightarrow> CalculatorExpression parse) \<Rightarrow> bool" where
  "level_ok u cs variables d G parse \<longleftrightarrow> (\<forall>p. parser_ok cs p \<and> recursion_depth p = d \<and> allow_variables p = variables \<longrightarrow>
     parses u (failed u cs) (derives cs G p) (parse p))"

lemma level_okD:
  "level_ok u cs variables d G parse \<Longrightarrow> parser_ok cs p \<Longrightarrow> recursion_depth p = d \<Longrightarrow> allow_variables p = variables \<Longrightarrow>
   parses u (failed u cs) (derives cs G p) (parse p)"
  by (simp add: level_ok_def)

lemma nested_wp:
  assumes "level_ok u cs variables (Suc d) G parse" "parser_ok cs p" "recursion_depth p = d" "allow_variables p = variables"
  shows "parses u (failed u cs) (derives cs G p) (nested parse p)"
proof (rule parses_nested)
  show "parses u (failed u cs) (derives cs G (p\<lparr>recursion_depth := recursion_depth p + 1\<rparr>)) (parse (p\<lparr>recursion_depth := recursion_depth p + 1\<rparr>))"
    by (rule level_okD [OF assms(1)]) (use assms in simp_all)
qed (fastforce simp: derives_def dest: consumes_nested [simplified])+

definition arguments_parsed ::
  "UnitDefinition list \<Rightarrow> string \<Rightarrow> bool \<Rightarrow> nat \<Rightarrow> CalculatorFunction \<Rightarrow> CalculatorExpression list \<Rightarrow> nat \<Rightarrow> CalculatorParser \<Rightarrow>
    CalculatorParser \<Rightarrow> CalculatorExpression list \<times> nat \<times> string \<times> string \<Rightarrow> bool" where
  "arguments_parsed units cs variables d f arguments depth p p' r \<longleftrightarrow> (case r of (all, depth', from_unit, to_unit) \<Rightarrow>
     \<exists>ts new. consumes cs p ts p' \<and> all = arguments @ new \<and> argument_list units cs variables d f ts new from_unit to_unit \<and>
       depth' = call_depth depth new \<and> length all \<le> CALCULATOR_MAX_CALL_ARGUMENTS \<and> depth' \<le> CALCULATOR_MAX_EXPRESSION_DEPTH \<and>
       (\<not> takes_units f \<longrightarrow> from_unit = [] \<and> to_unit = []) \<and> (current_type p \<noteq> CALCULATOR_TOKEN_RIGHT_PAREN \<longrightarrow> new \<noteq> []))"

lemma grow_wp: "(\<And>b. (u \<longrightarrow> b) \<Longrightarrow> Q b) \<Longrightarrow> rspec u (if c then numforge_realloc n else State_Monad.return True) Q"
  by (simp add: realloc_wp triple_return)

lemma wider_depth: "(if Suc e > depth then Suc e else depth) = max depth (Suc e)"
  by (simp add: max_def)

lemma call_arguments_wp:
  assumes E: "level_ok u cs variables (Suc d) (additive_expr units cs variables (Suc d)) parse_expression"
    and pos: "position \<le> length cs"
  shows "parser_ok cs p \<Longrightarrow> recursion_depth p = d \<Longrightarrow> allow_variables p = variables \<Longrightarrow> length cs - current_offset p < fuel \<Longrightarrow>
    length arguments \<le> CALCULATOR_MAX_CALL_ARGUMENTS \<Longrightarrow> depth \<le> CALCULATOR_MAX_EXPRESSION_DEPTH \<Longrightarrow>
    parses u (failed u cs) (arguments_parsed units cs variables (Suc d) f arguments depth p)
      (call_arguments fuel units parse_expression f position arguments depth slots p)"
proof (induction fuel arbitrary: p arguments depth slots)
  case (Suc fuel)
  note p = Suc.prems(1) and at = Suc.prems(2,3)
  show ?case
    unfolding call_arguments.simps Let_def
  proof (rule parses_if, goal_cases)
    case 1
    then show ?case using p Suc.prems(5,6)
      by (intro parses_parsed) (auto simp: arguments_parsed_def call_depth_def intro!: exI [of _ "[]"] consumes_Nil no_arguments)
  next
    case more: 2
    show ?case
    proof (rule parses_if, rule parse_errors_failed(2) [OF pos], rule parses_bind, rule grow_wp, rule parses_if,
        rule parse_error_kinds(5) [OF pos], simp, rule parses_then, rule nested_wp [OF E p at], rule parses_if,
        rule parse_errors_failed(2) [OF pos], goal_cases)
      case arg: (1 grown q e)
      then obtain ts where ts: "ts \<noteq> []" "consumes cs p ts q" "additive_expr units cs variables (Suc d) ts e"
        and wrap: "calculator_expression_can_wrap e" by (auto simp: derives_def)
      note q = consumesD [OF ts(2)]
      have len: "length (arguments @ [e]) \<le> CALCULATOR_MAX_CALL_ARGUMENTS" "max depth (Suc (expression_depth e)) \<le> CALCULATOR_MAX_EXPRESSION_DEPTH"
        using arg(1) Suc.prems(5,6) wrap by (auto simp: calculator_expression_can_wrap_def)
      have one: "call_depth depth [e] = max depth (Suc (expression_depth e))" by (simp add: call_depth_def)
      show ?case
        unfolding add_Suc_right add_0_right wider_depth Suc_eq_plus1 [symmetric]
      proof (rule parses_if, goal_cases)
        case units: 1
        show ?case
        proof (rule parses_then, rule call_units_wp [OF q(1)], unfold case_prod_beta, rule parses_parsed, elim exE conjE, goal_cases)
          case (1 r names us)
          have "argument_list units cs variables (Suc d) f (ts @ us) [e] (fst names) (snd names)"
            by (rule with_units [OF units ts(3) wrap 1(2)])
          then show ?case
            using consumes_trans [OF ts(2) 1(1)] len units one
            by (auto simp: arguments_parsed_def intro!: exI [of _ "ts @ us"] exI [of _ "[e]"])
        qed
      next
        case ordinary: 2
        show ?case
        proof (rule parses_if, goal_cases)
          case 1
          then show ?case
            using ordinary ts(2) len one last_argument [OF ordinary ts(3) wrap]
            by (intro parses_parsed) (auto simp: arguments_parsed_def intro!: exI [of _ ts] exI [of _ "[e]"])
        next
          case semicolon: 2
          show ?case
          proof (rule parses_then, rule advance_wp [OF q(1)], use semicolon in simp, rule parses_if,
              rule parse_errors_failed(1), use parser_ok_offset advanced_ok in blast, goal_cases)
            case (1 r)
            have r: "consumes cs q [current q] r" by (rule advanced_consumes [OF 1(1)]) (use semicolon in simp)
            have pr: "consumes cs p (ts @ [current q]) r" by (rule consumes_trans [OF ts(2) r])
            note r' = consumesD [OF pr]
            have fuel: "length cs - current_offset r < fuel" using r'(3) parser_ok_offset [OF r'(1)] Suc.prems(4) by simp
            show ?case
            proof (rule parses_conseq, rule Suc.IH [OF r'(1) _ _ fuel len], goal_cases)
              case (3 s' x)
              then obtain us new where new: "consumes cs r us s'" "x = ((arguments @ [e]) @ new, call_depth (max depth (Suc (expression_depth e))) new, [], [])"
                "argument_list units cs variables (Suc d) f us new [] []" "new \<noteq> []"
                "length ((arguments @ [e]) @ new) \<le> CALCULATOR_MAX_CALL_ARGUMENTS"
                "call_depth (max depth (Suc (expression_depth e))) new \<le> CALCULATOR_MAX_EXPRESSION_DEPTH"
                using ordinary 1(2) by (auto simp: arguments_parsed_def)
              have "argument_list units cs variables (Suc d) f (ts @ current q # us) (e # new) [] []"
                by (rule more_arguments [OF ordinary ts(3) wrap _ new(3,4)]) (use semicolon in simp)
              then show ?case
                using consumes_trans [OF pr new(1)] new(2,5,6)
                by (auto simp: arguments_parsed_def call_depth_def intro!: exI [of _ "ts @ current q # us"] exI [of _ "e # new"])
            qed (use r' at in simp_all)
          qed
        qed
      qed
    qed
  qed
qed simp

lemma loop_fuel_ok: "parser_ok cs p \<Longrightarrow> length cs - current_offset p < loop_fuel p"
  by (auto simp: parser_ok_def loop_fuel_def tokenizer_wf_def)

lemma single_token:
  assumes "advanced cs p q" "current_type p \<noteq> CALCULATOR_TOKEN_NUMBER" "G [current p] e" "expression_depth e = 1"
  shows "derives cs G p q e"
  using advanced_consumes [OF assms(1)] assms(2-4)
  by (auto simp: derives_def CALCULATOR_MAX_EXPRESSION_DEPTH_def intro!: exI [of _ "[current p]"])

lemma parse_call_wp:
  assumes E: "d < CALCULATOR_MAX_EXPRESSION_DEPTH \<Longrightarrow> level_ok u cs variables (Suc d) (additive_expr units cs variables (Suc d)) parse_expression"
    and p: "parser_ok cs p" and at: "recursion_depth p = d" "allow_variables p = variables" and f: "call_name cs (current p) f"
  shows "parses u (failed u cs) (derives cs (primary_expr units cs variables d) p) (calculator_parse_call units parse_expression f p)"
  unfolding calculator_parse_call_def Let_def
proof (rule parses_if, rule parse_errors_failed(2) [OF parser_ok_offset [OF p]], rule parses_then, rule advance_wp [OF p], goal_cases)
  case 1
  then show ?case using f by (auto simp: call_name_parsed split: if_splits)
next
  case l: (2 q)
  note q = advanced_ok [OF l(2)]
  note pos = parser_ok_offset [OF p]
  have d: "d < CALCULATOR_MAX_EXPRESSION_DEPTH" using l(1) at by simp
  have pq: "consumes cs p [current p] q" by (rule advanced_consumes [OF l(2)]) (use f in \<open>auto simp: call_name_parsed split: if_splits\<close>)
  show ?case
  proof (rule parses_if, rule parse_errors_failed(1) [OF parser_ok_offset [OF q(1)]], rule parses_bind, rule malloc_wp,
      rule parses_if, rule parse_error_kinds(5) [OF pos], simp, rule parses_then, rule advance_wp [OF q(1)], goal_cases)
    case opened: (2 allocated r)
    note r = advanced_ok [OF opened(4)]
    have pr: "consumes cs p ([current p] @ [current q]) r"
      by (rule consumes_trans [OF pq advanced_consumes [OF opened(4)]]) (use opened in simp)
    show ?case
    proof (rule parses_then, rule call_arguments_wp [OF E [OF d] pos r(1) _ _ loop_fuel_ok [OF r(1)]], goal_cases)
      case (5 s' x)
      obtain all depth from_unit to_unit where x: "x = (all, depth, from_unit, to_unit)" by (metis prod_cases4)
      from 5 obtain ts where ts: "consumes cs r ts s'" "argument_list units cs variables (Suc d) f ts all from_unit to_unit"
        "depth = call_depth 1 all" "length all \<le> CALCULATOR_MAX_CALL_ARGUMENTS" "depth \<le> CALCULATOR_MAX_EXPRESSION_DEPTH"
        unfolding x by (auto simp: arguments_parsed_def)
      note s' = consumesD [OF ts(1)]
      show ?case
        unfolding x prod.case
      proof (rule parses_if, rule parse_errors_failed(1) [OF parser_ok_offset [OF s'(1)]], rule parses_if, rule parse_error_kinds(3) [OF pos],
          rule parses_then, rule advance_wp [OF s'(1)], goal_cases)
        case (2 t)
        have "consumes cs p (([current p] @ [current q]) @ ts @ [current s']) t"
          by (rule consumes_trans [OF pr consumes_trans [OF ts(1) advanced_consumes [OF 2(3)]]]) (use 2 in simp)
        moreover have "primary_expr units cs variables d (current p # current q # ts @ [current s'])
          (CALCULATOR_EXPRESSION_CALL (current_offset p) (call_depth 1 all) f all from_unit to_unit)"
          by (rule call [OF d f _ ts(2,4)]) (use 2 opened in simp_all)
        ultimately show ?case
          using ts(3,5) by (intro parses_parsed) (auto simp: derives_def intro!: exI [of _ "current p # current q # ts @ [current s']"])
      qed simp
    qed (use q r at in \<open>simp_all add: CALCULATOR_MAX_EXPRESSION_DEPTH_def\<close>)
  qed simp
qed

lemma parse_number_wp:
  assumes len: "length cs < SIZE_MAX" and p: "parser_ok cs p" and t: "current_type p = CALCULATOR_TOKEN_NUMBER"
  shows "parses u (failed u cs) (derives cs (primary_expr units cs variables d) p) (parse_number p)"
proof -
  have eq: "parse_number p = parse_then (State_Monad.bind (calculator_expression_create_number CALCULATOR_EXPRESSION_NUMBER p)
      (created_or_error p (current_offset p))) (\<lambda>p expression. parse_then (calculator_parser_advance p) (\<lambda>p _.
         if current_type p = CALCULATOR_TOKEN_NUMBER then calculator_parser_syntax_error p else parsed p expression))"
    unfolding parse_number_def parse_then_def by (simp add: State_Monad.bind_assoc)
  show ?thesis
    unfolding eq
  proof (rule parses_then, rule number_wp [OF len p], elim conjE, hypsubst, rule parses_then, rule advance_wp [OF p], goal_cases)
    case 1
    then show ?case using t by simp
  next
    case (2 a a' q')
    then have q': "advanced cs p q'" by simp
    show ?case
    proof (rule parses_if, rule parse_errors_failed(1) [OF parser_ok_offset [OF advanced_ok(1) [OF q']]], rule parses_parsed)
      assume "current_type q' \<noteq> CALCULATOR_TOKEN_NUMBER"
      with advanced_consumes [OF q'] number [OF t]
      show "derives cs (primary_expr units cs variables d) p q'
          (CALCULATOR_EXPRESSION_NUMBER (current_offset p) 1 (token_slice cs (current p)))"
        by (auto simp: derives_def CALCULATOR_MAX_EXPRESSION_DEPTH_def intro!: exI [of _ "[current p]"])
    qed
  qed
qed

lemma parse_name_wp:
  assumes len: "length cs < SIZE_MAX" and p: "parser_ok cs p" and t: "current_type p = CALCULATOR_TOKEN_IDENTIFIER"
    and f: "calculator_function_find (token_slice cs (current p)) = None"
  shows "parses u (failed u cs) (derives cs (primary_expr units cs (allow_variables p) d) p) (parse_name p)"
proof -
  let ?name = "token_slice cs (current p)" and ?position = "current_offset p"
  note pos = parser_ok_offset [OF p]
  have own: "current_text p = ?name" by (rule current_text_ok [OF p])
  define m where "m =
     (if ?name = ''ans'' then do {
          created \<leftarrow> calculator_expression_create CALCULATOR_EXPRESSION_ANSWER ?position 1;
          created_or_error p ?position created }
        else if ?name = ''i'' then do {
          created \<leftarrow> calculator_expression_create CALCULATOR_EXPRESSION_IMAGINARY ?position 1;
          created_or_error p ?position created }
        else case calculator_constant_from_text ?name of
          Some constant \<Rightarrow> do {
            created \<leftarrow> calculator_expression_create_constant p constant;
            created_or_error p ?position created }
        | None \<Rightarrow>
            if allow_variables p then do {
              created \<leftarrow> calculator_expression_create_number CALCULATOR_EXPRESSION_VARIABLE p;
              created_or_error p ?position created }
            else parse_error p CALCULATOR_INVALID_TOKEN ?position)"
  have m: "parses u (failed u cs) (\<lambda>p' e. p' = p \<and> named_value (allow_variables p) ?position ?name = Some e) m"
  proof (cases "calculator_constant_from_text ?name")
    case None
    then show ?thesis
      using parses_conseq [OF number_wp [OF len p]] parses_conseq [OF created_wp [OF pos]]
      by (simp add: m_def named_value_parsed parse_error_kinds(4) [OF pos])
  next
    case (Some c)
    then show ?thesis
      using parses_conseq [OF created_wp [OF pos]]
      by (simp add: m_def named_value_parsed calculator_expression_create_constant_def)
  qed
  have eq: "parse_name p = parse_then m (\<lambda>p expression. parse_then (calculator_parser_advance p) (\<lambda>p _. parsed p expression))"
    by (simp only: parse_name_def own Let_def m_def)
  have token: "derives cs (primary_expr units cs (allow_variables p) d) p q e"
    if "advanced cs p q" "named_value (allow_variables p) ?position ?name = Some e" for q e
  proof (rule single_token [OF that(1)])
    show "primary_expr units cs (allow_variables p) d [current p] e" by (rule name [OF t f that(2)])
    show "expression_depth e = 1" using that(2) by (auto simp: named_value_parsed split: if_splits option.splits)
  qed (simp add: t)
  show ?thesis
    unfolding eq
    by (rule parses_then, rule m, elim conjE, hypsubst, rule parses_then, rule advance_wp [OF p], simp add: t,
        rule parses_parsed, rule token)
qed

lemma parse_group_wp:
  assumes E: "d < CALCULATOR_MAX_EXPRESSION_DEPTH \<Longrightarrow> level_ok u cs variables (Suc d) (additive_expr units cs variables (Suc d)) parse_expression"
    and p: "parser_ok cs p" and at: "recursion_depth p = d" "allow_variables p = variables" and t: "current_type p = CALCULATOR_TOKEN_LEFT_PAREN"
  shows "parses u (failed u cs) (derives cs (primary_expr units cs variables d) p) (parse_group parse_expression p)"
  unfolding parse_group_def
proof (rule parses_if, rule parse_errors_failed(2) [OF parser_ok_offset [OF p]], rule parses_then, rule advance_wp [OF p], goal_cases)
  case 1
  then show ?case using t by simp
next
  case l: (2 q)
  note q = advanced_ok [OF l(2)]
  have d: "d < CALCULATOR_MAX_EXPRESSION_DEPTH" using l(1) at by simp
  have pq: "consumes cs p [current p] q" by (rule advanced_consumes [OF l(2)]) (use t in simp)
  show ?case
  proof (rule parses_then, rule nested_wp [OF E [OF d] q(1)], goal_cases)
    case e: (3 r e)
    then obtain ts where ts: "consumes cs q ts r" "additive_expr units cs variables (Suc d) ts e"
      "expression_depth e \<le> CALCULATOR_MAX_EXPRESSION_DEPTH" by (auto simp: derives_def)
    note r = consumesD [OF ts(1)]
    show ?case
    proof (rule parses_if, rule parse_errors_failed(1) [OF parser_ok_offset [OF r(1)]], rule parses_then, rule advance_wp [OF r(1)], goal_cases)
      case (2 s')
      have "consumes cs p ([current p] @ ts @ [current r]) s'"
        by (rule consumes_trans [OF pq consumes_trans [OF ts(1) advanced_consumes [OF 2(2)]]]) (use 2 in simp)
      moreover have "primary_expr units cs variables d (current p # ts @ [current r]) e"
        by (rule group [OF d t ts(2)]) (use 2 in simp)
      ultimately show ?case
        using ts(3) by (intro parses_parsed) (auto simp: derives_def intro!: exI [of _ "current p # ts @ [current r]"])
    qed simp
  qed (use q at in simp_all)
qed

lemma parse_primary_wp:
  assumes len: "length cs < SIZE_MAX"
    and E: "d < CALCULATOR_MAX_EXPRESSION_DEPTH \<Longrightarrow> level_ok u cs variables (Suc d) (additive_expr units cs variables (Suc d)) parse_expression"
    and p: "parser_ok cs p" and at: "recursion_depth p = d" "allow_variables p = variables"
  shows "parses u (failed u cs) (derives cs (primary_expr units cs variables d) p) (calculator_parse_primary units parse_expression p)"
proof -
  have sqrt: "calculator_function_find ''sqrt'' = Some (the (calculator_function_find ''sqrt''))"
    by (simp add: calculator_function_find_def calculator_functions_def function_entry_def)
  show ?thesis
    unfolding calculator_parse_primary_def current_text_ok [OF p]
  proof (intro parses_if parse_number_wp [OF len p] parse_group_wp [OF E p at] parse_errors_failed(1) [OF parser_ok_offset [OF p]], goal_cases)
    case 2
    then show ?case using sqrt by (intro parse_call_wp [OF E p at]) (simp_all add: call_name_parsed)
  next
    case 3
    show ?case
    proof (cases "calculator_function_find (token_slice cs (current p))")
      case None
      with parse_name_wp [OF len p 3(3)] at show ?thesis by simp
    next
      case (Some f)
      with 3 show ?thesis by (simp, intro parse_call_wp [OF E p at]) (simp_all add: call_name_parsed)
    qed
  qed simp_all
qed

lemma postfix_loop_wp:
  "parser_ok cs p \<Longrightarrow> length cs - current_offset p < fuel \<Longrightarrow> expression_depth e \<le> CALCULATOR_MAX_EXPRESSION_DEPTH \<Longrightarrow>
   parses u (failed u cs) (\<lambda>p' e'. \<exists>ts. consumes cs p ts p' \<and> postfix_tail e ts e' \<and> expression_depth e' \<le> CALCULATOR_MAX_EXPRESSION_DEPTH)
     (postfix_loop fuel p e)"
proof (induction fuel arbitrary: p e)
  case (Suc fuel)
  note p = Suc.prems(1) and pos = parser_ok_offset [OF Suc.prems(1)]
  show ?case
  proof (cases "postfix_operator (current_type p)")
    case None
    then show ?thesis
      using consumes_Nil [OF p] postfix_end Suc.prems(3) by (auto intro!: parses_parsed)
  next
    case (Some operation)
    then have t: "current_type p \<noteq> CALCULATOR_TOKEN_NUMBER" "current_type p \<noteq> CALCULATOR_TOKEN_END" by auto
    show ?thesis
      unfolding postfix_loop.simps Some option.case Let_def calculator_expression_create_postfix_def
    proof (rule parses_then, rule advance_wp [OF p t(2)], rule parses_if, rule parse_errors_failed(2) [OF pos], goal_cases)
      case q: (1 q)
      note qD = advanced_ok [OF q(1)]
      have pq: "consumes cs p [current p] q" by (rule advanced_consumes [OF q(1)]) (use t in simp)
      have fuel: "length cs - current_offset q < fuel"
        using consumesD(3) [OF pq] parser_ok_offset [OF qD(1)] Suc.prems(2) by simp
      let ?e = "CALCULATOR_EXPRESSION_POSTFIX (current_offset p) (Suc (expression_depth e)) operation e"
      have wrap: "calculator_expression_can_wrap e" using q(2) by simp
      have "parses u (failed u cs) (\<lambda>p' e'. \<exists>ts. consumes cs p ts p' \<and> postfix_tail e ts e' \<and> expression_depth e' \<le> CALCULATOR_MAX_EXPRESSION_DEPTH)
          (postfix_loop fuel q ?e)"
      proof (rule parses_conseq, rule Suc.IH [OF qD(1) fuel], goal_cases)
        case (2 r e')
        then obtain ts where ts: "consumes cs q ts r" "postfix_tail ?e ts e'" "expression_depth e' \<le> CALCULATOR_MAX_EXPRESSION_DEPTH" by blast
        show ?case
          using consumes_trans [OF pq ts(1)] postfix_more [OF Some wrap ts(2)] ts(3) by (intro exI [of _ "[current p] @ ts"]) simp
      qed (use wrap in \<open>simp add: calculator_expression_can_wrap_def\<close>)
      then have go: "parses u (failed u cs) (\<lambda>p' e'. \<exists>ts. consumes cs p ts p' \<and> postfix_tail e ts e' \<and> expression_depth e' \<le> CALCULATOR_MAX_EXPRESSION_DEPTH)
          (postfix_loop fuel q' e')" if "q' = q \<and> e' = ?e" for q' e' using that by simp
      have "parses u (failed u cs) (\<lambda>p' e'. p' = q \<and> e' = ?e)
          (State_Monad.bind (calculator_expression_create (\<lambda>position depth. CALCULATOR_EXPRESSION_POSTFIX position depth operation e)
            (current_offset p) (expression_depth e + 1)) (created_or_error q (current_offset p)))"
        by (rule parses_conseq [OF created_wp [OF pos]]) simp
      from parses_then [OF this go] show ?case by (simp add: parse_then_def State_Monad.bind_assoc)
    qed
  qed
qed simp

lemma parse_postfix_wp:
  assumes len: "length cs < SIZE_MAX"
    and E: "d < CALCULATOR_MAX_EXPRESSION_DEPTH \<Longrightarrow> level_ok u cs variables (Suc d) (additive_expr units cs variables (Suc d)) parse_expression"
    and p: "parser_ok cs p" and at: "recursion_depth p = d" "allow_variables p = variables"
  shows "parses u (failed u cs) (derives cs (postfix_expr units cs variables d) p) (calculator_parse_postfix units parse_expression p)"
  unfolding calculator_parse_postfix_def
proof (rule parses_then, rule parse_primary_wp [OF len E p at], assumption, goal_cases)
  case (1 q e)
  then obtain ts where ts: "ts \<noteq> []" "consumes cs p ts q" "primary_expr units cs variables d ts e"
    "expression_depth e \<le> CALCULATOR_MAX_EXPRESSION_DEPTH" by (auto simp: derives_def)
  note q = consumesD(1) [OF ts(2)]
  show ?case
  proof (rule parses_conseq, rule postfix_loop_wp [OF q loop_fuel_ok [OF q] ts(4)], elim exE conjE, goal_cases)
    case (1 r e' us)
    then show ?case
      unfolding derives_def using consumes_trans [OF ts(2) 1(1)] postfixed [OF ts(3) 1(2)] ts(1) by (intro exI [of _ "ts @ us"]) simp
  qed
qed

lemma parse_power_wp:
  assumes len: "length cs < SIZE_MAX"
    and E: "d < CALCULATOR_MAX_EXPRESSION_DEPTH \<Longrightarrow> level_ok u cs variables (Suc d) (additive_expr units cs variables (Suc d)) parse_expression"
    and U: "d < CALCULATOR_MAX_EXPRESSION_DEPTH \<Longrightarrow> level_ok u cs variables (Suc d) (unary_expr units cs variables (Suc d)) parse_unary"
    and p: "parser_ok cs p" and at: "recursion_depth p = d" "allow_variables p = variables"
  shows "parses u (failed u cs) (derives cs (power_expr units cs variables d) p) (calculator_parse_power units parse_expression parse_unary p)"
  unfolding calculator_parse_power_def Let_def
proof (rule parses_then, rule parse_postfix_wp [OF len E p at], assumption, goal_cases)
  case (1 q e)
  then obtain ts where ts: "ts \<noteq> []" "consumes cs p ts q" "postfix_expr units cs variables d ts e"
    "expression_depth e \<le> CALCULATOR_MAX_EXPRESSION_DEPTH" by (auto simp: derives_def)
  note q = consumesD [OF ts(2)] and pos = parser_ok_offset [OF consumesD(1) [OF ts(2)]]
  show ?case
  proof (rule parses_if, goal_cases)
    case 1
    then show ?case using ts base [OF ts(3)] by (intro parses_parsed) (auto simp: derives_def)
  next
    case caret: 2
    show ?case
    proof (rule parses_then, rule advance_wp [OF q(1)], use caret in simp, rule parses_if, rule parse_errors_failed(2) [OF pos], goal_cases)
      case r: (1 r)
      note rD = advanced_ok [OF r(1)]
      have d: "d < CALCULATOR_MAX_EXPRESSION_DEPTH" using r(2) rD q at by simp
      have pr: "consumes cs p (ts @ [current q]) r"
        by (rule consumes_trans [OF ts(2) advanced_consumes [OF r(1)]]) (use caret in simp)
      show ?case
      proof (rule parses_then, rule nested_wp [OF U [OF d] rD(1)], goal_cases)
        case (3 s' x)
        then obtain us where us: "consumes cs r us s'" "unary_expr units cs variables (Suc d) us x" by (auto simp: derives_def)
        show ?case
        proof (rule parses_conseq, rule binary_wp [OF pos], elim conjE, goal_cases)
          case (1 t y)
          have "power_expr units cs variables d (ts @ current q # us) (binary_node CALCULATOR_BINARY_POWER (current q) e x)"
            by (rule powered [OF ts(3) _ d us(2)]) (use 1 caret in simp_all)
          then show ?case
            using consumes_trans [OF pr us(1)] 1
            by (auto simp: derives_def binary_node_def calculator_expression_can_wrap_def intro!: exI [of _ "ts @ current q # us"])
        qed
      qed (use rD q at in simp_all)
    qed
  qed
qed

lemma unary_level_wp:
  assumes len: "length cs < SIZE_MAX"
    and E: "d < CALCULATOR_MAX_EXPRESSION_DEPTH \<Longrightarrow> level_ok u cs variables (Suc d) (additive_expr units cs variables (Suc d)) parse_expression"
    and U: "d < CALCULATOR_MAX_EXPRESSION_DEPTH \<Longrightarrow> level_ok u cs variables (Suc d) (unary_expr units cs variables (Suc d)) parse_unary"
  shows "level_ok u cs variables d (unary_expr units cs variables d) (unary_level units parse_expression parse_unary)"
  unfolding level_ok_def
proof (intro allI impI, elim conjE)
  fix p assume p: "parser_ok cs p" and at: "recursion_depth p = d" "allow_variables p = variables"
  note pos = parser_ok_offset [OF p]
  show "parses u (failed u cs) (derives cs (unary_expr units cs variables d) p) (unary_level units parse_expression parse_unary p)"
  proof (cases "current_type p = CALCULATOR_TOKEN_PLUS \<or> current_type p = CALCULATOR_TOKEN_MINUS")
    case False
    have power: "parses u (failed u cs) (derives cs (unary_expr units cs variables d) p)
        (calculator_parse_power units parse_expression parse_unary p)"
      by (rule parses_conseq, rule parse_power_wp [OF len E U p at]) (auto simp: derives_def intro: unsigned)
    show ?thesis unfolding unary_level_def if_not_P [OF False] by (rule power)
  next
    case sign: True
    define operation where "operation = (if current_type p = CALCULATOR_TOKEN_PLUS then CALCULATOR_UNARY_PLUS else CALCULATOR_UNARY_MINUS)"
    show ?thesis
      unfolding unary_level_def if_P [OF sign] Let_def operation_def [symmetric] calculator_expression_create_unary_def
    proof (rule parses_then, rule advance_wp [OF p], use sign in force, rule parses_if, rule parse_errors_failed(2) [OF pos], goal_cases)
      case q: (1 q)
      note qD = advanced_ok [OF q(1)]
      have d: "d < CALCULATOR_MAX_EXPRESSION_DEPTH" using q(2) qD at by simp
      have pq: "consumes cs p [current p] q" by (rule advanced_consumes [OF q(1)]) (use sign in auto)
      show ?case
      proof (rule parses_then, rule nested_wp [OF U [OF d] qD(1)], goal_cases)
        case (3 r e)
        then obtain us where us: "consumes cs q us r" "unary_expr units cs variables (Suc d) us e" by (auto simp: derives_def)
        show ?case
        proof (rule parses_if, rule parse_errors_failed(2) [OF pos], rule parses_conseq, rule created_wp [OF pos], elim conjE, goal_cases)
          case (1 t y)
          have "unary_expr units cs variables d (current p # us)
              (CALCULATOR_EXPRESSION_UNARY (current_offset p) (Suc (expression_depth e)) operation e)"
            by (rule signed [OF _ d us(2)]) (use 1 sign in \<open>auto simp: operation_def\<close>)
          then show ?case
            using consumes_trans [OF pq us(1)] 1
            by (auto simp: derives_def calculator_expression_can_wrap_def intro!: exI [of _ "current p # us"])
        qed
      qed (use qD at in simp_all)
    qed
  qed
qed

lemma factor_loop_wp:
  assumes U: "level_ok u cs variables d (unary_expr units cs variables d) parse_unary"
  shows "parser_ok cs p \<Longrightarrow> recursion_depth p = d \<Longrightarrow> allow_variables p = variables \<Longrightarrow> length cs - current_offset p < fuel \<Longrightarrow>
    expression_depth e \<le> CALCULATOR_MAX_EXPRESSION_DEPTH \<Longrightarrow>
    parses u (failed u cs) (\<lambda>p' e'. \<exists>ts. consumes cs p ts p' \<and> factor_tail units cs variables d e ts e' \<and>
      expression_depth e' \<le> CALCULATOR_MAX_EXPRESSION_DEPTH) (multiplicative_loop fuel parse_unary p e)"
proof (induction fuel arbitrary: p e)
  case (Suc fuel)
  note p = Suc.prems(1) and pos = parser_ok_offset [OF Suc.prems(1)] and at = Suc.prems(2,3)
  show ?case
  proof (cases "explicit_operator (current_type p) \<or> calculator_token_starts_primary (current_type p)")
    case False
    then show ?thesis
      using consumes_Nil [OF p] factors_end Suc.prems(5) by (auto intro!: parses_parsed)
  next
    case True
    define operation where "operation = (if current_type p = CALCULATOR_TOKEN_SLASH then CALCULATOR_BINARY_DIVIDE else CALCULATOR_BINARY_MULTIPLY)"
    define sign where "sign = (if explicit_operator (current_type p) then [current p] else [])"
    have sep: "parses u (failed u cs) (\<lambda>q _. consumes cs p sign q \<and> (sign = [] \<longrightarrow> q = p))
        (if explicit_operator (current_type p) then calculator_parser_advance p else parsed p ())"
    proof (cases "explicit_operator (current_type p)")
      case True
      then have "parses u (failed u cs) (\<lambda>q _. consumes cs p sign q \<and> (sign = [] \<longrightarrow> q = p)) (calculator_parser_advance p)"
        by (intro parses_conseq [OF advance_wp [OF p]]) (auto simp: sign_def explicit_operator_def intro: advanced_consumes)
      with True show ?thesis by simp
    qed (simp add: sign_def consumes_Nil [OF p] parses_parsed)
    show ?thesis
      unfolding multiplicative_loop.simps if_P [OF True] Let_def operation_def [symmetric]
    proof (rule parses_then, rule sep, goal_cases)
      case pq: (1 q v)
      note q = consumesD [OF pq [THEN conjunct1]]
      show ?case
      proof (rule parses_then, rule level_okD [OF U q(1)], goal_cases)
        case (3 r x)
        then obtain ts where ts: "ts \<noteq> []" "consumes cs q ts r" "unary_expr units cs variables d ts x" by (auto simp: derives_def)
        have pr: "consumes cs p (sign @ ts) r" by (rule consumes_trans [OF pq [THEN conjunct1] ts(2)])
        note r = consumesD [OF pr]
        have fuel: "length cs - current_offset r < fuel"
          using r(3) ts(1) parser_ok_offset [OF r(1)] Suc.prems(4) by (cases ts) simp_all
        show ?case
        proof (rule parses_then, rule binary_wp [OF pos], elim conjE, hypsubst, goal_cases)
          case wrap: (1 a b)
          have grown: "factor_tail units cs variables d e ((sign @ ts) @ us) e'"
            if us: "factor_tail units cs variables d (binary_node operation (current p) e x) us e'" for us e'
          proof (cases "explicit_operator (current_type p)")
            case True
            with factor [OF _ ts(3) wrap us] show ?thesis by (auto simp: sign_def operation_def explicit_operator_def)
          next
            case False
            with pq have "q = p" by (simp add: sign_def)
            with ts(1,2) obtain ts' where t: "ts = current p # ts'" by (cases ts) (auto simp: consumes_def)
            from False True have "calculator_token_starts_primary (current_type p)" by simp
            from juxtaposed [OF this ts(3) [unfolded t] wrap] us False show ?thesis
              by (auto simp: t sign_def operation_def explicit_operator_def)
          qed
          show ?case
          proof (rule parses_conseq, rule Suc.IH [OF r(1) _ _ fuel], goal_cases)
            case (4 s' e')
            then obtain us where us: "consumes cs r us s'" "factor_tail units cs variables d (binary_node operation (current p) e x) us e'"
              "expression_depth e' \<le> CALCULATOR_MAX_EXPRESSION_DEPTH" by (auto simp: binary_node_def)
            then show ?case using consumes_trans [OF pr us(1)] grown [OF us(2)] by blast
          qed (use r at wrap in \<open>auto simp: calculator_expression_can_wrap_def\<close>)
        qed
      qed (use q at in simp_all)
    qed
  qed
qed simp

lemma parse_multiplicative_wp:
  assumes U: "level_ok u cs variables d (unary_expr units cs variables d) parse_unary"
  shows "level_ok u cs variables d (multiplicative_expr units cs variables d) (calculator_parse_multiplicative parse_unary)"
  unfolding level_ok_def calculator_parse_multiplicative_def
proof (intro allI impI, elim conjE, rule parses_then, rule level_okD [OF U], assumption, assumption, assumption, goal_cases)
  case (1 p q e)
  then obtain ts where ts: "ts \<noteq> []" "consumes cs p ts q" "unary_expr units cs variables d ts e"
    "expression_depth e \<le> CALCULATOR_MAX_EXPRESSION_DEPTH" by (auto simp: derives_def)
  note q = consumesD [OF ts(2)]
  show ?case
  proof (rule parses_conseq, rule factor_loop_wp [OF U q(1) _ _ loop_fuel_ok [OF q(1)] ts(4)], goal_cases)
    case (3 r e')
    then obtain us where us: "consumes cs q us r" "factor_tail units cs variables d e us e'"
      "expression_depth e' \<le> CALCULATOR_MAX_EXPRESSION_DEPTH" by blast
    then show ?case
      unfolding derives_def using consumes_trans [OF ts(2) us(1)] multiplied [OF ts(3) us(2)] ts(1) by (intro exI [of _ "ts @ us"]) simp
  qed (use q 1 in simp_all)
qed

lemma summand_loop_wp:
  assumes U: "level_ok u cs variables d (unary_expr units cs variables d) parse_unary"
  shows "parser_ok cs p \<Longrightarrow> recursion_depth p = d \<Longrightarrow> allow_variables p = variables \<Longrightarrow> length cs - current_offset p < fuel \<Longrightarrow>
    expression_depth e \<le> CALCULATOR_MAX_EXPRESSION_DEPTH \<Longrightarrow>
    parses u (failed u cs) (\<lambda>p' e'. \<exists>ts. consumes cs p ts p' \<and> summand_tail units cs variables d e ts e' \<and>
      expression_depth e' \<le> CALCULATOR_MAX_EXPRESSION_DEPTH) (additive_loop fuel parse_unary p e)"
proof (induction fuel arbitrary: p e)
  case (Suc fuel)
  note p = Suc.prems(1) and pos = parser_ok_offset [OF Suc.prems(1)] and at = Suc.prems(2,3)
  show ?case
  proof (cases "current_type p = CALCULATOR_TOKEN_PLUS \<or> current_type p = CALCULATOR_TOKEN_MINUS")
    case False
    then show ?thesis
      using consumes_Nil [OF p] summands_end Suc.prems(5) by (auto intro!: parses_parsed)
  next
    case sign: True
    define operation where "operation = (if current_type p = CALCULATOR_TOKEN_PLUS then CALCULATOR_BINARY_ADD else CALCULATOR_BINARY_SUBTRACT)"
    show ?thesis
      unfolding additive_loop.simps if_P [OF sign] Let_def operation_def [symmetric]
    proof (rule parses_then, rule advance_wp [OF p], use sign in force, goal_cases)
      case q: (1 q v)
      note qD = advanced_ok [OF q]
      have pq: "consumes cs p [current p] q" by (rule advanced_consumes [OF q]) (use sign in auto)
      show ?case
      proof (rule parses_then, rule level_okD [OF parse_multiplicative_wp [OF U] qD(1)], goal_cases)
        case (3 r x)
        then obtain ts where ts: "ts \<noteq> []" "consumes cs q ts r" "multiplicative_expr units cs variables d ts x" by (auto simp: derives_def)
        have pr: "consumes cs p ([current p] @ ts) r" by (rule consumes_trans [OF pq ts(2)])
        note r = consumesD [OF pr]
        have fuel: "length cs - current_offset r < fuel" using r(3) parser_ok_offset [OF r(1)] Suc.prems(4) by simp
        show ?case
        proof (rule parses_then, rule binary_wp [OF pos], elim conjE, hypsubst, goal_cases)
          case wrap: (1 a b)
          show ?case
          proof (rule parses_conseq, rule Suc.IH [OF r(1) _ _ fuel], goal_cases)
            case (4 s' e')
            then obtain us where us: "consumes cs r us s'" "summand_tail units cs variables d (binary_node operation (current p) e x) us e'"
              "expression_depth e' \<le> CALCULATOR_MAX_EXPRESSION_DEPTH" by (auto simp: binary_node_def)
            have "summand_tail units cs variables d e (current p # ts @ us) e'"
              by (rule summand [OF _ ts(3) wrap us(2)]) (use sign in \<open>auto simp: operation_def\<close>)
            with consumes_trans [OF pr us(1)] us(3) show ?case by auto
          qed (use r at wrap in \<open>auto simp: calculator_expression_can_wrap_def\<close>)
        qed
      qed (use qD at in simp_all)
    qed
  qed
qed simp

lemma expression_level_wp:
  assumes U: "level_ok u cs variables d (unary_expr units cs variables d) parse_unary"
  shows "level_ok u cs variables d (additive_expr units cs variables d) (expression_level parse_unary)"
  unfolding level_ok_def expression_level_def
proof (intro allI impI, elim conjE, rule parses_then, rule level_okD [OF parse_multiplicative_wp [OF U]], assumption, assumption, assumption, goal_cases)
  case (1 p q e)
  then obtain ts where ts: "ts \<noteq> []" "consumes cs p ts q" "multiplicative_expr units cs variables d ts e"
    "expression_depth e \<le> CALCULATOR_MAX_EXPRESSION_DEPTH" by (auto simp: derives_def)
  note q = consumesD [OF ts(2)]
  show ?case
  proof (rule parses_conseq, rule summand_loop_wp [OF U q(1) _ _ loop_fuel_ok [OF q(1)] ts(4)], goal_cases)
    case (3 r e')
    then obtain us where us: "consumes cs q us r" "summand_tail units cs variables d e us e'"
      "expression_depth e' \<le> CALCULATOR_MAX_EXPRESSION_DEPTH" by blast
    then show ?case
      unfolding derives_def using consumes_trans [OF ts(2) us(1)] added [OF ts(3) us(2)] ts(1) by (intro exI [of _ "ts @ us"]) simp
  qed (use q 1 in simp_all)
qed

text \<open>Two units of fuel for each level of recursion.\<close>

lemma parse_sound:
  assumes len: "length cs < SIZE_MAX"
  shows "(\<forall>d. 2 * (CALCULATOR_MAX_EXPRESSION_DEPTH - d) + 2 \<le> fuel \<longrightarrow>
      level_ok u cs variables d (additive_expr units cs variables d) (calculator_parse_expression units fuel)) \<and>
    (\<forall>d. 2 * (CALCULATOR_MAX_EXPRESSION_DEPTH - d) + 1 \<le> fuel \<longrightarrow>
      level_ok u cs variables d (unary_expr units cs variables d) (calculator_parse_unary units fuel))"
proof (induction fuel)
  case (Suc fuel)
  have E: "level_ok u cs variables d (additive_expr units cs variables d) (calculator_parse_expression units fuel)"
    if "2 * (CALCULATOR_MAX_EXPRESSION_DEPTH - d) + 2 \<le> fuel" for d using Suc.IH that by blast
  have U: "level_ok u cs variables d (unary_expr units cs variables d) (calculator_parse_unary units fuel)"
    if "2 * (CALCULATOR_MAX_EXPRESSION_DEPTH - d) + 1 \<le> fuel" for d using Suc.IH that by blast
  show ?case
  proof (intro conjI allI impI, goal_cases)
    case (1 d)
    have "calculator_parse_expression units (Suc fuel) = expression_level (calculator_parse_unary units fuel)" by (rule ext) simp
    with 1 expression_level_wp [OF U] show ?case by simp
  next
    case (2 d)
    have "calculator_parse_unary units (Suc fuel) = unary_level units (calculator_parse_expression units fuel) (calculator_parse_unary units fuel)"
      by (rule ext) simp
    moreover have "level_ok u cs variables d (unary_expr units cs variables d)
        (unary_level units (calculator_parse_expression units fuel) (calculator_parse_unary units fuel))"
      by (rule unary_level_wp [OF len E U]) (use 2 in simp_all)
    ultimately show ?case by simp
  qed
qed simp

end
