(* ===== verification/Calculator_Language.thy ===== *)
theory Calculator_Language
  imports Calculator_Grammar
begin

text \<open>
  The parser accepts exactly the sentences of the grammar: with enough memory every derivable tree is the result.
  The trees are well typed.
\<close>

section \<open>Completeness\<close>

text \<open>The tokens \<open>ts\<close>, the current one first, are what the parser has before it.\<close>

definition pending :: "string \<Rightarrow> CalculatorParser \<Rightarrow> CalculatorToken list \<Rightarrow> bool" where
  "pending cs p ts \<longleftrightarrow> parser_ok cs p \<and> numbers_apart ts \<and> ts \<noteq> [] \<and> hd ts = current p \<and>
     (\<exists>b. lexed (parser_tokenizer p) (tl ts) b) \<and> list_all (\<lambda>t. token_type t \<noteq> CALCULATOR_TOKEN_END) (butlast ts)"

lemma pending_Cons: "pending cs p (t # ts) \<Longrightarrow> current p = t"
  by (simp add: pending_def)

lemma pending_ok: "pending cs p ts \<Longrightarrow> parser_ok cs p"
  by (simp add: pending_def)

lemma next_token_step: "next_token a = Some (t, b) \<Longrightarrow> tokenizer_wf a \<Longrightarrow> token_step a b t"
  using tokenizer_step [of a no_token no_error]
  by (cases "calculator_tokenizer_next a no_token no_error") (simp add: next_token_def step_outcome_def split: if_splits)

lemma lexed_length:
  "lexed a ts b \<Longrightarrow> tokenizer_wf a \<Longrightarrow> list_all (\<lambda>t. token_type t \<noteq> CALCULATOR_TOKEN_END) (butlast ts) \<Longrightarrow>
   length ts \<le> length (tokenizer_input a) - tokenizer_offset a + 1"
proof (induction ts arbitrary: a)
  case (Cons t ts)
  then obtain c where c: "next_token a = Some (t, c)" "lexed c ts b" by auto
  note step = token_stepD [OF next_token_step [OF c(1) Cons.prems(2)] Cons.prems(2)]
  show ?case
  proof (cases "ts = []")
    case False
    with Cons.prems(3) have "token_type t \<noteq> CALCULATOR_TOKEN_END" "list_all (\<lambda>t. token_type t \<noteq> CALCULATOR_TOKEN_END) (butlast ts)"
      by simp_all
    with step Cons.IH [OF c(2) step(1)] show ?thesis by auto
  qed simp
qed simp

lemma pending_length:
  assumes "pending cs p ts"
  shows "length ts < loop_fuel p"
proof -
  obtain t us where ts: "ts = t # us" using assms by (cases ts) (auto simp: pending_def)
  have p: "parser_ok cs p" by (rule pending_ok [OF assms])
  have t: "current p = t" by (rule pending_Cons [OF assms [unfolded ts]])
  have wf: "tokenizer_wf (parser_tokenizer p)" "tokenizer_input (parser_tokenizer p) = cs" "tokenizer_length (parser_tokenizer p) = length cs"
    using p by (auto simp: parser_ok_def tokenizer_wf_def)
  show ?thesis
  proof (cases "us = []")
    case False
    with assms obtain b where l: "lexed (parser_tokenizer p) us b" and more: "token_type t \<noteq> CALCULATOR_TOKEN_END"
      "list_all (\<lambda>t. token_type t \<noteq> CALCULATOR_TOKEN_END) (butlast us)" by (auto simp: pending_def ts)
    have "length us \<le> length cs - tokenizer_offset (parser_tokenizer p) + 1"
      using lexed_length [OF l wf(1) more(2)] by (simp add: wf(2))
    moreover have "0 < tokenizer_offset (parser_tokenizer p)" "tokenizer_offset (parser_tokenizer p) \<le> length cs"
      using p more(1) t wf by (auto simp: parser_ok_def tokenizer_wf_def)
    ultimately show ?thesis using wf by (simp add: ts loop_fuel_def)
  qed (simp add: ts loop_fuel_def)
qed

text \<open>With unlimited memory \<open>m\<close> gives \<open>x\<close> and stops before \<open>rest\<close>.\<close>

definition completes :: "string \<Rightarrow> CalculatorParser \<Rightarrow> CalculatorToken list \<Rightarrow> 'a \<Rightarrow> 'a parse \<Rightarrow> bool" where
  "completes cs p rest x m \<longleftrightarrow> parses True (\<lambda>_ _. False) (\<lambda>q y. y = x \<and> pending cs q rest \<and> same_level p q) m"

lemma completes_then:
  assumes "completes cs p us x m" "\<And>q. pending cs q us \<Longrightarrow> same_level p q \<Longrightarrow> completes cs q rest y (f q x)"
  shows "completes cs p rest y (parse_then m f)"
  unfolding completes_def
  by (rule parses_then [OF assms(1) [unfolded completes_def]])
    (use assms(2) in \<open>auto simp: completes_def same_level_def elim!: parses_conseq\<close>)

lemma completes_parsed: "pending cs p rest \<Longrightarrow> completes cs p rest x (parsed p x)"
  by (simp add: completes_def same_level_def parses_parsed)

lemma completes_bind:
  assumes "completes cs p us x (State_Monad.bind m (created_or_error p position))"
    and "\<And>q. pending cs q us \<Longrightarrow> same_level p q \<Longrightarrow> completes cs q rest y (f q x)"
  shows "completes cs p rest y (State_Monad.bind m (\<lambda>created. parse_then (created_or_error p position created) f))"
proof -
  have eq: "State_Monad.bind m (\<lambda>created. parse_then (created_or_error p position created) f) =
      parse_then (State_Monad.bind m (created_or_error p position)) f"
    by (simp add: parse_then_def State_Monad.bind_assoc)
  show ?thesis unfolding eq by (rule completes_then, rule assms(1), rule assms(2))
qed

lemma completes_nested:
  assumes "completes cs (p\<lparr>recursion_depth := recursion_depth p + 1\<rparr>) rest x (parse (p\<lparr>recursion_depth := recursion_depth p + 1\<rparr>))"
  shows "completes cs p rest x (nested parse p)"
  unfolding completes_def
  by (rule parses_nested, rule assms [unfolded completes_def]) (auto simp: pending_def same_level_def)

lemma completes_advance:
  assumes "pending cs p (t # ts)" "ts \<noteq> []" "token_type t \<noteq> CALCULATOR_TOKEN_END"
  shows "completes cs p ts () (calculator_parser_advance p)"
proof -
  have p: "parser_ok cs p" and t: "current p = t" and apart: "numbers_apart ts"
    and butlast: "list_all (\<lambda>t. token_type t \<noteq> CALCULATOR_TOKEN_END) (butlast ts)"
    using assms by (auto simp: pending_def numbers_apart_def successively_Cons)
  obtain c b where c: "next_token (parser_tokenizer p) = Some (hd ts, c)" "lexed c (tl ts) b"
    using assms(1,2) by (cases ts) (auto simp: pending_def)
  obtain status b' t' err where n: "calculator_tokenizer_next (parser_tokenizer p) (current p) (parser_error p) = (status, b', t', err)"
    by (metis prod_cases4)
  from next_token_any [OF n] c(1) have eq: "status = CALCULATOR_OK" "t' = hd ts" "b' = c" by (auto split: if_splits)
  have "parses True (failed True cs) (\<lambda>q _. advanced cs p q) (calculator_parser_advance p)"
    by (rule advance_wp [OF p]) (use t assms(3) in simp)
  moreover have run: "calculator_parser_advance p =
      State_Monad.return (p\<lparr>parser_tokenizer := c, current := hd ts, parser_error := err\<rparr>, Inr ())"
    by (simp add: calculator_parser_advance_def n eq)
  ultimately have "advanced cs p (p\<lparr>parser_tokenizer := c, current := hd ts, parser_error := err\<rparr>)"
    by (auto simp: parses_def triple_def rt_ok_def dest!: spec [of _ idle_runtime])
  then have "parser_ok cs (p\<lparr>parser_tokenizer := c, current := hd ts, parser_error := err\<rparr>)" by (rule advanced_ok(1))
  with c(2) apart butlast assms(2) show ?thesis
    unfolding completes_def parses_def run by (auto intro!: triple_return simp: pending_def same_level_def)
qed

lemma completes_created:
  assumes "pending cs p ts"
  shows "completes cs p ts (node position depth)
    (State_Monad.bind (calculator_expression_create node position depth) (created_or_error p position))"
  unfolding calculator_expression_create_def completes_def
  by (rule parses_bind, rule triple_bind, rule malloc_wp)
    (use assms in \<open>auto simp: created_or_error_def same_level_def intro!: triple_return parses_parsed\<close>)

lemma completes_number:
  assumes "length cs < SIZE_MAX" "pending cs p ts"
  shows "completes cs p ts (node (current_offset p) 1 (token_slice cs (current p)))
    (State_Monad.bind (calculator_expression_create_number node p) (created_or_error p (current_offset p)))"
proof -
  have p: "parser_ok cs p" using assms(2) by (rule pending_ok)
  then have "token_length (current p) \<noteq> SIZE_MAX" "current_text p = token_slice cs (current p)"
    using assms(1) by (auto simp: parser_ok_def current_text_def)
  then show ?thesis
    unfolding calculator_expression_create_number_def calculator_expression_create_def completes_def
    by (simp, intro parses_bind triple_bind malloc_wp triple_return)
      (use assms(2) in \<open>auto simp: created_or_error_def same_level_def intro!: parses_parsed triple_bind malloc_wp triple_return\<close>)
qed

lemma completes_combine:
  assumes "pending cs p ts" "calculator_expression_can_wrap l" "calculator_expression_can_wrap r" "position = token_offset t"
  shows "completes cs p ts (binary_node operation t l r) (calculator_parser_combine p operation position l r)"
proof -
  have "\<not> (CALCULATOR_MAX_EXPRESSION_DEPTH \<le> expression_depth l \<or> CALCULATOR_MAX_EXPRESSION_DEPTH \<le> expression_depth r)"
    using assms(2,3) by (auto simp: calculator_expression_can_wrap_def)
  then show ?thesis
    unfolding calculator_parser_combine_def calculator_expression_create_binary_def binary_node_def assms(4)
    using completes_created [OF assms(1), of "\<lambda>position depth. CALCULATOR_EXPRESSION_BINARY position depth operation l r" "token_offset t"]
    by (simp add: max_def)
qed

text \<open>The tokens a class of expressions starts with, and those that do not continue it.\<close>

definition starts_expression :: "CalculatorTokenType \<Rightarrow> bool" where
  "starts_expression type \<longleftrightarrow> calculator_token_starts_primary type \<or> type = CALCULATOR_TOKEN_PLUS \<or> type = CALCULATOR_TOKEN_MINUS"

definition ends_postfix :: "CalculatorTokenType \<Rightarrow> bool" where
  "ends_postfix type \<longleftrightarrow> postfix_operator type = None"

definition ends_factor :: "CalculatorTokenType \<Rightarrow> bool" where
  "ends_factor type \<longleftrightarrow> ends_postfix type \<and> type \<noteq> CALCULATOR_TOKEN_CARET"

definition ends_product :: "CalculatorTokenType \<Rightarrow> bool" where
  "ends_product type \<longleftrightarrow> ends_factor type \<and> \<not> explicit_operator type \<and> \<not> calculator_token_starts_primary type"

definition ends_sum :: "CalculatorTokenType \<Rightarrow> bool" where
  "ends_sum type \<longleftrightarrow> ends_product type \<and> type \<noteq> CALCULATOR_TOKEN_PLUS \<and> type \<noteq> CALCULATOR_TOKEN_MINUS"

lemmas token_classes = starts_expression_def ends_postfix_def ends_factor_def ends_product_def ends_sum_def
  explicit_operator_def calculator_token_starts_primary_def

lemmas grammar_inducts =
  primary_expr_argument_list_postfix_expr_power_expr_unary_expr_factor_tail_multiplicative_expr_summand_tail_additive_expr.inducts
    [unfolded no_function_iff, unfolded grammar_tables, consumes 1, case_names number name group call no_arguments with_units
      last_argument more_arguments postfixed base powered unsigned signed factors_end factor juxtaposed multiplied summands_end
      summand added]

lemma first_tokens:
  "primary_expr units cs variables d ts e \<Longrightarrow> ts \<noteq> [] \<and> calculator_token_starts_primary (token_type (hd ts))"
  "argument_list units cs variables d f ts arguments from_unit to_unit \<Longrightarrow> arguments \<noteq> [] \<Longrightarrow> ts \<noteq> [] \<and> starts_expression (token_type (hd ts))"
  "postfix_expr units cs variables d ts e \<Longrightarrow> ts \<noteq> [] \<and> calculator_token_starts_primary (token_type (hd ts))"
  "power_expr units cs variables d ts e \<Longrightarrow> ts \<noteq> [] \<and> calculator_token_starts_primary (token_type (hd ts))"
  "unary_expr units cs variables d ts e \<Longrightarrow> ts \<noteq> [] \<and> starts_expression (token_type (hd ts))"
  "factor_tail units cs variables d e ts e' \<Longrightarrow>
     ts = [] \<or> explicit_operator (token_type (hd ts)) \<or> calculator_token_starts_primary (token_type (hd ts))"
  "multiplicative_expr units cs variables d ts e \<Longrightarrow> ts \<noteq> [] \<and> starts_expression (token_type (hd ts))"
  "summand_tail units cs variables d e ts e' \<Longrightarrow>
     ts = [] \<or> token_type (hd ts) = CALCULATOR_TOKEN_PLUS \<or> token_type (hd ts) = CALCULATOR_TOKEN_MINUS"
  "additive_expr units cs variables d ts e \<Longrightarrow> ts \<noteq> [] \<and> starts_expression (token_type (hd ts))"
  by (induction rule: grammar_inducts) (auto simp: token_classes call_name_parsed split: if_splits)

definition ready :: "string \<Rightarrow> bool \<Rightarrow> nat \<Rightarrow> CalculatorParser \<Rightarrow> CalculatorToken list \<Rightarrow> bool" where
  "ready cs variables d p ts \<longleftrightarrow> pending cs p ts \<and> recursion_depth p = d \<and> allow_variables p = variables"

lemma ready_same: "ready cs variables d p ts \<Longrightarrow> pending cs q us \<Longrightarrow> same_level p q \<Longrightarrow> ready cs variables d q us"
  by (simp add: ready_def same_level_def)

lemma readyD:
  "ready cs variables d p (t # ts) \<Longrightarrow> current p = t"
  "ready cs variables d p ts \<Longrightarrow> pending cs p ts"
  "ready cs variables d p ts \<Longrightarrow> recursion_depth p = d"
  "ready cs variables d p ts \<Longrightarrow> allow_variables p = variables"
  "ready cs variables d p ts \<Longrightarrow> parser_ok cs p"
  by (auto simp: ready_def pending_def)

definition accepts ::
  "string \<Rightarrow> bool \<Rightarrow> nat \<Rightarrow> (CalculatorTokenType \<Rightarrow> bool) \<Rightarrow> CalculatorToken list \<Rightarrow> 'a \<Rightarrow> (CalculatorParser \<Rightarrow> 'a parse) \<Rightarrow> bool" where
  "accepts cs variables d P ts x parse \<longleftrightarrow>
     (\<forall>p rest. ready cs variables d p (ts @ rest) \<and> rest \<noteq> [] \<and> P (token_type (hd rest)) \<longrightarrow> completes cs p rest x (parse p))"

lemma acceptsD:
  "accepts cs variables d P ts x parse \<Longrightarrow> ready cs variables d p (ts @ rest) \<Longrightarrow> rest \<noteq> [] \<Longrightarrow> P (token_type (hd rest)) \<Longrightarrow>
   completes cs p rest x (parse p)"
  by (auto simp: accepts_def)

lemma accepts_nested:
  assumes "accepts cs variables (Suc d) P ts x parse" "ready cs variables d p (ts @ rest)" "rest \<noteq> []" "P (token_type (hd rest))"
  shows "completes cs p rest x (nested parse p)"
  by (rule completes_nested, rule acceptsD [OF assms(1) _ assms(3,4)]) (use assms(2) in \<open>auto simp: ready_def pending_def\<close>)

lemma completes_advance':
  assumes "ready cs variables d p (t # ts)" "ts \<noteq> []" "token_type t \<noteq> CALCULATOR_TOKEN_END"
    and "\<And>q. ready cs variables d q ts \<Longrightarrow> completes cs q rest y (f q ())"
  shows "completes cs p rest y (parse_then (calculator_parser_advance p) f)"
  by (rule completes_then, rule completes_advance [OF readyD(2) [OF assms(1)] assms(2,3)])
    (use assms(4) ready_same [OF assms(1)] in auto)

lemma number_accepts:
  assumes len: "length cs < SIZE_MAX" and t: "token_type t = CALCULATOR_TOKEN_NUMBER"
  shows "accepts cs variables d (\<lambda>_. True) [t] (CALCULATOR_EXPRESSION_NUMBER (token_offset t) 1 (token_slice cs t))
    (calculator_parse_primary units parse_expression)"
  unfolding accepts_def
proof (intro allI impI, elim conjE)
  fix p rest assume r: "ready cs variables d p ([t] @ rest)" and ne: "rest \<noteq> []"
  have cur: "current p = t" using readyD(1) r by simp
  have apart: "token_type (hd rest) \<noteq> CALCULATOR_TOKEN_NUMBER"
    using readyD(2) [OF r] ne t by (cases rest) (auto simp: pending_def numbers_apart_def)
  have "completes cs p rest (CALCULATOR_EXPRESSION_NUMBER (current_offset p) 1 (token_slice cs (current p))) (parse_number p)"
    unfolding parse_number_def
  proof (rule completes_bind, rule completes_number [OF len readyD(2) [OF r]], goal_cases)
    case (1 q)
    have q: "ready cs variables d q (t # rest)" using ready_same [OF r 1] by simp
    show ?case
    proof (rule completes_advance' [OF q ne], use t in simp, goal_cases)
      case (1 q')
      then show ?case using apart ne readyD(1,2) [of cs variables d q'] by (cases rest) (auto intro!: completes_parsed)
    qed
  qed
  then show "completes cs p rest (CALCULATOR_EXPRESSION_NUMBER (token_offset t) 1 (token_slice cs t)) (calculator_parse_primary units parse_expression p)"
    by (simp add: calculator_parse_primary_def cur t)
qed

lemma name_accepts:
  assumes len: "length cs < SIZE_MAX" and t: "token_type t = CALCULATOR_TOKEN_IDENTIFIER"
    and f: "calculator_function_find (token_slice cs t) = None" and v: "named_value variables (token_offset t) (token_slice cs t) = Some e"
  shows "accepts cs variables d (\<lambda>_. True) [t] e (calculator_parse_primary units parse_expression)"
  unfolding accepts_def
proof (intro allI impI, elim conjE)
  fix p rest assume r: "ready cs variables d p ([t] @ rest)" and ne: "rest \<noteq> []"
  have cur: "current p = t" using readyD(1) r by simp
  have own: "current_text p = token_slice cs t" using current_text_ok [OF readyD(5) [OF r]] cur by simp
  note created = completes_created [OF readyD(2) [OF r]]
  note number = completes_number [OF len readyD(2) [OF r], unfolded cur]
  have "completes cs p rest e (parse_name p)"
    unfolding parse_name_def own cur Let_def readyD(4) [OF r]
  proof (rule completes_then [where us = "[t] @ rest" and x = e], goal_cases)
    case 1
    show ?case
      using v created number
      by (auto simp: named_value_parsed calculator_expression_create_constant_def cur split: if_splits option.splits)
  next
    case (2 q)
    have q: "ready cs variables d q (t # rest)" using ready_same [OF r 2] by simp
    show ?case
      by (rule completes_advance' [OF q ne], use t in simp, rule completes_parsed, erule readyD(2))
  qed
  then show "completes cs p rest e (calculator_parse_primary units parse_expression p)"
    by (simp add: calculator_parse_primary_def cur t own f)
qed

lemma group_accepts:
  assumes d: "d < CALCULATOR_MAX_EXPRESSION_DEPTH" and l: "token_type l = CALCULATOR_TOKEN_LEFT_PAREN"
    and r: "token_type r = CALCULATOR_TOKEN_RIGHT_PAREN"
    and E: "accepts cs variables (Suc d) ends_sum ts e parse_expression"
  shows "accepts cs variables d (\<lambda>_. True) (l # ts @ [r]) e (calculator_parse_primary units parse_expression)"
  unfolding accepts_def
proof (intro allI impI, elim conjE)
  fix p rest assume p: "ready cs variables d p ((l # ts @ [r]) @ rest)" and ne: "rest \<noteq> []"
  have cur: "current p = l" using readyD(1) p by simp
  have "completes cs p rest e (parse_group parse_expression p)"
    unfolding parse_group_def readyD(3) [OF p] if_not_P [OF d [unfolded not_le [symmetric]]]
  proof (rule completes_advance' [OF p [simplified]], simp, use l in simp, goal_cases)
    case (1 q)
    show ?case
    proof (rule completes_then, rule accepts_nested [OF E 1], simp, use r in \<open>simp add: token_classes\<close>, goal_cases)
      case (1 q')
      have q': "ready cs variables d q' (r # rest)" using ready_same [OF \<open>ready cs variables d q _\<close> 1] by simp
      show ?case
        using readyD(1) [OF q'] r completes_advance' [OF q' ne, of rest e "\<lambda>p _. parsed p e"] completes_parsed readyD(2)
        by (auto simp: completes_parsed)
    qed
  qed
  then show "completes cs p rest e (calculator_parse_primary units parse_expression p)"
    by (simp add: calculator_parse_primary_def cur l)
qed

lemma unit_accepts:
  assumes u: "unit_argument units cs from_unit ts name"
  shows "accepts cs variables d (\<lambda>_. True) ts name (call_unit units from_unit)"
  unfolding accepts_def
proof (intro allI impI, elim conjE)
  fix p rest assume p: "ready cs variables d p (ts @ rest)" and ne: "rest \<noteq> []"
  from u obtain semi t where ts: "ts = [semi, t]" "token_type semi = CALCULATOR_TOKEN_SEMICOLON" "token_type t = CALCULATOR_TOKEN_UNIT"
    "0 < token_length t" "token_length t < 32" "name = token_slice cs t" "numforge_unit_find units name \<noteq> None"
    "case from_unit of None \<Rightarrow> True | Some from_unit \<Rightarrow> numforge_units_compatible units from_unit name"
    by (auto simp: unit_argument_def)
  have p': "ready cs variables d p (semi # t # rest)" using p ts(1) by simp
  have cur: "\<not> current_type p \<noteq> CALCULATOR_TOKEN_SEMICOLON" using readyD(1) [OF p'] ts(2) by simp
  show "completes cs p rest name (call_unit units from_unit p)"
    unfolding call_unit_def if_not_P [OF cur] Let_def
  proof (rule completes_advance' [OF p'], simp, use ts(2) in simp, goal_cases)
    case (1 q)
    have q: "current q = t" "current_text q = token_slice cs t"
      using readyD(1) [OF 1] current_text_ok [OF readyD(5) [OF 1]] by simp_all
    have ok: "\<not> (case from_unit of None \<Rightarrow> False | Some from_unit \<Rightarrow> \<not> numforge_units_compatible units from_unit (token_slice cs t))"
      using ts(6,8) by (simp split: option.splits)
    have "completes cs q rest name (parse_then (calculator_parser_advance q) (\<lambda>p _. parsed p (token_slice cs t)))"
      by (rule completes_advance' [OF 1 ne], use ts(3) in simp, unfold ts(6), rule completes_parsed, erule readyD(2))
    with q ts ok show ?case by (auto split: option.splits)
  qed
qed

lemma units_accept:
  assumes u: "unit_arguments units cs f ts from_unit to_unit"
  shows "accepts cs variables d (\<lambda>_. True) ts (from_unit, to_unit) (call_units units f)"
  unfolding accepts_def
proof (intro allI impI, elim conjE)
  fix p rest assume p: "ready cs variables d p (ts @ rest)" and ne: "rest \<noteq> []"
  show "completes cs p rest (from_unit, to_unit) (call_units units f p)"
  proof (cases "implementation f = CALCULATOR_FUNCTION_QUANTITY")
    case True
    with u have one: "unit_argument units cs None ts from_unit" "to_unit = []" by (simp_all add: unit_arguments_parsed)
    show ?thesis
      unfolding call_units_def if_P [OF True] one(2)
      by (rule completes_then, rule acceptsD [OF unit_accepts [OF one(1)] p ne], simp, rule completes_parsed)
  next
    case False
    with u obtain us ws where ts: "ts = us @ ws" and two: "unit_argument units cs None us from_unit" "unit_argument units cs (Some from_unit) ws to_unit"
      by (auto simp: unit_arguments_parsed)
    have p': "ready cs variables d p (us @ ws @ rest)" and ne': "ws @ rest \<noteq> []" using p ts ne by simp_all
    show ?thesis
      unfolding call_units_def if_not_P [OF False]
    proof (rule completes_then, rule acceptsD [OF unit_accepts [OF two(1)] p' ne'], simp, goal_cases)
      case (1 q)
      show ?case
        by (rule completes_then, rule acceptsD [OF unit_accepts [OF two(2)] ready_same [OF p' 1] ne], simp, rule completes_parsed)
    qed
  qed
qed

definition arguments_accept ::
  "UnitDefinition list \<Rightarrow> string \<Rightarrow> bool \<Rightarrow> nat \<Rightarrow> (CalculatorParser \<Rightarrow> CalculatorExpression parse) \<Rightarrow> CalculatorFunction \<Rightarrow>
    CalculatorToken list \<Rightarrow> CalculatorExpression list \<Rightarrow> string \<Rightarrow> string \<Rightarrow> bool" where
  "arguments_accept units cs variables d parse_expression f ts new from_unit to_unit \<longleftrightarrow>
    (\<forall>p rest arguments depth slots n position. ready cs variables d p (ts @ rest) \<and> rest \<noteq> [] \<and>
       token_type (hd rest) = CALCULATOR_TOKEN_RIGHT_PAREN \<and> length ts < n \<and>
       length (arguments @ new) \<le> CALCULATOR_MAX_CALL_ARGUMENTS \<longrightarrow>
       completes cs p rest (arguments @ new, call_depth depth new, from_unit, to_unit)
         (call_arguments n units parse_expression f position arguments depth slots p))"

lemma arguments_acceptD:
  "arguments_accept units cs variables d parse_expression f ts new from_unit to_unit \<Longrightarrow> ready cs variables d p (ts @ rest) \<Longrightarrow>
   rest \<noteq> [] \<Longrightarrow> token_type (hd rest) = CALCULATOR_TOKEN_RIGHT_PAREN \<Longrightarrow> length ts < n \<Longrightarrow>
   length (arguments @ new) \<le> CALCULATOR_MAX_CALL_ARGUMENTS \<Longrightarrow>
   completes cs p rest (arguments @ new, call_depth depth new, from_unit, to_unit)
     (call_arguments n units parse_expression f position arguments depth slots p)"
  unfolding arguments_accept_def by blast

lemma no_arguments_accept: "arguments_accept units cs variables d parse_expression f [] [] [] []"
  unfolding arguments_accept_def
proof (intro allI impI, elim conjE)
  fix p rest arguments depth slots n position
  assume p: "ready cs variables d p ([] @ rest)" and rest: "rest \<noteq> []" "token_type (hd rest) = CALCULATOR_TOKEN_RIGHT_PAREN"
    and n: "length ([]::CalculatorToken list) < n"
  then obtain m where m: "n = Suc m" by (cases n) auto
  have "current_type p = CALCULATOR_TOKEN_RIGHT_PAREN" using readyD(1) p rest by (cases rest) auto
  then show "completes cs p rest (arguments @ [], call_depth depth [], [], []) (call_arguments n units parse_expression f position arguments depth slots p)"
    using readyD(2) [OF p] by (simp add: m call_depth_def completes_parsed)
qed

text \<open>One argument read, then what follows it.\<close>

lemma argument_accepts:
  assumes E: "accepts cs variables (Suc d) ends_sum ts e parse_expression" and start: "ts \<noteq> []" "starts_expression (token_type (hd ts))"
    and wrap: "calculator_expression_can_wrap e" and p: "ready cs variables d p (ts @ us)" and us: "us \<noteq> []" "ends_sum (token_type (hd us))"
    and room: "length arguments < CALCULATOR_MAX_CALL_ARGUMENTS"
    and follow: "\<And>q slots. ready cs variables d q us \<Longrightarrow> completes cs q rest y
      (if takes_units f
       then parse_then (call_units units f q) (\<lambda>p (from_unit, to_unit). parsed p (arguments @ [e], max depth (Suc (expression_depth e)), from_unit, to_unit))
       else if current_type q \<noteq> CALCULATOR_TOKEN_SEMICOLON then parsed q (arguments @ [e], max depth (Suc (expression_depth e)), [], [])
       else parse_then (calculator_parser_advance q) (\<lambda>p _.
         if current_type p = CALCULATOR_TOKEN_RIGHT_PAREN then calculator_parser_syntax_error p
         else call_arguments n units parse_expression f position (arguments @ [e]) (max depth (Suc (expression_depth e))) slots p))"
  shows "completes cs p rest y (call_arguments (Suc n) units parse_expression f position arguments depth slots p)"
proof -
  have "current p = hd ts" using readyD(1) p start(1) by (cases ts) auto
  then have cur: "current_type p \<noteq> CALCULATOR_TOKEN_RIGHT_PAREN" using start(2) by (auto simp: token_classes)
  have few: "length arguments \<noteq> CALCULATOR_MAX_CALL_ARGUMENTS" and w: "\<not> \<not> calculator_expression_can_wrap e" using room wrap by simp_all
  show ?thesis
    unfolding call_arguments.simps if_not_P [OF cur] if_not_P [OF few] Let_def completes_def
  proof (rule parses_bind, rule grow_wp, goal_cases)
    case (1 grown)
    then have g: "\<not> \<not> grown" by simp
    show ?case
      unfolding if_not_P [OF g] completes_def [symmetric]
    proof (rule completes_then, rule accepts_nested [OF E p us], goal_cases)
      case (1 q)
      show ?case
        unfolding if_not_P [OF w] Suc_eq_plus1 [symmetric] wider_depth by (rule follow [OF ready_same [OF p 1]])
    qed
  qed
qed

lemma with_units_accept:
  assumes t: "takes_units f" and E: "accepts cs variables (Suc d) ends_sum ts e parse_expression"
    and start: "ts \<noteq> []" "starts_expression (token_type (hd ts))" and wrap: "calculator_expression_can_wrap e"
    and u: "unit_arguments units cs f us from_unit to_unit"
  shows "arguments_accept units cs variables d parse_expression f (ts @ us) [e] from_unit to_unit"
  unfolding arguments_accept_def
proof (intro allI impI, elim conjE)
  fix p rest arguments depth slots n position
  assume p: "ready cs variables d p ((ts @ us) @ rest)" and ne: "rest \<noteq> []" and n: "length (ts @ us) < n"
    and room: "length (arguments @ [e]) \<le> CALCULATOR_MAX_CALL_ARGUMENTS"
  obtain m where m: "n = Suc m" using n by (cases n) auto
  have us: "us @ rest \<noteq> []" "ends_sum (token_type (hd (us @ rest)))"
    using u by (auto simp: unit_arguments_parsed unit_argument_def token_classes split: if_splits)
  show "completes cs p rest (arguments @ [e], call_depth depth [e], from_unit, to_unit)
      (call_arguments n units parse_expression f position arguments depth slots p)"
    unfolding m
  proof (rule argument_accepts [OF E start wrap p [unfolded append_assoc] us], use room in simp, unfold if_P [OF t], goal_cases)
    case (1 q)
    show ?case
      by (rule completes_then, rule acceptsD [OF units_accept [OF u] 1 ne], simp) (simp add: call_depth_def completes_parsed)
  qed
qed

lemma last_argument_accept:
  assumes t: "\<not> takes_units f" and E: "accepts cs variables (Suc d) ends_sum ts e parse_expression"
    and start: "ts \<noteq> []" "starts_expression (token_type (hd ts))" and wrap: "calculator_expression_can_wrap e"
  shows "arguments_accept units cs variables d parse_expression f ts [e] [] []"
  unfolding arguments_accept_def
proof (intro allI impI, elim conjE)
  fix p rest arguments depth slots n position
  assume p: "ready cs variables d p (ts @ rest)" and rest: "rest \<noteq> []" "token_type (hd rest) = CALCULATOR_TOKEN_RIGHT_PAREN"
    and n: "length ts < n" and room: "length (arguments @ [e]) \<le> CALCULATOR_MAX_CALL_ARGUMENTS"
  obtain m where m: "n = Suc m" using n by (cases n) auto
  have ends: "ends_sum (token_type (hd rest))" using rest(2) by (simp add: token_classes)
  show "completes cs p rest (arguments @ [e], call_depth depth [e], [], [])
      (call_arguments n units parse_expression f position arguments depth slots p)"
    unfolding m
  proof (rule argument_accepts [OF E start wrap p rest(1) ends], use room in simp, unfold if_not_P [OF t], goal_cases)
    case (1 q)
    then have "current_type q \<noteq> CALCULATOR_TOKEN_SEMICOLON" using readyD(1) rest by (cases rest) auto
    with readyD(2) [OF 1] show ?case by (simp add: call_depth_def completes_parsed)
  qed
qed

lemma more_arguments_accept:
  assumes t: "\<not> takes_units f" and E: "accepts cs variables (Suc d) ends_sum ts e parse_expression"
    and start: "ts \<noteq> []" "starts_expression (token_type (hd ts))" and wrap: "calculator_expression_can_wrap e"
    and semi: "token_type semi = CALCULATOR_TOKEN_SEMICOLON" and us: "us \<noteq> []" "starts_expression (token_type (hd us))"
    and A: "arguments_accept units cs variables d parse_expression f us new [] []"
  shows "arguments_accept units cs variables d parse_expression f (ts @ semi # us) (e # new) [] []"
  unfolding arguments_accept_def
proof (intro allI impI, elim conjE)
  fix p rest arguments depth slots n position
  assume p: "ready cs variables d p ((ts @ semi # us) @ rest)" and rest: "rest \<noteq> []" "token_type (hd rest) = CALCULATOR_TOKEN_RIGHT_PAREN"
    and n: "length (ts @ semi # us) < n" and room: "length (arguments @ e # new) \<le> CALCULATOR_MAX_CALL_ARGUMENTS"
  obtain m where m: "n = Suc m" using n by (cases n) auto
  have ends: "(semi # us) @ rest \<noteq> []" "ends_sum (token_type (hd ((semi # us) @ rest)))" using semi by (simp_all add: token_classes)
  show "completes cs p rest (arguments @ e # new, call_depth depth (e # new), [], [])
      (call_arguments n units parse_expression f position arguments depth slots p)"
    unfolding m
  proof (rule argument_accepts [OF E start wrap p [unfolded append_assoc] ends], use room in simp, unfold if_not_P [OF t], goal_cases)
    case (1 q slots')
    have q: "ready cs variables d q (semi # us @ rest)" using 1 by simp
    have cur: "\<not> current_type q \<noteq> CALCULATOR_TOKEN_SEMICOLON" using readyD(1) [OF q] semi by simp
    show ?case
      unfolding if_not_P [OF cur]
    proof (rule completes_advance' [OF q], use us in simp, use semi in simp, goal_cases)
      case (1 r)
      have "current r = hd us" using readyD(1) 1 us(1) by (cases us) auto
      then have cur: "current_type r \<noteq> CALCULATOR_TOKEN_RIGHT_PAREN" using us(2) by (auto simp: token_classes)
      have "completes cs r rest ((arguments @ [e]) @ new, call_depth (max depth (Suc (expression_depth e))) new, [], [])
          (call_arguments m units parse_expression f position (arguments @ [e]) (max depth (Suc (expression_depth e))) slots' r)"
        by (rule arguments_acceptD [OF A 1 rest]) (use n m room in simp_all)
      then show ?case unfolding if_not_P [OF cur] by (simp add: call_depth_def)
    qed
  qed
qed

lemma call_accepts:
  assumes d: "d < CALCULATOR_MAX_EXPRESSION_DEPTH" and f: "call_name cs t f" and l: "token_type l = CALCULATOR_TOKEN_LEFT_PAREN"
    and A: "arguments_accept units cs variables d parse_expression f ts arguments from_unit to_unit"
    and len: "length arguments \<le> CALCULATOR_MAX_CALL_ARGUMENTS" and r: "token_type r = CALCULATOR_TOKEN_RIGHT_PAREN"
    and count: "\<not> wrong_argument_count f (supplied_arguments f (length arguments))"
  shows "accepts cs variables d (\<lambda>_. True) (t # l # ts @ [r])
    (CALCULATOR_EXPRESSION_CALL (token_offset t) (call_depth 1 arguments) f arguments from_unit to_unit)
    (calculator_parse_primary units parse_expression)"
  unfolding accepts_def
proof (intro allI impI, elim conjE)
  fix p rest assume p: "ready cs variables d p ((t # l # ts @ [r]) @ rest)" and ne: "rest \<noteq> []"
  let ?e = "CALCULATOR_EXPRESSION_CALL (token_offset t) (call_depth 1 arguments) f arguments from_unit to_unit"
  have p': "ready cs variables d p (t # l # ts @ r # rest)" using p by simp
  have cur: "current p = t" by (rule readyD(1) [OF p'])
  have own: "current_text p = token_slice cs t" using current_text_ok [OF readyD(5) [OF p]] cur by simp
  have t: "token_type t \<noteq> CALCULATOR_TOKEN_END" using f by (auto simp: call_name_parsed split: if_splits)
  have "completes cs p rest ?e (calculator_parse_call units parse_expression f p)"
    unfolding calculator_parse_call_def readyD(3) [OF p] if_not_P [OF d [unfolded not_le [symmetric]]] Let_def cur
  proof (rule completes_advance' [OF p' _ t], simp, goal_cases)
    case (1 q)
    have q: "\<not> current_type q \<noteq> CALCULATOR_TOKEN_LEFT_PAREN" using readyD(1) [OF 1] l by simp
    show ?case
      unfolding if_not_P [OF q] completes_def
    proof (rule parses_bind, rule malloc_wp, goal_cases)
      case (1 b)
      then have b: "\<not> \<not> b" by simp
      show ?case
        unfolding if_not_P [OF b] completes_def [symmetric]
      proof (rule completes_advance' [OF \<open>ready cs variables d q _\<close>], simp, use l in simp, goal_cases)
        case (1 q')
        have "length ts < loop_fuel q'" using pending_length [OF readyD(2) [OF 1]] by simp
        note args = arguments_acceptD [OF A 1 _ _ this]
        show ?case
        proof (rule completes_then, rule args [of "[]" 1], simp, use r in simp, use len in simp, unfold append_Nil prod.case, goal_cases)
          case (1 r')
          have r': "ready cs variables d r' (r # rest)" using ready_same [OF \<open>ready cs variables d q' _\<close> 1] by simp
          have cur: "\<not> current_type r' \<noteq> CALCULATOR_TOKEN_RIGHT_PAREN" using readyD(1) [OF r'] r by simp
          show ?case
            unfolding if_not_P [OF cur] if_not_P [OF count]
            by (rule completes_advance' [OF r' ne], use r in simp, rule completes_parsed, erule readyD(2))
        qed
      qed
    qed
  qed
  then show "completes cs p rest ?e (calculator_parse_primary units parse_expression p)"
    using f by (auto simp: calculator_parse_primary_def cur own call_name_parsed split: if_splits)
qed

lemma postfix_tail_accepts:
  "postfix_tail e ts e' \<Longrightarrow> ready cs variables d p (ts @ rest) \<Longrightarrow> rest \<noteq> [] \<Longrightarrow> ends_postfix (token_type (hd rest)) \<Longrightarrow>
   length ts < n \<Longrightarrow> completes cs p rest e' (postfix_loop n p e)"
proof (induction arbitrary: p n rule: postfix_tail_induct)
  case (postfix_end e)
  then obtain m where m: "n = Suc m" by (cases n) auto
  have "current p = hd rest" using postfix_end(1,2) readyD(1) by (cases rest) auto
  with postfix_end show ?case by (auto simp: m ends_postfix_def intro!: completes_parsed readyD(2))
next
  case (postfix_more t operation e ts e')
  then obtain m where m: "n = Suc m" by (cases n) auto
  have p: "ready cs variables d p (t # ts @ rest)" using postfix_more.prems(1) by simp
  have w: "\<not> \<not> calculator_expression_can_wrap e" using postfix_more.hyps(2) by simp
  have cur: "current p = t" by (rule readyD(1) [OF p])
  show ?case
    unfolding m postfix_loop.simps cur postfix_more.hyps(1) option.case Let_def calculator_expression_create_postfix_def
  proof (rule completes_advance' [OF p], use postfix_more.prems(2) in simp, use postfix_more.hyps(1) in force, goal_cases)
    case (1 q)
    show ?case
      unfolding if_not_P [OF w]
    proof (rule completes_bind, rule completes_created [OF readyD(2) [OF 1]], goal_cases)
      case (1 q')
      have q': "ready cs variables d q' (ts @ rest)" using ready_same [OF \<open>ready cs variables d q _\<close> 1] .
      show ?case
        using postfix_more.IH [OF q' postfix_more.prems(2,3)] postfix_more.prems(4) m by simp
    qed
  qed
qed

lemma postfix_accepts:
  assumes P: "accepts cs variables d (\<lambda>_. True) ts e (calculator_parse_primary units parse_expression)" and tail: "postfix_tail e us e'"
  shows "accepts cs variables d ends_postfix (ts @ us) e' (calculator_parse_postfix units parse_expression)"
  unfolding accepts_def calculator_parse_postfix_def
proof (intro allI impI, elim conjE)
  fix p rest assume p: "ready cs variables d p ((ts @ us) @ rest)" and rest: "rest \<noteq> []" "ends_postfix (token_type (hd rest))"
  show "completes cs p rest e' (parse_then (calculator_parse_primary units parse_expression p) (\<lambda>p. postfix_loop (loop_fuel p) p))"
  proof (rule completes_then, rule acceptsD [OF P p [unfolded append_assoc]], use rest in simp, simp, goal_cases)
    case (1 q)
    show ?case
      by (rule postfix_tail_accepts [OF tail ready_same [OF p 1] rest]) (use pending_length [OF 1(1)] in simp)
  qed
qed

lemma base_accepts:
  assumes P: "accepts cs variables d ends_postfix ts e (calculator_parse_postfix units parse_expression)"
  shows "accepts cs variables d ends_factor ts e (calculator_parse_power units parse_expression parse_unary)"
  unfolding accepts_def calculator_parse_power_def
proof (intro allI impI, elim conjE, rule completes_then, rule acceptsD [OF P], assumption, assumption, goal_cases)
  case (2 p rest q)
  then have "current q = hd rest" by (simp add: pending_def)
  with 2 show ?case by (auto simp: ends_factor_def intro!: completes_parsed)
qed (simp add: ends_factor_def)

lemma power_accepts:
  assumes P: "accepts cs variables d ends_postfix ts l (calculator_parse_postfix units parse_expression)"
    and t: "token_type t = CALCULATOR_TOKEN_CARET" and d: "d < CALCULATOR_MAX_EXPRESSION_DEPTH"
    and U: "accepts cs variables (Suc d) ends_factor us r parse_unary" and us: "us \<noteq> []"
    and wrap: "calculator_expression_can_wrap l" "calculator_expression_can_wrap r"
  shows "accepts cs variables d ends_factor (ts @ t # us) (binary_node CALCULATOR_BINARY_POWER t l r)
    (calculator_parse_power units parse_expression parse_unary)"
  unfolding accepts_def calculator_parse_power_def
proof (intro allI impI, elim conjE)
  fix p rest assume p: "ready cs variables d p ((ts @ t # us) @ rest)" and rest: "rest \<noteq> []" "ends_factor (token_type (hd rest))"
  show "completes cs p rest (binary_node CALCULATOR_BINARY_POWER t l r)
    (parse_then (calculator_parse_postfix units parse_expression p) (\<lambda>p base.
       if current_type p \<noteq> CALCULATOR_TOKEN_CARET then parsed p base
       else let position = current_offset p in
         parse_then (calculator_parser_advance p) (\<lambda>p _.
           if recursion_depth p \<ge> CALCULATOR_MAX_EXPRESSION_DEPTH then calculator_parser_depth_error p position
           else parse_then (nested parse_unary p) (\<lambda>p exponent.
             calculator_parser_combine p CALCULATOR_BINARY_POWER position base exponent))))"
  proof (rule completes_then, rule acceptsD [OF P p [unfolded append_assoc]], simp, use t in \<open>simp add: ends_postfix_def\<close>, goal_cases)
    case (1 q)
    have q: "ready cs variables d q (t # us @ rest)" using ready_same [OF p 1] by simp
    have cur: "current q = t" by (rule readyD(1) [OF q])
    have c: "\<not> token_type t \<noteq> CALCULATOR_TOKEN_CARET" using t by simp
    show ?case
      unfolding cur if_not_P [OF c] Let_def
    proof (rule completes_advance' [OF q], use us in simp, use t in simp, goal_cases)
      case (1 q')
      have d': "\<not> CALCULATOR_MAX_EXPRESSION_DEPTH \<le> recursion_depth q'" using readyD(3) [OF 1] d by simp
      show ?case
        unfolding if_not_P [OF d']
        by (rule completes_then, rule accepts_nested [OF U 1 rest], rule completes_combine [OF _ wrap refl])
    qed
  qed
qed

lemma unsigned_accepts:
  assumes start: "ts \<noteq> []" "calculator_token_starts_primary (token_type (hd ts))"
    and P: "accepts cs variables d ends_factor ts e (calculator_parse_power units parse_expression parse_unary)"
  shows "accepts cs variables d ends_factor ts e (unary_level units parse_expression parse_unary)"
  unfolding accepts_def
proof (intro allI impI, elim conjE)
  fix p rest assume p: "ready cs variables d p (ts @ rest)" and rest: "rest \<noteq> []" "ends_factor (token_type (hd rest))"
  have "current p = hd ts" using readyD(1) p start(1) by (cases ts) auto
  then have cur: "\<not> (current_type p = CALCULATOR_TOKEN_PLUS \<or> current_type p = CALCULATOR_TOKEN_MINUS)"
    using start(2) by (auto simp: token_classes)
  show "completes cs p rest e (unary_level units parse_expression parse_unary p)"
    unfolding unary_level_def if_not_P [OF cur] by (rule acceptsD [OF P p rest])
qed

lemma signed_accepts:
  assumes t: "token_type t = CALCULATOR_TOKEN_PLUS \<and> operation = CALCULATOR_UNARY_PLUS \<or>
      token_type t = CALCULATOR_TOKEN_MINUS \<and> operation = CALCULATOR_UNARY_MINUS"
    and d: "d < CALCULATOR_MAX_EXPRESSION_DEPTH" and U: "accepts cs variables (Suc d) ends_factor ts e parse_unary" and ts: "ts \<noteq> []"
    and wrap: "calculator_expression_can_wrap e"
  shows "accepts cs variables d ends_factor (t # ts) (CALCULATOR_EXPRESSION_UNARY (token_offset t) (Suc (expression_depth e)) operation e)
    (unary_level units parse_expression parse_unary)"
  unfolding accepts_def
proof (intro allI impI, elim conjE)
  fix p rest assume p: "ready cs variables d p ((t # ts) @ rest)" and rest: "rest \<noteq> []" "ends_factor (token_type (hd rest))"
  have p': "ready cs variables d p (t # ts @ rest)" using p by simp
  have cur: "current p = t" by (rule readyD(1) [OF p'])
  have sign: "token_type t = CALCULATOR_TOKEN_PLUS \<or> token_type t = CALCULATOR_TOKEN_MINUS" using t by auto
  have op: "(if token_type t = CALCULATOR_TOKEN_PLUS then CALCULATOR_UNARY_PLUS else CALCULATOR_UNARY_MINUS) = operation" using t by auto
  have w: "\<not> \<not> calculator_expression_can_wrap e" using wrap by simp
  show "completes cs p rest (CALCULATOR_EXPRESSION_UNARY (token_offset t) (Suc (expression_depth e)) operation e)
      (unary_level units parse_expression parse_unary p)"
    unfolding unary_level_def cur if_P [OF sign] op Let_def calculator_expression_create_unary_def
  proof (rule completes_advance' [OF p'], use ts in simp, use sign in force, goal_cases)
    case (1 q)
    have d': "\<not> CALCULATOR_MAX_EXPRESSION_DEPTH \<le> recursion_depth q" using readyD(3) [OF 1] d by simp
    show ?case
      unfolding if_not_P [OF d']
    proof (rule completes_then, rule accepts_nested [OF U 1 rest], unfold if_not_P [OF w], goal_cases)
      case (1 q')
      from completes_created [OF 1(1), of "\<lambda>position depth. CALCULATOR_EXPRESSION_UNARY position depth operation e" "token_offset t" "Suc (expression_depth e)"]
      show ?case by simp
    qed
  qed
qed

text \<open>The loops, for any number of rounds that is enough.\<close>

definition loop_accepts ::
  "string \<Rightarrow> bool \<Rightarrow> nat \<Rightarrow> (CalculatorTokenType \<Rightarrow> bool) \<Rightarrow> CalculatorToken list \<Rightarrow> CalculatorExpression \<Rightarrow>
    (nat \<Rightarrow> CalculatorParser \<Rightarrow> CalculatorExpression parse) \<Rightarrow> bool" where
  "loop_accepts cs variables d P ts e loop \<longleftrightarrow> (\<forall>p rest n. ready cs variables d p (ts @ rest) \<and> rest \<noteq> [] \<and> P (token_type (hd rest)) \<and>
     length ts < n \<longrightarrow> completes cs p rest e (loop n p))"

lemma loop_acceptsD:
  "loop_accepts cs variables d P ts e loop \<Longrightarrow> ready cs variables d p (ts @ rest) \<Longrightarrow> rest \<noteq> [] \<Longrightarrow> P (token_type (hd rest)) \<Longrightarrow>
   length ts < n \<Longrightarrow> completes cs p rest e (loop n p)"
  by (auto simp: loop_accepts_def)

lemma sequence_accepts:
  assumes F: "accepts cs variables d P ts e first_part" and L: "loop_accepts cs variables d Q us e' (\<lambda>n p. loop n p e)"
    and first: "\<And>rest. rest \<noteq> [] \<Longrightarrow> Q (token_type (hd rest)) \<Longrightarrow> P (token_type (hd (us @ rest)))"
  shows "accepts cs variables d Q (ts @ us) e' (\<lambda>p. parse_then (first_part p) (\<lambda>p. loop (loop_fuel p) p))"
  unfolding accepts_def
proof (intro allI impI, elim conjE)
  fix p rest assume p: "ready cs variables d p ((ts @ us) @ rest)" and rest: "rest \<noteq> []" "Q (token_type (hd rest))"
  show "completes cs p rest e' (parse_then (first_part p) (\<lambda>p. loop (loop_fuel p) p))"
  proof (rule completes_then, rule acceptsD [OF F p [unfolded append_assoc] _ first [OF rest]], use rest in simp, goal_cases)
    case (1 q)
    show ?case
      by (rule loop_acceptsD [OF L ready_same [OF p 1] rest]) (use pending_length [OF 1(1)] in simp)
  qed
qed

lemma factors_end_accepts: "loop_accepts cs variables d ends_product [] e (\<lambda>n p. multiplicative_loop n parse_unary p e)"
  unfolding loop_accepts_def
proof (intro allI impI, elim conjE)
  fix p rest n assume p: "ready cs variables d p ([] @ rest)" and rest: "rest \<noteq> []" "ends_product (token_type (hd rest))"
    and n: "length ([]::CalculatorToken list) < n"
  obtain m where m: "n = Suc m" using n by (cases n) auto
  have "current p = hd rest" using readyD(1) p rest(1) by (cases rest) auto
  with rest(2) readyD(2) [OF p] show "completes cs p rest e (multiplicative_loop n parse_unary p e)"
    by (simp add: m ends_product_def completes_parsed)
qed

text \<open>A factor after the separating tokens \<open>sign\<close>: an operator or nothing.\<close>

lemma factor_accepts:
  assumes sign: "if sign = [] then calculator_token_starts_primary (token_type t) \<and> operation = CALCULATOR_BINARY_MULTIPLY \<and> hd ts = t
      else sign = [t] \<and> (token_type t = CALCULATOR_TOKEN_STAR \<and> operation = CALCULATOR_BINARY_MULTIPLY \<or>
        token_type t = CALCULATOR_TOKEN_SLASH \<and> operation = CALCULATOR_BINARY_DIVIDE)"
    and U: "accepts cs variables d ends_factor ts r parse_unary" and ts: "ts \<noteq> []"
    and wrap: "calculator_expression_can_wrap l" "calculator_expression_can_wrap r"
    and L: "loop_accepts cs variables d ends_product us e (\<lambda>n p. multiplicative_loop n parse_unary p (binary_node operation t l r))"
    and us: "us = [] \<or> explicit_operator (token_type (hd us)) \<or> calculator_token_starts_primary (token_type (hd us))"
  shows "loop_accepts cs variables d ends_product (sign @ ts @ us) e (\<lambda>n p. multiplicative_loop n parse_unary p l)"
  unfolding loop_accepts_def
proof (intro allI impI, elim conjE)
  fix p rest n assume p: "ready cs variables d p ((sign @ ts @ us) @ rest)" and rest: "rest \<noteq> []" "ends_product (token_type (hd rest))"
    and n: "length (sign @ ts @ us) < n"
  obtain m where m: "n = Suc m" using n by (cases n) auto
  have p': "ready cs variables d p (sign @ ts @ us @ rest)" using p by simp
  have cur: "current p = t"
    using readyD(1) [of cs variables d p] p' sign ts by (cases sign; cases ts) (auto split: if_splits)
  have go: "explicit_operator (token_type t) \<or> calculator_token_starts_primary (token_type t)"
    and op: "(if token_type t = CALCULATOR_TOKEN_SLASH then CALCULATOR_BINARY_DIVIDE else CALCULATOR_BINARY_MULTIPLY) = operation"
    and none: "explicit_operator (token_type t) \<longleftrightarrow> sign \<noteq> []"
    using sign by (auto simp: token_classes split: if_splits)
  have ends: "ends_factor (token_type (hd (us @ rest)))"
    using us rest(2) by (cases us) (auto simp: token_classes)
  have step: "completes cs q rest e (parse_then (parse_unary q) (\<lambda>p right.
           parse_then (calculator_parser_combine p operation (token_offset t) l right) (multiplicative_loop m parse_unary)))"
    if q: "ready cs variables d q (ts @ us @ rest)" for q
  proof (rule completes_then, rule acceptsD [OF U q _ ends], use rest in simp, goal_cases)
    case r: (1 r)
    show ?case
    proof (rule completes_then, rule completes_combine [OF r(1) wrap refl], goal_cases)
      case (1 v)
      have v: "ready cs variables d v (us @ rest)" by (rule ready_same [OF ready_same [OF q r] 1])
      have "length us < m" using n m ts by (cases ts) auto
      then show ?case by (rule loop_acceptsD [OF L v rest])
    qed
  qed
  show "completes cs p rest e (multiplicative_loop n parse_unary p l)"
  proof (cases "sign = []")
    case True
    then have c: "\<not> explicit_operator (token_type t)" using none by simp
    show ?thesis
      unfolding m multiplicative_loop.simps cur if_P [OF go] op Let_def if_not_P [OF c]
      by (rule completes_then, rule completes_parsed [OF readyD(2) [OF p']], rule step) (use p' True in \<open>auto simp: ready_def same_level_def\<close>)
  next
    case False
    then have c: "explicit_operator (token_type t)" and s: "sign = [t]" using none sign by (auto split: if_splits)
    show ?thesis
      unfolding m multiplicative_loop.simps cur if_P [OF go] op Let_def if_P [OF c]
      by (rule completes_advance' [OF p' [unfolded s append_Cons append_Nil]])
        (use ts c step in \<open>auto simp: token_classes\<close>)
  qed
qed

lemma summands_end_accepts: "loop_accepts cs variables d ends_sum [] e (\<lambda>n p. additive_loop n parse_unary p e)"
  unfolding loop_accepts_def
proof (intro allI impI, elim conjE)
  fix p rest n assume p: "ready cs variables d p ([] @ rest)" and rest: "rest \<noteq> []" "ends_sum (token_type (hd rest))"
    and n: "length ([]::CalculatorToken list) < n"
  obtain m where m: "n = Suc m" using n by (cases n) auto
  have "current p = hd rest" using readyD(1) p rest(1) by (cases rest) auto
  with rest(2) readyD(2) [OF p] show "completes cs p rest e (additive_loop n parse_unary p e)"
    by (simp add: m ends_sum_def completes_parsed)
qed

lemma summand_accepts:
  assumes sign: "token_type t = CALCULATOR_TOKEN_PLUS \<and> operation = CALCULATOR_BINARY_ADD \<or>
      token_type t = CALCULATOR_TOKEN_MINUS \<and> operation = CALCULATOR_BINARY_SUBTRACT"
    and U: "accepts cs variables d ends_product ts r (calculator_parse_multiplicative parse_unary)" and ts: "ts \<noteq> []"
    and wrap: "calculator_expression_can_wrap l" "calculator_expression_can_wrap r"
    and L: "loop_accepts cs variables d ends_sum us e (\<lambda>n p. additive_loop n parse_unary p (binary_node operation t l r))"
    and us: "us = [] \<or> token_type (hd us) = CALCULATOR_TOKEN_PLUS \<or> token_type (hd us) = CALCULATOR_TOKEN_MINUS"
  shows "loop_accepts cs variables d ends_sum (t # ts @ us) e (\<lambda>n p. additive_loop n parse_unary p l)"
  unfolding loop_accepts_def
proof (intro allI impI, elim conjE)
  fix p rest n assume p: "ready cs variables d p ((t # ts @ us) @ rest)" and rest: "rest \<noteq> []" "ends_sum (token_type (hd rest))"
    and n: "length (t # ts @ us) < n"
  obtain m where m: "n = Suc m" using n by (cases n) auto
  have p': "ready cs variables d p (t # ts @ us @ rest)" using p by simp
  have cur: "current p = t" by (rule readyD(1) [OF p'])
  have go: "token_type t = CALCULATOR_TOKEN_PLUS \<or> token_type t = CALCULATOR_TOKEN_MINUS"
    and op: "(if token_type t = CALCULATOR_TOKEN_PLUS then CALCULATOR_BINARY_ADD else CALCULATOR_BINARY_SUBTRACT) = operation"
    using sign by auto
  have ends: "ends_product (token_type (hd (us @ rest)))"
    using us rest(2) by (cases us) (auto simp: token_classes)
  show "completes cs p rest e (additive_loop n parse_unary p l)"
    unfolding m additive_loop.simps cur if_P [OF go] op Let_def
  proof (rule completes_advance' [OF p'], use ts in simp, use go in force, rule completes_then, rule acceptsD [OF U _ _ ends], assumption,
      use rest in simp, goal_cases)
    case r: (1 q r)
    show ?case
    proof (rule completes_then, rule completes_combine [OF r(2) wrap refl], goal_cases)
      case (1 v)
      have v: "ready cs variables d v (us @ rest)" by (rule ready_same [OF ready_same [OF r(1-3)] 1])
      have "length us < m" using n m by simp
      then show ?case by (rule loop_acceptsD [OF L v rest])
    qed
  qed
qed

abbreviation levels_below :: "nat \<Rightarrow> nat" where
  "levels_below d \<equiv> 2 * (CALCULATOR_MAX_EXPRESSION_DEPTH - d)"

lemma unary_Suc: "calculator_parse_unary units (Suc fuel) =
    unary_level units (calculator_parse_expression units fuel) (calculator_parse_unary units fuel)"
  by (rule ext) simp

lemma expression_Suc: "calculator_parse_expression units (Suc fuel) = expression_level (calculator_parse_unary units fuel)"
  by (rule ext) simp

lemma parse_complete:
  assumes len: "length cs < SIZE_MAX"
  shows "primary_expr units cs variables d ts e \<Longrightarrow> \<forall>fuel \<ge> levels_below d.
      accepts cs variables d (\<lambda>_. True) ts e (calculator_parse_primary units (calculator_parse_expression units fuel))"
    and "argument_list units cs variables d' f ts arguments from_unit to_unit \<Longrightarrow> \<forall>d. d' = Suc d \<and> d < CALCULATOR_MAX_EXPRESSION_DEPTH \<longrightarrow>
      (\<forall>fuel \<ge> levels_below d. arguments_accept units cs variables d (calculator_parse_expression units fuel) f ts arguments from_unit to_unit)"
    and "postfix_expr units cs variables d ts e \<Longrightarrow> \<forall>fuel \<ge> levels_below d.
      accepts cs variables d ends_postfix ts e (calculator_parse_postfix units (calculator_parse_expression units fuel))"
    and "power_expr units cs variables d ts e \<Longrightarrow> \<forall>fuel \<ge> levels_below d.
      accepts cs variables d ends_factor ts e (calculator_parse_power units (calculator_parse_expression units fuel) (calculator_parse_unary units fuel))"
    and "unary_expr units cs variables d ts e \<Longrightarrow> \<forall>fuel \<ge> levels_below d + 1.
      accepts cs variables d ends_factor ts e (calculator_parse_unary units fuel)"
    and "factor_tail units cs variables d l ts e \<Longrightarrow> \<forall>fuel \<ge> levels_below d + 1.
      loop_accepts cs variables d ends_product ts e (\<lambda>n p. multiplicative_loop n (calculator_parse_unary units fuel) p l)"
    and "multiplicative_expr units cs variables d ts e \<Longrightarrow> \<forall>fuel \<ge> levels_below d + 1.
      accepts cs variables d ends_product ts e (calculator_parse_multiplicative (calculator_parse_unary units fuel))"
    and "summand_tail units cs variables d l ts e \<Longrightarrow> \<forall>fuel \<ge> levels_below d + 1.
      loop_accepts cs variables d ends_sum ts e (\<lambda>n p. additive_loop n (calculator_parse_unary units fuel) p l)"
    and "additive_expr units cs variables d ts e \<Longrightarrow> \<forall>fuel \<ge> levels_below d + 2.
      accepts cs variables d ends_sum ts e (calculator_parse_expression units fuel)"
proof (induction rule: grammar_inducts)
  case (number t d)
  then show ?case by (intro allI impI number_accepts [OF len])
next
  case (name t e d)
  then show ?case by (intro allI impI name_accepts [OF len])
next
  case (group d l ts e r)
  then show ?case by (intro allI impI group_accepts) auto
next
  case (call d t f l ts arguments from_unit to_unit r)
  then show ?case by (intro allI impI call_accepts) auto
next
  case (no_arguments d f)
  show ?case by (intro allI impI no_arguments_accept)
next
  case (with_units f d ts e us from_unit to_unit)
  then show ?case using first_tokens(9) by (intro allI impI with_units_accept) auto
next
  case (last_argument f d ts e)
  then show ?case using first_tokens(9) by (intro allI impI last_argument_accept) auto
next
  case (more_arguments f d ts e semicolon us arguments)
  then show ?case using first_tokens(9) first_tokens(2) by (intro allI impI more_arguments_accept) auto
next
  case (postfixed d ts e us e')
  then show ?case by (intro allI impI postfix_accepts) auto
next
  case (base d ts e)
  then show ?case by (intro allI impI base_accepts) auto
next
  case (powered d ts left t us right)
  then show ?case using first_tokens(5) by (intro allI impI power_accepts) auto
next
  case (unsigned d ts e)
  show ?case
  proof (intro allI impI)
    fix fuel assume "levels_below d + 1 \<le> fuel"
    then obtain m where m: "fuel = Suc m" "levels_below d \<le> m" by (cases fuel) auto
    show "accepts cs variables d ends_factor ts e (calculator_parse_unary units fuel)"
      unfolding m(1) unary_Suc using first_tokens(4) [of units cs variables d ts e] unsigned m(2) by (intro unsigned_accepts) auto
  qed
next
  case (signed t operation d ts e)
  show ?case
  proof (intro allI impI)
    fix fuel assume "levels_below d + 1 \<le> fuel"
    then obtain m where m: "fuel = Suc m" "levels_below d \<le> m" by (cases fuel) auto
    show "accepts cs variables d ends_factor (t # ts)
        (CALCULATOR_EXPRESSION_UNARY (token_offset t) (Suc (expression_depth e)) operation e) (calculator_parse_unary units fuel)"
      unfolding m(1) unary_Suc using first_tokens(5) [of units cs variables "Suc d" ts e] signed m(2) by (intro signed_accepts) auto
  qed
next
  case (factors_end d e)
  show ?case by (intro allI impI factors_end_accepts)
next
  case (factor t operation d ts right left us e)
  then have us: "us = [] \<or> explicit_operator (token_type (hd us)) \<or> calculator_token_starts_primary (token_type (hd us))"
    and ts: "ts \<noteq> []" using first_tokens(5) [of units cs variables d ts right] first_tokens(6) by blast+
  show ?case
  proof (intro allI impI)
    fix fuel assume "levels_below d + 1 \<le> fuel"
    with factor show "loop_accepts cs variables d ends_product (t # ts @ us) e (\<lambda>n p. multiplicative_loop n (calculator_parse_unary units fuel) p left)"
      using factor_accepts [OF _ _ ts _ _ _ us, of "[t]" t operation cs variables d right "calculator_parse_unary units fuel" left e] by simp
  qed
next
  case (juxtaposed t d ts right left us e)
  then have us: "us = [] \<or> explicit_operator (token_type (hd us)) \<or> calculator_token_starts_primary (token_type (hd us))"
    using first_tokens(6) by blast
  show ?case
  proof (intro allI impI)
    fix fuel assume "levels_below d + 1 \<le> fuel"
    with juxtaposed show "loop_accepts cs variables d ends_product (t # ts @ us) e (\<lambda>n p. multiplicative_loop n (calculator_parse_unary units fuel) p left)"
      using factor_accepts [OF _ _ _ _ _ _ us, of "[]" t CALCULATOR_BINARY_MULTIPLY "t # ts" cs variables d right
          "calculator_parse_unary units fuel" left e] by simp
  qed
next
  case (multiplied d ts left us e)
  have follow: "ends_factor (token_type (hd (us @ rest)))" if "rest \<noteq> []" "ends_product (token_type (hd rest))" for rest
    using that first_tokens(6) [of units cs variables d left us e] multiplied(3) by (cases us) (auto simp: token_classes)
  show ?case
    unfolding calculator_parse_multiplicative_def
    by (intro allI impI, rule sequence_accepts [where P = ends_factor and Q = ends_product and e = left], use multiplied(2) in blast,
        use multiplied(4) in blast, rule follow)
next
  case (summands_end d e)
  show ?case by (intro allI impI summands_end_accepts)
next
  case (summand t operation d ts right left us e)
  then have us: "us = [] \<or> token_type (hd us) = CALCULATOR_TOKEN_PLUS \<or> token_type (hd us) = CALCULATOR_TOKEN_MINUS"
    and ts: "ts \<noteq> []" using first_tokens(7) [of units cs variables d ts right] first_tokens(8) by blast+
  show ?case
  proof (intro allI impI)
    fix fuel assume "levels_below d + 1 \<le> fuel"
    with summand show "loop_accepts cs variables d ends_sum (t # ts @ us) e (\<lambda>n p. additive_loop n (calculator_parse_unary units fuel) p left)"
      using summand_accepts [OF _ _ ts _ _ _ us, of t operation cs variables d right "calculator_parse_unary units fuel" left e] by simp
  qed
next
  case (added d ts left us e)
  show ?case
  proof (intro allI impI)
    fix fuel assume "levels_below d + 2 \<le> fuel"
    then obtain m where m: "fuel = Suc m" "levels_below d + 1 \<le> m" by (cases fuel) auto
    have follow: "ends_product (token_type (hd (us @ rest)))" if "rest \<noteq> []" "ends_sum (token_type (hd rest))" for rest
      using that first_tokens(8) [of units cs variables d left us e] added(3) by (cases us) (auto simp: token_classes)
    have "accepts cs variables d ends_sum (ts @ us) e (\<lambda>p. parse_then (calculator_parse_multiplicative (calculator_parse_unary units m) p)
        (\<lambda>p. additive_loop (loop_fuel p) (calculator_parse_unary units m) p))"
      by (rule sequence_accepts [where P = ends_product and Q = ends_sum and e = left], use added(2) m(2) in blast,
          use added(4) m(2) in blast, rule follow)
    then show "accepts cs variables d ends_sum (ts @ us) e (calculator_parse_expression units fuel)"
      unfolding m(1) expression_Suc by (simp add: expression_level_def [abs_def])
  qed
qed

section \<open>The whole input\<close>

text \<open>The first token is read before there is a current one.\<close>

lemma first_advance:
  assumes wf: "tokenizer_wf (parser_tokenizer p)" and cs: "tokenizer_input (parser_tokenizer p) = cs"
  shows "parses u (\<lambda>status p'. failed u cs status p' \<and> next_token (parser_tokenizer p) = None)
    (\<lambda>q _. parser_ok cs q \<and> same_level p q \<and> next_token (parser_tokenizer p) = Some (current q, parser_tokenizer q))
    (calculator_parser_advance p)"
proof -
  obtain status b t err where n: "calculator_tokenizer_next (parser_tokenizer p) (current p) (parser_error p) = (status, b, t, err)"
    by (metis prod_cases4)
  note step = tokenizer_step [OF wf, of "current p" "parser_error p", unfolded n step_outcome_def prod.case cs]
  note any = next_token_any [OF n]
  show ?thesis
  proof (cases "status = CALCULATOR_OK")
    case True
    with step any have ts: "token_step (parser_tokenizer p) b t" and nx: "next_token (parser_tokenizer p) = Some (t, b)"
      and len: "token_length t \<le> tokenizer_offset b" by simp_all
    note b = token_stepD [OF ts wf, unfolded cs]
    have "lexeme_class (token_type t) (token_slice cs t)"
      "token_type t \<noteq> CALCULATOR_TOKEN_END \<longrightarrow> token_offset t < tokenizer_offset b"
      using ts by (auto simp: token_step_def Let_def cs)
    with True b nx len show ?thesis
      by (auto simp: parses_def calculator_parser_advance_def n parser_ok_def same_level_def intro!: triple_return)
  next
    case False
    with step any show ?thesis
      by (auto simp: parses_def calculator_parser_advance_def n failed_def parse_failure_def intro!: triple_return)
  qed
qed

lemma numbers_apart_snoc: "numbers_apart ts \<Longrightarrow> token_type t = CALCULATOR_TOKEN_END \<Longrightarrow> numbers_apart (ts @ [t])"
  by (auto simp: numbers_apart_def successively_append_iff)

lemma additive_types:
  "primary_expr units cs variables d ts e \<Longrightarrow> list_all (\<lambda>t. token_type t \<noteq> CALCULATOR_TOKEN_END) ts"
  "argument_list units cs variables d f ts arguments from_unit to_unit \<Longrightarrow> list_all (\<lambda>t. token_type t \<noteq> CALCULATOR_TOKEN_END) ts"
  "postfix_expr units cs variables d ts e \<Longrightarrow> list_all (\<lambda>t. token_type t \<noteq> CALCULATOR_TOKEN_END) ts"
  "power_expr units cs variables d ts e \<Longrightarrow> list_all (\<lambda>t. token_type t \<noteq> CALCULATOR_TOKEN_END) ts"
  "unary_expr units cs variables d ts e \<Longrightarrow> list_all (\<lambda>t. token_type t \<noteq> CALCULATOR_TOKEN_END) ts"
  "factor_tail units cs variables d e ts e' \<Longrightarrow> list_all (\<lambda>t. token_type t \<noteq> CALCULATOR_TOKEN_END) ts"
  "multiplicative_expr units cs variables d ts e \<Longrightarrow> list_all (\<lambda>t. token_type t \<noteq> CALCULATOR_TOKEN_END) ts"
  "summand_tail units cs variables d e ts e' \<Longrightarrow> list_all (\<lambda>t. token_type t \<noteq> CALCULATOR_TOKEN_END) ts"
  "additive_expr units cs variables d ts e \<Longrightarrow> list_all (\<lambda>t. token_type t \<noteq> CALCULATOR_TOKEN_END) ts"
proof (induction rule: grammar_inducts)
  case (postfixed d ts e us e')
  have "list_all (\<lambda>t. token_type t \<noteq> CALCULATOR_TOKEN_END) us"
    using \<open>postfix_tail e us e'\<close> by (induction rule: postfix_tail_induct) auto
  with postfixed show ?case by simp
qed (auto simp: call_name_parsed unit_arguments_parsed unit_argument_def token_classes split: if_splits)

text \<open>The tokens of a sentence are those the tokenizer reads one after the other.\<close>

lemma next_token_lexical:
  assumes "tokenizer_wf a" "tokenizer_input a = cs" "skips cs (tokenizer_offset a) q"
  shows "case next_token a of None \<Rightarrow> \<exists>j. lexical_error cs q j
    | Some (t, b) \<Rightarrow> tokenizer_wf b \<and> tokenizer_input b = cs \<and>
        (if token_type t = CALCULATOR_TOKEN_END then q = length cs \<and> t = end_token q else token_at cs q t (tokenizer_offset b))"
proof -
  obtain status b t err where n: "calculator_tokenizer_next a no_token no_error = (status, b, t, err)" by (metis prod_cases4)
  obtain q' where q': "skips cs (tokenizer_offset a) q'" "lexical_outcome cs q' (status, b, t, err)"
    using next_lexical [OF assms(1,2), of no_token no_error] unfolding n by blast
  have q: "q' = q" by (rule skips_unique [OF q'(1) assms(3)])
  show ?thesis
  proof (cases "status = CALCULATOR_OK")
    case True
    then have "token_step a b t" using tokenizer_step [OF assms(1), of no_token no_error] by (simp add: n step_outcome_def)
    note d = token_stepD(1,2) [OF this assms(1)]
    with True q' show ?thesis by (simp add: next_token_def n q lexical_outcome_def assms(2))
  next
    case False
    with q' show ?thesis by (auto simp: next_token_def n q lexical_outcome_def)
  qed
qed

lemma lexes_lexed:
  "lexes cs p ts r \<Longrightarrow> tokenizer_wf a \<Longrightarrow> tokenizer_input a = cs \<Longrightarrow> tokenizer_offset a = p \<Longrightarrow> r = None \<Longrightarrow> \<exists>b. lexed a ts b"
proof (induction arbitrary: a rule: lexes.induct)
  case (lexes_end cs p)
  note n = next_token_lexical [OF lexes_end.prems(1,2) lexes_end.hyps [folded lexes_end.prems(3)]]
  obtain t b where t: "next_token a = Some (t, b)" using n error_excludes_token(2) by (auto split: option.splits)
  then have "t = end_token (length cs)" using n by (auto simp: token_at_def longest_lexeme_def split: if_splits)
  then show ?case using t by auto
next
  case (lexes_token cs p q t j ts r)
  note n = next_token_lexical [OF lexes_token.prems(1,2) lexes_token.hyps(1) [folded lexes_token.prems(3)]]
  obtain t' b where t': "next_token a = Some (t', b)" "tokenizer_wf b" "tokenizer_input b = cs"
    using n error_excludes_token(1) lexes_token.hyps(2) by (auto split: option.splits)
  have "q < length cs" using lexes_token.hyps(2) by (auto simp: token_at_def longest_lexeme_def)
  then have "token_at cs q t' (tokenizer_offset b)" using n t'(1) by (auto split: if_splits)
  from token_unique [OF this lexes_token.hyps(2)] have "t' = t" "tokenizer_offset b = j" by simp_all
  with lexes_token.IH [OF t'(2,3)] lexes_token.prems(4) t'(1) show ?case by auto
qed simp

lemma lexed_lexes:
  assumes "lexed a (ts @ [t]) b" "token_type t = CALCULATOR_TOKEN_END" "list_all (\<lambda>t. token_type t \<noteq> CALCULATOR_TOKEN_END) ts"
    and "tokenizer_wf a" "tokenizer_input a = cs"
  shows "t = end_token (length cs) \<and> lexes cs (tokenizer_offset a) (ts @ [t]) None"
  using assms
proof (induction ts arbitrary: a)
  case Nil
  then have next1: "next_token a = Some (t, b)" by auto
  obtain q where q: "skips cs (tokenizer_offset a) q" using next_lexical [OF Nil.prems(4,5)] by blast
  have "q = length cs" "t = end_token q" using next_token_lexical [OF Nil.prems(4,5) q] next1 Nil.prems(2) by simp_all
  then show ?case using q by (auto intro: lexes_end)
next
  case (Cons u ts)
  then obtain c where c: "next_token a = Some (u, c)" "lexed c (ts @ [t]) b" by auto
  obtain q where q: "skips cs (tokenizer_offset a) q" using next_lexical [OF Cons.prems(4,5)] by blast
  have u: "token_at cs q u (tokenizer_offset c)" "tokenizer_wf c" "tokenizer_input c = cs"
    using next_token_lexical [OF Cons.prems(4,5) q] c(1) Cons.prems(3) by simp_all
  from Cons.IH [OF c(2) Cons.prems(2) _ u(2,3)] Cons.prems(3) lexes_token [OF q u(1)] show ?case by auto
qed

lemma sentence_iff:
  assumes "CHR 0x00 \<notin> set cs"
  shows "sentence units cs variables e \<longleftrightarrow> (\<exists>ts t b. lexed (calculator_tokenizer_init cs) (ts @ [t]) b \<and>
     token_type t = CALCULATOR_TOKEN_END \<and> numbers_apart ts \<and> additive_expr units cs variables 0 ts e)"
proof -
  let ?a = "calculator_tokenizer_init cs"
  have wf: "tokenizer_wf ?a" "tokenizer_input ?a = cs" "tokenizer_offset ?a = 0"
    using assms by (simp_all add: calculator_tokenizer_init_def tokenizer_wf_def)
  have "\<exists>b. lexed ?a (ts @ [end_token (length cs)]) b" if "lexes cs 0 (ts @ [end_token (length cs)]) None" for ts
    by (rule lexes_lexed [OF that wf refl])
  moreover have "t = end_token (length cs) \<and> lexes cs 0 (ts @ [t]) None"
    if "lexed ?a (ts @ [t]) b" "token_type t = CALCULATOR_TOKEN_END" "additive_expr units cs variables 0 ts e" for ts t b
    using lexed_lexes [OF that(1,2) additive_types(9) [OF that(3)] wf(1,2)] wf(3) by auto
  moreover have "token_type (end_token n) = CALCULATOR_TOKEN_END" for n by (simp add: end_token_def)
  ultimately show ?thesis unfolding sentence_def by (intro iffI) (elim exE conjE, blast)+
qed

lemma parse_input_wp:
  assumes nul: "CHR 0x00 \<notin> set cs" and len: "length cs < SIZE_MAX"
  shows "rspec u (calculator_parse_profile_impl units cs variables err) (\<lambda>(err', r).
    (case r of
       Inr e \<Rightarrow> sentence units cs variables e \<and> expression_depth e \<le> CALCULATOR_MAX_EXPRESSION_DEPTH \<and> err' = no_error
     | Inl status \<Rightarrow> parse_failure status \<and> error_status err' = status \<and> error_offset err' \<le> length cs \<and>
         (u \<longrightarrow> status \<noteq> CALCULATOR_OUT_OF_MEMORY)))"
proof -
  let ?p = "\<lparr>parser_tokenizer = calculator_tokenizer_init cs, current = no_token, parser_error = err,
    recursion_depth = 0, allow_variables = variables\<rparr>"
  have wf: "tokenizer_wf (calculator_tokenizer_init cs)" "tokenizer_input (calculator_tokenizer_init cs) = cs"
    using nul by (simp_all add: calculator_tokenizer_init_def tokenizer_wf_def)
  have E: "level_ok u cs variables 0 (additive_expr units cs variables 0) (calculator_parse_expression units parse_fuel)"
    using parse_sound [OF len, where fuel = parse_fuel and u = u and units = units and variables = variables] by (simp add: parse_fuel_def)
  have "parses u (failed u cs) (\<lambda>p e. sentence units cs variables e \<and> expression_depth e \<le> CALCULATOR_MAX_EXPRESSION_DEPTH \<and> parser_error p = no_error)
    (parse_then (calculator_parser_advance ?p) (\<lambda>p _. parse_then (calculator_parse_expression units parse_fuel p) (\<lambda>p expression.
      if current_type p \<noteq> CALCULATOR_TOKEN_END then calculator_parser_syntax_error p
      else parsed (p\<lparr>parser_error := calculator_error_clear (parser_error p)\<rparr>) expression)))"
  proof (rule parses_then [where R = "\<lambda>q _. parser_ok cs q \<and> same_level ?p q \<and>
      next_token (calculator_tokenizer_init cs) = Some (current q, parser_tokenizer q)"], goal_cases)
    case 1
    show ?case
      using first_advance [of ?p cs u] wf unfolding parses_def by (auto elim!: triple_conseq split: sum.splits)
  next
    case q: (2 q v)
    then have at: "recursion_depth q = 0" "allow_variables q = variables" by (simp_all add: same_level_def)
    show ?case
    proof (rule parses_then, rule level_okD [OF E q [THEN conjunct1] at], rule parses_if, goal_cases)
      case (1 r e)
      then show ?case by (intro parse_errors_failed(1) parser_ok_offset) (auto simp: derives_def dest: consumesD(1))
    next
      case (2 r e)
      then obtain ts where ts: "consumes cs q ts r" "additive_expr units cs variables 0 ts e" "expression_depth e \<le> CALCULATOR_MAX_EXPRESSION_DEPTH"
        by (auto simp: derives_def)
      then obtain us where us: "lexed (parser_tokenizer q) us (parser_tokenizer r)" "current q # us = ts @ [current r]"
        and apart: "numbers_apart (ts @ [current r])" by (auto simp: consumes_def)
      have "lexed (calculator_tokenizer_init cs) (ts @ [current r]) (parser_tokenizer r)"
        using q us(1) by (simp flip: us(2))
      moreover have "numbers_apart ts" using apart by (auto simp: numbers_apart_def successively_append_iff)
      ultimately show ?case
        using 2(2) ts(2,3) by (intro parses_parsed) (auto simp: sentence_iff [OF nul] error_clear)
    qed
  qed
  then show ?thesis
    unfolding calculator_parse_profile_impl_def parses_def
    by (intro triple_bind) (auto elim!: triple_conseq simp: failed_def intro!: triple_return split: sum.splits)
qed

lemma parse_input_complete:
  assumes nul: "CHR 0x00 \<notin> set cs" and len: "length cs < SIZE_MAX" and e: "sentence units cs variables e"
  shows "rspec True (calculator_parse_profile_impl units cs variables err) (\<lambda>(err', r). r = Inr e)"
proof -
  let ?p = "\<lparr>parser_tokenizer = calculator_tokenizer_init cs, current = no_token, parser_error = err,
    recursion_depth = 0, allow_variables = variables\<rparr>"
  have wf: "tokenizer_wf (calculator_tokenizer_init cs)" "tokenizer_input (calculator_tokenizer_init cs) = cs"
    using nul by (simp_all add: calculator_tokenizer_init_def tokenizer_wf_def)
  from e obtain ts t b where l: "lexed (calculator_tokenizer_init cs) (ts @ [t]) b" and t: "token_type t = CALCULATOR_TOKEN_END"
    and apart: "numbers_apart ts" and g: "additive_expr units cs variables 0 ts e" unfolding sentence_iff [OF nul] by auto
  have E: "accepts cs variables 0 ends_sum ts e (calculator_parse_expression units parse_fuel)"
    using parse_complete(9) [OF len g] by (simp add: parse_fuel_def)
  obtain t1 ts1 where ts: "ts = t1 # ts1" using first_tokens(9) [OF g] by (cases ts) auto
  from l obtain c where c: "next_token (calculator_tokenizer_init cs) = Some (t1, c)" "lexed c (ts1 @ [t]) b" by (auto simp: ts)
  have "parses True (\<lambda>_ _. False) (\<lambda>p x. x = e)
    (parse_then (calculator_parser_advance ?p) (\<lambda>p _. parse_then (calculator_parse_expression units parse_fuel p) (\<lambda>p expression.
      if current_type p \<noteq> CALCULATOR_TOKEN_END then calculator_parser_syntax_error p
      else parsed (p\<lparr>parser_error := calculator_error_clear (parser_error p)\<rparr>) expression)))"
  proof (rule parses_then [where R = "\<lambda>q _. ready cs variables 0 q (ts @ [t])"], goal_cases)
    case 1
    have "ready cs variables 0 q (ts @ [t])" if "parser_ok cs q" "same_level ?p q"
      "next_token (calculator_tokenizer_init cs) = Some (current q, parser_tokenizer q)" for q
      using that c numbers_apart_snoc [OF apart t] additive_types(9) [OF g]
      by (auto simp: ready_def pending_def same_level_def ts)
    then show ?case
      using first_advance [of ?p cs True] wf c(1) unfolding parses_def by (auto elim!: triple_conseq split: sum.splits)
  next
    case (2 q v)
    have "completes cs q [t] e (calculator_parse_expression units parse_fuel q)"
      by (rule acceptsD [OF E 2]) (simp_all add: t token_classes)
    from this [unfolded completes_def] show ?case
    proof (rule parses_then, elim conjE, hypsubst, goal_cases)
      case (1 r x)
      then show ?case using t pending_Cons [of cs r t "[]"] by (auto intro!: parses_parsed)
    qed
  qed
  then show ?thesis
    unfolding calculator_parse_profile_impl_def parses_def
    by (intro triple_bind) (auto elim!: triple_conseq intro!: triple_return split: sum.splits)
qed

section \<open>Typed trees\<close>

text \<open>What the later stages rely on: depths are those of the trees, numbers are literals, names are read as the
  registry says, calls have the arity of their function and units of the catalogue.\<close>

fun tree_ok :: "UnitDefinition list \<Rightarrow> bool \<Rightarrow> CalculatorExpression \<Rightarrow> bool" where
  "tree_ok units variables (CALCULATOR_EXPRESSION_NUMBER position depth s) \<longleftrightarrow> depth = 1 \<and> number_literal s"
| "tree_ok units variables (CALCULATOR_EXPRESSION_CONSTANT position depth c) \<longleftrightarrow> depth = 1"
| "tree_ok units variables (CALCULATOR_EXPRESSION_ANSWER position depth) \<longleftrightarrow> depth = 1"
| "tree_ok units variables (CALCULATOR_EXPRESSION_IMAGINARY position depth) \<longleftrightarrow> depth = 1"
| "tree_ok units variables (CALCULATOR_EXPRESSION_VARIABLE position depth s) \<longleftrightarrow> depth = 1 \<and> variables \<and> s \<noteq> [] \<and>
     set s \<subseteq> letter_bytes \<and> (\<nexists>f. function_named s f)"
| "tree_ok units variables (CALCULATOR_EXPRESSION_UNARY position depth operation e) \<longleftrightarrow>
     depth = Suc (expression_depth e) \<and> depth \<le> CALCULATOR_MAX_EXPRESSION_DEPTH \<and> tree_ok units variables e"
| "tree_ok units variables (CALCULATOR_EXPRESSION_POSTFIX position depth operation e) \<longleftrightarrow>
     depth = Suc (expression_depth e) \<and> depth \<le> CALCULATOR_MAX_EXPRESSION_DEPTH \<and> tree_ok units variables e"
| "tree_ok units variables (CALCULATOR_EXPRESSION_BINARY position depth operation l r) \<longleftrightarrow>
     depth = Suc (max (expression_depth l) (expression_depth r)) \<and> depth \<le> CALCULATOR_MAX_EXPRESSION_DEPTH \<and>
     tree_ok units variables l \<and> tree_ok units variables r"
| "tree_ok units variables (CALCULATOR_EXPRESSION_CALL position depth f arguments from_unit to_unit) \<longleftrightarrow>
     depth = call_depth 1 arguments \<and> depth \<le> CALCULATOR_MAX_EXPRESSION_DEPTH \<and> f \<in> set calculator_functions \<and>
     length arguments \<le> CALCULATOR_MAX_CALL_ARGUMENTS \<and> arity_ok f (length arguments) \<and>
     (0 < unit_count f \<and> arguments \<noteq> [] \<longrightarrow> numforge_unit_find units from_unit \<noteq> None) \<and>
     (unit_count f = 2 \<and> arguments \<noteq> [] \<longrightarrow> numforge_units_compatible units from_unit to_unit) \<and>
     (\<forall>e \<in> set arguments. tree_ok units variables e)"

abbreviation lexemes :: "string \<Rightarrow> CalculatorToken list \<Rightarrow> bool" where
  "lexemes cs \<equiv> list_all (\<lambda>t. lexeme_class (token_type t) (token_slice cs t))"

lemma function_find_in: "function_find_loop fs name = Some f \<Longrightarrow> f \<in> set fs"
  by (induction fs) (auto split: if_splits)

lemma call_name_in: "call_name cs t f \<Longrightarrow> f \<in> set calculator_functions"
  by (auto simp: call_name_parsed calculator_function_find_def split: if_splits dest: function_find_in)

lemma call_depth_bound: "depth \<le> n \<Longrightarrow> \<forall>e \<in> set es. expression_depth e < n \<Longrightarrow> call_depth depth es \<le> n"
  by (induction es arbitrary: depth) (auto simp: call_depth_def)

lemma postfix_tail_ok: "postfix_tail e ts e' \<Longrightarrow> tree_ok units variables e \<Longrightarrow> tree_ok units variables e'"
  by (induction rule: postfix_tail_induct) (auto simp: calculator_expression_can_wrap_def)

lemma binary_node_ok:
  "tree_ok units variables l \<Longrightarrow> tree_ok units variables r \<Longrightarrow> calculator_expression_can_wrap l \<Longrightarrow> calculator_expression_can_wrap r \<Longrightarrow>
   tree_ok units variables (binary_node operation t l r)"
  by (simp add: binary_node_def calculator_expression_can_wrap_def)

lemma unit_arguments_ok:
  "unit_arguments units cs f ts from_unit to_unit \<Longrightarrow> numforge_unit_find units from_unit \<noteq> None \<and>
    (implementation f = CALCULATOR_FUNCTION_CONVERT \<longrightarrow> numforge_units_compatible units from_unit to_unit)"
  by (auto simp: unit_arguments_parsed unit_argument_def split: if_splits)

text \<open>The names of constants are not letters only, but for \<^verbatim>\<open>e\<close>.\<close>

lemma named_value_ok:
  assumes "named_value variables position s = Some e" "lexeme_class CALCULATOR_TOKEN_IDENTIFIER s" "calculator_function_find s = None"
  shows "tree_ok units variables e"
  using assms by (auto simp: function_named_iff named_value_parsed calculator_constant_from_text_def split: if_splits option.splits)

lemma grammar_typed:
  "primary_expr units cs variables d ts e \<Longrightarrow> lexemes cs ts \<Longrightarrow> tree_ok units variables e"
  "argument_list units cs variables d f ts arguments from_unit to_unit \<Longrightarrow> lexemes cs ts \<Longrightarrow>
     (\<forall>e \<in> set arguments. tree_ok units variables e \<and> calculator_expression_can_wrap e) \<and>
     (takes_units f \<and> arguments \<noteq> [] \<longrightarrow> numforge_unit_find units from_unit \<noteq> None) \<and>
     (implementation f = CALCULATOR_FUNCTION_CONVERT \<and> arguments \<noteq> [] \<longrightarrow> numforge_units_compatible units from_unit to_unit)"
  "postfix_expr units cs variables d ts e \<Longrightarrow> lexemes cs ts \<Longrightarrow> tree_ok units variables e"
  "power_expr units cs variables d ts e \<Longrightarrow> lexemes cs ts \<Longrightarrow> tree_ok units variables e"
  "unary_expr units cs variables d ts e \<Longrightarrow> lexemes cs ts \<Longrightarrow> tree_ok units variables e"
  "factor_tail units cs variables d e ts e' \<Longrightarrow> lexemes cs ts \<Longrightarrow> tree_ok units variables e \<longrightarrow> tree_ok units variables e'"
  "multiplicative_expr units cs variables d ts e \<Longrightarrow> lexemes cs ts \<Longrightarrow> tree_ok units variables e"
  "summand_tail units cs variables d e ts e' \<Longrightarrow> lexemes cs ts \<Longrightarrow> tree_ok units variables e \<longrightarrow> tree_ok units variables e'"
  "additive_expr units cs variables d ts e \<Longrightarrow> lexemes cs ts \<Longrightarrow> tree_ok units variables e"
proof (induction rule: grammar_inducts)
  case (number t d)
  then show ?case by simp
next
  case (name t e d)
  then show ?case by (auto intro: named_value_ok)
next
  case (call d t f l ts arguments from_unit to_unit r)
  then show ?case
    using call_depth_bound [of 1 CALCULATOR_MAX_EXPRESSION_DEPTH arguments] call_name_in
    by (auto simp: grammar_tables calculator_expression_can_wrap_def CALCULATOR_MAX_EXPRESSION_DEPTH_def)
next
  case (with_units f d ts e us from_unit to_unit)
  then show ?case using unit_arguments_ok by fastforce
next
  case (postfixed d ts e us e')
  then show ?case using postfix_tail_ok by auto
qed (auto simp: binary_node_ok calculator_expression_can_wrap_def takes_units_def)

lemma lexed_lexemes:
  "lexed a ts b \<Longrightarrow> tokenizer_wf a \<Longrightarrow> lexemes (tokenizer_input a) ts"
proof (induction ts arbitrary: a)
  case (Cons t ts)
  then obtain c where c: "next_token a = Some (t, c)" "lexed c ts b" by auto
  note step = next_token_step [OF c(1) Cons.prems(2)]
  have "lexeme_class (token_type t) (token_slice (tokenizer_input a) t)" using step by (simp add: token_step_def Let_def)
  with Cons.IH [OF c(2) token_stepD(1) [OF step Cons.prems(2)]] token_stepD(2) [OF step Cons.prems(2)] show ?case by simp
qed simp

lemma sentence_ok:
  assumes "sentence units cs variables e" "CHR 0x00 \<notin> set cs"
  shows "tree_ok units variables e"
proof -
  from assms(1) obtain ts t b where l: "lexed (calculator_tokenizer_init cs) (ts @ [t]) b"
    and g: "additive_expr units cs variables 0 ts e" unfolding sentence_iff [OF assms(2)] by auto
  have wf: "tokenizer_wf (calculator_tokenizer_init cs)" "tokenizer_input (calculator_tokenizer_init cs) = cs"
    using assms(2) by (simp_all add: calculator_tokenizer_init_def tokenizer_wf_def)
  from lexed_lexemes [OF l wf(1)] wf(2) have "lexemes cs ts" by simp
  with grammar_typed(9) [OF g] show ?thesis by simp
qed

section \<open>Properties\<close>

text \<open>C3: Parsing an input. The run ends, whatever the input and the resources: recursion is bounded by the depth
  limit and every loop by the tokens. A tree that is returned is derived by the grammar from all tokens of the
  input, with the operator precedences and the offsets of the nodes the grammar fixes, and the error is cleared.
  Otherwise the status is one of the parser's, it is recorded with a position inside the input, and memory is
  blamed only when resources are limited. In an unlimited run every sentence of the grammar is accepted and its
  tree is the result, so the grammar is unambiguous and an error means that the input is no sentence.\<close>

theorem calculator_parse_correct:
  assumes "\<not> stuck s" "CHR 0x00 \<notin> set cs" "length cs < SIZE_MAX"
  shows "case run_state (calculator_parse_profile_impl units cs variables err) s of ((err', r), s') \<Rightarrow> \<not> stuck s' \<and>
    (case r of
       Inr e \<Rightarrow> sentence units cs variables e \<and> err' = no_error
     | Inl status \<Rightarrow> parse_failure status \<and> error_status err' = status \<and> error_offset err' \<le> length cs \<and>
         (unlimited s \<longrightarrow> status \<noteq> CALCULATOR_OUT_OF_MEMORY)) \<and>
    (\<forall>e. unlimited s \<and> sentence units cs variables e \<longrightarrow> r = Inr e)"
proof -
  obtain err' r s' where run: "run_state (calculator_parse_profile_impl units cs variables err) s = ((err', r), s')"
    by (cases "run_state (calculator_parse_profile_impl units cs variables err) s") auto
  have "rspec (unlimited s) (calculator_parse_profile_impl units cs variables err) (\<lambda>(err', r). case r of
       Inr e \<Rightarrow> sentence units cs variables e \<and> err' = no_error
     | Inl status \<Rightarrow> parse_failure status \<and> error_status err' = status \<and> error_offset err' \<le> length cs \<and>
         (unlimited s \<longrightarrow> status \<noteq> CALCULATOR_OUT_OF_MEMORY))"
    by (rule triple_conseq, rule parse_input_wp [OF assms(2,3)]) (auto split: sum.splits)
  from rspec_run2 [OF this assms(1)] have first: "\<not> stuck s'" "case r of
       Inr e \<Rightarrow> sentence units cs variables e \<and> err' = no_error
     | Inl status \<Rightarrow> parse_failure status \<and> error_status err' = status \<and> error_offset err' \<le> length cs \<and>
         (unlimited s \<longrightarrow> status \<noteq> CALCULATOR_OUT_OF_MEMORY)" by (simp_all add: run)
  have "r = Inr e" if "unlimited s" "sentence units cs variables e" for e
    using rspec_run_unlimited(3) [OF parse_input_complete [OF assms(2,3) that(2)] assms(1) that(1) run] by simp
  with first show ?thesis by (simp add: run)
qed

text \<open>The tokens of an input, one after the other.\<close>

lemma example_tokens:
  "lexed (calculator_tokenizer_init ''2+3'')
    [\<lparr>token_type = CALCULATOR_TOKEN_NUMBER, token_text = 0, token_length = 1, token_offset = 0\<rparr>,
     \<lparr>token_type = CALCULATOR_TOKEN_PLUS, token_text = 1, token_length = 1, token_offset = 1\<rparr>,
     \<lparr>token_type = CALCULATOR_TOKEN_NUMBER, token_text = 2, token_length = 1, token_offset = 2\<rparr>,
     \<lparr>token_type = CALCULATOR_TOKEN_END, token_text = 3, token_length = 0, token_offset = 3\<rparr>]
    \<lparr>tokenizer_input = ''2+3'', tokenizer_length = 3, tokenizer_offset = 3\<rparr>"
proof -
  have "next_token (calculator_tokenizer_init ''2+3'') =
      Some (\<lparr>token_type = CALCULATOR_TOKEN_NUMBER, token_text = 0, token_length = 1, token_offset = 0\<rparr>,
        \<lparr>tokenizer_input = ''2+3'', tokenizer_length = 3, tokenizer_offset = 1\<rparr>)" by code_simp
  moreover have "next_token \<lparr>tokenizer_input = ''2+3'', tokenizer_length = 3, tokenizer_offset = 1\<rparr> =
      Some (\<lparr>token_type = CALCULATOR_TOKEN_PLUS, token_text = 1, token_length = 1, token_offset = 1\<rparr>,
        \<lparr>tokenizer_input = ''2+3'', tokenizer_length = 3, tokenizer_offset = 2\<rparr>)" by code_simp
  moreover have "next_token \<lparr>tokenizer_input = ''2+3'', tokenizer_length = 3, tokenizer_offset = 2\<rparr> =
      Some (\<lparr>token_type = CALCULATOR_TOKEN_NUMBER, token_text = 2, token_length = 1, token_offset = 2\<rparr>,
        \<lparr>tokenizer_input = ''2+3'', tokenizer_length = 3, tokenizer_offset = 3\<rparr>)" by code_simp
  moreover have "next_token \<lparr>tokenizer_input = ''2+3'', tokenizer_length = 3, tokenizer_offset = 3\<rparr> =
      Some (\<lparr>token_type = CALCULATOR_TOKEN_END, token_text = 3, token_length = 0, token_offset = 3\<rparr>,
        \<lparr>tokenizer_input = ''2+3'', tokenizer_length = 3, tokenizer_offset = 3\<rparr>)" by code_simp
  ultimately show ?thesis by simp
qed

definition example_sum :: CalculatorExpression where
  "example_sum = CALCULATOR_EXPRESSION_BINARY 1 2 CALCULATOR_BINARY_ADD
     (CALCULATOR_EXPRESSION_NUMBER 0 1 ''2'') (CALCULATOR_EXPRESSION_NUMBER 2 1 ''3'')"

lemma number_factor:
  assumes "token_type t = CALCULATOR_TOKEN_NUMBER"
  shows "multiplicative_expr units cs variables d [t] (CALCULATOR_EXPRESSION_NUMBER (token_offset t) 1 (token_slice cs t))"
  using multiplied [OF unsigned [OF base [OF postfixed [OF number [OF assms] postfix_end]]] factors_end] by simp

lemma example_sentence: "sentence units ''2+3'' variables example_sum"
proof -
  let ?a = "\<lparr>token_type = CALCULATOR_TOKEN_NUMBER, token_text = 0, token_length = 1, token_offset = 0\<rparr>"
  let ?b = "\<lparr>token_type = CALCULATOR_TOKEN_PLUS, token_text = 1, token_length = 1, token_offset = 1\<rparr>"
  let ?c = "\<lparr>token_type = CALCULATOR_TOKEN_NUMBER, token_text = 2, token_length = 1, token_offset = 2\<rparr>"
  note factor = number_factor [of _ units "''2+3''" variables 0]
  have nul: "CHR 0x00 \<notin> set ''2+3''" by simp
  have slices: "token_slice ''2+3'' ?a = ''2''" "token_slice ''2+3'' ?c = ''3''" by (simp_all add: token_slice_def)
  let ?r = "CALCULATOR_EXPRESSION_NUMBER (token_offset ?c) 1 (token_slice ''2+3'' ?c)"
  have "summand_tail units ''2+3'' variables 0 (CALCULATOR_EXPRESSION_NUMBER 0 1 ''2'') (?b # [?c] @ [])
      (binary_node CALCULATOR_BINARY_ADD ?b (CALCULATOR_EXPRESSION_NUMBER 0 1 ''2'') ?r)"
    by (rule summand [OF _ factor _ _ summands_end])
      (simp_all add: calculator_expression_can_wrap_def CALCULATOR_MAX_EXPRESSION_DEPTH_def)
  moreover have "binary_node CALCULATOR_BINARY_ADD ?b (CALCULATOR_EXPRESSION_NUMBER 0 1 ''2'') ?r = example_sum"
    by (simp add: token_slice_def binary_node_def example_sum_def)
  ultimately have "additive_expr units ''2+3'' variables 0 [?a, ?b, ?c] example_sum"
    using added [OF factor [of ?a]] by (simp add: token_slice_def)
  then show ?thesis
    unfolding sentence_iff [OF nul] using example_tokens
    by (intro exI [of _ "[?a, ?b, ?c]"]
        exI [of _ "\<lparr>token_type = CALCULATOR_TOKEN_END, token_text = 3, token_length = 0, token_offset = 3\<rparr>"]
        exI [of _ "\<lparr>tokenizer_input = ''2+3'', tokenizer_length = 3, tokenizer_offset = 3\<rparr>"])
      (simp add: numbers_apart_def)
qed

theorem calculator_parse_correct_witness:
  "case run_state (calculator_parse_profile_impl [] ''2+3'' False no_error) idle_runtime of
     ((err', r), s') \<Rightarrow> \<not> stuck s' \<and> r = Inr example_sum"
proof -
  have "CHR 0x00 \<notin> set ''2+3''" "length ''2+3'' < SIZE_MAX" by (simp_all add: SIZE_MAX_def)
  from calculator_parse_correct [OF idle_runtime_simps(1) this, of "[]" False no_error] example_sentence show ?thesis
    by (auto split: prod.splits)
qed

text \<open>C4: The trees the parser returns are well typed: every node has the depth of its subtree, at most 256; numbers are
  decimal literals, variables are letters and no function names, and there are none without a session; calls
  are of functions of the registry, their arguments and units together no fewer than the least and no more than the
  greatest number the registry has for the function, and their units are in the catalogue and compatible with each
  other. In an unlimited run the parser gives up only on inputs that no tree of the grammar spells.\<close>

theorem calculator_parse_typed:
  assumes "\<not> stuck s" "CHR 0x00 \<notin> set cs" "length cs < SIZE_MAX"
  shows "(case run_state (calculator_parse units cs err) s of ((err', r), s') \<Rightarrow> \<not> stuck s' \<and>
      (case r of
         Inr e \<Rightarrow> tree_ok units False e \<and> expression_depth e \<le> CALCULATOR_MAX_EXPRESSION_DEPTH
       | Inl status \<Rightarrow> status \<noteq> CALCULATOR_OK \<and> (unlimited s \<longrightarrow> (\<nexists>e. sentence units cs False e)))) \<and>
    (case run_state (calculator_parse_variables units cs err) s of ((err', r), s') \<Rightarrow> \<not> stuck s' \<and>
      (case r of
         Inr e \<Rightarrow> tree_ok units True e \<and> expression_depth e \<le> CALCULATOR_MAX_EXPRESSION_DEPTH
       | Inl status \<Rightarrow> status \<noteq> CALCULATOR_OK \<and> (unlimited s \<longrightarrow> (\<nexists>e. sentence units cs True e))))"
proof -
  have typed: "case run_state (calculator_parse_profile_impl units cs variables err) s of ((err', r), s') \<Rightarrow> \<not> stuck s' \<and>
      (case r of
         Inr e \<Rightarrow> tree_ok units variables e \<and> expression_depth e \<le> CALCULATOR_MAX_EXPRESSION_DEPTH
       | Inl status \<Rightarrow> status \<noteq> CALCULATOR_OK \<and> (unlimited s \<longrightarrow> (\<nexists>e. sentence units cs variables e)))" for variables
  proof -
    obtain err' r s' where run: "run_state (calculator_parse_profile_impl units cs variables err) s = ((err', r), s')"
      by (cases "run_state (calculator_parse_profile_impl units cs variables err) s") auto
    note sound = rspec_run2 [OF parse_input_wp [OF assms(2,3), where u = "unlimited s"] assms(1), of units variables err, unfolded run prod.case]
    have complete: "r = Inr e" if "unlimited s" "sentence units cs variables e" for e
      using rspec_run_unlimited(3) [OF parse_input_complete [OF assms(2,3) that(2)] assms(1) that(1) run] by simp
    show ?thesis
      using sound complete sentence_ok [OF _ assms(2)] by (auto simp: run parse_failure_def split: sum.splits)
  qed
  show ?thesis unfolding calculator_parse_def calculator_parse_variables_def by (intro conjI typed)
qed

text \<open>A call, its tokens and its tree.\<close>

lemma call_tokens:
  "\<exists>b. lexed (calculator_tokenizer_init ''max(2;3)'')
    [\<lparr>token_type = CALCULATOR_TOKEN_IDENTIFIER, token_text = 0, token_length = 3, token_offset = 0\<rparr>,
     \<lparr>token_type = CALCULATOR_TOKEN_LEFT_PAREN, token_text = 3, token_length = 1, token_offset = 3\<rparr>,
     \<lparr>token_type = CALCULATOR_TOKEN_NUMBER, token_text = 4, token_length = 1, token_offset = 4\<rparr>,
     \<lparr>token_type = CALCULATOR_TOKEN_SEMICOLON, token_text = 5, token_length = 1, token_offset = 5\<rparr>,
     \<lparr>token_type = CALCULATOR_TOKEN_NUMBER, token_text = 6, token_length = 1, token_offset = 6\<rparr>,
     \<lparr>token_type = CALCULATOR_TOKEN_RIGHT_PAREN, token_text = 7, token_length = 1, token_offset = 7\<rparr>,
     \<lparr>token_type = CALCULATOR_TOKEN_END, token_text = 8, token_length = 0, token_offset = 8\<rparr>] b"
proof -
  let ?at = "\<lambda>i. \<lparr>tokenizer_input = ''max(2;3)'', tokenizer_length = 8, tokenizer_offset = i\<rparr>"
  have "next_token (calculator_tokenizer_init ''max(2;3)'') =
      Some (\<lparr>token_type = CALCULATOR_TOKEN_IDENTIFIER, token_text = 0, token_length = 3, token_offset = 0\<rparr>, ?at 3)" by code_simp
  moreover have "next_token (?at 3) =
      Some (\<lparr>token_type = CALCULATOR_TOKEN_LEFT_PAREN, token_text = 3, token_length = 1, token_offset = 3\<rparr>, ?at 4)" by code_simp
  moreover have "next_token (?at 4) =
      Some (\<lparr>token_type = CALCULATOR_TOKEN_NUMBER, token_text = 4, token_length = 1, token_offset = 4\<rparr>, ?at 5)" by code_simp
  moreover have "next_token (?at 5) =
      Some (\<lparr>token_type = CALCULATOR_TOKEN_SEMICOLON, token_text = 5, token_length = 1, token_offset = 5\<rparr>, ?at 6)" by code_simp
  moreover have "next_token (?at 6) =
      Some (\<lparr>token_type = CALCULATOR_TOKEN_NUMBER, token_text = 6, token_length = 1, token_offset = 6\<rparr>, ?at 7)" by code_simp
  moreover have "next_token (?at 7) =
      Some (\<lparr>token_type = CALCULATOR_TOKEN_RIGHT_PAREN, token_text = 7, token_length = 1, token_offset = 7\<rparr>, ?at 8)" by code_simp
  moreover have "next_token (?at 8) =
      Some (\<lparr>token_type = CALCULATOR_TOKEN_END, token_text = 8, token_length = 0, token_offset = 8\<rparr>, ?at 8)" by code_simp
  ultimately show ?thesis by simp
qed

definition maximum :: CalculatorFunction where
  "maximum = \<lparr>function_name = ''max'', minimum_arguments = 2, maximum_arguments = 0, implementation = CALCULATOR_FUNCTION_MAX\<rparr>"

definition example_call :: CalculatorExpression where
  "example_call = CALCULATOR_EXPRESSION_CALL 0 2 maximum
     [CALCULATOR_EXPRESSION_NUMBER 4 1 ''2'', CALCULATOR_EXPRESSION_NUMBER 6 1 ''3''] [] []"

lemma maximum_named: "calculator_function_find ''max'' = Some maximum" "\<not> takes_units maximum"
  by (simp_all add: calculator_function_find_def calculator_functions_def function_entry_def maximum_def takes_units_def)

lemma call_sentence: "sentence units ''max(2;3)'' variables example_call"
proof -
  let ?cs = "''max(2;3)''"
  let ?f = "\<lparr>token_type = CALCULATOR_TOKEN_IDENTIFIER, token_text = 0, token_length = 3, token_offset = 0\<rparr>"
  let ?l = "\<lparr>token_type = CALCULATOR_TOKEN_LEFT_PAREN, token_text = 3, token_length = 1, token_offset = 3\<rparr>"
  let ?a = "\<lparr>token_type = CALCULATOR_TOKEN_NUMBER, token_text = 4, token_length = 1, token_offset = 4\<rparr>"
  let ?s = "\<lparr>token_type = CALCULATOR_TOKEN_SEMICOLON, token_text = 5, token_length = 1, token_offset = 5\<rparr>"
  let ?b = "\<lparr>token_type = CALCULATOR_TOKEN_NUMBER, token_text = 6, token_length = 1, token_offset = 6\<rparr>"
  let ?r = "\<lparr>token_type = CALCULATOR_TOKEN_RIGHT_PAREN, token_text = 7, token_length = 1, token_offset = 7\<rparr>"
  have num: "additive_expr units ?cs variables 1 [t] (CALCULATOR_EXPRESSION_NUMBER (token_offset t) 1 (token_slice ?cs t))"
    if "token_type t = CALCULATOR_TOKEN_NUMBER" for t
    using added [OF number_factor [OF that] summands_end] by simp
  have slices: "token_slice ?cs ?f = ''max''" "token_slice ?cs ?a = ''2''" "token_slice ?cs ?b = ''3''"
    by (simp_all add: token_slice_def)
  have wrap: "calculator_expression_can_wrap (CALCULATOR_EXPRESSION_NUMBER i 1 x)" for i x
    by (simp add: calculator_expression_can_wrap_def CALCULATOR_MAX_EXPRESSION_DEPTH_def)
  have "argument_list units ?cs variables 1 maximum ([?a] @ ?s # [?b])
      [CALCULATOR_EXPRESSION_NUMBER 4 1 ''2'', CALCULATOR_EXPRESSION_NUMBER 6 1 ''3''] [] []"
    using more_arguments [OF maximum_named(2) num [of ?a] wrap _ last_argument [OF maximum_named(2) num [of ?b] wrap], of ?s] slices
    by simp
  then have "argument_list units ?cs variables (Suc 0) maximum [?a, ?s, ?b]
      [CALCULATOR_EXPRESSION_NUMBER 4 1 ''2'', CALCULATOR_EXPRESSION_NUMBER 6 1 ''3''] [] []" by simp
  then have "primary_expr units ?cs variables 0 (?f # ?l # [?a, ?s, ?b] @ [?r]) (CALCULATOR_EXPRESSION_CALL (token_offset ?f)
      (call_depth 1 [CALCULATOR_EXPRESSION_NUMBER 4 1 ''2'', CALCULATOR_EXPRESSION_NUMBER 6 1 ''3'']) maximum
      [CALCULATOR_EXPRESSION_NUMBER 4 1 ''2'', CALCULATOR_EXPRESSION_NUMBER 6 1 ''3''] [] [])"
    by (intro call) (simp_all add: call_name_parsed slices maximum_named CALCULATOR_MAX_EXPRESSION_DEPTH_def
      CALCULATOR_MAX_CALL_ARGUMENTS_def wrong_argument_count_def supplied_arguments_def maximum_def)
  then have p: "primary_expr units ?cs variables 0 [?f, ?l, ?a, ?s, ?b, ?r] example_call"
    by (simp add: example_call_def call_depth_def numeral_2_eq_2)
  have g: "additive_expr units ?cs variables 0 [?f, ?l, ?a, ?s, ?b, ?r] example_call"
    using added [OF multiplied [OF unsigned [OF base [OF postfixed [OF p postfix_end]]] factors_end] summands_end] by simp
  have nul: "CHR 0x00 \<notin> set ''max(2;3)''" by simp
  obtain b where "lexed (calculator_tokenizer_init ?cs) ([?f, ?l, ?a, ?s, ?b, ?r] @
      [\<lparr>token_type = CALCULATOR_TOKEN_END, token_text = 8, token_length = 0, token_offset = 8\<rparr>]) b"
    using call_tokens by auto
  moreover have "numbers_apart [?f, ?l, ?a, ?s, ?b, ?r]" by (simp add: numbers_apart_def)
  ultimately show ?thesis unfolding sentence_iff [OF nul] using g by fastforce
qed

theorem calculator_parse_typed_witness:
  "case run_state (calculator_parse [] ''max(2;3)'' no_error) idle_runtime of
     ((err', r), s') \<Rightarrow> \<exists>e. r = Inr e \<and> tree_ok [] False e"
proof -
  have "CHR 0x00 \<notin> set ''max(2;3)''" "length ''max(2;3)'' < SIZE_MAX" by (simp_all add: SIZE_MAX_def)
  from calculator_parse_typed [OF idle_runtime_simps(1) this, of "[]" no_error] call_sentence [of "[]" False] show ?thesis
    by (auto split: prod.splits sum.splits)
qed

text \<open>The types tell arities: one argument is too few for a maximum.\<close>

lemma tree_ok_arity:
  "tree_ok [] False example_call"
  "\<not> tree_ok [] False (CALCULATOR_EXPRESSION_CALL 0 2 maximum [CALCULATOR_EXPRESSION_NUMBER 4 1 ''2''] [] [])"
  using sentence_ok [OF call_sentence, of "[]" False] by (simp_all add: arity_ok_def unit_count_def maximum_def)

end
