(* ===== verification/Budget_Scope.thy ===== *)
theory Budget_Scope
  imports Runtime_Budget
begin

text \<open>
  The protocol of the resource scope of \<^verbatim>\<open>src/runtime/numforge_alloc.c\<close>: what a thread
  that calls its functions in any order can observe.

  A thread is a sequence of calls and answers (\<open>budget_trace\<close>). The promise of
  \<^verbatim>\<open>runtime.h\<close> is the abstract machine \<open>scope_step\<close>, which knows neither the clock nor
  the allocator: no scope, a scope with bytes left and a largest request, or a scope that has
  failed. The code implements it (\<open>scope_simulation\<close>); the limits and the persistence of a
  failure are invariants of the abstract machine and hold for the code by that refinement.
\<close>

section \<open>Calls and answers\<close>

datatype budget_call =
    Begin u64 nat nat
  | Check
  | Failure
  | End
  | Available_Bytes
  | Available_Ms
  | Can_Allocate_Pair nat nat
  | Can_Allocate_Plan nat nat
  | Malloc nat
  | Calloc nat nat
  | Realloc nat

datatype answer = Flag bool | Bytes nat | Milliseconds u64 | Reason NumForgeBudgetFailure | Done

definition answered :: "('a \<Rightarrow> answer) \<Rightarrow> 'a rt \<Rightarrow> answer rt" where
  "answered f m = do { x \<leftarrow> m; State_Monad.return (f x) }"

fun perform :: "budget_call \<Rightarrow> answer rt" where
  "perform (Begin ms limit single) = answered Flag (numforge_budget_begin ms limit single)"
| "perform Check = answered Flag numforge_budget_check"
| "perform Failure = answered Reason numforge_budget_failure"
| "perform End = answered (\<lambda>_. Done) numforge_budget_end"
| "perform Available_Bytes = answered Bytes numforge_budget_available_bytes"
| "perform Available_Ms = answered Milliseconds numforge_budget_available_ms"
| "perform (Can_Allocate_Pair a b) = answered Flag (numforge_budget_can_allocate_pair a b)"
| "perform (Can_Allocate_Plan planned largest) = answered Flag (numforge_budget_can_allocate_plan planned largest)"
| "perform (Malloc n) = answered Flag (numforge_malloc n)"
| "perform (Calloc count n) = answered Flag (numforge_calloc count n)"
| "perform (Realloc n) = answered Flag (numforge_realloc n)"

inductive budget_trace :: "runtime \<Rightarrow> (budget_call \<times> answer) list \<Rightarrow> runtime \<Rightarrow> bool" where
  budget_stop: "budget_trace s [] s"
| budget_go: "run_state (perform c) s = (a, t) \<Longrightarrow> budget_trace t es u \<Longrightarrow> budget_trace s ((c, a) # es) u"

inductive_simps budget_trace_simps [simp]:
  "budget_trace s [] t"
  "budget_trace s ((c, a) # es) t"

text \<open>The bytes a call asks the allocator for; none when the product of
  \<^verbatim>\<open>calloc\<close> overflows.\<close>

fun request_bytes :: "budget_call \<Rightarrow> nat option" where
  "request_bytes (Malloc n) = Some n"
| "request_bytes (Realloc n) = Some n"
| "request_bytes (Calloc count n) = (if n \<noteq> 0 \<and> count > SIZE_MAX div n then None else Some (count * n))"
| "request_bytes _ = None"

fun is_request :: "budget_call \<Rightarrow> bool" where
  "is_request (Malloc n) = True"
| "is_request (Realloc n) = True"
| "is_request (Calloc count n) = True"
| "is_request _ = False"

text \<open>The requests that were granted.\<close>

definition granted :: "(budget_call \<times> answer) list \<Rightarrow> nat list" where
  "granted es = map (\<lambda>(c, a). the (request_bytes c)) (filter (\<lambda>(c, a). is_request c \<and> a = Flag True) es)"

lemma granted_simps [simp]:
  "granted [] = []"
  "granted ((c, a) # es) = (if is_request c \<and> a = Flag True then the (request_bytes c) # granted es else granted es)"
  by (simp_all add: granted_def)

section \<open>The abstract machine\<close>

datatype scope = Idle | Within nat nat | Failed NumForgeBudgetFailure

inductive scope_step :: "scope \<Rightarrow> budget_call \<Rightarrow> answer \<Rightarrow> scope \<Rightarrow> bool" where
  enter: "scope_step Idle (Begin ms limit single) (Flag True) (Within limit single)"
| nested: "p \<noteq> Idle \<Longrightarrow> scope_step p (Begin ms limit single) (Flag False) p"
| leave: "scope_step p End Done Idle"
| check_idle: "scope_step Idle Check (Flag True) Idle"
| check_within: "scope_step (Within r g) Check (Flag True) (Within r g)"
| expire: "scope_step (Within r g) Check (Flag False) (Failed NUMFORGE_BUDGET_TIME)"
| check_failed: "scope_step (Failed f) Check (Flag False) (Failed f)"
| reason_idle: "scope_step Idle Failure (Reason NUMFORGE_BUDGET_OK) Idle"
| reason_within: "scope_step (Within r g) Failure (Reason NUMFORGE_BUDGET_OK) (Within r g)"
| reason_failed: "scope_step (Failed f) Failure (Reason f) (Failed f)"
| bytes_idle: "scope_step Idle Available_Bytes (Bytes SIZE_MAX) Idle"
| bytes_within: "scope_step (Within r g) Available_Bytes (Bytes r) (Within r g)"
| bytes_failed: "scope_step (Failed f) Available_Bytes (Bytes 0) (Failed f)"
| ms_idle: "scope_step Idle Available_Ms (Milliseconds UINT64_MAX) Idle"
| ms_within: "scope_step (Within r g) Available_Ms (Milliseconds t) (Within r g)"
| ms_failed: "scope_step (Failed f) Available_Ms (Milliseconds 0) (Failed f)"
| pair_idle: "scope_step Idle (Can_Allocate_Pair a b) (Flag True) Idle"
| pair_within: "scope_step (Within r g) (Can_Allocate_Pair a b) (Flag (a \<le> g \<and> b \<le> g \<and> a + b \<le> r)) (Within r g)"
| pair_failed: "scope_step (Failed f) (Can_Allocate_Pair a b) (Flag False) (Failed f)"
| plan_idle: "scope_step Idle (Can_Allocate_Plan a b) (Flag True) Idle"
| plan_within: "scope_step (Within r g) (Can_Allocate_Plan a b) (Flag (b \<le> g \<and> a \<le> r)) (Within r g)"
| plan_failed: "scope_step (Failed f) (Can_Allocate_Plan a b) (Flag False) (Failed f)"
| overflow: "is_request c \<Longrightarrow> request_bytes c = None \<Longrightarrow> scope_step p c (Flag False) p"
| free_request: "request_bytes c = Some n \<Longrightarrow> scope_step Idle c (Flag b) Idle"
| charge: "request_bytes c = Some n \<Longrightarrow> n \<le> r \<Longrightarrow> n \<le> g \<Longrightarrow> scope_step (Within r g) c (Flag b) (Within (r - n) g)"
| late_request: "request_bytes c = Some n \<Longrightarrow> scope_step (Within r g) c (Flag False) (Failed NUMFORGE_BUDGET_TIME)"
| refuse: "request_bytes c = Some n \<Longrightarrow> r < n \<or> g < n \<Longrightarrow>
    scope_step (Within r g) c (Flag False) (Failed NUMFORGE_BUDGET_MEMORY)"
| failed_request: "request_bytes c = Some n \<Longrightarrow> scope_step (Failed f) c (Flag False) (Failed f)"

inductive scope_trace :: "scope \<Rightarrow> (budget_call \<times> answer) list \<Rightarrow> scope \<Rightarrow> bool" where
  scope_stop: "scope_trace p [] p"
| scope_go: "scope_step p c a q \<Longrightarrow> scope_trace q es r \<Longrightarrow> scope_trace p ((c, a) # es) r"

inductive_cases from_within: "scope_step (Within r g) c a q"
inductive_cases from_failed: "scope_step (Failed f) c a q"

text \<open>Inside a scope, every grant is paid for, and no call but the end undoes a failure.\<close>

lemma within_step:
  "scope_step (Within r g) c a q \<Longrightarrow> c \<noteq> End \<Longrightarrow>
   (case q of Idle \<Rightarrow> False
    | Within r' g' \<Rightarrow> g' = g \<and> sum_list (granted [(c, a)]) + r' \<le> r \<and> (\<forall>n \<in> set (granted [(c, a)]). n \<le> g)
    | Failed f \<Rightarrow> f \<noteq> NUMFORGE_BUDGET_OK \<and> granted [(c, a)] = [])"
  by (elim from_within) simp_all

lemma failed_step: "scope_step (Failed f) c a q \<Longrightarrow> c \<noteq> End \<Longrightarrow> q = Failed f \<and> granted [(c, a)] = []"
  by (elim from_failed) auto

lemma failed_trace:
  "scope_trace p es q \<Longrightarrow> p = Failed f \<Longrightarrow> End \<notin> fst ` set es \<Longrightarrow> q = Failed f \<and> granted es = []"
proof (induction rule: scope_trace.induct)
  case (scope_go p c a q es r)
  then show ?case using failed_step [of f c a q] by auto
qed simp

lemma within_trace:
  "scope_trace p es q \<Longrightarrow> p = Within r g \<Longrightarrow> End \<notin> fst ` set es \<Longrightarrow>
   sum_list (granted es) \<le> r \<and> (\<forall>n \<in> set (granted es). n \<le> g) \<and>
   (case q of Idle \<Rightarrow> False | Within r' g' \<Rightarrow> g' = g \<and> sum_list (granted es) + r' \<le> r | Failed f \<Rightarrow> f \<noteq> NUMFORGE_BUDGET_OK)"
proof (induction arbitrary: r rule: scope_trace.induct)
  case (scope_go p c a q es z)
  from scope_go.prems have "c \<noteq> End" by auto
  note step = within_step [OF scope_go.hyps(1) [unfolded scope_go.prems(1)] this]
  show ?case
  proof (cases q)
    case (Within r' g')
    with step scope_go.IH [of r'] scope_go.prems(2) show ?thesis
      by (cases z) (auto split: if_splits)
  next
    case (Failed f)
    with step failed_trace [OF scope_go.hyps(2) Failed] scope_go.prems(2) show ?thesis by (auto split: if_splits)
  qed (use step in simp)
qed simp

section \<open>The code implements it\<close>

definition scope_of :: "runtime \<Rightarrow> scope" where
  "scope_of s = (if \<not> budget_active s then Idle
     else if budget_failure s = NUMFORGE_BUDGET_OK then Within (budget_remaining s) (budget_single s)
     else Failed (budget_failure s))"

definition scope_inv :: "runtime \<Rightarrow> bool" where
  "scope_inv s \<longleftrightarrow> (\<not> budget_active s \<longrightarrow> budget_failure s = NUMFORGE_BUDGET_OK)"

lemmas budget_defs = numforge_budget_begin_def numforge_budget_check_def numforge_budget_failure_def
  numforge_budget_end_def numforge_budget_available_bytes_def numforge_budget_available_ms_def
  numforge_budget_can_allocate_pair_def numforge_budget_can_allocate_plan_def
  numforge_monotonic_ms_def State_Monad.update_def answered_def

text \<open>The request function under all three wrappers, in one case distinction.\<close>

lemma allocate_cases:
  assumes "run_state (numforge_budget_allocate n) s = (b, t)"
  shows "(\<not> budget_active s \<and> b \<and> t = s) \<or>
    (budget_active s \<and> budget_failure s \<noteq> NUMFORGE_BUDGET_OK \<and> \<not> b \<and> t = s) \<or>
    (budget_active s \<and> budget_failure s = NUMFORGE_BUDGET_OK \<and>
      (let v = s\<lparr>clock_reads := Suc (clock_reads s)\<rparr> in
        \<not> b \<and> t = v\<lparr>budget_failure := NUMFORGE_BUDGET_TIME\<rparr> \<or>
        \<not> b \<and> t = v\<lparr>budget_failure := NUMFORGE_BUDGET_MEMORY\<rparr> \<and> (budget_single s < n \<or> budget_remaining s < n) \<or>
        b \<and> t = v\<lparr>budget_remaining := budget_remaining s - n\<rparr> \<and> n \<le> budget_single s \<and> n \<le> budget_remaining s))"
  using assms by (auto simp: numforge_budget_allocate_def budget_defs Let_def split: if_splits prod.splits option.splits)

lemma request_step:
  assumes run: "run_state (do { allowed \<leftarrow> numforge_allocation_allowed n;
      if allowed then libc_request n else State_Monad.return False }) s = (b, t)"
    and c: "request_bytes c = Some n"
  shows "scope_step (scope_of s) c (Flag b) (scope_of t) \<and> (scope_inv s \<longrightarrow> scope_inv t)"
proof -
  obtain x v where a: "run_state (numforge_budget_allocate n) s = (x, v)" by fastforce
  have t: "t = (if x then v\<lparr>heap_calls := Suc (heap_calls v)\<rparr> else v)" "\<not> x \<longrightarrow> \<not> b"
    using run by (auto simp: numforge_allocation_allowed_def libc_request_def a split: if_splits)
  show ?thesis
    using allocate_cases [OF a] t
    by (elim disjE conjE) (auto simp: Let_def scope_of_def scope_inv_def intro: free_request [OF c] charge [OF c] late_request [OF c]
      refuse [OF c] failed_request [OF c])
qed

lemma pair_fits:
  "(x :: nat) \<le> g \<and> y \<le> g \<and> x \<le> r \<and> y \<le> r - x \<longleftrightarrow> x \<le> g \<and> y \<le> g \<and> x + y \<le> r"
  by auto

lemma step_simulation:
  assumes "run_state (perform c) s = (a, t)" "scope_inv s"
  shows "scope_step (scope_of s) c a (scope_of t) \<and> scope_inv t"
proof (cases "request_bytes c")
  case (Some n)
  then obtain b where "a = Flag b" "run_state (do { allowed \<leftarrow> numforge_allocation_allowed n;
      if allowed then libc_request n else State_Monad.return False }) s = (b, t)"
    using assms(1)
    by (cases c) (auto simp: answered_def numforge_malloc_def numforge_calloc_def numforge_realloc_def split: if_splits prod.splits)
  with request_step [OF _ Some] assms(2) show ?thesis by blast
next
  case None
  then show ?thesis
    using assms
    by (cases c)
      (auto simp: budget_defs scope_of_def scope_inv_def numforge_calloc_def Let_def pair_fits
        intro: scope_step.intros split: if_splits prod.splits option.splits)
qed

section \<open>Properties\<close>

lemma trace_simulation:
  "budget_trace s es t \<Longrightarrow> scope_inv s \<Longrightarrow> scope_trace (scope_of s) es (scope_of t) \<and> scope_inv t"
proof (induction rule: budget_trace.induct)
  case (budget_go c s a t es u)
  then show ?case using step_simulation [OF budget_go.hyps(1)] by (auto intro: scope_trace.intros)
qed (simp add: scope_stop)

lemma idle_scope [simp]: "scope_inv idle_runtime" "scope_of idle_runtime = Idle"
  by (simp_all add: idle_runtime_def scope_inv_def scope_of_def)

text \<open>A concrete thread: the second request exceeds what the scope has left.\<close>

abbreviation example_thread :: "(budget_call \<times> answer) list" where
  "example_thread \<equiv> [(Malloc 40, Flag True), (Calloc 10 10, Flag False), (Check, Flag False),
     (Failure, Reason NUMFORGE_BUDGET_MEMORY)]"

abbreviation example_scope :: runtime where
  "example_scope \<equiv> idle_runtime\<lparr>budget_active := True, budget_duration := 1000, budget_remaining := 60,
     budget_single := 50, budget_failure := NUMFORGE_BUDGET_MEMORY, clock_reads := 3, heap_calls := 1\<rparr>"

lemma example_run: "budget_trace idle_runtime ((Begin 1000 100 50, Flag True) # example_thread) example_scope"
  by (simp add: idle_runtime_def answered_def numforge_budget_begin_def numforge_monotonic_ms_def
      numforge_malloc_def numforge_calloc_def numforge_allocation_allowed_def numforge_budget_allocate_def
      numforge_budget_check_def libc_request_def numforge_budget_failure_def State_Monad.update_def SIZE_MAX_def)

lemma example_scope_failed: "scope_of example_scope = Failed NUMFORGE_BUDGET_MEMORY"
  by (simp add: scope_of_def)

text \<open>C5: The resource scope implements its documented protocol: whatever a thread calls, in any
  order, the answers are those of the abstract machine, which knows neither clock nor allocator.\<close>

theorem budget_scope_refinement:
  assumes "scope_inv s" "budget_trace s es t"
  shows "scope_trace (scope_of s) es (scope_of t) \<and> scope_inv t"
  using trace_simulation [OF assms(2,1)] .

theorem budget_scope_refinement_witness:
  "scope_trace Idle ((Begin 1000 100 50, Flag True) # example_thread) (Failed NUMFORGE_BUDGET_MEMORY)"
  using budget_scope_refinement [OF idle_scope(1) example_run, unfolded idle_scope(2) example_scope_failed] by blast

text \<open>C6: Within a scope the requests that were granted never add up to more than the limit it
  was opened with, none is larger than the largest single request, and what is left is what has
  not been charged.\<close>

theorem budget_limits:
  assumes "scope_inv s" "budget_trace s ((Begin ms limit single, Flag True) # es) t" "End \<notin> fst ` set es"
  shows "budget_active t \<and> sum_list (granted es) \<le> limit \<and> (\<forall>n \<in> set (granted es). n \<le> single) \<and>
    (budget_failure t = NUMFORGE_BUDGET_OK \<longrightarrow> sum_list (granted es) + budget_remaining t \<le> limit)"
proof -
  obtain v where v: "run_state (perform (Begin ms limit single)) s = (Flag True, v)" "budget_trace v es t"
    using assms(2) by auto
  note step = step_simulation [OF v(1) assms(1)]
  have "scope_of v = Within limit single"
    using v(1) by (auto simp: budget_defs scope_of_def split: if_splits prod.splits)
  with within_trace [of "scope_of v" es "scope_of t"] trace_simulation [OF v(2)] step assms(3)
  show ?thesis by (auto simp: scope_of_def split: if_splits)
qed

theorem budget_limits_witness:
  "budget_active example_scope \<and> sum_list (granted example_thread) \<le> 100"
  using budget_limits [OF _ example_run] by simp

text \<open>C36: A failure persists. Once a scope has failed, every check answers false, no request is
  granted and the reason stays, until the scope is ended.\<close>

theorem budget_failure_persists:
  assumes "budget_active s" "budget_failure s \<noteq> NUMFORGE_BUDGET_OK" "budget_trace s es t" "End \<notin> fst ` set es"
  shows "budget_active t \<and> budget_failure t = budget_failure s \<and> granted es = [] \<and> (Check, Flag True) \<notin> set es"
proof -
  have "scope_inv s" using assms(1) by (simp add: scope_inv_def)
  then have tr: "scope_trace (scope_of s) es (scope_of t)" using trace_simulation [OF assms(3)] by simp
  have f: "scope_of s = Failed (budget_failure s)" using assms(1,2) by (simp add: scope_of_def)
  have "(Check, Flag True) \<notin> set es" using tr f assms(4)
  proof (induction rule: scope_trace.induct)
    case (scope_go p c a q es r)
    then show ?case using failed_step [of "budget_failure s" c a q] by (auto elim: from_failed)
  qed simp
  with failed_trace [OF tr f assms(4)] assms(1,2) show ?thesis by (auto simp: scope_of_def split: if_splits)
qed

theorem budget_failure_persists_witness:
  "budget_failure example_scope = NUMFORGE_BUDGET_MEMORY \<and> granted [(Realloc 1, Flag False)] = []"
  using budget_failure_persists [of example_scope "[(Realloc 1, Flag False)]" example_scope]
  by (simp add: answered_def numforge_realloc_def numforge_allocation_allowed_def numforge_budget_allocate_def
      numforge_budget_check_def)

text \<open>C37: A thread that goes on checking is stopped. While a scope has not failed, a check at a
  clock that has not gone back answers true exactly until the duration has passed, and then the
  reason is time.\<close>

theorem budget_check_deadline:
  assumes "budget_active s" "budget_failure s = NUMFORGE_BUDGET_OK"
    and "run_state numforge_monotonic_ms s = (now, s1)" "unat (budget_started s) \<le> unat now"
    and "run_state numforge_budget_check s = (go, t)"
  shows "(go \<longleftrightarrow> now \<noteq> UINT64_MAX \<and> unat now < unat (budget_started s) + unat (budget_duration s)) \<and>
    budget_failure t = (if go then NUMFORGE_BUDGET_OK else NUMFORGE_BUDGET_TIME)"
proof -
  have "unat (now - budget_started s) = unat now - unat (budget_started s)"
    using assms(4) by (simp add: unat_sub word_le_nat_alt)
  then have "budget_duration s \<le> now - budget_started s \<longleftrightarrow>
      unat (budget_started s) + unat (budget_duration s) \<le> unat now"
    using assms(4) by (simp add: word_le_nat_alt) linarith
  moreover have "budget_started s = UINT64_MAX \<Longrightarrow> now = UINT64_MAX"
    using assms(4) [folded word_le_nat_alt] word_n1_ge [of now] by (simp add: antisym)
  ultimately show ?thesis
    using assms by (auto simp: numforge_budget_check_def State_Monad.update_def budget_defs split: if_splits prod.splits)
qed

abbreviation example_late :: runtime where
  "example_late \<equiv> example_scope\<lparr>budget_failure := NUMFORGE_BUDGET_OK, clock := (\<lambda>k. Some (2, 0))\<rparr>"

theorem budget_check_deadline_witness:
  "budget_failure (snd (run_state numforge_budget_check example_late)) = NUMFORGE_BUDGET_TIME"
proof -
  have now: "run_state numforge_monotonic_ms example_late = (2000, example_late\<lparr>clock_reads := 4\<rparr>)"
    by (simp add: numforge_monotonic_ms_def)
  show ?thesis
    by (cases "run_state numforge_budget_check example_late")
      (use budget_check_deadline [OF _ _ now] in \<open>simp add: idle_runtime_def\<close>)
qed

end
