(* ===== verification/Spec2Isabelle.thy ===== *)
theory Spec2Isabelle
  imports Calculator_Language Budget_Scope
begin

text \<open>
  NumForge is a C17 library and calculator for exact and arbitrary-precision numbers. This
  development models its exact core: the resource budget of
  \<^verbatim>\<open>src/runtime\<close>, all of \<^verbatim>\<open>src/core/bigint\<close>, the fractions of
  \<^verbatim>\<open>src/core/bigrational\<close>, the arithmetic, division, rounding, powers and texts of
  \<^verbatim>\<open>src/core/bigdecimal\<close>, the exact conversions of \<^verbatim>\<open>src/modules/units\<close>,
  and the tokenizer and parser of the calculator, \<^verbatim>\<open>src/engine/parser\<close>.

  \<^bold>\<open>How the parts fit together.\<close> A calculation runs inside a thread-local budget scope
  (\<^verbatim>\<open>numforge_budget_begin\<close> to \<^verbatim>\<open>numforge_budget_end\<close>): every allocation
  is charged to it, and loops ask \<^verbatim>\<open>numforge_budget_check\<close> whether they may go on.
  A \<^verbatim>\<open>BigInt\<close> is a sign and a buffer of 64-bit limbs, least significant first.
  One-limb kernels (\<^verbatim>\<open>word128.c\<close>) carry the magnitude operations
  (\<^verbatim>\<open>bigint.c\<close>), these carry the signed operations (\<^verbatim>\<open>arithmetic.c\<close>,
  \<^verbatim>\<open>bitwise.c\<close>, \<^verbatim>\<open>multiplication.c\<close>), and those the number theory, the
  factorial tree, roots, primality and the text conversions. A \<^verbatim>\<open>BigRational\<close> owns two
  \<^verbatim>\<open>BigInt\<close>s and works through the public integer operations only, cancelling common
  factors before it multiplies. A \<^verbatim>\<open>BigDecimal\<close> owns a \<^verbatim>\<open>BigInt\<close> coefficient and a
  64-bit scale and keeps its coefficient free of trailing decimal zeros. The calculator splits an input into
  tokens, which point into it, and builds a syntax tree whose nodes are charged to the budget; literals are
  kept as text for the decimal parser, units are looked up in the catalogue.

  \<^bold>\<open>The model.\<close> Code with effects is a state monad over the record \<open>runtime\<close>
  (\<open>Runtime_Budget\<close>): the thread-local variables of \<^verbatim>\<open>numforge_alloc.c\<close>,
  the answers the clock and the C allocator will give (arbitrary), and the flag \<open>stuck\<close>,
  raised by a failed \<^verbatim>\<open>assert\<close>, a write beyond a sized buffer or spent fuel.
  An object is a record \<open>BigInt\<close> whose list \<open>limbs\<close> has the length \<^verbatim>\<open>size\<close>;
  an operation takes the objects by value, the old value of its destination included, and
  returns the \<open>BigIntStatus\<close> and the new value of the destination. An operand that
  aliases the destination is the same value passed twice: every operation of the code reads
  its operands before it commits a private temporary. Where the code compares two pointers the model has a
  flag \<open>same\<close>, but for \<^verbatim>\<open>bigint_copy\<close>, where the early return changes nothing
  (\<open>bigint_copy_self\<close>). \<^verbatim>\<open>NULL\<close> arguments have no counterpart, nor has \<^verbatim>\<open>free\<close>. \<^verbatim>\<open>size_t\<close> is a natural number with the
  64-bit bound \<open>SIZE_MAX\<close> tested wherever the code tests it, \<^verbatim>\<open>uint64_t\<close> is
  \<open>64 word\<close>.

  \<^bold>\<open>Theories.\<close>
  \<^item> \<open>NF_Prelude\<close>: machine types, carry and borrow lemmas, the total-correctness triple
    \<open>triple ok m Q\<close> and its rules (collection \<open>wp\<close>).
  \<^item> \<open>Runtime_Budget\<close>: the budget scope and the allocation wrappers; \<open>rspec u m Q\<close>, the
    triple over \<open>runtime\<close>, with \<open>u\<close> true for runs with unlimited resources.
  \<^item> \<open>Budget_Scope\<close>: the calls of the budget interface in any order (\<open>budget_trace\<close>), the
    abstract machine \<open>scope_step\<close> that its header promises, and the simulation between them.
  \<^item> \<open>Limb_Kernels\<close>, \<open>Limb_Shifts\<close>: \<^verbatim>\<open>word128.c\<close> in its 128-bit and portable
    variants; the magnitude \<open>mag\<close> of a limb list.
  \<^item> \<open>BigInt_Base\<close>, \<open>BigInt_Core\<close>: the object, its invariant \<open>bigint_wf\<close>, its integer
    \<open>bigint_val\<close>, buffer growth, copy, comparison, one-limb and magnitude operations, bits.
  \<^item> \<open>Karatsuba\<close>, \<open>BigInt_Mul\<close>: \<^verbatim>\<open>multiplication.c\<close>, the recursion on an arena
    or on per-depth workspace frames, and the schoolbook product.
  \<^item> \<open>BigInt_Division\<close>, \<open>BigInt_Divmod\<close>: Knuth's Algorithm D, with and without workspace.
  \<^item> \<open>BigInt_Contract\<close>: the locales \<open>bigint_unary\<close>, \<open>bigint_binary\<close> and
    \<open>bigint_commutative\<close>, the contract of the public operations, interpreted on the
    operations of \<open>BigInt_Arith\<close>, \<open>BigInt_Bitwise\<close> and \<open>BigInt_Number\<close>.
  \<^item> \<open>BigInt_Arith\<close>, \<open>BigInt_Bitwise\<close>, \<open>BigInt_Number\<close>, \<open>BigInt_Factorial\<close>,
    \<open>BigInt_Combinatorics\<close>: \<^verbatim>\<open>arithmetic.c\<close>, \<^verbatim>\<open>bitwise.c\<close>,
    \<^verbatim>\<open>number_theory.c\<close>, \<^verbatim>\<open>factorial.c\<close>.
  \<^item> \<open>Numerals\<close>, \<open>BigInt_Conversion\<close>: positional numerals and \<^verbatim>\<open>conversion.c\<close>.
  \<^item> \<open>Prime_Facts\<close>, \<open>BigInt_Roots\<close>, \<open>BigInt_Primality\<close>: Fermat's little theorem and integer
    roots, \<^verbatim>\<open>roots.c\<close> and \<^verbatim>\<open>primality.c\<close>.
  \<^item> \<open>Decimal_Zeros\<close>: the removal of decimal zeros, by blocks of 19 digits and by trial
    division with the inverse of a power of five (\<^verbatim>\<open>normalization.c\<close>).
  \<^item> \<open>BigRational\<close>: \<^verbatim>\<open>bigrational.c\<close> and \<^verbatim>\<open>sqrt.c\<close>; the invariant \<open>rational_wf\<close>
    (reduced, positive denominator), the number \<open>rational_val\<close> of type \<open>rat\<close>, and the locale
    \<open>rational_binary\<close>, interpreted on sum, difference and product.
  \<^item> \<open>BigDecimal_Base\<close>, \<open>BigDecimal_Arith\<close>: the decimal object, its invariant \<open>decimal_wf\<close>
    (canonical coefficient, scale in 64 bits) and number \<open>decimal_val\<close>, scales, powers of ten, normalisation
    (\<^verbatim>\<open>bigdecimal.c\<close>), exact arithmetic, comparison and sums of sequences, with the locale
    \<open>decimal_binary\<close> interpreted on sum, difference and product.
  \<^item> \<open>Decimal_Rounding\<close>, \<open>Decimal_Division\<close>: the rounding decision in the six modes and
    \<^verbatim>\<open>division.c\<close>.
  \<^item> \<open>BigDecimal_Text\<close>, \<open>Decimal_Operations\<close>: \<^verbatim>\<open>conversion.c\<close>, \<^verbatim>\<open>operations.c\<close>, means,
    and the conversions between fractions and decimals.
  \<^item> \<open>Unit_Catalog\<close>: \<^verbatim>\<open>units.c\<close>, with the generated table of units as a parameter.
  \<^item> \<open>Calculator_Tokenizer\<close>, \<open>Calculator_Expressions\<close>, \<open>Calculator_Parser\<close>:
    \<^verbatim>\<open>tokenizer.c\<close>, the registry of functions and the syntax trees, \<^verbatim>\<open>parser.c\<close>.
  \<^item> \<open>Calculator_Lexemes\<close>: the tokens of an input by longest match and the lexical errors, as a relation
    \<open>lexes\<close> over sets of bytes; it determines the tokens, and the tokenizer computes them.
  \<^item> \<open>Calculator_Grammar\<close>, \<open>Calculator_Language\<close>: the grammar of expressions as inductive relations
    on token lists, with its own tables of operators, first tokens and arities; the parser is sound and complete
    for it, and its trees are well typed (\<open>tree_ok\<close>).

  \<^bold>\<open>What is shown.\<close> For each operation a \<open>_wp\<close> lemma: from a state that is not stuck, the
  run ends, is not stuck, and returns either \<open>BIGINT_OK\<close> and a canonical object with the
  value of the mathematical operation, or a documented status and the old destination. A
  resource status (\<open>BIGINT_OUT_OF_MEMORY\<close>, \<open>BIGINT_VALUE_TOO_LARGE\<close>) is only returned
  when resources are limited or the result does not fit \<open>BIGINT_MAX_LIMBS\<close> limbs
  (\<open>outcome\<close>, \<open>result_ok\<close>). The properties state this for the public operations, with the
  reference definitions of HOL on the other side (\<open>gcd\<close>, \<open>choose\<close>, \<open>fact\<close>, powers, bit
  operations, numerals, square roots, primes, the field of rational numbers), and add
  equivalences of optimised with plain routines, round trips and bounds. For the fractions
  \<open>routcome\<close> plays the part of \<open>outcome\<close>; for the decimals \<open>doutcome\<close> does, which adds that a
  scale overflow is reported only when no canonical object can hold the result. The tokenizer returns exactly the
  tokens of the lexical relation, and its errors at their positions, and the parser accepts exactly the sentences of
  the grammar. For the resource scope the properties are about
  all sequences of calls: the refinement of the abstract machine, the limits, the persistence
  of a failure and the deadline.

  \<^bold>\<open>Fuel.\<close> Loops whose end is not structural carry fuel and raise \<open>stuck\<close> when it is
  spent, so that \<open>\<not> stuck\<close> in a conclusion is termination. The fuel is the value the loop
  counts down: the doublings of a \<^verbatim>\<open>size_t\<close> (64), the number of bits or of limbs
  of an operand, the smaller operand of Euclid's algorithm, the first iterate of Newton's
  iteration, the room left in a buffer. The parser has two units of fuel for each of its 256 levels of recursion, and its
  loops one for each byte of the input.

  \<^bold>\<open>Not modelled.\<close> The approximate functions of \<^verbatim>\<open>bigdecimal\<close> (constants, roots,
  logarithms, trigonometry, statistics) with the conversions that need \<open>\<pi>\<close>, number formatting,
  \<^verbatim>\<open>bigcomplex\<close>, the evaluator and the sessions of the calculator, the other modules, the web
  applications, the language bindings, and the test-only instrumentation of the allocator: their correctness is
  about error bounds of numerical series or about input and output. Allocation addresses and
  \<^verbatim>\<open>free\<close> are abstracted, so leaks and double frees are outside the model.
\<close>

end
